(* ===== verification/RT_Prelude.thy ===== *)
theory RT_Prelude
  imports Main "HOL-Library.Word" "HOL-Library.Monad_Syntax"
begin

text \<open>
  The shared ground of the development: the C integer types of
  \<^verbatim>\<open>kernel/include/rtdef.h\<close> as words of their width, the collections of
  rewrite rules the component theories fill, and the generic facts on options, lists
  and words that their proofs use.

  Every operation of the kernel that can stop the machine is a function into
  \<^typ>\<open>'a option\<close>: \<^term>\<open>None\<close> says that the C code does not come back, because an
  \<^verbatim>\<open>RT_ASSERT\<close> failed (\<^verbatim>\<open>rt_assert_handler\<close> ends in
  \<^verbatim>\<open>while (dummy == 0);\<close> when no assert hook is installed), because a pointer
  that designates no object was followed, or because a loop runs forever.
\<close>

unbundle bit_operations_syntax

type_synonym rt_uint8_t = "8 word"
type_synonym rt_uint16_t = "16 word"
type_synonym rt_uint32_t = "32 word"
type_synonym rt_tick_t = "32 word"
type_synonym rt_err_t = int

named_theorems rt_consts \<open>the values of the kernel's macros\<close>
named_theorems rt_frame \<open>what an operation leaves unchanged\<close>
named_theorems rt_unfold \<open>the definitions of the small state accessors\<close>

section \<open>Constants of rtdef.h\<close>

definition RT_EOK :: rt_err_t where [rt_consts]: "RT_EOK = 0"
definition RT_ERROR :: rt_err_t where [rt_consts]: "RT_ERROR = 1"
definition RT_ETIMEOUT :: rt_err_t where [rt_consts]: "RT_ETIMEOUT = 2"
definition RT_EFULL :: rt_err_t where [rt_consts]: "RT_EFULL = 3"
definition RT_EEMPTY :: rt_err_t where [rt_consts]: "RT_EEMPTY = 4"
definition RT_ENOMEM :: rt_err_t where [rt_consts]: "RT_ENOMEM = 5"
definition RT_ENOSYS :: rt_err_t where [rt_consts]: "RT_ENOSYS = 6"
definition RT_EBUSY :: rt_err_t where [rt_consts]: "RT_EBUSY = 7"
definition RT_EIO :: rt_err_t where [rt_consts]: "RT_EIO = 8"
definition RT_EINTR :: rt_err_t where [rt_consts]: "RT_EINTR = 9"

definition RT_TICK_MAX :: rt_tick_t where [rt_consts]: "RT_TICK_MAX = 0xffffffff"

text \<open>\<^verbatim>\<open>RT_TICK_MAX / 2\<close>, the horizon of every tick comparison of the timer code.\<close>

definition RT_TICK_HALF :: rt_tick_t where [rt_consts]: "RT_TICK_HALF = 0x7fffffff"

lemma RT_TICK_HALF_eq: "RT_TICK_HALF = RT_TICK_MAX div 2"
  by (simp add: rt_consts)

section \<open>Assertions\<close>

text \<open>\<^verbatim>\<open>RT_ASSERT(EX)\<close>: nothing when the condition holds, the end of the run otherwise.\<close>

definition RT_ASSERT :: "bool \<Rightarrow> unit option" where
  "RT_ASSERT b = (if b then Some () else None)"

lemma RT_ASSERT_Some [simp]: "RT_ASSERT b = Some u \<longleftrightarrow> b"
  by (simp add: RT_ASSERT_def)

lemma RT_ASSERT_True [simp]: "RT_ASSERT True = Some ()"
  by (simp add: RT_ASSERT_def)

lemma RT_ASSERT_False [simp]: "RT_ASSERT False = None"
  by (simp add: RT_ASSERT_def)

lemma bind_ASSERT: "Option.bind (RT_ASSERT b) f = (if b then f () else None)"
  by (simp add: RT_ASSERT_def)

lemma bind_Some_iff: "Option.bind m f = Some y \<longleftrightarrow> (\<exists>x. m = Some x \<and> f x = Some y)"
  by (cases m) auto

section \<open>Lists\<close>

lemma filter_neq_remove1: "distinct xs \<Longrightarrow> filter (\<lambda>x. x \<noteq> a) xs = remove1 a xs"
  by (induction xs) (auto simp: filter_id_conv)

lemma remove1_middle: "a \<notin> set xs \<Longrightarrow> remove1 a (xs @ a # ys) = xs @ ys"
  by (simp add: remove1_append)

lemma split_at_elem:
  assumes "x \<in> set xs"
  obtains ys zs where "xs = ys @ x # zs" "x \<notin> set ys"
  using split_list_first [OF assms] by blast

lemma distinct_insert_at:
  assumes "distinct xs" and "n \<notin> set xs"
  shows "distinct (take i xs @ n # drop i xs)"
proof -
  have "distinct (take i xs @ drop i xs)" using assms(1) by simp
  moreover have "n \<notin> set (take i xs)" "n \<notin> set (drop i xs)"
    using assms(2) by (auto dest: in_set_takeD in_set_dropD)
  ultimately show ?thesis by (simp del: append_take_drop_id)
qed

lemma set_insert_at: "set (take i xs @ n # drop i xs) = insert n (set xs)"
  by (metis Un_insert_right append_take_drop_id list.simps(15) set_append)

lemma length_insert_at [simp]: "length (take i xs @ n # drop i xs) = Suc (length xs)"
  by simp

section \<open>Words\<close>

lemma word_bit_neq_0: "(w :: 'a::len word) \<noteq> 0 \<longleftrightarrow> (\<exists>n<LENGTH('a). bit w n)"
  by (metis bit_0_eq bit_eq_iff bit_imp_le_length bot_apply bot_bool_def)

text \<open>\<^verbatim>\<open>1 << n\<close>\<close>

definition one_shl :: "nat \<Rightarrow> 'a::len word" where
  "one_shl n = push_bit n 1"

lemma bit_push_1: "bit (push_bit n (1 :: 'a::len word)) m \<longleftrightarrow> n = m \<and> n < LENGTH('a)"
  by (simp add: bit_simps) (metis order_refl)

lemma bit_one_shl: "bit (one_shl n :: 'a::len word) m \<longleftrightarrow> n = m \<and> n < LENGTH('a)"
  unfolding one_shl_def by (rule bit_push_1)

lemma bit_not_one_shl: "bit (NOT (one_shl n :: 'a::len word)) m \<longleftrightarrow> m < LENGTH('a) \<and> n \<noteq> m"
  by (auto simp: bit_not_iff bit_one_shl)

lemma unat_inc_less: "unat (x :: 'a::len word) + 1 < 2 ^ LENGTH('a) \<Longrightarrow> unat (x + 1) = unat x + 1"
  by (simp add: unat_word_ariths)

lemma unat_dec: "x \<noteq> 0 \<Longrightarrow> unat ((x :: 'a::len word) - 1) = unat x - 1"
  by (simp add: unat_minus_one)

end
