(* ===== verification/RT_Ring.thy ===== *)
theory RT_Ring
  imports RT_Prelude
begin

text \<open>
  What the bounded buffers of the kernel share.  The byte ring buffer and the mailbox keep
  their elements in an array that is read around its end; \<open>ring_read\<close> is the sequence
  such a ring holds.  The ring buffer, the mailbox and the message queue promise their
  clients the same thing, a bounded first-in first-out queue; the locale
  \<open>bounded_queue\<close> states that interface and proves its consequences once.
\<close>

section \<open>Rings in arrays\<close>

definition ring_read :: "nat \<Rightarrow> nat \<Rightarrow> nat \<Rightarrow> 'a list \<Rightarrow> 'a list" where
  "ring_read sz r n buf = map (\<lambda>i. buf ! ((r + i) mod sz)) [0..<n]"

lemma ring_read_length [simp]: "length (ring_read sz r n buf) = n"
  by (simp add: ring_read_def)

lemma ring_read_nth: "i < n \<Longrightarrow> ring_read sz r n buf ! i = buf ! ((r + i) mod sz)"
  by (simp add: ring_read_def)

lemma ring_read_0 [simp]: "ring_read sz r 0 buf = []"
  by (simp add: ring_read_def)

lemma ring_read_Cons:
  "ring_read sz r (Suc n) buf = buf ! (r mod sz) # ring_read sz (Suc r) n buf"
  by (simp add: ring_read_def upt_conv_Cons del: upt_Suc flip: map_Suc_upt)

lemma ring_read_mod: "ring_read sz (r mod sz) n buf = ring_read sz r n buf"
  by (rule nth_equalityI) (simp_all add: ring_read_nth mod_add_left_eq)

lemma ring_read_drop: "ring_read sz ((r + k) mod sz) (n - k) buf = drop k (ring_read sz r n buf)"
  unfolding ring_read_mod by (rule nth_equalityI) (simp_all add: ring_read_nth add.assoc)

lemma ring_read_take: "k \<le> n \<Longrightarrow> take k (ring_read sz r n buf) = ring_read sz r k buf"
  by (rule nth_equalityI) (simp_all add: ring_read_nth)

text \<open>Two positions of a ring closer than its size are different.\<close>

lemma ring_pos_neq:
  assumes "i < j" and "j < i + sz"
  shows "(r + i) mod sz \<noteq> (r + j) mod (sz :: nat)"
proof
  assume "(r + i) mod sz = (r + j) mod sz"
  then have "sz dvd (r + j) - (r + i)"
    using assms mod_eq_dvd_iff_nat [of "r + i" "r + j" sz] by simp
  then have "sz \<le> j - i" using assms by (intro dvd_imp_le) auto
  with assms show False by arith
qed

text \<open>A write of \<open>src\<close> behind the \<open>n\<close> elements in use, whatever way it is carried out.\<close>

lemma ring_read_extend:
  assumes "\<And>i. i < n \<Longrightarrow> buf' ! ((r + i) mod sz) = buf ! ((r + i) mod sz)"
    and "\<And>i. i < length src \<Longrightarrow> buf' ! ((r + n + i) mod sz) = src ! i"
  shows "ring_read sz r (n + length src) buf' = ring_read sz r n buf @ src"
proof (rule nth_equalityI)
  fix i assume i: "i < length (ring_read sz r (n + length src) buf')"
  show "ring_read sz r (n + length src) buf' ! i = (ring_read sz r n buf @ src) ! i"
  proof (cases "i < n")
    case True
    with assms(1) show ?thesis by (simp add: ring_read_nth nth_append)
  next
    case False
    with i assms(2) [of "i - n"] show ?thesis by (simp add: ring_read_nth nth_append)
  qed
qed simp

lemma ring_read_snoc:
  assumes "n < sz" and "sz \<le> length buf"
  shows "ring_read sz r (Suc n) (buf[(r + n) mod sz := v]) = ring_read sz r n buf @ [v]"
proof -
  have "ring_read sz r (n + length [v]) (buf[(r + n) mod sz := v]) = ring_read sz r n buf @ [v]"
  proof (rule ring_read_extend)
    fix i assume "i < n"
    with assms ring_pos_neq [of i n sz r]
    show "buf[(r + n) mod sz := v] ! ((r + i) mod sz) = buf ! ((r + i) mod sz)" by simp
  next
    fix i assume "i < length [v]"
    moreover have "(r + n) mod sz < length buf"
      using assms mod_less_divisor [of sz "r + n"] by linarith
    ultimately show "buf[(r + n) mod sz := v] ! ((r + n + i) mod sz) = [v] ! i" by simp
  qed
  then show ?thesis by simp
qed

text \<open>A write in front of the elements in use.\<close>

lemma ring_read_push:
  assumes "n < sz" and "sz \<le> length buf" and "q < sz" and "Suc q mod sz = r mod sz"
  shows "ring_read sz q (Suc n) (buf[q := v]) = v # ring_read sz r n buf"
proof -
  have "buf[q := v] ! (q mod sz) = v" using assms by simp
  moreover have "ring_read sz (Suc q) n (buf[q := v]) = ring_read sz r n buf"
  proof (rule nth_equalityI)
    fix i assume "i < length (ring_read sz (Suc q) n (buf[q := v]))"
    then have i: "i < n" by simp
    have "(Suc q + i) mod sz = (r + i) mod sz" using assms(4) by (metis mod_add_left_eq)
    moreover have "q \<noteq> (Suc q + i) mod sz"
      using ring_pos_neq [of 0 "Suc i" sz q] i assms by simp
    ultimately show "ring_read sz (Suc q) n (buf[q := v]) ! i = ring_read sz r n buf ! i"
      using i by (simp add: ring_read_nth)
  qed simp
  ultimately show ?thesis by (simp add: ring_read_Cons)
qed

section \<open>Reading and writing blocks\<close>

text \<open>
  \<^verbatim>\<open>memcpy\<close> of \<open>src\<close> to index \<open>i\<close> of an area, and of \<open>n\<close> elements from index
  \<open>i\<close> of an area; outside of the area there is no result.
\<close>

definition store_at :: "nat \<Rightarrow> 'a list \<Rightarrow> 'a list \<Rightarrow> 'a list option" where
  "store_at i src area =
     (if i + length src \<le> length area then Some (take i area @ src @ drop (i + length src) area) else None)"

definition load_at :: "nat \<Rightarrow> nat \<Rightarrow> 'a list \<Rightarrow> 'a list option" where
  "load_at i n area = (if i + n \<le> length area then Some (take n (drop i area)) else None)"

lemma store_at_Some: "i + length src \<le> length area \<Longrightarrow> \<exists>a. store_at i src area = Some a"
  by (simp add: store_at_def)

lemma store_at_length: "store_at i src area = Some a \<Longrightarrow> length a = length area"
  by (auto simp: store_at_def split: if_splits)

lemma store_at_nth:
  "store_at i src area = Some a \<Longrightarrow> j < length area \<Longrightarrow>
   a ! j = (if i \<le> j \<and> j < i + length src then src ! (j - i) else area ! j)"
  by (auto simp: store_at_def nth_append split: if_splits)

lemma store_at_one: "i < length area \<Longrightarrow> store_at i [v] area = Some (area[i := v])"
  by (simp add: store_at_def upd_conv_take_nth_drop)

lemma load_at_one: "i < length area \<Longrightarrow> load_at i 1 area = Some [area ! i]"
  by (simp add: load_at_def take_Suc_conv_app_nth [of 0] hd_drop_conv_nth take_Suc)

text \<open>
  Writing a block at index \<open>w\<close> of a ring, in one piece when it ends before the end of
  the array and in two pieces otherwise.
\<close>

definition ring_write :: "nat \<Rightarrow> nat \<Rightarrow> 'a list \<Rightarrow> 'a list \<Rightarrow> 'a list \<Rightarrow> bool" where
  "ring_write sz w src buf buf' \<longleftrightarrow>
     length buf' = length buf \<and> (\<forall>i<length src. buf' ! ((w + i) mod sz) = src ! i)
     \<and> (\<forall>j < sz. (\<forall>i<length src. j \<noteq> (w + i) mod sz) \<longrightarrow> buf' ! j = buf ! j)"

lemma ring_write_straight:
  assumes "sz \<le> length buf" and "w + length src \<le> sz" and "store_at w src buf = Some buf'"
  shows "ring_write sz w src buf buf'"
  unfolding ring_write_def
proof (intro conjI allI impI)
  show "length buf' = length buf" using assms(3) by (rule store_at_length)
next
  fix i assume "i < length src"
  with assms show "buf' ! ((w + i) mod sz) = src ! i" by (simp add: store_at_nth)
next
  fix j assume j: "j < sz" "\<forall>i<length src. j \<noteq> (w + i) mod sz"
  have "j \<noteq> w + i" if "i < length src" for i
    using j that assms(2) by simp
  then have "\<not> (w \<le> j \<and> j < w + length src)"
    by (metis le_Suc_ex nat_add_left_cancel_less)
  with assms j show "buf' ! j = buf ! j" by (auto simp: store_at_nth)
qed

lemma ring_write_wrap:
  assumes "sz \<le> length buf" and "w < sz" and "length src \<le> sz" and "sz \<le> w + length src"
    and st1: "store_at w (take (sz - w) src) buf = Some buf1"
    and st2: "store_at 0 (drop (sz - w) src) buf1 = Some buf'"
  shows "ring_write sz w src buf buf'"
  unfolding ring_write_def
proof (intro conjI allI impI)
  show l: "length buf' = length buf" using st1 st2 by (metis store_at_length)
  have nth: "buf' ! j = (if j < length src - (sz - w) then src ! (sz - w + j)
      else if w \<le> j then src ! (j - w) else buf ! j)" if "j < sz" for j
    using that assms store_at_length [OF st1] by (auto simp: store_at_nth [OF st2] store_at_nth [OF st1])
  fix i assume "i < length src"
  with assms(2,3) show "buf' ! ((w + i) mod sz) = src ! i" by (auto simp: nth mod_if)
next
  fix j assume j: "j < sz" "\<forall>i<length src. j \<noteq> (w + i) mod sz"
  have "\<not> w \<le> j" using j(1) assms(3,4) spec [OF j(2), of "j - w"] by auto
  moreover have "\<not> j < length src - (sz - w)"
    using j(1) assms(2,3) spec [OF j(2), of "sz - w + j"] by (auto simp: mod_if)
  ultimately show "buf' ! j = buf ! j"
    using j assms(1) store_at_length [OF st1]
    by (simp add: store_at_nth [OF st2] store_at_nth [OF st1] min_def)
qed

lemma ring_read_write:
  assumes "ring_write sz ((r + n) mod sz) src buf buf'" and "n + length src \<le> sz" and "0 < sz"
  shows "ring_read sz r (n + length src) buf' = ring_read sz r n buf @ src"
proof (rule ring_read_extend)
  fix i assume "i < n"
  then have "(r + i) mod sz \<noteq> (r + (n + j)) mod sz" if "j < length src" for j
    using that assms(2) by (intro ring_pos_neq) auto
  then show "buf' ! ((r + i) mod sz) = buf ! ((r + i) mod sz)"
    using assms(1,3) by (simp add: ring_write_def mod_add_left_eq add.assoc)
next
  fix i assume "i < length src"
  with assms(1) show "buf' ! ((r + n + i) mod sz) = src ! i"
    by (simp add: ring_write_def mod_add_left_eq)
qed

lemma load_at_nth: "load_at i n area = Some a \<Longrightarrow> j < n \<Longrightarrow> a ! j = area ! (i + j)"
  by (auto simp: load_at_def split: if_splits)

lemma load_at_length: "load_at i n area = Some a \<Longrightarrow> length a = n"
  by (auto simp: load_at_def split: if_splits)

section \<open>Bounded queues\<close>

datatype 'a queue_op = Push 'a | Pop
datatype 'a queue_result = Pushed bool | Popped "'a option"

text \<open>The results of a sequence of operations, on an implementation and on the list it stands for.  An operation of an
  implementation is accepted or refused, and goes on with the state it leaves; it is \<open>None\<close>, and the whole run with it,
  when the code fails (an assertion, an access outside an array), blocks or reports any other error.\<close>

fun queue_run :: "('s \<Rightarrow> 'a \<Rightarrow> (bool \<times> 's) option) \<Rightarrow> ('s \<Rightarrow> ('a option \<times> 's) option) \<Rightarrow> 's \<Rightarrow> 'a queue_op list \<Rightarrow>
    'a queue_result list option" where
  "queue_run push pop s [] = Some []"
| "queue_run push pop s (Push x # ops) =
     do { (b, s) \<leftarrow> push s x; rs \<leftarrow> queue_run push pop s ops; Some (Pushed b # rs) }"
| "queue_run push pop s (Pop # ops) =
     do { (r, s) \<leftarrow> pop s; rs \<leftarrow> queue_run push pop s ops; Some (Popped r # rs) }"

fun queue_spec :: "nat \<Rightarrow> 'a list \<Rightarrow> 'a queue_op list \<Rightarrow> 'a queue_result list" where
  "queue_spec c xs [] = []"
| "queue_spec c xs (Push x # ops) =
     (if length xs < c then Pushed True # queue_spec c (xs @ [x]) ops else Pushed False # queue_spec c xs ops)"
| "queue_spec c [] (Pop # ops) = Popped None # queue_spec c [] ops"
| "queue_spec c (x # xs) (Pop # ops) = Popped (Some x) # queue_spec c xs ops"

text \<open>
  The interface of a queue that takes the elements \<open>valid\<close> allows; which ones these are does not change with the state.
\<close>

locale sized_queue =
  fixes invar :: "'s \<Rightarrow> bool" and contents :: "'s \<Rightarrow> 'a list" and capacity :: "'s \<Rightarrow> nat"
    and push :: "'s \<Rightarrow> 'a \<Rightarrow> (bool \<times> 's) option" and pop :: "'s \<Rightarrow> ('a option \<times> 's) option" and valid :: "'s \<Rightarrow> 'a \<Rightarrow> bool"
  assumes bounded: "invar s \<Longrightarrow> length (contents s) \<le> capacity s"
    and push_full: "invar s \<Longrightarrow> valid s x \<Longrightarrow> length (contents s) = capacity s \<Longrightarrow> push s x = Some (False, s)"
    and push_room: "invar s \<Longrightarrow> valid s x \<Longrightarrow> length (contents s) < capacity s \<Longrightarrow>
      \<exists>t. push s x = Some (True, t) \<and> invar t \<and> capacity t = capacity s \<and> valid t = valid s \<and> contents t = contents s @ [x]"
    and pop_empty: "invar s \<Longrightarrow> contents s = [] \<Longrightarrow> pop s = Some (None, s)"
    and pop_first: "invar s \<Longrightarrow> contents s = x # xs \<Longrightarrow>
      \<exists>t. pop s = Some (Some x, t) \<and> invar t \<and> capacity t = capacity s \<and> valid t = valid s \<and> contents t = xs"
begin

lemma run_refines:
  "invar s \<Longrightarrow> (\<And>x. Push x \<in> set ops \<Longrightarrow> valid s x) \<Longrightarrow>
   queue_run push pop s ops = Some (queue_spec (capacity s) (contents s) ops)"
proof (induction ops arbitrary: s)
  case (Cons op ops)
  have v: "valid s x" if "Push x \<in> set ops" for x using Cons.prems(2) that by simp
  show ?case
  proof (cases op)
    case (Push x)
    then have vx: "valid s x" using Cons.prems(2) by simp
    show ?thesis
    proof (cases "length (contents s) < capacity s")
      case True
      then obtain t where t: "push s x = Some (True, t)" "invar t" "capacity t = capacity s" "valid t = valid s" "contents t = contents s @ [x]"
        using push_room [OF Cons.prems(1) vx] by blast
      show ?thesis using Push True t Cons.IH [OF t(2)] v by simp
    next
      case False
      with bounded [OF Cons.prems(1)] push_full [OF Cons.prems(1) vx] Push Cons.IH [OF Cons.prems(1) v] show ?thesis by simp
    qed
  next
    case Pop
    show ?thesis
    proof (cases "contents s")
      case Nil
      with pop_empty [OF Cons.prems(1)] Pop Cons.IH [OF Cons.prems(1) v] show ?thesis by simp
    next
      case (Cons y ys)
      then obtain t where t: "pop s = Some (Some y, t)" "invar t" "capacity t = capacity s" "valid t = valid s" "contents t = ys"
        using pop_first [OF Cons.prems(1)] by blast
      show ?thesis using Pop Cons t Cons.IH [OF t(2)] v by simp
    qed
  qed
qed simp

end

text \<open>A queue that takes every element.\<close>

locale bounded_queue =
  fixes invar :: "'s \<Rightarrow> bool" and contents :: "'s \<Rightarrow> 'a list" and capacity :: "'s \<Rightarrow> nat"
    and push :: "'s \<Rightarrow> 'a \<Rightarrow> (bool \<times> 's) option" and pop :: "'s \<Rightarrow> ('a option \<times> 's) option"
  assumes bounded: "invar s \<Longrightarrow> length (contents s) \<le> capacity s"
    and push_full: "invar s \<Longrightarrow> length (contents s) = capacity s \<Longrightarrow> push s x = Some (False, s)"
    and push_room: "invar s \<Longrightarrow> length (contents s) < capacity s \<Longrightarrow>
      \<exists>t. push s x = Some (True, t) \<and> invar t \<and> capacity t = capacity s \<and> contents t = contents s @ [x]"
    and pop_empty: "invar s \<Longrightarrow> contents s = [] \<Longrightarrow> pop s = Some (None, s)"
    and pop_first: "invar s \<Longrightarrow> contents s = x # xs \<Longrightarrow>
      \<exists>t. pop s = Some (Some x, t) \<and> invar t \<and> capacity t = capacity s \<and> contents t = xs"

sublocale bounded_queue \<subseteq> every: sized_queue invar contents capacity push pop "\<lambda>_ _. True"
  using bounded push_full push_room pop_empty pop_first by unfold_locales simp_all

lemma queue_spec_pops: "queue_spec c xs (replicate (length xs) Pop) = map (\<lambda>x. Popped (Some x)) xs"
  by (induction xs) auto

lemma queue_spec_pushes:
  "length ys + length xs \<le> c \<Longrightarrow>
   queue_spec c ys (map Push xs @ ops) = replicate (length xs) (Pushed True) @ queue_spec c (ys @ xs) ops"
  by (induction xs arbitrary: ys) auto

context sized_queue
begin

text \<open>What goes in comes out, in the same order.\<close>

lemma fill_and_drain:
  assumes "invar s" and "contents s = []" and "length xs \<le> capacity s" and "\<And>x. x \<in> set xs \<Longrightarrow> valid s x"
  shows "queue_run push pop s (map Push xs @ replicate (length xs) Pop) =
    Some (replicate (length xs) (Pushed True) @ map (\<lambda>x. Popped (Some x)) xs)"
proof -
  have "queue_run push pop s (map Push xs @ replicate (length xs) Pop)
      = Some (queue_spec (capacity s) (contents s) (map Push xs @ replicate (length xs) Pop))"
    using assms(4) by (intro run_refines assms(1)) auto
  then show ?thesis using assms(2,3) by (simp add: queue_spec_pushes queue_spec_pops)
qed

end

end
