(* ===== verification/RT_Ringbuffer.thy ===== *)
theory RT_Ringbuffer
  imports RT_Ring
begin

text \<open>
  The byte ring buffer of \<^verbatim>\<open>kernel/utilities/ringbuffer.c\<close>.  The record has the fields
  of \<^verbatim>\<open>struct rt_ringbuffer\<close> at their width: two 15 bit indices, two mirror bits and
  a signed 16 bit size; the pool is the list of its bytes, and a \<^verbatim>\<open>memcpy\<close> outside
  of the pool or of the caller's buffer is \<^term>\<open>None\<close>.  The lemmas show that the
  operations implement a bounded queue of bytes.
\<close>

section \<open>The code\<close>

record rt_ringbuffer =
  buffer_ptr :: "rt_uint8_t list"
  read_mirror :: bool
  read_index :: "15 word"
  write_mirror :: bool
  write_index :: "15 word"
  buffer_size :: "16 word"

datatype rt_ringbuffer_state = RT_RINGBUFFER_EMPTY | RT_RINGBUFFER_FULL | RT_RINGBUFFER_HALFFULL

definition rt_ringbuffer_status :: "rt_ringbuffer \<Rightarrow> rt_ringbuffer_state" where
  "rt_ringbuffer_status rb =
     (if read_index rb = write_index rb
      then if read_mirror rb = write_mirror rb then RT_RINGBUFFER_EMPTY else RT_RINGBUFFER_FULL
      else RT_RINGBUFFER_HALFFULL)"

text \<open>\<^verbatim>\<open>RT_ALIGN_DOWN(size, RT_ALIGN_SIZE)\<close> with \<^verbatim>\<open>RT_ALIGN_SIZE\<close> 4.\<close>

definition rt_ringbuffer_init :: "rt_uint8_t list \<Rightarrow> 16 word \<Rightarrow> rt_ringbuffer option" where
  "rt_ringbuffer_init pool sz =
     do { RT_ASSERT (0 < sint sz);
          Some \<lparr>buffer_ptr = pool, read_mirror = False, read_index = 0, write_mirror = False,
                write_index = 0, buffer_size = sz AND NOT 3\<rparr> }"

definition rt_ringbuffer_data_len :: "rt_ringbuffer \<Rightarrow> rt_uint32_t" where
  "rt_ringbuffer_data_len rb =
     (case rt_ringbuffer_status rb of
        RT_RINGBUFFER_EMPTY \<Rightarrow> 0
      | RT_RINGBUFFER_FULL \<Rightarrow> word_of_int (sint (buffer_size rb))
      | RT_RINGBUFFER_HALFFULL \<Rightarrow>
          if read_index rb < write_index rb
          then word_of_int (uint (write_index rb) - uint (read_index rb))
          else word_of_int (sint (buffer_size rb) - (uint (read_index rb) - uint (write_index rb))))"

definition rt_ringbuffer_space_len :: "rt_ringbuffer \<Rightarrow> rt_uint32_t" where
  "rt_ringbuffer_space_len rb = word_of_int (sint (buffer_size rb)) - rt_ringbuffer_data_len rb"

definition rt_ringbuffer_put ::
    "rt_ringbuffer \<Rightarrow> rt_uint8_t list \<Rightarrow> 16 word \<Rightarrow> (rt_ringbuffer \<times> rt_uint32_t) option" where
  "rt_ringbuffer_put rb ptr len =
     (let sz = ucast (rt_ringbuffer_space_len rb) :: 16 word in
      if sz = 0 then Some (rb, 0)
      else
        let len = (if sz < len then sz else len);
            room = sint (buffer_size rb) - uint (write_index rb) in
        if room > uint len then
          do { src \<leftarrow> load_at 0 (unat len) ptr;
               buf \<leftarrow> store_at (unat (write_index rb)) src (buffer_ptr rb);
               Some (rb\<lparr>buffer_ptr := buf, write_index := write_index rb + ucast len\<rparr>, ucast len) }
        else
          do { src1 \<leftarrow> load_at 0 (nat room) ptr;
               buf1 \<leftarrow> store_at (unat (write_index rb)) src1 (buffer_ptr rb);
               src2 \<leftarrow> load_at (nat room) (nat (uint len - room)) ptr;
               buf2 \<leftarrow> store_at 0 src2 buf1;
               Some (rb\<lparr>buffer_ptr := buf2, write_mirror := \<not> write_mirror rb,
                        write_index := word_of_int (uint len - room)\<rparr>, ucast len) })"

definition rt_ringbuffer_put_force ::
    "rt_ringbuffer \<Rightarrow> rt_uint8_t list \<Rightarrow> 16 word \<Rightarrow> (rt_ringbuffer \<times> rt_uint32_t) option" where
  "rt_ringbuffer_put_force rb ptr0 len0 =
     (let space_length = ucast (rt_ringbuffer_space_len rb) :: 16 word;
          over = uint len0 > sint (buffer_size rb);
          ptr = (if over then drop (nat (uint len0 - sint (buffer_size rb))) ptr0 else ptr0);
          len = (if over then buffer_size rb else len0);
          room = sint (buffer_size rb) - uint (write_index rb) in
      if room > uint len then
        do { src \<leftarrow> load_at 0 (unat len) ptr;
             buf \<leftarrow> store_at (unat (write_index rb)) src (buffer_ptr rb);
             let rb1 = rb\<lparr>buffer_ptr := buf, write_index := write_index rb + ucast len\<rparr>;
             Some (if len > space_length then rb1\<lparr>read_index := write_index rb1\<rparr> else rb1, ucast len) }
      else
        do { src1 \<leftarrow> load_at 0 (nat room) ptr;
             buf1 \<leftarrow> store_at (unat (write_index rb)) src1 (buffer_ptr rb);
             src2 \<leftarrow> load_at (nat room) (nat (uint len - room)) ptr;
             buf2 \<leftarrow> store_at 0 src2 buf1;
             let rb1 = rb\<lparr>buffer_ptr := buf2, write_mirror := \<not> write_mirror rb,
                          write_index := word_of_int (uint len - room)\<rparr>;
             Some (if len > space_length
                   then rb1\<lparr>read_mirror := \<not> read_mirror rb1, read_index := write_index rb1\<rparr> else rb1,
                   ucast len) })"

text \<open>\<^verbatim>\<open>rt_ringbuffer_get\<close> also returns the bytes it copied to the caller's buffer.\<close>

definition rt_ringbuffer_get ::
    "rt_ringbuffer \<Rightarrow> 16 word \<Rightarrow> (rt_ringbuffer \<times> rt_uint8_t list \<times> rt_uint32_t) option" where
  "rt_ringbuffer_get rb len =
     (let sz = rt_ringbuffer_data_len rb in
      if sz = 0 then Some (rb, [], 0)
      else
        let len = (if sz < ucast len then ucast sz else len);
            room = sint (buffer_size rb) - uint (read_index rb) in
        if room > uint len then
          do { out \<leftarrow> load_at (unat (read_index rb)) (unat len) (buffer_ptr rb);
               Some (rb\<lparr>read_index := read_index rb + ucast len\<rparr>, out, ucast len) }
        else
          do { out1 \<leftarrow> load_at (unat (read_index rb)) (nat room) (buffer_ptr rb);
               out2 \<leftarrow> load_at 0 (nat (uint len - room)) (buffer_ptr rb);
               Some (rb\<lparr>read_mirror := \<not> read_mirror rb, read_index := word_of_int (uint len - room)\<rparr>,
                     out1 @ out2, ucast len) })"

definition rt_ringbuffer_putchar :: "rt_ringbuffer \<Rightarrow> rt_uint8_t \<Rightarrow> (rt_ringbuffer \<times> rt_uint32_t) option" where
  "rt_ringbuffer_putchar rb ch =
     (if rt_ringbuffer_space_len rb = 0 then Some (rb, 0)
      else do { buf \<leftarrow> store_at (unat (write_index rb)) [ch] (buffer_ptr rb);
                let rb = rb\<lparr>buffer_ptr := buf\<rparr>;
                Some (if uint (write_index rb) = sint (buffer_size rb) - 1
                      then rb\<lparr>write_mirror := \<not> write_mirror rb, write_index := 0\<rparr>
                      else rb\<lparr>write_index := write_index rb + 1\<rparr>, 1) })"

definition rt_ringbuffer_putchar_force ::
    "rt_ringbuffer \<Rightarrow> rt_uint8_t \<Rightarrow> (rt_ringbuffer \<times> rt_uint32_t) option" where
  "rt_ringbuffer_putchar_force rb ch =
     (let old_state = rt_ringbuffer_status rb in
      do { buf \<leftarrow> store_at (unat (write_index rb)) [ch] (buffer_ptr rb);
           let rb = rb\<lparr>buffer_ptr := buf\<rparr>;
           Some (if uint (write_index rb) = sint (buffer_size rb) - 1
                 then let rb = rb\<lparr>write_mirror := \<not> write_mirror rb, write_index := 0\<rparr> in
                      if old_state = RT_RINGBUFFER_FULL
                      then rb\<lparr>read_mirror := \<not> read_mirror rb, read_index := write_index rb\<rparr> else rb
                 else let rb = rb\<lparr>write_index := write_index rb + 1\<rparr> in
                      if old_state = RT_RINGBUFFER_FULL then rb\<lparr>read_index := write_index rb\<rparr> else rb, 1) })"

definition rt_ringbuffer_getchar :: "rt_ringbuffer \<Rightarrow> (rt_ringbuffer \<times> rt_uint8_t option \<times> rt_uint32_t) option" where
  "rt_ringbuffer_getchar rb =
     (if rt_ringbuffer_data_len rb = 0 then Some (rb, None, 0)
      else do { out \<leftarrow> load_at (unat (read_index rb)) 1 (buffer_ptr rb);
                Some (if uint (read_index rb) = sint (buffer_size rb) - 1
                      then rb\<lparr>read_mirror := \<not> read_mirror rb, read_index := 0\<rparr>
                      else rb\<lparr>read_index := read_index rb + 1\<rparr>, Some (hd out), 1) })"

definition rt_ringbuffer_reset :: "rt_ringbuffer \<Rightarrow> rt_ringbuffer" where
  "rt_ringbuffer_reset rb = rb\<lparr>read_mirror := False, read_index := 0, write_mirror := False, write_index := 0\<rparr>"

text \<open>
  \<^verbatim>\<open>rt_ringbuffer_create\<close>: the two arguments stand for the results of the two calls of
  \<^verbatim>\<open>rt_malloc\<close> (the control block and the pool, \<^term>\<open>None\<close> for \<^verbatim>\<open>RT_NULL\<close>).  The
  result tells the returned pointer and whether the control block was freed again.
\<close>

datatype rb_create = Rb_null (rb_freed: bool) | Rb_ok rt_ringbuffer

definition rt_ringbuffer_create :: "unit option \<Rightarrow> rt_uint8_t list option \<Rightarrow> 16 word \<Rightarrow> rb_create option" where
  "rt_ringbuffer_create ctl pool0 sz =
     do { RT_ASSERT (0 < uint sz);
          let sz = sz AND NOT 3;
          case ctl of None \<Rightarrow> Some (Rb_null False)
          | Some _ \<Rightarrow> (case pool0 of None \<Rightarrow> Some (Rb_null True)
             | Some pool \<Rightarrow> map_option Rb_ok (rt_ringbuffer_init pool sz)) }"

section \<open>Invariant and abstraction\<close>

definition bsize :: "rt_ringbuffer \<Rightarrow> nat" where
  "bsize rb = nat (sint (buffer_size rb))"

text \<open>In the same mirror the reader is not ahead of the writer, in different ones not behind it.\<close>

definition rb_inv :: "rt_ringbuffer \<Rightarrow> bool" where
  "rb_inv rb \<longleftrightarrow> 0 < sint (buffer_size rb) \<and> bsize rb \<le> length (buffer_ptr rb)
     \<and> unat (read_index rb) < bsize rb \<and> unat (write_index rb) < bsize rb
     \<and> (if read_mirror rb = write_mirror rb then read_index rb \<le> write_index rb
        else write_index rb \<le> read_index rb)"

definition rb_len :: "rt_ringbuffer \<Rightarrow> nat" where
  "rb_len rb =
     (if read_mirror rb = write_mirror rb then unat (write_index rb) - unat (read_index rb)
      else bsize rb - unat (read_index rb) + unat (write_index rb))"

definition rb_contents :: "rt_ringbuffer \<Rightarrow> rt_uint8_t list" where
  "rb_contents rb = ring_read (bsize rb) (unat (read_index rb)) (rb_len rb) (buffer_ptr rb)"

lemma bsize_bound: "bsize rb < 2 ^ 15"
  using sint_lt [of "buffer_size rb"] by (simp add: bsize_def)

lemma rb_inv_size: "rb_inv rb \<Longrightarrow> sint (buffer_size rb) = int (bsize rb)"
  by (simp add: rb_inv_def bsize_def)

lemma rb_contents_length [simp]: "length (rb_contents rb) = rb_len rb"
  by (simp add: rb_contents_def)

lemma rb_invD:
  assumes "rb_inv rb"
  shows "0 < bsize rb" "bsize rb \<le> length (buffer_ptr rb)" "rb_len rb \<le> bsize rb"
    "unat (read_index rb) < bsize rb" "unat (write_index rb) < bsize rb"
    "(unat (read_index rb) + rb_len rb) mod bsize rb = unat (write_index rb)"
  using assms by (auto simp: rb_inv_def rb_len_def bsize_def word_le_nat_alt)

lemma unat_of_int: "0 \<le> k \<Longrightarrow> k < 2 ^ LENGTH('a) \<Longrightarrow> unat (word_of_int k :: 'a::len word) = nat k"
  by (simp add: unat_eq_nat_uint uint_word_of_int_eq take_bit_int_eq_self)

lemma unat_word_of_nat: "n < 2 ^ LENGTH('a) \<Longrightarrow> unat (word_of_nat n :: 'a::len word) = n"
  by (simp add: unsigned_of_nat take_bit_nat_eq_self)

lemma rb_len_cases:
  assumes "rb_inv rb"
  shows "unat (rt_ringbuffer_data_len rb) = rb_len rb"
proof -
  define r w where "r = unat (read_index rb)" and "w = unat (write_index rb)"
  have i: "uint (read_index rb) = int r" "uint (write_index rb) = int w"
    "read_index rb = write_index rb \<longleftrightarrow> r = w" "read_index rb < write_index rb \<longleftrightarrow> r < w"
    "read_index rb \<le> write_index rb \<longleftrightarrow> r \<le> w" "write_index rb \<le> read_index rb \<longleftrightarrow> w \<le> r"
    by (auto simp: r_def w_def word_unat_eq_iff word_less_nat_alt word_le_nat_alt)
  have b: "bsize rb < 2 ^ LENGTH(32)" using bsize_bound [of rb] by simp
  have lt: "r < bsize rb" "w < bsize rb" using assms by (simp_all add: rb_inv_def r_def w_def)
  have ord: "if read_mirror rb = write_mirror rb then r \<le> w else w \<le> r"
    using assms by (simp add: rb_inv_def i split: if_splits)
  have "rt_ringbuffer_data_len rb = word_of_int (int (rb_len rb))"
    using lt ord by (auto simp: rt_ringbuffer_data_len_def rt_ringbuffer_status_def rb_len_def i
        rb_inv_size [OF assms] of_nat_diff simp flip: r_def w_def)
  with rb_invD(3) [OF assms] b show ?thesis by (simp add: unat_word_of_nat)
qed

lemma rt_ringbuffer_space_len_eq:
  assumes "rb_inv rb" shows "unat (rt_ringbuffer_space_len rb) = bsize rb - rb_len rb"
proof -
  have b: "bsize rb < 2 ^ LENGTH(32)" using bsize_bound [of rb] by simp
  have "rt_ringbuffer_data_len rb = word_of_int (int (rb_len rb))"
    using rb_len_cases [OF assms] by (metis word_of_int_uint uint_nat)
  then have "rt_ringbuffer_space_len rb = word_of_int (int (bsize rb - rb_len rb))"
    using rb_invD(3) [OF assms] by (simp add: rt_ringbuffer_space_len_def rb_inv_size [OF assms] of_nat_diff)
  with b show ?thesis by (simp add: unat_word_of_nat)
qed

text \<open>Moving the writer by \<open>k\<close> within the free space, and the reader within the data.\<close>

lemma rb_write_advance:
  assumes "rb_inv rb" and "rb_len rb + k \<le> bsize rb"
    and "buffer_size rb' = buffer_size rb" and "length (buffer_ptr rb') = length (buffer_ptr rb)"
    and "read_index rb' = read_index rb" and "read_mirror rb' = read_mirror rb"
    and "if unat (write_index rb) + k < bsize rb
         then unat (write_index rb') = unat (write_index rb) + k \<and> write_mirror rb' = write_mirror rb
         else unat (write_index rb') = unat (write_index rb) + k - bsize rb
              \<and> write_mirror rb' = (\<not> write_mirror rb)"
  shows "rb_inv rb' \<and> bsize rb' = bsize rb \<and> rb_len rb' = rb_len rb + k"
proof -
  have b: "bsize rb' = bsize rb" using assms(3) by (simp add: bsize_def)
  show ?thesis
    using assms b by (auto simp: rb_inv_def rb_len_def word_le_nat_alt split: if_splits)
qed

lemma rb_read_advance:
  assumes "rb_inv rb" and "k \<le> rb_len rb"
    and "buffer_size rb' = buffer_size rb" and "buffer_ptr rb' = buffer_ptr rb"
    and "write_index rb' = write_index rb" and "write_mirror rb' = write_mirror rb"
    and "if unat (read_index rb) + k < bsize rb
         then unat (read_index rb') = unat (read_index rb) + k \<and> read_mirror rb' = read_mirror rb
         else unat (read_index rb') = unat (read_index rb) + k - bsize rb
              \<and> read_mirror rb' = (\<not> read_mirror rb)"
  shows "rb_inv rb' \<and> bsize rb' = bsize rb \<and> rb_len rb' = rb_len rb - k
    \<and> rb_contents rb' = drop k (rb_contents rb)"
proof -
  have b: "bsize rb' = bsize rb" using assms(3) by (simp add: bsize_def)
  have l: "rb_inv rb' \<and> rb_len rb' = rb_len rb - k"
    using assms b by (auto simp: rb_inv_def rb_len_def word_le_nat_alt split: if_splits)
  have "unat (read_index rb') = (unat (read_index rb) + k) mod bsize rb"
    using assms(2,7) rb_invD [OF assms(1)] by (auto simp: mod_if split: if_splits)
  with b l assms(4) show ?thesis
    by (simp add: rb_contents_def ring_read_drop)
qed


section \<open>Block operations\<close>

lemma unat_ucast_down:
  "unat (w :: 'a::len word) < 2 ^ LENGTH('b) \<Longrightarrow> unat (ucast w :: 'b::len word) = unat w"
  by (simp add: unsigned_ucast_eq take_bit_nat_eq_self)

lemma load_at_0: "n \<le> length area \<Longrightarrow> load_at 0 n area = Some (take n area)"
  by (simp add: load_at_def)

lemma rb_append:
  assumes inv: "rb_inv rb" and fit: "rb_len rb + length src \<le> bsize rb"
    and wr: "ring_write (bsize rb) (unat (write_index rb)) src (buffer_ptr rb) (buffer_ptr rb')"
    and rd: "buffer_size rb' = buffer_size rb" "read_index rb' = read_index rb" "read_mirror rb' = read_mirror rb"
    and adv: "if unat (write_index rb) + length src < bsize rb
      then unat (write_index rb') = unat (write_index rb) + length src \<and> write_mirror rb' = write_mirror rb
      else unat (write_index rb') = unat (write_index rb) + length src - bsize rb
           \<and> write_mirror rb' = (\<not> write_mirror rb)"
  shows "rb_inv rb' \<and> bsize rb' = bsize rb \<and> rb_contents rb' = rb_contents rb @ src"
proof -
  note d = rb_invD [OF inv]
  have l: "rb_inv rb' \<and> bsize rb' = bsize rb \<and> rb_len rb' = rb_len rb + length src"
    using inv fit rd(1) _ rd(2,3) adv
    by (rule rb_write_advance) (use wr in \<open>simp add: ring_write_def\<close>)
  have "ring_write (bsize rb) ((unat (read_index rb) + rb_len rb) mod bsize rb) src (buffer_ptr rb) (buffer_ptr rb')"
    using wr d(6) by simp
  from ring_read_write [OF this fit d(1)] l rd show ?thesis by (simp add: rb_contents_def)
qed

text \<open>
  The common second half of the two block writes: \<open>src\<close> is copied to the pool in one or
  two pieces and the writer moves behind it.
\<close>

definition rb_write :: "rt_ringbuffer \<Rightarrow> rt_uint8_t list \<Rightarrow> nat \<Rightarrow> rt_ringbuffer option" where
  "rb_write rb ptr n =
     (let w = unat (write_index rb); room = bsize rb - w in
      if n < room then
        do { src \<leftarrow> load_at 0 n ptr; buf \<leftarrow> store_at w src (buffer_ptr rb);
             Some (rb\<lparr>buffer_ptr := buf, write_index := write_index rb + word_of_nat n\<rparr>) }
      else
        do { src1 \<leftarrow> load_at 0 room ptr; buf1 \<leftarrow> store_at w src1 (buffer_ptr rb);
             src2 \<leftarrow> load_at room (n - room) ptr; buf2 \<leftarrow> store_at 0 src2 buf1;
             Some (rb\<lparr>buffer_ptr := buf2, write_mirror := \<not> write_mirror rb,
                      write_index := word_of_nat (n - room)\<rparr>) })"

lemma rb_write_straight:
  assumes inv: "rb_inv rb" and len: "n \<le> length ptr" and n: "unat (write_index rb) + n < bsize rb"
  shows "\<exists>buf. rb_write rb ptr n = Some (rb\<lparr>buffer_ptr := buf, write_index := write_index rb + word_of_nat n\<rparr>)
    \<and> ring_write (bsize rb) (unat (write_index rb)) (take n ptr) (buffer_ptr rb) buf
    \<and> unat (write_index rb + word_of_nat n) = unat (write_index rb) + n"
proof -
  note d = rb_invD [OF inv]
  obtain buf where st: "store_at (unat (write_index rb)) (take n ptr) (buffer_ptr rb) = Some buf"
    using store_at_Some [of "unat (write_index rb)" "take n ptr" "buffer_ptr rb"] d n len by auto
  moreover have "ring_write (bsize rb) (unat (write_index rb)) (take n ptr) (buffer_ptr rb) buf"
    using d(2) _ st by (rule ring_write_straight) (use n len in simp)
  moreover have "n < bsize rb - unat (write_index rb)" using n by simp
  moreover have "unat (write_index rb + word_of_nat n) = unat (write_index rb) + n"
    using n bsize_bound [of rb] by (simp add: unat_word_ariths unat_word_of_nat)
  ultimately show ?thesis
    using len by (intro exI [of _ buf]) (simp add: rb_write_def Let_def load_at_0)
qed

lemma rb_write_wrap:
  assumes inv: "rb_inv rb" and len: "n \<le> length ptr" and n: "bsize rb \<le> unat (write_index rb) + n" "n \<le> bsize rb"
  shows "\<exists>buf. rb_write rb ptr n = Some (rb\<lparr>buffer_ptr := buf, write_mirror := \<not> write_mirror rb,
        write_index := word_of_nat (n - (bsize rb - unat (write_index rb)))\<rparr>)
    \<and> ring_write (bsize rb) (unat (write_index rb)) (take n ptr) (buffer_ptr rb) buf
    \<and> unat (word_of_nat (n - (bsize rb - unat (write_index rb))) :: 15 word) = unat (write_index rb) + n - bsize rb"
proof -
  note d = rb_invD [OF inv]
  define w room where "w = unat (write_index rb)" and "room = bsize rb - w"
  have w: "w < bsize rb" using d by (simp add: w_def)
  have "w + length (take room (take n ptr)) \<le> length (buffer_ptr rb)"
    using d(2) w by (auto simp: room_def)
  then obtain buf1 where st1: "store_at w (take room (take n ptr)) (buffer_ptr rb) = Some buf1"
    using store_at_Some by blast
  have "0 + length (drop room (take n ptr)) \<le> length buf1"
    using d(2) store_at_length [OF st1] n by (auto simp: room_def)
  then obtain buf2 where st2: "store_at 0 (drop room (take n ptr)) buf1 = Some buf2"
    using store_at_Some by blast
  have "ring_write (bsize rb) w (take n ptr) (buffer_ptr rb) buf2"
    using d(2) w _ _ st1 [unfolded room_def] st2 [unfolded room_def]
    by (rule ring_write_wrap) (use n len in \<open>auto simp: w_def\<close>)
  moreover have "load_at 0 room ptr = Some (take room (take n ptr))"
    "load_at room (n - room) ptr = Some (drop room (take n ptr))"
    using n len w by (auto simp: load_at_def room_def w_def min_def drop_take)
  moreover have "\<not> n < room" using n by (simp add: room_def w_def)
  moreover have "unat (word_of_nat (n - room) :: 15 word) = w + n - bsize rb"
    using n w bsize_bound [of rb] by (subst unat_word_of_nat) (auto simp: room_def w_def)
  ultimately show ?thesis
    using st1 st2 by (auto simp: rb_write_def Let_def simp flip: w_def room_def)
qed

lemma rb_write_append:
  assumes "rb_inv rb" and "n \<le> length ptr" and "rb_len rb + n \<le> bsize rb"
  shows "\<exists>rb'. rb_write rb ptr n = Some rb' \<and> rb_inv rb' \<and> bsize rb' = bsize rb
    \<and> rb_contents rb' = rb_contents rb @ take n ptr"
proof (cases "unat (write_index rb) + n < bsize rb")
  case True
  from rb_write_straight [OF assms(1,2) this] obtain buf where
    "rb_write rb ptr n = Some (rb\<lparr>buffer_ptr := buf, write_index := write_index rb + word_of_nat n\<rparr>)"
    (is "_ = Some ?rb")
    "ring_write (bsize rb) (unat (write_index rb)) (take n ptr) (buffer_ptr rb) buf"
    "unat (write_index rb + word_of_nat n) = unat (write_index rb) + n" by blast
  moreover from this True assms have "rb_inv ?rb \<and> bsize ?rb = bsize rb \<and> rb_contents ?rb = rb_contents rb @ take n ptr"
    by (intro rb_append) auto
  ultimately show ?thesis by blast
next
  case False
  then have "bsize rb \<le> unat (write_index rb) + n" "n \<le> bsize rb" using assms(3) by simp_all
  from rb_write_wrap [OF assms(1,2) this] obtain buf where
    "rb_write rb ptr n = Some (rb\<lparr>buffer_ptr := buf, write_mirror := \<not> write_mirror rb,
        write_index := word_of_nat (n - (bsize rb - unat (write_index rb)))\<rparr>)"
    (is "_ = Some ?rb")
    "ring_write (bsize rb) (unat (write_index rb)) (take n ptr) (buffer_ptr rb) buf"
    "unat (word_of_nat (n - (bsize rb - unat (write_index rb))) :: 15 word) = unat (write_index rb) + n - bsize rb"
    by blast
  moreover from this False assms have "rb_inv ?rb \<and> bsize ?rb = bsize rb \<and> rb_contents ?rb = rb_contents rb @ take n ptr"
    by (intro rb_append) auto
  ultimately show ?thesis by blast
qed

text \<open>The code of \<^verbatim>\<open>rt_ringbuffer_put\<close> in these terms.\<close>

lemma rt_ringbuffer_put_eq:
  assumes inv: "rb_inv rb"
  defines "n \<equiv> \<lambda>len. min (unat len) (bsize rb - rb_len rb)"
  shows "rt_ringbuffer_put rb ptr len =
    (if rb_len rb = bsize rb then Some (rb, 0)
     else map_option (\<lambda>rb'. (rb', word_of_nat (n len))) (rb_write rb ptr (n len)))"
proof -
  note d = rb_invD [OF inv]
  have b: "bsize rb < 32768" using bsize_bound [of rb] by simp
  define sz :: "16 word" where "sz = ucast (rt_ringbuffer_space_len rb)"
  have sz: "unat sz = bsize rb - rb_len rb"
    using rt_ringbuffer_space_len_eq [OF inv] b by (simp add: sz_def unat_ucast_down)
  have z: "sz = 0 \<longleftrightarrow> rb_len rb = bsize rb" using sz d(3) by (auto simp: word_unat_eq_iff)
  define l where "l = (if sz < len then sz else len)"
  have l: "unat l = n len" using sz by (auto simp: l_def n_def min_def word_less_nat_alt)
  have ul: "uint l = int (n len)" by (simp flip: l)
  have uc: "ucast l = (word_of_nat (n len) :: rt_uint32_t)" "ucast l = (word_of_nat (n len) :: 15 word)"
    by (simp_all flip: l)
  define w where "w = unat (write_index rb)"
  have uw: "uint (write_index rb) = int w" "w < bsize rb" "write_index rb = word_of_nat w"
    using d by (simp_all add: w_def)
  have nat: "int (bsize rb) - int w > int (n len) \<longleftrightarrow> n len < bsize rb - w"
    "nat (int (bsize rb) - int w) = bsize rb - w"
    "nat (int (n len) - (int (bsize rb) - int w)) = n len - (bsize rb - w)" using uw(2) by auto
  have wi: "word_of_int (int (n len) - (int (bsize rb) - int w)) = (word_of_nat (n len - (bsize rb - w)) :: 15 word)"
    if "\<not> n len < bsize rb - w"
  proof -
    have "int (n len) - (int (bsize rb) - int w) = int (n len - (bsize rb - w))" using that uw(2) by auto
    then show ?thesis by (metis of_int_of_nat_eq)
  qed
  show ?thesis
  proof (cases "n len < bsize rb - w")
    case True
    then show ?thesis
      unfolding rt_ringbuffer_put_def Let_def sz_def [symmetric] l_def [symmetric] z rb_inv_size [OF inv]
        uw(1) ul nat rb_write_def w_def [symmetric] l uc
      by (cases "load_at 0 (n len) ptr") (auto simp: map_option_bind o_def)
  next
    case False
    then show ?thesis
      unfolding rt_ringbuffer_put_def Let_def sz_def [symmetric] l_def [symmetric] z rb_inv_size [OF inv]
        uw(1) ul nat rb_write_def w_def [symmetric] l uc wi [OF False]
      by (auto simp: map_option_bind o_def)
  qed
qed

lemma rt_ringbuffer_put_contents:
  assumes "rb_inv rb" and "unat len \<le> length ptr"
  defines "n \<equiv> min (unat len) (bsize rb - length (rb_contents rb))"
  shows "\<exists>rb'. rt_ringbuffer_put rb ptr len = Some (rb', word_of_nat n) \<and> rb_inv rb'
    \<and> bsize rb' = bsize rb \<and> rb_contents rb' = rb_contents rb @ take n ptr"
proof (cases "rb_len rb = bsize rb")
  case True
  with assms show ?thesis by (simp add: rt_ringbuffer_put_eq)
next
  case False
  have "\<exists>rb'. rb_write rb ptr n = Some rb' \<and> rb_inv rb' \<and> bsize rb' = bsize rb
      \<and> rb_contents rb' = rb_contents rb @ take n ptr"
    using assms rb_invD(3) [OF assms(1)] by (intro rb_write_append) (auto simp: n_def)
  with False assms show ?thesis by (auto simp: rt_ringbuffer_put_eq n_def)
qed

text \<open>Reading a block, around the end of the pool or not.\<close>

definition rb_read :: "rt_ringbuffer \<Rightarrow> nat \<Rightarrow> (rt_ringbuffer \<times> rt_uint8_t list) option" where
  "rb_read rb n =
     (let r = unat (read_index rb); room = bsize rb - r in
      if n < room then
        do { out \<leftarrow> load_at r n (buffer_ptr rb); Some (rb\<lparr>read_index := read_index rb + word_of_nat n\<rparr>, out) }
      else
        do { out1 \<leftarrow> load_at r room (buffer_ptr rb); out2 \<leftarrow> load_at 0 (n - room) (buffer_ptr rb);
             Some (rb\<lparr>read_mirror := \<not> read_mirror rb, read_index := word_of_nat (n - room)\<rparr>, out1 @ out2) })"

lemma rb_read_drop:
  assumes inv: "rb_inv rb" and n: "n \<le> rb_len rb"
  shows "\<exists>rb'. rb_read rb n = Some (rb', take n (rb_contents rb)) \<and> rb_inv rb' \<and> bsize rb' = bsize rb
    \<and> rb_contents rb' = drop n (rb_contents rb)"
proof -
  note d = rb_invD [OF inv]
  define r where "r = unat (read_index rb)"
  have r: "r < bsize rb" using d by (simp add: r_def)
  have out: "take n (rb_contents rb) = ring_read (bsize rb) r n (buffer_ptr rb)"
    using n by (simp add: rb_contents_def ring_read_take r_def)
  show ?thesis
  proof (cases "r + n < bsize rb")
    case True
    define rb' where "rb' = rb\<lparr>read_index := read_index rb + word_of_nat n\<rparr>"
    have "unat (read_index rb + word_of_nat n) = r + n"
      using True bsize_bound [of rb] by (simp add: unat_word_ariths unat_word_of_nat r_def)
    then have "rb_inv rb' \<and> bsize rb' = bsize rb \<and> rb_len rb' = rb_len rb - n \<and> rb_contents rb' = drop n (rb_contents rb)"
      using True by (intro rb_read_advance [OF inv n]) (auto simp: rb'_def r_def)
    moreover have "load_at r n (buffer_ptr rb) = Some (ring_read (bsize rb) r n (buffer_ptr rb))"
      using True d(2) by (auto simp: load_at_def ring_read_nth intro!: nth_equalityI)
    moreover have "n < bsize rb - r" using True by simp
    ultimately show ?thesis by (simp add: rb_read_def Let_def out rb'_def flip: r_def)
  next
    case False
    define rb' where "rb' = rb\<lparr>read_mirror := \<not> read_mirror rb, read_index := word_of_nat (n - (bsize rb - r))\<rparr>"
    have "unat (word_of_nat (n - (bsize rb - r)) :: 15 word) = r + n - bsize rb"
      using False r n d(3) bsize_bound [of rb] by (subst unat_word_of_nat) auto
    then have "rb_inv rb' \<and> bsize rb' = bsize rb \<and> rb_len rb' = rb_len rb - n \<and> rb_contents rb' = drop n (rb_contents rb)"
      using False by (intro rb_read_advance [OF inv n]) (auto simp: rb'_def r_def)
    moreover have "load_at r (bsize rb - r) (buffer_ptr rb) = Some (take (bsize rb - r) (drop r (buffer_ptr rb)))"
      "load_at 0 (n - (bsize rb - r)) (buffer_ptr rb) = Some (take (n - (bsize rb - r)) (buffer_ptr rb))"
      using False d(2,3) r n by (auto simp: load_at_def)
    moreover have "take (bsize rb - r) (drop r (buffer_ptr rb)) @ take (n - (bsize rb - r)) (buffer_ptr rb)
        = ring_read (bsize rb) r n (buffer_ptr rb)"
      using False d(2,3) r n by (intro nth_equalityI) (auto simp: ring_read_nth nth_append mod_if algebra_simps)
    moreover have "\<not> n < bsize rb - r" using False by simp
    ultimately show ?thesis by (simp add: rb_read_def Let_def out rb'_def flip: r_def)
  qed
qed

lemma rt_ringbuffer_get_eq:
  assumes inv: "rb_inv rb"
  defines "n \<equiv> \<lambda>len. min (unat len) (rb_len rb)"
  shows "rt_ringbuffer_get rb len =
    (if rb_len rb = 0 then Some (rb, [], 0)
     else map_option (\<lambda>(rb', out). (rb', out, word_of_nat (n len))) (rb_read rb (n len)))"
proof -
  note d = rb_invD [OF inv]
  have b: "bsize rb < 32768" using bsize_bound [of rb] by simp
  define sz where "sz = rt_ringbuffer_data_len rb"
  have sz: "unat sz = rb_len rb" unfolding sz_def by (rule rb_len_cases [OF inv])
  have z: "sz = 0 \<longleftrightarrow> rb_len rb = 0" using sz by (auto simp: word_unat_eq_iff)
  define l where "l = (if sz < ucast len then ucast sz else len)"
  have "unat (ucast len :: rt_uint32_t) = unat len"
    using unsigned_less [where 'a = nat and w = len] by (intro unat_ucast_down) simp
  then have l: "unat l = n len"
    using sz d(3) b by (auto simp: l_def n_def min_def word_less_nat_alt unat_ucast_down)
  have ul: "uint l = int (n len)" by (simp flip: l)
  have uc: "ucast l = (word_of_nat (n len) :: rt_uint32_t)" "ucast l = (word_of_nat (n len) :: 15 word)"
    by (simp_all flip: l)
  define r where "r = unat (read_index rb)"
  have ur: "uint (read_index rb) = int r" "r < bsize rb" using d by (simp_all add: r_def)
  have nat: "int (bsize rb) - int r > int (n len) \<longleftrightarrow> n len < bsize rb - r"
    "nat (int (bsize rb) - int r) = bsize rb - r"
    "nat (int (n len) - (int (bsize rb) - int r)) = n len - (bsize rb - r)" using ur(2) by auto
  have wi: "word_of_int (int (n len) - (int (bsize rb) - int r)) = (word_of_nat (n len - (bsize rb - r)) :: 15 word)"
    if "\<not> n len < bsize rb - r"
  proof -
    have "int (n len) - (int (bsize rb) - int r) = int (n len - (bsize rb - r))" using that ur(2) by auto
    then show ?thesis by (metis of_int_of_nat_eq)
  qed
  note code = rt_ringbuffer_get_def Let_def sz_def [symmetric] l_def [symmetric] z rb_inv_size [OF inv]
    ur(1) ul nat rb_read_def r_def [symmetric] l uc
  show ?thesis
  proof (cases "n len < bsize rb - r")
    case True
    then show ?thesis unfolding code by (simp add: map_option_bind o_def)
  next
    case False
    then show ?thesis unfolding code wi [OF False] by (simp add: map_option_bind o_def del: of_nat_diff)
  qed
qed

lemma rt_ringbuffer_get_contents:
  assumes "rb_inv rb"
  defines "n \<equiv> \<lambda>len. min (unat len) (length (rb_contents rb))"
  shows "\<exists>rb'. rt_ringbuffer_get rb len = Some (rb', take (n len) (rb_contents rb), word_of_nat (n len))
    \<and> rb_inv rb' \<and> bsize rb' = bsize rb \<and> rb_contents rb' = drop (n len) (rb_contents rb)"
proof (cases "rb_len rb = 0")
  case True
  with assms show ?thesis by (simp add: rt_ringbuffer_get_eq)
next
  case False
  with rb_read_drop [OF assms(1), of "n len"] assms show ?thesis
    by (auto simp: rt_ringbuffer_get_eq n_def)
qed

text \<open>A forced write of a block that fits is the plain write.\<close>

lemma rt_ringbuffer_put_force_fits:
  assumes inv: "rb_inv rb" and fit: "unat len \<le> bsize rb - rb_len rb"
  shows "rt_ringbuffer_put_force rb ptr len = rt_ringbuffer_put rb ptr len"
proof -
  note d = rb_invD [OF inv]
  have b: "bsize rb < 32768" using bsize_bound [of rb] by simp
  define sz :: "16 word" where "sz = ucast (rt_ringbuffer_space_len rb)"
  have sz: "unat sz = bsize rb - rb_len rb"
    using rt_ringbuffer_space_len_eq [OF inv] b by (simp add: sz_def unat_ucast_down)
  have le: "\<not> sz < len" using fit sz by (simp add: word_less_nat_alt)
  have ul: "uint len = int (unat len)" "uint (write_index rb) = int (unat (write_index rb))" by simp_all
  have over: "\<not> uint len > sint (buffer_size rb)"
    using fit unfolding ul rb_inv_size [OF inv] by linarith
  show ?thesis
  proof (cases "sz = 0")
    case True
    then have "len = 0" using sz fit by (simp add: unat_eq_0)
    moreover have "sint (buffer_size rb) - uint (write_index rb) > 0"
      using d(5) unfolding rb_inv_size [OF inv] ul by linarith
    ultimately show ?thesis using True le over d
      by (simp add: rt_ringbuffer_put_force_def rt_ringbuffer_put_def Let_def load_at_def store_at_def
          flip: sz_def)
  next
    case False
    with le over show ?thesis
      by (simp add: rt_ringbuffer_put_force_def rt_ringbuffer_put_def Let_def flip: sz_def)
  qed
qed

section \<open>Single bytes\<close>

lemma space_len_0: "rb_inv rb \<Longrightarrow> rt_ringbuffer_space_len rb = 0 \<longleftrightarrow> rb_len rb = bsize rb"
  using rt_ringbuffer_space_len_eq [of rb] rb_invD(3) [of rb] by (auto simp: word_unat_eq_iff)

lemma data_len_0: "rb_inv rb \<Longrightarrow> rt_ringbuffer_data_len rb = 0 \<longleftrightarrow> rb_len rb = 0"
  using rb_len_cases [of rb] by (auto simp: word_unat_eq_iff)

lemma at_end: "rb_inv rb \<Longrightarrow> uint w = sint (buffer_size rb) - 1 \<longleftrightarrow> unat (w :: 15 word) + 1 = bsize rb"
proof -
  assume inv: "rb_inv rb"
  have "uint w = int (unat w)" by simp
  then show ?thesis using rb_invD(1) [OF inv] unfolding rb_inv_size [OF inv] by linarith
qed

lemma unat_succ_index: "unat (w :: 15 word) + 1 < bsize rb \<Longrightarrow> unat (w + 1) = unat w + 1"
  using bsize_bound [of rb] by (intro unat_inc_less) simp

lemma rt_ringbuffer_putchar_contents:
  assumes inv: "rb_inv rb"
  shows "if length (rb_contents rb) = bsize rb then rt_ringbuffer_putchar rb ch = Some (rb, 0)
    else \<exists>rb'. rt_ringbuffer_putchar rb ch = Some (rb', 1) \<and> rb_inv rb' \<and> bsize rb' = bsize rb
      \<and> rb_contents rb' = rb_contents rb @ [ch]"
proof -
  note d = rb_invD [OF inv]
  let ?w = "unat (write_index rb)"
  have w: "?w < length (buffer_ptr rb)" using d by simp
  note st = store_at_one [OF w, of ch]
  have wr: "ring_write (bsize rb) ?w [ch] (buffer_ptr rb) ((buffer_ptr rb)[?w := ch])"
    using d(2) _ st by (rule ring_write_straight) (use d in simp)
  have "\<exists>rb'. rt_ringbuffer_putchar rb ch = Some (rb', 1) \<and> rb_inv rb' \<and> bsize rb' = bsize rb
      \<and> rb_contents rb' = rb_contents rb @ [ch]" if "rb_len rb \<noteq> bsize rb"
  proof -
    define rb' where "rb' = (if ?w + 1 = bsize rb
      then rb\<lparr>buffer_ptr := (buffer_ptr rb)[?w := ch], write_mirror := \<not> write_mirror rb, write_index := 0\<rparr>
      else rb\<lparr>buffer_ptr := (buffer_ptr rb)[?w := ch], write_index := write_index rb + 1\<rparr>)"
    have "rb_inv rb' \<and> bsize rb' = bsize rb \<and> rb_contents rb' = rb_contents rb @ [ch]"
      using that d wr unat_succ_index [of "write_index rb" rb]
      by (intro rb_append [OF inv]) (auto simp: rb'_def)
    moreover have "rt_ringbuffer_putchar rb ch = Some (rb', 1)"
      using that st by (simp add: rt_ringbuffer_putchar_def space_len_0 inv at_end Let_def rb'_def)
    ultimately show ?thesis by blast
  qed
  then show ?thesis by (simp add: rt_ringbuffer_putchar_def space_len_0 inv)
qed

lemma rt_ringbuffer_getchar_contents:
  assumes inv: "rb_inv rb"
  shows "case rb_contents rb of [] \<Rightarrow> rt_ringbuffer_getchar rb = Some (rb, None, 0)
    | c # cs \<Rightarrow> \<exists>rb'. rt_ringbuffer_getchar rb = Some (rb', Some c, 1) \<and> rb_inv rb' \<and> bsize rb' = bsize rb
        \<and> rb_contents rb' = cs"
proof (cases "rb_contents rb")
  case Nil
  then have "rb_len rb = 0" by (simp flip: rb_contents_length)
  with Nil show ?thesis by (simp add: rt_ringbuffer_getchar_def data_len_0 inv)
next
  case (Cons c cs)
  note d = rb_invD [OF inv]
  let ?r = "unat (read_index rb)"
  have n: "rb_len rb \<noteq> 0" using Cons by (simp flip: rb_contents_length)
  have r: "?r < length (buffer_ptr rb)" using d by simp
  have c: "buffer_ptr rb ! ?r = c"
    using ring_read_nth [of 0 "rb_len rb" "bsize rb" ?r "buffer_ptr rb"] n Cons d by (simp add: rb_contents_def)
  define rb' where "rb' = (if ?r + 1 = bsize rb
    then rb\<lparr>read_mirror := \<not> read_mirror rb, read_index := 0\<rparr>
    else rb\<lparr>read_index := read_index rb + 1\<rparr>)"
  have "rb_inv rb' \<and> bsize rb' = bsize rb \<and> rb_len rb' = rb_len rb - 1 \<and> rb_contents rb' = drop 1 (rb_contents rb)"
    using n d unat_succ_index [of "read_index rb" rb]
    by (intro rb_read_advance [OF inv]) (auto simp: rb'_def)
  moreover have "rt_ringbuffer_getchar rb = Some (rb', Some c, 1)"
    using n load_at_one [OF r] c by (simp add: rt_ringbuffer_getchar_def data_len_0 inv at_end Let_def rb'_def)
  ultimately show ?thesis using Cons by simp
qed

lemma rb_full_status: "rb_inv rb \<Longrightarrow> rt_ringbuffer_status rb = RT_RINGBUFFER_FULL \<longleftrightarrow> rb_len rb = bsize rb"
  by (auto simp: rt_ringbuffer_status_def rb_len_def rb_inv_def word_unat_eq_iff word_le_nat_alt
      split: if_splits)

text \<open>On a full buffer the forced write of a byte is a read of one byte followed by the write.\<close>

lemma rt_ringbuffer_putchar_force_eq:
  assumes inv: "rb_inv rb"
  shows "rt_ringbuffer_putchar_force rb ch =
    (if rb_len rb < bsize rb then rt_ringbuffer_putchar rb ch
     else do { (rb1, _) \<leftarrow> rt_ringbuffer_getchar rb; rt_ringbuffer_putchar rb1 ch })"
proof -
  note d = rb_invD [OF inv]
  have w: "unat (write_index rb) < length (buffer_ptr rb)" "unat (read_index rb) < length (buffer_ptr rb)"
    using d by simp_all
  show ?thesis
  proof (cases "rb_len rb < bsize rb")
    case True
    then have "rt_ringbuffer_status rb \<noteq> RT_RINGBUFFER_FULL" by (simp add: rb_full_status inv)
    with True store_at_one [OF w(1)] show ?thesis
      by (simp add: rt_ringbuffer_putchar_force_def rt_ringbuffer_putchar_def space_len_0 inv Let_def)
  next
    case False
    then have full: "rb_len rb = bsize rb" using d by simp
    then have rw: "read_index rb = write_index rb" and rm: "read_mirror rb = (\<not> write_mirror rb)"
      using inv by (auto simp: rb_len_def rb_inv_def word_unat_eq_iff split: if_splits)
    from full d have "rb_contents rb \<noteq> []" by (simp flip: length_0_conv)
    then obtain c cs where c: "rb_contents rb = c # cs" by (meson list.exhaust)
    from rt_ringbuffer_getchar_contents [OF inv] c obtain rb1
      where g: "rt_ringbuffer_getchar rb = Some (rb1, Some c, 1)" and inv1: "rb_inv rb1" "bsize rb1 = bsize rb"
        "rb_contents rb1 = cs" by auto
    have "length cs < bsize rb" using c full rb_contents_length [of rb] by simp
    then have sp: "rt_ringbuffer_space_len rb1 \<noteq> 0" using inv1 by (auto simp: space_len_0 simp flip: rb_contents_length)
    have r1: "rb1 = (if unat (write_index rb) + 1 = bsize rb
        then rb\<lparr>read_mirror := write_mirror rb, read_index := 0\<rparr>
        else rb\<lparr>read_index := write_index rb + 1\<rparr>)"
      using g full d rw rm load_at_one [OF w(2)]
      by (auto simp: rt_ringbuffer_getchar_def data_len_0 inv at_end split: if_splits)
    have "rt_ringbuffer_putchar rb1 ch = rt_ringbuffer_putchar_force rb ch"
      using sp full w rw rm store_at_one [OF w(1)] at_end [OF inv] r1
      by (auto simp: rt_ringbuffer_putchar_def rt_ringbuffer_putchar_force_def rb_full_status inv Let_def
          simp del: One_nat_def)
    with False g show ?thesis by simp
  qed
qed

lemma rt_ringbuffer_putchar_force_contents:
  assumes inv: "rb_inv rb"
  shows "\<exists>rb'. rt_ringbuffer_putchar_force rb ch = Some (rb', 1) \<and> rb_inv rb' \<and> bsize rb' = bsize rb
    \<and> rb_contents rb' = (if length (rb_contents rb) < bsize rb then rb_contents rb else tl (rb_contents rb)) @ [ch]"
proof (cases "rb_len rb < bsize rb")
  case True
  with rt_ringbuffer_putchar_contents [OF inv, of ch] show ?thesis
    by (auto simp: rt_ringbuffer_putchar_force_eq inv)
next
  case False
  note d = rb_invD [OF inv]
  from False d have "rb_contents rb \<noteq> []" by (simp flip: length_0_conv)
  then obtain c cs where c: "rb_contents rb = c # cs" by (meson list.exhaust)
  from rt_ringbuffer_getchar_contents [OF inv] c obtain rb1
    where g: "rt_ringbuffer_getchar rb = Some (rb1, Some c, 1)" and inv1: "rb_inv rb1" "bsize rb1 = bsize rb"
      "rb_contents rb1 = cs" by auto
  have "length cs < bsize rb" using c d(3) rb_contents_length [of rb] by simp
  moreover have "rb_len rb = Suc (length cs)" using c rb_contents_length [of rb] by simp
  ultimately show ?thesis
    using rt_ringbuffer_putchar_contents [OF inv1(1), of ch] False g c inv1
    by (auto simp: rt_ringbuffer_putchar_force_eq inv)
qed

section \<open>Set-up\<close>

lemma and_not_3: "(k :: int) AND NOT 3 = k - k mod 4"
proof -
  have m: "(3::int) = mask 2" by (simp add: mask_eq_exp_minus_1)
  have "k - take_bit 2 k = k AND NOT (take_bit 2 k)"
    by (rule disjunctive_diff_eq_and_not) (simp add: bit_eq_iff bit_simps)
  also have "\<dots> = k AND NOT (mask 2)"
    by (rule bit_eqI) (auto simp: bit_simps)
  finally show ?thesis unfolding m by (simp add: take_bit_eq_mod)
qed

lemma align_down_4:
  fixes sz :: "16 word"
  assumes "4 \<le> sint sz"
  shows "sint (sz AND NOT 3) = sint sz - sint sz mod 4" and "0 < sint (sz AND NOT 3)"
proof -
  have "sint (sz AND NOT 3) = sint sz AND NOT 3"
    by (simp add: signed_and_eq signed_not_eq)
  also have "\<dots> = sint sz - sint sz mod 4" by (rule and_not_3)
  finally show *: "sint (sz AND NOT 3) = sint sz - sint sz mod 4" .
  have "sint sz mod 4 < 4" by simp
  with assms * show "0 < sint (sz AND NOT 3)" by linarith
qed

lemma rt_ringbuffer_init_ok:
  assumes "4 \<le> sint sz" and "nat (sint sz) \<le> length pool"
  shows "\<exists>rb. rt_ringbuffer_init pool sz = Some rb \<and> rb_inv rb \<and> rb_contents rb = []
    \<and> bsize rb = nat (sint sz - sint sz mod 4)"
  using assms align_down_4 [OF assms(1)]
  by (auto simp: rt_ringbuffer_init_def rb_inv_def rb_contents_def rb_len_def bsize_def)

lemma rt_ringbuffer_reset_ok:
  "rb_inv rb \<Longrightarrow> rb_inv (rt_ringbuffer_reset rb) \<and> rb_contents (rt_ringbuffer_reset rb) = []
     \<and> bsize (rt_ringbuffer_reset rb) = bsize rb"
  by (auto simp: rt_ringbuffer_reset_def rb_inv_def rb_contents_def rb_len_def bsize_def)

section \<open>The ring buffer is a bounded queue\<close>

definition rb_push :: "rt_ringbuffer \<Rightarrow> rt_uint8_t \<Rightarrow> (bool \<times> rt_ringbuffer) option" where
  "rb_push rb ch =
     do { (rb', n) \<leftarrow> rt_ringbuffer_putchar rb ch; if n = 1 then Some (True, rb') else if n = 0 then Some (False, rb') else None }"

definition rb_pop :: "rt_ringbuffer \<Rightarrow> (rt_uint8_t option \<times> rt_ringbuffer) option" where
  "rb_pop rb =
     do { (rb', ch, n) \<leftarrow> rt_ringbuffer_getchar rb; if n = (if ch = None then 0 else 1) then Some (ch, rb') else None }"

interpretation rbq: bounded_queue rb_inv rb_contents bsize rb_push rb_pop
proof unfold_locales
  fix s assume inv: "rb_inv s"
  show "length (rb_contents s) \<le> bsize s" using rb_invD(3) [OF inv] by simp
  show "length (rb_contents s) = bsize s \<Longrightarrow> rb_push s x = Some (False, s)" for x
    using rt_ringbuffer_putchar_contents [OF inv, of x] by (simp add: rb_push_def)
  show "length (rb_contents s) < bsize s \<Longrightarrow>
      \<exists>t. rb_push s x = Some (True, t) \<and> rb_inv t \<and> bsize t = bsize s \<and> rb_contents t = rb_contents s @ [x]" for x
    using rt_ringbuffer_putchar_contents [OF inv, of x] by (auto simp: rb_push_def)
  show "rb_contents s = [] \<Longrightarrow> rb_pop s = Some (None, s)"
    using rt_ringbuffer_getchar_contents [OF inv] by (simp add: rb_pop_def)
  show "rb_contents s = x # xs \<Longrightarrow>
      \<exists>t. rb_pop s = Some (Some x, t) \<and> rb_inv t \<and> bsize t = bsize s \<and> rb_contents t = xs" for x xs
    using rt_ringbuffer_getchar_contents [OF inv] by (auto simp: rb_pop_def)
qed

section \<open>Properties\<close>

text \<open>\<^verbatim>\<open>rt_ringbuffer_put\<close> appends as many bytes as there is room for, returns their
  number, and keeps the ring well formed; the copy never leaves the pool.\<close>

theorem ringbuffer_put_appends:
  assumes "rb_inv rb" and "unat len \<le> length ptr"
    and "n = min (unat len) (bsize rb - length (rb_contents rb))"
  shows "\<exists>rb'. rt_ringbuffer_put rb ptr len = Some (rb', word_of_nat n) \<and> rb_inv rb'
    \<and> bsize rb' = bsize rb \<and> rb_contents rb' = rb_contents rb @ take n ptr"
  using rt_ringbuffer_put_contents [OF assms(1,2)] assms(3) by simp

definition rb_sample :: rt_ringbuffer where
  "rb_sample = \<lparr>buffer_ptr = [10, 11, 12, 13, 14, 15, 16, 17], read_mirror = False, read_index = 2,
     write_mirror = False, write_index = 6, buffer_size = 8\<rparr>"

lemma rb_sample_ok: "rb_inv rb_sample" "bsize rb_sample = 8" "rb_contents rb_sample = [12, 13, 14, 15]"
  by code_simp+

theorem ringbuffer_put_appends_witness:
  "\<exists>rb'. rt_ringbuffer_put rb_sample [1, 2, 3, 4, 5] 5 = Some (rb', 4) \<and> rb_inv rb'
    \<and> bsize rb' = 8 \<and> rb_contents rb' = [12, 13, 14, 15, 1, 2, 3, 4]"
proof -
  have "unat (5 :: 16 word) \<le> length [1, 2, 3, 4, 5 :: rt_uint8_t]" by simp
  moreover have "4 = min (unat (5 :: 16 word)) (bsize rb_sample - length (rb_contents rb_sample))"
    unfolding rb_sample_ok by simp
  ultimately have "\<exists>rb'. rt_ringbuffer_put rb_sample [1, 2, 3, 4, 5] 5 = Some (rb', word_of_nat 4) \<and> rb_inv rb'
    \<and> bsize rb' = 8 \<and> rb_contents rb' = [12, 13, 14, 15] @ take 4 [1, 2, 3, 4, 5]"
    unfolding rb_sample_ok(2,3) [symmetric] by (rule ringbuffer_put_appends [OF rb_sample_ok(1)])
  then show ?thesis by simp
qed

text \<open>\<^verbatim>\<open>rt_ringbuffer_get\<close> hands out the oldest bytes in order, as many as asked for
  and present, and removes exactly these.\<close>

theorem ringbuffer_get_takes:
  assumes "rb_inv rb" and "n = min (unat len) (length (rb_contents rb))"
  shows "\<exists>rb'. rt_ringbuffer_get rb len = Some (rb', take n (rb_contents rb), word_of_nat n)
    \<and> rb_inv rb' \<and> bsize rb' = bsize rb \<and> rb_contents rb' = drop n (rb_contents rb)"
  using rt_ringbuffer_get_contents [OF assms(1), of len] assms(2) by simp

theorem ringbuffer_get_takes_witness:
  "\<exists>rb'. rt_ringbuffer_get rb_sample 3 = Some (rb', [12, 13, 14], 3) \<and> rb_inv rb'
    \<and> bsize rb' = 8 \<and> rb_contents rb' = [15]"
  using ringbuffer_get_takes [of rb_sample 3 3] by (simp add: rb_sample_ok del: rb_contents_length)

text \<open>C23: for every sequence of byte writes and reads the ring buffer answers like a queue
  of its capacity: a write fails only when the buffer is full, a read returns the oldest byte.\<close>

theorem ringbuffer_refines_queue:
  assumes "rb_inv rb"
  shows "queue_run rb_push rb_pop rb ops = Some (queue_spec (bsize rb) (rb_contents rb) ops)"
  using assms by (intro rbq.every.run_refines) simp_all

theorem ringbuffer_refines_queue_witness:
  "queue_run rb_push rb_pop rb_sample [Pop, Push 7, Pop] = Some [Popped (Some 12), Pushed True, Popped (Some 13)]"
  using ringbuffer_refines_queue [of rb_sample "[Pop, Push 7, Pop]"] by (simp add: rb_sample_ok del: rb_contents_length)

text \<open>\<^verbatim>\<open>rt_ringbuffer_putchar_force\<close> always stores the byte; on a full buffer it
  discards the oldest byte and nothing else.\<close>

theorem ringbuffer_putchar_force_drops_oldest:
  assumes "rb_inv rb"
  shows "\<exists>rb'. rt_ringbuffer_putchar_force rb ch = Some (rb', 1) \<and> rb_inv rb' \<and> bsize rb' = bsize rb
    \<and> rb_contents rb' = (if length (rb_contents rb) < bsize rb then rb_contents rb else tl (rb_contents rb)) @ [ch]"
  using assms by (rule rt_ringbuffer_putchar_force_contents)

theorem ringbuffer_putchar_force_drops_oldest_witness:
  "\<exists>rb'. rt_ringbuffer_putchar_force rb_sample 9 = Some (rb', 1) \<and> rb_inv rb' \<and> bsize rb' = 8
    \<and> rb_contents rb' = [12, 13, 14, 15, 9]"
  using ringbuffer_putchar_force_drops_oldest [of rb_sample 9] by (simp add: rb_sample_ok del: rb_contents_length)

text \<open>The forced block write is meant to replace the oldest bytes by the new ones.  On a buffer of eight
  bytes that holds four, a forced write of six bytes that passes the end of the pool reports six bytes written,
  but flips both mirrors and leaves the buffer empty: all the data, the new bytes included, is lost.\<close>

theorem ringbuffer_put_force_loses_data:
  "rb_inv rb_sample \<and> bsize rb_sample = 8 \<and> length (rb_contents rb_sample) = 4
   \<and> (\<exists>rb'. rt_ringbuffer_put_force rb_sample [1, 2, 3, 4, 5, 6] 6 = Some (rb', 6) \<and> rb_contents rb' = [])"
proof (intro conjI)
  show "\<exists>rb'. rt_ringbuffer_put_force rb_sample [1, 2, 3, 4, 5, 6] 6 = Some (rb', 6) \<and> rb_contents rb' = []"
    by (simp add: rb_sample_def rt_ringbuffer_put_force_def rt_ringbuffer_space_len_def rt_ringbuffer_data_len_def
        rt_ringbuffer_status_def Let_def load_at_def store_at_def rb_contents_def rb_len_def)
qed (simp_all add: rb_sample_ok del: rb_contents_length)

end
