(* ===== verification/RT_List.thy ===== *)
theory RT_List
  imports RT_Prelude
begin

text \<open>
  The intrusive doubly linked list of \<^verbatim>\<open>kernel/include/rtservice.h\<close>, at two levels.

  The pointer level has the C code as it is written: a node is a \<^verbatim>\<open>struct rt_list_node\<close>,
  either the head of a list or the node embedded in an object, and the heap is the two
  functions \<open>next_of\<close> and \<open>prev_of\<close>.  The abstract level, a \<^emph>\<open>list store\<close>, keeps
  for every head the sequence of the objects linked on it and for every object the
  head it is linked on.  The refinement lemmas say that every pointer operation keeps
  the two levels in agreement; the kernel theories use the abstract operations only.
\<close>

section \<open>Pointer level\<close>

datatype ('q, 'n) list_node = Head 'q | Node 'n

record ('q, 'n) ptr_heap =
  next_of :: "('q, 'n) list_node \<Rightarrow> ('q, 'n) list_node"
  prev_of :: "('q, 'n) list_node \<Rightarrow> ('q, 'n) list_node"

definition rt_list_init :: "('q, 'n) list_node \<Rightarrow> ('q, 'n) ptr_heap \<Rightarrow> ('q, 'n) ptr_heap" where
  "rt_list_init l h = h\<lparr>next_of := (next_of h)(l := l), prev_of := (prev_of h)(l := l)\<rparr>"

text \<open>The four assignments are made one after the other, in the order of the source.\<close>

definition rt_list_insert_after ::
    "('q, 'n) list_node \<Rightarrow> ('q, 'n) list_node \<Rightarrow> ('q, 'n) ptr_heap \<Rightarrow> ('q, 'n) ptr_heap" where
  "rt_list_insert_after l n h =
     (let h1 = h\<lparr>prev_of := (prev_of h)(next_of h l := n)\<rparr>;
          h2 = h1\<lparr>next_of := (next_of h1)(n := next_of h1 l)\<rparr>;
          h3 = h2\<lparr>next_of := (next_of h2)(l := n)\<rparr>
      in h3\<lparr>prev_of := (prev_of h3)(n := l)\<rparr>)"

definition rt_list_insert_before ::
    "('q, 'n) list_node \<Rightarrow> ('q, 'n) list_node \<Rightarrow> ('q, 'n) ptr_heap \<Rightarrow> ('q, 'n) ptr_heap" where
  "rt_list_insert_before l n h =
     (let h1 = h\<lparr>next_of := (next_of h)(prev_of h l := n)\<rparr>;
          h2 = h1\<lparr>prev_of := (prev_of h1)(n := prev_of h1 l)\<rparr>;
          h3 = h2\<lparr>prev_of := (prev_of h2)(l := n)\<rparr>
      in h3\<lparr>next_of := (next_of h3)(n := l)\<rparr>)"

definition rt_list_remove :: "('q, 'n) list_node \<Rightarrow> ('q, 'n) ptr_heap \<Rightarrow> ('q, 'n) ptr_heap" where
  "rt_list_remove n h =
     (let h1 = h\<lparr>prev_of := (prev_of h)(next_of h n := prev_of h n)\<rparr>;
          h2 = h1\<lparr>next_of := (next_of h1)(prev_of h1 n := next_of h1 n)\<rparr>
      in h2\<lparr>next_of := (next_of h2)(n := n), prev_of := (prev_of h2)(n := n)\<rparr>)"

definition rt_list_isempty :: "('q, 'n) list_node \<Rightarrow> ('q, 'n) ptr_heap \<Rightarrow> bool" where
  "rt_list_isempty l h \<longleftrightarrow> next_of h l = l"

text \<open>
  \<^verbatim>\<open>rt_list_len\<close> walks the ring until it is back at \<open>l\<close>; on a damaged ring the
  walk does not end, so the model is a partial function.
\<close>

partial_function (option) rt_list_len_from ::
    "('q, 'n) ptr_heap \<Rightarrow> ('q, 'n) list_node \<Rightarrow> ('q, 'n) list_node \<Rightarrow> rt_uint32_t \<Rightarrow> rt_uint32_t option" where
  "rt_list_len_from h l p len =
     (if next_of h p = l then Some len else rt_list_len_from h l (next_of h p) (len + 1))"

definition rt_list_len :: "('q, 'n) list_node \<Rightarrow> ('q, 'n) ptr_heap \<Rightarrow> rt_uint32_t option" where
  "rt_list_len l h = rt_list_len_from h l l 0"

section \<open>Abstract level: list stores\<close>

record ('q, 'n) list_store =
  on_list :: "'q \<Rightarrow> 'n list"
  home :: "'n \<Rightarrow> 'q option"

text \<open>
  Linking a node that is still linked somewhere would damage the other list, so the
  abstract insertions are defined for unlinked nodes only.
\<close>

definition ls_insert_at :: "'q \<Rightarrow> nat \<Rightarrow> 'n \<Rightarrow> ('q, 'n) list_store \<Rightarrow> ('q, 'n) list_store option" where
  "ls_insert_at q i n s =
     (if home s n \<noteq> None then None
      else Some (s\<lparr>on_list := (on_list s)(q := take i (on_list s q) @ n # drop i (on_list s q)),
                   home := (home s)(n := Some q)\<rparr>))"

definition ls_append :: "'q \<Rightarrow> 'n \<Rightarrow> ('q, 'n) list_store \<Rightarrow> ('q, 'n) list_store option" where
  "ls_append q n s = ls_insert_at q (length (on_list s q)) n s"

definition ls_push :: "'q \<Rightarrow> 'n \<Rightarrow> ('q, 'n) list_store \<Rightarrow> ('q, 'n) list_store option" where
  "ls_push q n s = ls_insert_at q 0 n s"

definition ls_remove :: "'n \<Rightarrow> ('q, 'n) list_store \<Rightarrow> ('q, 'n) list_store" where
  "ls_remove n s =
     (case home s n of None \<Rightarrow> s
      | Some q \<Rightarrow> s\<lparr>on_list := (on_list s)(q := remove1 n (on_list s q)),
                     home := (home s)(n := None)\<rparr>)"

definition ls_empty :: "('q, 'n) list_store" where
  "ls_empty = \<lparr>on_list = (\<lambda>_. []), home = (\<lambda>_. None)\<rparr>"

lemma ls_empty_simps [simp]: "on_list ls_empty q = []" "home ls_empty n = None"
  by (simp_all add: ls_empty_def)

definition ls_wf :: "('q, 'n) list_store \<Rightarrow> bool" where
  "ls_wf s \<longleftrightarrow> (\<forall>q n. home s n = Some q \<longleftrightarrow> n \<in> set (on_list s q)) \<and> (\<forall>q. distinct (on_list s q))"

lemma ls_wf_empty [simp]: "ls_wf ls_empty"
  by (simp add: ls_wf_def ls_empty_def)

lemma ls_wf_mem: "ls_wf s \<Longrightarrow> n \<in> set (on_list s q) \<longleftrightarrow> home s n = Some q"
  by (simp add: ls_wf_def)

lemma ls_wf_unlinked: "ls_wf s \<Longrightarrow> home s n = None \<Longrightarrow> n \<notin> set (on_list s q)"
  by (simp add: ls_wf_mem)

lemma ls_wf_distinct: "ls_wf s \<Longrightarrow> distinct (on_list s q)"
  by (simp add: ls_wf_def)

lemma ls_insert_at_Some:
  "ls_insert_at q i n s = Some s' \<longleftrightarrow>
     home s n = None \<and>
     s' = s\<lparr>on_list := (on_list s)(q := take i (on_list s q) @ n # drop i (on_list s q)),
            home := (home s)(n := Some q)\<rparr>"
  by (auto simp: ls_insert_at_def)

lemma ls_append_Some:
  "ls_append q n s = Some s' \<longleftrightarrow>
     home s n = None \<and>
     s' = s\<lparr>on_list := (on_list s)(q := on_list s q @ [n]), home := (home s)(n := Some q)\<rparr>"
  by (auto simp: ls_append_def ls_insert_at_Some)

lemma ls_push_Some:
  "ls_push q n s = Some s' \<longleftrightarrow>
     home s n = None \<and>
     s' = s\<lparr>on_list := (on_list s)(q := n # on_list s q), home := (home s)(n := Some q)\<rparr>"
  by (auto simp: ls_push_def ls_insert_at_Some)

lemma ls_insert_at_wf:
  assumes "ls_wf s" and "ls_insert_at q i n s = Some s'"
  shows "ls_wf s'"
proof -
  from assms(2) have n: "home s n = None"
    and s': "s' = s\<lparr>on_list := (on_list s)(q := take i (on_list s q) @ n # drop i (on_list s q)),
                    home := (home s)(n := Some q)\<rparr>"
    by (simp_all add: ls_insert_at_Some)
  have "distinct (take i (on_list s q) @ n # drop i (on_list s q))"
    using assms(1) n by (intro distinct_insert_at) (simp_all add: ls_wf_distinct ls_wf_unlinked)
  moreover have "n \<notin> set (on_list s r)" for r
    using assms(1) n by (rule ls_wf_unlinked)
  ultimately show ?thesis
    using assms(1) by (auto simp: ls_wf_def s' set_insert_at simp del: set_append distinct_append)
qed

lemma ls_append_wf: "ls_wf s \<Longrightarrow> ls_append q n s = Some s' \<Longrightarrow> ls_wf s'"
  unfolding ls_append_def by (rule ls_insert_at_wf)

lemma ls_push_wf: "ls_wf s \<Longrightarrow> ls_push q n s = Some s' \<Longrightarrow> ls_wf s'"
  unfolding ls_push_def by (rule ls_insert_at_wf)

lemma ls_wf_unique: "ls_wf s \<Longrightarrow> n \<in> set (on_list s q) \<Longrightarrow> n \<in> set (on_list s r) \<Longrightarrow> q = r"
  by (simp add: ls_wf_mem)

lemma ls_remove_None: "home s n = None \<Longrightarrow> ls_remove n s = s"
  by (simp add: ls_remove_def)

lemma ls_remove_Some:
  "home s n = Some q \<Longrightarrow>
   ls_remove n s = s\<lparr>on_list := (on_list s)(q := remove1 n (on_list s q)), home := (home s)(n := None)\<rparr>"
  by (simp add: ls_remove_def)

lemma ls_remove_home [simp]: "home (ls_remove n s) = (home s)(n := None)"
  by (cases "home s n") (auto simp: ls_remove_None ls_remove_Some)

lemma ls_remove_on_list:
  "ls_wf s \<Longrightarrow> on_list (ls_remove n s) q = filter (\<lambda>x. x \<noteq> n) (on_list s q)"
  by (cases "home s n")
    (auto simp: ls_remove_None ls_remove_Some filter_neq_remove1 ls_wf_distinct ls_wf_mem remove1_idem)

lemma ls_remove_wf: "ls_wf s \<Longrightarrow> ls_wf (ls_remove n s)"
  using ls_remove_on_list [of s n] by (auto simp: ls_wf_def)

section \<open>Refinement\<close>

text \<open>
  \<open>seg h a xs b\<close>: from \<open>a\<close> the forward pointers lead through \<open>xs\<close> to \<open>b\<close>, and the
  backward pointers lead back the same way.
\<close>

fun seg :: "('q, 'n) ptr_heap \<Rightarrow> ('q, 'n) list_node \<Rightarrow> ('q, 'n) list_node list \<Rightarrow>
    ('q, 'n) list_node \<Rightarrow> bool" where
  "seg h a [] b \<longleftrightarrow> next_of h a = b \<and> prev_of h b = a"
| "seg h a (x # xs) b \<longleftrightarrow> next_of h a = x \<and> prev_of h x = a \<and> seg h x xs b"

definition list_rel :: "('q, 'n) ptr_heap \<Rightarrow> ('q, 'n) list_store \<Rightarrow> bool" where
  "list_rel h s \<longleftrightarrow> ls_wf s
     \<and> (\<forall>q. seg h (Head q) (map Node (on_list s q)) (Head q))
     \<and> (\<forall>n. home s n = None \<longrightarrow> next_of h (Node n) = Node n \<and> prev_of h (Node n) = Node n)"

lemma seg_append: "seg h a (xs @ x # ys) b \<longleftrightarrow> seg h a xs x \<and> seg h x ys b"
  by (induction xs arbitrary: a) auto

lemma seg_frame:
  assumes "\<forall>x\<in>set (a # xs). next_of h' x = next_of h x"
    and "\<forall>x\<in>set (xs @ [b]). prev_of h' x = prev_of h x"
  shows "seg h' a xs b = seg h a xs b"
  using assms by (induction xs arbitrary: a) auto

lemma seg_next: "seg h a xs b \<Longrightarrow> next_of h (last (a # xs)) = b"
  by (induction xs arbitrary: a) auto

lemma seg_prev: "seg h a xs b \<Longrightarrow> prev_of h (hd (xs @ [b])) = a"
  by (cases xs) auto

lemma seg_link:
  "seg h a (xs @ ys) b \<Longrightarrow>
   next_of h (last (a # xs)) = hd (ys @ [b]) \<and> prev_of h (hd (ys @ [b])) = last (a # xs)"
  by (induction xs arbitrary: a) (cases ys; auto)+

lemma seg_split: "seg h a (xs @ ys) b \<Longrightarrow> seg h a xs (hd (ys @ [b])) \<and> seg h (last (a # xs)) ys b"
  by (induction xs arbitrary: a) (cases ys; auto)+

text \<open>Redirecting the last link of a segment to another end, and the first from another source.\<close>

lemma seg_retarget:
  assumes "seg h a xs b"
    and "\<forall>x\<in>set (butlast (a # xs)). next_of h' x = next_of h x"
    and "next_of h' (last (a # xs)) = c"
    and "\<forall>x\<in>set xs. prev_of h' x = prev_of h x" and "prev_of h' c = last (a # xs)"
  shows "seg h' a xs c"
  using assms by (induction xs arbitrary: a) auto

lemma seg_resource:
  assumes "seg h a xs b"
    and "next_of h' c = hd (xs @ [b])" and "prev_of h' (hd (xs @ [b])) = c"
    and "\<forall>x\<in>set xs. next_of h' x = next_of h x"
    and "\<forall>x\<in>set (tl (xs @ [b])). prev_of h' x = prev_of h x"
  shows "seg h' c xs b"
proof (cases xs)
  case Nil
  with assms show ?thesis by simp
next
  case (Cons x ys)
  with assms have "seg h x ys b" by simp
  moreover have "seg h' x ys b = seg h x ys b"
    using assms Cons by (intro seg_frame) auto
  ultimately show ?thesis using assms Cons by simp
qed

lemma distinct_ring: "distinct xs \<Longrightarrow> distinct (Head q # map Node xs)"
  by (auto simp: distinct_map inj_on_def)

text \<open>Splicing a fresh node into a ring, and cutting a node out of it.\<close>

lemma seg_splice:
  assumes "seg h a (xs @ ys) b" and dist: "distinct (a # xs @ ys)" and b: "b \<notin> set (xs @ ys)"
    and n: "n \<noteq> a" "n \<noteq> b" "n \<notin> set (xs @ ys)"
    and h': "next_of h' = (next_of h)(n := hd (ys @ [b]), last (a # xs) := n)"
      "prev_of h' = (prev_of h)(hd (ys @ [b]) := n, n := last (a # xs))"
  shows "seg h' a (xs @ n # ys) b"
proof -
  from assms(1) have s: "seg h a xs (hd (ys @ [b]))" "seg h (last (a # xs)) ys b"
    by (auto dest: seg_split)
  have la: "last (a # xs) \<in> set (a # xs)" by (rule last_in_set) simp
  have hb: "hd (ys @ [b]) \<in> set (ys @ [b])" by (rule hd_in_set) simp
  have bl: "last (a # xs) \<notin> set (butlast (a # xs))"
    using dist append_butlast_last_id [of "a # xs"]
    by (metis distinct_append not_distinct_conv_prefix list.distinct(1) append_Cons)
  have tl: "hd (ys @ [b]) \<notin> set (tl (ys @ [b]))"
    using dist b by (cases ys) auto
  have "seg h' a xs n"
    using s(1)
  proof (rule seg_retarget)
    show "\<forall>x\<in>set (butlast (a # xs)). next_of h' x = next_of h x"
      using bl n by (auto simp: h' dest: in_set_butlastD)
    show "\<forall>x\<in>set xs. prev_of h' x = prev_of h x"
      using hb dist b n by (auto simp: h')
  qed (use la n hb in \<open>auto simp: h'\<close>)
  moreover have "seg h' n ys b"
    using s(2)
  proof (rule seg_resource)
    show "\<forall>x\<in>set ys. next_of h' x = next_of h x"
      using la dist n by (auto simp: h')
    show "\<forall>x\<in>set (tl (ys @ [b])). prev_of h' x = prev_of h x"
      using tl n by (cases ys) (auto simp: h')
  qed (use la n hb in \<open>auto simp: h'\<close>)
  ultimately show ?thesis by (simp add: seg_append)
qed

lemma seg_join: "seg h a xs (hd (ys @ [b])) \<Longrightarrow> seg h (last (a # xs)) ys b \<Longrightarrow> seg h a (xs @ ys) b"
  by (induction xs arbitrary: a) (cases ys; auto)+

lemma seg_cut:
  assumes "seg h a (xs @ n # ys) b" and dist: "distinct (a # xs @ n # ys)" and b: "b \<notin> set (xs @ n # ys)"
    and h': "next_of h' = (next_of h)(last (a # xs) := hd (ys @ [b]), n := n)"
      "prev_of h' = (prev_of h)(hd (ys @ [b]) := last (a # xs), n := n)"
  shows "seg h' a (xs @ ys) b"
proof (rule seg_join)
  have s: "seg h a xs n" "seg h n ys b" using assms(1) by (simp_all add: seg_append)
  have la: "last (a # xs) \<in> set (a # xs)" by (rule last_in_set) simp
  have hb: "hd (ys @ [b]) \<in> set (ys @ [b])" by (rule hd_in_set) simp
  have bl: "last (a # xs) \<notin> set (butlast (a # xs))"
    using dist append_butlast_last_id [of "a # xs"]
    by (metis distinct_append not_distinct_conv_prefix list.distinct(1) append_Cons)
  have tl: "hd (ys @ [b]) \<notin> set (tl (ys @ [b]))"
    using dist b by (cases ys) auto
  from s(1) show "seg h' a xs (hd (ys @ [b]))"
  proof (rule seg_retarget)
    show "\<forall>x\<in>set (butlast (a # xs)). next_of h' x = next_of h x"
      using bl dist by (auto simp: h' dest: in_set_butlastD)
    show "\<forall>x\<in>set xs. prev_of h' x = prev_of h x"
      using hb dist b by (auto simp: h')
  qed (use la dist hb b in \<open>auto simp: h'\<close>)
  from s(2) show "seg h' (last (a # xs)) ys b"
  proof (rule seg_resource)
    show "\<forall>x\<in>set ys. next_of h' x = next_of h x"
      using la dist by (auto simp: h')
    show "\<forall>x\<in>set (tl (ys @ [b])). prev_of h' x = prev_of h x"
      using tl dist b by (cases ys) (auto simp: h')
  qed (use la dist hb b in \<open>auto simp: h'\<close>)
qed

lemma list_rel_seg: "list_rel h s \<Longrightarrow> seg h (Head q) (map Node (on_list s q)) (Head q)"
  by (simp add: list_rel_def)

lemma list_rel_wf: "list_rel h s \<Longrightarrow> ls_wf s"
  by (simp add: list_rel_def)

text \<open>
  A change of the pointers that stays within the nodes of one list and one further node
  keeps the agreement on every other list and on every other unlinked node.
\<close>

lemma list_rel_local:
  assumes rel: "list_rel h s" and wf: "ls_wf s'"
    and lists: "\<forall>r. r \<noteq> q \<longrightarrow> on_list s' r = on_list s r"
    and homes: "\<forall>m. m \<noteq> n \<longrightarrow> home s' m = home s m"
    and n: "home s n = None \<or> home s n = Some q"
    and touched: "T \<subseteq> insert (Head q) (Node ` insert n (set (on_list s q)))"
    and frame: "\<forall>x. x \<notin> T \<longrightarrow> next_of h' x = next_of h x \<and> prev_of h' x = prev_of h x"
    and here: "seg h' (Head q) (map Node (on_list s' q)) (Head q)"
    and self: "home s' n = None \<longrightarrow> next_of h' (Node n) = Node n \<and> prev_of h' (Node n) = Node n"
  shows "list_rel h' s'"
  unfolding list_rel_def
proof (intro conjI allI impI)
  show "ls_wf s'" by (rule wf)
next
  fix r
  show "seg h' (Head r) (map Node (on_list s' r)) (Head r)"
  proof (cases "r = q")
    case True
    with here show ?thesis by simp
  next
    case False
    have "x \<notin> T" if "x \<in> insert (Head r) (Node ` set (on_list s r))" for x
      using that touched False n list_rel_wf [OF rel] by (auto simp: ls_wf_mem)
    then have "seg h' (Head r) (map Node (on_list s r)) (Head r) = seg h (Head r) (map Node (on_list s r)) (Head r)"
      using frame by (intro seg_frame) auto
    with rel lists False show ?thesis by (simp add: list_rel_seg)
  qed
next
  fix m
  assume m: "home s' m = None"
  have "next_of h' (Node m) = Node m \<and> prev_of h' (Node m) = Node m"
  proof (cases "m = n")
    case True
    with self m show ?thesis by simp
  next
    case False
    with m homes have "home s m = None" by simp
    moreover have "Node m \<notin> T"
      using touched False \<open>home s m = None\<close> list_rel_wf [OF rel] by (auto simp: ls_wf_mem)
    ultimately show ?thesis using rel frame by (simp add: list_rel_def)
  qed
  then show "next_of h' (Node m) = Node m" "prev_of h' (Node m) = Node m" by simp_all
qed

text \<open>The node an insertion position follows, and the node it precedes.\<close>

definition before_pos :: "'q \<Rightarrow> nat \<Rightarrow> ('q, 'n) list_store \<Rightarrow> ('q, 'n) list_node" where
  "before_pos q i s = last (Head q # map Node (take i (on_list s q)))"

definition after_pos :: "'q \<Rightarrow> nat \<Rightarrow> ('q, 'n) list_store \<Rightarrow> ('q, 'n) list_node" where
  "after_pos q i s = hd (map Node (drop i (on_list s q)) @ [Head q])"

lemma list_rel_link:
  assumes "list_rel h s"
  shows "next_of h (before_pos q i s) = after_pos q i s"
    and "prev_of h (after_pos q i s) = before_pos q i s"
  using seg_link [of h "Head q" "map Node (take i (on_list s q))" "map Node (drop i (on_list s q))" "Head q"]
    list_rel_seg [OF assms, of q]
  by (simp_all add: before_pos_def after_pos_def flip: map_append)

lemma pos_in_ring:
  "before_pos q i s \<in> insert (Head q) (Node ` set (on_list s q))"
  "after_pos q i s \<in> insert (Head q) (Node ` set (on_list s q))"
proof -
  have "last (Head q # map Node (take i (on_list s q))) \<in> set (Head q # map Node (take i (on_list s q)))"
    by (rule last_in_set) simp
  then show "before_pos q i s \<in> insert (Head q) (Node ` set (on_list s q))"
    by (auto simp: before_pos_def dest: in_set_takeD split: if_splits)
  have "hd (map Node (drop i (on_list s q)) @ [Head q]) \<in> set (map Node (drop i (on_list s q)) @ [Head q])"
    by (rule hd_in_set) simp
  then show "after_pos q i s \<in> insert (Head q) (Node ` set (on_list s q))"
    by (auto simp: after_pos_def dest: in_set_dropD)
qed

lemma rt_list_insert_heap:
  fixes q :: 'q and i :: nat
  assumes "list_rel h s" and "home s n = None"
  defines "a \<equiv> before_pos q i s" and "b \<equiv> after_pos q i s"
  defines "h' \<equiv> h\<lparr>next_of := (next_of h)(Node n := b, a := Node n), prev_of := (prev_of h)(b := Node n, Node n := a)\<rparr>"
  shows "rt_list_insert_after a (Node n) h = h'" and "rt_list_insert_before b (Node n) h = h'"
proof -
  have n: "Node n \<noteq> a" "Node n \<noteq> b"
    using pos_in_ring [where q = q and i = i and s = s] assms(1,2) list_rel_wf [OF assms(1)]
    by (auto simp: a_def b_def ls_wf_mem)
  note link = list_rel_link [OF assms(1), of q i, folded a_def b_def]
  show "rt_list_insert_after a (Node n) h = h'"
    using n link by (simp add: rt_list_insert_after_def h'_def Let_def)
  show "rt_list_insert_before b (Node n) h = h'"
    using n link by (simp add: rt_list_insert_before_def h'_def Let_def fun_upd_twist)
qed

lemma list_rel_insert:
  assumes rel: "list_rel h s" and ins: "ls_insert_at q i n s = Some s'"
  defines "a \<equiv> before_pos q i s" and "b \<equiv> after_pos q i s"
  shows "list_rel (h\<lparr>next_of := (next_of h)(Node n := b, a := Node n),
                     prev_of := (prev_of h)(b := Node n, Node n := a)\<rparr>) s'" (is "list_rel ?h s'")
proof (rule list_rel_local [where T = "{Node n, a, b}" and q = q and n = n, OF rel])
  from ins have n: "home s n = None"
    and s': "s' = s\<lparr>on_list := (on_list s)(q := take i (on_list s q) @ n # drop i (on_list s q)),
                    home := (home s)(n := Some q)\<rparr>"
    by (simp_all add: ls_insert_at_Some)
  show "ls_wf s'" using list_rel_wf [OF rel] ins by (rule ls_insert_at_wf)
  show "{Node n, a, b} \<subseteq> insert (Head q) (Node ` insert n (set (on_list s q)))"
    using pos_in_ring [where q = q and i = i and s = s] by (auto simp: a_def b_def)
  have d: "distinct (Head q # map Node (take i (on_list s q)) @ map Node (drop i (on_list s q)))"
    using distinct_ring [OF ls_wf_distinct [OF list_rel_wf [OF rel]], of q q]
    by (simp flip: map_append)
  have m: "Node n \<notin> set (map Node (take i (on_list s q)) @ map Node (drop i (on_list s q)))"
    using ls_wf_unlinked [OF list_rel_wf [OF rel] n, of q] by (simp add: image_iff flip: map_append)
  have "seg ?h (Head q) (map Node (take i (on_list s q)) @ Node n # map Node (drop i (on_list s q))) (Head q)"
    by (rule seg_splice [where h = h])
      (use d m list_rel_seg [OF rel, of q] in \<open>auto simp: a_def b_def before_pos_def after_pos_def simp flip: map_append\<close>)
  then show "seg ?h (Head q) (map Node (on_list s' q)) (Head q)" by (simp add: s')
qed (use ins in \<open>auto simp: ls_insert_at_Some\<close>)

lemma rt_list_remove_refines:
  assumes rel: "list_rel h s"
  shows "list_rel (rt_list_remove (Node n) h) (ls_remove n s)"
proof (cases "home s n")
  case None
  then have "next_of h (Node n) = Node n" "prev_of h (Node n) = Node n"
    using rel by (simp_all add: list_rel_def)
  then have "rt_list_remove (Node n) h = h"
    by (simp add: rt_list_remove_def Let_def fun_upd_idem)
  then show ?thesis using rel None by (simp add: ls_remove_None)
next
  case (Some q)
  note wf = list_rel_wf [OF rel]
  from wf Some have "n \<in> set (on_list s q)" by (simp add: ls_wf_mem)
  then obtain xs ys where l: "on_list s q = xs @ n # ys" and "n \<notin> set xs" by (rule split_at_elem)
  define a b where "a = last (Head q # map Node xs)" and "b = hd (map Node ys @ [Head q])"
  have d: "distinct (Head q # map Node xs @ Node n # map Node ys)"
    using distinct_ring [OF ls_wf_distinct [OF wf], of q q] by (simp add: l)
  have sg: "seg h (Head q) (map Node xs @ Node n # map Node ys) (Head q)"
    using list_rel_seg [OF rel, of q] by (simp add: l)
  then have nx: "next_of h (Node n) = b" and pv: "prev_of h (Node n) = a"
    using seg_link [of h "Node n" "[]" "map Node ys" "Head q"]
      seg_next [of h "Head q" "map Node xs" "Node n"] seg_link [of h "Head q" "map Node xs" "Node n # map Node ys" "Head q"]
    by (auto simp: a_def b_def seg_append)
  have ab: "a \<in> insert (Head q) (Node ` set xs)" "b \<in> insert (Head q) (Node ` set ys)"
    using last_in_set [of "Head q # map Node xs"] hd_in_set [of "map Node ys @ [Head q]"]
    by (auto simp: a_def b_def simp del: hd_in_set split: if_splits)
  then have ne: "a \<noteq> Node n" "b \<noteq> Node n" using d by auto
  have h': "rt_list_remove (Node n) h =
      h\<lparr>next_of := (next_of h)(a := b, Node n := Node n), prev_of := (prev_of h)(b := a, Node n := Node n)\<rparr>"
    using nx pv ne by (simp add: rt_list_remove_def Let_def)
  have rest: "on_list (ls_remove n s) q = xs @ ys"
    using Some l \<open>n \<notin> set xs\<close> by (simp add: ls_remove_Some remove1_middle)
  show ?thesis
  proof (rule list_rel_local [where T = "{Node n, a, b}" and q = q and n = n, OF rel])
    show "ls_wf (ls_remove n s)" using wf by (rule ls_remove_wf)
    have "seg (rt_list_remove (Node n) h) (Head q) (map Node xs @ map Node ys) (Head q)"
      using sg by (rule seg_cut) (use d in \<open>auto simp: h' a_def b_def\<close>)
    then show "seg (rt_list_remove (Node n) h) (Head q) (map Node (on_list (ls_remove n s) q)) (Head q)"
      by (simp add: rest)
  qed (use Some ab l in \<open>auto simp: h' ls_remove_Some\<close>)
qed

lemma rt_list_isempty_refines: "list_rel h s \<Longrightarrow> rt_list_isempty (Head q) h \<longleftrightarrow> on_list s q = []"
  using list_rel_seg [of h s q] by (cases "on_list s q") (auto simp: rt_list_isempty_def)

lemma rt_list_len_from_seg:
  "seg h p xs l \<Longrightarrow> l \<notin> set xs \<Longrightarrow> rt_list_len_from h l p len = Some (len + word_of_nat (length xs))"
proof (induction xs arbitrary: p len)
  case Nil
  then show ?case by (simp add: rt_list_len_from.simps)
next
  case (Cons x xs)
  from Cons.prems have "next_of h p = x" "x \<noteq> l" by auto
  then have "rt_list_len_from h l p len = rt_list_len_from h l x (len + 1)"
    by (subst rt_list_len_from.simps) simp
  with Cons show ?case by simp
qed

lemma rt_list_len_refines: "list_rel h s \<Longrightarrow> rt_list_len (Head q) h = Some (word_of_nat (length (on_list s q)))"
  using rt_list_len_from_seg [OF list_rel_seg [of h s q], of 0] by (auto simp: rt_list_len_def)

text \<open>The two neighbours of a node are the same exactly when it shares its list with no other node.\<close>

lemma list_rel_neighbours:
  assumes rel: "list_rel h s"
  shows "next_of h (Node n) \<noteq> prev_of h (Node n) \<longleftrightarrow>
    (case home s n of None \<Rightarrow> False | Some q \<Rightarrow> 2 \<le> length (on_list s q))"
proof (cases "home s n")
  case None
  with rel show ?thesis by (simp add: list_rel_def)
next
  case (Some q)
  note wf = list_rel_wf [OF rel]
  from wf Some have "n \<in> set (on_list s q)" by (simp add: ls_wf_mem)
  then obtain xs ys where l: "on_list s q = xs @ n # ys" by (meson split_list)
  have d: "distinct (xs @ n # ys)" using ls_wf_distinct [OF wf, of q] by (simp add: l)
  have "seg h (Head q) (map Node xs) (Node n)" "seg h (Node n) (map Node ys) (Head q)"
    using list_rel_seg [OF rel, of q] by (simp_all add: l seg_append)
  then have "prev_of h (Node n) = last (Head q # map Node xs)" "next_of h (Node n) = hd (map Node ys @ [Head q])"
    using seg_link [of h "Head q" "map Node xs" "[]" "Node n"] seg_link [of h "Node n" "[]" "map Node ys" "Head q"]
    by simp_all
  moreover have "last (Head q # map Node xs) = hd (map Node ys @ [Head q]) \<longleftrightarrow> xs = [] \<and> ys = []"
    using d by (cases xs rule: rev_cases; cases ys) auto
  ultimately have "next_of h (Node n) \<noteq> prev_of h (Node n) \<longleftrightarrow> \<not> (xs = [] \<and> ys = [])" by metis
  also have "\<dots> \<longleftrightarrow> 2 \<le> length (on_list s q)" by (cases xs; cases ys) (auto simp: l)
  finally show ?thesis by (simp add: Some)
qed

text \<open>A heap whose nodes all point to themselves is the store without links.\<close>

lemma list_rel_init: "list_rel \<lparr>next_of = (\<lambda>x. x), prev_of = (\<lambda>x. x)\<rparr> ls_empty"
  by (simp add: list_rel_def ls_empty_def ls_wf_def)

section \<open>Properties\<close>

text \<open>C22: the pointer operations of the intrusive list implement the abstract list store.  Removing a
  node, inserting it after a node or before a node, the emptiness test and the walk that counts the
  elements in an unsigned int keep the two levels in agreement, for any number of lists that share the heap.\<close>

theorem list_operations_refine:
  assumes "list_rel h s"
  shows "list_rel (rt_list_remove (Node n) h) (ls_remove n s)
    \<and> (\<forall>s'. ls_insert_at q i n s = Some s' \<longrightarrow>
          list_rel (rt_list_insert_after (before_pos q i s) (Node n) h) s'
        \<and> list_rel (rt_list_insert_before (after_pos q i s) (Node n) h) s')
    \<and> (rt_list_isempty (Head q) h \<longleftrightarrow> on_list s q = [])
    \<and> rt_list_len (Head q) h = Some (word_of_nat (length (on_list s q)))"
proof (intro conjI allI impI)
  fix s' assume ins: "ls_insert_at q i n s = Some s'"
  then have "home s n = None" by (simp add: ls_insert_at_Some)
  note heap = rt_list_insert_heap [OF assms this, of q i]
  show "list_rel (rt_list_insert_after (before_pos q i s) (Node n) h) s'"
    using list_rel_insert [OF assms ins] by (simp add: heap)
  show "list_rel (rt_list_insert_before (after_pos q i s) (Node n) h) s'"
    using list_rel_insert [OF assms ins] by (simp add: heap)
qed (use assms in \<open>simp_all add: rt_list_remove_refines rt_list_isempty_refines rt_list_len_refines\<close>)

definition two_lists :: "(bool, nat) list_store" where
  "two_lists = \<lparr>on_list = (\<lambda>q. if q then [1, 2] else []), home = (\<lambda>n. if n = 1 \<or> n = 2 then Some True else None)\<rparr>"

definition two_lists_heap :: "(bool, nat) ptr_heap" where
  "two_lists_heap =
     \<lparr>next_of = (\<lambda>x. x)(Head True := Node 1, Node 1 := Node 2, Node 2 := Head True),
      prev_of = (\<lambda>x. x)(Head True := Node 2, Node 2 := Node 1, Node 1 := Head True)\<rparr>"

lemma two_lists_rel: "list_rel two_lists_heap two_lists"
  by (auto simp: list_rel_def ls_wf_def two_lists_def two_lists_heap_def split: if_splits)

theorem list_operations_refine_witness:
  "list_rel (rt_list_remove (Node 1) two_lists_heap) (ls_remove 1 two_lists)
    \<and> rt_list_len (Head True) two_lists_heap = Some 2
    \<and> (\<exists>s'. ls_insert_at True 1 7 two_lists = Some s' \<and> on_list s' True = [1, 7, 2]
        \<and> list_rel (rt_list_insert_after (Node 1) (Node 7) two_lists_heap) s')"
proof (intro conjI)
  show "list_rel (rt_list_remove (Node 1) two_lists_heap) (ls_remove 1 two_lists)"
    using list_operations_refine [OF two_lists_rel] by blast
  show "rt_list_len (Head True) two_lists_heap = Some 2"
    using list_operations_refine [OF two_lists_rel, where q = True] by (simp add: two_lists_def)
  show "\<exists>s'. ls_insert_at True 1 7 two_lists = Some s' \<and> on_list s' True = [1, 7, 2]
      \<and> list_rel (rt_list_insert_after (Node 1) (Node 7) two_lists_heap) s'"
    using list_operations_refine [OF two_lists_rel, where q = True and i = 1 and n = 7]
    by (simp add: ls_insert_at_def two_lists_def before_pos_def)
qed

end
