(* ===== verification/RT_Kservice.thy ===== *)
theory RT_Kservice
  imports RT_Prelude
begin

text \<open>
  Kernel services of \<^verbatim>\<open>kernel/src/kservice.c\<close> that the rest of the kernel is built on:
  the find-first-set routine behind the ready bitmap, and the bounded string copy and
  comparison behind object names.  A C string is the list of the bytes that may be read
  from the pointer on; reading past its end is \<^term>\<open>None\<close>.
\<close>

section \<open>Find first set\<close>

definition lowest_bit_bitmap :: "nat list" where
  "lowest_bit_bitmap =
    [0, 0, 1, 0, 2, 0, 1, 0, 3, 0, 1, 0, 2, 0, 1, 0,
     4, 0, 1, 0, 2, 0, 1, 0, 3, 0, 1, 0, 2, 0, 1, 0,
     5, 0, 1, 0, 2, 0, 1, 0, 3, 0, 1, 0, 2, 0, 1, 0,
     4, 0, 1, 0, 2, 0, 1, 0, 3, 0, 1, 0, 2, 0, 1, 0,
     6, 0, 1, 0, 2, 0, 1, 0, 3, 0, 1, 0, 2, 0, 1, 0,
     4, 0, 1, 0, 2, 0, 1, 0, 3, 0, 1, 0, 2, 0, 1, 0,
     5, 0, 1, 0, 2, 0, 1, 0, 3, 0, 1, 0, 2, 0, 1, 0,
     4, 0, 1, 0, 2, 0, 1, 0, 3, 0, 1, 0, 2, 0, 1, 0,
     7, 0, 1, 0, 2, 0, 1, 0, 3, 0, 1, 0, 2, 0, 1, 0,
     4, 0, 1, 0, 2, 0, 1, 0, 3, 0, 1, 0, 2, 0, 1, 0,
     5, 0, 1, 0, 2, 0, 1, 0, 3, 0, 1, 0, 2, 0, 1, 0,
     4, 0, 1, 0, 2, 0, 1, 0, 3, 0, 1, 0, 2, 0, 1, 0,
     6, 0, 1, 0, 2, 0, 1, 0, 3, 0, 1, 0, 2, 0, 1, 0,
     4, 0, 1, 0, 2, 0, 1, 0, 3, 0, 1, 0, 2, 0, 1, 0,
     5, 0, 1, 0, 2, 0, 1, 0, 3, 0, 1, 0, 2, 0, 1, 0,
     4, 0, 1, 0, 2, 0, 1, 0, 3, 0, 1, 0, 2, 0, 1, 0]"

definition rt_ffs :: "rt_uint32_t \<Rightarrow> nat" where
  "rt_ffs value =
     (if value = 0 then 0
      else if value AND 0xff \<noteq> 0 then lowest_bit_bitmap ! unat (value AND 0xff) + 1
      else if value AND 0xff00 \<noteq> 0 then lowest_bit_bitmap ! unat (drop_bit 8 (value AND 0xff00)) + 9
      else if value AND 0xff0000 \<noteq> 0 then lowest_bit_bitmap ! unat (drop_bit 16 (value AND 0xff0000)) + 17
      else lowest_bit_bitmap ! unat (drop_bit 24 (value AND 0xff000000)) + 25)"

text \<open>The table entry of a byte is the index of its lowest set bit.\<close>

lemma lowest_bit_bitmap_check:
  "list_all (\<lambda>(v :: int, r). r < 8 \<and> odd (v div 2 ^ r) \<and> list_all (\<lambda>i. even (v div 2 ^ i)) [0..<r])
     (tl (zip [0..255] lowest_bit_bitmap))"
  by code_simp

lemma lowest_bit_bitmap_length: "length lowest_bit_bitmap = 256"
  by (simp add: lowest_bit_bitmap_def)

lemma lowest_bit_bitmap_byte:
  assumes "0 < v" and "v < 256"
  shows "lowest_bit_bitmap ! v < 8" and "bit v (lowest_bit_bitmap ! v)"
    and "i < lowest_bit_bitmap ! v \<Longrightarrow> \<not> bit v i"
proof -
  let ?z = "zip [0..255 :: int] lowest_bit_bitmap"
  have "tl ?z ! (v - 1) = (int v, lowest_bit_bitmap ! v)"
    using assms by (simp add: nth_tl lowest_bit_bitmap_length)
  moreover have "tl ?z ! (v - 1) \<in> set (tl ?z)"
    using assms less_imp_diff_less [of v 256 1] by (intro nth_mem) (simp add: lowest_bit_bitmap_length)
  ultimately have "(int v, lowest_bit_bitmap ! v) \<in> set (tl ?z)" by simp
  with lowest_bit_bitmap_check
  have "lowest_bit_bitmap ! v < 8 \<and> bit (int v) (lowest_bit_bitmap ! v)
      \<and> (\<forall>i < lowest_bit_bitmap ! v. \<not> bit (int v) i)"
    unfolding list_all_iff bit_iff_odd by fastforce
  then show "lowest_bit_bitmap ! v < 8" "bit v (lowest_bit_bitmap ! v)"
    "i < lowest_bit_bitmap ! v \<Longrightarrow> \<not> bit v i"
    by (auto simp: bit_of_nat_iff_bit)
qed

lemma byte_of_mask:
  "drop_bit 8 (v AND 0xff00) = drop_bit 8 v AND (0xff :: rt_uint32_t)"
  "drop_bit 16 (v AND 0xff0000) = drop_bit 16 v AND (0xff :: rt_uint32_t)"
  "drop_bit 24 (v AND 0xff000000) = drop_bit 24 v AND (0xff :: rt_uint32_t)"
  by (simp_all add: drop_bit_and)

lemma shifted_masks:
  "(0xff00 :: rt_uint32_t) = push_bit 8 (mask 8)" "(0xff0000 :: rt_uint32_t) = push_bit 16 (mask 8)"
  by (simp_all add: mask_eq_exp_minus_1)

lemma and_shifted_mask_0:
  assumes "s + 8 \<le> 32"
  shows "v AND push_bit s (mask 8) = (0 :: rt_uint32_t) \<longleftrightarrow> (\<forall>i<8. \<not> bit v (s + i))"
proof
  assume z: "v AND push_bit s (mask 8) = (0 :: rt_uint32_t)"
  have "bit (v AND push_bit s (mask 8)) (s + i) = bit v (s + i)" if "i < 8" for i
    using assms that by (simp add: bit_simps)
  with z show "\<forall>i<8. \<not> bit v (s + i)" by simp
next
  assume r: "\<forall>i<8. \<not> bit v (s + i)"
  have "\<not> bit v n" if "s \<le> n" "n - s < 8" for n
    using r [rule_format, of "n - s"] that by simp
  then show "v AND push_bit s (mask 8) = (0 :: rt_uint32_t)"
    by (intro bit_word_eqI) (auto simp: bit_simps)
qed

lemma mask_8: "(0xff :: rt_uint32_t) = mask 8"
  by (simp add: mask_eq_exp_minus_1)

lemma byte_unat: "unat (drop_bit s v AND (0xff :: rt_uint32_t)) < 256"
proof -
  have "unat (drop_bit s v AND (0xff :: rt_uint32_t)) \<le> unat (0xff :: rt_uint32_t)"
    by (rule word_and_le1 [THEN word_le_nat_alt [THEN iffD1]])
  then show ?thesis by simp
qed

lemma byte_bit:
  "bit (unat (drop_bit s v AND (0xff :: rt_uint32_t))) i \<longleftrightarrow> i < 8 \<and> bit v (s + i)"
  by (auto simp: mask_8 bit_unsigned_iff bit_simps simp flip: take_bit_eq_mask dest: bit_imp_le_length)

lemma low_byte_0: "drop_bit s v AND (0xff :: rt_uint32_t) = 0 \<longleftrightarrow> (\<forall>i<8. \<not> bit v (s + i))"
proof -
  have "drop_bit s v AND (0xff :: rt_uint32_t) = 0 \<longleftrightarrow> unat (drop_bit s v AND (0xff :: rt_uint32_t)) = 0"
    by (simp add: unat_eq_0)
  also have "\<dots> \<longleftrightarrow> (\<forall>i. \<not> bit (unat (drop_bit s v AND (0xff :: rt_uint32_t))) i)"
    by (simp add: bit_eq_iff [of _ 0])
  finally show ?thesis by (auto simp: byte_bit)
qed

text \<open>The four byte cases of the routine are instances of one fact.\<close>

lemma ffs_byte:
  assumes low: "\<forall>i < s. \<not> bit v i" and "drop_bit s v AND (0xff :: rt_uint32_t) \<noteq> 0"
  defines "r \<equiv> lowest_bit_bitmap ! unat (drop_bit s v AND 0xff)"
  shows "bit v (s + r) \<and> r < 8 \<and> (\<forall>i < s + r. \<not> bit v i)"
proof -
  have pos: "0 < unat (drop_bit s v AND (0xff :: rt_uint32_t))"
    using assms(2) by (simp add: unat_gt_0)
  note t = lowest_bit_bitmap_byte [OF pos byte_unat, folded r_def]
  have "\<not> bit v i" if "i < s + r" for i
  proof (cases "i < s")
    case False
    then obtain j where "i = s + j" using le_Suc_ex linorder_not_less by blast
    with that t show ?thesis by (auto simp: byte_bit)
  qed (use low in simp)
  with t show ?thesis by (simp add: byte_bit)
qed

lemma rt_ffs_0 [simp]: "rt_ffs 0 = 0"
  by (simp add: rt_ffs_def)

lemma rt_ffs_cases:
  assumes "v \<noteq> 0"
  obtains s where "s \<in> {0, 8, 16, 24}" "\<forall>i < s. \<not> bit v i" "drop_bit s v AND (0xff :: rt_uint32_t) \<noteq> 0"
    "rt_ffs v = s + lowest_bit_bitmap ! unat (drop_bit s v AND 0xff) + 1"
proof -
  have z: "\<forall>i < t. \<not> bit v i"
    if "drop_bit s v AND (0xff :: rt_uint32_t) = 0" "\<forall>i < s. \<not> bit v i" "t = s + 8" for s t
    using that unfolding low_byte_0 by (metis add_diff_inverse_nat nat_add_left_cancel_less)
  have m: "v AND 0xff00 = 0 \<longleftrightarrow> drop_bit 8 v AND (0xff :: rt_uint32_t) = 0"
    "v AND 0xff0000 = 0 \<longleftrightarrow> drop_bit 16 v AND (0xff :: rt_uint32_t) = 0"
    unfolding low_byte_0 shifted_masks by (simp_all add: and_shifted_mask_0)
  have l8: "\<forall>i < 8. \<not> bit v i" if "v AND 0xff = 0"
    by (rule z [of 0]) (use that in simp_all)
  have l16: "\<forall>i < 16. \<not> bit v i" if "v AND 0xff = 0" "v AND 0xff00 = 0"
    by (rule z [OF that(2) [unfolded m] l8 [OF that(1)]]) simp
  consider "v AND 0xff \<noteq> 0" | "v AND 0xff = 0" "v AND 0xff00 \<noteq> 0"
    | "v AND 0xff = 0" "v AND 0xff00 = 0" "v AND 0xff0000 \<noteq> 0"
    | "v AND 0xff = 0" "v AND 0xff00 = 0" "v AND 0xff0000 = 0" by blast
  then show ?thesis
  proof cases
    case 1
    then have "rt_ffs v = 0 + lowest_bit_bitmap ! unat (drop_bit 0 v AND 0xff) + 1"
      using assms by (simp add: rt_ffs_def)
    with 1 show ?thesis by (intro that [of 0]) auto
  next
    case 2
    then have "rt_ffs v = 8 + lowest_bit_bitmap ! unat (drop_bit 8 v AND 0xff) + 1"
      using assms by (simp add: rt_ffs_def byte_of_mask)
    moreover have "\<forall>i < 8. \<not> bit v i" by (rule l8 [OF 2(1)])
    ultimately show ?thesis using 2(2) unfolding m by (intro that [of 8]) auto
  next
    case 3
    then have "rt_ffs v = 16 + lowest_bit_bitmap ! unat (drop_bit 16 v AND 0xff) + 1"
      using assms by (simp add: rt_ffs_def byte_of_mask)
    moreover have "\<forall>i < 16. \<not> bit v i" by (rule l16 [OF 3(1,2)])
    ultimately show ?thesis using 3(3) unfolding m by (intro that [of 16]) auto
  next
    case 4
    then have f: "rt_ffs v = 24 + lowest_bit_bitmap ! unat (drop_bit 24 v AND 0xff) + 1"
      using assms by (simp add: rt_ffs_def byte_of_mask)
    have low: "\<forall>i < 24. \<not> bit v i"
      by (rule z [OF 4(3) [unfolded m] l16 [OF 4(1,2)]]) simp
    have "drop_bit 24 v AND (0xff :: rt_uint32_t) \<noteq> 0"
    proof
      assume "drop_bit 24 v AND (0xff :: rt_uint32_t) = 0"
      from this low have "\<forall>i < 32. \<not> bit v i" by (rule z) simp
      with assms show False using word_bit_neq_0 [of v] by auto
    qed
    with f low show ?thesis by (intro that [of 24]) auto
  qed
qed

text \<open>The routine returns one plus the index of the lowest set bit.\<close>

lemma rt_ffs_lowest:
  assumes "v \<noteq> 0"
  shows "1 \<le> rt_ffs v \<and> rt_ffs v \<le> 32 \<and> bit v (rt_ffs v - 1) \<and> (\<forall>i < rt_ffs v - 1. \<not> bit v i)"
proof -
  obtain s where s: "s \<in> {0, 8, 16, 24}" "\<forall>i < s. \<not> bit v i" "drop_bit s v AND (0xff :: rt_uint32_t) \<noteq> 0"
    "rt_ffs v = s + lowest_bit_bitmap ! unat (drop_bit s v AND 0xff) + 1"
    using assms by (rule rt_ffs_cases)
  from ffs_byte [OF s(2,3)] s(1,4) show ?thesis by auto
qed

lemma rt_ffs_eqI:
  assumes "bit v n" and "\<And>i. i < n \<Longrightarrow> \<not> bit v i"
  shows "rt_ffs v = n + 1"
proof -
  from assms(1) have "v \<noteq> 0" by auto
  note l = rt_ffs_lowest [OF this]
  have "rt_ffs v - 1 = n"
    using l assms by (metis linorder_neqE_nat)
  with l show ?thesis by arith
qed

section \<open>Bounded strings\<close>

text \<open>
  \<^verbatim>\<open>rt_strncpy(dst, src, n)\<close>: the model returns the \<open>n\<close> bytes that \<open>dst\<close> holds
  afterwards; after the terminating NUL the rest is padded with NUL.
\<close>

fun rt_strncpy :: "rt_uint8_t list \<Rightarrow> nat \<Rightarrow> rt_uint8_t list option" where
  "rt_strncpy src 0 = Some []"
| "rt_strncpy [] (Suc n) = None"
| "rt_strncpy (c # src) (Suc n) =
     (if c = 0 then Some (replicate (Suc n) 0) else map_option ((#) c) (rt_strncpy src n))"

text \<open>
  \<^verbatim>\<open>rt_strncmp(cs, ct, count)\<close> keeps the difference of two bytes in a
  \<^verbatim>\<open>signed char\<close>, so the result is the eight bit difference read as signed.
\<close>

fun rt_strncmp :: "rt_uint8_t list \<Rightarrow> rt_uint8_t list \<Rightarrow> nat \<Rightarrow> int option" where
  "rt_strncmp cs ct 0 = Some 0"
| "rt_strncmp (a # cs) (b # ct) (Suc n) =
     (let res = a - b in if res \<noteq> 0 \<or> a = 0 then Some (sint res) else rt_strncmp cs ct n)"
| "rt_strncmp cs ct (Suc n) = None"

text \<open>The part of a byte sequence that counts as a string of at most \<open>n\<close> bytes.\<close>

definition cstr :: "nat \<Rightarrow> rt_uint8_t list \<Rightarrow> rt_uint8_t list" where
  "cstr n s = takeWhile (\<lambda>c. c \<noteq> 0) (take n s)"

lemma cstr_0 [simp]: "cstr 0 s = []"
  by (simp add: cstr_def)

lemma cstr_Suc: "cstr (Suc n) (c # s) = (if c = 0 then [] else c # cstr n s)"
  by (simp add: cstr_def)

lemma rt_strncpy_length: "rt_strncpy s n = Some d \<Longrightarrow> length d = n"
  by (induction s n arbitrary: d rule: rt_strncpy.induct) (auto split: if_splits)

lemma rt_strncpy_cstr: "rt_strncpy s n = Some d \<Longrightarrow> cstr n d = cstr n s"
  by (induction s n arbitrary: d rule: rt_strncpy.induct) (auto simp: cstr_Suc split: if_splits)

lemma rt_strncpy_Some: "length s \<ge> n \<or> 0 \<in> set s \<Longrightarrow> \<exists>d. rt_strncpy s n = Some d"
  by (induction s n rule: rt_strncpy.induct) auto

lemma sint_eq_0: "sint (w :: 'a::len word) = 0 \<longleftrightarrow> w = 0"
  by (metis signed_0 signed_word_eqI)

lemma rt_strncmp_0_iff:
  "rt_strncmp cs ct n = Some r \<Longrightarrow> r = 0 \<longleftrightarrow> cstr n cs = cstr n ct"
proof (induction cs ct n rule: rt_strncmp.induct)
  case (2 a cs b ct n)
  show ?case
  proof (cases "a - b \<noteq> 0 \<or> a = 0")
    case True
    with "2.prems" have r: "r = sint (a - b)" by (simp add: Let_def)
    show ?thesis
    proof (cases "a = b")
      case True
      with \<open>a - b \<noteq> 0 \<or> a = 0\<close> r show ?thesis by (simp add: cstr_Suc)
    next
      case False
      with r have "r \<noteq> 0" by (simp add: sint_eq_0)
      with False show ?thesis by (auto simp: cstr_Suc)
    qed
  next
    case False
    with 2 show ?thesis by (auto simp: Let_def cstr_Suc)
  qed
qed simp_all

lemma rt_strncmp_Some:
  "n \<le> length cs \<Longrightarrow> n \<le> length ct \<or> 0 \<in> set ct \<Longrightarrow> \<exists>r. rt_strncmp cs ct n = Some r"
  by (induction cs ct n rule: rt_strncmp.induct) (auto simp: Let_def)

section \<open>Properties\<close>

text \<open>\<^verbatim>\<open>__rt_ffs\<close> returns 0 for 0, and otherwise one plus the index of the lowest set bit;
  the table driven routine is the least-bit specification for every 32 bit value.\<close>

theorem ffs_is_lowest_bit:
  "rt_ffs v = (if v = 0 then 0 else (LEAST i. bit v i) + 1)"
proof (cases "v = 0")
  case False
  then obtain n where n: "bit v n" using word_bit_neq_0 [of v] by blast
  have "rt_ffs v = (LEAST i. bit v i) + 1"
    by (rule rt_ffs_eqI) (use n in \<open>auto intro: LeastI dest: not_less_Least\<close>)
  with False show ?thesis by simp
qed simp

text \<open>A name copied with \<^verbatim>\<open>rt_strncpy\<close> compares equal, by \<^verbatim>\<open>rt_strncmp\<close> with the same bound,
  to exactly those strings that agree with the original up to the bound; both routines stay inside
  the memory they may read, and the copy fills the destination.\<close>

theorem strncpy_strncmp_roundtrip:
  assumes "n \<le> length src \<or> 0 \<in> set src" and "n \<le> length other \<or> 0 \<in> set other"
  shows "\<exists>dst r. rt_strncpy src n = Some dst \<and> length dst = n \<and> rt_strncmp dst other n = Some r
    \<and> (r = 0 \<longleftrightarrow> cstr n src = cstr n other)"
proof -
  obtain dst where d: "rt_strncpy src n = Some dst" using rt_strncpy_Some [OF assms(1)] by blast
  then have l: "length dst = n" by (rule rt_strncpy_length)
  then obtain r where r: "rt_strncmp dst other n = Some r" using rt_strncmp_Some assms(2) by blast
  with d l rt_strncmp_0_iff [OF r] rt_strncpy_cstr [OF d] show ?thesis by auto
qed

theorem strncpy_strncmp_roundtrip_witness:
  "\<exists>dst r. rt_strncpy [116, 105, 109, 0] 8 = Some dst \<and> length dst = 8
    \<and> rt_strncmp dst [116, 105, 109, 0, 42] 8 = Some r \<and> r = 0"
  using strncpy_strncmp_roundtrip [of 8 "[116, 105, 109, 0]" "[116, 105, 109, 0, 42]"]
  by (simp add: cstr_def)

end
