(* ===== verification/RT_Kernel.thy ===== *)
theory RT_Kernel
  imports RT_List RT_Kservice
begin

text \<open>
  The data of the kernel: the structures of \<^verbatim>\<open>kernel/include/rtdef.h\<close> as records and the
  global variables of \<^verbatim>\<open>kernel/src\<close> as one record \<open>kernel\<close>.  The configuration is that
  of \<^verbatim>\<open>out/rtconfig/rtconfig.h\<close>: one processor, 256 priorities, a single timer row, no hooks
  installed.

  Structures live in total maps from handles; a handle that was never initialised maps to
  the all-zero structure, as static data does.  The handle of a thread's own timer is derived
  from the thread, because \<^verbatim>\<open>thread_timer\<close> is embedded in \<^verbatim>\<open>struct rt_thread\<close>.  Intrusive
  list nodes are in the list stores of \<open>RT_List\<close>: \<^verbatim>\<open>thread->tlist\<close> in \<open>tlists\<close>,
  \<^verbatim>\<open>timer->row[0]\<close> in \<open>timer_lists\<close>, \<^verbatim>\<open>object->list\<close> in \<open>object_lists\<close>.
\<close>

section \<open>Constants\<close>

definition RT_THREAD_INIT :: rt_uint8_t where [rt_consts]: "RT_THREAD_INIT = 0"
definition RT_THREAD_READY :: rt_uint8_t where [rt_consts]: "RT_THREAD_READY = 1"
definition RT_THREAD_SUSPEND :: rt_uint8_t where [rt_consts]: "RT_THREAD_SUSPEND = 2"
definition RT_THREAD_RUNNING :: rt_uint8_t where [rt_consts]: "RT_THREAD_RUNNING = 3"
definition RT_THREAD_CLOSE :: rt_uint8_t where [rt_consts]: "RT_THREAD_CLOSE = 4"
definition RT_THREAD_STAT_MASK :: rt_uint8_t where [rt_consts]: "RT_THREAD_STAT_MASK = 7"

definition RT_TIMER_FLAG_ACTIVATED :: rt_uint8_t where [rt_consts]: "RT_TIMER_FLAG_ACTIVATED = 1"
definition RT_TIMER_FLAG_PERIODIC :: rt_uint8_t where [rt_consts]: "RT_TIMER_FLAG_PERIODIC = 2"
definition RT_TIMER_FLAG_SOFT_TIMER :: rt_uint8_t where [rt_consts]: "RT_TIMER_FLAG_SOFT_TIMER = 4"

definition RT_IPC_FLAG_FIFO :: rt_uint8_t where [rt_consts]: "RT_IPC_FLAG_FIFO = 0"
definition RT_IPC_FLAG_PRIO :: rt_uint8_t where [rt_consts]: "RT_IPC_FLAG_PRIO = 1"
definition RT_IPC_CMD_RESET :: int where [rt_consts]: "RT_IPC_CMD_RESET = 1"
definition RT_WAITING_FOREVER :: int where [rt_consts]: "RT_WAITING_FOREVER = -1"

definition RT_EVENT_FLAG_AND :: rt_uint8_t where [rt_consts]: "RT_EVENT_FLAG_AND = 1"
definition RT_EVENT_FLAG_OR :: rt_uint8_t where [rt_consts]: "RT_EVENT_FLAG_OR = 2"
definition RT_EVENT_FLAG_CLEAR :: rt_uint8_t where [rt_consts]: "RT_EVENT_FLAG_CLEAR = 4"

definition RT_Object_Class_Thread :: rt_uint8_t where [rt_consts]: "RT_Object_Class_Thread = 1"
definition RT_Object_Class_Semaphore :: rt_uint8_t where [rt_consts]: "RT_Object_Class_Semaphore = 2"
definition RT_Object_Class_Mutex :: rt_uint8_t where [rt_consts]: "RT_Object_Class_Mutex = 3"
definition RT_Object_Class_Event :: rt_uint8_t where [rt_consts]: "RT_Object_Class_Event = 4"
definition RT_Object_Class_MailBox :: rt_uint8_t where [rt_consts]: "RT_Object_Class_MailBox = 5"
definition RT_Object_Class_MessageQueue :: rt_uint8_t where [rt_consts]: "RT_Object_Class_MessageQueue = 6"
definition RT_Object_Class_MemHeap :: rt_uint8_t where [rt_consts]: "RT_Object_Class_MemHeap = 7"
definition RT_Object_Class_MemPool :: rt_uint8_t where [rt_consts]: "RT_Object_Class_MemPool = 8"
definition RT_Object_Class_Device :: rt_uint8_t where [rt_consts]: "RT_Object_Class_Device = 9"
definition RT_Object_Class_Timer :: rt_uint8_t where [rt_consts]: "RT_Object_Class_Timer = 10"
definition RT_Object_Class_Unknown :: rt_uint8_t where [rt_consts]: "RT_Object_Class_Unknown = 12"
definition RT_Object_Class_Static :: rt_uint8_t where [rt_consts]: "RT_Object_Class_Static = 0x80"

definition RT_NAME_MAX :: nat where [rt_consts]: "RT_NAME_MAX = 16"

text \<open>\<^verbatim>\<open>RT_ALIGN(size, RT_ALIGN_SIZE)\<close> and \<^verbatim>\<open>RT_ALIGN_DOWN(size, RT_ALIGN_SIZE)\<close> with \<^verbatim>\<open>RT_ALIGN_SIZE\<close> 4.\<close>

definition RT_ALIGN :: "rt_uint32_t \<Rightarrow> rt_uint32_t" where
  "RT_ALIGN sz = (sz + 3) AND NOT 3"

definition RT_ALIGN_DOWN :: "rt_uint32_t \<Rightarrow> rt_uint32_t" where
  "RT_ALIGN_DOWN sz = sz AND NOT 3"

section \<open>Structures\<close>

type_synonym tid = nat

datatype handle = Obj nat | Thread_timer tid

record rt_object =
  obj_name :: "rt_uint8_t list"
  obj_type :: rt_uint8_t
  obj_flag :: rt_uint8_t

text \<open>
  The timeout function of a thread's own timer is \<^verbatim>\<open>rt_thread_timeout\<close>; every other one is
  code outside of the kernel, named by a number, with its parameter.
\<close>

datatype timeout_func = No_timeout | Rt_thread_timeout tid | User_timeout nat nat

record rt_timer =
  tm_timeout_func :: timeout_func
  tm_init_tick :: rt_tick_t
  tm_timeout_tick :: rt_tick_t

record rt_thread =
  th_sp :: rt_uint32_t
  th_stack_addr :: rt_uint32_t
  th_stack_size :: rt_uint32_t
  th_stack_guard :: rt_uint8_t
  th_entry :: nat
  th_parameter :: nat
  th_error :: rt_err_t
  th_stat :: rt_uint8_t
  th_current_priority :: rt_uint8_t
  th_init_priority :: rt_uint8_t
  th_number :: rt_uint8_t
  th_high_mask :: rt_uint8_t
  th_number_mask :: rt_uint32_t
  th_event_set :: rt_uint32_t
  th_event_info :: rt_uint8_t
  th_init_tick :: rt_uint32_t
  th_remaining_tick :: rt_uint32_t
  th_cleanup :: "nat option"
  th_lock :: "nat option"
  th_user_data :: rt_uint32_t
  th_total_ticks :: rt_uint32_t
  th_enter_times :: rt_uint32_t

record rt_semaphore =
  sem_value :: rt_uint16_t

record rt_mutex =
  mx_value :: rt_uint16_t
  mx_original_priority :: rt_uint8_t
  mx_hold :: rt_uint8_t
  mx_owner :: "tid option"

record rt_event =
  ev_set :: rt_uint32_t

record rt_mailbox =
  mb_msg_pool :: "rt_uint32_t list"
  mb_size :: rt_uint16_t
  mb_entry :: rt_uint16_t
  mb_in_offset :: rt_uint16_t
  mb_out_offset :: rt_uint16_t

text \<open>
  A message of a message queue is a node of the pool, named by its index; \<open>mq_next\<close> and
  \<open>mq_data\<close> are the two parts of the node in memory, the \<^verbatim>\<open>next\<close> pointer and the bytes
  behind it.
\<close>

record rt_messagequeue =
  mq_msg_size :: rt_uint16_t
  mq_max_msgs :: rt_uint16_t
  mq_entry :: rt_uint16_t
  mq_head :: "nat option"
  mq_tail :: "nat option"
  mq_free :: "nat option"
  mq_next :: "nat \<Rightarrow> nat option"
  mq_data :: "nat \<Rightarrow> rt_uint8_t list"

text \<open>
  A block of a memory pool is named by its index.  The word in front of it holds the next free
  block while the block is free and the pool while it is in use.
\<close>

datatype block_word = Next_block "nat option" | Pool nat

record rt_mempool =
  mp_start_address :: rt_uint32_t
  mp_size :: rt_uint32_t
  mp_block_size :: rt_uint32_t
  mp_block_list :: "nat option"
  mp_block_total_count :: rt_uint32_t
  mp_block_free_count :: rt_uint32_t
  mp_suspend_thread_count :: rt_uint32_t
  mp_word :: "nat \<Rightarrow> block_word"

record rt_completion =
  cp_flag :: rt_uint32_t

text \<open>An item of a data queue is a pointer and a length; \<open>dq_evt_notify\<close> names a function outside of the kernel.\<close>

record rt_data_queue =
  dq_size :: rt_uint16_t
  dq_lwm :: rt_uint16_t
  dq_get_index :: rt_uint16_t
  dq_put_index :: rt_uint16_t
  dq_queue :: "(rt_uint32_t \<times> rt_uint32_t) list"
  dq_evt_notify :: "nat option"

section \<open>The kernel state\<close>

text \<open>
  The lists a thread can be linked on by its \<^verbatim>\<open>tlist\<close> node: the ready list of a priority,
  the suspend lists of the IPC objects, and the list of defunct threads.
\<close>

datatype thread_list =
    Ready rt_uint8_t
  | Sem_wait nat
  | Mutex_wait nat
  | Event_wait nat
  | Mb_recv_wait nat
  | Mb_send_wait nat
  | Mq_recv_wait nat
  | Mq_send_wait nat
  | Mp_wait nat
  | Completion_wait nat
  | Dq_push_wait nat
  | Dq_pop_wait nat
  | Defunct

datatype timer_list = Hard_timers | Soft_timers

text \<open>
  \<open>hw_pts\<close> is what \<^verbatim>\<open>read_pts()\<close> reads from the hardware counter, \<open>timer_thread\<close> the
  static thread of \<^verbatim>\<open>timer.c\<close>, \<open>rt_errno\<close> the error number used outside of threads, \<open>idle_thread\<close> and \<open>idle_hook_list\<close> the static data of
  \<^verbatim>\<open>idle.c\<close>, \<open>freed\<close> and \<open>freed_memory\<close> the objects and the other memory (thread stacks, pools) given back to the allocator.
\<close>

record kernel =
  objects :: "handle \<Rightarrow> rt_object"
  object_lists :: "(rt_uint8_t, handle) list_store"
  threads :: "tid \<Rightarrow> rt_thread"
  tlists :: "(thread_list, tid) list_store"
  timers :: "handle \<Rightarrow> rt_timer"
  timer_lists :: "(timer_list, handle) list_store"
  sems :: "nat \<Rightarrow> rt_semaphore"
  mutexes :: "nat \<Rightarrow> rt_mutex"
  events :: "nat \<Rightarrow> rt_event"
  mailboxes :: "nat \<Rightarrow> rt_mailbox"
  mqs :: "nat \<Rightarrow> rt_messagequeue"
  mempools :: "nat \<Rightarrow> rt_mempool"
  completions :: "nat \<Rightarrow> rt_completion"
  dataqs :: "nat \<Rightarrow> rt_data_queue"
  rt_errno :: rt_err_t
  rt_tick :: rt_tick_t
  rt_tick_uptime :: "64 word"
  rt_interrupt_nest :: rt_uint8_t
  rt_scheduler_lock_nest :: "16 word"
  rt_current_thread :: "tid option"
  rt_current_priority :: rt_uint8_t
  rt_thread_ready_priority_group :: rt_uint32_t
  rt_thread_ready_table :: "nat \<Rightarrow> rt_uint8_t"
  timer_thread :: tid
  random_nr :: rt_uint32_t
  sys_total_ticks :: rt_uint32_t
  idl_total_ticks :: rt_uint32_t
  prev_calc_ticks :: rt_uint32_t
  hw_pts :: "64 word"
  freed :: "handle list"
  freed_memory :: "rt_uint32_t list"
  idle_thread :: tid
  idle_hook_list :: "nat option list"

section \<open>Access\<close>

definition upd_thread :: "tid \<Rightarrow> (rt_thread \<Rightarrow> rt_thread) \<Rightarrow> kernel \<Rightarrow> kernel" where
  "upd_thread t f k = k\<lparr>threads := (threads k)(t := f (threads k t))\<rparr>"

definition upd_timer :: "handle \<Rightarrow> (rt_timer \<Rightarrow> rt_timer) \<Rightarrow> kernel \<Rightarrow> kernel" where
  "upd_timer t f k = k\<lparr>timers := (timers k)(t := f (timers k t))\<rparr>"

definition upd_object :: "handle \<Rightarrow> (rt_object \<Rightarrow> rt_object) \<Rightarrow> kernel \<Rightarrow> kernel" where
  "upd_object h f k = k\<lparr>objects := (objects k)(h := f (objects k h))\<rparr>"

definition upd_sem :: "nat \<Rightarrow> (rt_semaphore \<Rightarrow> rt_semaphore) \<Rightarrow> kernel \<Rightarrow> kernel" where
  "upd_sem s f k = k\<lparr>sems := (sems k)(s := f (sems k s))\<rparr>"

definition upd_mutex :: "nat \<Rightarrow> (rt_mutex \<Rightarrow> rt_mutex) \<Rightarrow> kernel \<Rightarrow> kernel" where
  "upd_mutex s f k = k\<lparr>mutexes := (mutexes k)(s := f (mutexes k s))\<rparr>"

definition upd_event :: "nat \<Rightarrow> (rt_event \<Rightarrow> rt_event) \<Rightarrow> kernel \<Rightarrow> kernel" where
  "upd_event s f k = k\<lparr>events := (events k)(s := f (events k s))\<rparr>"

definition upd_mb :: "nat \<Rightarrow> (rt_mailbox \<Rightarrow> rt_mailbox) \<Rightarrow> kernel \<Rightarrow> kernel" where
  "upd_mb s f k = k\<lparr>mailboxes := (mailboxes k)(s := f (mailboxes k s))\<rparr>"

definition upd_mq :: "nat \<Rightarrow> (rt_messagequeue \<Rightarrow> rt_messagequeue) \<Rightarrow> kernel \<Rightarrow> kernel" where
  "upd_mq s f k = k\<lparr>mqs := (mqs k)(s := f (mqs k s))\<rparr>"

definition upd_mp :: "nat \<Rightarrow> (rt_mempool \<Rightarrow> rt_mempool) \<Rightarrow> kernel \<Rightarrow> kernel" where
  "upd_mp s f k = k\<lparr>mempools := (mempools k)(s := f (mempools k s))\<rparr>"

definition upd_cp :: "nat \<Rightarrow> (rt_completion \<Rightarrow> rt_completion) \<Rightarrow> kernel \<Rightarrow> kernel" where
  "upd_cp s f k = k\<lparr>completions := (completions k)(s := f (completions k s))\<rparr>"

definition upd_dq :: "nat \<Rightarrow> (rt_data_queue \<Rightarrow> rt_data_queue) \<Rightarrow> kernel \<Rightarrow> kernel" where
  "upd_dq s f k = k\<lparr>dataqs := (dataqs k)(s := f (dataqs k s))\<rparr>"

lemmas upd_defs [rt_unfold] =
  upd_mp_def upd_cp_def upd_dq_def
  upd_thread_def upd_timer_def upd_object_def upd_sem_def upd_mutex_def upd_event_def upd_mb_def upd_mq_def

text \<open>The list operations on the stores of the kernel.\<close>

definition tlist_remove :: "tid \<Rightarrow> kernel \<Rightarrow> kernel" where
  "tlist_remove t k = k\<lparr>tlists := ls_remove t (tlists k)\<rparr>"

definition tlist_append :: "thread_list \<Rightarrow> tid \<Rightarrow> kernel \<Rightarrow> kernel option" where
  "tlist_append q t k = map_option (\<lambda>s. k\<lparr>tlists := s\<rparr>) (ls_append q t (tlists k))"

definition tlist_push :: "thread_list \<Rightarrow> tid \<Rightarrow> kernel \<Rightarrow> kernel option" where
  "tlist_push q t k = map_option (\<lambda>s. k\<lparr>tlists := s\<rparr>) (ls_push q t (tlists k))"

definition tlist_insert_at :: "thread_list \<Rightarrow> nat \<Rightarrow> tid \<Rightarrow> kernel \<Rightarrow> kernel option" where
  "tlist_insert_at q i t k = map_option (\<lambda>s. k\<lparr>tlists := s\<rparr>) (ls_insert_at q i t (tlists k))"

definition on_tlist :: "kernel \<Rightarrow> thread_list \<Rightarrow> tid list" where
  "on_tlist k q = on_list (tlists k) q"

definition on_timers :: "kernel \<Rightarrow> timer_list \<Rightarrow> handle list" where
  "on_timers k q = on_list (timer_lists k) q"

text \<open>
  \<^verbatim>\<open>rt_list_init\<close> on a node or a head that is still in use leaves the other nodes of its
  list pointing to it; the model has no such state.
\<close>

definition tlist_init_node :: "tid \<Rightarrow> kernel \<Rightarrow> kernel option" where
  "tlist_init_node t k = (if home (tlists k) t = None then Some k else None)"

definition tlist_init_head :: "thread_list \<Rightarrow> kernel \<Rightarrow> kernel option" where
  "tlist_init_head q k = (if on_tlist k q = [] then Some k else None)"

section \<open>Thread states\<close>

definition stat_of :: "kernel \<Rightarrow> tid \<Rightarrow> rt_uint8_t" where
  "stat_of k t = th_stat (threads k t) AND RT_THREAD_STAT_MASK"

definition prio_of :: "kernel \<Rightarrow> tid \<Rightarrow> rt_uint8_t" where
  "prio_of k t = th_current_priority (threads k t)"

text \<open>\<^verbatim>\<open>S | (thread->stat & ~RT_THREAD_STAT_MASK)\<close>\<close>

definition set_stat :: "rt_uint8_t \<Rightarrow> rt_thread \<Rightarrow> rt_thread" where
  "set_stat s th = th\<lparr>th_stat := s OR (th_stat th AND NOT RT_THREAD_STAT_MASK)\<rparr>"

lemma set_stat_masked:
  "s AND RT_THREAD_STAT_MASK = s \<Longrightarrow> th_stat (set_stat s th) AND RT_THREAD_STAT_MASK = s"
  by (simp add: set_stat_def bit_eq_iff bit_simps) blast

lemma stat_masks [simp]:
  "RT_THREAD_READY AND RT_THREAD_STAT_MASK = RT_THREAD_READY"
  "RT_THREAD_SUSPEND AND RT_THREAD_STAT_MASK = RT_THREAD_SUSPEND"
  "RT_THREAD_CLOSE AND RT_THREAD_STAT_MASK = RT_THREAD_CLOSE"
  "RT_THREAD_INIT AND RT_THREAD_STAT_MASK = RT_THREAD_INIT"
  by (simp_all add: rt_consts)

lemma stat_distinct [simp]:
  "RT_THREAD_READY \<noteq> RT_THREAD_SUSPEND" "RT_THREAD_SUSPEND \<noteq> RT_THREAD_READY"
  "RT_THREAD_READY \<noteq> RT_THREAD_CLOSE" "RT_THREAD_CLOSE \<noteq> RT_THREAD_READY"
  "RT_THREAD_SUSPEND \<noteq> RT_THREAD_CLOSE" "RT_THREAD_CLOSE \<noteq> RT_THREAD_SUSPEND"
  "RT_THREAD_INIT \<noteq> RT_THREAD_READY" "RT_THREAD_READY \<noteq> RT_THREAD_INIT"
  "RT_THREAD_INIT \<noteq> RT_THREAD_SUSPEND" "RT_THREAD_SUSPEND \<noteq> RT_THREAD_INIT"
  "RT_THREAD_INIT \<noteq> RT_THREAD_CLOSE" "RT_THREAD_CLOSE \<noteq> RT_THREAD_INIT"
  "RT_THREAD_READY \<noteq> RT_THREAD_RUNNING" "RT_THREAD_RUNNING \<noteq> RT_THREAD_READY"
  "RT_THREAD_SUSPEND \<noteq> RT_THREAD_RUNNING" "RT_THREAD_RUNNING \<noteq> RT_THREAD_SUSPEND"
  by (simp_all add: rt_consts)

end
