(* ===== verification/RT_Scheduler.thy ===== *)
theory RT_Scheduler
  imports RT_Kernel
begin

text \<open>
  The single-processor scheduler of \<^verbatim>\<open>kernel/src/scheduler.c\<close>: the ready lists, the
  two-level bitmap over the 256 priorities and the choice of the next thread, with the
  interrupt nesting of \<^verbatim>\<open>kernel/src/irq.c\<close> and the debug context checks of
  \<^verbatim>\<open>rtdebug.h\<close>.  The invariant \<open>sched_inv\<close> ties bitmap, lists and thread states
  together; every operation of the kernel keeps it.
\<close>

section \<open>The code\<close>

text \<open>
  \<^verbatim>\<open>_rt_scheduler_stack_check\<close> for a stack that grows down; it does not return when the
  guard byte is gone or the stack pointer is out of the stack.
\<close>

definition rt_scheduler_stack_check :: "tid \<Rightarrow> kernel \<Rightarrow> unit option" where
  "rt_scheduler_stack_check t k =
     (let th = threads k t in
      if th_stack_guard th \<noteq> 35 \<or> th_sp th \<le> th_stack_addr th
         \<or> th_sp th > th_stack_addr th + th_stack_size th
      then None else Some ())"

text \<open>
  The highest ready priority by the bitmap, and the first thread of its list.  With an empty
  bitmap or an empty list the code follows a pointer that is no thread.
\<close>

definition scheduler_get_highest_priority_thread :: "kernel \<Rightarrow> (rt_uint8_t \<times> tid) option" where
  "scheduler_get_highest_priority_thread k =
     (let number = int (rt_ffs (rt_thread_ready_priority_group k)) - 1 in
      if number < 0 then None
      else
        let p = number * 8 + int (rt_ffs (ucast (rt_thread_ready_table k (nat number)))) - 1 in
        if p < 0 then None
        else case on_tlist k (Ready (word_of_int p)) of
            [] \<Rightarrow> None
          | t # _ \<Rightarrow> Some (word_of_int p, t))"

definition rt_system_scheduler_init :: "kernel \<Rightarrow> kernel option" where
  "rt_system_scheduler_init k =
     (if \<forall>p\<in>set (map word_of_nat [0..<256]). on_tlist k (Ready p) = [] then
        Some (k\<lparr>rt_scheduler_lock_nest := 0, rt_current_priority := 255, rt_current_thread := None,
                rt_thread_ready_priority_group := 0, rt_thread_ready_table := (\<lambda>_. 0)\<rparr>)
      else None)"

definition rt_system_scheduler_start :: "kernel \<Rightarrow> kernel option" where
  "rt_system_scheduler_start k =
     do { (p, to) \<leftarrow> scheduler_get_highest_priority_thread k; Some (k\<lparr>rt_current_thread := Some to\<rparr>) }"

definition rt_schedule :: "kernel \<Rightarrow> kernel option" where
  "rt_schedule k =
     (if rt_scheduler_lock_nest k \<noteq> 0 then Some k
      else do {
        (p, to) \<leftarrow> scheduler_get_highest_priority_thread k;
        if Some to = rt_current_thread k then Some k
        else do {
          from \<leftarrow> rt_current_thread k;
          let idl = (if th_current_priority (threads k from) = 255
                     then idl_total_ticks k + (ucast (hw_pts k) - prev_calc_ticks k) else idl_total_ticks k);
          let prev = (if th_current_priority (threads k to) = 255 then ucast (hw_pts k) else prev_calc_ticks k);
          rt_scheduler_stack_check to k;
          Some (k\<lparr>rt_current_priority := p, rt_current_thread := Some to,
                  idl_total_ticks := idl, prev_calc_ticks := prev\<rparr>) } })"

definition rt_schedule_insert_thread :: "tid \<Rightarrow> kernel \<Rightarrow> kernel option" where
  "rt_schedule_insert_thread t k =
     do { let k = upd_thread t (set_stat RT_THREAD_READY) k;
          let th = threads k t;
          k \<leftarrow> tlist_append (Ready (th_current_priority th)) t k;
          let n = unat (th_number th);
          Some (k\<lparr>rt_thread_ready_table :=
                    (rt_thread_ready_table k)(n := rt_thread_ready_table k n OR th_high_mask th),
                  rt_thread_ready_priority_group :=
                    rt_thread_ready_priority_group k OR th_number_mask th\<rparr>) }"

definition rt_schedule_remove_thread :: "tid \<Rightarrow> kernel \<Rightarrow> kernel" where
  "rt_schedule_remove_thread t k =
     (let th = threads k t; k = tlist_remove t k in
      if on_tlist k (Ready (th_current_priority th)) = [] then
        let n = unat (th_number th);
            k = k\<lparr>rt_thread_ready_table :=
                    (rt_thread_ready_table k)(n := rt_thread_ready_table k n AND NOT (th_high_mask th))\<rparr>
        in if rt_thread_ready_table k n = 0
           then k\<lparr>rt_thread_ready_priority_group :=
                    rt_thread_ready_priority_group k AND NOT (th_number_mask th)\<rparr>
           else k
      else k)"

definition rt_enter_critical :: "kernel \<Rightarrow> kernel" where
  "rt_enter_critical k = k\<lparr>rt_scheduler_lock_nest := rt_scheduler_lock_nest k + 1\<rparr>"

definition rt_exit_critical :: "kernel \<Rightarrow> kernel option" where
  "rt_exit_critical k =
     (let k = k\<lparr>rt_scheduler_lock_nest := rt_scheduler_lock_nest k - 1\<rparr> in
      if sint (rt_scheduler_lock_nest k) \<le> 0 then
        let k = k\<lparr>rt_scheduler_lock_nest := 0\<rparr> in
        if rt_current_thread k \<noteq> None then rt_schedule k else Some k
      else Some k)"

definition rt_critical_level :: "kernel \<Rightarrow> rt_uint16_t" where
  "rt_critical_level k = rt_scheduler_lock_nest k"

definition rt_cpuload_get :: "kernel \<Rightarrow> (rt_uint32_t \<times> rt_uint32_t) \<times> kernel" where
  "rt_cpuload_get k =
     (let ctick = ucast (hw_pts k) in
      ((idl_total_ticks k, ctick - sys_total_ticks k),
       k\<lparr>sys_total_ticks := ctick, idl_total_ticks := 0\<rparr>))"

definition rt_interrupt_enter :: "kernel \<Rightarrow> kernel" where
  "rt_interrupt_enter k = k\<lparr>rt_interrupt_nest := rt_interrupt_nest k + 1\<rparr>"

definition rt_interrupt_leave :: "kernel \<Rightarrow> kernel" where
  "rt_interrupt_leave k = k\<lparr>rt_interrupt_nest := rt_interrupt_nest k - 1\<rparr>"

definition rt_interrupt_get_nest :: "kernel \<Rightarrow> rt_uint8_t" where
  "rt_interrupt_get_nest k = rt_interrupt_nest k"

definition RT_DEBUG_NOT_IN_INTERRUPT :: "kernel \<Rightarrow> unit option" where
  "RT_DEBUG_NOT_IN_INTERRUPT k = RT_ASSERT (rt_interrupt_get_nest k = 0)"

definition RT_DEBUG_IN_THREAD_CONTEXT :: "kernel \<Rightarrow> unit option" where
  "RT_DEBUG_IN_THREAD_CONTEXT k =
     do { RT_ASSERT (rt_current_thread k \<noteq> None); RT_DEBUG_NOT_IN_INTERRUPT k }"

section \<open>Invariant\<close>

text \<open>The cell of a priority in the bitmap.\<close>

definition prio_number :: "rt_uint8_t \<Rightarrow> nat" where
  "prio_number p = unat p div 8"

definition prio_bit :: "rt_uint8_t \<Rightarrow> nat" where
  "prio_bit p = unat p mod 8"

definition attr_ok :: "rt_thread \<Rightarrow> bool" where
  "attr_ok th \<longleftrightarrow> unat (th_number th) = prio_number (th_current_priority th)
     \<and> th_number_mask th = one_shl (prio_number (th_current_priority th))
     \<and> th_high_mask th = one_shl (prio_bit (th_current_priority th))"

definition bitmap_ok :: "kernel \<Rightarrow> bool" where
  "bitmap_ok k \<longleftrightarrow>
     (\<forall>p. bit (rt_thread_ready_table k (prio_number p)) (prio_bit p) \<longleftrightarrow> on_tlist k (Ready p) \<noteq> [])
     \<and> (\<forall>n. bit (rt_thread_ready_priority_group k) n \<longleftrightarrow> n < 32 \<and> rt_thread_ready_table k n \<noteq> 0)"

definition thread_ok :: "kernel \<Rightarrow> tid \<Rightarrow> bool" where
  "thread_ok k t \<longleftrightarrow>
     (let s = stat_of k t; h = home (tlists k) t in
      if s = RT_THREAD_READY then h = Some (Ready (prio_of k t)) \<and> attr_ok (threads k t)
      else if s = RT_THREAD_SUSPEND then
        attr_ok (threads k t) \<and> (\<forall>p. h \<noteq> Some (Ready p)) \<and> h \<noteq> Some Defunct
      else if s = RT_THREAD_CLOSE then h = None \<or> h = Some Defunct
      else h = None)"

definition sched_inv :: "kernel \<Rightarrow> bool" where
  "sched_inv k \<longleftrightarrow> ls_wf (tlists k) \<and> bitmap_ok k \<and> (\<forall>t. thread_ok k t)"

text \<open>The state between taking a thread off its list and giving it its new place.\<close>

definition sched_free :: "tid \<Rightarrow> kernel \<Rightarrow> bool" where
  "sched_free t k \<longleftrightarrow> ls_wf (tlists k) \<and> bitmap_ok k \<and> (\<forall>u. u \<noteq> t \<longrightarrow> thread_ok k u)
     \<and> home (tlists k) t = None"

text \<open>What the invariant reads of the state.\<close>

definition sched_view :: "kernel \<Rightarrow> (tid \<Rightarrow> rt_thread) \<times> (thread_list, tid) list_store \<times> rt_uint32_t \<times> (nat \<Rightarrow> rt_uint8_t)" where
  "sched_view k = (threads k, tlists k, rt_thread_ready_priority_group k, rt_thread_ready_table k)"

lemma sched_view_inv: "sched_view k' = sched_view k \<Longrightarrow> sched_inv k' = sched_inv k"
  by (simp add: sched_view_def sched_inv_def bitmap_ok_def thread_ok_def on_tlist_def stat_of_def prio_of_def)

lemma sched_view_free: "sched_view k' = sched_view k \<Longrightarrow> sched_free t k' = sched_free t k"
  by (simp add: sched_view_def sched_free_def bitmap_ok_def thread_ok_def on_tlist_def stat_of_def prio_of_def)

lemma prio_cell_inj: "prio_number p = prio_number q \<Longrightarrow> prio_bit p = prio_bit q \<Longrightarrow> p = q"
  unfolding prio_number_def prio_bit_def
  by (metis div_mult_mod_eq word_unat_eq_iff)

lemma prio_number_less [simp]: "prio_number p < 32"
  using unsigned_less [where 'a = nat and w = p] by (simp add: prio_number_def)

lemma prio_bit_less [simp]: "prio_bit p < 8"
  by (simp add: prio_bit_def)

lemma prio_of_cell: "n < 32 \<Longrightarrow> b < 8 \<Longrightarrow>
    prio_number (word_of_nat (n * 8 + b)) = n \<and> prio_bit (word_of_nat (n * 8 + b)) = b"
  by (simp add: prio_number_def prio_bit_def unsigned_of_nat take_bit_nat_eq_self del: of_nat_add of_nat_mult)

section \<open>The bitmap search\<close>

lemma le_by_cell: "a div 8 < b div 8 \<or> a div 8 = b div 8 \<and> a mod 8 \<le> b mod 8 \<Longrightarrow> a \<le> (b :: nat)"
  using div_mult_mod_eq [of a 8] div_mult_mod_eq [of b 8] mod_less_divisor [of 8 a] by arith

lemma ffs_table_entry:
  assumes "(b :: rt_uint8_t) \<noteq> 0"
  shows "\<exists>i<8. rt_ffs (ucast b) = i + 1 \<and> bit b i \<and> (\<forall>j < i. \<not> bit b j)"
proof -
  obtain n where n: "bit b n" "n < 8" using assms by (auto simp: word_bit_neq_0)
  define i where "i = (LEAST j. bit b j)"
  have i: "bit b i" unfolding i_def using n(1) by (rule LeastI)
  moreover have "i \<le> n" unfolding i_def using n(1) by (rule Least_le)
  moreover have low: "\<forall>j < i. \<not> bit b j" unfolding i_def using not_less_Least by blast
  moreover have "rt_ffs (ucast b) = i + 1"
    by (rule rt_ffs_eqI) (use i \<open>i \<le> n\<close> n low in \<open>auto simp: bit_simps\<close>)
  ultimately show ?thesis using n(2) by (intro exI [of _ i]) auto
qed

lemma highest_priority_search:
  assumes bm: "bitmap_ok k" and some: "on_tlist k (Ready q) \<noteq> []"
  obtains p t ts where "scheduler_get_highest_priority_thread k = Some (p, t)"
    "on_tlist k (Ready p) = t # ts" "\<And>r. on_tlist k (Ready r) \<noteq> [] \<Longrightarrow> p \<le> r"
proof -
  let ?g = "rt_thread_ready_priority_group k"
  have grp: "\<And>n. bit ?g n \<longleftrightarrow> n < 32 \<and> rt_thread_ready_table k n \<noteq> 0"
    and tab: "\<And>p. bit (rt_thread_ready_table k (prio_number p)) (prio_bit p) \<longleftrightarrow> on_tlist k (Ready p) \<noteq> []"
    using bm by (auto simp: bitmap_ok_def)
  have cell: "bit ?g (prio_number r)" if "on_tlist k (Ready r) \<noteq> []" for r
    using that tab [of r] grp [of "prio_number r"] by auto
  then have "?g \<noteq> 0" using some by force
  note l = rt_ffs_lowest [OF this]
  define n where "n = rt_ffs ?g - 1"
  have n: "n < 32" "rt_thread_ready_table k n \<noteq> 0" "rt_ffs ?g = n + 1"
    using l grp [of n] by (auto simp: n_def)
  obtain i where i: "i < 8" "rt_ffs (ucast (rt_thread_ready_table k n)) = i + 1"
    "bit (rt_thread_ready_table k n) i" "\<forall>j < i. \<not> bit (rt_thread_ready_table k n) j"
    using ffs_table_entry [OF n(2)] by blast
  define p :: rt_uint8_t where "p = word_of_nat (n * 8 + i)"
  have pc: "prio_number p = n" "prio_bit p = i" unfolding p_def using prio_of_cell [OF n(1) i(1)] by auto
  from tab [of p] i(3) pc obtain t ts where t: "on_tlist k (Ready p) = t # ts" by (cases "on_tlist k (Ready p)") auto
  have wp: "word_of_int (int n * 8 + int (i + 1) - 1) = p" by (simp add: p_def)
  have "scheduler_get_highest_priority_thread k = Some (p, t)"
    using t n(3) i(2) wp by (simp add: scheduler_get_highest_priority_thread_def Let_def)
  moreover have "p \<le> r" if r: "on_tlist k (Ready r) \<noteq> []" for r
  proof -
    have "\<not> prio_number r < n" using cell [OF r] l unfolding n_def by blast
    then have "n \<le> prio_number r" by simp
    moreover have "i \<le> prio_bit r" if "prio_number r = n"
    proof -
      have "bit (rt_thread_ready_table k n) (prio_bit r)" using tab [of r] r that by simp
      then have "\<not> prio_bit r < i" using i(4) by blast
      then show ?thesis by simp
    qed
    ultimately have "unat p div 8 < unat r div 8 \<or> unat p div 8 = unat r div 8 \<and> unat p mod 8 \<le> unat r mod 8"
      using pc by (auto simp: prio_number_def prio_bit_def)
    then have "unat p \<le> unat r" by (rule le_by_cell)
    then show ?thesis by (simp add: word_le_nat_alt)
  qed
  ultimately show ?thesis using t that by blast
qed

section \<open>Updates of the bitmap\<close>

definition bm_ok :: "(rt_uint8_t \<Rightarrow> bool) \<Rightarrow> (nat \<Rightarrow> rt_uint8_t) \<Rightarrow> rt_uint32_t \<Rightarrow> bool" where
  "bm_ok L tab grp \<longleftrightarrow> (\<forall>p. bit (tab (prio_number p)) (prio_bit p) \<longleftrightarrow> L p)
     \<and> (\<forall>n. bit grp n \<longleftrightarrow> n < 32 \<and> tab n \<noteq> 0)"

lemma bitmap_ok_bm:
  "bitmap_ok k \<longleftrightarrow> bm_ok (\<lambda>p. on_tlist k (Ready p) \<noteq> []) (rt_thread_ready_table k) (rt_thread_ready_priority_group k)"
  by (simp add: bitmap_ok_def bm_ok_def)

lemma bm_ok_set:
  assumes "bm_ok L tab grp"
  shows "bm_ok (L(p := True)) (tab(prio_number p := tab (prio_number p) OR one_shl (prio_bit p)))
    (grp OR one_shl (prio_number p))"
proof -
  let ?b = "tab (prio_number p) OR one_shl (prio_bit p)"
  have "bit ?b (prio_bit p)" by (simp add: bit_or_iff bit_one_shl)
  then have nz: "?b \<noteq> 0" by force
  have "bit ((tab(prio_number p := ?b)) (prio_number q)) (prio_bit q) \<longleftrightarrow> (L(p := True)) q" for q
  proof -
    have "bit (tab (prio_number q)) (prio_bit q) = L q" using assms by (simp add: bm_ok_def)
    then show ?thesis using prio_cell_inj [of q p] by (auto simp: bit_or_iff bit_one_shl)
  qed
  with nz show ?thesis
    using assms unfolding bm_ok_def by (auto simp: bit_or_iff bit_one_shl)
qed

lemma bm_ok_clear:
  assumes "bm_ok L tab grp"
  defines "tab' \<equiv> \<lambda>p. tab(prio_number p := tab (prio_number p) AND NOT (one_shl (prio_bit p)))"
  shows "bm_ok (L(p := False)) (tab' p)
    (if tab' p (prio_number p) = 0 then grp AND NOT (one_shl (prio_number p)) else grp)"
proof -
  have "bit (tab' p (prio_number q)) (prio_bit q) \<longleftrightarrow> (L(p := False)) q" for q
  proof -
    have "bit (tab (prio_number q)) (prio_bit q) = L q" using assms(1) by (simp add: bm_ok_def)
    then show ?thesis
      using prio_cell_inj [of q p] by (auto simp: tab'_def bit_and_iff bit_not_one_shl)
  qed
  moreover have "tab (prio_number p) \<noteq> 0" if "tab' p (prio_number p) \<noteq> 0"
    using that by (auto simp: tab'_def)
  ultimately show ?thesis
    using assms(1) unfolding bm_ok_def by (auto simp: tab'_def bit_and_iff bit_not_one_shl)
qed

section \<open>Taking threads off and putting them on the ready lists\<close>

lemma tlist_remove_frame [simp, rt_frame]:
  "threads (tlist_remove t k) = threads k" "tlists (tlist_remove t k) = ls_remove t (tlists k)"
  "rt_thread_ready_table (tlist_remove t k) = rt_thread_ready_table k"
  "rt_thread_ready_priority_group (tlist_remove t k) = rt_thread_ready_priority_group k"
  by (simp_all add: tlist_remove_def)

lemma thread_ok_cong:
  "threads k' u = threads k u \<Longrightarrow> home (tlists k') u = home (tlists k) u \<Longrightarrow> thread_ok k' u = thread_ok k u"
  by (simp add: thread_ok_def stat_of_def prio_of_def)

lemma sched_invD:
  assumes "sched_inv k"
  shows "ls_wf (tlists k)" "bitmap_ok k" "thread_ok k t"
  using assms by (simp_all add: sched_inv_def)

lemma sched_free_intro: "sched_inv k \<Longrightarrow> home (tlists k) t = None \<Longrightarrow> sched_free t k"
  by (simp add: sched_inv_def sched_free_def)

lemma ready_home:
  assumes "sched_inv k" and "home (tlists k) t = Some (Ready p)"
  shows "stat_of k t = RT_THREAD_READY" "p = prio_of k t"
  using sched_invD(3) [OF assms(1), of t] assms(2)
  by (auto simp: thread_ok_def Let_def split: if_splits)

lemma on_ready_remove:
  assumes "sched_inv k" and "p \<noteq> prio_of k t"
  shows "on_tlist (tlist_remove t k) (Ready p) = on_tlist k (Ready p)"
proof -
  have "t \<notin> set (on_tlist k (Ready p))"
    using ready_home(2) [OF assms(1)] assms(2) sched_invD(1) [OF assms(1)] by (auto simp: on_tlist_def ls_wf_mem)
  then show ?thesis
    using sched_invD(1) [OF assms(1)] by (simp add: on_tlist_def ls_remove_on_list filter_id_conv) blast
qed

lemma remove_thread_frame:
  "threads (rt_schedule_remove_thread t k) = threads k"
  "tlists (rt_schedule_remove_thread t k) = ls_remove t (tlists k)"
  by (simp_all add: rt_schedule_remove_thread_def Let_def)

lemma on_tlist_remove_thread:
  "on_tlist (rt_schedule_remove_thread t k) q = on_tlist (tlist_remove t k) q"
  by (simp add: on_tlist_def remove_thread_frame)

lemma remove_thread_bitmap:
  assumes inv: "sched_inv k" and attr: "attr_ok (threads k t)"
  shows "bitmap_ok (rt_schedule_remove_thread t k)"
proof -
  let ?p = "th_current_priority (threads k t)"
  let ?k = "tlist_remove t k"
  define L where "L = (\<lambda>p. on_tlist k (Ready p) \<noteq> [])"
  have bm: "bm_ok L (rt_thread_ready_table k) (rt_thread_ready_priority_group k)"
    using sched_invD(2) [OF inv] by (simp add: bitmap_ok_bm L_def)
  have lists: "on_tlist ?k (Ready p) = [] \<longleftrightarrow> \<not> L p" if "p \<noteq> ?p" for p
    using on_ready_remove [OF inv, of p t] that by (simp add: L_def prio_of_def)
  show ?thesis
  proof (cases "on_tlist ?k (Ready ?p) = []")
    case True
    then have "(\<lambda>p. on_tlist ?k (Ready p) \<noteq> []) = L(?p := False)"
      using lists by (intro ext) simp
    with bm_ok_clear [OF bm, of ?p] True attr show ?thesis
      unfolding bitmap_ok_bm on_tlist_remove_thread
      by (simp add: rt_schedule_remove_thread_def Let_def attr_ok_def split del: if_split) (simp split: if_splits)
  next
    case False
    then obtain u where "u \<in> set (on_tlist ?k (Ready ?p))" by (meson last_in_set)
    then have "L ?p" using sched_invD(1) [OF inv] by (auto simp: L_def on_tlist_def ls_remove_on_list)
    have "(on_tlist ?k (Ready p) \<noteq> []) = L p" for p
      using False lists [of p] \<open>L ?p\<close> by (cases "p = ?p") simp_all
    then have "(\<lambda>p. on_tlist ?k (Ready p) \<noteq> []) = L" by blast
    with bm False show ?thesis
      unfolding bitmap_ok_bm on_tlist_remove_thread by (simp add: rt_schedule_remove_thread_def Let_def)
  qed
qed

lemma remove_thread_free:
  assumes inv: "sched_inv k" and attr: "attr_ok (threads k t)"
  shows "sched_free t (rt_schedule_remove_thread t k)"
proof -
  have "thread_ok (rt_schedule_remove_thread t k) u" if "u \<noteq> t" for u
    using that sched_invD(3) [OF inv, of u] thread_ok_cong [of "rt_schedule_remove_thread t k" u k]
    by (simp add: remove_thread_frame)
  with remove_thread_bitmap [OF assms] sched_invD(1) [OF inv] show ?thesis
    by (simp add: sched_free_def remove_thread_frame ls_remove_wf)
qed

text \<open>A thread that is not ready leaves its list without a trace in the bitmap.\<close>

lemma tlist_remove_free:
  assumes inv: "sched_inv k" and "stat_of k t \<noteq> RT_THREAD_READY"
  shows "sched_free t (tlist_remove t k)"
proof -
  have "on_tlist (tlist_remove t k) (Ready p) = on_tlist k (Ready p)" for p
  proof -
    have "t \<notin> set (on_tlist k (Ready p))"
      using ready_home(1) [OF inv] assms(2) sched_invD(1) [OF inv] by (auto simp: on_tlist_def ls_wf_mem)
    then show ?thesis
      using sched_invD(1) [OF inv] by (simp add: on_tlist_def ls_remove_on_list filter_id_conv) blast
  qed
  then have "bitmap_ok (tlist_remove t k)"
    using sched_invD(2) [OF inv] by (simp add: bitmap_ok_bm)
  moreover have "thread_ok (tlist_remove t k) u" if "u \<noteq> t" for u
    using that sched_invD(3) [OF inv, of u] thread_ok_cong [of "tlist_remove t k" u k] by simp
  ultimately show ?thesis
    using sched_invD(1) [OF inv] by (simp add: sched_free_def ls_remove_wf)
qed

lemma attr_ok_cong:
  "th_current_priority th' = th_current_priority th \<Longrightarrow> th_number th' = th_number th \<Longrightarrow>
   th_high_mask th' = th_high_mask th \<Longrightarrow> th_number_mask th' = th_number_mask th \<Longrightarrow> attr_ok th' = attr_ok th"
  by (simp add: attr_ok_def)

lemma set_stat_fields [simp]:
  "attr_ok (set_stat s th) = attr_ok th"
  "th_current_priority (set_stat s th) = th_current_priority th" "th_number (set_stat s th) = th_number th"
  "th_high_mask (set_stat s th) = th_high_mask th" "th_number_mask (set_stat s th) = th_number_mask th"
  "th_error (set_stat s th) = th_error th" "th_event_set (set_stat s th) = th_event_set th"
  "th_event_info (set_stat s th) = th_event_info th"
  by (simp_all add: set_stat_def attr_ok_def)

lemma upd_thread_frame [simp, rt_frame]:
  "threads (upd_thread t f k) = (threads k)(t := f (threads k t))"
  "tlists (upd_thread t f k) = tlists k" "on_tlist (upd_thread t f k) = on_tlist k"
  "rt_thread_ready_table (upd_thread t f k) = rt_thread_ready_table k"
  "rt_thread_ready_priority_group (upd_thread t f k) = rt_thread_ready_priority_group k"
  "objects (upd_thread t f k) = objects k" "timers (upd_thread t f k) = timers k"
  "timer_lists (upd_thread t f k) = timer_lists k" "rt_current_thread (upd_thread t f k) = rt_current_thread k"
  "rt_scheduler_lock_nest (upd_thread t f k) = rt_scheduler_lock_nest k"
  "rt_interrupt_nest (upd_thread t f k) = rt_interrupt_nest k"
  "rt_tick (upd_thread t f k) = rt_tick k"
  by (simp_all add: upd_thread_def on_tlist_def fun_eq_iff)

lemma sched_free_upd [simp]: "sched_free t (upd_thread t f k) = sched_free t k"
proof -
  have "thread_ok (upd_thread t f k) u = thread_ok k u" if "u \<noteq> t" for u
    using that by (intro thread_ok_cong) simp_all
  then show ?thesis by (auto simp: sched_free_def bitmap_ok_def)
qed

lemma sched_free_close: "sched_free t k \<Longrightarrow> thread_ok k t \<Longrightarrow> sched_inv k"
  by (auto simp: sched_free_def sched_inv_def)

text \<open>A thread update that leaves state and priority alone does not matter to the scheduler.\<close>

lemma sched_inv_upd:
  assumes "th_stat (f (threads k t)) = th_stat (threads k t)"
    and "th_current_priority (f (threads k t)) = th_current_priority (threads k t)"
    and "th_number (f (threads k t)) = th_number (threads k t)"
    and "th_high_mask (f (threads k t)) = th_high_mask (threads k t)"
    and "th_number_mask (f (threads k t)) = th_number_mask (threads k t)"
  shows "sched_inv (upd_thread t f k) = sched_inv k"
proof -
  have "thread_ok (upd_thread t f k) u = thread_ok k u" for u
    using assms attr_ok_cong [of "f (threads k t)" "threads k t"]
    by (simp add: thread_ok_def stat_of_def prio_of_def Let_def)
  then show ?thesis by (simp add: sched_inv_def bitmap_ok_def)
qed

lemma suspend_free:
  assumes "sched_free t k" and "attr_ok (threads k t)"
  shows "sched_inv (upd_thread t (set_stat RT_THREAD_SUSPEND) k)"
proof (rule sched_free_close)
  show "sched_free t (upd_thread t (set_stat RT_THREAD_SUSPEND) k)" using assms by simp
  show "thread_ok (upd_thread t (set_stat RT_THREAD_SUSPEND) k) t"
    using assms by (simp add: thread_ok_def stat_of_def set_stat_masked sched_free_def)
qed

definition is_wait_list :: "thread_list \<Rightarrow> bool" where
  "is_wait_list q \<longleftrightarrow> q \<noteq> Defunct \<and> (\<forall>p. q \<noteq> Ready p)"

lemma is_wait_list_simps [simp]:
  "is_wait_list (Sem_wait s)" "is_wait_list (Mutex_wait s)" "is_wait_list (Event_wait s)"
  "is_wait_list (Mb_recv_wait s)" "is_wait_list (Mb_send_wait s)" "is_wait_list (Mq_recv_wait s)"
  "is_wait_list (Mq_send_wait s)" "is_wait_list (Mp_wait s)" "is_wait_list (Completion_wait s)" "is_wait_list (Dq_push_wait s)" "is_wait_list (Dq_pop_wait s)" "\<not> is_wait_list (Ready p)" "\<not> is_wait_list Defunct"
  by (auto simp: is_wait_list_def)

lemma tlist_insert_at_Some:
  "tlist_insert_at q i t k = Some k' \<longleftrightarrow> home (tlists k) t = None \<and>
     k' = k\<lparr>tlists := (tlists k)\<lparr>on_list := (on_list (tlists k))(q := take i (on_tlist k q) @ t # drop i (on_tlist k q)),
                                  home := (home (tlists k))(t := Some q)\<rparr>\<rparr>"
  by (auto simp: tlist_insert_at_def ls_insert_at_def on_tlist_def split: if_splits)

lemma tlist_append_Some:
  "tlist_append q t k = Some k' \<longleftrightarrow> home (tlists k) t = None \<and>
     k' = k\<lparr>tlists := (tlists k)\<lparr>on_list := (on_list (tlists k))(q := on_tlist k q @ [t]),
                                  home := (home (tlists k))(t := Some q)\<rparr>\<rparr>"
  by (auto simp: tlist_append_def ls_append_Some on_tlist_def)

lemma tlist_append_at: "tlist_append q t k = tlist_insert_at q (length (on_tlist k q)) t k"
  by (simp add: tlist_append_def tlist_insert_at_def ls_append_def on_tlist_def)

lemma wait_insert_inv:
  assumes inv: "sched_inv k" and stat: "stat_of k t = RT_THREAD_SUSPEND" and q: "is_wait_list q"
    and ins: "tlist_insert_at q i t k = Some k'"
  shows "sched_inv k'"
proof -
  from ins have k': "home (tlists k) t = None"
    "k' = k\<lparr>tlists := (tlists k)\<lparr>on_list := (on_list (tlists k))(q := take i (on_tlist k q) @ t # drop i (on_tlist k q)),
                                  home := (home (tlists k))(t := Some q)\<rparr>\<rparr>"
    by (simp_all add: tlist_insert_at_Some)
  have "ls_insert_at q i t (tlists k) = Some (tlists k')"
    using k' by (simp add: ls_insert_at_def on_tlist_def)
  then have "ls_wf (tlists k')" using sched_invD(1) [OF inv] by (rule ls_insert_at_wf [rotated])
  moreover have "bitmap_ok k'"
    using sched_invD(2) [OF inv] q k' by (auto simp: bitmap_ok_def on_tlist_def is_wait_list_def)
  moreover have "thread_ok k' u" for u
  proof (cases "u = t")
    case True
    with sched_invD(3) [OF inv, of t] stat q k' show ?thesis
      by (auto simp: thread_ok_def stat_of_def is_wait_list_def Let_def)
  next
    case False
    then show ?thesis
      using sched_invD(3) [OF inv, of u] thread_ok_cong [of k' u k] k' by simp
  qed
  ultimately show ?thesis by (simp add: sched_inv_def)
qed

text \<open>The result of putting an unlinked thread on its ready list.\<close>

lemma insert_thread_eq:
  assumes "home (tlists k) t = None"
  defines "th \<equiv> threads k t"
  shows "rt_schedule_insert_thread t k = Some (k\<lparr>
      threads := (threads k)(t := set_stat RT_THREAD_READY th),
      tlists := (tlists k)\<lparr>on_list := (on_list (tlists k))(Ready (th_current_priority th) :=
                               on_tlist k (Ready (th_current_priority th)) @ [t]),
                           home := (home (tlists k))(t := Some (Ready (th_current_priority th)))\<rparr>,
      rt_thread_ready_table := (rt_thread_ready_table k)
        (unat (th_number th) := rt_thread_ready_table k (unat (th_number th)) OR th_high_mask th),
      rt_thread_ready_priority_group := rt_thread_ready_priority_group k OR th_number_mask th\<rparr>)"
  using assms by (simp add: rt_schedule_insert_thread_def tlist_append_def ls_append_def ls_insert_at_def
      on_tlist_def upd_thread_def Let_def th_def)

lemma insert_thread_inv:
  assumes fr: "sched_free t k" and attr: "attr_ok (threads k t)" and ins: "rt_schedule_insert_thread t k = Some k'"
  shows "sched_inv k'"
proof -
  let ?p = "th_current_priority (threads k t)"
  have h: "home (tlists k) t = None" using fr by (simp add: sched_free_def)
  note k' = insert_thread_eq [OF h, unfolded ins option.inject]
  have "ls_insert_at (Ready ?p) (length (on_list (tlists k) (Ready ?p))) t (tlists k) = Some (tlists k')"
    using h by (simp add: k' ls_insert_at_def on_tlist_def)
  moreover have "ls_wf (tlists k)" using fr by (simp add: sched_free_def)
  ultimately have "ls_wf (tlists k')" by (rule ls_insert_at_wf [rotated])
  moreover have "bitmap_ok k'"
  proof -
    have "bm_ok (\<lambda>p. on_tlist k (Ready p) \<noteq> []) (rt_thread_ready_table k) (rt_thread_ready_priority_group k)"
      using fr by (simp add: sched_free_def bitmap_ok_bm)
    from bm_ok_set [OF this, of ?p] have
      "bm_ok ((\<lambda>p. on_tlist k (Ready p) \<noteq> [])(?p := True)) (rt_thread_ready_table k') (rt_thread_ready_priority_group k')"
      using attr by (simp add: k' attr_ok_def)
    moreover have "(\<lambda>p. on_tlist k (Ready p) \<noteq> [])(?p := True) = (\<lambda>p. on_tlist k' (Ready p) \<noteq> [])"
      by (auto simp: k' on_tlist_def)
    ultimately show ?thesis by (simp add: bitmap_ok_bm)
  qed
  moreover have "thread_ok k' u" for u
  proof (cases "u = t")
    case True
    with attr show ?thesis by (simp add: k' thread_ok_def stat_of_def prio_of_def set_stat_masked)
  next
    case False
    then have "thread_ok k u" using fr by (simp add: sched_free_def)
    with False show ?thesis using thread_ok_cong [of k' u k] by (simp add: k')
  qed
  ultimately show ?thesis by (simp add: sched_inv_def)
qed

section \<open>The scheduler\<close>

text \<open>What a run of \<^verbatim>\<open>rt_schedule\<close> may change.\<close>

lemma rt_schedule_frame:
  assumes "rt_schedule k = Some k'"
  obtains p c i v where "k' = k\<lparr>rt_current_priority := p, rt_current_thread := c,
    idl_total_ticks := i, prev_calc_ticks := v\<rparr>"
proof (cases "k' = k")
  case True
  then have "k' = k\<lparr>rt_current_priority := rt_current_priority k, rt_current_thread := rt_current_thread k,
      idl_total_ticks := idl_total_ticks k, prev_calc_ticks := prev_calc_ticks k\<rparr>" by simp
  then show ?thesis by (rule that)
next
  case False
  have un: "rt_scheduler_lock_nest k = 0" using assms False by (simp add: rt_schedule_def split: if_split_asm)
  then obtain p t where g: "scheduler_get_highest_priority_thread k = Some (p, t)"
    using assms by (cases "scheduler_get_highest_priority_thread k") (auto simp: rt_schedule_def)
  then have t: "Some t \<noteq> rt_current_thread k" using assms False un by (auto simp: rt_schedule_def)
  then obtain c where c: "rt_current_thread k = Some c"
    using assms un g by (cases "rt_current_thread k") (auto simp: rt_schedule_def)
  have "rt_scheduler_stack_check t k = Some ()"
    using assms un g t c by (cases "rt_scheduler_stack_check t k") (auto simp: rt_schedule_def)
  then show ?thesis using assms un g t c by (simp add: rt_schedule_def Let_def) (rule that, erule sym)
qed

lemma rt_schedule_view:
  assumes "rt_schedule k = Some k'"
  shows "sched_view k' = sched_view k" "objects k' = objects k" "timers k' = timers k"
    "timer_lists k' = timer_lists k" "object_lists k' = object_lists k" "sems k' = sems k"
    "mutexes k' = mutexes k" "events k' = events k" "mailboxes k' = mailboxes k" "mqs k' = mqs k"
    "mempools k' = mempools k" "completions k' = completions k" "dataqs k' = dataqs k"
    "threads k' = threads k" "tlists k' = tlists k" "rt_tick k' = rt_tick k"
    "rt_scheduler_lock_nest k' = rt_scheduler_lock_nest k" "rt_interrupt_nest k' = rt_interrupt_nest k"
    "timer_thread k' = timer_thread k" "freed k' = freed k" "on_tlist k' = on_tlist k" "freed_memory k' = freed_memory k"
proof -
  obtain p c i v where k': "k' = k\<lparr>rt_current_priority := p, rt_current_thread := c,
    idl_total_ticks := i, prev_calc_ticks := v\<rparr>"
    using assms by (rule rt_schedule_frame)
  have "on_tlist k' = on_tlist k" by (simp add: k' on_tlist_def fun_eq_iff)
  moreover have "sched_view k' = sched_view k" by (simp add: k' sched_view_def)
  ultimately show "sched_view k' = sched_view k" "objects k' = objects k" "timers k' = timers k"
    "timer_lists k' = timer_lists k" "object_lists k' = object_lists k" "sems k' = sems k"
    "mutexes k' = mutexes k" "events k' = events k" "mailboxes k' = mailboxes k" "mqs k' = mqs k"
    "mempools k' = mempools k" "completions k' = completions k" "dataqs k' = dataqs k"
    "threads k' = threads k" "tlists k' = tlists k" "rt_tick k' = rt_tick k"
    "rt_scheduler_lock_nest k' = rt_scheduler_lock_nest k" "rt_interrupt_nest k' = rt_interrupt_nest k"
    "timer_thread k' = timer_thread k" "freed k' = freed k" "on_tlist k' = on_tlist k" "freed_memory k' = freed_memory k"
    by (simp_all add: k')
qed

lemma rt_schedule_inv: "rt_schedule k = Some k' \<Longrightarrow> sched_inv k' = sched_inv k"
  by (rule sched_view_inv) (rule rt_schedule_view)

text \<open>The thread with the first claim on the processor.\<close>

definition first_ready :: "kernel \<Rightarrow> tid \<Rightarrow> bool" where
  "first_ready k t \<longleftrightarrow> (\<exists>ts. on_tlist k (Ready (prio_of k t)) = t # ts) \<and> stat_of k t = RT_THREAD_READY
     \<and> (\<forall>u. stat_of k u = RT_THREAD_READY \<longrightarrow> prio_of k t \<le> prio_of k u)"

lemma ready_on_list:
  assumes "sched_inv k"
  shows "u \<in> set (on_tlist k (Ready p)) \<longleftrightarrow> stat_of k u = RT_THREAD_READY \<and> prio_of k u = p"
proof
  assume "u \<in> set (on_tlist k (Ready p))"
  then have "home (tlists k) u = Some (Ready p)"
    using sched_invD(1) [OF assms] by (simp add: on_tlist_def ls_wf_mem)
  then show "stat_of k u = RT_THREAD_READY \<and> prio_of k u = p" using ready_home [OF assms] by blast
next
  assume "stat_of k u = RT_THREAD_READY \<and> prio_of k u = p"
  then have "home (tlists k) u = Some (Ready p)"
    using sched_invD(3) [OF assms, of u] by (simp add: thread_ok_def Let_def)
  then show "u \<in> set (on_tlist k (Ready p))"
    using sched_invD(1) [OF assms] by (simp add: on_tlist_def ls_wf_mem)
qed

lemma get_highest_first_ready:
  assumes inv: "sched_inv k" and some: "stat_of k u = RT_THREAD_READY"
  shows "\<exists>p t. scheduler_get_highest_priority_thread k = Some (p, t) \<and> p = prio_of k t \<and> first_ready k t"
proof -
  have "u \<in> set (on_tlist k (Ready (prio_of k u)))" using ready_on_list [OF inv] some by simp
  then have "on_tlist k (Ready (prio_of k u)) \<noteq> []" by auto
  with sched_invD(2) [OF inv] obtain p t ts where
    g: "scheduler_get_highest_priority_thread k = Some (p, t)" "on_tlist k (Ready p) = t # ts"
      "\<And>r. on_tlist k (Ready r) \<noteq> [] \<Longrightarrow> p \<le> r" by (rule highest_priority_search) blast
  have t: "stat_of k t = RT_THREAD_READY" "prio_of k t = p" using ready_on_list [OF inv, of t p] g(2) by auto
  have "p \<le> prio_of k v" if "stat_of k v = RT_THREAD_READY" for v
  proof -
    have "v \<in> set (on_tlist k (Ready (prio_of k v)))" using ready_on_list [OF inv] that by simp
    then show ?thesis by (intro g(3)) auto
  qed
  with g t show ?thesis by (auto simp: first_ready_def)
qed

definition stacks_ok :: "kernel \<Rightarrow> bool" where
  "stacks_ok k \<longleftrightarrow> (\<forall>t. stat_of k t = RT_THREAD_READY \<longrightarrow> rt_scheduler_stack_check t k = Some ())"

lemma rt_schedule_first_ready:
  assumes inv: "sched_inv k" and u: "stat_of k u = RT_THREAD_READY" and st: "stacks_ok k"
    and cur: "rt_current_thread k \<noteq> None" and un: "rt_scheduler_lock_nest k = 0"
  shows "\<exists>k' t. rt_schedule k = Some k' \<and> rt_current_thread k' = Some t \<and> first_ready k' t"
proof -
  obtain t where g: "scheduler_get_highest_priority_thread k = Some (prio_of k t, t)" and t: "first_ready k t"
    using get_highest_first_ready [OF inv u] by blast
  obtain c where c: "rt_current_thread k = Some c" using cur by blast
  have chk: "rt_scheduler_stack_check t k = Some ()"
    using st t by (auto simp: stacks_ok_def first_ready_def)
  have "\<exists>k'. rt_schedule k = Some k' \<and> rt_current_thread k' = Some t"
    using g c chk un by (cases "t = c") (simp_all add: rt_schedule_def Let_def)
  then obtain k' where k': "rt_schedule k = Some k'" "rt_current_thread k' = Some t" by blast
  have "first_ready k' t"
    using t rt_schedule_view [OF k'(1)] by (simp add: first_ready_def stat_of_def prio_of_def)
  with k' show ?thesis by blast
qed

lemma rt_schedule_picks:
  assumes inv: "sched_inv k" and sch: "rt_schedule k = Some k'" and un: "rt_scheduler_lock_nest k = 0"
    and u: "stat_of k u = RT_THREAD_READY"
  shows "\<exists>t. rt_current_thread k' = Some t \<and> first_ready k' t"
proof -
  obtain t where g: "scheduler_get_highest_priority_thread k = Some (prio_of k t, t)" and t: "first_ready k t"
    using get_highest_first_ready [OF inv u] by blast
  have "rt_current_thread k' = Some t"
  proof (cases "Some t = rt_current_thread k")
    case True
    with sch un g show ?thesis by (simp add: rt_schedule_def)
  next
    case False
    with sch un g show ?thesis by (simp add: rt_schedule_def bind_Some_iff Let_def) auto
  qed
  moreover have "first_ready k' t"
    using t rt_schedule_view [OF sch] by (simp add: first_ready_def stat_of_def prio_of_def)
  ultimately show ?thesis by blast
qed

section \<open>A small system\<close>

text \<open>
  The concrete states of the examples start from four threads: the idle thread 0 of priority
  255 and the threads 1, 2 and 3 of the priorities 10, 10 and 20.  In \<open>sample\<close> the threads 0, 1
  and 2 are ready, thread 3 is suspended and thread 1 runs.
\<close>

definition zero_thread :: rt_thread where
  "zero_thread = \<lparr>th_sp = 0, th_stack_addr = 0, th_stack_size = 0, th_stack_guard = 0, th_entry = 0,
     th_parameter = 0, th_error = 0, th_stat = 0, th_current_priority = 0, th_init_priority = 0, th_number = 0,
     th_high_mask = 0, th_number_mask = 0, th_event_set = 0, th_event_info = 0, th_init_tick = 0,
     th_remaining_tick = 0, th_cleanup = None, th_lock = None, th_user_data = 0, th_total_ticks = 0, th_enter_times = 0\<rparr>"

definition zero_object :: rt_object where
  "zero_object = \<lparr>obj_name = replicate 16 0, obj_type = 0, obj_flag = 0\<rparr>"

definition zero_timer :: rt_timer where
  "zero_timer = \<lparr>tm_timeout_func = No_timeout, tm_init_tick = 0, tm_timeout_tick = 0\<rparr>"

definition zero_sem :: rt_semaphore where "zero_sem = \<lparr>sem_value = 0\<rparr>"

definition zero_mutex :: rt_mutex where
  "zero_mutex = \<lparr>mx_value = 0, mx_original_priority = 0, mx_hold = 0, mx_owner = None\<rparr>"

definition zero_event :: rt_event where "zero_event = \<lparr>ev_set = 0\<rparr>"

definition zero_mailbox :: rt_mailbox where
  "zero_mailbox = \<lparr>mb_msg_pool = [], mb_size = 0, mb_entry = 0, mb_in_offset = 0, mb_out_offset = 0\<rparr>"

definition zero_mq :: rt_messagequeue where
  "zero_mq = \<lparr>mq_msg_size = 0, mq_max_msgs = 0, mq_entry = 0, mq_head = None, mq_tail = None, mq_free = None,
     mq_next = (\<lambda>_. None), mq_data = (\<lambda>_. [])\<rparr>"

definition zero_mempool :: rt_mempool where
  "zero_mempool = \<lparr>mp_start_address = 0, mp_size = 0, mp_block_size = 0, mp_block_list = None, mp_block_total_count = 0,
     mp_block_free_count = 0, mp_suspend_thread_count = 0, mp_word = (\<lambda>_. Next_block None)\<rparr>"

definition zero_completion :: rt_completion where "zero_completion = \<lparr>cp_flag = 0\<rparr>"

definition zero_dataq :: rt_data_queue where
  "zero_dataq = \<lparr>dq_size = 0, dq_lwm = 0, dq_get_index = 0, dq_put_index = 0, dq_queue = [], dq_evt_notify = None\<rparr>"

definition zero_kernel :: kernel where
  "zero_kernel = \<lparr>objects = (\<lambda>_. zero_object), object_lists = ls_empty, threads = (\<lambda>_. zero_thread),
     tlists = ls_empty, timers = (\<lambda>_. zero_timer), timer_lists = ls_empty, sems = (\<lambda>_. zero_sem),
     mutexes = (\<lambda>_. zero_mutex), events = (\<lambda>_. zero_event), mailboxes = (\<lambda>_. zero_mailbox),
     mqs = (\<lambda>_. zero_mq), mempools = (\<lambda>_. zero_mempool), completions = (\<lambda>_. zero_completion),
     dataqs = (\<lambda>_. zero_dataq), rt_errno = 0, rt_tick = 0, rt_tick_uptime = 0, rt_interrupt_nest = 0,
     rt_scheduler_lock_nest = 0, rt_current_thread = None, rt_current_priority = 255,
     rt_thread_ready_priority_group = 0, rt_thread_ready_table = (\<lambda>_. 0), timer_thread = 9, random_nr = 0,
     sys_total_ticks = 0, idl_total_ticks = 0, prev_calc_ticks = 0, hw_pts = 0, freed = [],
     freed_memory = [], idle_thread = 0, idle_hook_list = replicate 4 None\<rparr>"

definition sample_thread :: "rt_uint8_t \<Rightarrow> rt_thread" where
  "sample_thread p = zero_thread\<lparr>th_sp := 0x1100, th_stack_addr := 0x1000, th_stack_size := 0x200,
     th_stack_guard := 35, th_stat := RT_THREAD_SUSPEND, th_current_priority := p, th_init_priority := p,
     th_number := drop_bit 3 p, th_high_mask := one_shl (unat (p AND 7)), th_number_mask := one_shl (unat (drop_bit 3 p)),
     th_init_tick := 5, th_remaining_tick := 5\<rparr>"

definition sample_base :: kernel where
  "sample_base = zero_kernel\<lparr>
     threads := (\<lambda>_. zero_thread)(0 := sample_thread 255, 1 := sample_thread 10, 2 := sample_thread 10, 3 := sample_thread 20),
     objects := (\<lambda>h. case h of
        Obj n \<Rightarrow> if n < 4 then zero_object\<lparr>obj_type := RT_Object_Class_Thread OR RT_Object_Class_Static\<rparr> else zero_object
      | Thread_timer n \<Rightarrow> if n < 4 then zero_object\<lparr>obj_type := RT_Object_Class_Timer OR RT_Object_Class_Static\<rparr> else zero_object),
     timers := (\<lambda>h. case h of Obj n \<Rightarrow> zero_timer | Thread_timer n \<Rightarrow> zero_timer\<lparr>tm_timeout_func := Rt_thread_timeout n\<rparr>),
     rt_current_thread := Some 1, rt_current_priority := 10\<rparr>"

definition sample :: kernel where
  "sample = the (do { k \<leftarrow> rt_schedule_insert_thread 0 sample_base; k \<leftarrow> rt_schedule_insert_thread 1 k;
                      rt_schedule_insert_thread 2 k })"

lemma unat_shift_3: "unat (drop_bit 3 (p :: rt_uint8_t)) = prio_number p"
proof -
  have "take_bit 8 (unat p) = unat p"
    using unsigned_less [where 'a = nat and w = p] by (simp add: take_bit_nat_eq_self)
  then show ?thesis unfolding prio_number_def unsigned_drop_bit_eq by (simp add: drop_bit_eq_div)
qed

lemma unat_and_7: "unat ((p :: rt_uint8_t) AND 7) = prio_bit p"
proof -
  have "(7 :: rt_uint8_t) = mask 3" by (simp add: mask_eq_exp_minus_1)
  then have "p AND 7 = take_bit 3 p" by (simp add: take_bit_eq_mask)
  then show ?thesis unfolding prio_bit_def by (simp add: unsigned_take_bit_eq take_bit_eq_mod [of 3 "unat p"])
qed

lemma attr_ok_sample: "attr_ok (sample_thread p)"
  by (simp add: attr_ok_def sample_thread_def unat_shift_3 unat_and_7)

lemma sample_base_inv: "sched_inv sample_base"
proof -
  have h: "home (tlists sample_base) t = None" for t
    by (simp add: sample_base_def zero_kernel_def ls_empty_def)
  have th: "threads sample_base = (\<lambda>_. zero_thread)(0 := sample_thread 255, 1 := sample_thread 10,
      2 := sample_thread 10, 3 := sample_thread 20)"
    by (simp add: sample_base_def)
  have st: "th_stat (sample_thread p) = RT_THREAD_SUSPEND" "th_stat zero_thread = RT_THREAD_INIT" for p
    by (simp_all add: sample_thread_def zero_thread_def rt_consts)
  have "thread_ok sample_base t" for t
    by (simp add: thread_ok_def stat_of_def h th st attr_ok_sample)
  moreover have "bitmap_ok sample_base"
    by (simp add: bitmap_ok_def sample_base_def zero_kernel_def on_tlist_def ls_empty_def)
  ultimately show ?thesis by (simp add: sched_inv_def sample_base_def zero_kernel_def)
qed

lemma sample_inv: "sched_inv sample" and sample_threads: "t \<notin> {0, 1, 2} \<Longrightarrow> threads sample t = threads sample_base t"
proof -
  have h0: "home (tlists sample_base) t = None" for t
    by (simp add: sample_base_def zero_kernel_def ls_empty_def)
  have th: "threads sample_base 0 = sample_thread 255" "threads sample_base 1 = sample_thread 10"
    "threads sample_base 2 = sample_thread 10"
    by (simp_all add: sample_base_def)
  obtain k0 where k0: "rt_schedule_insert_thread 0 sample_base = Some k0" using insert_thread_eq [OF h0] by blast
  have i0: "sched_inv k0"
    using sched_free_intro [OF sample_base_inv h0] _ k0 by (rule insert_thread_inv) (simp add: th attr_ok_sample)
  have t0: "home (tlists k0) 1 = None" "home (tlists k0) 2 = None" "threads k0 1 = sample_thread 10"
    "threads k0 2 = sample_thread 10"
    using insert_thread_eq [OF h0, of 0] k0 th h0 by (auto simp del: fun_upd_apply simp: fun_upd_def)
  obtain k1 where k1: "rt_schedule_insert_thread 1 k0 = Some k1" using insert_thread_eq [OF t0(1)] by blast
  have i1: "sched_inv k1"
    using sched_free_intro [OF i0 t0(1)] _ k1 by (rule insert_thread_inv) (simp only: t0 attr_ok_sample)
  have t1: "home (tlists k1) 2 = None" "threads k1 2 = sample_thread 10"
    using insert_thread_eq [OF t0(1)] k1 t0 by (auto simp del: fun_upd_apply simp: fun_upd_def)
  obtain k2 where k2: "rt_schedule_insert_thread 2 k1 = Some k2" using insert_thread_eq [OF t1(1)] by blast
  have "sched_inv k2"
    using sched_free_intro [OF i1 t1(1)] _ k2 by (rule insert_thread_inv) (simp only: t1 attr_ok_sample)
  moreover have "threads sample t = threads sample_base t" if "t \<notin> {0, 1, 2}" for t
    using that insert_thread_eq [OF h0, of 0] insert_thread_eq [OF t0(1)] insert_thread_eq [OF t1(1)] k0 k1 k2
    unfolding sample_def k0 Option.bind.bind_lunit k1 k2
    by (auto simp del: fun_upd_apply simp: fun_upd_def)
  moreover have "sample = k2" unfolding sample_def k0 Option.bind.bind_lunit k1 k2 by simp
  ultimately show "sched_inv sample" "t \<notin> {0, 1, 2} \<Longrightarrow> threads sample t = threads sample_base t" by simp_all
qed

lemma sample_facts:
  "stat_of sample 0 = RT_THREAD_READY" "stat_of sample 1 = RT_THREAD_READY" "stat_of sample 2 = RT_THREAD_READY"
  "stat_of sample 3 = RT_THREAD_SUSPEND" "prio_of sample 1 = 10" "prio_of sample 3 = 20"
  "rt_current_thread sample = Some 1" "rt_scheduler_lock_nest sample = 0" "rt_interrupt_nest sample = 0"
  "on_tlist sample (Ready 10) = [1, 2]" "on_tlist sample (Ready 255) = [0]"
  by code_simp+

lemma insert_thread_frame:
  assumes "rt_schedule_insert_thread t k = Some k'"
  shows "object_lists k' = object_lists k" "objects k' = objects k" "timers k' = timers k"
    "timer_lists k' = timer_lists k" "rt_current_thread k' = rt_current_thread k"
    "threads k' = (threads k)(t := set_stat RT_THREAD_READY (threads k t))"
    "home (tlists k') = (home (tlists k))(t := Some (Ready (prio_of k t)))"
    "on_list (tlists k') = (on_list (tlists k))(Ready (prio_of k t) := on_tlist k (Ready (prio_of k t)) @ [t])"
proof -
  have h: "home (tlists k) t = None"
    using assms by (auto simp: rt_schedule_insert_thread_def tlist_append_Some bind_Some_iff Let_def)
  note k' = insert_thread_eq [OF h, unfolded assms option.inject]
  show "object_lists k' = object_lists k" "objects k' = objects k" "timers k' = timers k"
    "timer_lists k' = timer_lists k" "rt_current_thread k' = rt_current_thread k"
    "threads k' = (threads k)(t := set_stat RT_THREAD_READY (threads k t))"
    "home (tlists k') = (home (tlists k))(t := Some (Ready (prio_of k t)))"
    "on_list (tlists k') = (on_list (tlists k))(Ready (prio_of k t) := on_tlist k (Ready (prio_of k t)) @ [t])"
    by (simp_all add: k' prio_of_def)
qed

lemma sample_chain:
  obtains k0 k1 where "rt_schedule_insert_thread 0 sample_base = Some k0" "rt_schedule_insert_thread 1 k0 = Some k1"
    "rt_schedule_insert_thread 2 k1 = Some sample"
proof -
  have "\<exists>k0 k1 k2. rt_schedule_insert_thread 0 sample_base = Some k0 \<and> rt_schedule_insert_thread 1 k0 = Some k1
      \<and> rt_schedule_insert_thread 2 k1 = Some k2"
  proof -
    have "map_option (\<lambda>_. ()) (do { k \<leftarrow> rt_schedule_insert_thread 0 sample_base; k \<leftarrow> rt_schedule_insert_thread 1 k;
        rt_schedule_insert_thread 2 k }) = Some ()" by code_simp
    then show ?thesis by (auto simp: bind_Some_iff)
  qed
  then show ?thesis using that by (auto simp: sample_def)
qed

lemma sample_rest:
  "object_lists sample = ls_empty" "timer_lists sample = ls_empty" "objects sample = objects sample_base"
  "timers sample = timers sample_base"
proof -
  obtain k0 k1 where "rt_schedule_insert_thread 0 sample_base = Some k0" "rt_schedule_insert_thread 1 k0 = Some k1"
    "rt_schedule_insert_thread 2 k1 = Some sample" by (rule sample_chain)
  note f = this [THEN insert_thread_frame(1)] this [THEN insert_thread_frame(2)] this [THEN insert_thread_frame(3)]
    this [THEN insert_thread_frame(4)]
  show "object_lists sample = ls_empty" "timer_lists sample = ls_empty" "objects sample = objects sample_base"
    "timers sample = timers sample_base"
    unfolding f by (simp_all add: sample_base_def zero_kernel_def)
qed

lemma sample_stacks: "stacks_ok sample"
proof -
  have "stat_of sample t = RT_THREAD_READY \<Longrightarrow> t = 0 \<or> t = 1 \<or> t = 2" for t
  proof -
    assume r: "stat_of sample t = RT_THREAD_READY"
    have "stat_of sample t \<noteq> RT_THREAD_READY" if "t \<notin> {0, 1, 2}"
    proof -
      have "threads sample t = threads sample_base t" using that by (rule sample_threads)
      moreover have "th_stat (threads sample_base t) AND RT_THREAD_STAT_MASK \<noteq> RT_THREAD_READY"
        using that by (simp add: sample_base_def zero_thread_def sample_thread_def rt_consts)
      ultimately show ?thesis by (simp add: stat_of_def)
    qed
    with r show ?thesis by auto
  qed
  moreover have "rt_scheduler_stack_check 0 sample = Some ()" "rt_scheduler_stack_check 1 sample = Some ()"
    "rt_scheduler_stack_check 2 sample = Some ()" by code_simp+
  ultimately show ?thesis unfolding stacks_ok_def by metis
qed

section \<open>Properties\<close>

text \<open>C4: in every state the kernel's invariant allows, the two find-first-set lookups in the bitmap
  return the least priority value of all ready threads and the thread at the head of its list, provided
  some thread is ready.  The constant time search is the search over all threads.\<close>

theorem bitmap_search_finds_highest:
  assumes "sched_inv k" and "stat_of k u = RT_THREAD_READY"
  shows "\<exists>t ts. scheduler_get_highest_priority_thread k = Some (prio_of k t, t)
    \<and> on_tlist k (Ready (prio_of k t)) = t # ts \<and> stat_of k t = RT_THREAD_READY
    \<and> (\<forall>v. stat_of k v = RT_THREAD_READY \<longrightarrow> prio_of k t \<le> prio_of k v)"
  using get_highest_first_ready [OF assms] by (auto simp: first_ready_def)

theorem bitmap_search_finds_highest_witness:
  "\<exists>t ts. scheduler_get_highest_priority_thread sample = Some (prio_of sample t, t)
    \<and> on_tlist sample (Ready (prio_of sample t)) = t # ts \<and> stat_of sample t = RT_THREAD_READY
    \<and> prio_of sample t \<le> prio_of sample 1"
  using bitmap_search_finds_highest [OF sample_inv sample_facts(2)] sample_facts(2) by blast

text \<open>C3: after \<^verbatim>\<open>rt_schedule\<close> with the scheduler unlocked, the running thread is the first thread
  of the ready list of the highest priority among all ready threads; the call returns when the stacks of
  the ready threads are intact, and it changes no thread, list or timer.\<close>

theorem schedule_runs_highest:
  assumes "sched_inv k" and "stat_of k u = RT_THREAD_READY" and "stacks_ok k"
    and "rt_current_thread k \<noteq> None" and "rt_scheduler_lock_nest k = 0"
  shows "\<exists>k' t. rt_schedule k = Some k' \<and> rt_current_thread k' = Some t \<and> first_ready k' t
    \<and> sched_inv k' \<and> threads k' = threads k \<and> tlists k' = tlists k \<and> timer_lists k' = timer_lists k"
proof -
  obtain k' t where k': "rt_schedule k = Some k'" "rt_current_thread k' = Some t" "first_ready k' t"
    using rt_schedule_first_ready [OF assms] by blast
  with rt_schedule_view [OF k'(1)] rt_schedule_inv [OF k'(1)] assms(1) show ?thesis by auto
qed

theorem schedule_runs_highest_witness:
  "\<exists>k' t. rt_schedule sample = Some k' \<and> rt_current_thread k' = Some t \<and> first_ready k' t \<and> sched_inv k'"
  using schedule_runs_highest [OF sample_inv sample_facts(2) sample_stacks] sample_facts(7,8) by auto

end
