(* ===== verification/RT_Object.thy ===== *)
theory RT_Object
  imports RT_Scheduler
begin

text \<open>
  The object registry of \<^verbatim>\<open>kernel/src/object.c\<close>: every kernel object carries a name and a
  class and is linked on the list of its class.  A name given by the caller is the list of bytes
  that may be read from its pointer.  The outcome of \<^verbatim>\<open>RT_KERNEL_MALLOC\<close> is an argument of the
  operations that allocate; \<open>freed\<close> records the blocks given back.
\<close>

section \<open>The code\<close>

text \<open>The classes that \<^verbatim>\<open>rt_object_container\<close> has an entry for, in its order.\<close>

definition rt_object_container :: "rt_uint8_t list" where
  "rt_object_container =
     [RT_Object_Class_Thread, RT_Object_Class_Semaphore, RT_Object_Class_Mutex, RT_Object_Class_Event,
      RT_Object_Class_MailBox, RT_Object_Class_MessageQueue, RT_Object_Class_MemHeap, RT_Object_Class_MemPool,
      RT_Object_Class_Device, RT_Object_Class_Timer]"

definition rt_object_get_information :: "rt_uint8_t \<Rightarrow> rt_uint8_t option" where
  "rt_object_get_information type = List.find (\<lambda>c. c = type) rt_object_container"

definition on_class :: "kernel \<Rightarrow> rt_uint8_t \<Rightarrow> handle list" where
  "on_class k c = on_list (object_lists k) c"

definition rt_object_get_length :: "rt_uint8_t \<Rightarrow> kernel \<Rightarrow> nat" where
  "rt_object_get_length type k =
     (case rt_object_get_information type of None \<Rightarrow> 0 | Some c \<Rightarrow> length (on_class k c))"

text \<open>The pointers stored to the caller's array of \<open>maxlen\<close> cells; the result is their number.\<close>

definition rt_object_get_pointers :: "rt_uint8_t \<Rightarrow> int \<Rightarrow> kernel \<Rightarrow> handle list" where
  "rt_object_get_pointers type maxlen k =
     (if maxlen \<le> 0 then []
      else case rt_object_get_information type of None \<Rightarrow> [] | Some c \<Rightarrow> take (nat maxlen) (on_class k c))"

definition link_object :: "rt_uint8_t \<Rightarrow> handle \<Rightarrow> kernel \<Rightarrow> kernel option" where
  "link_object c h k = map_option (\<lambda>s. k\<lparr>object_lists := s\<rparr>) (ls_push c h (object_lists k))"

definition unlink_object :: "handle \<Rightarrow> kernel \<Rightarrow> kernel" where
  "unlink_object h k = k\<lparr>object_lists := ls_remove h (object_lists k)\<rparr>"

definition rt_object_init :: "handle \<Rightarrow> rt_uint8_t \<Rightarrow> rt_uint8_t list \<Rightarrow> kernel \<Rightarrow> kernel option" where
  "rt_object_init h type name k =
     do { RT_ASSERT (rt_object_get_information type \<noteq> None);
          let k = rt_enter_critical k;
          RT_ASSERT (h \<notin> set (on_class k type));
          k \<leftarrow> rt_exit_critical k;
          nm \<leftarrow> rt_strncpy name RT_NAME_MAX;
          link_object type h
            (upd_object h (\<lambda>ob. ob\<lparr>obj_type := type OR RT_Object_Class_Static, obj_name := nm\<rparr>) k) }"

definition rt_object_detach :: "handle \<Rightarrow> kernel \<Rightarrow> kernel" where
  "rt_object_detach h k = unlink_object h (upd_object h (\<lambda>ob. ob\<lparr>obj_type := 0\<rparr>) k)"

text \<open>
  \<^verbatim>\<open>rt_memset(object, 0, size)\<close> on a fresh block, by the class of the object.  A block that
  is still linked somewhere is not fresh.
\<close>

definition zero_struct :: "rt_uint8_t \<Rightarrow> nat \<Rightarrow> kernel \<Rightarrow> kernel" where
  "zero_struct type n k =
     (let k = upd_object (Obj n) (\<lambda>_. zero_object) k in
      if type = RT_Object_Class_Thread
      then upd_object (Thread_timer n) (\<lambda>_. zero_object)
             (upd_timer (Thread_timer n) (\<lambda>_. zero_timer) (upd_thread n (\<lambda>_. zero_thread) k))
      else if type = RT_Object_Class_Semaphore then upd_sem n (\<lambda>_. zero_sem) k
      else if type = RT_Object_Class_Mutex then upd_mutex n (\<lambda>_. zero_mutex) k
      else if type = RT_Object_Class_Event then upd_event n (\<lambda>_. zero_event) k
      else if type = RT_Object_Class_MailBox then upd_mb n (\<lambda>_. zero_mailbox) k
      else if type = RT_Object_Class_MessageQueue then upd_mq n (\<lambda>_. zero_mq) k
      else if type = RT_Object_Class_MemPool then upd_mp n (\<lambda>_. zero_mempool) k
      else if type = RT_Object_Class_Timer then upd_timer (Obj n) (\<lambda>_. zero_timer) k
      else k)"

definition rt_object_allocate ::
    "rt_uint8_t \<Rightarrow> rt_uint8_t list \<Rightarrow> nat option \<Rightarrow> kernel \<Rightarrow> (nat option \<times> kernel) option" where
  "rt_object_allocate type name block k =
     do { RT_DEBUG_NOT_IN_INTERRUPT k;
          RT_ASSERT (rt_object_get_information type \<noteq> None);
          case block of None \<Rightarrow> Some (None, k)
          | Some n \<Rightarrow>
              do { let k = zero_struct type n k;
                   nm \<leftarrow> rt_strncpy name RT_NAME_MAX;
                   k \<leftarrow> link_object type (Obj n)
                     (upd_object (Obj n) (\<lambda>ob. ob\<lparr>obj_type := type, obj_flag := 0, obj_name := nm\<rparr>) k);
                   Some (Some n, k) } }"

definition rt_object_delete :: "handle \<Rightarrow> kernel \<Rightarrow> kernel option" where
  "rt_object_delete h k =
     do { RT_ASSERT (obj_type (objects k h) AND RT_Object_Class_Static = 0);
          let k = unlink_object h (upd_object h (\<lambda>ob. ob\<lparr>obj_type := 0\<rparr>) k);
          Some (k\<lparr>freed := h # freed k\<rparr>) }"

definition rt_object_is_systemobject :: "handle \<Rightarrow> kernel \<Rightarrow> bool" where
  "rt_object_is_systemobject h k \<longleftrightarrow> obj_type (objects k h) AND RT_Object_Class_Static \<noteq> 0"

definition rt_object_get_type :: "handle \<Rightarrow> kernel \<Rightarrow> rt_uint8_t" where
  "rt_object_get_type h k = obj_type (objects k h) AND NOT RT_Object_Class_Static"

text \<open>The walk over a class list that compares the names; the outer option is a read out of bounds.\<close>

fun find_by_name :: "(handle \<Rightarrow> rt_object) \<Rightarrow> rt_uint8_t list \<Rightarrow> handle list \<Rightarrow> handle option option" where
  "find_by_name obs name [] = Some None"
| "find_by_name obs name (h # hs) =
     do { r \<leftarrow> rt_strncmp (obj_name (obs h)) name RT_NAME_MAX;
          if r = 0 then Some (Some h) else find_by_name obs name hs }"

definition rt_object_find :: "rt_uint8_t list option \<Rightarrow> rt_uint8_t \<Rightarrow> kernel \<Rightarrow> (handle option \<times> kernel) option" where
  "rt_object_find name0 type k =
     (case name0 of None \<Rightarrow> Some (None, k)
      | Some name \<Rightarrow>
          if type > RT_Object_Class_Unknown then Some (None, k)
          else do {
            RT_DEBUG_NOT_IN_INTERRUPT k;
            let k = rt_enter_critical k;
            RT_ASSERT (rt_object_get_information type \<noteq> None);
            r \<leftarrow> find_by_name (objects k) name (on_class k type);
            k \<leftarrow> rt_exit_critical k;
            Some (r, k) })"

section \<open>Invariant\<close>

text \<open>A linked object is on the list of its class and has a full name field.\<close>

definition object_inv :: "kernel \<Rightarrow> bool" where
  "object_inv k \<longleftrightarrow> ls_wf (object_lists k)
     \<and> (\<forall>h c. home (object_lists k) h = Some c \<longrightarrow>
          c \<in> set rt_object_container \<and> rt_object_get_type h k = c \<and> length (obj_name (objects k h)) = RT_NAME_MAX)"

lemma object_inv_cong: "object_lists k' = object_lists k \<Longrightarrow> objects k' = objects k \<Longrightarrow> object_inv k' = object_inv k"
  by (simp add: object_inv_def rt_object_get_type_def)

lemma rt_enter_critical_frame [simp, rt_frame]:
  "objects (rt_enter_critical k) = objects k" "object_lists (rt_enter_critical k) = object_lists k"
  "threads (rt_enter_critical k) = threads k" "tlists (rt_enter_critical k) = tlists k"
  "sched_view (rt_enter_critical k) = sched_view k" "on_class (rt_enter_critical k) = on_class k"
  by (simp_all add: rt_enter_critical_def sched_view_def on_class_def fun_eq_iff)

lemma rt_exit_critical_frame:
  assumes "rt_exit_critical k = Some k'"
  shows "objects k' = objects k" "object_lists k' = object_lists k" "sched_view k' = sched_view k"
    "timers k' = timers k" "timer_lists k' = timer_lists k"
proof -
  let ?k1 = "k\<lparr>rt_scheduler_lock_nest := rt_scheduler_lock_nest k - 1\<rparr>"
  let ?k0 = "k\<lparr>rt_scheduler_lock_nest := 0\<rparr>"
  have "k' = ?k1 \<or> k' = ?k0 \<or> rt_schedule ?k0 = Some k'"
    using assms by (simp add: rt_exit_critical_def Let_def split: if_splits)
  moreover have "sched_view ?k1 = sched_view k" "sched_view ?k0 = sched_view k"
    by (simp_all add: sched_view_def)
  ultimately show "objects k' = objects k" "object_lists k' = object_lists k" "sched_view k' = sched_view k"
    "timers k' = timers k" "timer_lists k' = timer_lists k"
    using rt_schedule_view [of ?k0 k'] by auto
qed

lemma container_type: "c \<in> set rt_object_container \<longleftrightarrow> rt_object_get_information c \<noteq> None"
  by (auto simp: rt_object_get_information_def find_None_iff)

lemma container_masks:
  assumes "c \<in> set rt_object_container"
  shows "(c OR RT_Object_Class_Static) AND NOT RT_Object_Class_Static = c" "c AND NOT RT_Object_Class_Static = c"
    "c \<le> RT_Object_Class_Unknown"
  using assms by (auto simp: rt_object_container_def rt_consts)

lemma link_object_Some:
  "link_object c h k = Some k' \<longleftrightarrow> home (object_lists k) h = None \<and>
     k' = k\<lparr>object_lists := (object_lists k)\<lparr>on_list := (on_list (object_lists k))(c := h # on_class k c),
                                              home := (home (object_lists k))(h := Some c)\<rparr>\<rparr>"
  by (auto simp: link_object_def ls_push_Some on_class_def)

lemma link_object_inv:
  assumes inv: "object_inv k" and ln: "link_object c h (upd_object h f k) = Some k'"
    and c: "c \<in> set rt_object_container" and ty: "obj_type (f (objects k h)) AND NOT RT_Object_Class_Static = c"
    and nm: "length (obj_name (f (objects k h))) = RT_NAME_MAX"
  shows "object_inv k'"
proof -
  have un: "home (object_lists k) h = None"
    and k': "k' = (upd_object h f k)\<lparr>object_lists := (object_lists k)\<lparr>on_list := (on_list (object_lists k))(c := h # on_class k c),
       home := (home (object_lists k))(h := Some c)\<rparr>\<rparr>"
    using ln by (simp_all add: link_object_Some upd_object_def on_class_def)
  have "ls_push c h (object_lists k) = Some (object_lists k')"
    using un by (simp add: k' ls_push_Some on_class_def)
  moreover have "ls_wf (object_lists k)" using inv by (simp add: object_inv_def)
  ultimately have "ls_wf (object_lists k')" by (rule ls_push_wf [rotated])
  moreover have "d \<in> set rt_object_container \<and> rt_object_get_type g k' = d \<and> length (obj_name (objects k' g)) = RT_NAME_MAX"
    if "home (object_lists k') g = Some d" for g d
    using that inv c ty nm by (auto simp: k' object_inv_def rt_object_get_type_def upd_object_def split: if_splits)
  ultimately show ?thesis by (simp add: object_inv_def)
qed

lemma rt_object_init_inv:
  assumes "object_inv k" and "rt_object_init h type name k = Some k'"
  shows "object_inv k'"
proof -
  obtain k1 nm where k1: "rt_exit_critical (rt_enter_critical k) = Some k1" and nm: "rt_strncpy name RT_NAME_MAX = Some nm"
    and ln: "link_object type h (upd_object h (\<lambda>ob. ob\<lparr>obj_type := type OR RT_Object_Class_Static, obj_name := nm\<rparr>) k1) = Some k'"
    and c: "type \<in> set rt_object_container"
    using assms(2) by (auto simp: rt_object_init_def bind_Some_iff Let_def container_type)
  have "object_inv k1" using assms(1) rt_exit_critical_frame [OF k1] object_inv_cong [of k1 k] by simp
  from this ln c show ?thesis
    by (rule link_object_inv) (simp_all add: container_masks [OF c] rt_strncpy_length [OF nm])
qed

lemma unlink_object_inv:
  assumes "object_inv k"
  shows "object_inv (unlink_object h (upd_object h f k))"
  using assms by (auto simp: object_inv_def unlink_object_def upd_object_def ls_remove_wf rt_object_get_type_def)

lemma rt_object_detach_inv: "object_inv k \<Longrightarrow> object_inv (rt_object_detach h k)"
  unfolding rt_object_detach_def by (rule unlink_object_inv)

lemma rt_object_delete_inv: "object_inv k \<Longrightarrow> rt_object_delete h k = Some k' \<Longrightarrow> object_inv k'"
  using unlink_object_inv [of k h "\<lambda>ob. ob\<lparr>obj_type := 0\<rparr>"]
    object_inv_cong [of "_\<lparr>freed := _\<rparr>"]
  by (auto simp: rt_object_delete_def bind_ASSERT Let_def split: if_splits)

lemma zero_struct_frame [simp]: "object_lists (zero_struct type n k) = object_lists k"
  by (simp add: zero_struct_def upd_defs Let_def)

lemma rt_object_allocate_inv:
  assumes inv: "object_inv k" and al: "rt_object_allocate type name (Some n) k = Some (r, k')"
    and fresh: "home (object_lists k) (Obj n) = None" "home (object_lists k) (Thread_timer n) = None"
  shows "object_inv k'"
proof -
  obtain nm where nm: "rt_strncpy name RT_NAME_MAX = Some nm"
    and ln: "link_object type (Obj n) (upd_object (Obj n)
        (\<lambda>ob. ob\<lparr>obj_type := type, obj_flag := 0, obj_name := nm\<rparr>) (zero_struct type n k)) = Some k'"
    and c: "type \<in> set rt_object_container"
    using al by (auto simp: rt_object_allocate_def bind_Some_iff Let_def container_type)
  have "objects (zero_struct type n k) h = objects k h" if "h \<noteq> Obj n" "h \<noteq> Thread_timer n" for h
    using that by (simp add: zero_struct_def upd_defs Let_def)
  then have "object_inv (zero_struct type n k)"
    using inv fresh unfolding object_inv_def rt_object_get_type_def
    by (metis (no_types, lifting) option.distinct(1) zero_struct_frame)
  from this ln c show ?thesis
    by (rule link_object_inv) (simp_all add: container_masks [OF c] rt_strncpy_length [OF nm])
qed

text \<open>The search visits the newest object first, so an object that was just created is found by its name.\<close>

lemma find_by_name_first:
  assumes "rt_strncmp (obj_name (obs h)) name RT_NAME_MAX = Some 0"
  shows "find_by_name obs name (h # hs) = Some (Some h)"
  using assms by simp

lemma find_by_name_None:
  assumes "\<forall>h\<in>set hs. length (obj_name (obs h)) = RT_NAME_MAX" and "RT_NAME_MAX \<le> length name \<or> 0 \<in> set name"
    and "\<forall>h\<in>set hs. cstr RT_NAME_MAX (obj_name (obs h)) \<noteq> cstr RT_NAME_MAX name"
  shows "find_by_name obs name hs = Some None"
  using assms
proof (induction hs)
  case (Cons h hs)
  then obtain r where "rt_strncmp (obj_name (obs h)) name RT_NAME_MAX = Some r"
    using rt_strncmp_Some [of RT_NAME_MAX "obj_name (obs h)" name] by auto
  moreover from this have "r \<noteq> 0" using rt_strncmp_0_iff Cons.prems by fastforce
  ultimately show ?case using Cons by simp
qed simp

lemma rt_object_init_result:
  assumes "rt_object_init h type name k = Some k'"
  obtains nm k1 where "rt_strncpy name RT_NAME_MAX = Some nm" "type \<in> set rt_object_container"
    "rt_exit_critical (rt_enter_critical k) = Some k1"
    "obj_name (objects k' h) = nm" "obj_type (objects k' h) = type OR RT_Object_Class_Static"
    "on_class k' type = h # on_class k type" "\<And>g. g \<noteq> h \<Longrightarrow> objects k' g = objects k g"
proof -
  obtain k1 nm where k1: "rt_exit_critical (rt_enter_critical k) = Some k1" and nm: "rt_strncpy name RT_NAME_MAX = Some nm"
    and ln: "link_object type h (upd_object h (\<lambda>ob. ob\<lparr>obj_type := type OR RT_Object_Class_Static, obj_name := nm\<rparr>) k1) = Some k'"
    and c: "type \<in> set rt_object_container"
    using assms by (auto simp: rt_object_init_def bind_Some_iff Let_def container_type)
  have eq: "objects k1 = objects k" "object_lists k1 = object_lists k"
    using rt_exit_critical_frame [OF k1] by simp_all
  show ?thesis
    using ln by (intro that [OF nm c k1]) (auto simp: link_object_Some upd_object_def on_class_def eq)
qed

section \<open>Properties\<close>

text \<open>An object initialised under a name is what \<^verbatim>\<open>rt_object_find\<close> returns for that name and
  class right afterwards, even when an older object has the same name; the search changes no object.\<close>

theorem object_init_find_roundtrip:
  assumes "rt_object_init h type name k = Some k1" and "RT_NAME_MAX \<le> length name \<or> 0 \<in> set name"
    and "rt_object_find (Some name) type k1 = Some (r, k2)"
  shows "r = Some h \<and> objects k2 = objects k1 \<and> object_lists k2 = object_lists k1"
proof -
  obtain nm where nm: "rt_strncpy name RT_NAME_MAX = Some nm" and c: "type \<in> set rt_object_container"
    and h: "obj_name (objects k1 h) = nm" "on_class k1 type = h # on_class k type"
    using assms(1) by (rule rt_object_init_result)
  obtain z where z: "rt_strncmp nm name RT_NAME_MAX = Some z"
    using rt_strncmp_Some [of RT_NAME_MAX nm name] rt_strncpy_length [OF nm] assms(2) by auto
  moreover have "z = 0" using rt_strncmp_0_iff [OF z] rt_strncpy_cstr [OF nm] by simp
  ultimately have f: "find_by_name (objects k1) name (on_class k1 type) = Some (Some h)" using h by simp
  have "\<not> type > RT_Object_Class_Unknown" using container_masks(3) [OF c] by simp
  with assms(3) f show ?thesis
    using rt_exit_critical_frame [of "rt_enter_critical k1" k2]
    by (auto simp: rt_object_find_def bind_Some_iff Let_def)
qed

definition tim_name :: "rt_uint8_t list" where "tim_name = [116, 105, 109, 0]"

theorem object_init_find_roundtrip_witness:
  "\<exists>k1 k2. rt_object_init (Obj 7) RT_Object_Class_Timer tim_name sample = Some k1
    \<and> rt_object_find (Some tim_name) RT_Object_Class_Timer k1 = Some (Some (Obj 7), k2)"
proof -
  have "rt_object_init (Obj 7) RT_Object_Class_Timer tim_name sample \<bind>
      (\<lambda>k. map_option (\<lambda>_. ()) (rt_object_find (Some tim_name) RT_Object_Class_Timer k)) = Some ()" by code_simp
  then obtain k1 r k2 where k: "rt_object_init (Obj 7) RT_Object_Class_Timer tim_name sample = Some k1"
    "rt_object_find (Some tim_name) RT_Object_Class_Timer k1 = Some (r, k2)" by (auto simp: bind_Some_iff)
  moreover have "0 \<in> set tim_name" by (simp add: tim_name_def)
  ultimately show ?thesis using object_init_find_roundtrip by blast
qed

text \<open>Creating, detaching and deleting objects keeps the registry consistent: every linked object
  is on exactly one class list, the one of its class, and has a complete name field.\<close>

theorem object_registry_invariant:
  assumes "object_inv k"
  shows "(rt_object_init h type name k = Some k1 \<longrightarrow> object_inv k1)
    \<and> object_inv (rt_object_detach h k)
    \<and> (rt_object_delete h k = Some k2 \<longrightarrow> object_inv k2)
    \<and> (home (object_lists k) (Obj n) = None \<and> home (object_lists k) (Thread_timer n) = None
        \<and> rt_object_allocate type name (Some n) k = Some (r, k3) \<longrightarrow> object_inv k3)"
  using assms rt_object_init_inv rt_object_detach_inv rt_object_delete_inv rt_object_allocate_inv by blast

theorem object_registry_invariant_witness:
  "object_inv sample \<and> object_inv (rt_object_detach (Obj 3) sample)"
proof -
  have "object_lists sample = ls_empty" by (rule sample_rest)
  then have "object_inv sample" by (simp add: object_inv_def)
  with object_registry_invariant [of sample] show ?thesis by blast
qed

end
