(* ===== verification/RT_Timer.thy ===== *)
theory RT_Timer
  imports RT_Object
begin

text \<open>
  Timers, first part: the operations of \<^verbatim>\<open>kernel/src/timer.c\<close> that do not wake threads.  A
  timer's flags are the flags of its object header; \<^verbatim>\<open>RT_TIMER_SKIP_LIST_LEVEL\<close> is 1, so a
  timer has one list node.
\<close>

section \<open>The code\<close>

definition timer_flag :: "rt_uint8_t \<Rightarrow> handle \<Rightarrow> kernel \<Rightarrow> bool" where
  "timer_flag f h k \<longleftrightarrow> obj_flag (objects k h) AND f \<noteq> 0"

definition clear_flag :: "rt_uint8_t \<Rightarrow> handle \<Rightarrow> kernel \<Rightarrow> kernel" where
  "clear_flag f h k = upd_object h (\<lambda>ob. ob\<lparr>obj_flag := obj_flag ob AND NOT f\<rparr>) k"

definition set_flag :: "rt_uint8_t \<Rightarrow> handle \<Rightarrow> kernel \<Rightarrow> kernel" where
  "set_flag f h k = upd_object h (\<lambda>ob. ob\<lparr>obj_flag := obj_flag ob OR f\<rparr>) k"

text \<open>\<^verbatim>\<open>_rt_timer_remove\<close>\<close>

definition timer_remove :: "handle \<Rightarrow> kernel \<Rightarrow> kernel" where
  "timer_remove h k = k\<lparr>timer_lists := ls_remove h (timer_lists k)\<rparr>"

text \<open>\<^verbatim>\<open>_rt_timer_init\<close>; initialising a node that is still linked would break its list.\<close>

definition timer_init_fields ::
    "handle \<Rightarrow> timeout_func \<Rightarrow> rt_tick_t \<Rightarrow> rt_uint8_t \<Rightarrow> kernel \<Rightarrow> kernel option" where
  "timer_init_fields h timeout time flag k =
     (let k = upd_object h (\<lambda>ob. ob\<lparr>obj_flag := flag AND NOT RT_TIMER_FLAG_ACTIVATED\<rparr>) k;
          k = upd_timer h (\<lambda>_. \<lparr>tm_timeout_func = timeout, tm_init_tick = time, tm_timeout_tick = 0\<rparr>) k
      in if home (timer_lists k) h = None then Some k else None)"

definition rt_timer_init ::
    "handle \<Rightarrow> rt_uint8_t list \<Rightarrow> timeout_func \<Rightarrow> rt_tick_t \<Rightarrow> rt_uint8_t \<Rightarrow> kernel \<Rightarrow> kernel option" where
  "rt_timer_init h name timeout time flag k =
     do { k \<leftarrow> rt_object_init h RT_Object_Class_Timer name k; timer_init_fields h timeout time flag k }"

definition rt_timer_list_next_timeout :: "timer_list \<Rightarrow> kernel \<Rightarrow> rt_tick_t" where
  "rt_timer_list_next_timeout q k =
     (case on_timers k q of [] \<Rightarrow> RT_TICK_MAX | h # _ \<Rightarrow> tm_timeout_tick (timers k h))"

definition rt_timer_next_timeout_tick :: "kernel \<Rightarrow> rt_tick_t" where
  "rt_timer_next_timeout_tick k = rt_timer_list_next_timeout Hard_timers k"

definition rt_timer_detach :: "handle \<Rightarrow> kernel \<Rightarrow> (rt_err_t \<times> kernel) option" where
  "rt_timer_detach h k =
     (if rt_object_get_type h k = 0 then Some (RT_EOK, k)
      else do { RT_ASSERT (rt_object_get_type h k = RT_Object_Class_Timer);
                RT_ASSERT (rt_object_is_systemobject h k);
                let k = clear_flag RT_TIMER_FLAG_ACTIVATED h (timer_remove h k);
                Some (RT_EOK, rt_object_detach h k) })"

definition rt_timer_create ::
    "rt_uint8_t list \<Rightarrow> timeout_func \<Rightarrow> rt_tick_t \<Rightarrow> rt_uint8_t \<Rightarrow> nat option \<Rightarrow> kernel \<Rightarrow> (nat option \<times> kernel) option" where
  "rt_timer_create name timeout time flag block k =
     do { (r, k) \<leftarrow> rt_object_allocate RT_Object_Class_Timer name block k;
          case r of None \<Rightarrow> Some (None, k)
          | Some n \<Rightarrow> do { k \<leftarrow> timer_init_fields (Obj n) timeout time flag k; Some (Some n, k) } }"

definition rt_timer_delete :: "handle \<Rightarrow> kernel \<Rightarrow> (rt_err_t \<times> kernel) option" where
  "rt_timer_delete h k =
     do { RT_ASSERT (rt_object_get_type h k = RT_Object_Class_Timer);
          RT_ASSERT (\<not> rt_object_is_systemobject h k);
          let k = clear_flag RT_TIMER_FLAG_ACTIVATED h (timer_remove h k);
          k \<leftarrow> rt_object_delete h k;
          Some (RT_EOK, k) }"

definition rt_timer_stop :: "handle \<Rightarrow> kernel \<Rightarrow> (rt_err_t \<times> kernel) option" where
  "rt_timer_stop h k =
     do { RT_ASSERT (rt_object_get_type h k = RT_Object_Class_Timer);
          if timer_flag RT_TIMER_FLAG_ACTIVATED h k
          then Some (RT_EOK, clear_flag RT_TIMER_FLAG_ACTIVATED h (timer_remove h k))
          else Some (-RT_ERROR, k) }"

text \<open>The commands of \<^verbatim>\<open>rt_timer_control\<close> with their argument; the value a get command stores
  to its argument is the second component of the result.\<close>

datatype timer_cmd = Set_time rt_tick_t | Get_time | Set_oneshot | Set_periodic | Get_state | Other_cmd int

definition rt_timer_control :: "handle \<Rightarrow> timer_cmd \<Rightarrow> kernel \<Rightarrow> (rt_err_t \<times> rt_uint32_t option \<times> kernel) option" where
  "rt_timer_control h cmd k =
     do { RT_ASSERT (rt_object_get_type h k = RT_Object_Class_Timer);
          Some (case cmd of
              Get_time \<Rightarrow> (RT_EOK, Some (tm_init_tick (timers k h)), k)
            | Set_time t \<Rightarrow> (RT_EOK, None, upd_timer h (\<lambda>tm. tm\<lparr>tm_init_tick := t\<rparr>) k)
            | Set_oneshot \<Rightarrow> (RT_EOK, None, clear_flag RT_TIMER_FLAG_PERIODIC h k)
            | Set_periodic \<Rightarrow> (RT_EOK, None, set_flag RT_TIMER_FLAG_PERIODIC h k)
            | Get_state \<Rightarrow>
                (RT_EOK, Some (if timer_flag RT_TIMER_FLAG_ACTIVATED h k then ucast RT_TIMER_FLAG_ACTIVATED else 0), k)
            | Other_cmd c \<Rightarrow> (RT_EOK, None, k)) }"

definition rt_system_timer_init :: "kernel \<Rightarrow> kernel option" where
  "rt_system_timer_init k = (if on_timers k Hard_timers = [] then Some k else None)"

section \<open>Flags\<close>

lemma flag_set_get: "(x OR RT_TIMER_FLAG_ACTIVATED) AND RT_TIMER_FLAG_ACTIVATED \<noteq> (0 :: rt_uint8_t)"
proof -
  have "bit ((x OR RT_TIMER_FLAG_ACTIVATED) AND RT_TIMER_FLAG_ACTIVATED) 0" by (simp add: rt_consts bit_simps)
  then show ?thesis by force
qed

lemma flag_disjoint:
  assumes "f AND g = (0 :: rt_uint8_t)"
  shows "(x OR f) AND g = x AND g" "(x AND NOT f) AND g = x AND g"
proof -
  have "\<not> (bit f n \<and> bit g n)" for n using assms by (metis bit_0_eq bit_and_iff bot_apply bot_bool_def)
  then show "(x OR f) AND g = x AND g" "(x AND NOT f) AND g = x AND g"
    by (auto simp: bit_eq_iff bit_simps)
qed

lemma flag_other_set:
  "(x OR RT_TIMER_FLAG_ACTIVATED) AND RT_TIMER_FLAG_SOFT_TIMER = x AND RT_TIMER_FLAG_SOFT_TIMER"
  "(x AND NOT RT_TIMER_FLAG_ACTIVATED) AND RT_TIMER_FLAG_SOFT_TIMER = x AND RT_TIMER_FLAG_SOFT_TIMER"
  "(x OR RT_TIMER_FLAG_ACTIVATED) AND RT_TIMER_FLAG_PERIODIC = x AND RT_TIMER_FLAG_PERIODIC"
  "(x AND NOT RT_TIMER_FLAG_ACTIVATED) AND RT_TIMER_FLAG_PERIODIC = x AND RT_TIMER_FLAG_PERIODIC"
  by (rule flag_disjoint, simp add: rt_consts)+

section \<open>Frames\<close>

lemma flag_frame [simp, rt_frame]:
  "sched_view (clear_flag f h k) = sched_view k" "sched_view (set_flag f h k) = sched_view k"
  "timers (clear_flag f h k) = timers k" "timers (set_flag f h k) = timers k"
  "timer_lists (clear_flag f h k) = timer_lists k" "timer_lists (set_flag f h k) = timer_lists k"
  "threads (clear_flag f h k) = threads k" "threads (set_flag f h k) = threads k"
  "tlists (clear_flag f h k) = tlists k" "tlists (set_flag f h k) = tlists k"
  "rt_tick (clear_flag f h k) = rt_tick k" "rt_tick (set_flag f h k) = rt_tick k"
  "rt_current_thread (clear_flag f h k) = rt_current_thread k" "rt_current_thread (set_flag f h k) = rt_current_thread k"
  "rt_object_get_type g (clear_flag f h k) = rt_object_get_type g k"
  "rt_object_get_type g (set_flag f h k) = rt_object_get_type g k"
  by (simp_all add: clear_flag_def set_flag_def upd_object_def sched_view_def rt_object_get_type_def)

lemma timer_remove_frame [simp, rt_frame]:
  "sched_view (timer_remove h k) = sched_view k" "timers (timer_remove h k) = timers k"
  "objects (timer_remove h k) = objects k" "threads (timer_remove h k) = threads k"
  "timer_lists (timer_remove h k) = ls_remove h (timer_lists k)" "tlists (timer_remove h k) = tlists k"
  "rt_object_get_type g (timer_remove h k) = rt_object_get_type g k" "rt_tick (timer_remove h k) = rt_tick k"
  "rt_current_thread (timer_remove h k) = rt_current_thread k"
  by (simp_all add: timer_remove_def sched_view_def rt_object_get_type_def)

text \<open>The parts of the state that operations on threads and their timers leave to the other components.\<close>

definition same_ipc :: "kernel \<Rightarrow> kernel \<Rightarrow> bool" where
  "same_ipc k k' \<longleftrightarrow> sems k' = sems k \<and> mutexes k' = mutexes k \<and> events k' = events k \<and> mailboxes k' = mailboxes k
     \<and> mqs k' = mqs k \<and> mempools k' = mempools k \<and> completions k' = completions k \<and> dataqs k' = dataqs k \<and> object_lists k' = object_lists k \<and> rt_tick k' = rt_tick k
     \<and> rt_scheduler_lock_nest k' = rt_scheduler_lock_nest k \<and> rt_interrupt_nest k' = rt_interrupt_nest k
     \<and> timer_thread k' = timer_thread k \<and> freed k' = freed k \<and> freed_memory k' = freed_memory k
     \<and> (\<forall>n. objects k' (Obj n) = objects k (Obj n))
     \<and> (\<forall>h. obj_type (objects k' h) = obj_type (objects k h) \<and> obj_name (objects k' h) = obj_name (objects k h))"

lemma same_ipc_refl [simp]: "same_ipc k k"
  by (simp add: same_ipc_def)

lemma same_ipc_trans: "same_ipc k k' \<Longrightarrow> same_ipc k' k'' \<Longrightarrow> same_ipc k k''"
  by (simp add: same_ipc_def)

lemma same_ipc_type: "same_ipc k k' \<Longrightarrow> rt_object_get_type h k' = rt_object_get_type h k"
  by (simp add: same_ipc_def rt_object_get_type_def)

lemma timer_stop_same_ipc:
  "same_ipc k (clear_flag RT_TIMER_FLAG_ACTIVATED (Thread_timer t) (timer_remove (Thread_timer t) k))"
  by (simp add: same_ipc_def clear_flag_def timer_remove_def upd_object_def)

lemma rt_timer_stop_Some:
  assumes "rt_object_get_type h k = RT_Object_Class_Timer"
  shows "\<exists>r k'. rt_timer_stop h k = Some (r, k')"
  using assms by (cases "timer_flag RT_TIMER_FLAG_ACTIVATED h k") (simp_all add: rt_timer_stop_def)

lemma rt_timer_stop_cases:
  assumes "rt_timer_stop h k = Some (r, k')"
  shows "k' = k \<or> k' = clear_flag RT_TIMER_FLAG_ACTIVATED h (timer_remove h k)"
  using assms by (auto simp: rt_timer_stop_def bind_ASSERT split: if_splits)

lemma rt_timer_stop_frame:
  assumes "rt_timer_stop h k = Some (r, k')"
  shows "sched_view k' = sched_view k" "timers k' = timers k" "threads k' = threads k" "tlists k' = tlists k"
    "rt_current_thread k' = rt_current_thread k" "on_tlist k' = on_tlist k"
  using rt_timer_stop_cases [OF assms] by (auto simp: on_tlist_def fun_eq_iff)

lemma rt_timer_stop_same_ipc: "rt_timer_stop (Thread_timer t) k = Some (r, k') \<Longrightarrow> same_ipc k k'"
  using rt_timer_stop_cases [of "Thread_timer t" k r k'] timer_stop_same_ipc by auto

section \<open>Invariant\<close>

text \<open>A linked timer is a timer object, is marked active and is on the list its flags ask for.\<close>

definition timer_list_of :: "handle \<Rightarrow> kernel \<Rightarrow> timer_list" where
  "timer_list_of h k = (if timer_flag RT_TIMER_FLAG_SOFT_TIMER h k then Soft_timers else Hard_timers)"

definition timer_inv :: "kernel \<Rightarrow> bool" where
  "timer_inv k \<longleftrightarrow> ls_wf (timer_lists k)
     \<and> (\<forall>h q. home (timer_lists k) h = Some q \<longrightarrow> rt_object_get_type h k = RT_Object_Class_Timer
          \<and> timer_flag RT_TIMER_FLAG_ACTIVATED h k \<and> q = timer_list_of h k)"

lemma timer_inv_cong: "timer_lists k' = timer_lists k \<Longrightarrow> objects k' = objects k \<Longrightarrow> timer_inv k' = timer_inv k"
  by (simp add: timer_inv_def timer_list_of_def timer_flag_def rt_object_get_type_def)

lemma timer_inv_stop:
  assumes "timer_inv k"
  shows "timer_inv (clear_flag f h (timer_remove h k))"
  using assms by (auto simp: timer_inv_def ls_remove_wf timer_list_of_def timer_flag_def clear_flag_def
      timer_remove_def upd_object_def rt_object_get_type_def split: if_splits)

lemma rt_timer_stop_inv: "timer_inv k \<Longrightarrow> rt_timer_stop h k = Some (r, k') \<Longrightarrow> timer_inv k'"
  by (auto simp: rt_timer_stop_def bind_ASSERT timer_inv_stop split: if_splits)

text \<open>A timer that is not active is not linked, so the early return of \<^verbatim>\<open>rt_timer_stop\<close> is safe.\<close>

lemma rt_timer_stop_unlinks:
  assumes "timer_inv k" and "rt_timer_stop h k = Some (r, k')"
  shows "home (timer_lists k') h = None \<and> \<not> timer_flag RT_TIMER_FLAG_ACTIVATED h k'"
proof (cases "timer_flag RT_TIMER_FLAG_ACTIVATED h k")
  case True
  then have k': "k' = clear_flag RT_TIMER_FLAG_ACTIVATED h (timer_remove h k)"
    using assms(2) by (simp add: rt_timer_stop_def bind_ASSERT split: if_splits)
  have "(obj_flag (objects k h) AND NOT RT_TIMER_FLAG_ACTIVATED) AND RT_TIMER_FLAG_ACTIVATED = 0"
    by (rule bit_eqI) (auto simp: bit_simps)
  then show ?thesis by (simp add: k' timer_flag_def clear_flag_def upd_object_def)
next
  case False
  then have "k' = k" using assms(2) by (simp add: rt_timer_stop_def bind_ASSERT split: if_splits)
  moreover have "home (timer_lists k) h = None"
    using assms(1) False unfolding timer_inv_def by (cases "home (timer_lists k) h") blast+
  ultimately show ?thesis using False by simp
qed

text \<open>What stopping the timer of a thread does to the timers: this one is off its list, nothing else changes.\<close>

definition timer_off :: "tid \<Rightarrow> kernel \<Rightarrow> kernel \<Rightarrow> bool" where
  "timer_off t k k' \<longleftrightarrow> home (timer_lists k') = (home (timer_lists k))(Thread_timer t := None)
     \<and> (\<forall>q. on_timers k' q = filter (\<lambda>g. g \<noteq> Thread_timer t) (on_timers k q)) \<and> timers k' = timers k
     \<and> (\<forall>g. g \<noteq> Thread_timer t \<longrightarrow> objects k' g = objects k g)
     \<and> (\<forall>g. timer_flag RT_TIMER_FLAG_SOFT_TIMER g k' = timer_flag RT_TIMER_FLAG_SOFT_TIMER g k)
     \<and> (\<forall>g. timer_flag RT_TIMER_FLAG_PERIODIC g k' = timer_flag RT_TIMER_FLAG_PERIODIC g k)"

lemma rt_timer_stop_off:
  assumes inv: "timer_inv k" and stop: "rt_timer_stop (Thread_timer t) k = Some (r, k')"
  shows "timer_off t k k'"
  using rt_timer_stop_cases [OF stop]
proof
  assume "k' = k"
  moreover have n: "home (timer_lists k) (Thread_timer t) = None"
    using rt_timer_stop_unlinks [OF inv stop] \<open>k' = k\<close> by simp
  moreover have "filter (\<lambda>g. g \<noteq> Thread_timer t) (on_timers k q) = on_timers k q" for q
    using n inv by (simp add: timer_inv_def on_timers_def ls_wf_mem filter_id_conv) (metis ls_wf_mem option.distinct(1))
  ultimately show ?thesis by (simp add: timer_off_def fun_upd_idem)
next
  assume k': "k' = clear_flag RT_TIMER_FLAG_ACTIVATED (Thread_timer t) (timer_remove (Thread_timer t) k)"
  have "ls_wf (timer_lists k)" using inv by (simp add: timer_inv_def)
  then show ?thesis
    by (simp add: timer_off_def k' on_timers_def ls_remove_on_list)
      (simp add: timer_flag_def clear_flag_def upd_object_def timer_remove_def flag_other_set)
qed

lemma timer_off_cong:
  assumes "timer_off t k1 k2" and "timer_lists k1 = timer_lists k" "timers k1 = timers k" "objects k1 = objects k"
    and "timer_lists k' = timer_lists k2" "timers k' = timers k2" "objects k' = objects k2"
  shows "timer_off t k k'"
  using assms by (simp add: timer_off_def on_timers_def timer_flag_def)

end
