(* ===== verification/RT_Thread.thy ===== *)
theory RT_Thread
  imports RT_Timer
begin

text \<open>
  The operations of \<^verbatim>\<open>kernel/src/thread.c\<close> that move a thread between the states ready and
  suspended, change its priority or let it give way, with their effect on the ready lists.
\<close>

section \<open>The code\<close>

definition rt_thread_self :: "kernel \<Rightarrow> tid option" where
  "rt_thread_self k = rt_current_thread k"

text \<open>The error number of the running thread, or the global one in an interrupt and before there is a thread.\<close>

definition rt_get_errno :: "kernel \<Rightarrow> rt_err_t" where
  "rt_get_errno k =
     (if rt_interrupt_get_nest k \<noteq> 0 then rt_errno k
      else case rt_thread_self k of None \<Rightarrow> rt_errno k | Some t \<Rightarrow> th_error (threads k t))"

definition rt_set_errno :: "rt_err_t \<Rightarrow> kernel \<Rightarrow> kernel" where
  "rt_set_errno e k =
     (if rt_interrupt_get_nest k \<noteq> 0 then k\<lparr>rt_errno := e\<rparr>
      else case rt_thread_self k of None \<Rightarrow> k\<lparr>rt_errno := e\<rparr> | Some t \<Rightarrow> upd_thread t (\<lambda>th. th\<lparr>th_error := e\<rparr>) k)"

definition rt_thread_suspend :: "tid \<Rightarrow> kernel \<Rightarrow> (rt_err_t \<times> kernel) option" where
  "rt_thread_suspend t k =
     do { RT_ASSERT (rt_object_get_type (Obj t) k = RT_Object_Class_Thread);
          let stat = stat_of k t;
          if stat \<noteq> RT_THREAD_READY \<and> stat \<noteq> RT_THREAD_RUNNING then Some (-RT_ERROR, k)
          else do {
            RT_ASSERT (stat = RT_THREAD_RUNNING \<longrightarrow> rt_thread_self k = Some t);
            let k = rt_schedule_remove_thread t k;
            let k = upd_thread t (set_stat RT_THREAD_SUSPEND) k;
            (_, k) \<leftarrow> rt_timer_stop (Thread_timer t) k;
            Some (RT_EOK, k) } }"

definition rt_thread_resume :: "tid \<Rightarrow> kernel \<Rightarrow> (rt_err_t \<times> kernel) option" where
  "rt_thread_resume t k =
     do { RT_ASSERT (rt_object_get_type (Obj t) k = RT_Object_Class_Thread);
          if stat_of k t \<noteq> RT_THREAD_SUSPEND then Some (-RT_ERROR, k)
          else do {
            let k = tlist_remove t k;
            (_, k) \<leftarrow> rt_timer_stop (Thread_timer t) k;
            k \<leftarrow> rt_schedule_insert_thread t k;
            Some (RT_EOK, k) } }"

definition rt_thread_timeout :: "tid \<Rightarrow> kernel \<Rightarrow> kernel option" where
  "rt_thread_timeout t k =
     do { RT_ASSERT (stat_of k t = RT_THREAD_SUSPEND);
          RT_ASSERT (rt_object_get_type (Obj t) k = RT_Object_Class_Thread);
          let k = upd_thread t (\<lambda>th. th\<lparr>th_error := RT_ETIMEOUT\<rparr>) k;
          k \<leftarrow> rt_schedule_insert_thread t (tlist_remove t k);
          rt_schedule k }"

text \<open>
  \<^verbatim>\<open>thread->tlist.next != thread->tlist.prev\<close> says that the node shares its list with another
  one (\<open>tlist_not_alone_iff\<close> below).
\<close>

definition tlist_not_alone :: "tid \<Rightarrow> kernel \<Rightarrow> bool" where
  "tlist_not_alone t k \<longleftrightarrow> (case home (tlists k) t of None \<Rightarrow> False | Some q \<Rightarrow> 2 \<le> length (on_tlist k q))"

definition rt_thread_yield :: "kernel \<Rightarrow> (rt_err_t \<times> kernel) option" where
  "rt_thread_yield k =
     do { t \<leftarrow> rt_current_thread k;
          if stat_of k t = RT_THREAD_READY \<and> tlist_not_alone t k then
            do { k \<leftarrow> tlist_append (Ready (prio_of k t)) t (tlist_remove t k);
                 k \<leftarrow> rt_schedule k;
                 Some (RT_EOK, k) }
          else Some (RT_EOK, k) }"

definition set_priority :: "rt_uint8_t \<Rightarrow> rt_thread \<Rightarrow> rt_thread" where
  "set_priority p th = th\<lparr>th_current_priority := p, th_number := drop_bit 3 p,
     th_number_mask := one_shl (unat (drop_bit 3 p)), th_high_mask := one_shl (unat (p AND 7))\<rparr>"

text \<open>\<^verbatim>\<open>rt_thread_control\<close> with \<^verbatim>\<open>RT_THREAD_CTRL_CHANGE_PRIORITY\<close>\<close>

definition rt_thread_change_priority :: "tid \<Rightarrow> rt_uint8_t \<Rightarrow> kernel \<Rightarrow> (rt_err_t \<times> kernel) option" where
  "rt_thread_change_priority t p k =
     do { RT_ASSERT (rt_object_get_type (Obj t) k = RT_Object_Class_Thread);
          if stat_of k t = RT_THREAD_READY then
            do { k \<leftarrow> rt_schedule_insert_thread t (upd_thread t (set_priority p) (rt_schedule_remove_thread t k));
                 Some (RT_EOK, k) }
          else Some (RT_EOK, upd_thread t (set_priority p) k) }"

lemma tlist_not_alone_iff:
  "list_rel h (tlists k) \<Longrightarrow> tlist_not_alone t k \<longleftrightarrow> next_of h (Node t) \<noteq> prev_of h (Node t)"
  unfolding tlist_not_alone_def on_tlist_def by (simp add: list_rel_neighbours)

section \<open>Invariants\<close>

definition kernel_inv :: "kernel \<Rightarrow> bool" where
  "kernel_inv k \<longleftrightarrow> sched_inv k \<and> timer_inv k"

text \<open>A thread object whose timer is a timer object.\<close>

definition is_thread :: "kernel \<Rightarrow> tid \<Rightarrow> bool" where
  "is_thread k t \<longleftrightarrow> rt_object_get_type (Obj t) k = RT_Object_Class_Thread
     \<and> rt_object_get_type (Thread_timer t) k = RT_Object_Class_Timer"

lemma is_thread_same_ipc: "same_ipc k k' \<Longrightarrow> is_thread k' t = is_thread k t"
  by (simp add: is_thread_def same_ipc_type)

lemma attr_ok_of_state:
  "sched_inv k \<Longrightarrow> stat_of k t = RT_THREAD_READY \<or> stat_of k t = RT_THREAD_SUSPEND \<Longrightarrow> attr_ok (threads k t)"
  using sched_invD(3) [of k t] by (auto simp: thread_ok_def Let_def split: if_splits)

lemma set_priority_attr [simp]: "attr_ok (set_priority p th)"
  by (simp add: attr_ok_def set_priority_def unat_shift_3 unat_and_7)

lemma set_priority_stat [simp]: "th_stat (set_priority p th) = th_stat th"
  by (simp add: set_priority_def)

lemma sched_part_frames [simp]:
  "timer_lists (rt_schedule_remove_thread t k) = timer_lists k" "objects (rt_schedule_remove_thread t k) = objects k"
  "timers (rt_schedule_remove_thread t k) = timers k"
  "rt_current_thread (rt_schedule_remove_thread t k) = rt_current_thread k"
  "timer_lists (tlist_remove t k) = timer_lists k" "objects (tlist_remove t k) = objects k"
  "timers (tlist_remove t k) = timers k" "rt_current_thread (tlist_remove t k) = rt_current_thread k"
  "rt_object_get_type h (tlist_remove t k) = rt_object_get_type h k"
  "rt_object_get_type h (upd_thread u f k) = rt_object_get_type h k"
  "rt_object_get_type h (rt_schedule_remove_thread t k) = rt_object_get_type h k"
  "stat_of (tlist_remove t k) = stat_of k"
  by (simp_all add: rt_schedule_remove_thread_def tlist_remove_def Let_def rt_object_get_type_def stat_of_def fun_eq_iff)

lemma same_ipc_sched [simp]:
  "same_ipc k (rt_schedule_remove_thread t k)" "same_ipc k (tlist_remove t k)" "same_ipc k (upd_thread t f k)"
  by (simp_all add: same_ipc_def rt_schedule_remove_thread_def tlist_remove_def upd_thread_def Let_def)

lemma same_ipc_insert: "rt_schedule_insert_thread t k = Some k' \<Longrightarrow> same_ipc k k'"
proof -
  assume ins: "rt_schedule_insert_thread t k = Some k'"
  then have h: "home (tlists k) t = None"
    by (auto simp: rt_schedule_insert_thread_def tlist_append_Some bind_Some_iff Let_def)
  show "same_ipc k k'" using insert_thread_eq [OF h, unfolded ins option.inject] by (simp add: same_ipc_def)
qed

lemma same_ipc_schedule: "rt_schedule k = Some k' \<Longrightarrow> same_ipc k k'"
  using rt_schedule_view [of k k'] by (simp add: same_ipc_def)

section \<open>Suspending\<close>

text \<open>The two halves of a suspension: off the ready list, and the timer stopped.\<close>

lemma suspend_ready:
  assumes inv: "kernel_inv k" and th: "is_thread k t" and st: "stat_of k t = RT_THREAD_READY"
  shows "\<exists>k'. rt_thread_suspend t k = Some (RT_EOK, k') \<and> kernel_inv k' \<and> same_ipc k k'
    \<and> threads k' = (threads k)(t := set_stat RT_THREAD_SUSPEND (threads k t)) \<and> tlists k' = ls_remove t (tlists k)
    \<and> rt_current_thread k' = rt_current_thread k \<and> timers k' = timers k
    \<and> home (timer_lists k') (Thread_timer t) = None \<and> \<not> timer_flag RT_TIMER_FLAG_ACTIVATED (Thread_timer t) k'
    \<and> timer_off t k k'"
proof -
  have s: "sched_inv k" and tm: "timer_inv k" using inv by (simp_all add: kernel_inv_def)
  define k1 where "k1 = upd_thread t (set_stat RT_THREAD_SUSPEND) (rt_schedule_remove_thread t k)"
  have attr: "attr_ok (threads k t)" using attr_ok_of_state [OF s] st by simp
  have s1: "sched_inv k1" unfolding k1_def
    using remove_thread_free [OF s attr] attr by (intro suspend_free) (simp_all add: remove_thread_frame)
  have tm1: "timer_inv k1" using tm timer_inv_cong [of k1 k] by (simp add: k1_def)
  have ty: "rt_object_get_type (Thread_timer t) k1 = RT_Object_Class_Timer"
    using th by (simp add: k1_def is_thread_def)
  obtain r k2 where stop: "rt_timer_stop (Thread_timer t) k1 = Some (r, k2)" using rt_timer_stop_Some [OF ty] by blast
  note f = rt_timer_stop_frame [OF stop]
  have "rt_thread_suspend t k = Some (RT_EOK, k2)"
    using th st stop by (simp add: rt_thread_suspend_def is_thread_def k1_def)
  moreover have "kernel_inv k2"
    using sched_view_inv [OF f(1)] s1 rt_timer_stop_inv [OF tm1 stop] by (simp add: kernel_inv_def)
  moreover have "same_ipc k k2"
    using rt_timer_stop_same_ipc [OF stop] by (metis k1_def same_ipc_sched(1,3) same_ipc_trans)
  moreover have "threads k2 = (threads k)(t := set_stat RT_THREAD_SUSPEND (threads k t))"
    "tlists k2 = ls_remove t (tlists k)" "rt_current_thread k2 = rt_current_thread k" "timers k2 = timers k"
    using f by (simp_all add: k1_def remove_thread_frame)
  moreover have "home (timer_lists k2) (Thread_timer t) = None \<and> \<not> timer_flag RT_TIMER_FLAG_ACTIVATED (Thread_timer t) k2"
    using tm1 stop by (rule rt_timer_stop_unlinks)
  moreover have "timer_off t k k2"
    using rt_timer_stop_off [OF tm1 stop] by (rule timer_off_cong) (simp_all add: k1_def)
  ultimately show ?thesis by blast
qed

lemma suspend_not_ready:
  assumes "is_thread k t" and "stat_of k t \<noteq> RT_THREAD_READY" and "stat_of k t \<noteq> RT_THREAD_RUNNING"
  shows "rt_thread_suspend t k = Some (-RT_ERROR, k)"
  using assms by (simp add: rt_thread_suspend_def is_thread_def)

section \<open>Resuming\<close>

lemma resume_suspended:
  assumes inv: "kernel_inv k" and th: "is_thread k t" and st: "stat_of k t = RT_THREAD_SUSPEND"
  shows "\<exists>k'. rt_thread_resume t k = Some (RT_EOK, k') \<and> kernel_inv k' \<and> same_ipc k k'
    \<and> threads k' = (threads k)(t := set_stat RT_THREAD_READY (threads k t))
    \<and> (\<forall>q. on_tlist k' q = filter (\<lambda>u. u \<noteq> t) (on_tlist k q) @ (if q = Ready (prio_of k t) then [t] else []))
    \<and> rt_current_thread k' = rt_current_thread k \<and> timers k' = timers k
    \<and> home (timer_lists k') (Thread_timer t) = None \<and> timer_off t k k'"
proof -
  have s: "sched_inv k" and tm: "timer_inv k" using inv by (simp_all add: kernel_inv_def)
  define k1 where "k1 = tlist_remove t k"
  have fr: "sched_free t k1" unfolding k1_def using s st by (intro tlist_remove_free) simp_all
  have tm1: "timer_inv k1" using tm timer_inv_cong [of k1 k] by (simp add: k1_def)
  have ty: "rt_object_get_type (Thread_timer t) k1 = RT_Object_Class_Timer"
    using th by (simp add: k1_def is_thread_def)
  obtain r k2 where stop: "rt_timer_stop (Thread_timer t) k1 = Some (r, k2)" using rt_timer_stop_Some [OF ty] by blast
  note f = rt_timer_stop_frame [OF stop]
  have fr2: "sched_free t k2" using sched_view_free [OF f(1)] fr by simp
  then have h: "home (tlists k2) t = None" by (simp add: sched_free_def)
  then obtain k3 where ins: "rt_schedule_insert_thread t k2 = Some k3" using insert_thread_eq by blast
  note g = insert_thread_frame [OF ins]
  have attr: "attr_ok (threads k2 t)" using attr_ok_of_state [OF s] st f by (simp add: k1_def)
  have "rt_thread_resume t k = Some (RT_EOK, k3)"
    using th st stop ins by (simp add: rt_thread_resume_def is_thread_def k1_def)
  moreover have "kernel_inv k3"
    using insert_thread_inv [OF fr2 attr ins] rt_timer_stop_inv [OF tm1 stop] timer_inv_cong [of k3 k2] g
    by (simp add: kernel_inv_def)
  moreover have "same_ipc k k3"
    using rt_timer_stop_same_ipc [OF stop] same_ipc_insert [OF ins]
    by (metis k1_def same_ipc_sched(2) same_ipc_trans)
  moreover have "on_tlist k3 q = filter (\<lambda>u. u \<noteq> t) (on_tlist k q) @ (if q = Ready (prio_of k t) then [t] else [])" for q
    using g(8) f sched_invD(1) [OF s] by (simp add: on_tlist_def k1_def ls_remove_on_list prio_of_def)
  moreover have "threads k3 = (threads k)(t := set_stat RT_THREAD_READY (threads k t))"
    "rt_current_thread k3 = rt_current_thread k" "timers k3 = timers k"
    using g f by (simp_all add: k1_def)
  moreover have "home (timer_lists k3) (Thread_timer t) = None"
    using rt_timer_stop_unlinks [OF tm1 stop] g by simp
  moreover have "timer_off t k k3"
    using rt_timer_stop_off [OF tm1 stop] by (rule timer_off_cong) (simp_all add: k1_def g)
  ultimately show ?thesis by blast
qed

lemma resume_not_suspended:
  assumes "is_thread k t" and "stat_of k t \<noteq> RT_THREAD_SUSPEND"
  shows "rt_thread_resume t k = Some (-RT_ERROR, k)"
  using assms by (simp add: rt_thread_resume_def is_thread_def)

section \<open>Running the scheduler\<close>

text \<open>The stacks of all threads that can run or will run again are intact.\<close>

definition stack_inv :: "kernel \<Rightarrow> bool" where
  "stack_inv k \<longleftrightarrow> (\<forall>t. stat_of k t = RT_THREAD_READY \<or> stat_of k t = RT_THREAD_SUSPEND \<longrightarrow>
     rt_scheduler_stack_check t k = Some ())"

lemma schedule_total:
  assumes "sched_inv k" and "stat_of k u = RT_THREAD_READY" and "stack_inv k" and "rt_current_thread k \<noteq> None"
  shows "\<exists>k'. rt_schedule k = Some k'"
proof (cases "rt_scheduler_lock_nest k = 0")
  case True
  have "stacks_ok k" using assms(3) by (simp add: stack_inv_def stacks_ok_def)
  with rt_schedule_first_ready [OF assms(1,2) _ assms(4) True] show ?thesis by blast
qed (simp add: rt_schedule_def)

lemma schedule_kernel_inv: "rt_schedule k = Some k' \<Longrightarrow> kernel_inv k \<Longrightarrow> kernel_inv k'"
  using rt_schedule_inv [of k k'] rt_schedule_view [of k k'] timer_inv_cong [of k' k] by (simp add: kernel_inv_def)

lemma stack_inv_upd:
  assumes "stack_inv k" and "threads k' = (threads k)(t := f (threads k t))"
    and "stat_of k t = RT_THREAD_READY \<or> stat_of k t = RT_THREAD_SUSPEND"
    and "th_stack_guard (f (threads k t)) = th_stack_guard (threads k t)" "th_sp (f (threads k t)) = th_sp (threads k t)"
      "th_stack_addr (f (threads k t)) = th_stack_addr (threads k t)"
      "th_stack_size (f (threads k t)) = th_stack_size (threads k t)"
  shows "stack_inv k'"
proof -
  have "rt_scheduler_stack_check t k = Some ()" using assms(1,3) unfolding stack_inv_def by blast
  then have "rt_scheduler_stack_check t k' = Some ()"
    using assms(2,4-) by (simp add: rt_scheduler_stack_check_def Let_def)
  moreover have "rt_scheduler_stack_check u k' = rt_scheduler_stack_check u k" "stat_of k' u = stat_of k u" if "u \<noteq> t" for u
    using assms(2) that by (simp_all add: rt_scheduler_stack_check_def stat_of_def)
  ultimately show ?thesis using assms(1) unfolding stack_inv_def by metis
qed

lemma set_stat_stack [simp]:
  "th_stack_guard (set_stat s th) = th_stack_guard th" "th_sp (set_stat s th) = th_sp th"
  "th_stack_addr (set_stat s th) = th_stack_addr th" "th_stack_size (set_stat s th) = th_stack_size th"
  by (simp_all add: set_stat_def)

lemma stat_after:
  assumes "threads k' = (threads k)(t := set_stat s (threads k t))" and "s AND RT_THREAD_STAT_MASK = s"
  shows "stat_of k' t = s" "u \<noteq> t \<Longrightarrow> stat_of k' u = stat_of k u" "prio_of k' v = prio_of k v"
  using assms by (simp_all add: stat_of_def prio_of_def set_stat_masked)

section \<open>Timeout, priority change and yield\<close>

text \<open>Putting a suspended thread back on its ready list, after an update that keeps state and priority.\<close>

lemma wake_suspended:
  assumes inv: "kernel_inv k" and st: "stat_of k t = RT_THREAD_SUSPEND"
    and f: "th_stat (f (threads k t)) = th_stat (threads k t)" "attr_ok (f (threads k t))"
  shows "\<exists>k'. rt_schedule_insert_thread t (tlist_remove t (upd_thread t f k)) = Some k' \<and> kernel_inv k' \<and> same_ipc k k'
    \<and> threads k' = (threads k)(t := set_stat RT_THREAD_READY (f (threads k t)))
    \<and> (\<forall>q. on_tlist k' q = filter (\<lambda>u. u \<noteq> t) (on_tlist k q)
         @ (if q = Ready (th_current_priority (f (threads k t))) then [t] else []))
    \<and> rt_current_thread k' = rt_current_thread k \<and> timers k' = timers k \<and> timer_lists k' = timer_lists k
    \<and> objects k' = objects k"
proof -
  have s: "sched_inv k" and tm: "timer_inv k" using inv by (simp_all add: kernel_inv_def)
  let ?k1 = "tlist_remove t (upd_thread t f k)"
  have eq: "?k1 = upd_thread t f (tlist_remove t k)" by (simp add: upd_thread_def tlist_remove_def)
  have fr: "sched_free t ?k1" unfolding eq using s st by (simp add: tlist_remove_free)
  then have h: "home (tlists ?k1) t = None" by simp
  then obtain k2 where ins: "rt_schedule_insert_thread t ?k1 = Some k2" using insert_thread_eq by blast
  note g = insert_thread_frame [OF ins]
  have "sched_inv k2" using fr _ ins by (rule insert_thread_inv) (simp add: f)
  moreover have "timer_inv k2" using tm timer_inv_cong [of k2 k] g by simp
  moreover have "same_ipc k k2"
    using same_ipc_insert [OF ins] by (metis same_ipc_sched(2,3) same_ipc_trans)
  moreover have "on_tlist k2 q = filter (\<lambda>u. u \<noteq> t) (on_tlist k q)
      @ (if q = Ready (th_current_priority (f (threads k t))) then [t] else [])" for q
    using g(8) sched_invD(1) [OF s] by (simp add: on_tlist_def ls_remove_on_list prio_of_def)
  ultimately show ?thesis using ins g by (simp add: kernel_inv_def)
qed

text \<open>If the processor went to another thread, that thread is ready.\<close>

definition cur_moves :: "kernel \<Rightarrow> kernel \<Rightarrow> bool" where
  "cur_moves k k' \<longleftrightarrow> (\<forall>v. rt_current_thread k' = Some v \<longrightarrow> rt_current_thread k = Some v \<or> stat_of k' v = RT_THREAD_READY)"

lemma cur_ready_moves:
  assumes "cur_moves k k'" and "rt_current_thread k = Some t" and "rt_current_thread k' = Some v"
  shows "v = t \<or> stat_of k' v = RT_THREAD_READY"
  using assms by (auto simp: cur_moves_def)

lemma schedule_cur_moves:
  assumes inv: "sched_inv k" and st: "stat_of k t = RT_THREAD_READY" and sc: "rt_schedule k = Some k'"
  shows "cur_moves k k'"
proof (cases "rt_scheduler_lock_nest k = 0")
  case True
  obtain v where "rt_current_thread k' = Some v" "first_ready k' v" using rt_schedule_picks [OF inv sc True st] by blast
  then show ?thesis by (simp add: cur_moves_def first_ready_def)
next
  case False
  then show ?thesis using sc by (simp add: rt_schedule_def cur_moves_def)
qed

lemma timeout_wakes:
  assumes inv: "kernel_inv k" and th: "is_thread k t" and st: "stat_of k t = RT_THREAD_SUSPEND"
    and sk: "stack_inv k" and cur: "rt_current_thread k \<noteq> None"
  shows "\<exists>k'. rt_thread_timeout t k = Some k' \<and> kernel_inv k' \<and> stat_of k' t = RT_THREAD_READY
    \<and> th_error (threads k' t) = RT_ETIMEOUT \<and> last (on_tlist k' (Ready (prio_of k t))) = t \<and> same_ipc k k'
    \<and> timers k' = timers k \<and> timer_lists k' = timer_lists k \<and> objects k' = objects k
    \<and> rt_current_thread k' \<noteq> None \<and> stack_inv k' \<and> (\<forall>u. u \<noteq> t \<longrightarrow> threads k' u = threads k u)
    \<and> (\<forall>q. is_wait_list q \<longrightarrow> on_tlist k' q = filter (\<lambda>u. u \<noteq> t) (on_tlist k q)) \<and> cur_moves k k'"
proof -
  let ?f = "\<lambda>th. th\<lparr>th_error := RT_ETIMEOUT\<rparr>"
  have attr: "attr_ok (?f (threads k t))"
    using attr_ok_of_state [of k t] inv st attr_ok_cong [of "?f (threads k t)" "threads k t"] by (simp add: kernel_inv_def)
  obtain k1 where ins: "rt_schedule_insert_thread t (tlist_remove t (upd_thread t ?f k)) = Some k1"
    and k1: "kernel_inv k1" "same_ipc k k1" "threads k1 = (threads k)(t := set_stat RT_THREAD_READY (?f (threads k t)))"
      "on_tlist k1 (Ready (prio_of k t)) = filter (\<lambda>u. u \<noteq> t) (on_tlist k (Ready (prio_of k t))) @ [t]"
      "rt_current_thread k1 = rt_current_thread k" "timers k1 = timers k" "timer_lists k1 = timer_lists k"
      "objects k1 = objects k" "\<forall>q. is_wait_list q \<longrightarrow> on_tlist k1 q = filter (\<lambda>u. u \<noteq> t) (on_tlist k q)"
    using wake_suspended [OF inv st, of ?f] attr by (auto simp: prio_of_def)
  have st1: "stat_of k1 t = RT_THREAD_READY" using k1(3) by (simp add: stat_of_def set_stat_masked)
  have sk1: "stack_inv k1"
    using sk k1(3) by (rule stack_inv_upd [where t = t and f = "\<lambda>th. set_stat RT_THREAD_READY (?f th)"]) (simp_all add: st)
  obtain k2 where sc: "rt_schedule k1 = Some k2"
    using schedule_total [of k1 t] k1 st1 sk1 cur by (auto simp: kernel_inv_def)
  note v = rt_schedule_view [OF sc]
  have "rt_thread_timeout t k = Some k2"
    using st th ins sc by (simp add: rt_thread_timeout_def is_thread_def)
  moreover have "stack_inv k2" "stat_of k2 t = RT_THREAD_READY"
    using sk1 st1 v by (simp_all add: stack_inv_def stat_of_def rt_scheduler_stack_check_def)
  moreover have "rt_current_thread k2 \<noteq> None"
  proof (cases "rt_scheduler_lock_nest k1 = 0")
    case True
    then show ?thesis using rt_schedule_picks [of k1 k2 t] k1(1) sc st1 by (auto simp: kernel_inv_def)
  next
    case False
    then show ?thesis using sc cur k1(5) by (auto simp: rt_schedule_def)
  qed
  moreover have "same_ipc k k2" using k1(2) same_ipc_schedule [OF sc] by (rule same_ipc_trans)
  moreover have "cur_moves k k2"
    using schedule_cur_moves [OF _ st1 sc] k1(1,5) by (simp add: kernel_inv_def cur_moves_def)
  ultimately show ?thesis
    using schedule_kernel_inv [OF sc k1(1)] k1 v by simp
qed

lemma change_priority_effect:
  assumes inv: "kernel_inv k" and th: "is_thread k t"
    and st: "stat_of k t = RT_THREAD_READY \<or> stat_of k t = RT_THREAD_SUSPEND"
  shows "\<exists>k'. rt_thread_change_priority t p k = Some (RT_EOK, k') \<and> kernel_inv k' \<and> same_ipc k k'
    \<and> prio_of k' t = p \<and> stat_of k' t = stat_of k t \<and> (\<forall>u. u \<noteq> t \<longrightarrow> threads k' u = threads k u)
    \<and> th_error (threads k' t) = th_error (threads k t) \<and> rt_current_thread k' = rt_current_thread k
    \<and> (\<forall>q. is_wait_list q \<longrightarrow> on_tlist k' q = on_tlist k q) \<and> timer_lists k' = timer_lists k
    \<and> objects k' = objects k \<and> (stack_inv k \<longrightarrow> stack_inv k') \<and> home (tlists k') t = (if stat_of k t = RT_THREAD_READY then Some (Ready p) else home (tlists k) t)
    \<and> timers k' = timers k"
proof (cases "stat_of k t = RT_THREAD_READY")
  case True
  have s: "sched_inv k" and tm: "timer_inv k" using inv by (simp_all add: kernel_inv_def)
  let ?k1 = "upd_thread t (set_priority p) (rt_schedule_remove_thread t k)"
  have attr: "attr_ok (threads k t)" using attr_ok_of_state [OF s st] .
  have fr: "sched_free t ?k1" using remove_thread_free [OF s attr] by simp
  then have h: "home (tlists ?k1) t = None" by (simp add: sched_free_def)
  then obtain k2 where ins: "rt_schedule_insert_thread t ?k1 = Some k2" using insert_thread_eq by blast
  note g = insert_thread_frame [OF ins]
  have th2: "threads k2 = (threads k)(t := set_stat RT_THREAD_READY (set_priority p (threads k t)))"
    using g by (simp add: remove_thread_frame)
  have "rt_thread_change_priority t p k = Some (RT_EOK, k2)"
    using True th ins by (simp add: rt_thread_change_priority_def is_thread_def)
  moreover have "sched_inv k2" using fr _ ins by (rule insert_thread_inv) simp
  moreover have "timer_inv k2" using tm timer_inv_cong [of k2 k] g by simp
  moreover have "same_ipc k k2"
    using same_ipc_insert [OF ins] by (metis same_ipc_sched(1,3) same_ipc_trans)
  moreover have "on_tlist k2 q = on_tlist k q" if "is_wait_list q" for q
  proof -
    have "t \<notin> set (on_tlist k q)"
      using that True sched_invD(1) [OF s] sched_invD(3) [OF s, of t] by (auto simp: thread_ok_def on_tlist_def ls_wf_mem)
    then have "filter (\<lambda>u. u \<noteq> t) (on_tlist k q) = on_tlist k q" by (auto simp: filter_id_conv)
    with that g sched_invD(1) [OF s] show ?thesis
      by (auto simp: on_tlist_def remove_thread_frame ls_remove_on_list)
  qed
  moreover have "stack_inv k2" if "stack_inv k"
    using that th2 by (rule stack_inv_upd [where t = t and f = "\<lambda>th. set_stat RT_THREAD_READY (set_priority p th)"])
      (simp_all add: st set_priority_def)
  ultimately show ?thesis
    using g th2 True by (simp add: kernel_inv_def prio_of_def stat_of_def set_stat_masked set_priority_def
        remove_thread_frame)
next
  case False
  have s: "sched_inv k" and tm: "timer_inv k" using inv by (simp_all add: kernel_inv_def)
  let ?k = "upd_thread t (set_priority p) k"
  have "thread_ok ?k u" for u
    using sched_invD(3) [OF s, of u] False by (auto simp: thread_ok_def stat_of_def prio_of_def Let_def)
  then have "sched_inv ?k" using s by (simp add: sched_inv_def bitmap_ok_def)
  moreover have "timer_inv ?k" using tm timer_inv_cong [of ?k k] by simp
  moreover have "stack_inv ?k" if "stack_inv k"
    using that by (rule stack_inv_upd [where t = t and f = "set_priority p"]) (use st in \<open>simp_all add: set_priority_def\<close>)
  ultimately show ?thesis
    using False th by (simp add: rt_thread_change_priority_def is_thread_def kernel_inv_def prio_of_def stat_of_def)
      (simp add: set_priority_def)
qed

lemma rotate_inv:
  assumes s: "sched_inv k" and st: "stat_of k t = RT_THREAD_READY"
    and ap: "tlist_append (Ready (prio_of k t)) t (tlist_remove t k) = Some k'"
  shows "sched_inv k'" "threads k' = threads k" "home (tlists k') = home (tlists k)"
    "on_tlist k' (Ready (prio_of k t)) = filter (\<lambda>u. u \<noteq> t) (on_tlist k (Ready (prio_of k t))) @ [t]"
    "rt_current_thread k' = rt_current_thread k" "timer_lists k' = timer_lists k" "objects k' = objects k"
    "rt_scheduler_lock_nest k' = rt_scheduler_lock_nest k" "same_ipc k k'"
    "timers k' = timers k" "q' \<noteq> Ready (prio_of k t) \<Longrightarrow> on_tlist k' q' = on_tlist k q'"
proof -
  let ?q = "Ready (prio_of k t)"
  note wf = sched_invD(1) [OF s]
  have h: "home (tlists k) t = Some ?q"
    using sched_invD(3) [OF s, of t] st by (simp add: thread_ok_def Let_def)
  have k': "k' = k\<lparr>tlists := \<lparr>on_list = (on_list (ls_remove t (tlists k)))(?q := on_list (ls_remove t (tlists k)) ?q @ [t]),
      home = (home (tlists k))(t := Some ?q)\<rparr>\<rparr>"
    using ap by (simp add: tlist_append_Some on_tlist_def tlist_remove_def)
  show hm: "home (tlists k') = home (tlists k)" using h by (auto simp: k')
  show lst: "on_tlist k' ?q = filter (\<lambda>u. u \<noteq> t) (on_tlist k ?q) @ [t]"
    by (simp add: k' on_tlist_def ls_remove_on_list [OF wf])
  show th: "threads k' = threads k" "rt_current_thread k' = rt_current_thread k" "timer_lists k' = timer_lists k"
    "objects k' = objects k" "rt_scheduler_lock_nest k' = rt_scheduler_lock_nest k" "same_ipc k k'" "timers k' = timers k"
    by (simp_all add: k' same_ipc_def)
  show "on_tlist k' q' = on_tlist k q'" if "q' \<noteq> ?q" for q'
  proof -
    have "t \<notin> set (on_list (tlists k) q')" using that h wf by (simp add: ls_wf_mem)
    then have "filter (\<lambda>u. u \<noteq> t) (on_list (tlists k) q') = on_list (tlists k) q'" by (auto simp: filter_id_conv)
    then show ?thesis using that by (simp add: k' on_tlist_def ls_remove_on_list [OF wf])
  qed
  have "ls_append ?q t (ls_remove t (tlists k)) = Some (tlists k')"
    by (simp add: k' ls_append_Some)
  then have "ls_wf (tlists k')" using ls_append_wf [OF ls_remove_wf [OF wf]] by blast
  moreover have "thread_ok k' u" for u
    using sched_invD(3) [OF s, of u] thread_ok_cong [of k' u k] th hm by simp
  moreover have "on_tlist k' (Ready p) = [] \<longleftrightarrow> on_tlist k (Ready p) = []" for p
  proof (cases "p = prio_of k t")
    case True
    have "t \<in> set (on_tlist k ?q)" using h wf by (simp add: on_tlist_def ls_wf_mem)
    then show ?thesis using lst True by auto
  next
    case False
    then have "t \<notin> set (on_list (tlists k) (Ready p))" using h wf by (simp add: ls_wf_mem)
    then have "filter (\<lambda>u. u \<noteq> t) (on_list (tlists k) (Ready p)) = on_list (tlists k) (Ready p)"
      by (auto simp: filter_id_conv)
    then show ?thesis using False by (simp add: k' on_tlist_def ls_remove_on_list [OF wf])
  qed
  then have "bitmap_ok k'" using sched_invD(2) [OF s] by (simp add: bitmap_ok_def) (simp add: k')
  ultimately show "sched_inv k'" by (simp add: sched_inv_def)
qed

lemma yield_not_alone:
  assumes inv: "kernel_inv k" and cur: "rt_current_thread k = Some t" and st: "stat_of k t = RT_THREAD_READY"
    and alone: "tlist_not_alone t k" and sk: "stack_inv k"
  shows "\<exists>k'. rt_thread_yield k = Some (RT_EOK, k') \<and> kernel_inv k' \<and> threads k' = threads k \<and> same_ipc k k'
    \<and> on_tlist k' (Ready (prio_of k t)) = filter (\<lambda>u. u \<noteq> t) (on_tlist k (Ready (prio_of k t))) @ [t]
    \<and> (rt_scheduler_lock_nest k = 0 \<longrightarrow> (\<exists>u. rt_current_thread k' = Some u \<and> first_ready k' u))
    \<and> stack_inv k' \<and> rt_current_thread k' \<noteq> None \<and> timer_lists k' = timer_lists k \<and> objects k' = objects k
    \<and> timers k' = timers k \<and> (\<forall>q. q \<noteq> Ready (prio_of k t) \<longrightarrow> on_tlist k' q = on_tlist k q) \<and> cur_moves k k'"
proof -
  have s: "sched_inv k" and tm: "timer_inv k" using inv by (simp_all add: kernel_inv_def)
  obtain k1 where ap: "tlist_append (Ready (prio_of k t)) t (tlist_remove t k) = Some k1"
    by (simp add: tlist_append_def ls_append_def ls_insert_at_def)
  note r = rotate_inv [OF s st ap]
  have st1: "stat_of k1 t = RT_THREAD_READY" and sk1: "stack_inv k1"
    using r st sk by (simp_all add: stat_of_def stack_inv_def rt_scheduler_stack_check_def)
  obtain k2 where sc: "rt_schedule k1 = Some k2"
    using schedule_total [of k1 t] r(1,5) st1 sk1 cur by auto
  note v = rt_schedule_view [OF sc]
  have "rt_thread_yield k = Some (RT_EOK, k2)"
    using cur st alone ap sc by (simp add: rt_thread_yield_def)
  moreover have "kernel_inv k2"
    using r tm timer_inv_cong [of k1 k] schedule_kernel_inv [OF sc] by (simp add: kernel_inv_def)
  moreover have pick: "\<exists>u. rt_current_thread k2 = Some u \<and> first_ready k2 u" if "rt_scheduler_lock_nest k = 0"
    using rt_schedule_picks [OF r(1) sc _ st1] r(8) that by simp
  moreover have "rt_current_thread k2 \<noteq> None"
    using pick sc cur r(5,8) by (cases "rt_scheduler_lock_nest k = 0") (auto simp: rt_schedule_def)
  moreover have "stack_inv k2"
    using sk1 v by (simp add: stack_inv_def stat_of_def rt_scheduler_stack_check_def)
  moreover have "same_ipc k k2" using r(9) same_ipc_schedule [OF sc] by (rule same_ipc_trans)
  moreover have "cur_moves k k2" using schedule_cur_moves [OF r(1) st1 sc] r(5) by (simp add: cur_moves_def)
  ultimately show ?thesis using r v by simp
qed

lemma yield_alone:
  assumes "rt_current_thread k = Some t" and "\<not> (stat_of k t = RT_THREAD_READY \<and> tlist_not_alone t k)"
  shows "rt_thread_yield k = Some (RT_EOK, k)"
  using assms by (auto simp: rt_thread_yield_def)

section \<open>Properties\<close>

lemma sample_kernel_inv: "kernel_inv sample"
  using sample_inv sample_rest(2) by (simp add: kernel_inv_def timer_inv_def)

lemma sample_is_thread: "t < 4 \<Longrightarrow> is_thread sample t"
  by (simp add: is_thread_def rt_object_get_type_def sample_rest(3) sample_base_def rt_consts)

lemma sample_stack_inv: "stack_inv sample"
proof -
  have "t < 4" if "stat_of sample t = RT_THREAD_READY \<or> stat_of sample t = RT_THREAD_SUSPEND" for t
  proof (rule ccontr)
    assume "\<not> t < 4"
    then have "threads sample t = zero_thread"
      using sample_threads [of t] by (simp add: sample_base_def)
    with that show False by (auto simp: stat_of_def zero_thread_def rt_consts)
  qed
  moreover have "rt_scheduler_stack_check 0 sample = Some ()" "rt_scheduler_stack_check 1 sample = Some ()"
    "rt_scheduler_stack_check 2 sample = Some ()" "rt_scheduler_stack_check 3 sample = Some ()" by code_simp+
  moreover have "t = 0 \<or> t = 1 \<or> t = 2 \<or> t = 3" if "t < 4" for t :: nat using that by arith
  ultimately show ?thesis unfolding stack_inv_def by blast
qed

text \<open>Suspending a ready thread takes it off its ready list, marks it suspended and leaves every other
  thread alone; resuming it puts it behind the ready threads of its priority, wherever it waited, and stops
  its timer.  Both keep the invariants of bitmap, lists and timers, and a thread in the wrong state is refused
  with \<^verbatim>\<open>-RT_ERROR\<close> without any change.\<close>

theorem suspend_resume_thread:
  assumes "kernel_inv k" and "is_thread k t"
  shows "(stat_of k t = RT_THREAD_READY \<longrightarrow> (\<exists>k'. rt_thread_suspend t k = Some (RT_EOK, k') \<and> kernel_inv k'
      \<and> stat_of k' t = RT_THREAD_SUSPEND \<and> home (tlists k') t = None \<and> (\<forall>u. u \<noteq> t \<longrightarrow> threads k' u = threads k u)))
    \<and> (stat_of k t = RT_THREAD_SUSPEND \<longrightarrow> rt_thread_suspend t k = Some (-RT_ERROR, k)
        \<and> (\<exists>k'. rt_thread_resume t k = Some (RT_EOK, k') \<and> kernel_inv k' \<and> stat_of k' t = RT_THREAD_READY
          \<and> (\<forall>q. on_tlist k' q = filter (\<lambda>u. u \<noteq> t) (on_tlist k q) @ (if q = Ready (prio_of k t) then [t] else []))
          \<and> home (timer_lists k') (Thread_timer t) = None \<and> (\<forall>u. u \<noteq> t \<longrightarrow> threads k' u = threads k u)))
    \<and> (stat_of k t = RT_THREAD_READY \<longrightarrow> rt_thread_resume t k = Some (-RT_ERROR, k))"
proof (intro conjI impI)
  assume st: "stat_of k t = RT_THREAD_READY"
  from suspend_ready [OF assms st] stat_after(1) show "\<exists>k'. rt_thread_suspend t k = Some (RT_EOK, k') \<and> kernel_inv k'
      \<and> stat_of k' t = RT_THREAD_SUSPEND \<and> home (tlists k') t = None \<and> (\<forall>u. u \<noteq> t \<longrightarrow> threads k' u = threads k u)"
    by (fastforce simp: stat_of_def set_stat_masked)
  show "rt_thread_resume t k = Some (-RT_ERROR, k)" using assms(2) st by (simp add: resume_not_suspended)
next
  assume st: "stat_of k t = RT_THREAD_SUSPEND"
  then show "rt_thread_suspend t k = Some (-RT_ERROR, k)" using assms(2) by (simp add: suspend_not_ready)
  obtain k' where k': "rt_thread_resume t k = Some (RT_EOK, k')" "kernel_inv k'"
    "threads k' = (threads k)(t := set_stat RT_THREAD_READY (threads k t))"
    "\<forall>q. on_tlist k' q = filter (\<lambda>u. u \<noteq> t) (on_tlist k q) @ (if q = Ready (prio_of k t) then [t] else [])"
    "home (timer_lists k') (Thread_timer t) = None"
    using resume_suspended [OF assms st] by blast
  have "stat_of k' t = RT_THREAD_READY" using k'(3) by (simp add: stat_of_def set_stat_masked)
  with k' show "\<exists>k'. rt_thread_resume t k = Some (RT_EOK, k') \<and> kernel_inv k' \<and> stat_of k' t = RT_THREAD_READY
      \<and> (\<forall>q. on_tlist k' q = filter (\<lambda>u. u \<noteq> t) (on_tlist k q) @ (if q = Ready (prio_of k t) then [t] else []))
      \<and> home (timer_lists k') (Thread_timer t) = None \<and> (\<forall>u. u \<noteq> t \<longrightarrow> threads k' u = threads k u)"
    by (intro exI [of _ k']) simp
qed

theorem suspend_resume_thread_witness:
  "(\<exists>k'. rt_thread_suspend 2 sample = Some (RT_EOK, k') \<and> stat_of k' 2 = RT_THREAD_SUSPEND)
   \<and> (\<exists>k'. rt_thread_resume 3 sample = Some (RT_EOK, k') \<and> stat_of k' 3 = RT_THREAD_READY)"
  using suspend_resume_thread [OF sample_kernel_inv sample_is_thread, of 2]
    suspend_resume_thread [OF sample_kernel_inv sample_is_thread, of 3] sample_facts by auto

text \<open>Changing the priority of a ready thread moves it to the end of the ready list of the new
  priority, of a suspended thread only its priority fields; in both cases the bitmap cell, the masks cached in
  the thread and the lists agree afterwards.\<close>

theorem change_priority_consistent:
  assumes "kernel_inv k" and "is_thread k t"
    and "stat_of k t = RT_THREAD_READY \<or> stat_of k t = RT_THREAD_SUSPEND"
  shows "\<exists>k'. rt_thread_change_priority t p k = Some (RT_EOK, k') \<and> kernel_inv k' \<and> prio_of k' t = p
    \<and> stat_of k' t = stat_of k t \<and> attr_ok (threads k' t)
    \<and> home (tlists k') t = (if stat_of k t = RT_THREAD_READY then Some (Ready p) else home (tlists k) t)
    \<and> (\<forall>u. u \<noteq> t \<longrightarrow> threads k' u = threads k u)"
proof -
  obtain k' where k': "rt_thread_change_priority t p k = Some (RT_EOK, k')" "kernel_inv k'" "prio_of k' t = p"
    "stat_of k' t = stat_of k t" "\<forall>u. u \<noteq> t \<longrightarrow> threads k' u = threads k u"
    "home (tlists k') t = (if stat_of k t = RT_THREAD_READY then Some (Ready p) else home (tlists k) t)"
    using change_priority_effect [OF assms, of p] by blast
  moreover have "attr_ok (threads k' t)"
    using k'(2,4) assms(3) by (intro attr_ok_of_state) (simp_all add: kernel_inv_def)
  ultimately show ?thesis by blast
qed

theorem change_priority_consistent_witness:
  "\<exists>k'. rt_thread_change_priority 2 3 sample = Some (RT_EOK, k') \<and> kernel_inv k' \<and> prio_of k' 2 = 3
    \<and> home (tlists k') 2 = Some (Ready 3)"
  using change_priority_consistent [OF sample_kernel_inv sample_is_thread, of 2 3] sample_facts by auto

text \<open>A thread that yields goes to the end of the ready list of its priority, the others keep their
  order, and with an unlocked scheduler the first thread of the highest ready priority runs next; a thread
  alone on its list keeps running.\<close>

theorem yield_rotates:
  assumes "kernel_inv k" and "rt_current_thread k = Some t" and "stat_of k t = RT_THREAD_READY"
    and "on_tlist k (Ready (prio_of k t)) = t # u # us" and "stack_inv k" and "rt_scheduler_lock_nest k = 0"
    and "\<forall>v. stat_of k v = RT_THREAD_READY \<longrightarrow> prio_of k t \<le> prio_of k v"
  shows "\<exists>k'. rt_thread_yield k = Some (RT_EOK, k') \<and> kernel_inv k'
    \<and> on_tlist k' (Ready (prio_of k t)) = u # us @ [t] \<and> rt_current_thread k' = Some u"
proof -
  have s: "sched_inv k" using assms(1) by (simp add: kernel_inv_def)
  have h: "home (tlists k) t = Some (Ready (prio_of k t))"
    using sched_invD(3) [OF s, of t] assms(3) by (simp add: thread_ok_def Let_def)
  then have "tlist_not_alone t k" using assms(4) by (simp add: tlist_not_alone_def)
  from yield_not_alone [OF assms(1-3) this assms(5)] assms(6) obtain k' w where
    k': "rt_thread_yield k = Some (RT_EOK, k')" "kernel_inv k'" "threads k' = threads k"
      "on_tlist k' (Ready (prio_of k t)) = filter (\<lambda>u. u \<noteq> t) (on_tlist k (Ready (prio_of k t))) @ [t]"
      "rt_current_thread k' = Some w" "first_ready k' w" by blast
  have "distinct (t # u # us)"
    using sched_invD(1) [OF s] ls_wf_distinct [of "tlists k" "Ready (prio_of k t)"] assms(4) by (simp add: on_tlist_def)
  then have lst: "on_tlist k' (Ready (prio_of k t)) = u # us @ [t]"
    using k'(4) assms(4) by (auto simp: filter_id_conv)
  have same: "stat_of k' v = stat_of k v" "prio_of k' v = prio_of k v" for v
    using k'(3) by (simp_all add: stat_of_def prio_of_def)
  have "prio_of k w = prio_of k t"
    using k'(6) assms(3,7) same by (intro order_antisym) (auto simp: first_ready_def)
  with k'(5,6) lst same have "w = u" by (auto simp: first_ready_def)
  with k' lst show ?thesis by blast
qed

theorem yield_rotates_witness:
  "\<exists>k'. rt_thread_yield sample = Some (RT_EOK, k') \<and> on_tlist k' (Ready 10) = [2, 1] \<and> rt_current_thread k' = Some 2"
proof -
  have "scheduler_get_highest_priority_thread sample = Some (10, 1)" by code_simp
  then have "first_ready sample 1" using get_highest_first_ready [OF sample_inv sample_facts(2)] by auto
  then have "\<forall>v. stat_of sample v = RT_THREAD_READY \<longrightarrow> prio_of sample 1 \<le> prio_of sample v"
    by (auto simp: first_ready_def)
  with yield_rotates [OF sample_kernel_inv sample_facts(7,2) _ sample_stack_inv, of 2 "[]"] sample_facts
  show ?thesis by auto
qed

end
