(* ===== verification/RT_Timer_Run.thy ===== *)
theory RT_Timer_Run
  imports RT_Thread
begin

text \<open>
  Timers, second part: starting a timer, which keeps the lists sorted by the time left under
  wrap-around of the tick counter, and the checks that run the timeout functions.  The timeout
  functions of timers other than a thread's own are code outside of the kernel; they are the parameter
  \<open>user\<close> of the checks.
\<close>

section \<open>The code\<close>

text \<open>
  The walk of \<^verbatim>\<open>rt_timer_start\<close>: it passes timers that expire at the same tick and timers whose
  distance to the new one is at least half of the tick range, and stops before any other.
\<close>

fun timer_pos :: "(handle \<Rightarrow> rt_timer) \<Rightarrow> rt_tick_t \<Rightarrow> handle list \<Rightarrow> nat" where
  "timer_pos tms tick [] = 0"
| "timer_pos tms tick (h # hs) =
     (let d = tm_timeout_tick (tms h) - tick in
      if d = 0 then Suc (timer_pos tms tick hs)
      else if d < RT_TICK_HALF then 0
      else Suc (timer_pos tms tick hs))"

definition rt_timer_start :: "handle \<Rightarrow> kernel \<Rightarrow> (rt_err_t \<times> kernel) option" where
  "rt_timer_start h k =
     do { RT_ASSERT (rt_object_get_type h k = RT_Object_Class_Timer);
          let k = clear_flag RT_TIMER_FLAG_ACTIVATED h (timer_remove h k);
          RT_ASSERT (tm_init_tick (timers k h) < RT_TICK_HALF);
          let k = upd_timer h (\<lambda>tm. tm\<lparr>tm_timeout_tick := rt_tick k + tm_init_tick tm\<rparr>) k;
          let q = timer_list_of h k;
          let k = k\<lparr>random_nr := random_nr k + 1\<rparr>;
          s \<leftarrow> ls_insert_at q (timer_pos (timers k) (tm_timeout_tick (timers k h)) (on_timers k q)) h (timer_lists k);
          let k = set_flag RT_TIMER_FLAG_ACTIVATED h (k\<lparr>timer_lists := s\<rparr>);
          if timer_flag RT_TIMER_FLAG_SOFT_TIMER h k \<and> stat_of k (timer_thread k) \<noteq> RT_THREAD_READY then
            do { (_, k) \<leftarrow> rt_thread_resume (timer_thread k) k;
                 k \<leftarrow> rt_schedule k;
                 Some (RT_EOK, k) }
          else Some (RT_EOK, k) }"

definition call_timeout :: "(nat \<Rightarrow> nat \<Rightarrow> kernel \<Rightarrow> kernel option) \<Rightarrow> timeout_func \<Rightarrow> kernel \<Rightarrow> kernel option" where
  "call_timeout user f k =
     (case f of No_timeout \<Rightarrow> None | Rt_thread_timeout t \<Rightarrow> rt_thread_timeout t k | User_timeout n p \<Rightarrow> user n p k)"

definition timer_expired :: "rt_tick_t \<Rightarrow> handle \<Rightarrow> kernel \<Rightarrow> bool" where
  "timer_expired now h k \<longleftrightarrow> now - tm_timeout_tick (timers k h) < RT_TICK_HALF"

text \<open>What both checks do with an expired timer that is off its list: call it, restart it when periodic.\<close>

definition fire_timer :: "(nat \<Rightarrow> nat \<Rightarrow> kernel \<Rightarrow> kernel option) \<Rightarrow> handle \<Rightarrow> kernel \<Rightarrow> (rt_tick_t \<times> kernel) option" where
  "fire_timer user h k =
     do { k \<leftarrow> call_timeout user (tm_timeout_func (timers k h)) k;
          let now = rt_tick k;
          if timer_flag RT_TIMER_FLAG_PERIODIC h k \<and> timer_flag RT_TIMER_FLAG_ACTIVATED h k then
            do { (_, k) \<leftarrow> rt_timer_start h (clear_flag RT_TIMER_FLAG_ACTIVATED h k); Some (now, k) }
          else Some (now, clear_flag RT_TIMER_FLAG_ACTIVATED h k) }"

fun rt_timer_check_loop ::
    "(nat \<Rightarrow> nat \<Rightarrow> kernel \<Rightarrow> kernel option) \<Rightarrow> nat \<Rightarrow> rt_tick_t \<Rightarrow> kernel \<Rightarrow> kernel option" where
  "rt_timer_check_loop user 0 now k = None"
| "rt_timer_check_loop user (Suc n) now k =
     (case on_timers k Hard_timers of
        [] \<Rightarrow> Some k
      | h # _ \<Rightarrow>
          if timer_expired now h k then
            do { (now, k) \<leftarrow> fire_timer user h (timer_remove h k);
                 rt_timer_check_loop user n now k }
          else Some k)"

definition rt_timer_check :: "(nat \<Rightarrow> nat \<Rightarrow> kernel \<Rightarrow> kernel option) \<Rightarrow> nat \<Rightarrow> kernel \<Rightarrow> kernel option" where
  "rt_timer_check user fuel k = rt_timer_check_loop user fuel (rt_tick k) k"

text \<open>
  The check of the soft timers walks with a pointer \<open>n\<close> that is advanced before the timer is
  taken off; the outer \<^term>\<open>None\<close> stands for a walk that left the list.
\<close>

fun after_in :: "'a \<Rightarrow> 'a list \<Rightarrow> 'a option" where
  "after_in x [] = None"
| "after_in x (y # ys) = (if x = y then (case ys of [] \<Rightarrow> None | z # _ \<Rightarrow> Some z) else after_in x ys)"

definition soft_next :: "handle \<Rightarrow> kernel \<Rightarrow> handle option option" where
  "soft_next h k =
     (case home (timer_lists k) h of
        None \<Rightarrow> Some (Some h)
      | Some Soft_timers \<Rightarrow> Some (after_in h (on_timers k Soft_timers))
      | Some Hard_timers \<Rightarrow> map_option Some (after_in h (on_timers k Hard_timers)))"

fun rt_soft_timer_check_loop ::
    "(nat \<Rightarrow> nat \<Rightarrow> kernel \<Rightarrow> kernel option) \<Rightarrow> nat \<Rightarrow> handle option \<Rightarrow> rt_tick_t \<Rightarrow> kernel \<Rightarrow> kernel option" where
  "rt_soft_timer_check_loop user 0 n now k = None"
| "rt_soft_timer_check_loop user (Suc m) n now k =
     (case n of None \<Rightarrow> Some k
      | Some h \<Rightarrow>
          if timer_expired now h k then
            do { n \<leftarrow> soft_next h k;
                 (now, k) \<leftarrow> fire_timer user h (timer_remove h k);
                 rt_soft_timer_check_loop user m n now k }
          else Some k)"

definition rt_soft_timer_check :: "(nat \<Rightarrow> nat \<Rightarrow> kernel \<Rightarrow> kernel option) \<Rightarrow> nat \<Rightarrow> kernel \<Rightarrow> kernel option" where
  "rt_soft_timer_check user fuel k =
     rt_soft_timer_check_loop user fuel
       (case on_timers k Soft_timers of [] \<Rightarrow> None | h # _ \<Rightarrow> Some h) (rt_tick k) k"

section \<open>The order of a timer list\<close>

text \<open>The time left of a timer, counted from the tick \<open>b\<close>.\<close>

definition key :: "rt_tick_t \<Rightarrow> (handle \<Rightarrow> rt_timer) \<Rightarrow> handle \<Rightarrow> nat" where
  "key b tms h = unat (tm_timeout_tick (tms h) - b)"

definition timer_order :: "rt_tick_t \<Rightarrow> timer_list \<Rightarrow> kernel \<Rightarrow> bool" where
  "timer_order b q k \<longleftrightarrow> sorted (map (key b (timers k)) (on_timers k q))
     \<and> (\<forall>h\<in>set (on_timers k q). key b (timers k) h \<le> 0x7fffffff)"

lemma tick_half: "unat RT_TICK_HALF = 0x7fffffff"
  by (simp add: rt_consts)

text \<open>The comparison of the walk, in terms of the time left.\<close>

lemma tick_compare:
  fixes x t b :: rt_tick_t
  assumes "unat (x - b) \<le> 0x7fffffff" and "unat (t - b) \<le> 0x7fffffff" and "unat (x - b) < unat (t - b) + 0x7fffffff"
  shows "x - t = 0 \<longleftrightarrow> unat (x - b) = unat (t - b)"
    and "x - t < RT_TICK_HALF \<longleftrightarrow> unat (t - b) \<le> unat (x - b)"
proof -
  have d: "x - t = (x - b) - (t - b)" by simp
  show "x - t = 0 \<longleftrightarrow> unat (x - b) = unat (t - b)"
    unfolding d by (simp add: word_unat_eq_iff flip: word_unat_eq_iff)
  show "x - t < RT_TICK_HALF \<longleftrightarrow> unat (t - b) \<le> unat (x - b)"
  proof (cases "unat (t - b) \<le> unat (x - b)")
    case True
    then have "unat (x - t) = unat (x - b) - unat (t - b)"
      using unat_sub [of "t - b" "x - b"] by (simp add: word_le_nat_alt)
    with True assms show ?thesis by (simp add: word_less_nat_alt tick_half)
  next
    case False
    then have "unat (t - x) = unat (t - b) - unat (x - b)"
      using unat_sub [of "x - b" "t - b"] by (simp add: word_le_nat_alt)
    with False assms have "0 < unat (t - x)" "unat (t - x) \<le> 0x7fffffff" by linarith+
    moreover have "(unat (x - t) + unat (t - x)) mod 2 ^ 32 = 0"
      using unat_word_ariths(1) [of "x - t" "t - x"] by simp
    moreover have "unat (x - t) < 2 ^ 32" using unsigned_less [where 'a = nat and w = "x - t"] by simp
    ultimately have "unat (x - t) = 2 ^ 32 - unat (t - x)" by (auto simp: mod_if split: if_splits)
    with \<open>unat (t - x) \<le> 0x7fffffff\<close> have "\<not> x - t < RT_TICK_HALF" by (simp add: word_less_nat_alt tick_half)
    with False show ?thesis by simp
  qed
qed

lemma timer_pos_eq:
  assumes "unat (tick - b) \<le> 0x7fffffff"
    and "\<forall>h\<in>set hs. key b tms h \<le> 0x7fffffff \<and> key b tms h < unat (tick - b) + 0x7fffffff"
  shows "timer_pos tms tick hs = length (takeWhile (\<lambda>h. key b tms h \<le> unat (tick - b)) hs)"
  using assms(2)
proof (induction hs)
  case (Cons h hs)
  have h: "unat (tm_timeout_tick (tms h) - b) \<le> 0x7fffffff"
    "unat (tm_timeout_tick (tms h) - b) < unat (tick - b) + 0x7fffffff"
    using Cons.prems by (simp_all add: key_def)
  note c = tick_compare [OF h(1) assms(1) h(2)]
  show ?case using Cons c by (auto simp: Let_def key_def)
qed simp

lemma sorted_insert_between:
  fixes f :: "'a \<Rightarrow> nat"
  assumes "sorted (map f (as @ bs))" and "\<forall>x\<in>set as. f x \<le> f h" and "\<forall>y\<in>set bs. f h \<le> f y"
  shows "sorted (map f (as @ h # bs))"
  using assms by (auto simp: sorted_append)

lemma sorted_insert_after:
  fixes f :: "'a \<Rightarrow> nat" and h :: 'a
  assumes "sorted (map f xs)"
  defines "i \<equiv> length (takeWhile (\<lambda>x. f x \<le> f h) xs)"
  shows "sorted (map f (take i xs @ h # drop i xs))"
proof (rule sorted_insert_between)
  show "sorted (map f (take i xs @ drop i xs))" using assms(1) by simp
  have t: "take i xs = takeWhile (\<lambda>x. f x \<le> f h) xs" "drop i xs = dropWhile (\<lambda>x. f x \<le> f h) xs"
    unfolding i_def by (rule takeWhile_eq_take [symmetric], rule dropWhile_eq_drop [symmetric])
  show "\<forall>x\<in>set (take i xs). f x \<le> f h" unfolding t by (meson set_takeWhileD)
  show "\<forall>y\<in>set (drop i xs). f h \<le> f y"
  proof (cases "drop i xs")
    case (Cons z zs)
    then have "\<not> f z \<le> f h" unfolding t by (metis hd_dropWhile list.distinct(1) list.sel(1))
    moreover have "sorted (map f (z # zs))" using sorted_wrt_drop [OF assms(1), of i] Cons by (simp add: drop_map)
    ultimately show ?thesis unfolding Cons by auto
  qed simp
qed

lemma sorted_dropWhile_above:
  fixes f :: "'a \<Rightarrow> nat"
  assumes "sorted (map f xs)"
  shows "y \<in> set (dropWhile (\<lambda>x. f x \<le> n) xs) \<Longrightarrow> n < f y"
  using assms by (induction xs) (auto split: if_splits)

section \<open>Starting a timer\<close>

text \<open>The state that \<^verbatim>\<open>rt_timer_start\<close> leaves when it does not have to wake the timer thread.\<close>

definition started :: "handle \<Rightarrow> kernel \<Rightarrow> kernel" where
  "started h k =
     (let q = timer_list_of h k; tick = rt_tick k + tm_init_tick (timers k h);
          tms = (timers k)(h := (timers k h)\<lparr>tm_timeout_tick := tick\<rparr>);
          s = ls_remove h (timer_lists k); xs = on_list s q; i = timer_pos tms tick xs;
          flag = obj_flag (objects k h) AND NOT RT_TIMER_FLAG_ACTIVATED OR RT_TIMER_FLAG_ACTIVATED
      in k\<lparr>timers := tms, random_nr := random_nr k + 1,
           timer_lists := s\<lparr>on_list := (on_list s)(q := take i xs @ h # drop i xs), home := (home s)(h := Some q)\<rparr>,
           objects := (objects k)(h := (objects k h)\<lparr>obj_flag := flag\<rparr>)\<rparr>)"

lemma timer_list_of_stop:
  "timer_list_of h (clear_flag RT_TIMER_FLAG_ACTIVATED g (timer_remove g k)) = timer_list_of h k"
  by (simp add: timer_list_of_def timer_flag_def clear_flag_def upd_object_def flag_other_set)

lemma rt_timer_start_eq:
  assumes ty: "rt_object_get_type h k = RT_Object_Class_Timer" and it: "tm_init_tick (timers k h) < RT_TICK_HALF"
    and hard: "\<not> timer_flag RT_TIMER_FLAG_SOFT_TIMER h k"
  shows "rt_timer_start h k = Some (RT_EOK, started h k)"
proof -
  define k1 where "k1 = clear_flag RT_TIMER_FLAG_ACTIVATED h (timer_remove h k)"
  have q: "timer_list_of h k = Hard_timers" using hard by (simp add: timer_list_of_def)
  have q1: "timer_list_of h (upd_timer h f k1) = Hard_timers" for f
    using timer_list_of_stop [of h h k] q by (simp add: k1_def timer_list_of_def timer_flag_def upd_timer_def)
  have soft: "(obj_flag (objects k h) AND NOT RT_TIMER_FLAG_ACTIVATED OR RT_TIMER_FLAG_ACTIVATED) AND RT_TIMER_FLAG_SOFT_TIMER = 0"
    using hard by (simp add: flag_other_set timer_flag_def)
  have it1: "tm_init_tick (timers k1 h) < RT_TICK_HALF" using it by (simp add: k1_def)
  have un: "home (timer_lists (upd_timer h f k1)) h = None" for f
    by (simp add: k1_def upd_timer_def)
  show ?thesis
    using ty it1 un q q1 soft
    unfolding rt_timer_start_def k1_def [symmetric] Let_def
    by (simp add: ls_insert_at_def started_def)
      (simp add: k1_def clear_flag_def set_flag_def upd_defs timer_remove_def timer_flag_def on_timers_def q Let_def)
qed

lemma started_frame [simp]:
  "threads (started h k) = threads k" "tlists (started h k) = tlists k" "sched_view (started h k) = sched_view k"
  "rt_current_thread (started h k) = rt_current_thread k" "rt_tick (started h k) = rt_tick k"
  "rt_object_get_type g (started h k) = rt_object_get_type g k"
  "on_tlist (started h k) = on_tlist k" "rt_scheduler_lock_nest (started h k) = rt_scheduler_lock_nest k"
  by (simp_all add: started_def sched_view_def rt_object_get_type_def on_tlist_def Let_def fun_eq_iff)

lemma started_same_ipc: "same_ipc k (started (Thread_timer t) k)"
  by (simp add: same_ipc_def started_def Let_def)

lemma started_flags:
  "timer_flag RT_TIMER_FLAG_ACTIVATED h (started h k)"
  "timer_flag RT_TIMER_FLAG_SOFT_TIMER g (started h k) = timer_flag RT_TIMER_FLAG_SOFT_TIMER g k"
  "timer_flag RT_TIMER_FLAG_PERIODIC g (started h k) = timer_flag RT_TIMER_FLAG_PERIODIC g k"
  "g \<noteq> h \<Longrightarrow> timer_flag f g (started h k) = timer_flag f g k"
  using flag_set_get [of "obj_flag (objects k h) AND NOT RT_TIMER_FLAG_ACTIVATED"]
  by (simp_all add: timer_flag_def started_def Let_def flag_other_set)

lemma started_timers: "timers (started h k) = (timers k)(h := (timers k h)\<lparr>tm_timeout_tick := rt_tick k + tm_init_tick (timers k h)\<rparr>)"
  by (simp add: started_def Let_def)

lemma started_home: "home (timer_lists (started h k)) = (home (timer_lists k))(h := Some (timer_list_of h k))"
  by (simp add: started_def Let_def)

lemma started_list:
  assumes "ls_wf (timer_lists k)"
  shows "on_timers (started h k) q =
    (let xs = filter (\<lambda>g. g \<noteq> h) (on_timers k q); i = timer_pos (timers (started h k)) (rt_tick k + tm_init_tick (timers k h)) xs
     in if q = timer_list_of h k then take i xs @ h # drop i xs else xs)"
  using assms by (simp add: on_timers_def started_def Let_def ls_remove_on_list)

lemma started_timer_inv:
  assumes inv: "timer_inv k" and ty: "rt_object_get_type h k = RT_Object_Class_Timer"
  shows "timer_inv (started h k)"
proof -
  have wf: "ls_wf (timer_lists k)" using inv by (simp add: timer_inv_def)
  have "\<exists>i. ls_insert_at (timer_list_of h k) i h (ls_remove h (timer_lists k)) = Some (timer_lists (started h k))"
    by (simp add: ls_insert_at_def started_def Let_def) blast
  then have "ls_wf (timer_lists (started h k))" using ls_insert_at_wf [OF ls_remove_wf [OF wf]] by blast
  moreover have "timer_list_of g (started h k) = timer_list_of g k" for g
    by (simp add: timer_list_of_def started_flags)
  ultimately show ?thesis
    using inv ty by (auto simp: timer_inv_def started_home started_flags split: if_splits)
qed

text \<open>The new timer goes behind all timers that expire no later, and the list stays sorted.\<close>

lemma started_order:
  assumes wf: "ls_wf (timer_lists k)" and ord: "timer_order b Hard_timers k" and tick: "rt_tick k = b + 1"
    and it: "tm_init_tick (timers k h) < RT_TICK_HALF" and hard: "timer_list_of h k = Hard_timers"
  defines "n \<equiv> key b (timers (started h k)) h"
  defines "xs \<equiv> filter (\<lambda>g. g \<noteq> h) (on_timers k Hard_timers)"
  shows "timer_order b Hard_timers (started h k)"
    and "on_timers (started h k) Hard_timers =
      takeWhile (\<lambda>g. key b (timers k) g \<le> n) xs @ h # dropWhile (\<lambda>g. key b (timers k) g \<le> n) xs"
    and "n = unat (tm_init_tick (timers k h)) + 1"
proof -
  let ?tms = "timers (started h k)"
  let ?tick = "rt_tick k + tm_init_tick (timers k h)"
  have tb: "?tick - b = tm_init_tick (timers k h) + 1" using tick by simp
  have lt: "unat (tm_init_tick (timers k h)) < 0x7fffffff" using it by (simp add: word_less_nat_alt tick_half)
  then have u: "unat (?tick - b) = unat (tm_init_tick (timers k h)) + 1" unfolding tb by (intro unat_inc_less) simp
  then show n: "n = unat (tm_init_tick (timers k h)) + 1" by (simp add: n_def key_def started_timers)
  have nt: "unat (?tick - b) = n" using u n by simp
  have n1: "1 \<le> n" "n \<le> 0x7fffffff" using n lt by simp_all
  have keys: "key b ?tms g = key b (timers k) g" if "g \<in> set xs" for g
    using that by (simp add: xs_def key_def started_timers)
  have ub: "key b (timers k) g \<le> 0x7fffffff" if "g \<in> set xs" for g
    using that ord by (auto simp: xs_def timer_order_def)
  have pos: "timer_pos ?tms ?tick xs = length (takeWhile (\<lambda>g. key b ?tms g \<le> n) xs)"
    unfolding nt [symmetric]
  proof (rule timer_pos_eq)
    show "unat (?tick - b) \<le> 0x7fffffff" using nt n1 by simp
    show "\<forall>g\<in>set xs. key b ?tms g \<le> 0x7fffffff \<and> key b ?tms g < unat (?tick - b) + 0x7fffffff"
      using ub keys nt n1 by fastforce
  qed
  have lst: "on_timers (started h k) Hard_timers =
      (let i = length (takeWhile (\<lambda>g. key b ?tms g \<le> n) xs) in take i xs @ h # drop i xs)"
    using started_list [OF wf, of h Hard_timers] hard pos by (simp add: xs_def Let_def)
  have "sorted (map (key b (timers k)) xs)"
    using ord by (simp add: xs_def timer_order_def sorted_filter)
  then have "sorted (map (key b ?tms) xs)" using keys by (simp cong: map_cong)
  from sorted_insert_after [OF this, of h] have srt: "sorted (map (key b ?tms) (on_timers (started h k) Hard_timers))"
    unfolding lst Let_def n_def .
  have set: "set (on_timers (started h k) Hard_timers) = insert h (set xs)"
    unfolding lst Let_def by (rule set_insert_at)
  then show "timer_order b Hard_timers (started h k)"
    using srt ub keys n1 n_def by (auto simp: timer_order_def)
  have "takeWhile (\<lambda>g. key b ?tms g \<le> n) xs = takeWhile (\<lambda>g. key b (timers k) g \<le> n) xs"
    "dropWhile (\<lambda>g. key b ?tms g \<le> n) xs = dropWhile (\<lambda>g. key b (timers k) g \<le> n) xs"
    using keys by (auto intro: takeWhile_cong dropWhile_cong)
  then show "on_timers (started h k) Hard_timers =
      takeWhile (\<lambda>g. key b (timers k) g \<le> n) xs @ h # dropWhile (\<lambda>g. key b (timers k) g \<le> n) xs"
    using lst by (simp add: Let_def flip: takeWhile_eq_take dropWhile_eq_drop)
qed

section \<open>The check of the hard timers\<close>

lemma expired_key:
  assumes "key (rt_tick k - 1) (timers k) h \<le> 0x7fffffff"
  shows "timer_expired (rt_tick k) h k \<longleftrightarrow> key (rt_tick k - 1) (timers k) h \<le> 1"
  using tick_compare(2) [of "rt_tick k" "rt_tick k - 1" "tm_timeout_tick (timers k h)"] assms
  by (simp add: timer_expired_def key_def)

text \<open>
  What the tick handler relies on: the lists are sorted, the timer of a thread is running only while
  the thread is suspended and is not periodic, and every other timer has a timeout function.
\<close>

definition timer_ok :: "kernel \<Rightarrow> handle \<Rightarrow> bool" where
  "timer_ok k h \<longleftrightarrow>
     (case h of
        Thread_timer t \<Rightarrow> is_thread k t \<and> stat_of k t = RT_THREAD_SUSPEND \<and> tm_timeout_func (timers k h) = Rt_thread_timeout t
          \<and> \<not> timer_flag RT_TIMER_FLAG_PERIODIC h k
      | Obj n \<Rightarrow> \<exists>f p. tm_timeout_func (timers k h) = User_timeout f p)"

definition timers_ok :: "kernel \<Rightarrow> bool" where
  "timers_ok k \<longleftrightarrow> (\<forall>h. home (timer_lists k) h \<noteq> None \<longrightarrow> timer_ok k h)"

lemma timer_ok_cong:
  assumes "timers k' h = timers k h" and "timer_flag RT_TIMER_FLAG_PERIODIC h k' = timer_flag RT_TIMER_FLAG_PERIODIC h k"
    and "\<And>t. h = Thread_timer t \<Longrightarrow> is_thread k' t = is_thread k t \<and> stat_of k' t = stat_of k t"
  shows "timer_ok k' h = timer_ok k h"
  using assms by (cases h) (simp_all add: timer_ok_def)

definition check_inv :: "kernel \<Rightarrow> bool" where
  "check_inv k \<longleftrightarrow> kernel_inv k \<and> stack_inv k \<and> rt_current_thread k \<noteq> None \<and> timers_ok k
     \<and> timer_order (rt_tick k - 1) Hard_timers k"

text \<open>The number of rounds the check makes is bounded by the timers that are due.\<close>

definition expired_timers :: "kernel \<Rightarrow> handle list" where
  "expired_timers k = filter (\<lambda>h. timer_expired (rt_tick k) h k) (on_timers k Hard_timers)"

text \<open>A timer that is started again by the check has a timeout function and a period that \<^verbatim>\<open>rt_timer_start\<close> accepts and that is not zero.  Neither
  \<^verbatim>\<open>rt_timer_init\<close> nor \<^verbatim>\<open>rt_timer_control\<close> checks the period.\<close>

definition periods_ok :: "kernel \<Rightarrow> bool" where
  "periods_ok k \<longleftrightarrow> (\<forall>n. rt_object_get_type (Obj n) k = RT_Object_Class_Timer \<and> timer_flag RT_TIMER_FLAG_ACTIVATED (Obj n) k
     \<and> timer_flag RT_TIMER_FLAG_PERIODIC (Obj n) k \<longrightarrow>
       (\<exists>f p. tm_timeout_func (timers k (Obj n)) = User_timeout f p)
       \<and> 0 < tm_init_tick (timers k (Obj n)) \<and> tm_init_tick (timers k (Obj n)) < RT_TICK_HALF)"

text \<open>The timer whose timeout function runs is off its list with its mark still set.\<close>

definition firing :: "kernel \<Rightarrow> nat \<Rightarrow> bool" where
  "firing k n \<longleftrightarrow> rt_object_get_type (Obj n) k = RT_Object_Class_Timer \<and> home (timer_lists k) (Obj n) = None
     \<and> timer_flag RT_TIMER_FLAG_ACTIVATED (Obj n) k \<and> \<not> timer_flag RT_TIMER_FLAG_SOFT_TIMER (Obj n) k"

text \<open>
  The contract of a timeout function outside of the kernel.  It returns; it may wake threads, and start, stop and change timers, its own included, as long as the invariants hold and
  no further timer is due at this tick, as is the case for timers started with a time that is not zero.  Its own timer remains a hard timer when it is to be started again, and it is not
  started by the function itself unless it is periodic: the check would take the mark away from a one-shot timer that is on the list.
\<close>

definition user_ok :: "(nat \<Rightarrow> nat \<Rightarrow> kernel \<Rightarrow> kernel option) \<Rightarrow> bool" where
  "user_ok user \<longleftrightarrow> (\<forall>f p k. check_inv k \<and> periods_ok k \<longrightarrow> (\<exists>k'. user f p k = Some k' \<and> check_inv k' \<and> periods_ok k'
     \<and> rt_tick k' = rt_tick k \<and> length (expired_timers k') \<le> length (expired_timers k)
     \<and> (\<forall>n. firing k n \<longrightarrow> (home (timer_lists k') (Obj n) \<noteq> None \<longrightarrow> timer_flag RT_TIMER_FLAG_PERIODIC (Obj n) k')
          \<and> (timer_flag RT_TIMER_FLAG_PERIODIC (Obj n) k' \<and> timer_flag RT_TIMER_FLAG_ACTIVATED (Obj n) k' \<longrightarrow>
               rt_object_get_type (Obj n) k' = RT_Object_Class_Timer \<and> \<not> timer_flag RT_TIMER_FLAG_SOFT_TIMER (Obj n) k'))))"

lemma periods_ok_cong:
  assumes "timers k' = timers k" and "\<forall>n. objects k' (Obj n) = objects k (Obj n)"
  shows "periods_ok k' = periods_ok k"
  using assms by (simp add: periods_ok_def timer_flag_def rt_object_get_type_def)

lemma check_invD:
  assumes "check_inv k"
  shows "kernel_inv k" "stack_inv k" "rt_current_thread k \<noteq> None" "timers_ok k"
    "timer_order (rt_tick k - 1) Hard_timers k" "timer_inv k" "sched_inv k" "ls_wf (timer_lists k)"
  using assms by (simp_all add: check_inv_def kernel_inv_def timer_inv_def)

lemma timer_order_filter:
  assumes "timer_order b q k" and "on_timers k' q = filter P (on_timers k q)"
    and "\<forall>h\<in>set (on_timers k' q). timers k' h = timers k h"
  shows "timer_order b q k'"
proof -
  have "map (key b (timers k')) (on_timers k' q) = map (key b (timers k)) (filter P (on_timers k q))"
    using assms(2,3) by (auto simp: key_def)
  then have "sorted (map (key b (timers k')) (on_timers k' q))"
    using assms(1) by (simp add: timer_order_def sorted_filter)
  then show ?thesis using assms by (auto simp: timer_order_def key_def)
qed

lemma check_inv_remove:
  assumes inv: "check_inv k"
  shows "check_inv (timer_remove h k)"
proof -
  note d = check_invD [OF inv]
  have "sched_inv (timer_remove h k)" using d(7) sched_view_inv [of "timer_remove h k" k] by simp
  moreover have "timer_inv (timer_remove h k)"
    using d(6) by (auto simp: timer_inv_def ls_remove_wf timer_list_of_def timer_flag_def split: if_splits)
  moreover have "stack_inv (timer_remove h k)"
    using d(2) by (simp add: stack_inv_def stat_of_def rt_scheduler_stack_check_def)
  moreover have "timer_ok (timer_remove h k) g = timer_ok k g" for g
    by (rule timer_ok_cong) (simp_all add: timer_flag_def is_thread_def stat_of_def)
  then have "timers_ok (timer_remove h k)"
    using d(4) by (simp add: timers_ok_def)
  moreover have "timer_order (rt_tick k - 1) Hard_timers (timer_remove h k)"
    using d(5) by (rule timer_order_filter [where P = "\<lambda>g. g \<noteq> h"])
      (simp_all add: on_timers_def ls_remove_on_list d(8))
  ultimately show ?thesis using d(3) by (simp add: check_inv_def kernel_inv_def)
qed

text \<open>Clearing the mark of a timer that is off its list.\<close>

lemma check_inv_clear:
  assumes inv: "check_inv k" and un: "home (timer_lists k) h = None"
  shows "check_inv (clear_flag f h k)"
proof -
  note d = check_invD [OF inv]
  let ?k = "clear_flag f h k"
  have fl: "timer_flag g x ?k = timer_flag g x k" if "x \<noteq> h" for g x
    using that by (simp add: timer_flag_def clear_flag_def upd_object_def)
  have ln: "x \<noteq> h" if "home (timer_lists k) x = Some q" for x q using that un by auto
  have "sched_inv ?k" using d(7) sched_view_inv [of ?k k] by simp
  moreover have "timer_inv ?k"
    using d(6) ln by (auto simp: timer_inv_def timer_list_of_def fl)
  moreover have "stack_inv ?k"
    using d(2) by (simp add: stack_inv_def stat_of_def rt_scheduler_stack_check_def)
  moreover have "timer_ok ?k g = timer_ok k g" if "g \<noteq> h" for g
    by (rule timer_ok_cong) (simp_all add: fl that is_thread_def stat_of_def)
  then have "timers_ok ?k" using d(4) un by (simp add: timers_ok_def) (metis option.distinct(1))
  moreover have "timer_order (rt_tick k - 1) Hard_timers ?k"
    using d(5) by (simp add: timer_order_def on_timers_def)
  ultimately show ?thesis using d(3) by (simp add: check_inv_def kernel_inv_def)
qed

text \<open>Restarting a periodic timer.\<close>

lemma check_inv_started:
  assumes inv: "check_inv k" and ty: "rt_object_get_type (Obj n) k = RT_Object_Class_Timer"
    and hard: "timer_list_of (Obj n) k = Hard_timers" and fn: "\<exists>f p. tm_timeout_func (timers k (Obj n)) = User_timeout f p"
    and it: "tm_init_tick (timers k (Obj n)) < RT_TICK_HALF"
  shows "check_inv (started (Obj n) k)"
proof -
  note d = check_invD [OF inv]
  let ?k = "started (Obj n) k"
  have "sched_inv ?k" using d(7) sched_view_inv [of ?k k] by simp
  moreover have "timer_inv ?k" using d(6) ty by (rule started_timer_inv)
  moreover have "stack_inv ?k"
    using d(2) by (simp add: stack_inv_def stat_of_def rt_scheduler_stack_check_def)
  moreover have "timer_ok ?k g = timer_ok k g" if "g \<noteq> Obj n" for g
    by (rule timer_ok_cong) (simp_all add: started_flags started_timers that is_thread_def stat_of_def)
  moreover have "timer_ok ?k (Obj n)"
    using fn by (simp add: timer_ok_def started_timers)
  ultimately have "timers_ok ?k" "sched_inv ?k" "timer_inv ?k" "stack_inv ?k"
    using d(4) by (auto simp: timers_ok_def started_home split: if_splits)
  moreover have "timer_order (rt_tick k - 1) Hard_timers ?k"
    using d(8,5) _ it hard by (rule started_order(1)) simp
  ultimately show ?thesis using d(3) by (simp add: check_inv_def kernel_inv_def)
qed

text \<open>What the timeout of the threads of \<open>S\<close> does to threads and wait lists.\<close>

definition timed_out :: "tid set \<Rightarrow> kernel \<Rightarrow> kernel \<Rightarrow> bool" where
  "timed_out S k k' \<longleftrightarrow> same_ipc k k' \<and> timers k' = timers k
     \<and> (\<forall>q. is_wait_list q \<longrightarrow> on_tlist k' q = filter (\<lambda>u. u \<notin> S) (on_tlist k q))
     \<and> (\<forall>t. if t \<in> S then stat_of k' t = RT_THREAD_READY \<and> th_error (threads k' t) = RT_ETIMEOUT
            else threads k' t = threads k t)
     \<and> (\<forall>g. timer_flag RT_TIMER_FLAG_SOFT_TIMER g k' = timer_flag RT_TIMER_FLAG_SOFT_TIMER g k)
     \<and> (\<forall>g. timer_flag RT_TIMER_FLAG_PERIODIC g k' = timer_flag RT_TIMER_FLAG_PERIODIC g k) \<and> cur_moves k k'"

lemma timed_out_empty: "timed_out {} k k"
  by (simp add: timed_out_def cur_moves_def)

lemma timed_out_cur:
  assumes "timed_out S k k'" and "rt_current_thread k' = Some v" and "rt_current_thread k = Some v \<Longrightarrow> stat_of k v = RT_THREAD_READY"
  shows "stat_of k' v = RT_THREAD_READY"
  using assms by (auto simp: timed_out_def cur_moves_def stat_of_def dest: spec [of _ v] split: if_splits)

lemma timed_out_trans:
  assumes "timed_out {t} k k1" and "timed_out S k1 k2" and "t \<notin> S"
  shows "timed_out (insert t S) k k2"
proof -
  have "(\<lambda>u. u \<notin> S \<and> u \<noteq> t) = (\<lambda>u. u \<notin> insert t S)" by auto
  moreover have "threads k2 t = threads k1 t" using assms(2,3) by (simp add: timed_out_def)
  then have "stat_of k2 t = stat_of k1 t" "th_error (threads k2 t) = th_error (threads k1 t)" by (simp_all add: stat_of_def)
  moreover have "stat_of k2 v = RT_THREAD_READY" if "stat_of k1 v = RT_THREAD_READY" for v
    using assms(2) that by (auto simp: timed_out_def stat_of_def dest: spec [of _ v] split: if_splits)
  then have "cur_moves k k2" using assms(1,2) unfolding timed_out_def cur_moves_def by blast
  ultimately show ?thesis
    using assms unfolding timed_out_def by (auto intro: same_ipc_trans simp: conj_commute split: if_splits)
qed

lemma fire_thread_timer:
  assumes inv: "check_inv k" and ln: "home (timer_lists k) (Thread_timer t) \<noteq> None"
  defines "h \<equiv> Thread_timer t"
  shows "\<exists>k'. fire_timer user h (timer_remove h k) = Some (rt_tick k, k') \<and> check_inv k' \<and> rt_tick k' = rt_tick k
    \<and> timers k' = timers k \<and> (\<forall>q. on_timers k' q = filter (\<lambda>g. g \<noteq> h) (on_timers k q))
    \<and> stat_of k' t = RT_THREAD_READY \<and> th_error (threads k' t) = RT_ETIMEOUT
    \<and> (\<forall>u. u \<noteq> t \<longrightarrow> threads k' u = threads k u) \<and> timed_out {t} k k'"
proof -
  let ?k1 = "timer_remove h k"
  have inv1: "check_inv ?k1" using inv by (rule check_inv_remove)
  have ok: "timer_ok k h" using check_invD(4) [OF inv] ln by (simp add: timers_ok_def h_def)
  have th: "is_thread ?k1 t" and st: "stat_of ?k1 t = RT_THREAD_SUSPEND"
    and fn: "tm_timeout_func (timers k h) = Rt_thread_timeout t" and np: "\<not> timer_flag RT_TIMER_FLAG_PERIODIC h k"
    using ok by (simp_all add: timer_ok_def h_def is_thread_def stat_of_def)
  obtain k2 where k2: "rt_thread_timeout t ?k1 = Some k2" "kernel_inv k2" "stat_of k2 t = RT_THREAD_READY"
    "th_error (threads k2 t) = RT_ETIMEOUT" "timers k2 = timers k" "timer_lists k2 = ls_remove h (timer_lists k)"
    "objects k2 = objects k" "rt_current_thread k2 \<noteq> None" "stack_inv k2" "\<forall>u. u \<noteq> t \<longrightarrow> threads k2 u = threads k u"
    "same_ipc ?k1 k2" "\<forall>q. is_wait_list q \<longrightarrow> on_tlist k2 q = filter (\<lambda>u. u \<noteq> t) (on_tlist k q)" "cur_moves ?k1 k2"
    using timeout_wakes [OF check_invD(1) [OF inv1] th st check_invD(2,3) [OF inv1]] by (auto simp: on_tlist_def)
  have tick: "rt_tick k2 = rt_tick k" using k2(11) by (simp add: same_ipc_def)
  have un: "home (timer_lists k2) h = None" by (simp add: k2(6))
  have lst: "on_timers k2 q = filter (\<lambda>g. g \<noteq> h) (on_timers k q)" for q
    using check_invD(8) [OF inv] by (simp add: on_timers_def k2(6) ls_remove_on_list)
  have "timer_ok k2 g = timer_ok k g" if "g \<noteq> h" for g
    using that k2(5,7,10) by (intro timer_ok_cong) (auto simp: timer_flag_def is_thread_def rt_object_get_type_def stat_of_def h_def)
  then have "timers_ok k2" using check_invD(4) [OF inv] by (simp add: timers_ok_def k2(6))
  moreover have "timer_order (rt_tick k - 1) Hard_timers k2"
    using check_invD(5) [OF inv] lst by (rule timer_order_filter) (simp add: k2(5))
  ultimately have "check_inv k2" using k2(2,8,9) tick by (simp add: check_inv_def)
  then have "check_inv (clear_flag RT_TIMER_FLAG_ACTIVATED h k2)" using un by (rule check_inv_clear)
  moreover have "fire_timer user h ?k1 = Some (rt_tick k, clear_flag RT_TIMER_FLAG_ACTIVATED h k2)"
    using fn k2(1,7) np tick by (simp add: fire_timer_def call_timeout_def timer_flag_def)
  moreover have cm: "cur_moves k (clear_flag RT_TIMER_FLAG_ACTIVATED h k2)"
    using k2(13) by (simp add: cur_moves_def stat_of_def)
  have "same_ipc k (clear_flag RT_TIMER_FLAG_ACTIVATED h k2)"
    using k2(11) by (simp add: same_ipc_def h_def clear_flag_def upd_object_def timer_remove_def)
  then have "timed_out {t} k (clear_flag RT_TIMER_FLAG_ACTIVATED h k2)"
    using k2(3,4,5,10,12) cm by (simp add: timed_out_def stat_of_def on_tlist_def)
      (simp add: timer_flag_def clear_flag_def upd_object_def k2(7) flag_other_set)
  ultimately show ?thesis
    using k2 lst tick by (intro exI [of _ "clear_flag RT_TIMER_FLAG_ACTIVATED h k2"]) (simp add: on_timers_def stat_of_def)
qed

lemma expired_filter:
  assumes "on_timers k' Hard_timers = filter P (on_timers k Hard_timers)" and "timers k' = timers k" and "rt_tick k' = rt_tick k"
  shows "expired_timers k' = filter P (expired_timers k)"
  using assms by (simp add: expired_timers_def timer_expired_def conj_commute)

text \<open>A restarted periodic timer is not due again at the same tick.\<close>

lemma expired_started:
  assumes inv: "check_inv k" and hard: "timer_list_of h k = Hard_timers" and it: "tm_init_tick (timers k h) < RT_TICK_HALF"
  shows "h \<in> set (expired_timers (started h k)) \<longleftrightarrow> tm_init_tick (timers k h) = 0"
    and "filter (\<lambda>g. g \<noteq> h) (expired_timers (started h k)) = filter (\<lambda>g. g \<noteq> h) (expired_timers k)"
proof -
  note d = check_invD [OF inv]
  let ?k = "started h k" and ?b = "rt_tick k - 1"
  let ?xs = "filter (\<lambda>g. g \<noteq> h) (on_timers k Hard_timers)"
  have tk: "rt_tick k = ?b + 1" by simp
  note o = started_order [OF d(8,5) tk it hard]
  have "unat (tm_init_tick (timers k h)) < 0x7fffffff" using it by (simp add: word_less_nat_alt tick_half)
  then have ne: "timer_expired (rt_tick k) h ?k \<longleftrightarrow> tm_init_tick (timers k h) = 0"
    using expired_key [of ?k h] o(3) by (simp add: unat_eq_0)
  have "h \<in> set (on_timers ?k Hard_timers)" unfolding o(2) by simp
  then show "h \<in> set (expired_timers ?k) \<longleftrightarrow> tm_init_tick (timers k h) = 0" using ne by (simp add: expired_timers_def)
  have eg: "timer_expired (rt_tick k) g ?k = timer_expired (rt_tick k) g k" if "g \<noteq> h" for g
    using that by (simp add: timer_expired_def started_timers)
  have "filter Q (takeWhile P ys) @ filter Q (dropWhile P ys) = filter Q ys" for P Q and ys :: "handle list"
    by (metis filter_append takeWhile_dropWhile_id)
  then have "filter (\<lambda>g. g \<noteq> h) (on_timers ?k Hard_timers) = ?xs" unfolding o(2) by simp
  then have "filter (\<lambda>g. timer_expired (rt_tick k) g k) (filter (\<lambda>g. g \<noteq> h) (on_timers ?k Hard_timers)) = filter (\<lambda>g. timer_expired (rt_tick k) g k) ?xs" by simp
  moreover have "(\<lambda>g. timer_expired (rt_tick k) g ?k \<and> g \<noteq> h) = (\<lambda>g. g \<noteq> h \<and> timer_expired (rt_tick k) g k)" using eg by auto
  ultimately show "filter (\<lambda>g. g \<noteq> h) (expired_timers ?k) = filter (\<lambda>g. g \<noteq> h) (expired_timers k)" by (simp add: expired_timers_def conj_commute)
qed

lemma length_expired_started:
  assumes "check_inv k" and "timer_list_of h k = Hard_timers" and "0 < tm_init_tick (timers k h)" "tm_init_tick (timers k h) < RT_TICK_HALF"
  shows "length (expired_timers (started h k)) \<le> length (expired_timers k)"
proof -
  note e = expired_started [OF assms(1,2,4)]
  have "filter (\<lambda>g. g \<noteq> h) (expired_timers (started h k)) = expired_timers (started h k)" using e(1) assms(3) by (auto simp: filter_id_conv word_gt_0)
  then show ?thesis using e(2) length_filter_le [of "\<lambda>g. g \<noteq> h" "expired_timers k"] by simp
qed

text \<open>Starting a timer sets its mark whether it was set or not.\<close>

lemma started_clear: "started h (clear_flag RT_TIMER_FLAG_ACTIVATED h k) = started h k"
proof -
  have "timer_list_of h (clear_flag RT_TIMER_FLAG_ACTIVATED h k) = timer_list_of h k"
    by (simp add: timer_list_of_def timer_flag_def clear_flag_def upd_object_def flag_other_set)
  then show ?thesis by (simp add: started_def Let_def clear_flag_def upd_object_def and.assoc)
qed

lemma periods_ok_started:
  assumes "periods_ok k" and "timer_flag RT_TIMER_FLAG_ACTIVATED h k"
  shows "periods_ok (started h k)"
proof -
  have "timer_flag RT_TIMER_FLAG_ACTIVATED g (started h k) = timer_flag RT_TIMER_FLAG_ACTIVATED g k" for g
    using assms(2) started_flags(1) [of h k] started_flags(4) [of g h RT_TIMER_FLAG_ACTIVATED k] by (cases "g = h") simp_all
  then show ?thesis using assms(1) by (auto simp: periods_ok_def started_flags started_timers)
qed

lemma periods_ok_clear:
  assumes "periods_ok k"
  shows "periods_ok (clear_flag RT_TIMER_FLAG_ACTIVATED h k)"
proof -
  let ?k = "clear_flag RT_TIMER_FLAG_ACTIVATED h k"
  have "timer_flag RT_TIMER_FLAG_PERIODIC g ?k = timer_flag RT_TIMER_FLAG_PERIODIC g k" "rt_object_get_type g ?k = rt_object_get_type g k" for g
    by (simp_all add: timer_flag_def clear_flag_def upd_object_def flag_other_set rt_object_get_type_def)
  moreover have "timer_flag RT_TIMER_FLAG_ACTIVATED g ?k \<Longrightarrow> timer_flag RT_TIMER_FLAG_ACTIVATED g k" for g
    by (auto simp: timer_flag_def clear_flag_def upd_object_def and.assoc split: if_splits)
  ultimately show ?thesis using assms by (simp add: periods_ok_def)
qed

lemma fire_user_timer:
  assumes user: "user_ok user" and inv: "check_inv k" "periods_ok k" and ln: "home (timer_lists k) (Obj n) = Some Hard_timers"
  defines "h \<equiv> Obj n"
  shows "\<exists>k'. fire_timer user h (timer_remove h k) = Some (rt_tick k, k') \<and> check_inv k' \<and> periods_ok k' \<and> rt_tick k' = rt_tick k
    \<and> length (expired_timers k') \<le> length (expired_timers (timer_remove h k))"
proof -
  let ?k1 = "timer_remove h k"
  have inv1: "check_inv ?k1" "periods_ok ?k1" using inv check_inv_remove periods_ok_cong [of ?k1 k] by simp_all
  obtain f p where fn: "tm_timeout_func (timers k h) = User_timeout f p"
    using check_invD(4) [OF inv(1)] ln by (fastforce simp: timers_ok_def timer_ok_def h_def)
  have fi: "firing ?k1 n" using check_invD(6) [OF inv(1)] ln
    by (auto simp: firing_def timer_inv_def h_def rt_object_get_type_def timer_flag_def timer_list_of_def split: if_splits)
  obtain k2 where k2: "user f p ?k1 = Some k2" "check_inv k2" "periods_ok k2" "rt_tick k2 = rt_tick k" "length (expired_timers k2) \<le> length (expired_timers ?k1)"
    "home (timer_lists k2) h \<noteq> None \<Longrightarrow> timer_flag RT_TIMER_FLAG_PERIODIC h k2"
    "timer_flag RT_TIMER_FLAG_PERIODIC h k2 \<Longrightarrow> timer_flag RT_TIMER_FLAG_ACTIVATED h k2 \<Longrightarrow>
       rt_object_get_type h k2 = RT_Object_Class_Timer \<and> \<not> timer_flag RT_TIMER_FLAG_SOFT_TIMER h k2"
    using user [unfolded user_ok_def, rule_format, of ?k1 f p] inv1 fi by (auto simp: h_def)
  let ?k3 = "clear_flag RT_TIMER_FLAG_ACTIVATED h k2"
  show ?thesis
  proof (cases "timer_flag RT_TIMER_FLAG_PERIODIC h k2 \<and> timer_flag RT_TIMER_FLAG_ACTIVATED h k2")
    case True
    then have ty: "rt_object_get_type h k2 = RT_Object_Class_Timer" "\<not> timer_flag RT_TIMER_FLAG_SOFT_TIMER h k2" using k2(7) by blast+
    then have it: "\<exists>f p. tm_timeout_func (timers k2 h) = User_timeout f p" "0 < tm_init_tick (timers k2 h)" "tm_init_tick (timers k2 h) < RT_TICK_HALF"
      using k2(3) True by (auto simp: periods_ok_def h_def)
    have hard: "timer_list_of h k2 = Hard_timers" using ty(2) by (simp add: timer_list_of_def)
    have "rt_object_get_type h ?k3 = RT_Object_Class_Timer" "tm_init_tick (timers ?k3 h) < RT_TICK_HALF" "\<not> timer_flag RT_TIMER_FLAG_SOFT_TIMER h ?k3"
      using ty it(3) by (simp_all add: timer_flag_def clear_flag_def upd_object_def rt_object_get_type_def flag_other_set)
    then have "rt_timer_start h ?k3 = Some (RT_EOK, started h k2)" using rt_timer_start_eq [of h ?k3] by (simp add: started_clear)
    then have "fire_timer user h ?k1 = Some (rt_tick k, started h k2)"
      using True fn k2(1,4) by (simp add: fire_timer_def call_timeout_def)
    moreover have "check_inv (started h k2)" unfolding h_def
      by (rule check_inv_started) (use k2(2) ty hard it in \<open>simp_all add: h_def\<close>)
    moreover have "periods_ok (started h k2)" using k2(3) True by (intro periods_ok_started) simp_all
    moreover have "length (expired_timers (started h k2)) \<le> length (expired_timers k2)" by (rule length_expired_started [OF k2(2) hard it(2,3)])
    ultimately show ?thesis using k2(4,5) by auto
  next
    case False
    then have un: "home (timer_lists k2) h = None" using k2(6) check_invD(6) [OF k2(2)] by (cases "home (timer_lists k2) h") (auto simp: timer_inv_def)
    have "fire_timer user h ?k1 = Some (rt_tick k, ?k3)"
      using False fn k2(1,4) by (auto simp: fire_timer_def call_timeout_def Let_def)
    moreover have "expired_timers ?k3 = expired_timers k2" by (simp add: expired_timers_def timer_expired_def on_timers_def)
    ultimately show ?thesis using check_inv_clear [OF k2(2) un] periods_ok_clear [OF k2(3)] k2(4,5) by simp
  qed
qed

text \<open>When the first timer is not due, none is.\<close>

lemma head_not_expired:
  assumes inv: "check_inv k" and l: "on_timers k Hard_timers = h # hs" and e: "\<not> timer_expired (rt_tick k) h k"
  shows "expired_timers k = []"
proof -
  let ?key = "key (rt_tick k - 1) (timers k)"
  have ord: "sorted (map ?key (h # hs))" "\<forall>g\<in>set (h # hs). ?key g \<le> 0x7fffffff"
    using check_invD(5) [OF inv] l by (simp_all add: timer_order_def)
  have "\<not> timer_expired (rt_tick k) g k" if "g \<in> set (h # hs)" for g
  proof -
    have "?key h \<le> ?key g" using ord(1) that by auto
    moreover have "\<not> ?key h \<le> 1" using e expired_key [of k h] ord(2) by simp
    ultimately show ?thesis using expired_key [of k g] ord(2) that by auto
  qed
  then show ?thesis by (simp add: expired_timers_def l filter_empty_conv)
qed

lemma expired_remove_head:
  assumes inv: "check_inv k" and l: "on_timers k Hard_timers = h # hs" and e: "timer_expired (rt_tick k) h k"
  shows "length (expired_timers (timer_remove h k)) < length (expired_timers k)"
    and "on_timers (timer_remove h k) Hard_timers = hs"
proof -
  note wf = check_invD(8) [OF inv]
  have "h \<notin> set hs" using ls_wf_distinct [OF wf, of Hard_timers] l by (simp add: on_timers_def)
  then show r: "on_timers (timer_remove h k) Hard_timers = hs"
    using wf l by (auto simp: on_timers_def ls_remove_on_list filter_id_conv)
  show "length (expired_timers (timer_remove h k)) < length (expired_timers k)"
    using l e by (simp add: expired_timers_def r) (simp add: timer_expired_def)
qed

lemma rt_timer_check_loop_runs:
  assumes user: "user_ok user"
  shows "check_inv k \<Longrightarrow> length (expired_timers k) < fuel \<Longrightarrow> periods_ok k \<Longrightarrow>
    \<exists>k'. rt_timer_check_loop user fuel (rt_tick k) k = Some k' \<and> check_inv k' \<and> periods_ok k' \<and> rt_tick k' = rt_tick k
      \<and> expired_timers k' = []"
proof (induction fuel arbitrary: k)
  case (Suc fuel)
  show ?case
  proof (cases "on_timers k Hard_timers")
    case Nil
    with Suc.prems show ?thesis by (simp add: expired_timers_def)
  next
    case (Cons h hs)
    show ?thesis
    proof (cases "timer_expired (rt_tick k) h k")
      case False
      with Cons Suc.prems head_not_expired show ?thesis by simp
    next
      case True
      have ln: "home (timer_lists k) h = Some Hard_timers"
        using Cons check_invD(8) [OF Suc.prems(1)] by (metis list.set_intros(1) ls_wf_mem on_timers_def)
      note less = expired_remove_head [OF Suc.prems(1) Cons True]
      have "\<exists>k1. fire_timer user h (timer_remove h k) = Some (rt_tick k, k1) \<and> check_inv k1 \<and> periods_ok k1 \<and> rt_tick k1 = rt_tick k
          \<and> length (expired_timers k1) \<le> length (expired_timers (timer_remove h k))"
      proof (cases h)
        case (Obj n)
        then show ?thesis using fire_user_timer [OF user Suc.prems(1,3), of n] ln by simp
      next
        case (Thread_timer t)
        then obtain k1 where k1: "fire_timer user h (timer_remove h k) = Some (rt_tick k, k1)" "check_inv k1"
          "rt_tick k1 = rt_tick k" "timers k1 = timers k" "\<forall>q. on_timers k1 q = filter (\<lambda>g. g \<noteq> h) (on_timers k q)" "same_ipc k k1"
          using fire_thread_timer [OF Suc.prems(1), of t user] ln by (auto simp: timed_out_def)
        have "periods_ok k1" using periods_ok_cong [of k1 k] Suc.prems(3) k1(4,6) by (simp add: same_ipc_def)
        moreover        have "expired_timers k1 = expired_timers (timer_remove h k)"
          using k1 check_invD(8) [OF Suc.prems(1)]
          by (simp add: expired_timers_def timer_expired_def on_timers_def ls_remove_on_list)
        ultimately show ?thesis using k1 by auto
      qed
      then obtain k1 where k1: "fire_timer user h (timer_remove h k) = Some (rt_tick k, k1)" "check_inv k1" "periods_ok k1"
        "rt_tick k1 = rt_tick k" "length (expired_timers k1) \<le> length (expired_timers (timer_remove h k))" by blast
      with Suc.IH [OF k1(2) _ k1(3)] less Suc.prems(2) Cons True show ?thesis by simp
    qed
  qed
qed simp

text \<open>With the timers of threads only, the outcome is exact.\<close>

lemma rt_timer_check_loop_threads:
  shows "check_inv k \<Longrightarrow> length (expired_timers k) < fuel \<Longrightarrow> \<forall>h\<in>set (on_timers k Hard_timers). \<exists>t. h = Thread_timer t \<Longrightarrow>
    \<exists>k'. rt_timer_check_loop user fuel (rt_tick k) k = Some k' \<and> check_inv k' \<and> rt_tick k' = rt_tick k
      \<and> on_timers k' Hard_timers = filter (\<lambda>h. \<not> timer_expired (rt_tick k) h k) (on_timers k Hard_timers)
      \<and> timed_out {t. Thread_timer t \<in> set (expired_timers k)} k k'"
proof (induction fuel arbitrary: k)
  case (Suc fuel)
  show ?case
  proof (cases "on_timers k Hard_timers")
    case Nil
    with Suc.prems show ?thesis by (simp add: expired_timers_def timed_out_empty)
  next
    case (Cons h hs)
    show ?thesis
    proof (cases "timer_expired (rt_tick k) h k")
      case False
      have "expired_timers k = []" using head_not_expired [OF Suc.prems(1) Cons False] .
      moreover from this have "filter (\<lambda>h. \<not> timer_expired (rt_tick k) h k) (on_timers k Hard_timers) = on_timers k Hard_timers"
        by (auto simp: expired_timers_def filter_empty_conv filter_id_conv)
      ultimately show ?thesis using Cons False Suc.prems by (simp add: timed_out_empty)
    next
      case True
      obtain t where t: "h = Thread_timer t" using Suc.prems(3) Cons by auto
      have ln: "home (timer_lists k) h \<noteq> None"
        using Cons check_invD(8) [OF Suc.prems(1)] by (metis list.set_intros(1) ls_wf_mem on_timers_def option.distinct(1))
      note less = expired_remove_head [OF Suc.prems(1) Cons True]
      obtain k1 where k1: "fire_timer user h (timer_remove h k) = Some (rt_tick k, k1)" "check_inv k1"
        "rt_tick k1 = rt_tick k" "timers k1 = timers k" "\<forall>q. on_timers k1 q = filter (\<lambda>g. g \<noteq> h) (on_timers k q)"
        "timed_out {t} k k1"
        using fire_thread_timer [OF Suc.prems(1), of t user] ln t by auto
      have hs: "on_timers k1 Hard_timers = hs" "h \<notin> set hs"
        using k1(5) less(2) Cons check_invD(8) [OF Suc.prems(1)] ls_wf_distinct [of "timer_lists k" Hard_timers]
        by (auto simp: on_timers_def filter_id_conv ls_remove_on_list)
      have ex: "timer_expired (rt_tick k) g k1 = timer_expired (rt_tick k) g k" for g by (simp add: timer_expired_def k1(4))
      have ex1: "expired_timers k = h # expired_timers k1"
        using Cons True hs by (simp add: expired_timers_def k1(3) ex)
      have "length (expired_timers k1) < fuel" using ex1 Suc.prems(2) by simp
      moreover have "\<forall>h\<in>set (on_timers k1 Hard_timers). \<exists>t. h = Thread_timer t" using Suc.prems(3) Cons hs by auto
      ultimately obtain k2 where k2: "rt_timer_check_loop user fuel (rt_tick k1) k1 = Some k2" "check_inv k2" "rt_tick k2 = rt_tick k1"
        "on_timers k2 Hard_timers = filter (\<lambda>h. \<not> timer_expired (rt_tick k1) h k1) (on_timers k1 Hard_timers)"
        "timed_out {t. Thread_timer t \<in> set (expired_timers k1)} k1 k2" using Suc.IH [OF k1(2)] by blast
      have nt: "Thread_timer t \<notin> set (expired_timers k1)" using hs t by (simp add: expired_timers_def)
      have "timed_out (insert t {t. Thread_timer t \<in> set (expired_timers k1)}) k k2"
        using k1(6) k2(5) by (rule timed_out_trans) (use nt in simp)
      moreover have "insert t {t. Thread_timer t \<in> set (expired_timers k1)} = {t. Thread_timer t \<in> set (expired_timers k)}"
        using ex1 t by auto
      moreover have "on_timers k2 Hard_timers = filter (\<lambda>h. \<not> timer_expired (rt_tick k) h k) (on_timers k Hard_timers)"
        using k2(4) hs(1) Cons True by (simp add: k1(3) ex)
      ultimately show ?thesis using Cons True k1(1,3) k2(1-3) by simp
    qed
  qed
qed simp

section \<open>Properties\<close>

text \<open>A state with thread 3 asleep until tick 3, before and at that tick.\<close>

definition sample_asleep :: kernel where
  "sample_asleep = started (Thread_timer 3) (upd_timer (Thread_timer 3) (\<lambda>tm. tm\<lparr>tm_init_tick := 3\<rparr>) sample)"

definition sample_due :: kernel where
  "sample_due = sample_asleep\<lparr>rt_tick := 3\<rparr>"

lemma upd_timer_frame [simp, rt_frame]:
  "sched_view (upd_timer h f k) = sched_view k" "threads (upd_timer h f k) = threads k"
  "timer_lists (upd_timer h f k) = timer_lists k" "objects (upd_timer h f k) = objects k"
  "timers (upd_timer h f k) = (timers k)(h := f (timers k h))" "rt_tick (upd_timer h f k) = rt_tick k"
  "rt_current_thread (upd_timer h f k) = rt_current_thread k" "tlists (upd_timer h f k) = tlists k"
  by (simp_all add: upd_timer_def sched_view_def)

lemma sample_tick: "rt_tick sample = 0"
  by code_simp

lemma sample_asleep_facts:
  "threads sample_asleep = threads sample" "sched_view sample_asleep = sched_view sample"
  "home (timer_lists sample_asleep) = (\<lambda>_. None)(Thread_timer 3 \<mapsto> Hard_timers)"
  "on_timers sample_asleep Hard_timers = [Thread_timer 3]" "rt_tick sample_asleep = 0"
  "timers sample_asleep = (timers sample)(Thread_timer 3 := \<lparr>tm_timeout_func = Rt_thread_timeout 3, tm_init_tick = 3, tm_timeout_tick = 3\<rparr>)"
  "rt_current_thread sample_asleep = Some 1"
proof -
  have ns: "timer_list_of (Thread_timer 3) (upd_timer (Thread_timer 3) (\<lambda>tm. tm\<lparr>tm_init_tick := 3\<rparr>) sample) = Hard_timers"
    by (simp add: timer_list_of_def timer_flag_def sample_rest(3) sample_base_def zero_object_def rt_consts)
  show "home (timer_lists sample_asleep) = (\<lambda>_. None)(Thread_timer 3 \<mapsto> Hard_timers)"
    by (simp add: sample_asleep_def started_home sample_rest(2) ns ls_empty_def fun_eq_iff)
  have "ls_wf (timer_lists sample)" by (simp add: sample_rest(2))
  then show "on_timers sample_asleep Hard_timers = [Thread_timer 3]"
    by (simp add: sample_asleep_def started_list ns) (simp add: on_timers_def sample_rest(2) Let_def)
  show "timers sample_asleep = (timers sample)(Thread_timer 3 := \<lparr>tm_timeout_func = Rt_thread_timeout 3, tm_init_tick = 3, tm_timeout_tick = 3\<rparr>)"
    by (simp add: sample_asleep_def started_timers sample_tick sample_rest(4))
      (simp add: sample_base_def zero_timer_def)
qed (simp_all add: sample_asleep_def sample_tick sample_facts(7))

lemma sample_due_inv: "check_inv sample_due"
proof -
  let ?k0 = "upd_timer (Thread_timer 3) (\<lambda>tm. tm\<lparr>tm_init_tick := 3\<rparr>) sample"
  have "sched_inv sample_due"
    using sched_view_inv [of sample_due sample] sample_kernel_inv sample_asleep_facts(2)
    by (simp add: sample_due_def kernel_inv_def sched_view_def)
  moreover have "timer_inv sample_asleep" unfolding sample_asleep_def
  proof (rule started_timer_inv)
    show "timer_inv ?k0" using sample_kernel_inv by (simp add: kernel_inv_def timer_inv_def sample_rest(2))
    show "rt_object_get_type (Thread_timer 3) ?k0 = RT_Object_Class_Timer"
      using sample_is_thread [of 3] by (simp add: is_thread_def rt_object_get_type_def)
  qed
  then have "timer_inv sample_due" by (rule timer_inv_cong [THEN iffD2, rotated 2]) (simp_all add: sample_due_def)
  moreover have "stack_inv sample_due"
    using sample_stack_inv by (simp add: stack_inv_def stat_of_def rt_scheduler_stack_check_def sample_due_def sample_asleep_facts(1))
  moreover have "is_thread sample_due 3"
    using sample_is_thread [of 3]
    by (simp add: is_thread_def sample_due_def sample_asleep_def rt_object_get_type_def started_def Let_def)
  then have "timer_ok sample_due (Thread_timer 3)"
    using sample_facts(4)
    by (simp add: timer_ok_def sample_due_def sample_asleep_facts(1,6) stat_of_def timer_flag_def)
      (simp add: sample_asleep_def started_def Let_def sample_rest(3) sample_base_def zero_object_def rt_consts)
  then have "timers_ok sample_due" by (simp add: timers_ok_def sample_due_def sample_asleep_facts(3))
  moreover have "timer_order (rt_tick sample_due - 1) Hard_timers sample_due"
    by (simp add: timer_order_def sample_due_def on_timers_def)
      (simp add: sample_asleep_facts(4,6) key_def flip: on_timers_def)
  ultimately show ?thesis by (simp add: check_inv_def kernel_inv_def sample_due_def sample_asleep_facts(7))
qed

text \<open>C6: starting a timer of the hard list puts it behind every timer that expires no later and before
  every timer that expires later, counted from the current tick, so the list stays sorted and timers with the
  same expiry fire in the order they were started; this holds across the wrap-around of the 32-bit tick
  counter as long as no timer is further away than half of its range.\<close>

theorem timer_start_keeps_order:
  assumes "timer_inv k" and "rt_object_get_type h k = RT_Object_Class_Timer"
    and "tm_init_tick (timers k h) < RT_TICK_HALF" and "\<not> timer_flag RT_TIMER_FLAG_SOFT_TIMER h k"
    and "timer_order (rt_tick k - 1) Hard_timers k"
  shows "\<exists>k'. rt_timer_start h k = Some (RT_EOK, k') \<and> timer_inv k' \<and> timer_order (rt_tick k - 1) Hard_timers k'
    \<and> tm_timeout_tick (timers k' h) = rt_tick k + tm_init_tick (timers k h)
    \<and> (\<exists>as bs. on_timers k' Hard_timers = as @ h # bs \<and> filter (\<lambda>g. g \<noteq> h) (on_timers k Hard_timers) = as @ bs
         \<and> (\<forall>g\<in>set as. key (rt_tick k - 1) (timers k') g \<le> key (rt_tick k - 1) (timers k') h)
         \<and> (\<forall>g\<in>set bs. key (rt_tick k - 1) (timers k') h < key (rt_tick k - 1) (timers k') g))"
proof -
  let ?b = "rt_tick k - 1" and ?k = "started h k"
  let ?n = "key ?b (timers ?k) h" and ?xs = "filter (\<lambda>g. g \<noteq> h) (on_timers k Hard_timers)"
  let ?P = "\<lambda>g. key ?b (timers k) g \<le> ?n"
  have hard: "timer_list_of h k = Hard_timers" using assms(4) by (simp add: timer_list_of_def)
  have wf: "ls_wf (timer_lists k)" using assms(1) by (simp add: timer_inv_def)
  have tk: "rt_tick k = ?b + 1" by simp
  note o = started_order [OF wf assms(5) tk assms(3) hard]
  have same: "key ?b (timers ?k) g = key ?b (timers k) g" if "g \<in> set ?xs" for g
    using that by (simp add: key_def started_timers)
  have srt: "sorted (map (key ?b (timers k)) ?xs)" using assms(5) by (simp add: timer_order_def sorted_filter)
  have as: "\<forall>g\<in>set (takeWhile ?P ?xs). key ?b (timers ?k) g \<le> ?n"
  proof
    fix g assume "g \<in> set (takeWhile ?P ?xs)"
    then have "g \<in> set ?xs" "?P g" by (rule set_takeWhileD [THEN conjunct1], rule set_takeWhileD [THEN conjunct2])
    then show "key ?b (timers ?k) g \<le> ?n" using same by simp
  qed
  have bs: "\<forall>g\<in>set (dropWhile ?P ?xs). ?n < key ?b (timers ?k) g"
  proof
    fix g assume g: "g \<in> set (dropWhile ?P ?xs)"
    then have "g \<in> set ?xs" by (rule set_dropWhileD)
    then show "?n < key ?b (timers ?k) g" using same sorted_dropWhile_above [OF srt g] by simp
  qed
  have "rt_timer_start h k = Some (RT_EOK, ?k)" by (rule rt_timer_start_eq [OF assms(2-4)])
  moreover have "timer_inv ?k" using assms(1,2) by (rule started_timer_inv)
  moreover have "tm_timeout_tick (timers ?k h) = rt_tick k + tm_init_tick (timers k h)" by (simp add: started_timers)
  ultimately show ?thesis
    using o(1,2) as bs by (intro exI [of _ ?k] conjI exI [of _ "takeWhile ?P ?xs"] exI [of _ "dropWhile ?P ?xs"]) simp_all
qed

theorem timer_start_keeps_order_witness:
  "\<exists>k'. rt_timer_start (Thread_timer 3) sample_due = Some (RT_EOK, k') \<and> tm_timeout_tick (timers k' (Thread_timer 3)) = 6"
proof -
  note d = check_invD [OF sample_due_inv]
  have "timer_ok sample_due (Thread_timer 3)" using d(4) by (simp add: timers_ok_def sample_due_def sample_asleep_facts(3))
  then have "rt_object_get_type (Thread_timer 3) sample_due = RT_Object_Class_Timer" by (simp add: timer_ok_def is_thread_def)
  moreover have "home (timer_lists sample_due) (Thread_timer 3) = Some Hard_timers" by (simp add: sample_due_def sample_asleep_facts(3))
  then have "\<not> timer_flag RT_TIMER_FLAG_SOFT_TIMER (Thread_timer 3) sample_due"
    using d(6) by (auto simp: timer_inv_def timer_list_of_def split: if_splits)
  moreover have i: "tm_init_tick (timers sample_due (Thread_timer 3)) = 3" "rt_tick sample_due = 3"
    by (simp_all add: sample_due_def sample_asleep_facts(6))
  moreover have "(3 :: rt_tick_t) < RT_TICK_HALF" by (simp add: rt_consts)
  ultimately show ?thesis using timer_start_keeps_order [OF d(6), of "Thread_timer 3"] d(5) by auto
qed

text \<open>C5: the check of the tick interrupt, on a list of thread timers, returns after as many rounds as
  there are expired timers; it takes exactly the expired timers off the list, in every case, makes exactly
  their threads ready with the error \<^verbatim>\<open>RT_ETIMEOUT\<close>, and changes no other thread.\<close>

theorem timer_check_wakes_expired:
  assumes "check_inv k" and "length (expired_timers k) < fuel"
    and "\<forall>h\<in>set (on_timers k Hard_timers). \<exists>t. h = Thread_timer t"
  shows "\<exists>k'. rt_timer_check user fuel k = Some k' \<and> check_inv k'
    \<and> on_timers k' Hard_timers = filter (\<lambda>h. \<not> timer_expired (rt_tick k) h k) (on_timers k Hard_timers)
    \<and> (\<forall>t. if Thread_timer t \<in> set (expired_timers k)
           then stat_of k' t = RT_THREAD_READY \<and> th_error (threads k' t) = RT_ETIMEOUT
           else threads k' t = threads k t)"
  using rt_timer_check_loop_threads [OF assms, of user] unfolding rt_timer_check_def timed_out_def mem_Collect_eq by blast

lemma sample_due_timers: "on_timers sample_due Hard_timers = [Thread_timer 3]" "expired_timers sample_due = [Thread_timer 3]"
proof -
  show l: "on_timers sample_due Hard_timers = [Thread_timer 3]"
    by (simp add: sample_due_def on_timers_def) (simp add: sample_asleep_facts(4) flip: on_timers_def)
  show "expired_timers sample_due = [Thread_timer 3]"
    unfolding expired_timers_def l by (simp add: timer_expired_def sample_due_def sample_asleep_facts(6) rt_consts)
qed

theorem timer_check_wakes_expired_witness:
  "\<exists>k'. rt_timer_check (\<lambda>_ _. Some) 2 sample_due = Some k' \<and> on_timers k' Hard_timers = []
    \<and> stat_of k' 3 = RT_THREAD_READY \<and> th_error (threads k' 3) = RT_ETIMEOUT \<and> threads k' 1 = threads sample_due 1"
proof -
  have "filter (\<lambda>h. \<not> timer_expired (rt_tick sample_due) h sample_due) [Thread_timer 3] = []"
    using sample_due_timers by (auto simp: expired_timers_def split: if_splits)
  then show ?thesis
    using timer_check_wakes_expired [OF sample_due_inv, of 2 "\<lambda>_ _. Some"] sample_due_timers
    by (auto simp: all_conj_distrib split: if_splits)
qed

text \<open>C7: the check returns for every mix of thread timers and other timers, one-shot or periodic, whose periods are not zero and are below half of the tick range, when the timeout functions
  outside of the kernel keep their contract: they return, and whatever timers they start, stop or change, they make no further timer due at this tick and do not restart a one-shot timer from its own
  timeout function.  Periodic timers are started again and do not fire twice at one tick, so a number of rounds that exceeds the number of expired timers is enough, and no timer is expired
  afterwards.\<close>

theorem timer_check_terminates:
  assumes "user_ok user" and "check_inv k" and "periods_ok k" and "length (expired_timers k) < fuel"
  shows "\<exists>k'. rt_timer_check user fuel k = Some k' \<and> check_inv k' \<and> periods_ok k' \<and> rt_tick k' = rt_tick k \<and> expired_timers k' = []"
  using rt_timer_check_loop_runs [OF assms(1,2,4,3)] by (simp add: rt_timer_check_def)

lemma user_ok_idle: "user_ok (\<lambda>_ _. Some)"
  by (auto simp: user_ok_def firing_def)


text \<open>The sample at tick 3 with a periodic timer that is due, with the period \<open>x\<close>.\<close>

definition sample_user_timer :: "rt_tick_t \<Rightarrow> kernel" where
  "sample_user_timer x = upd_timer (Obj 5) (\<lambda>tm. tm\<lparr>tm_init_tick := x\<rparr>)
     (started (Obj 5) (upd_object (Obj 5) (\<lambda>ob. ob\<lparr>obj_type := RT_Object_Class_Timer, obj_flag := RT_TIMER_FLAG_PERIODIC\<rparr>)
        (upd_timer (Obj 5) (\<lambda>_. \<lparr>tm_timeout_func = User_timeout 0 0, tm_init_tick = 0, tm_timeout_tick = 0\<rparr>) sample_due)))"

lemma check_inv_objects:
  assumes inv: "check_inv k" and view: "sched_view k' = sched_view k" "timer_lists k' = timer_lists k" "rt_tick k' = rt_tick k" "rt_current_thread k' = rt_current_thread k"
    and same: "\<And>h. h \<noteq> Obj n \<Longrightarrow> timers k' h = timers k h \<and> objects k' h = objects k h"
    and un: "home (timer_lists k) (Obj n) = None" and ty: "rt_object_get_type (Obj n) k \<noteq> RT_Object_Class_Thread"
  shows "check_inv k'"
proof -
  note d = check_invD [OF inv]
  have th: "threads k' = threads k" using view(1) by (simp add: sched_view_def)
  have ln: "h \<noteq> Obj n" if "home (timer_lists k) h = Some q" for h q using that un by auto
  have it: "is_thread k' t = is_thread k t" if "is_thread k t" for t
    using that same [of "Obj t"] same [of "Thread_timer t"] ty by (cases "t = n") (auto simp: is_thread_def rt_object_get_type_def)
  have "sched_inv k'" using d(7) sched_view_inv [OF view(1)] by simp
  moreover have "timer_inv k'" using d(6) same ln by (auto simp: timer_inv_def view(2) rt_object_get_type_def timer_flag_def timer_list_of_def)
  moreover have "stack_inv k'" using d(2) th by (simp add: stack_inv_def stat_of_def rt_scheduler_stack_check_def)
  moreover have "timer_ok k' h" if h: "home (timer_lists k) h \<noteq> None" for h
  proof -
    have "timer_ok k h" "h \<noteq> Obj n" using h d(4) ln by (auto simp: timers_ok_def)
    then show ?thesis using same [of h] it th by (cases h) (simp_all add: timer_ok_def timer_flag_def stat_of_def)
  qed
  then have "timers_ok k'" by (simp add: timers_ok_def view(2))
  moreover have "\<forall>h\<in>set (on_timers k Hard_timers). timers k' h = timers k h" using d(8) un same by (metis ls_wf_mem on_timers_def option.distinct(1))
  then have "timer_order (rt_tick k - 1) Hard_timers k'"
    using d(5) by (intro timer_order_filter [of _ _ k k' "\<lambda>_. True"]) (simp_all add: on_timers_def view(2))
  ultimately show ?thesis using d(3) view by (simp add: check_inv_def kernel_inv_def)
qed


lemma check_inv_set_period:
  assumes "check_inv k"
  shows "check_inv (upd_timer (Obj n) (\<lambda>tm. tm\<lparr>tm_init_tick := x\<rparr>) k)"
proof -
  let ?k = "upd_timer (Obj n) (\<lambda>tm. tm\<lparr>tm_init_tick := x\<rparr>) k"
  note d = check_invD [OF assms]
  have "sched_inv ?k" using d(7) sched_view_inv [of ?k k] by simp
  moreover have "timer_inv ?k" using d(6) timer_inv_cong [of ?k k] by simp
  moreover have "stack_inv ?k" using d(2) by (simp add: stack_inv_def stat_of_def rt_scheduler_stack_check_def)
  moreover have "timer_ok ?k h = timer_ok k h" for h
    by (cases h) (auto simp: timer_ok_def is_thread_def rt_object_get_type_def stat_of_def timer_flag_def)
  then have "timers_ok ?k" using d(4) by (simp add: timers_ok_def)
  moreover have "key b (timers ?k) = key b (timers k)" for b by (simp add: key_def fun_eq_iff)
  then have "timer_order (rt_tick k - 1) Hard_timers ?k" using d(5) by (simp add: timer_order_def on_timers_def)
  ultimately show ?thesis using d(3) by (simp add: check_inv_def kernel_inv_def)
qed

lemma sample_user_timer_ok:
  "check_inv (sample_user_timer x)" "length (expired_timers (sample_user_timer x)) < 3" "Obj 5 \<in> set (expired_timers (sample_user_timer x))"
  "set (on_timers (sample_user_timer x) Hard_timers) = {Obj 5, Thread_timer 3}"
  "timers (sample_user_timer x) (Obj 5) = \<lparr>tm_timeout_func = User_timeout 0 0, tm_init_tick = x, tm_timeout_tick = 3\<rparr>"
  "timer_flag RT_TIMER_FLAG_PERIODIC (Obj 5) (sample_user_timer x)"
  "0 < x \<Longrightarrow> x < RT_TICK_HALF \<Longrightarrow> periods_ok (sample_user_timer x)"
proof -
  let ?t = "\<lparr>tm_timeout_func = User_timeout 0 0, tm_init_tick = 0, tm_timeout_tick = 0\<rparr>"
  let ?a = "upd_object (Obj 5) (\<lambda>ob. ob\<lparr>obj_type := RT_Object_Class_Timer, obj_flag := RT_TIMER_FLAG_PERIODIC\<rparr>) (upd_timer (Obj 5) (\<lambda>_. ?t) sample_due)"
  let ?k = "started (Obj 5) ?a" and ?s = "sample_user_timer x"
  have o: "objects sample_due (Obj n) = objects sample (Obj n)" for n by (simp add: sample_due_def sample_asleep_def started_def Let_def)
  have nt: "rt_object_get_type (Obj n) sample_due \<noteq> RT_Object_Class_Timer" "\<not> n < 4 \<Longrightarrow> rt_object_get_type (Obj n) sample_due = 0" for n
    by (auto simp: rt_object_get_type_def o sample_rest(3) sample_base_def zero_object_def rt_consts)
  have un: "home (timer_lists sample_due) (Obj 5) = None" by (simp add: sample_due_def sample_asleep_facts(3))
  have c0: "check_inv ?a"
    by (rule check_inv_objects [OF sample_due_inv, where n = 5]) (use un nt in \<open>simp_all add: upd_object_def upd_timer_def sched_view_def rt_consts\<close>)
  have hd: "timer_list_of (Obj 5) ?a = Hard_timers" "rt_object_get_type (Obj 5) ?a = RT_Object_Class_Timer" "rt_tick ?a = 3"
    by (simp_all add: timer_list_of_def timer_flag_def upd_object_def rt_object_get_type_def rt_consts sample_due_def)
  have tm: "timers ?a (Obj 5) = ?t" by (simp add: upd_object_def)
  have z: "(0 :: rt_tick_t) < RT_TICK_HALF" by (simp add: rt_consts)
  have c: "check_inv ?k" using c0 hd tm z by (intro check_inv_started) simp_all
  then show "check_inv ?s" by (simp add: sample_user_timer_def check_inv_set_period)
  have l0: "on_timers ?a Hard_timers = [Thread_timer 3]" using sample_due_timers(1) by (simp add: on_timers_def upd_object_def)
  have l: "on_timers ?s Hard_timers = on_timers ?k Hard_timers" by (simp add: sample_user_timer_def on_timers_def)
  have len: "length (on_timers ?k Hard_timers) = 2" "set (on_timers ?k Hard_timers) = {Obj 5, Thread_timer 3}"
    using started_list [OF check_invD(8) [OF c0], of "Obj 5" Hard_timers] hd(1) l0 by (auto simp: Let_def set_insert_at)
  have "length (expired_timers ?s) \<le> 2" unfolding expired_timers_def by (metis l len(1) length_filter_le)
  then show "length (expired_timers ?s) < 3" by simp
  show "set (on_timers ?s Hard_timers) = {Obj 5, Thread_timer 3}" using l len(2) by simp
  show tx: "timers ?s (Obj 5) = \<lparr>tm_timeout_func = User_timeout 0 0, tm_init_tick = x, tm_timeout_tick = 3\<rparr>"
    using tm hd(3) by (simp add: sample_user_timer_def started_timers)
  show "Obj 5 \<in> set (expired_timers ?s)" using l len(2) tx hd(3) z by (simp add: expired_timers_def timer_expired_def sample_user_timer_def)
  have fl: "timer_flag RT_TIMER_FLAG_PERIODIC g ?s = timer_flag RT_TIMER_FLAG_PERIODIC g ?a" "rt_object_get_type g ?s = rt_object_get_type g ?a" for g
    using started_flags(3) [of g "Obj 5" ?a] by (simp_all add: sample_user_timer_def timer_flag_def rt_object_get_type_def) (simp add: started_def Let_def)
  show "timer_flag RT_TIMER_FLAG_PERIODIC (Obj 5) ?s" unfolding fl by (simp add: timer_flag_def upd_object_def rt_consts)
  have "rt_object_get_type (Obj n) ?s = RT_Object_Class_Timer \<longleftrightarrow> n = 5" for n
    unfolding fl using nt(1) [of n] by (auto simp: rt_object_get_type_def upd_object_def rt_consts)
  then show "periods_ok ?s" if "0 < x" "x < RT_TICK_HALF" using that tx by (simp add: periods_ok_def)
qed

theorem timer_check_terminates_witness:
  "timer_flag RT_TIMER_FLAG_PERIODIC (Obj 5) (sample_user_timer 7) \<and> Obj 5 \<in> set (expired_timers (sample_user_timer 7))
    \<and> (\<exists>k'. rt_timer_check (\<lambda>_ _. Some) 3 (sample_user_timer 7) = Some k' \<and> check_inv k' \<and> expired_timers k' = [])"
proof -
  have "(0 :: rt_tick_t) < 7" "(7 :: rt_tick_t) < RT_TICK_HALF" by (simp_all add: rt_consts)
  from timer_check_terminates [OF user_ok_idle sample_user_timer_ok(1) sample_user_timer_ok(7) [OF this] sample_user_timer_ok(2)]
  show ?thesis using sample_user_timer_ok(3,6) by blast
qed

text \<open>The condition on the periods cannot be left out.  The code accepts a period of zero; a periodic timer with that period is due again as soon as it is started, and the check of
  the tick interrupt never returns, even for a timeout function that does nothing: no number of rounds is enough.\<close>

lemma zero_period_step:
  assumes inv: "check_inv k" and e: "Obj n \<in> set (expired_timers k)" and per: "timer_flag RT_TIMER_FLAG_PERIODIC (Obj n) k"
    and tm: "tm_init_tick (timers k (Obj n)) = 0" "tm_timeout_func (timers k (Obj n)) = User_timeout f p" and user: "\<And>k. user f p k = Some k"
    and l: "on_timers k Hard_timers = Obj n # hs"
  obtains k' where "fire_timer user (Obj n) (timer_remove (Obj n) k) = Some (rt_tick k, k')" "k' = started (Obj n) (timer_remove (Obj n) k)" "check_inv k'"
    "Obj n \<in> set (expired_timers k')" "set (on_timers k' Hard_timers) \<subseteq> set (on_timers k Hard_timers)"
proof -
  let ?h = "Obj n" and ?k1 = "timer_remove (Obj n) k"
  have ln: "home (timer_lists k) ?h = Some Hard_timers" using l check_invD(8) [OF inv] by (metis list.set_intros(1) ls_wf_mem on_timers_def)
  then have fl: "timer_flag RT_TIMER_FLAG_ACTIVATED ?h ?k1" "rt_object_get_type ?h ?k1 = RT_Object_Class_Timer" "\<not> timer_flag RT_TIMER_FLAG_SOFT_TIMER ?h ?k1"
    using check_invD(6) [OF inv] by (auto simp: timer_inv_def timer_flag_def rt_object_get_type_def timer_list_of_def split: if_splits)
  have inv1: "check_inv ?k1" using inv by (rule check_inv_remove)
  have hard: "timer_list_of ?h ?k1 = Hard_timers" using fl(3) by (simp add: timer_list_of_def)
  have it: "tm_init_tick (timers ?k1 ?h) < RT_TICK_HALF" "tm_init_tick (timers ?k1 ?h) = 0" using tm(1) by (simp_all add: rt_consts)
  let ?k2 = "clear_flag RT_TIMER_FLAG_ACTIVATED ?h ?k1"
  have "rt_object_get_type ?h ?k2 = RT_Object_Class_Timer" "tm_init_tick (timers ?k2 ?h) < RT_TICK_HALF" "\<not> timer_flag RT_TIMER_FLAG_SOFT_TIMER ?h ?k2"
    using fl it(1) by (simp_all add: timer_flag_def clear_flag_def upd_object_def rt_object_get_type_def flag_other_set)
  from rt_timer_start_eq [OF this] have "rt_timer_start ?h ?k2 = Some (RT_EOK, started ?h ?k1)" by (simp add: started_clear)
  then have "fire_timer user ?h ?k1 = Some (rt_tick k, started ?h ?k1)" using per fl(1) tm(2) user by (simp add: fire_timer_def call_timeout_def timer_flag_def)
  moreover have "check_inv (started ?h ?k1)" using inv1 fl(2) hard tm(2) it(1) by (intro check_inv_started) simp_all
  moreover have "?h \<in> set (expired_timers (started ?h ?k1))" using expired_started(1) [OF inv1 hard it(1)] it(2) by simp
  moreover have "set (on_timers (started ?h ?k1) Hard_timers) \<subseteq> set (on_timers k Hard_timers)"
    using started_list [OF check_invD(8) [OF inv1], of ?h Hard_timers] hard l ls_remove_on_list [OF check_invD(8) [OF inv]]
    by (auto simp: Let_def on_timers_def dest: in_set_takeD in_set_dropD)
  ultimately show ?thesis using that by blast
qed

theorem timer_check_zero_period:
  assumes "check_inv k" and "Obj n \<in> set (expired_timers k)" and "timer_flag RT_TIMER_FLAG_PERIODIC (Obj n) k"
    and "tm_init_tick (timers k (Obj n)) = 0" and "tm_timeout_func (timers k (Obj n)) = User_timeout f p" and "\<forall>k. user f p k = Some k"
    and "\<forall>h\<in>set (on_timers k Hard_timers). h = Obj n \<or> (\<exists>t. h = Thread_timer t)"
  shows "rt_timer_check user fuel k = None"
  unfolding rt_timer_check_def using assms(1-5,7)
proof (induction fuel arbitrary: k)
  case (Suc fuel)
  then obtain h hs where l: "on_timers k Hard_timers = h # hs" by (cases "on_timers k Hard_timers") (auto simp: expired_timers_def)
  have e: "timer_expired (rt_tick k) h k" using head_not_expired [OF Suc.prems(1) l] Suc.prems(2) by force
  show ?case
  proof (cases "h = Obj n")
    case True
    obtain k' where k': "fire_timer user h (timer_remove h k) = Some (rt_tick k, k')" "k' = started h (timer_remove h k)" "check_inv k'"
      "Obj n \<in> set (expired_timers k')" "set (on_timers k' Hard_timers) \<subseteq> set (on_timers k Hard_timers)"
      using zero_period_step [OF Suc.prems(1-5) _ l [unfolded True]] assms(6) True by metis
    have "timer_flag RT_TIMER_FLAG_PERIODIC (Obj n) k'" "tm_init_tick (timers k' (Obj n)) = 0" "tm_timeout_func (timers k' (Obj n)) = User_timeout f p" "rt_tick k' = rt_tick k"
      using Suc.prems(3-5) True by (simp_all add: k'(2) started_flags started_timers timer_flag_def) (simp add: started_def Let_def timer_flag_def flag_other_set)
    with Suc.IH [OF k'(3,4)] Suc.prems(6) k'(1,5) l e show ?thesis by (auto simp: subset_iff)
  next
    case False
    then obtain t where t: "h = Thread_timer t" using Suc.prems(6) l by auto
    have "home (timer_lists k) h \<noteq> None" using l check_invD(8) [OF Suc.prems(1)] by (metis list.set_intros(1) ls_wf_mem on_timers_def option.distinct(1))
    then obtain k' where k': "fire_timer user h (timer_remove h k) = Some (rt_tick k, k')" "check_inv k'" "rt_tick k' = rt_tick k" "timers k' = timers k"
      "\<forall>q. on_timers k' q = filter (\<lambda>g. g \<noteq> h) (on_timers k q)" "timed_out {t} k k'" using fire_thread_timer [OF Suc.prems(1), of t user] t by auto
    have "expired_timers k' = filter (\<lambda>g. g \<noteq> h) (expired_timers k)" using k'(3-5) by (intro expired_filter) simp_all
    then have "Obj n \<in> set (expired_timers k')" using Suc.prems(2) t by simp
    moreover have "timer_flag RT_TIMER_FLAG_PERIODIC (Obj n) k'" using k'(6) Suc.prems(3) by (simp add: timed_out_def)
    ultimately show ?thesis using Suc.IH [OF k'(2)] Suc.prems(4-6) k'(1,3-5) l e by auto
  qed
qed simp

theorem timer_check_zero_period_witness: "rt_timer_check (\<lambda>_ _. Some) 100 (sample_user_timer 0) = None"
  by (rule timer_check_zero_period [OF sample_user_timer_ok(1,3,6)]) (simp_all add: sample_user_timer_ok)

end
