(* ===== verification/RT_System.thy ===== *)
theory RT_System
  imports RT_Timer_Run
begin

text \<open>
  The invariant of the running system, \<open>sys_inv\<close>, and what the moves the blocking services are made of
  do to it: suspending the running thread, putting it on a wait list, starting its timer, waking a thread
  and calling the scheduler.  Each service is one of these moves next to an update of its own object.

  A service that blocks is modelled in two parts, before and after the call of \<^verbatim>\<open>rt_schedule\<close> in its
  middle.  The first part returns an \<open>outcome\<close>: either the service is finished, or the calling
  thread stands behind \<^verbatim>\<open>rt_schedule\<close> and goes on with the second part, the \<open>_back\<close> function,
  when it is the running thread again.
\<close>

datatype 'a outcome = Finished 'a | Waiting tid

section \<open>The invariant\<close>

definition thread_timer_ok :: "kernel \<Rightarrow> tid \<Rightarrow> bool" where
  "thread_timer_ok k t \<longleftrightarrow> tm_timeout_func (timers k (Thread_timer t)) = Rt_thread_timeout t
     \<and> \<not> timer_flag RT_TIMER_FLAG_SOFT_TIMER (Thread_timer t) k \<and> \<not> timer_flag RT_TIMER_FLAG_PERIODIC (Thread_timer t) k"

definition alive :: "kernel \<Rightarrow> tid \<Rightarrow> bool" where
  "alive k t \<longleftrightarrow> stat_of k t = RT_THREAD_READY \<or> stat_of k t = RT_THREAD_SUSPEND"

definition threads_ok :: "kernel \<Rightarrow> bool" where
  "threads_ok k \<longleftrightarrow> (\<forall>t. alive k t \<longrightarrow> is_thread k t \<and> thread_timer_ok k t)"

text \<open>No timer is overdue by a tick or more.\<close>

definition on_time :: "kernel \<Rightarrow> bool" where
  "on_time k \<longleftrightarrow> (\<forall>h\<in>set (on_timers k Hard_timers). 1 \<le> key (rt_tick k - 1) (timers k) h)"

definition sys_inv :: "kernel \<Rightarrow> bool" where
  "sys_inv k \<longleftrightarrow> check_inv k \<and> threads_ok k \<and> on_time k"

lemma sys_invD:
  assumes "sys_inv k"
  shows "check_inv k" "threads_ok k" "on_time k" "kernel_inv k" "sched_inv k" "timer_inv k" "stack_inv k"
    "rt_current_thread k \<noteq> None"
  using assms by (simp_all add: sys_inv_def check_inv_def kernel_inv_def)

lemma sys_inv_thread: "sys_inv k \<Longrightarrow> alive k t \<Longrightarrow> is_thread k t \<and> thread_timer_ok k t"
  by (simp add: sys_inv_def threads_ok_def)

lemma aliveI: "stat_of k t = RT_THREAD_READY \<Longrightarrow> alive k t" "stat_of k t = RT_THREAD_SUSPEND \<Longrightarrow> alive k t"
  by (simp_all add: alive_def)

text \<open>Changes outside of threads and timers.\<close>

lemma sys_inv_lists:
  assumes "sched_inv k'" and th: "threads k' = threads k" and "timers k' = timers k" and "timer_lists k' = timer_lists k"
    and "objects k' = objects k" and "rt_tick k' = rt_tick k" and "rt_current_thread k' \<noteq> None" and inv: "sys_inv k"
  shows "sys_inv k'"
proof -
  note d = sys_invD [OF inv]
  have "kernel_inv k'"
    using d(4) assms(1) timer_inv_cong [OF assms(4,5)] by (simp add: kernel_inv_def)
  moreover have "stack_inv k'"
    using d(7) by (simp add: stack_inv_def stat_of_def rt_scheduler_stack_check_def th)
  moreover have "timer_ok k' h = timer_ok k h" for h
    by (rule timer_ok_cong) (simp_all add: assms timer_flag_def is_thread_def rt_object_get_type_def stat_of_def)
  then have "timers_ok k'" using check_invD(4) [OF d(1)] by (simp add: timers_ok_def assms(4))
  moreover have "timer_order (rt_tick k' - 1) Hard_timers k'"
    using check_invD(5) [OF d(1)] by (simp add: timer_order_def on_timers_def assms)
  moreover have "threads_ok k'"
    using d(2) by (simp add: threads_ok_def alive_def stat_of_def th is_thread_def rt_object_get_type_def
        thread_timer_ok_def timer_flag_def assms)
  moreover have "on_time k'" using d(3) by (simp add: on_time_def on_timers_def assms)
  ultimately show ?thesis using assms(7) by (simp add: sys_inv_def check_inv_def)
qed

lemma sys_inv_cong:
  assumes "sched_view k' = sched_view k" and "timers k' = timers k" and "timer_lists k' = timer_lists k"
    and "objects k' = objects k" and "rt_tick k' = rt_tick k" and "rt_current_thread k' \<noteq> None" and "sys_inv k"
  shows "sys_inv k'"
  using assms(1) sched_view_inv [OF assms(1)] sys_invD(5) [OF assms(7)]
  by (intro sys_inv_lists [OF _ _ assms(2-7)]) (simp_all add: sched_view_def)

lemma sys_inv_run: "sys_inv k \<Longrightarrow> sys_inv (k\<lparr>rt_current_thread := Some t\<rparr>)"
  by (rule sys_inv_cong [of _ k]) (simp_all add: sched_view_def)

lemma upd_thread_ipc_frame [simp, rt_frame]:
  "sems (upd_thread t f k) = sems k" "mutexes (upd_thread t f k) = mutexes k" "events (upd_thread t f k) = events k"
  "mailboxes (upd_thread t f k) = mailboxes k" "mqs (upd_thread t f k) = mqs k" "mempools (upd_thread t f k) = mempools k"
  "completions (upd_thread t f k) = completions k" "dataqs (upd_thread t f k) = dataqs k"
  by (simp_all add: upd_thread_def)

text \<open>What an update of one object leaves unchanged.\<close>

lemma upd_sem_frame [simp, rt_frame]:
  "threads (upd_sem s f k) = threads k" "tlists (upd_sem s f k) = tlists k" "on_tlist (upd_sem s f k) = on_tlist k"
  "stat_of (upd_sem s f k) = stat_of k" "prio_of (upd_sem s f k) = prio_of k" "timers (upd_sem s f k) = timers k"
  "timer_lists (upd_sem s f k) = timer_lists k" "objects (upd_sem s f k) = objects k" "object_lists (upd_sem s f k) = object_lists k"
  "rt_current_thread (upd_sem s f k) = rt_current_thread k" "rt_scheduler_lock_nest (upd_sem s f k) = rt_scheduler_lock_nest k" "rt_interrupt_nest (upd_sem s f k) = rt_interrupt_nest k"
  "rt_tick (upd_sem s f k) = rt_tick k" "mutexes (upd_sem s f k) = mutexes k" "events (upd_sem s f k) = events k"
  "mailboxes (upd_sem s f k) = mailboxes k" "mqs (upd_sem s f k) = mqs k" "sems (upd_sem s f k) = (sems k)(s := f (sems k s))"
  "rt_object_get_type h (upd_sem s f k) = rt_object_get_type h k" "sched_view (upd_sem s f k) = sched_view k"
  by (simp_all add: upd_sem_def sched_view_def on_tlist_def stat_of_def prio_of_def rt_object_get_type_def fun_eq_iff)

lemma upd_mutex_frame [simp, rt_frame]:
  "threads (upd_mutex s f k) = threads k" "tlists (upd_mutex s f k) = tlists k" "on_tlist (upd_mutex s f k) = on_tlist k"
  "stat_of (upd_mutex s f k) = stat_of k" "prio_of (upd_mutex s f k) = prio_of k" "timers (upd_mutex s f k) = timers k"
  "timer_lists (upd_mutex s f k) = timer_lists k" "objects (upd_mutex s f k) = objects k" "object_lists (upd_mutex s f k) = object_lists k"
  "rt_current_thread (upd_mutex s f k) = rt_current_thread k" "rt_scheduler_lock_nest (upd_mutex s f k) = rt_scheduler_lock_nest k" "rt_interrupt_nest (upd_mutex s f k) = rt_interrupt_nest k"
  "rt_tick (upd_mutex s f k) = rt_tick k" "sems (upd_mutex s f k) = sems k" "events (upd_mutex s f k) = events k"
  "mailboxes (upd_mutex s f k) = mailboxes k" "mqs (upd_mutex s f k) = mqs k" "mutexes (upd_mutex s f k) = (mutexes k)(s := f (mutexes k s))"
  "rt_object_get_type h (upd_mutex s f k) = rt_object_get_type h k" "sched_view (upd_mutex s f k) = sched_view k"
  by (simp_all add: upd_mutex_def sched_view_def on_tlist_def stat_of_def prio_of_def rt_object_get_type_def fun_eq_iff)

lemma upd_event_frame [simp, rt_frame]:
  "threads (upd_event s f k) = threads k" "tlists (upd_event s f k) = tlists k" "on_tlist (upd_event s f k) = on_tlist k"
  "stat_of (upd_event s f k) = stat_of k" "prio_of (upd_event s f k) = prio_of k" "timers (upd_event s f k) = timers k"
  "timer_lists (upd_event s f k) = timer_lists k" "objects (upd_event s f k) = objects k" "object_lists (upd_event s f k) = object_lists k"
  "rt_current_thread (upd_event s f k) = rt_current_thread k" "rt_scheduler_lock_nest (upd_event s f k) = rt_scheduler_lock_nest k" "rt_interrupt_nest (upd_event s f k) = rt_interrupt_nest k"
  "rt_tick (upd_event s f k) = rt_tick k" "sems (upd_event s f k) = sems k" "mutexes (upd_event s f k) = mutexes k"
  "mailboxes (upd_event s f k) = mailboxes k" "mqs (upd_event s f k) = mqs k" "events (upd_event s f k) = (events k)(s := f (events k s))"
  "rt_object_get_type h (upd_event s f k) = rt_object_get_type h k" "sched_view (upd_event s f k) = sched_view k"
  by (simp_all add: upd_event_def sched_view_def on_tlist_def stat_of_def prio_of_def rt_object_get_type_def fun_eq_iff)

lemma upd_mb_frame [simp, rt_frame]:
  "threads (upd_mb s f k) = threads k" "tlists (upd_mb s f k) = tlists k" "on_tlist (upd_mb s f k) = on_tlist k"
  "stat_of (upd_mb s f k) = stat_of k" "prio_of (upd_mb s f k) = prio_of k" "timers (upd_mb s f k) = timers k"
  "timer_lists (upd_mb s f k) = timer_lists k" "objects (upd_mb s f k) = objects k" "object_lists (upd_mb s f k) = object_lists k"
  "rt_current_thread (upd_mb s f k) = rt_current_thread k" "rt_scheduler_lock_nest (upd_mb s f k) = rt_scheduler_lock_nest k" "rt_interrupt_nest (upd_mb s f k) = rt_interrupt_nest k"
  "rt_tick (upd_mb s f k) = rt_tick k" "sems (upd_mb s f k) = sems k" "mutexes (upd_mb s f k) = mutexes k"
  "events (upd_mb s f k) = events k" "mqs (upd_mb s f k) = mqs k" "mailboxes (upd_mb s f k) = (mailboxes k)(s := f (mailboxes k s))"
  "rt_object_get_type h (upd_mb s f k) = rt_object_get_type h k" "sched_view (upd_mb s f k) = sched_view k"
  by (simp_all add: upd_mb_def sched_view_def on_tlist_def stat_of_def prio_of_def rt_object_get_type_def fun_eq_iff)

lemma upd_mq_frame [simp, rt_frame]:
  "threads (upd_mq s f k) = threads k" "tlists (upd_mq s f k) = tlists k" "on_tlist (upd_mq s f k) = on_tlist k"
  "stat_of (upd_mq s f k) = stat_of k" "prio_of (upd_mq s f k) = prio_of k" "timers (upd_mq s f k) = timers k"
  "timer_lists (upd_mq s f k) = timer_lists k" "objects (upd_mq s f k) = objects k" "object_lists (upd_mq s f k) = object_lists k"
  "rt_current_thread (upd_mq s f k) = rt_current_thread k" "rt_scheduler_lock_nest (upd_mq s f k) = rt_scheduler_lock_nest k" "rt_interrupt_nest (upd_mq s f k) = rt_interrupt_nest k"
  "rt_tick (upd_mq s f k) = rt_tick k" "sems (upd_mq s f k) = sems k" "mutexes (upd_mq s f k) = mutexes k"
  "events (upd_mq s f k) = events k" "mailboxes (upd_mq s f k) = mailboxes k" "mqs (upd_mq s f k) = (mqs k)(s := f (mqs k s))"
  "rt_object_get_type h (upd_mq s f k) = rt_object_get_type h k" "sched_view (upd_mq s f k) = sched_view k"
  by (simp_all add: upd_mq_def sched_view_def on_tlist_def stat_of_def prio_of_def rt_object_get_type_def fun_eq_iff)

lemma upd_mp_frame [simp, rt_frame]:
  "threads (upd_mp s f k) = threads k" "tlists (upd_mp s f k) = tlists k" "on_tlist (upd_mp s f k) = on_tlist k"
  "stat_of (upd_mp s f k) = stat_of k" "prio_of (upd_mp s f k) = prio_of k" "timers (upd_mp s f k) = timers k"
  "timer_lists (upd_mp s f k) = timer_lists k" "objects (upd_mp s f k) = objects k" "object_lists (upd_mp s f k) = object_lists k"
  "rt_current_thread (upd_mp s f k) = rt_current_thread k" "rt_scheduler_lock_nest (upd_mp s f k) = rt_scheduler_lock_nest k" "rt_interrupt_nest (upd_mp s f k) = rt_interrupt_nest k"
  "rt_tick (upd_mp s f k) = rt_tick k" "sems (upd_mp s f k) = sems k" "mutexes (upd_mp s f k) = mutexes k"
  "events (upd_mp s f k) = events k" "mailboxes (upd_mp s f k) = mailboxes k" "mqs (upd_mp s f k) = mqs k" "mempools (upd_mp s f k) = (mempools k)(s := f (mempools k s))"
  "rt_object_get_type h (upd_mp s f k) = rt_object_get_type h k" "completions (upd_mp s f k) = completions k" "dataqs (upd_mp s f k) = dataqs k"
  "sched_view (upd_mp s f k) = sched_view k"
  by (simp_all add: upd_mp_def sched_view_def on_tlist_def stat_of_def prio_of_def rt_object_get_type_def fun_eq_iff)

lemma upd_cp_frame [simp, rt_frame]:
  "threads (upd_cp s f k) = threads k" "tlists (upd_cp s f k) = tlists k" "on_tlist (upd_cp s f k) = on_tlist k"
  "stat_of (upd_cp s f k) = stat_of k" "prio_of (upd_cp s f k) = prio_of k" "timers (upd_cp s f k) = timers k"
  "timer_lists (upd_cp s f k) = timer_lists k" "objects (upd_cp s f k) = objects k" "object_lists (upd_cp s f k) = object_lists k"
  "rt_current_thread (upd_cp s f k) = rt_current_thread k" "rt_scheduler_lock_nest (upd_cp s f k) = rt_scheduler_lock_nest k" "rt_interrupt_nest (upd_cp s f k) = rt_interrupt_nest k"
  "rt_tick (upd_cp s f k) = rt_tick k" "sems (upd_cp s f k) = sems k" "mutexes (upd_cp s f k) = mutexes k"
  "events (upd_cp s f k) = events k" "mailboxes (upd_cp s f k) = mailboxes k" "mqs (upd_cp s f k) = mqs k" "completions (upd_cp s f k) = (completions k)(s := f (completions k s))"
  "rt_object_get_type h (upd_cp s f k) = rt_object_get_type h k" "mempools (upd_cp s f k) = mempools k" "dataqs (upd_cp s f k) = dataqs k"
  "sched_view (upd_cp s f k) = sched_view k"
  by (simp_all add: upd_cp_def sched_view_def on_tlist_def stat_of_def prio_of_def rt_object_get_type_def fun_eq_iff)

lemma upd_dq_frame [simp, rt_frame]:
  "threads (upd_dq s f k) = threads k" "tlists (upd_dq s f k) = tlists k" "on_tlist (upd_dq s f k) = on_tlist k"
  "stat_of (upd_dq s f k) = stat_of k" "prio_of (upd_dq s f k) = prio_of k" "timers (upd_dq s f k) = timers k"
  "timer_lists (upd_dq s f k) = timer_lists k" "objects (upd_dq s f k) = objects k" "object_lists (upd_dq s f k) = object_lists k"
  "rt_current_thread (upd_dq s f k) = rt_current_thread k" "rt_scheduler_lock_nest (upd_dq s f k) = rt_scheduler_lock_nest k" "rt_interrupt_nest (upd_dq s f k) = rt_interrupt_nest k"
  "rt_tick (upd_dq s f k) = rt_tick k" "sems (upd_dq s f k) = sems k" "mutexes (upd_dq s f k) = mutexes k"
  "events (upd_dq s f k) = events k" "mailboxes (upd_dq s f k) = mailboxes k" "mqs (upd_dq s f k) = mqs k" "dataqs (upd_dq s f k) = (dataqs k)(s := f (dataqs k s))"
  "rt_object_get_type h (upd_dq s f k) = rt_object_get_type h k" "mempools (upd_dq s f k) = mempools k" "completions (upd_dq s f k) = completions k"
  "sched_view (upd_dq s f k) = sched_view k"
  by (simp_all add: upd_dq_def sched_view_def on_tlist_def stat_of_def prio_of_def rt_object_get_type_def fun_eq_iff)

lemma sys_inv_upd_obj [simp]:
  "sys_inv (upd_sem s f1 k) = sys_inv k" "sys_inv (upd_mutex s f2 k) = sys_inv k" "sys_inv (upd_event s f3 k) = sys_inv k"
  "sys_inv (upd_mb s f4 k) = sys_inv k" "sys_inv (upd_mq s f5 k) = sys_inv k" "sys_inv (upd_mp s f6 k) = sys_inv k"
  "sys_inv (upd_cp s f7 k) = sys_inv k" "sys_inv (upd_dq s f8 k) = sys_inv k"
proof -
  have eq: "sys_inv k' = sys_inv k"
    if "sched_view k' = sched_view k" "timers k' = timers k" "timer_lists k' = timer_lists k" "objects k' = objects k"
      "rt_tick k' = rt_tick k" "rt_current_thread k' = rt_current_thread k" for k'
    using sys_inv_cong [of k' k] sys_inv_cong [of k k'] that sys_invD(8) by metis
  show "sys_inv (upd_sem s f1 k) = sys_inv k" "sys_inv (upd_mutex s f2 k) = sys_inv k" "sys_inv (upd_event s f3 k) = sys_inv k"
    "sys_inv (upd_mb s f4 k) = sys_inv k" "sys_inv (upd_mq s f5 k) = sys_inv k" "sys_inv (upd_mp s f6 k) = sys_inv k"
  "sys_inv (upd_cp s f7 k) = sys_inv k" "sys_inv (upd_dq s f8 k) = sys_inv k"
    by (rule eq; simp add: upd_defs sched_view_def)+
qed

text \<open>Changes of the header of an object that is neither a living thread nor a linked timer.\<close>

lemma sys_inv_objects:
  assumes inv: "sys_inv k" and view: "sched_view k' = sched_view k" "timers k' = timers k" "timer_lists k' = timer_lists k"
      "rt_tick k' = rt_tick k" "rt_current_thread k' = rt_current_thread k"
    and obs: "\<And>h. h \<noteq> g \<Longrightarrow> objects k' h = objects k h"
    and g: "rt_object_get_type g k \<noteq> RT_Object_Class_Thread" "rt_object_get_type g k \<noteq> RT_Object_Class_Timer"
  shows "sys_inv k'"
proof -
  note d = sys_invD [OF inv]
  have th: "threads k' = threads k" using view(1) by (simp add: sched_view_def)
  have st: "stat_of k' = stat_of k" by (simp add: stat_of_def th fun_eq_iff)
  have al: "Obj t \<noteq> g \<and> Thread_timer t \<noteq> g" if "alive k t" for t
    using sys_inv_thread [OF inv that] g by (auto simp: is_thread_def)
  have ln: "h \<noteq> g" if "home (timer_lists k) h = Some q" for h q
    using d(6) that g by (auto simp: timer_inv_def)
  have ty: "rt_object_get_type h k' = rt_object_get_type h k" and fl: "timer_flag f h k' = timer_flag f h k" if "h \<noteq> g" for f h
    using obs [OF that] by (simp_all add: rt_object_get_type_def timer_flag_def)
  have "sched_inv k'" using d(5) sched_view_inv [OF view(1)] by simp
  moreover have "timer_inv k'"
    using d(6) ln by (auto simp: timer_inv_def view(3) ty fl timer_list_of_def)
  moreover have "stack_inv k'" using d(7) by (simp add: stack_inv_def st rt_scheduler_stack_check_def th)
  moreover have "timers_ok k'"
    unfolding timers_ok_def view(3)
  proof (intro allI impI)
    fix h assume "home (timer_lists k) h \<noteq> None"
    then have h: "timer_ok k h" "h \<noteq> g" using check_invD(4) [OF d(1)] ln by (auto simp: timers_ok_def)
    have "timer_ok k' h = timer_ok k h"
    proof (rule timer_ok_cong)
      fix t assume t: "h = Thread_timer t"
      then have "alive k t" using h(1) by (simp add: timer_ok_def alive_def)
      then show "is_thread k' t = is_thread k t \<and> stat_of k' t = stat_of k t" using al by (simp add: is_thread_def ty st)
    qed (simp_all add: view(2) fl h(2))
    then show "timer_ok k' h" using h(1) by simp
  qed
  moreover have "timer_order (rt_tick k' - 1) Hard_timers k'"
    using check_invD(5) [OF d(1)] by (simp add: timer_order_def on_timers_def view)
  moreover have "threads_ok k'"
    using d(2) al by (auto simp: threads_ok_def alive_def st is_thread_def ty thread_timer_ok_def fl view(2))
  moreover have "on_time k'" using d(3) by (simp add: on_time_def on_timers_def view)
  ultimately show ?thesis using d(8) view(5) by (simp add: sys_inv_def check_inv_def kernel_inv_def)
qed

lemma sys_inv_detach:
  assumes "sys_inv k" and "rt_object_get_type h k \<noteq> RT_Object_Class_Thread" "rt_object_get_type h k \<noteq> RT_Object_Class_Timer"
  shows "sys_inv (rt_object_detach h k)"
  by (rule sys_inv_objects [OF assms(1), where g = h])
    (simp_all add: assms rt_object_detach_def unlink_object_def upd_object_def sched_view_def)

lemma sys_inv_delete:
  assumes "sys_inv k" and "rt_object_get_type h k \<noteq> RT_Object_Class_Thread" "rt_object_get_type h k \<noteq> RT_Object_Class_Timer"
    and "\<not> rt_object_is_systemobject h k"
  shows "\<exists>k'. rt_object_delete h k = Some k' \<and> sys_inv k' \<and> threads k' = threads k \<and> tlists k' = tlists k \<and> h \<in> set (freed k')"
proof -
  let ?k = "unlink_object h (upd_object h (\<lambda>ob. ob\<lparr>obj_type := 0\<rparr>) k)"
  have "sys_inv (?k\<lparr>freed := h # freed ?k\<rparr>)"
    by (rule sys_inv_objects [OF assms(1), where g = h])
      (simp_all add: assms unlink_object_def upd_object_def sched_view_def)
  then show ?thesis using assms(4) by (simp add: rt_object_delete_def rt_object_is_systemobject_def)
      (simp add: unlink_object_def upd_object_def)
qed

section \<open>The scheduler\<close>

lemma sys_schedule:
  assumes inv: "sys_inv k" and u: "stat_of k u = RT_THREAD_READY"
  shows "\<exists>k'. rt_schedule k = Some k' \<and> sys_inv k' \<and> same_ipc k k' \<and> threads k' = threads k \<and> tlists k' = tlists k
    \<and> timers k' = timers k \<and> timer_lists k' = timer_lists k \<and> objects k' = objects k
    \<and> (if rt_scheduler_lock_nest k = 0 then \<exists>t. rt_current_thread k' = Some t \<and> first_ready k' t else k' = k)"
proof -
  note d = sys_invD [OF inv]
  obtain k' where sc: "rt_schedule k = Some k'" using schedule_total [OF d(5) u d(7,8)] by blast
  note v = rt_schedule_view [OF sc]
  have cur: "if rt_scheduler_lock_nest k = 0 then \<exists>t. rt_current_thread k' = Some t \<and> first_ready k' t else k' = k"
    using rt_schedule_picks [OF d(5) sc _ u] sc by (auto simp: rt_schedule_def)
  then have "rt_current_thread k' \<noteq> None" using d(8) by (auto split: if_splits)
  then have "sys_inv k'" using v inv by (intro sys_inv_cong [of k' k]) simp_all
  then show ?thesis using sc v cur same_ipc_schedule [OF sc] by blast
qed

section \<open>Suspending and waking\<close>

lemma sys_inv_timer_off:
  assumes inv: "sys_inv k" and k': "kernel_inv k'" "stack_inv k'" "rt_current_thread k' \<noteq> None" "timer_off t k k'" "same_ipc k k'"
    and th: "\<forall>u. u \<noteq> t \<longrightarrow> threads k' u = threads k u" and t: "alive k t"
  shows "sys_inv k'"
proof -
  note d = sys_invD [OF inv]
  have off: "home (timer_lists k') = (home (timer_lists k))(Thread_timer t := None)"
    "on_timers k' q = filter (\<lambda>g. g \<noteq> Thread_timer t) (on_timers k q)" "timers k' = timers k"
    "timer_flag RT_TIMER_FLAG_SOFT_TIMER g k' = timer_flag RT_TIMER_FLAG_SOFT_TIMER g k"
    "timer_flag RT_TIMER_FLAG_PERIODIC g k' = timer_flag RT_TIMER_FLAG_PERIODIC g k" for g q
    using k'(4) by (simp_all add: timer_off_def)
  have it: "is_thread k' u = is_thread k u" for u using k'(5) by (rule is_thread_same_ipc)
  have st: "stat_of k' u = stat_of k u" if "u \<noteq> t" for u using th that by (simp add: stat_of_def)
  have "timer_ok k' h = timer_ok k h" if "h \<noteq> Thread_timer t" for h
    using that by (intro timer_ok_cong) (auto simp: off it st)
  then have "timers_ok k'" using check_invD(4) [OF d(1)] by (auto simp: timers_ok_def off(1))
  moreover have tick: "rt_tick k' = rt_tick k" using k'(5) by (simp add: same_ipc_def)
  moreover have "timer_order (rt_tick k - 1) Hard_timers k'"
    using check_invD(5) [OF d(1)] off(2) by (rule timer_order_filter) (simp add: off(3))
  moreover have "alive k u" if "alive k' u" for u using that t st [of u] by (cases "u = t") (auto simp: alive_def)
  then have "threads_ok k'" using d(2) by (simp add: threads_ok_def thread_timer_ok_def off it)
  moreover have "on_time k'" using d(3) by (simp add: on_time_def off tick)
  ultimately show ?thesis using k' by (simp add: sys_inv_def check_inv_def)
qed

lemma sys_suspend:
  assumes inv: "sys_inv k" and st: "stat_of k t = RT_THREAD_READY"
  shows "\<exists>k'. rt_thread_suspend t k = Some (RT_EOK, k') \<and> sys_inv k' \<and> same_ipc k k' \<and> timer_off t k k'
    \<and> threads k' = (threads k)(t := set_stat RT_THREAD_SUSPEND (threads k t)) \<and> tlists k' = ls_remove t (tlists k)
    \<and> rt_current_thread k' = rt_current_thread k"
proof -
  note d = sys_invD [OF inv]
  have t: "alive k t" using st by (rule aliveI)
  obtain k' where k': "rt_thread_suspend t k = Some (RT_EOK, k')" "kernel_inv k'" "same_ipc k k'" "timer_off t k k'"
    "threads k' = (threads k)(t := set_stat RT_THREAD_SUSPEND (threads k t))" "tlists k' = ls_remove t (tlists k)"
    "rt_current_thread k' = rt_current_thread k"
    using suspend_ready [OF d(4) _ st] sys_inv_thread [OF inv t] by blast
  have "stack_inv k'" using d(7) k'(5) by (rule stack_inv_upd) (simp_all add: st)
  then have "sys_inv k'" using sys_inv_timer_off [OF inv k'(2) _ _ k'(4,3)] k'(5,7) d(8) t by simp
  with k' show ?thesis by blast
qed

lemma sys_resume:
  assumes inv: "sys_inv k" and st: "stat_of k t = RT_THREAD_SUSPEND"
  shows "\<exists>k'. rt_thread_resume t k = Some (RT_EOK, k') \<and> sys_inv k' \<and> same_ipc k k' \<and> timer_off t k k'
    \<and> threads k' = (threads k)(t := set_stat RT_THREAD_READY (threads k t))
    \<and> (\<forall>q. on_tlist k' q = filter (\<lambda>u. u \<noteq> t) (on_tlist k q) @ (if q = Ready (prio_of k t) then [t] else []))
    \<and> rt_current_thread k' = rt_current_thread k"
proof -
  note d = sys_invD [OF inv]
  have t: "alive k t" using st by (rule aliveI)
  obtain k' where k': "rt_thread_resume t k = Some (RT_EOK, k')" "kernel_inv k'" "same_ipc k k'" "timer_off t k k'"
    "threads k' = (threads k)(t := set_stat RT_THREAD_READY (threads k t))"
    "\<forall>q. on_tlist k' q = filter (\<lambda>u. u \<noteq> t) (on_tlist k q) @ (if q = Ready (prio_of k t) then [t] else [])"
    "rt_current_thread k' = rt_current_thread k"
    using resume_suspended [OF d(4) _ st] sys_inv_thread [OF inv t] by blast
  have "stack_inv k'" using d(7) k'(5) by (rule stack_inv_upd) (simp_all add: st)
  then have "sys_inv k'" using sys_inv_timer_off [OF inv k'(2) _ _ k'(4,3)] k'(5,7) d(8) t by simp
  with k' show ?thesis by blast
qed

text \<open>A thread that changes fields of its own that neither scheduler nor timers read.\<close>

lemma sys_inv_upd_thread:
  assumes inv: "sys_inv k"
    and f: "th_stat (f (threads k t)) = th_stat (threads k t)"
      "th_current_priority (f (threads k t)) = th_current_priority (threads k t)"
      "th_number (f (threads k t)) = th_number (threads k t)" "th_high_mask (f (threads k t)) = th_high_mask (threads k t)"
      "th_number_mask (f (threads k t)) = th_number_mask (threads k t)"
      "th_stack_guard (f (threads k t)) = th_stack_guard (threads k t)" "th_sp (f (threads k t)) = th_sp (threads k t)"
      "th_stack_addr (f (threads k t)) = th_stack_addr (threads k t)"
      "th_stack_size (f (threads k t)) = th_stack_size (threads k t)"
  shows "sys_inv (upd_thread t f k)"
proof -
  let ?k = "upd_thread t f k"
  note d = sys_invD [OF inv]
  have st: "stat_of ?k = stat_of k" using f(1) by (simp add: stat_of_def fun_eq_iff)
  have ty: "rt_object_get_type h ?k = rt_object_get_type h k" for h by (simp add: rt_object_get_type_def)
  have fl: "timer_flag g h ?k = timer_flag g h k" for g h by (simp add: timer_flag_def)
  have "kernel_inv ?k"
    using d(5,6) sched_inv_upd [of f k t] f(1-5) timer_inv_cong [of ?k k] by (simp add: kernel_inv_def)
  moreover have "rt_scheduler_stack_check u ?k = rt_scheduler_stack_check u k" for u
    using f(6-9) by (simp add: rt_scheduler_stack_check_def Let_def)
  then have "stack_inv ?k" using d(7) by (simp add: stack_inv_def st)
  moreover have "timer_ok ?k h = timer_ok k h" for h
    by (rule timer_ok_cong) (simp_all add: fl is_thread_def ty st)
  then have "timers_ok ?k" using check_invD(4) [OF d(1)] by (simp add: timers_ok_def)
  moreover have "timer_order (rt_tick ?k - 1) Hard_timers ?k"
    using check_invD(5) [OF d(1)] by (simp add: timer_order_def on_timers_def)
  moreover have "threads_ok ?k"
    using d(2) by (simp add: threads_ok_def alive_def st is_thread_def ty thread_timer_ok_def fl)
  moreover have "on_time ?k" using d(3) by (simp add: on_time_def on_timers_def)
  ultimately show ?thesis using d(8) by (simp add: sys_inv_def check_inv_def)
qed

lemma sys_inv_upd_error: "sys_inv k \<Longrightarrow> sys_inv (upd_thread t (\<lambda>th. th\<lparr>th_error := e\<rparr>) k)"
  by (rule sys_inv_upd_thread) simp_all

text \<open>Changes of threads and lists that keep the states of the threads.\<close>

lemma check_inv_frame:
  assumes inv: "check_inv k" "threads_ok k" and sk: "sched_inv k'" "stack_inv k'" "rt_current_thread k' \<noteq> None"
    and same: "timers k' = timers k" "timer_lists k' = timer_lists k" "objects k' = objects k" "rt_tick k' = rt_tick k"
    and st: "stat_of k' = stat_of k"
  shows "check_inv k'" "threads_ok k'"
proof -
  note d = check_invD [OF inv(1)]
  have it: "is_thread k' = is_thread k" and fl: "timer_flag f h k' = timer_flag f h k" for f h
    by (simp_all add: is_thread_def rt_object_get_type_def timer_flag_def same fun_eq_iff)
  have "timer_inv k'" using d(6) timer_inv_cong [of k' k] same by simp
  moreover have "timer_ok k' h = timer_ok k h" for h by (rule timer_ok_cong) (simp_all add: st it fl same)
  then have "timers_ok k'" using d(4) by (simp add: timers_ok_def same)
  moreover have "timer_order (rt_tick k' - 1) Hard_timers k'" using d(5) by (simp add: timer_order_def on_timers_def same)
  ultimately show "check_inv k'" using sk by (simp add: check_inv_def kernel_inv_def)
  show "threads_ok k'" using inv(2) by (simp add: threads_ok_def alive_def st it thread_timer_ok_def fl same)
qed

lemma sys_change_priority:
  assumes inv: "sys_inv k" and al: "alive k t"
  shows "\<exists>k'. rt_thread_change_priority t p k = Some (RT_EOK, k') \<and> sys_inv k' \<and> same_ipc k k' \<and> prio_of k' t = p
    \<and> stat_of k' = stat_of k \<and> (\<forall>u. u \<noteq> t \<longrightarrow> threads k' u = threads k u) \<and> th_error (threads k' t) = th_error (threads k t)
    \<and> rt_current_thread k' = rt_current_thread k \<and> (\<forall>q. is_wait_list q \<longrightarrow> on_tlist k' q = on_tlist k q)
    \<and> timers k' = timers k \<and> timer_lists k' = timer_lists k"
proof -
  note d = sys_invD [OF inv]
  obtain k' where k': "rt_thread_change_priority t p k = Some (RT_EOK, k')" "kernel_inv k'" "same_ipc k k'" "prio_of k' t = p"
    "stat_of k' t = stat_of k t" "\<forall>u. u \<noteq> t \<longrightarrow> threads k' u = threads k u" "th_error (threads k' t) = th_error (threads k t)"
    "rt_current_thread k' = rt_current_thread k" "\<forall>q. is_wait_list q \<longrightarrow> on_tlist k' q = on_tlist k q"
    "timer_lists k' = timer_lists k" "objects k' = objects k" "stack_inv k'" "timers k' = timers k"
    using change_priority_effect [OF d(4), of t p] sys_inv_thread [OF inv al] al d(7) by (auto simp: alive_def)
  have st: "stat_of k' = stat_of k"
  proof
    show "stat_of k' u = stat_of k u" for u using k'(5,6) by (cases "u = t") (simp_all add: stat_of_def)
  qed
  have tick: "rt_tick k' = rt_tick k" using k'(3) by (simp add: same_ipc_def)
  have "check_inv k'" "threads_ok k'"
    using check_inv_frame [OF d(1,2) _ k'(12) _ k'(13,10,11) tick st] k'(2,8) d(8) by (simp_all add: kernel_inv_def)
  moreover have "on_time k'" using d(3) by (simp add: on_time_def on_timers_def k'(10,13) tick)
  ultimately show ?thesis using k' st by (simp add: sys_inv_def)
qed

section \<open>The timer of a waiting thread\<close>

text \<open>
  \<^verbatim>\<open>rt_timer_control(&(thread->thread_timer), RT_TIMER_CTRL_SET_TIME, &time)\<close> and
  \<^verbatim>\<open>rt_timer_start(&(thread->thread_timer))\<close>, as every service that waits with a timeout has them.
\<close>

definition thread_timer_start :: "tid \<Rightarrow> rt_tick_t \<Rightarrow> kernel \<Rightarrow> kernel option" where
  "thread_timer_start t time k =
     do { (_, _, k) \<leftarrow> rt_timer_control (Thread_timer t) (Set_time time) k;
          (_, k) \<leftarrow> rt_timer_start (Thread_timer t) k;
          Some k }"

lemma sys_inv_set_time:
  assumes inv: "sys_inv k" and un: "home (timer_lists k) h = None"
  shows "sys_inv (upd_timer h (\<lambda>tm. tm\<lparr>tm_init_tick := x\<rparr>) k)"
proof -
  let ?k = "upd_timer h (\<lambda>tm. tm\<lparr>tm_init_tick := x\<rparr>) k"
  note d = sys_invD [OF inv]
  have st: "stat_of ?k = stat_of k" by (simp add: stat_of_def fun_eq_iff)
  have ty: "rt_object_get_type g ?k = rt_object_get_type g k" for g by (simp add: rt_object_get_type_def)
  have fl: "timer_flag f g ?k = timer_flag f g k" for f g by (simp add: timer_flag_def)
  have ky: "key b (timers ?k) = key b (timers k)" for b by (simp add: key_def fun_eq_iff)
  have "kernel_inv ?k"
    using d(5,6) sched_view_inv [of ?k k] timer_inv_cong [of ?k k] by (simp add: kernel_inv_def)
  moreover have "stack_inv ?k" using d(7) by (simp add: stack_inv_def st rt_scheduler_stack_check_def)
  moreover have "timer_ok ?k g = timer_ok k g" if "g \<noteq> h" for g
    by (rule timer_ok_cong) (simp_all add: fl is_thread_def ty st that)
  then have "timers_ok ?k" using check_invD(4) [OF d(1)] un by (simp add: timers_ok_def) (metis option.distinct(1))
  moreover have "timer_order (rt_tick ?k - 1) Hard_timers ?k"
    using check_invD(5) [OF d(1)] by (simp add: timer_order_def on_timers_def ky del: upd_timer_frame(5))
  moreover have "tm_timeout_func (timers ?k g) = tm_timeout_func (timers k g)" for g by simp
  then have "threads_ok ?k"
    using d(2) by (simp add: threads_ok_def alive_def st is_thread_def ty thread_timer_ok_def fl del: upd_timer_frame(5))
  moreover have "on_time ?k" using d(3) by (simp add: on_time_def on_timers_def ky del: upd_timer_frame(5))
  ultimately show ?thesis using d(8) by (simp add: sys_inv_def check_inv_def)
qed

lemma sys_inv_started:
  assumes inv: "sys_inv k" and st: "stat_of k t = RT_THREAD_SUSPEND"
    and it: "tm_init_tick (timers k (Thread_timer t)) < RT_TICK_HALF"
  shows "sys_inv (started (Thread_timer t) k)"
proof -
  let ?h = "Thread_timer t" and ?b = "rt_tick k - 1"
  let ?k = "started ?h k"
  note d = sys_invD [OF inv]
  have tok: "is_thread k t" "thread_timer_ok k t" using sys_inv_thread [OF inv aliveI(2) [OF st]] by simp_all
  have hard: "timer_list_of ?h k = Hard_timers" using tok(2) by (simp add: timer_list_of_def thread_timer_ok_def)
  have sto: "stat_of ?k = stat_of k" by (simp add: stat_of_def fun_eq_iff)
  have ito: "is_thread ?k = is_thread k" by (simp add: is_thread_def fun_eq_iff)
  have "sched_inv ?k" using d(5) sched_view_inv [of ?k k] by simp
  moreover have "timer_inv ?k" using d(6) tok(1) by (intro started_timer_inv) (simp_all add: is_thread_def)
  moreover have "stack_inv ?k" using d(7) by (simp add: stack_inv_def sto rt_scheduler_stack_check_def)
  moreover have "timer_ok ?k g = timer_ok k g" if "g \<noteq> ?h" for g
    by (rule timer_ok_cong) (simp_all add: started_flags started_timers that ito sto)
  moreover have "timer_ok ?k ?h"
    using tok st by (simp add: timer_ok_def thread_timer_ok_def started_timers started_flags ito sto)
  ultimately have "timers_ok ?k" "sched_inv ?k" "timer_inv ?k" "stack_inv ?k"
    using check_invD(4) [OF d(1)] by (auto simp: timers_ok_def started_home split: if_splits)
  moreover have tk: "rt_tick k = ?b + 1" by simp
  note o = started_order [OF check_invD(8,5) [OF d(1)] tk it hard]
  have "threads_ok ?k"
    using d(2) by (simp add: threads_ok_def alive_def sto ito thread_timer_ok_def started_timers started_flags)
  moreover have "on_time ?k"
  proof -
    have "set (on_timers ?k Hard_timers) \<subseteq> insert ?h (set (on_timers k Hard_timers))"
      unfolding o(2) by (auto dest: set_takeWhileD set_dropWhileD)
    moreover have "key ?b (timers ?k) g = key ?b (timers k) g" if "g \<noteq> ?h" for g
      using that by (simp add: key_def started_timers)
    moreover have "1 \<le> key ?b (timers ?k) ?h" using o(3) by simp
    ultimately show ?thesis using d(3) unfolding on_time_def started_frame(5) by (metis insert_iff subsetD)
  qed
  ultimately show ?thesis using o(1) d(8) by (simp add: sys_inv_def check_inv_def kernel_inv_def)
qed

lemma sys_timer_start:
  assumes inv: "sys_inv k" and st: "stat_of k t = RT_THREAD_SUSPEND" and un: "home (timer_lists k) (Thread_timer t) = None"
    and time: "time < RT_TICK_HALF"
  shows "\<exists>k'. thread_timer_start t time k = Some k' \<and> sys_inv k' \<and> same_ipc k k' \<and> sched_view k' = sched_view k
    \<and> rt_current_thread k' = rt_current_thread k
    \<and> home (timer_lists k') = (home (timer_lists k))(Thread_timer t := Some Hard_timers)
    \<and> tm_timeout_tick (timers k' (Thread_timer t)) = rt_tick k + time"
proof -
  let ?h = "Thread_timer t"
  let ?k1 = "upd_timer ?h (\<lambda>tm. tm\<lparr>tm_init_tick := time\<rparr>) k"
  have inv1: "sys_inv ?k1" using inv un by (rule sys_inv_set_time)
  have st1: "stat_of ?k1 t = RT_THREAD_SUSPEND" using st by (simp add: stat_of_def)
  have tok: "is_thread ?k1 t" "thread_timer_ok ?k1 t" using sys_inv_thread [OF inv1 aliveI(2) [OF st1]] by simp_all
  have ty: "rt_object_get_type ?h k = RT_Object_Class_Timer" using tok(1) by (simp add: is_thread_def rt_object_get_type_def)
  have "rt_timer_start ?h ?k1 = Some (RT_EOK, started ?h ?k1)"
    by (rule rt_timer_start_eq) (use tok time in \<open>simp_all add: is_thread_def thread_timer_ok_def\<close>)
  then have "thread_timer_start t time k = Some (started ?h ?k1)"
    using ty by (simp add: thread_timer_start_def rt_timer_control_def)
  moreover have "sys_inv (started ?h ?k1)" using inv1 st1 by (rule sys_inv_started) (simp add: time)
  moreover have "same_ipc k ?k1" by (simp add: same_ipc_def upd_timer_def)
  then have "same_ipc k (started ?h ?k1)" using started_same_ipc by (rule same_ipc_trans)
  moreover have "timer_list_of ?h ?k1 = Hard_timers" using tok(2) by (simp add: timer_list_of_def thread_timer_ok_def)
  ultimately show ?thesis by (intro exI [of _ "started ?h ?k1"]) (simp add: started_home started_timers)
qed

section \<open>Sample states\<close>

lemma sample_alive: "alive sample t \<Longrightarrow> t < 4"
proof (rule ccontr)
  assume a: "alive sample t" and "\<not> t < 4"
  then have "t \<notin> {0, 1, 2}" "t \<noteq> 3" by auto
  then have "threads sample t = zero_thread" using sample_threads [of t] by (simp add: sample_base_def)
  then have "stat_of sample t = RT_THREAD_INIT" by (simp add: stat_of_def zero_thread_def rt_consts)
  with a show False by (simp add: alive_def)
qed

lemma sample_sys_inv: "sys_inv sample"
proof -
  have off: "home (timer_lists sample) h = None" "on_timers sample q = []" for h q
    by (simp_all add: sample_rest(2) on_timers_def ls_empty_def)
  have "check_inv sample"
    using sample_kernel_inv sample_stack_inv sample_facts(7)
    by (simp add: check_inv_def timers_ok_def timer_order_def off)
  moreover have "thread_timer_ok sample t" if "t < 4" for t
    using that by (simp add: thread_timer_ok_def timer_flag_def sample_rest(3,4) sample_base_def zero_object_def rt_consts)
  then have "threads_ok sample" using sample_is_thread sample_alive by (simp add: threads_ok_def)
  ultimately show ?thesis by (simp add: sys_inv_def on_time_def off)
qed

text \<open>The sample with an object of class \<open>c\<close> and flag \<open>fl\<close> under the handle 5.\<close>

definition sample_with :: "rt_uint8_t \<Rightarrow> rt_uint8_t \<Rightarrow> kernel" where
  "sample_with c fl = upd_object (Obj 5) (\<lambda>ob. ob\<lparr>obj_type := c, obj_flag := fl\<rparr>) sample"

lemma sample_with_sys_inv: "sys_inv (sample_with c fl)"
  by (rule sys_inv_objects [OF sample_sys_inv, where g = "Obj 5"])
    (simp_all add: sample_with_def upd_object_def sched_view_def rt_object_get_type_def sample_rest(3) sample_base_def
      zero_object_def rt_consts)

lemma sample_with_facts [simp]:
  "rt_object_get_type (Obj 5) (sample_with c fl) = c AND NOT RT_Object_Class_Static"
  "obj_flag (objects (sample_with c fl) (Obj 5)) = fl" "rt_current_thread (sample_with c fl) = Some (Suc 0)"
  "stat_of (sample_with c fl) (Suc 0) = RT_THREAD_READY" "stat_of (sample_with c fl) 2 = RT_THREAD_READY"
  "rt_interrupt_nest (sample_with c fl) = 0" "rt_scheduler_lock_nest (sample_with c fl) = 0"
  "tlists (sample_with c fl) = tlists sample" "threads (sample_with c fl) = threads sample"
  "sems (sample_with c fl) = sems sample" "mutexes (sample_with c fl) = mutexes sample"
  "events (sample_with c fl) = events sample" "mailboxes (sample_with c fl) = mailboxes sample" "mqs (sample_with c fl) = mqs sample"
  "mempools (sample_with c fl) = mempools sample" "completions (sample_with c fl) = completions sample"
  "dataqs (sample_with c fl) = dataqs sample"
  using sample_facts by (simp_all add: sample_with_def upd_object_def rt_object_get_type_def stat_of_def)

lemma sample_no_waiters [simp]: "is_wait_list q \<Longrightarrow> on_list (tlists sample) q = []"
proof -
  assume q: "is_wait_list q"
  obtain k0 k1 where "rt_schedule_insert_thread 0 sample_base = Some k0" "rt_schedule_insert_thread 1 k0 = Some k1"
    "rt_schedule_insert_thread 2 k1 = Some sample" by (rule sample_chain)
  note f = this [THEN insert_thread_frame(8)]
  show ?thesis unfolding f using q
    by (auto simp: sample_base_def zero_kernel_def ls_empty_def is_wait_list_def on_tlist_def)
qed

lemma sample_objects [simp]:
  "sems sample = (\<lambda>_. zero_sem)" "mutexes sample = (\<lambda>_. zero_mutex)" "events sample = (\<lambda>_. zero_event)"
  "mailboxes sample = (\<lambda>_. zero_mailbox)" "mqs sample = (\<lambda>_. zero_mq)"
  "mempools sample = (\<lambda>_. zero_mempool)" "completions sample = (\<lambda>_. zero_completion)" "dataqs sample = (\<lambda>_. zero_dataq)"
proof -
  obtain k0 k1 where "rt_schedule_insert_thread 0 sample_base = Some k0" "rt_schedule_insert_thread 1 k0 = Some k1"
    "rt_schedule_insert_thread 2 k1 = Some sample" by (rule sample_chain)
  note f = this [THEN same_ipc_insert]
  show "sems sample = (\<lambda>_. zero_sem)" "mutexes sample = (\<lambda>_. zero_mutex)" "events sample = (\<lambda>_. zero_event)"
    "mailboxes sample = (\<lambda>_. zero_mailbox)" "mqs sample = (\<lambda>_. zero_mq)"
    "mempools sample = (\<lambda>_. zero_mempool)" "completions sample = (\<lambda>_. zero_completion)" "dataqs sample = (\<lambda>_. zero_dataq)"
    using f by (simp_all add: same_ipc_def) (simp_all add: sample_base_def zero_kernel_def)
qed

end
