(* ===== verification/RT_Ipc.thy ===== *)
theory RT_Ipc
  imports RT_System
begin

text \<open>
  The common part of \<^verbatim>\<open>kernel/src/ipc.c\<close>: putting the running thread on the suspend list of an
  object, first come first served or by priority, and waking the first or all threads of a list.
\<close>

section \<open>The code\<close>

text \<open>The first thread of the list with a greater priority value than the new one.\<close>

fun prio_pos :: "(tid \<Rightarrow> rt_uint8_t) \<Rightarrow> rt_uint8_t \<Rightarrow> tid list \<Rightarrow> nat" where
  "prio_pos prio p [] = 0"
| "prio_pos prio p (u # us) = (if p < prio u then 0 else Suc (prio_pos prio p us))"

definition rt_ipc_list_suspend :: "thread_list \<Rightarrow> tid \<Rightarrow> rt_uint8_t \<Rightarrow> kernel \<Rightarrow> kernel option" where
  "rt_ipc_list_suspend q t flag k =
     do { (_, k) \<leftarrow> rt_thread_suspend t k;
          if flag = RT_IPC_FLAG_FIFO then tlist_append q t k
          else if flag = RT_IPC_FLAG_PRIO then tlist_insert_at q (prio_pos (prio_of k) (prio_of k t) (on_tlist k q)) t k
          else Some k }"

definition rt_ipc_list_resume :: "thread_list \<Rightarrow> kernel \<Rightarrow> kernel option" where
  "rt_ipc_list_resume q k =
     (case on_tlist k q of [] \<Rightarrow> None | t # _ \<Rightarrow> do { (_, k) \<leftarrow> rt_thread_resume t k; Some k })"

text \<open>The loop would not end with a thread on the list that is not suspended.\<close>

partial_function (option) rt_ipc_list_resume_all :: "thread_list \<Rightarrow> kernel \<Rightarrow> kernel option" where
  "rt_ipc_list_resume_all q k =
     (case on_tlist k q of
        [] \<Rightarrow> Some k
      | t # _ \<Rightarrow>
          do { (_, k) \<leftarrow> rt_thread_resume t (upd_thread t (\<lambda>th. th\<lparr>th_error := RT_ERROR\<rparr>) k);
               rt_ipc_list_resume_all q k })"

declare rt_ipc_list_resume_all.simps [code]

text \<open>
  The tail that the blocking services share: suspend the thread on the list, start its timer when there
  is a waiting time, and give up the processor.
\<close>

definition sleep_on :: "tid \<Rightarrow> 32 word \<Rightarrow> kernel \<Rightarrow> kernel option" where
  "sleep_on t time k =
     do { k \<leftarrow> (if 0 < sint time then thread_timer_start t time k else Some k);
          rt_schedule k }"

definition ipc_wait :: "thread_list \<Rightarrow> tid \<Rightarrow> rt_uint8_t \<Rightarrow> 32 word \<Rightarrow> kernel \<Rightarrow> kernel option" where
  "ipc_wait q t flag time k = do { k \<leftarrow> rt_ipc_list_suspend q t flag k; sleep_on t time k }"

text \<open>
  What is left of a waiting time when a thread comes back to the loop of a blocking service that began to wait
  at the tick \<open>start\<close>.
\<close>

definition rest_timeout :: "32 word \<Rightarrow> rt_tick_t \<Rightarrow> kernel \<Rightarrow> 32 word" where
  "rest_timeout timeout start k =
     (if 0 < sint timeout
      then let rest = timeout - (rt_tick k - start) in if sint rest < 0 then 0 else rest
      else timeout)"

text \<open>The end of the services that have two sides: wake the first waiting thread of the other side and reschedule.\<close>

definition ipc_wake :: "thread_list \<Rightarrow> kernel \<Rightarrow> kernel option" where
  "ipc_wake q k =
     (if on_tlist k q \<noteq> [] then do { k \<leftarrow> rt_ipc_list_resume q k; rt_schedule k } else Some k)"

section \<open>Waiting\<close>

text \<open>The place of a new thread among the waiting ones.\<close>

definition wait_order :: "rt_uint8_t \<Rightarrow> kernel \<Rightarrow> tid \<Rightarrow> tid list \<Rightarrow> tid list" where
  "wait_order flag k t ts =
     (if flag = RT_IPC_FLAG_FIFO then ts @ [t]
      else takeWhile (\<lambda>u. prio_of k u \<le> prio_of k t) ts @ t # dropWhile (\<lambda>u. prio_of k u \<le> prio_of k t) ts)"

lemma prio_pos_eq: "prio_pos prio p ts = length (takeWhile (\<lambda>u. prio u \<le> p) ts)"
  by (induction ts) (auto simp: not_less)

lemma wait_order_set: "set (wait_order flag k t ts) = insert t (set ts)"
  by (auto simp: wait_order_def dest: set_takeWhileD set_dropWhileD) (metis UnE set_append takeWhile_dropWhile_id)

lemma wait_order_cong: "prio_of k' = prio_of k \<Longrightarrow> wait_order fl k' t ts = wait_order fl k t ts"
  by (simp add: wait_order_def)

lemma upd_error_frame [simp]:
  "stat_of (upd_thread t (\<lambda>th. th\<lparr>th_error := e\<rparr>) k) = stat_of k"
  "prio_of (upd_thread t (\<lambda>th. th\<lparr>th_error := e\<rparr>) k) = prio_of k"
  by (simp_all add: stat_of_def prio_of_def fun_eq_iff)

lemma positive_time:
  assumes p: "0 < sint (time :: 32 word)" and n: "time \<noteq> 0x7fffffff"
  shows "time < RT_TICK_HALF"
proof -
  have u: "uint time < 2 ^ 32" using unsigned_less [where 'a = int and w = time] by simp
  moreover have "take_bit 32 (uint time) = uint time" using u by (intro take_bit_int_eq_self) simp_all
  then have "sint time = uint time - 2 ^ 32 * of_bool (bit (uint time) 31)"
    by (simp add: sint_uint signed_take_bit_eq_take_bit_minus)
  ultimately have s: "sint time = uint time" using p by (auto simp: of_bool_def split: if_splits)
  moreover have "sint time < 2 ^ 31" using sint_lt [of time] by simp
  moreover have "uint time \<noteq> 0x7fffffff"
  proof
    assume "uint time = 0x7fffffff"
    then have "time = word_of_int 0x7fffffff" by (metis word_of_int_uint)
    with n show False by simp
  qed
  ultimately show ?thesis by (simp add: word_less_def rt_consts)
qed

lemma wait_list_suspended:
  assumes "sched_inv k" and "is_wait_list q" and "t \<in> set (on_tlist k q)"
  shows "stat_of k t = RT_THREAD_SUSPEND" "home (tlists k) t = Some q"
proof -
  show h: "home (tlists k) t = Some q" using assms(3) sched_invD(1) [OF assms(1)] by (simp add: on_tlist_def ls_wf_mem)
  show "stat_of k t = RT_THREAD_SUSPEND"
    using sched_invD(3) [OF assms(1), of t] h assms(2)
    by (auto simp: thread_ok_def Let_def is_wait_list_def split: if_splits)
qed

lemma wait_list_distinct: "sched_inv k \<Longrightarrow> distinct (on_tlist k q)"
  using sched_invD(1) [of k] by (simp add: on_tlist_def ls_wf_distinct)

text \<open>The place that \<^verbatim>\<open>rt_ipc_list_suspend\<close> computes.\<close>

lemma wait_order_pos:
  assumes "flag = RT_IPC_FLAG_FIFO \<or> flag = RT_IPC_FLAG_PRIO"
    and "i = (if flag = RT_IPC_FLAG_FIFO then length ts else prio_pos (prio_of k) (prio_of k t) ts)"
  shows "take i ts @ t # drop i ts = wait_order flag k t ts"
  using assms by (auto simp: wait_order_def prio_pos_eq rt_consts simp flip: takeWhile_eq_take dropWhile_eq_drop)

text \<open>A running thread is suspended and put on a wait list, at any place.\<close>

lemma suspend_insert_at:
  assumes inv: "sys_inv k" and st: "stat_of k t = RT_THREAD_READY" and q: "is_wait_list q"
  shows "\<exists>k1 k2. rt_thread_suspend t k = Some (RT_EOK, k1) \<and> on_tlist k1 q = on_tlist k q \<and> prio_of k1 = prio_of k
    \<and> tlist_insert_at q i t k1 = Some k2 \<and> sys_inv k2 \<and> same_ipc k k2
    \<and> threads k2 = (threads k)(t := set_stat RT_THREAD_SUSPEND (threads k t))
    \<and> on_tlist k2 q = take i (on_tlist k q) @ t # drop i (on_tlist k q)
    \<and> (\<forall>q'. is_wait_list q' \<and> q' \<noteq> q \<longrightarrow> on_tlist k2 q' = on_tlist k q')
    \<and> timer_off t k k2 \<and> rt_current_thread k2 = rt_current_thread k"
proof -
  note d = sys_invD [OF inv]
  obtain k1 where k1: "rt_thread_suspend t k = Some (RT_EOK, k1)" "sys_inv k1" "same_ipc k k1" "timer_off t k k1"
    "threads k1 = (threads k)(t := set_stat RT_THREAD_SUSPEND (threads k t))" "tlists k1 = ls_remove t (tlists k)"
    "rt_current_thread k1 = rt_current_thread k"
    using sys_suspend [OF inv st] by blast
  have pr: "prio_of k1 = prio_of k" using k1(5) by (simp add: prio_of_def fun_eq_iff)
  have nt: "t \<notin> set (on_tlist k q')" if "is_wait_list q'" for q'
    using wait_list_suspended(1) [OF d(5) that] st by fastforce
  have wl: "on_tlist k1 q' = on_tlist k q'" if "is_wait_list q'" for q'
    using nt [OF that] k1(6) sched_invD(1) [OF d(5)]
    by (auto simp: on_tlist_def ls_remove_on_list filter_id_conv)
  have un: "home (tlists k1) t = None" using k1(6) by simp
  obtain k2 where ins: "tlist_insert_at q i t k1 = Some k2" using tlist_insert_at_Some [of q i t k1] un by blast
  then have k2: "k2 = k1\<lparr>tlists := (tlists k1)\<lparr>on_list := (on_list (tlists k1))(q := take i (on_tlist k1 q) @ t # drop i (on_tlist k1 q)),
                                  home := (home (tlists k1))(t := Some q)\<rparr>\<rparr>"
    by (simp add: tlist_insert_at_Some)
  have "stat_of k1 t = RT_THREAD_SUSPEND" using stat_after(1) [OF k1(5)] by simp
  then have "sched_inv k2" using wait_insert_inv [OF sys_invD(5) [OF k1(2)] _ q ins] by simp
  moreover have f: "threads k2 = threads k1" "timers k2 = timers k1" "timer_lists k2 = timer_lists k1" "objects k2 = objects k1"
    "rt_tick k2 = rt_tick k1" "rt_current_thread k2 = rt_current_thread k1" by (simp_all add: k2)
  ultimately have "sys_inv k2" using sys_invD(8) [OF k1(2)] k1(2) by (intro sys_inv_lists [of k2 k1]) simp_all
  moreover have "same_ipc k1 k2" by (simp add: k2 same_ipc_def)
  then have "same_ipc k k2" using k1(3) same_ipc_trans by blast
  moreover have "timer_off t k k2" using k1(4) by (rule timer_off_cong) (simp_all add: f)
  moreover have "on_tlist k2 q = take i (on_tlist k q) @ t # drop i (on_tlist k q)"
    "\<forall>q'. is_wait_list q' \<and> q' \<noteq> q \<longrightarrow> on_tlist k2 q' = on_tlist k q'"
    unfolding wl [OF q, symmetric] using wl by (simp_all add: k2 on_tlist_def)
  ultimately show ?thesis using k1 f pr wl [OF q] ins by (intro exI [of _ k1] exI [of _ k2]) simp
qed

lemma ipc_list_suspend:
  assumes inv: "sys_inv k" and st: "stat_of k t = RT_THREAD_READY" and q: "is_wait_list q"
    and fl: "flag = RT_IPC_FLAG_FIFO \<or> flag = RT_IPC_FLAG_PRIO"
  shows "\<exists>k'. rt_ipc_list_suspend q t flag k = Some k' \<and> sys_inv k' \<and> same_ipc k k'
    \<and> threads k' = (threads k)(t := set_stat RT_THREAD_SUSPEND (threads k t))
    \<and> on_tlist k' q = wait_order flag k t (on_tlist k q)
    \<and> (\<forall>q'. is_wait_list q' \<and> q' \<noteq> q \<longrightarrow> on_tlist k' q' = on_tlist k q')
    \<and> timer_off t k k' \<and> rt_current_thread k' = rt_current_thread k"
proof -
  define i where "i = (if flag = RT_IPC_FLAG_FIFO then length (on_tlist k q)
     else prio_pos (prio_of k) (prio_of k t) (on_tlist k q))"
  obtain k1 k2 where k1: "rt_thread_suspend t k = Some (RT_EOK, k1)" "on_tlist k1 q = on_tlist k q" "prio_of k1 = prio_of k"
    "tlist_insert_at q i t k1 = Some k2" and k2: "sys_inv k2" "same_ipc k k2"
    "threads k2 = (threads k)(t := set_stat RT_THREAD_SUSPEND (threads k t))"
    "on_tlist k2 q = take i (on_tlist k q) @ t # drop i (on_tlist k q)"
    "\<forall>q'. is_wait_list q' \<and> q' \<noteq> q \<longrightarrow> on_tlist k2 q' = on_tlist k q'" "timer_off t k k2" "rt_current_thread k2 = rt_current_thread k"
    using suspend_insert_at [OF inv st q, of i] by blast
  have "rt_ipc_list_suspend q t flag k = Some k2"
    using k1 fl by (auto simp: rt_ipc_list_suspend_def i_def tlist_append_at split: if_splits)
  then show ?thesis using k2 wait_order_pos [OF fl i_def] by simp
qed

text \<open>The sleep of a thread that was put on a list, another thread being ready.\<close>

lemma sys_sleep:
  assumes inv: "sys_inv k" and st: "stat_of k t = RT_THREAD_SUSPEND" and un: "home (timer_lists k) (Thread_timer t) = None"
    and time: "time \<noteq> 0x7fffffff" and u: "stat_of k u = RT_THREAD_READY"
  shows "\<exists>k'. sleep_on t time k = Some k' \<and> sys_inv k' \<and> same_ipc k k' \<and> threads k' = threads k \<and> on_tlist k' = on_tlist k
    \<and> (if 0 < sint time then home (timer_lists k') (Thread_timer t) = Some Hard_timers
          \<and> tm_timeout_tick (timers k' (Thread_timer t)) = rt_tick k + time
        else home (timer_lists k') (Thread_timer t) = None)
    \<and> (if rt_scheduler_lock_nest k = 0 then \<exists>v. rt_current_thread k' = Some v \<and> first_ready k' v
        else rt_current_thread k' = rt_current_thread k)"
proof -
  have "\<exists>k2. (if 0 < sint time then thread_timer_start t time k else Some k) = Some k2 \<and> sys_inv k2 \<and> same_ipc k k2
      \<and> sched_view k2 = sched_view k \<and> rt_current_thread k2 = rt_current_thread k
      \<and> (if 0 < sint time then home (timer_lists k2) (Thread_timer t) = Some Hard_timers
          \<and> tm_timeout_tick (timers k2 (Thread_timer t)) = rt_tick k + time
        else home (timer_lists k2) (Thread_timer t) = None)"
  proof (cases "0 < sint time")
    case True
    then show ?thesis using sys_timer_start [OF inv st un positive_time [OF True time]] by auto
  next
    case False
    then show ?thesis using inv un by simp
  qed
  then obtain k2 where k2: "(if 0 < sint time then thread_timer_start t time k else Some k) = Some k2" "sys_inv k2"
    "same_ipc k k2" "sched_view k2 = sched_view k" "rt_current_thread k2 = rt_current_thread k"
    "if 0 < sint time then home (timer_lists k2) (Thread_timer t) = Some Hard_timers
          \<and> tm_timeout_tick (timers k2 (Thread_timer t)) = rt_tick k + time
        else home (timer_lists k2) (Thread_timer t) = None" by blast
  have th2: "threads k2 = threads k" "on_tlist k2 = on_tlist k"
    using k2(4) by (simp_all add: sched_view_def on_tlist_def fun_eq_iff)
  have st2: "stat_of k2 u = RT_THREAD_READY" using u th2 by (simp add: stat_of_def)
  obtain k3 where k3: "rt_schedule k2 = Some k3" "sys_inv k3" "same_ipc k2 k3" "threads k3 = threads k2" "tlists k3 = tlists k2"
    "timers k3 = timers k2" "timer_lists k3 = timer_lists k2"
    "if rt_scheduler_lock_nest k2 = 0 then \<exists>v. rt_current_thread k3 = Some v \<and> first_ready k3 v else k3 = k2"
    using sys_schedule [OF k2(2) st2] by blast
  have lck: "rt_scheduler_lock_nest k2 = rt_scheduler_lock_nest k" using k2(3) by (simp add: same_ipc_def)
  have "on_tlist k3 = on_tlist k" using k3(5) th2(2) by (simp add: on_tlist_def fun_eq_iff)
  moreover have "sleep_on t time k = Some k3" using k2(1) k3(1) by (simp add: sleep_on_def)
  moreover have "same_ipc k k3" using k2(3) k3(3) same_ipc_trans by blast
  moreover have "if rt_scheduler_lock_nest k = 0 then \<exists>v. rt_current_thread k3 = Some v \<and> first_ready k3 v
        else rt_current_thread k3 = rt_current_thread k"
    using k3(8) lck k2(5) by (auto split: if_splits)
  ultimately show ?thesis using k3 k2(6) th2 by (intro exI [of _ k3]) simp
qed

text \<open>The whole wait of the running thread, another thread being ready.\<close>

lemma sys_wait:
  assumes inv: "sys_inv k" and st: "stat_of k t = RT_THREAD_READY" and q: "is_wait_list q"
    and fl: "flag = RT_IPC_FLAG_FIFO \<or> flag = RT_IPC_FLAG_PRIO" and time: "time \<noteq> 0x7fffffff"
    and u: "stat_of k u = RT_THREAD_READY" "u \<noteq> t"
  shows "\<exists>k'. ipc_wait q t flag time k = Some k' \<and> sys_inv k' \<and> same_ipc k k'
    \<and> threads k' = (threads k)(t := set_stat RT_THREAD_SUSPEND (threads k t))
    \<and> on_tlist k' q = wait_order flag k t (on_tlist k q)
    \<and> (\<forall>q'. is_wait_list q' \<and> q' \<noteq> q \<longrightarrow> on_tlist k' q' = on_tlist k q')
    \<and> (if 0 < sint time then home (timer_lists k') (Thread_timer t) = Some Hard_timers
          \<and> tm_timeout_tick (timers k' (Thread_timer t)) = rt_tick k + time
        else home (timer_lists k') (Thread_timer t) = None)
    \<and> (if rt_scheduler_lock_nest k = 0 then \<exists>v. rt_current_thread k' = Some v \<and> first_ready k' v
        else rt_current_thread k' = rt_current_thread k)"
proof -
  obtain k1 where k1: "rt_ipc_list_suspend q t flag k = Some k1" "sys_inv k1" "same_ipc k k1"
    "threads k1 = (threads k)(t := set_stat RT_THREAD_SUSPEND (threads k t))"
    "on_tlist k1 q = wait_order flag k t (on_tlist k q)"
    "\<forall>q'. is_wait_list q' \<and> q' \<noteq> q \<longrightarrow> on_tlist k1 q' = on_tlist k q'"
    "timer_off t k k1" "rt_current_thread k1 = rt_current_thread k"
    using ipc_list_suspend [OF inv st q fl] by blast
  have st1: "stat_of k1 t = RT_THREAD_SUSPEND" "stat_of k1 u = RT_THREAD_READY"
    using stat_after [OF k1(4)] u by simp_all
  have un: "home (timer_lists k1) (Thread_timer t) = None" using k1(7) by (simp add: timer_off_def)
  have f: "rt_tick k1 = rt_tick k" "rt_scheduler_lock_nest k1 = rt_scheduler_lock_nest k" using k1(3) by (simp_all add: same_ipc_def)
  obtain k2 where k2: "sleep_on t time k1 = Some k2" "sys_inv k2" "same_ipc k1 k2" "threads k2 = threads k1" "on_tlist k2 = on_tlist k1"
    "if 0 < sint time then home (timer_lists k2) (Thread_timer t) = Some Hard_timers
          \<and> tm_timeout_tick (timers k2 (Thread_timer t)) = rt_tick k + time
        else home (timer_lists k2) (Thread_timer t) = None"
    "if rt_scheduler_lock_nest k = 0 then \<exists>v. rt_current_thread k2 = Some v \<and> first_ready k2 v
        else rt_current_thread k2 = rt_current_thread k"
    using sys_sleep [OF k1(2) st1(1) un time st1(2), unfolded f k1(8)] by blast
  have "ipc_wait q t flag time k = Some k2" using k1(1) k2(1) by (simp add: ipc_wait_def)
  moreover have "same_ipc k k2" using k1(3) k2(3) same_ipc_trans by blast
  ultimately show ?thesis using k1(4-6) k2 by (intro exI [of _ k2]) simp
qed

lemma sint_word_nonneg: "0 \<le> sint (w :: 32 word) \<longleftrightarrow> uint w < 2147483648"
proof -
  have u: "uint w < 4294967296" using unsigned_less [where 'a = int and w = w] by simp
  moreover have "take_bit 32 (uint w) = uint w" using u by (intro take_bit_int_eq_self) simp_all
  then have "sint w = uint w - 4294967296 * of_bool (bit (uint w) 31)"
    by (simp add: sint_uint signed_take_bit_eq_take_bit_minus)
  moreover have "sint w < 2147483648" "-2147483648 \<le> sint w" using sint_lt [of w] sint_ge [of w] by simp_all
  moreover have "0 \<le> uint w" by simp
  ultimately show ?thesis by (cases "bit (uint w) 31") simp_all
qed

text \<open>Before the time is over the rest is exact, and it is never longer than the time.\<close>

lemma rest_timeout_exact:
  assumes p: "0 < sint timeout" and le: "rt_tick k - start \<le> timeout"
  shows "rest_timeout timeout start k = timeout - (rt_tick k - start)"
proof -
  have "uint (timeout - (rt_tick k - start)) = uint timeout - uint (rt_tick k - start)"
    using le by (simp add: uint_minus_simple_alt word_le_def)
  moreover have "uint timeout < 2147483648" using p sint_word_nonneg [of timeout] by simp
  ultimately have "uint (timeout - (rt_tick k - start)) < 2147483648"
    using unsigned_greater_eq [where 'a = int and w = "rt_tick k - start"] by linarith
  then have "0 \<le> sint (timeout - (rt_tick k - start))" by (simp add: sint_word_nonneg)
  then show ?thesis using p by (simp add: rest_timeout_def Let_def)
qed

lemma rest_timeout_forever: "sint timeout \<le> 0 \<Longrightarrow> rest_timeout timeout start k = timeout"
  by (simp add: rest_timeout_def)

section \<open>Waking\<close>

text \<open>Waking a thread wherever it stands on its list.\<close>

lemma wait_list_resume:
  assumes inv: "sys_inv k" and q: "is_wait_list q" and m: "t \<in> set (on_tlist k q)"
  shows "\<exists>k'. rt_thread_resume t k = Some (RT_EOK, k') \<and> sys_inv k' \<and> same_ipc k k'
    \<and> threads k' = (threads k)(t := set_stat RT_THREAD_READY (threads k t))
    \<and> on_tlist k' q = filter (\<lambda>u. u \<noteq> t) (on_tlist k q)
    \<and> (\<forall>q'. is_wait_list q' \<and> q' \<noteq> q \<longrightarrow> on_tlist k' q' = on_tlist k q')
    \<and> home (timer_lists k') (Thread_timer t) = None \<and> rt_current_thread k' = rt_current_thread k
    \<and> last (on_tlist k' (Ready (prio_of k t))) = t"
proof -
  note d = sys_invD [OF inv]
  note w = wait_list_suspended [OF d(5) q m]
  obtain k' where k': "rt_thread_resume t k = Some (RT_EOK, k')" "sys_inv k'" "same_ipc k k'" "timer_off t k k'"
    "threads k' = (threads k)(t := set_stat RT_THREAD_READY (threads k t))"
    "\<forall>q. on_tlist k' q = filter (\<lambda>u. u \<noteq> t) (on_tlist k q) @ (if q = Ready (prio_of k t) then [t] else [])"
    "rt_current_thread k' = rt_current_thread k"
    using sys_resume [OF inv w(1)] by blast
  have nq: "q \<noteq> Ready p" for p using q by (auto simp: is_wait_list_def)
  have o: "on_tlist k' q' = on_tlist k q'" if "is_wait_list q'" "q' \<noteq> q" for q'
  proof -
    have "t \<notin> set (on_tlist k q')" using wait_list_suspended(2) [OF d(5) that(1)] w(2) that(2) by fastforce
    then have "filter (\<lambda>u. u \<noteq> t) (on_tlist k q') = on_tlist k q'" by (auto simp: filter_id_conv)
    moreover have "q' \<noteq> Ready (prio_of k t)" using that(1) by auto
    ultimately show ?thesis using k'(6) by simp
  qed
  have "on_tlist k' q = filter (\<lambda>u. u \<noteq> t) (on_tlist k q)" using k'(6) nq by simp
  moreover have "home (timer_lists k') (Thread_timer t) = None" using k'(4) by (simp add: timer_off_def)
  moreover have "last (on_tlist k' (Ready (prio_of k t))) = t" using k'(6) by simp
  ultimately show ?thesis using k' o by simp
qed

lemma ipc_list_resume:
  assumes inv: "sys_inv k" and q: "is_wait_list q" and l: "on_tlist k q = t # ts"
  shows "\<exists>k'. rt_ipc_list_resume q k = Some k' \<and> rt_thread_resume t k = Some (RT_EOK, k') \<and> sys_inv k' \<and> same_ipc k k'
    \<and> threads k' = (threads k)(t := set_stat RT_THREAD_READY (threads k t))
    \<and> on_tlist k' q = ts \<and> (\<forall>q'. is_wait_list q' \<and> q' \<noteq> q \<longrightarrow> on_tlist k' q' = on_tlist k q')
    \<and> home (timer_lists k') (Thread_timer t) = None \<and> rt_current_thread k' = rt_current_thread k
    \<and> last (on_tlist k' (Ready (prio_of k t))) = t"
proof -
  have "t \<notin> set ts" using wait_list_distinct [OF sys_invD(5) [OF inv], of q] l by simp
  then have "filter (\<lambda>u. u \<noteq> t) (on_tlist k q) = ts" by (auto simp: l filter_id_conv)
  then show ?thesis using wait_list_resume [OF inv q, of t] l by (auto simp: rt_ipc_list_resume_def)
qed

text \<open>The first thread of the list, if there is one, was made ready and a thread of the highest priority runs.\<close>

definition woken_first :: "thread_list \<Rightarrow> kernel \<Rightarrow> kernel \<Rightarrow> bool" where
  "woken_first q k k' \<longleftrightarrow> same_ipc k k' \<and> on_tlist k' q = tl (on_tlist k q)
     \<and> (\<forall>q'. is_wait_list q' \<and> q' \<noteq> q \<longrightarrow> on_tlist k' q' = on_tlist k q')
     \<and> (case on_tlist k q of [] \<Rightarrow> k' = k
        | t # _ \<Rightarrow> threads k' = (threads k)(t := set_stat RT_THREAD_READY (threads k t))
            \<and> home (timer_lists k') (Thread_timer t) = None
            \<and> (if rt_scheduler_lock_nest k = 0 then \<exists>v. rt_current_thread k' = Some v \<and> first_ready k' v
               else rt_current_thread k' = rt_current_thread k))"

lemma ipc_wake_ok:
  assumes inv: "sys_inv k" and q: "is_wait_list q"
  shows "\<exists>k'. ipc_wake q k = Some k' \<and> sys_inv k' \<and> woken_first q k k'"
proof (cases "on_tlist k q")
  case Nil
  then show ?thesis using inv by (simp add: ipc_wake_def woken_first_def)
next
  case (Cons t ts)
  obtain k1 where k1: "rt_ipc_list_resume q k = Some k1" "sys_inv k1" "same_ipc k k1"
    "threads k1 = (threads k)(t := set_stat RT_THREAD_READY (threads k t))" "on_tlist k1 q = ts"
    "\<forall>q'. is_wait_list q' \<and> q' \<noteq> q \<longrightarrow> on_tlist k1 q' = on_tlist k q'"
    "home (timer_lists k1) (Thread_timer t) = None" "rt_current_thread k1 = rt_current_thread k"
    using ipc_list_resume [OF inv q Cons] by blast
  have st: "stat_of k1 t = RT_THREAD_READY" using stat_after(1) [OF k1(4)] by simp
  obtain k2 where k2: "rt_schedule k1 = Some k2" "sys_inv k2" "same_ipc k1 k2" "threads k2 = threads k1" "tlists k2 = tlists k1"
    "timer_lists k2 = timer_lists k1"
    "if rt_scheduler_lock_nest k1 = 0 then \<exists>v. rt_current_thread k2 = Some v \<and> first_ready k2 v else k2 = k1"
    using sys_schedule [OF k1(2) st] by blast
  have o: "on_tlist k2 = on_tlist k1" using k2(5) by (simp add: on_tlist_def fun_eq_iff)
  have lck: "rt_scheduler_lock_nest k1 = rt_scheduler_lock_nest k" using k1(3) by (simp add: same_ipc_def)
  have "woken_first q k k2"
    using k1 k2(3-7) same_ipc_trans [OF k1(3) k2(3)] by (auto simp: woken_first_def Cons o lck split: if_splits)
  then show ?thesis using Cons k1(1) k2(1,2) by (simp add: ipc_wake_def)
qed

lemma woken_first_thread:
  assumes "woken_first q k k'" and "on_tlist k q = t # ts"
  shows "stat_of k' t = RT_THREAD_READY" "th_error (threads k' t) = th_error (threads k t)" "v \<noteq> t \<Longrightarrow> threads k' v = threads k v"
  using assms stat_after(1) [of k' k t RT_THREAD_READY] by (simp_all add: woken_first_def set_stat_def)

lemma woken_first_ready:
  assumes "woken_first q k k'" and "stat_of k v = RT_THREAD_READY"
  shows "stat_of k' v = RT_THREAD_READY" "th_error (threads k' v) = th_error (threads k v)"
proof -
  show "stat_of k' v = RT_THREAD_READY"
  proof (cases "on_tlist k q")
    case (Cons t ts)
    then show ?thesis using woken_first_thread [OF assms(1) Cons] assms(2) by (cases "v = t") (simp_all add: stat_of_def)
  qed (use assms in \<open>simp add: woken_first_def\<close>)
  show "th_error (threads k' v) = th_error (threads k v)"
  proof (cases "on_tlist k q")
    case (Cons t ts)
    then show ?thesis using woken_first_thread [OF assms(1) Cons] by (cases "v = t") simp_all
  qed (use assms in \<open>simp add: woken_first_def\<close>)
qed

lemma ipc_list_resume_all:
  assumes q: "is_wait_list q"
  shows "sys_inv k \<Longrightarrow> on_tlist k q = ts \<Longrightarrow>
    \<exists>k'. rt_ipc_list_resume_all q k = Some k' \<and> sys_inv k' \<and> same_ipc k k' \<and> on_tlist k' q = []
      \<and> (\<forall>q'. is_wait_list q' \<and> q' \<noteq> q \<longrightarrow> on_tlist k' q' = on_tlist k q')
      \<and> rt_current_thread k' = rt_current_thread k
      \<and> (\<forall>t\<in>set ts. stat_of k' t = RT_THREAD_READY \<and> th_error (threads k' t) = RT_ERROR)
      \<and> (\<forall>t. t \<notin> set ts \<longrightarrow> threads k' t = threads k t)"
proof (induction ts arbitrary: k)
  case Nil
  then show ?case by (subst rt_ipc_list_resume_all.simps) simp
next
  case (Cons t ts)
  let ?k0 = "upd_thread t (\<lambda>th. th\<lparr>th_error := RT_ERROR\<rparr>) k"
  have inv0: "sys_inv ?k0" using Cons.prems(1) by (rule sys_inv_upd_error)
  have l0: "on_tlist ?k0 q = t # ts" using Cons.prems(2) by simp
  obtain k1 where k1: "rt_thread_resume t ?k0 = Some (RT_EOK, k1)" "sys_inv k1" "same_ipc ?k0 k1"
    "threads k1 = (threads ?k0)(t := set_stat RT_THREAD_READY (threads ?k0 t))"
    "on_tlist k1 q = ts" "\<forall>q'. is_wait_list q' \<and> q' \<noteq> q \<longrightarrow> on_tlist k1 q' = on_tlist ?k0 q'"
    "rt_current_thread k1 = rt_current_thread ?k0"
    using ipc_list_resume [OF inv0 q l0] by blast
  obtain k2 where k2: "rt_ipc_list_resume_all q k1 = Some k2" "sys_inv k2" "same_ipc k1 k2" "on_tlist k2 q = []"
    "\<forall>q'. is_wait_list q' \<and> q' \<noteq> q \<longrightarrow> on_tlist k2 q' = on_tlist k1 q'" "rt_current_thread k2 = rt_current_thread k1"
    "\<forall>t\<in>set ts. stat_of k2 t = RT_THREAD_READY \<and> th_error (threads k2 t) = RT_ERROR"
    "\<forall>t. t \<notin> set ts \<longrightarrow> threads k2 t = threads k1 t"
    using Cons.IH [OF k1(2,5)] by blast
  have "t \<notin> set ts" using wait_list_distinct [OF sys_invD(5) [OF Cons.prems(1)], of q] Cons.prems(2) by simp
  then have "threads k2 t = set_stat RT_THREAD_READY ((threads k t)\<lparr>th_error := RT_ERROR\<rparr>)" using k2(8) k1(4) by simp
  then have "stat_of k2 t = RT_THREAD_READY \<and> th_error (threads k2 t) = RT_ERROR"
    by (simp add: stat_of_def set_stat_masked)
  moreover have "rt_ipc_list_resume_all q k = Some k2"
    using Cons.prems(2) k1(1) k2(1) by (subst rt_ipc_list_resume_all.simps) simp
  moreover have "same_ipc k k2" using k1(3) k2(3) same_ipc_sched(3) same_ipc_trans by blast
  moreover have "\<forall>u. u \<notin> set (t # ts) \<longrightarrow> threads k2 u = threads k u" using k2(8) k1(4) by simp
  ultimately show ?case using k1(6,7) k2 by (intro exI [of _ k2]) simp
qed

text \<open>The objects without a flag put a thread at the end of their list and wake the first one, as the others do with first come, first served.\<close>

lemma wait_fifo:
  "do { (_, k) \<leftarrow> rt_thread_suspend t k; k \<leftarrow> tlist_append q t k; k \<leftarrow> sleep_on t time k; f k } = do { k \<leftarrow> ipc_wait q t RT_IPC_FLAG_FIFO time k; f k }"
  by (simp add: ipc_wait_def rt_ipc_list_suspend_def split_def)

lemma wake_first_eq:
  "(case on_tlist k q of [] \<Rightarrow> Some k | t # _ \<Rightarrow> do { (_, k) \<leftarrow> rt_thread_resume t k; rt_schedule k }) = ipc_wake q k"
  by (simp add: ipc_wake_def rt_ipc_list_resume_def split_def split: list.splits)

section \<open>The contract of an object with waiting threads\<close>

text \<open>
  Every blocking object promises the same to its users: while what its waiters wait for is available,
  nobody waits.  The locale takes the wait list and the condition of an object and shows once for all objects
  that blocking, waking and timeouts keep the promise; the object theories interpret it.
\<close>

definition parked :: "thread_list \<Rightarrow> (kernel \<Rightarrow> bool) \<Rightarrow> kernel \<Rightarrow> bool" where
  "parked q avail k \<longleftrightarrow> (avail k \<longrightarrow> on_tlist k q = [])"

text \<open>The thread \<open>t\<close> went to sleep on the list \<open>q\<close> and the processor was given away.\<close>

definition now_waiting :: "thread_list \<Rightarrow> rt_uint8_t \<Rightarrow> 32 word \<Rightarrow> tid \<Rightarrow> kernel \<Rightarrow> kernel \<Rightarrow> bool" where
  "now_waiting q flag time t k k' \<longleftrightarrow> stat_of k' t = RT_THREAD_SUSPEND \<and> th_error (threads k' t) = RT_EOK
     \<and> (\<forall>v. v \<noteq> t \<longrightarrow> threads k' v = threads k v)
     \<and> on_tlist k' q = wait_order flag k t (on_tlist k q)
     \<and> (\<forall>q'. is_wait_list q' \<and> q' \<noteq> q \<longrightarrow> on_tlist k' q' = on_tlist k q')
     \<and> (if 0 < sint time then home (timer_lists k') (Thread_timer t) = Some Hard_timers
           \<and> tm_timeout_tick (timers k' (Thread_timer t)) = rt_tick k + time
         else home (timer_lists k') (Thread_timer t) = None)
     \<and> (if rt_scheduler_lock_nest k = 0 then \<exists>v. rt_current_thread k' = Some v \<and> first_ready k' v
         else rt_current_thread k' = rt_current_thread k)"

locale waiting =
  fixes q :: thread_list and avail :: "kernel \<Rightarrow> bool"
  assumes wait_list: "is_wait_list q"
    and avail_frame: "same_ipc k k' \<Longrightarrow> avail k' = avail k"
begin

lemma block:
  assumes "sys_inv k" and "\<not> avail k" and "stat_of k t = RT_THREAD_READY"
    and "flag = RT_IPC_FLAG_FIFO \<or> flag = RT_IPC_FLAG_PRIO" and "time \<noteq> 0x7fffffff"
    and "stat_of k u = RT_THREAD_READY" "u \<noteq> t"
  shows "\<exists>k'. ipc_wait q t flag time k = Some k' \<and> sys_inv k' \<and> same_ipc k k' \<and> parked q avail k'
    \<and> threads k' = (threads k)(t := set_stat RT_THREAD_SUSPEND (threads k t))
    \<and> on_tlist k' q = wait_order flag k t (on_tlist k q)
    \<and> (\<forall>q'. is_wait_list q' \<and> q' \<noteq> q \<longrightarrow> on_tlist k' q' = on_tlist k q')
    \<and> (if 0 < sint time then home (timer_lists k') (Thread_timer t) = Some Hard_timers
          \<and> tm_timeout_tick (timers k' (Thread_timer t)) = rt_tick k + time
        else home (timer_lists k') (Thread_timer t) = None)
    \<and> (if rt_scheduler_lock_nest k = 0 then \<exists>v. rt_current_thread k' = Some v \<and> first_ready k' v
        else rt_current_thread k' = rt_current_thread k)"
proof -
  obtain k' where "ipc_wait q t flag time k = Some k'" "sys_inv k'" "same_ipc k k'"
    "threads k' = (threads k)(t := set_stat RT_THREAD_SUSPEND (threads k t))"
    "on_tlist k' q = wait_order flag k t (on_tlist k q)"
    "\<forall>q'. is_wait_list q' \<and> q' \<noteq> q \<longrightarrow> on_tlist k' q' = on_tlist k q'"
    "if 0 < sint time then home (timer_lists k') (Thread_timer t) = Some Hard_timers
          \<and> tm_timeout_tick (timers k' (Thread_timer t)) = rt_tick k + time
        else home (timer_lists k') (Thread_timer t) = None"
    "if rt_scheduler_lock_nest k = 0 then \<exists>v. rt_current_thread k' = Some v \<and> first_ready k' v
        else rt_current_thread k' = rt_current_thread k"
    using sys_wait [OF assms(1,3) wait_list assms(4-7)] by blast
  moreover have "parked q avail k'" using avail_frame [of k k'] assms(2) \<open>same_ipc k k'\<close> by (simp add: parked_def)
  ultimately show ?thesis by blast
qed

text \<open>The services reset the error of the thread first.\<close>

lemma block_reset:
  assumes "sys_inv k" and "\<not> avail k" and "stat_of k t = RT_THREAD_READY"
    and "flag = RT_IPC_FLAG_FIFO \<or> flag = RT_IPC_FLAG_PRIO" and "time \<noteq> 0x7fffffff"
    and "stat_of k u = RT_THREAD_READY" "u \<noteq> t"
  shows "\<exists>k'. ipc_wait q t flag time (upd_thread t (\<lambda>th. th\<lparr>th_error := RT_EOK\<rparr>) k) = Some k' \<and> sys_inv k' \<and> same_ipc k k'
    \<and> parked q avail k' \<and> stat_of k' t = RT_THREAD_SUSPEND \<and> th_error (threads k' t) = RT_EOK
    \<and> (\<forall>v. v \<noteq> t \<longrightarrow> threads k' v = threads k v)
    \<and> on_tlist k' q = wait_order flag k t (on_tlist k q)
    \<and> (\<forall>q'. is_wait_list q' \<and> q' \<noteq> q \<longrightarrow> on_tlist k' q' = on_tlist k q')
    \<and> (if 0 < sint time then home (timer_lists k') (Thread_timer t) = Some Hard_timers
          \<and> tm_timeout_tick (timers k' (Thread_timer t)) = rt_tick k + time
        else home (timer_lists k') (Thread_timer t) = None)
    \<and> (if rt_scheduler_lock_nest k = 0 then \<exists>v. rt_current_thread k' = Some v \<and> first_ready k' v
        else rt_current_thread k' = rt_current_thread k)"
proof -
  let ?k0 = "upd_thread t (\<lambda>th. th\<lparr>th_error := RT_EOK\<rparr>) k"
  have ipc0: "same_ipc k ?k0" by simp
  have inv0: "sys_inv ?k0" using assms(1) by (rule sys_inv_upd_error)
  have un0: "\<not> avail ?k0" using assms(2) avail_frame [OF ipc0] by simp
  obtain k' where k': "ipc_wait q t flag time ?k0 = Some k'" "sys_inv k'" "same_ipc ?k0 k'"
    "parked q avail k'" "threads k' = (threads ?k0)(t := set_stat RT_THREAD_SUSPEND (threads ?k0 t))"
    "on_tlist k' q = wait_order flag ?k0 t (on_tlist ?k0 q)"
    "\<forall>q'. is_wait_list q' \<and> q' \<noteq> q \<longrightarrow> on_tlist k' q' = on_tlist ?k0 q'"
    "if 0 < sint time then home (timer_lists k') (Thread_timer t) = Some Hard_timers
          \<and> tm_timeout_tick (timers k' (Thread_timer t)) = rt_tick ?k0 + time
        else home (timer_lists k') (Thread_timer t) = None"
    "if rt_scheduler_lock_nest ?k0 = 0 then \<exists>v. rt_current_thread k' = Some v \<and> first_ready k' v
        else rt_current_thread k' = rt_current_thread ?k0"
    using block [OF inv0 un0 _ assms(4,5), of t u] assms(3,6,7) by auto
  have "same_ipc k k'" using ipc0 k'(3) by (rule same_ipc_trans)
  moreover have "stat_of k' t = RT_THREAD_SUSPEND" "th_error (threads k' t) = RT_EOK" "\<forall>v. v \<noteq> t \<longrightarrow> threads k' v = threads k v"
    using k'(5) by (simp_all add: stat_of_def set_stat_masked)
  moreover have eq: "wait_order flag ?k0 t (on_tlist k q) = wait_order flag k t (on_tlist k q)"
    using wait_order_cong [of ?k0 k flag t "on_tlist k q"] by simp
  moreover have fr: "on_tlist ?k0 = on_tlist k" "rt_tick ?k0 = rt_tick k" "rt_scheduler_lock_nest ?k0 = rt_scheduler_lock_nest k"
    "rt_current_thread ?k0 = rt_current_thread k" by simp_all
  ultimately show ?thesis using k'(1,2,4) k'(6-9) [unfolded fr eq] by blast
qed

lemma block_now_waiting:
  assumes "sys_inv k" and "\<not> avail k" and "stat_of k t = RT_THREAD_READY"
    and "flag = RT_IPC_FLAG_FIFO \<or> flag = RT_IPC_FLAG_PRIO" and "time \<noteq> 0x7fffffff"
    and "stat_of k u = RT_THREAD_READY" "u \<noteq> t"
  shows "\<exists>k'. ipc_wait q t flag time (upd_thread t (\<lambda>th. th\<lparr>th_error := RT_EOK\<rparr>) k) = Some k' \<and> sys_inv k' \<and> same_ipc k k'
    \<and> now_waiting q flag time t k k'"
  using block_reset [OF assms] unfolding now_waiting_def by blast

lemma wake_first:
  assumes "sys_inv k" and "parked q avail k" and "on_tlist k q = t # ts"
  shows "\<exists>k'. rt_ipc_list_resume q k = Some k' \<and> sys_inv k' \<and> same_ipc k k' \<and> parked q avail k' \<and> \<not> avail k'
    \<and> threads k' = (threads k)(t := set_stat RT_THREAD_READY (threads k t)) \<and> stat_of k' t = RT_THREAD_READY
    \<and> on_tlist k' q = ts \<and> (\<forall>q'. is_wait_list q' \<and> q' \<noteq> q \<longrightarrow> on_tlist k' q' = on_tlist k q')
    \<and> home (timer_lists k') (Thread_timer t) = None \<and> rt_current_thread k' = rt_current_thread k"
proof -
  obtain k' where k': "rt_ipc_list_resume q k = Some k'" "sys_inv k'" "same_ipc k k'"
    "threads k' = (threads k)(t := set_stat RT_THREAD_READY (threads k t))" "on_tlist k' q = ts"
    "\<forall>q'. is_wait_list q' \<and> q' \<noteq> q \<longrightarrow> on_tlist k' q' = on_tlist k q'"
    "home (timer_lists k') (Thread_timer t) = None" "rt_current_thread k' = rt_current_thread k"
    using ipc_list_resume [OF assms(1) wait_list assms(3)] by blast
  moreover have "\<not> avail k'" using assms(2,3) avail_frame [OF k'(3)] by (auto simp: parked_def)
  moreover have "stat_of k' t = RT_THREAD_READY" using stat_after(1) [OF k'(4)] by simp
  ultimately show ?thesis by (auto simp: parked_def)
qed

lemma wake_all:
  assumes "sys_inv k"
  shows "\<exists>k'. rt_ipc_list_resume_all q k = Some k' \<and> sys_inv k' \<and> same_ipc k k' \<and> on_tlist k' q = []
    \<and> (\<forall>q'. is_wait_list q' \<and> q' \<noteq> q \<longrightarrow> on_tlist k' q' = on_tlist k q') \<and> rt_current_thread k' = rt_current_thread k
    \<and> (\<forall>t\<in>set (on_tlist k q). stat_of k' t = RT_THREAD_READY \<and> th_error (threads k' t) = RT_ERROR)
    \<and> (\<forall>t. t \<notin> set (on_tlist k q) \<longrightarrow> threads k' t = threads k t)"
  using ipc_list_resume_all [OF wait_list assms refl] by blast

lemma timeout_keeps: "timed_out S k k' \<Longrightarrow> parked q avail k \<Longrightarrow> parked q avail k'"
  using avail_frame [of k k'] wait_list by (auto simp: timed_out_def parked_def)

end

end
