(* ===== verification/RT_Sem.thy ===== *)
theory RT_Sem
  imports RT_Ipc
begin

text \<open>
  Semaphores, the operations \<^verbatim>\<open>rt_sem_*\<close> of \<^verbatim>\<open>kernel/src/ipc.c\<close>.  The value is a
  16-bit counter; a release hands the semaphore directly to the first waiting thread and counts only
  when nobody waits.
\<close>

section \<open>The code\<close>

text \<open>\<^verbatim>\<open>rt_ipc_object_init\<close>, then value and flag.\<close>

definition sem_set :: "nat \<Rightarrow> rt_uint32_t \<Rightarrow> rt_uint8_t \<Rightarrow> kernel \<Rightarrow> kernel option" where
  "sem_set s val flag k =
     do { k \<leftarrow> tlist_init_head (Sem_wait s) k;
          let k = upd_sem s (\<lambda>sm. sm\<lparr>sem_value := ucast val\<rparr>) k;
          Some (upd_object (Obj s) (\<lambda>ob. ob\<lparr>obj_flag := flag\<rparr>) k) }"

definition rt_sem_init :: "nat \<Rightarrow> rt_uint8_t list \<Rightarrow> rt_uint32_t \<Rightarrow> rt_uint8_t \<Rightarrow> kernel \<Rightarrow> (rt_err_t \<times> kernel) option" where
  "rt_sem_init s name val flag k =
     do { RT_ASSERT (val < 0x10000);
          k \<leftarrow> rt_object_init (Obj s) RT_Object_Class_Semaphore name k;
          k \<leftarrow> sem_set s val flag k;
          Some (RT_EOK, k) }"

definition rt_sem_detach :: "nat \<Rightarrow> kernel \<Rightarrow> (rt_err_t \<times> kernel) option" where
  "rt_sem_detach s k =
     do { RT_ASSERT (rt_object_get_type (Obj s) k = RT_Object_Class_Semaphore);
          RT_ASSERT (rt_object_is_systemobject (Obj s) k);
          k \<leftarrow> rt_ipc_list_resume_all (Sem_wait s) k;
          Some (RT_EOK, rt_object_detach (Obj s) k) }"

definition rt_sem_create ::
    "rt_uint8_t list \<Rightarrow> rt_uint32_t \<Rightarrow> rt_uint8_t \<Rightarrow> nat option \<Rightarrow> kernel \<Rightarrow> (nat option \<times> kernel) option" where
  "rt_sem_create name val flag block k =
     do { RT_DEBUG_NOT_IN_INTERRUPT k;
          RT_ASSERT (val < 0x10000);
          (r, k) \<leftarrow> rt_object_allocate RT_Object_Class_Semaphore name block k;
          case r of None \<Rightarrow> Some (None, k)
          | Some s \<Rightarrow> do { k \<leftarrow> sem_set s val flag k; Some (Some s, k) } }"

definition rt_sem_delete :: "nat \<Rightarrow> kernel \<Rightarrow> (rt_err_t \<times> kernel) option" where
  "rt_sem_delete s k =
     do { RT_DEBUG_NOT_IN_INTERRUPT k;
          RT_ASSERT (rt_object_get_type (Obj s) k = RT_Object_Class_Semaphore);
          RT_ASSERT (\<not> rt_object_is_systemobject (Obj s) k);
          k \<leftarrow> rt_ipc_list_resume_all (Sem_wait s) k;
          k \<leftarrow> rt_object_delete (Obj s) k;
          Some (RT_EOK, k) }"

definition rt_sem_take :: "nat \<Rightarrow> 32 word \<Rightarrow> kernel \<Rightarrow> (rt_err_t outcome \<times> kernel) option" where
  "rt_sem_take s time k =
     do { RT_ASSERT (rt_object_get_type (Obj s) k = RT_Object_Class_Semaphore);
          if 0 < sem_value (sems k s) then
            Some (Finished RT_EOK, upd_sem s (\<lambda>sm. sm\<lparr>sem_value := sem_value sm - 1\<rparr>) k)
          else if time = 0 then Some (Finished (-RT_ETIMEOUT), k)
          else do {
            RT_DEBUG_IN_THREAD_CONTEXT k;
            t \<leftarrow> rt_thread_self k;
            let k = upd_thread t (\<lambda>th. th\<lparr>th_error := RT_EOK\<rparr>) k;
            k \<leftarrow> ipc_wait (Sem_wait s) t (obj_flag (objects k (Obj s))) time k;
            Some (Waiting t, k) } }"

definition rt_sem_take_back :: "tid \<Rightarrow> kernel \<Rightarrow> rt_err_t" where
  "rt_sem_take_back t k = (if th_error (threads k t) \<noteq> RT_EOK then - th_error (threads k t) else RT_EOK)"

definition rt_sem_trytake :: "nat \<Rightarrow> kernel \<Rightarrow> (rt_err_t outcome \<times> kernel) option" where
  "rt_sem_trytake s k = rt_sem_take s 0 k"

definition rt_sem_release :: "nat \<Rightarrow> kernel \<Rightarrow> (rt_err_t \<times> kernel) option" where
  "rt_sem_release s k =
     do { RT_ASSERT (rt_object_get_type (Obj s) k = RT_Object_Class_Semaphore);
          if on_tlist k (Sem_wait s) \<noteq> [] then
            do { k \<leftarrow> rt_ipc_list_resume (Sem_wait s) k; k \<leftarrow> rt_schedule k; Some (RT_EOK, k) }
          else Some (RT_EOK, upd_sem s (\<lambda>sm. sm\<lparr>sem_value := sem_value sm + 1\<rparr>) k) }"

definition rt_sem_control :: "nat \<Rightarrow> int \<Rightarrow> rt_uint32_t \<Rightarrow> kernel \<Rightarrow> (rt_err_t \<times> kernel) option" where
  "rt_sem_control s cmd arg k =
     do { RT_ASSERT (rt_object_get_type (Obj s) k = RT_Object_Class_Semaphore);
          if cmd = RT_IPC_CMD_RESET then
            do { k \<leftarrow> rt_ipc_list_resume_all (Sem_wait s) k;
                 k \<leftarrow> rt_schedule (upd_sem s (\<lambda>sm. sm\<lparr>sem_value := ucast arg\<rparr>) k);
                 Some (RT_EOK, k) }
          else Some (-RT_ERROR, k) }"

section \<open>Correctness\<close>

definition sem_avail :: "nat \<Rightarrow> kernel \<Rightarrow> bool" where
  "sem_avail s k \<longleftrightarrow> sem_value (sems k s) \<noteq> 0"

definition sem_inv :: "nat \<Rightarrow> kernel \<Rightarrow> bool" where
  "sem_inv s k \<longleftrightarrow> rt_object_get_type (Obj s) k = RT_Object_Class_Semaphore
     \<and> (obj_flag (objects k (Obj s)) = RT_IPC_FLAG_FIFO \<or> obj_flag (objects k (Obj s)) = RT_IPC_FLAG_PRIO)
     \<and> parked (Sem_wait s) (sem_avail s) k"

interpretation sem_wait: waiting "Sem_wait s" "sem_avail s" for s
  by unfold_locales (simp_all add: sem_avail_def same_ipc_def)

lemma sem_inv_frame:
  "same_ipc k k' \<Longrightarrow> parked (Sem_wait s) (sem_avail s) k' \<Longrightarrow> sem_inv s k \<Longrightarrow> sem_inv s k'"
  by (simp add: sem_inv_def same_ipc_def rt_object_get_type_def)

text \<open>Taking an available semaphore, and not waiting for one that is not available.\<close>

lemma sem_take_no_wait:
  assumes "sem_inv s k"
  shows "sem_avail s k \<Longrightarrow> rt_sem_take s time k = Some (Finished RT_EOK, upd_sem s (\<lambda>sm. sm\<lparr>sem_value := sem_value sm - 1\<rparr>) k)"
    and "\<not> sem_avail s k \<Longrightarrow> rt_sem_take s 0 k = Some (Finished (-RT_ETIMEOUT), k)"
  using assms by (simp_all add: rt_sem_take_def sem_inv_def sem_avail_def word_gt_0)

lemma sem_take_waits:
  assumes inv: "sys_inv k" and s: "sem_inv s k" and un: "\<not> sem_avail s k" and cur: "rt_current_thread k = Some t"
    and st: "stat_of k t = RT_THREAD_READY" and ir: "rt_interrupt_nest k = 0"
    and time: "time \<noteq> 0" "time \<noteq> 0x7fffffff" and u: "stat_of k u = RT_THREAD_READY" "u \<noteq> t"
  defines "fl \<equiv> obj_flag (objects k (Obj s))"
  shows "\<exists>k'. rt_sem_take s time k = Some (Waiting t, k') \<and> sys_inv k' \<and> sem_inv s k' \<and> same_ipc k k'
    \<and> on_tlist k' (Sem_wait s) = wait_order fl k t (on_tlist k (Sem_wait s))
    \<and> (\<forall>q'. is_wait_list q' \<and> q' \<noteq> Sem_wait s \<longrightarrow> on_tlist k' q' = on_tlist k q')
    \<and> stat_of k' t = RT_THREAD_SUSPEND \<and> th_error (threads k' t) = RT_EOK
    \<and> (\<forall>v. v \<noteq> t \<longrightarrow> threads k' v = threads k v)
    \<and> (if 0 < sint time then home (timer_lists k') (Thread_timer t) = Some Hard_timers
          \<and> tm_timeout_tick (timers k' (Thread_timer t)) = rt_tick k + time
        else home (timer_lists k') (Thread_timer t) = None)
    \<and> (if rt_scheduler_lock_nest k = 0 then \<exists>v. rt_current_thread k' = Some v \<and> first_ready k' v
        else rt_current_thread k' = Some t)"
proof -
  have fl: "fl = RT_IPC_FLAG_FIFO \<or> fl = RT_IPC_FLAG_PRIO" using s by (simp add: sem_inv_def fl_def)
  obtain k' where k': "ipc_wait (Sem_wait s) t fl time (upd_thread t (\<lambda>th. th\<lparr>th_error := RT_EOK\<rparr>) k) = Some k'"
    "sys_inv k'" "same_ipc k k'" "parked (Sem_wait s) (sem_avail s) k'" and rest:
    "on_tlist k' (Sem_wait s) = wait_order fl k t (on_tlist k (Sem_wait s))"
    "\<forall>q'. is_wait_list q' \<and> q' \<noteq> Sem_wait s \<longrightarrow> on_tlist k' q' = on_tlist k q'"
    "stat_of k' t = RT_THREAD_SUSPEND" "th_error (threads k' t) = RT_EOK" "\<forall>v. v \<noteq> t \<longrightarrow> threads k' v = threads k v"
    "if 0 < sint time then home (timer_lists k') (Thread_timer t) = Some Hard_timers
          \<and> tm_timeout_tick (timers k' (Thread_timer t)) = rt_tick k + time
        else home (timer_lists k') (Thread_timer t) = None"
    "if rt_scheduler_lock_nest k = 0 then \<exists>v. rt_current_thread k' = Some v \<and> first_ready k' v
        else rt_current_thread k' = rt_current_thread k"
    using sem_wait.block_reset [OF inv un st fl time(2) u] by blast
  have "rt_sem_take s time k = Some (Waiting t, k')"
    using s un cur ir time k'(1) by (simp add: rt_sem_take_def sem_inv_def sem_avail_def rt_thread_self_def fl_def
        RT_DEBUG_IN_THREAD_CONTEXT_def RT_DEBUG_NOT_IN_INTERRUPT_def rt_interrupt_get_nest_def)
  moreover have "sem_inv s k'" using k'(3,4) s by (rule sem_inv_frame)
  ultimately show ?thesis using k' rest cur by (intro exI [of _ k']) simp
qed

lemma sem_release_hands_over:
  assumes inv: "sys_inv k" and s: "sem_inv s k" and l: "on_tlist k (Sem_wait s) = t # ts"
  shows "\<exists>k'. rt_sem_release s k = Some (RT_EOK, k') \<and> sys_inv k' \<and> sem_inv s k' \<and> same_ipc k k'
    \<and> on_tlist k' (Sem_wait s) = ts \<and> (\<forall>q'. is_wait_list q' \<and> q' \<noteq> Sem_wait s \<longrightarrow> on_tlist k' q' = on_tlist k q')
    \<and> stat_of k' t = RT_THREAD_READY \<and> th_error (threads k' t) = th_error (threads k t)
    \<and> (\<forall>v. v \<noteq> t \<longrightarrow> threads k' v = threads k v) \<and> home (timer_lists k') (Thread_timer t) = None
    \<and> (rt_scheduler_lock_nest k = 0 \<longrightarrow> (\<exists>v. rt_current_thread k' = Some v \<and> first_ready k' v))"
proof -
  obtain k1 where k1: "rt_ipc_list_resume (Sem_wait s) k = Some k1" "sys_inv k1" "same_ipc k k1"
    "parked (Sem_wait s) (sem_avail s) k1" "threads k1 = (threads k)(t := set_stat RT_THREAD_READY (threads k t))"
    "stat_of k1 t = RT_THREAD_READY" "on_tlist k1 (Sem_wait s) = ts"
    "\<forall>q'. is_wait_list q' \<and> q' \<noteq> Sem_wait s \<longrightarrow> on_tlist k1 q' = on_tlist k q'"
    "home (timer_lists k1) (Thread_timer t) = None"
    using sem_wait.wake_first [OF inv _ l] s by (auto simp: sem_inv_def)
  obtain k2 where k2: "rt_schedule k1 = Some k2" "sys_inv k2" "same_ipc k1 k2" "threads k2 = threads k1" "tlists k2 = tlists k1"
    "timer_lists k2 = timer_lists k1"
    "if rt_scheduler_lock_nest k1 = 0 then \<exists>v. rt_current_thread k2 = Some v \<and> first_ready k2 v else k2 = k1"
    using sys_schedule [OF k1(2,6)] by blast
  have o: "on_tlist k2 = on_tlist k1" using k2(5) by (simp add: on_tlist_def fun_eq_iff)
  have ipc: "same_ipc k k2" using k1(3) k2(3) by (rule same_ipc_trans)
  moreover have "parked (Sem_wait s) (sem_avail s) k2"
    using k1(4) sem_wait.avail_frame [OF k2(3)] by (simp add: parked_def o)
  with ipc have "sem_inv s k2" using s by (rule sem_inv_frame)
  moreover have "rt_sem_release s k = Some (RT_EOK, k2)"
    using s l k1(1) k2(1) by (simp add: rt_sem_release_def sem_inv_def)
  moreover have "rt_scheduler_lock_nest k1 = rt_scheduler_lock_nest k" using k1(3) by (simp add: same_ipc_def)
  moreover have "th_error (threads k2 t) = th_error (threads k t)" "stat_of k2 t = RT_THREAD_READY"
    "\<forall>v. v \<noteq> t \<longrightarrow> threads k2 v = threads k v"
    using k1(5,6) k2(4) by (simp_all add: stat_of_def)
  ultimately show ?thesis using k1 k2 o by (intro exI [of _ k2]) simp
qed

lemma sem_release_counts:
  assumes "sem_inv s k" and "on_tlist k (Sem_wait s) = []"
  shows "rt_sem_release s k = Some (RT_EOK, upd_sem s (\<lambda>sm. sm\<lparr>sem_value := sem_value sm + 1\<rparr>) k)"
  using assms by (simp add: rt_sem_release_def sem_inv_def)

text \<open>A reset wakes every waiter with an error and sets the value.\<close>

lemma sem_reset:
  assumes inv: "sys_inv k" and s: "sem_inv s k" and u: "stat_of k u = RT_THREAD_READY"
  shows "\<exists>k'. rt_sem_control s RT_IPC_CMD_RESET arg k = Some (RT_EOK, k') \<and> sys_inv k' \<and> sem_inv s k'
    \<and> on_tlist k' (Sem_wait s) = [] \<and> sem_value (sems k' s) = ucast arg
    \<and> (\<forall>t\<in>set (on_tlist k (Sem_wait s)). stat_of k' t = RT_THREAD_READY \<and> th_error (threads k' t) = RT_ERROR)
    \<and> (\<forall>t. t \<notin> set (on_tlist k (Sem_wait s)) \<longrightarrow> threads k' t = threads k t)"
proof -
  obtain k1 where k1: "rt_ipc_list_resume_all (Sem_wait s) k = Some k1" "sys_inv k1" "same_ipc k k1" "on_tlist k1 (Sem_wait s) = []"
    "\<forall>t\<in>set (on_tlist k (Sem_wait s)). stat_of k1 t = RT_THREAD_READY \<and> th_error (threads k1 t) = RT_ERROR"
    "\<forall>t. t \<notin> set (on_tlist k (Sem_wait s)) \<longrightarrow> threads k1 t = threads k t"
    using sem_wait.wake_all [OF inv, of s] by blast
  let ?k2 = "upd_sem s (\<lambda>sm. sm\<lparr>sem_value := ucast arg\<rparr>) k1"
  have "u \<notin> set (on_tlist k (Sem_wait s))"
    using wait_list_suspended(1) [OF sys_invD(5) [OF inv], of "Sem_wait s" u] u by auto
  then have "stat_of ?k2 u = RT_THREAD_READY" using k1(6) u by (simp add: stat_of_def)
  then obtain k3 where k3: "rt_schedule ?k2 = Some k3" "sys_inv k3" "same_ipc ?k2 k3" "threads k3 = threads ?k2" "tlists k3 = tlists ?k2"
    "objects k3 = objects ?k2" using sys_schedule [of ?k2 u] k1(2) by auto
  have "on_tlist k3 (Sem_wait s) = []" using k3(5) k1(4) by (simp add: on_tlist_def upd_sem_def)
  moreover have "sem_inv s k3"
    using s k1(3) k3(6) calculation by (simp add: sem_inv_def rt_object_get_type_def same_ipc_def upd_sem_def parked_def)
  moreover have "sem_value (sems k3 s) = ucast arg" using k3(3) by (simp add: same_ipc_def upd_sem_def)
  moreover have "rt_sem_control s RT_IPC_CMD_RESET arg k = Some (RT_EOK, k3)"
    using s k1(1) k3(1) by (simp add: rt_sem_control_def sem_inv_def)
  moreover have "threads k3 = threads k1" using k3(4) by (simp add: upd_sem_def)
  ultimately show ?thesis using k1(5,6) k3(2) by (intro exI [of _ k3]) (simp add: stat_of_def)
qed

section \<open>Properties\<close>

text \<open>C10: \<^verbatim>\<open>rt_sem_take\<close> on every branch.  An available semaphore is taken and only its value changes.
  One that is not available is refused with \<^verbatim>\<open>-RT_ETIMEOUT\<close> when the caller does not want to wait.
  Otherwise the caller is suspended on the list of the semaphore, at the place its flag asks for (at the end, or
  before the first thread of lower priority), its timer is running exactly when a time was given, the other
  threads and wait lists are as before, and a ready thread of the highest priority gets the processor; all
  invariants hold, in particular nobody waits for an available semaphore.\<close>

theorem sem_take_correct:
  assumes "sys_inv k" and "sem_inv s k" and "rt_current_thread k = Some t" and "stat_of k t = RT_THREAD_READY"
    and "rt_interrupt_nest k = 0" and "rt_scheduler_lock_nest k = 0" and "time \<noteq> 0x7fffffff"
    and "stat_of k u = RT_THREAD_READY" "u \<noteq> t"
  shows "(0 < sem_value (sems k s) \<longrightarrow> rt_sem_take s time k = Some (Finished RT_EOK, upd_sem s (\<lambda>sm. sm\<lparr>sem_value := sem_value sm - 1\<rparr>) k)
      \<and> sem_inv s (upd_sem s (\<lambda>sm. sm\<lparr>sem_value := sem_value sm - 1\<rparr>) k))
    \<and> (sem_value (sems k s) = 0 \<longrightarrow> rt_sem_take s 0 k = Some (Finished (-RT_ETIMEOUT), k))
    \<and> (sem_value (sems k s) = 0 \<and> time \<noteq> 0 \<longrightarrow> (\<exists>k'. rt_sem_take s time k = Some (Waiting t, k') \<and> sys_inv k' \<and> sem_inv s k'
         \<and> stat_of k' t = RT_THREAD_SUSPEND \<and> sems k' = sems k
         \<and> on_tlist k' (Sem_wait s) = wait_order (obj_flag (objects k (Obj s))) k t (on_tlist k (Sem_wait s))
         \<and> (\<forall>q'. is_wait_list q' \<and> q' \<noteq> Sem_wait s \<longrightarrow> on_tlist k' q' = on_tlist k q')
         \<and> (home (timer_lists k') (Thread_timer t) \<noteq> None \<longleftrightarrow> 0 < sint time)
         \<and> (\<forall>v. v \<noteq> t \<longrightarrow> threads k' v = threads k v) \<and> (\<exists>v. rt_current_thread k' = Some v \<and> first_ready k' v)))"
proof (intro conjI impI)
  assume av: "0 < sem_value (sems k s)"
  then have "sem_avail s k" by (simp add: sem_avail_def word_gt_0)
  then show "rt_sem_take s time k = Some (Finished RT_EOK, upd_sem s (\<lambda>sm. sm\<lparr>sem_value := sem_value sm - 1\<rparr>) k)"
    using sem_take_no_wait(1) [OF assms(2)] by simp
  show "sem_inv s (upd_sem s (\<lambda>sm. sm\<lparr>sem_value := sem_value sm - 1\<rparr>) k)"
    using assms(2) \<open>sem_avail s k\<close> by (simp add: sem_inv_def rt_object_get_type_def upd_sem_def parked_def on_tlist_def)
next
  assume "sem_value (sems k s) = 0"
  then show "rt_sem_take s 0 k = Some (Finished (-RT_ETIMEOUT), k)"
    using sem_take_no_wait(2) [OF assms(2)] by (simp add: sem_avail_def)
next
  assume z: "sem_value (sems k s) = 0 \<and> time \<noteq> 0"
  then have "\<not> sem_avail s k" "time \<noteq> 0" by (simp_all add: sem_avail_def)
  from sem_take_waits [OF assms(1,2) this(1) assms(3-5) this(2) assms(7-9)] assms(6)
  show "\<exists>k'. rt_sem_take s time k = Some (Waiting t, k') \<and> sys_inv k' \<and> sem_inv s k'
         \<and> stat_of k' t = RT_THREAD_SUSPEND \<and> sems k' = sems k
         \<and> on_tlist k' (Sem_wait s) = wait_order (obj_flag (objects k (Obj s))) k t (on_tlist k (Sem_wait s))
         \<and> (\<forall>q'. is_wait_list q' \<and> q' \<noteq> Sem_wait s \<longrightarrow> on_tlist k' q' = on_tlist k q')
         \<and> (home (timer_lists k') (Thread_timer t) \<noteq> None \<longleftrightarrow> 0 < sint time)
         \<and> (\<forall>v. v \<noteq> t \<longrightarrow> threads k' v = threads k v) \<and> (\<exists>v. rt_current_thread k' = Some v \<and> first_ready k' v)"
    by (auto simp: same_ipc_def split: if_splits)
qed

definition sample_sem :: kernel where
  "sample_sem = sample_with RT_Object_Class_Semaphore RT_IPC_FLAG_FIFO"

lemma sample_sem_ok:
  "sys_inv sample_sem" "sem_inv 5 sample_sem" "sem_value (sems sample_sem 5) = 0" "on_tlist sample_sem (Sem_wait 5) = []"
  "rt_current_thread sample_sem = Some (Suc 0)" "stat_of sample_sem (Suc 0) = RT_THREAD_READY" "stat_of sample_sem 2 = RT_THREAD_READY"
  "rt_interrupt_nest sample_sem = 0" "rt_scheduler_lock_nest sample_sem = 0" "obj_flag (objects sample_sem (Obj 5)) = RT_IPC_FLAG_FIFO"
  by (simp_all add: sample_sem_def sample_with_sys_inv sem_inv_def parked_def on_tlist_def zero_sem_def)
    (simp_all add: rt_consts)

theorem sem_take_correct_witness:
  "\<exists>k'. rt_sem_take 5 10 sample_sem = Some (Waiting 1, k') \<and> sem_inv 5 k' \<and> on_tlist k' (Sem_wait 5) = [1]
    \<and> stat_of k' 1 = RT_THREAD_SUSPEND"
  using sem_take_correct [of sample_sem 5 1 10 2] sample_sem_ok by (auto simp: wait_order_def)

text \<open>C11: \<^verbatim>\<open>rt_sem_release\<close> hands the semaphore to the first waiting thread, which becomes ready with its
  timer stopped while the value stays as it was, and runs the scheduler; with nobody waiting it counts the value
  up modulo 65536.  The other threads and wait lists are as before and the invariants hold.\<close>

theorem sem_release_correct:
  assumes "sys_inv k" and "sem_inv s k" and "rt_scheduler_lock_nest k = 0"
  shows "(on_tlist k (Sem_wait s) = [] \<longrightarrow> (\<exists>k'. rt_sem_release s k = Some (RT_EOK, k') \<and> sys_inv k' \<and> sem_inv s k'
        \<and> unat (sem_value (sems k' s)) = (unat (sem_value (sems k s)) + 1) mod 65536 \<and> threads k' = threads k))
    \<and> (\<forall>t ts. on_tlist k (Sem_wait s) = t # ts \<longrightarrow> (\<exists>k'. rt_sem_release s k = Some (RT_EOK, k') \<and> sys_inv k' \<and> sem_inv s k'
        \<and> on_tlist k' (Sem_wait s) = ts \<and> (\<forall>q'. is_wait_list q' \<and> q' \<noteq> Sem_wait s \<longrightarrow> on_tlist k' q' = on_tlist k q')
        \<and> sems k' = sems k \<and> stat_of k' t = RT_THREAD_READY \<and> home (timer_lists k') (Thread_timer t) = None
        \<and> (\<forall>v. v \<noteq> t \<longrightarrow> threads k' v = threads k v) \<and> (\<exists>v. rt_current_thread k' = Some v \<and> first_ready k' v)))"
proof (intro conjI impI allI)
  let ?k = "upd_sem s (\<lambda>sm. sm\<lparr>sem_value := sem_value sm + 1\<rparr>) k"
  assume e: "on_tlist k (Sem_wait s) = []"
  have "sem_inv s ?k" using assms(2) e
    by (simp add: sem_inv_def rt_object_get_type_def upd_sem_def parked_def on_tlist_def)
  moreover have "unat (sem_value (sems ?k s)) = (unat (sem_value (sems k s)) + 1) mod 65536"
    by (simp add: upd_sem_def unat_word_ariths)
  moreover have "threads ?k = threads k" by (simp add: upd_sem_def)
  ultimately show "\<exists>k'. rt_sem_release s k = Some (RT_EOK, k') \<and> sys_inv k' \<and> sem_inv s k'
        \<and> unat (sem_value (sems k' s)) = (unat (sem_value (sems k s)) + 1) mod 65536 \<and> threads k' = threads k"
    using sem_release_counts [OF assms(2) e] assms(1) by (intro exI [of _ ?k]) simp
next
  fix t ts assume "on_tlist k (Sem_wait s) = t # ts"
  from sem_release_hands_over [OF assms(1,2) this] assms(3)
  show "\<exists>k'. rt_sem_release s k = Some (RT_EOK, k') \<and> sys_inv k' \<and> sem_inv s k'
        \<and> on_tlist k' (Sem_wait s) = ts \<and> (\<forall>q'. is_wait_list q' \<and> q' \<noteq> Sem_wait s \<longrightarrow> on_tlist k' q' = on_tlist k q')
        \<and> sems k' = sems k \<and> stat_of k' t = RT_THREAD_READY \<and> home (timer_lists k') (Thread_timer t) = None
        \<and> (\<forall>v. v \<noteq> t \<longrightarrow> threads k' v = threads k v) \<and> (\<exists>v. rt_current_thread k' = Some v \<and> first_ready k' v)"
    by (auto simp: same_ipc_def)
qed

theorem sem_release_correct_witness:
  "\<exists>k'. rt_sem_release 5 sample_sem = Some (RT_EOK, k') \<and> unat (sem_value (sems k' 5)) = 1"
  using sem_release_correct [of sample_sem 5] sample_sem_ok by auto

text \<open>What a thread that blocked in \<^verbatim>\<open>rt_sem_take\<close> returns says why it was woken:
  \<^verbatim>\<open>RT_EOK\<close> when a release handed it the semaphore, \<^verbatim>\<open>-RT_ETIMEOUT\<close> when its timer
  expired, \<^verbatim>\<open>-RT_ERROR\<close> when the semaphore was reset; in each case it is ready again and off the
  wait list.\<close>

theorem sem_take_results:
  assumes "sys_inv k" and "sem_inv s k" and "sem_value (sems k s) = 0" and "on_tlist k (Sem_wait s) = []"
    and "rt_current_thread k = Some t" and "stat_of k t = RT_THREAD_READY" and "rt_interrupt_nest k = 0"
    and "time \<noteq> 0" "time \<noteq> 0x7fffffff" and "stat_of k u = RT_THREAD_READY" "u \<noteq> t"
  shows "\<exists>k1. rt_sem_take s time k = Some (Waiting t, k1)
    \<and> (\<exists>k2. rt_sem_release s k1 = Some (RT_EOK, k2) \<and> rt_sem_take_back t k2 = RT_EOK
         \<and> stat_of k2 t = RT_THREAD_READY \<and> on_tlist k2 (Sem_wait s) = [])
    \<and> (\<exists>k3. rt_thread_timeout t k1 = Some k3 \<and> rt_sem_take_back t k3 = -RT_ETIMEOUT
         \<and> stat_of k3 t = RT_THREAD_READY \<and> on_tlist k3 (Sem_wait s) = [])
    \<and> (\<exists>k4. rt_sem_control s RT_IPC_CMD_RESET arg k1 = Some (RT_EOK, k4) \<and> rt_sem_take_back t k4 = -RT_ERROR
         \<and> stat_of k4 t = RT_THREAD_READY \<and> on_tlist k4 (Sem_wait s) = [])"
proof -
  have un: "\<not> sem_avail s k" using assms(3) by (simp add: sem_avail_def)
  obtain k1 where k1: "rt_sem_take s time k = Some (Waiting t, k1)" "sys_inv k1" "sem_inv s k1"
    "on_tlist k1 (Sem_wait s) = wait_order (obj_flag (objects k (Obj s))) k t []" "stat_of k1 t = RT_THREAD_SUSPEND"
    "th_error (threads k1 t) = RT_EOK" "\<forall>v. v \<noteq> t \<longrightarrow> threads k1 v = threads k v"
    using sem_take_waits [OF assms(1,2) un assms(5-11)] assms(4) by auto
  have l: "on_tlist k1 (Sem_wait s) = [t]" using k1(4) by (simp add: wait_order_def)
  note d = sys_invD [OF k1(2)]
  have u1: "stat_of k1 u = RT_THREAD_READY" using k1(7) assms(10,11) by (simp add: stat_of_def)
  obtain k2 where "rt_sem_release s k1 = Some (RT_EOK, k2)" "stat_of k2 t = RT_THREAD_READY"
    "th_error (threads k2 t) = th_error (threads k1 t)" "on_tlist k2 (Sem_wait s) = []"
    using sem_release_hands_over [OF k1(2,3) l] by blast
  moreover obtain k3 where "rt_thread_timeout t k1 = Some k3" "stat_of k3 t = RT_THREAD_READY" "th_error (threads k3 t) = RT_ETIMEOUT"
    "on_tlist k3 (Sem_wait s) = []"
    using timeout_wakes [OF d(4) _ k1(5) d(7,8)] sys_inv_thread [OF k1(2) aliveI(2) [OF k1(5)]] l by auto
  moreover obtain k4 where "rt_sem_control s RT_IPC_CMD_RESET arg k1 = Some (RT_EOK, k4)" "stat_of k4 t = RT_THREAD_READY"
    "th_error (threads k4 t) = RT_ERROR" "on_tlist k4 (Sem_wait s) = []"
    using sem_reset [OF k1(2,3) u1, of arg] l by auto
  ultimately show ?thesis using k1(1,6) by (auto simp: rt_sem_take_back_def rt_consts)
qed

theorem sem_take_results_witness:
  "\<exists>k1 k2. rt_sem_take 5 10 sample_sem = Some (Waiting 1, k1) \<and> rt_sem_release 5 k1 = Some (RT_EOK, k2)
    \<and> rt_sem_take_back 1 k2 = RT_EOK"
  using sem_take_results [of sample_sem 5 1 10 2 0] sample_sem_ok by auto

text \<open>Inside a critical section the wait has no effect on control: a thread that takes an unavailable
  semaphore with the scheduler locked is suspended and queued, \<^verbatim>\<open>rt_schedule\<close> returns to it at once, and
  \<^verbatim>\<open>rt_sem_take\<close> reports success although the value was zero and nobody released the semaphore.\<close>

theorem sem_take_locked_scheduler:
  assumes "sys_inv k" and "sem_inv s k" and "sem_value (sems k s) = 0" and "rt_current_thread k = Some t"
    and "stat_of k t = RT_THREAD_READY" and "rt_interrupt_nest k = 0" and "rt_scheduler_lock_nest k \<noteq> 0"
    and "time \<noteq> 0" "time \<noteq> 0x7fffffff" and "stat_of k u = RT_THREAD_READY" "u \<noteq> t"
  shows "\<exists>k'. rt_sem_take s time k = Some (Waiting t, k') \<and> rt_current_thread k' = Some t \<and> rt_sem_take_back t k' = RT_EOK
    \<and> sem_value (sems k' s) = 0 \<and> stat_of k' t = RT_THREAD_SUSPEND \<and> t \<in> set (on_tlist k' (Sem_wait s))"
proof -
  have un: "\<not> sem_avail s k" using assms(3) by (simp add: sem_avail_def)
  show ?thesis
    using sem_take_waits [OF assms(1,2) un assms(4-6,8-11)] assms(3,7)
    by (auto simp: rt_sem_take_back_def wait_order_set same_ipc_def)
qed

lemma sys_inv_enter_critical: "sys_inv k \<Longrightarrow> sys_inv (rt_enter_critical k)"
  by (rule sys_inv_cong [of _ k]) (simp_all add: rt_enter_critical_def sched_view_def sys_invD(8))

theorem sem_take_locked_scheduler_witness:
  "\<exists>k'. rt_sem_take 5 10 (rt_enter_critical sample_sem) = Some (Waiting 1, k') \<and> rt_current_thread k' = Some 1
    \<and> rt_sem_take_back 1 k' = RT_EOK \<and> sem_value (sems k' 5) = 0"
proof -
  let ?k = "rt_enter_critical sample_sem"
  have "sem_inv 5 ?k" "rt_scheduler_lock_nest ?k \<noteq> 0" "sem_value (sems ?k 5) = 0" "rt_current_thread ?k = Some 1"
    "stat_of ?k 1 = RT_THREAD_READY" "rt_interrupt_nest ?k = 0" "stat_of ?k 2 = RT_THREAD_READY"
    using sample_sem_ok
    by (simp_all add: rt_enter_critical_def sem_inv_def parked_def sem_avail_def rt_object_get_type_def on_tlist_def stat_of_def)
  then show ?thesis
    using sem_take_locked_scheduler [OF sys_inv_enter_critical [OF sample_sem_ok(1)], of 5 1 10 2] by auto
qed

end
