(* ===== verification/RT_Clock.thy ===== *)
theory RT_Clock
  imports RT_System
begin

text \<open>
  The tick of \<^verbatim>\<open>kernel/src/clock.c\<close>, which counts, runs down the time slice of the running thread
  and checks the timers, and the services that let a thread sleep (\<^verbatim>\<open>kernel/src/thread.c\<close>) together
  with the soft timer thread (\<^verbatim>\<open>kernel/src/timer.c\<close>).
\<close>

section \<open>The code\<close>

definition RT_TICK_PER_SECOND :: "32 word" where [rt_consts]: "RT_TICK_PER_SECOND = 100"

definition rt_tick_get :: "kernel \<Rightarrow> rt_tick_t" where
  "rt_tick_get k = rt_tick k"

definition rt_uptime_tick_get :: "kernel \<Rightarrow> 64 word" where
  "rt_uptime_tick_get k = rt_tick_uptime k"

definition rt_tick_set :: "rt_tick_t \<Rightarrow> kernel \<Rightarrow> kernel" where
  "rt_tick_set tick k = k\<lparr>rt_tick := tick\<rparr>"

definition rt_tick_increase :: "(nat \<Rightarrow> nat \<Rightarrow> kernel \<Rightarrow> kernel option) \<Rightarrow> nat \<Rightarrow> kernel \<Rightarrow> kernel option" where
  "rt_tick_increase user fuel k =
     do { let k = k\<lparr>rt_tick := rt_tick k + 1, rt_tick_uptime := rt_tick_uptime k + 1\<rparr>;
          t \<leftarrow> rt_thread_self k;
          let k = upd_thread t (\<lambda>th. th\<lparr>th_remaining_tick := th_remaining_tick th - 1\<rparr>) k;
          k \<leftarrow> (if th_remaining_tick (threads k t) = 0 then
                  do { (_, k) \<leftarrow> rt_thread_yield (upd_thread t (\<lambda>th. th\<lparr>th_remaining_tick := th_init_tick th\<rparr>) k); Some k }
                else Some k);
          rt_timer_check user fuel k }"

definition rt_tick_from_millisecond :: "32 word \<Rightarrow> rt_tick_t" where
  "rt_tick_from_millisecond ms =
     (if sint ms < 0 then - 1
      else RT_TICK_PER_SECOND * (ms div 1000) + (RT_TICK_PER_SECOND * (ms mod 1000) + 999) div 1000)"

definition rt_tick_get_millisecond :: "kernel \<Rightarrow> rt_tick_t" where
  "rt_tick_get_millisecond k = rt_tick_get k * (1000 div RT_TICK_PER_SECOND)"

definition rt_thread_sleep :: "rt_tick_t \<Rightarrow> kernel \<Rightarrow> (rt_err_t outcome \<times> kernel) option" where
  "rt_thread_sleep tick k =
     do { t \<leftarrow> rt_thread_self k;
          RT_ASSERT (rt_object_get_type (Obj t) k = RT_Object_Class_Thread);
          (_, k) \<leftarrow> rt_thread_suspend t k;
          k \<leftarrow> thread_timer_start t tick k;
          k \<leftarrow> rt_schedule k;
          Some (Waiting t, k) }"

definition rt_thread_sleep_back :: "tid \<Rightarrow> kernel \<Rightarrow> rt_err_t \<times> kernel" where
  "rt_thread_sleep_back t k =
     (RT_EOK, if th_error (threads k t) = RT_ETIMEOUT then upd_thread t (\<lambda>th. th\<lparr>th_error := RT_EOK\<rparr>) k else k)"

definition rt_thread_delay :: "rt_tick_t \<Rightarrow> kernel \<Rightarrow> (rt_err_t outcome \<times> kernel) option" where
  "rt_thread_delay tick k = rt_thread_sleep tick k"

definition rt_thread_mdelay :: "32 word \<Rightarrow> kernel \<Rightarrow> (rt_err_t outcome \<times> kernel) option" where
  "rt_thread_mdelay ms k = rt_thread_sleep (rt_tick_from_millisecond ms) k"

text \<open>The first component of the result is the new value of \<^verbatim>\<open>*tick\<close>.\<close>

definition rt_thread_delay_until ::
    "rt_tick_t \<Rightarrow> rt_tick_t \<Rightarrow> kernel \<Rightarrow> (rt_tick_t \<times> rt_err_t outcome \<times> kernel) option" where
  "rt_thread_delay_until tick inc_tick k =
     do { t \<leftarrow> rt_thread_self k;
          RT_ASSERT (rt_object_get_type (Obj t) k = RT_Object_Class_Thread);
          let cur_tick = rt_tick_get k;
          if cur_tick - tick < inc_tick then
            do { let tick = tick + inc_tick;
                 let left_tick = tick - cur_tick;
                 (_, k) \<leftarrow> rt_thread_suspend t k;
                 k \<leftarrow> thread_timer_start t left_tick k;
                 k \<leftarrow> rt_schedule k;
                 Some (tick, Waiting t, k) }
          else Some (cur_tick, Finished RT_EOK, k) }"

definition rt_thread_delay_until_back :: "tid \<Rightarrow> kernel \<Rightarrow> rt_err_t \<times> kernel" where
  "rt_thread_delay_until_back t k =
     (RT_EOK, if th_error (threads k t) = -RT_ETIMEOUT then upd_thread t (\<lambda>th. th\<lparr>th_error := RT_EOK\<rparr>) k else k)"

text \<open>
  One round of the soft timer thread, up to the point where it waits or checks the soft timers; the check
  follows in either case.
\<close>

definition rt_thread_timer_round :: "kernel \<Rightarrow> (unit outcome \<times> kernel) option" where
  "rt_thread_timer_round k =
     (let next_timeout = rt_timer_list_next_timeout Soft_timers k in
      if next_timeout = RT_TICK_MAX then
        do { t \<leftarrow> rt_thread_self k; (_, k) \<leftarrow> rt_thread_suspend t k; k \<leftarrow> rt_schedule k; Some (Waiting t, k) }
      else if next_timeout - rt_tick_get k < RT_TICK_HALF then
        do { (r, k) \<leftarrow> rt_thread_delay (next_timeout - rt_tick_get k) k;
             Some (case r of Finished _ \<Rightarrow> Finished () | Waiting t \<Rightarrow> Waiting t, k) }
      else Some (Finished (), k))"

section \<open>The tick\<close>

lemma key_shift:
  assumes "1 \<le> key (b - 1) tms h"
  shows "key b tms h = key (b - 1) tms h - 1"
proof -
  have "tm_timeout_tick (tms h) - b = (tm_timeout_tick (tms h) - (b - 1)) - 1" by simp
  moreover have "tm_timeout_tick (tms h) - (b - 1) \<noteq> 0" using assms by (auto simp: key_def)
  ultimately show ?thesis using unat_dec [of "tm_timeout_tick (tms h) - (b - 1)"] by (simp add: key_def)
qed

lemma tick_count:
  assumes inv: "sys_inv k"
  defines "k1 \<equiv> k\<lparr>rt_tick := rt_tick k + 1, rt_tick_uptime := rt_tick_uptime k + 1\<rparr>"
  shows "check_inv k1" "threads_ok k1"
proof -
  note d = sys_invD [OF inv]
  let ?b = "rt_tick k"
  have ot: "\<forall>h\<in>set (on_timers k Hard_timers). key ?b (timers k) h = key (?b - 1) (timers k) h - 1"
    using d(3) key_shift by (simp add: on_time_def)
  have ord: "sorted (map (key (?b - 1) (timers k)) (on_timers k Hard_timers))"
    "\<forall>h\<in>set (on_timers k Hard_timers). key (?b - 1) (timers k) h \<le> 0x7fffffff"
    using check_invD(5) [OF d(1)] by (simp_all add: timer_order_def)
  have m: "map (key ?b (timers k)) (on_timers k Hard_timers)
      = map (\<lambda>n. n - 1) (map (key (?b - 1) (timers k)) (on_timers k Hard_timers))" using ot by simp
  have s: "sorted (map (\<lambda>n. n - 1) ns)" if "sorted ns" for ns :: "nat list"
    using that by (induction ns) (auto intro: diff_le_mono)
  have "sorted (map (key ?b (timers k)) (on_timers k Hard_timers))" unfolding m using ord(1) by (rule s)
  then have "timer_order (rt_tick k1 - 1) Hard_timers k1"
    using ot ord(2) by (auto simp: timer_order_def k1_def on_timers_def)
  moreover have "kernel_inv k1"
    using d(4) sched_view_inv [of k1 k] timer_inv_cong [of k1 k] by (simp add: kernel_inv_def k1_def sched_view_def)
  moreover have st: "stat_of k1 = stat_of k" and it: "is_thread k1 = is_thread k" and fl: "timer_flag f h k1 = timer_flag f h k" for f h
    by (simp_all add: k1_def stat_of_def is_thread_def rt_object_get_type_def timer_flag_def fun_eq_iff)
  moreover have "stack_inv k1" using d(7) by (simp add: stack_inv_def st) (simp add: k1_def rt_scheduler_stack_check_def)
  moreover have "timer_ok k1 h = timer_ok k h" for h
    by (rule timer_ok_cong) (simp_all add: st it fl, simp add: k1_def)
  then have "timers_ok k1" using check_invD(4) [OF d(1)] by (simp add: timers_ok_def) (simp add: k1_def)
  ultimately show "check_inv k1" using d(8) by (simp add: check_inv_def) (simp add: k1_def)
  show "threads_ok k1" using d(2) by (simp add: threads_ok_def alive_def st it thread_timer_ok_def fl) (simp add: k1_def)
qed

text \<open>The time slice: the count, and the yield when it is used up.\<close>

definition slice :: "rt_thread \<Rightarrow> rt_thread" where
  "slice th = th\<lparr>th_remaining_tick := (if th_remaining_tick th = 1 then th_init_tick th else th_remaining_tick th - 1)\<rparr>"

lemma slice_inv:
  assumes inv: "check_inv k" "threads_ok k"
    and f: "\<And>th. \<exists>n. f th = th\<lparr>th_remaining_tick := n\<rparr>"
  shows "check_inv (upd_thread t f k)" "threads_ok (upd_thread t f k)" "stat_of (upd_thread t f k) = stat_of k"
    "prio_of (upd_thread t f k) = prio_of k"
proof -
  obtain n where n: "f (threads k t) = (threads k t)\<lparr>th_remaining_tick := n\<rparr>" using f by blast
  let ?k = "upd_thread t f k"
  note d = check_invD [OF inv(1)]
  show st: "stat_of ?k = stat_of k" and "prio_of ?k = prio_of k" by (simp_all add: stat_of_def prio_of_def n fun_eq_iff)
  have "sched_inv ?k" using d(7) sched_inv_upd [of f k t] n by simp
  moreover have "rt_scheduler_stack_check u ?k = rt_scheduler_stack_check u k" for u
    by (simp add: rt_scheduler_stack_check_def n Let_def)
  then have "stack_inv ?k" using d(2) by (simp add: stack_inv_def st)
  ultimately show "check_inv ?k" "threads_ok ?k"
    using check_inv_frame [OF inv, of ?k] d(3) st by simp_all
qed

lemma tick_slice:
  assumes inv: "check_inv k" "threads_ok k" and cur: "rt_current_thread k = Some t" and st: "stat_of k t = RT_THREAD_READY"
  defines "kd \<equiv> upd_thread t (\<lambda>th. th\<lparr>th_remaining_tick := th_remaining_tick th - 1\<rparr>) k"
  shows "\<exists>k'. (if th_remaining_tick (threads kd t) = 0 then
                  do { (_, k) \<leftarrow> rt_thread_yield (upd_thread t (\<lambda>th. th\<lparr>th_remaining_tick := th_init_tick th\<rparr>) kd); Some k }
                else Some kd) = Some k' \<and> check_inv k' \<and> threads_ok k' \<and> same_ipc k k'
    \<and> threads k' = (threads k)(t := slice (threads k t)) \<and> timers k' = timers k \<and> timer_lists k' = timer_lists k
    \<and> objects k' = objects k \<and> (\<forall>q. is_wait_list q \<longrightarrow> on_tlist k' q = on_tlist k q)
    \<and> (th_remaining_tick (threads k t) \<noteq> 1 \<or> \<not> tlist_not_alone t k \<longrightarrow> tlists k' = tlists k \<and> rt_current_thread k' = Some t)
    \<and> (th_remaining_tick (threads k t) = 1 \<and> tlist_not_alone t k \<longrightarrow>
        on_tlist k' (Ready (prio_of k t)) = filter (\<lambda>u. u \<noteq> t) (on_tlist k (Ready (prio_of k t))) @ [t]
        \<and> (\<forall>q. q \<noteq> Ready (prio_of k t) \<longrightarrow> on_tlist k' q = on_tlist k q)
        \<and> (rt_scheduler_lock_nest k = 0 \<longrightarrow> (\<exists>u. rt_current_thread k' = Some u \<and> first_ready k' u))) \<and> cur_moves k k'"
proof (cases "th_remaining_tick (threads k t) = 1")
  case False
  have d: "check_inv kd" "threads_ok kd" unfolding kd_def by (rule slice_inv [OF inv]; blast)+
  have "th_remaining_tick (threads k t) - 1 \<noteq> 0" using False by simp
  then show ?thesis using d cur False by (simp add: kd_def slice_def cur_moves_def)
next
  case True
  let ?kr = "upd_thread t (\<lambda>th. th\<lparr>th_remaining_tick := th_init_tick th\<rparr>) kd"
  have kr: "?kr = upd_thread t (\<lambda>th. th\<lparr>th_remaining_tick := th_init_tick th\<rparr>) k" by (simp add: kd_def upd_thread_def)
  have d: "check_inv ?kr" "threads_ok ?kr" "stat_of ?kr = stat_of k" "prio_of ?kr = prio_of k"
    unfolding kr by (rule slice_inv [OF inv]; blast)+
  have thr: "threads ?kr = (threads k)(t := slice (threads k t))" using True by (simp add: kr slice_def)
  have al: "tlist_not_alone t ?kr = tlist_not_alone t k" by (simp add: kr tlist_not_alone_def split: option.split)
  have z: "th_remaining_tick (threads kd t) = 0" using True by (simp add: kd_def)
  have cr: "rt_current_thread ?kr = Some t" "same_ipc k ?kr" "timers ?kr = timers k" "timer_lists ?kr = timer_lists k"
    "objects ?kr = objects k" "on_tlist ?kr = on_tlist k" "tlists ?kr = tlists k" "rt_tick ?kr = rt_tick k"
    "rt_scheduler_lock_nest ?kr = rt_scheduler_lock_nest k"
    using cur by (simp_all add: kr)
  show ?thesis
  proof (cases "tlist_not_alone t k")
    case na: False
    then have "rt_thread_yield ?kr = Some (RT_EOK, ?kr)" using yield_alone [OF cr(1)] al by simp
    then show ?thesis using z d cr thr na cur by (simp add: cur_moves_def)
  next
    case na: True
    obtain k' where k': "rt_thread_yield ?kr = Some (RT_EOK, k')" "kernel_inv k'" "threads k' = threads ?kr" "same_ipc ?kr k'"
      "on_tlist k' (Ready (prio_of k t)) = filter (\<lambda>u. u \<noteq> t) (on_tlist k (Ready (prio_of k t))) @ [t]"
      "rt_scheduler_lock_nest k = 0 \<longrightarrow> (\<exists>u. rt_current_thread k' = Some u \<and> first_ready k' u)"
      "stack_inv k'" "rt_current_thread k' \<noteq> None" "timer_lists k' = timer_lists k" "objects k' = objects k" "timers k' = timers k"
      "\<forall>q. q \<noteq> Ready (prio_of k t) \<longrightarrow> on_tlist k' q = on_tlist k q" "cur_moves ?kr k'"
      using yield_not_alone [OF check_invD(1) [OF d(1)] cr(1) _ _ check_invD(2) [OF d(1)]] st na al d(3,4) cr by auto
    have "stat_of k' = stat_of ?kr" using k'(3) by (simp add: stat_of_def fun_eq_iff)
    moreover have "rt_tick k' = rt_tick ?kr" using k'(4) by (simp add: same_ipc_def)
    ultimately have "check_inv k'" "threads_ok k'"
      using check_inv_frame [OF d(1,2), of k'] k' cr by (simp_all add: kernel_inv_def)
    moreover have "same_ipc k k'" using cr(2) k'(4) by (rule same_ipc_trans)
    moreover have "\<forall>q. is_wait_list q \<longrightarrow> on_tlist k' q = on_tlist k q" using k'(12) by (auto simp: is_wait_list_def)
    moreover have "cur_moves k k'" using k'(13) cr(1) cur by (simp add: cur_moves_def)
    ultimately show ?thesis using k' z thr na True by (intro exI [of _ k']) simp
  qed
qed

text \<open>The threads whose timer expires with the next tick.\<close>

definition due :: "kernel \<Rightarrow> tid set" where
  "due k = {v. home (timer_lists k) (Thread_timer v) = Some Hard_timers \<and> timer_expired (rt_tick k + 1) (Thread_timer v) k}"

lemma timed_out_sys_inv:
  assumes inv: "check_inv k" "threads_ok k" and to: "timed_out {v. Thread_timer v \<in> set (expired_timers k)} k k'" and k': "check_inv k'"
    and l: "on_timers k' Hard_timers = filter (\<lambda>h. \<not> timer_expired (rt_tick k) h k) (on_timers k Hard_timers)"
  shows "sys_inv k'"
proof -
  have same: "same_ipc k k'" "timers k' = timers k" using to by (simp_all add: timed_out_def)
  have "alive k v" if "alive k' v" for v
  proof (cases "Thread_timer v \<in> set (expired_timers k)")
    case True
    then have "home (timer_lists k) (Thread_timer v) \<noteq> None"
      using check_invD(8) [OF inv(1)] by (auto simp: expired_timers_def on_timers_def ls_wf_mem)
    then have "timer_ok k (Thread_timer v)" using check_invD(4) [OF inv(1)] by (simp add: timers_ok_def)
    then show ?thesis by (simp add: timer_ok_def alive_def)
  next
    case False
    then have "threads k' v = threads k v" using to by (simp add: timed_out_def)
    with that show ?thesis by (simp add: alive_def stat_of_def)
  qed
  then have "threads_ok k'"
    using inv(2) to is_thread_same_ipc [OF same(1)] by (simp add: threads_ok_def thread_timer_ok_def timed_out_def)
  moreover have "on_time k'"
  proof -
    have tick: "rt_tick k' = rt_tick k" using same by (simp add: same_ipc_def)
    have "1 \<le> key (rt_tick k - 1) (timers k) h" if "h \<in> set (on_timers k Hard_timers)" "\<not> timer_expired (rt_tick k) h k" for h
    proof -
      have "key (rt_tick k - 1) (timers k) h \<le> 0x7fffffff"
        using check_invD(5) [OF inv(1)] that(1) by (simp add: timer_order_def)
      then show ?thesis using expired_key [of k h] that(2) by simp
    qed
    then show ?thesis by (simp add: on_time_def l same tick)
  qed
  ultimately show ?thesis using k' by (simp add: sys_inv_def)
qed

lemma tick_runs:
  assumes inv: "sys_inv k" and cur: "rt_current_thread k = Some t" and st: "stat_of k t = RT_THREAD_READY"
    and thr: "\<forall>h\<in>set (on_timers k Hard_timers). \<exists>v. h = Thread_timer v" and fuel: "length (on_timers k Hard_timers) < fuel"
  shows "\<exists>k1 k'. rt_tick_increase user fuel k = Some k' \<and> sys_inv k' \<and> rt_tick k' = rt_tick k + 1 \<and> timed_out (due k) k1 k'
    \<and> check_inv k1 \<and> threads k1 = (threads k)(t := slice (threads k t)) \<and> (\<forall>q. is_wait_list q \<longrightarrow> on_tlist k1 q = on_tlist k q)
    \<and> sems k1 = sems k \<and> mutexes k1 = mutexes k \<and> events k1 = events k \<and> mailboxes k1 = mailboxes k \<and> mqs k1 = mqs k
    \<and> (th_remaining_tick (threads k t) = 1 \<and> tlist_not_alone t k \<longrightarrow>
        on_tlist k1 (Ready (prio_of k t)) = filter (\<lambda>u. u \<noteq> t) (on_tlist k (Ready (prio_of k t))) @ [t]
        \<and> (rt_scheduler_lock_nest k = 0 \<longrightarrow> (\<exists>u. rt_current_thread k1 = Some u \<and> first_ready k1 u)))
    \<and> (due k = {} \<longrightarrow> k' = k1) \<and> (\<exists>v. rt_current_thread k' = Some v \<and> stat_of k' v = RT_THREAD_READY)
    \<and> timers k' = timers k \<and> same_ipc (k\<lparr>rt_tick := rt_tick k + 1\<rparr>) k'
    \<and> on_timers k' Hard_timers = filter (\<lambda>h. \<not> timer_expired (rt_tick k + 1) h k) (on_timers k Hard_timers)"
proof -
  let ?k0 = "k\<lparr>rt_tick := rt_tick k + 1, rt_tick_uptime := rt_tick_uptime k + 1\<rparr>"
  have inv0: "check_inv ?k0" "threads_ok ?k0" using tick_count [OF inv] by simp_all
  have st0: "stat_of ?k0 t = RT_THREAD_READY" "prio_of ?k0 = prio_of k" "on_tlist ?k0 = on_tlist k"
      "tlist_not_alone t ?k0 = tlist_not_alone t k"
    using st by (simp_all add: stat_of_def prio_of_def on_tlist_def tlist_not_alone_def fun_eq_iff split: option.split)
  have cur0: "rt_current_thread ?k0 = Some t" using cur by simp
  let ?kd = "upd_thread t (\<lambda>th. th\<lparr>th_remaining_tick := th_remaining_tick th - 1\<rparr>) ?k0"
  obtain k1 where k1: "(if th_remaining_tick (threads ?kd t) = 0 then
        do { (_, k) \<leftarrow> rt_thread_yield (upd_thread t (\<lambda>th. th\<lparr>th_remaining_tick := th_init_tick th\<rparr>) ?kd); Some k }
        else Some ?kd) = Some k1" "check_inv k1" "threads_ok k1" "same_ipc ?k0 k1"
    "threads k1 = (threads ?k0)(t := slice (threads ?k0 t))" "timers k1 = timers ?k0" "timer_lists k1 = timer_lists ?k0"
    "\<forall>q. is_wait_list q \<longrightarrow> on_tlist k1 q = on_tlist ?k0 q"
    "th_remaining_tick (threads ?k0 t) = 1 \<and> tlist_not_alone t ?k0 \<longrightarrow>
        on_tlist k1 (Ready (prio_of ?k0 t)) = filter (\<lambda>u. u \<noteq> t) (on_tlist ?k0 (Ready (prio_of ?k0 t))) @ [t]
        \<and> (rt_scheduler_lock_nest ?k0 = 0 \<longrightarrow> (\<exists>u. rt_current_thread k1 = Some u \<and> first_ready k1 u))"
    "cur_moves ?k0 k1"
    using tick_slice [OF inv0 cur0 st0(1)] by blast
  have tl: "on_timers k1 = on_timers k" using k1(7) by (simp add: on_timers_def fun_eq_iff)
  have tick1: "rt_tick k1 = rt_tick k + 1" using k1(4) by (simp add: same_ipc_def)
  have "length (expired_timers k1) < fuel"
    using fuel by (simp add: expired_timers_def tl) (meson le_less_trans length_filter_le)
  then obtain k' where k': "rt_timer_check_loop user fuel (rt_tick k1) k1 = Some k'" "check_inv k'" "rt_tick k' = rt_tick k1"
    "on_timers k' Hard_timers = filter (\<lambda>h. \<not> timer_expired (rt_tick k1) h k1) (on_timers k1 Hard_timers)"
    "timed_out {v. Thread_timer v \<in> set (expired_timers k1)} k1 k'"
    using rt_timer_check_loop_threads [OF k1(2), of fuel user] thr tl by auto
  have D: "{v. Thread_timer v \<in> set (expired_timers k1)} = due k"
    using check_invD(8) [OF sys_invD(1) [OF inv]] k1(6)
    by (auto simp: due_def expired_timers_def tl tick1 timer_expired_def on_timers_def ls_wf_mem)
  have "rt_tick_increase user fuel k = Some k'"
    using k1(1) k'(1) cur by (simp add: rt_tick_increase_def rt_thread_self_def rt_timer_check_def)
  moreover have "sys_inv k'" using k1(2,3) k'(5,2,4) by (rule timed_out_sys_inv)
  moreover have "k' = k1" if "due k = {}"
  proof -
    obtain n where n: "fuel = Suc n" using fuel by (cases fuel) auto
    have "expired_timers k1 = []"
    proof (rule ccontr)
      assume "expired_timers k1 \<noteq> []"
      then obtain h where h: "h \<in> set (expired_timers k1)" by (cases "expired_timers k1") auto
      then obtain v where "h = Thread_timer v" using thr by (auto simp: expired_timers_def tl)
      with h D that show False by auto
    qed
    then show ?thesis using k'(1) n
      by (cases "on_timers k1 Hard_timers") (auto simp: expired_timers_def split: if_splits)
  qed
  moreover have "sems k1 = sems k" "mutexes k1 = mutexes k" "events k1 = events k" "mailboxes k1 = mailboxes k" "mqs k1 = mqs k"
    using k1(4) by (simp_all add: same_ipc_def)
  moreover have "\<exists>v. rt_current_thread k' = Some v \<and> stat_of k' v = RT_THREAD_READY"
  proof -
    have "stat_of k1 t = RT_THREAD_READY" using k1(5) st by (simp add: stat_of_def slice_def)
    then have "stat_of k1 v = RT_THREAD_READY" if "rt_current_thread k1 = Some v" for v
      using cur_ready_moves [OF k1(10) cur0 that] by auto
    then show ?thesis using timed_out_cur [OF k'(5)] check_invD(3) [OF k'(2)] by blast
  qed
  moreover have "same_ipc (k\<lparr>rt_tick := rt_tick k + 1\<rparr>) k'"
    using k1(4) k'(5) by (simp add: timed_out_def same_ipc_def)
  moreover have "timers k' = timers k" using k'(5) k1(6) by (simp add: timed_out_def)
  moreover have "on_timers k' Hard_timers = filter (\<lambda>h. \<not> timer_expired (rt_tick k + 1) h k) (on_timers k Hard_timers)"
    using k'(4) k1(6) by (simp add: tl tick1 timer_expired_def)
  ultimately show ?thesis
    using k1(2,5,8,9) k'(3,5) tick1 unfolding D st0 by (intro exI [of _ k1] exI [of _ k']) simp
qed

section \<open>Sleeping\<close>

lemma sleep_runs:
  assumes inv: "sys_inv k" and st: "stat_of k t = RT_THREAD_READY"
    and tick: "tick < RT_TICK_HALF" and u: "stat_of k u = RT_THREAD_READY" "u \<noteq> t"
  shows "\<exists>k'. do { (_, k) \<leftarrow> rt_thread_suspend t k; k \<leftarrow> thread_timer_start t tick k; rt_schedule k } = Some k'
    \<and> sys_inv k' \<and> same_ipc k k' \<and> threads k' = (threads k)(t := set_stat RT_THREAD_SUSPEND (threads k t))
    \<and> home (tlists k') t = None
    \<and> home (timer_lists k') (Thread_timer t) = Some Hard_timers \<and> tm_timeout_tick (timers k' (Thread_timer t)) = rt_tick k + tick
    \<and> (rt_scheduler_lock_nest k = 0 \<longrightarrow> (\<exists>v. rt_current_thread k' = Some v \<and> first_ready k' v))"
proof -
  obtain k1 where k1: "rt_thread_suspend t k = Some (RT_EOK, k1)" "sys_inv k1" "same_ipc k k1" "timer_off t k k1"
    "threads k1 = (threads k)(t := set_stat RT_THREAD_SUSPEND (threads k t))" "tlists k1 = ls_remove t (tlists k)"
    using sys_suspend [OF inv st] by blast
  have st1: "stat_of k1 t = RT_THREAD_SUSPEND" "stat_of k1 u = RT_THREAD_READY" using stat_after [OF k1(5)] u by simp_all
  have un: "home (timer_lists k1) (Thread_timer t) = None" using k1(4) by (simp add: timer_off_def)
  obtain k2 where k2: "thread_timer_start t tick k1 = Some k2" "sys_inv k2" "same_ipc k1 k2" "sched_view k2 = sched_view k1"
    "home (timer_lists k2) = (home (timer_lists k1))(Thread_timer t := Some Hard_timers)"
    "tm_timeout_tick (timers k2 (Thread_timer t)) = rt_tick k1 + tick"
    using sys_timer_start [OF k1(2) st1(1) un tick] by blast
  have v2: "threads k2 = threads k1" "tlists k2 = tlists k1" using k2(4) by (simp_all add: sched_view_def)
  then have "stat_of k2 u = RT_THREAD_READY" using st1(2) by (simp add: stat_of_def)
  then obtain k3 where k3: "rt_schedule k2 = Some k3" "sys_inv k3" "same_ipc k2 k3" "threads k3 = threads k2" "tlists k3 = tlists k2"
    "timers k3 = timers k2" "timer_lists k3 = timer_lists k2"
    "if rt_scheduler_lock_nest k2 = 0 then \<exists>v. rt_current_thread k3 = Some v \<and> first_ready k3 v else k3 = k2"
    using sys_schedule [OF k2(2)] by blast
  have "rt_scheduler_lock_nest k2 = rt_scheduler_lock_nest k" "rt_tick k1 = rt_tick k"
    using k1(3) k2(3) by (simp_all add: same_ipc_def)
  moreover have "same_ipc k k3" using k1(3) k2(3) k3(3) same_ipc_trans by blast
  ultimately show ?thesis using k1(1,5,6) k2 k3 v2 by (intro exI [of _ k3]) auto
qed

section \<open>Properties\<close>

text \<open>C8: one tick, with only thread timers running.  \<^verbatim>\<open>rt_tick_increase\<close> returns; exactly the threads whose
  timer is due become ready with \<^verbatim>\<open>RT_ETIMEOUT\<close> and leave the wait lists, whose order is otherwise kept;
  the running thread loses one tick of its time slice and starts a new one when it is used up; all other threads
  and all objects are unchanged, and the invariant of the system holds again.\<close>

theorem tick_correct:
  assumes "sys_inv k" and "rt_current_thread k = Some t" and "stat_of k t = RT_THREAD_READY"
    and "\<forall>h\<in>set (on_timers k Hard_timers). \<exists>v. h = Thread_timer v" and "length (on_timers k Hard_timers) < fuel"
  shows "\<exists>k'. rt_tick_increase user fuel k = Some k' \<and> sys_inv k' \<and> rt_tick k' = rt_tick k + 1
    \<and> (\<forall>v. v \<in> due k \<longrightarrow> stat_of k' v = RT_THREAD_READY \<and> th_error (threads k' v) = RT_ETIMEOUT)
    \<and> (\<forall>v. v \<notin> due k \<longrightarrow> threads k' v = (if v = t then slice (threads k t) else threads k v))
    \<and> (\<forall>q. is_wait_list q \<longrightarrow> on_tlist k' q = filter (\<lambda>v. v \<notin> due k) (on_tlist k q))
    \<and> sems k' = sems k \<and> mutexes k' = mutexes k \<and> events k' = events k \<and> mailboxes k' = mailboxes k \<and> mqs k' = mqs k"
proof -
  obtain k1 k' where "rt_tick_increase user fuel k = Some k'" "sys_inv k'" "rt_tick k' = rt_tick k + 1" "timed_out (due k) k1 k'"
    "threads k1 = (threads k)(t := slice (threads k t))" "\<forall>q. is_wait_list q \<longrightarrow> on_tlist k1 q = on_tlist k q"
    "sems k1 = sems k" "mutexes k1 = mutexes k" "events k1 = events k" "mailboxes k1 = mailboxes k" "mqs k1 = mqs k"
    using tick_runs [OF assms, of user] by blast
  then show ?thesis by (intro exI [of _ k']) (simp add: timed_out_def same_ipc_def)
qed

lemma sample_no_timers: "on_timers sample q = []"
  by (simp add: on_timers_def sample_rest(2))

theorem tick_correct_witness:
  "\<exists>k'. rt_tick_increase (\<lambda>_ _. Some) 1 sample = Some k' \<and> sys_inv k' \<and> rt_tick k' = 1
    \<and> threads k' 1 = slice (threads sample 1)"
proof -
  have "due sample = {}" by (simp add: due_def sample_rest(2))
  then show ?thesis
    using tick_correct [OF sample_sys_inv sample_facts(7,2), of 1 "\<lambda>_ _. Some"] by (auto simp: sample_no_timers sample_tick)
qed

text \<open>Round robin.  When the running thread, the first of its ready list, has used up its time slice and no
  timer is due, the tick moves it behind the other ready threads of its priority, gives it a full slice, and the
  next of them runs.\<close>

theorem time_slice_round_robin:
  assumes "sys_inv k" and "rt_current_thread k = Some t" and "stat_of k t = RT_THREAD_READY"
    and "\<forall>h\<in>set (on_timers k Hard_timers). \<exists>v. h = Thread_timer v" and "length (on_timers k Hard_timers) < fuel"
    and "th_remaining_tick (threads k t) = 1" and "on_tlist k (Ready (prio_of k t)) = t # u # us"
    and "\<forall>v. stat_of k v = RT_THREAD_READY \<longrightarrow> prio_of k t \<le> prio_of k v" and "rt_scheduler_lock_nest k = 0" and "due k = {}"
  shows "\<exists>k'. rt_tick_increase user fuel k = Some k' \<and> sys_inv k' \<and> on_tlist k' (Ready (prio_of k t)) = u # us @ [t]
    \<and> rt_current_thread k' = Some u \<and> th_remaining_tick (threads k' t) = th_init_tick (threads k t)"
proof -
  let ?q = "Ready (prio_of k t)"
  have wf: "ls_wf (tlists k)" and dis: "distinct (on_tlist k ?q)"
    using sched_invD(1) [OF sys_invD(5) [OF assms(1)]] by (simp_all add: on_tlist_def ls_wf_distinct)
  have "home (tlists k) t = Some ?q" using wf assms(7) ls_wf_mem [of "tlists k" t ?q] by (simp add: on_tlist_def)
  then have na: "tlist_not_alone t k" using assms(7) by (simp add: tlist_not_alone_def)
  obtain k1 k' where k': "rt_tick_increase user fuel k = Some k'" "sys_inv k'" "k' = k1"
    "threads k1 = (threads k)(t := slice (threads k t))"
    "on_tlist k1 ?q = filter (\<lambda>u. u \<noteq> t) (on_tlist k ?q) @ [t]" "\<exists>v. rt_current_thread k1 = Some v \<and> first_ready k1 v"
    using tick_runs [OF assms(1-5), of user] assms(6,9,10) na by blast
  have "t \<notin> set (u # us)" using dis assms(7) by simp
  then have "filter (\<lambda>v. v \<noteq> t) (u # us) = u # us" by (auto simp: filter_id_conv)
  then have l: "on_tlist k1 ?q = u # us @ [t]" using k'(5) assms(7) by simp
  have sp: "stat_of k1 = stat_of k" "prio_of k1 = prio_of k" using k'(4) by (simp_all add: stat_of_def prio_of_def slice_def fun_eq_iff)
  obtain v where v: "rt_current_thread k1 = Some v" "first_ready k1 v" using k'(6) by blast
  have "prio_of k v \<le> prio_of k t" "stat_of k v = RT_THREAD_READY" using v(2) assms(3) by (simp_all add: first_ready_def sp)
  then have "prio_of k v = prio_of k t" using assms(8) by force
  then have "v = u" using v(2) l by (auto simp: first_ready_def sp)
  then show ?thesis using k' v(1) l by (simp add: slice_def assms(6))
qed

definition sample_slice :: kernel where
  "sample_slice = upd_thread 1 (\<lambda>th. th\<lparr>th_remaining_tick := 1\<rparr>) sample"

theorem time_slice_round_robin_witness:
  "\<exists>k'. rt_tick_increase (\<lambda>_ _. Some) 1 sample_slice = Some k' \<and> on_tlist k' (Ready 10) = [2, 1] \<and> rt_current_thread k' = Some 2"
proof -
  have inv: "sys_inv sample_slice" unfolding sample_slice_def by (rule sys_inv_upd_thread [OF sample_sys_inv]) simp_all
  have sp: "stat_of sample_slice = stat_of sample" "prio_of sample_slice = prio_of sample"
    by (simp_all add: sample_slice_def stat_of_def prio_of_def fun_eq_iff)
  have "v < 4" if "stat_of sample v = RT_THREAD_READY" for v using sample_alive [of v] that by (simp add: alive_def)
  moreover have "prio_of sample 1 \<le> prio_of sample v" if "v < 4" for v
  proof -
    have "v = 0 \<or> v = 1 \<or> v = 2 \<or> v = 3" using that by auto
    moreover have "prio_of sample 0 = 255" "prio_of sample 1 = 10" "prio_of sample 2 = 10" "prio_of sample 3 = 20" by code_simp+
    ultimately show ?thesis by auto
  qed
  ultimately have "\<forall>v. stat_of sample_slice v = RT_THREAD_READY \<longrightarrow> prio_of sample_slice 1 \<le> prio_of sample_slice v" by (simp add: sp)
  moreover have "due sample_slice = {}" "on_timers sample_slice q = []" for q
    by (simp_all add: due_def sample_slice_def sample_rest(2) on_timers_def)
  moreover have "th_remaining_tick (threads sample_slice 1) = 1" "rt_current_thread sample_slice = Some 1"
    "rt_scheduler_lock_nest sample_slice = 0" "on_tlist sample_slice (Ready (prio_of sample_slice 1)) = 1 # 2 # []"
    "stat_of sample_slice 1 = RT_THREAD_READY" "prio_of sample_slice 1 = 10"
    using sample_facts by (simp_all add: sp) (simp_all add: sample_slice_def)
  ultimately show ?thesis using time_slice_round_robin [OF inv, of 1 1 2 "[]" "\<lambda>_ _. Some"] by auto
qed

text \<open>\<^verbatim>\<open>rt_thread_sleep\<close> suspends the caller off every list with its timer set to the given number of
  ticks and runs another thread; when the timer expires the thread is ready again, and the rest of the call returns
  \<^verbatim>\<open>RT_EOK\<close> with the error of the thread cleared.\<close>

theorem thread_sleep_correct:
  assumes "sys_inv k" and "rt_current_thread k = Some t" and "stat_of k t = RT_THREAD_READY"
    and "tick < RT_TICK_HALF" and "stat_of k u = RT_THREAD_READY" "u \<noteq> t" and "rt_scheduler_lock_nest k = 0"
  shows "\<exists>k1 k2. rt_thread_sleep tick k = Some (Waiting t, k1) \<and> sys_inv k1 \<and> stat_of k1 t = RT_THREAD_SUSPEND
    \<and> home (tlists k1) t = None \<and> home (timer_lists k1) (Thread_timer t) = Some Hard_timers
    \<and> tm_timeout_tick (timers k1 (Thread_timer t)) = rt_tick k + tick \<and> (\<exists>v. rt_current_thread k1 = Some v \<and> first_ready k1 v)
    \<and> rt_thread_timeout t k1 = Some k2 \<and> stat_of k2 t = RT_THREAD_READY
    \<and> fst (rt_thread_sleep_back t k2) = RT_EOK \<and> th_error (threads (snd (rt_thread_sleep_back t k2)) t) = RT_EOK"
proof -
  have ty: "rt_object_get_type (Obj t) k = RT_Object_Class_Thread"
    using sys_inv_thread [OF assms(1) aliveI(1) [OF assms(3)]] by (simp add: is_thread_def)
  obtain k1 where k1: "do { (_, k) \<leftarrow> rt_thread_suspend t k; k \<leftarrow> thread_timer_start t tick k; rt_schedule k } = Some k1" "sys_inv k1"
    "threads k1 = (threads k)(t := set_stat RT_THREAD_SUSPEND (threads k t))" "home (tlists k1) t = None"
    "home (timer_lists k1) (Thread_timer t) = Some Hard_timers" "tm_timeout_tick (timers k1 (Thread_timer t)) = rt_tick k + tick"
    "\<exists>v. rt_current_thread k1 = Some v \<and> first_ready k1 v"
    using sleep_runs [OF assms(1,3-6)] assms(7) by blast
  have st1: "stat_of k1 t = RT_THREAD_SUSPEND" using stat_after(1) [OF k1(3)] by simp
  note d = sys_invD [OF k1(2)]
  obtain k2 where k2: "rt_thread_timeout t k1 = Some k2" "stat_of k2 t = RT_THREAD_READY" "th_error (threads k2 t) = RT_ETIMEOUT"
    using timeout_wakes [OF d(4) _ st1 d(7,8)] sys_inv_thread [OF k1(2) aliveI(2) [OF st1]] by blast
  have "rt_thread_sleep tick k = Some (Waiting t, k1)"
    using k1(1) assms(2) ty by (auto simp: rt_thread_sleep_def rt_thread_self_def bind_Some_iff)
  then show ?thesis using k1 st1 k2 by (auto simp: rt_thread_sleep_back_def)
qed

theorem thread_sleep_correct_witness:
  "\<exists>k1 k2. rt_thread_sleep 7 sample = Some (Waiting 1, k1) \<and> tm_timeout_tick (timers k1 (Thread_timer 1)) = 7
    \<and> rt_thread_timeout 1 k1 = Some k2 \<and> fst (rt_thread_sleep_back 1 k2) = RT_EOK"
proof -
  have "(7 :: rt_tick_t) < RT_TICK_HALF" by (simp add: rt_consts)
  then show ?thesis
    using thread_sleep_correct [OF sample_sys_inv sample_facts(7,2) _ sample_facts(3) _ sample_facts(8), of 7] by (auto simp: sample_tick)
qed

text \<open>\<^verbatim>\<open>rt_thread_delay_until\<close> wakes at \<^verbatim>\<open>*tick + inc_tick\<close> whatever the current tick is, as long as
  that tick is not yet over, and sets \<^verbatim>\<open>*tick\<close> to it, so the period does not drift; but the error its
  timer leaves in the thread is \<^verbatim>\<open>RT_ETIMEOUT\<close> and the code compares with \<^verbatim>\<open>-RT_ETIMEOUT\<close>, so the
  thread comes back with the error still set.\<close>

theorem delay_until_keeps_error:
  assumes "sys_inv k" and "rt_current_thread k = Some t" and "stat_of k t = RT_THREAD_READY"
    and "rt_tick k - tick < inc_tick" and "tick + inc_tick - rt_tick k < RT_TICK_HALF"
    and "stat_of k u = RT_THREAD_READY" "u \<noteq> t"
  shows "\<exists>k1 k2. rt_thread_delay_until tick inc_tick k = Some (tick + inc_tick, Waiting t, k1) \<and> sys_inv k1
    \<and> tm_timeout_tick (timers k1 (Thread_timer t)) = tick + inc_tick
    \<and> rt_thread_timeout t k1 = Some k2 \<and> fst (rt_thread_delay_until_back t k2) = RT_EOK
    \<and> th_error (threads (snd (rt_thread_delay_until_back t k2)) t) = RT_ETIMEOUT"
proof -
  have ty: "rt_object_get_type (Obj t) k = RT_Object_Class_Thread"
    using sys_inv_thread [OF assms(1) aliveI(1) [OF assms(3)]] by (simp add: is_thread_def)
  obtain k1 where k1: "do { (_, k) \<leftarrow> rt_thread_suspend t k; k \<leftarrow> thread_timer_start t (tick + inc_tick - rt_tick k) k; rt_schedule k } = Some k1"
    "sys_inv k1" "threads k1 = (threads k)(t := set_stat RT_THREAD_SUSPEND (threads k t))"
    "tm_timeout_tick (timers k1 (Thread_timer t)) = rt_tick k + (tick + inc_tick - rt_tick k)"
    using sleep_runs [OF assms(1,3,5,6,7)] assms(1) sys_suspend [OF assms(1,3)] by (auto simp: same_ipc_def)
  have st1: "stat_of k1 t = RT_THREAD_SUSPEND" using stat_after(1) [OF k1(3)] by simp
  note d = sys_invD [OF k1(2)]
  obtain k2 where k2: "rt_thread_timeout t k1 = Some k2" "th_error (threads k2 t) = RT_ETIMEOUT"
    using timeout_wakes [OF d(4) _ st1 d(7,8)] sys_inv_thread [OF k1(2) aliveI(2) [OF st1]] by blast
  have "rt_thread_delay_until tick inc_tick k = Some (tick + inc_tick, Waiting t, k1)"
    using k1(1) assms(2,4) ty sys_suspend [OF assms(1,3)]
    by (auto simp: rt_thread_delay_until_def rt_thread_self_def rt_tick_get_def bind_Some_iff same_ipc_def)
  moreover have "RT_ETIMEOUT \<noteq> -RT_ETIMEOUT" by (simp add: rt_consts)
  ultimately show ?thesis using k1(2,4) k2 by (auto simp: rt_thread_delay_until_back_def)
qed

theorem delay_until_keeps_error_witness:
  "\<exists>k1 k2. rt_thread_delay_until 0 20 sample = Some (20, Waiting 1, k1) \<and> rt_thread_timeout 1 k1 = Some k2
    \<and> th_error (threads (snd (rt_thread_delay_until_back 1 k2)) 1) = RT_ETIMEOUT"
proof -
  have "rt_tick sample - 0 < 20" "0 + 20 - rt_tick sample < RT_TICK_HALF" by (simp_all add: sample_tick rt_consts)
  then show ?thesis
    using delay_until_keeps_error [OF sample_sys_inv sample_facts(7,2) _ _ sample_facts(3), of 0 20] by auto
qed

lemma nonneg_uint: "0 \<le> sint (w :: 32 word) \<Longrightarrow> unat w < 2 ^ 31"
proof -
  assume p: "0 \<le> sint w"
  have u: "uint w < 2 ^ 32" using unsigned_less [where 'a = int and w = w] by simp
  moreover have "take_bit 32 (uint w) = uint w" using u by (intro take_bit_int_eq_self) simp_all
  then have "sint w = uint w - 2 ^ 32 * of_bool (bit (uint w) 31)"
    by (simp add: sint_uint signed_take_bit_eq_take_bit_minus)
  ultimately have "sint w = uint w" using p by (auto simp: of_bool_def split: if_splits)
  then have "uint w < 2147483648" using sint_lt [of w] by simp
  moreover have "uint w = int (unat w)" by simp
  ultimately have "unat w < 2147483648" by linarith
  then show ?thesis by simp
qed

lemma tick_from_millisecond_value:
  assumes "0 \<le> sint ms"
  shows "unat (rt_tick_from_millisecond ms) = 100 * (unat ms div 1000) + (100 * (unat ms mod 1000) + 999) div 1000"
proof -
  let ?m = "unat ms"
  have m: "?m < 2 ^ 31" using assms by (rule nonneg_uint)
  then have b1: "100 * (?m div 1000) < 2 ^ 31" by simp
  have b2: "100 * (?m mod 1000) + 999 < 2 ^ 32"
  proof -
    have "?m mod 1000 < 1000" by simp
    then have "100 * (?m mod 1000) + 999 < 101000" by linarith
    then show ?thesis by simp
  qed
  have a1: "unat (100 * (ms div 1000)) = 100 * (?m div 1000)"
    using b1 by (simp add: unat_word_ariths unat_div)
  have a2: "unat (100 * (ms mod 1000)) = 100 * (?m mod 1000)"
    using b2 by (simp add: unat_word_ariths unat_mod)
  have a3: "unat (100 * (ms mod 1000) + 999) = 100 * (?m mod 1000) + 999"
    using b2 a2 by (simp add: unat_word_ariths(1))
  then have a4: "unat ((100 * (ms mod 1000) + 999) div 1000) = (100 * (?m mod 1000) + 999) div 1000"
    by (simp add: unat_div)
  have "(100 * (?m mod 1000) + 999) div 1000 \<le> 100 * (?m mod 1000) + 999" by (rule div_le_dividend)
  moreover have "100 * (?m mod 1000) < 100000" by simp
  ultimately have "100 * (?m div 1000) + (100 * (?m mod 1000) + 999) div 1000 < 2 ^ 31 + 100999" using b1 by linarith
  then have "100 * (?m div 1000) + (100 * (?m mod 1000) + 999) div 1000 < 2 ^ 32" by simp
  then show ?thesis
    using assms a1 a4 by (simp add: rt_tick_from_millisecond_def rt_consts unat_word_ariths(1))
qed

lemma ceiling_arith:
  fixes m q r c n :: nat
  assumes "m = 1000 * q + r" "c * 1000 \<le> 100 * r + 999" "100 * r + 999 < c * 1000 + 1000"
  shows "m \<le> (100 * q + c) * 10" "m \<le> n * 10 \<Longrightarrow> 100 * q + c \<le> n"
proof -
  have "10 * c \<le> r + 9" "r \<le> 10 * c" using assms(2,3) by linarith+
  note b = this assms(1)
  show "m \<le> (100 * q + c) * 10" using b by simp
  show "100 * q + c \<le> n" if "m \<le> n * 10" using b that by linarith
qed

text \<open>\<^verbatim>\<open>rt_tick_from_millisecond\<close> rounds up: for every time that is not negative the result is the least
  number of ticks that lasts at least that long, computed without overflow; a negative time is the tick value that
  means to wait forever.\<close>

theorem tick_from_millisecond_ceiling:
  "(sint ms < 0 \<longrightarrow> rt_tick_from_millisecond ms = RT_TICK_MAX)
   \<and> (0 \<le> sint ms \<longrightarrow> unat ms \<le> unat (rt_tick_from_millisecond ms) * 10
        \<and> (\<forall>n. unat ms \<le> n * 10 \<longrightarrow> unat (rt_tick_from_millisecond ms) \<le> n))"
proof (intro conjI impI allI)
  show "rt_tick_from_millisecond ms = RT_TICK_MAX" if "sint ms < 0"
    using that by (simp add: rt_tick_from_millisecond_def rt_consts)
  assume p: "0 \<le> sint ms"
  let ?q = "unat ms div 1000" and ?r = "unat ms mod 1000"
  have m: "unat ms = 1000 * ?q + ?r" by simp
  let ?c = "(100 * ?r + 999) div 1000"
  have r: "?r < 1000" by simp
  have c: "?c * 1000 \<le> 100 * ?r + 999" "100 * ?r + 999 < ?c * 1000 + 1000"
    using div_mult_mod_eq [of "100 * ?r + 999" 1000] mod_less_divisor [of 1000 "100 * ?r + 999"] by linarith+
  note v = tick_from_millisecond_value [OF p]
  show "unat ms \<le> unat (rt_tick_from_millisecond ms) * 10" unfolding v using m c by (rule ceiling_arith(1))
  fix n assume "unat ms \<le> n * 10"
  then show "unat (rt_tick_from_millisecond ms) \<le> n" unfolding v by (rule ceiling_arith(2) [OF m c])
qed

theorem tick_from_millisecond_ceiling_witness:
  "unat (25 :: 32 word) \<le> unat (rt_tick_from_millisecond 25) * 10 \<and> unat (rt_tick_from_millisecond 25) \<le> 3"
  using tick_from_millisecond_ceiling [of 25] by simp

section \<open>Running through ticks\<close>

fun ticks :: "(nat \<Rightarrow> nat \<Rightarrow> kernel \<Rightarrow> kernel option) \<Rightarrow> nat \<Rightarrow> nat \<Rightarrow> kernel \<Rightarrow> kernel option" where
  "ticks user fuel 0 k = Some k"
| "ticks user fuel (Suc n) k = do { k \<leftarrow> rt_tick_increase user fuel k; ticks user fuel n k }"

text \<open>What a tick needs, and leaves.\<close>

definition tickable :: "nat \<Rightarrow> kernel \<Rightarrow> bool" where
  "tickable fuel k \<longleftrightarrow> sys_inv k \<and> (\<exists>t. rt_current_thread k = Some t \<and> stat_of k t = RT_THREAD_READY)
     \<and> (\<forall>h\<in>set (on_timers k Hard_timers). \<exists>v. h = Thread_timer v) \<and> length (on_timers k Hard_timers) < fuel"

definition waits_until :: "tid \<Rightarrow> rt_tick_t \<Rightarrow> kernel \<Rightarrow> bool" where
  "waits_until t tick k \<longleftrightarrow> home (timer_lists k) (Thread_timer t) = Some Hard_timers \<and> tm_timeout_tick (timers k (Thread_timer t)) = tick"

lemma due_distance:
  assumes "waits_until t (rt_tick k + of_nat m) k" and "0 < m" and "m \<le> 0x7fffffff"
  shows "t \<in> due k \<longleftrightarrow> m = 1"
proof -
  have "rt_tick k + 1 - (rt_tick k + of_nat m) = (1 - of_nat m :: rt_tick_t)" by simp
  moreover have "unat (1 - of_nat m :: rt_tick_t) = (if m = 1 then 0 else 4294967297 - m)"
  proof (cases "m = 1")
    case False
    then have "unat (of_nat m :: rt_tick_t) = m" "2 \<le> m" using assms(2,3) by (simp_all add: unat_of_nat)
    then show ?thesis using assms(3) by (simp add: unat_sub_if_size word_size)
  qed simp
  ultimately show ?thesis
    using assms by (auto simp: due_def waits_until_def timer_expired_def word_less_nat_alt rt_consts)
qed

lemma tick_step:
  assumes "tickable fuel k" and "waits_until t tick k"
  shows "\<exists>k'. rt_tick_increase user fuel k = Some k' \<and> tickable fuel k' \<and> rt_tick k' = rt_tick k + 1
    \<and> (if t \<in> due k then stat_of k' t = RT_THREAD_READY \<and> th_error (threads k' t) = RT_ETIMEOUT
       else waits_until t tick k')"
proof -
  obtain c where c: "sys_inv k" "rt_current_thread k = Some c" "stat_of k c = RT_THREAD_READY"
    "\<forall>h\<in>set (on_timers k Hard_timers). \<exists>v. h = Thread_timer v" "length (on_timers k Hard_timers) < fuel"
    using assms(1) by (auto simp: tickable_def)
  obtain k1 k' where k': "rt_tick_increase user fuel k = Some k'" "sys_inv k'" "rt_tick k' = rt_tick k + 1" "timed_out (due k) k1 k'"
    "\<exists>v. rt_current_thread k' = Some v \<and> stat_of k' v = RT_THREAD_READY" "timers k' = timers k"
    "on_timers k' Hard_timers = filter (\<lambda>h. \<not> timer_expired (rt_tick k + 1) h k) (on_timers k Hard_timers)"
    using tick_runs [OF c, of user] by blast
  have "length (on_timers k' Hard_timers) < fuel" using c(5) k'(7) by (metis le_less_trans length_filter_le)
  then have tk: "tickable fuel k'" using k' c(4) by (simp add: tickable_def)
  have wf: "ls_wf (timer_lists k)" "ls_wf (timer_lists k')"
    using check_invD(8) [OF sys_invD(1) [OF c(1)]] check_invD(8) [OF sys_invD(1) [OF k'(2)]] .
  have "waits_until t tick k'" if "t \<notin> due k"
  proof -
    have "Thread_timer t \<in> set (on_timers k Hard_timers)" using assms(2) wf(1) by (simp add: waits_until_def on_timers_def ls_wf_mem)
    moreover have "\<not> timer_expired (rt_tick k + 1) (Thread_timer t) k" using that assms(2) by (simp add: due_def waits_until_def)
    ultimately have "Thread_timer t \<in> set (on_timers k' Hard_timers)" using k'(7) by simp
    then show ?thesis using assms(2) wf(2) k'(6) by (simp add: waits_until_def on_timers_def ls_wf_mem)
  qed
  moreover have "stat_of k' t = RT_THREAD_READY \<and> th_error (threads k' t) = RT_ETIMEOUT" if "t \<in> due k"
    using that k'(4) by (simp add: timed_out_def)
  ultimately show ?thesis using k'(1,3) tk by auto
qed

text \<open>C9: a finite wait ends in time.  A thread whose timer is set \<open>m\<close> ticks ahead, with only thread timers running and
  whatever the other threads and timers are, is still waiting after any smaller number of ticks and is ready with
  \<^verbatim>\<open>RT_ETIMEOUT\<close> after exactly \<open>m\<close> ticks; every one of these ticks returns.\<close>

theorem timeout_in_time:
  assumes "tickable fuel k" and "waits_until t (rt_tick k + of_nat m) k" and "0 < m" and "m \<le> 0x7fffffff"
  shows "(\<forall>j<m. \<exists>k'. ticks user fuel j k = Some k' \<and> waits_until t (rt_tick k + of_nat m) k')
    \<and> (\<exists>k'. ticks user fuel m k = Some k' \<and> tickable fuel k' \<and> rt_tick k' = rt_tick k + of_nat m
         \<and> stat_of k' t = RT_THREAD_READY \<and> th_error (threads k' t) = RT_ETIMEOUT)"
  using assms
proof (induction m arbitrary: k)
  case (Suc m)
  obtain k1 where k1: "rt_tick_increase user fuel k = Some k1" "tickable fuel k1" "rt_tick k1 = rt_tick k + 1"
    "if t \<in> due k then stat_of k1 t = RT_THREAD_READY \<and> th_error (threads k1 t) = RT_ETIMEOUT
       else waits_until t (rt_tick k + of_nat (Suc m)) k1"
    using tick_step [OF Suc.prems(1,2)] by blast
  have du: "t \<in> due k \<longleftrightarrow> m = 0" using due_distance [OF Suc.prems(2-4)] by simp
  have eq: "rt_tick k + of_nat (Suc m) = rt_tick k1 + of_nat m" using k1(3) by (simp add: algebra_simps)
  show ?case
  proof (cases "m = 0")
    case True
    then show ?thesis using k1 du Suc.prems(2) by simp
  next
    case False
    then have "waits_until t (rt_tick k1 + of_nat m) k1" using k1(4) du by (simp only: eq if_False)
    from Suc.IH [OF k1(2) this] False Suc.prems(4)
    have IH: "\<forall>j<m. \<exists>k'. ticks user fuel j k1 = Some k' \<and> waits_until t (rt_tick k1 + of_nat m) k'"
      "\<exists>k'. ticks user fuel m k1 = Some k' \<and> tickable fuel k' \<and> rt_tick k' = rt_tick k1 + of_nat m
         \<and> stat_of k' t = RT_THREAD_READY \<and> th_error (threads k' t) = RT_ETIMEOUT" by simp_all
    have "\<exists>k'. ticks user fuel j k = Some k' \<and> waits_until t (rt_tick k1 + of_nat m) k'" if "j < Suc m" for j
      using that IH(1) k1(1) Suc.prems(2) unfolding eq by (cases j) auto
    then show ?thesis using IH(2) k1(1) unfolding eq by simp
  qed
qed simp

lemma sample_waits:
  "\<exists>k. thread_timer_start 3 3 sample = Some k \<and> tickable 2 k \<and> waits_until 3 (rt_tick k + of_nat 3) k"
proof -
  have un: "home (timer_lists sample) (Thread_timer 3) = None" by (simp add: sample_rest(2) ls_empty_def)
  have lt: "(3 :: rt_tick_t) < RT_TICK_HALF" by (simp add: rt_consts)
  obtain k where k: "thread_timer_start 3 3 sample = Some k" "sys_inv k" "same_ipc sample k" "sched_view k = sched_view sample"
    "rt_current_thread k = rt_current_thread sample" "home (timer_lists k) = (home (timer_lists sample))(Thread_timer 3 := Some Hard_timers)"
    "tm_timeout_tick (timers k (Thread_timer 3)) = rt_tick sample + 3"
    using sys_timer_start [OF sample_sys_inv sample_facts(4) un lt] by blast
  have h: "home (timer_lists k) g = Some Hard_timers \<longleftrightarrow> g = Thread_timer 3" for g
    using k(6) by (simp add: sample_rest(2) ls_empty_def)
  have wf: "ls_wf (timer_lists k)" using check_invD(8) [OF sys_invD(1) [OF k(2)]] .
  then have mem: "g \<in> set (on_timers k Hard_timers) \<longleftrightarrow> g = Thread_timer 3" for g
    using h by (simp add: on_timers_def ls_wf_mem)
  moreover have "distinct (on_timers k Hard_timers)" using wf by (simp add: on_timers_def ls_wf_distinct)
  ultimately have "length (on_timers k Hard_timers) = card {Thread_timer 3}" by (metis distinct_card singleton_iff subsetI subset_antisym)
  moreover have "stat_of k 1 = RT_THREAD_READY" using k(4) sample_facts(2) by (simp add: sched_view_def stat_of_def)
  ultimately have "tickable 2 k" using k(2,5) mem sample_facts(7) by (auto simp: tickable_def)
  moreover have "waits_until 3 (rt_tick k + of_nat 3) k" using h k(3,7) by (simp add: waits_until_def same_ipc_def)
  ultimately show ?thesis using k(1) by blast
qed

theorem timeout_in_time_witness:
  "\<exists>k k'. thread_timer_start 3 3 sample = Some k \<and> ticks (\<lambda>_ _. Some) 2 3 k = Some k' \<and> stat_of k' 3 = RT_THREAD_READY
    \<and> th_error (threads k' 3) = RT_ETIMEOUT"
proof -
  obtain k where k: "thread_timer_start 3 3 sample = Some k" "tickable 2 k" "waits_until 3 (rt_tick k + of_nat 3) k" using sample_waits by blast
  then show ?thesis using timeout_in_time [OF k(2,3), of "\<lambda>_ _. Some"] by auto
qed

end
