(* ===== verification/RT_Lifecycle.thy ===== *)
theory RT_Lifecycle
  imports RT_Sem RT_Clock
begin

text \<open>
  The life of a thread: its creation and start, its end and the release of its memory by the idle thread
  (\<^verbatim>\<open>kernel/src/thread.c\<close>, \<^verbatim>\<open>kernel/src/idle.c\<close>, and the first stack frame of
  \<^verbatim>\<open>platform/cpu/armv6/stack.c\<close>).  A thread that ends is taken off every list and its timer is detached; a thread of the heap
  goes to the list of defunct threads and is freed when the idle thread runs.

  Cleanup functions and idle hooks are code outside of the kernel and are parameters.  The addresses that
  \<^verbatim>\<open>RT_KERNEL_MALLOC\<close> returns are arguments of the operations that allocate.
\<close>

section \<open>The code\<close>


text \<open>
  The words that \<^verbatim>\<open>rt_hw_stack_init\<close> stores, from the top of the stack down, and the stack
  pointer it returns: entry point, link register, r12 to r1, r0, the registers s31 to s0 of the
  floating-point unit with its two control words, and the processor status.
\<close>

definition rt_hw_stack_init ::
    "rt_uint32_t \<Rightarrow> rt_uint32_t \<Rightarrow> rt_uint32_t \<Rightarrow> rt_uint32_t \<Rightarrow> rt_uint32_t list \<times> rt_uint32_t" where
  "rt_hw_stack_init tentry parameter stack_addr texit =
     (let top = (stack_addr + 4) AND NOT 7;
          frame = [tentry, texit] @ replicate 12 0xdeadbeef @ [parameter]
            @ replicate 32 0xdeadbeef @ [0, 0x40000000]
            @ [if tentry AND 1 \<noteq> 0 then 0x13 OR 0x20 else 0x13]
      in (frame, top - 4 * word_of_nat (length frame)))"

text \<open>
  The byte at the low end of the stack once the stack is filled with \<^verbatim>\<open>'#'\<close> and the frame is stored; a frame that does not fit
  is stored over memory below the stack, which is no behaviour of the model.
\<close>

definition stack_guard_byte :: "rt_uint32_t \<Rightarrow> rt_uint32_t \<Rightarrow> rt_uint32_t list \<Rightarrow> rt_uint32_t \<Rightarrow> rt_uint8_t option" where
  "stack_guard_byte start sz frame sp =
     (if start < sp \<and> sp \<le> start + sz then Some 35
      else if start = sp then Some (ucast (last frame)) else None)"

definition thread_fields ::
    "nat \<Rightarrow> nat \<Rightarrow> rt_uint32_t \<Rightarrow> rt_uint32_t \<Rightarrow> rt_uint8_t \<Rightarrow> rt_uint32_t \<Rightarrow> rt_uint8_t \<Rightarrow> rt_uint32_t \<Rightarrow> rt_thread \<Rightarrow> rt_thread" where
  "thread_fields entry parameter start sz guard sp priority tick th = th\<lparr>th_entry := entry, th_parameter := parameter,
     th_stack_addr := start, th_stack_size := sz, th_stack_guard := guard, th_sp := sp, th_init_priority := priority,
     th_current_priority := priority, th_number_mask := 0, th_number := 0, th_high_mask := 0, th_init_tick := tick,
     th_remaining_tick := tick, th_error := RT_EOK, th_stat := RT_THREAD_INIT, th_cleanup := None, th_user_data := 0\<rparr>"

text \<open>\<^verbatim>\<open>_rt_thread_init\<close>; \<open>texit\<close> is the address of \<^verbatim>\<open>rt_thread_exit\<close>, \<open>block\<close> the memory for the lock.\<close>

definition thread_init ::
    "rt_uint32_t \<Rightarrow> tid \<Rightarrow> rt_uint8_t list \<Rightarrow> nat \<Rightarrow> nat \<Rightarrow> rt_uint32_t \<Rightarrow> rt_uint32_t \<Rightarrow> rt_uint8_t \<Rightarrow> rt_uint32_t
     \<Rightarrow> nat option \<Rightarrow> kernel \<Rightarrow> (rt_err_t \<times> kernel) option" where
  "thread_init texit t name entry parameter stack_start stack_size priority tick block k =
     do { k \<leftarrow> tlist_init_node t k;
          let (frame, sp) = rt_hw_stack_init (word_of_nat entry) (word_of_nat parameter) (stack_start + stack_size - 4) texit;
          guard \<leftarrow> stack_guard_byte stack_start stack_size frame sp;
          let k = upd_thread t (thread_fields entry parameter stack_start stack_size guard sp priority tick) k;
          (lck, k) \<leftarrow> rt_sem_create name 0 0 block k;
          let k = upd_thread t (\<lambda>th. th\<lparr>th_lock := lck\<rparr>) k;
          k \<leftarrow> rt_timer_init (Thread_timer t) (obj_name (objects k (Obj t))) (Rt_thread_timeout t) 0 0 k;
          Some (RT_EOK, upd_thread t (\<lambda>th. th\<lparr>th_enter_times := 0, th_total_ticks := 0\<rparr>) k) }"

definition rt_thread_init ::
    "rt_uint32_t \<Rightarrow> tid \<Rightarrow> rt_uint8_t list \<Rightarrow> nat \<Rightarrow> nat \<Rightarrow> rt_uint32_t \<Rightarrow> rt_uint32_t \<Rightarrow> rt_uint8_t \<Rightarrow> rt_uint32_t
     \<Rightarrow> nat option \<Rightarrow> kernel \<Rightarrow> (rt_err_t \<times> kernel) option" where
  "rt_thread_init texit t name entry parameter stack_start stack_size priority tick block k =
     do { RT_ASSERT (stack_start \<noteq> 0);
          k \<leftarrow> rt_object_init (Obj t) RT_Object_Class_Thread name k;
          thread_init texit t name entry parameter stack_start stack_size priority tick block k }"

definition rt_thread_startup :: "tid \<Rightarrow> kernel \<Rightarrow> (rt_err_t \<times> kernel) option" where
  "rt_thread_startup t k =
     do { RT_ASSERT (stat_of k t = RT_THREAD_INIT);
          RT_ASSERT (rt_object_get_type (Obj t) k = RT_Object_Class_Thread);
          let k = upd_thread t (\<lambda>th. set_priority (th_init_priority th) th) k;
          let k = upd_thread t (\<lambda>th. th\<lparr>th_stat := RT_THREAD_SUSPEND\<rparr>) k;
          (_, k) \<leftarrow> rt_thread_resume t k;
          k \<leftarrow> (if rt_thread_self k \<noteq> None then rt_schedule k else Some k);
          Some (RT_EOK, k) }"

text \<open>\<^verbatim>\<open>_thread_cleanup_execute\<close>\<close>

definition thread_cleanup_execute :: "(nat \<Rightarrow> tid \<Rightarrow> kernel \<Rightarrow> kernel option) \<Rightarrow> tid \<Rightarrow> kernel \<Rightarrow> kernel option" where
  "thread_cleanup_execute cleanup t k =
     (case th_cleanup (threads k t) of None \<Rightarrow> Some k | Some c \<Rightarrow> cleanup c t k)"

text \<open>The lines under \<^verbatim>\<open>RT_USING_THREAD_LOCK\<close> of the three ways a thread ends.\<close>

definition thread_lock_delete :: "tid \<Rightarrow> kernel \<Rightarrow> kernel option" where
  "thread_lock_delete t k =
     (let para = th_lock (threads k t); k = upd_thread t (\<lambda>th. th\<lparr>th_lock := None\<rparr>) k in
      case para of None \<Rightarrow> Some k
      | Some s \<Rightarrow> do { (_, k) \<leftarrow> rt_sem_delete s k; Some k })"

definition rt_thread_defunct_enqueue :: "tid \<Rightarrow> kernel \<Rightarrow> kernel option" where
  "rt_thread_defunct_enqueue t k = tlist_push Defunct t k"

text \<open>Detaching a static thread without a cleanup function, handing over any other one to the idle thread.\<close>

definition thread_retire :: "tid \<Rightarrow> kernel \<Rightarrow> kernel option" where
  "thread_retire t k =
     (if rt_object_is_systemobject (Obj t) k \<and> th_cleanup (threads k t) = None
      then Some (rt_object_detach (Obj t) k) else rt_thread_defunct_enqueue t k)"

text \<open>The part that \<^verbatim>\<open>rt_thread_detach\<close> and \<^verbatim>\<open>rt_thread_delete\<close> have in common.\<close>

definition thread_close :: "(nat \<Rightarrow> tid \<Rightarrow> kernel \<Rightarrow> kernel option) \<Rightarrow> tid \<Rightarrow> kernel \<Rightarrow> kernel option" where
  "thread_close cleanup t k =
     do { let k = (if stat_of k t \<noteq> RT_THREAD_INIT then rt_schedule_remove_thread t k else k);
          k \<leftarrow> thread_cleanup_execute cleanup t k;
          (_, k) \<leftarrow> rt_timer_detach (Thread_timer t) k;
          k \<leftarrow> thread_lock_delete t k;
          Some (upd_thread t (\<lambda>th. th\<lparr>th_stat := RT_THREAD_CLOSE\<rparr>) k) }"

definition rt_thread_detach :: "(nat \<Rightarrow> tid \<Rightarrow> kernel \<Rightarrow> kernel option) \<Rightarrow> tid \<Rightarrow> kernel \<Rightarrow> (rt_err_t \<times> kernel) option" where
  "rt_thread_detach cleanup t k =
     do { RT_ASSERT (rt_object_get_type (Obj t) k = RT_Object_Class_Thread);
          RT_ASSERT (rt_object_is_systemobject (Obj t) k);
          if stat_of k t = RT_THREAD_CLOSE then Some (RT_EOK, k)
          else do {
            k \<leftarrow> thread_close cleanup t k;
            k \<leftarrow> thread_retire t k;
            Some (RT_EOK, k) } }"

definition rt_thread_create ::
    "rt_uint32_t \<Rightarrow> rt_uint8_t list \<Rightarrow> nat \<Rightarrow> nat \<Rightarrow> rt_uint32_t \<Rightarrow> rt_uint8_t \<Rightarrow> rt_uint32_t
     \<Rightarrow> nat option \<Rightarrow> rt_uint32_t \<Rightarrow> nat option \<Rightarrow> kernel \<Rightarrow> (tid option \<times> kernel) option" where
  "rt_thread_create texit name entry parameter stack_size priority tick tblock stack_start sblock k =
     do { (r, k) \<leftarrow> rt_object_allocate RT_Object_Class_Thread name tblock k;
          case r of None \<Rightarrow> Some (None, k)
          | Some t \<Rightarrow>
              if stack_start = 0 then do { k \<leftarrow> rt_object_delete (Obj t) k; Some (None, k) }
              else do {
                (_, k) \<leftarrow> thread_init texit t name entry parameter stack_start stack_size priority tick sblock k;
                Some (Some t, k) } }"

definition rt_thread_delete :: "(nat \<Rightarrow> tid \<Rightarrow> kernel \<Rightarrow> kernel option) \<Rightarrow> tid \<Rightarrow> kernel \<Rightarrow> (rt_err_t \<times> kernel) option" where
  "rt_thread_delete cleanup t k =
     do { RT_ASSERT (rt_object_get_type (Obj t) k = RT_Object_Class_Thread);
          RT_ASSERT (\<not> rt_object_is_systemobject (Obj t) k);
          if stat_of k t = RT_THREAD_CLOSE then Some (RT_EOK, k)
          else do {
            k \<leftarrow> thread_close cleanup t k;
            k \<leftarrow> rt_thread_defunct_enqueue t k;
            Some (RT_EOK, k) } }"

text \<open>
  A thread that has given up the processor in \<^verbatim>\<open>rt_exit_critical\<close> never comes back to the last call of the
  scheduler, because it is on no ready list any more.
\<close>

definition rt_thread_exit :: "(nat \<Rightarrow> tid \<Rightarrow> kernel \<Rightarrow> kernel option) \<Rightarrow> kernel \<Rightarrow> kernel option" where
  "rt_thread_exit cleanup k =
     do { t \<leftarrow> rt_thread_self k;
          k \<leftarrow> thread_lock_delete t k;
          let k = rt_enter_critical k;
          k \<leftarrow> thread_cleanup_execute cleanup t k;
          let k = rt_schedule_remove_thread t k;
          let k = upd_thread t (\<lambda>th. th\<lparr>th_stat := RT_THREAD_CLOSE\<rparr>) k;
          (_, k) \<leftarrow> rt_timer_detach (Thread_timer t) k;
          k \<leftarrow> thread_retire t k;
          k \<leftarrow> rt_exit_critical k;
          if rt_thread_self k = Some t then rt_schedule k else Some k }"

definition RT_THREAD_CTRL_STARTUP :: int where [rt_consts]: "RT_THREAD_CTRL_STARTUP = 0"
definition RT_THREAD_CTRL_CLOSE :: int where [rt_consts]: "RT_THREAD_CTRL_CLOSE = 1"
definition RT_THREAD_CTRL_CHANGE_PRIORITY :: int where [rt_consts]: "RT_THREAD_CTRL_CHANGE_PRIORITY = 2"

definition rt_thread_control ::
    "(nat \<Rightarrow> tid \<Rightarrow> kernel \<Rightarrow> kernel option) \<Rightarrow> tid \<Rightarrow> int \<Rightarrow> rt_uint8_t \<Rightarrow> kernel \<Rightarrow> (rt_err_t \<times> kernel) option" where
  "rt_thread_control cleanup t cmd arg k =
     do { RT_ASSERT (rt_object_get_type (Obj t) k = RT_Object_Class_Thread);
          if cmd = RT_THREAD_CTRL_CHANGE_PRIORITY then rt_thread_change_priority t arg k
          else if cmd = RT_THREAD_CTRL_STARTUP then rt_thread_startup t k
          else if cmd = RT_THREAD_CTRL_CLOSE then
            do { (r, k) \<leftarrow> (if rt_object_is_systemobject (Obj t) k then rt_thread_detach cleanup t k
                            else rt_thread_delete cleanup t k);
                 k \<leftarrow> rt_schedule k;
                 Some (r, k) }
          else Some (RT_EOK, k) }"

definition rt_thread_find :: "rt_uint8_t list \<Rightarrow> kernel \<Rightarrow> (handle option \<times> kernel) option" where
  "rt_thread_find name k =
     do { let k = (if rt_thread_self k \<noteq> None then rt_enter_critical k else k);
          c \<leftarrow> rt_object_get_information RT_Object_Class_Thread;
          r \<leftarrow> find_by_name (objects k) name (on_class k c);
          k \<leftarrow> (if rt_thread_self k \<noteq> None then rt_exit_critical k else Some k);
          Some (r, k) }"

text \<open>The thread whose \<^verbatim>\<open>lock\<close> field the returned pointer designates.\<close>

definition rt_thread_get_sem_lock :: "kernel \<Rightarrow> tid option" where
  "rt_thread_get_sem_lock k = rt_thread_self k"

subsection \<open>The idle thread\<close>

definition rt_thread_defunct_dequeue :: "kernel \<Rightarrow> tid option \<times> kernel" where
  "rt_thread_defunct_dequeue k =
     (case on_tlist k Defunct of [] \<Rightarrow> (None, k) | t # _ \<Rightarrow> (Some t, tlist_remove t k))"

partial_function (option) rt_defunct_execute ::
    "(nat \<Rightarrow> tid \<Rightarrow> kernel \<Rightarrow> kernel option) \<Rightarrow> kernel \<Rightarrow> kernel option" where
  "rt_defunct_execute cleanup k =
     do { RT_DEBUG_NOT_IN_INTERRUPT k;
          let (r, k) = rt_thread_defunct_dequeue k;
          case r of None \<Rightarrow> Some k
          | Some t \<Rightarrow>
              do { k \<leftarrow> thread_cleanup_execute cleanup t k;
                   if rt_object_is_systemobject (Obj t) k then rt_exit_critical (rt_object_detach (Obj t) k)
                   else do {
                     k \<leftarrow> rt_object_delete (Obj t) (k\<lparr>freed_memory := th_stack_addr (threads k t) # freed_memory k\<rparr>);
                     rt_defunct_execute cleanup k } } }"

declare rt_defunct_execute.simps [code]

text \<open>The first cell of the table that holds one pointer gets another one.\<close>

fun replace_first :: "nat option \<Rightarrow> nat option \<Rightarrow> nat option list \<Rightarrow> nat option list option" where
  "replace_first x y [] = None"
| "replace_first x y (h # hs) = (if h = x then Some (y # hs) else map_option ((#) h) (replace_first x y hs))"

definition rt_thread_idle_sethook :: "nat option \<Rightarrow> kernel \<Rightarrow> rt_err_t \<times> kernel" where
  "rt_thread_idle_sethook hook k =
     (case replace_first None hook (idle_hook_list k) of
        None \<Rightarrow> (-RT_EFULL, k) | Some hs \<Rightarrow> (RT_EOK, k\<lparr>idle_hook_list := hs\<rparr>))"

definition rt_thread_idle_delhook :: "nat option \<Rightarrow> kernel \<Rightarrow> rt_err_t \<times> kernel" where
  "rt_thread_idle_delhook hook k =
     (case replace_first hook None (idle_hook_list k) of
        None \<Rightarrow> (-RT_ENOSYS, k) | Some hs \<Rightarrow> (RT_EOK, k\<lparr>idle_hook_list := hs\<rparr>))"

text \<open>The loop over the hooks reads the table anew in every round, \<open>i\<close> being the cells still to be visited.\<close>

fun run_idle_hooks :: "(nat \<Rightarrow> kernel \<Rightarrow> kernel option) \<Rightarrow> nat list \<Rightarrow> kernel \<Rightarrow> kernel option" where
  "run_idle_hooks hook [] k = Some k"
| "run_idle_hooks hook (i # is) k =
     do { k \<leftarrow> (case idle_hook_list k ! i of None \<Rightarrow> Some k | Some h \<Rightarrow> hook h k);
          run_idle_hooks hook is k }"

text \<open>One round of the loop of \<^verbatim>\<open>rt_thread_idle_entry\<close>.\<close>

definition idle_round ::
    "(nat \<Rightarrow> kernel \<Rightarrow> kernel option) \<Rightarrow> (nat \<Rightarrow> tid \<Rightarrow> kernel \<Rightarrow> kernel option) \<Rightarrow> kernel \<Rightarrow> kernel option" where
  "idle_round hook cleanup k = do { k \<leftarrow> run_idle_hooks hook [0..<4] k; rt_defunct_execute cleanup k }"

text \<open>The name is \<^verbatim>\<open>"tidle0"\<close>; \<open>entry\<close> and \<open>stack\<close> are the addresses of the entry function and of the static stack.\<close>

definition rt_thread_idle_init ::
    "rt_uint32_t \<Rightarrow> nat \<Rightarrow> rt_uint32_t \<Rightarrow> nat option \<Rightarrow> kernel \<Rightarrow> kernel option" where
  "rt_thread_idle_init texit entry stack block k =
     do { (_, k) \<leftarrow> rt_thread_init texit (idle_thread k) [116, 105, 100, 108, 101, 48, 0] entry 0 stack 1024 255 32 block k;
          (_, k) \<leftarrow> rt_thread_startup (idle_thread k) k;
          Some k }"

text \<open>The name is \<^verbatim>\<open>"timer"\<close>; the list of the soft timers is initialised before its first use.\<close>

definition rt_system_timer_thread_init ::
    "rt_uint32_t \<Rightarrow> nat \<Rightarrow> rt_uint32_t \<Rightarrow> nat option \<Rightarrow> kernel \<Rightarrow> kernel option" where
  "rt_system_timer_thread_init texit entry stack block k =
     do { k \<leftarrow> (if on_timers k Soft_timers = [] then Some k else None);
          (_, k) \<leftarrow> rt_thread_init texit (timer_thread k) [116, 105, 109, 101, 114, 0] entry 0 stack 2048 8 10 block k;
          (_, k) \<leftarrow> rt_thread_startup (timer_thread k) k;
          Some k }"

definition rt_thread_idle_gethandler :: "kernel \<Rightarrow> tid" where
  "rt_thread_idle_gethandler k = idle_thread k"

section \<open>Changing one thread\<close>

text \<open>
  A change of one thread and its timer keeps the invariant of the system when the scheduler data are right afterwards, the timer
  is not running, and the thread, if it is alive, is a complete one.
\<close>

lemma sys_inv_one_thread:
  assumes inv: "sys_inv k" and si: "sched_inv k'"
    and th: "\<And>u. u \<noteq> t \<Longrightarrow> threads k' u = threads k u"
    and tm: "\<And>h. h \<noteq> Thread_timer t \<Longrightarrow> timers k' h = timers k h"
    and ob: "\<And>h. h \<noteq> Obj t \<Longrightarrow> h \<noteq> Thread_timer t \<Longrightarrow> objects k' h = objects k h"
    and tl: "timer_lists k' = ls_remove (Thread_timer t) (timer_lists k)" and no: "home (timer_lists k) (Obj t) = None"
    and tick: "rt_tick k' = rt_tick k" and cur: "rt_current_thread k' \<noteq> None"
    and al: "alive k' t \<Longrightarrow> is_thread k' t \<and> thread_timer_ok k' t \<and> rt_scheduler_stack_check t k' = Some ()"
  shows "sys_inv k'"
proof -
  note d = sys_invD [OF inv]
  have wf: "ls_wf (timer_lists k)" using d(6) by (simp add: timer_inv_def)
  have on: "on_timers k' q = filter (\<lambda>h. h \<noteq> Thread_timer t) (on_timers k q)" for q
    by (simp add: on_timers_def tl ls_remove_on_list [OF wf])
  have st: "stat_of k' u = stat_of k u" if "u \<noteq> t" for u using th that by (simp add: stat_of_def)
  have it: "is_thread k' u = is_thread k u" if "u \<noteq> t" for u using ob that by (simp add: is_thread_def rt_object_get_type_def)
  have fl: "timer_flag f h k' = timer_flag f h k" if "h \<noteq> Obj t" "h \<noteq> Thread_timer t" for f h
    using ob that by (simp add: timer_flag_def)
  have lk: "h \<noteq> Obj t \<and> h \<noteq> Thread_timer t \<and> home (timer_lists k) h = Some q" if "home (timer_lists k') h = Some q" for h q
    using that no by (auto simp: tl split: if_splits)
  have "rt_object_get_type h k' = RT_Object_Class_Timer \<and> timer_flag RT_TIMER_FLAG_ACTIVATED h k' \<and> q = timer_list_of h k'"
    if "home (timer_lists k') h = Some q" for h q
  proof -
    note h = lk [OF that]
    have "objects k' h = objects k h" using ob h by blast
    moreover have "rt_object_get_type h k = RT_Object_Class_Timer \<and> timer_flag RT_TIMER_FLAG_ACTIVATED h k \<and> q = timer_list_of h k"
      using d(6) h by (simp add: timer_inv_def)
    ultimately show ?thesis by (simp add: rt_object_get_type_def timer_flag_def timer_list_of_def)
  qed
  then have "timer_inv k'" using ls_remove_wf [OF wf] by (simp add: timer_inv_def tl)
  moreover have "stack_inv k'"
    unfolding stack_inv_def
  proof (intro allI impI)
    fix u assume u: "stat_of k' u = RT_THREAD_READY \<or> stat_of k' u = RT_THREAD_SUSPEND"
    show "rt_scheduler_stack_check u k' = Some ()"
    proof (cases "u = t")
      case True
      with u al show ?thesis by (auto simp: alive_def)
    next
      case False
      with u d(7) st th show ?thesis by (auto simp: stack_inv_def rt_scheduler_stack_check_def)
    qed
  qed
  moreover have "timers_ok k'"
    unfolding timers_ok_def
  proof (intro allI impI)
    fix h assume "home (timer_lists k') h \<noteq> None"
    then have h: "h \<noteq> Obj t" "h \<noteq> Thread_timer t" "timer_ok k h"
      using lk check_invD(4) [OF d(1)] by (auto simp: timers_ok_def)
    then have "timer_ok k' h = timer_ok k h" by (intro timer_ok_cong) (auto simp: tm fl it st)
    with h(3) show "timer_ok k' h" by simp
  qed
  moreover have "timer_order (rt_tick k' - 1) Hard_timers k'"
    unfolding tick using check_invD(5) [OF d(1)] on by (rule timer_order_filter) (auto simp: on intro: tm)
  moreover have "threads_ok k'"
    unfolding threads_ok_def
  proof (intro allI impI)
    fix u assume u: "alive k' u"
    show "is_thread k' u \<and> thread_timer_ok k' u"
    proof (cases "u = t")
      case True
      with u al show ?thesis by blast
    next
      case False
      then have "alive k u" using u st by (simp add: alive_def)
      then show ?thesis using sys_inv_thread [OF inv] False by (simp add: it thread_timer_ok_def tm fl)
    qed
  qed
  moreover have "on_time k'"
    using d(3) by (auto simp: on_time_def on tick key_def tm)
  ultimately show ?thesis using si cur by (simp add: sys_inv_def check_inv_def kernel_inv_def)
qed

section \<open>Fresh memory\<close>

text \<open>
  Memory for an object: no header of a class is stored there, nothing is linked.
\<close>

definition fresh :: "handle \<Rightarrow> kernel \<Rightarrow> bool" where
  "fresh h k \<longleftrightarrow> rt_object_get_type h k = 0 \<and> home (object_lists k) h = None"

definition fresh_thread :: "tid \<Rightarrow> kernel \<Rightarrow> bool" where
  "fresh_thread t k \<longleftrightarrow> fresh (Obj t) k \<and> fresh (Thread_timer t) k \<and> home (tlists k) t = None"

definition fresh_sem :: "nat \<Rightarrow> kernel \<Rightarrow> bool" where
  "fresh_sem s k \<longleftrightarrow> fresh (Obj s) k \<and> on_tlist k (Sem_wait s) = []"

text \<open>The running thread is the one the scheduler wants to run.\<close>

definition settled :: "kernel \<Rightarrow> bool" where
  "settled k \<longleftrightarrow> (\<exists>c. rt_current_thread k = Some c \<and> first_ready k c) \<and> 0 \<le> sint (rt_scheduler_lock_nest k)"

lemma first_ready_unique:
  assumes "first_ready k t" and "first_ready k u"
  shows "t = u"
proof -
  have "prio_of k t \<le> prio_of k u" "prio_of k u \<le> prio_of k t" using assms unfolding first_ready_def by blast+
  then have "prio_of k t = prio_of k u" by (rule antisym)
  moreover obtain ts us where "on_tlist k (Ready (prio_of k t)) = t # ts" "on_tlist k (Ready (prio_of k u)) = u # us"
    using assms unfolding first_ready_def by blast
  ultimately show ?thesis by (metis list.inject)
qed

lemma schedule_settled:
  assumes inv: "sched_inv k" and c: "rt_current_thread k = Some c" "first_ready k c"
  shows "rt_schedule k = Some k"
proof -
  have "stat_of k c = RT_THREAD_READY" using c(2) by (simp add: first_ready_def)
  then obtain t where "scheduler_get_highest_priority_thread k = Some (prio_of k t, t)" "first_ready k t"
    using get_highest_first_ready [OF inv] by blast
  moreover from this have "t = c" using first_ready_unique c(2) by blast
  ultimately show ?thesis using c(1) by (simp add: rt_schedule_def)
qed

text \<open>For a settled kernel, locking and unlocking the scheduler changes nothing.\<close>

lemma critical_settled:
  assumes inv: "sched_inv k" and s: "settled k"
  shows "rt_exit_critical (rt_enter_critical k) = Some k"
proof -
  obtain c where c: "rt_current_thread k = Some c" "first_ready k c"
    and n: "0 \<le> sint (rt_scheduler_lock_nest k)" using s by (auto simp: settled_def)
  show ?thesis
  proof (cases "rt_scheduler_lock_nest k = 0")
    case True
    then have "k\<lparr>rt_scheduler_lock_nest := 0\<rparr> = k" by simp
    then show ?thesis using c(1) schedule_settled [OF inv c] by (simp add: rt_exit_critical_def rt_enter_critical_def Let_def)
  next
    case False
    then have "sint (rt_scheduler_lock_nest k) \<noteq> 0" using signed_word_eqI [of "rt_scheduler_lock_nest k" 0] by fastforce
    with n have "\<not> sint (rt_scheduler_lock_nest k) \<le> 0" by linarith
    then show ?thesis by (simp add: rt_exit_critical_def rt_enter_critical_def Let_def)
  qed
qed

lemma settled_cong:
  assumes "sched_view k' = sched_view k" and "rt_current_thread k' = rt_current_thread k"
    and "rt_scheduler_lock_nest k' = rt_scheduler_lock_nest k"
  shows "settled k' = settled k"
  using assms by (simp add: settled_def first_ready_def sched_view_def on_tlist_def stat_of_def prio_of_def)

lemma object_init_eq:
  assumes inv: "sched_inv k" "object_inv k" and s: "settled k" and c: "type \<in> set rt_object_container"
    and h: "home (object_lists k) h = None" and nm: "rt_strncpy name RT_NAME_MAX = Some nm"
  shows "rt_object_init h type name k = link_object type h
    (upd_object h (\<lambda>ob. ob\<lparr>obj_type := type OR RT_Object_Class_Static, obj_name := nm\<rparr>) k)"
proof -
  have "h \<notin> set (on_class k type)" using inv(2) h by (auto simp: object_inv_def on_class_def ls_wf_mem)
  moreover have "rt_object_get_information type \<noteq> None" using c by (simp add: container_type)
  ultimately show ?thesis by (simp add: rt_object_init_def critical_settled [OF inv(1) s] nm)
qed

section \<open>The first stack frame\<close>

lemma align_down: "unat ((w :: 32 word) AND NOT 7) \<le> unat w" "unat w \<le> unat (w AND NOT 7) + 7"
proof -
  let ?x = "w AND NOT 7" let ?y = "w AND 7"
  have "?x AND ?y = 0" "?x OR ?y = w" by (auto simp: bit_eq_iff bit_simps)
  then have s: "?x + ?y = w" using word_plus_and_or [of ?x ?y] by simp
  have "?y = take_bit 3 w" by (simp add: take_bit_eq_mask mask_eq_exp_minus_1)
  then have "unat ?y = take_bit 3 (unat w)" by (simp add: unsigned_take_bit_eq)
  moreover have "take_bit 3 (unat w) < 2 ^ 3" by (rule take_bit_nat_less_exp)
  ultimately have y: "unat ?y \<le> 7" by simp
  have le: "?x \<le> w" by (rule word_and_le2 [THEN order_trans]) simp
  then show "unat ?x \<le> unat w" by (simp add: word_le_nat_alt)
  have "?y = w - ?x" using s by (metis add_diff_cancel_left')
  then have "unat ?y = unat w - unat ?x" using le by (simp add: unat_sub)
  with y show "unat w \<le> unat ?x + 7" by linarith
qed

text \<open>The frame has 50 words; with the loss of the alignment, 208 bytes are enough to keep the guard byte.\<close>

definition first_sp :: "rt_uint32_t \<Rightarrow> rt_uint32_t \<Rightarrow> rt_uint32_t" where
  "first_sp start sz = ((start + sz) AND NOT 7) - 200"

lemma stack_init_sp: "snd (rt_hw_stack_init entry par (start + sz - 4) texit) = first_sp start sz"
  by (simp add: rt_hw_stack_init_def first_sp_def)

lemma stack_room:
  assumes "208 \<le> unat sz" and "unat start + unat sz < 2 ^ 32"
  shows "start < first_sp start sz" "first_sp start sz \<le> start + sz"
proof -
  let ?e = "start + sz"
  have e: "unat ?e = unat start + unat sz" using assms(2) by (simp add: unat_word_ariths(1))
  have a: "unat (?e AND NOT 7) \<le> unat ?e" "unat ?e \<le> unat (?e AND NOT 7) + 7" by (rule align_down)+
  then have "(200 :: 32 word) \<le> ?e AND NOT 7" using assms(1) e by (simp add: word_le_nat_alt)
  then have sp: "unat (first_sp start sz) = unat (?e AND NOT 7) - 200" by (simp add: first_sp_def unat_sub)
  show "start < first_sp start sz" unfolding word_less_nat_alt sp using a assms(1) e by linarith
  show "first_sp start sz \<le> start + sz" unfolding word_le_nat_alt sp using a by linarith
qed

section \<open>Creation\<close>

definition linked :: "rt_uint8_t \<Rightarrow> handle \<Rightarrow> (rt_uint8_t, handle) list_store \<Rightarrow> (rt_uint8_t, handle) list_store" where
  "linked c h ls = ls\<lparr>on_list := (on_list ls)(c := h # on_list ls c), home := (home ls)(h := Some c)\<rparr>"

lemma linked_home [simp]: "home (linked c h ls) = (home ls)(h := Some c)"
  by (simp add: linked_def)

lemma link_object_eq: "home (object_lists k) h = None \<Longrightarrow> link_object c h k = Some (k\<lparr>object_lists := linked c h (object_lists k)\<rparr>)"
  by (simp add: link_object_Some linked_def on_class_def)

lemma sem_create_eq:
  assumes "fresh_sem s k" and "rt_interrupt_nest k = 0" and "rt_strncpy name RT_NAME_MAX = Some nm"
  shows "rt_sem_create name 0 0 (Some s) k = Some (Some s, k\<lparr>
    objects := (objects k)(Obj s := \<lparr>obj_name = nm, obj_type = RT_Object_Class_Semaphore, obj_flag = 0\<rparr>),
    sems := (sems k)(s := \<lparr>sem_value = 0\<rparr>), object_lists := linked RT_Object_Class_Semaphore (Obj s) (object_lists k)\<rparr>)"
proof -
  have h: "home (object_lists k) (Obj s) = None" and w: "on_list (tlists k) (Sem_wait s) = []"
    using assms(1) by (simp_all add: fresh_sem_def fresh_def on_tlist_def)
  have "RT_Object_Class_Semaphore \<in> set rt_object_container" by (simp add: rt_object_container_def)
  then have c: "rt_object_get_information RT_Object_Class_Semaphore \<noteq> None" unfolding container_type .
  have ne: "RT_Object_Class_Semaphore \<noteq> RT_Object_Class_Thread" by (simp add: rt_consts)
  have z: "zero_struct RT_Object_Class_Semaphore s k = upd_sem s (\<lambda>_. zero_sem) (upd_object (Obj s) (\<lambda>_. zero_object) k)"
    using ne by (simp add: zero_struct_def Let_def)
  show ?thesis
    by (simp add: rt_sem_create_def rt_object_allocate_def RT_DEBUG_NOT_IN_INTERRUPT_def rt_interrupt_get_nest_def assms(2,3) c z
        link_object_eq h upd_object_def upd_sem_def sem_set_def tlist_init_head_def on_tlist_def w zero_object_def zero_sem_def)
qed

lemma thread_timer_init_eq:
  assumes "sched_inv k" "object_inv k" "settled k" and "fresh (Thread_timer t) k" and "home (timer_lists k) (Thread_timer t) = None"
    and "rt_strncpy name RT_NAME_MAX = Some nm"
  shows "rt_timer_init (Thread_timer t) name (Rt_thread_timeout t) 0 0 k = Some (k\<lparr>
    objects := (objects k)(Thread_timer t := \<lparr>obj_name = nm, obj_type = RT_Object_Class_Timer OR RT_Object_Class_Static, obj_flag = 0\<rparr>),
    timers := (timers k)(Thread_timer t := \<lparr>tm_timeout_func = Rt_thread_timeout t, tm_init_tick = 0, tm_timeout_tick = 0\<rparr>),
    object_lists := linked RT_Object_Class_Timer (Thread_timer t) (object_lists k)\<rparr>)"
proof -
  have h: "home (object_lists k) (Thread_timer t) = None" using assms(4) by (simp add: fresh_def)
  have c: "RT_Object_Class_Timer \<in> set rt_object_container" by (simp add: rt_object_container_def)
  have ob: "ob\<lparr>obj_type := a, obj_name := b, obj_flag := f\<rparr> = \<lparr>obj_name = b, obj_type = a, obj_flag = f\<rparr>" for ob :: rt_object and a b f
    by (cases ob) simp
  show ?thesis
    unfolding rt_timer_init_def object_init_eq [OF assms(1-3) c h assms(6)]
    by (simp add: link_object_eq h upd_object_def timer_init_fields_def upd_timer_def assms(5) ob)
qed

lemma not_timer_unlinked: "sys_inv k \<Longrightarrow> rt_object_get_type h k \<noteq> RT_Object_Class_Timer \<Longrightarrow> home (timer_lists k) h = None"
  using sys_invD(6) [of k] by (cases "home (timer_lists k) h") (auto simp: timer_inv_def)

lemma not_thread_dead: "sys_inv k \<Longrightarrow> rt_object_get_type (Obj t) k \<noteq> RT_Object_Class_Thread \<Longrightarrow> \<not> alive k t"
  using sys_inv_thread [of k t] by (auto simp: is_thread_def)

lemma no_timer_dead: "sys_inv k \<Longrightarrow> rt_object_get_type (Thread_timer t) k \<noteq> RT_Object_Class_Timer \<Longrightarrow> \<not> alive k t"
  using sys_inv_thread [of k t] by (auto simp: is_thread_def)

text \<open>A change of a thread that was not ready and is not ready leaves the running thread its claim.\<close>

lemma settled_other:
  assumes s: "settled k" and th: "\<And>u. u \<noteq> t \<Longrightarrow> threads k' u = threads k u"
    and st: "stat_of k t \<noteq> RT_THREAD_READY" "stat_of k' t \<noteq> RT_THREAD_READY"
    and on: "\<And>p. on_tlist k' (Ready p) = on_tlist k (Ready p)" and cur: "rt_current_thread k' = rt_current_thread k"
    and n: "rt_scheduler_lock_nest k' = rt_scheduler_lock_nest k"
  shows "settled k'"
proof -
  obtain c where c: "rt_current_thread k = Some c" "first_ready k c" using s by (auto simp: settled_def)
  have ct: "c \<noteq> t" using c(2) st(1) by (auto simp: first_ready_def)
  have eq: "stat_of k' u = stat_of k u" "prio_of k' u = prio_of k u" if "u \<noteq> t" for u
    using th that by (simp_all add: stat_of_def prio_of_def)
  have "prio_of k' c \<le> prio_of k' u" if "stat_of k' u = RT_THREAD_READY" for u
  proof -
    have "u \<noteq> t" using that st(2) by auto
    with that eq ct c(2) show ?thesis by (simp add: first_ready_def)
  qed
  then have "first_ready k' c" using c(2) eq [OF ct] on by (simp add: first_ready_def)
  with s c(1) cur n show ?thesis by (simp add: settled_def)
qed

text \<open>A change of a dead thread that is on no list.\<close>

lemma sys_inv_dead_thread:
  assumes inv: "sys_inv k" and h: "home (tlists k) t = None" and dead: "stat_of (upd_thread t f k) t = RT_THREAD_INIT"
    and ty: "rt_object_get_type (Obj t) k \<noteq> RT_Object_Class_Timer" "home (timer_lists k) (Thread_timer t) = None"
  shows "sys_inv (upd_thread t f k)"
proof (rule sys_inv_one_thread [OF inv])
  have "sched_free t (upd_thread t f k)" using sched_free_intro [OF sys_invD(5) [OF inv] h] by simp
  moreover have "thread_ok (upd_thread t f k) t" using h dead by (simp add: thread_ok_def rt_consts)
  ultimately show "sched_inv (upd_thread t f k)" by (rule sched_free_close)
  show "home (timer_lists k) (Obj t) = None" using not_timer_unlinked [OF inv ty(1)] .
  show "is_thread (upd_thread t f k) t \<and> thread_timer_ok (upd_thread t f k) t \<and> rt_scheduler_stack_check t (upd_thread t f k) = Some ()"
    if "alive (upd_thread t f k) t" using that dead by (simp add: alive_def rt_consts)
qed (simp_all add: ty ls_remove_None sys_invD(8) [OF inv])

text \<open>What neither creation nor end of a thread touches.\<close>

definition same_rest :: "kernel \<Rightarrow> kernel \<Rightarrow> bool" where
  "same_rest k k' \<longleftrightarrow> rt_tick k' = rt_tick k \<and> rt_current_thread k' = rt_current_thread k
     \<and> rt_scheduler_lock_nest k' = rt_scheduler_lock_nest k \<and> rt_interrupt_nest k' = rt_interrupt_nest k"

lemma same_rest_refl [simp]: "same_rest k k"
  by (simp add: same_rest_def)

lemma same_rest_trans: "same_rest k k1 \<Longrightarrow> same_rest k1 k2 \<Longrightarrow> same_rest k k2"
  by (simp add: same_rest_def)

lemma same_rest_upd [simp]: "same_rest k (upd_thread t f k1) = same_rest k k1"
  by (simp add: same_rest_def)

lemma upd_thread_heap [simp]:
  "object_lists (upd_thread t f k) = object_lists k" "freed (upd_thread t f k) = freed k"
  "freed_memory (upd_thread t f k) = freed_memory k" "object_inv (upd_thread t f k) = object_inv k"
  using object_inv_cong [of "upd_thread t f k" k] by (simp_all add: upd_thread_def)

text \<open>A thread just made, and what its creation leaves in place.\<close>

definition thread_made :: "tid \<Rightarrow> rt_uint8_t \<Rightarrow> rt_uint8_t \<Rightarrow> rt_uint32_t \<Rightarrow> nat option \<Rightarrow> kernel \<Rightarrow> kernel \<Rightarrow> bool" where
  "thread_made t cls p start lck k k' \<longleftrightarrow> stat_of k' t = RT_THREAD_INIT \<and> th_init_priority (threads k' t) = p
     \<and> th_lock (threads k' t) = lck \<and> th_cleanup (threads k' t) = None \<and> th_stack_addr (threads k' t) = start
     \<and> th_error (threads k' t) = RT_EOK \<and> is_thread k' t \<and> thread_timer_ok k' t \<and> rt_object_is_systemobject (Thread_timer t) k'
     \<and> rt_scheduler_stack_check t k' = Some () \<and> home (tlists k') t = None \<and> home (timer_lists k') (Thread_timer t) = None
     \<and> (\<forall>u. u \<noteq> t \<longrightarrow> threads k' u = threads k u) \<and> tlists k' = tlists k \<and> timer_lists k' = timer_lists k
     \<and> same_rest k k' \<and> freed k' = freed k \<and> freed_memory k' = freed_memory k
     \<and> obj_type (objects k' (Obj t)) = cls
     \<and> (\<forall>s. lck = Some s \<longrightarrow> s \<noteq> t \<and> obj_type (objects k' (Obj s)) = RT_Object_Class_Semaphore \<and> on_tlist k' (Sem_wait s) = [])"

text \<open>The creation of the lock of a thread, which may fail for lack of memory.\<close>

lemma lock_create:
  assumes inv: "sys_inv k" "object_inv k" and s: "\<And>s. block = Some s \<Longrightarrow> fresh_sem s k" and ni: "rt_interrupt_nest k = 0"
    and nm: "rt_strncpy name RT_NAME_MAX = Some nm"
  shows "\<exists>k'. rt_sem_create name 0 0 block k = Some (block, k') \<and> sys_inv k' \<and> object_inv k' \<and> sched_view k' = sched_view k
    \<and> timer_lists k' = timer_lists k \<and> same_rest k k' \<and> freed k' = freed k \<and> freed_memory k' = freed_memory k
    \<and> (\<forall>h. (\<forall>s. block = Some s \<longrightarrow> h \<noteq> Obj s) \<longrightarrow> objects k' h = objects k h \<and> home (object_lists k') h = home (object_lists k) h)
    \<and> (\<forall>s. block = Some s \<longrightarrow> obj_type (objects k' (Obj s)) = RT_Object_Class_Semaphore)"
proof (cases block)
  case None
  have c: "RT_Object_Class_Semaphore \<in> set rt_object_container" by (simp add: rt_object_container_def)
  have "rt_sem_create name 0 0 block k = Some (block, k)"
    using c unfolding container_type
    by (simp add: rt_sem_create_def rt_object_allocate_def RT_DEBUG_NOT_IN_INTERRUPT_def rt_interrupt_get_nest_def ni None)
  with inv None show ?thesis by simp
next
  case (Some s)
  note f = s [OF Some]
  let ?ob = "\<lparr>obj_name = nm, obj_type = RT_Object_Class_Semaphore, obj_flag = 0\<rparr>"
  let ?k = "k\<lparr>objects := (objects k)(Obj s := ?ob), sems := (sems k)(s := \<lparr>sem_value = 0\<rparr>),
    object_lists := linked RT_Object_Class_Semaphore (Obj s) (object_lists k)\<rparr>"
  have eq: "rt_sem_create name 0 0 block k = Some (block, ?k)" using sem_create_eq [OF f ni nm] Some by simp
  have ty: "rt_object_get_type (Obj s) k = 0" and h: "home (object_lists k) (Obj s) = None"
    using f by (simp_all add: fresh_sem_def fresh_def)
  have "sys_inv ?k"
    by (rule sys_inv_objects [OF inv(1), where g = "Obj s"]) (simp_all add: sched_view_def ty rt_consts)
  moreover have "object_inv ?k"
  proof -
    let ?k1 = "k\<lparr>objects := (objects k)(Obj s := ?ob), object_lists := linked RT_Object_Class_Semaphore (Obj s) (object_lists k)\<rparr>"
    have "link_object RT_Object_Class_Semaphore (Obj s) (upd_object (Obj s) (\<lambda>_. ?ob) k) = Some ?k1"
      using h by (simp add: link_object_eq upd_object_def)
    then have "object_inv ?k1"
      by (rule link_object_inv [OF inv(2)]) (simp_all add: rt_object_container_def rt_strncpy_length [OF nm] rt_consts)
    then show ?thesis using object_inv_cong [of ?k ?k1] by simp
  qed
  ultimately show ?thesis unfolding eq by (simp add: Some sched_view_def same_rest_def)
qed

text \<open>The last part of the creation, the timer of the thread.\<close>

lemma thread_timer_made:
  assumes inv: "sys_inv k" "object_inv k" and set: "settled k" and ty: "rt_object_get_type (Obj t) k = RT_Object_Class_Thread"
    and st: "stat_of k t = RT_THREAD_INIT"
    and fr: "fresh (Thread_timer t) k" and nm: "length name = RT_NAME_MAX"
  shows "\<exists>k'. rt_timer_init (Thread_timer t) name (Rt_thread_timeout t) 0 0 k = Some k' \<and> sys_inv k' \<and> object_inv k'
    \<and> sched_view k' = sched_view k \<and> is_thread k' t \<and> thread_timer_ok k' t \<and> timer_lists k' = timer_lists k
    \<and> rt_object_is_systemobject (Thread_timer t) k' \<and> home (timer_lists k) (Thread_timer t) = None \<and> same_rest k k' \<and> freed k' = freed k \<and> freed_memory k' = freed_memory k \<and> (\<forall>h. h \<noteq> Thread_timer t \<longrightarrow> objects k' h = objects k h)"
proof -
  let ?h = "Thread_timer t"
  obtain nm' where nm': "rt_strncpy name RT_NAME_MAX = Some nm'" using rt_strncpy_Some [of RT_NAME_MAX name] nm by auto
  let ?ob = "\<lparr>obj_name = nm', obj_type = RT_Object_Class_Timer OR RT_Object_Class_Static, obj_flag = 0\<rparr>"
  let ?k = "k\<lparr>objects := (objects k)(?h := ?ob),
    timers := (timers k)(?h := \<lparr>tm_timeout_func = Rt_thread_timeout t, tm_init_tick = 0, tm_timeout_tick = 0\<rparr>),
    object_lists := linked RT_Object_Class_Timer ?h (object_lists k)\<rparr>"
  have ul: "home (timer_lists k) ?h = None" "home (timer_lists k) (Obj t) = None"
    using not_timer_unlinked [OF inv(1)] fr ty by (simp_all add: fresh_def rt_consts)
  have eq: "rt_timer_init ?h name (Rt_thread_timeout t) 0 0 k = Some ?k"
    using thread_timer_init_eq [OF sys_invD(5) [OF inv(1)] inv(2) set fr ul(1) nm'] .
  have view: "sched_view ?k = sched_view k" by (simp add: sched_view_def)
  have tys: "is_thread ?k t" "thread_timer_ok ?k t" "rt_object_is_systemobject ?h ?k"
    using ty by (simp_all add: is_thread_def thread_timer_ok_def timer_flag_def rt_object_get_type_def rt_object_is_systemobject_def rt_consts)
  have "sys_inv ?k"
  proof (rule sys_inv_one_thread [OF inv(1), where t = t])
    show "sched_inv ?k" using sys_invD(5) [OF inv(1)] sched_view_inv [OF view] by simp
    show "is_thread ?k t \<and> thread_timer_ok ?k t \<and> rt_scheduler_stack_check t ?k = Some ()" if "alive ?k t"
      using that st by (simp add: alive_def stat_of_def rt_consts)
  qed (simp_all add: ls_remove_None ul sys_invD(8) [OF inv(1)])
  moreover have "object_inv ?k"
  proof -
    let ?k1 = "k\<lparr>objects := (objects k)(?h := ?ob), object_lists := linked RT_Object_Class_Timer ?h (object_lists k)\<rparr>"
    have "link_object RT_Object_Class_Timer ?h (upd_object ?h (\<lambda>_. ?ob) k) = Some ?k1"
      using fr by (simp add: link_object_eq upd_object_def fresh_def)
    then have "object_inv ?k1"
      by (rule link_object_inv [OF inv(2)]) (simp_all add: rt_object_container_def rt_strncpy_length [OF nm'] rt_consts)
    then show ?thesis using object_inv_cong [of ?k ?k1] by simp
  qed
  ultimately show ?thesis unfolding eq using view tys ul(1) by (simp add: same_rest_def)
qed

lemma thread_init_ok:
  assumes inv: "sys_inv k" "object_inv k" and set: "settled k" and ty: "rt_object_get_type (Obj t) k = RT_Object_Class_Thread"
    and nm0: "length (obj_name (objects k (Obj t))) = RT_NAME_MAX" and fr: "fresh (Thread_timer t) k" "home (tlists k) t = None"
    and s: "\<And>s. block = Some s \<Longrightarrow> fresh_sem s k" and ni: "rt_interrupt_nest k = 0"
    and nm: "rt_strncpy name RT_NAME_MAX = Some nm"
    and room: "start < first_sp start sz" "first_sp start sz \<le> start + sz"
  shows "\<exists>k'. thread_init texit t name entry par start sz p tick block k = Some (RT_EOK, k') \<and> sys_inv k' \<and> object_inv k'
    \<and> settled k' \<and> thread_made t (obj_type (objects k (Obj t))) p start block k k'"
proof -
  obtain frame where fs: "rt_hw_stack_init (word_of_nat entry) (word_of_nat par) (start + sz - 4) texit = (frame, first_sp start sz)"
    using stack_init_sp by (metis prod.collapse)
  let ?f = "thread_fields entry par start sz 35 (first_sp start sz) p tick"
  let ?k1 = "upd_thread t ?f k"
  have dead: "\<not> alive k t" using no_timer_dead [OF inv(1)] fr(1) by (simp add: fresh_def rt_consts)
  have tt: "home (timer_lists k) (Thread_timer t) = None"
    using not_timer_unlinked [OF inv(1)] fr(1) by (simp add: fresh_def rt_consts)
  have st1: "stat_of ?k1 t = RT_THREAD_INIT" by (simp add: stat_of_def thread_fields_def)
  have inv1: "sys_inv ?k1" using inv(1) fr(2) st1 _ tt by (rule sys_inv_dead_thread) (simp add: ty rt_consts)
  have fs1: "fresh_sem s ?k1" if "block = Some s" for s using s [OF that] by (simp add: fresh_sem_def fresh_def)
  obtain k2 where k2: "rt_sem_create name 0 0 block ?k1 = Some (block, k2)" "sys_inv k2" "object_inv k2" "sched_view k2 = sched_view ?k1"
    "timer_lists k2 = timer_lists k" "same_rest k k2" "freed k2 = freed k" "freed_memory k2 = freed_memory k"
    and ob2: "\<forall>h. (\<forall>s. block = Some s \<longrightarrow> h \<noteq> Obj s) \<longrightarrow> objects k2 h = objects k h \<and> home (object_lists k2) h = home (object_lists k) h"
      "\<forall>s. block = Some s \<longrightarrow> obj_type (objects k2 (Obj s)) = RT_Object_Class_Semaphore"
    using lock_create [OF inv1, of block name nm] inv(2) fs1 ni nm by (auto simp: same_rest_def)
  have st: "block \<noteq> Some t" using fs1 [of t] ty by (auto simp: fresh_sem_def fresh_def rt_consts)
  have ob: "objects k2 (Obj t) = objects k (Obj t)" "objects k2 (Thread_timer t) = objects k (Thread_timer t)"
    "home (object_lists k2) (Thread_timer t) = home (object_lists k) (Thread_timer t)" using ob2(1) st by auto
  have v2: "threads k2 = (threads k)(t := ?f (threads k t))" "tlists k2 = tlists k" using k2(4) by (simp_all add: sched_view_def)
  let ?k3 = "upd_thread t (\<lambda>th. th\<lparr>th_lock := block\<rparr>) k2"
  have inv3: "sys_inv ?k3" by (rule sys_inv_upd_thread [OF k2(2)]) simp_all
  have st3: "stat_of ?k3 t = RT_THREAD_INIT" by (simp add: stat_of_def v2 thread_fields_def)
  have set3: "settled ?k3"
    by (rule settled_other [OF set, where t = t])
      (use dead k2(6) st3 in \<open>auto simp: v2 alive_def on_tlist_def rt_consts same_rest_def\<close>)
  have "fresh (Thread_timer t) ?k3" "rt_object_get_type (Obj t) ?k3 = RT_Object_Class_Thread" "length (obj_name (objects ?k3 (Obj t))) = RT_NAME_MAX"
    using fr(1) ty nm0 ob by (simp_all add: fresh_def rt_object_get_type_def)
  then obtain k4 where k4: "rt_timer_init (Thread_timer t) (obj_name (objects ?k3 (Obj t))) (Rt_thread_timeout t) 0 0 ?k3 = Some k4"
    "sys_inv k4" "object_inv k4" "sched_view k4 = sched_view ?k3" "is_thread k4 t" "thread_timer_ok k4 t" "timer_lists k4 = timer_lists k"
    "same_rest k k4" "freed k4 = freed k" "freed_memory k4 = freed_memory k" "\<forall>h. h \<noteq> Thread_timer t \<longrightarrow> objects k4 h = objects k2 h"
    "rt_object_is_systemobject (Thread_timer t) k4"
    using thread_timer_made [OF inv3 _ set3 _ st3, of "obj_name (objects ?k3 (Obj t))"] k2(3,5-8) by (auto simp: same_rest_def)
  let ?k5 = "upd_thread t (\<lambda>th. th\<lparr>th_enter_times := 0, th_total_ticks := 0\<rparr>) k4"
  have th4: "threads k4 = (threads k)(t := (?f (threads k t))\<lparr>th_lock := block\<rparr>)" "tlists k4 = tlists k"
    using k4(4) v2 by (simp_all add: sched_view_def)
  have "sys_inv ?k5" by (rule sys_inv_upd_thread [OF k4(2)]) simp_all
  moreover have "settled ?k5"
    by (rule settled_other [OF set, where t = t])
      (use dead k4(8) in \<open>auto simp: th4 alive_def on_tlist_def rt_consts same_rest_def stat_of_def thread_fields_def\<close>)
  moreover have "thread_init texit t name entry par start sz p tick block k = Some (RT_EOK, ?k5)"
    using room k2(1) k4(1) fr(2) fs by (simp add: thread_init_def tlist_init_node_def stack_guard_byte_def)
  moreover have "thread_made t (obj_type (objects k (Obj t))) p start block k ?k5"
  proof -
    have "stat_of ?k5 t = RT_THREAD_INIT" "rt_scheduler_stack_check t ?k5 = Some ()"
      using room by (simp_all add: stat_of_def th4 thread_fields_def rt_scheduler_stack_check_def not_le not_less)
    moreover have "is_thread ?k5 t" "thread_timer_ok ?k5 t" "rt_object_is_systemobject (Thread_timer t) ?k5"
      using k4(5,6,12) by (simp_all add: is_thread_def thread_timer_ok_def timer_flag_def rt_object_is_systemobject_def)
    moreover have "s \<noteq> t \<and> obj_type (objects ?k5 (Obj s)) = RT_Object_Class_Semaphore \<and> on_tlist ?k5 (Sem_wait s) = []"
      if "block = Some s" for s
      using that ob2(2) k4(11) st fs1 [OF that] by (auto simp: fresh_sem_def on_tlist_def th4)
    ultimately show ?thesis
      using k4(7-11) ob fr(2) tt by (simp add: thread_made_def th4 thread_fields_def)
  qed
  ultimately show ?thesis using k4(3) by (intro exI [of _ ?k5]) simp
qed

text \<open>A static thread.\<close>

lemma rt_thread_init_ok:
  assumes inv: "sys_inv k" "object_inv k" and set: "settled k" and fr: "fresh_thread t k"
    and s: "\<And>s. block = Some s \<Longrightarrow> fresh_sem s k \<and> s \<noteq> t" and ni: "rt_interrupt_nest k = 0"
    and nm: "rt_strncpy name RT_NAME_MAX = Some nm" and room: "start < first_sp start sz" "first_sp start sz \<le> start + sz"
    and nz: "start \<noteq> 0"
  shows "\<exists>k'. rt_thread_init texit t name entry par start sz p tick block k = Some (RT_EOK, k') \<and> sys_inv k' \<and> object_inv k'
    \<and> settled k' \<and> thread_made t (RT_Object_Class_Thread OR RT_Object_Class_Static) p start block k k'"
proof -
  have h: "home (object_lists k) (Obj t) = None" and ty: "rt_object_get_type (Obj t) k = 0"
    using fr by (simp_all add: fresh_thread_def fresh_def)
  have c: "RT_Object_Class_Thread \<in> set rt_object_container" by (simp add: rt_object_container_def)
  let ?g = "\<lambda>ob. ob\<lparr>obj_type := RT_Object_Class_Thread OR RT_Object_Class_Static, obj_name := nm\<rparr>"
  let ?k1 = "(upd_object (Obj t) ?g k)\<lparr>object_lists := linked RT_Object_Class_Thread (Obj t) (object_lists k)\<rparr>"
  have link: "link_object RT_Object_Class_Thread (Obj t) (upd_object (Obj t) ?g k) = Some ?k1"
    using h by (simp add: link_object_eq upd_object_def)
  then have ini: "rt_object_init (Obj t) RT_Object_Class_Thread name k = Some ?k1"
    unfolding object_init_eq [OF sys_invD(5) [OF inv(1)] inv(2) set c h nm] .
  have view: "sched_view ?k1 = sched_view k" by (simp add: upd_object_def sched_view_def)
  have inv1: "sys_inv ?k1"
    by (rule sys_inv_objects [OF inv(1), where g = "Obj t"]) (simp_all add: sched_view_def upd_object_def ty rt_consts)
  have oi1: "object_inv ?k1"
    using inv(2) link c by (rule link_object_inv) (simp_all add: container_masks [OF c] rt_strncpy_length [OF nm])
  have set1: "settled ?k1" using set settled_cong [of ?k1 k] view by (simp add: upd_object_def)
  have fr1: "fresh (Thread_timer t) ?k1" "home (tlists ?k1) t = None" "rt_object_get_type (Obj t) ?k1 = RT_Object_Class_Thread"
    "length (obj_name (objects ?k1 (Obj t))) = RT_NAME_MAX" "rt_interrupt_nest ?k1 = 0"
    using fr rt_strncpy_length [OF nm] ni
    by (simp_all add: fresh_thread_def fresh_def upd_object_def rt_object_get_type_def container_masks [OF c])
  have fs1: "fresh_sem s ?k1" if "block = Some s" for s
    using s [OF that] by (simp add: fresh_sem_def fresh_def upd_object_def rt_object_get_type_def on_tlist_def)
  obtain k' where "thread_init texit t name entry par start sz p tick block ?k1 = Some (RT_EOK, k')" "sys_inv k'" "object_inv k'"
    "settled k'" "thread_made t (obj_type (objects ?k1 (Obj t))) p start block ?k1 k'"
    using thread_init_ok [OF inv1 oi1 set1 fr1(3,4,1,2) fs1 fr1(5) nm room] by blast
  then show ?thesis using ini nz
    by (intro exI [of _ k']) (auto simp: rt_thread_init_def thread_made_def same_rest_def upd_object_def)
qed

text \<open>A thread of the heap.\<close>

lemma thread_allocate:
  assumes inv: "sys_inv k" "object_inv k" and set: "settled k" and fr: "fresh_thread t k" and ni: "rt_interrupt_nest k = 0"
    and nm: "rt_strncpy name RT_NAME_MAX = Some nm"
  shows "\<exists>k'. rt_object_allocate RT_Object_Class_Thread name (Some t) k = Some (Some t, k') \<and> sys_inv k' \<and> object_inv k' \<and> settled k'
    \<and> fresh (Thread_timer t) k' \<and> tlists k' = tlists k \<and> obj_type (objects k' (Obj t)) = RT_Object_Class_Thread
    \<and> length (obj_name (objects k' (Obj t))) = RT_NAME_MAX \<and> same_rest k k' \<and> freed k' = freed k \<and> freed_memory k' = freed_memory k
    \<and> (\<forall>u. u \<noteq> t \<longrightarrow> threads k' u = threads k u) \<and> timer_lists k' = timer_lists k
    \<and> (\<forall>h. h \<noteq> Obj t \<longrightarrow> h \<noteq> Thread_timer t \<longrightarrow> objects k' h = objects k h)
    \<and> (\<forall>h. h \<noteq> Obj t \<longrightarrow> home (object_lists k') h = home (object_lists k) h)"
proof -
  have h: "home (object_lists k) (Obj t) = None" "home (tlists k) t = None" and ty: "rt_object_get_type (Obj t) k = 0"
    and tty: "rt_object_get_type (Thread_timer t) k = 0" "home (object_lists k) (Thread_timer t) = None"
    using fr by (simp_all add: fresh_thread_def fresh_def)
  have c: "RT_Object_Class_Thread \<in> set rt_object_container" by (simp add: rt_object_container_def)
  let ?z = "zero_struct RT_Object_Class_Thread t k"
  let ?g = "\<lambda>ob. ob\<lparr>obj_type := RT_Object_Class_Thread, obj_flag := 0, obj_name := nm\<rparr>"
  define K where "K = (upd_object (Obj t) ?g ?z)\<lparr>object_lists := linked RT_Object_Class_Thread (Obj t) (object_lists k)\<rparr>"
  have z: "?z = upd_object (Thread_timer t) (\<lambda>_. zero_object)
      (upd_timer (Thread_timer t) (\<lambda>_. zero_timer) (upd_thread t (\<lambda>_. zero_thread) (upd_object (Obj t) (\<lambda>_. zero_object) k)))"
    by (simp add: zero_struct_def Let_def)
  have f: "threads K = (threads k)(t := zero_thread)" "tlists K = tlists k" "timer_lists K = timer_lists k"
    "timers K = (timers k)(Thread_timer t := zero_timer)" "rt_thread_ready_table K = rt_thread_ready_table k"
    "rt_thread_ready_priority_group K = rt_thread_ready_priority_group k" "same_rest k K" "freed K = freed k" "freed_memory K = freed_memory k"
    "objects K = (objects k)(Obj t := ?g zero_object, Thread_timer t := zero_object)"
    "object_lists K = linked RT_Object_Class_Thread (Obj t) (object_lists k)"
    by (simp_all add: K_def z upd_defs same_rest_def fun_eq_iff)
  have link: "link_object RT_Object_Class_Thread (Obj t) (upd_object (Obj t) ?g ?z) = Some K"
    using h by (simp add: link_object_eq upd_object_def K_def)
  have "rt_object_get_information RT_Object_Class_Thread \<noteq> None" using c unfolding container_type .
  then have al: "rt_object_allocate RT_Object_Class_Thread name (Some t) k = Some (Some t, K)"
    using ni nm link by (simp add: rt_object_allocate_def RT_DEBUG_NOT_IN_INTERRUPT_def rt_interrupt_get_nest_def)
  then have "object_inv K" using rt_object_allocate_inv [OF inv(2) _ h(1) tty(2)] by blast
  moreover have dead: "\<not> alive k t" using not_thread_dead [OF inv(1)] ty by (simp add: rt_consts)
  have st: "stat_of K t = RT_THREAD_INIT" by (simp add: stat_of_def f zero_thread_def rt_consts)
  have "sched_free t k" using sched_free_intro [OF sys_invD(5) [OF inv(1)] h(2)] .
  then have "sched_free t K"
    using sched_view_free [of K "upd_thread t (\<lambda>_. zero_thread) k" t] f by (simp add: sched_view_def)
  moreover have "thread_ok K t" using st h(2) by (simp add: thread_ok_def f rt_consts)
  ultimately have si: "sched_inv K" using sched_free_close by blast
  have ul: "home (timer_lists k) (Obj t) = None" "home (timer_lists k) (Thread_timer t) = None"
    using not_timer_unlinked [OF inv(1)] ty tty by (simp_all add: rt_consts)
  have "sys_inv K"
    by (rule sys_inv_one_thread [OF inv(1) si, where t = t])
      (use f(7) st sys_invD(8) [OF inv(1)] in \<open>simp_all add: f ls_remove_None ul same_rest_def alive_def rt_consts\<close>)
  moreover have "settled K"
    by (rule settled_other [OF set, where t = t]) (use dead f(7) st in \<open>simp_all add: f alive_def on_tlist_def rt_consts same_rest_def\<close>)
  moreover have "fresh (Thread_timer t) K" using tty(2) by (simp add: fresh_def rt_object_get_type_def f zero_object_def)
  ultimately show ?thesis using al f rt_strncpy_length [OF nm] \<open>object_inv K\<close> by (intro exI [of _ K]) simp
qed

lemma rt_thread_create_ok:
  assumes inv: "sys_inv k" "object_inv k" and set: "settled k" and fr: "fresh_thread t k"
    and s: "\<And>s. block = Some s \<Longrightarrow> fresh_sem s k \<and> s \<noteq> t" and ni: "rt_interrupt_nest k = 0"
    and nm: "rt_strncpy name RT_NAME_MAX = Some nm" and room: "start < first_sp start sz" "first_sp start sz \<le> start + sz"
    and nz: "start \<noteq> 0"
  shows "\<exists>k'. rt_thread_create texit name entry par sz p tick (Some t) start block k = Some (Some t, k') \<and> sys_inv k' \<and> object_inv k'
    \<and> settled k' \<and> thread_made t RT_Object_Class_Thread p start block k k'"
proof -
  obtain k1 where k1: "rt_object_allocate RT_Object_Class_Thread name (Some t) k = Some (Some t, k1)" "sys_inv k1" "object_inv k1" "settled k1"
    "fresh (Thread_timer t) k1" "tlists k1 = tlists k" "obj_type (objects k1 (Obj t)) = RT_Object_Class_Thread"
    "length (obj_name (objects k1 (Obj t))) = RT_NAME_MAX" "same_rest k k1" "freed k1 = freed k" "freed_memory k1 = freed_memory k"
    "\<forall>u. u \<noteq> t \<longrightarrow> threads k1 u = threads k u" "timer_lists k1 = timer_lists k"
    and ob: "\<forall>h. h \<noteq> Obj t \<longrightarrow> h \<noteq> Thread_timer t \<longrightarrow> objects k1 h = objects k h"
      "\<forall>h. h \<noteq> Obj t \<longrightarrow> home (object_lists k1) h = home (object_lists k) h"
    using thread_allocate [OF inv set fr ni nm] by blast
  have c: "RT_Object_Class_Thread \<in> set rt_object_container" by (simp add: rt_object_container_def)
  have ty: "rt_object_get_type (Obj t) k1 = RT_Object_Class_Thread" using k1(7) by (simp add: rt_object_get_type_def container_masks [OF c])
  have h: "home (tlists k1) t = None" "rt_interrupt_nest k1 = 0"
    using fr k1(6,9) ni by (simp_all add: fresh_thread_def same_rest_def)
  have fs: "fresh_sem s k1" if "block = Some s" for s
    using s [OF that] ob k1(6) by (simp add: fresh_sem_def fresh_def rt_object_get_type_def on_tlist_def)
  obtain k' where "thread_init texit t name entry par start sz p tick block k1 = Some (RT_EOK, k')" "sys_inv k'" "object_inv k'"
    "settled k'" "thread_made t (obj_type (objects k1 (Obj t))) p start block k1 k'"
    using thread_init_ok [OF k1(2-4) ty k1(8,5) h(1) fs h(2) nm room] by blast
  then show ?thesis using k1 nz
    by (intro exI [of _ k']) (auto simp: rt_thread_create_def thread_made_def same_rest_def)
qed

text \<open>Out of memory: nothing is left behind.\<close>

lemma rt_thread_create_no_stack:
  assumes "sys_inv k" "object_inv k" "settled k" "fresh_thread t k" "rt_interrupt_nest k = 0"
    and "rt_strncpy name RT_NAME_MAX = Some nm"
  shows "\<exists>k'. rt_thread_create texit name entry par sz p tick (Some t) 0 block k = Some (None, k') \<and> object_inv k'
    \<and> fresh_thread t k' \<and> freed k' = Obj t # freed k \<and> freed_memory k' = freed_memory k"
proof -
  obtain k1 where k1: "rt_object_allocate RT_Object_Class_Thread name (Some t) k = Some (Some t, k1)" "object_inv k1"
    "fresh (Thread_timer t) k1" "tlists k1 = tlists k" "obj_type (objects k1 (Obj t)) = RT_Object_Class_Thread"
    "freed k1 = freed k" "freed_memory k1 = freed_memory k"
    using thread_allocate [OF assms] by blast
  let ?k = "unlink_object (Obj t) (upd_object (Obj t) (\<lambda>ob. ob\<lparr>obj_type := 0\<rparr>) k1)"
  have del: "rt_object_delete (Obj t) k1 = Some (?k\<lparr>freed := Obj t # freed k\<rparr>)"
    using k1(5,6) by (simp add: rt_object_delete_def rt_consts unlink_object_def upd_object_def)
  then have "object_inv (?k\<lparr>freed := Obj t # freed k\<rparr>)" using rt_object_delete_inv [OF k1(2)] by blast
  then show ?thesis
    using k1 del assms(4)
    by (simp add: rt_thread_create_def)
      (simp add: fresh_thread_def fresh_def unlink_object_def upd_object_def rt_object_get_type_def)
qed

section \<open>Start\<close>

lemma startup_ok:
  assumes inv: "sys_inv k" and m: "thread_made t cls p start lck k0 k"
  shows "\<exists>k'. rt_thread_startup t k = Some (RT_EOK, k') \<and> sys_inv k' \<and> same_ipc k k' \<and> stat_of k' t = RT_THREAD_READY
    \<and> prio_of k' t = p \<and> on_tlist k' (Ready p) = on_tlist k (Ready p) @ [t]
    \<and> (\<forall>q. q \<noteq> Ready p \<longrightarrow> on_tlist k' q = on_tlist k q) \<and> (\<forall>v. v \<noteq> t \<longrightarrow> threads k' v = threads k v)
    \<and> th_lock (threads k' t) = lck \<and> th_cleanup (threads k' t) = None \<and> th_stack_addr (threads k' t) = start
    \<and> (if rt_scheduler_lock_nest k = 0 then \<exists>c. rt_current_thread k' = Some c \<and> first_ready k' c
        else rt_current_thread k' = rt_current_thread k)"
proof -
  note d = sys_invD [OF inv]
  have h: "home (tlists k) t = None" "home (timer_lists k) (Thread_timer t) = None" and it: "is_thread k t" "thread_timer_ok k t"
    and th: "stat_of k t = RT_THREAD_INIT" "th_init_priority (threads k t) = p" "rt_scheduler_stack_check t k = Some ()"
      "th_lock (threads k t) = lck" "th_cleanup (threads k t) = None" "th_stack_addr (threads k t) = start"
    using m unfolding thread_made_def by blast+
  let ?f = "\<lambda>th. (set_priority (th_init_priority th) th)\<lparr>th_stat := RT_THREAD_SUSPEND\<rparr>"
  let ?k1 = "upd_thread t ?f k"
  have eq: "upd_thread t (\<lambda>th. th\<lparr>th_stat := RT_THREAD_SUSPEND\<rparr>) (upd_thread t (\<lambda>th. set_priority (th_init_priority th) th) k) = ?k1"
    by (simp add: upd_thread_def)
  have st1: "stat_of ?k1 t = RT_THREAD_SUSPEND" by (simp add: stat_of_def)
  have attr: "attr_ok (threads ?k1 t)"
    using attr_ok_cong [of "?f (threads k t)" "set_priority (th_init_priority (threads k t)) (threads k t)"] by simp
  have "sched_free t ?k1" using sched_free_intro [OF d(5) h(1)] by simp
  moreover have "thread_ok ?k1 t" using st1 attr h(1) by (simp add: thread_ok_def)
  ultimately have si: "sched_inv ?k1" by (rule sched_free_close)
  have inv1: "sys_inv ?k1"
  proof (rule sys_inv_one_thread [OF inv si])
    show "home (timer_lists k) (Obj t) = None" using not_timer_unlinked [OF inv] it(1) by (simp add: is_thread_def rt_consts)
    show "is_thread ?k1 t \<and> thread_timer_ok ?k1 t \<and> rt_scheduler_stack_check t ?k1 = Some ()"
      using it th(3) by (simp add: is_thread_def thread_timer_ok_def timer_flag_def rt_scheduler_stack_check_def set_priority_def Let_def)
  qed (simp_all add: ls_remove_None h d(8))
  obtain k2 where k2: "rt_thread_resume t ?k1 = Some (RT_EOK, k2)" "sys_inv k2" "same_ipc ?k1 k2"
    "threads k2 = (threads ?k1)(t := set_stat RT_THREAD_READY (threads ?k1 t))"
    "\<forall>q. on_tlist k2 q = filter (\<lambda>u. u \<noteq> t) (on_tlist ?k1 q) @ (if q = Ready (prio_of ?k1 t) then [t] else [])"
    "rt_current_thread k2 = rt_current_thread ?k1" using sys_resume [OF inv1 st1] by blast
  have st2: "stat_of k2 t = RT_THREAD_READY" "prio_of k2 t = p" "prio_of ?k1 t = p"
    using k2(4) th(2) by (simp_all add: stat_of_def prio_of_def set_stat_masked set_priority_def)
  obtain k3 where k3: "rt_schedule k2 = Some k3" "sys_inv k3" "same_ipc k2 k3" "threads k3 = threads k2" "tlists k3 = tlists k2"
    "if rt_scheduler_lock_nest k2 = 0 then \<exists>t. rt_current_thread k3 = Some t \<and> first_ready k3 t else k3 = k2"
    using sys_schedule [OF k2(2) st2(1)] by blast
  have nt: "t \<notin> set (on_tlist k q)" for q using h(1) sched_invD(1) [OF d(5)] by (simp add: on_tlist_def ls_wf_mem)
  have on: "on_tlist k3 q = on_tlist k q @ (if q = Ready p then [t] else [])" for q
    using k2(5) k3(5) nt [of q] st2(3) by (auto simp: on_tlist_def filter_id_conv)
  have "rt_thread_startup t k = Some (RT_EOK, k3)"
    using it th k2(1) k3(1) k2(6) d(8) by (simp add: rt_thread_startup_def is_thread_def rt_thread_self_def eq)
  moreover have "same_ipc k k3" using same_ipc_trans [OF same_ipc_sched(3) same_ipc_trans [OF k2(3) k3(3)]] .
  moreover have "stat_of k3 t = RT_THREAD_READY" "prio_of k3 t = p" using st2 k3(4) by (simp_all add: stat_of_def prio_of_def)
  moreover have "th_lock (threads k3 t) = lck" "th_cleanup (threads k3 t) = None" "th_stack_addr (threads k3 t) = start"
    using th k2(4) k3(4) by (simp_all add: set_stat_def set_priority_def)
  moreover have "rt_scheduler_lock_nest k2 = rt_scheduler_lock_nest k" using k2(3) by (simp add: same_ipc_def)
  ultimately show ?thesis using k3(2,4,6) k2(4,6) on by (intro exI [of _ k3]) (auto split: if_splits)
qed

section \<open>The end of a thread\<close>

text \<open>
  The contract of a cleanup function: it returns and touches none of the lists, threads, timers and headers of the kernel.
\<close>

definition same_kernel :: "kernel \<Rightarrow> kernel \<Rightarrow> bool" where
  "same_kernel k k' \<longleftrightarrow> sched_view k' = sched_view k \<and> timers k' = timers k \<and> timer_lists k' = timer_lists k \<and> objects k' = objects k
     \<and> object_lists k' = object_lists k \<and> same_rest k k' \<and> freed k' = freed k \<and> freed_memory k' = freed_memory k"

definition cleanup_ok :: "(nat \<Rightarrow> tid \<Rightarrow> kernel \<Rightarrow> kernel option) \<Rightarrow> bool" where
  "cleanup_ok cleanup \<longleftrightarrow> (\<forall>c t k. \<exists>k'. cleanup c t k = Some k' \<and> same_kernel k k')"

lemma cleanup_execute:
  assumes "cleanup_ok cleanup"
  shows "\<exists>k'. thread_cleanup_execute cleanup t k = Some k' \<and> same_kernel k k'"
  using assms by (cases "th_cleanup (threads k t)")
    (auto simp: thread_cleanup_execute_def cleanup_ok_def same_kernel_def)

text \<open>A thread with its timer and its lock, on which nobody but itself may wait.\<close>

definition whole_thread :: "tid \<Rightarrow> kernel \<Rightarrow> bool" where
  "whole_thread t k \<longleftrightarrow> is_thread k t \<and> rt_object_is_systemobject (Thread_timer t) k
     \<and> (\<forall>s. th_lock (threads k t) = Some s \<longrightarrow> s \<noteq> t \<and> obj_type (objects k (Obj s)) = RT_Object_Class_Semaphore
          \<and> set (on_tlist k (Sem_wait s)) \<subseteq> {t})"

text \<open>The thread is out of the system: off its list, its timer stopped and detached, its lock given back.\<close>

definition thread_gone :: "tid \<Rightarrow> kernel \<Rightarrow> kernel \<Rightarrow> bool" where
  "thread_gone t k k' \<longleftrightarrow> stat_of k' t = RT_THREAD_CLOSE \<and> (\<forall>u. u \<noteq> t \<longrightarrow> threads k' u = threads k u)
     \<and> th_lock (threads k' t) = None \<and> th_cleanup (threads k' t) = th_cleanup (threads k t)
     \<and> th_stack_addr (threads k' t) = th_stack_addr (threads k t)
     \<and> tlists k' = ls_remove t (tlists k) \<and> timer_lists k' = ls_remove (Thread_timer t) (timer_lists k) \<and> timers k' = timers k
     \<and> fresh (Thread_timer t) k' \<and> (\<forall>s. th_lock (threads k t) = Some s \<longrightarrow> fresh_sem s k')
     \<and> (\<forall>h. h \<noteq> Thread_timer t \<longrightarrow> (\<forall>s. th_lock (threads k t) = Some s \<longrightarrow> h \<noteq> Obj s) \<longrightarrow>
          objects k' h = objects k h \<and> home (object_lists k') h = home (object_lists k) h)
     \<and> freed k' = (case th_lock (threads k t) of None \<Rightarrow> [] | Some s \<Rightarrow> [Obj s]) @ freed k
     \<and> freed_memory k' = freed_memory k"

lemma object_inv_unlinked:
  assumes "object_inv k" and "\<And>g. g \<noteq> h \<Longrightarrow> objects k' g = objects k g" and "object_lists k' = ls_remove h (object_lists k)"
  shows "object_inv k'"
  using assms by (auto simp: object_inv_def ls_remove_wf rt_object_get_type_def)

lemma timer_detach_eq:
  assumes "rt_object_get_type (Thread_timer t) k = RT_Object_Class_Timer" and "rt_object_is_systemobject (Thread_timer t) k"
  shows "rt_timer_detach (Thread_timer t) k = Some (RT_EOK, k\<lparr>timer_lists := ls_remove (Thread_timer t) (timer_lists k),
    objects := (objects k)(Thread_timer t := (objects k (Thread_timer t))\<lparr>
      obj_flag := obj_flag (objects k (Thread_timer t)) AND NOT RT_TIMER_FLAG_ACTIVATED, obj_type := 0\<rparr>),
    object_lists := ls_remove (Thread_timer t) (object_lists k)\<rparr>)"
  using assms
  by (simp add: rt_timer_detach_def rt_object_detach_def unlink_object_def clear_flag_def timer_remove_def upd_object_def)
    (simp add: rt_consts)

lemma lock_delete_eq:
  assumes "th_lock (threads k t) = Some s" and "obj_type (objects k (Obj s)) = RT_Object_Class_Semaphore"
    and "on_tlist k (Sem_wait s) = []" and "rt_interrupt_nest k = 0"
  shows "thread_lock_delete t k = Some (upd_thread t (\<lambda>th. th\<lparr>th_lock := None\<rparr>) k\<lparr>
    objects := (objects k)(Obj s := (objects k (Obj s))\<lparr>obj_type := 0\<rparr>),
    object_lists := ls_remove (Obj s) (object_lists k), freed := Obj s # freed k\<rparr>)"
proof -
  let ?k = "upd_thread t (\<lambda>th. th\<lparr>th_lock := None\<rparr>) k"
  have "rt_ipc_list_resume_all (Sem_wait s) ?k = Some ?k"
    using assms(3) by (subst rt_ipc_list_resume_all.simps) simp
  moreover have "rt_object_get_type (Obj s) ?k = RT_Object_Class_Semaphore" "\<not> rt_object_is_systemobject (Obj s) ?k"
    using assms(2) by (simp_all add: rt_object_get_type_def rt_object_is_systemobject_def rt_consts)
  moreover from this(2) have "rt_object_delete (Obj s) ?k = Some (upd_thread t (\<lambda>th. th\<lparr>th_lock := None\<rparr>) k\<lparr>
    objects := (objects k)(Obj s := (objects k (Obj s))\<lparr>obj_type := 0\<rparr>),
    object_lists := ls_remove (Obj s) (object_lists k), freed := Obj s # freed k\<rparr>)"
    by (simp add: rt_object_delete_def rt_object_is_systemobject_def unlink_object_def upd_object_def)
  ultimately show ?thesis
    using assms(1,4)
    by (simp add: thread_lock_delete_def rt_sem_delete_def RT_DEBUG_NOT_IN_INTERRUPT_def rt_interrupt_get_nest_def)
qed

lemma lock_delete_ok:
  assumes "\<And>s. th_lock (threads k t) = Some s \<Longrightarrow>
      obj_type (objects k (Obj s)) = RT_Object_Class_Semaphore \<and> on_tlist k (Sem_wait s) = []"
    and "rt_interrupt_nest k = 0"
  shows "\<exists>k'. thread_lock_delete t k = Some k' \<and> sched_view k' = sched_view (upd_thread t (\<lambda>th. th\<lparr>th_lock := None\<rparr>) k)
    \<and> timers k' = timers k \<and> timer_lists k' = timer_lists k \<and> same_rest k k' \<and> freed_memory k' = freed_memory k
    \<and> freed k' = (case th_lock (threads k t) of None \<Rightarrow> [] | Some s \<Rightarrow> [Obj s]) @ freed k
    \<and> (\<forall>s. th_lock (threads k t) = Some s \<longrightarrow> fresh_sem s k')
    \<and> (\<forall>h. (\<forall>s. th_lock (threads k t) = Some s \<longrightarrow> h \<noteq> Obj s) \<longrightarrow>
          objects k' h = objects k h \<and> home (object_lists k') h = home (object_lists k) h)
    \<and> (object_inv k \<longrightarrow> object_inv k')"
proof (cases "th_lock (threads k t)")
  case None
  then show ?thesis by (simp add: thread_lock_delete_def)
next
  case (Some s)
  note f = assms(1) [OF Some]
  let ?k = "upd_thread t (\<lambda>th. th\<lparr>th_lock := None\<rparr>) k\<lparr>
    objects := (objects k)(Obj s := (objects k (Obj s))\<lparr>obj_type := 0\<rparr>),
    object_lists := ls_remove (Obj s) (object_lists k), freed := Obj s # freed k\<rparr>"
  have "object_inv k \<longrightarrow> object_inv ?k" using object_inv_unlinked [of k "Obj s" ?k] by simp
  then show ?thesis
    unfolding lock_delete_eq [OF Some f [THEN conjunct1] f [THEN conjunct2] assms(2)]
    using f by (simp add: Some sched_view_def same_rest_def fresh_sem_def fresh_def rt_object_get_type_def on_tlist_def)
qed

lemma remove_any_free:
  assumes inv: "sched_inv k" and st: "stat_of k t = RT_THREAD_INIT \<or> stat_of k t = RT_THREAD_READY \<or> stat_of k t = RT_THREAD_SUSPEND"
  shows "sched_free t (if stat_of k t \<noteq> RT_THREAD_INIT then rt_schedule_remove_thread t k else k)"
    and "tlists (if stat_of k t \<noteq> RT_THREAD_INIT then rt_schedule_remove_thread t k else k) = ls_remove t (tlists k)"
proof -
  have h: "stat_of k t = RT_THREAD_INIT \<Longrightarrow> home (tlists k) t = None"
    using sched_invD(3) [OF inv, of t] by (simp add: thread_ok_def rt_consts)
  show "sched_free t (if stat_of k t \<noteq> RT_THREAD_INIT then rt_schedule_remove_thread t k else k)"
    using sched_free_intro [OF inv h] remove_thread_free [OF inv, of t] attr_ok_of_state [OF inv, of t] st by auto
  show "tlists (if stat_of k t \<noteq> RT_THREAD_INIT then rt_schedule_remove_thread t k else k) = ls_remove t (tlists k)"
    using h by (simp add: remove_thread_frame ls_remove_None)
qed

lemma close_ok:
  assumes inv: "sys_inv k" and w: "whole_thread t k" and ni: "rt_interrupt_nest k = 0" and cl: "cleanup_ok cleanup"
    and st: "stat_of k t = RT_THREAD_INIT \<or> stat_of k t = RT_THREAD_READY \<or> stat_of k t = RT_THREAD_SUSPEND"
  shows "\<exists>k'. thread_close cleanup t k = Some k' \<and> sched_free t k' \<and> thread_gone t k k' \<and> same_rest k k'
    \<and> (object_inv k \<longrightarrow> object_inv k')"
proof -
  note si = sys_invD(5) [OF inv]
  let ?k1 = "if stat_of k t \<noteq> RT_THREAD_INIT then rt_schedule_remove_thread t k else k"
  note k1 = remove_any_free [OF si st]
  have fr1: "threads ?k1 = threads k" "timers ?k1 = timers k" "timer_lists ?k1 = timer_lists k" "objects ?k1 = objects k"
    "object_lists ?k1 = object_lists k" "freed ?k1 = freed k" "freed_memory ?k1 = freed_memory k" "same_rest k ?k1"
    by (simp_all add: rt_schedule_remove_thread_def Let_def tlist_remove_def same_rest_def)
  obtain k2 where k2: "thread_cleanup_execute cleanup t ?k1 = Some k2" "same_kernel ?k1 k2" using cleanup_execute [OF cl] by blast
  note k2' = k2(2) [unfolded same_kernel_def]
  have th2: "threads k2 = threads k" "tlists k2 = ls_remove t (tlists k)" using k2' fr1 k1(2) by (simp_all add: sched_view_def)
  have ty: "rt_object_get_type (Thread_timer t) k2 = RT_Object_Class_Timer" "rt_object_is_systemobject (Thread_timer t) k2"
    using w k2' fr1 by (simp_all add: whole_thread_def is_thread_def rt_object_get_type_def rt_object_is_systemobject_def)
  obtain k3 where k3: "rt_timer_detach (Thread_timer t) k2 = Some (RT_EOK, k3)" "sched_view k3 = sched_view k2" "timers k3 = timers k"
    "timer_lists k3 = ls_remove (Thread_timer t) (timer_lists k)" "fresh (Thread_timer t) k3" "same_rest k k3" "freed k3 = freed k"
    "freed_memory k3 = freed_memory k" "object_inv k2 \<longrightarrow> object_inv k3"
    and ob3: "\<And>h. h \<noteq> Thread_timer t \<Longrightarrow> objects k3 h = objects k h \<and> home (object_lists k3) h = home (object_lists k) h"
    using timer_detach_eq [OF ty] k2' fr1 object_inv_unlinked [of k2 "Thread_timer t"]
    by (simp add: sched_view_def same_rest_def fresh_def rt_object_get_type_def)
  have lk: "obj_type (objects k3 (Obj s)) = RT_Object_Class_Semaphore \<and> on_tlist k3 (Sem_wait s) = []" if "th_lock (threads k3 t) = Some s" for s
  proof -
    have "th_lock (threads k t) = Some s" using that k3(2) th2 by (simp add: sched_view_def)
    then have "obj_type (objects k (Obj s)) = RT_Object_Class_Semaphore" "set (on_tlist k (Sem_wait s)) \<subseteq> {t}"
      using w by (simp_all add: whole_thread_def)
    moreover have "on_tlist k3 (Sem_wait s) = filter (\<lambda>u. u \<noteq> t) (on_tlist k (Sem_wait s))"
      using k3(2) th2 sched_invD(1) [OF si] by (simp add: sched_view_def on_tlist_def ls_remove_on_list)
    ultimately show ?thesis using ob3 [of "Obj s"] by (auto simp: filter_empty_conv)
  qed
  have "rt_interrupt_nest k3 = 0" using k3(6) ni by (simp add: same_rest_def)
  then obtain k4 where k4: "thread_lock_delete t k3 = Some k4" "sched_view k4 = sched_view (upd_thread t (\<lambda>th. th\<lparr>th_lock := None\<rparr>) k3)"
    "timers k4 = timers k3" "timer_lists k4 = timer_lists k3" "same_rest k3 k4" "freed_memory k4 = freed_memory k3"
    "freed k4 = (case th_lock (threads k3 t) of None \<Rightarrow> [] | Some s \<Rightarrow> [Obj s]) @ freed k3"
    "\<forall>s. th_lock (threads k3 t) = Some s \<longrightarrow> fresh_sem s k4"
    "\<forall>h. (\<forall>s. th_lock (threads k3 t) = Some s \<longrightarrow> h \<noteq> Obj s) \<longrightarrow>
          objects k4 h = objects k3 h \<and> home (object_lists k4) h = home (object_lists k3) h"
    "object_inv k3 \<longrightarrow> object_inv k4"
    using lock_delete_ok [OF lk] by blast
  let ?k5 = "upd_thread t (\<lambda>th. th\<lparr>th_stat := RT_THREAD_CLOSE\<rparr>) k4"
  have th3: "threads k3 = threads k" "tlists k3 = ls_remove t (tlists k)" using k3(2) th2 by (simp_all add: sched_view_def)
  have th4: "threads k4 = (threads k)(t := (threads k t)\<lparr>th_lock := None\<rparr>)" "tlists k4 = ls_remove t (tlists k)"
    using k4(2) th3 by (simp_all add: sched_view_def)
  have "thread_close cleanup t k = Some ?k5" using k2(1) k3(1) k4(1) by (simp add: thread_close_def Let_def)
  moreover have "sched_free t k2" using k1(1) sched_view_free [of k2 ?k1 t] k2' by simp
  then have "sched_free t k3" using sched_view_free [OF k3(2), of t] by simp
  then have "sched_free t ?k5" using sched_view_free [OF k4(2), of t] by simp
  moreover have "same_rest k ?k5" using same_rest_trans [OF k3(6) k4(5)] by simp
  moreover have "thread_gone t k ?k5"
  proof -
    have "fresh (Thread_timer t) ?k5" using k3(5) k4(9) by (simp add: fresh_def rt_object_get_type_def)
    moreover have "fresh_sem s ?k5" if "th_lock (threads k t) = Some s" for s
      using k4(8) that th3 by (simp add: fresh_sem_def fresh_def)
    moreover have "objects ?k5 h = objects k h \<and> home (object_lists ?k5) h = home (object_lists k) h"
      if "h \<noteq> Thread_timer t" "\<forall>s. th_lock (threads k t) = Some s \<longrightarrow> h \<noteq> Obj s" for h
      using ob3 [OF that(1)] k4(9) that(2) th3 by simp
    ultimately show ?thesis using k3 k4(3,4,6,7) th3 th4 unfolding thread_gone_def by (simp add: stat_of_def)
  qed
  moreover have "object_inv k \<longrightarrow> object_inv ?k5"
    using k4(10) k3(9) object_inv_cong [of k2 k] k2' fr1 by simp
  ultimately show ?thesis by blast
qed

text \<open>Whatever becomes of the closed thread afterwards, the system around it is intact.\<close>

lemma gone_sys_inv:
  assumes inv: "sys_inv k" and w: "whole_thread t k" and g: "thread_gone t k k5" "same_rest k k5"
    and si: "sched_inv k'" and k': "threads k' = threads k5" "timers k' = timers k5" "timer_lists k' = timer_lists k5"
      "\<And>h. h \<noteq> Obj t \<Longrightarrow> objects k' h = objects k5 h" "same_rest k5 k'"
  shows "sys_inv k'"
proof -
  note g' = g(1) [unfolded thread_gone_def]
  define K where "K = (case th_lock (threads k t) of None \<Rightarrow> k | Some s \<Rightarrow> k\<lparr>objects := (objects k)(Obj s := objects k' (Obj s))\<rparr>)"
  have K: "threads K = threads k" "timers K = timers k" "timer_lists K = timer_lists k" "rt_tick K = rt_tick k"
    by (simp_all add: K_def split: option.split)
  have invK: "sys_inv K"
  proof (cases "th_lock (threads k t)")
    case (Some s)
    then have "obj_type (objects k (Obj s)) = RT_Object_Class_Semaphore" using w by (simp add: whole_thread_def)
    then show ?thesis
      by (intro sys_inv_objects [OF inv, where g = "Obj s"]) (simp_all add: K_def Some sched_view_def rt_object_get_type_def rt_consts)
  qed (use inv in \<open>simp add: K_def\<close>)
  show ?thesis
  proof (rule sys_inv_one_thread [OF invK si, where t = t])
    show "objects k' h = objects K h" if "h \<noteq> Obj t" "h \<noteq> Thread_timer t" for h
    proof (cases "\<exists>s. th_lock (threads k t) = Some s \<and> h = Obj s")
      case True
      then show ?thesis by (auto simp: K_def)
    next
      case False
      then have "objects k5 h = objects k h" using g' that by simp
      then show ?thesis using k'(4) [OF that(1)] False by (auto simp: K_def split: option.split)
    qed
    show "home (timer_lists K) (Obj t) = None"
      using not_timer_unlinked [OF inv] w by (simp add: K whole_thread_def is_thread_def rt_consts)
    show "is_thread k' t \<and> thread_timer_ok k' t \<and> rt_scheduler_stack_check t k' = Some ()" if "alive k' t"
      using that g' k'(1) by (simp add: alive_def stat_of_def rt_consts)
  qed (use g' k' g(2) sys_invD(8) [OF inv] in \<open>simp_all add: K same_rest_def\<close>)
qed

lemma defunct_push:
  assumes f: "sched_free t k" and st: "stat_of k t = RT_THREAD_CLOSE"
  shows "\<exists>k'. tlist_push Defunct t k = Some k' \<and> sched_inv k' \<and> k' = k\<lparr>tlists := tlists k'\<rparr>
    \<and> (\<forall>q. on_tlist k' q = (if q = Defunct then [t] else []) @ on_tlist k q) \<and> home (tlists k') t = Some Defunct"
proof -
  have h: "home (tlists k) t = None" using f by (simp add: sched_free_def)
  let ?l = "(tlists k)\<lparr>on_list := (on_list (tlists k))(Defunct := t # on_list (tlists k) Defunct), home := (home (tlists k))(t := Some Defunct)\<rparr>"
  let ?k = "k\<lparr>tlists := ?l\<rparr>"
  have ls: "ls_push Defunct t (tlists k) = Some ?l" using h by (simp add: ls_push_Some)
  have "ls_wf ?l" using f ls_push_wf [OF _ ls] by (simp add: sched_free_def)
  moreover have "bitmap_ok ?k" using f by (simp add: sched_free_def bitmap_ok_def on_tlist_def)
  moreover have "thread_ok ?k u" for u
  proof (cases "u = t")
    case True
    then show ?thesis using st by (simp add: thread_ok_def stat_of_def rt_consts)
  next
    case False
    then have "thread_ok k u" using f by (simp add: sched_free_def)
    then show ?thesis using False thread_ok_cong [of ?k u k] by simp
  qed
  ultimately have "sched_inv ?k" by (simp add: sched_inv_def)
  then show ?thesis using ls by (simp add: tlist_push_def on_tlist_def)
qed

text \<open>What a user of the kernel sees of a thread that was closed.\<close>

definition thread_closed :: "tid \<Rightarrow> kernel \<Rightarrow> kernel \<Rightarrow> bool" where
  "thread_closed t k k' \<longleftrightarrow> stat_of k' t = RT_THREAD_CLOSE \<and> (\<forall>u. u \<noteq> t \<longrightarrow> threads k' u = threads k u)
     \<and> (\<forall>q. q \<noteq> Defunct \<longrightarrow> on_tlist k' q = filter (\<lambda>u. u \<noteq> t) (on_tlist k q))
     \<and> (\<forall>q. on_timers k' q = filter (\<lambda>h. h \<noteq> Thread_timer t) (on_timers k q)) \<and> fresh (Thread_timer t) k'
     \<and> (\<forall>s. th_lock (threads k t) = Some s \<longrightarrow> fresh_sem s k')
     \<and> freed k' = (case th_lock (threads k t) of None \<Rightarrow> [] | Some s \<Rightarrow> [Obj s]) @ freed k
     \<and> freed_memory k' = freed_memory k \<and> th_stack_addr (threads k' t) = th_stack_addr (threads k t)
     \<and> th_cleanup (threads k' t) = th_cleanup (threads k t)"

lemma thread_closed_cong:
  assumes "threads k2 = threads k1" "tlists k2 = tlists k1" "timer_lists k2 = timer_lists k1" "objects k2 = objects k1"
    "object_lists k2 = object_lists k1" "freed k2 = freed k1" "freed_memory k2 = freed_memory k1"
  shows "thread_closed t k k2 = thread_closed t k k1"
  unfolding thread_closed_def stat_of_def on_tlist_def on_timers_def fresh_def fresh_sem_def rt_object_get_type_def assms ..

lemma gone_closed:
  assumes inv: "sys_inv k" and g: "thread_gone t k k5"
    and k': "threads k' = threads k5" "timer_lists k' = timer_lists k5" "freed k' = freed k5" "freed_memory k' = freed_memory k5"
      "\<And>h. h \<noteq> Obj t \<Longrightarrow> objects k' h = objects k5 h \<and> home (object_lists k') h = home (object_lists k5) h"
      "\<And>q. q \<noteq> Defunct \<Longrightarrow> on_tlist k' q = on_tlist k5 q" and lk: "th_lock (threads k t) \<noteq> Some t"
  shows "thread_closed t k k'"
proof -
  note g' = g [unfolded thread_gone_def]
  have wf: "ls_wf (tlists k)" "ls_wf (timer_lists k)"
    using sched_invD(1) [OF sys_invD(5) [OF inv]] sys_invD(6) [OF inv] by (simp_all add: timer_inv_def)
  have "on_tlist k' q = filter (\<lambda>u. u \<noteq> t) (on_tlist k q)" if "q \<noteq> Defunct" for q
    using g' k'(6) [OF that] by (simp add: on_tlist_def ls_remove_on_list [OF wf(1)])
  moreover have "on_timers k' q = filter (\<lambda>h. h \<noteq> Thread_timer t) (on_timers k q)" for q
    using g' k'(2) by (simp add: on_timers_def ls_remove_on_list [OF wf(2)])
  moreover have "fresh_sem s k'" if "th_lock (threads k t) = Some s" for s
  proof -
    have "s \<noteq> t" using that lk by auto
    moreover have "fresh_sem s k5" using g' that by simp
    ultimately show ?thesis using k'(5) [of "Obj s"] k'(6) [of "Sem_wait s"] by (simp add: fresh_sem_def fresh_def rt_object_get_type_def)
  qed
  moreover have "fresh (Thread_timer t) k'" using g' k'(5) [of "Thread_timer t"] by (simp add: fresh_def rt_object_get_type_def)
  ultimately show ?thesis using g' k' by (simp add: thread_closed_def stat_of_def)
qed

lemma defunct_closed:
  assumes "sched_inv k" and "t \<in> set (on_tlist k Defunct)"
  shows "stat_of k t = RT_THREAD_CLOSE" "home (tlists k) t = Some Defunct"
proof -
  show "home (tlists k) t = Some Defunct" using assms(2) sched_invD(1) [OF assms(1)] by (simp add: on_tlist_def ls_wf_mem)
  then show "stat_of k t = RT_THREAD_CLOSE"
    using sched_invD(3) [OF assms(1), of t] by (auto simp: thread_ok_def Let_def split: if_splits)
qed

text \<open>Handing the closed thread over, to the idle thread or back to its owner.\<close>

lemma gone_defunct:
  assumes inv: "sys_inv k" and w: "whole_thread t k" and g: "thread_gone t k k5" "same_rest k k5" "sched_free t k5"
    and st: "stat_of k t \<noteq> RT_THREAD_CLOSE"
  shows "\<exists>k'. rt_thread_defunct_enqueue t k5 = Some k' \<and> sys_inv k' \<and> (object_inv k5 \<longrightarrow> object_inv k') \<and> thread_closed t k k'
    \<and> same_rest k k' \<and> on_tlist k' Defunct = t # on_tlist k Defunct \<and> objects k' (Obj t) = objects k (Obj t)"
proof -
  note g' = g(1) [unfolded thread_gone_def]
  have "stat_of k5 t = RT_THREAD_CLOSE" using g' by simp
  then obtain k' where p: "tlist_push Defunct t k5 = Some k'" "sched_inv k'" and eq: "k' = k5\<lparr>tlists := tlists k'\<rparr>"
    and on: "\<forall>q. on_tlist k' q = (if q = Defunct then [t] else []) @ on_tlist k5 q"
    using defunct_push [OF g(3)] by blast
  have f: "threads k' = threads k5" "timers k' = timers k5" "timer_lists k' = timer_lists k5" "objects k' = objects k5"
    "object_lists k' = object_lists k5" "same_rest k5 k'" "freed k' = freed k5" "freed_memory k' = freed_memory k5"
    by (subst eq, simp add: same_rest_def)+
  have lk: "th_lock (threads k t) \<noteq> Some t" using w by (auto simp: whole_thread_def)
  have "sys_inv k'" using gone_sys_inv [OF inv w g(1,2) p(2) f(1-3) _ f(6)] f(4) by simp
  moreover have "thread_closed t k k'" using inv g(1) f(1,3,7,8) _ _ lk by (rule gone_closed) (simp_all add: f on)
  moreover have "same_rest k k'" using same_rest_trans [OF g(2) f(6)] .
  moreover have "object_inv k5 \<longrightarrow> object_inv k'" using object_inv_cong [of k' k5] f by simp
  moreover have "t \<notin> set (on_tlist k Defunct)" using defunct_closed [OF sys_invD(5) [OF inv]] st by blast
  then have "on_tlist k' Defunct = t # on_tlist k Defunct"
    using on g' sched_invD(1) [OF sys_invD(5) [OF inv]] by (auto simp: on_tlist_def ls_remove_on_list filter_id_conv)
  moreover have "objects k' (Obj t) = objects k (Obj t)" using g' f(4) lk by (auto simp: f(4))
  ultimately show ?thesis using p(1) by (simp add: rt_thread_defunct_enqueue_def)
qed

lemma gone_detach:
  assumes inv: "sys_inv k" and w: "whole_thread t k" and g: "thread_gone t k k5" "same_rest k k5" "sched_free t k5"
  shows "sys_inv (rt_object_detach (Obj t) k5) \<and> (object_inv k5 \<longrightarrow> object_inv (rt_object_detach (Obj t) k5))
    \<and> thread_closed t k (rt_object_detach (Obj t) k5) \<and> same_rest k (rt_object_detach (Obj t) k5)
    \<and> fresh_thread t (rt_object_detach (Obj t) k5)"
proof -
  note g' = g(1) [unfolded thread_gone_def]
  define k' where "k' = rt_object_detach (Obj t) k5"
  have f: "sched_view k' = sched_view k5" "threads k' = threads k5" "timers k' = timers k5" "timer_lists k' = timer_lists k5"
    "same_rest k5 k'" "freed k' = freed k5" "freed_memory k' = freed_memory k5" "on_tlist k' = on_tlist k5" "tlists k' = tlists k5"
    "object_lists k' = ls_remove (Obj t) (object_lists k5)"
    "objects k' = (objects k5)(Obj t := (objects k5 (Obj t))\<lparr>obj_type := 0\<rparr>)"
    by (simp_all add: k'_def rt_object_detach_def unlink_object_def upd_object_def sched_view_def same_rest_def on_tlist_def fun_eq_iff)
  have lk: "th_lock (threads k t) \<noteq> Some t" using w by (auto simp: whole_thread_def)
  have h: "home (tlists k') t = None" using g(3) f(9) by (simp add: sched_free_def)
  have "thread_ok k5 t" using g' g(3) by (simp add: thread_ok_def sched_free_def rt_consts)
  then have "sched_inv k5" using sched_free_close [OF g(3)] by blast
  then have si: "sched_inv k'" using sched_view_inv [OF f(1)] by simp
  have "sys_inv k'" using gone_sys_inv [OF inv w g(1,2) si f(2-4) _ f(5)] f(11) by simp
  moreover have cl: "thread_closed t k k'" using inv g(1) f(2,4,6,7) _ _ lk by (rule gone_closed) (simp_all add: f)
  moreover have "same_rest k k'" using same_rest_trans [OF g(2) f(5)] .
  moreover have "object_inv k5 \<longrightarrow> object_inv k'" using rt_object_detach_inv by (simp add: k'_def)
  moreover have "fresh_thread t k'"
    using cl h by (simp add: fresh_thread_def thread_closed_def) (simp add: fresh_def rt_object_get_type_def f)
  ultimately show ?thesis unfolding k'_def by blast
qed

subsection \<open>A thread that ends itself\<close>

lemma enter_critical_rest:
  "sched_view (rt_enter_critical k) = sched_view k" "timers (rt_enter_critical k) = timers k"
  "timer_lists (rt_enter_critical k) = timer_lists k" "objects (rt_enter_critical k) = objects k"
  "object_lists (rt_enter_critical k) = object_lists k" "freed (rt_enter_critical k) = freed k"
  "freed_memory (rt_enter_critical k) = freed_memory k" "rt_interrupt_nest (rt_enter_critical k) = rt_interrupt_nest k"
  "rt_current_thread (rt_enter_critical k) = rt_current_thread k" "rt_tick (rt_enter_critical k) = rt_tick k"
  by (simp_all add: rt_enter_critical_def sched_view_def)

text \<open>The steps of \<^verbatim>\<open>rt_thread_exit\<close> up to the point where the thread is handed over.\<close>

lemma exit_steps:
  assumes inv: "sys_inv k" and w: "whole_thread t k" and ni: "rt_interrupt_nest k = 0" and cl: "cleanup_ok cleanup"
    and st: "stat_of k t = RT_THREAD_READY"
  shows "\<exists>k1 k3 k5. thread_lock_delete t k = Some k1 \<and> thread_cleanup_execute cleanup t (rt_enter_critical k1) = Some k3
    \<and> rt_timer_detach (Thread_timer t) (upd_thread t (\<lambda>th. th\<lparr>th_stat := RT_THREAD_CLOSE\<rparr>) (rt_schedule_remove_thread t k3)) = Some (RT_EOK, k5)
    \<and> sched_free t k5 \<and> thread_gone t (rt_enter_critical k) k5 \<and> same_rest (rt_enter_critical k) k5 \<and> (object_inv k \<longrightarrow> object_inv k5)"
proof -
  note si = sys_invD(5) [OF inv]
  have home: "home (tlists k) t = Some (Ready (prio_of k t))" using sched_invD(3) [OF si, of t] st by (simp add: thread_ok_def)
  have lk: "obj_type (objects k (Obj s)) = RT_Object_Class_Semaphore \<and> on_tlist k (Sem_wait s) = []" if "th_lock (threads k t) = Some s" for s
  proof -
    have "t \<notin> set (on_tlist k (Sem_wait s))" using home sched_invD(1) [OF si] by (simp add: on_tlist_def ls_wf_mem)
    moreover have "set (on_tlist k (Sem_wait s)) \<subseteq> {t}" "obj_type (objects k (Obj s)) = RT_Object_Class_Semaphore"
      using w that by (simp_all add: whole_thread_def)
    ultimately have "set (on_tlist k (Sem_wait s)) = {}" using subset_singletonD by (metis insertI1)
    with \<open>obj_type (objects k (Obj s)) = RT_Object_Class_Semaphore\<close> show ?thesis by simp
  qed
  obtain k1 where k1: "thread_lock_delete t k = Some k1" "sched_view k1 = sched_view (upd_thread t (\<lambda>th. th\<lparr>th_lock := None\<rparr>) k)"
    "timers k1 = timers k" "timer_lists k1 = timer_lists k" "same_rest k k1" "freed_memory k1 = freed_memory k"
    "freed k1 = (case th_lock (threads k t) of None \<Rightarrow> [] | Some s \<Rightarrow> [Obj s]) @ freed k"
    "\<forall>s. th_lock (threads k t) = Some s \<longrightarrow> fresh_sem s k1"
    and ob1: "\<forall>h. (\<forall>s. th_lock (threads k t) = Some s \<longrightarrow> h \<noteq> Obj s) \<longrightarrow>
          objects k1 h = objects k h \<and> home (object_lists k1) h = home (object_lists k) h" "object_inv k \<longrightarrow> object_inv k1"
    using lock_delete_ok [OF lk ni] by blast
  obtain k3 where k3: "thread_cleanup_execute cleanup t (rt_enter_critical k1) = Some k3" "same_kernel (rt_enter_critical k1) k3"
    using cleanup_execute [OF cl] by blast
  note k3' = k3(2) [unfolded same_kernel_def enter_critical_rest]
  have th1: "threads k1 = (threads k)(t := (threads k t)\<lparr>th_lock := None\<rparr>)" "tlists k1 = tlists k"
    using k1(2) by (simp_all add: sched_view_def)
  have th3: "threads k3 = threads k1" "tlists k3 = tlists k" using k3' th1 by (simp_all add: sched_view_def)
  have "sched_inv k1" using sched_view_inv [OF k1(2)] sched_inv_upd [of "\<lambda>th. th\<lparr>th_lock := None\<rparr>" k t] si by simp
  then have si3: "sched_inv k3" using sched_view_inv [of k3 k1] k3' by simp
  have "stat_of k3 t = RT_THREAD_READY" using st th1 th3 by (simp add: stat_of_def)
  then have fr: "sched_free t (rt_schedule_remove_thread t k3)" using remove_thread_free [OF si3] attr_ok_of_state [OF si3] by blast
  let ?k4 = "upd_thread t (\<lambda>th. th\<lparr>th_stat := RT_THREAD_CLOSE\<rparr>) (rt_schedule_remove_thread t k3)"
  have f4: "timers ?k4 = timers k" "timer_lists ?k4 = timer_lists k" "objects ?k4 = objects k1" "object_lists ?k4 = object_lists k1"
    "freed ?k4 = freed k1" "freed_memory ?k4 = freed_memory k1" "same_rest (rt_enter_critical k) ?k4"
    "threads ?k4 = (threads k)(t := (threads k t)\<lparr>th_lock := None, th_stat := RT_THREAD_CLOSE\<rparr>)" "tlists ?k4 = ls_remove t (tlists k)"
    using k3' k1(3-5) th3 th1
    by (simp_all add: rt_schedule_remove_thread_def Let_def tlist_remove_def same_rest_def enter_critical_rest rt_enter_critical_def)
  have tt: "objects k1 (Thread_timer t) = objects k (Thread_timer t)" using ob1(1) by simp
  have ty: "rt_object_get_type (Thread_timer t) ?k4 = RT_Object_Class_Timer" "rt_object_is_systemobject (Thread_timer t) ?k4"
    using w f4(3) tt by (simp_all add: whole_thread_def is_thread_def rt_object_get_type_def rt_object_is_systemobject_def)
  let ?k5 = "?k4\<lparr>timer_lists := ls_remove (Thread_timer t) (timer_lists ?k4),
    objects := (objects ?k4)(Thread_timer t := (objects ?k4 (Thread_timer t))\<lparr>
      obj_flag := obj_flag (objects ?k4 (Thread_timer t)) AND NOT RT_TIMER_FLAG_ACTIVATED, obj_type := 0\<rparr>),
    object_lists := ls_remove (Thread_timer t) (object_lists ?k4)\<rparr>"
  have "sched_free t ?k5" using sched_view_free [of ?k5 ?k4 t] fr by (simp add: sched_view_def)
  moreover have "object_inv k \<longrightarrow> object_inv ?k5"
    using object_inv_unlinked [of k1 "Thread_timer t" ?k5] ob1(2) f4(3,4) by simp
  moreover have "same_rest (rt_enter_critical k) ?k5" using f4(7) by (simp add: same_rest_def)
  moreover have "thread_gone t (rt_enter_critical k) ?k5"
    using f4 k1(6-8) ob1(1) th1
    unfolding thread_gone_def
    by (simp add: enter_critical_rest stat_of_def fresh_def fresh_sem_def rt_object_get_type_def on_tlist_def
        ls_remove_on_list [OF sched_invD(1) [OF si]])
  ultimately show ?thesis using k1(1) k3(1) timer_detach_eq [OF ty] by blast
qed

lemma enter_critical_same:
  "on_tlist (rt_enter_critical k) = on_tlist k" "objects (rt_enter_critical k) = objects k" "threads (rt_enter_critical k) = threads k"
  "rt_object_is_systemobject h (rt_enter_critical k) = rt_object_is_systemobject h k"
  by (simp_all add: rt_object_is_systemobject_def on_tlist_def fun_eq_iff)

lemma closed_enter: "thread_closed t (rt_enter_critical k) k' = thread_closed t k k'"
  by (simp add: thread_closed_def enter_critical_rest on_timers_def on_tlist_def)

lemma whole_enter: "whole_thread t (rt_enter_critical k) = whole_thread t k"
  by (simp add: whole_thread_def is_thread_def enter_critical_rest rt_object_is_systemobject_def rt_object_get_type_def on_tlist_def)

lemma retire_ok:
  assumes inv: "sys_inv k" and w: "whole_thread t k" and g: "thread_gone t k k5" "same_rest k k5" "sched_free t k5"
    and st: "stat_of k t \<noteq> RT_THREAD_CLOSE"
  shows "\<exists>k'. thread_retire t k5 = Some k' \<and> sys_inv k' \<and> (object_inv k5 \<longrightarrow> object_inv k') \<and> thread_closed t k k' \<and> same_rest k k'
    \<and> (if rt_object_is_systemobject (Obj t) k \<and> th_cleanup (threads k t) = None then fresh_thread t k'
        else on_tlist k' Defunct = t # on_tlist k Defunct \<and> objects k' (Obj t) = objects k (Obj t))"
proof -
  note g' = g(1) [unfolded thread_gone_def]
  have "objects k5 (Obj t) = objects k (Obj t)" using g' w by (auto simp: whole_thread_def)
  then have eq: "rt_object_is_systemobject (Obj t) k5 \<and> th_cleanup (threads k5 t) = None
      \<longleftrightarrow> rt_object_is_systemobject (Obj t) k \<and> th_cleanup (threads k t) = None"
    using g' by (simp add: rt_object_is_systemobject_def)
  show ?thesis
  proof (cases "rt_object_is_systemobject (Obj t) k \<and> th_cleanup (threads k t) = None")
    case True
    then show ?thesis using gone_detach [OF inv w g] eq by (simp add: thread_retire_def)
  next
    case False
    then have "thread_retire t k5 = rt_thread_defunct_enqueue t k5" unfolding thread_retire_def eq by (rule if_not_P)
    with gone_defunct [OF inv w g st] False show ?thesis by auto
  qed
qed

lemma exit_ok:
  assumes inv: "sys_inv k" and w: "whole_thread t k" and ni: "rt_interrupt_nest k = 0" and cl: "cleanup_ok cleanup"
    and cur: "rt_current_thread k = Some t" and st: "stat_of k t = RT_THREAD_READY" and n: "rt_scheduler_lock_nest k = 0"
    and u: "stat_of k u = RT_THREAD_READY" "u \<noteq> t"
  shows "\<exists>k' c. rt_thread_exit cleanup k = Some k' \<and> sys_inv k' \<and> (object_inv k \<longrightarrow> object_inv k') \<and> thread_closed t k k'
    \<and> rt_current_thread k' = Some c \<and> c \<noteq> t \<and> first_ready k' c \<and> rt_scheduler_lock_nest k' = 0
    \<and> (if rt_object_is_systemobject (Obj t) k \<and> th_cleanup (threads k t) = None then fresh_thread t k'
        else on_tlist k' Defunct = t # on_tlist k Defunct \<and> objects k' (Obj t) = objects k (Obj t))"
proof -
  let ?ke = "rt_enter_critical k"
  obtain k1 k3 k5 where k5: "thread_lock_delete t k = Some k1" "thread_cleanup_execute cleanup t (rt_enter_critical k1) = Some k3"
    "rt_timer_detach (Thread_timer t) (upd_thread t (\<lambda>th. th\<lparr>th_stat := RT_THREAD_CLOSE\<rparr>) (rt_schedule_remove_thread t k3)) = Some (RT_EOK, k5)"
    "sched_free t k5" "thread_gone t ?ke k5" "same_rest ?ke k5" "object_inv k \<longrightarrow> object_inv k5"
    using exit_steps [OF inv w ni cl st] by blast
  have inve: "sys_inv ?ke" using inv by (rule sys_inv_enter_critical)
  have ste: "stat_of ?ke t \<noteq> RT_THREAD_CLOSE" using st by (simp add: stat_of_def enter_critical_rest rt_consts)
  obtain k6 where k6: "thread_retire t k5 = Some k6" "sys_inv k6" "object_inv k5 \<longrightarrow> object_inv k6" "thread_closed t k k6" "same_rest ?ke k6"
    "if rt_object_is_systemobject (Obj t) k \<and> th_cleanup (threads k t) = None then fresh_thread t k6
        else on_tlist k6 Defunct = t # on_tlist k Defunct \<and> objects k6 (Obj t) = objects k (Obj t)"
    using retire_ok [OF inve _ k5(5,6,4) ste] w unfolding closed_enter whole_enter enter_critical_same by blast
  let ?k7 = "k6\<lparr>rt_scheduler_lock_nest := 0\<rparr>"
  have n6: "rt_scheduler_lock_nest k6 = 1" "rt_current_thread k6 = Some t"
    using k6(5) n cur by (simp_all add: same_rest_def rt_enter_critical_def)
  have inv7: "sys_inv ?k7" by (rule sys_inv_cong [OF _ _ _ _ _ _ k6(2)]) (simp_all add: sched_view_def n6)
  have u7: "stat_of ?k7 u = RT_THREAD_READY" using k6(4) u by (simp add: thread_closed_def stat_of_def)
  obtain k8 c where k8: "rt_schedule ?k7 = Some k8" "sys_inv k8" "same_ipc ?k7 k8" "threads k8 = threads ?k7" "tlists k8 = tlists ?k7"
    "timer_lists k8 = timer_lists ?k7" "objects k8 = objects ?k7" "rt_current_thread k8 = Some c" "first_ready k8 c"
    using sys_schedule [OF inv7 u7] by auto
  have ct: "c \<noteq> t" using k8(4,9) k6(4) by (auto simp: first_ready_def thread_closed_def stat_of_def rt_consts)
  have "rt_exit_critical k6 = Some k8" using k8(1) n6 by (simp add: rt_exit_critical_def Let_def)
  then have "rt_thread_exit cleanup k = Some k8"
    using cur k5(1-3) k6(1) k8(8) ct by (simp add: rt_thread_exit_def rt_thread_self_def)
  moreover have f: "object_lists k8 = object_lists k6" "freed k8 = freed k6" "freed_memory k8 = freed_memory k6" "rt_scheduler_lock_nest k8 = 0"
    using k8(3) by (simp_all add: same_ipc_def)
  then have "thread_closed t k k8"
    using k6(4) thread_closed_cong [of k8 k6] k8(4-7) by simp
  moreover have "object_inv k \<longrightarrow> object_inv k8" using k5(7) k6(3) object_inv_cong [of k8 k6] f k8(7) by simp
  moreover have "fresh_thread t k8 = fresh_thread t k6" "on_tlist k8 = on_tlist k6"
    using f k8(5,7) by (simp_all add: fresh_thread_def fresh_def rt_object_get_type_def on_tlist_def fun_eq_iff)
  ultimately show ?thesis using k6(6) k8(2,7-9) ct f(4) by auto
qed

section \<open>The idle thread\<close>

lemma closed_timer_off:
  assumes "sys_inv k" and "stat_of k t = RT_THREAD_CLOSE"
  shows "home (timer_lists k) (Thread_timer t) = None"
  using check_invD(4) [OF sys_invD(1) [OF assms(1)]] assms(2)
  by (cases "home (timer_lists k) (Thread_timer t)") (auto simp: timers_ok_def timer_ok_def rt_consts)

text \<open>One defunct thread of the heap is freed.\<close>

lemma defunct_step:
  assumes inv: "sys_inv k" and on: "on_tlist k Defunct = t # ts" and ty: "obj_type (objects k (Obj t)) = RT_Object_Class_Thread"
    and ni: "rt_interrupt_nest k = 0" and cl: "cleanup_ok cleanup"
  shows "\<exists>k'. rt_defunct_execute cleanup k = rt_defunct_execute cleanup k' \<and> sys_inv k' \<and> (object_inv k \<longrightarrow> object_inv k')
    \<and> same_rest k k' \<and> threads k' = threads k \<and> timer_lists k' = timer_lists k \<and> tlists k' = ls_remove t (tlists k)
    \<and> on_tlist k' Defunct = ts \<and> (\<forall>q. q \<noteq> Defunct \<longrightarrow> on_tlist k' q = on_tlist k q)
    \<and> freed k' = Obj t # freed k \<and> freed_memory k' = th_stack_addr (threads k t) # freed_memory k \<and> fresh (Obj t) k'
    \<and> (\<forall>h. h \<noteq> Obj t \<longrightarrow> objects k' h = objects k h \<and> home (object_lists k') h = home (object_lists k) h)"
proof -
  note si = sys_invD(5) [OF inv]
  have "t \<in> set (on_tlist k Defunct)" using on by simp
  then have st: "stat_of k t = RT_THREAD_CLOSE" and h: "home (tlists k) t = Some Defunct" using defunct_closed [OF si] by blast+
  let ?k1 = "tlist_remove t k"
  obtain k2 where k2: "thread_cleanup_execute cleanup t ?k1 = Some k2" "same_kernel ?k1 k2" using cleanup_execute [OF cl] by blast
  note k2' = k2(2) [unfolded same_kernel_def]
  have th2: "threads k2 = threads k" "tlists k2 = ls_remove t (tlists k)" using k2' by (simp_all add: sched_view_def)
  have f2: "objects k2 = objects k" "object_lists k2 = object_lists k" "timers k2 = timers k" "timer_lists k2 = timer_lists k"
    "freed k2 = freed k" "freed_memory k2 = freed_memory k" "same_rest k k2"
    using k2' by (simp_all add: tlist_remove_def same_rest_def)
  define k3 where "k3 = k2\<lparr>freed_memory := th_stack_addr (threads k t) # freed_memory k,
    objects := (objects k)(Obj t := (objects k (Obj t))\<lparr>obj_type := 0\<rparr>), object_lists := ls_remove (Obj t) (object_lists k),
    freed := Obj t # freed k\<rparr>"
  have f3: "sched_view k3 = sched_view k2" "threads k3 = threads k" "tlists k3 = ls_remove t (tlists k)" "timers k3 = timers k"
    "timer_lists k3 = timer_lists k" "same_rest k k3" "freed k3 = Obj t # freed k" "freed_memory k3 = th_stack_addr (threads k t) # freed_memory k"
    "objects k3 = (objects k)(Obj t := (objects k (Obj t))\<lparr>obj_type := 0\<rparr>)" "object_lists k3 = ls_remove (Obj t) (object_lists k)"
    using th2 f2 by (simp_all add: k3_def sched_view_def same_rest_def)
  have del: "rt_object_delete (Obj t) (k2\<lparr>freed_memory := th_stack_addr (threads k2 t) # freed_memory k2\<rparr>) = Some k3"
    using ty f2 th2 by (simp add: rt_object_delete_def unlink_object_def upd_object_def k3_def rt_consts)
  have "\<not> rt_object_is_systemobject (Obj t) k2" using ty f2 by (simp add: rt_object_is_systemobject_def rt_consts)
  then have "rt_defunct_execute cleanup k = rt_defunct_execute cleanup k3"
    using on k2(1) del ni
    by (subst rt_defunct_execute.simps)
      (simp add: rt_thread_defunct_dequeue_def RT_DEBUG_NOT_IN_INTERRUPT_def rt_interrupt_get_nest_def)
  moreover have "sched_free t ?k1" using tlist_remove_free [OF si] st by (simp add: rt_consts)
  then have "sched_free t k3" using sched_view_free [OF f3(1), of t] sched_view_free [of k2 ?k1 t] k2' by simp
  moreover from this have "thread_ok k3 t" using st f3(2) by (simp add: sched_free_def thread_ok_def stat_of_def rt_consts)
  ultimately have si3: "sched_inv k3" using sched_free_close by blast
  have tt: "home (timer_lists k) (Thread_timer t) = None" using closed_timer_off [OF inv st] .
  have "sys_inv k3"
  proof (rule sys_inv_one_thread [OF inv si3, where t = t])
    show "home (timer_lists k) (Obj t) = None" using not_timer_unlinked [OF inv] ty by (simp add: rt_object_get_type_def rt_consts)
    show "is_thread k3 t \<and> thread_timer_ok k3 t \<and> rt_scheduler_stack_check t k3 = Some ()" if "alive k3 t"
      using that st f3(2) by (simp add: alive_def stat_of_def rt_consts)
  qed (use f3 tt sys_invD(8) [OF inv] in \<open>simp_all add: ls_remove_None same_rest_def\<close>)
  moreover have "object_inv k \<longrightarrow> object_inv k3" using object_inv_unlinked [of k "Obj t" k3] f3(9,10) by simp
  moreover have "on_tlist k3 q = filter (\<lambda>u. u \<noteq> t) (on_tlist k q)" for q
    using f3(3) sched_invD(1) [OF si] by (simp add: on_tlist_def ls_remove_on_list)
  moreover have "filter (\<lambda>u. u \<noteq> t) (on_tlist k Defunct) = ts"
    using on wait_list_distinct [OF si, of Defunct] by (auto simp: filter_id_conv)
  moreover have "filter (\<lambda>u. u \<noteq> t) (on_tlist k q) = on_tlist k q" if "q \<noteq> Defunct" for q
  proof -
    have "t \<notin> set (on_tlist k q)" using h that sched_invD(1) [OF si] by (simp add: on_tlist_def ls_wf_mem)
    then show ?thesis by (auto simp: filter_id_conv)
  qed
  moreover have "fresh (Obj t) k3" by (simp add: fresh_def rt_object_get_type_def f3)
  ultimately show ?thesis using f3(2,3,5-10) \<open>rt_defunct_execute cleanup k = rt_defunct_execute cleanup k3\<close> by (intro exI [of _ k3]) simp
qed

lemma defunct_loop:
  assumes cl: "cleanup_ok cleanup"
  shows "sys_inv k \<Longrightarrow> on_tlist k Defunct = ts \<Longrightarrow> \<forall>t\<in>set ts. obj_type (objects k (Obj t)) = RT_Object_Class_Thread \<Longrightarrow>
    rt_interrupt_nest k = 0 \<Longrightarrow>
    \<exists>k'. rt_defunct_execute cleanup k = Some k' \<and> sys_inv k' \<and> (object_inv k \<longrightarrow> object_inv k') \<and> same_rest k k'
    \<and> threads k' = threads k \<and> timer_lists k' = timer_lists k \<and> on_tlist k' Defunct = []
    \<and> (\<forall>q. q \<noteq> Defunct \<longrightarrow> on_tlist k' q = on_tlist k q)
    \<and> freed k' = rev (map Obj ts) @ freed k \<and> freed_memory k' = rev (map (\<lambda>t. th_stack_addr (threads k t)) ts) @ freed_memory k
    \<and> (\<forall>t\<in>set ts. fresh (Obj t) k' \<and> home (tlists k') t = None)
    \<and> (\<forall>h. h \<notin> Obj ` set ts \<longrightarrow> objects k' h = objects k h \<and> home (object_lists k') h = home (object_lists k) h)"
proof (induction ts arbitrary: k)
  case Nil
  then show ?case
    by (subst rt_defunct_execute.simps)
      (simp add: rt_thread_defunct_dequeue_def RT_DEBUG_NOT_IN_INTERRUPT_def rt_interrupt_get_nest_def)
next
  case (Cons t ts)
  have ty: "obj_type (objects k (Obj t)) = RT_Object_Class_Thread" using Cons.prems(3) by simp
  obtain k1 where k1: "rt_defunct_execute cleanup k = rt_defunct_execute cleanup k1" "sys_inv k1" "object_inv k \<longrightarrow> object_inv k1"
    "same_rest k k1" "threads k1 = threads k" "timer_lists k1 = timer_lists k" "tlists k1 = ls_remove t (tlists k)" "on_tlist k1 Defunct = ts"
    "\<forall>q. q \<noteq> Defunct \<longrightarrow> on_tlist k1 q = on_tlist k q" "freed k1 = Obj t # freed k"
    "freed_memory k1 = th_stack_addr (threads k t) # freed_memory k" "fresh (Obj t) k1"
    "\<forall>h. h \<noteq> Obj t \<longrightarrow> objects k1 h = objects k h \<and> home (object_lists k1) h = home (object_lists k) h"
    using defunct_step [OF Cons.prems(1,2) ty Cons.prems(4) cl] by blast
  have nt: "t \<notin> set ts" using wait_list_distinct [OF sys_invD(5) [OF Cons.prems(1)], of Defunct] Cons.prems(2) by simp
  have "\<forall>u\<in>set ts. obj_type (objects k1 (Obj u)) = RT_Object_Class_Thread" "rt_interrupt_nest k1 = 0"
    using Cons.prems(3,4) k1(4,13) nt by (auto simp: same_rest_def)
  then obtain k' where k': "rt_defunct_execute cleanup k1 = Some k'" "sys_inv k'" "object_inv k1 \<longrightarrow> object_inv k'" "same_rest k1 k'"
    "threads k' = threads k1" "timer_lists k' = timer_lists k1" "on_tlist k' Defunct = []" "\<forall>q. q \<noteq> Defunct \<longrightarrow> on_tlist k' q = on_tlist k1 q"
    "freed k' = rev (map Obj ts) @ freed k1" "freed_memory k' = rev (map (\<lambda>t. th_stack_addr (threads k1 t)) ts) @ freed_memory k1"
    "\<forall>t\<in>set ts. fresh (Obj t) k' \<and> home (tlists k') t = None"
    "\<forall>h. h \<notin> Obj ` set ts \<longrightarrow> objects k' h = objects k1 h \<and> home (object_lists k') h = home (object_lists k1) h"
    using Cons.IH [OF k1(2,8)] by blast
  have "fresh (Obj t) k'" using k1(12) k'(12) nt by (auto simp: fresh_def rt_object_get_type_def)
  moreover have "home (tlists k') t = None"
  proof -
    have "t \<notin> set (on_tlist k1 q)" for q
      using k1(7) sched_invD(1) [OF sys_invD(5) [OF k1(2)]] by (simp add: on_tlist_def ls_wf_mem)
    then have "t \<notin> set (on_tlist k' q)" for q using k'(7,8) by (cases "q = Defunct") auto
    then show ?thesis
      using sched_invD(1) [OF sys_invD(5) [OF k'(2)]] by (cases "home (tlists k') t") (auto simp: on_tlist_def ls_wf_mem)
  qed
  moreover have "same_rest k k'" using same_rest_trans [OF k1(4) k'(4)] .
  ultimately show ?case using k1 k' by (intro exI [of _ k']) auto
qed

text \<open>The state after creation and start.\<close>

definition started :: "tid \<Rightarrow> rt_uint8_t \<Rightarrow> rt_uint32_t \<Rightarrow> nat option \<Rightarrow> kernel \<Rightarrow> kernel \<Rightarrow> bool" where
  "started t p start lck k k' \<longleftrightarrow> stat_of k' t = RT_THREAD_READY \<and> prio_of k' t = p \<and> whole_thread t k'
     \<and> th_lock (threads k' t) = lck \<and> th_cleanup (threads k' t) = None \<and> th_stack_addr (threads k' t) = start
     \<and> on_tlist k' (Ready p) = on_tlist k (Ready p) @ [t] \<and> (\<forall>q. q \<noteq> Ready p \<longrightarrow> on_tlist k' q = on_tlist k q)
     \<and> (\<forall>u. u \<noteq> t \<longrightarrow> threads k' u = threads k u) \<and> freed k' = freed k \<and> freed_memory k' = freed_memory k
     \<and> rt_interrupt_nest k' = rt_interrupt_nest k \<and> rt_scheduler_lock_nest k' = rt_scheduler_lock_nest k
     \<and> (rt_scheduler_lock_nest k = 0 \<longrightarrow>
          (\<forall>c. rt_current_thread k = Some c \<longrightarrow> rt_current_thread k' = Some (if p < prio_of k c then t else c)))"

lemma first_ready_started:
  assumes inv: "sched_inv k" and c: "first_ready k c" and th: "\<forall>u. u \<noteq> t \<longrightarrow> threads k' u = threads k u" and tc: "stat_of k t \<noteq> RT_THREAD_READY"
    and st: "stat_of k' t = RT_THREAD_READY" "prio_of k' t = p" and on: "\<forall>q. on_tlist k' q = on_tlist k q @ (if q = Ready p then [t] else [])"
  shows "first_ready k' (if p < prio_of k c then t else c)"
proof -
  have eq: "stat_of k' u = stat_of k u" "prio_of k' u = prio_of k u" if "u \<noteq> t" for u using th that by (simp_all add: stat_of_def prio_of_def)
  have c': "stat_of k c = RT_THREAD_READY" "\<And>u. stat_of k u = RT_THREAD_READY \<Longrightarrow> prio_of k c \<le> prio_of k u" "c \<noteq> t"
    using c tc unfolding first_ready_def by blast+
  obtain cs where cs: "on_tlist k (Ready (prio_of k c)) = c # cs" using c by (auto simp: first_ready_def)
  show ?thesis
  proof (cases "p < prio_of k c")
    case True
    have "u \<notin> set (on_tlist k (Ready p))" for u using ready_on_list [OF inv, of u p] c'(2) [of u] True by auto
    then have "on_tlist k (Ready p) = []" by (cases "on_tlist k (Ready p)") auto
    moreover have "p \<le> prio_of k' u" if "stat_of k' u = RT_THREAD_READY" for u
      using that eq [of u] c'(2) [of u] True st(2) by (cases "u = t") auto
    ultimately show ?thesis using True st on by (simp add: first_ready_def)
  next
    case False
    have "prio_of k c \<le> prio_of k' u" if "stat_of k' u = RT_THREAD_READY" for u
      using that eq [of u] c'(2) [of u] False st(2) by (cases "u = t") auto
    then show ?thesis using False c' eq [of c] cs on by (simp add: first_ready_def)
  qed
qed

lemma made_started:
  assumes inv: "sys_inv k" "settled k" and m: "thread_made t cls p start lck k k1" and inv1: "sys_inv k1" "object_inv k1"
    and dead: "\<not> alive k t"
  shows "\<exists>k'. rt_thread_startup t k1 = Some (RT_EOK, k') \<and> sys_inv k' \<and> object_inv k' \<and> started t p start lck k k'
    \<and> obj_type (objects k' (Obj t)) = cls"
proof -
  note m' = m [unfolded thread_made_def]
  obtain k' where k': "rt_thread_startup t k1 = Some (RT_EOK, k')" "sys_inv k'" "same_ipc k1 k'" "stat_of k' t = RT_THREAD_READY"
    "prio_of k' t = p" "on_tlist k' (Ready p) = on_tlist k1 (Ready p) @ [t]" "\<forall>q. q \<noteq> Ready p \<longrightarrow> on_tlist k' q = on_tlist k1 q"
    "\<forall>v. v \<noteq> t \<longrightarrow> threads k' v = threads k1 v"
    "th_lock (threads k' t) = lck" "th_cleanup (threads k' t) = None" "th_stack_addr (threads k' t) = start"
    "if rt_scheduler_lock_nest k1 = 0 then \<exists>c. rt_current_thread k' = Some c \<and> first_ready k' c
        else rt_current_thread k' = rt_current_thread k1" using startup_ok [OF inv1(1) m] by blast
  have on: "on_tlist k1 = on_tlist k" using m' by (simp add: on_tlist_def fun_eq_iff)
  have rest: "rt_scheduler_lock_nest k1 = rt_scheduler_lock_nest k" "rt_interrupt_nest k1 = rt_interrupt_nest k" using m' by (simp_all add: same_rest_def)
  have ob: "obj_type (objects k' h) = obj_type (objects k1 h)" "object_lists k' = object_lists k1" for h
    using k'(3) by (simp_all add: same_ipc_def)
  have "whole_thread t k'"
    unfolding whole_thread_def
  proof (intro conjI allI impI)
    show "is_thread k' t" using m' is_thread_same_ipc [OF k'(3)] by simp
    show "rt_object_is_systemobject (Thread_timer t) k'" using m' ob by (simp add: rt_object_is_systemobject_def)
    fix s assume "th_lock (threads k' t) = Some s"
    then have "lck = Some s" using k'(9) by simp
    then show "s \<noteq> t" "obj_type (objects k' (Obj s)) = RT_Object_Class_Semaphore" "set (on_tlist k' (Sem_wait s)) \<subseteq> {t}"
      using m' ob k'(7) by auto
  qed
  moreover have "object_inv k'"
    using inv1(2) k'(3) by (simp add: object_inv_def same_ipc_def rt_object_get_type_def)
  moreover have "rt_current_thread k' = Some (if p < prio_of k c then t else c)"
    if n: "rt_scheduler_lock_nest k = 0" and c: "rt_current_thread k = Some c" for c
  proof -
    have "first_ready k c" using inv(2) c by (simp add: settled_def)
    then have "first_ready k' (if p < prio_of k c then t else c)"
      by (rule first_ready_started [OF sys_invD(5) [OF inv(1)], where t = t])
        (use m' dead k'(4-8) on in \<open>auto simp: alive_def\<close>)
    then show ?thesis using k'(12) n rest(1) first_ready_unique by auto
  qed
  ultimately show ?thesis using k' m' on ob rest by (simp add: started_def same_ipc_def)
qed

lemma life_begins:
  assumes "sys_inv k" and "object_inv k" and "settled k" and "rt_interrupt_nest k = 0" and "fresh_thread t k"
    and s: "\<forall>s. block = Some s \<longrightarrow> fresh_sem s k \<and> s \<noteq> t" and nm: "RT_NAME_MAX \<le> length name \<or> 0 \<in> set name"
    and "start \<noteq> 0" and room: "208 \<le> unat sz" "unat start + unat sz < 2 ^ 32"
  shows "\<exists>k1 k'. rt_thread_create texit name entry par sz p tick (Some t) start block k = Some (Some t, k1)
      \<and> rt_thread_startup t k1 = Some (RT_EOK, k') \<and> sys_inv k' \<and> object_inv k' \<and> started t p start block k k'
      \<and> obj_type (objects k' (Obj t)) = RT_Object_Class_Thread"
    and "\<exists>k1 k'. rt_thread_init texit t name entry par start sz p tick block k = Some (RT_EOK, k1)
      \<and> rt_thread_startup t k1 = Some (RT_EOK, k') \<and> sys_inv k' \<and> object_inv k' \<and> started t p start block k k'
      \<and> obj_type (objects k' (Obj t)) = RT_Object_Class_Thread OR RT_Object_Class_Static"
proof -
  obtain nm where nm: "rt_strncpy name RT_NAME_MAX = Some nm" using rt_strncpy_Some [OF nm] by blast
  have s': "fresh_sem s k \<and> s \<noteq> t" if "block = Some s" for s using s that by blast
  note room' = stack_room [OF room]
  have dead: "\<not> alive k t" using not_thread_dead [OF assms(1)] assms(5) by (simp add: fresh_thread_def fresh_def rt_consts)
  show "\<exists>k1 k'. rt_thread_create texit name entry par sz p tick (Some t) start block k = Some (Some t, k1)
      \<and> rt_thread_startup t k1 = Some (RT_EOK, k') \<and> sys_inv k' \<and> object_inv k' \<and> started t p start block k k'
      \<and> obj_type (objects k' (Obj t)) = RT_Object_Class_Thread"
    using rt_thread_create_ok [OF assms(1-3,5) s' assms(4) nm room' assms(8)] made_started [OF assms(1,3) _ _ _ dead] by blast
  show "\<exists>k1 k'. rt_thread_init texit t name entry par start sz p tick block k = Some (RT_EOK, k1)
      \<and> rt_thread_startup t k1 = Some (RT_EOK, k') \<and> sys_inv k' \<and> object_inv k' \<and> started t p start block k k'
      \<and> obj_type (objects k' (Obj t)) = RT_Object_Class_Thread OR RT_Object_Class_Static"
    using rt_thread_init_ok [OF assms(1-3,5) s' assms(4) nm room' assms(8)] made_started [OF assms(1,3) _ _ _ dead] by blast
qed

lemma delete_ok:
  assumes "sys_inv k" and "object_inv k" and "whole_thread t k" and "rt_interrupt_nest k = 0" and "cleanup_ok cleanup"
    and "stat_of k t = RT_THREAD_INIT \<or> stat_of k t = RT_THREAD_READY \<or> stat_of k t = RT_THREAD_SUSPEND"
    and dyn: "\<not> rt_object_is_systemobject (Obj t) k"
  shows "\<exists>k'. rt_thread_delete cleanup t k = Some (RT_EOK, k') \<and> sys_inv k' \<and> object_inv k' \<and> thread_closed t k k' \<and> same_rest k k'
      \<and> on_tlist k' Defunct = t # on_tlist k Defunct \<and> objects k' (Obj t) = objects k (Obj t)
      \<and> rt_thread_delete cleanup t k' = Some (RT_EOK, k')"
proof -
  have st: "stat_of k t \<noteq> RT_THREAD_CLOSE" using assms(6) by (auto simp: rt_consts)
  have ty: "rt_object_get_type (Obj t) k = RT_Object_Class_Thread" using assms(3) by (simp add: whole_thread_def is_thread_def)
  obtain k5 where k5: "thread_close cleanup t k = Some k5" "sched_free t k5" "thread_gone t k k5" "same_rest k k5" "object_inv k5"
    using close_ok [OF assms(1,3-6)] assms(2) by blast
  obtain k' where k': "rt_thread_defunct_enqueue t k5 = Some k'" "sys_inv k'" "object_inv k'" "thread_closed t k k'" "same_rest k k'"
    "on_tlist k' Defunct = t # on_tlist k Defunct" "objects k' (Obj t) = objects k (Obj t)"
    using gone_defunct [OF assms(1,3) k5(3,4,2) st] k5(5) by blast
  have "rt_thread_delete cleanup t k = Some (RT_EOK, k')" using ty dyn st k5(1) k'(1) by (simp add: rt_thread_delete_def)
  moreover have "rt_thread_delete cleanup t k' = Some (RT_EOK, k')"
    using k'(4,7) ty dyn by (simp add: rt_thread_delete_def rt_object_get_type_def rt_object_is_systemobject_def thread_closed_def)
  ultimately show ?thesis using k' by blast
qed


text \<open>From creation to the release of the memory.\<close>

lemma started_delete_idle:
  assumes inv: "sys_inv k'" "object_inv k'" and st: "started t p start block k k'" and ty: "obj_type (objects k' (Obj t)) = RT_Object_Class_Thread"
    and ni: "rt_interrupt_nest k = 0" and cl: "cleanup_ok cleanup" and nt: "\<And>q. t \<notin> set (on_tlist k q)" and df: "on_tlist k Defunct = []"
  shows "\<exists>k2 k3. rt_thread_delete cleanup t k' = Some (RT_EOK, k2) \<and> rt_defunct_execute cleanup k2 = Some k3 \<and> sys_inv k3 \<and> object_inv k3
    \<and> fresh_thread t k3 \<and> (\<forall>s. block = Some s \<longrightarrow> fresh_sem s k3) \<and> on_tlist k3 = on_tlist k \<and> (\<forall>u. u \<noteq> t \<longrightarrow> threads k3 u = threads k u)
    \<and> freed k3 = Obj t # (case block of None \<Rightarrow> [] | Some s \<Rightarrow> [Obj s]) @ freed k \<and> freed_memory k3 = start # freed_memory k"
proof -
  note s = st [unfolded started_def]
  have on: "on_tlist k' q = on_tlist k q @ (if q = Ready p then [t] else [])" for q using s by simp
  have ns: "\<not> rt_object_is_systemobject (Obj t) k'" using ty by (simp add: rt_object_is_systemobject_def rt_consts)
  have w: "whole_thread t k'" "rt_interrupt_nest k' = 0" "stat_of k' t = RT_THREAD_READY" using s ni by simp_all
  obtain k2 where k2: "rt_thread_delete cleanup t k' = Some (RT_EOK, k2)" "sys_inv k2" "object_inv k2" "thread_closed t k' k2" "same_rest k' k2"
    "on_tlist k2 Defunct = t # on_tlist k' Defunct" "objects k2 (Obj t) = objects k' (Obj t)"
    using delete_ok [OF inv w(1,2) cl _ ns] w(3) by blast
  note c = k2(4) [unfolded thread_closed_def]
  have d2: "on_tlist k2 Defunct = [t]" "rt_interrupt_nest k2 = 0" using k2(5,6) on df w(2) by (simp_all add: same_rest_def)
  obtain k3 where k3: "rt_defunct_execute cleanup k2 = Some k3" "sys_inv k3" "object_inv k3" "threads k3 = threads k2" "on_tlist k3 Defunct = []"
    "\<forall>q. q \<noteq> Defunct \<longrightarrow> on_tlist k3 q = on_tlist k2 q" "freed k3 = Obj t # freed k2"
    "freed_memory k3 = th_stack_addr (threads k2 t) # freed_memory k2" "fresh (Obj t) k3" "home (tlists k3) t = None"
    "\<forall>h. h \<noteq> Obj t \<longrightarrow> objects k3 h = objects k2 h \<and> home (object_lists k3) h = home (object_lists k2) h"
    using defunct_loop [OF cl k2(2) d2(1) _ d2(2)] k2(3,7) ty by auto
  have "on_tlist k3 q = on_tlist k q" for q
  proof (cases "q = Defunct")
    case False
    then have "on_tlist k3 q = filter (\<lambda>u. u \<noteq> t) (on_tlist k' q)" using k3(6) c by simp
    then show ?thesis using on [of q] nt [of q] by (auto simp: filter_id_conv)
  qed (simp add: k3(5) df)
  then have "on_tlist k3 = on_tlist k" ..
  moreover have "fresh (Thread_timer t) k3" using c k3(11) by (simp add: fresh_def rt_object_get_type_def)
  moreover have "fresh_sem u k3" if "block = Some u" for u
  proof -
    have "th_lock (threads k' t) = Some u" using that s by simp
    then have "fresh_sem u k2" "u \<noteq> t" using c w(1) by (auto simp: whole_thread_def)
    then show ?thesis using k3(6,11) by (simp add: fresh_sem_def fresh_def rt_object_get_type_def)
  qed
  moreover have "freed k3 = Obj t # (case block of None \<Rightarrow> [] | Some s \<Rightarrow> [Obj s]) @ freed k" "freed_memory k3 = start # freed_memory k"
    using k3(7,8) c s by simp_all
  moreover have "\<forall>u. u \<noteq> t \<longrightarrow> threads k3 u = threads k u" using k3(4) c s by simp
  ultimately show ?thesis using k2(1) k3(1-3,9,10) by (intro exI [of _ k2] exI [of _ k3]) (simp add: fresh_thread_def)
qed

section \<open>Properties\<close>

text \<open>C15: a thread that is initialised or created and then started is ready at the end of the list of its priority, the rest of the
  lists and all other threads are as before, every invariant holds, and the processor goes to it exactly if its priority is
  higher than that of the thread that started it.  A stack of 208 bytes is enough; memory that cannot be had for the lock leaves the thread without one.\<close>

theorem thread_start_correct:
  assumes "sys_inv k" and "object_inv k" and "settled k" and "rt_interrupt_nest k = 0" and "fresh_thread t k"
    and "\<forall>s. block = Some s \<longrightarrow> fresh_sem s k \<and> s \<noteq> t" and "RT_NAME_MAX \<le> length name \<or> 0 \<in> set name"
    and "start \<noteq> 0" and "208 \<le> unat sz" and "unat start + unat sz < 2 ^ 32"
  shows "(\<exists>k1 k'. rt_thread_create texit name entry par sz p tick (Some t) start block k = Some (Some t, k1)
      \<and> rt_thread_startup t k1 = Some (RT_EOK, k') \<and> sys_inv k' \<and> object_inv k' \<and> started t p start block k k'
      \<and> obj_type (objects k' (Obj t)) = RT_Object_Class_Thread)
    \<and> (\<exists>k1 k'. rt_thread_init texit t name entry par start sz p tick block k = Some (RT_EOK, k1)
      \<and> rt_thread_startup t k1 = Some (RT_EOK, k') \<and> sys_inv k' \<and> object_inv k' \<and> started t p start block k k'
      \<and> obj_type (objects k' (Obj t)) = RT_Object_Class_Thread OR RT_Object_Class_Static)"
  using life_begins [OF assms] by blast


text \<open>A thread that ends itself gives up the processor for good: it is closed like a thread that is deleted or detached, the first thread of the
  highest ready priority runs, and the scheduler is unlocked again.\<close>

theorem thread_exit_correct:
  assumes "sys_inv k" and "object_inv k" and "whole_thread t k" and "rt_interrupt_nest k = 0" and "cleanup_ok cleanup"
    and "rt_current_thread k = Some t" and "stat_of k t = RT_THREAD_READY" and "rt_scheduler_lock_nest k = 0"
    and "stat_of k u = RT_THREAD_READY" and "u \<noteq> t"
  shows "\<exists>k' c. rt_thread_exit cleanup k = Some k' \<and> sys_inv k' \<and> object_inv k' \<and> thread_closed t k k'
    \<and> rt_current_thread k' = Some c \<and> c \<noteq> t \<and> first_ready k' c \<and> rt_scheduler_lock_nest k' = 0
    \<and> (if rt_object_is_systemobject (Obj t) k \<and> th_cleanup (threads k t) = None then fresh_thread t k'
        else on_tlist k' Defunct = t # on_tlist k Defunct)"
  using exit_ok [OF assms(1,3-10)] assms(2) by auto

text \<open>The idle thread frees every defunct thread of the heap, object and stack, exactly once, comes back, and changes nothing else.\<close>

theorem idle_frees_defunct:
  assumes "sys_inv k" and "object_inv k" and "cleanup_ok cleanup" and "rt_interrupt_nest k = 0"
    and "\<forall>t\<in>set (on_tlist k Defunct). obj_type (objects k (Obj t)) = RT_Object_Class_Thread"
  shows "\<exists>k'. rt_defunct_execute cleanup k = Some k' \<and> sys_inv k' \<and> object_inv k' \<and> on_tlist k' Defunct = []
    \<and> (\<forall>q. q \<noteq> Defunct \<longrightarrow> on_tlist k' q = on_tlist k q) \<and> threads k' = threads k
    \<and> freed k' = rev (map Obj (on_tlist k Defunct)) @ freed k \<and> distinct (on_tlist k Defunct)
    \<and> freed_memory k' = rev (map (\<lambda>t. th_stack_addr (threads k t)) (on_tlist k Defunct)) @ freed_memory k
    \<and> (\<forall>t\<in>set (on_tlist k Defunct). fresh (Obj t) k')"
  using defunct_loop [OF assms(3,1) refl assms(5,4)] assms(2) wait_list_distinct [OF sys_invD(5) [OF assms(1)], of Defunct] by auto

text \<open>C17: nothing is left of a thread that was created, started and deleted once the idle thread has run: the thread, its
  lock and its stack are given back, each once, the memory can be used for a new thread, all lists and all other threads are as before.\<close>

theorem thread_leaves_no_trace:
  assumes "sys_inv k" and "object_inv k" and "settled k" and "rt_interrupt_nest k = 0" and "fresh_thread t k"
    and "\<forall>s. block = Some s \<longrightarrow> fresh_sem s k \<and> s \<noteq> t" and "RT_NAME_MAX \<le> length name \<or> 0 \<in> set name"
    and "start \<noteq> 0" and "208 \<le> unat sz" and "unat start + unat sz < 2 ^ 32" and "cleanup_ok cleanup" and "on_tlist k Defunct = []"
  shows "\<exists>k1 k2 k3 k'. rt_thread_create texit name entry par sz p tick (Some t) start block k = Some (Some t, k1)
      \<and> rt_thread_startup t k1 = Some (RT_EOK, k2) \<and> rt_thread_delete cleanup t k2 = Some (RT_EOK, k3)
      \<and> rt_defunct_execute cleanup k3 = Some k' \<and> sys_inv k' \<and> object_inv k'
      \<and> fresh_thread t k' \<and> (\<forall>s. block = Some s \<longrightarrow> fresh_sem s k') \<and> on_tlist k' = on_tlist k \<and> (\<forall>u. u \<noteq> t \<longrightarrow> threads k' u = threads k u)
      \<and> freed k' = Obj t # (case block of None \<Rightarrow> [] | Some s \<Rightarrow> [Obj s]) @ freed k \<and> freed_memory k' = start # freed_memory k"
proof -
  obtain k1 k2 where k2: "rt_thread_create texit name entry par sz p tick (Some t) start block k = Some (Some t, k1)"
    "rt_thread_startup t k1 = Some (RT_EOK, k2)" "sys_inv k2" "object_inv k2" "started t p start block k k2"
    "obj_type (objects k2 (Obj t)) = RT_Object_Class_Thread" using life_begins(1) [OF assms(1-10)] by blast
  have "t \<notin> set (on_tlist k q)" for q
    using assms(5) sched_invD(1) [OF sys_invD(5) [OF assms(1)]] by (simp add: fresh_thread_def on_tlist_def ls_wf_mem)
  from started_delete_idle [OF k2(3-6) assms(4,11) this assms(12)] k2(1,2) show ?thesis by blast
qed

section \<open>Examples\<close>

definition life_name :: "rt_uint8_t list" where
  "life_name = [108, 105, 102, 101, 0]"

lemma sample_objects_inv: "object_inv sample"
  by (simp add: object_inv_def sample_rest)

lemma sample_fresh: "fresh_thread 7 sample" "fresh_sem 8 sample" "on_tlist sample Defunct = []"
proof -
  have h: "home (tlists sample) 7 = None" "on_tlist sample Defunct = []" "on_tlist sample (Sem_wait 8) = []" by code_simp+
  have o: "rt_object_get_type (Obj 7) sample = 0" "rt_object_get_type (Obj 8) sample = 0" "rt_object_get_type (Thread_timer 7) sample = 0"
    by (simp_all add: rt_object_get_type_def sample_rest sample_base_def zero_object_def)
  show "fresh_thread 7 sample" "fresh_sem 8 sample" "on_tlist sample Defunct = []"
    using h o by (simp_all add: fresh_thread_def fresh_sem_def fresh_def sample_rest)
qed

lemma sample_settled: "settled sample"
proof -
  have p: "prio_of sample 0 = 255" "prio_of sample 2 = 10" by code_simp+
  have "10 \<le> prio_of sample u" if r: "stat_of sample u = RT_THREAD_READY" for u
  proof (cases "u \<in> {0, 1, 2}")
    case True
    then show ?thesis using p sample_facts(5) by auto
  next
    case False
    then have "stat_of sample u = stat_of sample_base u" using sample_threads [OF False] by (simp add: stat_of_def)
    moreover have "stat_of sample_base u \<noteq> RT_THREAD_READY"
      using False by (simp add: stat_of_def sample_base_def sample_thread_def zero_thread_def rt_consts)
    ultimately show ?thesis using r by simp
  qed
  then show ?thesis using sample_facts by (simp add: settled_def first_ready_def)
qed

lemma cleanup_none: "cleanup_ok (\<lambda>_ _. Some)"
  by (simp add: cleanup_ok_def same_kernel_def)

theorem thread_leaves_no_trace_witness:
  "\<exists>k1 k2 k3 k'. rt_thread_create 0 life_name 0 0 1024 5 10 (Some 7) 0x8000 (Some 8) sample = Some (Some 7, k1)
    \<and> rt_thread_startup 7 k1 = Some (RT_EOK, k2) \<and> rt_thread_delete (\<lambda>_ _. Some) 7 k2 = Some (RT_EOK, k3)
    \<and> rt_defunct_execute (\<lambda>_ _. Some) k3 = Some k' \<and> freed k' = Obj 7 # Obj 8 # freed sample \<and> freed_memory k' = 0x8000 # freed_memory sample"
proof -
  have "(0 :: rt_uint8_t) \<in> set life_name" by (simp add: life_name_def)
  then show ?thesis
    using thread_leaves_no_trace [OF sample_sys_inv sample_objects_inv sample_settled sample_facts(9) sample_fresh(1),
        where block = "Some 8" and name = life_name and start = "0x8000" and sz = 1024 and cleanup = "\<lambda>_ _. Some"
          and texit = 0 and entry = 0 and par = 0 and p = 5 and tick = 10] sample_fresh(2,3) cleanup_none by auto
qed

theorem thread_start_correct_witness:
  "\<exists>k1 k'. rt_thread_create 0 life_name 0 0 1024 5 10 (Some 7) 0x8000 (Some 8) sample = Some (Some 7, k1)
    \<and> rt_thread_startup 7 k1 = Some (RT_EOK, k') \<and> sys_inv k' \<and> rt_current_thread k' = Some 7 \<and> on_tlist k' (Ready 5) = on_tlist sample (Ready 5) @ [7]"
proof -
  have "(0 :: rt_uint8_t) \<in> set life_name" by (simp add: life_name_def)
  then show ?thesis
    using thread_start_correct [OF sample_sys_inv sample_objects_inv sample_settled sample_facts(9) sample_fresh(1),
        where block = "Some 8" and name = life_name and start = "0x8000" and sz = 1024
          and texit = 0 and entry = 0 and par = 0 and p = 5 and tick = 10] sample_fresh(2) sample_facts(5,7,8)
    by (auto simp: started_def)
qed

text \<open>The running thread 7 of the heap, with the lock 8.\<close>

lemma sample_life:
  "\<exists>k. sys_inv k \<and> object_inv k \<and> whole_thread 7 k \<and> \<not> rt_object_is_systemobject (Obj 7) k \<and> rt_interrupt_nest k = 0
    \<and> rt_scheduler_lock_nest k = 0 \<and> rt_current_thread k = Some 7 \<and> stat_of k 7 = RT_THREAD_READY \<and> stat_of k 1 = RT_THREAD_READY
    \<and> on_tlist k Defunct = [] \<and> obj_type (objects k (Obj 7)) = RT_Object_Class_Thread \<and> th_lock (threads k 7) = Some 8"
proof -
  have "(0 :: rt_uint8_t) \<in> set life_name" by (simp add: life_name_def)
  then obtain k1 k where k: "rt_thread_startup 7 k1 = Some (RT_EOK, k)" "sys_inv k" "object_inv k" "started 7 5 0x8000 (Some 8) sample k"
    "obj_type (objects k (Obj 7)) = RT_Object_Class_Thread"
    using life_begins(1) [OF sample_sys_inv sample_objects_inv sample_settled sample_facts(9) sample_fresh(1),
        where block = "Some 8" and name = life_name and start = "0x8000" and sz = 1024
          and texit = 0 and entry = 0 and par = 0 and p = 5 and tick = 10] sample_fresh(2) by auto
  note s = k(4) [unfolded started_def]
  have "stat_of k 1 = RT_THREAD_READY" using s sample_facts(2) by (simp add: stat_of_def)
  moreover have "rt_current_thread k = Some 7" using s sample_facts(5,7,8) by simp
  moreover have "rt_scheduler_lock_nest k = 0" using s sample_facts(8) by simp
  ultimately show ?thesis
    using k s sample_facts(9) sample_fresh(3) by (auto simp: rt_object_is_systemobject_def rt_consts)
qed


theorem thread_exit_correct_witness:
  "\<exists>k k' c. rt_current_thread k = Some 7 \<and> rt_thread_exit (\<lambda>_ _. Some) k = Some k' \<and> sys_inv k' \<and> stat_of k' 7 = RT_THREAD_CLOSE
    \<and> rt_current_thread k' = Some c \<and> c \<noteq> 7 \<and> on_tlist k' Defunct = [7]"
proof -
  obtain k where k: "sys_inv k" "object_inv k" "whole_thread 7 k" "\<not> rt_object_is_systemobject (Obj 7) k" "rt_interrupt_nest k = 0"
    "rt_scheduler_lock_nest k = 0" "rt_current_thread k = Some 7" "stat_of k 7 = RT_THREAD_READY" "stat_of k 1 = RT_THREAD_READY" "on_tlist k Defunct = []"
    using sample_life by blast
  then show ?thesis
    using thread_exit_correct [OF k(1-3,5) cleanup_none k(7,8,6,9)] by (auto simp: thread_closed_def)
qed

theorem idle_frees_defunct_witness:
  "\<exists>k k'. on_tlist k Defunct = [7] \<and> rt_defunct_execute (\<lambda>_ _. Some) k = Some k' \<and> freed k' = Obj 7 # freed k \<and> on_tlist k' Defunct = []"
proof -
  obtain k0 where k0: "sys_inv k0" "object_inv k0" "whole_thread 7 k0" "\<not> rt_object_is_systemobject (Obj 7) k0" "rt_interrupt_nest k0 = 0"
    "stat_of k0 7 = RT_THREAD_READY" "on_tlist k0 Defunct = []" "obj_type (objects k0 (Obj 7)) = RT_Object_Class_Thread"
    using sample_life by blast
  then obtain k where "sys_inv k" "object_inv k" "on_tlist k Defunct = [7]" "objects k (Obj 7) = objects k0 (Obj 7)" "rt_interrupt_nest k = 0"
    using delete_ok [OF k0(1-3,5) cleanup_none _ k0(4)] by (auto simp: same_rest_def)
  then show ?thesis using idle_frees_defunct [OF _ _ cleanup_none, of k] k0(8) by auto
qed

text \<open>A cleanup function that counts its calls in the semaphore 9: deleting a thread and running the idle thread calls it twice.\<close>

definition count_cleanup :: "nat \<Rightarrow> tid \<Rightarrow> kernel \<Rightarrow> kernel option" where
  "count_cleanup c t k = Some (upd_sem 9 (\<lambda>sm. sm\<lparr>sem_value := sem_value sm + 1\<rparr>) k)"

theorem cleanup_called_twice:
  "map_option (\<lambda>k. sem_value (sems k 9))
     (do { (_, k) \<leftarrow> rt_thread_create 0 life_name 0 0 1024 20 10 (Some 7) 0x8000 (Some 8) sample;
           (_, k) \<leftarrow> rt_thread_startup 7 k;
           (_, k) \<leftarrow> rt_thread_delete count_cleanup 7 (upd_thread 7 (\<lambda>th. th\<lparr>th_cleanup := Some 1\<rparr>) k);
           rt_defunct_execute count_cleanup k }) = Some 2"
  by code_simp

end
