(* ===== verification/RT_Mutex.thy ===== *)
theory RT_Mutex
  imports RT_Ipc
begin

text \<open>
  Mutexes, the operations \<^verbatim>\<open>rt_mutex_*\<close> of \<^verbatim>\<open>kernel/src/ipc.c\<close>: recursive locks with an owner,
  whose priority is raised to that of a waiting thread and restored when the lock is given up.
\<close>

section \<open>The code\<close>

definition mutex_set :: "nat \<Rightarrow> kernel \<Rightarrow> kernel option" where
  "mutex_set m k =
     do { k \<leftarrow> tlist_init_head (Mutex_wait m) k;
          let k = upd_mutex m (\<lambda>_. \<lparr>mx_value = 1, mx_original_priority = 0xff, mx_hold = 0, mx_owner = None\<rparr>) k;
          Some (upd_object (Obj m) (\<lambda>ob. ob\<lparr>obj_flag := RT_IPC_FLAG_PRIO\<rparr>) k) }"

definition rt_mutex_init :: "nat \<Rightarrow> rt_uint8_t list \<Rightarrow> rt_uint8_t \<Rightarrow> kernel \<Rightarrow> (rt_err_t \<times> kernel) option" where
  "rt_mutex_init m name flag k =
     do { k \<leftarrow> rt_object_init (Obj m) RT_Object_Class_Mutex name k;
          k \<leftarrow> mutex_set m k;
          Some (RT_EOK, k) }"

definition rt_mutex_detach :: "nat \<Rightarrow> kernel \<Rightarrow> (rt_err_t \<times> kernel) option" where
  "rt_mutex_detach m k =
     do { RT_ASSERT (rt_object_get_type (Obj m) k = RT_Object_Class_Mutex);
          RT_ASSERT (rt_object_is_systemobject (Obj m) k);
          k \<leftarrow> rt_ipc_list_resume_all (Mutex_wait m) k;
          Some (RT_EOK, rt_object_detach (Obj m) k) }"

definition rt_mutex_create :: "rt_uint8_t list \<Rightarrow> rt_uint8_t \<Rightarrow> nat option \<Rightarrow> kernel \<Rightarrow> (nat option \<times> kernel) option" where
  "rt_mutex_create name flag block k =
     do { RT_DEBUG_NOT_IN_INTERRUPT k;
          (r, k) \<leftarrow> rt_object_allocate RT_Object_Class_Mutex name block k;
          case r of None \<Rightarrow> Some (None, k)
          | Some m \<Rightarrow> do { k \<leftarrow> mutex_set m k; Some (Some m, k) } }"

definition rt_mutex_delete :: "nat \<Rightarrow> kernel \<Rightarrow> (rt_err_t \<times> kernel) option" where
  "rt_mutex_delete m k =
     do { RT_DEBUG_NOT_IN_INTERRUPT k;
          RT_ASSERT (rt_object_get_type (Obj m) k = RT_Object_Class_Mutex);
          RT_ASSERT (\<not> rt_object_is_systemobject (Obj m) k);
          k \<leftarrow> rt_ipc_list_resume_all (Mutex_wait m) k;
          k \<leftarrow> rt_object_delete (Obj m) k;
          Some (RT_EOK, k) }"

text \<open>The code from the label \<^verbatim>\<open>__again\<close> on, which an interrupted wait goes back to.\<close>

definition mutex_again :: "nat \<Rightarrow> 32 word \<Rightarrow> tid \<Rightarrow> kernel \<Rightarrow> (rt_err_t outcome \<times> kernel) option" where
  "mutex_again m time t k =
     (let mx = mutexes k m in
      if 0 < mx_value mx then
        Some (Finished RT_EOK, upd_mutex m (\<lambda>mx. mx\<lparr>mx_value := mx_value mx - 1, mx_owner := Some t,
          mx_original_priority := prio_of k t, mx_hold := mx_hold mx + 1\<rparr>) k)
      else if time = 0 then Some (Finished (-RT_ETIMEOUT), upd_thread t (\<lambda>th. th\<lparr>th_error := RT_ETIMEOUT\<rparr>) k)
      else case mx_owner mx of None \<Rightarrow> Some (Finished (-RT_ERROR), k)
        | Some ow \<Rightarrow>
            do { k \<leftarrow> (if prio_of k t < prio_of k ow
                       then do { (_, k) \<leftarrow> rt_thread_change_priority ow (prio_of k t) k; Some k } else Some k);
                 k \<leftarrow> ipc_wait (Mutex_wait m) t (obj_flag (objects k (Obj m))) time k;
                 Some (Waiting t, k) })"

definition rt_mutex_take :: "nat \<Rightarrow> 32 word \<Rightarrow> kernel \<Rightarrow> (rt_err_t outcome \<times> kernel) option" where
  "rt_mutex_take m time k =
     do { RT_DEBUG_IN_THREAD_CONTEXT k;
          RT_ASSERT (rt_object_get_type (Obj m) k = RT_Object_Class_Mutex);
          case rt_thread_self k of None \<Rightarrow> Some (Finished RT_EOK, k)
          | Some t \<Rightarrow>
              do { let k = upd_thread t (\<lambda>th. th\<lparr>th_error := RT_EOK\<rparr>) k;
                   if mx_owner (mutexes k m) = Some t
                   then Some (Finished RT_EOK, upd_mutex m (\<lambda>mx. mx\<lparr>mx_hold := mx_hold mx + 1\<rparr>) k)
                   else mutex_again m time t k } }"

definition rt_mutex_take_back :: "nat \<Rightarrow> 32 word \<Rightarrow> tid \<Rightarrow> kernel \<Rightarrow> (rt_err_t outcome \<times> kernel) option" where
  "rt_mutex_take_back m time t k =
     (if th_error (threads k t) \<noteq> RT_EOK then
        if th_error (threads k t) = RT_EINTR then mutex_again m time t k
        else Some (Finished (- th_error (threads k t)), k)
      else Some (Finished RT_EOK, k))"

definition rt_mutex_trytake :: "nat \<Rightarrow> kernel \<Rightarrow> (rt_err_t outcome \<times> kernel) option" where
  "rt_mutex_trytake m k = rt_mutex_take m 0 k"

text \<open>\<^verbatim>\<open>rt_mutex_release\<close> once the last hold is given up; the flag says whether to call the scheduler.\<close>

definition mutex_unlock :: "nat \<Rightarrow> tid \<Rightarrow> kernel \<Rightarrow> (bool \<times> kernel) option" where
  "mutex_unlock m ow k =
     do { k \<leftarrow> (if mx_original_priority (mutexes k m) \<noteq> prio_of k ow
                then do { (_, k) \<leftarrow> rt_thread_change_priority ow (mx_original_priority (mutexes k m)) k; Some k } else Some k);
          case on_tlist k (Mutex_wait m) of
            t # _ \<Rightarrow>
              do { let k = upd_mutex m (\<lambda>mx. mx\<lparr>mx_owner := Some t, mx_original_priority := prio_of k t,
                     mx_hold := mx_hold mx + 1\<rparr>) k;
                   k \<leftarrow> rt_ipc_list_resume (Mutex_wait m) k;
                   Some (True, k) }
          | [] \<Rightarrow> Some (False, upd_mutex m (\<lambda>mx. mx\<lparr>mx_value := mx_value mx + 1, mx_owner := None,
                     mx_original_priority := 0xff\<rparr>) k) }"

definition rt_mutex_release :: "nat \<Rightarrow> kernel \<Rightarrow> (rt_err_t \<times> kernel) option" where
  "rt_mutex_release m k =
     do { RT_ASSERT (rt_object_get_type (Obj m) k = RT_Object_Class_Mutex);
          RT_DEBUG_IN_THREAD_CONTEXT k;
          case rt_thread_self k of None \<Rightarrow> Some (RT_EOK, k)
          | Some t \<Rightarrow>
              if mx_owner (mutexes k m) \<noteq> Some t then
                Some (-RT_ERROR, upd_thread t (\<lambda>th. th\<lparr>th_error := RT_ERROR\<rparr>) k)
              else do {
                let k = upd_mutex m (\<lambda>mx. mx\<lparr>mx_hold := mx_hold mx - 1\<rparr>) k;
                if mx_hold (mutexes k m) = 0 then
                  do { (sched, k) \<leftarrow> mutex_unlock m t k;
                       k \<leftarrow> (if sched then rt_schedule k else Some k);
                       Some (RT_EOK, k) }
                else Some (RT_EOK, k) } }"

definition rt_mutex_control :: "nat \<Rightarrow> int \<Rightarrow> kernel \<Rightarrow> rt_err_t option" where
  "rt_mutex_control m cmd k =
     do { RT_ASSERT (rt_object_get_type (Obj m) k = RT_Object_Class_Mutex); Some (-RT_ERROR) }"

section \<open>Invariant\<close>

definition mutex_avail :: "nat \<Rightarrow> kernel \<Rightarrow> bool" where
  "mutex_avail m k \<longleftrightarrow> mx_value (mutexes k m) \<noteq> 0"

text \<open>A mutex is free, or it has an owner that is alive and does not wait for it.\<close>

definition mutex_inv :: "nat \<Rightarrow> kernel \<Rightarrow> bool" where
  "mutex_inv m k \<longleftrightarrow> rt_object_get_type (Obj m) k = RT_Object_Class_Mutex \<and> obj_flag (objects k (Obj m)) = RT_IPC_FLAG_PRIO
     \<and> (case mx_owner (mutexes k m) of
          None \<Rightarrow> mx_value (mutexes k m) = 1 \<and> mx_hold (mutexes k m) = 0 \<and> on_tlist k (Mutex_wait m) = []
        | Some ow \<Rightarrow> mx_value (mutexes k m) = 0 \<and> mx_hold (mutexes k m) \<noteq> 0 \<and> alive k ow \<and> ow \<notin> set (on_tlist k (Mutex_wait m)))"

interpretation mutex_wait: waiting "Mutex_wait m" "mutex_avail m" for m
  by unfold_locales (simp_all add: mutex_avail_def same_ipc_def)

lemma mutex_inv_parked: "mutex_inv m k \<Longrightarrow> parked (Mutex_wait m) (mutex_avail m) k"
  by (auto simp: mutex_inv_def parked_def mutex_avail_def split: option.splits)

lemma mutex_inv_owner:
  assumes "mutex_inv m k" and "mx_owner (mutexes k m) = Some ow"
  shows "mx_value (mutexes k m) = 0" "mx_hold (mutexes k m) \<noteq> 0" "alive k ow" "ow \<notin> set (on_tlist k (Mutex_wait m))"
    "obj_flag (objects k (Obj m)) = RT_IPC_FLAG_PRIO" "rt_object_get_type (Obj m) k = RT_Object_Class_Mutex"
  using assms by (simp_all add: mutex_inv_def)

lemma in_thread_context: "rt_current_thread k = Some t \<Longrightarrow> rt_interrupt_nest k = 0 \<Longrightarrow> RT_DEBUG_IN_THREAD_CONTEXT k = Some ()"
  by (simp add: RT_DEBUG_IN_THREAD_CONTEXT_def RT_DEBUG_NOT_IN_INTERRUPT_def rt_interrupt_get_nest_def)

lemma wait_order_cong_set:
  assumes "prio_of k' t = prio_of k t" and "\<forall>u\<in>set ts. prio_of k' u = prio_of k u"
  shows "wait_order fl k' t ts = wait_order fl k t ts"
proof -
  have "takeWhile (\<lambda>u. prio_of k' u \<le> prio_of k t) ts = takeWhile (\<lambda>u. prio_of k u \<le> prio_of k t) ts"
    "dropWhile (\<lambda>u. prio_of k' u \<le> prio_of k t) ts = dropWhile (\<lambda>u. prio_of k u \<le> prio_of k t) ts"
    using assms(2) by (auto intro: takeWhile_cong dropWhile_cong)
  then show ?thesis by (simp add: wait_order_def assms(1))
qed

section \<open>Taking\<close>

lemma mutex_take_free:
  assumes "mutex_inv m k" and "mx_owner (mutexes k m) = None" and "rt_current_thread k = Some t" and "rt_interrupt_nest k = 0"
  shows "rt_mutex_take m time k = Some (Finished RT_EOK,
    upd_mutex m (\<lambda>_. \<lparr>mx_value = 0, mx_original_priority = prio_of k t, mx_hold = 1, mx_owner = Some t\<rparr>)
      (upd_thread t (\<lambda>th. th\<lparr>th_error := RT_EOK\<rparr>) k))"
  using assms in_thread_context [OF assms(3,4)]
  by (cases "mutexes k m") (simp add: rt_mutex_take_def mutex_inv_def rt_thread_self_def mutex_again_def upd_mutex_def)

lemma mutex_take_again:
  assumes "mutex_inv m k" and "mx_owner (mutexes k m) = Some t" and "rt_current_thread k = Some t" and "rt_interrupt_nest k = 0"
  shows "rt_mutex_take m time k = Some (Finished RT_EOK, upd_mutex m (\<lambda>mx. mx\<lparr>mx_hold := mx_hold mx + 1\<rparr>)
      (upd_thread t (\<lambda>th. th\<lparr>th_error := RT_EOK\<rparr>) k))"
  using assms in_thread_context [OF assms(3,4)]
  by (simp add: rt_mutex_take_def mutex_inv_def rt_thread_self_def)

lemma mutex_take_refused:
  assumes "mutex_inv m k" and "mx_owner (mutexes k m) = Some ow" "ow \<noteq> t" and "rt_current_thread k = Some t" and "rt_interrupt_nest k = 0"
  shows "rt_mutex_take m 0 k = Some (Finished (-RT_ETIMEOUT), upd_thread t (\<lambda>th. th\<lparr>th_error := RT_ETIMEOUT\<rparr>) k)"
  using assms in_thread_context [OF assms(4,5)] mutex_inv_owner [OF assms(1,2)]
  by (simp add: rt_mutex_take_def rt_thread_self_def mutex_again_def) (simp add: upd_thread_def)

text \<open>Raising the priority of the owner to that of the waiting thread, when it is lower.\<close>

lemma mutex_raise_owner:
  assumes inv: "sys_inv k" and al: "alive k ow"
  shows "\<exists>k'. (if p < prio_of k ow then do { (_, k) \<leftarrow> rt_thread_change_priority ow p k; Some k } else Some k) = Some k'
    \<and> sys_inv k' \<and> same_ipc k k' \<and> prio_of k' ow = min (prio_of k ow) p \<and> stat_of k' = stat_of k
    \<and> (\<forall>u. u \<noteq> ow \<longrightarrow> threads k' u = threads k u) \<and> th_error (threads k' ow) = th_error (threads k ow)
    \<and> rt_current_thread k' = rt_current_thread k \<and> (\<forall>q. is_wait_list q \<longrightarrow> on_tlist k' q = on_tlist k q)"
proof (cases "p < prio_of k ow")
  case True
  then show ?thesis using sys_change_priority [OF inv al, of p] by auto
next
  case False
  then show ?thesis using inv by (auto simp: min_def)
qed

lemma mutex_take_waits:
  assumes inv: "sys_inv k" and m: "mutex_inv m k" and ow: "mx_owner (mutexes k m) = Some ow" "ow \<noteq> t"
    and cur: "rt_current_thread k = Some t" and ir: "rt_interrupt_nest k = 0" and st: "stat_of k t = RT_THREAD_READY"
    and time: "time \<noteq> 0" "time \<noteq> 0x7fffffff" and u: "stat_of k u = RT_THREAD_READY" "u \<noteq> t"
  shows "\<exists>k'. rt_mutex_take m time k = Some (Waiting t, k') \<and> sys_inv k' \<and> mutex_inv m k' \<and> same_ipc k k'
    \<and> on_tlist k' (Mutex_wait m) = wait_order RT_IPC_FLAG_PRIO k t (on_tlist k (Mutex_wait m))
    \<and> (\<forall>q'. is_wait_list q' \<and> q' \<noteq> Mutex_wait m \<longrightarrow> on_tlist k' q' = on_tlist k q')
    \<and> stat_of k' t = RT_THREAD_SUSPEND \<and> th_error (threads k' t) = RT_EOK \<and> prio_of k' t = prio_of k t
    \<and> prio_of k' ow = min (prio_of k ow) (prio_of k t) \<and> (\<forall>v. v \<noteq> t \<longrightarrow> stat_of k' v = stat_of k v)
    \<and> (\<forall>v. v \<noteq> t \<and> v \<noteq> ow \<longrightarrow> threads k' v = threads k v)
    \<and> (if 0 < sint time then home (timer_lists k') (Thread_timer t) = Some Hard_timers
          \<and> tm_timeout_tick (timers k' (Thread_timer t)) = rt_tick k + time
        else home (timer_lists k') (Thread_timer t) = None)
    \<and> (rt_scheduler_lock_nest k = 0 \<longrightarrow> (\<exists>v. rt_current_thread k' = Some v \<and> first_ready k' v))"
proof -
  let ?k0 = "upd_thread t (\<lambda>th. th\<lparr>th_error := RT_EOK\<rparr>) k"
  let ?q = "Mutex_wait m"
  note mo = mutex_inv_owner [OF m ow(1)]
  have inv0: "sys_inv ?k0" using inv by (rule sys_inv_upd_error)
  have al0: "alive ?k0 ow" using mo(3) by (simp add: alive_def)
  obtain k1 where k1: "(if prio_of k t < prio_of ?k0 ow then do { (_, k) \<leftarrow> rt_thread_change_priority ow (prio_of k t) ?k0; Some k }
      else Some ?k0) = Some k1" "sys_inv k1" "same_ipc ?k0 k1" "prio_of k1 ow = min (prio_of ?k0 ow) (prio_of k t)" "stat_of k1 = stat_of ?k0"
    "\<forall>u. u \<noteq> ow \<longrightarrow> threads k1 u = threads ?k0 u" "\<forall>q. is_wait_list q \<longrightarrow> on_tlist k1 q = on_tlist ?k0 q"
    using mutex_raise_owner [OF inv0 al0] by blast
  have ipc1: "same_ipc k k1" using same_ipc_sched(3) k1(3) by (rule same_ipc_trans)
  have na: "\<not> mutex_avail m k1" using mutex_wait.avail_frame [OF ipc1] mo(1) by (simp add: mutex_avail_def)
  have st1: "stat_of k1 t = RT_THREAD_READY" "stat_of k1 u = RT_THREAD_READY" using k1(5) st u by simp_all
  have fl: "obj_flag (objects k1 (Obj m)) = RT_IPC_FLAG_PRIO" using ipc1 mo(5) by (simp add: same_ipc_def)
  obtain k2 where k2: "ipc_wait ?q t RT_IPC_FLAG_PRIO time k1 = Some k2" "sys_inv k2" "same_ipc k1 k2"
    "threads k2 = (threads k1)(t := set_stat RT_THREAD_SUSPEND (threads k1 t))"
    "on_tlist k2 ?q = wait_order RT_IPC_FLAG_PRIO k1 t (on_tlist k1 ?q)"
    "\<forall>q'. is_wait_list q' \<and> q' \<noteq> ?q \<longrightarrow> on_tlist k2 q' = on_tlist k1 q'"
    "if 0 < sint time then home (timer_lists k2) (Thread_timer t) = Some Hard_timers
          \<and> tm_timeout_tick (timers k2 (Thread_timer t)) = rt_tick k1 + time
        else home (timer_lists k2) (Thread_timer t) = None"
    "if rt_scheduler_lock_nest k1 = 0 then \<exists>v. rt_current_thread k2 = Some v \<and> first_ready k2 v
        else rt_current_thread k2 = rt_current_thread k1"
    using mutex_wait.block [OF k1(2) na st1(1) disjI2 [OF refl] time(2) st1(2) u(2)] by blast
  have ipc: "same_ipc k k2" using ipc1 k2(3) by (rule same_ipc_trans)
  have "rt_mutex_take m time k = Some (Waiting t, k2)"
    using in_thread_context [OF cur ir] cur mo ow time(1) k1(1) k2(1) fl
    by (auto simp: rt_mutex_take_def rt_thread_self_def mutex_again_def Let_def bind_Some_iff split: if_splits)
  moreover have pr1: "prio_of k1 v = prio_of k v" if "v \<noteq> ow" for v using k1(6) that by (simp add: prio_of_def)
  have "wait_order RT_IPC_FLAG_PRIO k1 t (on_tlist k1 ?q) = wait_order RT_IPC_FLAG_PRIO k t (on_tlist k ?q)"
    using wait_order_cong_set [of k1 t k "on_tlist k ?q" RT_IPC_FLAG_PRIO] pr1 ow(2) mo(4) k1(7) by (metis is_wait_list_simps(2) upd_thread_frame(3))
  moreover have stv: "stat_of k2 t = RT_THREAD_SUSPEND" "th_error (threads k2 t) = RT_EOK" "prio_of k2 t = prio_of k t"
    using k2(4) k1(6) ow(2) by (simp_all add: stat_of_def prio_of_def set_stat_masked)
  moreover have "prio_of k2 ow = min (prio_of k ow) (prio_of k t)" using k2(4) k1(4) ow(2) by (simp add: prio_of_def)
  moreover have "\<forall>v. v \<noteq> t \<longrightarrow> stat_of k2 v = stat_of k v" using k2(4) k1(5) by (simp add: stat_of_def fun_eq_iff)
  moreover have "\<forall>v. v \<noteq> t \<and> v \<noteq> ow \<longrightarrow> threads k2 v = threads k v" using k2(4) k1(6) by simp
  moreover have "\<forall>q'. is_wait_list q' \<and> q' \<noteq> ?q \<longrightarrow> on_tlist k2 q' = on_tlist k q'" using k2(6) k1(7) by simp
  moreover have "rt_tick k1 = rt_tick k" "rt_scheduler_lock_nest k1 = rt_scheduler_lock_nest k" using ipc1 by (simp_all add: same_ipc_def)
  moreover have "mutex_inv m k2"
  proof -
    have "ow \<notin> set (on_tlist k2 ?q)" using k2(5) k1(7) mo(4) ow(2) by (simp add: wait_order_set)
    moreover have "alive k2 ow" using mo(3) ow(2) k2(4) k1(5) by (simp add: alive_def stat_of_def fun_eq_iff)
    ultimately show ?thesis using m ow(1) ipc by (simp add: mutex_inv_def same_ipc_def rt_object_get_type_def)
  qed
  ultimately show ?thesis using k2(2,5,7,8) ipc by (intro exI [of _ k2]) simp
qed

section \<open>Releasing\<close>

lemma mutex_release_foreign:
  assumes "mutex_inv m k" and "mx_owner (mutexes k m) \<noteq> Some t" and "rt_current_thread k = Some t" and "rt_interrupt_nest k = 0"
  shows "rt_mutex_release m k = Some (-RT_ERROR, upd_thread t (\<lambda>th. th\<lparr>th_error := RT_ERROR\<rparr>) k)"
  using assms in_thread_context [OF assms(3,4)]
  by (simp add: rt_mutex_release_def mutex_inv_def rt_thread_self_def)

lemma mutex_release_nested:
  assumes "mutex_inv m k" and "mx_owner (mutexes k m) = Some t" and "mx_hold (mutexes k m) \<noteq> 1"
    and "rt_current_thread k = Some t" and "rt_interrupt_nest k = 0"
  shows "rt_mutex_release m k = Some (RT_EOK, upd_mutex m (\<lambda>mx. mx\<lparr>mx_hold := mx_hold mx - 1\<rparr>) k)"
  using assms in_thread_context [OF assms(4,5)]
  by (simp add: rt_mutex_release_def mutex_inv_def rt_thread_self_def)

lemma mutex_restore_owner:
  assumes inv: "sys_inv k" and al: "alive k ow"
  shows "\<exists>k'. (if p \<noteq> prio_of k ow then do { (_, k) \<leftarrow> rt_thread_change_priority ow p k; Some k } else Some k) = Some k'
    \<and> sys_inv k' \<and> same_ipc k k' \<and> prio_of k' ow = p \<and> stat_of k' = stat_of k
    \<and> (\<forall>u. u \<noteq> ow \<longrightarrow> threads k' u = threads k u) \<and> rt_current_thread k' = rt_current_thread k
    \<and> (\<forall>q. is_wait_list q \<longrightarrow> on_tlist k' q = on_tlist k q)"
proof (cases "p = prio_of k ow")
  case False
  then show ?thesis using sys_change_priority [OF inv al, of p] by auto
next
  case True
  then show ?thesis using inv by auto
qed

text \<open>The last hold: the owner gets its priority back, the first waiter gets the mutex.\<close>

lemma mutex_release_last:
  assumes inv: "sys_inv k" and m: "mutex_inv m k" and ow: "mx_owner (mutexes k m) = Some t" "mx_hold (mutexes k m) = 1"
    and cur: "rt_current_thread k = Some t" and ir: "rt_interrupt_nest k = 0"
  shows "\<exists>k'. rt_mutex_release m k = Some (RT_EOK, k') \<and> sys_inv k' \<and> mutex_inv m k'
    \<and> prio_of k' t = mx_original_priority (mutexes k m) \<and> stat_of k' t = stat_of k t
    \<and> (\<forall>m'. m' \<noteq> m \<longrightarrow> mutexes k' m' = mutexes k m') \<and> (\<forall>n. objects k' (Obj n) = objects k (Obj n))
    \<and> rt_interrupt_nest k' = rt_interrupt_nest k
    \<and> (\<forall>q. is_wait_list q \<and> q \<noteq> Mutex_wait m \<longrightarrow> on_tlist k' q = on_tlist k q)
    \<and> (case on_tlist k (Mutex_wait m) of
         [] \<Rightarrow> mx_owner (mutexes k' m) = None \<and> rt_current_thread k' = Some t \<and> (\<forall>v. v \<noteq> t \<longrightarrow> threads k' v = threads k v)
       | w # ws \<Rightarrow> mx_owner (mutexes k' m) = Some w \<and> mx_hold (mutexes k' m) = 1
           \<and> mx_original_priority (mutexes k' m) = prio_of k w \<and> on_tlist k' (Mutex_wait m) = ws
           \<and> stat_of k' w = RT_THREAD_READY \<and> th_error (threads k' w) = th_error (threads k w) \<and> prio_of k' w = prio_of k w
           \<and> (\<forall>v. v \<noteq> t \<and> v \<noteq> w \<longrightarrow> threads k' v = threads k v) \<and> home (timer_lists k') (Thread_timer w) = None
           \<and> (rt_scheduler_lock_nest k = 0 \<longrightarrow> (\<exists>v. rt_current_thread k' = Some v \<and> first_ready k' v)))"
proof -
  note mo = mutex_inv_owner [OF m ow(1)]
  let ?q = "Mutex_wait m"
  let ?k0 = "upd_mutex m (\<lambda>mx. mx\<lparr>mx_hold := mx_hold mx - 1\<rparr>) k"
  let ?p = "mx_original_priority (mutexes k m)"
  have inv0: "sys_inv ?k0" and al0: "alive ?k0 t" using inv mo(3) by (simp_all add: alive_def)
  obtain k1 where k1: "(if ?p \<noteq> prio_of ?k0 t then do { (_, k) \<leftarrow> rt_thread_change_priority t ?p ?k0; Some k } else Some ?k0) = Some k1"
    "sys_inv k1" "same_ipc ?k0 k1" "prio_of k1 t = ?p" "stat_of k1 = stat_of ?k0" "\<forall>u. u \<noteq> t \<longrightarrow> threads k1 u = threads ?k0 u"
    "rt_current_thread k1 = rt_current_thread ?k0" "\<forall>q. is_wait_list q \<longrightarrow> on_tlist k1 q = on_tlist ?k0 q"
    using mutex_restore_owner [OF inv0 al0, of ?p] by blast
  have mx1: "mutexes k1 m = (mutexes k m)\<lparr>mx_hold := 0\<rparr>" using k1(3) ow(2) by (simp add: same_ipc_def)
  have ob1: "obj_flag (objects k1 (Obj m)) = RT_IPC_FLAG_PRIO" "rt_object_get_type (Obj m) k1 = RT_Object_Class_Mutex"
    using k1(3) mo(5,6) by (simp_all add: same_ipc_def rt_object_get_type_def)
  have fr1: "\<forall>m'. m' \<noteq> m \<longrightarrow> mutexes k1 m' = mutexes k m'" "\<forall>n. objects k1 (Obj n) = objects k (Obj n)"
    "rt_interrupt_nest k1 = rt_interrupt_nest k" "\<forall>q. is_wait_list q \<longrightarrow> on_tlist k1 q = on_tlist k q"
    using k1(3,8) by (simp_all add: same_ipc_def)
  have l1: "on_tlist k1 ?q = on_tlist k ?q" using k1(8) by simp
  have st1: "stat_of k1 = stat_of k" using k1(5) by simp
  have pr1: "prio_of k1 v = prio_of k v" "th_error (threads k1 v) = th_error (threads k v)" if "v \<noteq> t" for v
    using k1(6) that by (simp_all add: prio_of_def)
  show ?thesis
  proof (cases "on_tlist k ?q")
    case Nil
    let ?k2 = "upd_mutex m (\<lambda>mx. mx\<lparr>mx_value := mx_value mx + 1, mx_owner := None, mx_original_priority := 0xff\<rparr>) k1"
    have "mutex_unlock m t ?k0 = Some (False, ?k2)"
      using k1(1) l1 Nil by (auto simp: mutex_unlock_def bind_Some_iff split: if_splits)
    then have "rt_mutex_release m k = Some (RT_EOK, ?k2)"
      using in_thread_context [OF cur ir] cur mo ow by (simp add: rt_mutex_release_def rt_thread_self_def)
    moreover have "mutex_inv m ?k2" using l1 Nil ob1 mo(1) by (simp add: mutex_inv_def mx1)
    ultimately show ?thesis using Nil k1 st1 cur fr1 by (intro exI [of _ ?k2]) simp
  next
    case (Cons w ws)
    have wt: "w \<noteq> t" using mo(4) Cons by auto
    let ?k2 = "upd_mutex m (\<lambda>mx. mx\<lparr>mx_owner := Some w, mx_original_priority := prio_of k1 w, mx_hold := mx_hold mx + 1\<rparr>) k1"
    have inv2: "sys_inv ?k2" using k1(2) by simp
    have l2: "on_tlist ?k2 ?q = w # ws" using l1 Cons by simp
    have "parked ?q (mutex_avail m) ?k2" using mo(1) by (simp add: parked_def mutex_avail_def mx1)
    from mutex_wait.wake_first [OF inv2 this l2]
    obtain k3 where k3: "rt_ipc_list_resume ?q ?k2 = Some k3" "sys_inv k3" "same_ipc ?k2 k3"
      "threads k3 = (threads ?k2)(w := set_stat RT_THREAD_READY (threads ?k2 w))" "stat_of k3 w = RT_THREAD_READY" "on_tlist k3 ?q = ws"
      "home (timer_lists k3) (Thread_timer w) = None"
      "\<forall>q'. is_wait_list q' \<and> q' \<noteq> ?q \<longrightarrow> on_tlist k3 q' = on_tlist ?k2 q'" by blast
    obtain k4 where k4: "rt_schedule k3 = Some k4" "sys_inv k4" "same_ipc k3 k4" "threads k4 = threads k3" "tlists k4 = tlists k3"
      "timer_lists k4 = timer_lists k3"
      "if rt_scheduler_lock_nest k3 = 0 then \<exists>v. rt_current_thread k4 = Some v \<and> first_ready k4 v else k4 = k3"
      using sys_schedule [OF k3(2,5)] by blast
    have "mutex_unlock m t ?k0 = Some (True, k3)"
      using k1(1) l1 Cons k3(1) by (auto simp: mutex_unlock_def bind_Some_iff split: if_splits)
    then have "rt_mutex_release m k = Some (RT_EOK, k4)"
      using in_thread_context [OF cur ir] cur mo ow k4(1) by (simp add: rt_mutex_release_def rt_thread_self_def)
    moreover have th4: "stat_of k4 = (stat_of k)(w := RT_THREAD_READY)" "prio_of k4 = prio_of k1"
      using k4(4) k3(4,5) st1 by (auto simp: stat_of_def prio_of_def fun_eq_iff)
    moreover have mx4: "mutexes k4 m = (mutexes k m)\<lparr>mx_hold := 1, mx_owner := Some w, mx_original_priority := prio_of k1 w\<rparr>"
      using k3(3) k4(3) by (simp add: same_ipc_def mx1)
    moreover have l4: "on_tlist k4 ?q = ws" using k4(5) k3(6) by (simp add: on_tlist_def)
    moreover have "mutex_inv m k4"
    proof -
      have "w \<notin> set ws" using wait_list_distinct [OF sys_invD(5) [OF inv], of ?q] Cons by simp
      moreover have "alive k4 w" using th4(1) by (simp add: alive_def)
      moreover have "obj_flag (objects k4 (Obj m)) = RT_IPC_FLAG_PRIO" "rt_object_get_type (Obj m) k4 = RT_Object_Class_Mutex"
        using ob1 k3(3) k4(3) by (simp_all add: same_ipc_def rt_object_get_type_def)
      ultimately show ?thesis using mo(1) l4 by (simp add: mutex_inv_def mx4)
    qed
    moreover have "\<forall>m'. m' \<noteq> m \<longrightarrow> mutexes k4 m' = mutexes k m'" "\<forall>n. objects k4 (Obj n) = objects k (Obj n)"
        "rt_interrupt_nest k4 = rt_interrupt_nest k"
      using fr1 k3(3) k4(3) by (simp_all add: same_ipc_def)
    moreover have "\<forall>q. is_wait_list q \<and> q \<noteq> ?q \<longrightarrow> on_tlist k4 q = on_tlist k q"
      using k4(5) k3(8) fr1(4) by (simp add: on_tlist_def)
    moreover have "rt_scheduler_lock_nest k3 = rt_scheduler_lock_nest k" using k3(3) k1(3) by (simp add: same_ipc_def)
    moreover have "th_error (threads k4 w) = th_error (threads k w)" "\<forall>v. v \<noteq> t \<and> v \<noteq> w \<longrightarrow> threads k4 v = threads k v"
      using k4(4) k3(4) k1(6) wt by simp_all
    ultimately show ?thesis using Cons wt pr1 k1(4) k4 k3(7) by (intro exI [of _ k4]) simp
  qed
qed

section \<open>Properties\<close>

text \<open>C12: \<^verbatim>\<open>rt_mutex_take\<close> on every branch.  A free mutex is taken with one hold and the caller's priority
  recorded; the owner takes it again by counting; another thread is refused with \<^verbatim>\<open>-RT_ETIMEOUT\<close> when it
  does not want to wait, and otherwise waits in the order of priorities while the owner runs at least at the
  priority of the waiter (priority inheritance).  In every case the mutex has at most one owner, which does not wait
  for it, and all invariants hold.\<close>

theorem mutex_take_correct:
  assumes "sys_inv k" and "mutex_inv m k" and "rt_current_thread k = Some t" and "rt_interrupt_nest k = 0"
    and "stat_of k t = RT_THREAD_READY" and "time \<noteq> 0" "time \<noteq> 0x7fffffff" and "stat_of k u = RT_THREAD_READY" "u \<noteq> t"
  shows "(mx_owner (mutexes k m) = None \<longrightarrow> (\<exists>k'. rt_mutex_take m time k = Some (Finished RT_EOK, k') \<and> sys_inv k' \<and> mutex_inv m k'
        \<and> mutexes k' m = \<lparr>mx_value = 0, mx_original_priority = prio_of k t, mx_hold = 1, mx_owner = Some t\<rparr>))
    \<and> (mx_owner (mutexes k m) = Some t \<and> mx_hold (mutexes k m) \<noteq> 0xff \<longrightarrow> (\<exists>k'. rt_mutex_take m time k = Some (Finished RT_EOK, k')
        \<and> sys_inv k' \<and> mutex_inv m k' \<and> mutexes k' m = (mutexes k m)\<lparr>mx_hold := mx_hold (mutexes k m) + 1\<rparr>))
    \<and> (\<forall>ow. mx_owner (mutexes k m) = Some ow \<and> ow \<noteq> t \<longrightarrow>
        (\<exists>k'. rt_mutex_take m 0 k = Some (Finished (-RT_ETIMEOUT), k') \<and> sys_inv k' \<and> mutex_inv m k' \<and> mutexes k' = mutexes k)
        \<and> (\<exists>k'. rt_mutex_take m time k = Some (Waiting t, k') \<and> sys_inv k' \<and> mutex_inv m k' \<and> mutexes k' = mutexes k
             \<and> on_tlist k' (Mutex_wait m) = wait_order RT_IPC_FLAG_PRIO k t (on_tlist k (Mutex_wait m))
             \<and> prio_of k' ow = min (prio_of k ow) (prio_of k t) \<and> prio_of k' ow \<le> prio_of k' t
             \<and> (\<forall>v. v \<noteq> t \<and> v \<noteq> ow \<longrightarrow> threads k' v = threads k v)))"
proof (intro conjI impI allI)
  let ?k0 = "\<lambda>e. upd_thread t (\<lambda>th. th\<lparr>th_error := e\<rparr>) k"
  have inv0: "sys_inv (?k0 e)" for e using assms(1) by (rule sys_inv_upd_error)
  have ob: "rt_object_get_type (Obj m) k = RT_Object_Class_Mutex" "obj_flag (objects k (Obj m)) = RT_IPC_FLAG_PRIO"
    using assms(2) by (simp_all add: mutex_inv_def)
  have al: "alive k t" using assms(5) by (rule aliveI)
  have nw: "t \<notin> set (on_tlist k (Mutex_wait m))"
    using wait_list_suspended(1) [OF sys_invD(5) [OF assms(1)], of "Mutex_wait m" t] assms(5) by auto
  {
    assume free: "mx_owner (mutexes k m) = None"
    let ?k = "upd_mutex m (\<lambda>_. \<lparr>mx_value = 0, mx_original_priority = prio_of k t, mx_hold = 1, mx_owner = Some t\<rparr>) (?k0 RT_EOK)"
    have "mutex_inv m ?k" using ob al nw by (simp add: mutex_inv_def alive_def)
    then show "\<exists>k'. rt_mutex_take m time k = Some (Finished RT_EOK, k') \<and> sys_inv k' \<and> mutex_inv m k'
        \<and> mutexes k' m = \<lparr>mx_value = 0, mx_original_priority = prio_of k t, mx_hold = 1, mx_owner = Some t\<rparr>"
      using mutex_take_free [OF assms(2) free assms(3,4)] inv0 by (intro exI [of _ ?k]) simp
  next
    assume own: "mx_owner (mutexes k m) = Some t \<and> mx_hold (mutexes k m) \<noteq> 0xff"
    let ?k = "upd_mutex m (\<lambda>mx. mx\<lparr>mx_hold := mx_hold mx + 1\<rparr>) (?k0 RT_EOK)"
    have "mx_hold (mutexes k m) + 1 \<noteq> 0"
    proof
      assume "mx_hold (mutexes k m) + 1 = 0"
      then have "mx_hold (mutexes k m) = - 1" by (simp add: eq_neg_iff_add_eq_0)
      then show False using own by simp
    qed
    then have "mutex_inv m ?k" using assms(2) own by (simp add: mutex_inv_def alive_def)
    then show "\<exists>k'. rt_mutex_take m time k = Some (Finished RT_EOK, k')
        \<and> sys_inv k' \<and> mutex_inv m k' \<and> mutexes k' m = (mutexes k m)\<lparr>mx_hold := mx_hold (mutexes k m) + 1\<rparr>"
      using mutex_take_again [OF assms(2) _ assms(3,4), of time] own inv0 by (intro exI [of _ ?k]) simp
  next
    fix ow assume ow: "mx_owner (mutexes k m) = Some ow \<and> ow \<noteq> t"
    have "mutex_inv m (?k0 RT_ETIMEOUT)" using assms(2) by (simp add: mutex_inv_def alive_def split: option.splits)
    then show "\<exists>k'. rt_mutex_take m 0 k = Some (Finished (-RT_ETIMEOUT), k') \<and> sys_inv k' \<and> mutex_inv m k' \<and> mutexes k' = mutexes k"
      using mutex_take_refused [OF assms(2) _ _ assms(3,4), of ow] ow inv0 by simp
    show "\<exists>k'. rt_mutex_take m time k = Some (Waiting t, k') \<and> sys_inv k' \<and> mutex_inv m k' \<and> mutexes k' = mutexes k
             \<and> on_tlist k' (Mutex_wait m) = wait_order RT_IPC_FLAG_PRIO k t (on_tlist k (Mutex_wait m))
             \<and> prio_of k' ow = min (prio_of k ow) (prio_of k t) \<and> prio_of k' ow \<le> prio_of k' t
             \<and> (\<forall>v. v \<noteq> t \<and> v \<noteq> ow \<longrightarrow> threads k' v = threads k v)"
      using mutex_take_waits [OF assms(1,2) _ _ assms(3-9), of ow] ow by (auto simp: same_ipc_def)
  }
qed

definition sample_mutex :: "tid option \<Rightarrow> kernel" where
  "sample_mutex ow = upd_mutex 5 (\<lambda>_. case ow of None \<Rightarrow> \<lparr>mx_value = 1, mx_original_priority = 0xff, mx_hold = 0, mx_owner = None\<rparr>
     | Some t \<Rightarrow> \<lparr>mx_value = 0, mx_original_priority = prio_of sample t, mx_hold = 1, mx_owner = Some t\<rparr>)
     (sample_with RT_Object_Class_Mutex RT_IPC_FLAG_PRIO)"

lemma sample_mutex_ok:
  assumes "\<forall>t. ow = Some t \<longrightarrow> alive sample t"
  shows "sys_inv (sample_mutex ow)" "mutex_inv 5 (sample_mutex ow)" "rt_current_thread (sample_mutex ow) = Some (Suc 0)"
    "stat_of (sample_mutex ow) (Suc 0) = RT_THREAD_READY" "stat_of (sample_mutex ow) 2 = RT_THREAD_READY"
    "rt_interrupt_nest (sample_mutex ow) = 0" "rt_scheduler_lock_nest (sample_mutex ow) = 0"
    "on_tlist (sample_mutex ow) (Mutex_wait 5) = []" "mx_owner (mutexes (sample_mutex ow) 5) = ow"
    "prio_of (sample_mutex ow) = prio_of sample"
proof -
  show "mutex_inv 5 (sample_mutex ow)"
    using assms by (cases ow) (simp_all add: sample_mutex_def mutex_inv_def on_tlist_def alive_def stat_of_def, simp_all add: rt_consts)
qed (use assms in \<open>simp_all add: sample_mutex_def sample_with_sys_inv on_tlist_def prio_of_def fun_eq_iff split: option.split\<close>)

theorem mutex_take_correct_witness:
  "(\<exists>k'. rt_mutex_take 5 10 (sample_mutex None) = Some (Finished RT_EOK, k') \<and> mx_owner (mutexes k' 5) = Some 1)
   \<and> (\<exists>k'. rt_mutex_take 5 10 (sample_mutex (Some 0)) = Some (Waiting 1, k') \<and> prio_of k' 0 = 10)"
proof -
  have a0: "alive sample 0" using sample_facts(1) by (simp add: alive_def)
  have p: "prio_of sample 0 = 255" "prio_of sample 1 = 10" by code_simp+
  note n = sample_mutex_ok [of None, simplified] and s = sample_mutex_ok [of "Some 0", simplified, OF a0]
  show ?thesis
    using mutex_take_correct [of "sample_mutex None" 5 1 10 2] n mutex_take_correct [of "sample_mutex (Some 0)" 5 1 10 2] s p
    by auto
qed

text \<open>C13: \<^verbatim>\<open>rt_mutex_release\<close> on every branch.  Only the owner can release: any other thread gets
  \<^verbatim>\<open>-RT_ERROR\<close> and the mutex is unchanged.  A nested hold is counted down.  With the last hold the owner gets
  back the priority it had when it took the mutex; the first waiter, if any, becomes the owner with one hold, is
  ready and its timer stopped, otherwise the mutex is free.  All invariants hold.\<close>

theorem mutex_release_correct:
  assumes "sys_inv k" and "mutex_inv m k" and "rt_current_thread k = Some t" and "rt_interrupt_nest k = 0"
  shows "(mx_owner (mutexes k m) \<noteq> Some t \<longrightarrow> (\<exists>k'. rt_mutex_release m k = Some (-RT_ERROR, k') \<and> mutexes k' = mutexes k \<and> tlists k' = tlists k))
    \<and> (mx_owner (mutexes k m) = Some t \<and> mx_hold (mutexes k m) \<noteq> 1 \<longrightarrow>
        rt_mutex_release m k = Some (RT_EOK, upd_mutex m (\<lambda>mx. mx\<lparr>mx_hold := mx_hold mx - 1\<rparr>) k))
    \<and> (mx_owner (mutexes k m) = Some t \<and> mx_hold (mutexes k m) = 1 \<longrightarrow>
        (\<exists>k'. rt_mutex_release m k = Some (RT_EOK, k') \<and> sys_inv k' \<and> mutex_inv m k'
          \<and> prio_of k' t = mx_original_priority (mutexes k m)
          \<and> (case on_tlist k (Mutex_wait m) of
               [] \<Rightarrow> mx_owner (mutexes k' m) = None
             | w # ws \<Rightarrow> mx_owner (mutexes k' m) = Some w \<and> mx_hold (mutexes k' m) = 1 \<and> on_tlist k' (Mutex_wait m) = ws
                 \<and> stat_of k' w = RT_THREAD_READY \<and> home (timer_lists k') (Thread_timer w) = None
                 \<and> (\<forall>v. v \<noteq> t \<and> v \<noteq> w \<longrightarrow> threads k' v = threads k v))))"
proof (intro conjI impI)
  assume "mx_owner (mutexes k m) \<noteq> Some t"
  then show "\<exists>k'. rt_mutex_release m k = Some (-RT_ERROR, k') \<and> mutexes k' = mutexes k \<and> tlists k' = tlists k"
    using mutex_release_foreign [OF assms(2) _ assms(3,4)] by simp
next
  assume "mx_owner (mutexes k m) = Some t \<and> mx_hold (mutexes k m) \<noteq> 1"
  then show "rt_mutex_release m k = Some (RT_EOK, upd_mutex m (\<lambda>mx. mx\<lparr>mx_hold := mx_hold mx - 1\<rparr>) k)"
    using mutex_release_nested [OF assms(2) _ _ assms(3,4)] by simp
next
  assume a: "mx_owner (mutexes k m) = Some t \<and> mx_hold (mutexes k m) = 1"
  show "\<exists>k'. rt_mutex_release m k = Some (RT_EOK, k') \<and> sys_inv k' \<and> mutex_inv m k'
          \<and> prio_of k' t = mx_original_priority (mutexes k m)
          \<and> (case on_tlist k (Mutex_wait m) of
               [] \<Rightarrow> mx_owner (mutexes k' m) = None
             | w # ws \<Rightarrow> mx_owner (mutexes k' m) = Some w \<and> mx_hold (mutexes k' m) = 1 \<and> on_tlist k' (Mutex_wait m) = ws
                 \<and> stat_of k' w = RT_THREAD_READY \<and> home (timer_lists k') (Thread_timer w) = None
                 \<and> (\<forall>v. v \<noteq> t \<and> v \<noteq> w \<longrightarrow> threads k' v = threads k v))"
    using mutex_release_last [OF assms(1,2) conjunct1 [OF a] conjunct2 [OF a] assms(3,4)] by (auto split: list.splits)
qed

theorem mutex_release_correct_witness:
  "(\<exists>k'. rt_mutex_release 5 (sample_mutex (Some 1)) = Some (RT_EOK, k') \<and> mx_owner (mutexes k' 5) = None)
   \<and> (\<exists>k'. rt_mutex_release 5 (sample_mutex (Some 2)) = Some (-RT_ERROR, k') \<and> mx_owner (mutexes k' 5) = Some 2)"
proof -
  have "alive sample 1" "alive sample 2" using sample_facts(2,3) by (simp_all add: alive_def)
  then show ?thesis
    using mutex_release_correct [of "sample_mutex (Some 1)" 5 1] sample_mutex_ok [of "Some 1"]
      mutex_release_correct [of "sample_mutex (Some 2)" 5 1] sample_mutex_ok [of "Some 2"]
    by (auto simp: sample_mutex_def)
qed

text \<open>C14: priority inheritance from end to end.  A thread that has to wait lifts the owner to its own priority; when
  the owner runs and gives up its only hold, it falls back to exactly the priority it had before, and the waiting thread
  owns the mutex, is ready, and its \<^verbatim>\<open>rt_mutex_take\<close> returns \<^verbatim>\<open>RT_EOK\<close>.\<close>

theorem priority_inheritance_roundtrip:
  assumes "sys_inv k" and "mutex_inv m k" and "rt_current_thread k = Some t" and "rt_interrupt_nest k = 0"
    and "stat_of k t = RT_THREAD_READY" and "time \<noteq> 0" "time \<noteq> 0x7fffffff" and "stat_of k u = RT_THREAD_READY" "u \<noteq> t"
    and "mx_owner (mutexes k m) = Some ow" "ow \<noteq> t" and "mx_hold (mutexes k m) = 1"
    and "mx_original_priority (mutexes k m) = prio_of k ow" and "on_tlist k (Mutex_wait m) = []"
  shows "\<exists>k1 k2. rt_mutex_take m time k = Some (Waiting t, k1) \<and> prio_of k1 ow = min (prio_of k ow) (prio_of k t)
    \<and> rt_mutex_release m (k1\<lparr>rt_current_thread := Some ow\<rparr>) = Some (RT_EOK, k2) \<and> prio_of k2 ow = prio_of k ow
    \<and> mx_owner (mutexes k2 m) = Some t \<and> stat_of k2 t = RT_THREAD_READY \<and> mutex_inv m k2
    \<and> rt_mutex_take_back m time t k2 = Some (Finished RT_EOK, k2)"
proof -
  obtain k1 where k1: "rt_mutex_take m time k = Some (Waiting t, k1)" "sys_inv k1" "mutex_inv m k1" "same_ipc k k1"
    "on_tlist k1 (Mutex_wait m) = [t]" "th_error (threads k1 t) = RT_EOK" "prio_of k1 ow = min (prio_of k ow) (prio_of k t)"
    using mutex_take_waits [OF assms(1,2,10,11,3-9)] assms(14) by (auto simp: wait_order_def)
  let ?k = "k1\<lparr>rt_current_thread := Some ow\<rparr>"
  have "sys_inv ?k" by (rule sys_inv_cong [OF _ _ _ _ _ _ k1(2)]) (simp_all add: sched_view_def)
  moreover have mx: "mutexes ?k = mutexes k" "rt_interrupt_nest ?k = 0" "rt_current_thread ?k = Some ow"
    using k1(4) assms(4) by (simp_all add: same_ipc_def)
  moreover have l: "on_tlist ?k (Mutex_wait m) = [t]" "th_error (threads ?k t) = RT_EOK"
    using k1(5,6) by (simp_all add: on_tlist_def)
  moreover have "mutex_inv m ?k"
    using k1(3) by (simp add: mutex_inv_def rt_object_get_type_def on_tlist_def alive_def stat_of_def split: option.splits)
  ultimately obtain k2 where "rt_mutex_release m ?k = Some (RT_EOK, k2)" "mutex_inv m k2" "prio_of k2 ow = prio_of k ow"
    "mx_owner (mutexes k2 m) = Some t" "stat_of k2 t = RT_THREAD_READY" "th_error (threads k2 t) = RT_EOK"
    using mutex_release_last [of ?k m ow] assms(10,12,13) by auto
  then show ?thesis using k1(1,7) by (auto simp: rt_mutex_take_back_def)
qed

theorem priority_inheritance_roundtrip_witness:
  "\<exists>k1 k2. rt_mutex_take 5 10 (sample_mutex (Some 0)) = Some (Waiting 1, k1) \<and> prio_of k1 0 = 10
    \<and> rt_mutex_release 5 (k1\<lparr>rt_current_thread := Some 0\<rparr>) = Some (RT_EOK, k2) \<and> prio_of k2 0 = 255"
proof -
  have a0: "alive sample 0" using sample_facts(1) by (simp add: alive_def)
  have p: "prio_of sample 0 = 255" "prio_of sample 1 = 10" by code_simp+
  have "mx_hold (mutexes (sample_mutex (Some 0)) 5) = 1" "mx_original_priority (mutexes (sample_mutex (Some 0)) 5) = 255"
    by (simp_all add: sample_mutex_def p)
  then show ?thesis
    using priority_inheritance_roundtrip [of "sample_mutex (Some 0)" 5 1 10 2 0] sample_mutex_ok [of "Some 0", simplified, OF a0] p
    by auto
qed

text \<open>The recorded priorities of two mutexes do not compose.  A thread that took a second mutex while it ran
  at an inherited priority, and releases the first one before the second, ends with the inherited priority instead
  of its own, although nobody waits for it any more.\<close>

theorem mutex_priority_not_restored:
  assumes "sys_inv k" and "mutex_inv a k" and "mutex_inv b k" and "a \<noteq> b"
    and "rt_current_thread k = Some t" and "rt_interrupt_nest k = 0"
    and "mx_owner (mutexes k a) = Some t" "mx_hold (mutexes k a) = 1" "on_tlist k (Mutex_wait a) = []"
    and "mx_owner (mutexes k b) = Some t" "mx_hold (mutexes k b) = 1" "on_tlist k (Mutex_wait b) = []"
  shows "\<exists>k1 k2. rt_mutex_release a k = Some (RT_EOK, k1) \<and> prio_of k1 t = mx_original_priority (mutexes k a)
    \<and> rt_mutex_release b k1 = Some (RT_EOK, k2) \<and> prio_of k2 t = mx_original_priority (mutexes k b)
    \<and> mx_owner (mutexes k2 b) = None"
proof -
  obtain k1 where k1: "rt_mutex_release a k = Some (RT_EOK, k1)" "sys_inv k1" "prio_of k1 t = mx_original_priority (mutexes k a)"
    "stat_of k1 t = stat_of k t" "mutexes k1 b = mutexes k b" "\<forall>n. objects k1 (Obj n) = objects k (Obj n)" "rt_interrupt_nest k1 = 0"
    "on_tlist k1 (Mutex_wait b) = []" "rt_current_thread k1 = Some t"
    using mutex_release_last [OF assms(1,2,7,8,5,6)] assms(4,6,9,12) by auto
  have "mutex_inv b k1"
    using assms(3,10,12) k1(4-6,8) by (simp add: mutex_inv_def rt_object_get_type_def alive_def)
  then show ?thesis
    using mutex_release_last [OF k1(2), of b t] k1 assms(10,11) by auto
qed

definition sample_two_mutexes :: kernel where
  "sample_two_mutexes =
     upd_mutex 6 (\<lambda>_. \<lparr>mx_value = 0, mx_original_priority = 5, mx_hold = 1, mx_owner = Some 1\<rparr>)
       (upd_object (Obj 6) (\<lambda>ob. ob\<lparr>obj_type := RT_Object_Class_Mutex, obj_flag := RT_IPC_FLAG_PRIO\<rparr>) (sample_mutex (Some 1)))"

theorem mutex_priority_not_restored_witness:
  "\<exists>k1 k2. rt_mutex_release 5 sample_two_mutexes = Some (RT_EOK, k1) \<and> prio_of k1 1 = 10
    \<and> rt_mutex_release 6 k1 = Some (RT_EOK, k2) \<and> prio_of k2 1 = 5"
proof -
  have al: "alive sample 1" using sample_facts(2) by (simp add: alive_def)
  note s = sample_mutex_ok [of "Some 1", simplified, OF al [simplified]]
  have o6: "rt_object_get_type (Obj 6) (sample_mutex (Some 1)) = 0"
    by (simp add: sample_mutex_def sample_with_def rt_object_get_type_def upd_object_def sample_rest(3) sample_base_def zero_object_def)
  have "sys_inv sample_two_mutexes" unfolding sample_two_mutexes_def sys_inv_upd_obj
    by (rule sys_inv_objects [where g = "Obj 6", OF s(1) [simplified One_nat_def [symmetric]]])
      (use o6 in \<open>simp_all add: upd_object_def sched_view_def rt_consts\<close>)
  moreover have "mutex_inv 5 sample_two_mutexes" "mutex_inv 6 sample_two_mutexes"
    using s(2,8) al
    by (simp_all add: sample_two_mutexes_def mutex_inv_def upd_object_def rt_object_get_type_def on_tlist_def alive_def stat_of_def
        sample_mutex_def split: option.splits) (simp_all add: rt_consts)
  ultimately show ?thesis
    using mutex_priority_not_restored [of sample_two_mutexes 5 6 1] s sample_facts(5)
    by (auto simp: sample_two_mutexes_def upd_object_def sample_mutex_def on_tlist_def)
qed

end
