(* ===== verification/RT_Event.thy ===== *)
theory RT_Event
  imports RT_Ipc
begin

text \<open>
  Events, the operations \<^verbatim>\<open>rt_event_*\<close> of \<^verbatim>\<open>kernel/src/ipc.c\<close>: a set of 32 flags and threads that
  wait for all or for any of the flags of a set of their own.
\<close>

section \<open>The code\<close>

definition event_set_up :: "nat \<Rightarrow> rt_uint8_t \<Rightarrow> kernel \<Rightarrow> kernel option" where
  "event_set_up e flag k =
     do { let k = upd_object (Obj e) (\<lambda>ob. ob\<lparr>obj_flag := flag\<rparr>) k;
          k \<leftarrow> tlist_init_head (Event_wait e) k;
          Some (upd_event e (\<lambda>ev. ev\<lparr>ev_set := 0\<rparr>) k) }"

definition rt_event_init :: "nat \<Rightarrow> rt_uint8_t list \<Rightarrow> rt_uint8_t \<Rightarrow> kernel \<Rightarrow> (rt_err_t \<times> kernel) option" where
  "rt_event_init e name flag k =
     do { k \<leftarrow> rt_object_init (Obj e) RT_Object_Class_Event name k;
          k \<leftarrow> event_set_up e flag k;
          Some (RT_EOK, k) }"

definition rt_event_detach :: "nat \<Rightarrow> kernel \<Rightarrow> (rt_err_t \<times> kernel) option" where
  "rt_event_detach e k =
     do { RT_ASSERT (rt_object_get_type (Obj e) k = RT_Object_Class_Event);
          RT_ASSERT (rt_object_is_systemobject (Obj e) k);
          k \<leftarrow> rt_ipc_list_resume_all (Event_wait e) k;
          Some (RT_EOK, rt_object_detach (Obj e) k) }"

definition rt_event_create :: "rt_uint8_t list \<Rightarrow> rt_uint8_t \<Rightarrow> nat option \<Rightarrow> kernel \<Rightarrow> (nat option \<times> kernel) option" where
  "rt_event_create name flag block k =
     do { RT_DEBUG_NOT_IN_INTERRUPT k;
          (r, k) \<leftarrow> rt_object_allocate RT_Object_Class_Event name block k;
          case r of None \<Rightarrow> Some (None, k)
          | Some e \<Rightarrow> do { k \<leftarrow> event_set_up e flag k; Some (Some e, k) } }"

definition rt_event_delete :: "nat \<Rightarrow> kernel \<Rightarrow> (rt_err_t \<times> kernel) option" where
  "rt_event_delete e k =
     do { RT_ASSERT (rt_object_get_type (Obj e) k = RT_Object_Class_Event);
          RT_ASSERT (\<not> rt_object_is_systemobject (Obj e) k);
          RT_DEBUG_NOT_IN_INTERRUPT k;
          k \<leftarrow> rt_ipc_list_resume_all (Event_wait e) k;
          k \<leftarrow> rt_object_delete (Obj e) k;
          Some (RT_EOK, k) }"

text \<open>
  The walk of \<^verbatim>\<open>rt_event_send\<close> over the waiting threads; the pointer to the next one is taken before a
  thread is resumed.
\<close>

fun event_walk :: "nat \<Rightarrow> tid list \<Rightarrow> bool \<Rightarrow> kernel \<Rightarrow> (bool \<times> kernel) option" where
  "event_walk e [] need k = Some (need, k)"
| "event_walk e (t # ts) need k =
     (let th = threads k t; S = ev_set (events k e);
          (ok, k) =
            (if th_event_info th AND RT_EVENT_FLAG_AND \<noteq> 0 then (th_event_set th AND S = th_event_set th, k)
             else if th_event_info th AND RT_EVENT_FLAG_OR \<noteq> 0 then
               if th_event_set th AND S \<noteq> 0
               then (True, upd_thread t (\<lambda>th. th\<lparr>th_event_set := th_event_set th AND S\<rparr>) k) else (False, k)
             else (False, k))
      in if ok then
           do { let k = (if th_event_info th AND RT_EVENT_FLAG_CLEAR \<noteq> 0
                         then upd_event e (\<lambda>ev. ev\<lparr>ev_set := ev_set ev AND NOT (th_event_set (threads k t))\<rparr>) k else k);
                (_, k) \<leftarrow> rt_thread_resume t k;
                event_walk e ts True k }
         else event_walk e ts need k)"

definition rt_event_send :: "nat \<Rightarrow> rt_uint32_t \<Rightarrow> kernel \<Rightarrow> (rt_err_t \<times> kernel) option" where
  "rt_event_send e bits k =
     do { RT_ASSERT (rt_object_get_type (Obj e) k = RT_Object_Class_Event);
          if bits = 0 then Some (-RT_ERROR, k)
          else do {
            let k = upd_event e (\<lambda>ev. ev\<lparr>ev_set := ev_set ev OR bits\<rparr>) k;
            (need, k) \<leftarrow> event_walk e (on_tlist k (Event_wait e)) False k;
            k \<leftarrow> (if need then rt_schedule k else Some k);
            Some (RT_EOK, k) } }"

text \<open>The result is the error code and the value stored to \<^verbatim>\<open>*recved\<close>, if one is stored.\<close>

definition rt_event_recv ::
    "nat \<Rightarrow> rt_uint32_t \<Rightarrow> rt_uint8_t \<Rightarrow> 32 word \<Rightarrow> kernel \<Rightarrow> ((rt_err_t \<times> rt_uint32_t option) outcome \<times> kernel) option" where
  "rt_event_recv e bits opt timeout k =
     do { RT_DEBUG_IN_THREAD_CONTEXT k;
          RT_ASSERT (rt_object_get_type (Obj e) k = RT_Object_Class_Event);
          if bits = 0 then Some (Finished (-RT_ERROR, None), k)
          else do {
            t \<leftarrow> rt_thread_self k;
            let k = upd_thread t (\<lambda>th. th\<lparr>th_error := RT_EOK\<rparr>) k;
            let got = ev_set (events k e) AND bits;
            ok \<leftarrow> (if opt AND RT_EVENT_FLAG_AND \<noteq> 0 then Some (got = bits)
                  else if opt AND RT_EVENT_FLAG_OR \<noteq> 0 then Some (got \<noteq> 0) else None);
            if ok then
              Some (Finished (RT_EOK, Some got),
                    if opt AND RT_EVENT_FLAG_CLEAR \<noteq> 0 then upd_event e (\<lambda>ev. ev\<lparr>ev_set := ev_set ev AND NOT bits\<rparr>) k else k)
            else if timeout = 0 then Some (Finished (-RT_ETIMEOUT, None), upd_thread t (\<lambda>th. th\<lparr>th_error := RT_ETIMEOUT\<rparr>) k)
            else do {
              let k = upd_thread t (\<lambda>th. th\<lparr>th_event_set := bits, th_event_info := opt\<rparr>) k;
              k \<leftarrow> ipc_wait (Event_wait e) t (obj_flag (objects k (Obj e))) timeout k;
              Some (Waiting t, k) } } }"

definition rt_event_recv_back :: "tid \<Rightarrow> kernel \<Rightarrow> rt_err_t \<times> rt_uint32_t option" where
  "rt_event_recv_back t k =
     (if th_error (threads k t) \<noteq> RT_EOK then (- th_error (threads k t), None)
      else (- th_error (threads k t), Some (th_event_set (threads k t))))"

definition rt_event_control :: "nat \<Rightarrow> int \<Rightarrow> kernel \<Rightarrow> (rt_err_t \<times> kernel) option" where
  "rt_event_control e cmd k =
     do { RT_ASSERT (rt_object_get_type (Obj e) k = RT_Object_Class_Event);
          if cmd = RT_IPC_CMD_RESET then
            do { k \<leftarrow> rt_ipc_list_resume_all (Event_wait e) k;
                 k \<leftarrow> rt_schedule (upd_event e (\<lambda>ev. ev\<lparr>ev_set := 0\<rparr>) k);
                 Some (RT_EOK, k) }
          else Some (-RT_ERROR, k) }"

section \<open>Specification\<close>

text \<open>When a wait for the flags \<open>want\<close> is satisfied by the set \<open>S\<close>, and what is received then.\<close>

definition ev_ready :: "rt_uint8_t \<Rightarrow> rt_uint32_t \<Rightarrow> rt_uint32_t \<Rightarrow> bool" where
  "ev_ready info want S \<longleftrightarrow>
     (if info AND RT_EVENT_FLAG_AND \<noteq> 0 then want AND S = want else info AND RT_EVENT_FLAG_OR \<noteq> 0 \<and> want AND S \<noteq> 0)"

definition ev_left :: "rt_uint8_t \<Rightarrow> rt_uint32_t \<Rightarrow> rt_uint32_t \<Rightarrow> rt_uint32_t" where
  "ev_left info want S = (if info AND RT_EVENT_FLAG_CLEAR \<noteq> 0 then S AND NOT want else S)"

text \<open>The waiting threads in their order: each one that is satisfied by what the ones before it left receives its
  flags.\<close>

fun ev_scan :: "(tid \<Rightarrow> rt_thread) \<Rightarrow> tid list \<Rightarrow> rt_uint32_t \<Rightarrow> (tid \<times> rt_uint32_t) list \<times> rt_uint32_t" where
  "ev_scan ths [] S = ([], S)"
| "ev_scan ths (t # ts) S =
     (let info = th_event_info (ths t); want = th_event_set (ths t) in
      if ev_ready info want S
      then let (woken, S') = ev_scan ths ts (ev_left info want S) in ((t, want AND S) # woken, S')
      else ev_scan ths ts S)"

lemma ev_left_and: "S AND (NOT want OR NOT S) = S AND NOT (want :: rt_uint32_t)"
  by (rule bit_eqI) (auto simp: bit_simps)

lemma ev_scan_Cons:
  "ev_scan ths (t # ts) S =
     (if ev_ready (th_event_info (ths t)) (th_event_set (ths t)) S
      then ((t, th_event_set (ths t) AND S) # fst (ev_scan ths ts (ev_left (th_event_info (ths t)) (th_event_set (ths t)) S)),
            snd (ev_scan ths ts (ev_left (th_event_info (ths t)) (th_event_set (ths t)) S)))
      else ev_scan ths ts S)"
  by (simp add: Let_def split: prod.splits)

lemma ev_scan_tids: "(t, r) \<in> set (fst (ev_scan ths ts S)) \<Longrightarrow> t \<in> set ts"
  by (induction ts arbitrary: S) (auto simp: ev_scan_Cons simp del: ev_scan.simps(2) split: if_splits)

lemma ev_scan_cong: "\<forall>t\<in>set ts. ths' t = ths t \<Longrightarrow> ev_scan ths' ts S = ev_scan ths ts S"
  by (induction ts arbitrary: S) (simp_all add: ev_scan_Cons del: ev_scan.simps(2))

text \<open>A clear only takes flags away, and who was not satisfied before is not satisfied after it.\<close>

lemma ev_left_subset: "ev_left info want S AND S = ev_left info want S"
  by (rule bit_eqI) (auto simp: ev_left_def bit_simps)

lemma ev_ready_mono:
  assumes "S' AND S = S'" and "ev_ready info want S'"
  shows "ev_ready info want S"
proof -
  have sub: "bit S n" if "bit S' n" for n using assms(1) that by (metis bit_and_iff)
  have "want AND S = want" if "want AND S' = want" using that sub by (auto simp: bit_eq_iff bit_simps)
  moreover have "want AND S \<noteq> 0" if "want AND S' \<noteq> 0" using that sub by (auto simp: bit_eq_iff bit_simps)
  ultimately show ?thesis using assms(2) by (auto simp: ev_ready_def split: if_splits)
qed

lemma ev_scan_subset: "snd (ev_scan ths ts S) AND S = snd (ev_scan ths ts S)"
proof (induction ts arbitrary: S)
  case (Cons t ts)
  let ?L = "ev_left (th_event_info (ths t)) (th_event_set (ths t)) S"
  have "snd (ev_scan ths ts ?L) AND S = snd (ev_scan ths ts ?L)"
    using Cons [of ?L] ev_left_subset [of _ _ S] by (metis and.assoc)
  then show ?case using Cons [of S] by (simp add: ev_scan_Cons del: ev_scan.simps(2))
qed simp

lemma ev_scan_rest:
  assumes "t \<in> set ts" and "t \<notin> fst ` set (fst (ev_scan ths ts S))"
  shows "\<not> ev_ready (th_event_info (ths t)) (th_event_set (ths t)) (snd (ev_scan ths ts S))"
  using assms
proof (induction ts arbitrary: S)
  case (Cons u ts)
  show ?case
  proof (cases "ev_ready (th_event_info (ths u)) (th_event_set (ths u)) S")
    case True
    then show ?thesis using Cons by (auto simp: ev_scan_Cons simp del: ev_scan.simps(2))
  next
    case False
    then have eq: "ev_scan ths (u # ts) S = ev_scan ths ts S" by (simp add: ev_scan_Cons del: ev_scan.simps(2))
    have "\<not> ev_ready (th_event_info (ths u)) (th_event_set (ths u)) (snd (ev_scan ths ts S))"
      using False ev_ready_mono [OF ev_scan_subset [of ths ts S]] by blast
    then show ?thesis using Cons eq by auto
  qed
qed simp

section \<open>Sending\<close>

text \<open>What the operations on one event leave unchanged.\<close>

definition event_frame :: "nat \<Rightarrow> kernel \<Rightarrow> kernel \<Rightarrow> bool" where
  "event_frame e k k' \<longleftrightarrow> same_ipc (k\<lparr>events := events k'\<rparr>) k' \<and> (\<forall>e'. e' \<noteq> e \<longrightarrow> events k' e' = events k e')
     \<and> rt_current_thread k' = rt_current_thread k
     \<and> (\<forall>q'. is_wait_list q' \<and> q' \<noteq> Event_wait e \<longrightarrow> on_tlist k' q' = on_tlist k q')"

lemma event_frame_refl: "event_frame e k k"
  by (simp add: event_frame_def same_ipc_def)

lemma event_frame_trans: "event_frame e k k' \<Longrightarrow> event_frame e k' k'' \<Longrightarrow> event_frame e k k''"
  by (simp add: event_frame_def same_ipc_def)

text \<open>One satisfied thread of the walk: what it received is stored, the flags are cleared and it is made ready.\<close>

lemma event_wake:
  assumes inv: "sys_inv k" and m: "t \<in> set (on_tlist k (Event_wait e))"
    and rd: "ev_ready (th_event_info (threads k t)) (th_event_set (threads k t)) (ev_set (events k e))"
  shows "\<exists>k'. event_walk e (t # ts) need k = event_walk e ts True k' \<and> sys_inv k' \<and> event_frame e k k'
    \<and> on_tlist k' (Event_wait e) = filter (\<lambda>u. u \<noteq> t) (on_tlist k (Event_wait e))
    \<and> ev_set (events k' e) = ev_left (th_event_info (threads k t)) (th_event_set (threads k t)) (ev_set (events k e))
    \<and> stat_of k' t = RT_THREAD_READY \<and> th_event_set (threads k' t) = th_event_set (threads k t) AND ev_set (events k e)
    \<and> th_error (threads k' t) = th_error (threads k t) \<and> (\<forall>v. v \<noteq> t \<longrightarrow> threads k' v = threads k v)"
proof -
  define k0 where "k0 = (if th_event_info (threads k t) AND RT_EVENT_FLAG_AND \<noteq> 0 then k
     else upd_thread t (\<lambda>th. th\<lparr>th_event_set := th_event_set th AND ev_set (events k e)\<rparr>) k)"
  define k1 where "k1 = (if th_event_info (threads k t) AND RT_EVENT_FLAG_CLEAR \<noteq> 0
     then upd_event e (\<lambda>ev. ev\<lparr>ev_set := ev_set ev AND NOT (th_event_set (threads k0 t))\<rparr>) k0 else k0)"
  have s0: "sys_inv k0" using inv by (simp add: k0_def sys_inv_upd_thread)
  have e0: "th_event_set (threads k0 t) = th_event_set (threads k t) AND ev_set (events k e)" "events k0 = events k"
    using rd by (auto simp: k0_def ev_ready_def split: if_splits)
  have s1: "sys_inv k1" using s0 by (simp add: k1_def)
  have th1: "threads k1 = threads k0" "on_tlist k1 = on_tlist k" by (simp_all add: k1_def k0_def)
  have th0: "threads k1 v = threads k v" if "v \<noteq> t" for v using that by (simp add: th1 k0_def)
  have er: "th_error (threads k1 t) = th_error (threads k t)" by (simp add: th1 k0_def)
  have ev1: "ev_set (events k1 e) = ev_left (th_event_info (threads k t)) (th_event_set (threads k t)) (ev_set (events k e))"
    by (simp add: k1_def e0 ev_left_def ev_left_and)
  have fr1: "event_frame e k k1"
    by (simp add: event_frame_def same_ipc_def k1_def k0_def upd_thread_def upd_event_def on_tlist_def)
  obtain k2 where k2: "rt_thread_resume t k1 = Some (RT_EOK, k2)" "sys_inv k2" "same_ipc k1 k2"
    "threads k2 = (threads k1)(t := set_stat RT_THREAD_READY (threads k1 t))"
    "on_tlist k2 (Event_wait e) = filter (\<lambda>u. u \<noteq> t) (on_tlist k1 (Event_wait e))"
    "\<forall>q'. is_wait_list q' \<and> q' \<noteq> Event_wait e \<longrightarrow> on_tlist k2 q' = on_tlist k1 q'"
    "rt_current_thread k2 = rt_current_thread k1"
    using wait_list_resume [OF s1, of "Event_wait e" t] m th1(2) by auto
  have "event_frame e k1 k2" using k2(3,6,7) by (simp add: event_frame_def same_ipc_def)
  with fr1 have "event_frame e k k2" by (rule event_frame_trans)
  moreover have "event_walk e (t # ts) need k = event_walk e ts True k2"
    using rd k2(1) by (auto simp: Let_def k1_def k0_def ev_ready_def split: if_splits)
  moreover have "stat_of k2 t = RT_THREAD_READY" using stat_after(1) [OF k2(4)] by simp
  moreover have "th_event_set (threads k2 t) = th_event_set (threads k t) AND ev_set (events k e)"
    "th_error (threads k2 t) = th_error (threads k t)" "\<forall>v. v \<noteq> t \<longrightarrow> threads k2 v = threads k v"
    using k2(4) e0 th0 th1 er by (simp_all add: set_stat_def)
  moreover have "ev_set (events k2 e) = ev_left (th_event_info (threads k t)) (th_event_set (threads k t)) (ev_set (events k e))"
    using ev1 k2(3) by (simp add: same_ipc_def)
  ultimately show ?thesis using k2(2,5) th1(2) by (intro exI [of _ k2]) simp
qed

lemma filter_absent: "t \<notin> set xs \<Longrightarrow> filter (\<lambda>u. u \<noteq> t) xs = xs"
  by (auto simp: filter_id_conv)

text \<open>The walk over the threads from some place of the list on is the scan of the specification.\<close>

definition ev_woken :: "nat \<Rightarrow> tid list \<Rightarrow> kernel \<Rightarrow> (tid \<times> rt_uint32_t) list" where
  "ev_woken e ts k = fst (ev_scan (threads k) ts (ev_set (events k e)))"

definition ev_after :: "nat \<Rightarrow> tid list \<Rightarrow> kernel \<Rightarrow> rt_uint32_t" where
  "ev_after e ts k = snd (ev_scan (threads k) ts (ev_set (events k e)))"

lemma event_walk_spec:
  assumes "sys_inv k" and "on_tlist k (Event_wait e) = pre @ ts"
  shows "\<exists>k'. event_walk e ts need k = Some (need \<or> ev_woken e ts k \<noteq> [], k') \<and> sys_inv k' \<and> event_frame e k k'
    \<and> on_tlist k' (Event_wait e) = pre @ filter (\<lambda>t. t \<notin> fst ` set (ev_woken e ts k)) ts
    \<and> ev_set (events k' e) = ev_after e ts k
    \<and> (\<forall>(t, r)\<in>set (ev_woken e ts k). stat_of k' t = RT_THREAD_READY \<and> th_event_set (threads k' t) = r
          \<and> th_error (threads k' t) = th_error (threads k t))
    \<and> (\<forall>t. t \<notin> fst ` set (ev_woken e ts k) \<longrightarrow> threads k' t = threads k t)"
  using assms
proof (induction ts arbitrary: k pre need)
  case Nil
  then show ?case by (auto simp: ev_woken_def ev_after_def event_frame_refl)
next
  case (Cons t ts)
  have dist: "distinct (pre @ t # ts)" using wait_list_distinct [OF sys_invD(5) [OF Cons.prems(1)], of "Event_wait e"] Cons.prems(2) by simp
  then have t: "t \<notin> set ts" "t \<notin> set pre" by auto
  show ?case
  proof (cases "ev_ready (th_event_info (threads k t)) (th_event_set (threads k t)) (ev_set (events k e))")
    case False
    then have eq: "ev_woken e (t # ts) k = ev_woken e ts k" "ev_after e (t # ts) k = ev_after e ts k"
      by (simp_all add: ev_woken_def ev_after_def ev_scan_Cons del: ev_scan.simps(2))
    have walk: "event_walk e (t # ts) need k = event_walk e ts need k"
      using False by (auto simp: Let_def ev_ready_def split: if_splits)
    have "t \<notin> fst ` set (ev_woken e ts k)" using t(1) by (auto simp: ev_woken_def dest: ev_scan_tids)
    then show ?thesis using Cons.IH [of k "pre @ [t]" need] Cons.prems unfolding eq walk by auto
  next
    case True
    obtain k1 where k1: "event_walk e (t # ts) need k = event_walk e ts True k1" "sys_inv k1" "event_frame e k k1"
      "on_tlist k1 (Event_wait e) = filter (\<lambda>u. u \<noteq> t) (on_tlist k (Event_wait e))"
      "ev_set (events k1 e) = ev_left (th_event_info (threads k t)) (th_event_set (threads k t)) (ev_set (events k e))"
      "stat_of k1 t = RT_THREAD_READY" "th_event_set (threads k1 t) = th_event_set (threads k t) AND ev_set (events k e)"
      "th_error (threads k1 t) = th_error (threads k t)" "\<forall>v. v \<noteq> t \<longrightarrow> threads k1 v = threads k v"
      using event_wake [OF Cons.prems(1) _ True, of ts need] Cons.prems(2) by auto
    have l1: "on_tlist k1 (Event_wait e) = pre @ ts"
      using k1(4) Cons.prems(2) t by (simp add: filter_absent)
    have sc: "ev_scan (threads k1) ts S = ev_scan (threads k) ts S" for S
      using k1(9) t(1) by (intro ev_scan_cong) metis
    have eq: "ev_woken e (t # ts) k = (t, th_event_set (threads k t) AND ev_set (events k e)) # ev_woken e ts k1"
      "ev_after e (t # ts) k = ev_after e ts k1"
      using True by (simp_all add: ev_woken_def ev_after_def ev_scan_Cons k1(5) sc del: ev_scan.simps(2))
    have nt: "t \<notin> fst ` set (ev_woken e ts k1)" using t(1) by (auto simp: ev_woken_def dest: ev_scan_tids)
    obtain k2 where k2: "event_walk e ts True k1 = Some (True, k2)" "sys_inv k2" "event_frame e k1 k2"
      "on_tlist k2 (Event_wait e) = pre @ filter (\<lambda>t. t \<notin> fst ` set (ev_woken e ts k1)) ts"
      "ev_set (events k2 e) = ev_after e ts k1"
      "\<forall>(t, r)\<in>set (ev_woken e ts k1). stat_of k2 t = RT_THREAD_READY \<and> th_event_set (threads k2 t) = r
          \<and> th_error (threads k2 t) = th_error (threads k1 t)"
      "\<forall>t. t \<notin> fst ` set (ev_woken e ts k1) \<longrightarrow> threads k2 t = threads k1 t"
      using Cons.IH [OF k1(2) l1, of True] by auto
    have fr: "event_frame e k k2" using k1(3) k2(3) by (rule event_frame_trans)
    have t2: "threads k2 t = threads k1 t" using k2(7) nt by blast
    have f: "filter (\<lambda>t'. t' \<notin> fst ` set (ev_woken e (t # ts) k)) (t # ts) = filter (\<lambda>t. t \<notin> fst ` set (ev_woken e ts k1)) ts"
      unfolding eq(1) using t(1) by (auto intro: filter_cong)
    have w: "stat_of k2 u = RT_THREAD_READY \<and> th_event_set (threads k2 u) = r \<and> th_error (threads k2 u) = th_error (threads k u)"
      if "(u, r) \<in> set (ev_woken e (t # ts) k)" for u r
    proof (cases "u = t")
      case True
      then have "r = th_event_set (threads k t) AND ev_set (events k e)"
        using that nt by (auto simp: eq(1) image_iff)
      then show ?thesis using True k1(6-8) t2 by (simp add: stat_of_def)
    next
      case False
      then show ?thesis using that k2(6) k1(9) by (auto simp: eq(1))
    qed
    have o: "threads k2 v = threads k v" if "v \<notin> fst ` set (ev_woken e (t # ts) k)" for v
      using that k2(7) k1(9) by (simp add: eq(1))
    show ?thesis
      using k1(1) k2(1,2,4,5) fr w o f eq by (intro exI [of _ k2]) auto
  qed
qed

text \<open>
  The promise of an event: no thread waits on it whose wait the current flags satisfy, and every waiting
  thread asked for something.
\<close>

definition event_inv :: "nat \<Rightarrow> kernel \<Rightarrow> bool" where
  "event_inv e k \<longleftrightarrow> rt_object_get_type (Obj e) k = RT_Object_Class_Event
     \<and> (obj_flag (objects k (Obj e)) = RT_IPC_FLAG_FIFO \<or> obj_flag (objects k (Obj e)) = RT_IPC_FLAG_PRIO)
     \<and> (\<forall>t\<in>set (on_tlist k (Event_wait e)).
          \<not> ev_ready (th_event_info (threads k t)) (th_event_set (threads k t)) (ev_set (events k e)))"

lemma event_send_spec:
  assumes inv: "sys_inv k" and e: "event_inv e k" and nz: "bits \<noteq> 0"
  defines "ts \<equiv> on_tlist k (Event_wait e)"
  defines "sc \<equiv> ev_scan (threads k) ts (ev_set (events k e) OR bits)"
  shows "\<exists>k'. rt_event_send e bits k = Some (RT_EOK, k') \<and> sys_inv k' \<and> event_inv e k'
    \<and> ev_set (events k' e) = snd sc \<and> on_tlist k' (Event_wait e) = filter (\<lambda>t. t \<notin> fst ` set (fst sc)) ts
    \<and> (\<forall>(t, r)\<in>set (fst sc). stat_of k' t = RT_THREAD_READY \<and> th_event_set (threads k' t) = r
          \<and> th_error (threads k' t) = th_error (threads k t))
    \<and> (\<forall>t. t \<notin> fst ` set (fst sc) \<longrightarrow> threads k' t = threads k t)
    \<and> (\<forall>e'. e' \<noteq> e \<longrightarrow> events k' e' = events k e')
    \<and> (\<forall>q'. is_wait_list q' \<and> q' \<noteq> Event_wait e \<longrightarrow> on_tlist k' q' = on_tlist k q')
    \<and> (if fst sc = [] then rt_current_thread k' = rt_current_thread k
       else rt_scheduler_lock_nest k = 0 \<longrightarrow> (\<exists>v. rt_current_thread k' = Some v \<and> first_ready k' v))"
proof -
  define k0 where "k0 = upd_event e (\<lambda>ev. ev\<lparr>ev_set := ev_set ev OR bits\<rparr>) k"
  have k0: "sys_inv k0" "on_tlist k0 (Event_wait e) = [] @ ts" "threads k0 = threads k" "ev_set (events k0 e) = ev_set (events k e) OR bits"
    using inv by (simp_all add: k0_def ts_def)
  have fr0: "event_frame e k k0" by (simp add: k0_def event_frame_def same_ipc_def upd_event_def on_tlist_def)
  have sc: "ev_woken e ts k0 = fst sc" "ev_after e ts k0 = snd sc"
    by (simp_all add: ev_woken_def ev_after_def k0(3,4) sc_def)
  obtain k1 where k1: "event_walk e ts False k0 = Some (fst sc \<noteq> [], k1)" "sys_inv k1" "event_frame e k0 k1"
    "on_tlist k1 (Event_wait e) = filter (\<lambda>t. t \<notin> fst ` set (fst sc)) ts" "ev_set (events k1 e) = snd sc"
    "\<forall>(t, r)\<in>set (fst sc). stat_of k1 t = RT_THREAD_READY \<and> th_event_set (threads k1 t) = r \<and> th_error (threads k1 t) = th_error (threads k t)"
    "\<forall>t. t \<notin> fst ` set (fst sc) \<longrightarrow> threads k1 t = threads k t"
    using event_walk_spec [OF k0(1,2), of False] unfolding sc k0(3) by auto
  have fr1: "event_frame e k k1" using fr0 k1(3) by (rule event_frame_trans)
  obtain k2 where k2: "(if fst sc \<noteq> [] then rt_schedule k1 else Some k1) = Some k2" "sys_inv k2" "same_ipc k1 k2" "threads k2 = threads k1"
    "tlists k2 = tlists k1" "if fst sc = [] then rt_current_thread k2 = rt_current_thread k1
       else rt_scheduler_lock_nest k1 = 0 \<longrightarrow> (\<exists>v. rt_current_thread k2 = Some v \<and> first_ready k2 v)"
  proof (cases "fst sc")
    case Nil
    then show ?thesis using that [of k1] k1(2) by simp
  next
    case (Cons p ps)
    obtain t r where p: "p = (t, r)" by (cases p)
    have st: "stat_of k1 t = RT_THREAD_READY" using k1(6) Cons p by auto
    show ?thesis using sys_schedule [OF k1(2) st] that Cons by (auto split: if_splits)
  qed
  have o: "on_tlist k2 = on_tlist k1" "stat_of k2 = stat_of k1" using k2(4,5) by (simp_all add: on_tlist_def stat_of_def fun_eq_iff)
  have send: "rt_event_send e bits k = Some (RT_EOK, k2)"
    using e nz k1(1) k2(1) by (simp add: rt_event_send_def event_inv_def ts_def k0_def split: if_splits)
  have ev2: "events k2 = events k1" "objects k2 (Obj e) = objects k (Obj e)" "rt_scheduler_lock_nest k1 = rt_scheduler_lock_nest k"
    using k2(3) fr1 by (simp_all add: same_ipc_def event_frame_def)
  have "event_inv e k2"
    using e ev2 k1(4,5,7) ev_scan_rest [of _ ts "threads k" "ev_set (events k e) OR bits"]
    by (auto simp: event_inv_def rt_object_get_type_def o k2(4) sc_def)
  then show ?thesis
    using send k2 k1 fr1 o ev2 by (intro exI [of _ k2]) (simp add: event_frame_def)
qed

section \<open>Receiving\<close>

text \<open>What the caller of \<^verbatim>\<open>rt_event_recv\<close> brings along.\<close>

definition event_call :: "nat \<Rightarrow> rt_uint32_t \<Rightarrow> rt_uint8_t \<Rightarrow> tid \<Rightarrow> kernel \<Rightarrow> bool" where
  "event_call e bits opt t k \<longleftrightarrow> sys_inv k \<and> event_inv e k \<and> rt_current_thread k = Some t \<and> stat_of k t = RT_THREAD_READY
     \<and> rt_interrupt_nest k = 0 \<and> bits \<noteq> 0 \<and> (opt AND RT_EVENT_FLAG_AND \<noteq> 0 \<or> opt AND RT_EVENT_FLAG_OR \<noteq> 0)"

lemma event_recv_unfold:
  assumes "event_call e bits opt t k"
  defines "k0 \<equiv> upd_thread t (\<lambda>th. th\<lparr>th_error := RT_EOK\<rparr>) k" and "S \<equiv> ev_set (events k e)"
  shows "rt_event_recv e bits opt timeout k =
    (if ev_ready opt bits S
     then Some (Finished (RT_EOK, Some (S AND bits)),
                if opt AND RT_EVENT_FLAG_CLEAR \<noteq> 0 then upd_event e (\<lambda>ev. ev\<lparr>ev_set := ev_set ev AND NOT bits\<rparr>) k0 else k0)
     else if timeout = 0 then Some (Finished (-RT_ETIMEOUT, None), upd_thread t (\<lambda>th. th\<lparr>th_error := RT_ETIMEOUT\<rparr>) k0)
     else do { k \<leftarrow> ipc_wait (Event_wait e) t (obj_flag (objects k (Obj e))) timeout
                      (upd_thread t (\<lambda>th. th\<lparr>th_event_set := bits, th_event_info := opt\<rparr>) k0);
               Some (Waiting t, k) })"
proof -
  have "S AND bits = bits AND S" by (rule and.commute)
  then show ?thesis
    using assms(1) by (auto simp: rt_event_recv_def event_call_def event_inv_def ev_ready_def rt_thread_self_def k0_def S_def
        RT_DEBUG_IN_THREAD_CONTEXT_def RT_DEBUG_NOT_IN_INTERRUPT_def rt_interrupt_get_nest_def Let_def)
qed

lemma not_on_event_list:
  assumes "event_call e bits opt t k"
  shows "t \<notin> set (on_tlist k (Event_wait e))"
  using wait_list_suspended(1) [of k "Event_wait e" t] sys_invD(5) assms by (auto simp: event_call_def)

lemma event_recv_now:
  assumes call: "event_call e bits opt t k" and rd: "ev_ready opt bits (ev_set (events k e))"
  shows "\<exists>k'. rt_event_recv e bits opt timeout k = Some (Finished (RT_EOK, Some (ev_set (events k e) AND bits)), k')
    \<and> sys_inv k' \<and> event_inv e k' \<and> ev_set (events k' e) = ev_left opt bits (ev_set (events k e)) \<and> tlists k' = tlists k
    \<and> (\<forall>v. v \<noteq> t \<longrightarrow> threads k' v = threads k v) \<and> rt_current_thread k' = Some t"
proof -
  define k0 where "k0 = upd_thread t (\<lambda>th. th\<lparr>th_error := RT_EOK\<rparr>) k"
  define k' where "k' = (if opt AND RT_EVENT_FLAG_CLEAR \<noteq> 0 then upd_event e (\<lambda>ev. ev\<lparr>ev_set := ev_set ev AND NOT bits\<rparr>) k0 else k0)"
  have inv: "sys_inv k" "event_inv e k" "rt_current_thread k = Some t" using call by (simp_all add: event_call_def)
  have "sys_inv k0" using inv(1) by (simp add: k0_def sys_inv_upd_error)
  then have s: "sys_inv k'" by (simp add: k'_def)
  have f: "tlists k' = tlists k" "on_tlist k' = on_tlist k" "rt_current_thread k' = Some t" "objects k' = objects k" "\<forall>v. v \<noteq> t \<longrightarrow> threads k' v = threads k v"
    "rt_object_get_type (Obj e) k' = rt_object_get_type (Obj e) k"
    using inv(3) by (simp_all add: k'_def k0_def rt_object_get_type_def)
  have set': "ev_set (events k' e) = ev_left opt bits (ev_set (events k e))" by (simp add: k'_def k0_def ev_left_def)
  have "\<forall>v\<in>set (on_tlist k (Event_wait e)). threads k' v = threads k v" using not_on_event_list [OF call] f(5) by metis
  then have "event_inv e k'"
    using inv(2) ev_ready_mono [OF ev_left_subset [of opt bits "ev_set (events k e)"]]
    by (auto simp: event_inv_def f set')
  moreover have "rt_event_recv e bits opt timeout k = Some (Finished (RT_EOK, Some (ev_set (events k e) AND bits)), k')"
    using event_recv_unfold [OF call, of timeout] rd by (simp add: k'_def k0_def)
  ultimately show ?thesis using s f(1,3,5) set' by blast
qed

lemma event_recv_waits:
  assumes call: "event_call e bits opt t k" and nrd: "\<not> ev_ready opt bits (ev_set (events k e))"
    and time: "timeout \<noteq> 0" "timeout \<noteq> 0x7fffffff" and u: "stat_of k u = RT_THREAD_READY" "u \<noteq> t"
  shows "\<exists>k'. rt_event_recv e bits opt timeout k = Some (Waiting t, k') \<and> sys_inv k' \<and> event_inv e k' \<and> same_ipc k k'
    \<and> stat_of k' t = RT_THREAD_SUSPEND \<and> th_error (threads k' t) = RT_EOK
    \<and> th_event_set (threads k' t) = bits \<and> th_event_info (threads k' t) = opt
    \<and> (\<forall>v. v \<noteq> t \<longrightarrow> threads k' v = threads k v)
    \<and> on_tlist k' (Event_wait e) = wait_order (obj_flag (objects k (Obj e))) k t (on_tlist k (Event_wait e))
    \<and> (\<forall>q'. is_wait_list q' \<and> q' \<noteq> Event_wait e \<longrightarrow> on_tlist k' q' = on_tlist k q')
    \<and> (home (timer_lists k') (Thread_timer t) \<noteq> None \<longleftrightarrow> 0 < sint timeout)
    \<and> (rt_scheduler_lock_nest k = 0 \<longrightarrow> (\<exists>v. rt_current_thread k' = Some v \<and> first_ready k' v))"
proof -
  define fl where "fl = obj_flag (objects k (Obj e))"
  define k1 where "k1 = upd_thread t (\<lambda>th. th\<lparr>th_event_set := bits, th_event_info := opt\<rparr>) (upd_thread t (\<lambda>th. th\<lparr>th_error := RT_EOK\<rparr>) k)"
  have c: "sys_inv k" "event_inv e k" "stat_of k t = RT_THREAD_READY" using call by (simp_all add: event_call_def)
  have fl: "fl = RT_IPC_FLAG_FIFO \<or> fl = RT_IPC_FLAG_PRIO" using c(2) by (simp add: event_inv_def fl_def)
  have s1: "sys_inv k1" unfolding k1_def using c(1) by (intro sys_inv_upd_thread sys_inv_upd_error) simp_all
  have f1: "stat_of k1 = stat_of k" "prio_of k1 = prio_of k" "on_tlist k1 = on_tlist k" "rt_scheduler_lock_nest k1 = rt_scheduler_lock_nest k"
    by (simp_all add: k1_def stat_of_def prio_of_def fun_eq_iff)
  have ipc1: "same_ipc k k1" unfolding k1_def using same_ipc_sched(3) same_ipc_trans by blast
  obtain k' where k': "ipc_wait (Event_wait e) t fl timeout k1 = Some k'" "sys_inv k'" "same_ipc k1 k'"
    "threads k' = (threads k1)(t := set_stat RT_THREAD_SUSPEND (threads k1 t))"
    "on_tlist k' (Event_wait e) = wait_order fl k1 t (on_tlist k1 (Event_wait e))"
    "\<forall>q'. is_wait_list q' \<and> q' \<noteq> Event_wait e \<longrightarrow> on_tlist k' q' = on_tlist k1 q'"
    "if 0 < sint timeout then home (timer_lists k') (Thread_timer t) = Some Hard_timers
          \<and> tm_timeout_tick (timers k' (Thread_timer t)) = rt_tick k1 + timeout
        else home (timer_lists k') (Thread_timer t) = None"
    "if rt_scheduler_lock_nest k1 = 0 then \<exists>v. rt_current_thread k' = Some v \<and> first_ready k' v
        else rt_current_thread k' = rt_current_thread k1"
    using sys_wait [OF s1 _ _ fl time(2), of t "Event_wait e" u] c(3) u f1 by auto
  have ipc: "same_ipc k k'" using ipc1 k'(3) by (rule same_ipc_trans)
  have th: "threads k' t = set_stat RT_THREAD_SUSPEND ((threads k t)\<lparr>th_error := RT_EOK, th_event_set := bits, th_event_info := opt\<rparr>)"
    "\<forall>v. v \<noteq> t \<longrightarrow> threads k' v = threads k v"
    using k'(4) by (simp_all add: k1_def)
  have l: "on_tlist k' (Event_wait e) = wait_order fl k t (on_tlist k (Event_wait e))"
    using k'(5) wait_order_cong [OF f1(2)] f1(3) by simp
  have "stat_of k' t = RT_THREAD_SUSPEND" "th_error (threads k' t) = RT_EOK" "th_event_set (threads k' t) = bits" "th_event_info (threads k' t) = opt"
    by (simp_all add: th(1) stat_of_def set_stat_masked)
  moreover have "event_inv e k'"
    using c(2) nrd ipc th(2) calculation(3,4) unfolding event_inv_def l wait_order_set
    by (auto simp: same_ipc_def rt_object_get_type_def)
  moreover have "rt_event_recv e bits opt timeout k = Some (Waiting t, k')"
    using event_recv_unfold [OF call, of timeout] nrd time(1) k'(1) by (simp add: k1_def fl_def)
  ultimately show ?thesis
    using k'(2,6-8) ipc th(2) l f1 by (intro exI [of _ k']) (auto simp: fl_def split: if_splits)
qed

text \<open>A reset wakes every waiter with an error and clears the flags.\<close>

lemma event_reset:
  assumes inv: "sys_inv k" and e: "event_inv e k" and u: "stat_of k u = RT_THREAD_READY"
  shows "\<exists>k'. rt_event_control e RT_IPC_CMD_RESET k = Some (RT_EOK, k') \<and> sys_inv k' \<and> event_inv e k'
    \<and> on_tlist k' (Event_wait e) = [] \<and> ev_set (events k' e) = 0
    \<and> (\<forall>t\<in>set (on_tlist k (Event_wait e)). stat_of k' t = RT_THREAD_READY \<and> th_error (threads k' t) = RT_ERROR)
    \<and> (\<forall>t. t \<notin> set (on_tlist k (Event_wait e)) \<longrightarrow> threads k' t = threads k t)"
proof -
  obtain k1 where k1: "rt_ipc_list_resume_all (Event_wait e) k = Some k1" "sys_inv k1" "same_ipc k k1" "on_tlist k1 (Event_wait e) = []"
    "\<forall>t\<in>set (on_tlist k (Event_wait e)). stat_of k1 t = RT_THREAD_READY \<and> th_error (threads k1 t) = RT_ERROR"
    "\<forall>t. t \<notin> set (on_tlist k (Event_wait e)) \<longrightarrow> threads k1 t = threads k t"
    using ipc_list_resume_all [of "Event_wait e" k] inv by auto
  let ?k2 = "upd_event e (\<lambda>ev. ev\<lparr>ev_set := 0\<rparr>) k1"
  have "u \<notin> set (on_tlist k (Event_wait e))"
    using wait_list_suspended(1) [OF sys_invD(5) [OF inv], of "Event_wait e" u] u by auto
  then have "stat_of ?k2 u = RT_THREAD_READY" using k1(6) u by (simp add: stat_of_def)
  then obtain k3 where k3: "rt_schedule ?k2 = Some k3" "sys_inv k3" "same_ipc ?k2 k3" "threads k3 = threads ?k2" "tlists k3 = tlists ?k2"
    "objects k3 = objects ?k2" using sys_schedule [of ?k2 u] k1(2) by auto
  have "on_tlist k3 (Event_wait e) = []" using k3(5) k1(4) by (simp add: on_tlist_def)
  moreover have "event_inv e k3"
    using e k1(3) k3(6) calculation by (simp add: event_inv_def rt_object_get_type_def same_ipc_def)
  moreover have "ev_set (events k3 e) = 0" using k3(3) by (simp add: same_ipc_def)
  moreover have "rt_event_control e RT_IPC_CMD_RESET k = Some (RT_EOK, k3)"
    using e k1(1) k3(1) by (simp add: rt_event_control_def event_inv_def)
  moreover have "threads k3 = threads k1" using k3(4) by simp
  ultimately show ?thesis using k1(5,6) k3(2) by (intro exI [of _ k3]) (simp add: stat_of_def)
qed

section \<open>Properties\<close>

text \<open>C18: \<^verbatim>\<open>rt_event_send\<close> refines the scan of the specification.  It adds the flags to the set and goes
  over the waiting threads in the order of the list: a thread whose wait the flags left by the ones before it
  satisfy becomes ready with the flags it received stored in it, and takes them away if it asked for that.  After
  it no waiting thread could be satisfied (no wake-up is missed, and clearing cannot enable a thread skipped
  before), everybody else is untouched, and the scheduler runs exactly when a thread was woken.  An empty set is an
  error without effect.\<close>

theorem event_send_correct:
  assumes "sys_inv k" and "event_inv e k" and "rt_scheduler_lock_nest k = 0"
  shows "rt_event_send e 0 k = Some (-RT_ERROR, k)
    \<and> (bits \<noteq> 0 \<longrightarrow> (\<exists>k' woken left.
         ev_scan (threads k) (on_tlist k (Event_wait e)) (ev_set (events k e) OR bits) = (woken, left)
       \<and> rt_event_send e bits k = Some (RT_EOK, k') \<and> sys_inv k' \<and> event_inv e k' \<and> ev_set (events k' e) = left
       \<and> on_tlist k' (Event_wait e) = filter (\<lambda>t. t \<notin> fst ` set woken) (on_tlist k (Event_wait e))
       \<and> (\<forall>(t, r)\<in>set woken. stat_of k' t = RT_THREAD_READY \<and> th_event_set (threads k' t) = r)
       \<and> (\<forall>t. t \<notin> fst ` set woken \<longrightarrow> threads k' t = threads k t)
       \<and> (\<forall>q'. is_wait_list q' \<and> q' \<noteq> Event_wait e \<longrightarrow> on_tlist k' q' = on_tlist k q')
       \<and> (if woken = [] then rt_current_thread k' = rt_current_thread k
          else \<exists>v. rt_current_thread k' = Some v \<and> first_ready k' v)))"
proof (intro conjI impI)
  show "rt_event_send e 0 k = Some (-RT_ERROR, k)" using assms(2) by (simp add: rt_event_send_def event_inv_def)
next
  assume "bits \<noteq> 0"
  from event_send_spec [OF assms(1,2) this] assms(3)
  show "\<exists>k' woken left.
         ev_scan (threads k) (on_tlist k (Event_wait e)) (ev_set (events k e) OR bits) = (woken, left)
       \<and> rt_event_send e bits k = Some (RT_EOK, k') \<and> sys_inv k' \<and> event_inv e k' \<and> ev_set (events k' e) = left
       \<and> on_tlist k' (Event_wait e) = filter (\<lambda>t. t \<notin> fst ` set woken) (on_tlist k (Event_wait e))
       \<and> (\<forall>(t, r)\<in>set woken. stat_of k' t = RT_THREAD_READY \<and> th_event_set (threads k' t) = r)
       \<and> (\<forall>t. t \<notin> fst ` set woken \<longrightarrow> threads k' t = threads k t)
       \<and> (\<forall>q'. is_wait_list q' \<and> q' \<noteq> Event_wait e \<longrightarrow> on_tlist k' q' = on_tlist k q')
       \<and> (if woken = [] then rt_current_thread k' = rt_current_thread k
          else \<exists>v. rt_current_thread k' = Some v \<and> first_ready k' v)"
    by (elim exE conjE, cases "ev_scan (threads k) (on_tlist k (Event_wait e)) (ev_set (events k e) OR bits)")
      (intro exI conjI, auto split: if_splits)
qed

definition sample_event :: kernel where
  "sample_event = sample_with RT_Object_Class_Event RT_IPC_FLAG_FIFO"

lemma sample_event_ok:
  "sys_inv sample_event" "event_inv 5 sample_event" "ev_set (events sample_event 5) = 0" "on_tlist sample_event (Event_wait 5) = []"
  "rt_current_thread sample_event = Some (Suc 0)" "stat_of sample_event (Suc 0) = RT_THREAD_READY" "stat_of sample_event 2 = RT_THREAD_READY"
  "rt_interrupt_nest sample_event = 0" "rt_scheduler_lock_nest sample_event = 0" "obj_flag (objects sample_event (Obj 5)) = RT_IPC_FLAG_FIFO"
  by (simp_all add: sample_event_def sample_with_sys_inv event_inv_def on_tlist_def zero_event_def)
    (simp_all add: rt_consts)

lemma sample_event_call: "opt = 1 \<or> opt = 2 \<or> opt = 6 \<Longrightarrow> bits \<noteq> 0 \<Longrightarrow> event_call 5 bits opt 1 sample_event"
  using sample_event_ok by (auto simp: event_call_def rt_consts)

theorem event_send_correct_witness:
  "\<exists>k'. rt_event_send 5 3 sample_event = Some (RT_EOK, k') \<and> ev_set (events k' 5) = 3"
  using event_send_correct [of sample_event 5 3] sample_event_ok by auto

text \<open>\<^verbatim>\<open>rt_event_recv\<close> on every branch.  A wait the flags satisfy returns them at once and clears what was
  asked for only if the caller wants that; otherwise a caller that does not wait gets
  \<^verbatim>\<open>-RT_ETIMEOUT\<close> and the event is untouched, and one that waits is suspended on the event with
  its request recorded, its timer running exactly when a time was given.  In every case no waiting thread is left
  that the flags satisfy.  An empty set is an error and asking for neither AND nor OR fails an assertion.\<close>

theorem event_recv_correct:
  assumes "event_call e bits opt t k" and "rt_scheduler_lock_nest k = 0" and "timeout \<noteq> 0x7fffffff"
    and "stat_of k u = RT_THREAD_READY" "u \<noteq> t"
  defines "S \<equiv> ev_set (events k e)"
  shows "rt_event_recv e 0 opt timeout k = Some (Finished (-RT_ERROR, None), k)
    \<and> rt_event_recv e bits 0 timeout k = None
    \<and> (ev_ready opt bits S \<longrightarrow> (\<exists>k'. rt_event_recv e bits opt timeout k = Some (Finished (RT_EOK, Some (S AND bits)), k')
         \<and> sys_inv k' \<and> event_inv e k' \<and> ev_set (events k' e) = ev_left opt bits S \<and> tlists k' = tlists k))
    \<and> (\<not> ev_ready opt bits S \<longrightarrow> (\<exists>k'. rt_event_recv e bits opt 0 k = Some (Finished (-RT_ETIMEOUT, None), k')
         \<and> sys_inv k' \<and> events k' = events k \<and> tlists k' = tlists k))
    \<and> (\<not> ev_ready opt bits S \<and> timeout \<noteq> 0 \<longrightarrow> (\<exists>k'. rt_event_recv e bits opt timeout k = Some (Waiting t, k')
         \<and> sys_inv k' \<and> event_inv e k' \<and> events k' = events k \<and> stat_of k' t = RT_THREAD_SUSPEND
         \<and> th_event_set (threads k' t) = bits \<and> th_event_info (threads k' t) = opt
         \<and> on_tlist k' (Event_wait e) = wait_order (obj_flag (objects k (Obj e))) k t (on_tlist k (Event_wait e))
         \<and> (home (timer_lists k') (Thread_timer t) \<noteq> None \<longleftrightarrow> 0 < sint timeout)
         \<and> (\<exists>v. rt_current_thread k' = Some v \<and> first_ready k' v)))"
proof (intro conjI impI)
  note c = assms(1) [unfolded event_call_def]
  show "rt_event_recv e 0 opt timeout k = Some (Finished (-RT_ERROR, None), k)" "rt_event_recv e bits 0 timeout k = None"
    using c by (simp_all add: rt_event_recv_def event_inv_def rt_thread_self_def
        RT_DEBUG_IN_THREAD_CONTEXT_def RT_DEBUG_NOT_IN_INTERRUPT_def rt_interrupt_get_nest_def Let_def)
  show "\<exists>k'. rt_event_recv e bits opt timeout k = Some (Finished (RT_EOK, Some (S AND bits)), k')
         \<and> sys_inv k' \<and> event_inv e k' \<and> ev_set (events k' e) = ev_left opt bits S \<and> tlists k' = tlists k"
    if "ev_ready opt bits S"
    using event_recv_now [OF assms(1), of timeout] that unfolding S_def by blast
  show "\<exists>k'. rt_event_recv e bits opt 0 k = Some (Finished (-RT_ETIMEOUT, None), k')
         \<and> sys_inv k' \<and> events k' = events k \<and> tlists k' = tlists k" if "\<not> ev_ready opt bits S"
    using event_recv_unfold [OF assms(1), of 0] that c by (simp add: S_def sys_inv_upd_error)
  show "\<exists>k'. rt_event_recv e bits opt timeout k = Some (Waiting t, k')
         \<and> sys_inv k' \<and> event_inv e k' \<and> events k' = events k \<and> stat_of k' t = RT_THREAD_SUSPEND
         \<and> th_event_set (threads k' t) = bits \<and> th_event_info (threads k' t) = opt
         \<and> on_tlist k' (Event_wait e) = wait_order (obj_flag (objects k (Obj e))) k t (on_tlist k (Event_wait e))
         \<and> (home (timer_lists k') (Thread_timer t) \<noteq> None \<longleftrightarrow> 0 < sint timeout)
         \<and> (\<exists>v. rt_current_thread k' = Some v \<and> first_ready k' v)" if "\<not> ev_ready opt bits S \<and> timeout \<noteq> 0"
    using event_recv_waits [OF assms(1) _ _ assms(3-5)] that assms(2) unfolding S_def by (auto simp: same_ipc_def)
qed

theorem event_recv_correct_witness:
  "\<exists>k'. rt_event_recv 5 3 1 10 sample_event = Some (Waiting 1, k') \<and> event_inv 5 k' \<and> on_tlist k' (Event_wait 5) = [1]"
  using event_recv_correct [OF sample_event_call, of 1 3 10 2] sample_event_ok by (auto simp: wait_order_def ev_ready_def rt_consts)

text \<open>The round trip of an event: a thread that waits alone and is sent flags that satisfy it returns
  \<^verbatim>\<open>RT_EOK\<close> and exactly the flags it asked for that are set; with
  \<^verbatim>\<open>RT_EVENT_FLAG_CLEAR\<close> they are gone from the event and all others stay.  If it is the timer or a reset that
  wakes it, the error says so and nothing is received.\<close>

theorem event_roundtrip:
  assumes "event_call e want opt t k" and "on_tlist k (Event_wait e) = []"
    and "\<not> ev_ready opt want (ev_set (events k e))" and "ev_ready opt want (ev_set (events k e) OR bits)" and "bits \<noteq> 0"
    and "timeout \<noteq> 0" "timeout \<noteq> 0x7fffffff" and "stat_of k u = RT_THREAD_READY" "u \<noteq> t"
  shows "\<exists>k1. rt_event_recv e want opt timeout k = Some (Waiting t, k1)
    \<and> (\<exists>k2. rt_event_send e bits k1 = Some (RT_EOK, k2) \<and> stat_of k2 t = RT_THREAD_READY \<and> on_tlist k2 (Event_wait e) = []
         \<and> rt_event_recv_back t k2 = (RT_EOK, Some (want AND (ev_set (events k e) OR bits)))
         \<and> ev_set (events k2 e) = ev_left opt want (ev_set (events k e) OR bits))
    \<and> (\<exists>k3. rt_thread_timeout t k1 = Some k3 \<and> rt_event_recv_back t k3 = (-RT_ETIMEOUT, None) \<and> on_tlist k3 (Event_wait e) = [])
    \<and> (\<exists>k4. rt_event_control e RT_IPC_CMD_RESET k1 = Some (RT_EOK, k4) \<and> rt_event_recv_back t k4 = (-RT_ERROR, None)
         \<and> on_tlist k4 (Event_wait e) = [])"
proof -
  obtain k1 where k1: "rt_event_recv e want opt timeout k = Some (Waiting t, k1)" "sys_inv k1" "event_inv e k1" "same_ipc k k1"
    "stat_of k1 t = RT_THREAD_SUSPEND" "th_error (threads k1 t) = RT_EOK" "th_event_set (threads k1 t) = want"
    "th_event_info (threads k1 t) = opt" "\<forall>v. v \<noteq> t \<longrightarrow> threads k1 v = threads k v"
    "on_tlist k1 (Event_wait e) = wait_order (obj_flag (objects k (Obj e))) k t (on_tlist k (Event_wait e))"
    using event_recv_waits [OF assms(1,3,6-9)] by blast
  have l: "on_tlist k1 (Event_wait e) = [t]" using k1(10) assms(2) by (simp add: wait_order_def)
  have ev: "events k1 = events k" using k1(4) by (simp add: same_ipc_def)
  note d = sys_invD [OF k1(2)]
  have u1: "stat_of k1 u = RT_THREAD_READY" using k1(9) assms(8,9) by (simp add: stat_of_def)
  have "ev_scan (threads k1) [t] (ev_set (events k1 e) OR bits)
      = ([(t, want AND (ev_set (events k e) OR bits))], ev_left opt want (ev_set (events k e) OR bits))"
    using assms(4) k1(7,8) ev by (simp add: ev_scan_Cons del: ev_scan.simps(2))
  then obtain k2 where "rt_event_send e bits k1 = Some (RT_EOK, k2)" "ev_set (events k2 e) = ev_left opt want (ev_set (events k e) OR bits)"
    "on_tlist k2 (Event_wait e) = []" "stat_of k2 t = RT_THREAD_READY"
    "th_event_set (threads k2 t) = want AND (ev_set (events k e) OR bits)" "th_error (threads k2 t) = th_error (threads k1 t)"
    using event_send_spec [OF k1(2,3) assms(5)] unfolding l by (auto simp del: ev_scan.simps)
  moreover obtain k3 where "rt_thread_timeout t k1 = Some k3" "th_error (threads k3 t) = RT_ETIMEOUT" "on_tlist k3 (Event_wait e) = []"
    using timeout_wakes [OF d(4) _ k1(5) d(7,8)] sys_inv_thread [OF k1(2) aliveI(2) [OF k1(5)]] l by auto
  moreover obtain k4 where "rt_event_control e RT_IPC_CMD_RESET k1 = Some (RT_EOK, k4)" "th_error (threads k4 t) = RT_ERROR"
    "on_tlist k4 (Event_wait e) = []"
    using event_reset [OF k1(2,3) u1] l by auto
  ultimately show ?thesis using k1(1,6) by (auto simp: rt_event_recv_back_def rt_consts)
qed

theorem event_roundtrip_witness:
  "\<exists>k1 k2. rt_event_recv 5 3 6 10 sample_event = Some (Waiting 1, k1) \<and> rt_event_send 5 9 k1 = Some (RT_EOK, k2)
    \<and> rt_event_recv_back 1 k2 = (RT_EOK, Some 1) \<and> ev_set (events k2 5) = 8"
  using event_roundtrip [OF sample_event_call, of 6 3 9 10 2] sample_event_ok by (auto simp: ev_ready_def ev_left_def rt_consts)

end
