(* ===== verification/RT_Mailbox.thy ===== *)
theory RT_Mailbox
  imports RT_Ipc RT_Ring
begin

text \<open>
  Mailboxes, the operations \<^verbatim>\<open>rt_mb_*\<close> of \<^verbatim>\<open>kernel/src/ipc.c\<close>: a ring of 32-bit mails
  with threads waiting for a mail and threads waiting for room.  The blocking services are loops that wait again
  when the mail or the room is gone once the thread runs; such a service is split where the thread
  gives up the processor.
\<close>

section \<open>The code\<close>

definition mb_empty :: "rt_mailbox \<Rightarrow> rt_mailbox" where
  "mb_empty mb = mb\<lparr>mb_entry := 0, mb_in_offset := 0, mb_out_offset := 0\<rparr>"

definition rt_mb_init ::
    "nat \<Rightarrow> rt_uint8_t list \<Rightarrow> rt_uint32_t list \<Rightarrow> rt_uint32_t \<Rightarrow> rt_uint8_t \<Rightarrow> kernel \<Rightarrow> (rt_err_t \<times> kernel) option" where
  "rt_mb_init m name pool sz flag k =
     do { k \<leftarrow> rt_object_init (Obj m) RT_Object_Class_MailBox name k;
          let k = upd_object (Obj m) (\<lambda>ob. ob\<lparr>obj_flag := flag\<rparr>) k;
          k \<leftarrow> tlist_init_head (Mb_recv_wait m) k;
          let k = upd_mb m (\<lambda>mb. mb_empty (mb\<lparr>mb_msg_pool := pool, mb_size := ucast sz\<rparr>)) k;
          k \<leftarrow> tlist_init_head (Mb_send_wait m) k;
          Some (RT_EOK, k) }"

definition rt_mb_detach :: "nat \<Rightarrow> kernel \<Rightarrow> (rt_err_t \<times> kernel) option" where
  "rt_mb_detach m k =
     do { RT_ASSERT (rt_object_get_type (Obj m) k = RT_Object_Class_MailBox);
          RT_ASSERT (rt_object_is_systemobject (Obj m) k);
          k \<leftarrow> rt_ipc_list_resume_all (Mb_recv_wait m) k;
          k \<leftarrow> rt_ipc_list_resume_all (Mb_send_wait m) k;
          Some (RT_EOK, rt_object_detach (Obj m) k) }"

text \<open>\<open>malloc n\<close> is the block of \<open>n\<close> mails the allocator gives.\<close>

definition rt_mb_create ::
    "rt_uint8_t list \<Rightarrow> rt_uint32_t \<Rightarrow> rt_uint8_t \<Rightarrow> nat option \<Rightarrow> (nat \<Rightarrow> rt_uint32_t list option) \<Rightarrow> kernel \<Rightarrow>
      (nat option \<times> kernel) option" where
  "rt_mb_create name sz flag block malloc k =
     do { RT_DEBUG_NOT_IN_INTERRUPT k;
          (r, k) \<leftarrow> rt_object_allocate RT_Object_Class_MailBox name block k;
          case r of None \<Rightarrow> Some (None, k)
          | Some m \<Rightarrow>
              do { let k = upd_object (Obj m) (\<lambda>ob. ob\<lparr>obj_flag := flag\<rparr>) k;
                   k \<leftarrow> tlist_init_head (Mb_recv_wait m) k;
                   let k = upd_mb m (\<lambda>mb. mb\<lparr>mb_size := ucast sz\<rparr>) k;
                   case malloc (unat (mb_size (mailboxes k m))) of
                     None \<Rightarrow> do { k \<leftarrow> rt_object_delete (Obj m) k; Some (None, k) }
                   | Some pool \<Rightarrow>
                       do { let k = upd_mb m (\<lambda>mb. mb_empty (mb\<lparr>mb_msg_pool := pool\<rparr>)) k;
                            k \<leftarrow> tlist_init_head (Mb_send_wait m) k;
                            Some (Some m, k) } } }"

text \<open>The freed pool is no longer memory of the mailbox.\<close>

definition rt_mb_delete :: "nat \<Rightarrow> kernel \<Rightarrow> (rt_err_t \<times> kernel) option" where
  "rt_mb_delete m k =
     do { RT_DEBUG_NOT_IN_INTERRUPT k;
          RT_ASSERT (rt_object_get_type (Obj m) k = RT_Object_Class_MailBox);
          RT_ASSERT (\<not> rt_object_is_systemobject (Obj m) k);
          k \<leftarrow> rt_ipc_list_resume_all (Mb_recv_wait m) k;
          k \<leftarrow> rt_ipc_list_resume_all (Mb_send_wait m) k;
          let k = upd_mb m (\<lambda>mb. mb\<lparr>mb_msg_pool := []\<rparr>) k;
          k \<leftarrow> rt_object_delete (Obj m) k;
          Some (RT_EOK, k) }"

text \<open>The accesses to the ring; an access outside of the pool has no result.\<close>

definition mb_put :: "rt_uint32_t \<Rightarrow> rt_mailbox \<Rightarrow> rt_mailbox option" where
  "mb_put v mb =
     do { RT_ASSERT (unat (mb_in_offset mb) < length (mb_msg_pool mb));
          let mb = mb\<lparr>mb_msg_pool := (mb_msg_pool mb)[unat (mb_in_offset mb) := v]\<rparr>;
          let mb = mb\<lparr>mb_in_offset := mb_in_offset mb + 1\<rparr>;
          let mb = (if mb_size mb \<le> mb_in_offset mb then mb\<lparr>mb_in_offset := 0\<rparr> else mb);
          Some (mb\<lparr>mb_entry := mb_entry mb + 1\<rparr>) }"

definition mb_put_front :: "rt_uint32_t \<Rightarrow> rt_mailbox \<Rightarrow> rt_mailbox option" where
  "mb_put_front v mb =
     do { let mb = (if 0 < mb_out_offset mb then mb\<lparr>mb_out_offset := mb_out_offset mb - 1\<rparr>
                    else mb\<lparr>mb_out_offset := mb_size mb - 1\<rparr>);
          RT_ASSERT (unat (mb_out_offset mb) < length (mb_msg_pool mb));
          let mb = mb\<lparr>mb_msg_pool := (mb_msg_pool mb)[unat (mb_out_offset mb) := v]\<rparr>;
          Some (mb\<lparr>mb_entry := mb_entry mb + 1\<rparr>) }"

definition mb_get :: "rt_mailbox \<Rightarrow> (rt_uint32_t \<times> rt_mailbox) option" where
  "mb_get mb =
     do { RT_ASSERT (unat (mb_out_offset mb) < length (mb_msg_pool mb));
          let v = mb_msg_pool mb ! unat (mb_out_offset mb);
          let mb = mb\<lparr>mb_out_offset := mb_out_offset mb + 1\<rparr>;
          let mb = (if mb_size mb \<le> mb_out_offset mb then mb\<lparr>mb_out_offset := 0\<rparr> else mb);
          Some (v, if 0 < mb_entry mb then mb\<lparr>mb_entry := mb_entry mb - 1\<rparr> else mb) }"

text \<open>\<^verbatim>\<open>rt_mb_send_wait\<close> from the head of its loop on; \<open>self\<close> is the local variable \<^verbatim>\<open>thread\<close>.\<close>

definition mb_send_loop :: "nat \<Rightarrow> rt_uint32_t \<Rightarrow> 32 word \<Rightarrow> tid option \<Rightarrow> kernel \<Rightarrow> (rt_err_t outcome \<times> kernel) option" where
  "mb_send_loop m v timeout self k =
     (if mb_entry (mailboxes k m) = mb_size (mailboxes k m) then
        do { t \<leftarrow> self;
             let k = upd_thread t (\<lambda>th. th\<lparr>th_error := RT_EOK\<rparr>) k;
             if timeout = 0 then Some (Finished (-RT_EFULL), k)
             else do {
               RT_DEBUG_IN_THREAD_CONTEXT k;
               k \<leftarrow> ipc_wait (Mb_send_wait m) t (obj_flag (objects k (Obj m))) timeout k;
               Some (Waiting t, k) } }
      else
        do { mb \<leftarrow> mb_put v (mailboxes k m);
             k \<leftarrow> ipc_wake (Mb_recv_wait m) (upd_mb m (\<lambda>_. mb) k);
             Some (Finished RT_EOK, k) })"

definition rt_mb_send_wait :: "nat \<Rightarrow> rt_uint32_t \<Rightarrow> 32 word \<Rightarrow> kernel \<Rightarrow> (rt_err_t outcome \<times> kernel) option" where
  "rt_mb_send_wait m v timeout k =
     do { RT_ASSERT (rt_object_get_type (Obj m) k = RT_Object_Class_MailBox);
          if mb_entry (mailboxes k m) = mb_size (mailboxes k m) \<and> timeout = 0 then Some (Finished (-RT_EFULL), k)
          else mb_send_loop m v timeout (rt_thread_self k) k }"

text \<open>\<open>start\<close> is the tick at which the wait began.\<close>

definition rt_mb_send_wait_back ::
    "nat \<Rightarrow> rt_uint32_t \<Rightarrow> 32 word \<Rightarrow> rt_tick_t \<Rightarrow> tid \<Rightarrow> kernel \<Rightarrow> (rt_err_t outcome \<times> kernel) option" where
  "rt_mb_send_wait_back m v timeout start t k =
     (if th_error (threads k t) \<noteq> RT_EOK then Some (Finished (- th_error (threads k t)), k)
      else mb_send_loop m v (rest_timeout timeout start k) (Some t) k)"

definition rt_mb_send :: "nat \<Rightarrow> rt_uint32_t \<Rightarrow> kernel \<Rightarrow> (rt_err_t outcome \<times> kernel) option" where
  "rt_mb_send m v k = rt_mb_send_wait m v 0 k"

definition rt_mb_urgent :: "nat \<Rightarrow> rt_uint32_t \<Rightarrow> kernel \<Rightarrow> (rt_err_t \<times> kernel) option" where
  "rt_mb_urgent m v k =
     do { RT_ASSERT (rt_object_get_type (Obj m) k = RT_Object_Class_MailBox);
          if mb_entry (mailboxes k m) = mb_size (mailboxes k m) then Some (-RT_EFULL, k)
          else do {
            mb \<leftarrow> mb_put_front v (mailboxes k m);
            k \<leftarrow> ipc_wake (Mb_recv_wait m) (upd_mb m (\<lambda>_. mb) k);
            Some (RT_EOK, k) } }"

text \<open>The result of a receive is the error code and the value stored to \<^verbatim>\<open>*value\<close>, if one is stored.\<close>

definition mb_recv_loop ::
    "nat \<Rightarrow> 32 word \<Rightarrow> tid option \<Rightarrow> kernel \<Rightarrow> ((rt_err_t \<times> rt_uint32_t option) outcome \<times> kernel) option" where
  "mb_recv_loop m timeout self k =
     (if mb_entry (mailboxes k m) = 0 then
        do { t \<leftarrow> self;
             let k = upd_thread t (\<lambda>th. th\<lparr>th_error := RT_EOK\<rparr>) k;
             if timeout = 0 then Some (Finished (-RT_ETIMEOUT, None), upd_thread t (\<lambda>th. th\<lparr>th_error := RT_ETIMEOUT\<rparr>) k)
             else do {
               RT_DEBUG_IN_THREAD_CONTEXT k;
               k \<leftarrow> ipc_wait (Mb_recv_wait m) t (obj_flag (objects k (Obj m))) timeout k;
               Some (Waiting t, k) } }
      else
        do { (v, mb) \<leftarrow> mb_get (mailboxes k m);
             k \<leftarrow> ipc_wake (Mb_send_wait m) (upd_mb m (\<lambda>_. mb) k);
             Some (Finished (RT_EOK, Some v), k) })"

definition rt_mb_recv :: "nat \<Rightarrow> 32 word \<Rightarrow> kernel \<Rightarrow> ((rt_err_t \<times> rt_uint32_t option) outcome \<times> kernel) option" where
  "rt_mb_recv m timeout k =
     do { RT_ASSERT (rt_object_get_type (Obj m) k = RT_Object_Class_MailBox);
          if mb_entry (mailboxes k m) = 0 \<and> timeout = 0 then Some (Finished (-RT_ETIMEOUT, None), k)
          else mb_recv_loop m timeout (rt_thread_self k) k }"

definition rt_mb_recv_back ::
    "nat \<Rightarrow> 32 word \<Rightarrow> rt_tick_t \<Rightarrow> tid \<Rightarrow> kernel \<Rightarrow> ((rt_err_t \<times> rt_uint32_t option) outcome \<times> kernel) option" where
  "rt_mb_recv_back m timeout start t k =
     (if th_error (threads k t) \<noteq> RT_EOK then Some (Finished (- th_error (threads k t), None), k)
      else mb_recv_loop m (rest_timeout timeout start k) (Some t) k)"

definition rt_mb_control :: "nat \<Rightarrow> int \<Rightarrow> kernel \<Rightarrow> (rt_err_t \<times> kernel) option" where
  "rt_mb_control m cmd k =
     do { RT_ASSERT (rt_object_get_type (Obj m) k = RT_Object_Class_MailBox);
          if cmd = RT_IPC_CMD_RESET then
            do { k \<leftarrow> rt_ipc_list_resume_all (Mb_recv_wait m) k;
                 k \<leftarrow> rt_ipc_list_resume_all (Mb_send_wait m) k;
                 k \<leftarrow> rt_schedule (upd_mb m mb_empty k);
                 Some (RT_EOK, k) }
          else Some (-RT_ERROR, k) }"

section \<open>The ring\<close>

definition mb_wf :: "rt_mailbox \<Rightarrow> bool" where
  "mb_wf mb \<longleftrightarrow> 0 < mb_size mb \<and> length (mb_msg_pool mb) = unat (mb_size mb) \<and> mb_entry mb \<le> mb_size mb
     \<and> mb_out_offset mb < mb_size mb
     \<and> unat (mb_in_offset mb) = (unat (mb_out_offset mb) + unat (mb_entry mb)) mod unat (mb_size mb)"

definition mb_mails :: "rt_mailbox \<Rightarrow> rt_uint32_t list" where
  "mb_mails mb = ring_read (unat (mb_size mb)) (unat (mb_out_offset mb)) (unat (mb_entry mb)) (mb_msg_pool mb)"

lemma mb_mails_length [simp]: "length (mb_mails mb) = unat (mb_entry mb)"
  by (simp add: mb_mails_def)

lemma mb_empty_wf:
  "length (mb_msg_pool mb) = unat (mb_size mb) \<Longrightarrow> 0 < mb_size mb \<Longrightarrow> mb_wf (mb_empty mb) \<and> mb_mails (mb_empty mb) = []"
  by (simp add: mb_wf_def mb_empty_def mb_mails_def)

text \<open>An offset that is counted up and set back to zero at the end of the pool.\<close>

lemma next_offset:
  fixes i s :: rt_uint16_t
  assumes "i < s"
  shows "unat (if s \<le> i + 1 then 0 else i + 1) = Suc (unat i) mod unat s"
proof -
  have l: "unat i < unat s" "unat s < 65536" using assms unsigned_less [where 'a = nat and w = s] by (simp_all add: word_less_nat_alt)
  then have "unat (i + 1) = Suc (unat i)" by (simp add: unat_word_ariths)
  then show ?thesis using l by (auto simp: word_le_nat_alt mod_Suc)
qed

lemma prev_offset:
  fixes i s :: rt_uint16_t
  assumes "i < s"
  shows "(if 0 < i then i - 1 else s - 1) < s \<and> Suc (unat (if 0 < i then i - 1 else s - 1)) mod unat s = unat i"
proof -
  have l: "unat i < unat s" using assms by (simp add: word_less_nat_alt)
  show ?thesis
  proof (cases "0 < i")
    case True
    then have "unat (i - 1) = unat i - 1" "0 < unat i" by (simp_all add: word_gt_0 unat_minus_one unat_gt_0)
    then show ?thesis using True l by (simp add: word_less_nat_alt)
  next
    case False
    then have "i = 0" by (simp add: word_gt_0)
    moreover have "unat (s - 1) = unat s - 1" using l by (intro unat_minus_one) auto
    ultimately show ?thesis using l by (auto simp: word_less_nat_alt)
  qed
qed

lemma entry_up:
  fixes n s :: rt_uint16_t
  assumes "n < s"
  shows "unat (n + 1) = Suc (unat n)"
  using assms unsigned_less [where 'a = nat and w = s] by (simp add: unat_word_ariths word_less_nat_alt)

lemma mb_put_ok:
  assumes wf: "mb_wf mb" and room: "mb_entry mb \<noteq> mb_size mb"
  shows "\<exists>mb'. mb_put v mb = Some mb' \<and> mb_wf mb' \<and> mb_size mb' = mb_size mb \<and> mb_mails mb' = mb_mails mb @ [v]"
proof -
  define sz where "sz = unat (mb_size mb)"
  define r where "r = unat (mb_out_offset mb)"
  define n where "n = unat (mb_entry mb)"
  have e: "mb_entry mb < mb_size mb" using wf room by (simp add: mb_wf_def order.strict_iff_order)
  then have n: "n < sz" "r < sz" "length (mb_msg_pool mb) = sz" "unat (mb_in_offset mb) = (r + n) mod sz"
    using wf by (simp_all add: mb_wf_def n_def sz_def r_def word_less_nat_alt)
  then have i: "unat (mb_in_offset mb) < sz" using mod_less_divisor [of sz "r + n"] by simp
  then have lt: "mb_in_offset mb < mb_size mb" by (simp add: word_less_nat_alt sz_def)
  define i' where "i' = (if mb_size mb \<le> mb_in_offset mb + 1 then 0 else mb_in_offset mb + 1)"
  define mb' where "mb' = mb\<lparr>mb_msg_pool := (mb_msg_pool mb)[(r + n) mod sz := v], mb_in_offset := i', mb_entry := mb_entry mb + 1\<rparr>"
  have put: "mb_put v mb = Some mb'" using i n by (cases mb) (simp add: mb_put_def RT_ASSERT_def mb'_def i'_def Let_def)
  have u: "unat (mb_entry mb + 1) = Suc n" using entry_up [OF e] by (simp add: n_def)
  have i': "unat i' = Suc ((r + n) mod sz) mod sz" using next_offset [OF lt] n(4) by (simp add: i'_def sz_def)
  have "mb_wf mb'"
    using wf n u i' by (simp add: mb_wf_def mb'_def sz_def [symmetric] r_def [symmetric] n_def [symmetric] word_le_nat_alt mod_Suc_eq)
  moreover have "mb_mails mb' = mb_mails mb @ [v]"
    using ring_read_snoc [of n sz "mb_msg_pool mb" r v] n u
    by (simp add: mb_mails_def mb'_def sz_def [symmetric] r_def [symmetric] n_def [symmetric])
  ultimately show ?thesis using put by (simp add: mb'_def)
qed

lemma mb_put_front_ok:
  assumes wf: "mb_wf mb" and room: "mb_entry mb \<noteq> mb_size mb"
  shows "\<exists>mb'. mb_put_front v mb = Some mb' \<and> mb_wf mb' \<and> mb_size mb' = mb_size mb \<and> mb_mails mb' = v # mb_mails mb"
proof -
  define sz where "sz = unat (mb_size mb)"
  define r where "r = unat (mb_out_offset mb)"
  define n where "n = unat (mb_entry mb)"
  have e: "mb_entry mb < mb_size mb" "mb_out_offset mb < mb_size mb" using wf room by (simp_all add: mb_wf_def order.strict_iff_order)
  then have n: "n < sz" "r < sz" "length (mb_msg_pool mb) = sz" "unat (mb_in_offset mb) = (r + n) mod sz"
    using wf by (simp_all add: mb_wf_def n_def sz_def r_def word_less_nat_alt)
  define o' where "o' = (if 0 < mb_out_offset mb then mb_out_offset mb - 1 else mb_size mb - 1)"
  have o': "o' < mb_size mb" "Suc (unat o') mod sz = r" using prev_offset [OF e(2)] by (simp_all add: o'_def sz_def r_def)
  then have ol: "unat o' < sz" by (simp add: word_less_nat_alt sz_def)
  define mb' where "mb' = mb\<lparr>mb_out_offset := o', mb_msg_pool := (mb_msg_pool mb)[unat o' := v], mb_entry := mb_entry mb + 1\<rparr>"
  have put: "mb_put_front v mb = Some mb'"
    using ol n by (cases mb) (auto simp: mb_put_front_def RT_ASSERT_def mb'_def o'_def Let_def split: if_splits)
  have u: "unat (mb_entry mb + 1) = Suc n" using entry_up [OF e(1)] by (simp add: n_def)
  have "(unat o' + Suc n) mod sz = (r + n) mod sz" using o'(2) by (metis add_Suc_shift mod_add_left_eq)
  then have "mb_wf mb'"
    using wf n u o'(1) by (simp add: mb_wf_def mb'_def sz_def [symmetric] word_le_nat_alt)
  moreover have "mb_mails mb' = v # mb_mails mb"
    using ring_read_push [of n sz "mb_msg_pool mb" "unat o'" r v] n u o' ol
    by (simp add: mb_mails_def mb'_def sz_def [symmetric] r_def [symmetric] n_def [symmetric])
  ultimately show ?thesis using put by (simp add: mb'_def)
qed

lemma mb_get_ok:
  assumes wf: "mb_wf mb" and c: "mb_mails mb = v # vs"
  shows "\<exists>mb'. mb_get mb = Some (v, mb') \<and> mb_wf mb' \<and> mb_size mb' = mb_size mb \<and> mb_mails mb' = vs"
proof -
  define sz where "sz = unat (mb_size mb)"
  define r where "r = unat (mb_out_offset mb)"
  define n where "n = unat (mb_entry mb)"
  have "length (mb_mails mb) = Suc (length vs)" using c by simp
  then have n1: "n = Suc (length vs)" by (simp add: n_def)
  have o: "mb_out_offset mb < mb_size mb" using wf by (simp add: mb_wf_def)
  have n: "n \<le> sz" "r < sz" "length (mb_msg_pool mb) = sz" "unat (mb_in_offset mb) = (r + n) mod sz"
    using wf by (simp_all add: mb_wf_def n_def sz_def r_def word_less_nat_alt word_le_nat_alt)
  have pos: "0 < mb_entry mb" using n1 by (simp add: n_def word_gt_0 unat_eq_0 [symmetric])
  define o' where "o' = (if mb_size mb \<le> mb_out_offset mb + 1 then 0 else mb_out_offset mb + 1)"
  have o': "unat o' = Suc r mod sz" using next_offset [OF o] by (simp add: o'_def sz_def r_def)
  have mails: "mb_mails mb = mb_msg_pool mb ! r # ring_read sz (Suc r) (length vs) (mb_msg_pool mb)"
    using n by (simp add: mb_mails_def sz_def [symmetric] r_def [symmetric] n_def [symmetric] n1 ring_read_Cons)
  define mb' where "mb' = mb\<lparr>mb_out_offset := o', mb_entry := mb_entry mb - 1\<rparr>"
  have get: "mb_get mb = Some (v, mb')"
    using n pos c mails by (cases mb) (auto simp: mb_get_def RT_ASSERT_def mb'_def o'_def Let_def r_def)
  have u: "unat (mb_entry mb - 1) = length vs" using pos n1 by (simp add: n_def unat_minus_one word_gt_0)
  have lt: "o' < mb_size mb" using o' n(2) mod_less_divisor [of sz "Suc r"] by (simp add: word_less_nat_alt sz_def)
  have "(Suc r mod sz + length vs) mod sz = (r + n) mod sz" by (simp add: n1 mod_add_left_eq)
  then have "mb_wf mb'"
    using wf n u lt o' n1 by (simp add: mb_wf_def mb'_def sz_def [symmetric] word_le_nat_alt)
  moreover have "mb_mails mb' = vs"
    using c mails o' u by (simp add: mb_mails_def mb'_def sz_def [symmetric] ring_read_mod)
  ultimately show ?thesis using get by (simp add: mb'_def)
qed

section \<open>Sending and receiving\<close>

definition mb_inv :: "nat \<Rightarrow> kernel \<Rightarrow> bool" where
  "mb_inv m k \<longleftrightarrow> rt_object_get_type (Obj m) k = RT_Object_Class_MailBox
     \<and> (obj_flag (objects k (Obj m)) = RT_IPC_FLAG_FIFO \<or> obj_flag (objects k (Obj m)) = RT_IPC_FLAG_PRIO)
     \<and> mb_wf (mailboxes k m)"

lemma mb_inv_frame: "same_ipc k k' \<Longrightarrow> mb_inv m k' = mb_inv m k"
  by (simp add: mb_inv_def same_ipc_def rt_object_get_type_def)

lemma mb_inv_upd:
  "mb_inv m k \<Longrightarrow> mb_wf mb \<Longrightarrow> mb_inv m (upd_mb m (\<lambda>_. mb) k)"
  by (simp add: mb_inv_def)

text \<open>A mail or room for one is what the two lists of threads wait for.\<close>

definition mb_has_mail :: "nat \<Rightarrow> kernel \<Rightarrow> bool" where
  "mb_has_mail m k \<longleftrightarrow> mb_entry (mailboxes k m) \<noteq> 0"

definition mb_has_room :: "nat \<Rightarrow> kernel \<Rightarrow> bool" where
  "mb_has_room m k \<longleftrightarrow> mb_entry (mailboxes k m) \<noteq> mb_size (mailboxes k m)"

interpretation mb_receivers: waiting "Mb_recv_wait m" "mb_has_mail m" for m
  by unfold_locales (simp_all add: mb_has_mail_def same_ipc_def)

interpretation mb_senders: waiting "Mb_send_wait m" "mb_has_room m" for m
  by unfold_locales (simp_all add: mb_has_room_def same_ipc_def)

lemma mb_has_mail_iff: "mb_has_mail m k \<longleftrightarrow> mb_mails (mailboxes k m) \<noteq> []"
  using mb_mails_length [of "mailboxes k m"] by (auto simp: mb_has_mail_def unat_eq_0 simp flip: length_0_conv)

text \<open>With room for the mail: it is appended and the first waiting receiver is woken.\<close>

lemma mb_send_now:
  assumes inv: "sys_inv k" and m: "mb_inv m k" and room: "mb_has_room m k"
  shows "\<exists>k0 k'. mb_send_loop m v timeout self k = Some (Finished RT_EOK, k')
    \<and> k0 = upd_mb m (\<lambda>_. mailboxes k' m) k \<and> woken_first (Mb_recv_wait m) k0 k' \<and> sys_inv k' \<and> mb_inv m k'
    \<and> mb_size (mailboxes k' m) = mb_size (mailboxes k m) \<and> mb_mails (mailboxes k' m) = mb_mails (mailboxes k m) @ [v]"
proof -
  obtain mb where mb: "mb_put v (mailboxes k m) = Some mb" "mb_wf mb" "mb_size mb = mb_size (mailboxes k m)"
    "mb_mails mb = mb_mails (mailboxes k m) @ [v]"
    using mb_put_ok [of "mailboxes k m" v] m room by (auto simp: mb_inv_def mb_has_room_def)
  let ?k0 = "upd_mb m (\<lambda>_. mb) k"
  obtain k' where k': "ipc_wake (Mb_recv_wait m) ?k0 = Some k'" "woken_first (Mb_recv_wait m) ?k0 k'" "sys_inv k'"
    using ipc_wake_ok [of ?k0 "Mb_recv_wait m"] inv by auto
  have "mailboxes k' = mailboxes ?k0" "mb_inv m k'"
    using k'(2) mb_inv_frame [of ?k0 k' m] mb_inv_upd [OF m mb(2)] by (simp_all add: woken_first_def same_ipc_def)
  moreover have "mb_send_loop m v timeout self k = Some (Finished RT_EOK, k')"
    using mb(1) k'(1) room by (simp add: mb_send_loop_def mb_has_room_def)
  ultimately show ?thesis using k' mb by (intro exI [of _ ?k0] exI [of _ k']) simp
qed

lemma mb_urgent_now:
  assumes inv: "sys_inv k" and m: "mb_inv m k" and room: "mb_has_room m k"
  shows "\<exists>k0 k'. rt_mb_urgent m v k = Some (RT_EOK, k')
    \<and> k0 = upd_mb m (\<lambda>_. mailboxes k' m) k \<and> woken_first (Mb_recv_wait m) k0 k' \<and> sys_inv k' \<and> mb_inv m k'
    \<and> mb_size (mailboxes k' m) = mb_size (mailboxes k m) \<and> mb_mails (mailboxes k' m) = v # mb_mails (mailboxes k m)"
proof -
  obtain mb where mb: "mb_put_front v (mailboxes k m) = Some mb" "mb_wf mb" "mb_size mb = mb_size (mailboxes k m)"
    "mb_mails mb = v # mb_mails (mailboxes k m)"
    using mb_put_front_ok [of "mailboxes k m" v] m room by (auto simp: mb_inv_def mb_has_room_def)
  let ?k0 = "upd_mb m (\<lambda>_. mb) k"
  obtain k' where k': "ipc_wake (Mb_recv_wait m) ?k0 = Some k'" "woken_first (Mb_recv_wait m) ?k0 k'" "sys_inv k'"
    using ipc_wake_ok [of ?k0 "Mb_recv_wait m"] inv by auto
  have "mailboxes k' = mailboxes ?k0" "mb_inv m k'"
    using k'(2) mb_inv_frame [of ?k0 k' m] mb_inv_upd [OF m mb(2)] by (simp_all add: woken_first_def same_ipc_def)
  moreover have "rt_mb_urgent m v k = Some (RT_EOK, k')"
    using mb(1) k'(1) room m by (simp add: rt_mb_urgent_def mb_has_room_def mb_inv_def)
  ultimately show ?thesis using k' mb by (intro exI [of _ ?k0] exI [of _ k']) simp
qed

lemma mb_recv_now:
  assumes inv: "sys_inv k" and m: "mb_inv m k" and mail: "mb_mails (mailboxes k m) = v # vs"
  shows "\<exists>k0 k'. mb_recv_loop m timeout self k = Some (Finished (RT_EOK, Some v), k')
    \<and> k0 = upd_mb m (\<lambda>_. mailboxes k' m) k \<and> woken_first (Mb_send_wait m) k0 k' \<and> sys_inv k' \<and> mb_inv m k'
    \<and> mb_size (mailboxes k' m) = mb_size (mailboxes k m) \<and> mb_mails (mailboxes k' m) = vs"
proof -
  obtain mb where mb: "mb_get (mailboxes k m) = Some (v, mb)" "mb_wf mb" "mb_size mb = mb_size (mailboxes k m)" "mb_mails mb = vs"
    using mb_get_ok [OF _ mail] m by (auto simp: mb_inv_def)
  let ?k0 = "upd_mb m (\<lambda>_. mb) k"
  obtain k' where k': "ipc_wake (Mb_send_wait m) ?k0 = Some k'" "woken_first (Mb_send_wait m) ?k0 k'" "sys_inv k'"
    using ipc_wake_ok [of ?k0 "Mb_send_wait m"] inv by auto
  have "mailboxes k' = mailboxes ?k0" "mb_inv m k'"
    using k'(2) mb_inv_frame [of ?k0 k' m] mb_inv_upd [OF m mb(2)] by (simp_all add: woken_first_def same_ipc_def)
  moreover have "mb_has_mail m k" using mail by (simp add: mb_has_mail_iff)
  then have "mb_recv_loop m timeout self k = Some (Finished (RT_EOK, Some v), k')"
    using mb(1) k'(1) by (simp add: mb_recv_loop_def mb_has_mail_def)
  ultimately show ?thesis using k' mb by (intro exI [of _ ?k0] exI [of _ k']) simp
qed

text \<open>Without a mail or without room the running thread waits.\<close>

lemma mb_send_waits:
  assumes inv: "sys_inv k" and m: "mb_inv m k" and full: "\<not> mb_has_room m k" and cur: "rt_current_thread k = Some t"
    and st: "stat_of k t = RT_THREAD_READY" and ir: "rt_interrupt_nest k = 0"
    and time: "timeout \<noteq> 0" "timeout \<noteq> 0x7fffffff" and u: "stat_of k u = RT_THREAD_READY" "u \<noteq> t"
  shows "\<exists>k'. mb_send_loop m v timeout (Some t) k = Some (Waiting t, k') \<and> sys_inv k' \<and> mb_inv m k' \<and> same_ipc k k'
    \<and> now_waiting (Mb_send_wait m) (obj_flag (objects k (Obj m))) timeout t k k'"
proof -
  have fl: "obj_flag (objects k (Obj m)) = RT_IPC_FLAG_FIFO \<or> obj_flag (objects k (Obj m)) = RT_IPC_FLAG_PRIO"
    using m by (simp add: mb_inv_def)
  obtain k' where k': "ipc_wait (Mb_send_wait m) t (obj_flag (objects k (Obj m))) timeout (upd_thread t (\<lambda>th. th\<lparr>th_error := RT_EOK\<rparr>) k) = Some k'"
    "sys_inv k'" "same_ipc k k'" "now_waiting (Mb_send_wait m) (obj_flag (objects k (Obj m))) timeout t k k'"
    using mb_senders.block_now_waiting [OF inv full st fl time(2) u] by blast
  have "mb_send_loop m v timeout (Some t) k = Some (Waiting t, k')"
    using full cur ir time(1) k'(1)
    by (simp add: mb_send_loop_def mb_has_room_def RT_DEBUG_IN_THREAD_CONTEXT_def RT_DEBUG_NOT_IN_INTERRUPT_def rt_interrupt_get_nest_def)
  then show ?thesis using k' m mb_inv_frame [OF k'(3), of m] by blast
qed

lemma mb_recv_waits:
  assumes inv: "sys_inv k" and m: "mb_inv m k" and none: "\<not> mb_has_mail m k" and cur: "rt_current_thread k = Some t"
    and st: "stat_of k t = RT_THREAD_READY" and ir: "rt_interrupt_nest k = 0"
    and time: "timeout \<noteq> 0" "timeout \<noteq> 0x7fffffff" and u: "stat_of k u = RT_THREAD_READY" "u \<noteq> t"
  shows "\<exists>k'. mb_recv_loop m timeout (Some t) k = Some (Waiting t, k') \<and> sys_inv k' \<and> mb_inv m k' \<and> same_ipc k k'
    \<and> now_waiting (Mb_recv_wait m) (obj_flag (objects k (Obj m))) timeout t k k'"
proof -
  have fl: "obj_flag (objects k (Obj m)) = RT_IPC_FLAG_FIFO \<or> obj_flag (objects k (Obj m)) = RT_IPC_FLAG_PRIO"
    using m by (simp add: mb_inv_def)
  obtain k' where k': "ipc_wait (Mb_recv_wait m) t (obj_flag (objects k (Obj m))) timeout (upd_thread t (\<lambda>th. th\<lparr>th_error := RT_EOK\<rparr>) k) = Some k'"
    "sys_inv k'" "same_ipc k k'" "now_waiting (Mb_recv_wait m) (obj_flag (objects k (Obj m))) timeout t k k'"
    using mb_receivers.block_now_waiting [OF inv none st fl time(2) u] by blast
  have "mb_recv_loop m timeout (Some t) k = Some (Waiting t, k')"
    using none cur ir time(1) k'(1)
    by (simp add: mb_recv_loop_def mb_has_mail_def RT_DEBUG_IN_THREAD_CONTEXT_def RT_DEBUG_NOT_IN_INTERRUPT_def rt_interrupt_get_nest_def)
  then show ?thesis using k' m mb_inv_frame [OF k'(3), of m] by blast
qed

text \<open>A woken receiver that finds no mail when it runs again.\<close>

lemma mb_recv_again:
  assumes inv: "sys_inv k" and m: "mb_inv m k" and none: "\<not> mb_has_mail m k"
    and t: "stat_of k t = RT_THREAD_READY" "th_error (threads k t) = RT_EOK" and ir: "rt_interrupt_nest k = 0"
    and u: "stat_of k u = RT_THREAD_READY" "u \<noteq> t"
  shows "rest_timeout timeout start k = 0 \<Longrightarrow> \<exists>k'. rt_mb_recv_back m timeout start t k = Some (Finished (-RT_ETIMEOUT, None), k')"
    and "rest_timeout timeout start k \<notin> {0, 0x7fffffff} \<Longrightarrow> on_tlist k (Mb_recv_wait m) = [] \<Longrightarrow>
      \<exists>k'. rt_mb_recv_back m timeout start t (k\<lparr>rt_current_thread := Some t\<rparr>) = Some (Waiting t, k') \<and> on_tlist k' (Mb_recv_wait m) = [t]"
proof -
  let ?r = "rest_timeout timeout start k" and ?k = "k\<lparr>rt_current_thread := Some t\<rparr>"
  show "\<exists>k'. rt_mb_recv_back m timeout start t k = Some (Finished (-RT_ETIMEOUT, None), k')" if "?r = 0"
    using that t(2) none by (simp add: rt_mb_recv_back_def mb_recv_loop_def mb_has_mail_def)
  assume r: "?r \<notin> {0, 0x7fffffff}" and l: "on_tlist k (Mb_recv_wait m) = []"
  have k: "mb_inv m ?k" "\<not> mb_has_mail m ?k" "stat_of ?k t = RT_THREAD_READY" "rt_interrupt_nest ?k = 0"
    "stat_of ?k u = RT_THREAD_READY" "on_tlist ?k (Mb_recv_wait m) = []" "rest_timeout timeout start ?k = ?r"
    using m none t ir u l by (simp_all add: mb_inv_def mb_has_mail_def rt_object_get_type_def stat_of_def on_tlist_def rest_timeout_def)
  obtain k5 where "mb_recv_loop m ?r (Some t) ?k = Some (Waiting t, k5)"
    "now_waiting (Mb_recv_wait m) (obj_flag (objects ?k (Obj m))) ?r t ?k k5"
    using mb_recv_waits [OF sys_inv_run [OF inv] k(1,2) _ k(3,4), of ?r u] r k(5) u(2) by auto
  then show "\<exists>k'. rt_mb_recv_back m timeout start t ?k = Some (Waiting t, k') \<and> on_tlist k' (Mb_recv_wait m) = [t]"
    using k(6,7) t(2) by (auto simp: rt_mb_recv_back_def now_waiting_def wait_order_def)
qed

section \<open>The mailbox as a bounded queue\<close>

text \<open>The services that do not wait, as the operations of a queue.\<close>

definition mb_try_send :: "nat \<Rightarrow> kernel \<Rightarrow> rt_uint32_t \<Rightarrow> (bool \<times> kernel) option" where
  "mb_try_send m k v =
     (case rt_mb_send m v k of
        Some (Finished e, k') \<Rightarrow> if e = RT_EOK then Some (True, k') else if e = -RT_EFULL then Some (False, k') else None
      | _ \<Rightarrow> None)"

definition mb_try_recv :: "nat \<Rightarrow> kernel \<Rightarrow> (rt_uint32_t option \<times> kernel) option" where
  "mb_try_recv m k =
     (case rt_mb_recv m 0 k of
        Some (Finished (e, v), k') \<Rightarrow> if (e = RT_EOK \<and> v \<noteq> None) \<or> (e = -RT_ETIMEOUT \<and> v = None) then Some (v, k') else None
      | _ \<Rightarrow> None)"

lemma mb_no_room: "mb_inv m k \<Longrightarrow> \<not> mb_has_room m k \<Longrightarrow> rt_mb_send_wait m v 0 k = Some (Finished (-RT_EFULL), k)"
  by (simp add: rt_mb_send_wait_def mb_inv_def mb_has_room_def)

lemma mb_no_mail: "mb_inv m k \<Longrightarrow> \<not> mb_has_mail m k \<Longrightarrow> rt_mb_recv m 0 k = Some (Finished (-RT_ETIMEOUT, None), k)"
  by (simp add: rt_mb_recv_def mb_inv_def mb_has_mail_def)

lemma mb_send_room: "mb_inv m k \<Longrightarrow> mb_has_room m k \<Longrightarrow> rt_mb_send_wait m v timeout k = mb_send_loop m v timeout (rt_thread_self k) k"
  by (simp add: rt_mb_send_wait_def mb_inv_def mb_has_room_def)

lemma mb_recv_mail: "mb_inv m k \<Longrightarrow> mb_has_mail m k \<Longrightarrow> rt_mb_recv m timeout k = mb_recv_loop m timeout (rt_thread_self k) k"
  by (simp add: rt_mb_recv_def mb_inv_def mb_has_mail_def)

lemma mb_has_room_iff: "mb_has_room m k \<longleftrightarrow> length (mb_mails (mailboxes k m)) \<noteq> unat (mb_size (mailboxes k m))"
  by (simp add: mb_has_room_def word_unat_eq_iff)

interpretation mb_queue: bounded_queue "\<lambda>k. sys_inv k \<and> mb_inv m k" "\<lambda>k. mb_mails (mailboxes k m)"
    "\<lambda>k. unat (mb_size (mailboxes k m))" "mb_try_send m" "mb_try_recv m" for m
proof unfold_locales
  show "length (mb_mails (mailboxes s m)) \<le> unat (mb_size (mailboxes s m))" if "sys_inv s \<and> mb_inv m s" for s
    using that by (simp add: mb_inv_def mb_wf_def word_le_nat_alt)
  show "mb_try_send m s x = Some (False, s)"
    if "sys_inv s \<and> mb_inv m s" "length (mb_mails (mailboxes s m)) = unat (mb_size (mailboxes s m))" for s x
    using that mb_no_room [of m s x] by (simp add: mb_try_send_def rt_mb_send_def mb_has_room_iff rt_consts)
  show "\<exists>t. mb_try_send m s x = Some (True, t) \<and> (sys_inv t \<and> mb_inv m t) \<and> unat (mb_size (mailboxes t m)) = unat (mb_size (mailboxes s m))
      \<and> mb_mails (mailboxes t m) = mb_mails (mailboxes s m) @ [x]"
    if "sys_inv s \<and> mb_inv m s" "length (mb_mails (mailboxes s m)) < unat (mb_size (mailboxes s m))" for s x
  proof -
    have r: "mb_has_room m s" using that(2) by (simp add: mb_has_room_iff)
    then show ?thesis using mb_send_now [OF _ _ r, of x 0 "rt_thread_self s"] that(1) mb_send_room [OF _ r, of x 0]
      by (auto simp: mb_try_send_def rt_mb_send_def)
  qed
  show "mb_try_recv m s = Some (None, s)" if "sys_inv s \<and> mb_inv m s" "mb_mails (mailboxes s m) = []" for s
    using that mb_no_mail [of m s] by (simp add: mb_try_recv_def mb_has_mail_iff)
  show "\<exists>t. mb_try_recv m s = Some (Some x, t) \<and> (sys_inv t \<and> mb_inv m t) \<and> unat (mb_size (mailboxes t m)) = unat (mb_size (mailboxes s m))
      \<and> mb_mails (mailboxes t m) = xs"
    if "sys_inv s \<and> mb_inv m s" "mb_mails (mailboxes s m) = x # xs" for s x xs
    using mb_recv_now [OF _ _ that(2), of 0 "rt_thread_self s"] that mb_recv_mail [of m s 0]
    by (auto simp: mb_try_recv_def mb_has_mail_iff)
qed

section \<open>Properties\<close>

text \<open>C21: a mailbox is a bounded first-in first-out queue.  For every sequence of sends and receives that do not wait the
  kernel gives the answers of a queue of the capacity of the mailbox: a mail is refused exactly when the mailbox is full,
  nothing is received exactly when it is empty, and the mails come out in the order they were sent, around the end
  of the pool and whoever waits on the mailbox meanwhile.\<close>

theorem mailbox_refines_queue:
  assumes "sys_inv k" and "mb_inv m k"
  shows "queue_run (mb_try_send m) (mb_try_recv m) k ops
    = Some (queue_spec (unat (mb_size (mailboxes k m))) (mb_mails (mailboxes k m)) ops)"
  using mb_queue.every.run_refines [of k m ops] assms by simp

definition sample_mb :: kernel where
  "sample_mb = upd_mb 5 (\<lambda>_. \<lparr>mb_msg_pool = [0, 0], mb_size = 2, mb_entry = 0, mb_in_offset = 1, mb_out_offset = 1\<rparr>)
     (sample_with RT_Object_Class_MailBox RT_IPC_FLAG_FIFO)"

lemma sample_mb_ok:
  "sys_inv sample_mb" "mb_inv 5 sample_mb" "mb_size (mailboxes sample_mb 5) = 2" "mb_mails (mailboxes sample_mb 5) = []"
  "rt_current_thread sample_mb = Some (Suc 0)" "stat_of sample_mb (Suc 0) = RT_THREAD_READY" "stat_of sample_mb 2 = RT_THREAD_READY"
  "rt_interrupt_nest sample_mb = 0" "rt_scheduler_lock_nest sample_mb = 0" "obj_flag (objects sample_mb (Obj 5)) = RT_IPC_FLAG_FIFO"
  "on_tlist sample_mb (Mb_recv_wait 5) = []" "on_tlist sample_mb (Mb_send_wait 5) = []"
  by (simp_all add: sample_mb_def sample_with_sys_inv mb_inv_def on_tlist_def mb_mails_def mb_wf_def) (simp_all add: rt_consts)

theorem mailbox_refines_queue_witness:
  "queue_run (mb_try_send 5) (mb_try_recv 5) sample_mb [Push 7, Push 8, Push 9, Pop, Push 9, Pop, Pop, Pop]
    = Some [Pushed True, Pushed True, Pushed False, Popped (Some 7), Pushed True, Popped (Some 8), Popped (Some 9), Popped None]"
  by (subst mailbox_refines_queue [OF sample_mb_ok(1,2)]) (simp add: sample_mb_ok)

text \<open>\<^verbatim>\<open>rt_mb_send_wait\<close> and \<^verbatim>\<open>rt_mb_urgent\<close> on every branch.  With room the mail goes to the
  end of the queue, an urgent one to its front, and the first thread waiting for a mail becomes ready; without
  room both report \<^verbatim>\<open>-RT_EFULL\<close> and change nothing, except that a sender with a waiting time is
  put on the list of the senders of the mailbox, its timer running exactly when the time is finite.\<close>

theorem mb_send_correct:
  assumes "sys_inv k" and "mb_inv m k" and "rt_current_thread k = Some t" and "stat_of k t = RT_THREAD_READY"
    and "rt_interrupt_nest k = 0" and "timeout \<noteq> 0x7fffffff" and "stat_of k u = RT_THREAD_READY" "u \<noteq> t"
  shows "(mb_entry (mailboxes k m) \<noteq> mb_size (mailboxes k m) \<longrightarrow>
        (\<exists>k'. rt_mb_send_wait m v timeout k = Some (Finished RT_EOK, k') \<and> sys_inv k' \<and> mb_inv m k'
           \<and> mb_mails (mailboxes k' m) = mb_mails (mailboxes k m) @ [v]
           \<and> woken_first (Mb_recv_wait m) (upd_mb m (\<lambda>_. mailboxes k' m) k) k')
      \<and> (\<exists>k'. rt_mb_urgent m v k = Some (RT_EOK, k') \<and> sys_inv k' \<and> mb_inv m k'
           \<and> mb_mails (mailboxes k' m) = v # mb_mails (mailboxes k m)
           \<and> woken_first (Mb_recv_wait m) (upd_mb m (\<lambda>_. mailboxes k' m) k) k'))
    \<and> (mb_entry (mailboxes k m) = mb_size (mailboxes k m) \<longrightarrow>
        rt_mb_send m v k = Some (Finished (-RT_EFULL), k) \<and> rt_mb_urgent m v k = Some (-RT_EFULL, k)
      \<and> (timeout \<noteq> 0 \<longrightarrow> (\<exists>k'. rt_mb_send_wait m v timeout k = Some (Waiting t, k') \<and> sys_inv k' \<and> mb_inv m k'
           \<and> mailboxes k' = mailboxes k \<and> now_waiting (Mb_send_wait m) (obj_flag (objects k (Obj m))) timeout t k k')))"
proof (intro conjI impI)
  assume "mb_entry (mailboxes k m) \<noteq> mb_size (mailboxes k m)"
  then have room: "mb_has_room m k" by (simp add: mb_has_room_def)
  show "\<exists>k'. rt_mb_send_wait m v timeout k = Some (Finished RT_EOK, k') \<and> sys_inv k' \<and> mb_inv m k'
           \<and> mb_mails (mailboxes k' m) = mb_mails (mailboxes k m) @ [v]
           \<and> woken_first (Mb_recv_wait m) (upd_mb m (\<lambda>_. mailboxes k' m) k) k'"
    using mb_send_now [OF assms(1,2) room] mb_send_room [OF assms(2) room] by metis
  show "\<exists>k'. rt_mb_urgent m v k = Some (RT_EOK, k') \<and> sys_inv k' \<and> mb_inv m k'
           \<and> mb_mails (mailboxes k' m) = v # mb_mails (mailboxes k m)
           \<and> woken_first (Mb_recv_wait m) (upd_mb m (\<lambda>_. mailboxes k' m) k) k'"
    using mb_urgent_now [OF assms(1,2) room] by metis
next
  assume full: "mb_entry (mailboxes k m) = mb_size (mailboxes k m)"
  then have nr: "\<not> mb_has_room m k" by (simp add: mb_has_room_def)
  show "rt_mb_send m v k = Some (Finished (-RT_EFULL), k)" using mb_no_room [OF assms(2) nr] by (simp add: rt_mb_send_def)
  show "rt_mb_urgent m v k = Some (-RT_EFULL, k)" using full assms(2) by (simp add: rt_mb_urgent_def mb_inv_def)
  assume time: "timeout \<noteq> 0"
  have "rt_mb_send_wait m v timeout k = mb_send_loop m v timeout (Some t) k"
    using time assms(2,3) by (simp add: rt_mb_send_wait_def mb_inv_def rt_thread_self_def)
  then show "\<exists>k'. rt_mb_send_wait m v timeout k = Some (Waiting t, k') \<and> sys_inv k' \<and> mb_inv m k'
           \<and> mailboxes k' = mailboxes k \<and> now_waiting (Mb_send_wait m) (obj_flag (objects k (Obj m))) timeout t k k'"
    using mb_send_waits [OF assms(1,2) nr assms(3-5) time assms(6-8), of v] by (auto simp: same_ipc_def)
qed

theorem mb_send_correct_witness:
  "(\<exists>k'. rt_mb_send_wait 5 7 10 sample_mb = Some (Finished RT_EOK, k') \<and> mb_mails (mailboxes k' 5) = [7])
   \<and> (\<exists>k'. rt_mb_urgent 5 8 sample_mb = Some (RT_EOK, k') \<and> mb_mails (mailboxes k' 5) = [8])"
proof -
  have "mb_entry (mailboxes sample_mb 5) \<noteq> mb_size (mailboxes sample_mb 5)" by (simp add: sample_mb_def)
  then show ?thesis
    using mb_send_correct [of sample_mb 5 1 10 2 7] mb_send_correct [of sample_mb 5 1 10 2 8] sample_mb_ok by auto
qed

text \<open>Receiving, and the loop of \<^verbatim>\<open>rt_mb_recv\<close>.  A receiver of an empty mailbox waits at the place its
  flag asks for.  A mail sent to it makes it ready and the mail is the one it returns when it runs.  If another
  receiver took the mail before it runs, it does not fail: it waits again, for the part of its time that is left, and
  gives up with \<^verbatim>\<open>-RT_ETIMEOUT\<close> when nothing is left.\<close>

theorem mb_recv_loop_correct:
  assumes "sys_inv k" and "mb_inv m k" and "mb_mails (mailboxes k m) = []" and "on_tlist k (Mb_recv_wait m) = []"
    and "rt_current_thread k = Some t" and "stat_of k t = RT_THREAD_READY" and "rt_interrupt_nest k = 0"
    and "timeout \<noteq> 0" "timeout \<noteq> 0x7fffffff" and "stat_of k u = RT_THREAD_READY" "u \<noteq> t"
  shows "rt_mb_recv m 0 k = Some (Finished (-RT_ETIMEOUT, None), k)
    \<and> (\<exists>k1 k2. rt_mb_recv m timeout k = Some (Waiting t, k1) \<and> now_waiting (Mb_recv_wait m) (obj_flag (objects k (Obj m))) timeout t k k1
       \<and> rt_mb_send m v k1 = Some (Finished RT_EOK, k2) \<and> stat_of k2 t = RT_THREAD_READY \<and> on_tlist k2 (Mb_recv_wait m) = []
       \<and> (\<exists>k3. rt_mb_recv_back m timeout (rt_tick k) t k2 = Some (Finished (RT_EOK, Some v), k3) \<and> mb_mails (mailboxes k3 m) = [])
       \<and> (\<exists>k4. rt_mb_recv m 0 k2 = Some (Finished (RT_EOK, Some v), k4)
           \<and> (rest_timeout timeout (rt_tick k) k4 = 0 \<longrightarrow>
                (\<exists>k5. rt_mb_recv_back m timeout (rt_tick k) t k4 = Some (Finished (-RT_ETIMEOUT, None), k5)))
           \<and> (rest_timeout timeout (rt_tick k) k4 \<notin> {0, 0x7fffffff} \<longrightarrow>
                (\<exists>k5. rt_mb_recv_back m timeout (rt_tick k) t (k4\<lparr>rt_current_thread := Some t\<rparr>) = Some (Waiting t, k5)
                   \<and> on_tlist k5 (Mb_recv_wait m) = [t]))))"
proof -
  have none: "\<not> mb_has_mail m k" using assms(3) by (simp add: mb_has_mail_iff)
  have rl: "rt_mb_recv m timeout k = mb_recv_loop m timeout (Some t) k"
    using assms(2,5,8) by (simp add: rt_mb_recv_def mb_inv_def rt_thread_self_def)
  obtain k1 where k1: "mb_recv_loop m timeout (Some t) k = Some (Waiting t, k1)" "sys_inv k1" "mb_inv m k1" "same_ipc k k1"
    "now_waiting (Mb_recv_wait m) (obj_flag (objects k (Obj m))) timeout t k k1"
    using mb_recv_waits [OF assms(1,2) none assms(5-11)] by blast
  note w = k1(5) [unfolded now_waiting_def]
  have l1: "on_tlist k1 (Mb_recv_wait m) = [t]" using w assms(4) by (simp add: wait_order_def)
  have mails1: "mb_mails (mailboxes k1 m) = []" using k1(4) assms(3) by (simp add: same_ipc_def)
  have "0 < unat (mb_size (mailboxes k1 m))" using k1(3) by (simp add: mb_inv_def mb_wf_def word_less_nat_alt)
  then have room: "mb_has_room m k1" using mails1 by (simp add: mb_has_room_iff)
  obtain k2 where k2: "rt_mb_send m v k1 = Some (Finished RT_EOK, k2)" "sys_inv k2" "mb_inv m k2" "mb_mails (mailboxes k2 m) = [v]"
    "woken_first (Mb_recv_wait m) (upd_mb m (\<lambda>_. mailboxes k2 m) k1) k2"
    using mb_send_now [OF k1(2,3) room, of v 0] mb_send_room [OF k1(3) room, of v 0] mails1 by (auto simp: rt_mb_send_def)
  have th2: "stat_of k2 t = RT_THREAD_READY" "th_error (threads k2 t) = RT_EOK" "\<forall>x. x \<noteq> t \<longrightarrow> threads k2 x = threads k1 x"
    using woken_first_thread [OF k2(5), of t "[]"] l1 w by auto
  have l2: "on_tlist k2 (Mb_recv_wait m) = []" using k2(5) l1 by (simp add: woken_first_def)
  have ipc2: "rt_interrupt_nest k2 = 0" using k2(5) k1(4) assms(7) by (simp add: woken_first_def same_ipc_def)
  obtain k3 where k3: "rt_mb_recv_back m timeout (rt_tick k) t k2 = Some (Finished (RT_EOK, Some v), k3)" "mb_mails (mailboxes k3 m) = []"
    using mb_recv_now [OF k2(2-4)] th2(2) by (auto simp: rt_mb_recv_back_def)
  have "mb_has_mail m k2" using k2(4) by (simp add: mb_has_mail_iff)
  then obtain k4 where k4: "rt_mb_recv m 0 k2 = Some (Finished (RT_EOK, Some v), k4)" "sys_inv k4" "mb_inv m k4" "mb_mails (mailboxes k4 m) = []"
    "woken_first (Mb_send_wait m) (upd_mb m (\<lambda>_. mailboxes k4 m) k2) k4"
    using mb_recv_now [OF k2(2-4), of 0] mb_recv_mail [OF k2(3), of 0] by auto
  have after: "stat_of k4 x = RT_THREAD_READY" "th_error (threads k4 x) = th_error (threads k2 x)" if "stat_of k2 x = RT_THREAD_READY" for x
    using woken_first_ready [OF k4(5), of x] that by simp_all
  have th4: "stat_of k4 t = RT_THREAD_READY" "th_error (threads k4 t) = RT_EOK" using after [OF th2(1)] th2(2) by simp_all
  have "stat_of k2 u = RT_THREAD_READY" using th2(3) w assms(10,11) by (simp add: stat_of_def)
  then have u4: "stat_of k4 u = RT_THREAD_READY" by (rule after)
  have l4: "on_tlist k4 (Mb_recv_wait m) = []" using k4(5) l2 by (simp add: woken_first_def)
  have none4: "\<not> mb_has_mail m k4" using k4(4) by (simp add: mb_has_mail_iff)
  have ir4: "rt_interrupt_nest k4 = 0" using k4(5) ipc2 by (simp add: woken_first_def same_ipc_def)
  note again = mb_recv_again [OF k4(2,3) none4 th4 ir4 u4 assms(11), where timeout = timeout and start = "rt_tick k"]
  show ?thesis
    using rl k1(1,5) k2(1) th2(1) l2 k3 k4(1) mb_no_mail [OF assms(2) none] again(1) again(2) [OF _ l4] by auto
qed

theorem mb_recv_loop_correct_witness:
  "\<exists>k1 k2 k3. rt_mb_recv 5 10 sample_mb = Some (Waiting 1, k1) \<and> rt_mb_send 5 7 k1 = Some (Finished RT_EOK, k2)
    \<and> rt_mb_recv_back 5 10 (rt_tick sample_mb) 1 k2 = Some (Finished (RT_EOK, Some 7), k3)"
  using mb_recv_loop_correct [of sample_mb 5 1 10 2 7] sample_mb_ok by auto

end
