(* ===== verification/RT_Mq.thy ===== *)
theory RT_Mq
  imports RT_Ipc RT_Ring
begin

text \<open>
  Message queues, the operations \<^verbatim>\<open>rt_mq_*\<close> of \<^verbatim>\<open>kernel/src/ipc.c\<close>.  The nodes of the
  message pool, named by their index, are linked by their \<^verbatim>\<open>next\<close> pointers to the list of waiting
  messages and to the list of free nodes.  A service takes a node off a list with interrupts disabled, copies the
  message with interrupts enabled and then links the node to the other list; the parts are definitions of their own, so
  that they can be interleaved.
\<close>

section \<open>The code\<close>

text \<open>\<^verbatim>\<open>msg->next = mq->msg_queue_free; mq->msg_queue_free = msg\<close>\<close>

definition mq_release :: "nat \<Rightarrow> rt_messagequeue \<Rightarrow> rt_messagequeue" where
  "mq_release i mq = mq\<lparr>mq_next := (mq_next mq)(i := mq_free mq), mq_free := Some i\<rparr>"

text \<open>The bytes behind the \<^verbatim>\<open>next\<close> pointer of node \<open>i\<close> of a pool with messages of \<open>sz\<close> bytes.\<close>

definition mq_slice :: "nat \<Rightarrow> rt_uint8_t list \<Rightarrow> nat \<Rightarrow> rt_uint8_t list" where
  "mq_slice sz pool i = take sz (drop (i * (sz + 4) + 4) pool)"

text \<open>The initialisation that \<^verbatim>\<open>rt_mq_init\<close> and \<^verbatim>\<open>rt_mq_create\<close> share.\<close>

definition mq_setup :: "rt_uint16_t \<Rightarrow> rt_uint16_t \<Rightarrow> rt_uint8_t list \<Rightarrow> rt_messagequeue \<Rightarrow> rt_messagequeue" where
  "mq_setup sz n pool mq =
     (let mq = mq\<lparr>mq_msg_size := sz, mq_max_msgs := n, mq_data := mq_slice (unat sz) pool, mq_head := None, mq_tail := None,
        mq_free := None\<rparr>;
          mq = fold mq_release [0..<unat n] mq
      in mq\<lparr>mq_entry := 0\<rparr>)"

definition rt_mq_init ::
    "nat \<Rightarrow> rt_uint8_t list \<Rightarrow> rt_uint8_t list \<Rightarrow> rt_uint32_t \<Rightarrow> rt_uint32_t \<Rightarrow> rt_uint8_t \<Rightarrow> kernel \<Rightarrow> (rt_err_t \<times> kernel) option" where
  "rt_mq_init m name pool msg_size pool_size flag k =
     do { k \<leftarrow> rt_object_init (Obj m) RT_Object_Class_MessageQueue name k;
          let k = upd_object (Obj m) (\<lambda>ob. ob\<lparr>obj_flag := flag\<rparr>) k;
          k \<leftarrow> tlist_init_head (Mq_recv_wait m) k;
          let sz = (ucast (RT_ALIGN msg_size) :: rt_uint16_t);
          let k = upd_mq m (mq_setup sz (ucast (pool_size div (ucast sz + 4))) pool) k;
          k \<leftarrow> tlist_init_head (Mq_send_wait m) k;
          Some (RT_EOK, k) }"

text \<open>Only the threads on the list of senders are resumed, as in the source.\<close>

definition rt_mq_detach :: "nat \<Rightarrow> kernel \<Rightarrow> (rt_err_t \<times> kernel) option" where
  "rt_mq_detach m k =
     do { RT_ASSERT (rt_object_get_type (Obj m) k = RT_Object_Class_MessageQueue);
          RT_ASSERT (rt_object_is_systemobject (Obj m) k);
          k \<leftarrow> rt_ipc_list_resume_all (Mq_send_wait m) k;
          Some (RT_EOK, rt_object_detach (Obj m) k) }"

text \<open>\<open>malloc n\<close> is the block of \<open>n\<close> bytes the allocator gives.\<close>

definition rt_mq_create ::
    "rt_uint8_t list \<Rightarrow> rt_uint32_t \<Rightarrow> rt_uint32_t \<Rightarrow> rt_uint8_t \<Rightarrow> nat option \<Rightarrow> (nat \<Rightarrow> rt_uint8_t list option) \<Rightarrow> kernel \<Rightarrow>
      (nat option \<times> kernel) option" where
  "rt_mq_create name msg_size max_msgs flag block malloc k =
     do { RT_DEBUG_NOT_IN_INTERRUPT k;
          (r, k) \<leftarrow> rt_object_allocate RT_Object_Class_MessageQueue name block k;
          case r of None \<Rightarrow> Some (None, k)
          | Some m \<Rightarrow>
              do { let k = upd_object (Obj m) (\<lambda>ob. ob\<lparr>obj_flag := flag\<rparr>) k;
                   k \<leftarrow> tlist_init_head (Mq_recv_wait m) k;
                   let sz = (ucast (RT_ALIGN msg_size) :: rt_uint16_t);
                   let n = (ucast max_msgs :: rt_uint16_t);
                   case malloc (unat ((ucast sz + 4) * ucast n :: rt_uint32_t)) of
                     None \<Rightarrow> do { k \<leftarrow> rt_object_delete (Obj m) k; Some (None, k) }
                   | Some pool \<Rightarrow>
                       do { let k = upd_mq m (mq_setup sz n pool) k;
                            k \<leftarrow> tlist_init_head (Mq_send_wait m) k;
                            Some (Some m, k) } } }"

definition rt_mq_delete :: "nat \<Rightarrow> kernel \<Rightarrow> (rt_err_t \<times> kernel) option" where
  "rt_mq_delete m k =
     do { RT_DEBUG_NOT_IN_INTERRUPT k;
          RT_ASSERT (rt_object_get_type (Obj m) k = RT_Object_Class_MessageQueue);
          RT_ASSERT (\<not> rt_object_is_systemobject (Obj m) k);
          k \<leftarrow> rt_ipc_list_resume_all (Mq_recv_wait m) k;
          k \<leftarrow> rt_ipc_list_resume_all (Mq_send_wait m) k;
          let k = upd_mq m (\<lambda>mq. mq\<lparr>mq_data := (\<lambda>_. [])\<rparr>) k;
          k \<leftarrow> rt_object_delete (Obj m) k;
          Some (RT_EOK, k) }"

text \<open>The first part of sending: take a free node, if there is one.\<close>

definition mq_take :: "rt_messagequeue \<Rightarrow> (nat \<times> rt_messagequeue) option" where
  "mq_take mq = (case mq_free mq of None \<Rightarrow> None | Some i \<Rightarrow> Some (i, mq\<lparr>mq_free := mq_next mq i\<rparr>))"

text \<open>The copy, with interrupts enabled; without a buffer the message is cleared.\<close>

definition mq_fill :: "nat \<Rightarrow> rt_uint8_t list option \<Rightarrow> rt_uint32_t \<Rightarrow> rt_messagequeue \<Rightarrow> rt_messagequeue option" where
  "mq_fill i buffer sz mq =
     do { bytes \<leftarrow> (case buffer of Some buf \<Rightarrow> load_at 0 (unat sz) buf | None \<Rightarrow> Some (replicate (unat (mq_msg_size mq)) 0));
          d \<leftarrow> store_at 0 bytes (mq_data mq i);
          Some (mq\<lparr>mq_data := (mq_data mq)(i := d)\<rparr>) }"

definition mq_clear_next :: "nat \<Rightarrow> rt_messagequeue \<Rightarrow> rt_messagequeue" where
  "mq_clear_next i mq = mq\<lparr>mq_next := (mq_next mq)(i := None)\<rparr>"

text \<open>The last part: link the node behind the last message, or before the first one.\<close>

definition mq_link :: "nat \<Rightarrow> rt_messagequeue \<Rightarrow> rt_messagequeue" where
  "mq_link i mq =
     (let mq = (case mq_tail mq of Some j \<Rightarrow> mq\<lparr>mq_next := (mq_next mq)(j := Some i)\<rparr> | None \<Rightarrow> mq);
          mq = mq\<lparr>mq_tail := Some i\<rparr>;
          mq = (if mq_head mq = None then mq\<lparr>mq_head := Some i\<rparr> else mq)
      in mq\<lparr>mq_entry := mq_entry mq + 1\<rparr>)"

definition mq_link_front :: "nat \<Rightarrow> rt_messagequeue \<Rightarrow> rt_messagequeue" where
  "mq_link_front i mq =
     (let mq = mq\<lparr>mq_next := (mq_next mq)(i := mq_head mq), mq_head := Some i\<rparr>;
          mq = (if mq_tail mq = None then mq\<lparr>mq_tail := Some i\<rparr> else mq)
      in mq\<lparr>mq_entry := mq_entry mq + 1\<rparr>)"

definition rt_mq_send :: "nat \<Rightarrow> rt_uint8_t list option \<Rightarrow> rt_uint32_t \<Rightarrow> kernel \<Rightarrow> (rt_err_t \<times> kernel) option" where
  "rt_mq_send m buffer sz k =
     do { RT_ASSERT (rt_object_get_type (Obj m) k = RT_Object_Class_MessageQueue);
          if ucast (mq_msg_size (mqs k m)) < sz then Some (-RT_ERROR, k)
          else case mq_take (mqs k m) of None \<Rightarrow> Some (-RT_EFULL, k)
            | Some (i, mq) \<Rightarrow>
                do { mq \<leftarrow> mq_fill i buffer sz (mq_clear_next i mq);
                     k \<leftarrow> ipc_wake (Mq_recv_wait m) (upd_mq m (\<lambda>_. mq_link i mq) k);
                     Some (RT_EOK, k) } }"

definition rt_mq_urgent :: "nat \<Rightarrow> rt_uint8_t list option \<Rightarrow> rt_uint32_t \<Rightarrow> kernel \<Rightarrow> (rt_err_t \<times> kernel) option" where
  "rt_mq_urgent m buffer sz k =
     do { RT_ASSERT (rt_object_get_type (Obj m) k = RT_Object_Class_MessageQueue);
          if ucast (mq_msg_size (mqs k m)) < sz then Some (-RT_ERROR, k)
          else case mq_take (mqs k m) of None \<Rightarrow> Some (-RT_EFULL, k)
            | Some (i, mq) \<Rightarrow>
                do { mq \<leftarrow> mq_fill i buffer sz mq;
                     k \<leftarrow> ipc_wake (Mq_recv_wait m) (upd_mq m (\<lambda>_. mq_link_front i mq) k);
                     Some (RT_EOK, k) } }"

text \<open>Receiving: take the first message off the list, copy it, give the node back.\<close>

definition mq_unlink :: "rt_messagequeue \<Rightarrow> (nat \<times> rt_messagequeue) option" where
  "mq_unlink mq =
     do { i \<leftarrow> mq_head mq;
          let mq = mq\<lparr>mq_head := mq_next mq i\<rparr>;
          let mq = (if mq_tail mq = Some i then mq\<lparr>mq_tail := None\<rparr> else mq);
          Some (i, if 0 < mq_entry mq then mq\<lparr>mq_entry := mq_entry mq - 1\<rparr> else mq) }"

definition mq_copy_out :: "nat \<Rightarrow> rt_uint32_t \<Rightarrow> rt_messagequeue \<Rightarrow> rt_uint8_t list option" where
  "mq_copy_out i sz mq =
     load_at 0 (unat (if ucast (mq_msg_size mq) < sz then ucast (mq_msg_size mq) else sz)) (mq_data mq i)"

definition mq_recv_loop ::
    "nat \<Rightarrow> rt_uint32_t \<Rightarrow> 32 word \<Rightarrow> tid option \<Rightarrow> kernel \<Rightarrow> ((rt_err_t \<times> rt_uint8_t list option) outcome \<times> kernel) option" where
  "mq_recv_loop m sz timeout self k =
     (if mq_entry (mqs k m) = 0 then
        do { RT_DEBUG_IN_THREAD_CONTEXT k;
             t \<leftarrow> self;
             let k = upd_thread t (\<lambda>th. th\<lparr>th_error := RT_EOK\<rparr>) k;
             if timeout = 0 then Some (Finished (-RT_ETIMEOUT, None), upd_thread t (\<lambda>th. th\<lparr>th_error := RT_ETIMEOUT\<rparr>) k)
             else do {
               k \<leftarrow> ipc_wait (Mq_recv_wait m) t (obj_flag (objects k (Obj m))) timeout k;
               Some (Waiting t, k) } }
      else
        do { (i, mq) \<leftarrow> mq_unlink (mqs k m);
             bytes \<leftarrow> mq_copy_out i sz mq;
             k \<leftarrow> ipc_wake (Mq_send_wait m) (upd_mq m (\<lambda>_. mq_release i mq) k);
             Some (Finished (RT_EOK, Some bytes), k) })"

definition rt_mq_recv :: "nat \<Rightarrow> rt_uint32_t \<Rightarrow> 32 word \<Rightarrow> kernel \<Rightarrow> ((rt_err_t \<times> rt_uint8_t list option) outcome \<times> kernel) option" where
  "rt_mq_recv m sz timeout k =
     do { RT_ASSERT (rt_object_get_type (Obj m) k = RT_Object_Class_MessageQueue);
          RT_ASSERT (sz \<noteq> 0);
          if mq_entry (mqs k m) = 0 \<and> timeout = 0 then Some (Finished (-RT_ETIMEOUT, None), k)
          else mq_recv_loop m sz timeout (rt_thread_self k) k }"

definition rt_mq_recv_back ::
    "nat \<Rightarrow> rt_uint32_t \<Rightarrow> 32 word \<Rightarrow> rt_tick_t \<Rightarrow> tid \<Rightarrow> kernel \<Rightarrow> ((rt_err_t \<times> rt_uint8_t list option) outcome \<times> kernel) option" where
  "rt_mq_recv_back m sz timeout start t k =
     (if th_error (threads k t) \<noteq> RT_EOK then Some (Finished (- th_error (threads k t), None), k)
      else mq_recv_loop m sz (rest_timeout timeout start k) (Some t) k)"

text \<open>The loop of a reset that gives all messages back; it would not end on a cyclic list.\<close>

partial_function (option) mq_flush :: "rt_messagequeue \<Rightarrow> rt_messagequeue option" where
  "mq_flush mq =
     (case mq_head mq of None \<Rightarrow> Some mq
      | Some i \<Rightarrow>
          mq_flush (mq_release i (let mq = mq\<lparr>mq_head := mq_next mq i\<rparr> in
                      if mq_tail mq = Some i then mq\<lparr>mq_tail := None\<rparr> else mq)))"

definition rt_mq_control :: "nat \<Rightarrow> int \<Rightarrow> kernel \<Rightarrow> (rt_err_t \<times> kernel) option" where
  "rt_mq_control m cmd k =
     do { RT_ASSERT (rt_object_get_type (Obj m) k = RT_Object_Class_MessageQueue);
          if cmd = RT_IPC_CMD_RESET then
            do { k \<leftarrow> rt_ipc_list_resume_all (Mq_recv_wait m) k;
                 k \<leftarrow> rt_ipc_list_resume_all (Mq_send_wait m) k;
                 mq \<leftarrow> mq_flush (mqs k m);
                 k \<leftarrow> rt_schedule (upd_mq m (\<lambda>_. mq\<lparr>mq_entry := 0\<rparr>) k);
                 Some (RT_EOK, k) }
          else Some (-RT_ERROR, k) }"

section \<open>Linked lists of nodes\<close>

fun mq_path :: "(nat \<Rightarrow> nat option) \<Rightarrow> nat option \<Rightarrow> nat list \<Rightarrow> bool" where
  "mq_path nx p [] \<longleftrightarrow> p = None"
| "mq_path nx p (i # is) \<longleftrightarrow> p = Some i \<and> mq_path nx (nx i) is"

lemma mq_path_upd [simp]: "i \<notin> set is \<Longrightarrow> mq_path (nx(i := q)) p is = mq_path nx p is"
  by (induction "is" arbitrary: p) auto

lemma mq_path_None [simp]: "mq_path nx None is \<longleftrightarrow> is = []"
  by (cases "is") auto

lemma mq_path_Some: "mq_path nx (Some i) is \<longleftrightarrow> (\<exists>js. is = i # js \<and> mq_path nx (nx i) js)"
  by (cases "is") auto

lemma mq_path_snoc:
  assumes "mq_path nx p is" and "is \<noteq> []" and "distinct is" and "i \<notin> set is" and "nx i = None"
  shows "mq_path (nx(last is := Some i)) p (is @ [i])"
  using assms
proof (induction "is" arbitrary: p)
  case (Cons j js)
  then show ?case by (cases js) (auto simp: fun_upd_def)
qed simp

text \<open>The list a pointer starts, read off with a bound on its length.\<close>

fun mq_chain :: "nat \<Rightarrow> (nat \<Rightarrow> nat option) \<Rightarrow> nat option \<Rightarrow> nat list" where
  "mq_chain 0 nx p = []"
| "mq_chain (Suc n) nx p = (case p of None \<Rightarrow> [] | Some i \<Rightarrow> i # mq_chain n nx (nx i))"

lemma mq_chain_path: "mq_path nx p is \<Longrightarrow> length is \<le> n \<Longrightarrow> mq_chain n nx p = is"
proof (induction "is" arbitrary: p n)
  case Nil
  then show ?case by (cases n) auto
next
  case (Cons i "is")
  then show ?case by (cases n) auto
qed

text \<open>
  A queue whose messages are in the nodes \<open>us\<close>, with free nodes \<open>fs\<close>, and with nodes \<open>bs\<close> in the hands of threads
  between two parts of a service.
\<close>

definition mq_rel :: "rt_messagequeue \<Rightarrow> nat list \<Rightarrow> nat list \<Rightarrow> nat list \<Rightarrow> bool" where
  "mq_rel mq us fs bs \<longleftrightarrow> mq_path (mq_next mq) (mq_head mq) us \<and> mq_path (mq_next mq) (mq_free mq) fs
     \<and> mq_tail mq = (if us = [] then None else Some (last us)) \<and> distinct (us @ fs @ bs)
     \<and> set (us @ fs @ bs) = {..<unat (mq_max_msgs mq)} \<and> unat (mq_entry mq) = length us
     \<and> (\<forall>i<unat (mq_max_msgs mq). length (mq_data mq i) = unat (mq_msg_size mq))"

lemma mq_rel_length:
  assumes "mq_rel mq us fs bs"
  shows "length us + length fs + length bs = unat (mq_max_msgs mq)"
proof -
  have "card (set (us @ fs @ bs)) = length (us @ fs @ bs)" using assms by (intro distinct_card) (simp add: mq_rel_def)
  then show ?thesis using assms by (simp add: mq_rel_def)
qed

lemma mq_rel_busy:
  "mq_rel mq us fs bs \<Longrightarrow> i \<in> set bs \<Longrightarrow> i \<notin> set us \<and> i \<notin> set fs \<and> i < unat (mq_max_msgs mq)"
  unfolding mq_rel_def by auto

lemma mq_rel_setup:
  assumes "unat n * (unat sz + 4) \<le> length pool"
  shows "mq_rel (mq_setup sz n pool mq) [] (rev [0..<unat n]) []" "mq_msg_size (mq_setup sz n pool mq) = sz"
    "mq_max_msgs (mq_setup sz n pool mq) = n"
proof -
  let ?mq = "mq\<lparr>mq_msg_size := sz, mq_max_msgs := n, mq_data := mq_slice (unat sz) pool, mq_head := None, mq_tail := None, mq_free := None\<rparr>"
  have "let q = fold mq_release [0..<j] ?mq in mq_path (mq_next q) (mq_free q) (rev [0..<j]) \<and> mq_head q = None \<and> mq_tail q = None
      \<and> mq_max_msgs q = n \<and> mq_msg_size q = sz \<and> mq_data q = mq_slice (unat sz) pool" for j
    by (induction j) (simp_all add: mq_release_def Let_def)
  from this [of "unat n"] have f: "mq_path (mq_next (mq_setup sz n pool mq)) (mq_free (mq_setup sz n pool mq)) (rev [0..<unat n])"
    "mq_head (mq_setup sz n pool mq) = None" "mq_tail (mq_setup sz n pool mq) = None" "mq_max_msgs (mq_setup sz n pool mq) = n"
    "mq_msg_size (mq_setup sz n pool mq) = sz" "mq_data (mq_setup sz n pool mq) = mq_slice (unat sz) pool" "mq_entry (mq_setup sz n pool mq) = 0"
    by (simp_all add: mq_setup_def Let_def)
  have "length (mq_slice (unat sz) pool i) = unat sz" if "i < unat n" for i
  proof -
    have "Suc i * (unat sz + 4) \<le> unat n * (unat sz + 4)" using that by (intro mult_le_mono1) simp
    then show ?thesis using assms by (simp add: mq_slice_def)
  qed
  then show "mq_rel (mq_setup sz n pool mq) [] (rev [0..<unat n]) []" using f by (auto simp: mq_rel_def)
  show "mq_msg_size (mq_setup sz n pool mq) = sz" "mq_max_msgs (mq_setup sz n pool mq) = n" using f by simp_all
qed

text \<open>The parts of the services on this relation.\<close>

lemma mq_take_rel:
  assumes "mq_rel mq us fs bs"
  shows "fs = [] \<Longrightarrow> mq_take mq = None"
    and "fs = i # fs' \<Longrightarrow> \<exists>mq'. mq_take mq = Some (i, mq') \<and> mq_rel mq' us fs' (i # bs) \<and> mq_data mq' = mq_data mq
      \<and> mq_msg_size mq' = mq_msg_size mq \<and> mq_max_msgs mq' = mq_max_msgs mq"
  using assms by (auto simp: mq_rel_def mq_take_def)

lemma mq_clear_next_rel:
  "mq_rel mq us fs bs \<Longrightarrow> i \<in> set bs \<Longrightarrow> mq_rel (mq_clear_next i mq) us fs bs"
  using mq_rel_busy [of mq us fs bs i] by (simp add: mq_rel_def mq_clear_next_def)

text \<open>What a message of \<open>sz\<close> bytes leaves in a node.\<close>

definition mq_stored :: "rt_uint8_t list option \<Rightarrow> rt_uint32_t \<Rightarrow> rt_uint8_t list \<Rightarrow> rt_uint8_t list" where
  "mq_stored buffer sz old =
     (case buffer of Some buf \<Rightarrow> take (unat sz) buf @ drop (unat sz) old | None \<Rightarrow> replicate (length old) 0)"

definition mq_sendable :: "rt_uint8_t list option \<Rightarrow> rt_uint32_t \<Rightarrow> rt_messagequeue \<Rightarrow> bool" where
  "mq_sendable buffer sz mq \<longleftrightarrow> unat sz \<le> unat (mq_msg_size mq) \<and> (case buffer of Some buf \<Rightarrow> unat sz \<le> length buf | None \<Rightarrow> True)"

lemma mq_fill_rel:
  assumes r: "mq_rel mq us fs bs" and b: "i \<in> set bs" and ok: "mq_sendable buffer sz mq"
  shows "\<exists>mq'. mq_fill i buffer sz mq = Some mq' \<and> mq_rel mq' us fs bs \<and> mq_data mq' = (mq_data mq)(i := mq_stored buffer sz (mq_data mq i))
    \<and> mq_next mq' = mq_next mq \<and> mq_msg_size mq' = mq_msg_size mq \<and> mq_max_msgs mq' = mq_max_msgs mq"
proof -
  have "i < unat (mq_max_msgs mq)" using r b unfolding mq_rel_def by auto
  then have l: "length (mq_data mq i) = unat (mq_msg_size mq)" using r by (simp add: mq_rel_def)
  have "mq_fill i buffer sz mq = Some (mq\<lparr>mq_data := (mq_data mq)(i := mq_stored buffer sz (mq_data mq i))\<rparr>)"
    using ok l by (cases buffer) (auto simp: mq_fill_def mq_sendable_def mq_stored_def load_at_def store_at_def)
  moreover have "length (mq_stored buffer sz (mq_data mq i)) = unat (mq_msg_size mq)"
    using ok l by (cases buffer) (auto simp: mq_sendable_def mq_stored_def)
  ultimately show ?thesis using r by (auto simp: mq_rel_def)
qed

lemma mq_link_rel:
  assumes r: "mq_rel mq us fs (i # bs)" and n: "mq_next mq i = None"
  shows "mq_rel (mq_link i mq) (us @ [i]) fs bs" "mq_data (mq_link i mq) = mq_data mq" "mq_max_msgs (mq_link i mq) = mq_max_msgs mq"
    "mq_msg_size (mq_link i mq) = mq_msg_size mq"
proof -
  have "length us < unat (mq_max_msgs mq)" using mq_rel_length [OF r] by simp
  then have e: "unat (mq_entry mq + 1) = Suc (length us)"
    using r unsigned_less [where 'a = nat and w = "mq_max_msgs mq"] by (simp add: mq_rel_def unat_word_ariths)
  have path: "mq_path (mq_next (mq_link i mq)) (mq_head (mq_link i mq)) (us @ [i])"
  proof (cases "us = []")
    case True
    then show ?thesis using r n by (simp add: mq_rel_def mq_link_def Let_def)
  next
    case False
    then obtain h where h: "mq_head mq = Some h" using r by (cases us) (auto simp: mq_rel_def)
    show ?thesis using False h r mq_path_snoc [of "mq_next mq" "mq_head mq" us i] n by (simp add: mq_rel_def mq_link_def Let_def)
  qed
  have "last us \<notin> set fs" if "us \<noteq> []" using r last_in_set [OF that] by (auto simp: mq_rel_def)
  then have "mq_path (mq_next (mq_link i mq)) (mq_free (mq_link i mq)) fs"
    using r by (auto simp: mq_rel_def mq_link_def Let_def)
  then show "mq_rel (mq_link i mq) (us @ [i]) fs bs"
    using r path e by (auto simp: mq_rel_def) (auto simp: mq_link_def Let_def split: option.splits)
  show "mq_data (mq_link i mq) = mq_data mq" "mq_max_msgs (mq_link i mq) = mq_max_msgs mq" "mq_msg_size (mq_link i mq) = mq_msg_size mq"
    by (simp_all add: mq_link_def Let_def split: option.splits)
qed

lemma mq_link_front_rel:
  assumes r: "mq_rel mq us fs (i # bs)"
  shows "mq_rel (mq_link_front i mq) (i # us) fs bs" "mq_data (mq_link_front i mq) = mq_data mq"
    "mq_max_msgs (mq_link_front i mq) = mq_max_msgs mq" "mq_msg_size (mq_link_front i mq) = mq_msg_size mq"
proof -
  have "length us < unat (mq_max_msgs mq)" using mq_rel_length [OF r] by simp
  then have e: "unat (mq_entry mq + 1) = Suc (length us)"
    using r unsigned_less [where 'a = nat and w = "mq_max_msgs mq"] by (simp add: mq_rel_def unat_word_ariths)
  then show "mq_rel (mq_link_front i mq) (i # us) fs bs"
    using r by (auto simp: mq_rel_def mq_link_front_def Let_def)
  show "mq_data (mq_link_front i mq) = mq_data mq" "mq_max_msgs (mq_link_front i mq) = mq_max_msgs mq"
    "mq_msg_size (mq_link_front i mq) = mq_msg_size mq"
    by (simp_all add: mq_link_front_def Let_def)
qed

lemma mq_unlink_rel:
  assumes r: "mq_rel mq (i # us) fs bs"
  shows "\<exists>mq'. mq_unlink mq = Some (i, mq') \<and> mq_rel mq' us fs (i # bs) \<and> mq_data mq' = mq_data mq
    \<and> mq_msg_size mq' = mq_msg_size mq \<and> mq_max_msgs mq' = mq_max_msgs mq"
proof -
  have u: "unat (mq_entry mq) = Suc (length us)" using r by (simp add: mq_rel_def)
  then have z: "mq_entry mq \<noteq> 0" by (metis nat.distinct(1) unsigned_0)
  then have e: "unat (mq_entry mq - 1) = length us" "0 < mq_entry mq" using u by (simp_all add: unat_minus_one word_gt_0)
  define mq' where "mq' = mq\<lparr>mq_head := mq_next mq i, mq_tail := (if us = [] then None else mq_tail mq), mq_entry := mq_entry mq - 1\<rparr>"
  have t: "mq_tail mq = Some i \<longleftrightarrow> us = []" using r last_in_set [of us] by (auto simp: mq_rel_def)
  have h: "mq_head mq = Some i" using r by (simp add: mq_rel_def)
  have "mq_unlink mq = Some (i, mq')" using h t e(2) by (cases mq) (simp add: mq_unlink_def Let_def mq'_def)
  moreover have "mq_rel mq' us fs (i # bs)" using r e(1) by (auto simp: mq_rel_def mq'_def)
  ultimately show ?thesis by (simp add: mq'_def)
qed

lemma mq_release_rel:
  assumes r: "mq_rel mq us fs (i # bs)"
  shows "mq_rel (mq_release i mq) us (i # fs) bs"
proof -
  have s: "{..<unat (mq_max_msgs mq)} = set (us @ fs @ i # bs)" and d: "distinct (us @ fs @ i # bs)" using r by (simp_all add: mq_rel_def)
  have "set (us @ (i # fs) @ bs) = {..<unat (mq_max_msgs mq)}" unfolding s by auto
  moreover have "distinct (us @ (i # fs) @ bs)" using d by auto
  ultimately show ?thesis using r unfolding mq_rel_def by (simp add: mq_release_def)
qed

lemma mq_release_frame [simp]:
  "mq_data (mq_release i mq) = mq_data mq" "mq_msg_size (mq_release i mq) = mq_msg_size mq"
  "mq_max_msgs (mq_release i mq) = mq_max_msgs mq"
  by (simp_all add: mq_release_def)

text \<open>The loop of a reset ends and moves every message to the free list.\<close>

lemma mq_flush_rel:
  assumes "mq_path (mq_next mq) (mq_head mq) us" and "mq_path (mq_next mq) (mq_free mq) fs" and "distinct (us @ fs)"
    and "mq_tail mq = (if us = [] then None else Some (last us))"
  shows "\<exists>mq'. mq_flush mq = Some mq' \<and> mq_head mq' = None \<and> mq_tail mq' = None \<and> mq_path (mq_next mq') (mq_free mq') (rev us @ fs)
    \<and> mq_data mq' = mq_data mq \<and> mq_msg_size mq' = mq_msg_size mq \<and> mq_max_msgs mq' = mq_max_msgs mq"
  using assms
proof (induction us arbitrary: mq fs)
  case Nil
  then show ?case by (subst mq_flush.simps) simp
next
  case (Cons i us)
  define mq1 where "mq1 = mq_release i (let mq = mq\<lparr>mq_head := mq_next mq i\<rparr> in if mq_tail mq = Some i then mq\<lparr>mq_tail := None\<rparr> else mq)"
  have t: "mq_tail mq = Some i \<longleftrightarrow> us = []" using Cons.prems(3,4) last_in_set [of us] by (auto split: if_splits)
  have step: "mq_flush mq = mq_flush mq1" using Cons.prems(1) by (subst mq_flush.simps) (simp add: mq1_def)
  have 1: "mq_path (mq_next mq1) (mq_head mq1) us" "mq_path (mq_next mq1) (mq_free mq1) (i # fs)" "distinct (us @ i # fs)"
    "mq_tail mq1 = (if us = [] then None else Some (last us))"
    "mq_data mq1 = mq_data mq" "mq_msg_size mq1 = mq_msg_size mq" "mq_max_msgs mq1 = mq_max_msgs mq"
    using Cons.prems t by (auto simp: mq1_def mq_release_def Let_def)
  show ?case using Cons.IH [OF 1(1-4)] 1(5-7) step by simp
qed

lemma mq_flush_next:
  assumes "mq_path (mq_next mq) (mq_head mq) us" and "distinct us" and "mq_flush mq = Some mq'" and "j \<notin> set us"
  shows "mq_next mq' j = mq_next mq j"
  using assms
proof (induction us arbitrary: mq)
  case Nil
  then show ?case by (simp add: mq_flush.simps [of mq])
next
  case (Cons i us)
  define mq1 where "mq1 = mq_release i (let mq = mq\<lparr>mq_head := mq_next mq i\<rparr> in if mq_tail mq = Some i then mq\<lparr>mq_tail := None\<rparr> else mq)"
  have "mq_flush mq1 = Some mq'" using Cons.prems(1,3) by (simp add: mq_flush.simps [of mq] mq1_def)
  moreover have "mq_path (mq_next mq1) (mq_head mq1) us" "mq_next mq1 j = mq_next mq j"
    using Cons.prems(1,2,4) by (auto simp: mq1_def mq_release_def Let_def)
  ultimately show ?case using Cons.IH [of mq1] Cons.prems(2,4) by simp
qed

section \<open>Interleaved services\<close>

text \<open>
  Between the parts of a send or a receive other threads can run.  A node that is in the hands of a thread is being
  filled, is filled and not yet linked, or is being copied out; the last two carry the message as it must stay.
\<close>

datatype in_hand =
    Filling (node: nat) (front: bool)
  | Filled (node: nat) (front: bool) (bytes: "rt_uint8_t list")
  | Draining (node: nat) (bytes: "rt_uint8_t list")

text \<open>
  \<open>taken\<close> records the messages in the order they were taken off the queue, \<open>sent\<close> the messages that were linked to it
  in the order they are due: an urgent one comes right behind those taken already.
\<close>

record mq_run =
  queue :: rt_messagequeue
  hands :: "in_hand list"
  sent :: "rt_uint8_t list list"
  taken :: "rt_uint8_t list list"

inductive mq_step :: "mq_run \<Rightarrow> mq_run \<Rightarrow> bool" where
  begin_send: "mq_take (queue s) = Some (i, mq) \<Longrightarrow>
    mq_step s (s\<lparr>queue := mq_clear_next i mq, hands := Filling i False # hands s\<rparr>)"
| begin_urgent: "mq_take (queue s) = Some (i, mq) \<Longrightarrow>
    mq_step s (s\<lparr>queue := mq, hands := Filling i True # hands s\<rparr>)"
| fill: "hands s = xs @ Filling i fr # ys \<Longrightarrow> mq_sendable buffer sz (queue s) \<Longrightarrow> mq_fill i buffer sz (queue s) = Some mq \<Longrightarrow>
    mq_step s (s\<lparr>queue := mq, hands := xs @ Filled i fr (mq_data mq i) # ys\<rparr>)"
| end_send: "hands s = xs @ Filled i False d # ys \<Longrightarrow>
    mq_step s (s\<lparr>queue := mq_link i (queue s), hands := xs @ ys, sent := sent s @ [d]\<rparr>)"
| end_urgent: "hands s = xs @ Filled i True d # ys \<Longrightarrow>
    mq_step s (s\<lparr>queue := mq_link_front i (queue s), hands := xs @ ys,
      sent := taken s @ d # drop (length (taken s)) (sent s)\<rparr>)"
| begin_recv: "mq_entry (queue s) \<noteq> 0 \<Longrightarrow> mq_unlink (queue s) = Some (i, mq) \<Longrightarrow>
    mq_step s (s\<lparr>queue := mq, hands := Draining i (mq_data mq i) # hands s, taken := taken s @ [mq_data mq i]\<rparr>)"
| end_recv: "hands s = xs @ Draining i d # ys \<Longrightarrow>
    mq_step s (s\<lparr>queue := mq_release i (queue s), hands := xs @ ys\<rparr>)"
| reset: "mq_flush (queue s) = Some mq \<Longrightarrow>
    mq_step s (s\<lparr>queue := mq\<lparr>mq_entry := 0\<rparr>, sent := taken s\<rparr>)"

inductive_cases mq_stepE: "mq_step s s'"

text \<open>A node to be linked at the end has no successor, and the messages in hand are in the nodes.\<close>

definition hand_ok :: "rt_messagequeue \<Rightarrow> in_hand \<Rightarrow> bool" where
  "hand_ok mq h \<longleftrightarrow> (case h of Filling i fr \<Rightarrow> \<not> fr \<longrightarrow> mq_next mq i = None
     | Filled i fr d \<Rightarrow> (\<not> fr \<longrightarrow> mq_next mq i = None) \<and> mq_data mq i = d
     | Draining i d \<Rightarrow> mq_data mq i = d)"

definition mq_run_rel :: "mq_run \<Rightarrow> nat list \<Rightarrow> nat list \<Rightarrow> bool" where
  "mq_run_rel s us fs \<longleftrightarrow> mq_rel (queue s) us fs (map node (hands s)) \<and> (\<forall>h\<in>set (hands s). hand_ok (queue s) h)
     \<and> sent s = taken s @ map (mq_data (queue s)) us"

lemma hand_ok_cong:
  "mq_next mq' (node h) = mq_next mq (node h) \<Longrightarrow> mq_data mq' (node h) = mq_data mq (node h) \<Longrightarrow> hand_ok mq' h = hand_ok mq h"
  by (cases h) (simp_all add: hand_ok_def)

text \<open>Which nodes the parts of the services write.\<close>

lemma mq_next_frame:
  "mq_take mq = Some (i, mq') \<Longrightarrow> mq_next mq' = mq_next mq"
  "mq_unlink mq = Some (i, mq') \<Longrightarrow> mq_next mq' = mq_next mq"
  "j \<noteq> i \<Longrightarrow> mq_next (mq_clear_next i mq) j = mq_next mq j" "mq_next (mq_clear_next i mq) i = None"
  "j \<noteq> i \<Longrightarrow> mq_next (mq_release i mq) j = mq_next mq j"
  "j \<noteq> i \<Longrightarrow> mq_next (mq_link_front i mq) j = mq_next mq j"
  "mq_tail mq \<noteq> Some j \<Longrightarrow> mq_next (mq_link i mq) j = mq_next mq j"
  "mq_data (mq_clear_next i mq) = mq_data mq"
  by (auto simp: mq_take_def mq_unlink_def mq_clear_next_def mq_release_def mq_link_front_def mq_link_def Let_def bind_eq_Some_conv
      split: option.splits if_splits)

lemma mq_rel_swap: "mq_rel mq us fs (xs @ i # ys) \<longleftrightarrow> mq_rel mq us fs (i # xs @ ys)"
  by (auto simp: mq_rel_def)

lemma mq_run_hand:
  assumes "mq_run_rel s us fs" and "h \<in> set (hands s)"
  shows "node h \<notin> set us" "node h \<notin> set fs" "mq_tail (queue s) \<noteq> Some (node h)" "hand_ok (queue s) h"
proof -
  have r: "mq_rel (queue s) us fs (map node (hands s))" using assms(1) by (simp add: mq_run_rel_def)
  show u: "node h \<notin> set us" "node h \<notin> set fs" using mq_rel_busy [OF r, of "node h"] assms(2) by auto
  have "mq_tail (queue s) = (if us = [] then None else Some (last us))" using r by (simp add: mq_rel_def)
  then show "mq_tail (queue s) \<noteq> Some (node h)" using u(1) last_in_set [of us] by (metis option.distinct(1) option.inject)
  show "hand_ok (queue s) h" using assms by (simp add: mq_run_rel_def)
qed

lemma mq_run_split:
  assumes r: "mq_run_rel s us fs" and h: "hands s = xs @ h0 # ys"
  shows "mq_rel (queue s) us fs (node h0 # map node (xs @ ys))" "hand_ok (queue s) h0"
    "\<And>h. h \<in> set (xs @ ys) \<Longrightarrow> node h \<noteq> node h0 \<and> mq_tail (queue s) \<noteq> Some (node h) \<and> hand_ok (queue s) h"
proof -
  show rel: "mq_rel (queue s) us fs (node h0 # map node (xs @ ys))"
    using r mq_rel_swap [of "queue s" us fs "map node xs" "node h0" "map node ys"] by (simp add: mq_run_rel_def h)
  show "hand_ok (queue s) h0" using mq_run_hand(4) [OF r, of h0] h by simp
  fix h' assume m: "h' \<in> set (xs @ ys)"
  have "node h0 \<notin> node ` set (xs @ ys)" using rel by (simp add: mq_rel_def image_Un)
  then have "node h' \<noteq> node h0" using m by (metis imageI)
  then show "node h' \<noteq> node h0 \<and> mq_tail (queue s) \<noteq> Some (node h') \<and> hand_ok (queue s) h'"
    using mq_run_hand(3,4) [OF r, of h'] m h by auto
qed

lemma step_begin_send:
  assumes r: "mq_run_rel s us fs" and t: "mq_take (queue s) = Some (i, mq)"
  shows "\<exists>fs'. mq_run_rel (s\<lparr>queue := mq_clear_next i mq, hands := Filling i False # hands s\<rparr>) us fs'
    \<and> mq_run_rel (s\<lparr>queue := mq, hands := Filling i True # hands s\<rparr>) us fs'"
proof -
  have rel: "mq_rel (queue s) us fs (map node (hands s))" using r by (simp add: mq_run_rel_def)
  obtain j fs' where fs: "fs = j # fs'" using t mq_take_rel(1) [OF rel] by (cases fs) auto
  have m: "mq_rel mq us fs' (i # map node (hands s))" "mq_data mq = mq_data (queue s)" "j = i"
    using mq_take_rel(2) [OF rel fs] t by auto
  have other: "node h \<noteq> i" if "h \<in> set (hands s)" for h using mq_run_hand(2) [OF r that] fs m(3) by auto
  have ok: "hand_ok mq h" "hand_ok (mq_clear_next i mq) h" if "h \<in> set (hands s)" for h
    using hand_ok_cong [of mq h "queue s"] hand_ok_cong [of "mq_clear_next i mq" h mq] mq_run_hand(4) [OF r that] other [OF that]
      mq_next_frame(1) [OF t] mq_next_frame(3) [of "node h" i mq] m(2) by (simp_all add: mq_next_frame(8))
  have "mq_rel (mq_clear_next i mq) us fs' (i # map node (hands s))" using mq_clear_next_rel [OF m(1), of i] by simp
  then have "mq_run_rel (s\<lparr>queue := mq_clear_next i mq, hands := Filling i False # hands s\<rparr>) us fs'"
    using r m(2) ok(2) by (simp add: mq_run_rel_def hand_ok_def [of _ "Filling i False"] mq_next_frame(4,8))
  moreover have "mq_run_rel (s\<lparr>queue := mq, hands := Filling i True # hands s\<rparr>) us fs'"
    using r m(1,2) ok(1) by (simp add: mq_run_rel_def hand_ok_def [of _ "Filling i True"])
  ultimately show ?thesis by blast
qed

lemma step_fill:
  assumes r: "mq_run_rel s us fs" and h: "hands s = xs @ Filling i fr # ys" and ok: "mq_sendable buffer sz (queue s)"
    and f: "mq_fill i buffer sz (queue s) = Some mq"
  shows "mq_run_rel (s\<lparr>queue := mq, hands := xs @ Filled i fr (mq_data mq i) # ys\<rparr>) us fs"
proof -
  have rel: "mq_rel (queue s) us fs (map node (hands s))" using r by (simp add: mq_run_rel_def)
  have m: "mq_rel mq us fs (map node (hands s))" "mq_data mq = (mq_data (queue s))(i := mq_stored buffer sz (mq_data (queue s) i))"
    "mq_next mq = mq_next (queue s)"
    using mq_fill_rel [OF rel _ ok, of i] f h by auto
  note sp = mq_run_split [OF r h]
  have "hand_ok mq h'" if "h' \<in> set (xs @ ys)" for h'
    using sp(3) [OF that] hand_ok_cong [of mq h' "queue s"] m(2,3) by simp
  moreover have "hand_ok mq (Filled i fr (mq_data mq i))" using sp(2) m(3) by (simp add: hand_ok_def)
  moreover have "i \<notin> set us" using mq_run_hand(1) [OF r, of "Filling i fr"] h by simp
  then have "map (mq_data mq) us = map (mq_data (queue s)) us" using m(2) by auto
  ultimately show ?thesis using r m(1) h by (auto simp: mq_run_rel_def)
qed

lemma step_end_send:
  assumes r: "mq_run_rel s us fs" and h: "hands s = xs @ Filled i False d # ys"
  shows "mq_run_rel (s\<lparr>queue := mq_link i (queue s), hands := xs @ ys, sent := sent s @ [d]\<rparr>) (us @ [i]) fs"
proof -
  note sp = mq_run_split [OF r h]
  have n: "mq_next (queue s) i = None" "mq_data (queue s) i = d" using sp(2) by (simp_all add: hand_ok_def)
  have l: "mq_rel (mq_link i (queue s)) (us @ [i]) fs (map node (xs @ ys))" "mq_data (mq_link i (queue s)) = mq_data (queue s)"
    using mq_link_rel [OF _ n(1), of us fs "map node (xs @ ys)"] sp(1) by simp_all
  have "hand_ok (mq_link i (queue s)) h'" if "h' \<in> set (xs @ ys)" for h'
    using sp(3) [OF that] hand_ok_cong [of "mq_link i (queue s)" h' "queue s"] mq_next_frame(7) [of "queue s" "node h'" i] l(2) by simp
  then show ?thesis using r l n by (simp add: mq_run_rel_def)
qed

lemma step_end_urgent:
  assumes r: "mq_run_rel s us fs" and h: "hands s = xs @ Filled i True d # ys"
  shows "mq_run_rel (s\<lparr>queue := mq_link_front i (queue s), hands := xs @ ys,
      sent := taken s @ d # drop (length (taken s)) (sent s)\<rparr>) (i # us) fs"
proof -
  note sp = mq_run_split [OF r h]
  have n: "mq_data (queue s) i = d" using sp(2) by (simp add: hand_ok_def)
  have l: "mq_rel (mq_link_front i (queue s)) (i # us) fs (map node (xs @ ys))" "mq_data (mq_link_front i (queue s)) = mq_data (queue s)"
    using mq_link_front_rel [of "queue s" us fs i "map node (xs @ ys)"] sp(1) by simp_all
  have "hand_ok (mq_link_front i (queue s)) h'" if "h' \<in> set (xs @ ys)" for h'
    using sp(3) [OF that] hand_ok_cong [of "mq_link_front i (queue s)" h' "queue s"] mq_next_frame(6) [of "node h'" i "queue s"] l(2) by simp
  then show ?thesis using r l n by (simp add: mq_run_rel_def)
qed

lemma step_begin_recv:
  assumes r: "mq_run_rel s us fs" and e: "mq_entry (queue s) \<noteq> 0" and t: "mq_unlink (queue s) = Some (i, mq)"
  shows "\<exists>us'. us = i # us' \<and> mq_run_rel (s\<lparr>queue := mq, hands := Draining i (mq_data mq i) # hands s, taken := taken s @ [mq_data mq i]\<rparr>) us' fs"
proof -
  have rel: "mq_rel (queue s) us fs (map node (hands s))" using r by (simp add: mq_run_rel_def)
  then have "us \<noteq> []" using e by (auto simp: mq_rel_def unat_eq_0)
  then obtain j us' where us: "us = j # us'" by (cases us) auto
  have m: "mq_rel mq us' fs (i # map node (hands s))" "mq_data mq = mq_data (queue s)" "j = i"
    using mq_unlink_rel [OF rel [unfolded us]] t by auto
  have "hand_ok mq h" if "h \<in> set (hands s)" for h
    using hand_ok_cong [of mq h "queue s"] mq_run_hand(4) [OF r that] mq_next_frame(2) [OF t] m(2) by simp
  then show ?thesis using r m us by (simp add: mq_run_rel_def hand_ok_def [of _ "Draining _ _"])
qed

lemma step_end_recv:
  assumes r: "mq_run_rel s us fs" and h: "hands s = xs @ Draining i d # ys"
  shows "mq_run_rel (s\<lparr>queue := mq_release i (queue s), hands := xs @ ys\<rparr>) us (i # fs)"
proof -
  note sp = mq_run_split [OF r h]
  have "mq_rel (mq_release i (queue s)) us (i # fs) (map node (xs @ ys))"
    using mq_release_rel [of "queue s" us fs i "map node (xs @ ys)"] sp(1) by simp
  moreover have "hand_ok (mq_release i (queue s)) h'" if "h' \<in> set (xs @ ys)" for h'
    using sp(3) [OF that] hand_ok_cong [of "mq_release i (queue s)" h' "queue s"] mq_next_frame(5) [of "node h'" i "queue s"] by simp
  ultimately show ?thesis using r by (simp add: mq_run_rel_def)
qed

lemma step_reset:
  assumes r: "mq_run_rel s us fs" and f: "mq_flush (queue s) = Some mq"
  shows "mq_run_rel (s\<lparr>queue := mq\<lparr>mq_entry := 0\<rparr>, sent := taken s\<rparr>) [] (rev us @ fs)"
proof -
  have rel: "mq_rel (queue s) us fs (map node (hands s))" using r by (simp add: mq_run_rel_def)
  have m: "mq_head mq = None" "mq_tail mq = None" "mq_path (mq_next mq) (mq_free mq) (rev us @ fs)" "mq_data mq = mq_data (queue s)"
    "mq_msg_size mq = mq_msg_size (queue s)" "mq_max_msgs mq = mq_max_msgs (queue s)"
    using mq_flush_rel [of "queue s" us fs] rel f by (auto simp: mq_rel_def)
  have fr: "mq_next mq j = mq_next (queue s) j" if "j \<notin> set us" for j
    using mq_flush_next [OF _ _ f that] rel by (simp add: mq_rel_def)
  have "hand_ok (mq\<lparr>mq_entry := 0\<rparr>) h" if "h \<in> set (hands s)" for h
    using hand_ok_cong [of "mq\<lparr>mq_entry := 0\<rparr>" h "queue s"] mq_run_hand(1,4) [OF r that] fr m(4) by simp
  moreover have "set (rev us @ fs @ map node (hands s)) = {..<unat (mq_max_msgs mq)}" "distinct (rev us @ fs @ map node (hands s))"
    using rel m(6) by (auto simp: mq_rel_def)
  then have "mq_rel (mq\<lparr>mq_entry := 0\<rparr>) [] (rev us @ fs) (map node (hands s))"
    using rel m by (simp add: mq_rel_def)
  ultimately show ?thesis by (simp add: mq_run_rel_def)
qed

lemma mq_run_step: "mq_step s s' \<Longrightarrow> mq_run_rel s us fs \<Longrightarrow> \<exists>us' fs'. mq_run_rel s' us' fs'"
  by (erule mq_stepE)
    (blast dest: step_begin_send step_fill step_end_send step_end_urgent step_begin_recv step_end_recv step_reset)+

lemma mq_run_reachable: "mq_step\<^sup>*\<^sup>* s s' \<Longrightarrow> mq_run_rel s us fs \<Longrightarrow> \<exists>us' fs'. mq_run_rel s' us' fs'"
  by (induction arbitrary: us fs rule: converse_rtranclp_induct) (blast dest: mq_run_step)+

lemma mq_step_pool:
  assumes "mq_step s s'" and r: "mq_run_rel s us fs"
  shows "mq_max_msgs (queue s') = mq_max_msgs (queue s)"
proof -
  have fl: "mq_max_msgs mq = mq_max_msgs (queue s)" if "mq_flush (queue s) = Some mq" for mq
    using mq_flush_rel [of "queue s" us fs] r that by (auto simp: mq_run_rel_def mq_rel_def)
  show ?thesis
    using assms(1) by (cases rule: mq_step.cases)
      (auto simp: fl mq_take_def mq_clear_next_def mq_fill_def mq_link_def mq_link_front_def mq_unlink_def Let_def
        bind_eq_Some_conv split: option.splits if_splits)
qed

lemma mq_run_pool: "mq_step\<^sup>*\<^sup>* s s' \<Longrightarrow> mq_run_rel s us fs \<Longrightarrow> mq_max_msgs (queue s') = mq_max_msgs (queue s)"
proof (induction arbitrary: us fs rule: converse_rtranclp_induct)
  case (step s s1)
  obtain us' fs' where "mq_run_rel s1 us' fs'" using mq_run_step [OF step.hyps(1) step.prems] by blast
  then show ?case using step.IH mq_step_pool [OF step.hyps(1) step.prems] by simp
qed simp

section \<open>Whole services\<close>

definition mq_used :: "rt_messagequeue \<Rightarrow> nat list" where
  "mq_used mq = mq_chain (unat (mq_max_msgs mq)) (mq_next mq) (mq_head mq)"

definition mq_frees :: "rt_messagequeue \<Rightarrow> nat list" where
  "mq_frees mq = mq_chain (unat (mq_max_msgs mq)) (mq_next mq) (mq_free mq)"

definition mq_messages :: "rt_messagequeue \<Rightarrow> rt_uint8_t list list" where
  "mq_messages mq = map (mq_data mq) (mq_used mq)"

definition mq_wf :: "rt_messagequeue \<Rightarrow> bool" where
  "mq_wf mq \<longleftrightarrow> mq_rel mq (mq_used mq) (mq_frees mq) []"

lemma mq_relD:
  assumes "mq_rel mq us fs bs"
  shows "mq_used mq = us" "mq_frees mq = fs"
  using assms mq_rel_length [OF assms] mq_chain_path [of "mq_next mq" "mq_head mq" us] mq_chain_path [of "mq_next mq" "mq_free mq" fs]
  by (simp_all add: mq_used_def mq_frees_def mq_rel_def)

lemma mq_wfI: "mq_rel mq us fs [] \<Longrightarrow> mq_wf mq \<and> mq_messages mq = map (mq_data mq) us"
  using mq_relD [of mq us fs "[]"] by (simp add: mq_wf_def mq_messages_def)

lemma mq_wf_setup:
  "unat n * (unat sz + 4) \<le> length pool \<Longrightarrow> mq_wf (mq_setup sz n pool mq) \<and> mq_messages (mq_setup sz n pool mq) = []"
  using mq_wfI [OF mq_rel_setup(1)] by simp

text \<open>The parts of a service in one go.\<close>

lemma mq_send_parts:
  assumes wf: "mq_wf mq" and ok: "mq_sendable buffer sz mq" and room: "length (mq_messages mq) < unat (mq_max_msgs mq)"
  shows "\<exists>i mq1 mq2. mq_take mq = Some (i, mq1) \<and> mq_fill i buffer sz (mq_clear_next i mq1) = Some mq2
    \<and> mq_wf (mq_link i mq2) \<and> mq_messages (mq_link i mq2) = mq_messages mq @ [mq_stored buffer sz (mq_data mq i)]
    \<and> mq_msg_size (mq_link i mq2) = mq_msg_size mq \<and> mq_max_msgs (mq_link i mq2) = mq_max_msgs mq
    \<and> length (mq_data mq i) = unat (mq_msg_size mq)"
    and "\<exists>i mq1 mq2. mq_take mq = Some (i, mq1) \<and> mq_fill i buffer sz mq1 = Some mq2
    \<and> mq_wf (mq_link_front i mq2) \<and> mq_messages (mq_link_front i mq2) = mq_stored buffer sz (mq_data mq i) # mq_messages mq
    \<and> mq_msg_size (mq_link_front i mq2) = mq_msg_size mq \<and> mq_max_msgs (mq_link_front i mq2) = mq_max_msgs mq
    \<and> length (mq_data mq i) = unat (mq_msg_size mq)"
proof -
  define us where "us = mq_used mq"
  have r: "mq_rel mq us (mq_frees mq) []" using wf by (simp add: mq_wf_def us_def)
  have "mq_frees mq \<noteq> []" using mq_rel_length [OF r] room by (auto simp: mq_messages_def us_def)
  then obtain i fs where fs: "mq_frees mq = i # fs" by (cases "mq_frees mq") auto
  obtain mq1 where t: "mq_take mq = Some (i, mq1)" "mq_rel mq1 us fs [i]" "mq_data mq1 = mq_data mq"
    "mq_msg_size mq1 = mq_msg_size mq" "mq_max_msgs mq1 = mq_max_msgs mq"
    using mq_take_rel(2) [OF r fs] by blast
  have i: "i \<notin> set us" "length (mq_data mq i) = unat (mq_msg_size mq)"
    using mq_rel_busy [OF t(2), of i] r t(5) by (simp_all add: mq_rel_def)
  define mqc where "mqc = mq_clear_next i mq1"
  have c: "mq_rel mqc us fs [i]" "mq_next mqc i = None" "mq_data mqc = mq_data mq" "mq_msg_size mqc = mq_msg_size mq" "mq_max_msgs mqc = mq_max_msgs mq"
    using mq_clear_next_rel [OF t(2), of i] t(3-5) by (simp_all add: mqc_def mq_clear_next_def)
  obtain mq2 where f: "mq_fill i buffer sz mqc = Some mq2" "mq_rel mq2 us fs [i]" "mq_data mq2 = (mq_data mq)(i := mq_stored buffer sz (mq_data mq i))"
    "mq_next mq2 i = None" "mq_msg_size mq2 = mq_msg_size mq" "mq_max_msgs mq2 = mq_max_msgs mq"
    using mq_fill_rel [OF c(1), of i buffer sz] ok c by (auto simp: mq_sendable_def)
  note l = mq_link_rel [OF f(2,4)]
  have "mq_messages (mq_link i mq2) = mq_messages mq @ [mq_stored buffer sz (mq_data mq i)]" "mq_wf (mq_link i mq2)"
    using mq_wfI [OF l(1)] l(2) f(3) i by (auto simp: mq_messages_def us_def)
  then show "\<exists>i mq1 mq2. mq_take mq = Some (i, mq1) \<and> mq_fill i buffer sz (mq_clear_next i mq1) = Some mq2
    \<and> mq_wf (mq_link i mq2) \<and> mq_messages (mq_link i mq2) = mq_messages mq @ [mq_stored buffer sz (mq_data mq i)]
    \<and> mq_msg_size (mq_link i mq2) = mq_msg_size mq \<and> mq_max_msgs (mq_link i mq2) = mq_max_msgs mq
    \<and> length (mq_data mq i) = unat (mq_msg_size mq)"
    using t(1) f(1,5,6) l(3,4) i(2) by (auto simp: mqc_def)
  obtain mq3 where f: "mq_fill i buffer sz mq1 = Some mq3" "mq_rel mq3 us fs [i]" "mq_data mq3 = (mq_data mq)(i := mq_stored buffer sz (mq_data mq i))"
    "mq_msg_size mq3 = mq_msg_size mq" "mq_max_msgs mq3 = mq_max_msgs mq"
    using mq_fill_rel [OF t(2), of i buffer sz] ok t by (auto simp: mq_sendable_def)
  note l = mq_link_front_rel [OF f(2)]
  have "mq_messages (mq_link_front i mq3) = mq_stored buffer sz (mq_data mq i) # mq_messages mq" "mq_wf (mq_link_front i mq3)"
    using mq_wfI [OF l(1)] l(2) f(3) i by (auto simp: mq_messages_def us_def)
  then show "\<exists>i mq1 mq2. mq_take mq = Some (i, mq1) \<and> mq_fill i buffer sz mq1 = Some mq2
    \<and> mq_wf (mq_link_front i mq2) \<and> mq_messages (mq_link_front i mq2) = mq_stored buffer sz (mq_data mq i) # mq_messages mq
    \<and> mq_msg_size (mq_link_front i mq2) = mq_msg_size mq \<and> mq_max_msgs (mq_link_front i mq2) = mq_max_msgs mq
    \<and> length (mq_data mq i) = unat (mq_msg_size mq)"
    using t(1) f(1,4,5) l(3,4) i(2) by auto
qed

lemma unat_size: "unat (ucast (w :: 16 word) :: 32 word) = unat w"
  using unsigned_less [where 'a = nat and w = w] by (simp add: unsigned_ucast_eq take_bit_nat_eq_self)

lemma mq_full:
  assumes "mq_wf mq"
  shows "mq_take mq = None \<longleftrightarrow> length (mq_messages mq) = unat (mq_max_msgs mq)" "length (mq_messages mq) \<le> unat (mq_max_msgs mq)"
    "unat (mq_entry mq) = length (mq_messages mq)"
proof -
  have r: "mq_rel mq (mq_used mq) (mq_frees mq) []" using assms by (simp add: mq_wf_def)
  show "mq_take mq = None \<longleftrightarrow> length (mq_messages mq) = unat (mq_max_msgs mq)" "length (mq_messages mq) \<le> unat (mq_max_msgs mq)"
    using mq_rel_length [OF r] mq_take_rel [OF r] by (cases "mq_frees mq"; auto simp: mq_messages_def)+
  show "unat (mq_entry mq) = length (mq_messages mq)" using r by (simp add: mq_rel_def mq_messages_def)
qed

lemma mq_recv_parts:
  assumes wf: "mq_wf mq" and m: "mq_messages mq = d # ds"
  shows "\<exists>i mq1. mq_unlink mq = Some (i, mq1) \<and> mq_copy_out i sz mq1 = Some (take (unat sz) d)
    \<and> mq_wf (mq_release i mq1) \<and> mq_messages (mq_release i mq1) = ds
    \<and> mq_msg_size (mq_release i mq1) = mq_msg_size mq \<and> mq_max_msgs (mq_release i mq1) = mq_max_msgs mq"
proof -
  obtain i us where us: "mq_used mq = i # us" "mq_data mq i = d" "map (mq_data mq) us = ds"
    using m by (auto simp: mq_messages_def map_eq_Cons_conv)
  have r: "mq_rel mq (i # us) (mq_frees mq) []" using wf us(1) by (simp add: mq_wf_def)
  obtain mq1 where u: "mq_unlink mq = Some (i, mq1)" "mq_rel mq1 us (mq_frees mq) [i]" "mq_data mq1 = mq_data mq"
    "mq_msg_size mq1 = mq_msg_size mq" "mq_max_msgs mq1 = mq_max_msgs mq"
    using mq_unlink_rel [OF r] by blast
  have "i < unat (mq_max_msgs mq)" using mq_rel_busy [OF u(2), of i] u(5) by simp
  then have l: "length d = unat (mq_msg_size mq)" using r us(2) unfolding mq_rel_def by auto
  have "mq_copy_out i sz mq1 = Some (take (unat sz) d)"
    using l u(3,4) us(2) by (auto simp: mq_copy_out_def load_at_def word_less_nat_alt unat_size)
  then show ?thesis using u mq_wfI [OF mq_release_rel [OF u(2)]] us(3) by simp
qed

definition mq_inv :: "nat \<Rightarrow> kernel \<Rightarrow> bool" where
  "mq_inv m k \<longleftrightarrow> rt_object_get_type (Obj m) k = RT_Object_Class_MessageQueue
     \<and> (obj_flag (objects k (Obj m)) = RT_IPC_FLAG_FIFO \<or> obj_flag (objects k (Obj m)) = RT_IPC_FLAG_PRIO)
     \<and> mq_wf (mqs k m)"

lemma mq_inv_frame: "same_ipc k k' \<Longrightarrow> mq_inv m k' = mq_inv m k"
  by (simp add: mq_inv_def same_ipc_def rt_object_get_type_def)

definition mq_has_msg :: "nat \<Rightarrow> kernel \<Rightarrow> bool" where
  "mq_has_msg m k \<longleftrightarrow> mq_entry (mqs k m) \<noteq> 0"

interpretation mq_receivers: waiting "Mq_recv_wait m" "mq_has_msg m" for m
  by unfold_locales (simp_all add: mq_has_msg_def same_ipc_def)

lemma mq_has_msg_iff: "mq_inv m k \<Longrightarrow> mq_has_msg m k \<longleftrightarrow> mq_messages (mqs k m) \<noteq> []"
  using mq_full(3) [of "mqs k m"] unfolding mq_has_msg_def mq_inv_def by (metis length_0_conv unat_eq_0)

text \<open>Putting a changed queue in place and waking a thread of the other side.\<close>

lemma mq_update_wake:
  assumes "sys_inv k" and "mq_inv m k" and "mq_wf mq" and "is_wait_list q"
  shows "\<exists>k'. ipc_wake q (upd_mq m (\<lambda>_. mq) k) = Some k' \<and> sys_inv k' \<and> mq_inv m k' \<and> mqs k' m = mq
    \<and> woken_first q (upd_mq m (\<lambda>_. mq) k) k'"
proof -
  let ?k0 = "upd_mq m (\<lambda>_. mq) k"
  obtain k' where k': "ipc_wake q ?k0 = Some k'" "sys_inv k'" "woken_first q ?k0 k'"
    using ipc_wake_ok [of ?k0 q] assms by auto
  have "mq_inv m ?k0" using assms(2,3) by (simp add: mq_inv_def)
  then have "mq_inv m k'" "mqs k' m = mq"
    using k'(3) mq_inv_frame [of ?k0 k' m] by (simp_all add: woken_first_def same_ipc_def)
  then show ?thesis using k' by blast
qed

lemma mq_sendable_size: "mq_sendable buffer sz mq \<Longrightarrow> \<not> (ucast (mq_msg_size mq) < (sz :: 32 word))"
  by (simp add: mq_sendable_def word_less_nat_alt unat_size not_less)

lemma mq_send_now:
  assumes inv: "sys_inv k" and m: "mq_inv m k" and ok: "mq_sendable buffer sz (mqs k m)"
    and room: "length (mq_messages (mqs k m)) < unat (mq_max_msgs (mqs k m))"
  shows "\<exists>k' old. rt_mq_send m buffer sz k = Some (RT_EOK, k') \<and> sys_inv k' \<and> mq_inv m k' \<and> length old = unat (mq_msg_size (mqs k m))
    \<and> mq_messages (mqs k' m) = mq_messages (mqs k m) @ [mq_stored buffer sz old]
    \<and> mq_msg_size (mqs k' m) = mq_msg_size (mqs k m) \<and> mq_max_msgs (mqs k' m) = mq_max_msgs (mqs k m)
    \<and> woken_first (Mq_recv_wait m) (upd_mq m (\<lambda>_. mqs k' m) k) k'"
proof -
  have wf: "mq_wf (mqs k m)" using m by (simp add: mq_inv_def)
  obtain i mq1 mq2 where p: "mq_take (mqs k m) = Some (i, mq1)" "mq_fill i buffer sz (mq_clear_next i mq1) = Some mq2" "mq_wf (mq_link i mq2)"
    and q: "mq_messages (mq_link i mq2) = mq_messages (mqs k m) @ [mq_stored buffer sz (mq_data (mqs k m) i)]"
    "mq_msg_size (mq_link i mq2) = mq_msg_size (mqs k m)" "mq_max_msgs (mq_link i mq2) = mq_max_msgs (mqs k m)"
    "length (mq_data (mqs k m) i) = unat (mq_msg_size (mqs k m))"
    using mq_send_parts(1) [OF wf ok room] by blast
  obtain k' where k': "ipc_wake (Mq_recv_wait m) (upd_mq m (\<lambda>_. mq_link i mq2) k) = Some k'" "sys_inv k'" "mq_inv m k'" "mqs k' m = mq_link i mq2"
    "woken_first (Mq_recv_wait m) (upd_mq m (\<lambda>_. mq_link i mq2) k) k'"
    using mq_update_wake [OF inv m p(3), of "Mq_recv_wait m"] by auto
  have "rt_mq_send m buffer sz k = Some (RT_EOK, k')"
    using m p(1,2) k'(1) mq_sendable_size [OF ok] by (simp add: rt_mq_send_def mq_inv_def)
  then show ?thesis using k' q by (intro exI [of _ k'] exI [of _ "mq_data (mqs k m) i"]) simp
qed

lemma mq_urgent_now:
  assumes inv: "sys_inv k" and m: "mq_inv m k" and ok: "mq_sendable buffer sz (mqs k m)"
    and room: "length (mq_messages (mqs k m)) < unat (mq_max_msgs (mqs k m))"
  shows "\<exists>k' old. rt_mq_urgent m buffer sz k = Some (RT_EOK, k') \<and> sys_inv k' \<and> mq_inv m k' \<and> length old = unat (mq_msg_size (mqs k m))
    \<and> mq_messages (mqs k' m) = mq_stored buffer sz old # mq_messages (mqs k m)
    \<and> woken_first (Mq_recv_wait m) (upd_mq m (\<lambda>_. mqs k' m) k) k'"
proof -
  have wf: "mq_wf (mqs k m)" using m by (simp add: mq_inv_def)
  obtain i mq1 mq2 where p: "mq_take (mqs k m) = Some (i, mq1)" "mq_fill i buffer sz mq1 = Some mq2" "mq_wf (mq_link_front i mq2)"
    and q: "mq_messages (mq_link_front i mq2) = mq_stored buffer sz (mq_data (mqs k m) i) # mq_messages (mqs k m)"
    "length (mq_data (mqs k m) i) = unat (mq_msg_size (mqs k m))"
    using mq_send_parts(2) [OF wf ok room] by blast
  obtain k' where k': "ipc_wake (Mq_recv_wait m) (upd_mq m (\<lambda>_. mq_link_front i mq2) k) = Some k'" "sys_inv k'" "mq_inv m k'"
    "mqs k' m = mq_link_front i mq2" "woken_first (Mq_recv_wait m) (upd_mq m (\<lambda>_. mq_link_front i mq2) k) k'"
    using mq_update_wake [OF inv m p(3), of "Mq_recv_wait m"] by auto
  have "rt_mq_urgent m buffer sz k = Some (RT_EOK, k')"
    using m p(1,2) k'(1) mq_sendable_size [OF ok] by (simp add: rt_mq_urgent_def mq_inv_def)
  then show ?thesis using k' q by (intro exI [of _ k'] exI [of _ "mq_data (mqs k m) i"]) simp
qed

lemma mq_recv_now:
  assumes inv: "sys_inv k" and m: "mq_inv m k" and msg: "mq_messages (mqs k m) = d # ds"
  shows "\<exists>k'. mq_recv_loop m sz timeout self k = Some (Finished (RT_EOK, Some (take (unat sz) d)), k') \<and> sys_inv k' \<and> mq_inv m k'
    \<and> mq_messages (mqs k' m) = ds \<and> mq_msg_size (mqs k' m) = mq_msg_size (mqs k m) \<and> mq_max_msgs (mqs k' m) = mq_max_msgs (mqs k m)
    \<and> woken_first (Mq_send_wait m) (upd_mq m (\<lambda>_. mqs k' m) k) k'"
proof -
  have wf: "mq_wf (mqs k m)" using m by (simp add: mq_inv_def)
  obtain i mq1 where p: "mq_unlink (mqs k m) = Some (i, mq1)" "mq_copy_out i sz mq1 = Some (take (unat sz) d)" "mq_wf (mq_release i mq1)"
    and q: "mq_messages (mq_release i mq1) = ds" "mq_msg_size (mq_release i mq1) = mq_msg_size (mqs k m)" "mq_max_msgs (mq_release i mq1) = mq_max_msgs (mqs k m)"
    using mq_recv_parts [OF wf msg] by blast
  obtain k' where k': "ipc_wake (Mq_send_wait m) (upd_mq m (\<lambda>_. mq_release i mq1) k) = Some k'" "sys_inv k'" "mq_inv m k'"
    "mqs k' m = mq_release i mq1" "woken_first (Mq_send_wait m) (upd_mq m (\<lambda>_. mq_release i mq1) k) k'"
    using mq_update_wake [OF inv m p(3), of "Mq_send_wait m"] by auto
  have "mq_has_msg m k" using mq_has_msg_iff [OF m] msg by simp
  then have "mq_recv_loop m sz timeout self k = Some (Finished (RT_EOK, Some (take (unat sz) d)), k')"
    using p(1,2) k'(1) by (simp add: mq_recv_loop_def mq_has_msg_def)
  then show ?thesis using k' q by (intro exI [of _ k']) simp
qed

lemma mq_recv_waits:
  assumes inv: "sys_inv k" and m: "mq_inv m k" and none: "\<not> mq_has_msg m k" and cur: "rt_current_thread k = Some t"
    and st: "stat_of k t = RT_THREAD_READY" and ir: "rt_interrupt_nest k = 0"
    and time: "timeout \<noteq> 0" "timeout \<noteq> 0x7fffffff" and u: "stat_of k u = RT_THREAD_READY" "u \<noteq> t"
  shows "\<exists>k'. mq_recv_loop m sz timeout (Some t) k = Some (Waiting t, k') \<and> sys_inv k' \<and> mq_inv m k' \<and> same_ipc k k'
    \<and> now_waiting (Mq_recv_wait m) (obj_flag (objects k (Obj m))) timeout t k k'"
proof -
  have fl: "obj_flag (objects k (Obj m)) = RT_IPC_FLAG_FIFO \<or> obj_flag (objects k (Obj m)) = RT_IPC_FLAG_PRIO"
    using m by (simp add: mq_inv_def)
  obtain k' where k': "ipc_wait (Mq_recv_wait m) t (obj_flag (objects k (Obj m))) timeout (upd_thread t (\<lambda>th. th\<lparr>th_error := RT_EOK\<rparr>) k) = Some k'"
    "sys_inv k'" "same_ipc k k'" "now_waiting (Mq_recv_wait m) (obj_flag (objects k (Obj m))) timeout t k k'"
    using mq_receivers.block_now_waiting [OF inv none st fl time(2) u] by blast
  have "mq_recv_loop m sz timeout (Some t) k = Some (Waiting t, k')"
    using none cur ir time(1) k'(1)
    by (simp add: mq_recv_loop_def mq_has_msg_def RT_DEBUG_IN_THREAD_CONTEXT_def RT_DEBUG_NOT_IN_INTERRUPT_def rt_interrupt_get_nest_def)
  then show ?thesis using k' m mq_inv_frame [OF k'(3), of m] by blast
qed

section \<open>The message queue as a bounded queue\<close>

text \<open>Messages of the full size, without waiting.\<close>

definition mq_try_send :: "nat \<Rightarrow> kernel \<Rightarrow> rt_uint8_t list \<Rightarrow> (bool \<times> kernel) option" where
  "mq_try_send m k d =
     (case rt_mq_send m (Some d) (ucast (mq_msg_size (mqs k m))) k of
        Some (e, k') \<Rightarrow> if e = RT_EOK then Some (True, k') else if e = -RT_EFULL then Some (False, k') else None
      | None \<Rightarrow> None)"

definition mq_try_recv :: "nat \<Rightarrow> kernel \<Rightarrow> (rt_uint8_t list option \<times> kernel) option" where
  "mq_try_recv m k =
     (case rt_mq_recv m (ucast (mq_msg_size (mqs k m))) 0 k of
        Some (Finished (e, d), k') \<Rightarrow> if (e = RT_EOK \<and> d \<noteq> None) \<or> (e = -RT_ETIMEOUT \<and> d = None) then Some (d, k') else None
      | _ \<Rightarrow> None)"

lemma mq_no_room:
  assumes "mq_inv m k" and "mq_sendable buffer sz (mqs k m)" and "length (mq_messages (mqs k m)) = unat (mq_max_msgs (mqs k m))"
  shows "rt_mq_send m buffer sz k = Some (-RT_EFULL, k)" "rt_mq_urgent m buffer sz k = Some (-RT_EFULL, k)"
proof -
  have "mq_take (mqs k m) = None" using mq_full(1) [of "mqs k m"] assms(1,3) by (simp add: mq_inv_def)
  then show "rt_mq_send m buffer sz k = Some (-RT_EFULL, k)" "rt_mq_urgent m buffer sz k = Some (-RT_EFULL, k)"
    using assms(1) mq_sendable_size [OF assms(2)] by (simp_all add: rt_mq_send_def rt_mq_urgent_def mq_inv_def)
qed

lemma mq_full_size: "length d = unat (mq_msg_size mq) \<Longrightarrow> mq_sendable (Some d) (ucast (mq_msg_size mq)) mq"
  by (simp add: mq_sendable_def unat_size)

lemma mq_wf_data: "mq_wf mq \<Longrightarrow> d \<in> set (mq_messages mq) \<Longrightarrow> length d = unat (mq_msg_size mq)"
  unfolding mq_wf_def mq_rel_def mq_messages_def by auto

interpretation mq_queue: sized_queue "\<lambda>k. sys_inv k \<and> mq_inv m k \<and> mq_msg_size (mqs k m) \<noteq> 0" "\<lambda>k. mq_messages (mqs k m)"
    "\<lambda>k. unat (mq_max_msgs (mqs k m))" "mq_try_send m" "mq_try_recv m" "\<lambda>k d. length d = unat (mq_msg_size (mqs k m))" for m
proof unfold_locales
  fix s x xs assume i: "sys_inv s \<and> mq_inv m s \<and> mq_msg_size (mqs s m) \<noteq> 0"
  then have wf: "mq_wf (mqs s m)" by (simp add: mq_inv_def)
  show "length (mq_messages (mqs s m)) \<le> unat (mq_max_msgs (mqs s m))" using mq_full(2) [OF wf] .
  show "mq_try_send m s x = Some (False, s)" if "length x = unat (mq_msg_size (mqs s m))" "length (mq_messages (mqs s m)) = unat (mq_max_msgs (mqs s m))"
    using mq_no_room(1) [OF _ mq_full_size [OF that(1)] that(2)] i by (simp add: mq_try_send_def rt_consts)
  show "\<exists>t. mq_try_send m s x = Some (True, t) \<and> (sys_inv t \<and> mq_inv m t \<and> mq_msg_size (mqs t m) \<noteq> 0)
      \<and> unat (mq_max_msgs (mqs t m)) = unat (mq_max_msgs (mqs s m))
      \<and> (\<lambda>d. length d = unat (mq_msg_size (mqs t m))) = (\<lambda>d. length d = unat (mq_msg_size (mqs s m)))
      \<and> mq_messages (mqs t m) = mq_messages (mqs s m) @ [x]"
    if "length x = unat (mq_msg_size (mqs s m))" "length (mq_messages (mqs s m)) < unat (mq_max_msgs (mqs s m))"
    using mq_send_now [OF _ _ mq_full_size [OF that(1)] that(2)] i that(1)
    by (auto simp: mq_try_send_def mq_stored_def unat_size)
  have z: "ucast (mq_msg_size (mqs s m)) \<noteq> (0 :: 32 word)" using i by (metis unat_size unat_eq_0)
  show "mq_try_recv m s = Some (None, s)" if "mq_messages (mqs s m) = []"
    using that i mq_has_msg_iff [of m s] z by (simp add: mq_try_recv_def rt_mq_recv_def mq_has_msg_def mq_inv_def)
  show "\<exists>t. mq_try_recv m s = Some (Some x, t) \<and> (sys_inv t \<and> mq_inv m t \<and> mq_msg_size (mqs t m) \<noteq> 0)
      \<and> unat (mq_max_msgs (mqs t m)) = unat (mq_max_msgs (mqs s m))
      \<and> (\<lambda>d. length d = unat (mq_msg_size (mqs t m))) = (\<lambda>d. length d = unat (mq_msg_size (mqs s m)))
      \<and> mq_messages (mqs t m) = xs" if msg: "mq_messages (mqs s m) = x # xs"
  proof -
    have "length x = unat (mq_msg_size (mqs s m))" using mq_wf_data [OF wf, of x] msg by simp
    moreover have "mq_entry (mqs s m) \<noteq> 0" using mq_has_msg_iff [of m s] i msg by (simp add: mq_has_msg_def)
    ultimately show ?thesis
      using mq_recv_now [OF _ _ msg, of "ucast (mq_msg_size (mqs s m))" 0 "rt_thread_self s"] i z
      by (auto simp: mq_try_recv_def rt_mq_recv_def mq_inv_def unat_size)
  qed
qed

section \<open>Properties\<close>

text \<open>C19: message queues under preemption.  However the parts of any number of sends, urgent sends, receives and resets
  are interleaved, starting from an initialised pool: the list of messages, the free list and the nodes
  in the hands of threads never share a node and no node is lost; what a thread copies out of its node is the
  message that was due when it took the node, never one half overwritten; and the messages taken so far followed by
  those in the queue are the messages linked so far in the order they are due (the linking order, with urgent ones
  ahead and a reset dropping those not yet taken).\<close>

theorem mq_interleaving_safe:
  assumes "unat n * (unat sz + 4) \<le> length pool"
    and "mq_step\<^sup>*\<^sup>* \<lparr>queue = mq_setup sz n pool mq, hands = [], sent = [], taken = []\<rparr> s"
  shows "\<exists>us fs. mq_path (mq_next (queue s)) (mq_head (queue s)) us \<and> mq_path (mq_next (queue s)) (mq_free (queue s)) fs
    \<and> distinct (us @ fs @ map node (hands s)) \<and> set (us @ fs @ map node (hands s)) = {..<unat n}
    \<and> unat (mq_entry (queue s)) = length us
    \<and> (\<forall>i d. Draining i d \<in> set (hands s) \<longrightarrow> mq_data (queue s) i = d)
    \<and> (\<forall>i fr d. Filled i fr d \<in> set (hands s) \<longrightarrow> mq_data (queue s) i = d)
    \<and> sent s = taken s @ map (mq_data (queue s)) us"
proof -
  let ?s = "\<lparr>queue = mq_setup sz n pool mq, hands = [], sent = [], taken = []\<rparr>"
  have r0: "mq_run_rel ?s [] (rev [0..<unat n])" using mq_rel_setup(1) [OF assms(1)] by (simp add: mq_run_rel_def)
  obtain us fs where r: "mq_run_rel s us fs" using mq_run_reachable [OF assms(2) r0] by blast
  have "mq_max_msgs (queue s) = n" using mq_run_pool [OF assms(2) r0] mq_rel_setup(3) [OF assms(1)] by simp
  moreover have "\<forall>i d. Draining i d \<in> set (hands s) \<longrightarrow> mq_data (queue s) i = d"
    "\<forall>i fr d. Filled i fr d \<in> set (hands s) \<longrightarrow> mq_data (queue s) i = d"
    using mq_run_hand(4) [OF r] by (fastforce simp: hand_ok_def)+
  ultimately show ?thesis using r by (intro exI [of _ us] exI [of _ fs]) (simp add: mq_run_rel_def mq_rel_def)
qed

text \<open>Two sends that overtake each other while they copy.\<close>

theorem mq_interleaving_safe_witness:
  "\<exists>s us. mq_step\<^sup>*\<^sup>* \<lparr>queue = mq_setup 4 2 (replicate 16 0) zero_mq, hands = [], sent = [], taken = []\<rparr> s
    \<and> hands s = [Filling 0 False, Filling 1 False] \<and> mq_path (mq_next (queue s)) (mq_head (queue s)) us \<and> us = []"
proof -
  let ?q = "mq_setup 4 2 (replicate 16 0) zero_mq"
  let ?s0 = "\<lparr>queue = ?q, hands = [], sent = [], taken = []\<rparr>"
  have pool: "unat (2 :: 16 word) * (unat (4 :: 16 word) + 4) \<le> length (replicate 16 (0 :: rt_uint8_t))" by simp
  have f: "mq_free ?q = Some 1" "mq_next ?q 1 = Some 0"
    by (simp_all add: mq_setup_def mq_release_def Let_def upt_conv_Cons)
  define q1 where "q1 = mq_clear_next 1 (?q\<lparr>mq_free := Some 0\<rparr>)"
  define q2 where "q2 = mq_clear_next 0 (q1\<lparr>mq_free := mq_next q1 0\<rparr>)"
  let ?s1 = "?s0\<lparr>queue := q1, hands := [Filling 1 False]\<rparr>" and ?s2 = "?s0\<lparr>queue := q2, hands := [Filling 0 False, Filling 1 False]\<rparr>"
  have "mq_take ?q = Some (1, ?q\<lparr>mq_free := Some 0\<rparr>)" using f by (simp add: mq_take_def)
  then have s1: "mq_step ?s0 ?s1" using begin_send [of ?s0 1] by (simp add: q1_def)
  have "mq_take q1 = Some (0, q1\<lparr>mq_free := mq_next q1 0\<rparr>)" by (simp add: mq_take_def q1_def mq_clear_next_def)
  then have s2: "mq_step ?s1 ?s2" using begin_send [of ?s1 0] by (simp add: q2_def)
  have run: "mq_step\<^sup>*\<^sup>* ?s0 ?s2" by (rule rtranclp.rtrancl_into_rtrancl [OF r_into_rtranclp [of mq_step, OF s1] s2])
  obtain us fs where u: "mq_path (mq_next (queue ?s2)) (mq_head (queue ?s2)) us" "distinct (us @ fs @ [0, 1])"
    "set (us @ fs @ [0, 1]) = {..<unat (2 :: 16 word)}"
    using mq_interleaving_safe [OF pool run] by auto
  have "set us \<subseteq> {..<2}" "0 \<notin> set us" "1 \<notin> set us" using u(2,3) by auto
  then have "us = []" by (cases us) (auto simp: lessThan_def less_2_cases_iff)
  then show ?thesis using run u(1) by (intro exI [of _ ?s2] exI [of _ us]) simp
qed

text \<open>C20: a message queue is a bounded first-in first-out queue of messages.  For every sequence of sends of messages of the
  full size and receives that do not wait, the kernel gives the answers of a queue with the capacity of the pool,
  whatever the links of the nodes look like and whoever waits on the queue meanwhile.\<close>

theorem mq_refines_queue:
  assumes "sys_inv k" and "mq_inv m k" and "mq_msg_size (mqs k m) \<noteq> 0"
    and "\<And>d. Push d \<in> set ops \<Longrightarrow> length d = unat (mq_msg_size (mqs k m))"
  shows "queue_run (mq_try_send m) (mq_try_recv m) k ops = Some (queue_spec (unat (mq_max_msgs (mqs k m))) (mq_messages (mqs k m)) ops)"
  using assms by (intro mq_queue.run_refines) simp_all

definition sample_mq :: kernel where
  "sample_mq = upd_mq 5 (\<lambda>_. mq_setup 4 2 (replicate 16 0) zero_mq) (sample_with RT_Object_Class_MessageQueue RT_IPC_FLAG_FIFO)"

lemma sample_mq_wf: "mq_wf (mq_setup 4 2 (replicate 16 0) mq)" "mq_messages (mq_setup 4 2 (replicate 16 0) mq) = []"
  "mq_msg_size (mq_setup 4 2 (replicate 16 0) mq) = 4" "mq_max_msgs (mq_setup 4 2 (replicate 16 0) mq) = 2"
  using mq_wf_setup [of 2 4 "replicate 16 0" mq] mq_rel_setup(2,3) [of 2 4 "replicate 16 0" mq] by simp_all

lemma sample_mq_ok:
  "sys_inv sample_mq" "mq_inv 5 sample_mq" "mq_msg_size (mqs sample_mq 5) = 4" "mq_max_msgs (mqs sample_mq 5) = 2" "mq_messages (mqs sample_mq 5) = []"
  "rt_current_thread sample_mq = Some (Suc 0)" "stat_of sample_mq (Suc 0) = RT_THREAD_READY" "stat_of sample_mq 2 = RT_THREAD_READY"
  "rt_interrupt_nest sample_mq = 0" "rt_scheduler_lock_nest sample_mq = 0" "obj_flag (objects sample_mq (Obj 5)) = RT_IPC_FLAG_FIFO"
  "on_tlist sample_mq (Mq_recv_wait 5) = []" "on_tlist sample_mq (Mq_send_wait 5) = []"
  by (simp_all add: sample_mq_def sample_with_sys_inv mq_inv_def on_tlist_def sample_mq_wf) (simp_all add: rt_consts)

theorem mq_refines_queue_witness:
  "queue_run (mq_try_send 5) (mq_try_recv 5) sample_mq [Push [1, 2, 3, 4], Push [5, 6, 7, 8], Push [9, 9, 9, 9], Pop, Pop, Pop]
    = Some [Pushed True, Pushed True, Pushed False, Popped (Some [1, 2, 3, 4]), Popped (Some [5, 6, 7, 8]), Popped None]"
  by (subst mq_refines_queue [OF sample_mq_ok(1,2)]) (auto simp: sample_mq_ok)

text \<open>\<^verbatim>\<open>rt_mq_send\<close>, \<^verbatim>\<open>rt_mq_urgent\<close> and \<^verbatim>\<open>rt_mq_recv\<close> on every branch.  A message longer
  than the message size is refused, and so is any message when no node is free.  Otherwise it is put at the end or
  at the front and the first waiting receiver becomes ready; a message shorter than the message size leaves the
  rest of the node as an earlier message left it, and one without a buffer is all zeros.  A receiver gets the first
  message cut to the size it asks for, so it can see bytes of earlier messages; with no message it is refused or waits.\<close>

theorem mq_send_recv_correct:
  assumes "sys_inv k" and "mq_inv m k" and "rt_current_thread k = Some t" and "stat_of k t = RT_THREAD_READY"
    and "rt_interrupt_nest k = 0" and "timeout \<noteq> 0x7fffffff" and "stat_of k u = RT_THREAD_READY" "u \<noteq> t" and "len \<noteq> 0"
  shows "(unat (mq_msg_size (mqs k m)) < unat sz \<longrightarrow> rt_mq_send m buffer sz k = Some (-RT_ERROR, k) \<and> rt_mq_urgent m buffer sz k = Some (-RT_ERROR, k))
    \<and> (mq_sendable buffer sz (mqs k m) \<and> length (mq_messages (mqs k m)) = unat (mq_max_msgs (mqs k m)) \<longrightarrow>
         rt_mq_send m buffer sz k = Some (-RT_EFULL, k) \<and> rt_mq_urgent m buffer sz k = Some (-RT_EFULL, k))
    \<and> (mq_sendable buffer sz (mqs k m) \<and> length (mq_messages (mqs k m)) \<noteq> unat (mq_max_msgs (mqs k m)) \<longrightarrow>
         (\<exists>k' old. rt_mq_send m buffer sz k = Some (RT_EOK, k') \<and> sys_inv k' \<and> mq_inv m k' \<and> length old = unat (mq_msg_size (mqs k m))
            \<and> mq_messages (mqs k' m) = mq_messages (mqs k m) @ [mq_stored buffer sz old]
            \<and> woken_first (Mq_recv_wait m) (upd_mq m (\<lambda>_. mqs k' m) k) k')
       \<and> (\<exists>k' old. rt_mq_urgent m buffer sz k = Some (RT_EOK, k') \<and> sys_inv k' \<and> mq_inv m k' \<and> length old = unat (mq_msg_size (mqs k m))
            \<and> mq_messages (mqs k' m) = mq_stored buffer sz old # mq_messages (mqs k m)
            \<and> woken_first (Mq_recv_wait m) (upd_mq m (\<lambda>_. mqs k' m) k) k'))
    \<and> (\<forall>d ds. mq_messages (mqs k m) = d # ds \<longrightarrow>
         (\<exists>k'. rt_mq_recv m len timeout k = Some (Finished (RT_EOK, Some (take (unat len) d)), k') \<and> sys_inv k' \<and> mq_inv m k'
            \<and> mq_messages (mqs k' m) = ds \<and> woken_first (Mq_send_wait m) (upd_mq m (\<lambda>_. mqs k' m) k) k'))
    \<and> (mq_messages (mqs k m) = [] \<longrightarrow> rt_mq_recv m len 0 k = Some (Finished (-RT_ETIMEOUT, None), k))
    \<and> (mq_messages (mqs k m) = [] \<and> timeout \<noteq> 0 \<longrightarrow>
         (\<exists>k'. rt_mq_recv m len timeout k = Some (Waiting t, k') \<and> sys_inv k' \<and> mq_inv m k' \<and> mqs k' = mqs k
            \<and> now_waiting (Mq_recv_wait m) (obj_flag (objects k (Obj m))) timeout t k k'))"
proof (intro conjI impI allI)
  have wf: "mq_wf (mqs k m)" and ty: "rt_object_get_type (Obj m) k = RT_Object_Class_MessageQueue" using assms(2) by (simp_all add: mq_inv_def)
  have has: "mq_entry (mqs k m) \<noteq> 0 \<longleftrightarrow> mq_messages (mqs k m) \<noteq> []" using mq_has_msg_iff [OF assms(2)] by (simp add: mq_has_msg_def)
  {
    assume "unat (mq_msg_size (mqs k m)) < unat sz"
    then have "ucast (mq_msg_size (mqs k m)) < sz" by (simp add: word_less_nat_alt unat_size)
    then show "rt_mq_send m buffer sz k = Some (-RT_ERROR, k)" "rt_mq_urgent m buffer sz k = Some (-RT_ERROR, k)"
      using ty by (simp_all add: rt_mq_send_def rt_mq_urgent_def)
  next
    assume "mq_sendable buffer sz (mqs k m) \<and> length (mq_messages (mqs k m)) = unat (mq_max_msgs (mqs k m))"
    then show "rt_mq_send m buffer sz k = Some (-RT_EFULL, k)" "rt_mq_urgent m buffer sz k = Some (-RT_EFULL, k)"
      using mq_no_room [OF assms(2)] by blast+
  next
    assume s: "mq_sendable buffer sz (mqs k m) \<and> length (mq_messages (mqs k m)) \<noteq> unat (mq_max_msgs (mqs k m))"
    then have room: "length (mq_messages (mqs k m)) < unat (mq_max_msgs (mqs k m))" using mq_full(2) [OF wf] by simp
    show "\<exists>k' old. rt_mq_send m buffer sz k = Some (RT_EOK, k') \<and> sys_inv k' \<and> mq_inv m k' \<and> length old = unat (mq_msg_size (mqs k m))
            \<and> mq_messages (mqs k' m) = mq_messages (mqs k m) @ [mq_stored buffer sz old]
            \<and> woken_first (Mq_recv_wait m) (upd_mq m (\<lambda>_. mqs k' m) k) k'"
      using mq_send_now [OF assms(1,2) conjunct1 [OF s] room] by blast
    show "\<exists>k' old. rt_mq_urgent m buffer sz k = Some (RT_EOK, k') \<and> sys_inv k' \<and> mq_inv m k' \<and> length old = unat (mq_msg_size (mqs k m))
            \<and> mq_messages (mqs k' m) = mq_stored buffer sz old # mq_messages (mqs k m)
            \<and> woken_first (Mq_recv_wait m) (upd_mq m (\<lambda>_. mqs k' m) k) k'"
      using mq_urgent_now [OF assms(1,2) conjunct1 [OF s] room] by blast
  next
    fix d ds assume msg: "mq_messages (mqs k m) = d # ds"
    then have "rt_mq_recv m len timeout k = mq_recv_loop m len timeout (rt_thread_self k) k" using has ty assms(9) by (simp add: rt_mq_recv_def)
    then show "\<exists>k'. rt_mq_recv m len timeout k = Some (Finished (RT_EOK, Some (take (unat len) d)), k') \<and> sys_inv k' \<and> mq_inv m k'
            \<and> mq_messages (mqs k' m) = ds \<and> woken_first (Mq_send_wait m) (upd_mq m (\<lambda>_. mqs k' m) k) k'"
      using mq_recv_now [OF assms(1,2) msg, of len timeout "rt_thread_self k"] by auto
  next
    assume "mq_messages (mqs k m) = []"
    then show "rt_mq_recv m len 0 k = Some (Finished (-RT_ETIMEOUT, None), k)" using has ty assms(9) by (simp add: rt_mq_recv_def)
  next
    assume z: "mq_messages (mqs k m) = [] \<and> timeout \<noteq> 0"
    then have none: "\<not> mq_has_msg m k" and time: "timeout \<noteq> 0" using mq_has_msg_iff [OF assms(2)] by simp_all
    have "rt_mq_recv m len timeout k = mq_recv_loop m len timeout (Some t) k" using time ty assms(3,9) by (simp add: rt_mq_recv_def rt_thread_self_def)
    then show "\<exists>k'. rt_mq_recv m len timeout k = Some (Waiting t, k') \<and> sys_inv k' \<and> mq_inv m k' \<and> mqs k' = mqs k
            \<and> now_waiting (Mq_recv_wait m) (obj_flag (objects k (Obj m))) timeout t k k'"
      using mq_recv_waits [OF assms(1,2) none assms(3-5) time assms(6-8), of len] by (auto simp: same_ipc_def)
  }
qed

theorem mq_send_recv_correct_witness:
  "(\<exists>k' old. rt_mq_send 5 (Some [7, 8]) 2 sample_mq = Some (RT_EOK, k') \<and> length old = 4 \<and> mq_messages (mqs k' 5) = [[7, 8] @ drop 2 old])
   \<and> rt_mq_recv 5 4 0 sample_mq = Some (Finished (-RT_ETIMEOUT, None), sample_mq)"
proof -
  have ok: "mq_sendable (Some [7, 8]) 2 (mqs sample_mq 5)" by (simp add: mq_sendable_def sample_mq_ok)
  show ?thesis
    using mq_send_recv_correct [of sample_mq 5 1 10 2 4 2 "Some [7, 8]"] sample_mq_ok ok by (auto simp: mq_stored_def)
qed

text \<open>\<^verbatim>\<open>rt_mq_detach\<close> wakes the threads on the list of senders, on which no service ever puts a thread, and not
  the threads that wait for a message: they stay suspended on the list of an object that is no message queue any more,
  so that every later send to it fails an assertion and a receiver that waits forever is never woken.\<close>

theorem mq_detach_strands_receivers:
  assumes "sys_inv k" and "mq_inv m k" and "rt_object_is_systemobject (Obj m) k" and "t \<in> set (on_tlist k (Mq_recv_wait m))"
  shows "\<exists>k'. rt_mq_detach m k = Some (RT_EOK, k') \<and> sys_inv k' \<and> t \<in> set (on_tlist k' (Mq_recv_wait m))
    \<and> stat_of k' t = RT_THREAD_SUSPEND \<and> rt_mq_send m buffer sz k' = None \<and> rt_mq_urgent m buffer sz k' = None
    \<and> rt_mq_control m cmd k' = None"
proof -
  obtain k1 where k1: "rt_ipc_list_resume_all (Mq_send_wait m) k = Some k1" "sys_inv k1" "same_ipc k k1"
    "\<forall>q'. is_wait_list q' \<and> q' \<noteq> Mq_send_wait m \<longrightarrow> on_tlist k1 q' = on_tlist k q'"
    using ipc_list_resume_all [of "Mq_send_wait m" k] assms(1) by auto
  let ?k = "rt_object_detach (Obj m) k1"
  have ty: "rt_object_get_type (Obj m) k1 = RT_Object_Class_MessageQueue" "rt_object_get_type (Obj m) k = RT_Object_Class_MessageQueue"
    using assms(2) mq_inv_frame [OF k1(3), of m] by (simp_all add: mq_inv_def)
  have inv: "sys_inv ?k" using k1(2) ty(1) by (intro sys_inv_detach) (simp_all add: rt_consts)
  have mem: "t \<in> set (on_tlist ?k (Mq_recv_wait m))"
    using k1(4) assms(4) by (simp add: rt_object_detach_def unlink_object_def upd_object_def on_tlist_def)
  have "rt_object_get_type (Obj m) ?k \<noteq> RT_Object_Class_MessageQueue"
    by (simp add: rt_object_detach_def unlink_object_def upd_object_def rt_object_get_type_def rt_consts)
  then have "rt_mq_send m buffer sz ?k = None" "rt_mq_urgent m buffer sz ?k = None" "rt_mq_control m cmd ?k = None"
    by (simp_all add: rt_mq_send_def rt_mq_urgent_def rt_mq_control_def)
  moreover have "stat_of ?k t = RT_THREAD_SUSPEND" using wait_list_suspended(1) [OF sys_invD(5) [OF inv] _ mem] by simp
  moreover have "rt_mq_detach m k = Some (RT_EOK, ?k)" using ty(2) assms(3) k1(1) by (simp add: rt_mq_detach_def)
  ultimately show ?thesis using inv mem by blast
qed

definition sample_static_mq :: kernel where
  "sample_static_mq = upd_mq 5 (\<lambda>_. mq_setup 4 2 (replicate 16 0) zero_mq)
     (sample_with (RT_Object_Class_MessageQueue OR RT_Object_Class_Static) RT_IPC_FLAG_FIFO)"

lemma sample_static_mq_ok:
  "sys_inv sample_static_mq" "mq_inv 5 sample_static_mq" "\<not> mq_has_msg 5 sample_static_mq" "rt_object_is_systemobject (Obj 5) sample_static_mq"
  "rt_current_thread sample_static_mq = Some 1" "stat_of sample_static_mq 1 = RT_THREAD_READY" "stat_of sample_static_mq 2 = RT_THREAD_READY"
  "rt_interrupt_nest sample_static_mq = 0"
proof -
  have t: "(RT_Object_Class_MessageQueue OR RT_Object_Class_Static) AND NOT RT_Object_Class_Static = RT_Object_Class_MessageQueue"
    by (simp add: rt_consts)
  have ty: "obj_type (objects sample_static_mq (Obj 5)) = RT_Object_Class_MessageQueue OR RT_Object_Class_Static"
    by (simp add: sample_static_mq_def upd_mq_def sample_with_def upd_object_def)
  show "sys_inv sample_static_mq" "rt_current_thread sample_static_mq = Some 1" "stat_of sample_static_mq 1 = RT_THREAD_READY"
    "stat_of sample_static_mq 2 = RT_THREAD_READY" "rt_interrupt_nest sample_static_mq = 0"
    by (simp_all add: sample_static_mq_def sample_with_sys_inv)
  show i: "mq_inv 5 sample_static_mq"
    by (simp add: sample_static_mq_def mq_inv_def sample_mq_wf t)
  show "\<not> mq_has_msg 5 sample_static_mq" using mq_has_msg_iff [OF i] by (simp add: sample_static_mq_def sample_mq_wf)
  show "rt_object_is_systemobject (Obj 5) sample_static_mq" by (simp add: rt_object_is_systemobject_def ty rt_consts)
qed

theorem mq_detach_strands_receivers_witness:
  "\<exists>k1 k2. rt_mq_recv 5 4 (-1) sample_static_mq = Some (Waiting 1, k1) \<and> rt_mq_detach 5 k1 = Some (RT_EOK, k2)
    \<and> stat_of k2 1 = RT_THREAD_SUSPEND"
proof -
  note ok = sample_static_mq_ok
  obtain k1 where k1: "mq_recv_loop 5 4 (-1) (Some 1) sample_static_mq = Some (Waiting 1, k1)" "sys_inv k1" "mq_inv 5 k1" "same_ipc sample_static_mq k1"
    "now_waiting (Mq_recv_wait 5) (obj_flag (objects sample_static_mq (Obj 5))) (-1) 1 sample_static_mq k1"
    using mq_recv_waits [OF ok(1-3,5,6,8) _ _ ok(7), of "-1" 4] by auto
  have "rt_mq_recv 5 4 (-1) sample_static_mq = Some (Waiting 1, k1)"
    using k1(1) ok(2,5) by (simp add: rt_mq_recv_def mq_inv_def rt_thread_self_def)
  moreover have "rt_object_is_systemobject (Obj 5) k1" using ok(4) k1(4) by (simp add: rt_object_is_systemobject_def same_ipc_def)
  moreover have "1 \<in> set (on_tlist k1 (Mq_recv_wait 5))" using k1(5) by (simp add: now_waiting_def wait_order_set)
  ultimately show ?thesis using mq_detach_strands_receivers [OF k1(2,3), of 1] by blast
qed

end
