(* ===== verification/RT_Mempool.thy ===== *)
theory RT_Mempool
  imports RT_Ipc RT_Lifecycle
begin

text \<open>
  Memory pools, \<^verbatim>\<open>kernel/src/mempool.c\<close>.  A pool is cut into blocks of one size; the word in front of a block
  links it to the list of free blocks, or names the pool while the block is in use.  A thread that finds no free block
  waits; the waiting threads are counted in \<^verbatim>\<open>suspend_thread_count\<close>.
\<close>

section \<open>The code\<close>

text \<open>The loop that links all blocks, and the end of the list.  Without a block the last store is in front of the pool.\<close>

definition mp_link_blocks :: "nat \<Rightarrow> (nat \<Rightarrow> block_word) \<Rightarrow> (nat \<Rightarrow> block_word) option" where
  "mp_link_blocks n w =
     do { let w = fold (\<lambda>i w. w(i := Next_block (Some (Suc i)))) [0..<n] w;
          RT_ASSERT (0 < n);
          Some (w(n - 1 := Next_block None)) }"

text \<open>What \<^verbatim>\<open>rt_mp_init\<close> and \<^verbatim>\<open>rt_mp_create\<close> share, from the block counts on.\<close>

definition mp_setup :: "nat \<Rightarrow> rt_uint32_t \<Rightarrow> kernel \<Rightarrow> kernel option" where
  "mp_setup p n k =
     do { let k = upd_mp p (\<lambda>mp. mp\<lparr>mp_block_total_count := n, mp_block_free_count := n\<rparr>) k;
          k \<leftarrow> tlist_init_head (Mp_wait p) k;
          let k = upd_mp p (\<lambda>mp. mp\<lparr>mp_suspend_thread_count := 0\<rparr>) k;
          w \<leftarrow> mp_link_blocks (unat n) (mp_word (mempools k p));
          Some (upd_mp p (\<lambda>mp. mp\<lparr>mp_word := w, mp_block_list := Some 0\<rparr>) k) }"

text \<open>A block takes its size, rounded up, and the word in front; a sum of zero cannot divide.\<close>

definition rt_mp_init ::
    "nat \<Rightarrow> rt_uint8_t list \<Rightarrow> rt_uint32_t \<Rightarrow> rt_uint32_t \<Rightarrow> rt_uint32_t \<Rightarrow> kernel \<Rightarrow> (rt_err_t \<times> kernel) option" where
  "rt_mp_init p name start sz block_size k =
     do { k \<leftarrow> rt_object_init (Obj p) RT_Object_Class_MemPool name k;
          let k = upd_mp p (\<lambda>mp. mp\<lparr>mp_start_address := start, mp_size := RT_ALIGN_DOWN sz\<rparr>) k;
          let block_size = RT_ALIGN block_size;
          let k = upd_mp p (\<lambda>mp. mp\<lparr>mp_block_size := block_size\<rparr>) k;
          RT_ASSERT (block_size + 4 \<noteq> 0);
          k \<leftarrow> mp_setup p (mp_size (mempools k p) div (block_size + 4)) k;
          Some (RT_EOK, k) }"

text \<open>The loop that wakes the threads of a pool that goes away.\<close>

partial_function (option) mp_resume_all :: "nat \<Rightarrow> kernel \<Rightarrow> kernel option" where
  "mp_resume_all p k =
     (case on_tlist k (Mp_wait p) of
        [] \<Rightarrow> Some k
      | t # _ \<Rightarrow>
          do { (_, k) \<leftarrow> rt_thread_resume t (upd_thread t (\<lambda>th. th\<lparr>th_error := RT_ERROR\<rparr>) k);
               mp_resume_all p (upd_mp p (\<lambda>mp. mp\<lparr>mp_suspend_thread_count := mp_suspend_thread_count mp - 1\<rparr>) k) })"

declare mp_resume_all.simps [code]

definition rt_mp_detach :: "nat \<Rightarrow> kernel \<Rightarrow> (rt_err_t \<times> kernel) option" where
  "rt_mp_detach p k =
     do { RT_ASSERT (rt_object_get_type (Obj p) k = RT_Object_Class_MemPool);
          RT_ASSERT (rt_object_is_systemobject (Obj p) k);
          k \<leftarrow> mp_resume_all p k;
          Some (RT_EOK, rt_object_detach (Obj p) k) }"

text \<open>
  \<open>malloc n\<close> is the address of the \<open>n\<close> bytes the allocator gives.  The product of the size of a block and the number of
  blocks may wrap around; the blocks are then linked outside of the memory.
\<close>

definition rt_mp_create ::
    "rt_uint8_t list \<Rightarrow> rt_uint32_t \<Rightarrow> rt_uint32_t \<Rightarrow> nat option \<Rightarrow> (rt_uint32_t \<Rightarrow> rt_uint32_t option) \<Rightarrow> kernel \<Rightarrow>
      (nat option \<times> kernel) option" where
  "rt_mp_create name block_count block_size block malloc k =
     do { RT_DEBUG_NOT_IN_INTERRUPT k;
          (r, k) \<leftarrow> rt_object_allocate RT_Object_Class_MemPool name block k;
          case r of None \<Rightarrow> Some (None, k)
          | Some p \<Rightarrow>
              do { let block_size = RT_ALIGN block_size;
                   let k = upd_mp p (\<lambda>mp. mp\<lparr>mp_block_size := block_size, mp_size := (block_size + 4) * block_count\<rparr>) k;
                   case malloc ((block_size + 4) * block_count) of
                     None \<Rightarrow> do { k \<leftarrow> rt_object_delete (Obj p) k; Some (None, k) }
                   | Some start \<Rightarrow>
                       do { let k = upd_mp p (\<lambda>mp. mp\<lparr>mp_start_address := start\<rparr>) k;
                            RT_ASSERT ((unat block_size + 4) * unat block_count < 2 ^ 32);
                            k \<leftarrow> mp_setup p block_count k;
                            Some (Some p, k) } } }"

definition rt_mp_delete :: "nat \<Rightarrow> kernel \<Rightarrow> (rt_err_t \<times> kernel) option" where
  "rt_mp_delete p k =
     do { RT_DEBUG_NOT_IN_INTERRUPT k;
          RT_ASSERT (rt_object_get_type (Obj p) k = RT_Object_Class_MemPool);
          RT_ASSERT (\<not> rt_object_is_systemobject (Obj p) k);
          k \<leftarrow> mp_resume_all p k;
          let k = k\<lparr>freed_memory := mp_start_address (mempools k p) # freed_memory k\<rparr>;
          k \<leftarrow> rt_object_delete (Obj p) k;
          Some (RT_EOK, k) }"

text \<open>Taking the first free block; the word of a block on the list is a link.\<close>

definition mp_take :: "nat \<Rightarrow> rt_mempool \<Rightarrow> (nat \<times> rt_mempool) option" where
  "mp_take p mp =
     do { let mp = mp\<lparr>mp_block_free_count := mp_block_free_count mp - 1\<rparr>;
          i \<leftarrow> mp_block_list mp;
          n \<leftarrow> (case mp_word mp i of Next_block n \<Rightarrow> Some n | Pool _ \<Rightarrow> None);
          Some (i, mp\<lparr>mp_block_list := n, mp_word := (mp_word mp)(i := Pool p)\<rparr>) }"

text \<open>The wait for a block: the thread is put in front of the threads that already wait.\<close>

definition mp_wait :: "nat \<Rightarrow> tid \<Rightarrow> 32 word \<Rightarrow> kernel \<Rightarrow> kernel option" where
  "mp_wait p t time k =
     do { (_, k) \<leftarrow> rt_thread_suspend t k;
          k \<leftarrow> tlist_push (Mp_wait p) t k;
          let k = upd_mp p (\<lambda>mp. mp\<lparr>mp_suspend_thread_count := mp_suspend_thread_count mp + 1\<rparr>) k;
          sleep_on t time k }"

text \<open>\<^verbatim>\<open>rt_mp_alloc\<close> from the head of its loop on; \<open>self\<close> is the local variable \<^verbatim>\<open>thread\<close>.  The result is a block or no block.\<close>

definition mp_alloc_loop :: "nat \<Rightarrow> 32 word \<Rightarrow> tid option \<Rightarrow> kernel \<Rightarrow> (nat option outcome \<times> kernel) option" where
  "mp_alloc_loop p time self k =
     (if mp_block_free_count (mempools k p) = 0 then
        if time = 0 then Some (Finished None, rt_set_errno RT_ETIMEOUT k)
        else do {
          RT_DEBUG_NOT_IN_INTERRUPT k;
          t \<leftarrow> self;
          k \<leftarrow> mp_wait p t time (upd_thread t (\<lambda>th. th\<lparr>th_error := RT_EOK\<rparr>) k);
          Some (Waiting t, k) }
      else
        do { (i, mp) \<leftarrow> mp_take p (mempools k p);
             Some (Finished (Some i), upd_mp p (\<lambda>_. mp) k) })"

definition rt_mp_alloc :: "nat \<Rightarrow> 32 word \<Rightarrow> kernel \<Rightarrow> (nat option outcome \<times> kernel) option" where
  "rt_mp_alloc p time k = mp_alloc_loop p time (rt_thread_self k) k"

definition rt_mp_alloc_back :: "nat \<Rightarrow> 32 word \<Rightarrow> rt_tick_t \<Rightarrow> tid \<Rightarrow> kernel \<Rightarrow> (nat option outcome \<times> kernel) option" where
  "rt_mp_alloc_back p time before_sleep t k =
     (if th_error (threads k t) \<noteq> RT_EOK then Some (Finished None, k)
      else mp_alloc_loop p (rest_timeout time before_sleep k) (Some t) k)"

text \<open>Linking a block to the front of the free list.\<close>

definition mp_give :: "nat \<Rightarrow> rt_mempool \<Rightarrow> rt_mempool" where
  "mp_give i mp = mp\<lparr>mp_block_free_count := mp_block_free_count mp + 1,
     mp_word := (mp_word mp)(i := Next_block (mp_block_list mp)), mp_block_list := Some i\<rparr>"

text \<open>
  \<open>rt_mp_free p i\<close> is the call on block \<open>i\<close> of the memory of \<open>p\<close>.  The word in front of the block has to name the
  pool; a link read as a pool, or the entry of an empty list read as a thread, has no meaning.
\<close>

definition rt_mp_free :: "nat \<Rightarrow> nat \<Rightarrow> kernel \<Rightarrow> kernel option" where
  "rt_mp_free p i k =
     do { RT_ASSERT (mp_word (mempools k p) i = Pool p);
          let k = upd_mp p (mp_give i) k;
          if 0 < mp_suspend_thread_count (mempools k p) then
            case on_tlist k (Mp_wait p) of [] \<Rightarrow> None
            | t # _ \<Rightarrow>
                do { (_, k) \<leftarrow> rt_thread_resume t (upd_thread t (\<lambda>th. th\<lparr>th_error := RT_EOK\<rparr>) k);
                     rt_schedule (upd_mp p (\<lambda>mp. mp\<lparr>mp_suspend_thread_count := mp_suspend_thread_count mp - 1\<rparr>) k) }
          else Some k }"

text \<open>The address handed out for a block.\<close>

definition mp_block_address :: "rt_mempool \<Rightarrow> nat \<Rightarrow> rt_uint32_t" where
  "mp_block_address mp i = mp_start_address mp + of_nat i * (mp_block_size mp + 4) + 4"

section \<open>The free blocks\<close>

fun mp_path :: "(nat \<Rightarrow> block_word) \<Rightarrow> nat option \<Rightarrow> nat list \<Rightarrow> bool" where
  "mp_path w b [] \<longleftrightarrow> b = None"
| "mp_path w b (i # is) \<longleftrightarrow> b = Some i \<and> (case w i of Next_block n \<Rightarrow> mp_path w n is | Pool _ \<Rightarrow> False)"

lemma mp_path_upd [simp]: "i \<notin> set is \<Longrightarrow> mp_path (w(i := x)) b is = mp_path w b is"
  by (induction "is" arbitrary: b) (auto split: block_word.splits)

lemma mp_path_None [simp]: "mp_path w None is \<longleftrightarrow> is = []"
  by (cases "is") auto

text \<open>The blocks on the free list of a pool, read off with a bound on their number, and the blocks in use.\<close>

fun mp_chain :: "nat \<Rightarrow> (nat \<Rightarrow> block_word) \<Rightarrow> nat option \<Rightarrow> nat list" where
  "mp_chain 0 w b = []"
| "mp_chain (Suc n) w b =
     (case b of None \<Rightarrow> [] | Some i \<Rightarrow> i # (case w i of Next_block m \<Rightarrow> mp_chain n w m | Pool _ \<Rightarrow> []))"

lemma mp_chain_path: "mp_path w b is \<Longrightarrow> length is \<le> n \<Longrightarrow> mp_chain n w b = is"
proof (induction "is" arbitrary: b n)
  case Nil
  then show ?case by (cases n) auto
next
  case (Cons i "is")
  then show ?case by (cases n) (auto split: block_word.splits)
qed

definition mp_free_blocks :: "rt_mempool \<Rightarrow> nat list" where
  "mp_free_blocks mp = mp_chain (unat (mp_block_total_count mp)) (mp_word mp) (mp_block_list mp)"

definition mp_used :: "rt_mempool \<Rightarrow> nat set" where
  "mp_used mp = {..<unat (mp_block_total_count mp)} - set (mp_free_blocks mp)"

definition mp_rel :: "nat \<Rightarrow> rt_mempool \<Rightarrow> nat list \<Rightarrow> bool" where
  "mp_rel p mp fs \<longleftrightarrow> mp_path (mp_word mp) (mp_block_list mp) fs \<and> distinct fs \<and> set fs \<subseteq> {..<unat (mp_block_total_count mp)}
     \<and> unat (mp_block_free_count mp) = length fs
     \<and> (\<forall>i<unat (mp_block_total_count mp). i \<notin> set fs \<longrightarrow> mp_word mp i = Pool p)"

text \<open>A pool in order: a free list of different blocks as long as the count says, and the name of the pool in front of every other block.\<close>

definition mp_ok :: "nat \<Rightarrow> rt_mempool \<Rightarrow> bool" where
  "mp_ok p mp \<longleftrightarrow> mp_rel p mp (mp_free_blocks mp)"

lemma mp_rel_length:
  assumes "mp_rel p mp fs"
  shows "length fs \<le> unat (mp_block_total_count mp)"
proof -
  have "card (set fs) \<le> card {..<unat (mp_block_total_count mp)}" using assms by (intro card_mono) (simp_all add: mp_rel_def)
  then show ?thesis using assms by (simp add: mp_rel_def distinct_card)
qed

lemma mp_relD:
  assumes "mp_rel p mp fs"
  shows "mp_free_blocks mp = fs" "mp_ok p mp"
  using assms mp_chain_path [OF _ mp_rel_length [OF assms]] by (simp_all add: mp_ok_def mp_free_blocks_def mp_rel_def)

lemma mp_used_word: "mp_ok p mp \<Longrightarrow> i \<in> mp_used mp \<Longrightarrow> mp_word mp i = Pool p"
  by (simp add: mp_ok_def mp_rel_def mp_used_def)

lemma mp_path_free: "mp_path w b is \<Longrightarrow> i \<in> set is \<Longrightarrow> \<exists>n. w i = Next_block n"
  by (induction "is" arbitrary: b) (auto split: block_word.splits)

lemma mp_path_links:
  "m \<le> n \<Longrightarrow> (\<forall>i. m \<le> i \<and> i < n \<longrightarrow> w i = Next_block (if Suc i = n then None else Some (Suc i)))
    \<Longrightarrow> mp_path w (if m = n then None else Some m) [m..<n]"
proof (induction "n - m" arbitrary: m)
  case (Suc j)
  then have "m < n" by simp
  then have "[m..<n] = m # [Suc m..<n]" by (simp add: upt_conv_Cons)
  moreover have "mp_path w (if Suc m = n then None else Some (Suc m)) [Suc m..<n]" using Suc by (intro Suc.hyps) auto
  ultimately show ?case using Suc.prems \<open>m < n\<close> by (auto split: if_splits)
qed simp

lemma mp_link_blocks_ok:
  assumes "0 < n"
  shows "\<exists>w'. mp_link_blocks n w = Some w' \<and> mp_path w' (Some 0) [0..<n]"
proof -
  define w1 where "w1 = fold (\<lambda>i w. w(i := Next_block (Some (Suc i)))) [0..<n] w"
  have "fold (\<lambda>i w. w(i := Next_block (Some (Suc i)))) [0..<j] w i = (if i < j then Next_block (Some (Suc i)) else w i)" for i j
    by (induction j) auto
  then have "\<forall>i. i < n \<longrightarrow> w1 i = Next_block (Some (Suc i))" by (simp add: w1_def)
  then have "mp_path (w1(n - 1 := Next_block None)) (if 0 = n then None else Some 0) [0..<n]"
    using assms by (intro mp_path_links) auto
  then show ?thesis using assms by (simp add: mp_link_blocks_def w1_def [symmetric])
qed

lemma mp_take_ok:
  assumes r: "mp_rel p mp (i # fs)"
  shows "\<exists>mp'. mp_take p mp = Some (i, mp') \<and> mp_rel p mp' fs \<and> mp_block_total_count mp' = mp_block_total_count mp
    \<and> mp_suspend_thread_count mp' = mp_suspend_thread_count mp
    \<and> mp' = mp\<lparr>mp_block_free_count := mp_block_free_count mp - 1, mp_block_list := mp_block_list mp',
                 mp_word := (mp_word mp)(i := Pool p)\<rparr> \<and> mp_word mp i = Next_block (mp_block_list mp')"
proof -
  obtain n where n: "mp_word mp i = Next_block n" "mp_path (mp_word mp) n fs" using r by (auto simp: mp_rel_def split: block_word.splits)
  have u: "unat (mp_block_free_count mp) = Suc (length fs)" using r by (simp add: mp_rel_def)
  then have "unat (mp_block_free_count mp - 1) = length fs" by (metis diff_Suc_1 nat.distinct(1) unat_minus_one unsigned_0)
  then show ?thesis using r n by (auto simp: mp_take_def mp_rel_def)
qed

lemma mp_give_ok:
  assumes r: "mp_rel p mp fs" and i: "i < unat (mp_block_total_count mp)" "i \<notin> set fs"
  shows "mp_rel p (mp_give i mp) (i # fs)"
proof -
  have "set (i # fs) \<subseteq> {..<unat (mp_block_total_count mp)}" "distinct (i # fs)" using r i by (auto simp: mp_rel_def)
  moreover from this have "length (i # fs) \<le> unat (mp_block_total_count mp)"
    using card_mono [of "{..<unat (mp_block_total_count mp)}" "set (i # fs)"] by (simp add: distinct_card)
  then have "unat (mp_block_free_count mp + 1) = length (i # fs)"
    using r unsigned_less [where 'a = nat and w = "mp_block_total_count mp"] by (simp add: mp_rel_def unat_word_ariths)
  ultimately show ?thesis using r i by (auto simp: mp_rel_def mp_give_def)
qed

section \<open>The services\<close>

text \<open>The pool is in order and the threads that wait are counted.\<close>

definition mp_inv :: "nat \<Rightarrow> kernel \<Rightarrow> bool" where
  "mp_inv p k \<longleftrightarrow> rt_object_get_type (Obj p) k = RT_Object_Class_MemPool \<and> mp_ok p (mempools k p)
     \<and> unat (mp_suspend_thread_count (mempools k p)) = length (on_tlist k (Mp_wait p))"

lemma mp_inv_rel: "mp_inv p k \<Longrightarrow> mp_rel p (mempools k p) (mp_free_blocks (mempools k p))"
  by (simp add: mp_inv_def mp_ok_def)

lemma mp_inv_upd:
  assumes "mp_inv p k" and "mp_rel p mp fs" and "mp_suspend_thread_count mp = mp_suspend_thread_count (mempools k p)"
  shows "mp_inv p (upd_mp p (\<lambda>_. mp) k)"
  using assms mp_relD(2) [OF assms(2)] by (simp add: mp_inv_def)

lemma mp_ok_count [simp]: "mp_ok p (mp\<lparr>mp_suspend_thread_count := n\<rparr>) = mp_ok p mp"
    "mp_free_blocks (mp\<lparr>mp_suspend_thread_count := n\<rparr>) = mp_free_blocks mp"
  by (simp_all add: mp_ok_def mp_rel_def mp_free_blocks_def)

lemma mp_none_free: "mp_inv p k \<Longrightarrow> mp_block_free_count (mempools k p) = 0 \<longleftrightarrow> mp_free_blocks (mempools k p) = []"
  using mp_inv_rel [of p k] by (auto simp: mp_rel_def unat_eq_0)

lemma mp_alloc_takes:
  assumes inv: "mp_inv p k" and fs: "mp_free_blocks (mempools k p) = i # fs"
  shows "\<exists>mp. rt_mp_alloc p time k = Some (Finished (Some i), upd_mp p (\<lambda>_. mp) k) \<and> mp_inv p (upd_mp p (\<lambda>_. mp) k)
    \<and> mp_rel p mp fs \<and> mp_used mp = insert i (mp_used (mempools k p)) \<and> i \<notin> mp_used (mempools k p)
    \<and> i < unat (mp_block_total_count mp) \<and> mp_give i mp = mempools k p"
proof -
  let ?mp = "mempools k p"
  have r: "mp_rel p ?mp (i # fs)" using mp_inv_rel [OF inv] fs by simp
  obtain mp where mp: "mp_take p ?mp = Some (i, mp)" "mp_rel p mp fs" "mp_block_total_count mp = mp_block_total_count ?mp"
    "mp_suspend_thread_count mp = mp_suspend_thread_count ?mp" and eq: "mp = ?mp\<lparr>mp_block_free_count := mp_block_free_count ?mp - 1,
      mp_block_list := mp_block_list mp, mp_word := (mp_word ?mp)(i := Pool p)\<rparr>" "mp_word ?mp i = Next_block (mp_block_list mp)"
    using mp_take_ok [OF r] by auto
  have "rt_mp_alloc p time k = Some (Finished (Some i), upd_mp p (\<lambda>_. mp) k)"
    using mp_none_free [OF inv] fs mp(1) by (simp add: rt_mp_alloc_def mp_alloc_loop_def)
  moreover have i: "i < unat (mp_block_total_count ?mp)" "i \<notin> set fs" using r by (auto simp: mp_rel_def)
  moreover have "mp_used mp = insert i (mp_used ?mp)" "i \<notin> mp_used ?mp"
    using i mp(3) mp_relD(1) [OF mp(2)] fs by (auto simp: mp_used_def)
  moreover have "mp_block_list ?mp = Some i" using r by (simp add: mp_rel_def)
  then have "mp_give i mp = ?mp" using eq(2) by (subst eq(1)) (auto intro!: rt_mempool.equality simp: mp_give_def fun_upd_idem)
  ultimately show ?thesis using mp mp_inv_upd [OF inv mp(2,4)] by (intro exI [of _ mp]) simp
qed

lemma set_errno_frame:
  "sys_inv k \<Longrightarrow> sys_inv (rt_set_errno e k)" "same_ipc k (rt_set_errno e k)" "on_tlist (rt_set_errno e k) = on_tlist k"
  "rt_current_thread (rt_set_errno e k) = rt_current_thread k" "rt_get_errno (rt_set_errno e k) = e"
  "stat_of (rt_set_errno e k) = stat_of k"
proof -
  have "sys_inv k \<Longrightarrow> sys_inv (k\<lparr>rt_errno := e\<rparr>)" by (rule sys_inv_cong [of _ k]) (simp_all add: sched_view_def sys_invD(8))
  then show "sys_inv k \<Longrightarrow> sys_inv (rt_set_errno e k)" by (simp add: rt_set_errno_def sys_inv_upd_error split: option.splits)
qed (simp_all add: rt_set_errno_def rt_get_errno_def rt_thread_self_def rt_interrupt_get_nest_def same_ipc_def on_tlist_def stat_of_def
     upd_defs fun_eq_iff split: option.splits)

lemma mp_wait_ok:
  assumes inv: "sys_inv k" and mp: "mp_inv p k" and c: "mp_suspend_thread_count (mempools k p) \<noteq> -1"
    and st: "stat_of k t = RT_THREAD_READY" and time: "time \<noteq> 0x7fffffff" and u: "stat_of k u = RT_THREAD_READY" "u \<noteq> t"
  shows "\<exists>k'. mp_wait p t time (upd_thread t (\<lambda>th. th\<lparr>th_error := RT_EOK\<rparr>) k) = Some k' \<and> sys_inv k' \<and> mp_inv p k'
    \<and> mempools k' p = (mempools k p)\<lparr>mp_suspend_thread_count := mp_suspend_thread_count (mempools k p) + 1\<rparr>
    \<and> stat_of k' t = RT_THREAD_SUSPEND \<and> th_error (threads k' t) = RT_EOK \<and> (\<forall>v. v \<noteq> t \<longrightarrow> threads k' v = threads k v)
    \<and> on_tlist k' (Mp_wait p) = t # on_tlist k (Mp_wait p)
    \<and> (\<forall>q'. is_wait_list q' \<and> q' \<noteq> Mp_wait p \<longrightarrow> on_tlist k' q' = on_tlist k q')
    \<and> (\<forall>n. objects k' (Obj n) = objects k (Obj n))
    \<and> (home (timer_lists k') (Thread_timer t) \<noteq> None \<longleftrightarrow> 0 < sint time)
    \<and> (rt_scheduler_lock_nest k = 0 \<longrightarrow> (\<exists>v. rt_current_thread k' = Some v \<and> first_ready k' v))"
proof -
  define K where "K = upd_thread t (\<lambda>th. th\<lparr>th_error := RT_EOK\<rparr>) k"
  have K: "sys_inv K" "same_ipc k K" "stat_of K = stat_of k" "on_tlist K = on_tlist k" "threads K = (threads k)(t := (threads k t)\<lparr>th_error := RT_EOK\<rparr>)"
    using inv sys_inv_upd_error by (simp_all add: K_def)
  have q: "is_wait_list (Mp_wait p)" and st': "stat_of K t = RT_THREAD_READY" using st K(3) by simp_all
  obtain k1 k2 where k1: "rt_thread_suspend t K = Some (RT_EOK, k1)" "tlist_insert_at (Mp_wait p) 0 t k1 = Some k2"
    and k2: "sys_inv k2" "same_ipc K k2" "threads k2 = (threads K)(t := set_stat RT_THREAD_SUSPEND (threads K t))"
    "on_tlist k2 (Mp_wait p) = take 0 (on_tlist K (Mp_wait p)) @ t # drop 0 (on_tlist K (Mp_wait p))"
    "\<forall>q'. is_wait_list q' \<and> q' \<noteq> Mp_wait p \<longrightarrow> on_tlist k2 q' = on_tlist K q'" "timer_off t K k2"
    using suspend_insert_at [OF K(1) st' q, of 0] by blast
  have push: "tlist_push (Mp_wait p) t k1 = Some k2" using k1(2) by (simp add: tlist_push_def tlist_insert_at_def ls_push_def)
  define k3 where "k3 = upd_mp p (\<lambda>mp. mp\<lparr>mp_suspend_thread_count := mp_suspend_thread_count mp + 1\<rparr>) k2"
  have k3: "sys_inv k3" "threads k3 = threads k2" "on_tlist k3 = on_tlist k2" "timer_lists k3 = timer_lists k2" "stat_of k3 = stat_of k2"
    using k2(1) by (simp_all add: k3_def)
  have st3: "stat_of k3 t = RT_THREAD_SUSPEND" "stat_of k3 u = RT_THREAD_READY"
    using stat_after [OF k2(3)] u K(3) k3(5) by simp_all
  have un: "home (timer_lists k3) (Thread_timer t) = None" using k2(6) k3(4) by (simp add: timer_off_def)
  have lck: "rt_scheduler_lock_nest k3 = rt_scheduler_lock_nest k" using k2(2) K(2) by (simp add: k3_def same_ipc_def)
  obtain k4 where k4: "sleep_on t time k3 = Some k4" "sys_inv k4" "same_ipc k3 k4" "threads k4 = threads k3" "on_tlist k4 = on_tlist k3"
    "if 0 < sint time then home (timer_lists k4) (Thread_timer t) = Some Hard_timers
          \<and> tm_timeout_tick (timers k4 (Thread_timer t)) = rt_tick k3 + time
        else home (timer_lists k4) (Thread_timer t) = None"
    "if rt_scheduler_lock_nest k = 0 then \<exists>v. rt_current_thread k4 = Some v \<and> first_ready k4 v
        else rt_current_thread k4 = rt_current_thread k3"
    using sys_sleep [OF k3(1) st3(1) un time st3(2), unfolded lck] by blast
  have m4: "mempools k4 p = (mempools k p)\<lparr>mp_suspend_thread_count := mp_suspend_thread_count (mempools k p) + 1\<rparr>"
    using k4(3) k2(2) K(2) by (simp add: same_ipc_def k3_def)
  have "unat (mp_suspend_thread_count (mempools k p) + 1) = Suc (unat (mp_suspend_thread_count (mempools k p)))"
    using c by (metis add.commute add_eq_0_iff2 unatSuc)
  then have "mp_inv p k4" using mp m4 k4(3,5) k3(3) k2(2,4) K(2,4) by (simp add: mp_inv_def same_ipc_def rt_object_get_type_def k3_def)
  moreover have "\<forall>n. objects k4 (Obj n) = objects k (Obj n)" using k4(3) k2(2) K(2) by (simp add: same_ipc_def k3_def)
  moreover have "mp_wait p t time K = Some k4" using k1(1) push k4(1) by (simp add: mp_wait_def k3_def)
  moreover have "stat_of k4 t = RT_THREAD_SUSPEND" using st3(1) k4(4) by (simp add: stat_of_def)
  moreover have "th_error (threads k4 t) = RT_EOK" "\<forall>v. v \<noteq> t \<longrightarrow> threads k4 v = threads k v"
    using k4(4) k3(2) k2(3) K(5) by (simp_all add: set_stat_def)
  moreover have "on_tlist k4 (Mp_wait p) = t # on_tlist k (Mp_wait p)"
    "\<forall>q'. is_wait_list q' \<and> q' \<noteq> Mp_wait p \<longrightarrow> on_tlist k4 q' = on_tlist k q'"
    using k4(5) k3(3) k2(4,5) K(4) by simp_all
  ultimately show ?thesis using k4(2,6,7) m4 unfolding K_def by (intro exI [of _ k4]) (auto split: if_splits)
qed

lemma mp_free_gives:
  assumes inv: "sys_inv k" and mp: "mp_inv p k" and i: "i \<in> mp_used (mempools k p)" and l: "on_tlist k (Mp_wait p) = []"
  shows "rt_mp_free p i k = Some (upd_mp p (mp_give i) k)" "sys_inv (upd_mp p (mp_give i) k)" "mp_inv p (upd_mp p (mp_give i) k)"
    "mp_used (mp_give i (mempools k p)) = mp_used (mempools k p) - {i}"
proof -
  let ?mp = "mempools k p"
  have "mp_word ?mp i = Pool p" using mp i mp_used_word by (simp add: mp_inv_def)
  moreover have "mp_suspend_thread_count ?mp = 0" using mp l by (simp add: mp_inv_def unat_eq_0)
  ultimately show "rt_mp_free p i k = Some (upd_mp p (mp_give i) k)"
    by (simp add: rt_mp_free_def) (simp add: mp_give_def upd_mp_def)
  have i': "i < unat (mp_block_total_count ?mp)" "i \<notin> set (mp_free_blocks ?mp)" using i by (simp_all add: mp_used_def)
  have r: "mp_rel p (mp_give i ?mp) (i # mp_free_blocks ?mp)" using mp_give_ok [OF mp_inv_rel [OF mp] i'] .
  show "sys_inv (upd_mp p (mp_give i) k)" using inv by simp
  have "mp_suspend_thread_count (mp_give i ?mp) = mp_suspend_thread_count ?mp" by (simp add: mp_give_def)
  then show "mp_inv p (upd_mp p (mp_give i) k)" using mp_inv_upd [OF mp r] by (simp add: upd_mp_def)
  show "mp_used (mp_give i ?mp) = mp_used ?mp - {i}" using mp_relD(1) [OF r] by (auto simp: mp_used_def mp_give_def)
qed

lemma mp_free_wakes:
  assumes inv: "sys_inv k" and mp: "mp_inv p k" and i: "i \<in> mp_used (mempools k p)" and l: "on_tlist k (Mp_wait p) = t # ts"
  shows "\<exists>k'. rt_mp_free p i k = Some k' \<and> sys_inv k' \<and> mp_inv p k' \<and> mp_used (mempools k' p) = mp_used (mempools k p) - {i}
    \<and> mp_free_blocks (mempools k' p) = i # mp_free_blocks (mempools k p)
    \<and> stat_of k' t = RT_THREAD_READY \<and> th_error (threads k' t) = RT_EOK \<and> (\<forall>v. v \<noteq> t \<longrightarrow> threads k' v = threads k v)
    \<and> on_tlist k' (Mp_wait p) = ts \<and> (\<forall>q'. is_wait_list q' \<and> q' \<noteq> Mp_wait p \<longrightarrow> on_tlist k' q' = on_tlist k q')
    \<and> home (timer_lists k') (Thread_timer t) = None
    \<and> (rt_scheduler_lock_nest k = 0 \<longrightarrow> (\<exists>v. rt_current_thread k' = Some v \<and> first_ready k' v))"
proof -
  let ?mp = "mempools k p"
  have w: "mp_word ?mp i = Pool p" using mp i mp_used_word by (simp add: mp_inv_def)
  have i': "i < unat (mp_block_total_count ?mp)" "i \<notin> set (mp_free_blocks ?mp)" using i by (simp_all add: mp_used_def)
  have r: "mp_rel p (mp_give i ?mp) (i # mp_free_blocks ?mp)" using mp_give_ok [OF mp_inv_rel [OF mp] i'] .
  have n: "unat (mp_suspend_thread_count ?mp) = Suc (length ts)" using mp l by (simp add: mp_inv_def)
  then have z: "mp_suspend_thread_count ?mp \<noteq> 0" by (metis nat.distinct(1) unsigned_0)
  define K where "K = upd_thread t (\<lambda>th. th\<lparr>th_error := RT_EOK\<rparr>) (upd_mp p (mp_give i) k)"
  have K: "sys_inv K" "on_tlist K = on_tlist k" "mempools K p = mp_give i ?mp" "\<forall>n. objects K (Obj n) = objects k (Obj n)"
    "threads K = (threads k)(t := (threads k t)\<lparr>th_error := RT_EOK\<rparr>)" "rt_scheduler_lock_nest K = rt_scheduler_lock_nest k"
    using inv by (simp_all add: K_def sys_inv_upd_error)
  have q: "is_wait_list (Mp_wait p)" and l': "on_tlist K (Mp_wait p) = t # ts" using l K(2) by simp_all
  obtain k1 where k1: "rt_thread_resume t K = Some (RT_EOK, k1)" "sys_inv k1" "same_ipc K k1"
    "threads k1 = (threads K)(t := set_stat RT_THREAD_READY (threads K t))" "on_tlist k1 (Mp_wait p) = ts"
    "\<forall>q'. is_wait_list q' \<and> q' \<noteq> Mp_wait p \<longrightarrow> on_tlist k1 q' = on_tlist K q'"
    "home (timer_lists k1) (Thread_timer t) = None"
    using ipc_list_resume [OF K(1) q l'] by blast
  define k2 where "k2 = upd_mp p (\<lambda>mp. mp\<lparr>mp_suspend_thread_count := mp_suspend_thread_count mp - 1\<rparr>) k1"
  have k2: "sys_inv k2" "threads k2 = threads k1" "on_tlist k2 = on_tlist k1" "timer_lists k2 = timer_lists k1" "stat_of k2 = stat_of k1"
    "rt_scheduler_lock_nest k2 = rt_scheduler_lock_nest k"
    "mempools k2 p = (mp_give i ?mp)\<lparr>mp_suspend_thread_count := mp_suspend_thread_count ?mp - 1\<rparr>" "\<forall>n. objects k2 (Obj n) = objects k (Obj n)"
    using k1(2,3) K(3,4,6) by (simp_all add: k2_def same_ipc_def mp_give_def)
  have st: "stat_of k2 t = RT_THREAD_READY" using stat_after(1) [OF k1(4)] k2(5) by simp
  obtain k3 where k3: "rt_schedule k2 = Some k3" "sys_inv k3" "same_ipc k2 k3" "threads k3 = threads k2" "tlists k3 = tlists k2"
    "timer_lists k3 = timer_lists k2" "objects k3 = objects k2"
    "if rt_scheduler_lock_nest k2 = 0 then \<exists>v. rt_current_thread k3 = Some v \<and> first_ready k3 v else k3 = k2"
    using sys_schedule [OF k2(1) st] by blast
  have m3: "mempools k3 p = (mp_give i ?mp)\<lparr>mp_suspend_thread_count := mp_suspend_thread_count ?mp - 1\<rparr>"
    using k3(3) k2(7) by (simp add: same_ipc_def)
  have o: "on_tlist k3 = on_tlist k1" using k3(5) k2(3) by (simp add: on_tlist_def fun_eq_iff)
  have n1: "unat (mp_suspend_thread_count ?mp - 1) = length ts" using n z by (simp add: unat_minus_one)
  have "rt_object_get_type (Obj p) k3 = RT_Object_Class_MemPool" using mp k3(7) k2(8) by (simp add: mp_inv_def rt_object_get_type_def)
  then have "mp_inv p k3" using m3 o k1(5) mp_relD(2) [OF r] n1 by (simp add: mp_inv_def)
  moreover have "rt_mp_free p i k = Some k3"
    using w z l k1(1) k3(1) by (simp add: rt_mp_free_def K_def k2_def word_gt_0) (simp add: mp_give_def)
  moreover have "mp_used (mempools k3 p) = mp_used ?mp - {i}" "mp_free_blocks (mempools k3 p) = i # mp_free_blocks ?mp"
    using mp_relD(1) [OF r] m3 by (auto simp: mp_used_def mp_give_def)
  moreover have "stat_of k3 t = RT_THREAD_READY" using st k3(4) by (simp add: stat_of_def)
  moreover have "th_error (threads k3 t) = RT_EOK" "\<forall>v. v \<noteq> t \<longrightarrow> threads k3 v = threads k v"
    using k3(4) k2(2) k1(4) K(5) by (simp_all add: set_stat_def)
  ultimately show ?thesis using k1(5-7) K(2) o k2(4,6) k3(2,6,8) by (intro exI [of _ k3]) simp
qed

text \<open>The list of a pool that goes away is emptied; everybody on it returns without a block.\<close>

lemma mp_resume_all_ok:
  "sys_inv k \<Longrightarrow> on_tlist k (Mp_wait p) = ts \<Longrightarrow>
    \<exists>k'. mp_resume_all p k = Some k' \<and> sys_inv k' \<and> on_tlist k' (Mp_wait p) = [] \<and> (\<forall>n. objects k' (Obj n) = objects k (Obj n))
      \<and> mp_suspend_thread_count (mempools k' p) = mp_suspend_thread_count (mempools k p) - of_nat (length ts)
      \<and> mp_start_address (mempools k' p) = mp_start_address (mempools k p) \<and> freed_memory k' = freed_memory k
      \<and> (\<forall>q'. is_wait_list q' \<and> q' \<noteq> Mp_wait p \<longrightarrow> on_tlist k' q' = on_tlist k q')
      \<and> (\<forall>t\<in>set ts. stat_of k' t = RT_THREAD_READY \<and> th_error (threads k' t) = RT_ERROR)
      \<and> (\<forall>t. t \<notin> set ts \<longrightarrow> threads k' t = threads k t)"
proof (induction ts arbitrary: k)
  case Nil
  then show ?case by (subst mp_resume_all.simps) simp
next
  case (Cons t ts)
  let ?k0 = "upd_thread t (\<lambda>th. th\<lparr>th_error := RT_ERROR\<rparr>) k"
  have inv0: "sys_inv ?k0" using Cons.prems(1) by (rule sys_inv_upd_error)
  have l0: "on_tlist ?k0 (Mp_wait p) = t # ts" and q: "is_wait_list (Mp_wait p)" using Cons.prems(2) by simp_all
  obtain k1 where k1: "rt_thread_resume t ?k0 = Some (RT_EOK, k1)" "sys_inv k1" "same_ipc ?k0 k1"
    "threads k1 = (threads ?k0)(t := set_stat RT_THREAD_READY (threads ?k0 t))"
    "on_tlist k1 (Mp_wait p) = ts" "\<forall>q'. is_wait_list q' \<and> q' \<noteq> Mp_wait p \<longrightarrow> on_tlist k1 q' = on_tlist ?k0 q'"
    using ipc_list_resume [OF inv0 q l0] by blast
  have f1: "freed_memory k1 = freed_memory k" "\<forall>n. objects k1 (Obj n) = objects k (Obj n)" "mempools k1 = mempools k"
    using k1(3) by (simp_all add: same_ipc_def)
  define k2 where "k2 = upd_mp p (\<lambda>mp. mp\<lparr>mp_suspend_thread_count := mp_suspend_thread_count mp - 1\<rparr>) k1"
  have k2: "sys_inv k2" "on_tlist k2 = on_tlist k1" "threads k2 = threads k1" "objects k2 = objects k1" "freed_memory k2 = freed_memory k1"
    using k1(2) by (simp_all add: k2_def) (simp_all add: upd_mp_def)
  obtain k' where k': "mp_resume_all p k2 = Some k'" "sys_inv k'" "on_tlist k' (Mp_wait p) = []" "\<forall>n. objects k' (Obj n) = objects k2 (Obj n)"
    "mp_suspend_thread_count (mempools k' p) = mp_suspend_thread_count (mempools k2 p) - of_nat (length ts)"
    "mp_start_address (mempools k' p) = mp_start_address (mempools k2 p)" "freed_memory k' = freed_memory k2"
    "\<forall>q'. is_wait_list q' \<and> q' \<noteq> Mp_wait p \<longrightarrow> on_tlist k' q' = on_tlist k2 q'"
    "\<forall>t\<in>set ts. stat_of k' t = RT_THREAD_READY \<and> th_error (threads k' t) = RT_ERROR"
    "\<forall>t. t \<notin> set ts \<longrightarrow> threads k' t = threads k2 t"
    using Cons.IH [of k2] k2(1,2) k1(5) by auto
  have "t \<notin> set ts" using wait_list_distinct [OF sys_invD(5) [OF Cons.prems(1)], of "Mp_wait p"] Cons.prems(2) by simp
  then have "threads k' t = set_stat RT_THREAD_READY ((threads k t)\<lparr>th_error := RT_ERROR\<rparr>)" using k'(10) k1(4) k2(3) by simp
  then have "stat_of k' t = RT_THREAD_READY \<and> th_error (threads k' t) = RT_ERROR" by (simp add: stat_of_def set_stat_masked)
  moreover have "mp_resume_all p k = Some k'"
    using Cons.prems(2) k1(1) k'(1) by (subst mp_resume_all.simps) (simp add: k2_def)
  moreover have "\<forall>u. u \<notin> set (t # ts) \<longrightarrow> threads k' u = threads k u" using k'(10) k1(4) k2(3) by simp
  moreover have "mp_suspend_thread_count (mempools k2 p) = mp_suspend_thread_count (mempools k p) - 1"
    "mp_start_address (mempools k2 p) = mp_start_address (mempools k p)"
    using f1 by (simp_all add: k2_def)
  ultimately show ?case using k1(6) k' f1 k2 by (intro exI [of _ k']) simp
qed

section \<open>Setting up and taking down\<close>

lemma object_init_state:
  assumes "sys_inv k" "object_inv k" "settled k" and f: "fresh h k" and c: "c \<in> set rt_object_container"
    and nm: "rt_strncpy name RT_NAME_MAX = Some nm"
  shows "rt_object_init h c name k = Some (k\<lparr>objects := (objects k)(h := (objects k h)\<lparr>obj_type := c OR RT_Object_Class_Static, obj_name := nm\<rparr>),
    object_lists := linked c h (object_lists k)\<rparr>)"
  using object_init_eq [OF sys_invD(5) [OF assms(1)] assms(2,3) c _ nm, of h] f
  by (simp add: fresh_def link_object_eq upd_object_def)

lemma mp_setup_ok:
  assumes n: "0 < n" and l: "on_tlist k (Mp_wait p) = []"
  shows "\<exists>mp. mp_setup p n k = Some (upd_mp p (\<lambda>_. mp) k) \<and> mp_rel p mp [0..<unat n] \<and> mp_block_total_count mp = n
    \<and> mp_suspend_thread_count mp = 0 \<and> mp_start_address mp = mp_start_address (mempools k p)
    \<and> mp_block_size mp = mp_block_size (mempools k p) \<and> mp_size mp = mp_size (mempools k p)"
proof -
  obtain w where w: "mp_link_blocks (unat n) (mp_word (mempools k p)) = Some w" "mp_path w (Some 0) [0..<unat n]"
    using mp_link_blocks_ok [of "unat n"] n by (auto simp: word_gt_0 unat_gt_0)
  let ?mp = "(mempools k p)\<lparr>mp_block_total_count := n, mp_block_free_count := n, mp_suspend_thread_count := 0, mp_word := w, mp_block_list := Some 0\<rparr>"
  have "mp_setup p n k = Some (upd_mp p (\<lambda>_. ?mp) k)"
    using l w(1) by (simp add: mp_setup_def tlist_init_head_def upd_mp_def on_tlist_def)
  moreover have "mp_rel p ?mp [0..<unat n]" using w(2) by (auto simp: mp_rel_def)
  ultimately show ?thesis by (intro exI [of _ ?mp]) simp
qed

lemma align_4: "unat ((v :: rt_uint32_t) AND NOT 3) = unat v - unat v mod 4"
proof -
  let ?x = "v AND NOT 3" let ?y = "v AND 3"
  have "?x AND ?y = 0" "?x OR ?y = v" by (auto simp: bit_eq_iff bit_simps)
  then have s: "?x + ?y = v" using word_plus_and_or [of ?x ?y] by simp
  have "?y = take_bit 2 v" by (simp add: take_bit_eq_mask mask_eq_exp_minus_1)
  then have y: "unat ?y = unat v mod 4" by (simp only: unsigned_take_bit_eq) (simp add: take_bit_eq_mod)
  have le: "?y \<le> v" by (rule word_and_le2 [THEN order_trans]) simp
  have "?x = v - ?y" using s by (metis add_diff_cancel_right')
  then show ?thesis using le y by (simp add: unat_sub)
qed

lemma align_up:
  assumes "unat w \<le> 0xfffffffc"
  shows "unat w \<le> unat (RT_ALIGN w)"
proof -
  have "unat (w + 3) = unat w + 3" using assms by (simp add: unat_word_ariths)
  moreover have "unat w \<le> unat w + 3 - (unat w + 3) mod 4" using mod_less_divisor [of 4 "unat w + 3"] by linarith
  ultimately show ?thesis unfolding RT_ALIGN_def align_4 by simp
qed

lemma align_dvd: "4 dvd unat (RT_ALIGN w)"
  unfolding RT_ALIGN_def align_4 by (simp add: minus_mod_eq_mult_div)

lemma align_down_le: "unat (RT_ALIGN_DOWN w) \<le> unat w"
  unfolding RT_ALIGN_DOWN_def align_4 by simp

lemma align_add_4:
  assumes "RT_ALIGN w + 4 \<noteq> 0"
  shows "unat (RT_ALIGN w + 4) = unat (RT_ALIGN w) + 4"
proof -
  have "unat (RT_ALIGN w) \<noteq> 0xfffffffc"
  proof
    assume "unat (RT_ALIGN w) = 0xfffffffc"
    then have "unat (RT_ALIGN w + 4) = 0" by (simp add: unat_word_ariths)
    with assms show False by (simp add: unat_eq_0)
  qed
  moreover have "unat (RT_ALIGN w) < 0x100000000" using unsigned_less [where 'a = nat and w = "RT_ALIGN w"] by simp
  moreover obtain m where m: "unat (RT_ALIGN w) = 4 * m" using align_dvd [of w] by (auto simp: dvd_def)
  ultimately have "unat (RT_ALIGN w) + 4 < 0x100000000" unfolding m by presburger
  then show ?thesis by (simp add: unat_word_ariths)
qed

text \<open>The address of a block does not wrap around in a pool that lies in the address space.\<close>

lemma block_address:
  assumes "unat start + n * (unat bs + 4) < 2 ^ 32" and "i < n" and "mp_start_address mp = start" "mp_block_size mp = bs"
  shows "unat (mp_block_address mp i) = unat start + i * (unat bs + 4) + 4"
proof -
  have m: "Suc i * (unat bs + 4) \<le> n * (unat bs + 4)" using assms(2) by (intro mult_le_mono1) simp
  then have b: "i * (unat bs + 4) + unat bs + 4 \<le> n * (unat bs + 4)" by simp
  then have bs: "unat (bs + 4) = unat bs + 4" using assms(1) by (simp add: unat_word_ariths)
  have le: "i \<le> i * (unat bs + 4)" by simp
  then have "i < 2 ^ 32" using b assms(1) by linarith
  then have i: "unat (of_nat i :: rt_uint32_t) = i" by (simp add: unat_of_nat)
  have p: "unat (of_nat i * (bs + 4)) = i * (unat bs + 4)"
    using b assms(1) by (simp add: unat_word_ariths i bs)
  then have "unat (start + of_nat i * (bs + 4)) = unat start + i * (unat bs + 4)"
    using b assms(1) unat_word_ariths(1) [of start "of_nat i * (bs + 4)"] by simp
  then show ?thesis using b assms unat_word_ariths(1) [of "start + of_nat i * (bs + 4)" 4] by (simp add: mp_block_address_def)
qed

lemma blocks_apart:
  assumes r: "unat start + n * (unat b + 4) < 2 ^ 32" and m: "n * (unat b + 4) \<le> unat sz"
    and mp: "mp_start_address mp = start" "mp_block_size mp = b" and le: "unat bs \<le> unat b"
  shows "\<forall>i<n. start < mp_block_address mp i \<and> unat (mp_block_address mp i) + unat bs \<le> unat start + unat sz"
    and "\<forall>i j. i < j \<and> j < n \<longrightarrow> unat (mp_block_address mp i) + unat bs + 4 \<le> unat (mp_block_address mp j)"
proof (intro allI impI)
  fix i assume i: "i < n"
  then have "Suc i * (unat b + 4) \<le> n * (unat b + 4)" by (intro mult_le_mono1) simp
  then show "start < mp_block_address mp i \<and> unat (mp_block_address mp i) + unat bs \<le> unat start + unat sz"
    using block_address [OF r i mp] m le by (simp add: word_less_nat_alt)
next
  show "\<forall>i j. i < j \<and> j < n \<longrightarrow> unat (mp_block_address mp i) + unat bs + 4 \<le> unat (mp_block_address mp j)"
  proof (intro allI impI)
    fix i j assume i: "i < j \<and> j < n"
    then have "Suc i * (unat b + 4) \<le> j * (unat b + 4)" by (intro mult_le_mono1) simp
    then show "unat (mp_block_address mp i) + unat bs + 4 \<le> unat (mp_block_address mp j)"
      using block_address [OF r _ mp, of i] block_address [OF r _ mp, of j] i le by simp
  qed
qed

section \<open>Properties\<close>

text \<open>\<^verbatim>\<open>rt_mp_alloc\<close> on every branch.  From a pool with a free block it takes the first one, which was in
  nobody's hands, and only the pool changes.  From an empty pool it returns nothing and sets the error number to
  \<^verbatim>\<open>RT_ETIMEOUT\<close> when the caller does not want to wait; otherwise the caller is suspended, in front of the threads
  that already wait, its timer is running exactly when a time was given, and a ready thread of the highest priority gets
  the processor.  The pool stays in order on every branch.\<close>

theorem pool_alloc_correct:
  assumes "sys_inv k" and "mp_inv p k" and "rt_current_thread k = Some t" and "stat_of k t = RT_THREAD_READY"
    and "rt_interrupt_nest k = 0" and "rt_scheduler_lock_nest k = 0" and "time \<noteq> 0x7fffffff"
    and "stat_of k u = RT_THREAD_READY" "u \<noteq> t" and "mp_suspend_thread_count (mempools k p) \<noteq> -1"
  shows "(\<forall>i fs. mp_free_blocks (mempools k p) = i # fs \<longrightarrow> (\<exists>mp. rt_mp_alloc p time k = Some (Finished (Some i), upd_mp p (\<lambda>_. mp) k)
        \<and> sys_inv (upd_mp p (\<lambda>_. mp) k) \<and> mp_inv p (upd_mp p (\<lambda>_. mp) k) \<and> i < unat (mp_block_total_count mp)
        \<and> i \<notin> mp_used (mempools k p) \<and> mp_used mp = insert i (mp_used (mempools k p))))
    \<and> (mp_free_blocks (mempools k p) = [] \<longrightarrow> (\<exists>k'. rt_mp_alloc p 0 k = Some (Finished None, k') \<and> sys_inv k' \<and> mp_inv p k'
        \<and> rt_get_errno k' = RT_ETIMEOUT \<and> mempools k' = mempools k \<and> stat_of k' = stat_of k))
    \<and> (mp_free_blocks (mempools k p) = [] \<and> time \<noteq> 0 \<longrightarrow> (\<exists>k'. rt_mp_alloc p time k = Some (Waiting t, k') \<and> sys_inv k' \<and> mp_inv p k'
        \<and> stat_of k' t = RT_THREAD_SUSPEND \<and> mp_used (mempools k' p) = mp_used (mempools k p)
        \<and> on_tlist k' (Mp_wait p) = t # on_tlist k (Mp_wait p)
        \<and> (\<forall>q'. is_wait_list q' \<and> q' \<noteq> Mp_wait p \<longrightarrow> on_tlist k' q' = on_tlist k q')
        \<and> (home (timer_lists k') (Thread_timer t) \<noteq> None \<longleftrightarrow> 0 < sint time)
        \<and> (\<forall>v. v \<noteq> t \<longrightarrow> threads k' v = threads k v) \<and> (\<exists>v. rt_current_thread k' = Some v \<and> first_ready k' v)))"
proof (intro conjI impI allI)
  fix i fs assume "mp_free_blocks (mempools k p) = i # fs"
  from mp_alloc_takes [OF assms(2) this] assms(1)
  show "\<exists>mp. rt_mp_alloc p time k = Some (Finished (Some i), upd_mp p (\<lambda>_. mp) k)
        \<and> sys_inv (upd_mp p (\<lambda>_. mp) k) \<and> mp_inv p (upd_mp p (\<lambda>_. mp) k) \<and> i < unat (mp_block_total_count mp)
        \<and> i \<notin> mp_used (mempools k p) \<and> mp_used mp = insert i (mp_used (mempools k p))" by auto
next
  assume e: "mp_free_blocks (mempools k p) = []"
  then have "rt_mp_alloc p 0 k = Some (Finished None, rt_set_errno RT_ETIMEOUT k)"
    using mp_none_free [OF assms(2)] by (simp add: rt_mp_alloc_def mp_alloc_loop_def)
  moreover have "mp_inv p (rt_set_errno RT_ETIMEOUT k)" "mempools (rt_set_errno RT_ETIMEOUT k) = mempools k"
    using assms(2) set_errno_frame(2) [of k RT_ETIMEOUT] set_errno_frame(3) [of RT_ETIMEOUT k] by (simp_all add: mp_inv_def same_ipc_def rt_object_get_type_def)
  ultimately show "\<exists>k'. rt_mp_alloc p 0 k = Some (Finished None, k') \<and> sys_inv k' \<and> mp_inv p k'
        \<and> rt_get_errno k' = RT_ETIMEOUT \<and> mempools k' = mempools k \<and> stat_of k' = stat_of k"
    using assms(1) set_errno_frame(1,5,6) by simp
next
  assume "mp_free_blocks (mempools k p) = [] \<and> time \<noteq> 0"
  then have w: "rt_mp_alloc p time k = do { k \<leftarrow> mp_wait p t time (upd_thread t (\<lambda>th. th\<lparr>th_error := RT_EOK\<rparr>) k); Some (Waiting t, k) }"
    using mp_none_free [OF assms(2)] assms(3,5)
    by (simp add: rt_mp_alloc_def mp_alloc_loop_def rt_thread_self_def RT_DEBUG_NOT_IN_INTERRUPT_def rt_interrupt_get_nest_def)
  from mp_wait_ok [OF assms(1,2,10,4,7-9)] assms(6)
  show "\<exists>k'. rt_mp_alloc p time k = Some (Waiting t, k') \<and> sys_inv k' \<and> mp_inv p k'
        \<and> stat_of k' t = RT_THREAD_SUSPEND \<and> mp_used (mempools k' p) = mp_used (mempools k p)
        \<and> on_tlist k' (Mp_wait p) = t # on_tlist k (Mp_wait p)
        \<and> (\<forall>q'. is_wait_list q' \<and> q' \<noteq> Mp_wait p \<longrightarrow> on_tlist k' q' = on_tlist k q')
        \<and> (home (timer_lists k') (Thread_timer t) \<noteq> None \<longleftrightarrow> 0 < sint time)
        \<and> (\<forall>v. v \<noteq> t \<longrightarrow> threads k' v = threads k v) \<and> (\<exists>v. rt_current_thread k' = Some v \<and> first_ready k' v)"
    unfolding w by (auto simp: mp_used_def)
qed

text \<open>A pool of two blocks, block 0 free or both in use.\<close>

definition sample_pool :: "bool \<Rightarrow> kernel" where
  "sample_pool b = upd_mp 5 (\<lambda>_. \<lparr>mp_start_address = 0x1000, mp_size = 24, mp_block_size = 8,
      mp_block_list = (if b then Some 0 else None), mp_block_total_count = 2, mp_block_free_count = (if b then 1 else 0),
      mp_suspend_thread_count = 0, mp_word = (\<lambda>i. if b \<and> i = 0 then Next_block None else Pool 5)\<rparr>)
    (sample_with (RT_Object_Class_MemPool OR RT_Object_Class_Static) 0)"

lemma sample_pool_ok:
  "sys_inv (sample_pool b)" "mp_inv 5 (sample_pool b)" "rt_current_thread (sample_pool b) = Some (Suc 0)"
  "stat_of (sample_pool b) (Suc 0) = RT_THREAD_READY" "stat_of (sample_pool b) 2 = RT_THREAD_READY" "rt_interrupt_nest (sample_pool b) = 0"
  "rt_scheduler_lock_nest (sample_pool b) = 0" "mp_suspend_thread_count (mempools (sample_pool b) 5) = 0"
  "mp_free_blocks (mempools (sample_pool b) 5) = (if b then [0] else [])" "on_tlist (sample_pool b) (Mp_wait 5) = []"
  "mp_used (mempools (sample_pool b) 5) = (if b then {1} else {0, 1})"
proof -
  have fb: "mp_free_blocks (mempools (sample_pool b) 5) = (if b then [0] else [])"
    by (simp add: sample_pool_def mp_free_blocks_def) (simp add: numeral_2_eq_2)
  then show "mp_free_blocks (mempools (sample_pool b) 5) = (if b then [0] else [])" .
  show "mp_used (mempools (sample_pool b) 5) = (if b then {1} else {0, 1})"
    unfolding mp_used_def fb by (auto simp: sample_pool_def)
  have "mp_ok 5 (mempools (sample_pool b) 5)" unfolding mp_ok_def fb by (auto simp: sample_pool_def mp_rel_def)
  moreover show l: "on_tlist (sample_pool b) (Mp_wait 5) = []" by (simp add: sample_pool_def on_tlist_def)
  moreover have "rt_object_get_type (Obj 5) (sample_pool b) = RT_Object_Class_MemPool"
    using sample_with_facts(1) [of "RT_Object_Class_MemPool OR RT_Object_Class_Static" 0]
    by (simp add: sample_pool_def rt_object_get_type_def rt_consts)
  ultimately show "mp_inv 5 (sample_pool b)" by (simp add: mp_inv_def) (simp add: sample_pool_def)
qed (simp_all add: sample_pool_def sample_with_sys_inv)

theorem pool_alloc_correct_witness:
  "(\<exists>k'. rt_mp_alloc 5 7 (sample_pool True) = Some (Finished (Some 0), k') \<and> mp_inv 5 k')
    \<and> (\<exists>k'. rt_mp_alloc 5 0 (sample_pool False) = Some (Finished None, k') \<and> rt_get_errno k' = RT_ETIMEOUT)
    \<and> (\<exists>k'. rt_mp_alloc 5 7 (sample_pool False) = Some (Waiting 1, k') \<and> on_tlist k' (Mp_wait 5) = [1])"
  using pool_alloc_correct [of "sample_pool True" 5 1 7 2] pool_alloc_correct [of "sample_pool False" 5 1 7 2]
    sample_pool_ok [of True] sample_pool_ok [of False] by auto

text \<open>\<^verbatim>\<open>rt_mp_free\<close> puts a block in use back in front of the free list.  The first waiting thread becomes
  ready with its timer stopped, without a block yet, and the scheduler runs; with nobody waiting only the pool changes.
  The pool stays in order.  A block that is not in use is not accepted: its word is not a pool.\<close>

theorem pool_free_correct:
  assumes "sys_inv k" and "mp_inv p k" and "rt_scheduler_lock_nest k = 0"
  shows "(\<forall>i\<in>mp_used (mempools k p). \<exists>k'. rt_mp_free p i k = Some k' \<and> sys_inv k' \<and> mp_inv p k'
        \<and> mp_used (mempools k' p) = mp_used (mempools k p) - {i}
        \<and> (case on_tlist k (Mp_wait p) of
             [] \<Rightarrow> k' = upd_mp p (\<lambda>_. mempools k' p) k
           | t # ts \<Rightarrow> on_tlist k' (Mp_wait p) = ts \<and> stat_of k' t = RT_THREAD_READY \<and> th_error (threads k' t) = RT_EOK
               \<and> home (timer_lists k') (Thread_timer t) = None \<and> (\<forall>v. v \<noteq> t \<longrightarrow> threads k' v = threads k v)
               \<and> (\<exists>v. rt_current_thread k' = Some v \<and> first_ready k' v)))
    \<and> (\<forall>i\<in>set (mp_free_blocks (mempools k p)). rt_mp_free p i k = None)"
proof (intro conjI ballI)
  fix i assume i: "i \<in> mp_used (mempools k p)"
  show "\<exists>k'. rt_mp_free p i k = Some k' \<and> sys_inv k' \<and> mp_inv p k'
        \<and> mp_used (mempools k' p) = mp_used (mempools k p) - {i}
        \<and> (case on_tlist k (Mp_wait p) of
             [] \<Rightarrow> k' = upd_mp p (\<lambda>_. mempools k' p) k
           | t # ts \<Rightarrow> on_tlist k' (Mp_wait p) = ts \<and> stat_of k' t = RT_THREAD_READY \<and> th_error (threads k' t) = RT_EOK
               \<and> home (timer_lists k') (Thread_timer t) = None \<and> (\<forall>v. v \<noteq> t \<longrightarrow> threads k' v = threads k v)
               \<and> (\<exists>v. rt_current_thread k' = Some v \<and> first_ready k' v))"
  proof (cases "on_tlist k (Mp_wait p)")
    case Nil
    then show ?thesis using mp_free_gives [OF assms(1,2) i Nil] by (intro exI [of _ "upd_mp p (mp_give i) k"]) (simp add: upd_mp_def)
  next
    case (Cons t ts)
    then show ?thesis using mp_free_wakes [OF assms(1,2) i Cons] assms(3) by auto
  qed
next
  fix i assume "i \<in> set (mp_free_blocks (mempools k p))"
  then have "\<exists>n. mp_word (mempools k p) i = Next_block n"
    using mp_inv_rel [OF assms(2)] mp_path_free unfolding mp_rel_def by blast
  then show "rt_mp_free p i k = None" by (auto simp: rt_mp_free_def RT_ASSERT_def)
qed

theorem pool_free_correct_witness:
  "\<exists>k'. rt_mp_free 5 1 (sample_pool True) = Some k' \<and> mp_used (mempools k' 5) = {} \<and> rt_mp_free 5 0 (sample_pool True) = None"
  using pool_free_correct [of "sample_pool True" 5] sample_pool_ok [of True] by auto

text \<open>A block that was allocated can be freed, and if nobody waits this restores the kernel exactly: the pool, its
  counter, and the order of its free list.\<close>

theorem pool_alloc_free_roundtrip:
  assumes "sys_inv k" and "mp_inv p k" and "on_tlist k (Mp_wait p) = []" and "mp_block_free_count (mempools k p) \<noteq> 0"
  shows "\<exists>i k'. rt_mp_alloc p time k = Some (Finished (Some i), k') \<and> i \<in> mp_used (mempools k' p) \<and> rt_mp_free p i k' = Some k"
proof -
  obtain i fs where fs: "mp_free_blocks (mempools k p) = i # fs" using mp_none_free [OF assms(2)] assms(4) by (cases "mp_free_blocks (mempools k p)") auto
  obtain mp where mp: "rt_mp_alloc p time k = Some (Finished (Some i), upd_mp p (\<lambda>_. mp) k)" "mp_inv p (upd_mp p (\<lambda>_. mp) k)"
    "mp_used mp = insert i (mp_used (mempools k p))" "mp_give i mp = mempools k p" using mp_alloc_takes [OF assms(2) fs] by blast
  have "rt_mp_free p i (upd_mp p (\<lambda>_. mp) k) = Some (upd_mp p (mp_give i) (upd_mp p (\<lambda>_. mp) k))"
    using mp_free_gives(1) [OF _ mp(2)] assms(1,3) mp(3) by simp
  then show ?thesis using mp by (intro exI [of _ i] exI [of _ "upd_mp p (\<lambda>_. mp) k"]) (simp add: upd_mp_def)
qed

theorem pool_alloc_free_roundtrip_witness:
  "\<exists>i k'. rt_mp_alloc 5 0 (sample_pool True) = Some (Finished (Some i), k') \<and> rt_mp_free 5 i k' = Some (sample_pool True)"
proof -
  have "mp_block_free_count (mempools (sample_pool True) 5) \<noteq> 0" by (simp add: sample_pool_def)
  then show ?thesis using pool_alloc_free_roundtrip [of "sample_pool True" 5 0] sample_pool_ok [of True] by auto
qed

text \<open>C24: \<^verbatim>\<open>rt_mp_init\<close> cuts a pool that lies in the address space into as many blocks as fit, all of them free;
  every block has the requested size, lies in the pool and overlaps no other block.  A pool without room for one block
  is not refused: the end of the list is stored in front of the pool.\<close>

theorem pool_init_correct:
  assumes "sys_inv k" "object_inv k" "settled k" and "fresh (Obj p) k" and "on_tlist k (Mp_wait p) = []"
    and "rt_strncpy name RT_NAME_MAX = Some nm" and "unat start + unat sz < 2 ^ 32" and "unat bs \<le> 0xfffffffc"
  shows "(unat (RT_ALIGN bs) + 4 \<le> unat (RT_ALIGN_DOWN sz) \<longrightarrow> (\<exists>k' mp n. rt_mp_init p name start sz bs k = Some (RT_EOK, k')
        \<and> sys_inv k' \<and> object_inv k' \<and> mp_inv p k' \<and> mp = mempools k' p \<and> n = unat (mp_block_total_count mp)
        \<and> n = unat (RT_ALIGN_DOWN sz) div (unat (RT_ALIGN bs) + 4) \<and> 0 < n \<and> mp_free_blocks mp = [0..<n] \<and> mp_used mp = {}
        \<and> (\<forall>i<n. start < mp_block_address mp i \<and> unat (mp_block_address mp i) + unat bs \<le> unat start + unat sz)
        \<and> (\<forall>i j. i < j \<and> j < n \<longrightarrow> unat (mp_block_address mp i) + unat bs + 4 \<le> unat (mp_block_address mp j))))
    \<and> (unat (RT_ALIGN_DOWN sz) < unat (RT_ALIGN bs) + 4 \<longrightarrow> rt_mp_init p name start sz bs k = None)"
proof -
  define b where "b = RT_ALIGN bs"
  define s where "s = RT_ALIGN_DOWN sz"
  define k1 where "k1 = k\<lparr>objects := (objects k)(Obj p := (objects k (Obj p))\<lparr>obj_type := RT_Object_Class_MemPool OR RT_Object_Class_Static, obj_name := nm\<rparr>),
    object_lists := linked RT_Object_Class_MemPool (Obj p) (object_lists k)\<rparr>"
  have c: "RT_Object_Class_MemPool \<in> set rt_object_container" by (simp add: rt_object_container_def)
  have i1: "rt_object_init (Obj p) RT_Object_Class_MemPool name k = Some k1"
    using object_init_state [OF assms(1-4) c assms(6)] by (simp add: k1_def)
  have ty: "rt_object_get_type (Obj p) k = 0" using assms(4) by (simp add: fresh_def)
  have "sys_inv k1" by (rule sys_inv_objects [OF assms(1), where g = "Obj p"]) (simp_all add: k1_def sched_view_def ty rt_consts)
  moreover have "object_inv k1" using rt_object_init_inv [OF assms(2) i1] .
  moreover have "rt_object_get_type (Obj p) k1 = RT_Object_Class_MemPool" by (simp add: k1_def rt_object_get_type_def rt_consts)
  ultimately have k1: "sys_inv k1" "object_inv k1" "rt_object_get_type (Obj p) k1 = RT_Object_Class_MemPool" "on_tlist k1 (Mp_wait p) = []"
    using assms(5) by (simp_all add: k1_def on_tlist_def)
  let ?k2 = "upd_mp p (\<lambda>mp. mp\<lparr>mp_block_size := b\<rparr>) (upd_mp p (\<lambda>mp. mp\<lparr>mp_start_address := start, mp_size := s\<rparr>) k1)"
  have eq: "rt_mp_init p name start sz bs k = do { RT_ASSERT (b + 4 \<noteq> 0); k \<leftarrow> mp_setup p (s div (b + 4)) ?k2; Some (RT_EOK, k) }"
    by (simp add: rt_mp_init_def i1 b_def s_def Let_def)
  have le: "unat bs \<le> unat b" "unat s \<le> unat sz" using align_up [OF assms(8)] align_down_le [of sz] by (simp_all add: b_def s_def)
  have wr: "unat (b + 4) = unat b + 4" if "b + 4 \<noteq> 0" using align_add_4 [of bs] that by (simp add: b_def)
  have none: "rt_mp_init p name start sz bs k = None" if small: "unat s < unat b + 4"
  proof (cases "b + 4 = 0")
    case False
    then have "s div (b + 4) = 0" using wr small by (simp add: word_arith_nat_div)
    then show ?thesis by (simp add: eq mp_setup_def mp_link_blocks_def RT_ASSERT_def bind_eq_None_conv)
  qed (simp add: eq RT_ASSERT_def)
  have "\<exists>k' mp n. rt_mp_init p name start sz bs k = Some (RT_EOK, k')
        \<and> sys_inv k' \<and> object_inv k' \<and> mp_inv p k' \<and> mp = mempools k' p \<and> n = unat (mp_block_total_count mp)
        \<and> n = unat s div (unat b + 4) \<and> 0 < n \<and> mp_free_blocks mp = [0..<n] \<and> mp_used mp = {}
        \<and> (\<forall>i<n. start < mp_block_address mp i \<and> unat (mp_block_address mp i) + unat bs \<le> unat start + unat sz)
        \<and> (\<forall>i j. i < j \<and> j < n \<longrightarrow> unat (mp_block_address mp i) + unat bs + 4 \<le> unat (mp_block_address mp j))"
    if fits: "unat b + 4 \<le> unat s"
  proof -
    have nz: "b + 4 \<noteq> 0"
    proof
      assume "b + 4 = 0"
      then have "b = -4" by (simp add: add_eq_0_iff2)
      then have "unat b = 0xfffffffc" by simp
      then show False using fits unsigned_less [where 'a = nat and w = s] by simp
    qed
    define n where "n = unat s div (unat b + 4)"
    have n: "unat (s div (b + 4)) = n" by (simp add: unat_div n_def wr [OF nz])
    have pos: "0 < n" using fits by (simp add: n_def div_greater_zero_iff)
    then have w: "0 < s div (b + 4)" using n by (simp add: word_gt_0 unat_gt_0 [symmetric])
    have l2: "on_tlist ?k2 (Mp_wait p) = []" using k1(4) by simp
    obtain mp where mp: "mp_setup p (s div (b + 4)) ?k2 = Some (upd_mp p (\<lambda>_. mp) ?k2)" "mp_rel p mp [0..<n]"
      "mp_block_total_count mp = s div (b + 4)" "mp_suspend_thread_count mp = 0" "mp_start_address mp = start" "mp_block_size mp = b"
      using mp_setup_ok [OF w l2] by (auto simp: n)
    let ?k' = "upd_mp p (\<lambda>_. mp) ?k2"
    have "n * (unat b + 4) \<le> unat s" by (simp add: n_def div_times_less_eq_dividend)
    then have m: "n * (unat b + 4) \<le> unat sz" using le(2) by linarith
    then have r: "unat start + n * (unat b + 4) < 2 ^ 32" using assms(7) by linarith
    note ad = blocks_apart [OF r _ mp(5,6) le(1)]
    have "mp_inv p ?k'" using k1(3,4) mp_relD(2) [OF mp(2)] mp(4) by (simp add: mp_inv_def)
    moreover have "object_inv ?k'" using k1(2) object_inv_cong [of ?k' k1] by simp
    moreover have "rt_mp_init p name start sz bs k = Some (RT_EOK, ?k')" using nz mp(1) by (simp add: eq)
    moreover have "mp_used mp = {}" using mp_relD(1) [OF mp(2)] mp(3) n by (auto simp: mp_used_def)
    ultimately show ?thesis using k1(1) mp(3) n pos mp_relD(1) [OF mp(2)] ad(1) [OF m] ad(2) [OF m]
      by (intro exI [of _ ?k'] exI [of _ mp] exI [of _ n]) (simp add: n_def)
  qed
  then show ?thesis using none unfolding b_def s_def by blast
qed

theorem pool_init_correct_witness:
  "(\<exists>k'. rt_mp_init 8 life_name 0x1000 30 6 sample = Some (RT_EOK, k') \<and> mp_inv 8 k' \<and> mp_free_blocks (mempools k' 8) = [0, 1])
    \<and> rt_mp_init 8 life_name 0x1000 10 6 sample = None"
proof -
  obtain nm where "rt_strncpy life_name RT_NAME_MAX = Some nm" using rt_strncpy_Some [of RT_NAME_MAX life_name] by (auto simp: life_name_def)
  moreover have "fresh (Obj 8) sample" using sample_fresh(2) by (simp add: fresh_sem_def)
  moreover have "on_tlist sample (Mp_wait 8) = []" by (simp add: on_tlist_def)
  moreover have "RT_ALIGN 6 = 8" "RT_ALIGN_DOWN 30 = 28" "RT_ALIGN_DOWN 10 = 8" by (simp_all add: RT_ALIGN_def RT_ALIGN_DOWN_def)
  moreover have "[0..<2] = [0, Suc 0]" by (simp add: numeral_2_eq_2)
  ultimately show ?thesis
    using pool_init_correct [OF sample_sys_inv sample_objects_inv sample_settled, of 8 life_name nm "0x1000" 30 6]
      pool_init_correct [OF sample_sys_inv sample_objects_inv sample_settled, of 8 life_name nm "0x1000" 10 6] by auto
qed

text \<open>What the waiter finds when it runs again, before another thread takes the block.\<close>

lemma mp_waiter:
  assumes "sys_inv k" and "mp_inv p k" and "mp_free_blocks (mempools k p) = []" and "on_tlist k (Mp_wait p) = []"
    and "rt_current_thread k = Some t" and "stat_of k t = RT_THREAD_READY" and "rt_interrupt_nest k = 0"
    and "time \<noteq> 0" "time \<noteq> 0x7fffffff" and "stat_of k u = RT_THREAD_READY" "u \<noteq> t"
  obtains k1 where "rt_mp_alloc p time k = Some (Waiting t, k1)" "sys_inv k1" "mp_inv p k1" "on_tlist k1 (Mp_wait p) = [t]"
    "stat_of k1 t = RT_THREAD_SUSPEND" "mp_suspend_thread_count (mempools k1 p) = 1" "mp_used (mempools k1 p) = mp_used (mempools k p)"
    "mp_free_blocks (mempools k1 p) = []" "\<forall>n. objects k1 (Obj n) = objects k (Obj n)"
proof -
  have z: "mp_suspend_thread_count (mempools k p) = 0" using assms(2,4) by (simp add: mp_inv_def unat_eq_0)
  have w: "rt_mp_alloc p time k = do { k \<leftarrow> mp_wait p t time (upd_thread t (\<lambda>th. th\<lparr>th_error := RT_EOK\<rparr>) k); Some (Waiting t, k) }"
    using mp_none_free [OF assms(2)] assms(3,5,7,8)
    by (simp add: rt_mp_alloc_def mp_alloc_loop_def rt_thread_self_def RT_DEBUG_NOT_IN_INTERRUPT_def rt_interrupt_get_nest_def)
  obtain k1 where k1: "mp_wait p t time (upd_thread t (\<lambda>th. th\<lparr>th_error := RT_EOK\<rparr>) k) = Some k1" "sys_inv k1" "mp_inv p k1"
    "mempools k1 p = (mempools k p)\<lparr>mp_suspend_thread_count := mp_suspend_thread_count (mempools k p) + 1\<rparr>"
    "stat_of k1 t = RT_THREAD_SUSPEND" "on_tlist k1 (Mp_wait p) = t # on_tlist k (Mp_wait p)" "\<forall>n. objects k1 (Obj n) = objects k (Obj n)"
    using mp_wait_ok [OF assms(1,2) _ assms(6,9-11)] z by auto
  show ?thesis using that [of k1] w k1 z assms(3,4) by (simp add: mp_used_def)
qed

text \<open>What a thread that blocked in \<^verbatim>\<open>rt_mp_alloc\<close> returns: the block that was freed, when it runs before another
  thread takes it, and no block when the pool was detached; in each case it is ready again and off the list.\<close>

theorem pool_wait_results:
  assumes "sys_inv k" and "mp_inv p k" and "mp_free_blocks (mempools k p) = []" and "on_tlist k (Mp_wait p) = []"
    and "rt_current_thread k = Some t" and "stat_of k t = RT_THREAD_READY" and "rt_interrupt_nest k = 0"
    and "time \<noteq> 0" "time \<noteq> 0x7fffffff" and "stat_of k u = RT_THREAD_READY" "u \<noteq> t" and "rt_object_is_systemobject (Obj p) k"
  shows "\<exists>k1. rt_mp_alloc p time k = Some (Waiting t, k1)
    \<and> (\<forall>i\<in>mp_used (mempools k p). \<exists>k2 k3. rt_mp_free p i k1 = Some k2 \<and> stat_of k2 t = RT_THREAD_READY \<and> on_tlist k2 (Mp_wait p) = []
         \<and> rt_mp_alloc_back p time start t k2 = Some (Finished (Some i), k3) \<and> mp_used (mempools k3 p) = mp_used (mempools k p))
    \<and> (\<exists>k2. rt_mp_detach p k1 = Some (RT_EOK, k2) \<and> stat_of k2 t = RT_THREAD_READY \<and> on_tlist k2 (Mp_wait p) = []
         \<and> rt_mp_alloc_back p time start t k2 = Some (Finished None, k2))"
proof -
  obtain k1 where k1: "rt_mp_alloc p time k = Some (Waiting t, k1)" "sys_inv k1" "mp_inv p k1" "on_tlist k1 (Mp_wait p) = [t]"
    "stat_of k1 t = RT_THREAD_SUSPEND" "mp_used (mempools k1 p) = mp_used (mempools k p)"
    "mp_free_blocks (mempools k1 p) = []" "\<forall>n. objects k1 (Obj n) = objects k (Obj n)"
    by (rule mp_waiter [OF assms(1-11)])
  have "\<exists>k2 k3. rt_mp_free p i k1 = Some k2 \<and> stat_of k2 t = RT_THREAD_READY \<and> on_tlist k2 (Mp_wait p) = []
         \<and> rt_mp_alloc_back p time start t k2 = Some (Finished (Some i), k3) \<and> mp_used (mempools k3 p) = mp_used (mempools k p)"
    if i: "i \<in> mp_used (mempools k p)" for i
  proof -
    obtain k2 where k2: "rt_mp_free p i k1 = Some k2" "mp_inv p k2" "mp_used (mempools k2 p) = mp_used (mempools k1 p) - {i}"
      "mp_free_blocks (mempools k2 p) = [i]" "stat_of k2 t = RT_THREAD_READY" "th_error (threads k2 t) = RT_EOK" "on_tlist k2 (Mp_wait p) = []"
      using mp_free_wakes [OF k1(2,3) _ k1(4), of i] i k1(6,7) by auto
    obtain mp where mp: "rt_mp_alloc p (rest_timeout time start k2) k2 = Some (Finished (Some i), upd_mp p (\<lambda>_. mp) k2)"
      "mp_used mp = insert i (mp_used (mempools k2 p))" using mp_alloc_takes [OF k2(2,4)] by blast
    have "rt_mp_alloc_back p time start t k2 = Some (Finished (Some i), upd_mp p (\<lambda>_. mp) k2)"
      using mp(1) mp_none_free [OF k2(2)] k2(4,6) by (simp add: rt_mp_alloc_back_def rt_mp_alloc_def mp_alloc_loop_def)
    then show ?thesis using k2 mp(2) i k1(6) by (intro exI [of _ k2] exI [of _ "upd_mp p (\<lambda>_. mp) k2"]) auto
  qed
  moreover obtain k2 where k2: "mp_resume_all p k1 = Some k2" "on_tlist k2 (Mp_wait p) = []" "stat_of k2 t = RT_THREAD_READY"
    "th_error (threads k2 t) = RT_ERROR" using mp_resume_all_ok [OF k1(2,4)] by auto
  have "rt_mp_detach p k1 = Some (RT_EOK, rt_object_detach (Obj p) k2)"
    using k1(3,8) assms(12) k2(1) by (simp add: rt_mp_detach_def mp_inv_def rt_object_is_systemobject_def)
  moreover have "threads (rt_object_detach (Obj p) k2) = threads k2" "on_tlist (rt_object_detach (Obj p) k2) = on_tlist k2"
    by (simp_all add: rt_object_detach_def unlink_object_def upd_object_def on_tlist_def fun_eq_iff)
  moreover from this have "stat_of (rt_object_detach (Obj p) k2) t = RT_THREAD_READY" using k2(3) by (simp add: stat_of_def)
  ultimately show ?thesis using k1(1) k2(2,4) by (intro exI [of _ k1]) (auto simp: rt_mp_alloc_back_def rt_consts)
qed

theorem pool_wait_results_witness:
  "\<exists>k1 k2 k3. rt_mp_alloc 5 7 (sample_pool False) = Some (Waiting 1, k1) \<and> rt_mp_free 5 1 k1 = Some k2
    \<and> rt_mp_alloc_back 5 7 0 1 k2 = Some (Finished (Some 1), k3)"
proof -
  have "rt_object_is_systemobject (Obj 5) (sample_pool False)"
    by (simp add: sample_pool_def sample_with_def upd_object_def rt_object_is_systemobject_def rt_consts)
  then show ?thesis using pool_wait_results [of "sample_pool False" 5 1 7 2 0] sample_pool_ok [of False] by auto
qed

text \<open>C25: a wait for a block that ends with its timeout leaves the count of waiting threads one too high, because
  \<^verbatim>\<open>rt_thread_timeout\<close> takes the thread off the list without a word to the pool.  The thread returns without a
  block, all blocks of the pool are in use, and none of them can be given back by the next \<^verbatim>\<open>rt_mp_free\<close>, in any state in which the pool is still as it is then and no other thread waits for it: the call takes the head of the empty list for a thread.  With the count at zero, as it should be, the same call on the same state would give the block back.\<close>

theorem pool_timeout_breaks_free:
  assumes "sys_inv k" and "mp_inv p k" and "mp_free_blocks (mempools k p) = []" and "on_tlist k (Mp_wait p) = []"
    and "rt_current_thread k = Some t" and "stat_of k t = RT_THREAD_READY" and "rt_interrupt_nest k = 0"
    and "time \<noteq> 0" "time \<noteq> 0x7fffffff" and "stat_of k u = RT_THREAD_READY" "u \<noteq> t"
  shows "\<exists>k1 k2. rt_mp_alloc p time k = Some (Waiting t, k1) \<and> rt_thread_timeout t k1 = Some k2
    \<and> rt_mp_alloc_back p time start t k2 = Some (Finished None, k2) \<and> on_tlist k2 (Mp_wait p) = []
    \<and> mp_suspend_thread_count (mempools k2 p) = 1 \<and> mp_used (mempools k2 p) = {..<unat (mp_block_total_count (mempools k2 p))}
    \<and> (\<forall>k3 i. mempools k3 p = mempools k2 p \<and> on_tlist k3 (Mp_wait p) = [] \<longrightarrow> rt_mp_free p i k3 = None)
    \<and> (\<forall>i\<in>mp_used (mempools k2 p). let k3 = upd_mp p (\<lambda>mp. mp\<lparr>mp_suspend_thread_count := 0\<rparr>) k2 in rt_mp_free p i k3 = Some (upd_mp p (mp_give i) k3))"
proof -
  obtain k1 where k1: "rt_mp_alloc p time k = Some (Waiting t, k1)" "sys_inv k1" "mp_inv p k1" "on_tlist k1 (Mp_wait p) = [t]"
    "stat_of k1 t = RT_THREAD_SUSPEND" "mp_suspend_thread_count (mempools k1 p) = 1" "mp_free_blocks (mempools k1 p) = []"
    by (rule mp_waiter [OF assms])
  note d = sys_invD [OF k1(2)]
  obtain k2 where k2: "rt_thread_timeout t k1 = Some k2" "th_error (threads k2 t) = RT_ETIMEOUT" "on_tlist k2 (Mp_wait p) = []" "same_ipc k1 k2"
    using timeout_wakes [OF d(4) _ k1(5) d(7,8)] sys_inv_thread [OF k1(2) aliveI(2) [OF k1(5)]] k1(4) by auto
  have mp: "mempools k2 p = mempools k1 p" using k2(4) by (simp add: same_ipc_def)
  have c: "mp_suspend_thread_count (mempools k2 p) = 1" using mp k1(6) by simp
  have none: "rt_mp_free p i k3 = None" if "mempools k3 p = mempools k2 p" "on_tlist k3 (Mp_wait p) = []" for k3 i
    using that c by (simp add: rt_mp_free_def RT_ASSERT_def mp_give_def)
  have used: "mp_used (mempools k2 p) = {..<unat (mp_block_total_count (mempools k2 p))}" using mp k1(7) by (auto simp: mp_used_def)
  have gives: "rt_mp_free p i k3 = Some (upd_mp p (mp_give i) k3)"
    if "k3 = upd_mp p (\<lambda>mp. mp\<lparr>mp_suspend_thread_count := 0\<rparr>) k2" "i \<in> mp_used (mempools k2 p)" for k3 i
  proof -
    have "mp_word (mempools k1 p) i = Pool p" using k1(3) that(2) mp mp_used_word by (simp add: mp_inv_def)
    then show ?thesis using that(1) mp by (simp add: rt_mp_free_def upd_mp_def mp_give_def)
  qed
  show ?thesis using k1(1) k2(1-3) c none used gives by (intro exI [of _ k1] exI [of _ k2]) (simp add: rt_mp_alloc_back_def rt_consts Let_def)
qed

theorem pool_timeout_breaks_free_witness:
  "\<exists>k1 k2. rt_mp_alloc 5 7 (sample_pool False) = Some (Waiting 1, k1) \<and> rt_thread_timeout 1 k1 = Some k2
    \<and> rt_mp_free 5 0 k2 = None"
proof -
  obtain k1 k2 where "rt_mp_alloc 5 7 (sample_pool False) = Some (Waiting 1, k1)" "rt_thread_timeout 1 k1 = Some k2" "on_tlist k2 (Mp_wait 5) = []"
    "\<forall>k3 i. mempools k3 5 = mempools k2 5 \<and> on_tlist k3 (Mp_wait 5) = [] \<longrightarrow> rt_mp_free 5 i k3 = None"
    using pool_timeout_breaks_free [of "sample_pool False" 5 1 7 2 0] sample_pool_ok [of False] by auto
  then show ?thesis by blast
qed

end
