(* ===== verification/RT_Completion.thy ===== *)
theory RT_Completion
  imports RT_Ipc
begin

text \<open>
  Completions, \<^verbatim>\<open>kernel/utilities/completion.c\<close>: a counter of events that were signalled and not yet consumed, with
  threads waiting for one.  The largest value of the counter stands for an event that is never consumed.
\<close>

section \<open>The code\<close>

definition UINT_MAX :: rt_uint32_t where
  "UINT_MAX = 0xffffffff"

definition rt_completion_init :: "nat \<Rightarrow> kernel \<Rightarrow> kernel option" where
  "rt_completion_init c k = tlist_init_head (Completion_wait c) (upd_cp c (\<lambda>cp. cp\<lparr>cp_flag := 0\<rparr>) k)"

text \<open>\<^verbatim>\<open>if (completion->flag != UINT_MAX) completion->flag--\<close> and the opposite.\<close>

definition cp_consume :: "rt_completion \<Rightarrow> rt_completion" where
  "cp_consume cp = (if cp_flag cp \<noteq> UINT_MAX then cp\<lparr>cp_flag := cp_flag cp - 1\<rparr> else cp)"

definition cp_signal :: "rt_completion \<Rightarrow> rt_completion" where
  "cp_signal cp = (if cp_flag cp \<noteq> UINT_MAX then cp\<lparr>cp_flag := cp_flag cp + 1\<rparr> else cp)"

definition rt_completion_wait :: "nat \<Rightarrow> 32 word \<Rightarrow> kernel \<Rightarrow> (rt_err_t outcome \<times> kernel) option" where
  "rt_completion_wait c timeout k =
     (if cp_flag (completions k c) = 0 then
        if timeout = 0 then Some (Finished (-RT_ETIMEOUT), k)
        else do {
          t \<leftarrow> rt_thread_self k;
          let k = upd_thread t (\<lambda>th. th\<lparr>th_error := RT_EOK\<rparr>) k;
          (_, k) \<leftarrow> rt_thread_suspend t k;
          k \<leftarrow> tlist_append (Completion_wait c) t k;
          RT_DEBUG_NOT_IN_INTERRUPT k;
          k \<leftarrow> sleep_on t timeout k;
          Some (Waiting t, k) }
      else Some (Finished RT_EOK, upd_cp c cp_consume k))"

text \<open>The result of a thread that waited is its error number; the counter is looked at again.\<close>

definition rt_completion_wait_back :: "nat \<Rightarrow> tid \<Rightarrow> kernel \<Rightarrow> rt_err_t \<times> kernel" where
  "rt_completion_wait_back c t k =
     (let result = - th_error (threads k t) in
      if cp_flag (completions k c) = 0 then (result, k) else (result, upd_cp c cp_consume k))"

definition rt_completion_done :: "nat \<Rightarrow> kernel \<Rightarrow> kernel option" where
  "rt_completion_done c k =
     (let k = upd_cp c cp_signal k in
      case on_tlist k (Completion_wait c) of
        [] \<Rightarrow> Some k
      | t # _ \<Rightarrow> do { (_, k) \<leftarrow> rt_thread_resume t k; rt_schedule k })"

text \<open>The loop that wakes everybody, with \<^verbatim>\<open>scheduled_flag\<close>.\<close>

partial_function (option) cp_resume_all :: "nat \<Rightarrow> bool \<Rightarrow> kernel \<Rightarrow> (bool \<times> kernel) option" where
  "cp_resume_all c scheduled_flag k =
     (case on_tlist k (Completion_wait c) of
        [] \<Rightarrow> Some (scheduled_flag, k)
      | t # _ \<Rightarrow> do { (_, k) \<leftarrow> rt_thread_resume t k; cp_resume_all c True k })"

declare cp_resume_all.simps [code]

definition rt_completion_all :: "nat \<Rightarrow> kernel \<Rightarrow> kernel option" where
  "rt_completion_all c k =
     do { let k = upd_cp c (\<lambda>cp. cp\<lparr>cp_flag := UINT_MAX\<rparr>) k;
          (scheduled_flag, k) \<leftarrow> cp_resume_all c False k;
          if scheduled_flag then rt_schedule k else Some k }"

definition rt_reinit_completion :: "nat \<Rightarrow> kernel \<Rightarrow> kernel" where
  "rt_reinit_completion c k = upd_cp c (\<lambda>cp. cp\<lparr>cp_flag := 0\<rparr>) k"

section \<open>Waiting and signalling\<close>

text \<open>There is an event to consume, once or for ever.\<close>

definition cp_avail :: "nat \<Rightarrow> kernel \<Rightarrow> bool" where
  "cp_avail c k \<longleftrightarrow> cp_flag (completions k c) \<noteq> 0"

interpretation cp_wait: waiting "Completion_wait c" "cp_avail c" for c
  by unfold_locales (simp_all add: cp_avail_def same_ipc_def)

lemma completion_waits:
  assumes inv: "sys_inv k" and un: "\<not> cp_avail c k" and cur: "rt_current_thread k = Some t" and st: "stat_of k t = RT_THREAD_READY"
    and ir: "rt_interrupt_nest k = 0" and time: "time \<noteq> 0" "time \<noteq> 0x7fffffff" and u: "stat_of k u = RT_THREAD_READY" "u \<noteq> t"
  shows "\<exists>k'. rt_completion_wait c time k = Some (Waiting t, k') \<and> sys_inv k' \<and> same_ipc k k'
    \<and> now_waiting (Completion_wait c) RT_IPC_FLAG_FIFO time t k k'"
proof -
  let ?q = "Completion_wait c" and ?K = "upd_thread t (\<lambda>th. th\<lparr>th_error := RT_EOK\<rparr>) k"
  obtain k' where k': "ipc_wait ?q t RT_IPC_FLAG_FIFO time ?K = Some k'" "sys_inv k'" "same_ipc k k'"
    "now_waiting ?q RT_IPC_FLAG_FIFO time t k k'"
    using cp_wait.block_now_waiting [OF inv un st _ time(2) u, where flag = RT_IPC_FLAG_FIFO] by auto
  obtain k1 k2 where k1: "rt_thread_suspend t ?K = Some (RT_EOK, k1)" "on_tlist k1 ?q = on_tlist ?K ?q"
    "tlist_insert_at ?q (length (on_tlist k ?q)) t k1 = Some k2" "same_ipc ?K k2"
    using suspend_insert_at [of ?K t ?q "length (on_tlist k ?q)"] sys_inv_upd_error [OF inv] st by auto
  have "tlist_append ?q t k1 = Some k2" using k1(2,3) by (simp add: tlist_append_at)
  moreover have "RT_DEBUG_NOT_IN_INTERRUPT k2 = Some ()"
    using k1(4) ir by (simp add: RT_DEBUG_NOT_IN_INTERRUPT_def rt_interrupt_get_nest_def same_ipc_def)
  ultimately have "rt_completion_wait c time k = Some (Waiting t, k')"
    using un cur time(1) k1(1) k'(1) by (simp add: rt_completion_wait_def cp_avail_def rt_thread_self_def ipc_wait_def rt_ipc_list_suspend_def)
  then show ?thesis using k' by blast
qed

lemma completion_done_wakes:
  assumes inv: "sys_inv k"
  shows "\<exists>k'. rt_completion_done c k = Some k' \<and> sys_inv k' \<and> woken_first (Completion_wait c) (upd_cp c cp_signal k) k'"
proof -
  have "rt_completion_done c k = ipc_wake (Completion_wait c) (upd_cp c cp_signal k)"
    by (simp add: rt_completion_done_def ipc_wake_def rt_ipc_list_resume_def Let_def split_def split: list.splits)
  then show ?thesis using ipc_wake_ok [of "upd_cp c cp_signal k" "Completion_wait c"] inv by simp
qed

lemma cp_resume_all_ok:
  "sys_inv k \<Longrightarrow> on_tlist k (Completion_wait c) = ts \<Longrightarrow>
    \<exists>k'. cp_resume_all c b k = Some (b \<or> ts \<noteq> [], k') \<and> sys_inv k' \<and> same_ipc k k' \<and> on_tlist k' (Completion_wait c) = []
      \<and> (\<forall>q'. is_wait_list q' \<and> q' \<noteq> Completion_wait c \<longrightarrow> on_tlist k' q' = on_tlist k q')
      \<and> (\<forall>t\<in>set ts. stat_of k' t = RT_THREAD_READY \<and> th_error (threads k' t) = th_error (threads k t))
      \<and> (\<forall>t. t \<notin> set ts \<longrightarrow> threads k' t = threads k t)"
proof (induction ts arbitrary: k b)
  case Nil
  then show ?case by (subst cp_resume_all.simps) simp
next
  case (Cons t ts)
  have q: "is_wait_list (Completion_wait c)" by simp
  obtain k1 where k1: "rt_thread_resume t k = Some (RT_EOK, k1)" "sys_inv k1" "same_ipc k k1"
    "threads k1 = (threads k)(t := set_stat RT_THREAD_READY (threads k t))" "on_tlist k1 (Completion_wait c) = ts"
    "\<forall>q'. is_wait_list q' \<and> q' \<noteq> Completion_wait c \<longrightarrow> on_tlist k1 q' = on_tlist k q'"
    using ipc_list_resume [OF Cons.prems(1) q Cons.prems(2)] by blast
  obtain k2 where k2: "cp_resume_all c True k1 = Some (True, k2)" "sys_inv k2" "same_ipc k1 k2" "on_tlist k2 (Completion_wait c) = []"
    "\<forall>q'. is_wait_list q' \<and> q' \<noteq> Completion_wait c \<longrightarrow> on_tlist k2 q' = on_tlist k1 q'"
    "\<forall>t\<in>set ts. stat_of k2 t = RT_THREAD_READY \<and> th_error (threads k2 t) = th_error (threads k1 t)"
    "\<forall>t. t \<notin> set ts \<longrightarrow> threads k2 t = threads k1 t"
    using Cons.IH [OF k1(2,5), of True] by auto
  have nt: "t \<notin> set ts" using wait_list_distinct [OF sys_invD(5) [OF Cons.prems(1)], of "Completion_wait c"] Cons.prems(2) by simp
  then have "threads k2 t = set_stat RT_THREAD_READY (threads k t)" using k2(7) k1(4) by simp
  then have "stat_of k2 t = RT_THREAD_READY \<and> th_error (threads k2 t) = th_error (threads k t)"
    by (simp add: stat_of_def set_stat_masked)
  moreover have "\<forall>u\<in>set ts. th_error (threads k1 u) = th_error (threads k u)" using k1(4) nt by auto
  moreover have "cp_resume_all c b k = Some (True, k2)"
    using Cons.prems(2) k1(1) k2(1) by (subst cp_resume_all.simps) simp
  moreover have "same_ipc k k2" using k1(3) k2(3) by (rule same_ipc_trans)
  ultimately show ?case using k1(4,6) k2 by (intro exI [of _ k2]) simp
qed

section \<open>Properties\<close>

text \<open>\<^verbatim>\<open>rt_completion_wait\<close> and \<^verbatim>\<open>rt_completion_done\<close> on every branch.  A wait consumes a pending event,
  gives up with \<^verbatim>\<open>-RT_ETIMEOUT\<close> when there is none and the caller does not want to wait, and otherwise puts the
  caller at the end of the list.  Signalling counts the event, up to the largest value, wakes the thread that has waited
  longest and lets a ready thread of the highest priority run.\<close>

theorem completion_correct:
  assumes "sys_inv k" and "rt_current_thread k = Some t" and "stat_of k t = RT_THREAD_READY"
    and "rt_interrupt_nest k = 0" and "rt_scheduler_lock_nest k = 0" and "time \<noteq> 0x7fffffff"
    and "stat_of k u = RT_THREAD_READY" "u \<noteq> t"
  shows "(cp_flag (completions k c) \<noteq> 0 \<longrightarrow> (\<exists>k'. rt_completion_wait c time k = Some (Finished RT_EOK, k') \<and> sys_inv k'
        \<and> unat (cp_flag (completions k' c)) = (if cp_flag (completions k c) = UINT_MAX then unat UINT_MAX else unat (cp_flag (completions k c)) - 1)
        \<and> threads k' = threads k))
    \<and> (cp_flag (completions k c) = 0 \<longrightarrow> rt_completion_wait c 0 k = Some (Finished (-RT_ETIMEOUT), k))
    \<and> (cp_flag (completions k c) = 0 \<and> time \<noteq> 0 \<longrightarrow> (\<exists>k'. rt_completion_wait c time k = Some (Waiting t, k') \<and> sys_inv k'
        \<and> completions k' = completions k \<and> stat_of k' t = RT_THREAD_SUSPEND
        \<and> on_tlist k' (Completion_wait c) = on_tlist k (Completion_wait c) @ [t]
        \<and> (home (timer_lists k') (Thread_timer t) \<noteq> None \<longleftrightarrow> 0 < sint time)
        \<and> (\<forall>v. v \<noteq> t \<longrightarrow> threads k' v = threads k v) \<and> (\<exists>v. rt_current_thread k' = Some v \<and> first_ready k' v)))
    \<and> (\<exists>k'. rt_completion_done c k = Some k' \<and> sys_inv k'
        \<and> unat (cp_flag (completions k' c)) = min (unat (cp_flag (completions k c)) + 1) (unat UINT_MAX)
        \<and> (case on_tlist k (Completion_wait c) of
             [] \<Rightarrow> threads k' = threads k
           | w # ws \<Rightarrow> on_tlist k' (Completion_wait c) = ws \<and> stat_of k' w = RT_THREAD_READY
               \<and> home (timer_lists k') (Thread_timer w) = None \<and> (\<forall>v. v \<noteq> w \<longrightarrow> threads k' v = threads k v)
               \<and> (\<exists>v. rt_current_thread k' = Some v \<and> first_ready k' v)))"
proof (intro conjI impI)
  let ?f = "cp_flag (completions k c)"
  assume f: "?f \<noteq> 0"
  have "unat (cp_flag (cp_consume (completions k c))) = (if ?f = UINT_MAX then unat UINT_MAX else unat ?f - 1)"
    using f by (simp add: cp_consume_def unat_minus_one)
  then show "\<exists>k'. rt_completion_wait c time k = Some (Finished RT_EOK, k') \<and> sys_inv k'
        \<and> unat (cp_flag (completions k' c)) = (if ?f = UINT_MAX then unat UINT_MAX else unat ?f - 1) \<and> threads k' = threads k"
    using f assms(1) by (simp add: rt_completion_wait_def)
next
  assume "cp_flag (completions k c) = 0"
  then show "rt_completion_wait c 0 k = Some (Finished (-RT_ETIMEOUT), k)" by (simp add: rt_completion_wait_def)
next
  assume z: "cp_flag (completions k c) = 0 \<and> time \<noteq> 0"
  then have "\<not> cp_avail c k" "time \<noteq> 0" by (simp_all add: cp_avail_def)
  from completion_waits [OF assms(1) this(1) assms(2-4) this(2) assms(6-8)] assms(5)
  show "\<exists>k'. rt_completion_wait c time k = Some (Waiting t, k') \<and> sys_inv k'
        \<and> completions k' = completions k \<and> stat_of k' t = RT_THREAD_SUSPEND
        \<and> on_tlist k' (Completion_wait c) = on_tlist k (Completion_wait c) @ [t]
        \<and> (home (timer_lists k') (Thread_timer t) \<noteq> None \<longleftrightarrow> 0 < sint time)
        \<and> (\<forall>v. v \<noteq> t \<longrightarrow> threads k' v = threads k v) \<and> (\<exists>v. rt_current_thread k' = Some v \<and> first_ready k' v)"
    by (auto simp: now_waiting_def same_ipc_def wait_order_def split: if_splits)
next
  let ?K = "upd_cp c cp_signal k"
  obtain k' where k': "rt_completion_done c k = Some k'" "sys_inv k'" "woken_first (Completion_wait c) ?K k'"
    using completion_done_wakes [OF assms(1)] by blast
  have "cp_flag (completions k' c) = cp_flag (cp_signal (completions k c))" using k'(3) by (simp add: woken_first_def same_ipc_def)
  moreover have "unat (cp_flag (cp_signal (completions k c))) = min (unat (cp_flag (completions k c)) + 1) (unat UINT_MAX)"
    using unsigned_less [where 'a = nat and w = "cp_flag (completions k c)"]
    by (auto simp: cp_signal_def UINT_MAX_def word_unat_eq_iff unat_word_ariths)
  moreover have "case on_tlist k (Completion_wait c) of
             [] \<Rightarrow> threads k' = threads k
           | w # ws \<Rightarrow> on_tlist k' (Completion_wait c) = ws \<and> stat_of k' w = RT_THREAD_READY
               \<and> home (timer_lists k') (Thread_timer w) = None \<and> (\<forall>v. v \<noteq> w \<longrightarrow> threads k' v = threads k v)
               \<and> (\<exists>v. rt_current_thread k' = Some v \<and> first_ready k' v)"
  proof (cases "on_tlist k (Completion_wait c)")
    case Nil
    then show ?thesis using k'(3) by (simp add: woken_first_def)
  next
    case (Cons w ws)
    then have "on_tlist ?K (Completion_wait c) = w # ws" by simp
    from woken_first_thread [OF k'(3) this] k'(3) Cons assms(5) show ?thesis by (simp add: woken_first_def)
  qed
  ultimately show "\<exists>k'. rt_completion_done c k = Some k' \<and> sys_inv k'
        \<and> unat (cp_flag (completions k' c)) = min (unat (cp_flag (completions k c)) + 1) (unat UINT_MAX)
        \<and> (case on_tlist k (Completion_wait c) of
             [] \<Rightarrow> threads k' = threads k
           | w # ws \<Rightarrow> on_tlist k' (Completion_wait c) = ws \<and> stat_of k' w = RT_THREAD_READY
               \<and> home (timer_lists k') (Thread_timer w) = None \<and> (\<forall>v. v \<noteq> w \<longrightarrow> threads k' v = threads k v)
               \<and> (\<exists>v. rt_current_thread k' = Some v \<and> first_ready k' v))" using k'(1,2) by auto
qed

definition sample_completion :: "rt_uint32_t \<Rightarrow> kernel" where
  "sample_completion n = upd_cp 5 (\<lambda>_. \<lparr>cp_flag = n\<rparr>) sample"

lemma sample_completion_ok:
  "sys_inv (sample_completion n)" "rt_current_thread (sample_completion n) = Some (Suc 0)" "stat_of (sample_completion n) (Suc 0) = RT_THREAD_READY"
  "stat_of (sample_completion n) 2 = RT_THREAD_READY" "rt_interrupt_nest (sample_completion n) = 0" "rt_scheduler_lock_nest (sample_completion n) = 0"
  "cp_flag (completions (sample_completion n) 5) = n" "on_tlist (sample_completion n) (Completion_wait 5) = []"
  using sample_facts sample_sys_inv by (simp_all add: sample_completion_def on_tlist_def)

theorem completion_correct_witness:
  "(\<exists>k'. rt_completion_wait 5 0 (sample_completion 3) = Some (Finished RT_EOK, k') \<and> unat (cp_flag (completions k' 5)) = 2)
    \<and> (\<exists>k'. rt_completion_wait 5 7 (sample_completion 0) = Some (Waiting 1, k') \<and> on_tlist k' (Completion_wait 5) = [1])
    \<and> (\<exists>k'. rt_completion_done 5 (sample_completion UINT_MAX) = Some k' \<and> unat (cp_flag (completions k' 5)) = unat UINT_MAX)"
  using completion_correct [of "sample_completion 3" 1 0 2 5] completion_correct [of "sample_completion 0" 1 7 2 5]
    completion_correct [of "sample_completion UINT_MAX" 1 0 2 5]
    sample_completion_ok [of 3] sample_completion_ok [of 0] sample_completion_ok [of UINT_MAX]
  by (auto simp: UINT_MAX_def)

text \<open>A thread that waits for an event, for the properties of what it gets.\<close>

lemma completion_waiter:
  assumes "sys_inv k" and "cp_flag (completions k c) = 0" and "on_tlist k (Completion_wait c) = []"
    and "rt_current_thread k = Some t" and "stat_of k t = RT_THREAD_READY" and "rt_interrupt_nest k = 0"
    and "time \<noteq> 0" "time \<noteq> 0x7fffffff" and "stat_of k u = RT_THREAD_READY" "u \<noteq> t"
  obtains k1 where "rt_completion_wait c time k = Some (Waiting t, k1)" "sys_inv k1" "on_tlist k1 (Completion_wait c) = [t]"
    "stat_of k1 t = RT_THREAD_SUSPEND" "th_error (threads k1 t) = RT_EOK" "cp_flag (completions k1 c) = 0"
proof -
  have "\<not> cp_avail c k" using assms(2) by (simp add: cp_avail_def)
  from completion_waits [OF assms(1) this assms(4-10)] assms(2,3) that show ?thesis
    by (auto simp: now_waiting_def same_ipc_def wait_order_def)
qed

lemma completion_done_one:
  assumes "sys_inv k" and "on_tlist k (Completion_wait c) = [t]" and "cp_flag (completions k c) = 0"
  shows "\<exists>k'. rt_completion_done c k = Some k' \<and> stat_of k' t = RT_THREAD_READY \<and> th_error (threads k' t) = th_error (threads k t)
    \<and> cp_flag (completions k' c) = 1 \<and> on_tlist k' (Completion_wait c) = []"
proof -
  obtain k' where k': "rt_completion_done c k = Some k'" "woken_first (Completion_wait c) (upd_cp c cp_signal k) k'"
    using completion_done_wakes [OF assms(1)] by blast
  moreover have l: "on_tlist (upd_cp c cp_signal k) (Completion_wait c) = [t]" using assms(2) by simp
  moreover have "cp_flag (completions k' c) = cp_flag (cp_signal (completions k c))" using k'(2) by (simp add: woken_first_def same_ipc_def)
  ultimately show ?thesis using woken_first_thread [OF k'(2) l] assms(3)
    by (auto simp: woken_first_def cp_signal_def UINT_MAX_def)
qed

text \<open>What a thread that blocked in \<^verbatim>\<open>rt_completion_wait\<close> returns when it runs next: \<^verbatim>\<open>RT_EOK\<close> after a
  signal, which it consumes; \<^verbatim>\<open>RT_EOK\<close> after \<^verbatim>\<open>rt_completion_all\<close>, which is not consumed; \<^verbatim>\<open>-RT_ETIMEOUT\<close>
  when its time is over.\<close>

theorem completion_results:
  assumes "sys_inv k" and "cp_flag (completions k c) = 0" and "on_tlist k (Completion_wait c) = []"
    and "rt_current_thread k = Some t" and "stat_of k t = RT_THREAD_READY" and "rt_interrupt_nest k = 0"
    and "time \<noteq> 0" "time \<noteq> 0x7fffffff" and "stat_of k u = RT_THREAD_READY" "u \<noteq> t"
  shows "\<exists>k1. rt_completion_wait c time k = Some (Waiting t, k1)
    \<and> (\<exists>k2 k3. rt_completion_done c k1 = Some k2 \<and> stat_of k2 t = RT_THREAD_READY \<and> rt_completion_wait_back c t k2 = (RT_EOK, k3)
         \<and> cp_flag (completions k3 c) = 0)
    \<and> (\<exists>k2 k3. rt_completion_all c k1 = Some k2 \<and> stat_of k2 t = RT_THREAD_READY \<and> rt_completion_wait_back c t k2 = (RT_EOK, k3)
         \<and> cp_flag (completions k3 c) = UINT_MAX)
    \<and> (\<exists>k2. rt_thread_timeout t k1 = Some k2 \<and> stat_of k2 t = RT_THREAD_READY \<and> rt_completion_wait_back c t k2 = (-RT_ETIMEOUT, k2))"
proof -
  obtain k1 where k1: "rt_completion_wait c time k = Some (Waiting t, k1)" "sys_inv k1" "on_tlist k1 (Completion_wait c) = [t]"
    "stat_of k1 t = RT_THREAD_SUSPEND" "th_error (threads k1 t) = RT_EOK" "cp_flag (completions k1 c) = 0"
    by (rule completion_waiter [OF assms])
  note d = sys_invD [OF k1(2)]
  obtain k2 where k2: "rt_completion_done c k1 = Some k2" "stat_of k2 t = RT_THREAD_READY" "th_error (threads k2 t) = RT_EOK"
    "cp_flag (completions k2 c) = 1" using completion_done_one [OF k1(2,3,6)] k1(5) by auto
  have b2: "rt_completion_wait_back c t k2 = (RT_EOK, upd_cp c cp_consume k2)" "cp_flag (completions (upd_cp c cp_consume k2) c) = 0"
    using k2(3,4) by (simp_all add: rt_completion_wait_back_def cp_consume_def UINT_MAX_def Let_def) (simp add: rt_consts)
  let ?K = "upd_cp c (\<lambda>cp. cp\<lparr>cp_flag := UINT_MAX\<rparr>) k1"
  obtain k3 where k3: "cp_resume_all c False ?K = Some (True, k3)" "sys_inv k3" "same_ipc ?K k3" "stat_of k3 t = RT_THREAD_READY"
    "th_error (threads k3 t) = RT_EOK" using cp_resume_all_ok [of ?K c "[t]" False] k1(2,3,5) by auto
  obtain k4 where k4: "rt_schedule k3 = Some k4" "threads k4 = threads k3" "same_ipc k3 k4" using sys_schedule [OF k3(2,4)] by blast
  have a: "rt_completion_all c k1 = Some k4" using k3(1) k4(1) by (simp add: rt_completion_all_def)
  have f4: "cp_flag (completions k4 c) = UINT_MAX" "th_error (threads k4 t) = RT_EOK" "stat_of k4 t = RT_THREAD_READY"
    using k3(3-5) k4(2,3) by (simp_all add: same_ipc_def stat_of_def)
  have b4: "rt_completion_wait_back c t k4 = (RT_EOK, upd_cp c cp_consume k4)" "cp_flag (completions (upd_cp c cp_consume k4) c) = UINT_MAX"
    using f4 by (simp_all add: rt_completion_wait_back_def cp_consume_def Let_def) (simp add: rt_consts UINT_MAX_def)
  obtain k5 where k5: "rt_thread_timeout t k1 = Some k5" "stat_of k5 t = RT_THREAD_READY" "th_error (threads k5 t) = RT_ETIMEOUT" "same_ipc k1 k5"
    using timeout_wakes [OF d(4) _ k1(4) d(7,8)] sys_inv_thread [OF k1(2) aliveI(2) [OF k1(4)]] by blast
  have "rt_completion_wait_back c t k5 = (-RT_ETIMEOUT, k5)" using k5(3,4) k1(6) by (simp add: rt_completion_wait_back_def same_ipc_def)
  then show ?thesis using k1(1) k2(1,2) b2 a f4(3) b4 k5(1,2) by blast
qed

theorem completion_results_witness:
  "\<exists>k1 k2 k3. rt_completion_wait 5 7 (sample_completion 0) = Some (Waiting 1, k1) \<and> rt_completion_done 5 k1 = Some k2
    \<and> rt_completion_wait_back 5 1 k2 = (RT_EOK, k3) \<and> cp_flag (completions k3 5) = 0"
  using completion_results [of "sample_completion 0" 5 1 7 2] sample_completion_ok [of 0] by auto

text \<open>C26: a waiting thread that does not run at once gets the wrong answer in two ways.  If another thread
  consumes the event first, both report success for one signal, because the waiter returns its error number without an
  event.  If its time was over just before the signal, the waiter consumes the event and still reports
  \<^verbatim>\<open>-RT_ETIMEOUT\<close>: the event is lost.\<close>

theorem completion_wrong_answers:
  assumes "sys_inv k" and "cp_flag (completions k c) = 0" and "on_tlist k (Completion_wait c) = []"
    and "rt_current_thread k = Some t" and "stat_of k t = RT_THREAD_READY" and "rt_interrupt_nest k = 0"
    and "time \<noteq> 0" "time \<noteq> 0x7fffffff" and "stat_of k u = RT_THREAD_READY" "u \<noteq> t"
  shows "\<exists>k1. rt_completion_wait c time k = Some (Waiting t, k1)
    \<and> (\<exists>k2 k3. rt_completion_done c k1 = Some k2 \<and> rt_completion_wait c 0 k2 = Some (Finished RT_EOK, k3)
         \<and> rt_completion_wait_back c t k3 = (RT_EOK, k3))
    \<and> (\<exists>k2 k3 k4. rt_thread_timeout t k1 = Some k2 \<and> rt_completion_done c k2 = Some k3
         \<and> rt_completion_wait_back c t k3 = (-RT_ETIMEOUT, k4) \<and> cp_flag (completions k4 c) = 0)"
proof -
  obtain k1 where k1: "rt_completion_wait c time k = Some (Waiting t, k1)" "sys_inv k1" "on_tlist k1 (Completion_wait c) = [t]"
    "stat_of k1 t = RT_THREAD_SUSPEND" "th_error (threads k1 t) = RT_EOK" "cp_flag (completions k1 c) = 0"
    by (rule completion_waiter [OF assms])
  note d = sys_invD [OF k1(2)]
  obtain k2 where k2: "rt_completion_done c k1 = Some k2" "th_error (threads k2 t) = RT_EOK" "cp_flag (completions k2 c) = 1"
    using completion_done_one [OF k1(2,3,6)] k1(5) by auto
  have "rt_completion_wait c 0 k2 = Some (Finished RT_EOK, upd_cp c cp_consume k2)"
    "rt_completion_wait_back c t (upd_cp c cp_consume k2) = (RT_EOK, upd_cp c cp_consume k2)"
    using k2(2,3) by (simp_all add: rt_completion_wait_def rt_completion_wait_back_def cp_consume_def UINT_MAX_def Let_def) (simp add: rt_consts)
  moreover obtain k5 where k5: "rt_thread_timeout t k1 = Some k5" "th_error (threads k5 t) = RT_ETIMEOUT" "same_ipc k1 k5"
    "on_tlist k5 (Completion_wait c) = []"
    using timeout_wakes [OF d(4) _ k1(4) d(7,8)] sys_inv_thread [OF k1(2) aliveI(2) [OF k1(4)]] k1(3) by auto
  let ?k6 = "upd_cp c cp_signal k5"
  have "cp_flag (completions k5 c) = 0" using k5(3) k1(6) by (simp add: same_ipc_def)
  then have "rt_completion_done c k5 = Some ?k6" "rt_completion_wait_back c t ?k6 = (-RT_ETIMEOUT, upd_cp c cp_consume ?k6)"
    "cp_flag (completions (upd_cp c cp_consume ?k6) c) = 0"
    using k5(2,4) by (simp_all add: rt_completion_done_def rt_completion_wait_back_def cp_signal_def cp_consume_def UINT_MAX_def Let_def)
  ultimately show ?thesis using k1(1) k2(1) k5(1) by blast
qed

theorem completion_wrong_answers_witness:
  "\<exists>k1 k2 k3 k4. rt_completion_wait 5 7 (sample_completion 0) = Some (Waiting 1, k1) \<and> rt_thread_timeout 1 k1 = Some k2
    \<and> rt_completion_done 5 k2 = Some k3 \<and> rt_completion_wait_back 5 1 k3 = (-RT_ETIMEOUT, k4) \<and> cp_flag (completions k4 5) = 0"
  using completion_wrong_answers [of "sample_completion 0" 5 1 7 2] sample_completion_ok [of 0] by auto

end
