(* ===== verification/RT_Dataqueue.thy ===== *)
theory RT_Dataqueue
  imports RT_Ipc RT_Ring
begin

text \<open>
  Data queues, \<^verbatim>\<open>kernel/utilities/dataqueue.c\<close>: a ring of items, a pointer and a length each, with threads waiting to
  push and threads waiting to pop.  The two indices are 16-bit counters that are reduced modulo the size only to access
  the ring; the differences of the indices are computed in type \<^verbatim>\<open>int\<close>.  A notification function, if there is one, is
  called as the last action of a service: the function and the event are part of the result.
\<close>

section \<open>The code\<close>

type_synonym data_item = "rt_uint32_t \<times> rt_uint32_t"
type_synonym notification = "(nat \<times> rt_uint32_t) option"

definition RT_DATAQUEUE_EVENT_POP :: rt_uint32_t where [rt_consts]: "RT_DATAQUEUE_EVENT_POP = 1"
definition RT_DATAQUEUE_EVENT_PUSH :: rt_uint32_t where [rt_consts]: "RT_DATAQUEUE_EVENT_PUSH = 2"
definition RT_DATAQUEUE_EVENT_LWM :: rt_uint32_t where [rt_consts]: "RT_DATAQUEUE_EVENT_LWM = 3"

definition dq_notify :: "rt_uint32_t \<Rightarrow> rt_data_queue \<Rightarrow> notification" where
  "dq_notify event d = map_option (\<lambda>f. (f, event)) (dq_evt_notify d)"

text \<open>\<open>malloc n\<close> is the memory of \<open>n\<close> items the allocator gives.\<close>

definition rt_data_queue_init ::
    "nat \<Rightarrow> rt_uint16_t \<Rightarrow> rt_uint16_t \<Rightarrow> nat option \<Rightarrow> (nat \<Rightarrow> data_item list option) \<Rightarrow> kernel \<Rightarrow> (rt_err_t \<times> kernel) option" where
  "rt_data_queue_init q sz lwm evt_notify malloc k =
     do { let k = upd_dq q (\<lambda>d. d\<lparr>dq_evt_notify := evt_notify, dq_size := sz, dq_lwm := lwm, dq_get_index := 0, dq_put_index := 0\<rparr>) k;
          k \<leftarrow> tlist_init_head (Dq_push_wait q) k;
          k \<leftarrow> tlist_init_head (Dq_pop_wait q) k;
          case malloc (unat sz) of
            None \<Rightarrow> Some (-RT_ENOMEM, upd_dq q (\<lambda>d. d\<lparr>dq_queue := []\<rparr>) k)
          | Some items \<Rightarrow> Some (RT_EOK, upd_dq q (\<lambda>d. d\<lparr>dq_queue := items\<rparr>) k) }"

text \<open>The two conditions on the indices, as comparisons of integers.\<close>

definition dq_full :: "rt_data_queue \<Rightarrow> bool" where
  "dq_full d \<longleftrightarrow> uint (dq_put_index d) - uint (dq_get_index d) = uint (dq_size d)"

definition dq_low :: "rt_data_queue \<Rightarrow> bool" where
  "dq_low d \<longleftrightarrow> uint (dq_put_index d) - uint (dq_get_index d) \<le> uint (dq_lwm d)"

text \<open>The accesses to the ring; an index modulo zero or outside of the memory has no meaning.\<close>

definition dq_store :: "data_item \<Rightarrow> rt_data_queue \<Rightarrow> rt_data_queue option" where
  "dq_store item d =
     do { RT_ASSERT (dq_size d \<noteq> 0);
          let i = unat (dq_put_index d mod dq_size d);
          RT_ASSERT (i < length (dq_queue d));
          Some (d\<lparr>dq_queue := (dq_queue d)[i := item], dq_put_index := dq_put_index d + 1\<rparr>) }"

definition dq_peek :: "rt_data_queue \<Rightarrow> data_item option" where
  "dq_peek d =
     do { RT_ASSERT (dq_size d \<noteq> 0);
          let i = unat (dq_get_index d mod dq_size d);
          RT_ASSERT (i < length (dq_queue d));
          Some (dq_queue d ! i) }"

definition dq_push_loop :: "nat \<Rightarrow> data_item \<Rightarrow> 32 word \<Rightarrow> tid option \<Rightarrow> kernel \<Rightarrow> ((rt_err_t \<times> notification) outcome \<times> kernel) option" where
  "dq_push_loop q item timeout self k =
     (if dq_full (dataqs k q) then
        if timeout = 0 then Some (Finished (-RT_ETIMEOUT, None), k)
        else do {
          RT_DEBUG_NOT_IN_INTERRUPT k;
          t \<leftarrow> self;
          let k = upd_thread t (\<lambda>th. th\<lparr>th_error := RT_EOK\<rparr>) k;
          (_, k) \<leftarrow> rt_thread_suspend t k;
          k \<leftarrow> tlist_append (Dq_push_wait q) t k;
          k \<leftarrow> sleep_on t timeout k;
          Some (Waiting t, k) }
      else
        do { d \<leftarrow> dq_store item (dataqs k q);
             let k = upd_dq q (\<lambda>_. d) k;
             case on_tlist k (Dq_pop_wait q) of
               [] \<Rightarrow> Some (Finished (RT_EOK, dq_notify RT_DATAQUEUE_EVENT_PUSH d), k)
             | t # _ \<Rightarrow> do { (_, k) \<leftarrow> rt_thread_resume t k; k \<leftarrow> rt_schedule k; Some (Finished (RT_EOK, None), k) } })"

definition rt_data_queue_push ::
    "nat \<Rightarrow> data_item \<Rightarrow> 32 word \<Rightarrow> kernel \<Rightarrow> ((rt_err_t \<times> notification) outcome \<times> kernel) option" where
  "rt_data_queue_push q item timeout k = dq_push_loop q item timeout (rt_thread_self k) k"

text \<open>A thread that is woken goes back to the head of the loop with its whole time.\<close>

definition rt_data_queue_push_back ::
    "nat \<Rightarrow> data_item \<Rightarrow> 32 word \<Rightarrow> tid \<Rightarrow> kernel \<Rightarrow> ((rt_err_t \<times> notification) outcome \<times> kernel) option" where
  "rt_data_queue_push_back q item timeout t k =
     (if th_error (threads k t) \<noteq> RT_EOK then Some (Finished (- th_error (threads k t), None), k)
      else dq_push_loop q item timeout (Some t) k)"

definition dq_pop_loop ::
    "nat \<Rightarrow> 32 word \<Rightarrow> tid option \<Rightarrow> kernel \<Rightarrow> ((rt_err_t \<times> data_item option \<times> notification) outcome \<times> kernel) option" where
  "dq_pop_loop q timeout self k =
     (if dq_get_index (dataqs k q) = dq_put_index (dataqs k q) then
        if timeout = 0 then Some (Finished (-RT_ETIMEOUT, None, None), k)
        else do {
          RT_DEBUG_NOT_IN_INTERRUPT k;
          t \<leftarrow> self;
          let k = upd_thread t (\<lambda>th. th\<lparr>th_error := RT_EOK\<rparr>) k;
          (_, k) \<leftarrow> rt_thread_suspend t k;
          k \<leftarrow> tlist_append (Dq_pop_wait q) t k;
          k \<leftarrow> sleep_on t timeout k;
          Some (Waiting t, k) }
      else
        do { item \<leftarrow> dq_peek (dataqs k q);
             let k = upd_dq q (\<lambda>d. d\<lparr>dq_get_index := dq_get_index d + 1\<rparr>) k;
             if dq_low (dataqs k q) then
               do { k \<leftarrow> (case on_tlist k (Dq_push_wait q) of
                           [] \<Rightarrow> Some k
                         | t # _ \<Rightarrow> do { (_, k) \<leftarrow> rt_thread_resume t k; rt_schedule k });
                    Some (Finished (RT_EOK, Some item, dq_notify RT_DATAQUEUE_EVENT_LWM (dataqs k q)), k) }
             else Some (Finished (RT_EOK, Some item, dq_notify RT_DATAQUEUE_EVENT_POP (dataqs k q)), k) })"

definition rt_data_queue_pop ::
    "nat \<Rightarrow> 32 word \<Rightarrow> kernel \<Rightarrow> ((rt_err_t \<times> data_item option \<times> notification) outcome \<times> kernel) option" where
  "rt_data_queue_pop q timeout k = dq_pop_loop q timeout (rt_thread_self k) k"

definition rt_data_queue_pop_back ::
    "nat \<Rightarrow> 32 word \<Rightarrow> tid \<Rightarrow> kernel \<Rightarrow> ((rt_err_t \<times> data_item option \<times> notification) outcome \<times> kernel) option" where
  "rt_data_queue_pop_back q timeout t k =
     (if th_error (threads k t) \<noteq> RT_EOK then Some (Finished (- th_error (threads k t), None, None), k)
      else dq_pop_loop q timeout (Some t) k)"

definition rt_data_queue_peak :: "nat \<Rightarrow> kernel \<Rightarrow> (rt_err_t \<times> data_item option) option" where
  "rt_data_queue_peak q k =
     (if dq_get_index (dataqs k q) = dq_put_index (dataqs k q) then Some (-RT_EEMPTY, None)
      else do { item \<leftarrow> dq_peek (dataqs k q); Some (RT_EOK, Some item) })"

text \<open>Only the waiting threads are touched, not the items.\<close>

definition rt_data_queue_reset :: "nat \<Rightarrow> kernel \<Rightarrow> kernel option" where
  "rt_data_queue_reset q k =
     do { let k = rt_enter_critical k;
          k \<leftarrow> rt_ipc_list_resume_all (Dq_pop_wait q) k;
          k \<leftarrow> rt_ipc_list_resume_all (Dq_push_wait q) k;
          k \<leftarrow> rt_exit_critical k;
          rt_schedule k }"

section \<open>The ring\<close>

text \<open>Before the index of the writer wraps around, the indices say how many items there are.\<close>

definition dq_wf :: "rt_data_queue \<Rightarrow> bool" where
  "dq_wf d \<longleftrightarrow> 0 < unat (dq_size d) \<and> length (dq_queue d) = unat (dq_size d) \<and> unat (dq_get_index d) \<le> unat (dq_put_index d)
     \<and> unat (dq_put_index d) - unat (dq_get_index d) \<le> unat (dq_size d)"

definition dq_items :: "rt_data_queue \<Rightarrow> data_item list" where
  "dq_items d = ring_read (unat (dq_size d)) (unat (dq_get_index d)) (unat (dq_put_index d) - unat (dq_get_index d)) (dq_queue d)"

lemma dq_items_length [simp]: "length (dq_items d) = unat (dq_put_index d) - unat (dq_get_index d)"
  by (simp add: dq_items_def)

lemma dq_full_iff: "dq_wf d \<Longrightarrow> dq_full d \<longleftrightarrow> length (dq_items d) = unat (dq_size d)"
  unfolding dq_full_def dq_wf_def dq_items_length uint_nat by (intro iffI; linarith)

lemma dq_empty_iff: "dq_wf d \<Longrightarrow> dq_get_index d = dq_put_index d \<longleftrightarrow> dq_items d = []"
  by (auto simp: dq_wf_def word_unat_eq_iff simp flip: length_0_conv)

lemma dq_low_iff: "dq_wf d \<Longrightarrow> dq_low d \<longleftrightarrow> length (dq_items d) \<le> unat (dq_lwm d)"
  unfolding dq_low_def dq_wf_def dq_items_length uint_nat by (intro iffI; linarith)

lemma dq_store_ok:
  assumes wf: "dq_wf d" and room: "length (dq_items d) < unat (dq_size d)" and nw: "dq_put_index d \<noteq> -1"
  shows "\<exists>d'. dq_store item d = Some d' \<and> dq_wf d' \<and> dq_items d' = dq_items d @ [item] \<and> dq_size d' = dq_size d \<and> dq_lwm d' = dq_lwm d
    \<and> dq_evt_notify d' = dq_evt_notify d \<and> unat (dq_put_index d') = Suc (unat (dq_put_index d))"
proof -
  define sz where "sz = unat (dq_size d)"
  define g where "g = unat (dq_get_index d)"
  define n where "n = unat (dq_put_index d) - g"
  have w: "0 < sz" "length (dq_queue d) = sz" "unat (dq_put_index d) = g + n" "n < sz"
    using wf room by (simp_all add: dq_wf_def sz_def g_def n_def)
  have z: "dq_size d \<noteq> 0" using w(1) by (metis less_irrefl sz_def unsigned_0)
  have u: "unat (dq_put_index d + 1) = Suc (g + n)" using nw w(3) by (metis add.commute add_eq_0_iff2 unatSuc)
  have i: "unat (dq_put_index d mod dq_size d) = (g + n) mod sz" by (simp add: unat_mod w(3) sz_def)
  define d' where "d' = d\<lparr>dq_queue := (dq_queue d)[(g + n) mod sz := item], dq_put_index := dq_put_index d + 1\<rparr>"
  have "dq_store item d = Some d'" using z w mod_less_divisor [OF w(1), of "g + n"] by (simp add: dq_store_def i d'_def)
  moreover have "dq_wf d'" using w u by (simp add: dq_wf_def d'_def sz_def [symmetric] g_def [symmetric])
  moreover have "dq_items d' = dq_items d @ [item]"
    using ring_read_snoc [of n sz "dq_queue d" g item] w u
    by (simp add: dq_items_def d'_def sz_def [symmetric] g_def [symmetric])
  ultimately show ?thesis using u w(3) by (simp add: d'_def)
qed

lemma dq_fetch_ok:
  assumes wf: "dq_wf d" and it: "dq_items d = item # items"
  shows "dq_peek d = Some item" "dq_wf (d\<lparr>dq_get_index := dq_get_index d + 1\<rparr>)" "dq_items (d\<lparr>dq_get_index := dq_get_index d + 1\<rparr>) = items"
proof -
  define sz where "sz = unat (dq_size d)"
  define g where "g = unat (dq_get_index d)"
  have n: "unat (dq_put_index d) = g + Suc (length items)" and w: "0 < sz" "length (dq_queue d) = sz" "Suc (length items) \<le> sz"
    using wf arg_cong [OF it, of length] by (simp_all add: dq_wf_def sz_def g_def)
  have z: "dq_size d \<noteq> 0" using w(1) by (metis less_irrefl sz_def unsigned_0)
  have "unat (dq_get_index d) + 1 < 65536" using n unsigned_less [where 'a = nat and w = "dq_put_index d"] by (simp add: g_def)
  then have u: "unat (dq_get_index d + 1) = Suc g" by (simp add: unat_word_ariths g_def)
  have i: "unat (dq_get_index d mod dq_size d) = g mod sz" by (simp add: unat_mod sz_def g_def)
  have r: "dq_items d = dq_queue d ! (g mod sz) # ring_read sz (Suc g) (length items) (dq_queue d)"
    by (simp add: dq_items_def n sz_def [symmetric] g_def [symmetric] ring_read_Cons)
  show "dq_peek d = Some item" using z w it r mod_less_divisor [OF w(1), of g] by (simp add: dq_peek_def i)
  show "dq_wf (d\<lparr>dq_get_index := dq_get_index d + 1\<rparr>)" using w n u by (simp add: dq_wf_def sz_def [symmetric])
  show "dq_items (d\<lparr>dq_get_index := dq_get_index d + 1\<rparr>) = items"
    using it r u n by (simp add: dq_items_def sz_def [symmetric])
qed

section \<open>The services\<close>

definition dq_has_room :: "nat \<Rightarrow> kernel \<Rightarrow> bool" where
  "dq_has_room q k \<longleftrightarrow> \<not> dq_full (dataqs k q)"

definition dq_has_item :: "nat \<Rightarrow> kernel \<Rightarrow> bool" where
  "dq_has_item q k \<longleftrightarrow> dq_get_index (dataqs k q) \<noteq> dq_put_index (dataqs k q)"

interpretation dq_pushers: waiting "Dq_push_wait q" "dq_has_room q" for q
  by unfold_locales (simp_all add: dq_has_room_def same_ipc_def)

interpretation dq_poppers: waiting "Dq_pop_wait q" "dq_has_item q" for q
  by unfold_locales (simp_all add: dq_has_item_def same_ipc_def)

lemma dq_push_waits:
  assumes inv: "sys_inv k" and full: "dq_full (dataqs k q)" and cur: "rt_current_thread k = Some t" and st: "stat_of k t = RT_THREAD_READY"
    and ir: "rt_interrupt_nest k = 0" and time: "time \<noteq> 0" "time \<noteq> 0x7fffffff" and u: "stat_of k u = RT_THREAD_READY" "u \<noteq> t"
  shows "\<exists>k'. rt_data_queue_push q item time k = Some (Waiting t, k') \<and> sys_inv k' \<and> same_ipc k k'
    \<and> now_waiting (Dq_push_wait q) RT_IPC_FLAG_FIFO time t k k'"
proof -
  have "\<not> dq_has_room q k" using full by (simp add: dq_has_room_def)
  then obtain k' where k': "ipc_wait (Dq_push_wait q) t RT_IPC_FLAG_FIFO time (upd_thread t (\<lambda>th. th\<lparr>th_error := RT_EOK\<rparr>) k) = Some k'" "sys_inv k'"
    "same_ipc k k'" "now_waiting (Dq_push_wait q) RT_IPC_FLAG_FIFO time t k k'"
    using dq_pushers.block_now_waiting [OF inv _ st _ time(2) u, where flag = RT_IPC_FLAG_FIFO] by blast
  then show ?thesis using full cur ir time(1)
    by (simp add: rt_data_queue_push_def dq_push_loop_def rt_thread_self_def RT_DEBUG_NOT_IN_INTERRUPT_def rt_interrupt_get_nest_def wait_fifo)
qed

lemma dq_pop_waits:
  assumes inv: "sys_inv k" and em: "dq_get_index (dataqs k q) = dq_put_index (dataqs k q)" and cur: "rt_current_thread k = Some t"
    and st: "stat_of k t = RT_THREAD_READY"
    and ir: "rt_interrupt_nest k = 0" and time: "time \<noteq> 0" "time \<noteq> 0x7fffffff" and u: "stat_of k u = RT_THREAD_READY" "u \<noteq> t"
  shows "\<exists>k'. rt_data_queue_pop q time k = Some (Waiting t, k') \<and> sys_inv k' \<and> same_ipc k k'
    \<and> now_waiting (Dq_pop_wait q) RT_IPC_FLAG_FIFO time t k k'"
proof -
  have "\<not> dq_has_item q k" using em by (simp add: dq_has_item_def)
  then obtain k' where k': "ipc_wait (Dq_pop_wait q) t RT_IPC_FLAG_FIFO time (upd_thread t (\<lambda>th. th\<lparr>th_error := RT_EOK\<rparr>) k) = Some k'" "sys_inv k'"
    "same_ipc k k'" "now_waiting (Dq_pop_wait q) RT_IPC_FLAG_FIFO time t k k'"
    using dq_poppers.block_now_waiting [OF inv _ st _ time(2) u, where flag = RT_IPC_FLAG_FIFO] by blast
  then show ?thesis using em cur ir time(1)
    by (simp add: rt_data_queue_pop_def dq_pop_loop_def rt_thread_self_def RT_DEBUG_NOT_IN_INTERRUPT_def rt_interrupt_get_nest_def wait_fifo)
qed

lemma dq_push_now:
  assumes inv: "sys_inv k" and nf: "\<not> dq_full (dataqs k q)" and d: "dq_store item (dataqs k q) = Some d"
  shows "\<exists>k'. dq_push_loop q item time self k = Some (Finished (RT_EOK, if on_tlist k (Dq_pop_wait q) = [] then dq_notify RT_DATAQUEUE_EVENT_PUSH d else None), k')
    \<and> sys_inv k' \<and> dataqs k' q = d \<and> woken_first (Dq_pop_wait q) (upd_dq q (\<lambda>_. d) k) k'"
proof -
  let ?K = "upd_dq q (\<lambda>_. d) k"
  obtain k' where k': "ipc_wake (Dq_pop_wait q) ?K = Some k'" "sys_inv k'" "woken_first (Dq_pop_wait q) ?K k'"
    using ipc_wake_ok [of ?K "Dq_pop_wait q"] inv by auto
  moreover have "dataqs k' q = d" using k'(3) by (simp add: woken_first_def same_ipc_def)
  ultimately show ?thesis using nf d
    by (cases "on_tlist k (Dq_pop_wait q)")
      (auto simp: dq_push_loop_def ipc_wake_def rt_ipc_list_resume_def split_def bind_Some_iff split: if_splits)
qed

lemma dq_pop_now:
  assumes inv: "sys_inv k" and ne: "dq_get_index (dataqs k q) \<noteq> dq_put_index (dataqs k q)" and p: "dq_peek (dataqs k q) = Some item"
  defines "d \<equiv> (dataqs k q)\<lparr>dq_get_index := dq_get_index (dataqs k q) + 1\<rparr>"
  shows "\<exists>k'. dq_pop_loop q time self k = Some (Finished (RT_EOK, Some item,
        dq_notify (if dq_low d then RT_DATAQUEUE_EVENT_LWM else RT_DATAQUEUE_EVENT_POP) d), k')
    \<and> sys_inv k' \<and> dataqs k' q = d
    \<and> (if dq_low d then woken_first (Dq_push_wait q) (upd_dq q (\<lambda>_. d) k) k' else k' = upd_dq q (\<lambda>_. d) k)"
proof -
  let ?K = "upd_dq q (\<lambda>_. d) k"
  have K: "upd_dq q (\<lambda>d. d\<lparr>dq_get_index := dq_get_index d + 1\<rparr>) k = ?K" by (simp add: upd_dq_def d_def)
  obtain k' where k': "ipc_wake (Dq_push_wait q) ?K = Some k'" "sys_inv k'" "woken_first (Dq_push_wait q) ?K k'"
    using ipc_wake_ok [of ?K "Dq_push_wait q"] inv by auto
  moreover have "dataqs k' q = d" using k'(3) by (simp add: woken_first_def same_ipc_def)
  moreover have "(case on_tlist k (Dq_push_wait q) of [] \<Rightarrow> Some ?K | t # _ \<Rightarrow> do { (_, k) \<leftarrow> rt_thread_resume t ?K; rt_schedule k }) = Some k'"
    using k'(1) [folded wake_first_eq] by simp
  ultimately show ?thesis using ne p inv by (simp add: dq_pop_loop_def K Let_def)
qed

section \<open>Properties\<close>

text \<open>The services that do not wait, as the operations of a queue.\<close>

definition dq_try_push :: "nat \<Rightarrow> kernel \<Rightarrow> data_item \<Rightarrow> (bool \<times> kernel) option" where
  "dq_try_push q k item =
     (case rt_data_queue_push q item 0 k of
        Some (Finished (e, _), k') \<Rightarrow> if e = RT_EOK then Some (True, k') else if e = -RT_ETIMEOUT then Some (False, k') else None
      | _ \<Rightarrow> None)"

definition dq_try_pop :: "nat \<Rightarrow> kernel \<Rightarrow> (data_item option \<times> kernel) option" where
  "dq_try_pop q k =
     (case rt_data_queue_pop q 0 k of
        Some (Finished (e, item, _), k') \<Rightarrow>
          if (e = RT_EOK \<and> item \<noteq> None) \<or> (e = -RT_ETIMEOUT \<and> item = None) then Some (item, k') else None
      | _ \<Rightarrow> None)"

lemma dq_try_push_ok:
  assumes inv: "sys_inv k" and wf: "dq_wf (dataqs k q)" and nw: "dq_put_index (dataqs k q) \<noteq> -1"
  shows "length (dq_items (dataqs k q)) = unat (dq_size (dataqs k q)) \<Longrightarrow> dq_try_push q k item = Some (False, k)"
    and "length (dq_items (dataqs k q)) \<noteq> unat (dq_size (dataqs k q)) \<Longrightarrow> \<exists>k'. dq_try_push q k item = Some (True, k') \<and> sys_inv k' \<and> dq_wf (dataqs k' q)
      \<and> dq_items (dataqs k' q) = dq_items (dataqs k q) @ [item] \<and> dq_size (dataqs k' q) = dq_size (dataqs k q)
      \<and> unat (dq_put_index (dataqs k' q)) = Suc (unat (dq_put_index (dataqs k q)))"
proof -
  show "dq_try_push q k item = Some (False, k)" if "length (dq_items (dataqs k q)) = unat (dq_size (dataqs k q))"
    using that dq_full_iff [OF wf] by (simp add: dq_try_push_def rt_data_queue_push_def dq_push_loop_def rt_consts)
  assume ne: "length (dq_items (dataqs k q)) \<noteq> unat (dq_size (dataqs k q))"
  then have lt: "length (dq_items (dataqs k q)) < unat (dq_size (dataqs k q))" using wf by (simp add: dq_wf_def)
  obtain d where d: "dq_store item (dataqs k q) = Some d" "dq_wf d" "dq_items d = dq_items (dataqs k q) @ [item]"
    "dq_size d = dq_size (dataqs k q)" "unat (dq_put_index d) = Suc (unat (dq_put_index (dataqs k q)))"
    using dq_store_ok [OF wf lt nw] by blast
  have "\<not> dq_full (dataqs k q)" using ne dq_full_iff [OF wf] by simp
  from dq_push_now [OF inv this d(1), of 0 "rt_thread_self k"] d(2-5)
  show "\<exists>k'. dq_try_push q k item = Some (True, k') \<and> sys_inv k' \<and> dq_wf (dataqs k' q)
      \<and> dq_items (dataqs k' q) = dq_items (dataqs k q) @ [item] \<and> dq_size (dataqs k' q) = dq_size (dataqs k q)
      \<and> unat (dq_put_index (dataqs k' q)) = Suc (unat (dq_put_index (dataqs k q)))"
    by (auto simp: dq_try_push_def rt_data_queue_push_def)
qed

lemma dq_try_pop_ok:
  assumes inv: "sys_inv k" and wf: "dq_wf (dataqs k q)"
  shows "dq_items (dataqs k q) = [] \<Longrightarrow> dq_try_pop q k = Some (None, k)"
    and "dq_items (dataqs k q) = item # items \<Longrightarrow> \<exists>k'. dq_try_pop q k = Some (Some item, k') \<and> sys_inv k' \<and> dq_wf (dataqs k' q)
      \<and> dq_items (dataqs k' q) = items \<and> dq_size (dataqs k' q) = dq_size (dataqs k q) \<and> dq_put_index (dataqs k' q) = dq_put_index (dataqs k q)"
proof -
  show "dq_try_pop q k = Some (None, k)" if "dq_items (dataqs k q) = []"
    using that dq_empty_iff [OF wf] by (simp add: dq_try_pop_def rt_data_queue_pop_def dq_pop_loop_def)
  assume it: "dq_items (dataqs k q) = item # items"
  then have "dq_get_index (dataqs k q) \<noteq> dq_put_index (dataqs k q)" using dq_empty_iff [OF wf] by simp
  from dq_pop_now [OF inv this dq_fetch_ok(1) [OF wf it], of 0 "rt_thread_self k"] dq_fetch_ok(2,3) [OF wf it]
  show "\<exists>k'. dq_try_pop q k = Some (Some item, k') \<and> sys_inv k' \<and> dq_wf (dataqs k' q)
      \<and> dq_items (dataqs k' q) = items \<and> dq_size (dataqs k' q) = dq_size (dataqs k q) \<and> dq_put_index (dataqs k' q) = dq_put_index (dataqs k q)"
    by (auto simp: dq_try_pop_def rt_data_queue_pop_def)
qed

text \<open>C32: until the 16-bit index of the writer wraps around, a data queue is a bounded first-in first-out queue: for every
  sequence of pushes and pops that do not wait, with at most as many pushes as the index has room for, the answers are those
  of a queue of the capacity of the data queue, whoever waits on it meanwhile.\<close>

theorem dataqueue_refines_queue:
  assumes "sys_inv k" and "dq_wf (dataqs k q)"
    and "unat (dq_put_index (dataqs k q)) + length (filter (\<lambda>op. op \<noteq> Pop) ops) < 65536"
  shows "queue_run (dq_try_push q) (dq_try_pop q) k ops = Some (queue_spec (unat (dq_size (dataqs k q))) (dq_items (dataqs k q)) ops)"
  using assms
proof (induction ops arbitrary: k)
  case (Cons op ops)
  show ?case
  proof (cases op)
    case (Push item)
    then have nw: "dq_put_index (dataqs k q) \<noteq> -1" using Cons.prems(3) by (auto simp: unsigned_minus_1_eq_mask mask_eq_exp_minus_1)
    show ?thesis
    proof (cases "length (dq_items (dataqs k q)) = unat (dq_size (dataqs k q))")
      case True
      then show ?thesis using Cons.IH [OF Cons.prems(1,2)] Cons.prems(3) dq_try_push_ok(1) [OF Cons.prems(1,2) nw True] Push by simp
    next
      case False
      obtain k' where k': "dq_try_push q k item = Some (True, k')" "sys_inv k'" "dq_wf (dataqs k' q)"
        "dq_items (dataqs k' q) = dq_items (dataqs k q) @ [item]" "dq_size (dataqs k' q) = dq_size (dataqs k q)"
        "unat (dq_put_index (dataqs k' q)) = Suc (unat (dq_put_index (dataqs k q)))"
        using dq_try_push_ok(2) [OF Cons.prems(1,2) nw False] by blast
      have "length (dq_items (dataqs k q)) < unat (dq_size (dataqs k q))" using False Cons.prems(2) by (simp add: dq_wf_def)
      then show ?thesis using Cons.IH [OF k'(2,3)] Cons.prems(3) k' Push by simp
    qed
  next
    case Pop
    show ?thesis
    proof (cases "dq_items (dataqs k q)")
      case Nil
      then show ?thesis using Cons.IH [OF Cons.prems(1,2)] Cons.prems(3) dq_try_pop_ok(1) [OF Cons.prems(1,2) Nil] Pop by simp
    next
      case (Cons item items)
      obtain k' where "dq_try_pop q k = Some (Some item, k')" "sys_inv k'" "dq_wf (dataqs k' q)" "dq_items (dataqs k' q) = items"
        "dq_size (dataqs k' q) = dq_size (dataqs k q)" "dq_put_index (dataqs k' q) = dq_put_index (dataqs k q)"
        using dq_try_pop_ok(2) [OF Cons.prems(1,2) Cons] by blast
      then show ?thesis using Cons.IH [of k'] Cons.prems(3) Pop Cons by simp
    qed
  qed
qed simp

definition sample_dq :: "rt_uint16_t \<Rightarrow> rt_uint16_t \<Rightarrow> kernel" where
  "sample_dq sz i = upd_dq 5 (\<lambda>_. \<lparr>dq_size = sz, dq_lwm = 1, dq_get_index = i, dq_put_index = i, dq_queue = replicate (unat sz) (0, 0),
     dq_evt_notify = Some 9\<rparr>) sample"

lemma sample_dq_ok:
  "sys_inv (sample_dq sz i)" "rt_current_thread (sample_dq sz i) = Some (Suc 0)" "stat_of (sample_dq sz i) (Suc 0) = RT_THREAD_READY"
  "stat_of (sample_dq sz i) 2 = RT_THREAD_READY" "rt_interrupt_nest (sample_dq sz i) = 0" "rt_scheduler_lock_nest (sample_dq sz i) = 0"
  "on_tlist (sample_dq sz i) (Dq_push_wait 5) = []" "on_tlist (sample_dq sz i) (Dq_pop_wait 5) = []"
  "dq_items (dataqs (sample_dq sz i) 5) = []" "dq_wf (dataqs (sample_dq sz i) 5) \<longleftrightarrow> sz \<noteq> 0"
  using sample_facts sample_sys_inv by (simp_all add: sample_dq_def on_tlist_def dq_items_def dq_wf_def unat_gt_0)

theorem dataqueue_refines_queue_witness:
  "queue_run (dq_try_push 5) (dq_try_pop 5) (sample_dq 2 7) [Push (1, 4), Push (2, 4), Push (3, 4), Pop, Pop, Pop]
    = Some [Pushed True, Pushed True, Pushed False, Popped (Some (1, 4)), Popped (Some (2, 4)), Popped None]"
proof -
  have "dq_wf (dataqs (sample_dq 2 7) 5)" by (simp add: sample_dq_ok(10))
  moreover have "unat (dq_put_index (dataqs (sample_dq 2 7) 5)) = 7" "unat (dq_size (dataqs (sample_dq 2 7) 5)) = 2" by (simp_all add: sample_dq_def)
  ultimately show ?thesis by (subst dataqueue_refines_queue [OF sample_dq_ok(1)]) (simp_all add: sample_dq_ok(9))
qed

text \<open>\<^verbatim>\<open>rt_data_queue_push\<close>, \<^verbatim>\<open>rt_data_queue_pop\<close> and \<^verbatim>\<open>rt_data_queue_peak\<close> on every branch, before the
  index wraps around.  A push appends the item and wakes the first waiting popper, or notifies the event when nobody waits;
  on a full queue it gives up or waits behind the pushers.  A pop takes the first item; it wakes the first waiting pusher and
  notifies the low-water event exactly when at most \<^verbatim>\<open>lwm\<close> items are left, and otherwise leaves the pushers alone; on an empty
  queue it gives up or waits.  Peeking shows the item a pop would take and changes nothing.\<close>

theorem dataqueue_correct:
  assumes "sys_inv k" and "dq_wf (dataqs k q)" and "dq_put_index (dataqs k q) \<noteq> -1" and "rt_current_thread k = Some t"
    and "stat_of k t = RT_THREAD_READY" and "rt_interrupt_nest k = 0" and "time \<noteq> 0x7fffffff"
    and "stat_of k u = RT_THREAD_READY" "u \<noteq> t"
  shows "(length (dq_items (dataqs k q)) \<noteq> unat (dq_size (dataqs k q)) \<longrightarrow> (\<exists>k' d. rt_data_queue_push q item time k =
          Some (Finished (RT_EOK, if on_tlist k (Dq_pop_wait q) = [] then dq_notify RT_DATAQUEUE_EVENT_PUSH d else None), k')
        \<and> sys_inv k' \<and> d = dataqs k' q \<and> dq_wf d \<and> dq_items d = dq_items (dataqs k q) @ [item] \<and> woken_first (Dq_pop_wait q) (upd_dq q (\<lambda>_. d) k) k'))
    \<and> (length (dq_items (dataqs k q)) = unat (dq_size (dataqs k q)) \<longrightarrow>
        rt_data_queue_push q item 0 k = Some (Finished (-RT_ETIMEOUT, None), k)
      \<and> (time \<noteq> 0 \<longrightarrow> (\<exists>k'. rt_data_queue_push q item time k = Some (Waiting t, k') \<and> sys_inv k' \<and> dataqs k' = dataqs k
          \<and> now_waiting (Dq_push_wait q) RT_IPC_FLAG_FIFO time t k k')))
    \<and> (\<forall>x xs. dq_items (dataqs k q) = x # xs \<longrightarrow> rt_data_queue_peak q k = Some (RT_EOK, Some x)
      \<and> (\<exists>k' d. rt_data_queue_pop q time k = Some (Finished (RT_EOK, Some x,
              dq_notify (if length xs \<le> unat (dq_lwm d) then RT_DATAQUEUE_EVENT_LWM else RT_DATAQUEUE_EVENT_POP) d), k')
          \<and> sys_inv k' \<and> d = dataqs k' q \<and> dq_wf d \<and> dq_items d = xs
          \<and> (if length xs \<le> unat (dq_lwm d) then woken_first (Dq_push_wait q) (upd_dq q (\<lambda>_. d) k) k' else k' = upd_dq q (\<lambda>_. d) k)))
    \<and> (dq_items (dataqs k q) = [] \<longrightarrow> rt_data_queue_peak q k = Some (-RT_EEMPTY, None)
      \<and> rt_data_queue_pop q 0 k = Some (Finished (-RT_ETIMEOUT, None, None), k)
      \<and> (time \<noteq> 0 \<longrightarrow> (\<exists>k'. rt_data_queue_pop q time k = Some (Waiting t, k') \<and> sys_inv k' \<and> dataqs k' = dataqs k
          \<and> now_waiting (Dq_pop_wait q) RT_IPC_FLAG_FIFO time t k k')))"
proof (intro conjI impI allI)
  note full = dq_full_iff [OF assms(2)] and empty = dq_empty_iff [OF assms(2)]
  show "\<exists>k' d. rt_data_queue_push q item time k =
          Some (Finished (RT_EOK, if on_tlist k (Dq_pop_wait q) = [] then dq_notify RT_DATAQUEUE_EVENT_PUSH d else None), k')
        \<and> sys_inv k' \<and> d = dataqs k' q \<and> dq_wf d \<and> dq_items d = dq_items (dataqs k q) @ [item] \<and> woken_first (Dq_pop_wait q) (upd_dq q (\<lambda>_. d) k) k'"
    if ne: "length (dq_items (dataqs k q)) \<noteq> unat (dq_size (dataqs k q))"
  proof -
    have lt: "length (dq_items (dataqs k q)) < unat (dq_size (dataqs k q))" using ne assms(2) by (simp add: dq_wf_def)
    obtain d where d: "dq_store item (dataqs k q) = Some d" "dq_wf d" "dq_items d = dq_items (dataqs k q) @ [item]"
      using dq_store_ok [OF assms(2) lt assms(3)] by blast
    have "\<not> dq_full (dataqs k q)" using ne full by simp
    from dq_push_now [OF assms(1) this d(1), of time "rt_thread_self k"] d show ?thesis by (auto simp: rt_data_queue_push_def)
  qed
  show "rt_data_queue_push q item 0 k = Some (Finished (-RT_ETIMEOUT, None), k)" if "length (dq_items (dataqs k q)) = unat (dq_size (dataqs k q))"
    using that full by (simp add: rt_data_queue_push_def dq_push_loop_def)
  show "\<exists>k'. rt_data_queue_push q item time k = Some (Waiting t, k') \<and> sys_inv k' \<and> dataqs k' = dataqs k
      \<and> now_waiting (Dq_push_wait q) RT_IPC_FLAG_FIFO time t k k'" if "length (dq_items (dataqs k q)) = unat (dq_size (dataqs k q))" "time \<noteq> 0"
    using dq_push_waits [OF assms(1) _ assms(4-6) that(2) assms(7-9), of q item] that(1) full by (auto simp: same_ipc_def)
  show "rt_data_queue_peak q k = Some (RT_EOK, Some x)" if "dq_items (dataqs k q) = x # xs" for x xs
    using that dq_fetch_ok(1) [OF assms(2) that] empty by (simp add: rt_data_queue_peak_def)
  show "\<exists>k' d. rt_data_queue_pop q time k = Some (Finished (RT_EOK, Some x,
              dq_notify (if length xs \<le> unat (dq_lwm d) then RT_DATAQUEUE_EVENT_LWM else RT_DATAQUEUE_EVENT_POP) d), k')
          \<and> sys_inv k' \<and> d = dataqs k' q \<and> dq_wf d \<and> dq_items d = xs
          \<and> (if length xs \<le> unat (dq_lwm d) then woken_first (Dq_push_wait q) (upd_dq q (\<lambda>_. d) k) k' else k' = upd_dq q (\<lambda>_. d) k)"
    if it: "dq_items (dataqs k q) = x # xs" for x xs
  proof -
    have ne: "dq_get_index (dataqs k q) \<noteq> dq_put_index (dataqs k q)" using it empty by simp
    note f = dq_fetch_ok [OF assms(2) it]
    define d where "d = (dataqs k q)\<lparr>dq_get_index := dq_get_index (dataqs k q) + 1\<rparr>"
    have d: "dq_wf d" "dq_items d = xs" "dq_low d \<longleftrightarrow> length xs \<le> unat (dq_lwm d)"
      using f(2,3) dq_low_iff [of d] by (simp_all only: d_def)
    obtain k' where "dq_pop_loop q time (rt_thread_self k) k = Some (Finished (RT_EOK, Some x,
        dq_notify (if dq_low d then RT_DATAQUEUE_EVENT_LWM else RT_DATAQUEUE_EVENT_POP) d), k')" "sys_inv k'" "dataqs k' q = d"
      "if dq_low d then woken_first (Dq_push_wait q) (upd_dq q (\<lambda>_. d) k) k' else k' = upd_dq q (\<lambda>_. d) k"
      using dq_pop_now [OF assms(1) ne f(1), of time "rt_thread_self k", folded d_def] by blast
    then show ?thesis using d by (intro exI [of _ k'] exI [of _ d]) (simp add: rt_data_queue_pop_def)
  qed
  show "rt_data_queue_peak q k = Some (-RT_EEMPTY, None)" if "dq_items (dataqs k q) = []"
    using that empty by (simp add: rt_data_queue_peak_def)
  show "rt_data_queue_pop q 0 k = Some (Finished (-RT_ETIMEOUT, None, None), k)" if "dq_items (dataqs k q) = []"
    using that empty by (simp add: rt_data_queue_pop_def dq_pop_loop_def)
  show "\<exists>k'. rt_data_queue_pop q time k = Some (Waiting t, k') \<and> sys_inv k' \<and> dataqs k' = dataqs k
      \<and> now_waiting (Dq_pop_wait q) RT_IPC_FLAG_FIFO time t k k'" if "dq_items (dataqs k q) = []" "time \<noteq> 0"
    using dq_pop_waits [OF assms(1) _ assms(4-6) that(2) assms(7-9), of q] that(1) empty by (auto simp: same_ipc_def)
qed

theorem dataqueue_correct_witness:
  "(\<exists>k' e. rt_data_queue_push 5 (1, 4) 0 (sample_dq 2 7) = Some (Finished (RT_EOK, e), k') \<and> dq_items (dataqs k' 5) = [(1, 4)])
    \<and> (\<exists>k'. rt_data_queue_pop 5 3 (sample_dq 2 7) = Some (Waiting 1, k'))"
proof -
  have f: "dq_put_index (dataqs (sample_dq 2 7) 5) \<noteq> -1" "length (dq_items (dataqs (sample_dq 2 7) 5)) \<noteq> unat (dq_size (dataqs (sample_dq 2 7) 5))"
    "dq_wf (dataqs (sample_dq 2 7) 5)"
    using sample_dq_ok(9,10) [of 2 7] by (simp_all add: sample_dq_def)
  have "stat_of (sample_dq 2 7) 1 = RT_THREAD_READY" "rt_current_thread (sample_dq 2 7) = Some 1" using sample_dq_ok [of 2 7] by simp_all
  note c = dataqueue_correct [OF sample_dq_ok(1) f(3,1) this(2,1) sample_dq_ok(5) _ sample_dq_ok(4)]
  have "\<exists>k' d. rt_data_queue_push 5 (1, 4) 0 (sample_dq 2 7) =
          Some (Finished (RT_EOK, if on_tlist (sample_dq 2 7) (Dq_pop_wait 5) = [] then dq_notify RT_DATAQUEUE_EVENT_PUSH d else None), k')
        \<and> sys_inv k' \<and> d = dataqs k' 5 \<and> dq_wf d \<and> dq_items d = dq_items (dataqs (sample_dq 2 7) 5) @ [(1, 4)]
        \<and> woken_first (Dq_pop_wait 5) (upd_dq 5 (\<lambda>_. d) (sample_dq 2 7)) k'"
    using c [of 0 "(1, 4)"] f(2) by simp
  moreover have "\<exists>k'. rt_data_queue_pop 5 3 (sample_dq 2 7) = Some (Waiting 1, k') \<and> sys_inv k' \<and> dataqs k' = dataqs (sample_dq 2 7)
      \<and> now_waiting (Dq_pop_wait 5) RT_IPC_FLAG_FIFO 3 1 (sample_dq 2 7) k'"
    using c [of 3 "(1, 4)"] sample_dq_ok(9) by simp
  ultimately show ?thesis using sample_dq_ok(9) by auto
qed

text \<open>The first wrap-around of the index of the writer loses an item.  With a size that divides 65535, such as 1, 3 or
  5, an empty queue whose indices are 65535 accepts two items and stores both in the first place of the ring: the next pop
  returns the second one.  The queue of size 1 has by then accepted more than it can hold, since the integer difference of the
  indices is negative and never equal to the size.\<close>

theorem dataqueue_index_wrap:
  assumes "sys_inv k" and "dq_put_index (dataqs k q) = -1" and "dq_get_index (dataqs k q) = -1"
    and "length (dq_queue (dataqs k q)) = unat (dq_size (dataqs k q))" and "0 < dq_size (dataqs k q)" and "unat (dq_size (dataqs k q)) dvd 65535"
  shows "\<exists>k1 k2 k3 e1 e2 e3. rt_data_queue_push q a 0 k = Some (Finished (RT_EOK, e1), k1) \<and> rt_data_queue_push q b 0 k1 = Some (Finished (RT_EOK, e2), k2)
    \<and> rt_data_queue_pop q 0 k2 = Some (Finished (RT_EOK, Some b, e3), k3)"
proof -
  let ?d = "dataqs k q"
  let ?s = "dq_size ?d"
  define d1 where "d1 = ?d\<lparr>dq_queue := (dq_queue ?d)[0 := a], dq_put_index := 0\<rparr>"
  define d2 where "d2 = d1\<lparr>dq_queue := (dq_queue d1)[0 := b], dq_put_index := 1\<rparr>"
  have u: "unat (-1 :: rt_uint16_t) = 65535" by (simp add: unsigned_minus_1_eq_mask mask_eq_exp_minus_1)
  have pos: "0 < unat ?s" "?s \<noteq> 0" using assms(5) by (simp_all add: word_gt_0 unat_gt_0)
  have i: "unat (-1 mod ?s) = 0" using assms(6) by (simp add: unat_mod u)
  have su: "0 < uint ?s" using pos(1) unfolding uint_nat by linarith
  have s1: "dq_store a ?d = Some d1" using pos assms(2,4) i by (simp add: dq_store_def d1_def)
  have s2: "dq_store b d1 = Some d2" using pos assms(4) by (simp add: dq_store_def d2_def) (simp add: d1_def)
  have p: "dq_peek d2 = Some b" using pos assms(3,4) i by (simp add: dq_peek_def d2_def d1_def)
  have "- uint (-1 :: rt_uint16_t) \<noteq> uint ?s" using su unsigned_greater_eq [where 'a = int and w = "-1 :: rt_uint16_t"] by linarith
  then have f: "\<not> dq_full ?d" "\<not> dq_full d1" using su assms(2,3) by (simp_all add: dq_full_def d1_def)
  obtain k1 e1 where k1: "rt_data_queue_push q a 0 k = Some (Finished (RT_EOK, e1), k1)" "sys_inv k1" "dataqs k1 q = d1"
    using dq_push_now [OF assms(1) f(1) s1, of 0 "rt_thread_self k"] unfolding rt_data_queue_push_def by blast
  obtain k2 e2 where k2: "rt_data_queue_push q b 0 k1 = Some (Finished (RT_EOK, e2), k2)" "sys_inv k2" "dataqs k2 q = d2"
    using dq_push_now [OF k1(2), of q b d2 0 "rt_thread_self k1"] f(2) s2 k1(3) unfolding rt_data_queue_push_def by auto
  have ne: "dq_get_index (dataqs k2 q) \<noteq> dq_put_index (dataqs k2 q)" using assms(3) by (simp add: k2(3) d2_def d1_def)
  obtain k3 e3 where "rt_data_queue_pop q 0 k2 = Some (Finished (RT_EOK, Some b, e3), k3)"
    using dq_pop_now [OF k2(2) ne, of b 0 "rt_thread_self k2"] p unfolding rt_data_queue_pop_def k2(3) by blast
  then show ?thesis using k1(1) k2(1) by blast
qed

theorem dataqueue_index_wrap_witness:
  "\<exists>k1 k2 k3 e1 e2 e3. rt_data_queue_push 5 (1, 4) 0 (sample_dq 3 (-1)) = Some (Finished (RT_EOK, e1), k1)
    \<and> rt_data_queue_push 5 (2, 4) 0 k1 = Some (Finished (RT_EOK, e2), k2) \<and> rt_data_queue_pop 5 0 k2 = Some (Finished (RT_EOK, Some (2, 4), e3), k3)"
  by (rule dataqueue_index_wrap [OF sample_dq_ok(1)]) (simp_all add: sample_dq_def)

end
