(* ===== verification/RT_Quiet.thy ===== *)
theory RT_Quiet
  imports RT_Mutex RT_Event RT_Mailbox RT_Mq RT_Sem RT_Clock
begin

text \<open>
  What a service leaves alone whichever way it returns.  The theories of the objects say what becomes of the object and of
  the threads that are involved; here it is shown, for every operation that returns at all, that no thread dies, that no thread is marked as interrupted,
  that the flags other threads wait for stay, and that only thread timers are started.
\<close>

text \<open>The object \<open>n\<close> may change.\<close>

definition same_others :: "nat \<Rightarrow> kernel \<Rightarrow> kernel \<Rightarrow> bool" where
  "same_others n k k' \<longleftrightarrow> (\<forall>j. j \<noteq> n \<longrightarrow> sems k' j = sems k j \<and> mutexes k' j = mutexes k j \<and> events k' j = events k j
        \<and> mailboxes k' j = mailboxes k j \<and> mqs k' j = mqs k j \<and> mempools k' j = mempools k j
        \<and> completions k' j = completions k j \<and> dataqs k' j = dataqs k j)
     \<and> object_lists k' = object_lists k \<and> (\<forall>j. objects k' (Obj j) = objects k (Obj j)) \<and> rt_tick k' = rt_tick k
     \<and> rt_scheduler_lock_nest k' = rt_scheduler_lock_nest k \<and> rt_interrupt_nest k' = rt_interrupt_nest k"

text \<open>The object \<open>n\<close> and the flags of the threads in \<open>S\<close> may change.\<close>

definition quiet :: "nat \<Rightarrow> tid set \<Rightarrow> kernel \<Rightarrow> kernel \<Rightarrow> bool" where
  "quiet n S k k' \<longleftrightarrow> same_others n k k'
     \<and> (\<forall>v. alive k v \<longrightarrow> alive k' v)
     \<and> (\<forall>v. v \<notin> S \<longrightarrow> th_event_set (threads k' v) = th_event_set (threads k v) \<and> th_event_info (threads k' v) = th_event_info (threads k v))
     \<and> (\<forall>v. th_error (threads k' v) = RT_EINTR \<longrightarrow> th_error (threads k v) = RT_EINTR)
     \<and> (\<forall>h. home (timer_lists k') h = Some Hard_timers \<longrightarrow> home (timer_lists k) h = Some Hard_timers \<or> (\<exists>v. h = Thread_timer v))"

lemma not_interrupted [simp]: "RT_EOK \<noteq> RT_EINTR" "RT_ERROR \<noteq> RT_EINTR" "RT_ETIMEOUT \<noteq> RT_EINTR"
  by (simp_all add: rt_consts)

lemma same_others_refl [simp]: "same_others n k k"
  by (simp add: same_others_def)

lemma same_others_trans: "same_others n k k' \<Longrightarrow> same_others n k' k'' \<Longrightarrow> same_others n k k''"
  by (simp add: same_others_def)

lemma same_others_ipc: "same_ipc k k' \<Longrightarrow> same_others n k k'"
  by (simp add: same_others_def same_ipc_def)

lemma quiet_refl [simp]: "quiet n S k k"
  by (simp add: quiet_def)

lemma quiet_trans [trans]: "quiet n S k k' \<Longrightarrow> quiet n S k' k'' \<Longrightarrow> quiet n S k k''"
  unfolding quiet_def by (intro conjI) (blast intro: same_others_trans | simp)+

lemma quiet_view:
  assumes "same_ipc k k'" and "threads k' = threads k" and "timer_lists k' = timer_lists k"
  shows "quiet n S k k'"
  using assms by (simp add: quiet_def alive_def stat_of_def same_others_ipc)

lemma quiet_remove [simp]: "quiet n S k (tlist_remove t k)" "quiet n S k (rt_schedule_remove_thread t k)"
proof -
  have "threads (tlist_remove t k) = threads k" "timer_lists (tlist_remove t k) = timer_lists k"
    "threads (rt_schedule_remove_thread t k) = threads k" "timer_lists (rt_schedule_remove_thread t k) = timer_lists k"
    by (simp_all add: tlist_remove_def rt_schedule_remove_thread_def Let_def)
  then show "quiet n S k (tlist_remove t k)" "quiet n S k (rt_schedule_remove_thread t k)" by (simp_all add: quiet_view)
qed

text \<open>An update of a thread that keeps it alive and its flags.\<close>

lemma quiet_upd_thread:
  assumes "\<And>th. th_stat (f th) = th_stat th \<or> th_stat (f th) AND RT_THREAD_STAT_MASK \<in> {RT_THREAD_READY, RT_THREAD_SUSPEND}"
    and "\<And>th. t \<in> S \<or> th_event_set (f th) = th_event_set th \<and> th_event_info (f th) = th_event_info th"
    and "\<And>th. th_error (f th) = RT_EINTR \<Longrightarrow> th_error th = RT_EINTR"
  shows "quiet n S k (upd_thread t f k)"
proof -
  have "alive (upd_thread t f k) v" if "alive k v" for v
    using that assms(1) [of "threads k t"] by (cases "v = t") (auto simp: alive_def stat_of_def)
  moreover have "th_event_set (threads (upd_thread t f k) v) = th_event_set (threads k v)
      \<and> th_event_info (threads (upd_thread t f k) v) = th_event_info (threads k v)" if "v \<notin> S" for v
    using that assms(2) [of "threads k t"] by (cases "v = t") auto
  moreover have "th_error (threads (upd_thread t f k) v) = RT_EINTR \<longrightarrow> th_error (threads k v) = RT_EINTR" for v
    using assms(3) [of "threads k t"] by (cases "v = t") auto
  ultimately show ?thesis by (simp add: quiet_def same_others_ipc)
qed

lemma quiet_set_stat [simp]:
  "quiet n S k (upd_thread t (set_stat RT_THREAD_READY) k)" "quiet n S k (upd_thread t (set_stat RT_THREAD_SUSPEND) k)"
  by (rule quiet_upd_thread; simp add: set_stat_masked)+

lemma quiet_set_error [simp]:
  "e \<noteq> RT_EINTR \<Longrightarrow> quiet n S k (upd_thread t (\<lambda>th. th\<lparr>th_error := e\<rparr>) k)"
  by (rule quiet_upd_thread) simp_all

lemma quiet_set_priority [simp]: "quiet n S k (upd_thread t (set_priority p) k)"
  by (rule quiet_upd_thread) (simp_all add: set_priority_def)

section \<open>Threads and timers\<close>

lemma quiet_insert: "tlist_insert_at q i t k = Some k' \<Longrightarrow> quiet n S k k'"
  by (rule quiet_view) (auto simp: tlist_insert_at_def same_ipc_def)

lemma quiet_append: "tlist_append q t k = Some k' \<Longrightarrow> quiet n S k k'"
  using quiet_insert by (simp add: tlist_append_at)

lemma quiet_insert_thread: "rt_schedule_insert_thread t k = Some k' \<Longrightarrow> quiet n S k k'"
proof -
  assume "rt_schedule_insert_thread t k = Some k'"
  then obtain k1 where k1: "tlist_append (Ready (prio_of k t)) t (upd_thread t (set_stat RT_THREAD_READY) k) = Some k1"
    "threads k' = threads k1" "timer_lists k' = timer_lists k1" "same_ipc k1 k'"
    by (auto simp: rt_schedule_insert_thread_def bind_Some_iff Let_def same_ipc_def prio_of_def)
  have "quiet n S k (upd_thread t (set_stat RT_THREAD_READY) k)" by simp
  also have "quiet n S \<dots> k1" using k1(1) by (rule quiet_append)
  also have "quiet n S k1 k'" using k1(4,2,3) by (rule quiet_view)
  finally show "quiet n S k k'" .
qed

lemma quiet_schedule: "rt_schedule k = Some k' \<Longrightarrow> quiet n S k k'"
  using rt_schedule_view [of k k'] same_ipc_schedule [of k k'] by (intro quiet_view) simp_all

lemma quiet_timer_stop: "rt_timer_stop (Thread_timer t) k = Some (r, k') \<Longrightarrow> quiet n S k k'"
proof -
  assume a: "rt_timer_stop (Thread_timer t) k = Some (r, k')"
  then have "\<forall>h. home (timer_lists k') h = Some Hard_timers \<longrightarrow> home (timer_lists k) h = Some Hard_timers"
    using rt_timer_stop_cases [OF a] by (auto simp: clear_flag_def timer_remove_def upd_object_def split: if_splits)
  then show ?thesis using rt_timer_stop_same_ipc [OF a] rt_timer_stop_frame [OF a] by (simp add: quiet_def alive_def stat_of_def same_others_ipc)
qed

lemma quiet_suspend: "rt_thread_suspend t k = Some (r, k') \<Longrightarrow> quiet n S k k'"
proof -
  assume a: "rt_thread_suspend t k = Some (r, k')"
  let ?k1 = "rt_schedule_remove_thread t k"
  let ?k2 = "upd_thread t (set_stat RT_THREAD_SUSPEND) ?k1"
  have "k' = k \<or> (\<exists>r. rt_timer_stop (Thread_timer t) ?k2 = Some (r, k'))"
    using a by (auto simp: rt_thread_suspend_def bind_Some_iff Let_def split: if_splits)
  moreover have "quiet n S k ?k2" using quiet_trans [of n S k ?k1 ?k2] by simp
  ultimately show ?thesis using quiet_timer_stop quiet_trans by (metis quiet_refl)
qed

lemma quiet_resume: "rt_thread_resume t k = Some (r, k') \<Longrightarrow> quiet n S k k'"
proof -
  assume a: "rt_thread_resume t k = Some (r, k')"
  have "k' = k \<or> (\<exists>r k1. rt_timer_stop (Thread_timer t) (tlist_remove t k) = Some (r, k1) \<and> rt_schedule_insert_thread t k1 = Some k')"
    using a by (auto simp: rt_thread_resume_def bind_Some_iff Let_def split: if_splits)
  then show ?thesis using quiet_timer_stop quiet_insert_thread quiet_remove(1) quiet_trans quiet_refl by metis
qed

lemma quiet_change_priority: "rt_thread_change_priority t p k = Some (r, k') \<Longrightarrow> quiet n S k k'"
proof -
  assume a: "rt_thread_change_priority t p k = Some (r, k')"
  let ?k1 = "upd_thread t (set_priority p) (rt_schedule_remove_thread t k)"
  have "quiet n S k ?k1" using quiet_trans [OF quiet_remove(2) quiet_set_priority] .
  moreover have "rt_schedule_insert_thread t ?k1 = Some k' \<or> k' = upd_thread t (set_priority p) k"
    using a by (auto simp: rt_thread_change_priority_def bind_Some_iff split: if_splits)
  ultimately show ?thesis using quiet_insert_thread quiet_trans quiet_set_priority by metis
qed

lemma quiet_timers:
  assumes "same_ipc k k'" and "threads k' = threads k" and "\<And>h. h \<noteq> Thread_timer t \<Longrightarrow> home (timer_lists k') h = home (timer_lists k) h"
  shows "quiet n S k k'"
  using assms(1,2) assms(3) by (fastforce simp: quiet_def alive_def stat_of_def same_others_ipc)

lemma quiet_timer_start: "thread_timer_start t time k = Some k' \<Longrightarrow> quiet n S k k'"
proof -
  let ?h = "Thread_timer t"
  define k0 where "k0 = upd_timer ?h (\<lambda>tm. tm\<lparr>tm_init_tick := time\<rparr>) k"
  define k1 where "k1 = upd_timer ?h (\<lambda>tm. tm\<lparr>tm_timeout_tick := rt_tick k + tm_init_tick tm\<rparr>) (clear_flag RT_TIMER_FLAG_ACTIVATED ?h (timer_remove ?h k0))"
  assume "thread_timer_start t time k = Some k'"
  then obtain r where "rt_timer_start ?h k0 = Some (r, k')"
    by (auto simp: thread_timer_start_def rt_timer_control_def bind_Some_iff k0_def)
  moreover have tick: "rt_tick (clear_flag RT_TIMER_FLAG_ACTIVATED ?h (timer_remove ?h k0)) = rt_tick k" by (simp add: k0_def upd_timer_def)
  ultimately obtain s q i where s: "ls_insert_at q i ?h (timer_lists k1) = Some s"
    and k': "k' = set_flag RT_TIMER_FLAG_ACTIVATED ?h (k1\<lparr>random_nr := random_nr k1 + 1, timer_lists := s\<rparr>)
       \<or> (\<exists>u r k2. rt_thread_resume u (set_flag RT_TIMER_FLAG_ACTIVATED ?h (k1\<lparr>random_nr := random_nr k1 + 1, timer_lists := s\<rparr>)) = Some (r, k2)
            \<and> rt_schedule k2 = Some k')"
    unfolding rt_timer_start_def Let_def tick k1_def [symmetric] by (auto simp: bind_Some_iff split: if_splits) blast+
  let ?k2 = "set_flag RT_TIMER_FLAG_ACTIVATED ?h (k1\<lparr>random_nr := random_nr k1 + 1, timer_lists := s\<rparr>)"
  have "same_ipc k ?k2" "threads ?k2 = threads k"
    by (simp_all add: same_ipc_def k1_def k0_def upd_timer_def clear_flag_def set_flag_def timer_remove_def upd_object_def)
  moreover have "home (timer_lists ?k2) h = home (timer_lists k) h" if "h \<noteq> ?h" for h
    using s that by (simp add: ls_insert_at_Some k1_def k0_def upd_timer_def clear_flag_def set_flag_def timer_remove_def upd_object_def)
  ultimately have "quiet n S k ?k2" by (rule quiet_timers)
  then show "quiet n S k k'" using k' quiet_resume quiet_schedule quiet_trans by metis
qed

section \<open>Waiting and waking\<close>

lemma quiet_sleep_on: "sleep_on t time k = Some k' \<Longrightarrow> quiet n S k k'"
  by (auto simp: sleep_on_def bind_Some_iff split: if_splits intro: quiet_schedule quiet_trans [OF quiet_timer_start quiet_schedule])

lemma quiet_list_suspend: "rt_ipc_list_suspend q t flag k = Some k' \<Longrightarrow> quiet n S k k'"
  by (auto simp: rt_ipc_list_suspend_def bind_Some_iff split: if_splits
      intro: quiet_suspend quiet_trans [OF quiet_suspend quiet_append] quiet_trans [OF quiet_suspend quiet_insert])

lemma quiet_wait: "ipc_wait q t flag time k = Some k' \<Longrightarrow> quiet n S k k'"
  by (auto simp: ipc_wait_def bind_Some_iff intro: quiet_trans [OF quiet_list_suspend quiet_sleep_on])

lemma quiet_list_resume: "rt_ipc_list_resume q k = Some k' \<Longrightarrow> quiet n S k k'"
  by (auto simp: rt_ipc_list_resume_def bind_Some_iff split: list.splits intro: quiet_resume)

lemma quiet_wake: "ipc_wake q k = Some k' \<Longrightarrow> quiet n S k k'"
  by (auto simp: ipc_wake_def bind_Some_iff split: if_splits intro: quiet_trans [OF quiet_list_resume quiet_schedule])

text \<open>Waiting after the error of the caller was reset.\<close>

lemma quiet_wait_reset: "ipc_wait q t flag time (upd_thread t (\<lambda>th. th\<lparr>th_error := RT_EOK\<rparr>) k) = Some k' \<Longrightarrow> quiet n S k k'"
  using quiet_trans [OF quiet_set_error [of RT_EOK] quiet_wait] by simp

section \<open>The services\<close>

text \<open>Every service is quiet apart from its own object.\<close>

lemma quiet_upd_object [simp]:
  "quiet n S k (upd_sem n f1 k)" "quiet n S k (upd_mutex n f2 k)" "quiet n S k (upd_event n f3 k)" "quiet n S k (upd_mb n f4 k)"
  "quiet n S k (upd_mq n f5 k)"
  by (simp_all add: quiet_def same_others_def alive_def stat_of_def upd_defs)

lemma quiet_sem_take: "rt_sem_take s time k = Some (r, k') \<Longrightarrow> quiet s S k k'"
  by (auto simp: rt_sem_take_def bind_Some_iff split: if_splits intro: quiet_wait_reset)

lemma quiet_sem_release: "rt_sem_release s k = Some (r, k') \<Longrightarrow> quiet s S k k'"
  by (auto simp: rt_sem_release_def bind_Some_iff split: if_splits intro: quiet_trans [OF quiet_list_resume quiet_schedule])

text \<open>The optional change of the priority of an owner.\<close>

lemma quiet_maybe_priority:
  "(if b then do { (_, k) \<leftarrow> rt_thread_change_priority t p k; Some k } else Some k) = Some k' \<Longrightarrow> quiet n S k k'"
  by (auto simp: bind_Some_iff split: if_splits intro: quiet_change_priority)

lemma quiet_mutex_again: "mutex_again m time t k = Some (r, k') \<Longrightarrow> quiet m S k k'"
  by (auto simp: mutex_again_def bind_Some_iff Let_def split: if_splits option.splits
      intro: quiet_wait quiet_trans [OF quiet_change_priority quiet_wait])

lemma quiet_mutex_take: "rt_mutex_take m time k = Some (r, k') \<Longrightarrow> quiet m S k k'"
  by (auto simp: rt_mutex_take_def bind_Some_iff Let_def split: if_splits option.splits
      intro: quiet_trans [OF quiet_set_error [OF not_interrupted(1)] quiet_mutex_again]
        quiet_trans [OF quiet_set_error [OF not_interrupted(1)] quiet_upd_object(2)])

lemma quiet_mutex_take_back: "rt_mutex_take_back m time t k = Some (r, k') \<Longrightarrow> quiet m S k k'"
  by (auto simp: rt_mutex_take_back_def split: if_splits intro: quiet_mutex_again)

lemma quiet_mutex_unlock: "mutex_unlock m t k = Some (b, k') \<Longrightarrow> quiet m S k k'"
proof -
  assume "mutex_unlock m t k = Some (b, k')"
  then obtain k1 where k1: "(if mx_original_priority (mutexes k m) \<noteq> prio_of k t
        then do { (_, k) \<leftarrow> rt_thread_change_priority t (mx_original_priority (mutexes k m)) k; Some k } else Some k) = Some k1"
    and rest: "(case on_tlist k1 (Mutex_wait m) of
            t # _ \<Rightarrow>
              do { let k = upd_mutex m (\<lambda>mx. mx\<lparr>mx_owner := Some t, mx_original_priority := prio_of k1 t,
                     mx_hold := mx_hold mx + 1\<rparr>) k1;
                   k \<leftarrow> rt_ipc_list_resume (Mutex_wait m) k;
                   Some (True, k) }
          | [] \<Rightarrow> Some (False, upd_mutex m (\<lambda>mx. mx\<lparr>mx_value := mx_value mx + 1, mx_owner := None,
                     mx_original_priority := 0xff\<rparr>) k1)) = Some (b, k')"
    unfolding mutex_unlock_def bind_Some_iff by blast
  have "\<exists>f. k' = upd_mutex m f k1 \<or> rt_ipc_list_resume (Mutex_wait m) (upd_mutex m f k1) = Some k'"
    using rest by (cases "on_tlist k1 (Mutex_wait m)") (auto simp: bind_Some_iff)
  then obtain f where f: "k' = upd_mutex m f k1 \<or> rt_ipc_list_resume (Mutex_wait m) (upd_mutex m f k1) = Some k'" by blast
  have "quiet m S k (upd_mutex m f k1)" using quiet_maybe_priority [OF k1] quiet_upd_object(2) by (rule quiet_trans)
  then show ?thesis using f quiet_list_resume quiet_trans by metis
qed

lemma quiet_mutex_release: "rt_mutex_release m k = Some (r, k') \<Longrightarrow> quiet m S k k'"
  by (auto simp: rt_mutex_release_def bind_Some_iff Let_def split: if_splits option.splits
      intro: quiet_trans [OF quiet_upd_object(2) quiet_mutex_unlock]
        quiet_trans [OF quiet_upd_object(2) quiet_trans [OF quiet_mutex_unlock quiet_schedule]])

lemma quiet_event_walk: "event_walk e ts need k = Some (b, k') \<Longrightarrow> set ts \<subseteq> S \<Longrightarrow> quiet e S k k'"
proof (induction ts arbitrary: need k)
  case (Cons t ts)
  define k0 where "k0 = (if th_event_info (threads k t) AND RT_EVENT_FLAG_AND \<noteq> 0 then k
     else upd_thread t (\<lambda>th. th\<lparr>th_event_set := th_event_set th AND ev_set (events k e)\<rparr>) k)"
  define k1 where "k1 = (if th_event_info (threads k t) AND RT_EVENT_FLAG_CLEAR \<noteq> 0
     then upd_event e (\<lambda>ev. ev\<lparr>ev_set := ev_set ev AND NOT (th_event_set (threads k0 t))\<rparr>) k0 else k0)"
  have "quiet e S k (upd_thread t (\<lambda>th. th\<lparr>th_event_set := th_event_set th AND ev_set (events k e)\<rparr>) k)"
    using Cons.prems(2) by (intro quiet_upd_thread) simp_all
  then have "quiet e S k k0" by (simp add: k0_def)
  then have q: "quiet e S k k1" using quiet_trans quiet_upd_object(3) by (auto simp: k1_def)
  have "event_walk e (t # ts) need k =
      (if ev_ready (th_event_info (threads k t)) (th_event_set (threads k t)) (ev_set (events k e))
       then do { (_, k) \<leftarrow> rt_thread_resume t k1; event_walk e ts True k } else event_walk e ts need k)"
    by (auto simp: Let_def k1_def k0_def ev_ready_def)
  then consider r k2 where "rt_thread_resume t k1 = Some (r, k2)" "event_walk e ts True k2 = Some (b, k')" | "event_walk e ts need k = Some (b, k')"
    using Cons.prems(1) by (auto simp: bind_Some_iff split: if_splits)
  then show ?case
  proof cases
    case 1
    have "quiet e S k k2" using q quiet_resume [OF 1(1)] by (rule quiet_trans)
    then show ?thesis using Cons.IH [OF 1(2)] Cons.prems(2) quiet_trans by auto
  next
    case 2
    then show ?thesis using Cons by simp
  qed
qed simp

lemma quiet_event_send: "rt_event_send e bits k = Some (r, k') \<Longrightarrow> set (on_tlist k (Event_wait e)) \<subseteq> S \<Longrightarrow> quiet e S k k'"
  by (auto simp: rt_event_send_def bind_Some_iff Let_def split: if_splits
      intro: quiet_trans [OF quiet_upd_object(3) quiet_event_walk]
        quiet_trans [OF quiet_upd_object(3) quiet_trans [OF quiet_event_walk quiet_schedule]])

lemma quiet_event_recv: "rt_event_recv e bits opt time k = Some (r, k') \<Longrightarrow> rt_current_thread k = Some t \<Longrightarrow> quiet e {t} k k'"
proof -
  assume a: "rt_event_recv e bits opt time k = Some (r, k')" and c: "rt_current_thread k = Some t"
  let ?k0 = "upd_thread t (\<lambda>th. th\<lparr>th_error := RT_EOK\<rparr>) k"
  let ?k1 = "upd_thread t (\<lambda>th. th\<lparr>th_event_set := bits, th_event_info := opt\<rparr>) ?k0"
  have q0: "quiet e {t} k ?k0" by simp
  have q1: "quiet e {t} ?k0 ?k1" by (rule quiet_upd_thread) simp_all
  have "k' = k \<or> k' = ?k0 \<or> k' = upd_event e (\<lambda>ev. ev\<lparr>ev_set := ev_set ev AND NOT bits\<rparr>) ?k0
      \<or> k' = upd_thread t (\<lambda>th. th\<lparr>th_error := RT_ETIMEOUT\<rparr>) ?k0 \<or> (\<exists>q f. ipc_wait q t f time ?k1 = Some k')"
    using a c by (auto simp: rt_event_recv_def rt_thread_self_def bind_Some_iff Let_def split: if_splits)
  then show ?thesis
    using q0 q1 quiet_trans [OF q0 quiet_upd_object(3)] quiet_trans [OF q0 quiet_set_error [of RT_ETIMEOUT]] quiet_trans [OF q0 quiet_trans [OF q1 quiet_wait]]
    by auto
qed

lemma quiet_mb_send_loop: "mb_send_loop m v time self k = Some (r, k') \<Longrightarrow> quiet m S k k'"
  by (auto simp: mb_send_loop_def bind_Some_iff Let_def split: if_splits
      intro: quiet_wait_reset quiet_trans [OF quiet_upd_object(4) quiet_wake])

lemma quiet_mb_send: "rt_mb_send_wait m v time k = Some (r, k') \<Longrightarrow> quiet m S k k'"
  by (auto simp: rt_mb_send_wait_def bind_Some_iff split: if_splits intro: quiet_mb_send_loop)

lemma quiet_mb_urgent: "rt_mb_urgent m v k = Some (r, k') \<Longrightarrow> quiet m S k k'"
  by (auto simp: rt_mb_urgent_def bind_Some_iff split: if_splits intro: quiet_trans [OF quiet_upd_object(4) quiet_wake])

lemma quiet_mb_recv_loop: "mb_recv_loop m time self k = Some (r, k') \<Longrightarrow> quiet m S k k'"
  by (auto simp: mb_recv_loop_def bind_Some_iff Let_def split: if_splits
      intro: quiet_wait_reset quiet_trans [OF quiet_upd_object(4) quiet_wake] quiet_trans [OF quiet_set_error quiet_set_error])

lemma quiet_mb_recv: "rt_mb_recv m time k = Some (r, k') \<Longrightarrow> quiet m S k k'"
  by (auto simp: rt_mb_recv_def bind_Some_iff split: if_splits intro: quiet_mb_recv_loop)

lemma quiet_mq_send: "rt_mq_send m buffer sz k = Some (r, k') \<Longrightarrow> quiet m S k k'"
  by (auto simp: rt_mq_send_def bind_Some_iff split: if_splits option.splits intro: quiet_trans [OF quiet_upd_object(5) quiet_wake])

lemma quiet_mq_urgent: "rt_mq_urgent m buffer sz k = Some (r, k') \<Longrightarrow> quiet m S k k'"
  by (auto simp: rt_mq_urgent_def bind_Some_iff split: if_splits option.splits intro: quiet_trans [OF quiet_upd_object(5) quiet_wake])

lemma quiet_mq_recv_loop: "mq_recv_loop m sz time self k = Some (r, k') \<Longrightarrow> quiet m S k k'"
  by (auto simp: mq_recv_loop_def bind_Some_iff Let_def split: if_splits
      intro: quiet_wait_reset quiet_trans [OF quiet_upd_object(5) quiet_wake] quiet_trans [OF quiet_set_error quiet_set_error])

lemma quiet_mq_recv: "rt_mq_recv m sz time k = Some (r, k') \<Longrightarrow> quiet m S k k'"
  by (auto simp: rt_mq_recv_def bind_Some_iff split: if_splits intro: quiet_mq_recv_loop)

lemma quiet_yield: "rt_thread_yield k = Some (r, k') \<Longrightarrow> quiet n S k k'"
  by (auto simp: rt_thread_yield_def bind_Some_iff split: if_splits
      intro: quiet_trans [OF quiet_remove(1) quiet_trans [OF quiet_append quiet_schedule]])

lemma quiet_sleep: "rt_thread_sleep tick k = Some (r, k') \<Longrightarrow> quiet n S k k'"
  by (auto simp: rt_thread_sleep_def bind_Some_iff
      intro: quiet_trans [OF quiet_suspend quiet_trans [OF quiet_timer_start quiet_schedule]])

end
