(* ===== verification/RT_World.thy ===== *)
theory RT_World
  imports RT_Quiet
begin

text \<open>
  The services together.  A running thread calls the operations of any number of semaphores, mutexes, events, mailboxes and message queues,
  or yields, blocked threads come back to their calls, and the tick runs between them.  \<open>world\<close> is the
  invariant of the whole, and \<open>kstep\<close> the step relation of the running system.  The sleep of a thread is not one of
  these calls; it stands alone in \<open>RT_Clock\<close>.
\<close>

section \<open>Calls\<close>

datatype call =
    Sem_take nat "32 word"
  | Sem_release nat
  | Mutex_take nat "32 word"
  | Mutex_release nat
  | Event_send nat rt_uint32_t
  | Event_recv nat rt_uint32_t rt_uint8_t "32 word"
  | Mb_send nat rt_uint32_t "32 word"
  | Mb_urgent nat rt_uint32_t
  | Mb_recv nat "32 word"
  | Mq_send nat "rt_uint8_t list option" rt_uint32_t
  | Mq_urgent nat "rt_uint8_t list option" rt_uint32_t
  | Mq_recv nat rt_uint32_t "32 word"
  | Yield

text \<open>The class of object a call is for, and the object.\<close>

fun call_class :: "call \<Rightarrow> rt_uint8_t" where
  "call_class (Sem_take _ _) = RT_Object_Class_Semaphore"
| "call_class (Sem_release _) = RT_Object_Class_Semaphore"
| "call_class (Mutex_take _ _) = RT_Object_Class_Mutex"
| "call_class (Mutex_release _) = RT_Object_Class_Mutex"
| "call_class (Event_send _ _) = RT_Object_Class_Event"
| "call_class (Event_recv _ _ _ _) = RT_Object_Class_Event"
| "call_class (Mb_send _ _ _) = RT_Object_Class_MailBox"
| "call_class (Mb_urgent _ _) = RT_Object_Class_MailBox"
| "call_class (Mb_recv _ _) = RT_Object_Class_MailBox"
| "call_class (Mq_send _ _ _) = RT_Object_Class_MessageQueue"
| "call_class (Mq_urgent _ _ _) = RT_Object_Class_MessageQueue"
| "call_class (Mq_recv _ _ _) = RT_Object_Class_MessageQueue"
| "call_class Yield = RT_Object_Class_Thread"

fun call_object :: "call \<Rightarrow> nat option" where
  "call_object (Sem_take n _) = Some n"
| "call_object (Sem_release n) = Some n"
| "call_object (Mutex_take n _) = Some n"
| "call_object (Mutex_release n) = Some n"
| "call_object (Event_send n _) = Some n"
| "call_object (Event_recv n _ _ _) = Some n"
| "call_object (Mb_send n _ _) = Some n"
| "call_object (Mb_urgent n _) = Some n"
| "call_object (Mb_recv n _) = Some n"
| "call_object (Mq_send n _ _) = Some n"
| "call_object (Mq_urgent n _ _) = Some n"
| "call_object (Mq_recv n _ _) = Some n"
| "call_object Yield = None"

definition well_typed :: "call \<Rightarrow> kernel \<Rightarrow> bool" where
  "well_typed c k \<longleftrightarrow> (case call_object c of None \<Rightarrow> True | Some n \<Rightarrow> rt_object_get_type (Obj n) k = call_class c)"

text \<open>The list a call waits on.\<close>

fun wait_of :: "call \<Rightarrow> thread_list option" where
  "wait_of (Sem_take n _) = Some (Sem_wait n)"
| "wait_of (Mutex_take n _) = Some (Mutex_wait n)"
| "wait_of (Event_recv n _ _ _) = Some (Event_wait n)"
| "wait_of (Mb_send n _ _) = Some (Mb_send_wait n)"
| "wait_of (Mb_recv n _) = Some (Mb_recv_wait n)"
| "wait_of (Mq_recv n _ _) = Some (Mq_recv_wait n)"
| "wait_of _ = None"

text \<open>A call either is finished or stays pending.\<close>

definition pending :: "call \<Rightarrow> 'a outcome \<times> kernel \<Rightarrow> call option \<times> kernel" where
  "pending c = (\<lambda>(r, k). (case r of Finished _ \<Rightarrow> None | Waiting _ \<Rightarrow> Some c, k))"

definition finished :: "'a \<times> kernel \<Rightarrow> call option \<times> kernel" where
  "finished = (\<lambda>(_, k). (None, k))"

fun exec :: "call \<Rightarrow> kernel \<Rightarrow> (call option \<times> kernel) option" where
  "exec (Sem_take s time) k = map_option (pending (Sem_take s time)) (rt_sem_take s time k)"
| "exec (Sem_release s) k = map_option finished (rt_sem_release s k)"
| "exec (Mutex_take m time) k = map_option (pending (Mutex_take m time)) (rt_mutex_take m time k)"
| "exec (Mutex_release m) k = map_option finished (rt_mutex_release m k)"
| "exec (Event_send e bits) k = map_option finished (rt_event_send e bits k)"
| "exec (Event_recv e bits opt time) k = map_option (pending (Event_recv e bits opt time)) (rt_event_recv e bits opt time k)"
| "exec (Mb_send m v time) k = map_option (pending (Mb_send m v time)) (rt_mb_send_wait m v time k)"
| "exec (Mb_urgent m v) k = map_option finished (rt_mb_urgent m v k)"
| "exec (Mb_recv m time) k = map_option (pending (Mb_recv m time)) (rt_mb_recv m time k)"
| "exec (Mq_send m buffer sz) k = map_option finished (rt_mq_send m buffer sz k)"
| "exec (Mq_urgent m buffer sz) k = map_option finished (rt_mq_urgent m buffer sz k)"
| "exec (Mq_recv m sz time) k = map_option (pending (Mq_recv m sz time)) (rt_mq_recv m sz time k)"
| "exec Yield k = map_option finished (rt_thread_yield k)"

text \<open>The second part of a pending call that began to wait at the tick \<open>start\<close>, and the call with the waiting time that is left.\<close>

fun rest_call :: "call \<Rightarrow> rt_tick_t \<Rightarrow> kernel \<Rightarrow> call" where
  "rest_call (Mb_send m v time) start k = Mb_send m v (rest_timeout time start k)"
| "rest_call (Mb_recv m time) start k = Mb_recv m (rest_timeout time start k)"
| "rest_call (Mq_recv m sz time) start k = Mq_recv m sz (rest_timeout time start k)"
| "rest_call c start k = c"

fun come_back :: "call \<Rightarrow> rt_tick_t \<Rightarrow> tid \<Rightarrow> kernel \<Rightarrow> (call option \<times> kernel) option" where
  "come_back (Mutex_take m time) start t k = map_option (pending (Mutex_take m time)) (rt_mutex_take_back m time t k)"
| "come_back (Mb_send m v time) start t k =
     map_option (pending (rest_call (Mb_send m v time) start k)) (rt_mb_send_wait_back m v time start t k)"
| "come_back (Mb_recv m time) start t k =
     map_option (pending (rest_call (Mb_recv m time) start k)) (rt_mb_recv_back m time start t k)"
| "come_back (Mq_recv m sz time) start t k =
     map_option (pending (rest_call (Mq_recv m sz time) start k)) (rt_mq_recv_back m sz time start t k)"
| "come_back c start t k = Some (None, k)"

text \<open>
  What the arguments have to satisfy.  A waiting time of half the range of the tick fails in \<^verbatim>\<open>rt_timer_start\<close>, a mutex is
  nested 255 times at most, a receive of an event says how to combine the flags, and a message lies in a buffer of its size.
\<close>

fun call_time :: "call \<Rightarrow> 32 word" where
  "call_time (Sem_take _ time) = time"
| "call_time (Mutex_take _ time) = time"
| "call_time (Event_recv _ _ _ time) = time"
| "call_time (Mb_send _ _ time) = time"
| "call_time (Mb_recv _ time) = time"
| "call_time (Mq_recv _ _ time) = time"
| "call_time _ = 0"

fun good_args :: "call \<Rightarrow> kernel \<Rightarrow> bool" where
  "good_args (Mutex_take m _) k = (mx_hold (mutexes k m) \<noteq> 0xff)"
| "good_args (Event_recv _ bits opt _) k = (opt AND RT_EVENT_FLAG_AND \<noteq> 0 \<or> opt AND RT_EVENT_FLAG_OR \<noteq> 0)"
| "good_args (Mq_send m buffer sz) k = (ucast (mq_msg_size (mqs k m)) < sz \<or> mq_sendable buffer sz (mqs k m))"
| "good_args (Mq_urgent m buffer sz) k = (ucast (mq_msg_size (mqs k m)) < sz \<or> mq_sendable buffer sz (mqs k m))"
| "good_args (Mq_recv _ sz _) k = (sz \<noteq> 0)"
| "good_args _ k = True"

definition good :: "call \<Rightarrow> kernel \<Rightarrow> bool" where
  "good c k \<longleftrightarrow> call_time c \<noteq> 0x7fffffff \<and> good_args c k"

section \<open>The invariant of the whole\<close>

definition obj_ok :: "nat \<Rightarrow> kernel \<Rightarrow> bool" where
  "obj_ok n k \<longleftrightarrow>
     (rt_object_get_type (Obj n) k = RT_Object_Class_Semaphore \<longrightarrow> sem_inv n k)
   \<and> (rt_object_get_type (Obj n) k = RT_Object_Class_Mutex \<longrightarrow> mutex_inv n k)
   \<and> (rt_object_get_type (Obj n) k = RT_Object_Class_Event \<longrightarrow> event_inv n k)
   \<and> (rt_object_get_type (Obj n) k = RT_Object_Class_MailBox \<longrightarrow> mb_inv n k)
   \<and> (rt_object_get_type (Obj n) k = RT_Object_Class_MessageQueue \<longrightarrow> mq_inv n k)"

definition only_thread_timers :: "kernel \<Rightarrow> bool" where
  "only_thread_timers k \<longleftrightarrow> (\<forall>h\<in>set (on_timers k Hard_timers). \<exists>v. h = Thread_timer v)"

definition no_signals :: "kernel \<Rightarrow> bool" where
  "no_signals k \<longleftrightarrow> (\<forall>v. th_error (threads k v) \<noteq> RT_EINTR)"

definition world :: "tid \<Rightarrow> kernel \<Rightarrow> bool" where
  "world idle k \<longleftrightarrow> sys_inv k \<and> rt_interrupt_nest k = 0 \<and> rt_scheduler_lock_nest k = 0
     \<and> (\<exists>t. rt_current_thread k = Some t \<and> stat_of k t = RT_THREAD_READY) \<and> stat_of k idle = RT_THREAD_READY
     \<and> only_thread_timers k \<and> no_signals k \<and> (\<forall>n. obj_ok n k)"

lemma worldD:
  assumes "world idle k"
  shows "sys_inv k" "rt_interrupt_nest k = 0" "rt_scheduler_lock_nest k = 0" "stat_of k idle = RT_THREAD_READY"
    "only_thread_timers k" "no_signals k" "obj_ok n k"
  using assms by (simp_all add: world_def)

text \<open>The lists of an object.\<close>

definition obj_lists :: "nat \<Rightarrow> thread_list set" where
  "obj_lists n = {Sem_wait n, Mutex_wait n, Event_wait n, Mb_recv_wait n, Mb_send_wait n, Mq_recv_wait n, Mq_send_wait n}"

lemma obj_lists_disjoint: "q \<in> obj_lists n \<Longrightarrow> m \<noteq> n \<Longrightarrow> q \<notin> obj_lists m"
  by (auto simp: obj_lists_def)

lemma obj_lists_wait: "q \<in> obj_lists n \<Longrightarrow> is_wait_list q"
  by (auto simp: obj_lists_def)

text \<open>An object keeps its invariant when it is not touched and threads only leave its lists.\<close>

lemma obj_ok_frame:
  assumes ok: "obj_ok n k"
    and same: "sems k' n = sems k n" "mutexes k' n = mutexes k n" "events k' n = events k n" "mailboxes k' n = mailboxes k n"
      "mqs k' n = mqs k n" "objects k' (Obj n) = objects k (Obj n)"
    and al: "\<And>v. alive k v \<Longrightarrow> alive k' v"
    and sub: "\<And>q. q \<in> obj_lists n \<Longrightarrow> set (on_tlist k' q) \<subseteq> set (on_tlist k q)"
    and ev: "\<And>v. v \<in> set (on_tlist k' (Event_wait n)) \<Longrightarrow>
      th_event_set (threads k' v) = th_event_set (threads k v) \<and> th_event_info (threads k' v) = th_event_info (threads k v)"
  shows "obj_ok n k'"
proof -
  have ty: "rt_object_get_type (Obj n) k' = rt_object_get_type (Obj n) k" by (simp add: rt_object_get_type_def same)
  have l: "set (on_tlist k' (Sem_wait n)) \<subseteq> set (on_tlist k (Sem_wait n))" "set (on_tlist k' (Mutex_wait n)) \<subseteq> set (on_tlist k (Mutex_wait n))"
    "set (on_tlist k' (Event_wait n)) \<subseteq> set (on_tlist k (Event_wait n))"
    using sub by (simp_all add: obj_lists_def)
  have "sem_inv n k'" if "sem_inv n k" using that l(1) by (auto simp: sem_inv_def ty same parked_def sem_avail_def)
  moreover have "mutex_inv n k'" if "mutex_inv n k"
    using that l(2) al by (auto simp: mutex_inv_def ty same split: option.splits)
  moreover have "event_inv n k'" if "event_inv n k" using that l(3) ev by (auto simp: event_inv_def ty same)
  moreover have "mb_inv n k'" if "mb_inv n k" using that by (simp add: mb_inv_def ty same)
  moreover have "mq_inv n k'" if "mq_inv n k" using that by (simp add: mq_inv_def ty same)
  ultimately show ?thesis using ok by (simp add: obj_ok_def ty)
qed

lemma alive_error [simp]: "alive (upd_thread t (\<lambda>th. th\<lparr>th_error := e\<rparr>) k) v = alive k v"
  by (simp add: alive_def)

lemma obj_ok_error: "obj_ok n k \<Longrightarrow> obj_ok n (upd_thread t (\<lambda>th. th\<lparr>th_error := e\<rparr>) k)"
  by (erule obj_ok_frame) simp_all

lemma world_kept:
  assumes w: "world idle k" and inv: "sys_inv k'" and q: "quiet n S k k'" and ok: "obj_ok n k'"
    and others: "\<And>q. is_wait_list q \<Longrightarrow> q \<notin> obj_lists n \<Longrightarrow> on_tlist k' q = on_tlist k q"
    and S: "\<And>j v. v \<in> S \<Longrightarrow> j \<noteq> n \<Longrightarrow> v \<notin> set (on_tlist k (Event_wait j))"
    and cur: "\<exists>v. rt_current_thread k' = Some v \<and> stat_of k' v = RT_THREAD_READY" and id: "stat_of k' idle = RT_THREAD_READY"
  shows "world idle k'"
proof -
  note d = worldD [OF w]
  have qd: "same_others n k k'" "\<And>v. alive k v \<Longrightarrow> alive k' v" "\<And>v. th_error (threads k' v) = RT_EINTR \<Longrightarrow> th_error (threads k v) = RT_EINTR"
    "\<And>v. v \<notin> S \<Longrightarrow> th_event_set (threads k' v) = th_event_set (threads k v) \<and> th_event_info (threads k' v) = th_event_info (threads k v)"
    "\<And>h. home (timer_lists k') h = Some Hard_timers \<Longrightarrow> home (timer_lists k) h = Some Hard_timers \<or> (\<exists>v. h = Thread_timer v)"
    using q by (simp_all add: quiet_def)
  have "obj_ok j k'" for j
  proof (cases "j = n")
    case False
    have l: "on_tlist k' q = on_tlist k q" if "q \<in> obj_lists j" for q
      using others [of q] obj_lists_disjoint [OF that, of n] False obj_lists_wait [OF that] by auto
    have "on_tlist k' (Event_wait j) = on_tlist k (Event_wait j)" using l by (simp add: obj_lists_def)
    then have "th_event_set (threads k' v) = th_event_set (threads k v) \<and> th_event_info (threads k' v) = th_event_info (threads k v)"
      if "v \<in> set (on_tlist k' (Event_wait j))" for v using qd(4) [of v] S [of v j] False that by auto
    then show ?thesis using qd(1,2) False l
      by (intro obj_ok_frame [OF d(7) [of j]]) (auto simp: same_others_def)
  qed (simp add: ok)
  moreover have "home (timer_lists k) h = Some Hard_timers \<Longrightarrow> \<exists>v. h = Thread_timer v" for h
    using d(5) check_invD(8) [OF sys_invD(1) [OF d(1)]] by (simp add: only_thread_timers_def on_timers_def ls_wf_mem)
  then have "only_thread_timers k'"
    using qd(5) check_invD(8) [OF sys_invD(1) [OF inv]] unfolding only_thread_timers_def on_timers_def by (metis ls_wf_mem)
  ultimately show ?thesis
    using d(2,3,6) inv cur id qd(1,3) by (auto simp: world_def no_signals_def same_others_def)
qed

section \<open>What a call does\<close>

text \<open>The running thread is not the idle thread.\<close>

definition caller :: "tid \<Rightarrow> tid \<Rightarrow> kernel \<Rightarrow> bool" where
  "caller idle t k \<longleftrightarrow> world idle k \<and> rt_current_thread k = Some t \<and> t \<noteq> idle"

lemma callerD:
  assumes "caller idle t k"
  shows "world idle k" "sys_inv k" "rt_current_thread k = Some t" "stat_of k t = RT_THREAD_READY" "rt_interrupt_nest k = 0"
    "rt_scheduler_lock_nest k = 0" "stat_of k idle = RT_THREAD_READY" "t \<noteq> idle" "idle \<noteq> t" "obj_ok n k"
    "is_wait_list q \<Longrightarrow> t \<notin> set (on_tlist k q)"
proof -
  show w: "world idle k" and i: "sys_inv k" and st: "stat_of k t = RT_THREAD_READY" using assms by (auto simp: caller_def world_def)
  show "is_wait_list q \<Longrightarrow> t \<notin> set (on_tlist k q)" using wait_list_suspended(1) [OF sys_invD(5) [OF i]] st by fastforce
qed (use assms in \<open>auto simp: caller_def world_def\<close>)

text \<open>
  The call of the thread \<open>t\<close> keeps the invariant and the classes of the objects; threads only leave wait lists, except
  that a pending call has put \<open>t\<close> on its list.
\<close>

definition stepped :: "tid \<Rightarrow> tid \<Rightarrow> kernel \<Rightarrow> call option \<Rightarrow> kernel \<Rightarrow> bool" where
  "stepped idle t k r k' \<longleftrightarrow> world idle k' \<and> (\<forall>n. rt_object_get_type (Obj n) k' = rt_object_get_type (Obj n) k)
     \<and> (\<forall>q. is_wait_list q \<longrightarrow> set (on_tlist k' q) \<subseteq> set (on_tlist k q) \<union> (if r \<noteq> None \<and> wait_of (the r) = Some q then {t} else {}))
     \<and> (\<forall>c. r = Some c \<longrightarrow> (\<exists>q. wait_of c = Some q \<and> t \<in> set (on_tlist k' q)))"

lemma quiet_type: "quiet n S k k' \<Longrightarrow> rt_object_get_type (Obj j) k' = rt_object_get_type (Obj j) k"
  by (simp add: quiet_def same_others_def rt_object_get_type_def)

text \<open>A call that moves no thread.\<close>

lemma stepped_local:
  assumes c: "caller idle t k" and inv: "sys_inv k'" and q: "quiet n {t} k k'" and ok: "obj_ok n k'"
    and l: "on_tlist k' = on_tlist k" and cur: "rt_current_thread k' = Some t" and st: "stat_of k' = stat_of k"
  shows "stepped idle t k None k'"
proof -
  note d = callerD [OF c]
  have "world idle k'"
    using d(4,7,11) l st cur by (intro world_kept [OF d(1) inv q ok]) auto
  then show ?thesis by (simp add: stepped_def l quiet_type [OF q])
qed

text \<open>A call that takes threads off one list.\<close>

lemma stepped_moved:
  assumes c: "caller idle t k" and inv: "sys_inv k'" and q: "quiet n S k k'" and ok: "obj_ok n k'" and p: "p \<in> obj_lists n"
    and l: "set (on_tlist k' p) \<subseteq> set (on_tlist k p)" "\<forall>q. is_wait_list q \<and> q \<noteq> p \<longrightarrow> on_tlist k' q = on_tlist k q"
    and S: "S \<subseteq> set (on_tlist k p)"
    and cur: "\<exists>v. rt_current_thread k' = Some v \<and> stat_of k' v = RT_THREAD_READY" and id: "stat_of k' idle = RT_THREAD_READY"
  shows "stepped idle t k None k'"
proof -
  note d = callerD [OF c]
  have "v \<notin> set (on_tlist k (Event_wait j))" if "v \<in> S" "j \<noteq> n" for v j
  proof
    assume a: "v \<in> set (on_tlist k (Event_wait j))"
    have "v \<in> set (on_tlist k p)" using S that(1) by blast
    then have "p = Event_wait j"
      using wait_list_suspended(2) [OF sys_invD(5) [OF d(2)] _ a] wait_list_suspended(2) [OF sys_invD(5) [OF d(2)] obj_lists_wait [OF p]] by simp
    then show False using p that(2) by (simp add: obj_lists_def)
  qed
  then have "world idle k'" using l(2) p cur id by (intro world_kept [OF d(1) inv q ok]) auto
  moreover have "set (on_tlist k' q) \<subseteq> set (on_tlist k q)" if "is_wait_list q" for q using l that by (cases "q = p") simp_all
  ultimately show ?thesis using quiet_type [OF q] by (simp add: stepped_def)
qed

text \<open>A call that changes its object and wakes the first thread of a list.\<close>

lemma set_tl_subset: "set (tl xs) \<subseteq> set xs"
  by (cases xs) auto

lemma stepped_wake:
  assumes c: "caller idle t k" and inv: "sys_inv k'" and q: "quiet n {} k k'" and ok: "obj_ok n k'"
    and k0: "on_tlist k0 = on_tlist k" "threads k0 = threads k" "rt_current_thread k0 = rt_current_thread k"
      "rt_scheduler_lock_nest k0 = rt_scheduler_lock_nest k"
    and w: "woken_first p k0 k'" and p: "p \<in> obj_lists n"
  shows "stepped idle t k None k'"
proof (rule stepped_moved [OF c inv q ok p])
  note d = callerD [OF c]
  show "stat_of k' idle = RT_THREAD_READY"
    using woken_first_ready(1) [OF w, of idle] d(7) k0(2) by (simp add: stat_of_def)
  show "set (on_tlist k' p) \<subseteq> set (on_tlist k p)" "\<forall>q. is_wait_list q \<and> q \<noteq> p \<longrightarrow> on_tlist k' q = on_tlist k q"
    using w k0(1) set_tl_subset by (simp_all add: woken_first_def)
  show "\<exists>v. rt_current_thread k' = Some v \<and> stat_of k' v = RT_THREAD_READY"
  proof (cases "on_tlist k p")
    case Nil
    then have "k' = k0" using w k0(1) by (simp add: woken_first_def)
    then show ?thesis using d(3,4) k0(2,3) by (simp add: stat_of_def)
  next
    case (Cons u us)
    then show ?thesis using w k0 d(6) by (auto simp: woken_first_def first_ready_def)
  qed
qed simp

text \<open>A call that waits.\<close>

lemma stepped_wait:
  assumes c: "caller idle t k" and inv: "sys_inv k'" and q: "quiet n {t} k k'" and ok: "obj_ok n k'"
    and w: "wait_of c = Some p" "p \<in> obj_lists n"
    and l: "on_tlist k' p = wait_order fl k t (on_tlist k p)" "\<forall>q'. is_wait_list q' \<and> q' \<noteq> p \<longrightarrow> on_tlist k' q' = on_tlist k q'"
    and st: "stat_of k' idle = stat_of k idle" and cur: "\<exists>v. rt_current_thread k' = Some v \<and> first_ready k' v"
  shows "stepped idle t k (Some c) k'"
proof -
  note d = callerD [OF c]
  have "world idle k'"
    using w l(2) d(7,11) st cur by (intro world_kept [OF d(1) inv q ok]) (auto simp: first_ready_def)
  moreover have "set (on_tlist k' q) \<subseteq> set (on_tlist k q) \<union> (if wait_of c = Some q then {t} else {})" if "is_wait_list q" for q
    using l that w by (cases "q = p") (auto simp: wait_order_set)
  ultimately show ?thesis using w l(1) by (simp add: stepped_def quiet_type [OF q] wait_order_set)
qed

section \<open>The calls, one by one\<close>

definition safe :: "tid \<Rightarrow> tid \<Rightarrow> call \<Rightarrow> kernel \<Rightarrow> bool" where
  "safe idle t c k \<longleftrightarrow> (\<exists>r k'. exec c k = Some (r, k') \<and> stepped idle t k r k' \<and> (r = None \<or> r = Some c))"

lemma obj_okI:
  "sem_inv n k \<Longrightarrow> obj_ok n k" "mutex_inv n k \<Longrightarrow> obj_ok n k" "event_inv n k \<Longrightarrow> obj_ok n k" "mb_inv n k \<Longrightarrow> obj_ok n k" "mq_inv n k \<Longrightarrow> obj_ok n k"
  by (simp_all add: obj_ok_def sem_inv_def mutex_inv_def event_inv_def mb_inv_def mq_inv_def rt_consts)

lemma in_obj_lists [simp]:
  "Sem_wait n \<in> obj_lists n" "Mutex_wait n \<in> obj_lists n" "Event_wait n \<in> obj_lists n" "Mb_recv_wait n \<in> obj_lists n"
  "Mb_send_wait n \<in> obj_lists n" "Mq_recv_wait n \<in> obj_lists n" "Mq_send_wait n \<in> obj_lists n"
  by (simp_all add: obj_lists_def)

lemma stat_unchanged: "threads k' v = threads k v \<Longrightarrow> stat_of k' v = stat_of k v"
  by (simp add: stat_of_def)

lemma safe_sem_take:
  assumes c: "caller idle t k" and s: "sem_inv s k" and time: "time \<noteq> 0x7fffffff"
  shows "safe idle t (Sem_take s time) k"
proof -
  note d = callerD [OF c]
  consider "sem_avail s k" | "\<not> sem_avail s k" "time = 0" | "\<not> sem_avail s k" "time \<noteq> 0" by blast
  then show ?thesis
  proof cases
    case 1
    let ?k = "upd_sem s (\<lambda>sm. sm\<lparr>sem_value := sem_value sm - 1\<rparr>) k"
    have "sem_inv s ?k" using s 1 by (simp add: sem_inv_def parked_def)
    then have "stepped idle t k None ?k"
      using d(2,3) by (intro stepped_local [OF c, of _ s] obj_okI(1)) simp_all
    then show ?thesis using sem_take_no_wait(1) [OF s 1] by (simp add: safe_def pending_def)
  next
    case 2
    have "stepped idle t k None k" using d(2,3) s by (intro stepped_local [OF c, of _ s] obj_okI(1)) simp_all
    then show ?thesis using sem_take_no_wait(2) [OF s 2(1)] 2(2) by (simp add: safe_def pending_def)
  next
    case 3
    obtain k' where k': "rt_sem_take s time k = Some (Waiting t, k')" "sys_inv k'" "sem_inv s k'"
      "on_tlist k' (Sem_wait s) = wait_order (obj_flag (objects k (Obj s))) k t (on_tlist k (Sem_wait s))"
      "\<forall>q'. is_wait_list q' \<and> q' \<noteq> Sem_wait s \<longrightarrow> on_tlist k' q' = on_tlist k q'"
      "\<forall>v. v \<noteq> t \<longrightarrow> threads k' v = threads k v"
      "if rt_scheduler_lock_nest k = 0 then \<exists>v. rt_current_thread k' = Some v \<and> first_ready k' v else rt_current_thread k' = Some t"
      using sem_take_waits [OF d(2) s 3(1) d(3,4,5) 3(2) time d(7,9)] by (elim exE conjE) (rule that; assumption)
    have cur: "\<exists>v. rt_current_thread k' = Some v \<and> first_ready k' v" using k'(7) d(6) by simp
    have st: "stat_of k' idle = stat_of k idle" using k'(6) d(9) by (simp add: stat_of_def)
    have "stepped idle t k (Some (Sem_take s time)) k'"
      by (rule stepped_wait [OF c k'(2) quiet_sem_take [OF k'(1)] obj_okI(1) [OF k'(3)] _ _ k'(4,5) st cur]) simp_all
    then show ?thesis using k'(1) by (simp add: safe_def pending_def)
  qed
qed

lemma safe_sem_release:
  assumes c: "caller idle t k" and s: "sem_inv s k"
  shows "safe idle t (Sem_release s) k"
proof (cases "on_tlist k (Sem_wait s)")
  note d = callerD [OF c]
  case Nil
  let ?k = "upd_sem s (\<lambda>sm. sm\<lparr>sem_value := sem_value sm + 1\<rparr>) k"
  have "sem_inv s ?k" using s Nil by (simp add: sem_inv_def parked_def)
  then have "stepped idle t k None ?k" using d(2,3) by (intro stepped_local [OF c, of _ s] obj_okI(1)) simp_all
  then show ?thesis using sem_release_counts [OF s Nil] by (simp add: safe_def finished_def)
next
  note d = callerD [OF c]
  case (Cons w ws)
  obtain k' where k': "rt_sem_release s k = Some (RT_EOK, k')" "sys_inv k'" "sem_inv s k'" "on_tlist k' (Sem_wait s) = ws"
    "\<forall>q'. is_wait_list q' \<and> q' \<noteq> Sem_wait s \<longrightarrow> on_tlist k' q' = on_tlist k q'" "stat_of k' w = RT_THREAD_READY"
    "\<forall>v. v \<noteq> w \<longrightarrow> threads k' v = threads k v" "\<exists>v. rt_current_thread k' = Some v \<and> first_ready k' v"
    using sem_release_hands_over [OF d(2) s Cons] d(6) by blast
  have id: "stat_of k' idle = RT_THREAD_READY" using k'(6,7) d(7) by (cases "idle = w") (simp_all add: stat_of_def)
  have "stepped idle t k None k'"
  proof (rule stepped_moved [OF c k'(2) quiet_sem_release [OF k'(1), of "{}"] obj_okI(1) [OF k'(3)]])
    show "set (on_tlist k' (Sem_wait s)) \<subseteq> set (on_tlist k (Sem_wait s))" using k'(4) Cons by auto
    show "\<exists>v. rt_current_thread k' = Some v \<and> stat_of k' v = RT_THREAD_READY" using k'(8) unfolding first_ready_def by blast
  qed (use k'(5) id in simp_all)
  then show ?thesis using k'(1) by (simp add: safe_def finished_def)
qed

lemma hold_plus_1: "h \<noteq> 0xff \<Longrightarrow> h + 1 \<noteq> (0 :: 8 word)"
proof
  assume "h \<noteq> 0xff" "h + 1 = 0"
  then have "h = - 1" by (simp add: add_eq_0_iff2)
  with \<open>h \<noteq> 0xff\<close> show False by simp
qed

lemma safe_mutex_take:
  assumes c: "caller idle t k" and m: "mutex_inv m k" and time: "time \<noteq> 0x7fffffff" and hold: "mx_hold (mutexes k m) \<noteq> 0xff"
  shows "safe idle t (Mutex_take m time) k"
proof -
  note d = callerD [OF c]
  let ?e = "\<lambda>e. upd_thread t (\<lambda>th. th\<lparr>th_error := e\<rparr>) k"
  have al: "alive k t" using d(4) by (rule aliveI)
  consider "mx_owner (mutexes k m) = None" | "mx_owner (mutexes k m) = Some t"
    | ow where "mx_owner (mutexes k m) = Some ow" "ow \<noteq> t" by (cases "mx_owner (mutexes k m)") auto
  then show ?thesis
  proof cases
    case 1
    define k' where "k' = upd_mutex m (\<lambda>_. \<lparr>mx_value = 0, mx_original_priority = prio_of k t, mx_hold = 1, mx_owner = Some t\<rparr>) (?e RT_EOK)"
    have r: "rt_mutex_take m time k = Some (Finished RT_EOK, k')" using mutex_take_free [OF m 1 d(3,5)] by (simp add: k'_def)
    have "mutex_inv m k'" using m 1 al by (simp add: mutex_inv_def k'_def alive_def)
    then have "stepped idle t k None k'"
      using d(2,3) by (intro stepped_local [OF c _ quiet_mutex_take [OF r] obj_okI(2)]) (simp_all add: k'_def sys_inv_upd_error)
    then show ?thesis using r by (simp add: safe_def pending_def)
  next
    case 2
    define k' where "k' = upd_mutex m (\<lambda>mx. mx\<lparr>mx_hold := mx_hold mx + 1\<rparr>) (?e RT_EOK)"
    have r: "rt_mutex_take m time k = Some (Finished RT_EOK, k')" using mutex_take_again [OF m 2 d(3,5)] by (simp add: k'_def)
    have "mx_hold (mutexes k m) + 1 \<noteq> 0" using hold by (rule hold_plus_1)
    then have "mutex_inv m k'" using m 2 al by (simp add: mutex_inv_def k'_def alive_def)
    then have "stepped idle t k None k'"
      using d(2,3) by (intro stepped_local [OF c _ quiet_mutex_take [OF r] obj_okI(2)]) (simp_all add: k'_def sys_inv_upd_error)
    then show ?thesis using r by (simp add: safe_def pending_def)
  next
    case (3 ow)
    show ?thesis
    proof (cases "time = 0")
      case True
      have r: "rt_mutex_take m 0 k = Some (Finished (-RT_ETIMEOUT), ?e RT_ETIMEOUT)" using mutex_take_refused [OF m 3 d(3,5)] .
      have "stepped idle t k None (?e RT_ETIMEOUT)"
        using d(2,3) by (intro stepped_local [OF c _ quiet_mutex_take [OF r] obj_ok_error [OF d(10)]]) (simp_all add: sys_inv_upd_error)
      then show ?thesis using r True by (simp add: safe_def pending_def)
    next
      case False
      obtain k' where k': "rt_mutex_take m time k = Some (Waiting t, k')" "sys_inv k'" "mutex_inv m k'"
        "on_tlist k' (Mutex_wait m) = wait_order RT_IPC_FLAG_PRIO k t (on_tlist k (Mutex_wait m))"
        "\<forall>q'. is_wait_list q' \<and> q' \<noteq> Mutex_wait m \<longrightarrow> on_tlist k' q' = on_tlist k q'"
        "\<forall>v. v \<noteq> t \<longrightarrow> stat_of k' v = stat_of k v" "\<exists>v. rt_current_thread k' = Some v \<and> first_ready k' v"
        using mutex_take_waits [OF d(2) m 3 d(3,5,4) False time d(7,9)] d(6) by blast
      have "stepped idle t k (Some (Mutex_take m time)) k'"
        using k'(6) d(9) by (intro stepped_wait [OF c k'(2) quiet_mutex_take [OF k'(1)] obj_okI(2) [OF k'(3)] _ _ k'(4,5) _ k'(7)]) simp_all
      then show ?thesis using k'(1) by (simp add: safe_def pending_def)
    qed
  qed
qed

lemma safe_mutex_release:
  assumes c: "caller idle t k" and m: "mutex_inv m k"
  shows "safe idle t (Mutex_release m) k"
proof -
  note d = callerD [OF c]
  consider "mx_owner (mutexes k m) \<noteq> Some t" | "mx_owner (mutexes k m) = Some t" "mx_hold (mutexes k m) \<noteq> 1"
    | "mx_owner (mutexes k m) = Some t" "mx_hold (mutexes k m) = 1" by blast
  then show ?thesis
  proof cases
    case 1
    note r = mutex_release_foreign [OF m 1 d(3,5)]
    have "stepped idle t k None (upd_thread t (\<lambda>th. th\<lparr>th_error := RT_ERROR\<rparr>) k)"
      using d(2,3) by (intro stepped_local [OF c _ quiet_mutex_release [OF r] obj_ok_error [OF d(10)]]) (simp_all add: sys_inv_upd_error)
    then show ?thesis using r by (simp add: safe_def finished_def)
  next
    case 2
    note r = mutex_release_nested [OF m 2 d(3,5)]
    let ?k = "upd_mutex m (\<lambda>mx. mx\<lparr>mx_hold := mx_hold mx - 1\<rparr>) k"
    have "mutex_inv m ?k" using m 2 by (simp add: mutex_inv_def alive_def)
    then have "stepped idle t k None ?k"
      using d(2,3) by (intro stepped_local [OF c _ quiet_mutex_release [OF r] obj_okI(2)]) simp_all
    then show ?thesis using r by (simp add: safe_def finished_def)
  next
    case 3
    let ?q = "Mutex_wait m"
    obtain k' where k': "rt_mutex_release m k = Some (RT_EOK, k')" "sys_inv k'" "mutex_inv m k'" "stat_of k' t = stat_of k t"
      "\<forall>q. is_wait_list q \<and> q \<noteq> ?q \<longrightarrow> on_tlist k' q = on_tlist k q"
      and l: "case on_tlist k ?q of
         [] \<Rightarrow> mx_owner (mutexes k' m) = None \<and> rt_current_thread k' = Some t \<and> (\<forall>v. v \<noteq> t \<longrightarrow> threads k' v = threads k v)
       | w # ws \<Rightarrow> mx_owner (mutexes k' m) = Some w \<and> mx_hold (mutexes k' m) = 1
           \<and> mx_original_priority (mutexes k' m) = prio_of k w \<and> on_tlist k' ?q = ws
           \<and> stat_of k' w = RT_THREAD_READY \<and> th_error (threads k' w) = th_error (threads k w) \<and> prio_of k' w = prio_of k w
           \<and> (\<forall>v. v \<noteq> t \<and> v \<noteq> w \<longrightarrow> threads k' v = threads k v) \<and> home (timer_lists k') (Thread_timer w) = None
           \<and> (rt_scheduler_lock_nest k = 0 \<longrightarrow> (\<exists>v. rt_current_thread k' = Some v \<and> first_ready k' v))"
      using mutex_release_last [OF d(2) m 3 d(3,5)] by blast
    have "stepped idle t k None k'"
    proof (rule stepped_moved [OF c k'(2) quiet_mutex_release [OF k'(1), of "{}"] obj_okI(2) [OF k'(3)] _ _ k'(5)])
      show "\<exists>v. rt_current_thread k' = Some v \<and> stat_of k' v = RT_THREAD_READY"
        using l k'(4) d(4,6) unfolding first_ready_def by (cases "on_tlist k ?q") auto
      show "set (on_tlist k' ?q) \<subseteq> set (on_tlist k ?q)"
        using l k'(3) by (cases "on_tlist k ?q") (auto simp: mutex_inv_def)
      show "stat_of k' idle = RT_THREAD_READY"
        using l d(7,9) stat_unchanged [of k' idle k] by (cases "on_tlist k ?q") auto
    qed simp_all
    then show ?thesis using k'(1) by (simp add: safe_def finished_def)
  qed
qed

lemma safe_event_send:
  assumes c: "caller idle t k" and e: "event_inv e k"
  shows "safe idle t (Event_send e bits) k"
proof (cases "bits = 0")
  note d = callerD [OF c]
  case True
  have "rt_event_send e bits k = Some (-RT_ERROR, k)" using e True by (simp add: rt_event_send_def event_inv_def)
  moreover have "stepped idle t k None k" using d(2,3,10) by (intro stepped_local [OF c, of _ e]) simp_all
  ultimately show ?thesis by (simp add: safe_def finished_def)
next
  note d = callerD [OF c]
  case False
  let ?q = "Event_wait e"
  let ?sc = "ev_scan (threads k) (on_tlist k ?q) (ev_set (events k e) OR bits)"
  obtain k' where k': "rt_event_send e bits k = Some (RT_EOK, k')" "sys_inv k'" "event_inv e k'"
    "on_tlist k' ?q = filter (\<lambda>t. t \<notin> fst ` set (fst ?sc)) (on_tlist k ?q)"
    "\<forall>q'. is_wait_list q' \<and> q' \<noteq> ?q \<longrightarrow> on_tlist k' q' = on_tlist k q'"
    "\<forall>t. t \<notin> fst ` set (fst ?sc) \<longrightarrow> threads k' t = threads k t"
    and cur: "if fst ?sc = [] then rt_current_thread k' = rt_current_thread k
       else rt_scheduler_lock_nest k = 0 \<longrightarrow> (\<exists>v. rt_current_thread k' = Some v \<and> first_ready k' v)"
    using event_send_spec [OF d(2) e False] by blast
  have rd: "stat_of k' v = RT_THREAD_READY" if "stat_of k v = RT_THREAD_READY" for v
  proof -
    have "v \<notin> set (on_tlist k ?q)" using wait_list_suspended(1) [OF sys_invD(5) [OF d(2)], of ?q v] that by auto
    then have "v \<notin> fst ` set (fst ?sc)" using ev_scan_tids [of v] by fastforce
    then show ?thesis using k'(6) that by (simp add: stat_of_def)
  qed
  have "stepped idle t k None k'"
  proof (rule stepped_moved [OF c k'(2) quiet_event_send [OF k'(1) subset_refl] obj_okI(3) [OF k'(3)] _ _ k'(5)])
    show "\<exists>v. rt_current_thread k' = Some v \<and> stat_of k' v = RT_THREAD_READY"
      using cur d(3,6) rd [OF d(4)] unfolding first_ready_def by (cases "fst ?sc = []") auto
  qed (use k'(4) rd [OF d(7)] in auto)
  then show ?thesis using k'(1) by (simp add: safe_def finished_def)
qed

lemma safe_event_recv:
  assumes c: "caller idle t k" and e: "event_inv e k" and time: "time \<noteq> 0x7fffffff"
    and opt: "opt AND RT_EVENT_FLAG_AND \<noteq> 0 \<or> opt AND RT_EVENT_FLAG_OR \<noteq> 0"
  shows "safe idle t (Event_recv e bits opt time) k"
proof (cases "bits = 0")
  note d = callerD [OF c]
  case True
  have "rt_event_recv e bits opt time k = Some (Finished (-RT_ERROR, None), k)"
    using e True in_thread_context [OF d(3,5)] by (simp add: rt_event_recv_def event_inv_def)
  moreover have "stepped idle t k None k" using d(2,3,10) by (intro stepped_local [OF c, of _ e]) simp_all
  ultimately show ?thesis by (simp add: safe_def pending_def)
next
  note d = callerD [OF c]
  case False
  have call: "event_call e bits opt t k" using d e opt False by (simp add: event_call_def)
  show ?thesis
  proof (cases "ev_ready opt bits (ev_set (events k e))")
    case True
    obtain k' where k': "rt_event_recv e bits opt time k = Some (Finished (RT_EOK, Some (ev_set (events k e) AND bits)), k')"
      "sys_inv k'" "event_inv e k'" "tlists k' = tlists k" "\<forall>v. v \<noteq> t \<longrightarrow> threads k' v = threads k v" "rt_current_thread k' = Some t"
      using event_recv_now [OF call True, of time] by blast
    have "stat_of k' = stat_of k"
      using k'(1) event_recv_unfold [OF call, of time] True by (auto split: if_splits)
    then have "stepped idle t k None k'"
      using k'(4,6) by (intro stepped_local [OF c k'(2) quiet_event_recv [OF k'(1) d(3)] obj_okI(3) [OF k'(3)]]) (simp_all add: on_tlist_def fun_eq_iff)
    then show ?thesis using k'(1) by (simp add: safe_def pending_def)
  next
    case nrd: False
    show ?thesis
    proof (cases "time = 0")
      case True
      let ?k = "upd_thread t (\<lambda>th. th\<lparr>th_error := RT_ETIMEOUT\<rparr>) (upd_thread t (\<lambda>th. th\<lparr>th_error := RT_EOK\<rparr>) k)"
      have r: "rt_event_recv e bits opt time k = Some (Finished (-RT_ETIMEOUT, None), ?k)"
        using event_recv_unfold [OF call, of time] nrd True by simp
      have "stepped idle t k None ?k"
        using d(2,3) by (intro stepped_local [OF c _ quiet_event_recv [OF r d(3)] obj_ok_error [OF obj_ok_error [OF d(10)]]]) (simp_all add: sys_inv_upd_error)
      then show ?thesis using r by (simp add: safe_def pending_def)
    next
      case False
      obtain k' where k': "rt_event_recv e bits opt time k = Some (Waiting t, k')" "sys_inv k'" "event_inv e k'"
        "on_tlist k' (Event_wait e) = wait_order (obj_flag (objects k (Obj e))) k t (on_tlist k (Event_wait e))"
        "\<forall>q'. is_wait_list q' \<and> q' \<noteq> Event_wait e \<longrightarrow> on_tlist k' q' = on_tlist k q'"
        "\<forall>v. v \<noteq> t \<longrightarrow> threads k' v = threads k v" "\<exists>v. rt_current_thread k' = Some v \<and> first_ready k' v"
        using event_recv_waits [OF call nrd False time d(7,9)] d(6) by blast
      have st: "stat_of k' idle = stat_of k idle" using k'(6) d(9) by (simp add: stat_of_def)
      have "stepped idle t k (Some (Event_recv e bits opt time)) k'"
        by (rule stepped_wait [OF c k'(2) quiet_event_recv [OF k'(1) d(3)] obj_okI(3) [OF k'(3)] _ _ k'(4,5) st k'(7)]) simp_all
      then show ?thesis using k'(1) by (simp add: safe_def pending_def)
    qed
  qed
qed

text \<open>Mailboxes and message queues, from the head of their loops on.\<close>

lemma now_waiting_step:
  assumes c: "caller idle t k" and w: "now_waiting p fl time t k k'" and "sys_inv k'" and "quiet n {t} k k'" and "obj_ok n k'"
    and "wait_of c = Some p" and "p \<in> obj_lists n"
  shows "stepped idle t k (Some c) k'"
proof (rule stepped_wait [OF c assms(3-7)])
  note d = callerD [OF c]
  show "on_tlist k' p = wait_order fl k t (on_tlist k p)" "\<forall>q'. is_wait_list q' \<and> q' \<noteq> p \<longrightarrow> on_tlist k' q' = on_tlist k q'"
    using w unfolding now_waiting_def by blast+
  show "stat_of k' idle = stat_of k idle" using w d(9) unfolding now_waiting_def by (intro stat_unchanged) blast
  have "if rt_scheduler_lock_nest k = 0 then \<exists>v. rt_current_thread k' = Some v \<and> first_ready k' v
         else rt_current_thread k' = rt_current_thread k" using w unfolding now_waiting_def by blast
  then show "\<exists>v. rt_current_thread k' = Some v \<and> first_ready k' v" using d(6) by simp
qed

lemma mb_send_loop_step:
  assumes c: "caller idle t k" and m: "mb_inv m k" and time: "time \<noteq> 0x7fffffff"
  shows "\<exists>r k'. mb_send_loop m v time (Some t) k = Some (r, k') \<and> stepped idle t k (fst (pending (Mb_send m v time) (r, k'))) k'"
proof (cases "mb_has_room m k")
  note d = callerD [OF c]
  case True
  obtain k0 k' where k': "mb_send_loop m v time (Some t) k = Some (Finished RT_EOK, k')" "k0 = upd_mb m (\<lambda>_. mailboxes k' m) k"
    "woken_first (Mb_recv_wait m) k0 k'" "sys_inv k'" "mb_inv m k'"
    using mb_send_now [OF d(2) m True] by blast
  have "stepped idle t k None k'"
    using k'(2) by (intro stepped_wake [OF c k'(4) quiet_mb_send_loop [OF k'(1)] obj_okI(4) [OF k'(5)] _ _ _ _ k'(3)]) simp_all
  then show ?thesis using k'(1) by (simp add: pending_def)
next
  note d = callerD [OF c]
  case full: False
  show ?thesis
  proof (cases "time = 0")
    case True
    let ?k = "upd_thread t (\<lambda>th. th\<lparr>th_error := RT_EOK\<rparr>) k"
    have r: "mb_send_loop m v time (Some t) k = Some (Finished (-RT_EFULL), ?k)" using full True by (simp add: mb_send_loop_def mb_has_room_def)
    have "stepped idle t k None ?k"
      using d(2,3) by (intro stepped_local [OF c _ quiet_mb_send_loop [OF r] obj_ok_error [OF d(10)]]) (simp_all add: sys_inv_upd_error)
    then show ?thesis using r by (simp add: pending_def)
  next
    case False
    obtain k' where k': "mb_send_loop m v time (Some t) k = Some (Waiting t, k')" "sys_inv k'" "mb_inv m k'"
      "now_waiting (Mb_send_wait m) (obj_flag (objects k (Obj m))) time t k k'"
      using mb_send_waits [OF d(2) m full d(3,4,5) False time d(7,9)] by blast
    have "stepped idle t k (Some (Mb_send m v time)) k'"
      by (rule now_waiting_step [OF c k'(4,2) quiet_mb_send_loop [OF k'(1)] obj_okI(4) [OF k'(3)]]) simp_all
    then show ?thesis using k'(1) by (simp add: pending_def)
  qed
qed

lemma mb_recv_loop_step:
  assumes c: "caller idle t k" and m: "mb_inv m k" and time: "time \<noteq> 0x7fffffff"
  shows "\<exists>r k'. mb_recv_loop m time (Some t) k = Some (r, k') \<and> stepped idle t k (fst (pending (Mb_recv m time) (r, k'))) k'"
proof (cases "mb_mails (mailboxes k m)")
  note d = callerD [OF c]
  case (Cons v vs)
  obtain k0 k' where k': "mb_recv_loop m time (Some t) k = Some (Finished (RT_EOK, Some v), k')" "k0 = upd_mb m (\<lambda>_. mailboxes k' m) k"
    "woken_first (Mb_send_wait m) k0 k'" "sys_inv k'" "mb_inv m k'"
    using mb_recv_now [OF d(2) m Cons] by blast
  have "stepped idle t k None k'"
    using k'(2) by (intro stepped_wake [OF c k'(4) quiet_mb_recv_loop [OF k'(1)] obj_okI(4) [OF k'(5)] _ _ _ _ k'(3)]) simp_all
  then show ?thesis using k'(1) by (simp add: pending_def)
next
  note d = callerD [OF c]
  case Nil
  then have none: "\<not> mb_has_mail m k" by (simp add: mb_has_mail_iff)
  show ?thesis
  proof (cases "time = 0")
    case True
    let ?k = "upd_thread t (\<lambda>th. th\<lparr>th_error := RT_ETIMEOUT\<rparr>) (upd_thread t (\<lambda>th. th\<lparr>th_error := RT_EOK\<rparr>) k)"
    have r: "mb_recv_loop m time (Some t) k = Some (Finished (-RT_ETIMEOUT, None), ?k)" using none True by (simp add: mb_recv_loop_def mb_has_mail_def)
    have "stepped idle t k None ?k"
      using d(2,3) by (intro stepped_local [OF c _ quiet_mb_recv_loop [OF r] obj_ok_error [OF obj_ok_error [OF d(10)]]]) (simp_all add: sys_inv_upd_error)
    then show ?thesis using r by (simp add: pending_def)
  next
    case False
    obtain k' where k': "mb_recv_loop m time (Some t) k = Some (Waiting t, k')" "sys_inv k'" "mb_inv m k'"
      "now_waiting (Mb_recv_wait m) (obj_flag (objects k (Obj m))) time t k k'"
      using mb_recv_waits [OF d(2) m none d(3,4,5) False time d(7,9)] by blast
    have "stepped idle t k (Some (Mb_recv m time)) k'"
      by (rule now_waiting_step [OF c k'(4,2) quiet_mb_recv_loop [OF k'(1)] obj_okI(4) [OF k'(3)]]) simp_all
    then show ?thesis using k'(1) by (simp add: pending_def)
  qed
qed

lemma mq_recv_loop_step:
  assumes c: "caller idle t k" and m: "mq_inv m k" and time: "time \<noteq> 0x7fffffff"
  shows "\<exists>r k'. mq_recv_loop m sz time (Some t) k = Some (r, k') \<and> stepped idle t k (fst (pending (Mq_recv m sz time) (r, k'))) k'"
proof (cases "mq_messages (mqs k m)")
  note d = callerD [OF c]
  case (Cons b bs)
  obtain k' where k': "mq_recv_loop m sz time (Some t) k = Some (Finished (RT_EOK, Some (take (unat sz) b)), k')" "sys_inv k'" "mq_inv m k'"
    "woken_first (Mq_send_wait m) (upd_mq m (\<lambda>_. mqs k' m) k) k'"
    using mq_recv_now [OF d(2) m Cons] by blast
  have "stepped idle t k None k'"
    by (intro stepped_wake [OF c k'(2) quiet_mq_recv_loop [OF k'(1)] obj_okI(5) [OF k'(3)] _ _ _ _ k'(4)]) simp_all
  then show ?thesis using k'(1) by (simp add: pending_def)
next
  note d = callerD [OF c]
  case Nil
  then have none: "\<not> mq_has_msg m k" using mq_has_msg_iff [OF m] by simp
  show ?thesis
  proof (cases "time = 0")
    case True
    let ?k = "upd_thread t (\<lambda>th. th\<lparr>th_error := RT_ETIMEOUT\<rparr>) (upd_thread t (\<lambda>th. th\<lparr>th_error := RT_EOK\<rparr>) k)"
    have r: "mq_recv_loop m sz time (Some t) k = Some (Finished (-RT_ETIMEOUT, None), ?k)"
      using none True in_thread_context [OF d(3,5)] by (simp add: mq_recv_loop_def mq_has_msg_def)
    have "stepped idle t k None ?k"
      using d(2,3) by (intro stepped_local [OF c _ quiet_mq_recv_loop [OF r] obj_ok_error [OF obj_ok_error [OF d(10)]]]) (simp_all add: sys_inv_upd_error)
    then show ?thesis using r by (simp add: pending_def)
  next
    case False
    obtain k' where k': "mq_recv_loop m sz time (Some t) k = Some (Waiting t, k')" "sys_inv k'" "mq_inv m k'"
      "now_waiting (Mq_recv_wait m) (obj_flag (objects k (Obj m))) time t k k'"
      using mq_recv_waits [OF d(2) m none d(3,4,5) False time d(7,9)] by blast
    have "stepped idle t k (Some (Mq_recv m sz time)) k'"
      by (rule now_waiting_step [OF c k'(4,2) quiet_mq_recv_loop [OF k'(1)] obj_okI(5) [OF k'(3)]]) simp_all
    then show ?thesis using k'(1) by (simp add: pending_def)
  qed
qed

lemma pending_eq: "pending c (r, k) = (fst (pending c (r, k)), k)"
  by (simp add: pending_def)

lemma pending_fst: "fst (pending c x) = None \<or> fst (pending c x) = Some c"
  by (auto simp: pending_def split: outcome.splits prod.splits)

lemma safeI:
  "exec c k = map_option (pending c) x \<Longrightarrow> x = Some (r, k') \<Longrightarrow> stepped idle t k (fst (pending c (r, k'))) k' \<Longrightarrow> safe idle t c k"
  using pending_eq [of c r k'] pending_fst [of c "(r, k')"] unfolding safe_def by auto

lemma stepped_nothing: "caller idle t k \<Longrightarrow> stepped idle t k None k"
  using callerD [of idle t k] by (intro stepped_local [of _ _ _ _ 0]) simp_all

lemma safe_mailbox:
  assumes c: "caller idle t k" and m: "mb_inv m k"
  shows "time \<noteq> 0x7fffffff \<Longrightarrow> safe idle t (Mb_send m v time) k" "safe idle t (Mb_urgent m v) k"
    "time \<noteq> 0x7fffffff \<Longrightarrow> safe idle t (Mb_recv m time) k"
proof -
  note d = callerD [OF c]
  have self: "rt_thread_self k = Some t" using d(3) by (simp add: rt_thread_self_def)
  show "safe idle t (Mb_send m v time) k" if time: "time \<noteq> 0x7fffffff"
  proof (cases "\<not> mb_has_room m k \<and> time = 0")
    case True
    then show ?thesis using mb_no_room [OF m, of v] stepped_nothing [OF c] by (simp add: safe_def pending_def)
  next
    case False
    then have eq: "rt_mb_send_wait m v time k = mb_send_loop m v time (Some t) k"
      using m self by (auto simp: rt_mb_send_wait_def mb_inv_def mb_has_room_def)
    obtain r k' where "mb_send_loop m v time (Some t) k = Some (r, k')" "stepped idle t k (fst (pending (Mb_send m v time) (r, k'))) k'"
      using mb_send_loop_step [OF c m time] by blast
    then show ?thesis using eq by (intro safeI) simp_all
  qed
  show "safe idle t (Mb_recv m time) k" if time: "time \<noteq> 0x7fffffff"
  proof (cases "\<not> mb_has_mail m k \<and> time = 0")
    case True
    then show ?thesis using mb_no_mail [OF m] stepped_nothing [OF c] by (simp add: safe_def pending_def)
  next
    case False
    then have eq: "rt_mb_recv m time k = mb_recv_loop m time (Some t) k"
      using m self by (auto simp: rt_mb_recv_def mb_inv_def mb_has_mail_def)
    obtain r k' where "mb_recv_loop m time (Some t) k = Some (r, k')" "stepped idle t k (fst (pending (Mb_recv m time) (r, k'))) k'"
      using mb_recv_loop_step [OF c m time] by blast
    then show ?thesis using eq by (intro safeI) simp_all
  qed
  show "safe idle t (Mb_urgent m v) k"
  proof (cases "mb_has_room m k")
    case True
    obtain k0 k' where k': "rt_mb_urgent m v k = Some (RT_EOK, k')" "k0 = upd_mb m (\<lambda>_. mailboxes k' m) k"
      "woken_first (Mb_recv_wait m) k0 k'" "sys_inv k'" "mb_inv m k'"
      using mb_urgent_now [OF d(2) m True] by blast
    have "stepped idle t k None k'"
      using k'(2) by (intro stepped_wake [OF c k'(4) quiet_mb_urgent [OF k'(1)] obj_okI(4) [OF k'(5)] _ _ _ _ k'(3)]) simp_all
    then show ?thesis using k'(1) by (simp add: safe_def finished_def)
  next
    case False
    then have "rt_mb_urgent m v k = Some (-RT_EFULL, k)" using m by (simp add: rt_mb_urgent_def mb_inv_def mb_has_room_def)
    then show ?thesis using stepped_nothing [OF c] by (simp add: safe_def finished_def)
  qed
qed

lemma safe_mq:
  assumes c: "caller idle t k" and m: "mq_inv m k"
  shows "good_args (Mq_send m buffer sz) k \<Longrightarrow> safe idle t (Mq_send m buffer sz) k" "good_args (Mq_urgent m buffer sz) k \<Longrightarrow> safe idle t (Mq_urgent m buffer sz) k"
    "time \<noteq> 0x7fffffff \<Longrightarrow> sz \<noteq> 0 \<Longrightarrow> safe idle t (Mq_recv m sz time) k"
proof -
  note d = callerD [OF c]
  let ?mq = "mqs k m"
  have too_long: "rt_mq_send m buffer sz k = Some (-RT_ERROR, k)" "rt_mq_urgent m buffer sz k = Some (-RT_ERROR, k)" if "ucast (mq_msg_size ?mq) < sz"
    using m that by (simp_all add: rt_mq_send_def rt_mq_urgent_def mq_inv_def)
  have le: "length (mq_messages ?mq) \<le> unat (mq_max_msgs ?mq)" using mq_full(2) [of ?mq] m by (simp add: mq_inv_def)
  show "safe idle t (Mq_send m buffer sz) k" if ga: "good_args (Mq_send m buffer sz) k"
  proof -
    consider "ucast (mq_msg_size ?mq) < sz" | "mq_sendable buffer sz ?mq" "length (mq_messages ?mq) < unat (mq_max_msgs ?mq)"
      | "mq_sendable buffer sz ?mq" "length (mq_messages ?mq) = unat (mq_max_msgs ?mq)" using ga le by force
    then show ?thesis
    proof cases
      case 2
      obtain k' where k': "rt_mq_send m buffer sz k = Some (RT_EOK, k')" "sys_inv k'" "mq_inv m k'"
        "woken_first (Mq_recv_wait m) (upd_mq m (\<lambda>_. mqs k' m) k) k'" using mq_send_now [OF d(2) m 2] by blast
      have "stepped idle t k None k'"
        by (rule stepped_wake [OF c k'(2) quiet_mq_send [OF k'(1)] obj_okI(5) [OF k'(3)] _ _ _ _ k'(4)]) simp_all
      then show ?thesis using k'(1) by (simp add: safe_def finished_def)
    qed (use too_long(1) mq_no_room(1) [OF m] stepped_nothing [OF c] in \<open>simp_all add: safe_def finished_def\<close>)
  qed
  show "safe idle t (Mq_urgent m buffer sz) k" if ga: "good_args (Mq_urgent m buffer sz) k"
  proof -
    consider "ucast (mq_msg_size ?mq) < sz" | "mq_sendable buffer sz ?mq" "length (mq_messages ?mq) < unat (mq_max_msgs ?mq)"
      | "mq_sendable buffer sz ?mq" "length (mq_messages ?mq) = unat (mq_max_msgs ?mq)" using ga le by force
    then show ?thesis
    proof cases
      case 2
      obtain k' where k': "rt_mq_urgent m buffer sz k = Some (RT_EOK, k')" "sys_inv k'" "mq_inv m k'"
        "woken_first (Mq_recv_wait m) (upd_mq m (\<lambda>_. mqs k' m) k) k'" using mq_urgent_now [OF d(2) m 2] by blast
      have "stepped idle t k None k'"
        by (rule stepped_wake [OF c k'(2) quiet_mq_urgent [OF k'(1)] obj_okI(5) [OF k'(3)] _ _ _ _ k'(4)]) simp_all
      then show ?thesis using k'(1) by (simp add: safe_def finished_def)
    qed (use too_long(2) mq_no_room(2) [OF m] stepped_nothing [OF c] in \<open>simp_all add: safe_def finished_def\<close>)
  qed
  have self: "rt_thread_self k = Some t" using d(3) by (simp add: rt_thread_self_def)
  show "safe idle t (Mq_recv m sz time) k" if time: "time \<noteq> 0x7fffffff" and sz: "sz \<noteq> 0"
  proof (cases "\<not> mq_has_msg m k \<and> time = 0")
    case True
    then have "rt_mq_recv m sz time k = Some (Finished (-RT_ETIMEOUT, None), k)"
      using m sz by (simp add: rt_mq_recv_def mq_inv_def mq_has_msg_def)
    then show ?thesis using stepped_nothing [OF c] by (simp add: safe_def pending_def)
  next
    case False
    then have eq: "rt_mq_recv m sz time k = mq_recv_loop m sz time (Some t) k"
      using m sz self by (auto simp: rt_mq_recv_def mq_inv_def mq_has_msg_def)
    obtain r k' where "mq_recv_loop m sz time (Some t) k = Some (r, k')" "stepped idle t k (fst (pending (Mq_recv m sz time) (r, k'))) k'"
      using mq_recv_loop_step [OF c m time] by blast
    then show ?thesis using eq by (intro safeI) simp_all
  qed
qed

lemma safe_yield:
  assumes c: "caller idle t k"
  shows "safe idle t Yield k"
proof (cases "tlist_not_alone t k")
  note d = callerD [OF c]
  case True
  obtain k' where k': "rt_thread_yield k = Some (RT_EOK, k')" "kernel_inv k'" "threads k' = threads k" "same_ipc k k'"
    "rt_scheduler_lock_nest k = 0 \<longrightarrow> (\<exists>u. rt_current_thread k' = Some u \<and> first_ready k' u)"
    "rt_current_thread k' \<noteq> None" "timer_lists k' = timer_lists k" "objects k' = objects k" "timers k' = timers k"
    "\<forall>q. q \<noteq> Ready (prio_of k t) \<longrightarrow> on_tlist k' q = on_tlist k q"
    using yield_not_alone [OF sys_invD(4) [OF d(2)] d(3,4) True sys_invD(7) [OF d(2)]] by blast
  have "rt_tick k' = rt_tick k" "sched_inv k'" using k'(2,4) by (simp_all add: same_ipc_def kernel_inv_def)
  then have inv: "sys_inv k'" using k'(3,6-9) d(2) by (intro sys_inv_lists [of k' k]) simp_all
  have l: "on_tlist k' q = on_tlist k q" if "is_wait_list q" for q using k'(10) that by (metis is_wait_list_def)
  have q: "quiet n {} k k'" for n using quiet_yield [OF k'(1)] .
  have "world idle k'"
  proof (rule world_kept [OF d(1) inv q])
    show "obj_ok 0 k'" using k'(3,4) l
      by (intro obj_ok_frame [OF d(10)]) (auto simp: same_ipc_def alive_def stat_of_def dest: obj_lists_wait)
    show "\<exists>v. rt_current_thread k' = Some v \<and> stat_of k' v = RT_THREAD_READY" using k'(5) d(6) unfolding first_ready_def by blast
  qed (use l d(7) k'(3) in \<open>simp_all add: stat_of_def\<close>)
  then have "stepped idle t k None k'" using l quiet_type [OF q] by (simp add: stepped_def)
  then show ?thesis using k'(1) by (simp add: safe_def finished_def)
next
  case False
  then have "rt_thread_yield k = Some (RT_EOK, k)" using callerD(3) [OF c] by (simp add: rt_thread_yield_def)
  then show ?thesis using stepped_nothing [OF c] by (simp add: safe_def finished_def)
qed

text \<open>Every call on an object of the right class with proper arguments comes back or waits, and keeps the world.\<close>

lemma typed_safe:
  assumes c: "caller idle t k" and ty: "well_typed cl k" and g: "good cl k"
  shows "safe idle t cl k"
proof -
  have ok: "obj_ok n k" for n using callerD(10) [OF c] .
  have inv: "rt_object_get_type (Obj n) k = RT_Object_Class_Semaphore \<Longrightarrow> sem_inv n k"
    "rt_object_get_type (Obj n) k = RT_Object_Class_Mutex \<Longrightarrow> mutex_inv n k"
    "rt_object_get_type (Obj n) k = RT_Object_Class_Event \<Longrightarrow> event_inv n k"
    "rt_object_get_type (Obj n) k = RT_Object_Class_MailBox \<Longrightarrow> mb_inv n k"
    "rt_object_get_type (Obj n) k = RT_Object_Class_MessageQueue \<Longrightarrow> mq_inv n k" for n
    using ok [of n] by (simp_all add: obj_ok_def)
  show ?thesis
    using ty g inv safe_sem_take [OF c] safe_sem_release [OF c] safe_mutex_take [OF c] safe_mutex_release [OF c]
      safe_event_send [OF c] safe_event_recv [OF c] safe_mailbox [OF c] safe_mq [OF c] safe_yield [OF c]
    by (cases cl) (simp_all add: well_typed_def good_def)
qed

lemma untyped_fails: "\<not> well_typed cl k \<Longrightarrow> exec cl k = None"
  by (cases cl) (simp_all add: well_typed_def rt_sem_take_def rt_sem_release_def rt_mutex_take_def rt_mutex_release_def
      rt_event_send_def rt_event_recv_def rt_mb_send_wait_def rt_mb_urgent_def rt_mb_recv_def rt_mq_send_def rt_mq_urgent_def rt_mq_recv_def bind_eq_None_conv)

section \<open>Coming back, and the tick\<close>

lemma back_finish:
  assumes c: "caller idle t k" and b: "come_back cl start t k = map_option (pending cl') x"
    and x: "x = Some (Finished e, k) \<or> (\<exists>r k'. x = Some (r, k') \<and> stepped idle t k (fst (pending cl' (r, k'))) k')"
  shows "\<exists>r k'. come_back cl start t k = Some (r, k') \<and> stepped idle t k r k' \<and> (r = None \<or> r = Some cl')"
proof -
  have "stepped idle t k (fst (pending cl' (Finished e, k))) k" using stepped_nothing [OF c] by (simp add: pending_def)
  with x obtain r k' where "x = Some (r, k')" "stepped idle t k (fst (pending cl' (r, k'))) k'" by blast
  then show ?thesis using b pending_fst [of cl' "(r, k')"] pending_eq [of cl' r k'] by auto
qed

lemma back_safe:
  assumes c: "caller idle t k" and ty: "well_typed cl k" and w: "wait_of cl \<noteq> None"
    and time: "call_time (rest_call cl start k) \<noteq> 0x7fffffff"
  shows "\<exists>r k'. come_back cl start t k = Some (r, k') \<and> stepped idle t k r k' \<and> (r = None \<or> r = Some (rest_call cl start k))"
proof -
  have stay: "stepped idle t k None k" using stepped_nothing [OF c] .
  have "no_signals k" using callerD(1) [OF c] by (simp add: world_def)
  then have mx: "\<exists>r. rt_mutex_take_back m tm t k = Some (Finished r, k)" for m tm
    by (simp add: rt_mutex_take_back_def no_signals_def)
  have inv: "rt_object_get_type (Obj n) k = RT_Object_Class_MailBox \<Longrightarrow> mb_inv n k"
    "rt_object_get_type (Obj n) k = RT_Object_Class_MessageQueue \<Longrightarrow> mq_inv n k" for n
    using callerD(10) [OF c, of n] by (simp_all add: obj_ok_def)
  show ?thesis
  proof (cases cl)
    case (Mb_send m v tm)
    have "mb_inv m k" using ty inv(1) Mb_send by (simp add: well_typed_def)
    then show ?thesis using mb_send_loop_step [OF c, of m "rest_timeout tm start k" v] time Mb_send
      by (intro back_finish [OF c, where x = "rt_mb_send_wait_back m v tm start t k" and e = "- th_error (threads k t)"]) (auto simp: rt_mb_send_wait_back_def)
  next
    case (Mb_recv m tm)
    have "mb_inv m k" using ty inv(1) Mb_recv by (simp add: well_typed_def)
    then show ?thesis using mb_recv_loop_step [OF c, of m "rest_timeout tm start k"] time Mb_recv
      by (intro back_finish [OF c, where x = "rt_mb_recv_back m tm start t k" and e = "(- th_error (threads k t), None)"]) (auto simp: rt_mb_recv_back_def)
  next
    case (Mq_recv m sz tm)
    have "mq_inv m k" using ty inv(2) Mq_recv by (simp add: well_typed_def)
    then show ?thesis using mq_recv_loop_step [OF c, of m "rest_timeout tm start k" sz] time Mq_recv
      by (intro back_finish [OF c, where x = "rt_mq_recv_back m sz tm start t k" and e = "(- th_error (threads k t), None)"]) (auto simp: rt_mq_recv_back_def)
  next
    case (Mutex_take m tm)
    obtain r where "rt_mutex_take_back m tm t k = Some (Finished r, k)" using mx by blast
    then show ?thesis using stay Mutex_take by (simp add: pending_def)
  qed (use w stay in simp_all)
qed

lemma tick_safe:
  assumes w: "world idle k" and fuel: "length (on_timers k Hard_timers) < fuel"
  shows "\<exists>k'. rt_tick_increase user fuel k = Some k' \<and> world idle k'
    \<and> (\<forall>n. rt_object_get_type (Obj n) k' = rt_object_get_type (Obj n) k)
    \<and> (\<forall>q. is_wait_list q \<longrightarrow> set (on_tlist k' q) \<subseteq> set (on_tlist k q))"
proof -
  note d = worldD [OF w]
  obtain t where t: "rt_current_thread k = Some t" "stat_of k t = RT_THREAD_READY" using w by (auto simp: world_def)
  have thr: "\<forall>h\<in>set (on_timers k Hard_timers). \<exists>v. h = Thread_timer v" using d(5) by (simp add: only_thread_timers_def)
  obtain k1 k' where k': "rt_tick_increase user fuel k = Some k'" "sys_inv k'" "timed_out (due k) k1 k'"
    "threads k1 = (threads k)(t := slice (threads k t))" "\<forall>q. is_wait_list q \<longrightarrow> on_tlist k1 q = on_tlist k q"
    "\<exists>v. rt_current_thread k' = Some v \<and> stat_of k' v = RT_THREAD_READY" "same_ipc (k\<lparr>rt_tick := rt_tick k + 1\<rparr>) k'"
    "on_timers k' Hard_timers = filter (\<lambda>h. \<not> timer_expired (rt_tick k + 1) h k) (on_timers k Hard_timers)"
    using tick_runs [OF d(1) t thr fuel, of user] by blast
  have sl: "stat_of k1 = stat_of k" "th_error (threads k1 v) = th_error (threads k v)" "th_event_set (threads k1 v) = th_event_set (threads k v)"
    "th_event_info (threads k1 v) = th_event_info (threads k v)" for v
    using k'(4) by (auto simp: stat_of_def slice_def fun_eq_iff)
  have wl: "on_tlist k' q = filter (\<lambda>u. u \<notin> due k) (on_tlist k q)" if "is_wait_list q" for q
    using k'(3,5) that by (simp add: timed_out_def)
  have th: "if v \<in> due k then stat_of k' v = RT_THREAD_READY \<and> th_error (threads k' v) = RT_ETIMEOUT else threads k' v = threads k1 v" for v
    using k'(3) by (simp add: timed_out_def)
  have al: "alive k' v" if "alive k v" for v using th [of v] that sl(1) by (auto simp: alive_def stat_of_def fun_eq_iff split: if_splits)
  have "obj_ok n k'" for n
    using k'(7) al wl th sl by (intro obj_ok_frame [OF d(7)]) (auto simp: same_ipc_def dest: obj_lists_wait split: if_splits)
  moreover have "no_signals k'" unfolding no_signals_def
    using d(6) th sl(2) not_interrupted(3) by (metis no_signals_def)
  moreover have "stat_of k' idle = RT_THREAD_READY" using th [of idle] d(4) sl(1) by (auto simp: stat_of_def fun_eq_iff split: if_splits)
  moreover have "only_thread_timers k'" using d(5) k'(8) by (simp add: only_thread_timers_def)
  moreover have "rt_interrupt_nest k' = 0" "rt_scheduler_lock_nest k' = 0" using k'(7) d(2,3) by (simp_all add: same_ipc_def)
  ultimately have "world idle k'" using k'(2,6) by (simp add: world_def)
  moreover have "rt_object_get_type (Obj n) k' = rt_object_get_type (Obj n) k" for n using k'(7) by (simp add: same_ipc_def rt_object_get_type_def)
  ultimately show ?thesis using k'(1) wl by (intro exI [of _ k']) auto
qed

section \<open>The running system\<close>

text \<open>The pending calls with the tick at which they began to wait.\<close>

type_synonym calls = "tid \<Rightarrow> (call \<times> rt_tick_t) option"

text \<open>The timeout functions of user timers and the bound of the rounds of the timer check are parameters.\<close>

inductive kstep :: "(nat \<Rightarrow> nat \<Rightarrow> kernel \<Rightarrow> kernel option) \<Rightarrow> tid \<Rightarrow> kernel \<times> calls \<Rightarrow> kernel \<times> calls \<Rightarrow> bool" for user idle where
  call_ends: "rt_current_thread k = Some t \<Longrightarrow> t \<noteq> idle \<Longrightarrow> P t = None \<Longrightarrow> well_typed c k \<Longrightarrow> good c k \<Longrightarrow>
     exec c k = Some (None, k') \<Longrightarrow> kstep user idle (k, P) (k', P)"
| call_waits: "rt_current_thread k = Some t \<Longrightarrow> t \<noteq> idle \<Longrightarrow> P t = None \<Longrightarrow> well_typed c k \<Longrightarrow> good c k \<Longrightarrow>
     exec c k = Some (Some c', k') \<Longrightarrow> kstep user idle (k, P) (k', P(t \<mapsto> (c', rt_tick k)))"
| back_ends: "rt_current_thread k = Some t \<Longrightarrow> P t = Some (c, start) \<Longrightarrow> call_time (rest_call c start k) \<noteq> 0x7fffffff \<Longrightarrow>
     come_back c start t k = Some (None, k') \<Longrightarrow> kstep user idle (k, P) (k', P(t := None))"
| back_waits: "rt_current_thread k = Some t \<Longrightarrow> P t = Some (c, start) \<Longrightarrow> call_time (rest_call c start k) \<noteq> 0x7fffffff \<Longrightarrow>
     come_back c start t k = Some (Some c', k') \<Longrightarrow> kstep user idle (k, P) (k', P(t \<mapsto> (c', rt_tick k)))"
| tick: "length (on_timers k Hard_timers) < fuel \<Longrightarrow> rt_tick_increase user fuel k = Some k' \<Longrightarrow> kstep user idle (k, P) (k', P)"

text \<open>A pending call belongs to a thread other than the idle one and is for an object of its class, and
  every thread on a list of an object is there by a pending call of its own.\<close>

definition calls_ok :: "tid \<Rightarrow> kernel \<times> calls \<Rightarrow> bool" where
  "calls_ok idle = (\<lambda>(k, P). (\<forall>t c start. P t = Some (c, start) \<longrightarrow> t \<noteq> idle \<and> well_typed c k \<and> wait_of c \<noteq> None)
     \<and> (\<forall>n t. \<forall>q\<in>obj_lists n. t \<in> set (on_tlist k q) \<longrightarrow> (\<exists>c start. P t = Some (c, start) \<and> wait_of c = Some q)))"

lemma calls_ok_step:
  assumes st: "stepped idle t k r k'" and ok: "calls_ok idle (k, P)" and t: "t \<noteq> idle" "r = None \<Longrightarrow> stat_of k t = RT_THREAD_READY" and inv: "sys_inv k"
    and r: "\<And>c. r = Some c \<Longrightarrow> well_typed c k \<and> wait_of c \<noteq> None"
    and P': "P' = P(t := map_option (\<lambda>c. (c, rt_tick k)) r) \<or> r = None \<and> P' = P"
  shows "calls_ok idle (k', P')"
proof -
  have inv': "sys_inv k'" using st by (simp add: stepped_def world_def)
  have ty: "well_typed c k' = well_typed c k" for c using st by (simp add: stepped_def well_typed_def split: option.split)
  have l: "set (on_tlist k' q) \<subseteq> set (on_tlist k q) \<union> (if r \<noteq> None \<and> wait_of (the r) = Some q then {t} else {})" if "is_wait_list q" for q
    using st that by (simp add: stepped_def)
  have nt: "t \<notin> set (on_tlist k q)" if "is_wait_list q" "r = None" for q
    using wait_list_suspended(1) [OF sys_invD(5) [OF inv] that(1)] t(2) that(2) by fastforce
  have old: "\<exists>c start. P v = Some (c, start) \<and> wait_of c = Some q" if "q \<in> obj_lists n" "v \<in> set (on_tlist k q)" for n v q
    using ok that unfolding calls_ok_def by blast
  have "\<exists>c start. P' v = Some (c, start) \<and> wait_of c = Some q" if q: "q \<in> obj_lists n" "v \<in> set (on_tlist k' q)" for n v q
  proof (cases r)
    case None
    have v: "v \<in> set (on_tlist k q)" using l [OF obj_lists_wait [OF q(1)]] q(2) None by auto
    then have "v \<noteq> t" using nt [OF obj_lists_wait [OF q(1)] None] by blast
    then show ?thesis using old [OF q(1) v] P' by auto
  next
    case (Some c)
    show ?thesis
    proof (cases "v = t")
      case True
      obtain p where p: "wait_of c = Some p" "t \<in> set (on_tlist k' p)" using st Some by (auto simp: stepped_def)
      have "is_wait_list p" using p(1) by (cases c) auto
      then have "p = q"
        using wait_list_suspended(2) [OF sys_invD(5) [OF inv'], of p t] wait_list_suspended(2) [OF sys_invD(5) [OF inv'] obj_lists_wait [OF q(1)] q(2)] p(2) True by simp
      then show ?thesis using P' Some p(1) True by auto
    next
      case False
      then have "v \<in> set (on_tlist k q)" using l [OF obj_lists_wait [OF q(1)]] q(2) by (auto split: if_splits)
      then show ?thesis using old [OF q(1)] P' False Some by auto
    qed
  qed
  moreover have "t' \<noteq> idle \<and> well_typed c k' \<and> wait_of c \<noteq> None" if "P' t' = Some (c, start)" for t' c start
  proof -
    have old: "P t' = Some (c, start) \<Longrightarrow> t' \<noteq> idle \<and> well_typed c k \<and> wait_of c \<noteq> None" using ok unfolding calls_ok_def by blast
    show ?thesis
    proof (cases "P' t' = P t'")
      case True
      then show ?thesis using old that by (simp add: ty)
    next
      case False
      then have "t' = t" "P' = P(t := map_option (\<lambda>c. (c, rt_tick k)) r)" using P' by (auto split: if_splits)
      then show ?thesis using that r t(1) by (auto simp: ty)
    qed
  qed
  ultimately show ?thesis unfolding calls_ok_def by blast
qed

lemma rest_call_simps [simp]:
  "well_typed (rest_call c start k) k = well_typed c k" "wait_of (rest_call c start k) = wait_of c"
  by (cases c; simp add: well_typed_def)+

lemma kstep_keeps:
  assumes "kstep user idle (k, P) (k', P')" and w: "world idle k" and ok: "calls_ok idle (k, P)"
  shows "world idle k' \<and> calls_ok idle (k', P') \<and> (\<forall>n. rt_object_get_type (Obj n) k' = rt_object_get_type (Obj n) k)"
proof -
  have inv: "sys_inv k" using w by (rule worldD)
  have rd: "stat_of k t = RT_THREAD_READY" if "rt_current_thread k = Some t" for t using w that by (auto simp: world_def)
  have step: ?thesis
    if "stepped idle t k r k'" "rt_current_thread k = Some t" "t \<noteq> idle" "\<And>c. r = Some c \<Longrightarrow> well_typed c k \<and> wait_of c \<noteq> None"
      "P' = P(t := map_option (\<lambda>c. (c, rt_tick k)) r) \<or> r = None \<and> P' = P" for t r
    using calls_ok_step [OF that(1) ok that(3) _ inv that(4,5)] that(1) rd [OF that(2)] by (simp add: stepped_def)
  have wt: "\<exists>q. wait_of c = Some q" if "stepped idle t k (Some c) k'" for t c using that by (auto simp: stepped_def)
  show ?thesis using assms(1)
  proof cases
    case (call_ends t c)
    then have c: "caller idle t k" using w by (simp add: caller_def)
    then show ?thesis using typed_safe [OF c call_ends(5,6)] call_ends by (intro step [of t None]) (auto simp: safe_def)
  next
    case (call_waits t c c')
    then have c: "caller idle t k" using w by (simp add: caller_def)
    then have "stepped idle t k (Some c') k'" "c' = c" using typed_safe [OF c call_waits(5,6)] call_waits by (auto simp: safe_def)
    then show ?thesis using call_waits wt by (intro step [of t "Some c'"]) auto
  next
    case (back_ends t c start)
    have p: "t \<noteq> idle" "well_typed c k" "wait_of c \<noteq> None" using ok back_ends(3) by (auto simp: calls_ok_def)
    then have c: "caller idle t k" using w back_ends by (simp add: caller_def)
    then show ?thesis using back_safe [OF c p(2,3) back_ends(4)] back_ends p by (intro step [of t None]) auto
  next
    case (back_waits t c start c')
    have p: "t \<noteq> idle" "well_typed c k" "wait_of c \<noteq> None" using ok back_waits(3) by (auto simp: calls_ok_def)
    then have c: "caller idle t k" using w back_waits by (simp add: caller_def)
    then have "stepped idle t k (Some c') k'" "c' = rest_call c start k" using back_safe [OF c p(2,3) back_waits(4)] back_waits by auto
    then show ?thesis using back_waits p by (intro step [of t "Some c'"]) auto
  next
    case (tick fuel)
    then have k': "world idle k'" "\<forall>n. rt_object_get_type (Obj n) k' = rt_object_get_type (Obj n) k"
      "\<forall>q. is_wait_list q \<longrightarrow> set (on_tlist k' q) \<subseteq> set (on_tlist k q)" using tick_safe [OF w tick(2), of user] by auto
    have "well_typed c k' = well_typed c k" for c using k'(2) by (simp add: well_typed_def split: option.split)
    moreover have "t \<in> set (on_tlist k q)" if "q \<in> obj_lists n" "t \<in> set (on_tlist k' q)" for n t q
      using k'(3) obj_lists_wait [OF that(1)] that(2) by blast
    ultimately show ?thesis using k'(1,2) ok tick(1) unfolding calls_ok_def by simp
  qed
qed

lemma ksteps_keep:
  assumes "(kstep user idle)\<^sup>*\<^sup>* s s'" and "world idle (fst s)" and "calls_ok idle s"
  shows "world idle (fst s') \<and> calls_ok idle s' \<and> (\<forall>n. rt_object_get_type (Obj n) (fst s') = rt_object_get_type (Obj n) (fst s))"
  using assms
proof (induction rule: rtranclp_induct)
  case (step s1 s2)
  then show ?case using kstep_keeps [of user idle "fst s1" "snd s1" "fst s2" "snd s2"] by simp
qed simp

section \<open>Properties\<close>

text \<open>C2: type safety of the services.  In a system whose objects are all in order, every call of the running thread (not the idle
  thread) on an object of the class the call is for, with proper arguments, returns or waits: no assertion fails, no null pointer is
  followed and no array is left; the invariants of the scheduler, of the timers and of every object hold after it, no object
  changes its class, and a caller that waits is suspended on the list of its call.  A call on an object of another class always
  stops in the assertion of its first lines.\<close>

theorem type_safety:
  assumes "world idle k" and "rt_current_thread k = Some t" and "t \<noteq> idle" and "good c k"
  shows "(well_typed c k \<longrightarrow> (\<exists>r k'. exec c k = Some (r, k') \<and> world idle k'
      \<and> (\<forall>n. rt_object_get_type (Obj n) k' = rt_object_get_type (Obj n) k)
      \<and> (\<forall>c'. r = Some c' \<longrightarrow> c' = c \<and> stat_of k' t = RT_THREAD_SUSPEND \<and> (\<exists>q. wait_of c = Some q \<and> t \<in> set (on_tlist k' q)))))
    \<and> (\<not> well_typed c k \<longrightarrow> exec c k = None)"
proof (intro conjI impI)
  have c: "caller idle t k" using assms by (simp add: caller_def)
  assume ty: "well_typed c k"
  obtain r k' where e: "exec c k = Some (r, k')" "stepped idle t k r k'" "r = None \<or> r = Some c" using typed_safe [OF c ty assms(4)] by (auto simp: safe_def)
  have s: "world idle k'" "\<forall>n. rt_object_get_type (Obj n) k' = rt_object_get_type (Obj n) k"
    "\<forall>c. r = Some c \<longrightarrow> (\<exists>q. wait_of c = Some q \<and> t \<in> set (on_tlist k' q))" using e(2) unfolding stepped_def by blast+
  have "is_wait_list q" if "wait_of c = Some q" for c q using that by (cases c) auto
  then have "stat_of k' t = RT_THREAD_SUSPEND" if "wait_of c = Some q" "t \<in> set (on_tlist k' q)" for q
    using wait_list_suspended(1) [OF sys_invD(5) [OF worldD(1) [OF s(1)]]] that by blast
  then show "\<exists>r k'. exec c k = Some (r, k') \<and> world idle k'
      \<and> (\<forall>n. rt_object_get_type (Obj n) k' = rt_object_get_type (Obj n) k)
      \<and> (\<forall>c'. r = Some c' \<longrightarrow> c' = c \<and> stat_of k' t = RT_THREAD_SUSPEND \<and> (\<exists>q. wait_of c = Some q \<and> t \<in> set (on_tlist k' q)))"
    using e(1,3) s by (intro exI [of _ r] exI [of _ k']) auto
qed (rule untyped_fails)

lemma sample_world: "world 0 sample_sem" "calls_ok 0 (sample_sem, \<lambda>_. None)"
proof -
  have th: "threads sample_sem = threads sample" by (simp add: sample_sem_def)
  have ty: "rt_object_get_type (Obj n) sample_sem = (if n < 4 then RT_Object_Class_Thread else 0)" if "n \<noteq> 5" for n
    using that by (simp add: sample_sem_def sample_with_def rt_object_get_type_def upd_object_def sample_rest(3) sample_base_def zero_object_def rt_consts)
  have "obj_ok n sample_sem" for n
  proof (cases "n = 5")
    case True
    then show ?thesis using obj_okI(1) [OF sample_sem_ok(2)] by simp
  next
    case False
    then show ?thesis using ty [of n] by (simp add: obj_ok_def rt_consts)
  qed
  moreover have "on_timers sample_sem q = []" for q
    by (simp add: sample_sem_def sample_with_def upd_object_def on_timers_def sample_rest(2) ls_empty_def)
  moreover have "th_error (threads sample v) = 0" for v
  proof (cases "v \<in> {0, 1, 2}")
    case True
    moreover have "th_error (threads sample 0) = 0" "th_error (threads sample 1) = 0" "th_error (threads sample 2) = 0" by code_simp+
    ultimately show ?thesis by auto
  next
    case False
    then show ?thesis using sample_threads [OF False] by (simp add: sample_base_def sample_thread_def zero_thread_def)
  qed
  moreover have "stat_of sample_sem 0 = RT_THREAD_READY" using sample_facts(1) by (simp add: stat_of_def th)
  ultimately show "world 0 sample_sem"
    using sample_sem_ok by (simp add: world_def only_thread_timers_def no_signals_def th rt_consts)
  have "on_tlist sample_sem q = []" if "q \<in> obj_lists n" for n q
    using obj_lists_wait [OF that] by (simp add: sample_sem_def on_tlist_def)
  then show "calls_ok 0 (sample_sem, \<lambda>_. None)" by (auto simp: calls_ok_def)
qed

theorem type_safety_witness:
  "(\<exists>r k'. exec (Sem_take 5 10) sample_sem = Some (r, k') \<and> world 0 k') \<and> exec (Mutex_take 5 10) sample_sem = None"
proof -
  have "good (Sem_take 5 10) sample_sem" "well_typed (Sem_take 5 10) sample_sem" "good (Mutex_take 5 10) sample_sem" "\<not> well_typed (Mutex_take 5 10) sample_sem"
    using sample_sem_ok(2) by (simp_all add: good_def well_typed_def sem_inv_def sample_sem_def zero_mutex_def rt_consts)
  then show ?thesis
    using type_safety [OF sample_world(1) sample_sem_ok(5), of "Sem_take 5 10"] type_safety [OF sample_world(1) sample_sem_ok(5), of "Mutex_take 5 10"]
    by simp blast
qed

text \<open>C1: the system as a whole.  However the calls of the threads, their returns from waiting and the ticks follow one another: in every
  state that is reached the scheduler, the timers and all objects are in order, no object has changed its class, every thread on a
  wait list of an object is there because of a pending call of its own that waits on this list, the idle thread is
  ready, and the system is not stuck: the next tick comes back, and so does the running thread from a pending call
  unless it is left with a waiting time that \<^verbatim>\<open>rt_timer_start\<close> does not take.\<close>

theorem system_invariant:
  assumes "(kstep user idle)\<^sup>*\<^sup>* (k, P) (k', P')" and "world idle k" and "calls_ok idle (k, P)"
  shows "world idle k' \<and> calls_ok idle (k', P')
    \<and> (\<forall>n. rt_object_get_type (Obj n) k' = rt_object_get_type (Obj n) k)
    \<and> (length (on_timers k' Hard_timers) < fuel \<longrightarrow> (\<exists>k''. rt_tick_increase user fuel k' = Some k''))
    \<and> (\<forall>t c start. rt_current_thread k' = Some t \<and> P' t = Some (c, start) \<and> call_time (rest_call c start k') \<noteq> 0x7fffffff
         \<longrightarrow> (\<exists>r k''. come_back c start t k' = Some (r, k'')))"
proof -
  have k': "world idle k'" "calls_ok idle (k', P')" "\<forall>n. rt_object_get_type (Obj n) k' = rt_object_get_type (Obj n) k"
    using ksteps_keep [OF assms(1)] assms(2,3) by simp_all
  moreover have "\<exists>r k''. come_back c start t k' = Some (r, k'')"
    if "rt_current_thread k' = Some t" "P' t = Some (c, start)" "call_time (rest_call c start k') \<noteq> 0x7fffffff" for t c start
  proof -
    have p: "t \<noteq> idle" "well_typed c k'" "wait_of c \<noteq> None" using k'(2) that(2) by (auto simp: calls_ok_def)
    then have "caller idle t k'" using k'(1) that(1) by (simp add: caller_def)
    from back_safe [OF this p(2,3) that(3)] show ?thesis by blast
  qed
  ultimately show ?thesis using tick_safe [OF k'(1), of fuel user] by auto
qed

theorem system_invariant_witness:
  "\<exists>k' P'. kstep (\<lambda>_ _. Some) 0 (sample_sem, \<lambda>_. None) (k', P') \<and> world 0 k' \<and> calls_ok 0 (k', P')"
proof -
  have c: "caller 0 (Suc 0) sample_sem" using sample_world(1) sample_sem_ok(5) by (simp add: caller_def)
  have g: "good (Sem_release 5) sample_sem" "well_typed (Sem_release 5) sample_sem"
    using sample_sem_ok(2) by (simp_all add: good_def well_typed_def sem_inv_def)
  obtain k' where "exec (Sem_release 5) sample_sem = Some (None, k')"
    using typed_safe [OF c g(2,1)] by (auto simp: safe_def stepped_def)
  then have s: "kstep (\<lambda>_ _. Some) 0 (sample_sem, \<lambda>_. None) (k', \<lambda>_. None)"
    using g sample_sem_ok(5) by (intro call_ends [where t = "Suc 0" and c = "Sem_release 5"]) simp_all
  then have "(kstep (\<lambda>_ _. Some) 0)\<^sup>*\<^sup>* (sample_sem, \<lambda>_. None) (k', \<lambda>_. None)" by (rule r_into_rtranclp)
  then show ?thesis using s system_invariant [OF _ sample_world] by blast
qed

end
