(* ===== verification/RT_Memheap.thy ===== *)
theory RT_Memheap
  imports RT_Sem RT_Mempool
begin

text \<open>
  Memory heaps, \<^verbatim>\<open>kernel/src/memheap.c\<close>.  The memory of a heap is cut into blocks of any size; a header in front of
  every block links it to its neighbours, in the order of the addresses, and, while it is free, to the free list.  A free
  block is split when it is allocated and merged with its free neighbours when it is given back.

  Headers are kept apart from the bytes of the memory: \<open>items\<close> holds the header at an address, \<open>bytes\<close> the contents.
  That no header lies in a block in use is part of the invariant below.
\<close>

section \<open>The code\<close>

type_synonym addr = rt_uint32_t

definition RT_MEMHEAP_MAGIC :: rt_uint32_t where [rt_consts]: "RT_MEMHEAP_MAGIC = 0x1ea01ea0"
definition RT_MEMHEAP_MASK :: rt_uint32_t where [rt_consts]: "RT_MEMHEAP_MASK = 0xfffffffe"
definition RT_MEMHEAP_USED :: rt_uint32_t where [rt_consts]: "RT_MEMHEAP_USED = 1"
definition RT_MEMHEAP_FREED :: rt_uint32_t where [rt_consts]: "RT_MEMHEAP_FREED = 0"
definition RT_MEMHEAP_MINIALLOC :: rt_uint32_t where [rt_consts]: "RT_MEMHEAP_MINIALLOC = 12"

text \<open>The size of \<^verbatim>\<open>struct rt_memheap_item\<close>: six words, without \<^verbatim>\<open>RT_USING_MEMTRACE\<close>.\<close>

definition RT_MEMHEAP_SIZE :: rt_uint32_t where [rt_consts]: "RT_MEMHEAP_SIZE = 24"

text \<open>The pool pointer is the handle of the heap object; addresses are words and 0 is \<^verbatim>\<open>RT_NULL\<close>.\<close>

record rt_memheap_item =
  it_magic :: rt_uint32_t
  it_pool_ptr :: "nat option"
  it_next :: addr
  it_prev :: addr
  it_next_free :: addr
  it_prev_free :: addr

text \<open>\<open>mh_free_header\<close> is the address of the embedded list header, \<open>mh_lock\<close> the handle of the embedded semaphore.\<close>

record rt_memheap =
  mh_start_addr :: addr
  mh_pool_size :: rt_uint32_t
  mh_available_size :: rt_uint32_t
  mh_max_used_size :: rt_uint32_t
  mh_block_list :: addr
  mh_free_list :: addr
  mh_free_header :: addr
  mh_lock :: nat

record memory =
  items :: "addr \<Rightarrow> rt_memheap_item"
  heaps :: "nat \<Rightarrow> rt_memheap"
  bytes :: "addr \<Rightarrow> rt_uint8_t"

definition upd_item :: "addr \<Rightarrow> (rt_memheap_item \<Rightarrow> rt_memheap_item) \<Rightarrow> memory \<Rightarrow> memory" where
  "upd_item a f m = m\<lparr>items := (items m)(a := f (items m a))\<rparr>"

definition upd_heap :: "nat \<Rightarrow> (rt_memheap \<Rightarrow> rt_memheap) \<Rightarrow> memory \<Rightarrow> memory" where
  "upd_heap h f m = m\<lparr>heaps := (heaps m)(h := f (heaps m h))\<rparr>"

definition MEMITEM_SIZE :: "addr \<Rightarrow> memory \<Rightarrow> rt_uint32_t" where
  "MEMITEM_SIZE a m = it_next (items m a) - a - RT_MEMHEAP_SIZE"

definition MEMITEM :: "addr \<Rightarrow> addr" where
  "MEMITEM p = p - RT_MEMHEAP_SIZE"

definition RT_MEMHEAP_IS_USED :: "addr \<Rightarrow> memory \<Rightarrow> bool" where
  "RT_MEMHEAP_IS_USED a m \<longleftrightarrow> it_magic (items m a) AND RT_MEMHEAP_USED \<noteq> 0"

text \<open>The assignments that recur, in the order of the source: into the free list behind its header, out of the free list,
  and a new header into the block list behind another one.\<close>

definition free_insert :: "nat \<Rightarrow> addr \<Rightarrow> memory \<Rightarrow> memory" where
  "free_insert h x m =
     (let fl = mh_free_list (heaps m h);
          m = upd_item x (\<lambda>it. it\<lparr>it_next_free := it_next_free (items m fl)\<rparr>) m;
          m = upd_item x (\<lambda>it. it\<lparr>it_prev_free := fl\<rparr>) m;
          m = upd_item (it_next_free (items m fl)) (\<lambda>it. it\<lparr>it_prev_free := x\<rparr>) m
      in upd_item fl (\<lambda>it. it\<lparr>it_next_free := x\<rparr>) m)"

definition free_remove :: "addr \<Rightarrow> memory \<Rightarrow> memory" where
  "free_remove x m =
     (let m = upd_item (it_next_free (items m x)) (\<lambda>it. it\<lparr>it_prev_free := it_prev_free (items m x)\<rparr>) m
      in upd_item (it_prev_free (items m x)) (\<lambda>it. it\<lparr>it_next_free := it_next_free (items m x)\<rparr>) m)"

definition free_clear :: "addr \<Rightarrow> memory \<Rightarrow> memory" where
  "free_clear x m = upd_item x (\<lambda>it. it\<lparr>it_next_free := 0, it_prev_free := 0\<rparr>) m"

definition block_insert :: "nat \<Rightarrow> addr \<Rightarrow> addr \<Rightarrow> memory \<Rightarrow> memory" where
  "block_insert h hp x m =
     (let m = upd_item x (\<lambda>it. it\<lparr>it_magic := RT_MEMHEAP_MAGIC OR RT_MEMHEAP_FREED, it_pool_ptr := Some h\<rparr>) m;
          m = upd_item x (\<lambda>it. it\<lparr>it_prev := hp\<rparr>) m;
          m = upd_item x (\<lambda>it. it\<lparr>it_next := it_next (items m hp)\<rparr>) m;
          m = upd_item (it_next (items m hp)) (\<lambda>it. it\<lparr>it_prev := x\<rparr>) m
      in upd_item hp (\<lambda>it. it\<lparr>it_next := x\<rparr>) m)"

text \<open>\<^verbatim>\<open>rt_memheap_init\<close>: one free block and a used block of size 0 at the end.\<close>

definition memheap_setup :: "nat \<Rightarrow> addr \<Rightarrow> rt_uint32_t \<Rightarrow> memory \<Rightarrow> memory" where
  "memheap_setup h start sz m =
     (let m = upd_heap h (\<lambda>hp. hp\<lparr>mh_start_addr := start, mh_pool_size := RT_ALIGN_DOWN sz\<rparr>) m;
          m = upd_heap h (\<lambda>hp. hp\<lparr>mh_available_size := mh_pool_size hp - 2 * RT_MEMHEAP_SIZE\<rparr>) m;
          m = upd_heap h (\<lambda>hp. hp\<lparr>mh_max_used_size := mh_pool_size hp - mh_available_size hp\<rparr>) m;
          item = mh_free_header (heaps m h);
          m = upd_item item (\<lambda>_. \<lparr>it_magic = RT_MEMHEAP_MAGIC OR RT_MEMHEAP_FREED, it_pool_ptr = Some h, it_next = 0, it_prev = 0,
                it_next_free = item, it_prev_free = item\<rparr>) m;
          m = upd_heap h (\<lambda>hp. hp\<lparr>mh_free_list := item\<rparr>) m;
          m = upd_item start (\<lambda>_. \<lparr>it_magic = RT_MEMHEAP_MAGIC OR RT_MEMHEAP_FREED, it_pool_ptr = Some h, it_next = 0, it_prev = 0,
                it_next_free = start, it_prev_free = start\<rparr>) m;
          tailer = start + mh_available_size (heaps m h) + RT_MEMHEAP_SIZE;
          m = upd_item start (\<lambda>it. it\<lparr>it_next := tailer\<rparr>) m;
          m = upd_item start (\<lambda>it. it\<lparr>it_prev := it_next it\<rparr>) m;
          m = upd_heap h (\<lambda>hp. hp\<lparr>mh_block_list := start\<rparr>) m;
          m = free_insert h start m
      in upd_item tailer (\<lambda>_. \<lparr>it_magic = RT_MEMHEAP_MAGIC OR RT_MEMHEAP_USED, it_pool_ptr = Some h, it_next = start, it_prev = start,
           it_next_free = 0, it_prev_free = 0\<rparr>) m)"

definition rt_memheap_init ::
    "nat \<Rightarrow> rt_uint8_t list \<Rightarrow> addr \<Rightarrow> rt_uint32_t \<Rightarrow> memory \<Rightarrow> kernel \<Rightarrow> (rt_err_t \<times> memory \<times> kernel) option" where
  "rt_memheap_init h name start sz m k =
     do { k \<leftarrow> rt_object_init (Obj h) RT_Object_Class_MemHeap name k;
          let m = memheap_setup h start sz m;
          (_, k) \<leftarrow> rt_sem_init (mh_lock (heaps m h)) name 1 RT_IPC_FLAG_PRIO k;
          Some (RT_EOK, m, k) }"

definition rt_memheap_detach :: "nat \<Rightarrow> memory \<Rightarrow> kernel \<Rightarrow> (rt_err_t \<times> kernel) option" where
  "rt_memheap_detach h m k =
     do { RT_ASSERT (rt_object_get_type (Obj h) k = RT_Object_Class_MemHeap);
          RT_ASSERT (rt_object_is_systemobject (Obj h) k);
          let k = rt_object_detach (Obj (mh_lock (heaps m h))) k;
          Some (RT_EOK, rt_object_detach (Obj h) k) }"

text \<open>The search on the free list; it would not end on a damaged list.\<close>

partial_function (option) memheap_search :: "memory \<Rightarrow> addr \<Rightarrow> rt_uint32_t \<Rightarrow> addr \<Rightarrow> rt_uint32_t \<Rightarrow> (addr \<times> rt_uint32_t) option" where
  "memheap_search m fl sz hp free_size =
     (if hp \<noteq> fl \<and> free_size < sz then
        let free_size = MEMITEM_SIZE hp m in
        memheap_search m fl sz (if free_size < sz then it_next_free (items m hp) else hp) free_size
      else Some (hp, free_size))"

declare memheap_search.simps [code]

text \<open>The high-water mark.\<close>

definition memheap_mark :: "nat \<Rightarrow> memory \<Rightarrow> memory" where
  "memheap_mark h m =
     (let hp = heaps m h in
      if mh_max_used_size hp < mh_pool_size hp - mh_available_size hp
      then upd_heap h (\<lambda>hp. hp\<lparr>mh_max_used_size := mh_pool_size hp - mh_available_size hp\<rparr>) m else m)"

text \<open>Taking the block that was found, split if enough is left over.\<close>

definition memheap_take :: "nat \<Rightarrow> addr \<Rightarrow> rt_uint32_t \<Rightarrow> rt_uint32_t \<Rightarrow> memory \<Rightarrow> memory" where
  "memheap_take h hp free_size sz m =
     (let m =
        (if sz + RT_MEMHEAP_SIZE + RT_MEMHEAP_MINIALLOC \<le> free_size then
           let new = hp + sz + RT_MEMHEAP_SIZE;
               m = block_insert h hp new m;
               m = free_clear hp (free_remove hp m);
               m = free_insert h new m;
               m = upd_heap h (\<lambda>hd. hd\<lparr>mh_available_size := mh_available_size hd - sz - RT_MEMHEAP_SIZE\<rparr>) m
           in memheap_mark h m
         else
           let m = upd_heap h (\<lambda>hd. hd\<lparr>mh_available_size := mh_available_size hd - free_size\<rparr>) m;
               m = memheap_mark h m
           in free_clear hp (free_remove hp m))
      in upd_item hp (\<lambda>it. it\<lparr>it_magic := RT_MEMHEAP_MAGIC OR RT_MEMHEAP_USED\<rparr>) m)"

text \<open>\<^verbatim>\<open>rt_memheap_alloc\<close> once the lock is taken; \<open>sz\<close> is the rounded size and the result 0 is \<^verbatim>\<open>RT_NULL\<close>.\<close>

definition memheap_alloc_locked :: "nat \<Rightarrow> rt_uint32_t \<Rightarrow> memory \<Rightarrow> kernel \<Rightarrow> (addr \<times> memory \<times> kernel) option" where
  "memheap_alloc_locked h sz m k =
     do { let fl = mh_free_list (heaps m h);
          (hp, free_size) \<leftarrow> memheap_search m fl sz (it_next_free (items m fl)) 0;
          let (p, m) = (if sz \<le> free_size then (hp + RT_MEMHEAP_SIZE, memheap_take h hp free_size sz m) else (0, m));
          (_, k) \<leftarrow> rt_sem_release (mh_lock (heaps m h)) k;
          Some (p, m, k) }"

definition memheap_round :: "rt_uint32_t \<Rightarrow> rt_uint32_t" where
  "memheap_round sz = (let sz = RT_ALIGN sz in if sz < RT_MEMHEAP_MINIALLOC then RT_MEMHEAP_MINIALLOC else sz)"

definition rt_memheap_alloc :: "nat \<Rightarrow> rt_uint32_t \<Rightarrow> memory \<Rightarrow> kernel \<Rightarrow> (addr outcome \<times> memory \<times> kernel) option" where
  "rt_memheap_alloc h sz m k =
     do { RT_ASSERT (rt_object_get_type (Obj h) k = RT_Object_Class_MemHeap);
          let sz = memheap_round sz;
          if sz < mh_available_size (heaps m h) then
            do { (r, k) \<leftarrow> rt_sem_take (mh_lock (heaps m h)) (of_int RT_WAITING_FOREVER) k;
                 case r of
                   Waiting t \<Rightarrow> Some (Waiting t, m, k)
                 | Finished e \<Rightarrow>
                     if e \<noteq> RT_EOK then Some (Finished 0, m, rt_set_errno (-e) k)
                     else do { (p, m, k) \<leftarrow> memheap_alloc_locked h sz m k; Some (Finished p, m, k) } }
          else Some (Finished 0, m, k) }"

definition rt_memheap_alloc_back :: "nat \<Rightarrow> rt_uint32_t \<Rightarrow> tid \<Rightarrow> memory \<Rightarrow> kernel \<Rightarrow> (addr \<times> memory \<times> kernel) option" where
  "rt_memheap_alloc_back h sz t m k =
     (let e = rt_sem_take_back t k in
      if e \<noteq> RT_EOK then Some (0, m, rt_set_errno (-e) k) else memheap_alloc_locked h (memheap_round sz) m k)"

text \<open>Merging a block into its left neighbour, and the right neighbour of a block into it.\<close>

definition merge_left :: "addr \<Rightarrow> memory \<Rightarrow> memory" where
  "merge_left hp m =
     (let m = upd_item (it_prev (items m hp)) (\<lambda>it. it\<lparr>it_next := it_next (items m hp)\<rparr>) m
      in upd_item (it_next (items m hp)) (\<lambda>it. it\<lparr>it_prev := it_prev (items m hp)\<rparr>) m)"

definition merge_right :: "addr \<Rightarrow> memory \<Rightarrow> memory" where
  "merge_right hp m =
     (let new = it_next (items m hp);
          m = upd_item (it_next (items m new)) (\<lambda>it. it\<lparr>it_prev := hp\<rparr>) m;
          m = upd_item hp (\<lambda>it. it\<lparr>it_next := it_next (items m new)\<rparr>) m
      in free_remove new m)"

definition memheap_release :: "nat \<Rightarrow> addr \<Rightarrow> memory \<Rightarrow> memory" where
  "memheap_release h hp m =
     (let m = upd_item hp (\<lambda>it. it\<lparr>it_magic := RT_MEMHEAP_MAGIC OR RT_MEMHEAP_FREED\<rparr>) m;
          m = upd_heap h (\<lambda>hd. hd\<lparr>mh_available_size := mh_available_size hd + MEMITEM_SIZE hp m\<rparr>) m;
          left = it_prev (items m hp);
          (hp, insert_header, m) =
            (if \<not> RT_MEMHEAP_IS_USED left m
             then (left, False, merge_left hp (upd_heap h (\<lambda>hd. hd\<lparr>mh_available_size := mh_available_size hd + RT_MEMHEAP_SIZE\<rparr>) m))
             else (hp, True, m));
          m = (if \<not> RT_MEMHEAP_IS_USED (it_next (items m hp)) m
               then merge_right hp (upd_heap h (\<lambda>hd. hd\<lparr>mh_available_size := mh_available_size hd + RT_MEMHEAP_SIZE\<rparr>) m) else m)
      in if insert_header then free_insert h hp m else m)"

text \<open>The heap is found in the header of the block; the asserts come before the lock.\<close>

definition memheap_free_check :: "addr \<Rightarrow> memory \<Rightarrow> kernel \<Rightarrow> nat option" where
  "memheap_free_check p m k =
     do { let it = items m (MEMITEM p);
          RT_ASSERT (it_magic it AND RT_MEMHEAP_MASK = RT_MEMHEAP_MAGIC);
          RT_ASSERT (it_magic it AND RT_MEMHEAP_USED \<noteq> 0);
          RT_ASSERT (it_magic (items m (it_next it)) AND RT_MEMHEAP_MASK = RT_MEMHEAP_MAGIC);
          h \<leftarrow> it_pool_ptr it;
          RT_ASSERT (rt_object_get_type (Obj h) k = RT_Object_Class_MemHeap);
          Some h }"

definition memheap_free_locked :: "nat \<Rightarrow> addr \<Rightarrow> memory \<Rightarrow> kernel \<Rightarrow> (memory \<times> kernel) option" where
  "memheap_free_locked h p m k =
     do { let m = memheap_release h (MEMITEM p) m;
          (_, k) \<leftarrow> rt_sem_release (mh_lock (heaps m h)) k;
          Some (m, k) }"

definition rt_memheap_free :: "addr \<Rightarrow> memory \<Rightarrow> kernel \<Rightarrow> (unit outcome \<times> memory \<times> kernel) option" where
  "rt_memheap_free p m k =
     (if p = 0 then Some (Finished (), m, k)
      else do {
        h \<leftarrow> memheap_free_check p m k;
        (r, k) \<leftarrow> rt_sem_take (mh_lock (heaps m h)) (of_int RT_WAITING_FOREVER) k;
        case r of
          Waiting t \<Rightarrow> Some (Waiting t, m, k)
        | Finished e \<Rightarrow>
            if e \<noteq> RT_EOK then Some (Finished (), m, rt_set_errno (-e) k)
            else do { (m, k) \<leftarrow> memheap_free_locked h p m k; Some (Finished (), m, k) } })"

definition rt_memheap_free_back :: "nat \<Rightarrow> addr \<Rightarrow> tid \<Rightarrow> memory \<Rightarrow> kernel \<Rightarrow> (memory \<times> kernel) option" where
  "rt_memheap_free_back h p t m k =
     (let e = rt_sem_take_back t k in
      if e \<noteq> RT_EOK then Some (m, rt_set_errno (-e) k) else memheap_free_locked h p m k)"

section \<open>Rings of pointers\<close>

text \<open>From each element of the list the forward pointer leads to the next one and the backward pointer of that one back.\<close>

fun chain :: "('a \<Rightarrow> 'a) \<Rightarrow> ('a \<Rightarrow> 'a) \<Rightarrow> 'a list \<Rightarrow> bool" where
  "chain nx pv (x # y # zs) \<longleftrightarrow> nx x = y \<and> pv y = x \<and> chain nx pv (y # zs)"
| "chain nx pv _ \<longleftrightarrow> True"

definition ring :: "('a \<Rightarrow> 'a) \<Rightarrow> ('a \<Rightarrow> 'a) \<Rightarrow> 'a list \<Rightarrow> bool" where
  "ring nx pv xs \<longleftrightarrow> xs \<noteq> [] \<and> distinct xs \<and> chain nx pv (xs @ [hd xs])"

lemma chain_split: "chain nx pv (xs @ y # ys) \<longleftrightarrow> chain nx pv (xs @ [y]) \<and> chain nx pv (y # ys)"
  by (induction xs rule: induct_list012) auto

lemma chain_frame:
  "chain nx pv xs \<Longrightarrow> (\<And>x. x \<in> set (butlast xs) \<Longrightarrow> nx' x = nx x) \<Longrightarrow> (\<And>x. x \<in> set (tl xs) \<Longrightarrow> pv' x = pv x) \<Longrightarrow> chain nx' pv' xs"
  by (induction nx pv xs rule: chain.induct) auto

lemma chain_insert:
  assumes c: "chain nx pv (xs @ x # y # ys)" and x: "x \<notin> set xs" "x \<notin> set (butlast (y # ys))" and y: "y \<notin> set (tl (xs @ [x]))" "y \<notin> set ys"
    and n: "n \<notin> set (xs @ x # y # ys)"
  shows "chain (nx(n := y, x := n)) (pv(y := n, n := x)) (xs @ x # n # y # ys)"
proof -
  have c1: "chain nx pv (xs @ [x])" and c2: "chain nx pv (y # ys)" using c by (simp_all add: chain_split [of _ _ xs x "y # ys"])
  have n': "n \<noteq> x" "n \<noteq> y" "n \<notin> set xs" "n \<notin> set ys" using n by auto
  have "chain (nx(n := y, x := n)) (pv(y := n, n := x)) (xs @ [x])"
  proof (rule chain_frame [OF c1])
    show "(pv(y := n, n := x)) z = pv z" if "z \<in> set (tl (xs @ [x]))" for z
      using that y n' by (cases xs) auto
  qed (use x n' in auto)
  moreover have "chain (nx(n := y, x := n)) (pv(y := n, n := x)) (y # ys)"
  proof (rule chain_frame [OF c2])
    show "(nx(n := y, x := n)) z = nx z" if "z \<in> set (butlast (y # ys))" for z
      using that x(2) n' by (auto dest: in_set_butlastD split: if_splits)
  qed (use y n' in auto)
  ultimately show ?thesis using n' by (simp add: chain_split [of _ _ xs x "n # y # ys"])
qed

lemma chain_delete:
  assumes c: "chain nx pv (xs @ x # n # y # ys)" and x: "x \<notin> set xs" "x \<notin> set (butlast (y # ys))" and y: "y \<notin> set (tl (xs @ [x]))" "y \<notin> set ys"
  shows "chain (nx(x := y)) (pv(y := x)) (xs @ x # y # ys)"
proof -
  have c1: "chain nx pv (xs @ [x])" and c2: "chain nx pv (y # ys)" using c by (simp_all add: chain_split [of _ _ xs x "n # y # ys"])
  have "chain (nx(x := y)) (pv(y := x)) (xs @ [x])"
  proof (rule chain_frame [OF c1])
    show "(pv(y := x)) z = pv z" if "z \<in> set (tl (xs @ [x]))" for z using that y by (cases xs) auto
  qed (use x in auto)
  moreover have "chain (nx(x := y)) (pv(y := x)) (y # ys)"
    by (rule chain_frame [OF c2]) (use x y in auto)
  ultimately show ?thesis by (simp add: chain_split [of _ _ xs x "y # ys"])
qed

text \<open>A new element behind another one, and taking one out, around the end of the ring.\<close>

lemma ring_insert:
  assumes r: "ring nx pv (xs @ x # ys)" and n: "n \<notin> set (xs @ x # ys)"
  shows "ring (nx(n := nx x, x := n)) (pv(nx x := n, n := x)) (xs @ x # n # ys)"
proof -
  let ?h = "hd (xs @ [x])"
  have c: "chain nx pv (xs @ x # ys @ [?h])" and d: "distinct (xs @ x # ys)" using r by (auto simp: ring_def hd_append)
  obtain y zs where y: "ys @ [?h] = y # zs" by (cases "ys @ [?h]") auto
  have nx: "nx x = y" using c by (simp add: y chain_split [of _ _ xs x "y # zs"])
  have "chain (nx(n := y, x := n)) (pv(y := n, n := x)) (xs @ x # n # y # zs)"
  proof (rule chain_insert)
    show "chain nx pv (xs @ x # y # zs)" using c by (simp add: y)
    show "x \<notin> set (butlast (y # zs))" "y \<notin> set (tl (xs @ [x]))" "y \<notin> set zs" using d y by (cases ys; cases xs; auto)+
    show "n \<notin> set (xs @ x # y # zs)" using n y by (cases ys; cases xs; auto)
  qed (use d in auto)
  then show ?thesis using d n unfolding ring_def nx y [symmetric] by (cases xs) auto
qed

lemma ring_delete:
  assumes r: "ring nx pv (xs @ x # ys)" and xs: "xs \<noteq> []"
  shows "ring (nx(pv x := nx x)) (pv(nx x := pv x)) (xs @ ys)" and "pv x = last xs" and "nx x = hd (ys @ [hd xs])"
proof -
  have c: "chain nx pv (xs @ x # ys @ [hd xs])" and d: "distinct (xs @ x # ys)" using r xs by (auto simp: ring_def hd_append)
  obtain zs w where w: "xs = zs @ [w]" using xs by (metis append_butlast_last_id)
  obtain y vs where y: "ys @ [hd xs] = y # vs" by (cases "ys @ [hd xs]") auto
  have c': "chain nx pv (zs @ w # x # y # vs)" using c unfolding y by (simp add: w)
  then have p: "pv x = w" "nx x = y" by (simp_all add: chain_split [of _ _ zs w "x # y # vs"])
  then show "pv x = last xs" "nx x = hd (ys @ [hd xs])" using w y by simp_all
  have "chain (nx(w := y)) (pv(y := w)) (zs @ w # y # vs)"
  proof (rule chain_delete [OF c'])
    show "w \<notin> set (butlast (y # vs))" "y \<notin> set (tl (zs @ [w]))" "y \<notin> set vs" using d y w by (cases ys; cases zs; auto)+
  qed (use d w in auto)
  then show "ring (nx(pv x := nx x)) (pv(nx x := pv x)) (xs @ ys)"
    using d xs unfolding ring_def p y [symmetric] w by (cases zs) auto
qed

lemma ring_frame:
  assumes "ring nx pv xs" and "\<And>x. x \<in> set xs \<Longrightarrow> nx' x = nx x" and "\<And>x. x \<in> set xs \<Longrightarrow> pv' x = pv x"
  shows "ring nx' pv' xs"
proof -
  have sub: "set (tl (xs @ [hd xs])) \<subseteq> set xs" using assms(1) by (cases xs) (auto simp: ring_def)
  have "chain nx' pv' (xs @ [hd xs])"
  proof (rule chain_frame)
    show "chain nx pv (xs @ [hd xs])" using assms(1) by (simp add: ring_def)
  qed (use assms(2,3) sub in auto)
  then show ?thesis using assms(1) by (simp add: ring_def)
qed

lemma ring_next:
  assumes "ring nx pv (xs @ x # y # ys)"
  shows "nx x = y" "pv y = x"
proof -
  have "chain nx pv (xs @ x # y # ys @ [hd (xs @ [x])])" using assms by (cases xs) (simp_all add: ring_def)
  then show "nx x = y" "pv y = x" unfolding chain_split [of _ _ xs x "y # ys @ [hd (xs @ [x])]"] by simp_all
qed

lemma ring_first: "ring nx pv (x # ys) \<Longrightarrow> nx x = hd (ys @ [x])" "ring nx pv (x # xs) \<Longrightarrow> pv x = last (x # xs)"
proof -
  show "nx x = hd (ys @ [x])" if "ring nx pv (x # ys)" using that by (cases ys) (auto simp: ring_def)
  show "pv x = last (x # xs)" if r: "ring nx pv (x # xs)"
  proof (cases xs rule: rev_cases)
    case Nil
    then show ?thesis using r by (simp add: ring_def)
  next
    case (snoc zs z)
    have "chain nx pv ((x # zs) @ z # [x])" using r snoc by (simp add: ring_def)
    then show ?thesis unfolding chain_split [of _ _ "x # zs" z "[x]"] using snoc by simp
  qed
qed

section \<open>Invariant\<close>

lemma item_simps [simp]:
  "items (upd_item a f m) = (items m)(a := f (items m a))" "heaps (upd_item a f m) = heaps m" "bytes (upd_item a f m) = bytes m"
  "items (upd_heap h g m) = items m" "heaps (upd_heap h g m) = (heaps m)(h := g (heaps m h))" "bytes (upd_heap h g m) = bytes m"
  by (simp_all add: upd_item_def upd_heap_def)

text \<open>The fields of the headers as functions of the address.\<close>

definition nxt :: "memory \<Rightarrow> addr \<Rightarrow> addr" where "nxt m = (\<lambda>a. it_next (items m a))"
definition prv :: "memory \<Rightarrow> addr \<Rightarrow> addr" where "prv m = (\<lambda>a. it_prev (items m a))"
definition nfr :: "memory \<Rightarrow> addr \<Rightarrow> addr" where "nfr m = (\<lambda>a. it_next_free (items m a))"
definition pfr :: "memory \<Rightarrow> addr \<Rightarrow> addr" where "pfr m = (\<lambda>a. it_prev_free (items m a))"
definition mag :: "memory \<Rightarrow> addr \<Rightarrow> rt_uint32_t" where "mag m = (\<lambda>a. it_magic (items m a))"
definition pool :: "memory \<Rightarrow> addr \<Rightarrow> nat option" where "pool m = (\<lambda>a. it_pool_ptr (items m a))"

lemmas field_defs = nxt_def prv_def nfr_def pfr_def mag_def pool_def

text \<open>
  The headers of a heap in the order of the addresses: each at least a header and the smallest block behind the one before,
  the first at the start of the pool and the last one at its end.
\<close>

definition layout :: "rt_memheap \<Rightarrow> addr list \<Rightarrow> bool" where
  "layout mh bs \<longleftrightarrow> bs \<noteq> [] \<and> hd bs = mh_start_addr mh \<and> last bs = mh_start_addr mh + mh_pool_size mh - 24
     \<and> successively (\<lambda>a b. unat a + 36 \<le> unat b) bs \<and> unat (last bs) + 24 \<le> 2 ^ 32
     \<and> (\<forall>b\<in>set bs. unat b mod 4 = unat (mh_start_addr mh) mod 4)
     \<and> (mh_free_list mh < hd bs \<or> last bs < mh_free_list mh)"

text \<open>The two rings: all blocks, and the header of the free list with the free blocks.\<close>

definition blocks_linked :: "memory \<Rightarrow> nat \<Rightarrow> addr list \<Rightarrow> addr list \<Rightarrow> bool" where
  "blocks_linked m h bs fs \<longleftrightarrow> ring (nxt m) (prv m) bs \<and> ring (nfr m) (pfr m) (mh_free_list (heaps m h) # fs)
     \<and> mh_free_list (heaps m h) \<notin> set bs
     \<and> (\<forall>b\<in>set bs. (mag m b = RT_MEMHEAP_MAGIC OR RT_MEMHEAP_FREED \<or> mag m b = RT_MEMHEAP_MAGIC OR RT_MEMHEAP_USED) \<and> pool m b = Some h)"

text \<open>The bytes in free blocks.\<close>

fun free_total :: "(addr \<Rightarrow> bool) \<Rightarrow> addr list \<Rightarrow> nat" where
  "free_total u (a # b # cs) = (if u a then 0 else unat b - unat a - 24) + free_total u (b # cs)"
| "free_total u _ = 0"

abbreviation used :: "memory \<Rightarrow> addr \<Rightarrow> bool" where
  "used m a \<equiv> RT_MEMHEAP_IS_USED a m"

definition heap_rel :: "memory \<Rightarrow> nat \<Rightarrow> addr list \<Rightarrow> addr list \<Rightarrow> bool" where
  "heap_rel m h bs fs \<longleftrightarrow> layout (heaps m h) bs \<and> blocks_linked m h bs fs
     \<and> set fs = {b \<in> set bs. \<not> used m b} \<and> used m (last bs)
     \<and> successively (\<lambda>a b. used m a \<or> used m b) bs
     \<and> unat (mh_available_size (heaps m h)) = free_total (used m) bs"

lemma free_total_split: "free_total u (as @ b # c # cs) = free_total u (as @ [b]) + (if u b then 0 else unat c - unat b - 24) + free_total u (c # cs)"
  by (induction as rule: induct_list012) auto

lemma free_total_cong: "(\<And>b. b \<in> set (butlast bs) \<Longrightarrow> v b = u b) \<Longrightarrow> free_total v bs = free_total u bs"
  by (induction u bs rule: free_total.induct) auto

section \<open>The pieces\<close>

lemma free_insert_fields:
  assumes "x \<noteq> mh_free_list (heaps m h)" and "nfr m (mh_free_list (heaps m h)) \<noteq> x"
  shows "nfr (free_insert h x m) = (nfr m)(x := nfr m (mh_free_list (heaps m h)), mh_free_list (heaps m h) := x)"
    "pfr (free_insert h x m) = (pfr m)(nfr m (mh_free_list (heaps m h)) := x, x := mh_free_list (heaps m h))"
    "nxt (free_insert h x m) = nxt m" "prv (free_insert h x m) = prv m" "mag (free_insert h x m) = mag m" "pool (free_insert h x m) = pool m"
    "heaps (free_insert h x m) = heaps m" "bytes (free_insert h x m) = bytes m"
  using assms by (auto simp: free_insert_def field_defs Let_def fun_eq_iff)

lemma free_remove_fields:
  "nfr m x \<noteq> x \<Longrightarrow> nfr (free_remove x m) = (nfr m)(pfr m x := nfr m x)"
  "nfr m x \<noteq> x \<Longrightarrow> pfr (free_remove x m) = (pfr m)(nfr m x := pfr m x)"
  "nxt (free_remove x m) = nxt m" "prv (free_remove x m) = prv m" "mag (free_remove x m) = mag m" "pool (free_remove x m) = pool m"
  "heaps (free_remove x m) = heaps m" "bytes (free_remove x m) = bytes m"
  by (auto simp: free_remove_def field_defs Let_def fun_eq_iff)

lemma block_insert_fields:
  assumes "x \<noteq> hp" and "nxt m hp \<noteq> x"
  shows "nxt (block_insert h hp x m) = (nxt m)(x := nxt m hp, hp := x)" "prv (block_insert h hp x m) = (prv m)(nxt m hp := x, x := hp)"
    "nfr (block_insert h hp x m) = nfr m" "pfr (block_insert h hp x m) = pfr m"
    "mag (block_insert h hp x m) = (mag m)(x := RT_MEMHEAP_MAGIC OR RT_MEMHEAP_FREED)" "pool (block_insert h hp x m) = (pool m)(x := Some h)"
    "heaps (block_insert h hp x m) = heaps m" "bytes (block_insert h hp x m) = bytes m"
  using assms by (auto simp: block_insert_def field_defs Let_def fun_eq_iff)

text \<open>A change that keeps the links of the blocks and of the free list.\<close>

lemma linked_frame:
  assumes "blocks_linked m h bs fs" and "mh_free_list (heaps m' h) = mh_free_list (heaps m h)"
    and "\<And>b. b \<in> set bs \<Longrightarrow> nxt m' b = nxt m b \<and> prv m' b = prv m b \<and> pool m' b = pool m b
      \<and> (mag m' b = mag m b \<or> mag m' b = RT_MEMHEAP_MAGIC OR RT_MEMHEAP_FREED \<or> mag m' b = RT_MEMHEAP_MAGIC OR RT_MEMHEAP_USED)"
    and "\<And>x. x \<in> set (mh_free_list (heaps m h) # fs) \<Longrightarrow> nfr m' x = nfr m x \<and> pfr m' x = pfr m x"
  shows "blocks_linked m' h bs fs"
proof -
  have "ring (nxt m') (prv m') bs" "ring (nfr m') (pfr m') (mh_free_list (heaps m h) # fs)"
    using assms(1,3,4) ring_frame unfolding blocks_linked_def by blast+
  then show ?thesis using assms unfolding blocks_linked_def by metis
qed

lemma linked_free_insert:
  assumes l: "blocks_linked m h bs fs" and x: "x \<notin> set fs" "x \<in> set bs"
  shows "blocks_linked (free_insert h x m) h bs (x # fs)"
proof -
  let ?fl = "mh_free_list (heaps m h)"
  have r: "ring (nfr m) (pfr m) (?fl # fs)" "?fl \<notin> set bs" using l by (simp_all add: blocks_linked_def)
  then have ne: "x \<noteq> ?fl" using x(2) by auto
  moreover have "nfr m ?fl \<noteq> x" using ring_first(1) [OF r(1)] x(1) ne by (cases fs) auto
  ultimately have f: "nfr (free_insert h x m) = (nfr m)(x := nfr m ?fl, ?fl := x)" "pfr (free_insert h x m) = (pfr m)(nfr m ?fl := x, x := ?fl)"
    "nxt (free_insert h x m) = nxt m" "prv (free_insert h x m) = prv m" "mag (free_insert h x m) = mag m" "pool (free_insert h x m) = pool m"
    "heaps (free_insert h x m) = heaps m"
    by (simp_all only: free_insert_fields not_False_eq_True)
  have "ring ((nfr m)(x := nfr m ?fl, ?fl := x)) ((pfr m)(nfr m ?fl := x, x := ?fl)) (?fl # x # fs)"
    using ring_insert [of "nfr m" "pfr m" "[]" ?fl fs x] r(1) ne x(1) by simp
  then show ?thesis using l by (simp add: blocks_linked_def f)
qed

lemma linked_free_remove:
  assumes l: "blocks_linked m h bs (f1 @ x # f2)"
  shows "blocks_linked (free_remove x m) h bs (f1 @ f2)"
proof -
  let ?fl = "mh_free_list (heaps m h)"
  have r: "ring (nfr m) (pfr m) ((?fl # f1) @ x # f2)" using l by (simp add: blocks_linked_def)
  have "nfr m x = hd (f2 @ [?fl])" using ring_delete(3) [OF r] by simp
  then have "nfr m x \<noteq> x" using r by (cases f2) (auto simp: ring_def)
  then have "ring (nfr (free_remove x m)) (pfr (free_remove x m)) ((?fl # f1) @ f2)"
    using ring_delete(1) [OF r] by (simp add: free_remove_fields)
  then show ?thesis using l by (simp add: blocks_linked_def free_remove_fields)
qed

lemma linked_block_insert:
  assumes l: "blocks_linked m h (as @ b # c # cs) fs" and x: "x \<notin> set (as @ b # c # cs)" "x \<noteq> mh_free_list (heaps m h)"
  shows "blocks_linked (block_insert h b x m) h (as @ b # x # c # cs) fs"
proof -
  have r: "ring (nxt m) (prv m) (as @ b # c # cs)" using l by (simp add: blocks_linked_def)
  then have "x \<noteq> b" "nxt m b \<noteq> x" using x ring_next(1) [OF r] by auto
  note f = block_insert_fields [OF this, of h]
  have "ring (nxt (block_insert h b x m)) (prv (block_insert h b x m)) (as @ b # x # c # cs)"
    using ring_insert [OF r x(1)] by (simp add: f)
  then show ?thesis using l x by (auto simp: blocks_linked_def f)
qed

lemma linked_block_delete:
  assumes l: "blocks_linked m h (as @ b # c # cs) fs"
    and f: "nxt m' = (nxt m)(b := nxt m c)" "prv m' = (prv m)(nxt m c := b)" "nfr m' = nfr m" "pfr m' = pfr m" "mag m' = mag m" "pool m' = pool m"
      "heaps m' h = heaps m h"
  shows "blocks_linked m' h (as @ b # cs) fs"
proof -
  have r: "ring (nxt m) (prv m) ((as @ [b]) @ c # cs)" using l by (simp add: blocks_linked_def)
  have "prv m c = b" using ring_delete(2) [OF r] by simp
  then have "ring (nxt m') (prv m') (as @ b # cs)" using ring_delete(1) [OF r] by (simp add: f)
  then show ?thesis using l by (simp add: blocks_linked_def f)
qed

end
