(* ===== verification/RT_Heap_Blocks.thy ===== *)
theory RT_Heap_Blocks
  imports RT_Memheap
begin

text \<open>
  The blocks of a heap: their layout in the pool, the blocks in use and the free ones as lists, and what the pieces of
  \<^verbatim>\<open>rt_memheap_alloc\<close> and \<^verbatim>\<open>rt_memheap_free\<close> do to them.  Taking a block and giving one back keep the invariant \<open>heap_rel\<close>.
\<close>

section \<open>Layout\<close>

lemma layout_succ: "layout mh bs \<Longrightarrow> sorted_wrt (\<lambda>a b. unat a + 36 \<le> unat b) bs"
  by (subst successively_conv_sorted_wrt [symmetric]) (auto simp: layout_def transp_def)

lemma sorted_wrt_ends:
  "sorted_wrt P xs \<Longrightarrow> x \<in> set xs \<Longrightarrow> (x = hd xs \<or> P (hd xs) x) \<and> (x = last xs \<or> P x (last xs))"
  by (induction xs) auto

lemma layout_range:
  assumes "layout mh bs" and "x \<in> set bs"
  shows "hd bs \<le> x" "x \<le> last bs"
  using sorted_wrt_ends [OF layout_succ [OF assms(1)] assms(2)] by (auto simp: word_le_nat_alt)

lemma layout_distinct: "layout mh bs \<Longrightarrow> distinct bs"
  using layout_succ [of mh bs] by (fastforce simp: distinct_conv_nth sorted_wrt_iff_nth_less nat_neq_iff)

lemma layout_gap:
  assumes "layout mh (as @ b # c # cs)"
  shows "unat b + 36 \<le> unat c" "unat c + 24 \<le> 2 ^ 32" "\<And>a. a \<in> set as \<Longrightarrow> unat a + 36 \<le> unat b" "\<And>d. d \<in> set cs \<Longrightarrow> unat c + 36 \<le> unat d"
    "unat c mod 4 = unat b mod 4"
proof -
  have s: "sorted_wrt (\<lambda>a b. unat a + 36 \<le> unat b) (as @ b # c # cs)" by (rule layout_succ [OF assms])
  then show d: "unat b + 36 \<le> unat c" "\<And>a. a \<in> set as \<Longrightarrow> unat a + 36 \<le> unat b" "\<And>d. d \<in> set cs \<Longrightarrow> unat c + 36 \<le> unat d"
    by (auto simp: sorted_wrt_append)
  have "unat c \<le> unat (last (c # cs))" using d(3) [of "last cs"] by (cases "cs = []") auto
  moreover have "unat (last (as @ b # c # cs)) + 24 \<le> 2 ^ 32" using assms unfolding layout_def by blast
  then have "unat (last (c # cs)) + 24 \<le> 2 ^ 32" by simp
  ultimately show "unat c + 24 \<le> 2 ^ 32" by linarith
  show "unat c mod 4 = unat b mod 4" using assms by (simp add: layout_def)
qed

lemma used_mag: "used m a \<longleftrightarrow> mag m a AND RT_MEMHEAP_USED \<noteq> 0"
  by (simp add: RT_MEMHEAP_IS_USED_def mag_def)

lemma magic_used [simp]: "RT_MEMHEAP_USED \<noteq> 0" "(RT_MEMHEAP_MAGIC OR RT_MEMHEAP_USED) AND RT_MEMHEAP_USED \<noteq> 0" "(RT_MEMHEAP_MAGIC OR RT_MEMHEAP_FREED) AND RT_MEMHEAP_USED = 0"
  "(RT_MEMHEAP_MAGIC OR RT_MEMHEAP_USED) AND RT_MEMHEAP_MASK = RT_MEMHEAP_MAGIC" "(RT_MEMHEAP_MAGIC OR RT_MEMHEAP_FREED) AND RT_MEMHEAP_MASK = RT_MEMHEAP_MAGIC"
  by (simp_all add: rt_consts)

text \<open>The blocks in use, with the address the caller has and their size.\<close>

fun held :: "(addr \<Rightarrow> bool) \<Rightarrow> addr list \<Rightarrow> (addr \<times> nat) list" where
  "held u (a # b # cs) = (if u a then [(a + RT_MEMHEAP_SIZE, unat b - unat a - 24)] else []) @ held u (b # cs)"
| "held u _ = []"

lemma held_split:
  "held u (as @ b # c # cs) = held u (as @ [b]) @ (if u b then [(b + RT_MEMHEAP_SIZE, unat c - unat b - 24)] else []) @ held u (c # cs)"
  by (induction as rule: induct_list012) auto

lemma held_cong: "(\<And>b. b \<in> set (butlast bs) \<Longrightarrow> v b = u b) \<Longrightarrow> held v bs = held u bs"
  by (induction u bs rule: held.induct) auto

lemma item_size:
  assumes "layout mh (as @ b # c # cs)" and "nxt m b = c"
  shows "unat (MEMITEM_SIZE b m) = unat c - unat b - 24"
proof -
  have "unat b + 36 \<le> unat c" using layout_gap(1) [OF assms(1)] .
  moreover from this have "unat (c - b) = unat c - unat b" by (subst unat_sub) (simp_all add: word_le_nat_alt)
  ultimately show ?thesis using assms(2) by (simp add: MEMITEM_SIZE_def nxt_def rt_consts unat_sub word_le_nat_alt)
qed

text \<open>A block is followed by another one, which is at the end of it.\<close>

lemma block_split:
  assumes r: "heap_rel m h bs fs" and b: "b \<in> set bs" "b \<noteq> last bs"
  obtains as c cs where "bs = as @ b # c # cs" "nxt m b = c" "unat (MEMITEM_SIZE b m) = unat c - unat b - 24"
proof -
  obtain as ds where ds: "bs = as @ b # ds" using b(1) by (auto simp: in_set_conv_decomp)
  then obtain c cs where c: "ds = c # cs" using b(2) by (cases ds) auto
  have "ring (nxt m) (prv m) (as @ b # c # cs)" "layout (heaps m h) (as @ b # c # cs)" using r ds c by (simp_all add: heap_rel_def blocks_linked_def)
  then show ?thesis using that [of as c cs] ds c item_size [of _ as b c cs m] ring_next(1) [of "nxt m" _ as b c cs] by simp
qed

text \<open>The free blocks, and no byte of the pool is lost: blocks and headers fill it.\<close>

abbreviation gaps :: "(addr \<Rightarrow> bool) \<Rightarrow> addr list \<Rightarrow> (addr \<times> nat) list" where
  "gaps u \<equiv> held (\<lambda>a. \<not> u a)"

abbreviation room :: "(addr \<times> nat) list \<Rightarrow> nat" where
  "room S \<equiv> sum_list (map snd S)"

lemma free_total_gaps: "free_total u bs = room (gaps u bs)"
  by (induction u bs rule: free_total.induct) auto

lemma held_bounds:
  assumes "sorted_wrt (\<lambda>a b. unat a + 36 \<le> unat b) bs" "bs \<noteq> []"
  shows "room (held u bs) + room (gaps u bs) + 24 * (length (held u bs) + length (gaps u bs)) + unat (hd bs) = unat (last bs)"
  using assms by (induction u bs rule: held.induct) auto

lemma layout_fills:
  assumes "layout mh bs"
  shows "room (held u bs) + room (gaps u bs) + 24 * (length (held u bs) + length (gaps u bs)) + unat (mh_start_addr mh)
    = unat (mh_start_addr mh + mh_pool_size mh - 24)"
  using held_bounds [OF layout_succ [OF assms], of u] assms unfolding layout_def by metis

lemma free_total_less: "layout mh bs \<Longrightarrow> free_total u bs + 24 < 2 ^ 32"
  using layout_fills [of mh bs u] unfolding free_total_gaps layout_def
  by (cases "gaps u bs") auto

lemma held_sorted:
  assumes "sorted_wrt (\<lambda>a b. unat a + 36 \<le> unat b) bs" "bs \<noteq> []" "unat (last bs) + 24 \<le> 2 ^ 32" "\<forall>b\<in>set bs. unat b mod 4 = r"
  shows "sorted_wrt (\<lambda>(p, n) (q, l). unat p + n + 24 \<le> unat q) (held u bs)
    \<and> (\<forall>(p, n)\<in>set (held u bs). unat (hd bs) + 24 \<le> unat p \<and> unat p + n \<le> unat (last bs) \<and> 12 \<le> n \<and> unat p mod 4 = r)"
  using assms
proof (induction u bs rule: held.induct)
  case (1 u a b cs)
  let ?P = "\<lambda>(p, n) (q, l). unat p + n + 24 \<le> unat q"
  have "sorted_wrt (\<lambda>a b. unat a + 36 \<le> unat b) (b # cs)" using 1(2) by simp
  moreover have "b # cs \<noteq> []" by simp
  moreover have "unat (last (b # cs)) + 24 \<le> 2 ^ 32" using 1(4) by simp
  moreover have "\<forall>b\<in>set (b # cs). unat b mod 4 = r" using 1(5) by simp
  note prem = calculation this
  note h = 1(1) [OF prem, unfolded list.sel]
  have IH1: "sorted_wrt ?P (held u (b # cs))" by (rule conjunct1 [OF h])
  have IH2: "unat b + 24 \<le> unat p \<and> unat p + n \<le> unat (last (b # cs)) \<and> 12 \<le> n \<and> unat p mod 4 = r" if "(p, n) \<in> set (held u (b # cs))" for p n
    using bspec [OF conjunct2 [OF h] that] unfolding prod.case .
  have ab: "unat a + 36 \<le> unat b" using 1(2) by simp
  then have p: "unat (a + RT_MEMHEAP_SIZE) = unat a + 24" using unsigned_less [of b, where 'a = nat] by (simp add: rt_consts unat_word_ariths)
  have "unat a mod 4 = r" using 1(5) by simp
  then have m: "(unat a + 24) mod 4 = r" by presburger
  have le: "unat b \<le> unat (last (b # cs))"
    using sorted_wrt_ends [OF prem(1), of b] by auto
  show ?case
  proof (cases "u a")
    case True
    have "sorted_wrt ?P (held u (a # b # cs))" using IH1 IH2 True p ab by fastforce
    moreover have "\<forall>(p, n)\<in>set (held u (a # b # cs)). unat a + 24 \<le> unat p \<and> unat p + n \<le> unat (last (b # cs)) \<and> 12 \<le> n \<and> unat p mod 4 = r"
      using IH2 True p m ab le by fastforce
    ultimately show ?thesis by simp
  next
    case False
    then show ?thesis using IH1 IH2 ab by fastforce
  qed
qed auto

section \<open>The search\<close>

lemma memheap_search_ok:
  assumes "x < sz" and "chain (nfr m) pv (fs @ [fl])" and "fl \<notin> set fs"
  shows "\<exists>y. y < sz \<and> memheap_search m fl sz (hd (fs @ [fl])) x
    = Some (case find (\<lambda>b. sz \<le> MEMITEM_SIZE b m) fs of Some b \<Rightarrow> (b, MEMITEM_SIZE b m) | None \<Rightarrow> (fl, y))"
  using assms
proof (induction fs arbitrary: x)
  case Nil
  then show ?case by (auto simp: memheap_search.simps)
next
  case (Cons b fs)
  show ?case
  proof (cases "sz \<le> MEMITEM_SIZE b m")
    case True
    then show ?thesis using Cons.prems by (auto simp: memheap_search.simps [of _ _ _ b] not_le [symmetric] intro!: exI [of _ x])
  next
    case False
    have "chain (nfr m) pv (fs @ [fl])" "nfr m b = hd (fs @ [fl])" using Cons.prems(2) by (cases fs; simp)+
    then show ?thesis using Cons.IH [of "MEMITEM_SIZE b m"] Cons.prems False
      by (auto simp: memheap_search.simps [of _ _ _ b] nfr_def Let_def not_le)
  qed
qed

section \<open>Taking a block\<close>

abbreviation alternate :: "(addr \<Rightarrow> bool) \<Rightarrow> addr list \<Rightarrow> bool" where
  "alternate u bs \<equiv> successively (\<lambda>a b. u a \<or> u b) bs"

lemma alternate_split: "alternate u (as @ b # c # cs) \<longleftrightarrow> alternate u (as @ [b]) \<and> (u b \<or> u c) \<and> alternate u (c # cs)"
  by (auto simp: successively_append_iff)

lemma alternate_more: "alternate u bs \<Longrightarrow> (\<And>b. b \<in> set bs \<Longrightarrow> u b \<Longrightarrow> v b) \<Longrightarrow> alternate v bs"
  by (induction bs rule: induct_list012) auto

lemma parts_cong:
  assumes "\<And>x. x \<in> set as \<union> set cs \<Longrightarrow> v x = u x"
  shows "held v (as @ [b]) = held u (as @ [b])" "held v cs = held u cs" "free_total v (as @ [b]) = free_total u (as @ [b])"
    "free_total v cs = free_total u cs" "gaps v (as @ [b]) = gaps u (as @ [b])" "gaps v cs = gaps u cs"
proof -
  have 1: "v x = u x" if "x \<in> set (butlast (as @ [b]))" for x using that assms by (simp add: butlast_append)
  have 2: "v x = u x" if "x \<in> set (butlast cs)" for x using in_set_butlastD [OF that] assms by simp
  show "held v (as @ [b]) = held u (as @ [b])" "held v cs = held u cs" by (rule held_cong, erule 1) (rule held_cong, erule 2)
  show "free_total v (as @ [b]) = free_total u (as @ [b])" "free_total v cs = free_total u cs"
    by (rule free_total_cong, erule 1) (rule free_total_cong, erule 2)
  show "gaps v (as @ [b]) = gaps u (as @ [b])" "gaps v cs = gaps u cs"
    by (rule held_cong, simp only: 1) (rule held_cong, simp only: 2)
qed

text \<open>The block at \<open>b\<close> becomes used; with a new free block at \<open>n\<close> behind it, and without.\<close>

lemma use_alternate: "alternate u bs \<Longrightarrow> alternate (u(b := True)) bs"
  by (erule alternate_more) simp

lemma use_whole:
  assumes d: "distinct (as @ b # c # cs)" and u: "\<not> u b"
  defines "v \<equiv> u(b := True)"
  shows "free_total u (as @ b # c # cs) = free_total v (as @ b # c # cs) + (unat c - unat b - 24)"
    "held v (as @ b # c # cs) = held u (as @ [b]) @ (b + RT_MEMHEAP_SIZE, unat c - unat b - 24) # held u (c # cs)"
    "held u (as @ b # c # cs) = held u (as @ [b]) @ held u (c # cs)"
    "gaps u (as @ b # c # cs) = gaps u (as @ [b]) @ (b + RT_MEMHEAP_SIZE, unat c - unat b - 24) # gaps u (c # cs)"
    "gaps v (as @ b # c # cs) = gaps u (as @ [b]) @ gaps u (c # cs)"
proof -
  have v: "v x = u x" if "x \<in> set as \<union> set (c # cs)" for x using that d by (auto simp: v_def)
  have *: "held v (as @ [b]) = held u (as @ [b])" "held v (c # cs) = held u (c # cs)" "free_total v (as @ [b]) = free_total u (as @ [b])"
    "free_total v (c # cs) = free_total u (c # cs)" "gaps v (as @ [b]) = gaps u (as @ [b])" "gaps v (c # cs) = gaps u (c # cs)"
    by (rule parts_cong [where as = as and cs = "c # cs" and u = u and v = v], erule v)+
  have vb: "v b" by (simp add: v_def)
  show "held v (as @ b # c # cs) = held u (as @ [b]) @ (b + RT_MEMHEAP_SIZE, unat c - unat b - 24) # held u (c # cs)"
    "held u (as @ b # c # cs) = held u (as @ [b]) @ held u (c # cs)"
    "free_total u (as @ b # c # cs) = free_total v (as @ b # c # cs) + (unat c - unat b - 24)"
    "gaps u (as @ b # c # cs) = gaps u (as @ [b]) @ (b + RT_MEMHEAP_SIZE, unat c - unat b - 24) # gaps u (c # cs)"
    "gaps v (as @ b # c # cs) = gaps u (as @ [b]) @ gaps u (c # cs)"
    unfolding held_split [of _ as b c cs] free_total_split [of _ as b c cs] by (simp_all add: u vb *)
qed

lemma use_split:
  assumes d: "distinct (as @ b # c # cs)" "n \<notin> set (as @ b # c # cs)" and u: "\<not> u b"
    and n: "unat b + 24 \<le> unat n" "unat n + 24 \<le> unat c"
  defines "v \<equiv> u(n := False, b := True)"
  shows "alternate u (as @ b # c # cs) \<Longrightarrow> alternate v (as @ b # n # c # cs)"
    "free_total u (as @ b # c # cs) = free_total v (as @ b # n # c # cs) + (unat n - unat b)"
    "held v (as @ b # n # c # cs) = held u (as @ [b]) @ (b + RT_MEMHEAP_SIZE, unat n - unat b - 24) # held u (c # cs)"
    "gaps v (as @ b # n # c # cs) = gaps u (as @ [b]) @ (n + RT_MEMHEAP_SIZE, unat c - unat n - 24) # gaps u (c # cs)"
proof -
  have v: "v x = u x" if "x \<in> set as \<union> set (c # cs)" for x using that d by (auto simp: v_def)
  have *: "held v (as @ [b]) = held u (as @ [b])" "held v (c # cs) = held u (c # cs)" "free_total v (as @ [b]) = free_total u (as @ [b])"
    "free_total v (c # cs) = free_total u (c # cs)" "gaps v (as @ [b]) = gaps u (as @ [b])" "gaps v (c # cs) = gaps u (c # cs)"
    by (rule parts_cong [where as = as and cs = "c # cs" and u = u and v = v], erule v)+
  have vb: "v b" "\<not> v n" using d by (auto simp: v_def)
  show "held v (as @ b # n # c # cs) = held u (as @ [b]) @ (b + RT_MEMHEAP_SIZE, unat n - unat b - 24) # held u (c # cs)"
    "free_total u (as @ b # c # cs) = free_total v (as @ b # n # c # cs) + (unat n - unat b)"
    "gaps v (as @ b # n # c # cs) = gaps u (as @ [b]) @ (n + RT_MEMHEAP_SIZE, unat c - unat n - 24) # gaps u (c # cs)"
    unfolding held_split [of _ as b] free_total_split [of _ as b] using n by (simp_all add: u vb *)
  assume alt: "alternate u (as @ b # c # cs)"
  have "u c" "alternate u (as @ [b])" "alternate u (c # cs)" using alt u by (simp_all add: alternate_split [of _ as b])
  moreover have "u x \<Longrightarrow> v x" if "x \<in> set (as @ b # c # cs)" for x using that d(2) by (auto simp: v_def)
  ultimately have "v c" "alternate v (as @ [b])" "alternate v (c # cs)"
    using alternate_more [of u "as @ [b]" v] alternate_more [of u "c # cs" v] by auto
  then show "alternate v (as @ b # n # c # cs)" using vb by (simp add: alternate_split [of _ as b])
qed

lemma mark_fields: "items (memheap_mark h m) = items m" "bytes (memheap_mark h m) = bytes m"
  "heaps (memheap_mark h m) = (heaps m)(h := (heaps m h)\<lparr>mh_max_used_size := max (mh_max_used_size (heaps m h)) (mh_pool_size (heaps m h) - mh_available_size (heaps m h))\<rparr>)"
  by (auto simp: memheap_mark_def Let_def max_def fun_eq_iff)

lemma layout_insert:
  assumes "layout mh (as @ b # c # cs)" and "unat b + 36 \<le> unat n" "unat n + 36 \<le> unat c" "unat n mod 4 = unat b mod 4"
  shows "layout mh (as @ b # n # c # cs)" "n \<notin> set (as @ b # c # cs)" "n \<noteq> mh_free_list mh"
proof -
  have "successively (\<lambda>a b. unat a + 36 \<le> unat b) (as @ b # n # c # cs)"
    using assms by (simp add: layout_def successively_append_iff)
  then show l: "layout mh (as @ b # n # c # cs)" using assms by (auto simp: layout_def hd_append split: if_splits)
  note s = layout_succ [OF l]
  then show "n \<notin> set (as @ b # c # cs)" by (auto simp: sorted_wrt_append)
  have "hd (as @ b # n # c # cs) \<le> n" "n \<le> last (as @ b # n # c # cs)" by (rule layout_range [OF l]; simp)+
  moreover have "mh_free_list mh < hd (as @ b # n # c # cs) \<or> last (as @ b # n # c # cs) < mh_free_list mh" using l unfolding layout_def by blast
  ultimately show "n \<noteq> mh_free_list mh" by fastforce
qed

lemma layout_delete:
  assumes "layout mh (as @ b # n # c # cs)"
  shows "layout mh (as @ b # c # cs)"
proof -
  have "successively (\<lambda>a b. unat a + 36 \<le> unat b) (as @ b # c # cs)"
    using assms by (simp add: layout_def successively_append_iff)
  then show ?thesis using assms by (auto simp: layout_def hd_append split: if_splits)
qed

lemma layout_frame:
  "mh_start_addr mh' = mh_start_addr mh \<Longrightarrow> mh_pool_size mh' = mh_pool_size mh \<Longrightarrow> mh_free_list mh' = mh_free_list mh \<Longrightarrow> layout mh' bs = layout mh bs"
  by (simp add: layout_def)

lemma used_fun: "used m = (\<lambda>a. mag m a AND RT_MEMHEAP_USED \<noteq> 0)"
  by (simp add: fun_eq_iff used_mag)

text \<open>Changes of the heap record, of the magic number and of the free links of a block that is not free.\<close>

lemma upd_heap_fields: "nxt (upd_heap h f m) = nxt m" "prv (upd_heap h f m) = prv m" "nfr (upd_heap h f m) = nfr m" "pfr (upd_heap h f m) = pfr m"
    "mag (upd_heap h f m) = mag m" "pool (upd_heap h f m) = pool m"
  and mark_fields': "nxt (memheap_mark h m) = nxt m" "prv (memheap_mark h m) = prv m" "nfr (memheap_mark h m) = nfr m" "pfr (memheap_mark h m) = pfr m"
    "mag (memheap_mark h m) = mag m" "pool (memheap_mark h m) = pool m"
  and free_clear_fields: "nxt (free_clear x m) = nxt m" "prv (free_clear x m) = prv m" "nfr (free_clear x m) = (nfr m)(x := 0)"
    "pfr (free_clear x m) = (pfr m)(x := 0)" "mag (free_clear x m) = mag m" "pool (free_clear x m) = pool m"
    "heaps (free_clear x m) = heaps m" "bytes (free_clear x m) = bytes m"
  and magic_fields: "nxt (upd_item x (\<lambda>it. it\<lparr>it_magic := v\<rparr>) m) = nxt m" "prv (upd_item x (\<lambda>it. it\<lparr>it_magic := v\<rparr>) m) = prv m"
    "nfr (upd_item x (\<lambda>it. it\<lparr>it_magic := v\<rparr>) m) = nfr m" "pfr (upd_item x (\<lambda>it. it\<lparr>it_magic := v\<rparr>) m) = pfr m"
    "mag (upd_item x (\<lambda>it. it\<lparr>it_magic := v\<rparr>) m) = (mag m)(x := v)" "pool (upd_item x (\<lambda>it. it\<lparr>it_magic := v\<rparr>) m) = pool m"
  by (auto simp: field_defs mark_fields free_clear_def fun_eq_iff)

lemmas piece_fields = upd_heap_fields mark_fields mark_fields' free_clear_fields magic_fields free_remove_fields(3-)

lemma free_insert_frame: "mag (free_insert h x m) = mag m" "heaps (free_insert h x m) = heaps m" "bytes (free_insert h x m) = bytes m"
  by (auto simp: free_insert_def field_defs Let_def fun_eq_iff)

lemma linked_take_whole:
  assumes l: "blocks_linked m h bs (f1 @ b # f2)" and b: "b \<in> set bs" "\<not> sz + RT_MEMHEAP_SIZE + RT_MEMHEAP_MINIALLOC \<le> free_size"
  shows "blocks_linked (memheap_take h b free_size sz m) h bs (f1 @ f2)"
proof -
  let ?m = "memheap_mark h (upd_heap h (\<lambda>hd. hd\<lparr>mh_available_size := mh_available_size hd - free_size\<rparr>) m)"
  have d: "b \<notin> set (f1 @ f2)" "b \<noteq> mh_free_list (heaps m h)" using l b by (auto simp: blocks_linked_def ring_def)
  have "blocks_linked ?m h bs (f1 @ b # f2)" using l by (rule linked_frame) (simp_all add: piece_fields)
  then have "blocks_linked (free_remove b ?m) h bs (f1 @ f2)" by (rule linked_free_remove)
  then have "blocks_linked (upd_item b (\<lambda>it. it\<lparr>it_magic := RT_MEMHEAP_MAGIC OR RT_MEMHEAP_USED\<rparr>) (free_clear b (free_remove b ?m))) h bs (f1 @ f2)"
    by (rule linked_frame) (use d in \<open>auto simp: piece_fields\<close>)
  then show ?thesis using b by (simp add: memheap_take_def Let_def)
qed

lemma linked_take_split:
  assumes l: "blocks_linked m h (as @ b # c # cs) (f1 @ b # f2)"
    and b: "sz + RT_MEMHEAP_SIZE + RT_MEMHEAP_MINIALLOC \<le> free_size"
    and n: "n = b + sz + RT_MEMHEAP_SIZE" "n \<notin> set (as @ b # c # cs)" "n \<noteq> mh_free_list (heaps m h)" "n \<notin> set (f1 @ f2)"
  shows "blocks_linked (memheap_take h b free_size sz m) h (as @ b # n # c # cs) (n # f1 @ f2)"
proof -
  let ?m1 = "block_insert h b n m"
  let ?m2 = "free_clear b (free_remove b ?m1)"
  let ?m3 = "free_insert h n ?m2"
  have d: "b \<notin> set (f1 @ f2)" "b \<noteq> mh_free_list (heaps m h)" using l by (auto simp: blocks_linked_def ring_def)
  have hp: "heaps ?m1 h = heaps m h" by (simp add: block_insert_def Let_def)
  have "blocks_linked (free_remove b ?m1) h (as @ b # n # c # cs) (f1 @ f2)"
    by (rule linked_free_remove [OF linked_block_insert [OF l n(2,3)]])
  then have "blocks_linked ?m2 h (as @ b # n # c # cs) (f1 @ f2)"
    by (rule linked_frame) (use d hp in \<open>auto simp: piece_fields\<close>)
  then have "blocks_linked ?m3 h (as @ b # n # c # cs) (n # f1 @ f2)" by (rule linked_free_insert) (use n in auto)
  then have "blocks_linked (upd_item b (\<lambda>it. it\<lparr>it_magic := RT_MEMHEAP_MAGIC OR RT_MEMHEAP_USED\<rparr>) (memheap_mark h
      (upd_heap h (\<lambda>hd. hd\<lparr>mh_available_size := mh_available_size hd - sz - RT_MEMHEAP_SIZE\<rparr>) ?m3))) h (as @ b # n # c # cs) (n # f1 @ f2)"
    by (rule linked_frame) (auto simp: piece_fields)
  then show ?thesis using b by (simp add: memheap_take_def Let_def n(1))
qed

text \<open>What every operation leaves alone: the contents of the memory, other heaps, and the fixed fields of the heap.\<close>

definition heap_frame :: "nat \<Rightarrow> memory \<Rightarrow> memory \<Rightarrow> bool" where
  "heap_frame h m m' \<longleftrightarrow> bytes m' = bytes m \<and> (\<forall>h'. h' \<noteq> h \<longrightarrow> heaps m' h' = heaps m h')
     \<and> mh_start_addr (heaps m' h) = mh_start_addr (heaps m h) \<and> mh_pool_size (heaps m' h) = mh_pool_size (heaps m h)
     \<and> mh_free_list (heaps m' h) = mh_free_list (heaps m h) \<and> mh_lock (heaps m' h) = mh_lock (heaps m h)"

lemma layout_heap_frame: "heap_frame h m m' \<Longrightarrow> layout (heaps m' h) bs = layout (heaps m h) bs"
  by (rule layout_frame) (simp_all add: heap_frame_def)

lemma take_whole_fields:
  assumes "\<not> sz + RT_MEMHEAP_SIZE + RT_MEMHEAP_MINIALLOC \<le> free_size" and m': "m' = memheap_take h b free_size sz m"
  shows "mag m' = (mag m)(b := RT_MEMHEAP_MAGIC OR RT_MEMHEAP_USED)" "heap_frame h m m'"
    "mh_available_size (heaps m' h) = mh_available_size (heaps m h) - free_size"
  using assms(1) by (simp_all add: m' memheap_take_def Let_def piece_fields heap_frame_def)

lemma take_split_fields:
  assumes "sz + RT_MEMHEAP_SIZE + RT_MEMHEAP_MINIALLOC \<le> free_size" "n \<noteq> b" "nxt m b \<noteq> n" and n: "n = b + sz + RT_MEMHEAP_SIZE"
    and m': "m' = memheap_take h b free_size sz m"
  shows "mag m' = (mag m)(n := RT_MEMHEAP_MAGIC OR RT_MEMHEAP_FREED, b := RT_MEMHEAP_MAGIC OR RT_MEMHEAP_USED)" "heap_frame h m m'"
    "mh_available_size (heaps m' h) = mh_available_size (heaps m h) - sz - RT_MEMHEAP_SIZE"
proof -
  have "m' = upd_item b (\<lambda>it. it\<lparr>it_magic := RT_MEMHEAP_MAGIC OR RT_MEMHEAP_USED\<rparr>) (memheap_mark h
      (upd_heap h (\<lambda>hd. hd\<lparr>mh_available_size := mh_available_size hd - sz - RT_MEMHEAP_SIZE\<rparr>)
        (free_insert h n (free_clear b (free_remove b (block_insert h b n m))))))"
    using assms(1) by (simp add: m' n memheap_take_def Let_def)
  then show "mag m' = (mag m)(n := RT_MEMHEAP_MAGIC OR RT_MEMHEAP_FREED, b := RT_MEMHEAP_MAGIC OR RT_MEMHEAP_USED)" "heap_frame h m m'"
    "mh_available_size (heaps m' h) = mh_available_size (heaps m h) - sz - RT_MEMHEAP_SIZE"
    using assms(2,3) by (simp_all add: piece_fields block_insert_fields free_insert_frame heap_frame_def)
qed

text \<open>The block \<open>b\<close> has at least the size that is asked for; it becomes used and the rest stays or becomes free.\<close>

lemma memheap_take_whole:
  assumes r: "heap_rel m h (as @ b # c # cs) (f1 @ b # f2)" and fr: "free_size = MEMITEM_SIZE b m"
    and sz: "\<not> sz + RT_MEMHEAP_SIZE + RT_MEMHEAP_MINIALLOC \<le> free_size"
  defines "m' \<equiv> memheap_take h b free_size sz m"
  shows "heap_rel m' h (as @ b # c # cs) (f1 @ f2)" "heap_frame h m m'" "used m' = (used m)(b := True)"
proof -
  note f = take_whole_fields [OF sz m'_def [THEN meta_eq_to_obj_eq]]
  show fr': "heap_frame h m m'" by (rule f)
  have lay: "layout (heaps m h) (as @ b # c # cs)" and l: "blocks_linked m h (as @ b # c # cs) (f1 @ b # f2)" using r by (simp_all add: heap_rel_def)
  have d: "distinct (as @ b # c # cs)" "b \<notin> set (f1 @ f2)" using l by (auto simp: blocks_linked_def ring_def)
  show u: "used m' = (used m)(b := True)" by (auto simp: used_fun f(1) fun_eq_iff)
  note u' = fun_cong [OF u]
  have old: "set (f1 @ b # f2) = {x \<in> set (as @ b # c # cs). \<not> used m x}" "alternate (used m) (as @ b # c # cs)" "used m (last (as @ b # c # cs))"
    "unat (mh_available_size (heaps m h)) = free_total (used m) (as @ b # c # cs)"
    using r unfolding heap_rel_def by blast+
  have nb: "\<not> used m b" using old(1) by auto
  note w = use_whole [where u = "used m", OF d(1) nb, folded u]
  have "unat (MEMITEM_SIZE b m) = unat c - unat b - 24"
    using item_size [OF lay] ring_next(1) [of "nxt m" "prv m" as b c cs] l by (simp add: blocks_linked_def)
  moreover from this have "unat (mh_available_size (heaps m h) - free_size) = unat (mh_available_size (heaps m h)) - (unat c - unat b - 24)"
    using w(1) old(4) by (subst unat_sub) (simp_all add: fr word_le_nat_alt)
  ultimately have "unat (mh_available_size (heaps m' h)) = free_total (used m') (as @ b # c # cs)"
    using w(1) old(4) by (simp add: f(3))
  moreover have "set (f1 @ f2) = {x \<in> set (as @ b # c # cs). \<not> used m' x}" using old(1) d(2) by (auto simp: u')
  moreover have "used m' (last (as @ b # c # cs))" using old(3) by (simp add: u')
  moreover have "blocks_linked m' h (as @ b # c # cs) (f1 @ f2)" unfolding m'_def by (rule linked_take_whole [OF l _ sz]) simp
  ultimately show "heap_rel m' h (as @ b # c # cs) (f1 @ f2)"
    using use_alternate [OF old(2), of b, folded u] lay layout_heap_frame [OF fr'] unfolding heap_rel_def by blast
qed

lemma memheap_take_split:
  assumes r: "heap_rel m h (as @ b # c # cs) (f1 @ b # f2)" and fr: "free_size = MEMITEM_SIZE b m"
    and sz: "sz + RT_MEMHEAP_SIZE + RT_MEMHEAP_MINIALLOC \<le> free_size" "sz \<le> free_size" "12 \<le> unat sz" "4 dvd unat sz"
  defines "m' \<equiv> memheap_take h b free_size sz m" and "n \<equiv> b + sz + RT_MEMHEAP_SIZE"
  shows "heap_rel m' h (as @ b # n # c # cs) (n # f1 @ f2)" "heap_frame h m m'" "used m' = (used m)(n := False, b := True)"
    "unat n = unat b + unat sz + 24" "n \<notin> set (as @ b # c # cs)"
proof -
  have lay: "layout (heaps m h) (as @ b # c # cs)" and l: "blocks_linked m h (as @ b # c # cs) (f1 @ b # f2)" using r by (simp_all add: heap_rel_def)
  have old: "set (f1 @ b # f2) = {x \<in> set (as @ b # c # cs). \<not> used m x}" "alternate (used m) (as @ b # c # cs)" "used m (last (as @ b # c # cs))"
    "unat (mh_available_size (heaps m h)) = free_total (used m) (as @ b # c # cs)"
    using r unfolding heap_rel_def by blast+
  have nb: "\<not> used m b" using old(1) by auto
  have nx: "nxt m b = c" using ring_next(1) [of "nxt m" "prv m" as b c cs] l by (simp add: blocks_linked_def)
  have s: "unat free_size = unat c - unat b - 24" unfolding fr by (rule item_size [OF lay nx])
  note gap = layout_gap [OF lay]
  have "unat sz \<le> unat free_size" using sz(2) by (simp add: word_le_nat_alt)
  then have "unat sz + 36 < 2 ^ 32" using s gap(1,2) by linarith
  then have "unat (sz + RT_MEMHEAP_SIZE + RT_MEMHEAP_MINIALLOC) = unat sz + 36" by (simp add: unat_word_ariths rt_consts)
  then have fit: "unat sz + 36 \<le> unat c - unat b - 24" using sz(1) s by (simp add: word_le_nat_alt)
  then show n: "unat n = unat b + unat sz + 24" using gap(1,2) by (simp add: n_def unat_word_ariths rt_consts)
  have "unat n mod 4 = unat b mod 4" using sz(4) n by (auto simp: dvd_def) presburger
  note ins = layout_insert [OF lay _ _ this]
  have n1: "unat b + 36 \<le> unat n" "unat n + 36 \<le> unat c" using n fit sz(3) by linarith+
  note ins = ins [OF n1]
  then show nn: "n \<notin> set (as @ b # c # cs)" by blast
  have d: "distinct (as @ b # c # cs)" "b \<notin> set (f1 @ f2)" "n \<notin> set (f1 @ f2)" using l nn old(1) by (auto simp: blocks_linked_def ring_def)
  have nb': "n \<noteq> b" "nxt m b \<noteq> n" using nn nx by auto
  note f = take_split_fields [OF sz(1) nb' n_def [THEN meta_eq_to_obj_eq] m'_def [THEN meta_eq_to_obj_eq]]
  show fr': "heap_frame h m m'" by (rule f)
  show u: "used m' = (used m)(n := False, b := True)" by (auto simp: used_fun f(1) fun_eq_iff)
  note u' = fun_cong [OF u]
  have n2: "unat b + 24 \<le> unat n" "unat n + 24 \<le> unat c" using n1 by linarith+
  note w = use_split [where u = "used m", OF d(1) nn nb n2, folded u]
  have "unat (mh_available_size (heaps m' h)) = unat (mh_available_size (heaps m h)) - unat sz - 24"
    unfolding f(3) RT_MEMHEAP_SIZE_def using w(2) old(4) n by (simp add: unat_sub word_le_nat_alt)
  then have "unat (mh_available_size (heaps m' h)) = free_total (used m') (as @ b # n # c # cs)"
    using w(2) old(4) n by simp
  moreover have "set (n # f1 @ f2) = {x \<in> set (as @ b # n # c # cs). \<not> used m' x}" using old(1) d nb' nn by (auto simp: u')
  moreover have "used m' (last (as @ b # n # c # cs))" using old(3) nn by (auto simp: u' split: if_splits)
  moreover have "blocks_linked m' h (as @ b # n # c # cs) (n # f1 @ f2)" unfolding m'_def
    by (rule linked_take_split [OF l sz(1) n_def [THEN meta_eq_to_obj_eq] nn ins(3) d(3)])
  ultimately show "heap_rel m' h (as @ b # n # c # cs) (n # f1 @ f2)"
    using w(1) [OF old(2)] ins(1) layout_heap_frame [OF fr'] unfolding heap_rel_def by blast
qed

section \<open>Giving a block back\<close>

text \<open>The part of the invariant that holds between the steps: neighbours may both be free, and a free block may be off the free list.\<close>

definition heap_pre :: "memory \<Rightarrow> nat \<Rightarrow> addr list \<Rightarrow> addr list \<Rightarrow> bool" where
  "heap_pre m h bs fs \<longleftrightarrow> layout (heaps m h) bs \<and> blocks_linked m h bs fs
     \<and> unat (mh_available_size (heaps m h)) = free_total (used m) bs"

lemma heap_rel_pre:
  "heap_rel m h bs fs \<longleftrightarrow> heap_pre m h bs fs \<and> set fs = {b \<in> set bs. \<not> used m b} \<and> used m (last bs) \<and> alternate (used m) bs"
  by (auto simp: heap_rel_def heap_pre_def)

lemma heap_relI:
  assumes "heap_pre m h bs fs" and "\<And>x. used m x = u x" and "set fs = {x \<in> set bs. \<not> u x}" "u (last bs)" "alternate u bs"
  shows "heap_rel m h bs fs"
  using assms by (simp add: heap_rel_pre)

lemma heap_pre_next:
  assumes "heap_pre m h (as @ b # c # cs) fs"
  shows "it_next (items m b) = c" "it_prev (items m c) = b" "unat (MEMITEM_SIZE b m) = unat c - unat b - 24"
    "distinct (as @ b # c # cs)" "mh_free_list (heaps m h) \<notin> set (as @ b # c # cs)" "unat b + 36 \<le> unat c" "distinct fs"
proof -
  have lay: "layout (heaps m h) (as @ b # c # cs)" and r: "ring (nxt m) (prv m) (as @ b # c # cs)" using assms by (simp_all add: heap_pre_def blocks_linked_def)
  then show "unat (MEMITEM_SIZE b m) = unat c - unat b - 24" "it_next (items m b) = c" "it_prev (items m c) = b"
    using item_size [OF lay] ring_next [OF r] by (simp_all add: nxt_def prv_def)
  show "distinct (as @ b # c # cs)" "mh_free_list (heaps m h) \<notin> set (as @ b # c # cs)" "unat b + 36 \<le> unat c" "distinct fs"
    using assms layout_distinct [OF lay] layout_gap(1) [OF lay] by (auto simp: heap_pre_def blocks_linked_def ring_def)
qed

lemma block_before:
  assumes "heap_pre m h (as @ b # cs) fs"
  shows "it_prev (items m b) = (if as = [] then last (b # cs) else last as)"
proof -
  have r: "ring (nxt m) (prv m) (as @ b # cs)" using assms by (simp add: heap_pre_def blocks_linked_def)
  show ?thesis
  proof (cases as rule: rev_cases)
    case Nil
    then show ?thesis using ring_first(2) [of "nxt m" "prv m" b cs] r by (simp add: prv_def)
  next
    case (snoc as' a)
    then show ?thesis using ring_next(2) [of "nxt m" "prv m" as' a b cs] r by (simp add: prv_def)
  qed
qed

text \<open>A change of the counter that matches a change of the blocks.\<close>

lemma count_up:
  fixes x y :: rt_uint32_t
  assumes lay: "layout mh bs" and n: "unat x + unat y = free_total u bs"
  shows "unat (x + y) = free_total u bs"
proof -
  have "unat x + unat y < 2 ^ 32" unfolding n using free_total_less [OF lay, of u] by linarith
  then show ?thesis using n by (simp add: unat_word_ariths)
qed

definition mark_free :: "nat \<Rightarrow> addr \<Rightarrow> memory \<Rightarrow> memory" where
  "mark_free h b m = (let m = upd_item b (\<lambda>it. it\<lparr>it_magic := RT_MEMHEAP_MAGIC OR RT_MEMHEAP_FREED\<rparr>) m
     in upd_heap h (\<lambda>hd. hd\<lparr>mh_available_size := mh_available_size hd + MEMITEM_SIZE b m\<rparr>) m)"

lemma free_mark:
  assumes r: "heap_pre m h (as @ b # c # cs) fs" and u: "used m b"
  defines "m2 \<equiv> mark_free h b m"
  shows "heap_pre m2 h (as @ b # c # cs) fs" "used m2 = (used m)(b := False)" "heap_frame h m m2"
proof -
  define m1 where "m1 = upd_item b (\<lambda>it. it\<lparr>it_magic := RT_MEMHEAP_MAGIC OR RT_MEMHEAP_FREED\<rparr>) m"
  have m2_def: "m2 = upd_heap h (\<lambda>hd. hd\<lparr>mh_available_size := mh_available_size hd + MEMITEM_SIZE b m1\<rparr>) m1"
    by (simp only: m2_def mark_free_def m1_def Let_def)
  note n = heap_pre_next [OF r]
  show u2: "used m2 = (used m)(b := False)" by (auto simp: used_fun m2_def m1_def piece_fields fun_eq_iff)
  show fr: "heap_frame h m m2" by (simp add: heap_frame_def m2_def m1_def)
  have lay: "layout (heaps m2 h) (as @ b # c # cs)" using r layout_heap_frame [OF fr] by (simp add: heap_pre_def)
  have "\<not> used m2 b" by (simp add: used_mag m2_def m1_def piece_fields)
  moreover have v: "used m = (used m2)(b := True)" using u by (simp add: u2 fun_upd_idem)
  moreover have "MEMITEM_SIZE b m1 = MEMITEM_SIZE b m" by (simp add: MEMITEM_SIZE_def m1_def)
  ultimately have "unat (mh_available_size (heaps m h)) + unat (MEMITEM_SIZE b m1) = free_total (used m2) (as @ b # c # cs)"
    using use_whole(1) [of as b c cs "used m2", folded v] n(3,4) r by (simp add: heap_pre_def)
  then have "unat (mh_available_size (heaps m2 h)) = free_total (used m2) (as @ b # c # cs)"
    using count_up [OF lay] by (simp add: m2_def m1_def)
  moreover have "blocks_linked m2 h (as @ b # c # cs) fs"
    by (rule linked_frame [of m]) (use r in \<open>auto simp: heap_pre_def m2_def m1_def piece_fields\<close>)
  ultimately show "heap_pre m2 h (as @ b # c # cs) fs" using lay by (simp add: heap_pre_def)
qed

text \<open>Two free neighbours become one block.\<close>

lemma merge_total:
  assumes "\<not> u a" "\<not> u b" and "unat a + 24 \<le> unat b" "unat b + 24 \<le> unat c"
  shows "free_total u (as @ a # c # cs) = free_total u (as @ a # b # c # cs) + 24" "held u (as @ a # c # cs) = held u (as @ a # b # c # cs)"
  using assms unfolding held_split [of _ as a] free_total_split [of _ as a] by simp_all

lemma merge_pre:
  assumes r: "heap_pre m h (as @ a # b # c # cs) fs" and u: "\<not> used m a" "\<not> used m b"
    and l: "blocks_linked m' h (as @ a # c # cs) fs'" and u': "used m' = used m" and fr: "heap_frame h m m'"
    and av: "mh_available_size (heaps m' h) = mh_available_size (heaps m h) + RT_MEMHEAP_SIZE"
  shows "heap_pre m' h (as @ a # c # cs) fs'"
proof -
  have lay: "layout (heaps m' h) (as @ a # c # cs)" using r layout_delete [of "heaps m h" as a b c cs] layout_heap_frame [OF fr] by (simp add: heap_pre_def)
  have g: "unat a + 24 \<le> unat b" "unat b + 24 \<le> unat c"
    using heap_pre_next(6) [of m h as a b "c # cs" fs] heap_pre_next(6) [of m h "as @ [a]" b c cs fs] r by simp_all
  have "unat (mh_available_size (heaps m h)) + unat RT_MEMHEAP_SIZE = free_total (used m') (as @ a # c # cs)"
    using merge_total(1) [where u = "used m", OF u g] r by (simp add: heap_pre_def RT_MEMHEAP_SIZE_def u')
  from count_up [OF lay this] show ?thesis using lay l av by (simp add: heap_pre_def)
qed

abbreviation count_header :: "nat \<Rightarrow> memory \<Rightarrow> memory" where
  "count_header h \<equiv> upd_heap h (\<lambda>hd. hd\<lparr>mh_available_size := mh_available_size hd + RT_MEMHEAP_SIZE\<rparr>)"

lemma merge_left_pre:
  assumes r: "heap_pre m h (as @ a # b # c # cs) fs" and u: "\<not> used m a" "\<not> used m b"
  defines "m' \<equiv> merge_left b (count_header h m)"
  shows "heap_pre m' h (as @ a # c # cs) fs" "used m' = used m" "heap_frame h m m'"
proof -
  note n1 = heap_pre_next [of m h as a b "c # cs" fs] and n2 = heap_pre_next [of m h "as @ [a]" b c cs fs]
  have ne: "a \<noteq> b" "c \<noteq> b" "c \<noteq> a" and lk: "nxt m b = c" "prv m b = a" using r n1 n2 by (auto simp: nxt_def prv_def)
  have f: "nxt m' = (nxt m)(a := c)" "prv m' = (prv m)(c := a)" "nfr m' = nfr m" "pfr m' = pfr m" "mag m' = mag m" "pool m' = pool m"
    using ne lk by (auto simp: m'_def merge_left_def Let_def field_defs fun_eq_iff)
  show u': "used m' = used m" by (simp add: used_fun f)
  show fr: "heap_frame h m m'" by (simp add: heap_frame_def m'_def merge_left_def Let_def)
  have "blocks_linked (count_header h m) h (as @ a # b # c # cs) fs"
    by (rule linked_frame [of m]) (use r in \<open>simp_all add: heap_pre_def piece_fields\<close>)
  then have "blocks_linked m' h (as @ a # c # cs) fs"
    by (rule linked_block_delete) (simp_all add: f lk piece_fields, simp add: m'_def merge_left_def Let_def)
  then show "heap_pre m' h (as @ a # c # cs) fs"
    by (rule merge_pre [OF r u _ u' fr]) (simp add: m'_def merge_left_def Let_def)
qed

lemma linked_merge_right:
  assumes l: "blocks_linked m h (as @ a # b # c # cs) (f1 @ b # f2)"
  shows "blocks_linked (merge_right a m) h (as @ a # c # cs) (f1 @ f2)" "mag (merge_right a m) = mag m" "heaps (merge_right a m) = heaps m"
    "bytes (merge_right a m) = bytes m" "nxt (merge_right a m) a = c"
proof -
  have r: "ring (nxt m) (prv m) (as @ a # b # c # cs)" using l by (simp add: blocks_linked_def)
  have lk: "nxt m a = b" "nxt m b = c" using ring_next(1) [of "nxt m" "prv m" as a b "c # cs"] ring_next(1) [of "nxt m" "prv m" "as @ [a]" b c cs] r by simp_all
  have ne: "a \<noteq> b" "c \<noteq> b" "c \<noteq> a" using r by (auto simp: ring_def)
  define m1 where "m1 = upd_item a (\<lambda>it. it\<lparr>it_next := c\<rparr>) (upd_item c (\<lambda>it. it\<lparr>it_prev := a\<rparr>) m)"
  have f: "nxt m1 = (nxt m)(a := nxt m b)" "prv m1 = (prv m)(nxt m b := a)" "nfr m1 = nfr m" "pfr m1 = pfr m" "mag m1 = mag m" "pool m1 = pool m" "heaps m1 h = heaps m h"
    using lk by (auto simp: m1_def field_defs fun_eq_iff)
  have m': "merge_right a m = free_remove b m1" using ne lk by (simp add: m1_def merge_right_def Let_def nxt_def)
  show "blocks_linked (merge_right a m) h (as @ a # c # cs) (f1 @ f2)"
    unfolding m' by (rule linked_free_remove [OF linked_block_delete [OF l f]])
  show "mag (merge_right a m) = mag m" "heaps (merge_right a m) = heaps m" "bytes (merge_right a m) = bytes m" "nxt (merge_right a m) a = c"
    by (simp_all add: m' free_remove_fields f lk) (simp_all add: m1_def)
qed

lemma merge_right_pre:
  assumes r: "heap_pre m h (as @ a # b # c # cs) (f1 @ b # f2)" and u: "\<not> used m a" "\<not> used m b"
  defines "m' \<equiv> merge_right a (count_header h m)"
  shows "heap_pre m' h (as @ a # c # cs) (f1 @ f2)" "used m' = used m" "heap_frame h m m'"
proof -
  have "blocks_linked (count_header h m) h (as @ a # b # c # cs) (f1 @ b # f2)"
    by (rule linked_frame [of m]) (use r in \<open>simp_all add: heap_pre_def piece_fields\<close>)
  note l = linked_merge_right [OF this, folded m'_def]
  show u': "used m' = used m" by (simp add: used_fun l(2) piece_fields)
  show fr: "heap_frame h m m'" by (simp add: heap_frame_def l(3,4))
  show "heap_pre m' h (as @ a # c # cs) (f1 @ f2)" by (rule merge_pre [OF r u l(1) u' fr]) (simp add: l(3))
qed

lemma insert_pre:
  assumes r: "heap_pre m h bs fs" and x: "x \<in> set bs" "x \<notin> set fs"
  defines "m' \<equiv> free_insert h x m"
  shows "heap_pre m' h bs (x # fs)" "used m' = used m" "heap_frame h m m'"
proof -
  show u: "used m' = used m" by (simp add: m'_def used_fun free_insert_frame)
  show "heap_frame h m m'" by (simp add: m'_def heap_frame_def free_insert_frame)
  have "blocks_linked m' h bs (x # fs)" unfolding m'_def by (rule linked_free_insert) (use assms in \<open>simp_all add: heap_pre_def\<close>)
  then show "heap_pre m' h bs (x # fs)" using r u by (simp add: heap_pre_def) (simp add: m'_def free_insert_frame)
qed

text \<open>The second half of the release: \<open>b\<close> is free and is merged with its right neighbour.\<close>

definition merge_next :: "nat \<Rightarrow> addr \<Rightarrow> memory \<Rightarrow> memory" where
  "merge_next h b m = (if \<not> RT_MEMHEAP_IS_USED (it_next (items m b)) m then merge_right b (count_header h m) else m)"

lemma merge_next_ok:
  assumes r: "heap_pre m h (as @ b # c # cs) fs" and b: "\<not> used m b" and alt: "alternate (used m) (c # cs)" and last: "used m (last (c # cs))"
    and c: "used m c \<or> c \<in> set fs"
  shows "\<exists>d ds fs'. heap_pre (merge_next h b m) h (as @ b # d # ds) fs' \<and> used (merge_next h b m) = used m \<and> heap_frame h m (merge_next h b m)
    \<and> used m d \<and> alternate (used m) (d # ds) \<and> last (d # ds) = last (c # cs) \<and> held (used m) (as @ b # d # ds) = held (used m) (as @ b # c # cs)
    \<and> set (d # ds) = set (c # cs) - (if used m c then {} else {c}) \<and> set fs' = set fs - (if used m c then {} else {c})"
proof -
  note n = heap_pre_next [OF r]
  show ?thesis
  proof (cases "used m c")
    case True
    then have "merge_next h b m = m" by (simp add: merge_next_def n(1))
    then show ?thesis using r alt True by (intro exI [of _ c] exI [of _ cs] exI [of _ fs]) (simp add: heap_frame_def)
  next
    case False
    then obtain d ds where ds: "cs = d # ds" using last by (cases cs) auto
    obtain f1 f2 where f: "fs = f1 @ c # f2" using c False by (auto simp: in_set_conv_decomp)
    have m': "merge_next h b m = merge_right b (count_header h m)" using False by (simp add: merge_next_def n(1))
    note mr = merge_right_pre [OF r [unfolded ds f] b False, folded m']
    have "unat b + 24 \<le> unat c" "unat c + 24 \<le> unat d" using n(6) heap_pre_next(6) [of m h "as @ [b]" c d ds fs] r ds by simp_all
    then have "held (used m) (as @ b # d # ds) = held (used m) (as @ b # c # d # ds)" by (rule merge_total(2) [where u = "used m", OF b False])
    moreover have "used m d" "alternate (used m) (d # ds)" using alt False ds by simp_all
    moreover have "set (d # ds) = set (c # cs) - {c}" "set (f1 @ f2) = set fs - {c}" using n(4,7) ds f by auto
    ultimately show ?thesis using mr False ds by (intro exI [of _ d] exI [of _ ds] exI [of _ "f1 @ f2"]) simp
  qed
qed

lemma alternate_snoc: "alternate u (as @ [b]) \<Longrightarrow> b \<notin> set as \<Longrightarrow> as = [] \<or> u (last as) \<Longrightarrow> alternate (u(b := False)) (as @ [b])"
  by (induction as rule: induct_list012) auto

lemma alternate_cong: "alternate u bs \<Longrightarrow> (\<And>b. b \<in> set bs \<Longrightarrow> v b = u b) \<Longrightarrow> alternate v bs"
  by (erule alternate_more) simp

lemma heap_frame_trans: "heap_frame h m1 m2 \<Longrightarrow> heap_frame h m2 m3 \<Longrightarrow> heap_frame h m1 m3"
  by (simp add: heap_frame_def)

text \<open>The right neighbour and the insertion into the free list, unless the block is already on it.\<close>

lemma release_finish:
  assumes r: "heap_pre m h (as @ b # c # cs) fs" and b: "\<not> used m b" and alt: "alternate (used m) (as @ [b])" "alternate (used m) (c # cs)"
    and last: "used m (last (c # cs))" and fs: "set fs = {x \<in> set (as @ b # c # cs). \<not> used m x} - (if ins then {b} else {})"
  defines "m' \<equiv> (if ins then free_insert h b (merge_next h b m) else merge_next h b m)"
  shows "\<exists>bs' fs'. heap_rel m' h bs' fs' \<and> heap_frame h m m' \<and> held (used m') bs' = held (used m) (as @ b # c # cs)"
proof -
  note n = heap_pre_next [OF r]
  define m1 where "m1 = merge_next h b m"
  have "used m c \<or> c \<in> set fs" using fs n(4) by auto
  from merge_next_ok [OF r b alt(2) last this, folded m1_def] obtain e es fs' where e: "heap_pre m1 h (as @ b # e # es) fs'" "used m1 = used m" "heap_frame h m m1"
    "used m e" "alternate (used m) (e # es)" "last (e # es) = last (c # cs)" "held (used m) (as @ b # e # es) = held (used m) (as @ b # c # cs)"
    "set (e # es) = set (c # cs) - (if used m c then {} else {c})" "set fs' = set fs - (if used m c then {} else {c})"
    by (elim exE conjE) (erule (8) that)
  have al: "alternate (used m) (as @ b # e # es)" using alt(1) e(4,5) by (simp add: alternate_split [of _ as b])
  have la: "used m (last (as @ b # e # es))" using e(6) last by simp
  have fs': "set fs' = {x \<in> set (as @ b # e # es). \<not> used m x} - (if ins then {b} else {})"
  proof -
    have "set (as @ b # e # es) = set (as @ b # c # cs) - (if used m c then {} else {c})" using e(8) n(4) by (cases "used m c") auto
    then show ?thesis unfolding e(9) fs by blast
  qed
  show ?thesis
  proof (cases ins)
    case True
    have "b \<notin> set fs'" using fs' True by auto
    note i = insert_pre [OF e(1) _ this]
    have m': "m' = free_insert h b m1" using True by (simp add: m'_def m1_def)
    have u: "used m' x = used m x" for x using fun_cong [OF i(2), of x] fun_cong [OF e(2), of x] by (simp add: m')
    have fs'': "set (b # fs') = {x \<in> set (as @ b # e # es). \<not> used m x}" using fs' True b by auto
    have "heap_rel m' h (as @ b # e # es) (b # fs')"
      by (rule heap_relI [where u = "used m", OF _ u fs'' la al]) (use i(1) in \<open>simp add: m'\<close>)
    moreover have "heap_frame h m m'" using heap_frame_trans [OF e(3)] i(3) by (simp add: m')
    moreover have "held (used m') (as @ b # e # es) = held (used m) (as @ b # c # cs)" using e(7) by (simp only: u)
    ultimately show ?thesis by blast
  next
    case False
    then have m': "m' = m1" by (simp add: m'_def m1_def)
    have u: "used m' x = used m x" for x using fun_cong [OF e(2), of x] by (simp add: m')
    have fs'': "set fs' = {x \<in> set (as @ b # e # es). \<not> used m x}" using fs' False by simp
    have "heap_rel m' h (as @ b # e # es) fs'"
      by (rule heap_relI [where u = "used m", OF _ u fs'' la al]) (use e(1) in \<open>simp add: m'\<close>)
    moreover have "held (used m') (as @ b # e # es) = held (used m) (as @ b # c # cs)" using e(7) by (simp only: u)
    ultimately show ?thesis using e(3) m' by blast
  qed
qed

lemma memheap_release_eq:
  "memheap_release h b m = (let m = mark_free h b m; a = it_prev (items m b) in
     if used m a then free_insert h b (merge_next h b m) else merge_next h a (merge_left b (count_header h m)))"
proof -
  have "memheap_release h b m = (let m = mark_free h b m; (b', ins, m) =
      (if \<not> used m (it_prev (items m b)) then (it_prev (items m b), False, merge_left b (count_header h m)) else (b, True, m));
      m = merge_next h b' m in if ins then free_insert h b' m else m)"
    unfolding memheap_release_def mark_free_def merge_next_def Let_def by (rule refl)
  then show ?thesis by (simp add: Let_def)
qed

text \<open>The left neighbour first.  The block before the first one is the used block at the end of the pool.\<close>

lemma memheap_release_ok:
  assumes r: "heap_rel m h (as @ b # c # cs) fs" and b: "used m b"
  shows "\<exists>bs' fs'. heap_rel (memheap_release h b m) h bs' fs' \<and> heap_frame h m (memheap_release h b m)
    \<and> held (used (memheap_release h b m)) bs' = held (used m) (as @ [b]) @ held (used m) (c # cs)"
proof -
  define m2 where "m2 = mark_free h b m"
  have pre: "heap_pre m h (as @ b # c # cs) fs" and old: "set fs = {x \<in> set (as @ b # c # cs). \<not> used m x}" "used m (last (c # cs))"
    "alternate (used m) (as @ b # c # cs)" using r by (simp_all add: heap_rel_pre)
  note p2 = free_mark [OF pre b, folded m2_def]
  note n = heap_pre_next [OF p2(1)]
  have u2: "used m2 x = (x \<noteq> b \<and> used m x)" for x using fun_cong [OF p2(2), of x] by simp
  have alt: "alternate (used m) (as @ [b])" "alternate (used m) (c # cs)" using old(3) by (simp_all add: alternate_split [of _ as b])
  have alt2: "alternate (used m2) (c # cs)" by (rule alternate_cong [OF alt(2)]) (use n(4) in \<open>auto simp: u2\<close>)
  have last2: "used m2 (last (c # cs))" using old(2) n(4) by (auto simp: u2 split: if_splits)
  have nb: "\<not> used m2 b" by (simp add: u2)
  have same: "used m2 x = used m x" if "x \<in> set as \<union> set (c # cs)" for x using that n(4) by (auto simp: u2)
  have held2: "held (used m2) (as @ b # c # cs) = held (used m) (as @ [b]) @ held (used m) (c # cs)"
    unfolding use_whole(3) [where u = "used m2", OF n(4) nb]
    by (simp only: parts_cong(1,2) [where as = as and cs = "c # cs" and v = "used m2" and u = "used m", OF same])
  have fs2: "set fs = {x \<in> set (as @ b # c # cs). \<not> used m2 x} - {b}" using old(1) b by (auto simp: u2)
  have fr2: "heap_frame h m m2" by (rule p2)
  show ?thesis
  proof (cases "as = [] \<or> used m (last as)")
    case True
    have "it_prev (items m2 b) = (if as = [] then last (c # cs) else last as)" using block_before [OF p2(1)] by simp
    then have "used m2 (it_prev (items m2 b))" using True last2 n(4) by (auto simp: u2)
    then have m': "memheap_release h b m = free_insert h b (merge_next h b m2)"
      by (simp add: memheap_release_eq Let_def m2_def [symmetric])
    have "alternate (used m2) (as @ [b])" by (rule alternate_cong [OF alternate_snoc [OF alt(1) _ True]]) (use n(4) in \<open>auto simp: u2\<close>)
    from release_finish [OF p2(1) nb this alt2 last2, of True] fs2 show ?thesis
      using heap_frame_trans [OF fr2] held2 by (auto simp: m')
  next
    case False
    then obtain as' a where a: "as = as' @ [a]" "\<not> used m a" by (metis append_butlast_last_id)
    then have "it_prev (items m2 b) = a" "\<not> used m2 a" using heap_pre_next(2) [of m2 h as' a b "c # cs" fs] p2(1) by (simp_all add: u2)
    then have m': "memheap_release h b m = merge_next h a (merge_left b (count_header h m2))"
      by (simp add: memheap_release_eq Let_def m2_def [symmetric])
    note ml = merge_left_pre [OF p2(1) [unfolded a, simplified] \<open>\<not> used m2 a\<close> nb]
    have al: "alternate (used m2) (as' @ [a])" by (rule alternate_cong [of "used m"]) (use alt(1) n(4) a in \<open>auto simp: u2 successively_append_iff\<close>)
    have fs3: "set fs = {x \<in> set (as' @ a # c # cs). \<not> used m2 x} - {}" using fs2 n(4) a by (auto simp: u2)
    have "unat a + 24 \<le> unat b" "unat b + 24 \<le> unat c" using n(6) heap_pre_next(6) [of m2 h as' a b "c # cs" fs] p2(1) a by simp_all
    from merge_total(2) [where u = "used m2", OF \<open>\<not> used m2 a\<close> nb this, of as' cs]
    have h3: "held (used m2) (as' @ a # c # cs) = held (used m) (as @ [b]) @ held (used m) (c # cs)" using held2 a by simp
    define m3 where "m3 = merge_left b (count_header h m2)"
    note ml = ml [folded m3_def]
    have "\<not> used m3 a" "alternate (used m3) (as' @ [a])" "alternate (used m3) (c # cs)" "used m3 (last (c # cs))"
      "set fs = {x \<in> set (as' @ a # c # cs). \<not> used m3 x} - (if False then {a} else {})"
      using \<open>\<not> used m2 a\<close> al alt2 last2 fs3 fun_cong [OF ml(2)] by simp_all
    from release_finish [OF ml(1) this] show ?thesis
      using h3 ml(2) heap_frame_trans [OF heap_frame_trans [OF fr2 ml(3)]] by (auto simp: m' m3_def [symmetric])
  qed
qed

end
