(* ===== verification/RT_Allocator.thy ===== *)
theory RT_Allocator
  imports RT_Heap_Blocks
begin

text \<open>
  The heaps of \<^verbatim>\<open>kernel/src/memheap.c\<close> as an allocator: the blocks in use and the free blocks as lists of addresses and sizes, what
  allocation and release do to them, and the locale of an allocator, whose laws the heap satisfies.
\<close>

section \<open>Abstraction\<close>

text \<open>The heap \<open>h\<close> is in order, \<open>S\<close> are the blocks in use and \<open>F\<close> the free ones, by their addresses for the caller.\<close>

definition holds :: "memory \<Rightarrow> nat \<Rightarrow> (addr \<times> nat) list \<Rightarrow> (addr \<times> nat) list \<Rightarrow> bool" where
  "holds m h S F \<longleftrightarrow> (\<exists>bs fs. heap_rel m h bs fs \<and> S = held (used m) bs \<and> F = gaps (used m) bs)"

text \<open>Blocks in the order of their addresses, with room for the header between two of them.\<close>

abbreviation apart :: "(addr \<times> nat) list \<Rightarrow> bool" where
  "apart S \<equiv> sorted_wrt (\<lambda>(p, n) (q, l). unat p + n + 24 \<le> unat q) S"

lemma layout_held:
  assumes "layout mh bs"
  shows "apart (held u bs)" "\<And>p n. (p, n) \<in> set (held u bs) \<Longrightarrow> unat (mh_start_addr mh) + 24 \<le> unat p
    \<and> unat p + n \<le> unat (mh_start_addr mh + mh_pool_size mh - 24) \<and> 12 \<le> n \<and> unat p mod 4 = unat (mh_start_addr mh) mod 4"
proof -
  have bs: "bs \<noteq> []" "hd bs = mh_start_addr mh" "last bs = mh_start_addr mh + mh_pool_size mh - 24" "unat (last bs) + 24 \<le> 2 ^ 32"
    "\<forall>b\<in>set bs. unat b mod 4 = unat (mh_start_addr mh) mod 4"
    using assms unfolding layout_def by blast+
  note h = held_sorted [OF layout_succ [OF assms] bs(1,4,5), of u]
  show "apart (held u bs)" by (rule conjunct1 [OF h])
  show "unat (mh_start_addr mh) + 24 \<le> unat p \<and> unat p + n \<le> unat (mh_start_addr mh + mh_pool_size mh - 24) \<and> 12 \<le> n
      \<and> unat p mod 4 = unat (mh_start_addr mh) mod 4" if "(p, n) \<in> set (held u bs)" for p n
    using bspec [OF conjunct2 [OF h] that] bs(2,3) by simp
qed

text \<open>The blocks in use lie in the pool, aligned, apart from each other; blocks and headers fill the pool; the counter is the free space.\<close>

lemma holds_facts:
  assumes "holds m h S F"
  shows "apart S" "apart F"
    "\<And>p n. (p, n) \<in> set S \<union> set F \<Longrightarrow> unat (mh_start_addr (heaps m h)) + 24 \<le> unat p
      \<and> unat p + n \<le> unat (mh_start_addr (heaps m h) + mh_pool_size (heaps m h) - 24) \<and> 12 \<le> n \<and> unat p mod 4 = unat (mh_start_addr (heaps m h)) mod 4"
    "room S + room F + 24 * (length S + length F) + unat (mh_start_addr (heaps m h)) = unat (mh_start_addr (heaps m h) + mh_pool_size (heaps m h) - 24)"
    "unat (mh_available_size (heaps m h)) = room F"
proof -
  obtain bs fs where r: "heap_rel m h bs fs" "S = held (used m) bs" "F = gaps (used m) bs" using assms by (auto simp: holds_def)
  then have l: "layout (heaps m h) bs" "unat (mh_available_size (heaps m h)) = free_total (used m) bs" by (simp_all add: heap_rel_def)
  show "apart S" "apart F" unfolding r by (rule layout_held(1) [OF l(1)])+
  show "room S + room F + 24 * (length S + length F) + unat (mh_start_addr (heaps m h)) = unat (mh_start_addr (heaps m h) + mh_pool_size (heaps m h) - 24)"
    unfolding r by (rule layout_fills [OF l(1)])
  show "unat (mh_available_size (heaps m h)) = room F" unfolding l(2) r by (rule free_total_gaps)
  show "unat (mh_start_addr (heaps m h)) + 24 \<le> unat p
      \<and> unat p + n \<le> unat (mh_start_addr (heaps m h) + mh_pool_size (heaps m h) - 24) \<and> 12 \<le> n \<and> unat p mod 4 = unat (mh_start_addr (heaps m h)) mod 4"
    if "(p, n) \<in> set S \<union> set F" for p n
    using that unfolding r by (elim UnE) (erule layout_held(2) [OF l(1)])+
qed

text \<open>The block of an entry.\<close>

lemma held_at:
  assumes "(p, n) \<in> set (held u bs)"
  obtains as b c cs where "bs = as @ b # c # cs" "u b" "p = b + RT_MEMHEAP_SIZE" "n = unat c - unat b - 24"
  using assms
proof (induction u bs arbitrary: thesis rule: held.induct)
  case (1 u a b cs)
  show ?case
  proof (cases "u a \<and> (p, n) = (a + RT_MEMHEAP_SIZE, unat b - unat a - 24)")
    case True
    then show ?thesis using 1(2) [of "[]" a b cs] by simp
  next
    case False
    then have "(p, n) \<in> set (held u (b # cs))" using 1(3) by (auto split: if_splits)
    from 1(1) [OF _ this] obtain as b' c cs' where s: "b # cs = as @ b' # c # cs'" "u b'" "p = b' + RT_MEMHEAP_SIZE" "n = unat c - unat b' - 24" by metis
    show ?thesis by (rule 1(2) [of "a # as" b' c cs']) (use s in simp_all)
  qed
qed auto

lemma held_split_at:
  assumes "S = held u (as @ b # c # cs)" and "u b"
  obtains s1 s2 where "s1 = held u (as @ [b])" "s2 = held u (c # cs)" "S = s1 @ (b + RT_MEMHEAP_SIZE, unat c - unat b - 24) # s2"
  using assms that [OF refl refl] by (simp add: held_split [of _ as b c cs])

text \<open>In a list of disjoint blocks an address occurs once.\<close>

lemma apart_distinct: "apart S \<Longrightarrow> distinct (map fst S)"
  by (induction S) auto

lemma apart_unique:
  assumes "apart (s1 @ (p, n) # s2)" and "s1 @ (p, n) # s2 = t1 @ (p, l) # t2"
  shows "s1 = t1 \<and> n = l \<and> s2 = t2"
  using apart_distinct [OF assms(1)] assms(2)
proof (induction s1 arbitrary: t1)
  case Nil
  then show ?case by (cases t1) auto
next
  case (Cons x s1)
  show ?case
  proof (cases t1)
    case Nil
    then show ?thesis using Cons.prems by auto
  next
    case (Cons y t)
    have "distinct (map fst (s1 @ (p, n) # s2))" using Cons.prems(1) by simp
    moreover have "s1 @ (p, n) # s2 = t @ (p, l) # t2" using Cons.prems(2) Cons by simp
    note this = calculation this
    from Cons.IH [OF this] show ?thesis using Cons.prems(2) Cons by simp
  qed
qed

text \<open>The header of a block in use.\<close>

lemma holdsI: "heap_rel m h bs fs \<Longrightarrow> held (used m) bs = S \<Longrightarrow> holds m h S (gaps (used m) bs)"
  by (auto simp: holds_def)

lemma holds_block:
  assumes hs: "holds m h (s1 @ (p, n) # s2) F"
  obtains as b c cs fs where "heap_rel m h (as @ b # c # cs) fs" "used m b" "p = b + RT_MEMHEAP_SIZE" "n = unat c - unat b - 24"
    "s1 = held (used m) (as @ [b])" "s2 = held (used m) (c # cs)"
proof -
  obtain bs fs where r: "heap_rel m h bs fs" "s1 @ (p, n) # s2 = held (used m) bs" using hs by (auto simp: holds_def)
  have "(p, n) \<in> set (held (used m) bs)" unfolding r(2) [symmetric] by simp
  from held_at [OF this] obtain as b c cs where b: "bs = as @ b # c # cs" "used m b" "p = b + RT_MEMHEAP_SIZE" "n = unat c - unat b - 24" .
  have "s1 @ (p, n) # s2 = held (used m) (as @ [b]) @ (p, n) # held (used m) (c # cs)"
    unfolding r(2) b(1) using b(2-) by (simp add: held_split [of _ as b c cs])
  from apart_unique [OF holds_facts(1) [OF hs] this] show ?thesis using that r(1) b by simp
qed

section \<open>Allocation\<close>

text \<open>Whether the rest of a block of \<open>l\<close> bytes is big enough for a block of its own.\<close>

abbreviation splits :: "rt_uint32_t \<Rightarrow> nat \<Rightarrow> bool" where
  "splits sz l \<equiv> unat sz + 36 \<le> l"

lemma memheap_take_holds:
  assumes r: "heap_rel m h bs fs" and b: "b \<in> set fs" and fit: "sz \<le> MEMITEM_SIZE b m" and sz: "12 \<le> unat sz" "4 dvd unat sz"
  defines "m' \<equiv> memheap_take h b (MEMITEM_SIZE b m) sz m" and "l \<equiv> unat (MEMITEM_SIZE b m)" and "p \<equiv> b + RT_MEMHEAP_SIZE"
  shows "\<exists>s1 s2 f1 f2. held (used m) bs = s1 @ s2 \<and> gaps (used m) bs = f1 @ (p, l) # f2 \<and> heap_frame h m m'
    \<and> holds m' h (s1 @ (p, if splits sz l then unat sz else l) # s2)
        (f1 @ (if splits sz l then [(p + sz + RT_MEMHEAP_SIZE, l - unat sz - 24)] else []) @ f2)"
proof -
  have nb: "\<not> used m b" "b \<in> set bs" using r b by (auto simp: heap_rel_def)
  then have "b \<noteq> last bs" using r by (auto simp: heap_rel_def)
  from block_split [OF r nb(2) this] obtain as c cs where c: "bs = as @ b # c # cs" "nxt m b = c" "l = unat c - unat b - 24"
    unfolding l_def by blast
  obtain f1 f2 where f: "fs = f1 @ b # f2" using b by (auto simp: in_set_conv_decomp)
  note r' = r [unfolded c(1) f]
  have lay: "layout (heaps m h) (as @ b # c # cs)" using r' by (simp add: heap_rel_def)
  note d = layout_distinct [OF lay] and gap = layout_gap [OF lay]
  note w = use_whole [where u = "used m", OF d nb(1)]
  have "unat sz \<le> l" using fit by (simp add: l_def word_le_nat_alt)
  then have "unat sz + 36 < 2 ^ 32" using c(3) gap(1,2) by linarith
  then have "unat (sz + RT_MEMHEAP_SIZE + RT_MEMHEAP_MINIALLOC) = unat sz + 36" by (simp add: unat_word_ariths rt_consts)
  then have sp: "(sz + RT_MEMHEAP_SIZE + RT_MEMHEAP_MINIALLOC \<le> MEMITEM_SIZE b m) = splits sz l" by (simp only: word_le_nat_alt l_def)
  show ?thesis
  proof (cases "splits sz l")
    case True
    define n where "n = b + sz + RT_MEMHEAP_SIZE"
    note t = memheap_take_split [OF r' refl _ fit sz, folded m'_def n_def, unfolded sp, OF True]
    have g: "unat b + 24 \<le> unat n" "unat n + 24 \<le> unat c" using t(4) True c(3) gap(1) sz by linarith+
    note s = use_split [where u = "used m", OF d t(5) nb(1) g, folded t(3)]
    have "unat n - unat b - 24 = unat sz" "unat c - unat n - 24 = l - unat sz - 24" using t(4) c(3) by simp_all
    moreover have "n + RT_MEMHEAP_SIZE = p + sz + RT_MEMHEAP_SIZE" by (simp add: n_def p_def)
    ultimately have "holds m' h (held (used m) (as @ [b]) @ (p, unat sz) # held (used m) (c # cs))
        (gaps (used m) (as @ [b]) @ (p + sz + RT_MEMHEAP_SIZE, l - unat sz - 24) # gaps (used m) (c # cs))"
      using t(1) s(3,4) unfolding holds_def p_def by metis
    then show ?thesis using True t(2) w(3,4) c(3)
      by (intro exI [of _ "held (used m) (as @ [b])"] exI [of _ "held (used m) (c # cs)"] exI [of _ "gaps (used m) (as @ [b])"]
          exI [of _ "gaps (used m) (c # cs)"]) (simp add: c(1) p_def)
  next
    case False
    note t = memheap_take_whole [OF r' refl, of sz, folded m'_def, unfolded sp, OF False]
    have "holds m' h (held (used m) (as @ [b]) @ (p, l) # held (used m) (c # cs)) (gaps (used m) (as @ [b]) @ gaps (used m) (c # cs))"
      using t(1) w(2,5) [folded t(3)] c(3) unfolding holds_def p_def by metis
    then show ?thesis using False t(2) w(3,4) c(3)
      by (intro exI [of _ "held (used m) (as @ [b])"] exI [of _ "held (used m) (c # cs)"] exI [of _ "gaps (used m) (as @ [b])"]
          exI [of _ "gaps (used m) (c # cs)"]) (simp add: c(1) p_def)
  qed
qed

text \<open>The lock is taken and released around the work; with nobody in the heap the kernel is as before.\<close>

definition heap_ready :: "nat \<Rightarrow> memory \<Rightarrow> kernel \<Rightarrow> bool" where
  "heap_ready h m k \<longleftrightarrow> rt_object_get_type (Obj h) k = RT_Object_Class_MemHeap \<and> sem_inv (mh_lock (heaps m h)) k \<and> sem_avail (mh_lock (heaps m h)) k"

lemma heap_lock:
  assumes "heap_ready h m k"
  obtains k1 where "rt_sem_take (mh_lock (heaps m h)) (of_int RT_WAITING_FOREVER) k = Some (Finished RT_EOK, k1)"
    "rt_sem_release (mh_lock (heaps m h)) k1 = Some (RT_EOK, k)"
proof -
  define s where "s = mh_lock (heaps m h)"
  have i: "sem_inv s k" "sem_avail s k" using assms by (simp_all add: heap_ready_def s_def)
  define k1 where "k1 = upd_sem s (\<lambda>sm. sm\<lparr>sem_value := sem_value sm - 1\<rparr>) k"
  have "on_tlist k (Sem_wait s) = []" using i by (auto simp: sem_inv_def parked_def)
  then have "on_tlist k1 (Sem_wait s) = []" "rt_object_get_type (Obj s) k1 = RT_Object_Class_Semaphore"
    using i(1) by (simp_all add: k1_def upd_sem_def on_tlist_def sem_inv_def rt_object_get_type_def)
  then have "rt_sem_release s k1 = Some (RT_EOK, k)" by (simp add: rt_sem_release_def k1_def upd_sem_def)
  then show ?thesis using that [of k1] sem_take_no_wait(1) [OF i] by (simp add: s_def k1_def)
qed

text \<open>The entries of the free blocks are the elements of the free list.\<close>

lemma block_entry:
  assumes r: "heap_rel m h bs fs" and "(p, n) \<in> set (held u bs)"
  obtains b where "b \<in> set bs" "b \<noteq> last bs" "u b" "p = b + RT_MEMHEAP_SIZE" "n = unat (MEMITEM_SIZE b m)"
proof -
  obtain as b c cs where b: "bs = as @ b # c # cs" "u b" "p = b + RT_MEMHEAP_SIZE" "n = unat c - unat b - 24" by (rule held_at [OF assms(2)])
  have pre: "heap_pre m h (as @ b # c # cs) fs" using r b(1) by (simp add: heap_rel_pre)
  have "b \<noteq> last bs" using heap_pre_next(4) [OF pre] b(1) by (cases cs rule: rev_cases) auto
  then show ?thesis using that [of b] b heap_pre_next(3) [OF pre] by simp
qed

lemma gap_entries:
  assumes r: "heap_rel m h bs fs"
  shows "set (gaps (used m) bs) = (\<lambda>b. (b + RT_MEMHEAP_SIZE, unat (MEMITEM_SIZE b m))) ` set fs"
proof (intro equalityI subsetI)
  have fs: "set fs = {b \<in> set bs. \<not> used m b}" "used m (last bs)" using r by (simp_all add: heap_rel_def)
  fix x
  show "x \<in> (\<lambda>b. (b + RT_MEMHEAP_SIZE, unat (MEMITEM_SIZE b m))) ` set fs" if x: "x \<in> set (gaps (used m) bs)"
  proof (cases x)
    case (Pair p n)
    from block_entry [OF r x [unfolded Pair]] obtain b where "b \<in> set bs" "\<not> used m b" "p = b + RT_MEMHEAP_SIZE" "n = unat (MEMITEM_SIZE b m)" .
    then show ?thesis using Pair fs(1) by auto
  qed
  show "x \<in> set (gaps (used m) bs)" if x: "x \<in> (\<lambda>b. (b + RT_MEMHEAP_SIZE, unat (MEMITEM_SIZE b m))) ` set fs"
  proof -
    obtain b where b: "b \<in> set bs" "\<not> used m b" "x = (b + RT_MEMHEAP_SIZE, unat (MEMITEM_SIZE b m))" using x fs(1) by auto
    then have "b \<noteq> last bs" using fs(2) by auto
    from block_split [OF r b(1) this] obtain as c cs where c: "bs = as @ b # c # cs" "unat (MEMITEM_SIZE b m) = unat c - unat b - 24" by metis
    then show ?thesis using b by (simp add: held_split [of _ as b c cs])
  qed
qed

text \<open>What is found on the free list: a block that is big enough, if there is one.\<close>

lemma memheap_alloc_locked_holds:
  assumes hs: "holds m h S F" and sz: "12 \<le> unat sz" "4 dvd unat sz"
  shows "(\<exists>(q, l)\<in>set F. unat sz \<le> l) \<Longrightarrow> \<exists>p l s1 s2 f1 f2 m'. p \<noteq> 0 \<and> S = s1 @ s2 \<and> F = f1 @ (p, l) # f2 \<and> unat sz \<le> l \<and> heap_frame h m m'
      \<and> holds m' h (s1 @ (p, if splits sz l then unat sz else l) # s2)
          (f1 @ (if splits sz l then [(p + sz + RT_MEMHEAP_SIZE, l - unat sz - 24)] else []) @ f2)
      \<and> (\<forall>k. memheap_alloc_locked h sz m k = map_option (\<lambda>(_, k). (p, m', k)) (rt_sem_release (mh_lock (heaps m h)) k))"
    "\<not> (\<exists>(q, l)\<in>set F. unat sz \<le> l) \<Longrightarrow> memheap_alloc_locked h sz m k = map_option (\<lambda>(_, k). (0, m, k)) (rt_sem_release (mh_lock (heaps m h)) k)"
proof -
  obtain bs fs where r: "heap_rel m h bs fs" "S = held (used m) bs" "F = gaps (used m) bs" using hs by (auto simp: holds_def)
  define fl where "fl = mh_free_list (heaps m h)"
  have ring: "ring (nfr m) (pfr m) (fl # fs)" using r(1) by (simp add: heap_rel_def blocks_linked_def fl_def)
  then have ch: "chain (nfr m) (pfr m) (fs @ [fl])" "fl \<notin> set fs" "nfr m fl = hd (fs @ [fl])" by (cases fs; simp add: ring_def)+
  have "0 < sz" using sz(1) by (simp add: word_less_nat_alt)
  from memheap_search_ok [OF this ch(1,2)] obtain y where y: "y < sz" "memheap_search m fl sz (it_next_free (items m fl)) 0
    = Some (case find (\<lambda>b. sz \<le> MEMITEM_SIZE b m) fs of Some b \<Rightarrow> (b, MEMITEM_SIZE b m) | None \<Rightarrow> (fl, y))"
    using ch(3) by (auto simp: nfr_def)
  have ex: "(\<exists>(q, l)\<in>set F. unat sz \<le> l) \<longleftrightarrow> find (\<lambda>b. sz \<le> MEMITEM_SIZE b m) fs \<noteq> None"
    unfolding r(3) gap_entries [OF r(1)] by (auto simp: find_None_iff word_le_nat_alt)
  show "\<exists>p l s1 s2 f1 f2 m'. p \<noteq> 0 \<and> S = s1 @ s2 \<and> F = f1 @ (p, l) # f2 \<and> unat sz \<le> l \<and> heap_frame h m m'
      \<and> holds m' h (s1 @ (p, if splits sz l then unat sz else l) # s2)
          (f1 @ (if splits sz l then [(p + sz + RT_MEMHEAP_SIZE, l - unat sz - 24)] else []) @ f2)
      \<and> (\<forall>k. memheap_alloc_locked h sz m k = map_option (\<lambda>(_, k). (p, m', k)) (rt_sem_release (mh_lock (heaps m h)) k))"
    if big: "\<exists>(q, l)\<in>set F. unat sz \<le> l"
  proof -
    obtain b where b: "find (\<lambda>b. sz \<le> MEMITEM_SIZE b m) fs = Some b" using big ex by auto
    then have fit: "b \<in> set fs" "sz \<le> MEMITEM_SIZE b m" by (auto simp: find_Some_iff)
    from memheap_take_holds [OF r(1) fit sz] obtain s1 s2 f1 f2 where t: "S = s1 @ s2" "F = f1 @ (b + RT_MEMHEAP_SIZE, unat (MEMITEM_SIZE b m)) # f2"
      "heap_frame h m (memheap_take h b (MEMITEM_SIZE b m) sz m)"
      "holds (memheap_take h b (MEMITEM_SIZE b m) sz m) h (s1 @ (b + RT_MEMHEAP_SIZE, if splits sz (unat (MEMITEM_SIZE b m)) then unat sz else unat (MEMITEM_SIZE b m)) # s2)
        (f1 @ (if splits sz (unat (MEMITEM_SIZE b m)) then [(b + RT_MEMHEAP_SIZE + sz + RT_MEMHEAP_SIZE, unat (MEMITEM_SIZE b m) - unat sz - 24)] else []) @ f2)"
      unfolding r(2,3) by blast
    have "unat (b + RT_MEMHEAP_SIZE) \<ge> 24" using holds_facts(3) [OF hs, of "b + RT_MEMHEAP_SIZE" "unat (MEMITEM_SIZE b m)"] t(2) by simp
    then have "b + RT_MEMHEAP_SIZE \<noteq> 0" by auto
    moreover have "memheap_alloc_locked h sz m k = map_option (\<lambda>(_, k). (b + RT_MEMHEAP_SIZE, memheap_take h b (MEMITEM_SIZE b m) sz m, k)) (rt_sem_release (mh_lock (heaps m h)) k)" for k
      using y(2) b fit(2) t(3) by (cases "rt_sem_release (mh_lock (heaps m h)) k") (auto simp: memheap_alloc_locked_def fl_def Let_def heap_frame_def)
    ultimately show ?thesis using t fit(2) unfolding word_le_nat_alt by blast
  qed
  show "memheap_alloc_locked h sz m k = map_option (\<lambda>(_, k). (0, m, k)) (rt_sem_release (mh_lock (heaps m h)) k)" if "\<not> (\<exists>(q, l)\<in>set F. unat sz \<le> l)"
    using that y ex by (cases "rt_sem_release (mh_lock (heaps m h)) k") (auto simp: memheap_alloc_locked_def fl_def Let_def not_le [symmetric])
qed

section \<open>Release\<close>

lemma MEMITEM_header [simp]: "MEMITEM (b + RT_MEMHEAP_SIZE) = b"
  by (simp add: MEMITEM_def)

lemma header_magic:
  assumes "heap_rel m h bs fs" and "b \<in> set bs"
  shows "it_magic (items m b) AND RT_MEMHEAP_MASK = RT_MEMHEAP_MAGIC" "it_pool_ptr (items m b) = Some h"
proof -
  have "(mag m b = RT_MEMHEAP_MAGIC OR RT_MEMHEAP_FREED \<or> mag m b = RT_MEMHEAP_MAGIC OR RT_MEMHEAP_USED) \<and> pool m b = Some h"
    using assms unfolding heap_rel_def blocks_linked_def by blast
  then show "it_magic (items m b) AND RT_MEMHEAP_MASK = RT_MEMHEAP_MAGIC" "it_pool_ptr (items m b) = Some h"
    by (auto simp: mag_def pool_def)
qed

lemma memheap_free_holds:
  assumes hs: "holds m h (s1 @ (p, n) # s2) F" and ty: "rt_object_get_type (Obj h) k = RT_Object_Class_MemHeap"
  defines "m' \<equiv> memheap_release h (MEMITEM p) m"
  shows "p \<noteq> 0" "memheap_free_check p m k = Some h" "heap_frame h m m'" "\<exists>F'. holds m' h (s1 @ s2) F'"
proof -
  obtain as b c cs fs where b: "heap_rel m h (as @ b # c # cs) fs" "used m b" "p = b + RT_MEMHEAP_SIZE"
    and s: "s1 = held (used m) (as @ [b])" "s2 = held (used m) (c # cs)" by (rule holds_block [OF hs])
  have "24 \<le> unat p" using holds_facts(3) [OF hs, of p n] by simp
  then show "p \<noteq> 0" by auto
  have nx: "it_next (items m b) = c" using heap_pre_next(1) [of m h as b c cs fs] b(1) by (simp add: heap_rel_pre)
  show "memheap_free_check p m k = Some h"
    using header_magic [OF b(1), of b] header_magic [OF b(1), of c] b(2,3) ty nx
    by (simp add: memheap_free_check_def Let_def RT_ASSERT_def RT_MEMHEAP_IS_USED_def)
  from memheap_release_ok [OF b(1,2)] obtain bs' fs' where "heap_rel m' h bs' fs'" "heap_frame h m m'" "held (used m') bs' = s1 @ s2"
    unfolding m'_def b(3) MEMITEM_header s by blast
  then show "heap_frame h m m'" "\<exists>F'. holds m' h (s1 @ s2) F'" using holdsI by blast+
qed

text \<open>A free block is not accepted.\<close>

lemma memheap_free_twice:
  assumes "holds m h S F" and "(p, n) \<in> set F"
  shows "memheap_free_check p m k = None"
proof -
  obtain bs fs where r: "heap_rel m h bs fs" "F = gaps (used m) bs" using assms(1) by (auto simp: holds_def)
  from held_at [OF assms(2) [unfolded r(2)]] obtain b where "\<not> used m b" "p = b + RT_MEMHEAP_SIZE" by metis
  then show ?thesis by (simp add: memheap_free_check_def Let_def RT_ASSERT_def RT_MEMHEAP_IS_USED_def)
qed

section \<open>The free space is determined\<close>

text \<open>Since free neighbours are merged, the blocks in use determine where the free blocks are: one between each two of them that
  do not follow one another, from \<open>x\<close> to \<open>e\<close>.\<close>

fun free_of :: "nat \<Rightarrow> nat \<Rightarrow> (addr \<times> nat) list \<Rightarrow> (addr \<times> nat) list" where
  "free_of x e [] = (if x < e then [(of_nat x + RT_MEMHEAP_SIZE, e - x - 24)] else [])"
| "free_of x e ((p, n) # S) = (if x + 24 < unat p then [(of_nat x + RT_MEMHEAP_SIZE, unat p - x - 48)] else []) @ free_of (unat p + n) e S"

lemma gaps_free_of:
  assumes "sorted_wrt (\<lambda>a b. unat a + 36 \<le> unat b) bs" "bs \<noteq> []" "alternate u bs" "u (last bs)"
  shows "gaps u bs = free_of (unat (hd bs)) (unat (last bs)) (held u bs)"
  using assms
proof (induction u bs rule: held.induct)
  case (1 u a b cs)
  have ab: "unat a + 36 \<le> unat b" using 1(2) by simp
  have h: "unat (x + RT_MEMHEAP_SIZE) = unat x + 24" if "unat x + 36 \<le> unat y" for x y :: addr
    using that unsigned_less [of y, where 'a = nat] by (simp add: rt_consts unat_word_ariths)
  have "sorted_wrt (\<lambda>a b. unat a + 36 \<le> unat b) (b # cs)" "b # cs \<noteq> []" "alternate u (b # cs)" "u (last (b # cs))" using 1(2-5) by simp_all
  note IH = 1(1) [OF this]
  show ?case
  proof (cases "u a")
    case True
    then show ?thesis using IH h [OF ab] ab by simp
  next
    case False
    then have ub: "u b" using 1(4) by simp
    show ?thesis
    proof (cases cs)
      case Nil
      then show ?thesis using False ab by simp
    next
      case (Cons c ds)
      have "unat b + 36 \<le> unat c" using 1(2) Cons by simp
      then show ?thesis using IH False ub h [OF ab] h [of b c] ab Cons by simp
    qed
  qed
qed auto

text \<open>Without a block there is at most one gap more.\<close>

lemma free_of_start: "length (free_of x e S) \<le> Suc (length (free_of y e S))"
  by (cases S) auto

lemma free_of_drop: "length (free_of x e (s1 @ s2)) \<le> Suc (length (free_of x e (s1 @ (p, n) # s2)))"
proof (induction s1 arbitrary: x)
  case Nil
  show ?case using free_of_start [of x e s2 "unat p + n"] by simp
qed auto

lemma holds_free:
  assumes "holds m h S F"
  shows "F = free_of (unat (mh_start_addr (heaps m h))) (unat (mh_start_addr (heaps m h) + mh_pool_size (heaps m h) - 24)) S"
proof -
  obtain bs fs where r: "heap_rel m h bs fs" "S = held (used m) bs" "F = gaps (used m) bs" using assms by (auto simp: holds_def)
  then have lay: "layout (heaps m h) bs" "alternate (used m) bs" "used m (last bs)" by (simp_all add: heap_rel_def)
  have bs: "bs \<noteq> []" "hd bs = mh_start_addr (heaps m h)" "last bs = mh_start_addr (heaps m h) + mh_pool_size (heaps m h) - 24"
    using lay(1) unfolding layout_def by blast+
  show ?thesis using gaps_free_of [OF layout_succ [OF lay(1)] bs(1) lay(2,3)] unfolding r(2,3) bs(2,3) .
qed

section \<open>The services\<close>

lemma memheap_round_facts:
  "12 \<le> unat (memheap_round sz)" "4 dvd unat (memheap_round sz)" "unat sz \<le> 0xfffffffc \<Longrightarrow> unat sz \<le> unat (memheap_round sz)"
  "0xfffffffc < unat sz \<Longrightarrow> memheap_round sz = 12"
proof -
  show "12 \<le> unat (memheap_round sz)" by (auto simp: memheap_round_def Let_def RT_MEMHEAP_MINIALLOC_def not_less word_le_nat_alt)
  show "4 dvd unat (memheap_round sz)" using align_dvd [of sz] by (simp add: memheap_round_def Let_def RT_MEMHEAP_MINIALLOC_def)
  show "unat sz \<le> unat (memheap_round sz)" if "unat sz \<le> 0xfffffffc"
    using align_up [OF that] by (auto simp: memheap_round_def Let_def RT_MEMHEAP_MINIALLOC_def word_less_nat_alt)
  show "memheap_round sz = 12" if "0xfffffffc < unat sz"
  proof -
    have "unat sz < 2 ^ 32" using unsigned_less [of sz, where 'a = nat] by simp
    then have "unat (sz + 3) < 3" using that by (simp add: unat_word_ariths mod_if) linarith
    then have "unat (RT_ALIGN sz) < 3" unfolding RT_ALIGN_def align_4 by linarith
    then show ?thesis by (simp add: memheap_round_def Let_def RT_MEMHEAP_MINIALLOC_def word_less_nat_alt)
  qed
qed

lemma heap_alloc_eq:
  assumes "heap_ready h m k"
  shows "\<exists>k1. rt_sem_release (mh_lock (heaps m h)) k1 = Some (RT_EOK, k)
    \<and> rt_memheap_alloc h sz m k = (if memheap_round sz < mh_available_size (heaps m h)
      then map_option (\<lambda>(p, m, k). (Finished p, m, k)) (memheap_alloc_locked h (memheap_round sz) m k1) else Some (Finished 0, m, k))"
proof -
  obtain k1 where k1: "rt_sem_take (mh_lock (heaps m h)) (of_int RT_WAITING_FOREVER) k = Some (Finished RT_EOK, k1)"
    "rt_sem_release (mh_lock (heaps m h)) k1 = Some (RT_EOK, k)" by (rule heap_lock [OF assms])
  then show ?thesis
    using assms by (cases "memheap_alloc_locked h (memheap_round sz) m k1") (auto simp: rt_memheap_alloc_def heap_ready_def Let_def)
qed

lemma heap_alloc_gets:
  assumes hs: "holds m h S F" and rd: "heap_ready h m k" and n: "n = memheap_round sz"
    and big: "n < mh_available_size (heaps m h)" "\<exists>(q, l)\<in>set F. unat n \<le> l"
  obtains p l s1 s2 f1 f2 m' where "rt_memheap_alloc h sz m k = Some (Finished p, m', k)" "p \<noteq> 0" "heap_frame h m m'"
    "S = s1 @ s2" "F = f1 @ (p, l) # f2" "unat n \<le> l"
    "holds m' h (s1 @ (p, if splits n l then unat n else l) # s2)
       (f1 @ (if splits n l then [(p + n + RT_MEMHEAP_SIZE, l - unat n - 24)] else []) @ f2)"
proof -
  obtain k1 where k1: "rt_sem_release (mh_lock (heaps m h)) k1 = Some (RT_EOK, k)"
    and a: "rt_memheap_alloc h sz m k = map_option (\<lambda>(p, m, k). (Finished p, m, k)) (memheap_alloc_locked h n m k1)"
    using heap_alloc_eq [OF rd, of sz] big(1) unfolding n by auto
  from memheap_alloc_locked_holds(1) [OF hs memheap_round_facts(1,2) [of sz, folded n] big(2)]
  obtain p l s1 s2 f1 f2 m' where t: "p \<noteq> 0" "S = s1 @ s2" "F = f1 @ (p, l) # f2" "unat n \<le> l" "heap_frame h m m'"
    "holds m' h (s1 @ (p, if splits n l then unat n else l) # s2) (f1 @ (if splits n l then [(p + n + RT_MEMHEAP_SIZE, l - unat n - 24)] else []) @ f2)"
    "\<forall>k. memheap_alloc_locked h n m k = map_option (\<lambda>(_, k). (p, m', k)) (rt_sem_release (mh_lock (heaps m h)) k)"
    by (elim exE conjE) (erule (6) that)
  have "rt_memheap_alloc h sz m k = Some (Finished p, m', k)" using a t(7) k1 by simp
  then show ?thesis using that t(1-6) by blast
qed

lemma heap_alloc_null:
  assumes hs: "holds m h S F" and rd: "heap_ready h m k" and n: "n = memheap_round sz"
    and small: "\<not> (n < mh_available_size (heaps m h) \<and> (\<exists>(q, l)\<in>set F. unat n \<le> l))"
  shows "rt_memheap_alloc h sz m k = Some (Finished 0, m, k)"
proof -
  obtain k1 where k1: "rt_sem_release (mh_lock (heaps m h)) k1 = Some (RT_EOK, k)"
    and a: "rt_memheap_alloc h sz m k = (if n < mh_available_size (heaps m h)
      then map_option (\<lambda>(p, m, k). (Finished p, m, k)) (memheap_alloc_locked h n m k1) else Some (Finished 0, m, k))"
    using heap_alloc_eq [OF rd, of sz] unfolding n by blast
  show ?thesis
  proof (cases "n < mh_available_size (heaps m h)")
    case True
    then show ?thesis using small a k1 memheap_alloc_locked_holds(2) [OF hs memheap_round_facts(1,2) [of sz, folded n], of k1] by simp
  qed (simp add: a)
qed

text \<open>C28: \<^verbatim>\<open>rt_memheap_alloc\<close> with the lock free.  If the rounded size is below the free space and a free block is long enough, such a block
  is returned and becomes a block in use; what is left over of it is cut off as a new free block when a header and twelve bytes fit in, and
  otherwise stays part of it.  All other blocks, the contents of the memory and the kernel are unchanged, and the blocks in use lie in the pool,
  aligned and apart from each other.  If there is no such block the result is \<^verbatim>\<open>RT_NULL\<close> and nothing changes.\<close>

theorem memheap_alloc_correct:
  assumes "holds m h S F" and "heap_ready h m k" and "n = memheap_round sz"
  shows "if n < mh_available_size (heaps m h) \<and> (\<exists>(q, l)\<in>set F. unat n \<le> l)
    then \<exists>p l s1 s2 f1 f2 m'. rt_memheap_alloc h sz m k = Some (Finished p, m', k) \<and> p \<noteq> 0 \<and> heap_frame h m m'
      \<and> S = s1 @ s2 \<and> F = f1 @ (p, l) # f2 \<and> unat n \<le> l
      \<and> holds m' h (s1 @ (p, if splits n l then unat n else l) # s2)
          (f1 @ (if splits n l then [(p + n + RT_MEMHEAP_SIZE, l - unat n - 24)] else []) @ f2)
      \<and> apart (s1 @ (p, if splits n l then unat n else l) # s2)
      \<and> unat (mh_start_addr (heaps m h)) + 24 \<le> unat p \<and> unat p + l \<le> unat (mh_start_addr (heaps m h) + mh_pool_size (heaps m h) - 24)
      \<and> unat p mod 4 = unat (mh_start_addr (heaps m h)) mod 4
    else rt_memheap_alloc h sz m k = Some (Finished 0, m, k)"
proof (cases "n < mh_available_size (heaps m h) \<and> (\<exists>(q, l)\<in>set F. unat n \<le> l)")
  case True
  from heap_alloc_gets [OF assms conjunct1 [OF True] conjunct2 [OF True]] obtain p l s1 s2 f1 f2 m' where t:
    "rt_memheap_alloc h sz m k = Some (Finished p, m', k)" "p \<noteq> 0" "heap_frame h m m'" "S = s1 @ s2" "F = f1 @ (p, l) # f2" "unat n \<le> l"
    "holds m' h (s1 @ (p, if splits n l then unat n else l) # s2) (f1 @ (if splits n l then [(p + n + RT_MEMHEAP_SIZE, l - unat n - 24)] else []) @ f2)" .
  have in_pool: "unat (mh_start_addr (heaps m h)) + 24 \<le> unat p \<and> unat p + l \<le> unat (mh_start_addr (heaps m h) + mh_pool_size (heaps m h) - 24)
      \<and> unat p mod 4 = unat (mh_start_addr (heaps m h)) mod 4"
    using holds_facts(3) [OF assms(1), of p l] t(5) by simp
  show ?thesis unfolding if_P [OF True] using t holds_facts(1) [OF t(7)] in_pool by blast
next
  case False
  show ?thesis unfolding if_not_P [OF False] by (rule heap_alloc_null [OF assms False])
qed

lemma heap_free_gives:
  assumes "holds m h (s1 @ (p, n) # s2) F" and "heap_ready h m k"
  obtains m' F' where "rt_memheap_free p m k = Some (Finished (), m', k)" "heap_frame h m m'" "holds m' h (s1 @ s2) F'"
    "F' = free_of (unat (mh_start_addr (heaps m h))) (unat (mh_start_addr (heaps m h) + mh_pool_size (heaps m h) - 24)) (s1 @ s2)"
proof -
  have ty: "rt_object_get_type (Obj h) k = RT_Object_Class_MemHeap" using assms(2) by (simp add: heap_ready_def)
  note f = memheap_free_holds [OF assms(1) ty]
  define m' where "m' = memheap_release h (MEMITEM p) m"
  obtain F' where F': "holds m' h (s1 @ s2) F'" using f(4) unfolding m'_def by blast
  have fr: "heap_frame h m m'" unfolding m'_def by (rule f(3))
  then have c: "mh_start_addr (heaps m' h) = mh_start_addr (heaps m h)" "mh_pool_size (heaps m' h) = mh_pool_size (heaps m h)" "mh_lock (heaps m' h) = mh_lock (heaps m h)"
    by (simp_all add: heap_frame_def)
  obtain k1 where k1: "rt_sem_take (mh_lock (heaps m h)) (of_int RT_WAITING_FOREVER) k = Some (Finished RT_EOK, k1)"
    "rt_sem_release (mh_lock (heaps m h)) k1 = Some (RT_EOK, k)" by (rule heap_lock [OF assms(2)])
  have "rt_memheap_free p m k = Some (Finished (), m', k)"
    using f(1,2) k1 c(3) by (simp add: rt_memheap_free_def memheap_free_locked_def m'_def Let_def)
  then show ?thesis using that fr F' holds_free [OF F'] unfolding c by blast
qed

text \<open>C29: \<^verbatim>\<open>rt_memheap_free\<close> with the lock free.  The block is out of use and nothing else changes for the others; it is merged with the
  free blocks to its left and right, so the free blocks are again exactly the gaps between the blocks in use, and the counter is their
  sum.  A pointer to a free block stops in an assertion, and \<^verbatim>\<open>RT_NULL\<close> is ignored.\<close>

theorem memheap_free_correct:
  assumes "holds m h (s1 @ (p, n) # s2) F" and "heap_ready h m k"
  shows "(\<exists>m' F'. rt_memheap_free p m k = Some (Finished (), m', k) \<and> heap_frame h m m' \<and> holds m' h (s1 @ s2) F'
      \<and> F' = free_of (unat (mh_start_addr (heaps m h))) (unat (mh_start_addr (heaps m h) + mh_pool_size (heaps m h) - 24)) (s1 @ s2)
      \<and> unat (mh_available_size (heaps m' h)) = room F' \<and> room F + n \<le> room F')
    \<and> (\<forall>(q, l)\<in>set F. q \<noteq> 0 \<and> rt_memheap_free q m k = None) \<and> rt_memheap_free 0 m k = Some (Finished (), m, k)"
proof (intro conjI ballI)
  from heap_free_gives [OF assms] obtain m' F' where f: "rt_memheap_free p m k = Some (Finished (), m', k)" "heap_frame h m m'" "holds m' h (s1 @ s2) F'"
    "F' = free_of (unat (mh_start_addr (heaps m h))) (unat (mh_start_addr (heaps m h) + mh_pool_size (heaps m h) - 24)) (s1 @ s2)" .
  have "length F' \<le> Suc (length F)" unfolding holds_free [OF assms(1)] f(4) by (rule free_of_drop)
  then have "room F + n \<le> room F'" using holds_facts(4) [OF assms(1)] holds_facts(4) [OF f(3)] f(2) by (simp add: heap_frame_def)
  then show "\<exists>m' F'. rt_memheap_free p m k = Some (Finished (), m', k) \<and> heap_frame h m m' \<and> holds m' h (s1 @ s2) F'
      \<and> F' = free_of (unat (mh_start_addr (heaps m h))) (unat (mh_start_addr (heaps m h) + mh_pool_size (heaps m h) - 24)) (s1 @ s2)
      \<and> unat (mh_available_size (heaps m' h)) = room F' \<and> room F + n \<le> room F'"
    using f holds_facts(5) [OF f(3)] by blast
  show "case x of (q, l) \<Rightarrow> q \<noteq> 0 \<and> rt_memheap_free q m k = None" if "x \<in> set F" for x
  proof (cases x)
    case (Pair q l)
    then have "24 \<le> unat q" "memheap_free_check q m k = None"
      using that holds_facts(3) [OF assms(1), of q l] memheap_free_twice [OF assms(1), of q l] by auto
    moreover from this(1) have "q \<noteq> 0" by auto
    ultimately show ?thesis using Pair by (simp add: rt_memheap_free_def)
  qed
  show "rt_memheap_free 0 m k = Some (Finished (), m, k)" by (simp add: rt_memheap_free_def)
qed

text \<open>Allocation and release are inverse: giving back what \<^verbatim>\<open>rt_memheap_alloc\<close> returned restores the blocks in use and the free
  blocks as they were, whether the block had been split or not.\<close>

theorem memheap_alloc_free_roundtrip:
  assumes "holds m h S F" and "heap_ready h m k" and "rt_memheap_alloc h sz m k = Some (Finished p, m', k')" and "p \<noteq> 0"
  shows "k' = k \<and> (\<exists>m''. rt_memheap_free p m' k' = Some (Finished (), m'', k) \<and> holds m'' h S F \<and> bytes m'' = bytes m)"
proof -
  let ?n = "memheap_round sz"
  have big: "?n < mh_available_size (heaps m h) \<and> (\<exists>(q, l)\<in>set F. unat ?n \<le> l)" using heap_alloc_null [OF assms(1,2) refl, of sz] assms(3,4) by auto
  obtain l s1 s2 F' where a: "k' = k" "S = s1 @ s2" "heap_frame h m m'" "holds m' h (s1 @ (p, l) # s2) F'"
    by (rule heap_alloc_gets [OF assms(1,2) refl conjunct1 [OF big] conjunct2 [OF big]]) (use assms(3) in simp)
  have "heap_ready h m' k" using assms(2) a(3) by (simp add: heap_ready_def heap_frame_def)
  from heap_free_gives [OF a(4) this] obtain m'' F'' where f: "rt_memheap_free p m' k = Some (Finished (), m'', k)" "heap_frame h m' m''" "holds m'' h (s1 @ s2) F''" .
  have fr: "heap_frame h m m''" by (rule heap_frame_trans [OF a(3) f(2)])
  have "F'' = F" using holds_free [OF f(3)] holds_free [OF assms(1)] fr a(2) by (simp add: heap_frame_def)
  then show ?thesis using f a fr by (auto simp: heap_frame_def)
qed

text \<open>The size is rounded up without a check for overflow.  A request for one of the last three sizes of the address space is treated like one for
  twelve bytes, so if that many are free the caller gets a block of less than 48 bytes instead of \<^verbatim>\<open>RT_NULL\<close>.\<close>

theorem memheap_alloc_overflow:
  assumes "holds m h S F" and "heap_ready h m k" and "0xfffffffc < unat sz" and "12 < mh_available_size (heaps m h)"
  shows "\<exists>p l m' s1 s2 F'. rt_memheap_alloc h sz m k = Some (Finished p, m', k) \<and> p \<noteq> 0 \<and> holds m' h (s1 @ (p, l) # s2) F' \<and> l < 48"
proof -
  have n: "12 = memheap_round sz" using memheap_round_facts(4) [OF assms(3)] by simp
  have "0 < room F" using holds_facts(5) [OF assms(1)] assms(4) by (simp add: word_less_nat_alt)
  then obtain q l where "(q, l) \<in> set F" by (cases F) auto
  then have "(q, l) \<in> set F \<and> 12 \<le> l" using holds_facts(3) [OF assms(1), of q l] by simp
  then have "\<exists>(q, l)\<in>set F. unat (12 :: rt_uint32_t) \<le> l" by auto
  from heap_alloc_gets [OF assms(1,2) n assms(4) this] obtain p l s1 s2 f1 f2 m' where t: "rt_memheap_alloc h sz m k = Some (Finished p, m', k)" "p \<noteq> 0"
    "holds m' h (s1 @ (p, if splits 12 l then unat (12 :: rt_uint32_t) else l) # s2)
      (f1 @ (if splits 12 l then [(p + 12 + RT_MEMHEAP_SIZE, l - unat (12 :: rt_uint32_t) - 24)] else []) @ f2)" .
  have "(if splits 12 l then unat (12 :: rt_uint32_t) else l) < 48" by simp
  with t show ?thesis by blast
qed

section \<open>Setting up\<close>

lemma memheap_setup_holds:
  assumes ps: "ps = RT_ALIGN_DOWN sz" and sz: "60 \<le> unat ps" and top: "unat start + unat ps \<le> 2 ^ 32"
    and out: "mh_free_header (heaps m h) < start \<or> unat start + unat ps \<le> unat (mh_free_header (heaps m h))"
  shows "holds (memheap_setup h start sz m) h [] [(start + RT_MEMHEAP_SIZE, unat ps - 48)]" "bytes (memheap_setup h start sz m) = bytes m"
    "mh_lock (heaps (memheap_setup h start sz m) h) = mh_lock (heaps m h)" "\<And>h'. h' \<noteq> h \<Longrightarrow> heaps (memheap_setup h start sz m) h' = heaps m h'"
proof -
  define fh where "fh = mh_free_header (heaps m h)"
  define q where "q = ps - 48"
  define t where "t = start + q + RT_MEMHEAP_SIZE"
  define m' where "m' = memheap_setup h start sz m"
  have q: "unat q = unat ps - 48" unfolding q_def using sz by (subst unat_sub) (simp_all add: word_le_nat_alt)
  then have t: "unat t = unat start + unat ps - 24" using sz top by (simp add: t_def rt_consts unat_word_ariths)
  have ne: "start \<noteq> t" "start \<noteq> fh" "t \<noteq> fh" using t sz out by (auto simp: fh_def word_less_nat_alt)
  have it: "items m' = (items m)(fh := \<lparr>it_magic = RT_MEMHEAP_MAGIC OR RT_MEMHEAP_FREED, it_pool_ptr = Some h, it_next = 0, it_prev = 0, it_next_free = start, it_prev_free = start\<rparr>,
      start := \<lparr>it_magic = RT_MEMHEAP_MAGIC OR RT_MEMHEAP_FREED, it_pool_ptr = Some h, it_next = t, it_prev = t, it_next_free = fh, it_prev_free = fh\<rparr>,
      t := \<lparr>it_magic = RT_MEMHEAP_MAGIC OR RT_MEMHEAP_USED, it_pool_ptr = Some h, it_next = start, it_prev = start, it_next_free = 0, it_prev_free = 0\<rparr>)"
    using ne by (auto simp: m'_def memheap_setup_def Let_def free_insert_def fun_eq_iff fh_def t_def q_def ps rt_consts)
  have hp: "heaps m' h = (heaps m h)\<lparr>mh_start_addr := start, mh_pool_size := ps, mh_available_size := ps - 48, mh_max_used_size := 48, mh_free_list := fh, mh_block_list := start\<rparr>"
    by (simp add: m'_def memheap_setup_def Let_def free_insert_frame fh_def ps rt_consts)
  have u: "used m' t" "\<not> used m' start" using ne by (simp_all add: used_mag mag_def it)
  have "unat t mod 4 = unat start mod 4"
  proof -
    have "4 dvd unat ps" unfolding ps RT_ALIGN_DOWN_def align_4 by (simp add: minus_mod_eq_mult_div)
    then obtain j where j: "unat ps = 4 * j" by (auto simp: dvd_def)
    then have "unat t = unat start + 4 * (j - 6)" using t sz by simp
    then show ?thesis by simp
  qed
  moreover have "fh < start \<or> t < fh" using out t sz by (auto simp: fh_def word_less_nat_alt)
  moreover have "t = start + ps - 24" by (simp add: t_def q_def rt_consts)
  moreover have "unat start + 36 \<le> unat t" "unat t + 24 \<le> 2 ^ 32" using t sz top by linarith+
  ultimately have "layout (heaps m' h) [start, t]" by (simp add: layout_def hp)
  moreover have "blocks_linked m' h [start, t] [start]"
    using ne by (simp add: blocks_linked_def ring_def field_defs it hp)
  moreover have "unat (mh_available_size (heaps m' h)) = free_total (used m') [start, t]"
    using u t sz q by (simp add: hp q_def)
  ultimately have r: "heap_rel m' h [start, t] [start]" using u by (auto simp: heap_rel_def)
  have "held (used m') [start, t] = []" "gaps (used m') [start, t] = [(start + RT_MEMHEAP_SIZE, unat ps - 48)]" using u t sz by simp_all
  then show "holds (memheap_setup h start sz m) h [] [(start + RT_MEMHEAP_SIZE, unat ps - 48)]"
    using r unfolding holds_def m'_def by metis
  show "bytes (memheap_setup h start sz m) = bytes m" "mh_lock (heaps (memheap_setup h start sz m) h) = mh_lock (heaps m h)"
    "\<And>h'. h' \<noteq> h \<Longrightarrow> heaps (memheap_setup h start sz m) h' = heaps m h'"
    by (simp_all add: memheap_setup_def Let_def free_insert_frame)
qed

text \<open>\<^verbatim>\<open>rt_memheap_init\<close> on a pool with room for two headers and the smallest block, in the address space and apart from the heap
  object: the heap and its lock are registered, the lock is free, and the pool is one free block between the first header and the
  used block at its end.\<close>

theorem memheap_init_correct:
  assumes "sys_inv k" "object_inv k" "settled k" and "fresh (Obj h) k" and "fresh_sem s k" "s = mh_lock (heaps m h)" "s \<noteq> h"
    and "rt_strncpy name RT_NAME_MAX = Some nm" and "ps = RT_ALIGN_DOWN sz" "60 \<le> unat ps" and "unat start + unat ps \<le> 2 ^ 32"
    and "mh_free_header (heaps m h) < start \<or> unat start + unat ps \<le> unat (mh_free_header (heaps m h))"
  shows "\<exists>m' k'. rt_memheap_init h name start sz m k = Some (RT_EOK, m', k') \<and> sys_inv k' \<and> object_inv k' \<and> heap_ready h m' k'
    \<and> holds m' h [] [(start + RT_MEMHEAP_SIZE, unat ps - 48)] \<and> bytes m' = bytes m \<and> (\<forall>h'. h' \<noteq> h \<longrightarrow> heaps m' h' = heaps m h')"
proof -
  note su = memheap_setup_holds [OF assms(9-12)]
  define k1 where "k1 = k\<lparr>objects := (objects k)(Obj h := (objects k (Obj h))\<lparr>obj_type := RT_Object_Class_MemHeap OR RT_Object_Class_Static, obj_name := nm\<rparr>),
    object_lists := linked RT_Object_Class_MemHeap (Obj h) (object_lists k)\<rparr>"
  define k2 where "k2 = k1\<lparr>objects := (objects k1)(Obj s := (objects k1 (Obj s))\<lparr>obj_type := RT_Object_Class_Semaphore OR RT_Object_Class_Static, obj_name := nm\<rparr>),
    object_lists := linked RT_Object_Class_Semaphore (Obj s) (object_lists k1)\<rparr>"
  define k3 where "k3 = upd_object (Obj s) (\<lambda>ob. ob\<lparr>obj_flag := RT_IPC_FLAG_PRIO\<rparr>) (upd_sem s (\<lambda>sm. sm\<lparr>sem_value := 1\<rparr>) k2)"
  have c: "RT_Object_Class_MemHeap \<in> set rt_object_container" "RT_Object_Class_Semaphore \<in> set rt_object_container" by (simp_all add: rt_object_container_def)
  have i1: "rt_object_init (Obj h) RT_Object_Class_MemHeap name k = Some k1"
    using object_init_state [OF assms(1-4) c(1) assms(8)] by (simp add: k1_def)
  have ty: "rt_object_get_type (Obj h) k = 0" "rt_object_get_type (Obj s) k = 0" using assms(4,5) by (simp_all add: fresh_def fresh_sem_def)
  have s1: "sys_inv k1" by (rule sys_inv_objects [OF assms(1), where g = "Obj h"]) (simp_all add: k1_def sched_view_def ty rt_consts)
  have o1: "object_inv k1" using rt_object_init_inv [OF assms(2) i1] .
  have "settled k1" using assms(3) by (subst settled_cong [of _ k]) (simp_all add: k1_def sched_view_def)
  moreover have f1: "fresh (Obj s) k1" using assms(5,7) by (simp add: fresh_def fresh_sem_def k1_def linked_def rt_object_get_type_def)
  ultimately have i2: "rt_object_init (Obj s) RT_Object_Class_Semaphore name k1 = Some k2"
    using object_init_state [OF s1 o1 _ _ c(2) assms(8)] by (simp add: k2_def)
  have s2: "sys_inv k2"
    by (rule sys_inv_objects [OF s1, where g = "Obj s"]) (use f1 in \<open>simp_all add: k2_def sched_view_def fresh_def rt_consts\<close>)
  have o2: "object_inv k2" using rt_object_init_inv [OF o1 i2] .
  have w: "on_tlist k2 (Sem_wait s) = []" using assms(5) by (simp add: k2_def k1_def on_tlist_def fresh_sem_def)
  have i3: "rt_sem_init s name 1 RT_IPC_FLAG_PRIO k1 = Some (RT_EOK, k3)"
    using i2 w by (simp add: rt_sem_init_def sem_set_def tlist_init_head_def on_tlist_def k3_def RT_ASSERT_def)
  have ty2: "rt_object_get_type (Obj s) k2 = RT_Object_Class_Semaphore" by (simp add: k2_def rt_object_get_type_def rt_consts)
  have "sys_inv k3"
    by (rule sys_inv_objects [OF s2, where g = "Obj s"]) (use ty2 in \<open>simp_all add: k3_def upd_object_def upd_sem_def sched_view_def rt_consts\<close>)
  moreover have "object_inv k3" using o2 by (auto simp: object_inv_def k3_def upd_object_def upd_sem_def rt_object_get_type_def)
  moreover have "heap_ready h (memheap_setup h start sz m) k3"
  proof -
    have "rt_object_get_type (Obj h) k3 = RT_Object_Class_MemHeap" using assms(7)
      by (simp add: k3_def k2_def k1_def upd_object_def upd_sem_def rt_object_get_type_def rt_consts)
    moreover have "sem_inv s k3"
      using ty2 w by (simp add: sem_inv_def k3_def upd_object_def upd_sem_def rt_object_get_type_def on_tlist_def parked_def)
    moreover have "sem_avail s k3" by (simp add: sem_avail_def k3_def upd_object_def upd_sem_def)
    ultimately show ?thesis using su(3) assms(6) by (simp add: heap_ready_def)
  qed
  moreover have "rt_memheap_init h name start sz m k = Some (RT_EOK, memheap_setup h start sz m, k3)"
    using i1 i3 su(3) assms(6) by (simp add: rt_memheap_init_def Let_def)
  ultimately show ?thesis using su by blast
qed

section \<open>The lock\<close>

text \<open>Mutual exclusion by the lock.  A thread that allocates while another one works on the heap waits on the lock and has changed nothing.  When the other
  one is done, in whatever state \<open>m1\<close> it has brought the heap, it hands the lock over: the semaphore stays at 0, so nobody else
  gets in.  The waiting thread then takes its block from the heap as it finds it, or \<^verbatim>\<open>RT_NULL\<close>, and opens the lock.\<close>

theorem memheap_lock_handover:
  assumes "sys_inv k" and "sem_inv s k" and "sem_value (sems k s) = 0" and "on_tlist k (Sem_wait s) = []" and "s = mh_lock (heaps m h)"
    and "rt_object_get_type (Obj h) k = RT_Object_Class_MemHeap" and "rt_current_thread k = Some t" and "stat_of k t = RT_THREAD_READY"
    and "rt_interrupt_nest k = 0" and "stat_of k u = RT_THREAD_READY" "u \<noteq> t" and "memheap_round sz < mh_available_size (heaps m h)"
    and "holds m1 h S F" "heap_frame h m m1"
  shows "\<exists>k1 k2 p m2 k3. rt_memheap_alloc h sz m k = Some (Waiting t, m, k1) \<and> stat_of k1 t = RT_THREAD_SUSPEND \<and> on_tlist k1 (Sem_wait s) = [t]
    \<and> rt_sem_release s k1 = Some (RT_EOK, k2) \<and> stat_of k2 t = RT_THREAD_READY \<and> sem_value (sems k2 s) = 0
    \<and> rt_memheap_alloc_back h sz t m1 k2 = Some (p, m2, k3) \<and> sem_value (sems k3 s) = 1 \<and> sem_inv s k3
    \<and> (if p = 0 then m2 = m1 \<and> \<not> (\<exists>(q, l)\<in>set F. unat (memheap_round sz) \<le> l)
       else \<exists>s1 s2 l F'. S = s1 @ s2 \<and> unat (memheap_round sz) \<le> l \<and> holds m2 h (s1 @ (p, l) # s2) F')"
proof -
  have un: "\<not> sem_avail s k" using assms(3) by (simp add: sem_avail_def)
  have w: "(of_int RT_WAITING_FOREVER :: rt_uint32_t) \<noteq> 0" "(of_int RT_WAITING_FOREVER :: rt_uint32_t) \<noteq> 0x7fffffff" by (simp_all add: rt_consts)
  from sem_take_waits [OF assms(1,2) un assms(7-9) w assms(10,11)] obtain k1 where k1:
    "rt_sem_take s (of_int RT_WAITING_FOREVER) k = Some (Waiting t, k1)" "sys_inv k1" "sem_inv s k1" "same_ipc k k1"
    "on_tlist k1 (Sem_wait s) = [t]" "stat_of k1 t = RT_THREAD_SUSPEND" "th_error (threads k1 t) = RT_EOK"
    using assms(4) by (auto simp: wait_order_def split: if_splits)
  have a: "rt_memheap_alloc h sz m k = Some (Waiting t, m, k1)"
    using k1(1) assms(5,6,12) by (simp add: rt_memheap_alloc_def Let_def)
  from sem_release_hands_over [OF k1(2,3,5)] obtain k2 where k2: "rt_sem_release s k1 = Some (RT_EOK, k2)" "sem_inv s k2" "same_ipc k1 k2"
    "on_tlist k2 (Sem_wait s) = []" "stat_of k2 t = RT_THREAD_READY" "th_error (threads k2 t) = th_error (threads k1 t)" by blast
  have v: "sem_value (sems k2 s) = 0" using k1(4) k2(3) assms(3) by (simp add: same_ipc_def)
  define k3 where "k3 = upd_sem s (\<lambda>sm. sm\<lparr>sem_value := sem_value sm + 1\<rparr>) k2"
  have rel: "rt_sem_release (mh_lock (heaps m1 h)) k2 = Some (RT_EOK, k3)"
    using sem_release_counts [OF k2(2,4)] assms(5,14) by (simp add: k3_def heap_frame_def)
  have b: "rt_memheap_alloc_back h sz t m1 k2 = memheap_alloc_locked h (memheap_round sz) m1 k2"
    using k2(6) k1(7) by (simp add: rt_memheap_alloc_back_def rt_sem_take_back_def)
  have k3: "sem_value (sems k3 s) = 1" "sem_inv s k3"
    using k2(2,4) v by (simp_all add: k3_def upd_sem_def sem_inv_def rt_object_get_type_def parked_def on_tlist_def)
  note l = memheap_alloc_locked_holds [OF assms(13) memheap_round_facts(1,2) [of sz]]
  have "\<exists>p m2. memheap_alloc_locked h (memheap_round sz) m1 k2 = Some (p, m2, k3)
    \<and> (if p = 0 then m2 = m1 \<and> \<not> (\<exists>(q, l)\<in>set F. unat (memheap_round sz) \<le> l)
       else \<exists>s1 s2 l F'. S = s1 @ s2 \<and> unat (memheap_round sz) \<le> l \<and> holds m2 h (s1 @ (p, l) # s2) F')"
  proof (cases "\<exists>(q, l)\<in>set F. unat (memheap_round sz) \<le> l")
    case True
    from l(1) [OF True] obtain p l s1 s2 F' m' where t: "p \<noteq> 0" "S = s1 @ s2" "unat (memheap_round sz) \<le> l"
      "holds m' h (s1 @ (p, if splits (memheap_round sz) l then unat (memheap_round sz) else l) # s2) F'"
      "memheap_alloc_locked h (memheap_round sz) m1 k2 = map_option (\<lambda>(_, k). (p, m', k)) (rt_sem_release (mh_lock (heaps m1 h)) k2)" by blast
    have "unat (memheap_round sz) \<le> (if splits (memheap_round sz) l then unat (memheap_round sz) else l)" using t(3) by simp
    then show ?thesis using t rel by (intro exI [of _ p] exI [of _ m']) auto
  next
    case False
    then show ?thesis using l(2) [OF False, of k2] rel by (intro exI [of _ 0] exI [of _ m1]) simp
  qed
  then obtain p m2 where "memheap_alloc_locked h (memheap_round sz) m1 k2 = Some (p, m2, k3)"
    "if p = 0 then m2 = m1 \<and> \<not> (\<exists>(q, l)\<in>set F. unat (memheap_round sz) \<le> l)
       else \<exists>s1 s2 l F'. S = s1 @ s2 \<and> unat (memheap_round sz) \<le> l \<and> holds m2 h (s1 @ (p, l) # s2) F'" by blast
  then show ?thesis using a k1(5,6) k2(1,5) v b k3 by (intro exI [of _ k1] exI [of _ k2] exI [of _ p] exI [of _ m2] exI [of _ k3]) simp
qed

section \<open>The contract of an allocator\<close>

text \<open>A client asks for blocks and gives them back by their place in the list of those it has.\<close>

datatype request =
  Get rt_uint32_t
| Put nat

fun serve :: "(rt_uint32_t \<Rightarrow> 's \<Rightarrow> (addr \<times> 's) option) \<Rightarrow> (addr \<Rightarrow> 's \<Rightarrow> 's option) \<Rightarrow> request list \<Rightarrow> 's \<Rightarrow> (addr \<times> rt_uint32_t) list
    \<Rightarrow> ('s \<times> (addr \<times> rt_uint32_t) list) option" where
  "serve alloc free [] s ps = Some (s, ps)"
| "serve alloc free (Get n # rs) s ps = do { (p, s) \<leftarrow> alloc n s; serve alloc free rs s (if p = 0 then ps else ps @ [(p, n)]) }"
| "serve alloc free (Put i # rs) s ps =
     (if i < length ps then do { s \<leftarrow> free (fst (ps ! i)) s; serve alloc free rs s (take i ps @ drop (Suc i) ps) }
      else serve alloc free rs s ps)"

text \<open>What the client has are the blocks in use, each as long as it asked for.\<close>

definition owns :: "(addr \<times> rt_uint32_t) list \<Rightarrow> (addr \<times> nat) list \<Rightarrow> bool" where
  "owns ps S \<longleftrightarrow> distinct (map fst ps) \<and> fst ` set ps = fst ` set S \<and> (\<forall>(p, n)\<in>set ps. \<exists>l. (p, l) \<in> set S \<and> unat n \<le> l)"

lemma owns_get:
  assumes o: "owns ps (s1 @ s2)" and a: "apart (s1 @ (p, l) # s2)" and n: "unat n \<le> l"
  shows "owns (ps @ [(p, n)]) (s1 @ (p, l) # s2)"
proof -
  have "p \<notin> fst ` set (s1 @ s2)" using apart_distinct [OF a] by auto
  then show ?thesis using o n unfolding owns_def by (auto simp: image_Un)
qed

lemma owns_put:
  assumes o: "owns ps S" and a: "apart S" and i: "i < length ps"
  obtains s1 l s2 where "S = s1 @ (fst (ps ! i), l) # s2" "owns (take i ps @ drop (Suc i) ps) (s1 @ s2)"
proof -
  define q1 where "q1 = take i ps"
  define q2 where "q2 = drop (Suc i) ps"
  obtain p n where x: "ps ! i = (p, n)" by fastforce
  have ps: "ps = q1 @ (p, n) # q2" using id_take_nth_drop [OF i] x by (simp add: q1_def q2_def)
  then have "p \<in> fst ` set S" using o unfolding owns_def by auto
  then obtain l where "(p, l) \<in> set S" by auto
  then obtain s1 s2 where S: "S = s1 @ (p, l) # s2" by (auto simp: in_set_conv_decomp)
  have d: "distinct (map fst (q1 @ (p, n) # q2))" "distinct (map fst (s1 @ (p, l) # s2))" "fst ` set (q1 @ (p, n) # q2) = fst ` set (s1 @ (p, l) # s2)"
    using o apart_distinct [OF a] S ps by (simp_all add: owns_def)
  have "fst ` set (q1 @ q2) = fst ` set (q1 @ (p, n) # q2) - {p}" using d(1) by auto
  also have "\<dots> = fst ` set (s1 @ s2)" unfolding d(3) using d(2) by auto
  finally have e: "fst ` set (q1 @ q2) = fst ` set (s1 @ s2)" .
  have "\<exists>l. (q, l) \<in> set (s1 @ s2) \<and> unat j \<le> l" if q: "(q, j) \<in> set (q1 @ q2)" for q j
  proof -
    have "(q, j) \<in> set ps" using ps q by auto
    then have "\<exists>l. (q, l) \<in> set S \<and> unat j \<le> l" using o unfolding owns_def by fastforce
    moreover have "q \<noteq> p" using d(1) q by force
    ultimately show ?thesis using S by auto
  qed
  then have "owns (q1 @ q2) (s1 @ s2)" using d(1) e unfolding owns_def by auto
  then show ?thesis using that [of s1 l s2] S x by (simp add: q1_def q2_def)
qed

locale allocator =
  fixes ok :: "'s \<Rightarrow> (addr \<times> nat) list \<Rightarrow> bool"
    and alloc :: "rt_uint32_t \<Rightarrow> 's \<Rightarrow> (addr \<times> 's) option"
    and free :: "addr \<Rightarrow> 's \<Rightarrow> 's option"
  assumes ok_apart: "ok s S \<Longrightarrow> apart S"
    and alloc_law: "ok s S \<Longrightarrow> unat n \<le> 0xfffffffc \<Longrightarrow> \<exists>p s'. alloc n s = Some (p, s')
      \<and> (if p = 0 then ok s' S else \<exists>s1 s2 l. S = s1 @ s2 \<and> unat n \<le> l \<and> ok s' (s1 @ (p, l) # s2))"
    and free_law: "ok s (s1 @ (p, l) # s2) \<Longrightarrow> \<exists>s'. free p s = Some s' \<and> ok s' (s1 @ s2)"
begin

lemma served:
  assumes "ok s S" and "owns ps S" and "\<forall>n. Get n \<in> set rs \<longrightarrow> unat n \<le> 0xfffffffc"
  shows "\<exists>s' S' ps'. serve alloc free rs s ps = Some (s', ps') \<and> ok s' S' \<and> owns ps' S' \<and> apart S'"
  using assms
proof (induction rs arbitrary: s S ps)
  case Nil
  then show ?case using ok_apart by auto
next
  case (Cons r rs)
  have gs: "\<forall>n. Get n \<in> set rs \<longrightarrow> unat n \<le> 0xfffffffc" using Cons.prems(3) by simp
  show ?case
  proof (cases r)
    case (Get n)
    then have "unat n \<le> 0xfffffffc" using Cons.prems(3) by simp
    from alloc_law [OF Cons.prems(1) this] obtain p s' where a: "alloc n s = Some (p, s')"
      "if p = 0 then ok s' S else \<exists>s1 s2 l. S = s1 @ s2 \<and> unat n \<le> l \<and> ok s' (s1 @ (p, l) # s2)" by blast
    have "\<exists>S'. ok s' S' \<and> owns (if p = 0 then ps else ps @ [(p, n)]) S'"
    proof (cases "p = 0")
      case False
      then obtain s1 s2 l where l: "S = s1 @ s2" "unat n \<le> l" "ok s' (s1 @ (p, l) # s2)" using a(2) by auto
      then have "owns (ps @ [(p, n)]) (s1 @ (p, l) # s2)" using owns_get ok_apart Cons.prems(2) by blast
      then show ?thesis using l(3) False by auto
    qed (use a(2) Cons.prems(2) in auto)
    then obtain S' where S': "ok s' S'" "owns (if p = 0 then ps else ps @ [(p, n)]) S'" by blast
    from Cons.IH [OF this gs] show ?thesis using a(1) Get by simp
  next
    case (Put i)
    show ?thesis
    proof (cases "i < length ps")
      case True
      from owns_put [OF Cons.prems(2) ok_apart [OF Cons.prems(1)] True] obtain s1 l s2 where
        l: "S = s1 @ (fst (ps ! i), l) # s2" "owns (take i ps @ drop (Suc i) ps) (s1 @ s2)" .
      from free_law [OF Cons.prems(1) [unfolded l(1)]] obtain s' where f: "free (fst (ps ! i)) s = Some s'" "ok s' (s1 @ s2)" by blast
      from Cons.IH [OF f(2) l(2) gs] show ?thesis using f(1) Put True by simp
    qed (use Cons.IH [OF Cons.prems(1,2) gs] Put in simp)
  qed
qed

end


text \<open>A heap with a free lock, with the start and the length \<open>c\<close> of its pool, is an allocator.\<close>

definition heap_ok :: "addr \<times> rt_uint32_t \<Rightarrow> nat \<Rightarrow> memory \<times> kernel \<Rightarrow> (addr \<times> nat) list \<Rightarrow> bool" where
  "heap_ok c h s S \<longleftrightarrow> heap_ready h (fst s) (snd s) \<and> (\<exists>F. holds (fst s) h S F)
     \<and> (mh_start_addr (heaps (fst s) h), mh_pool_size (heaps (fst s) h)) = c"

definition heap_alloc :: "nat \<Rightarrow> rt_uint32_t \<Rightarrow> memory \<times> kernel \<Rightarrow> (addr \<times> memory \<times> kernel) option" where
  "heap_alloc h n s = (case rt_memheap_alloc h n (fst s) (snd s) of Some (Finished p, m, k) \<Rightarrow> Some (p, m, k) | _ \<Rightarrow> None)"

definition heap_free :: "addr \<Rightarrow> memory \<times> kernel \<Rightarrow> (memory \<times> kernel) option" where
  "heap_free p s = (case rt_memheap_free p (fst s) (snd s) of Some (Finished _, m, k) \<Rightarrow> Some (m, k) | _ \<Rightarrow> None)"

lemma heap_ready_frame: "heap_frame h m m' \<Longrightarrow> heap_ready h m' k = heap_ready h m k"
  by (simp add: heap_ready_def heap_frame_def)

interpretation memheap: allocator "heap_ok c h" "heap_alloc h" heap_free for c h
proof
  fix s S
  assume o: "heap_ok c h s S"
  then obtain F where F: "heap_ready h (fst s) (snd s)" "holds (fst s) h S F" "(mh_start_addr (heaps (fst s) h), mh_pool_size (heaps (fst s) h)) = c"
    by (auto simp: heap_ok_def)
  show "apart S" by (rule holds_facts(1) [OF F(2)])
  fix n :: rt_uint32_t
  assume n: "unat n \<le> 0xfffffffc"
  show "\<exists>p s'. heap_alloc h n s = Some (p, s')
      \<and> (if p = 0 then heap_ok c h s' S else \<exists>s1 s2 l. S = s1 @ s2 \<and> unat n \<le> l \<and> heap_ok c h s' (s1 @ (p, l) # s2))"
  proof (cases "memheap_round n < mh_available_size (heaps (fst s) h) \<and> (\<exists>(q, l)\<in>set F. unat (memheap_round n) \<le> l)")
    case True
    from heap_alloc_gets [OF F(2,1) refl conjunct1 [OF True] conjunct2 [OF True]] obtain p l s1 s2 F' m' where t:
      "rt_memheap_alloc h n (fst s) (snd s) = Some (Finished p, m', snd s)" "p \<noteq> 0" "heap_frame h (fst s) m'" "S = s1 @ s2" "unat (memheap_round n) \<le> l"
      "holds m' h (s1 @ (p, if splits (memheap_round n) l then unat (memheap_round n) else l) # s2) F'" by metis
    have "unat n \<le> (if splits (memheap_round n) l then unat (memheap_round n) else l)" using t(5) memheap_round_facts(3) [OF n] by auto
    moreover have "heap_ok c h (m', snd s) (s1 @ (p, if splits (memheap_round n) l then unat (memheap_round n) else l) # s2)"
      using t(3,6) F(1,3) heap_ready_frame [OF t(3)] by (auto simp: heap_ok_def heap_frame_def)
    ultimately show ?thesis using t(1,2,4) by (intro exI [of _ p] exI [of _ "(m', snd s)"]) (auto simp: heap_alloc_def)
  next
    case False
    from heap_alloc_null [OF F(2,1) refl False] show ?thesis using o by (intro exI [of _ 0] exI [of _ s]) (simp add: heap_alloc_def)
  qed
next
  fix s s1 p l s2
  assume "heap_ok c h s (s1 @ (p, l) # s2)"
  then obtain F where F: "heap_ready h (fst s) (snd s)" "holds (fst s) h (s1 @ (p, l) # s2) F"
    "(mh_start_addr (heaps (fst s) h), mh_pool_size (heaps (fst s) h)) = c" by (auto simp: heap_ok_def)
  from heap_free_gives [OF F(2,1)] obtain m' F' where f: "rt_memheap_free p (fst s) (snd s) = Some (Finished (), m', snd s)" "heap_frame h (fst s) m'"
    "holds m' h (s1 @ s2) F'" .
  then show "\<exists>s'. heap_free p s = Some s' \<and> heap_ok c h s' (s1 @ s2)"
    using F(1,3) heap_ready_frame [OF f(2)] by (intro exI [of _ "(m', snd s)"]) (auto simp: heap_free_def heap_ok_def heap_frame_def)
qed

text \<open>C27: the heap serves every sequence of requests.  However blocks are asked for and given back, no assertion fails; the blocks the client has at
  the end are exactly the blocks in use, apart from each other, and each is at least as long as it was asked for.  When everything has been given back
  all of the pool is free again, as at the beginning: no space is lost to fragmentation.\<close>

theorem memheap_serves:
  assumes "holds m h [] F" and "heap_ready h m k" and "\<forall>n. Get n \<in> set rs \<longrightarrow> unat n \<le> 0xfffffffc"
  shows "\<exists>m' k' ps S' F'. serve (heap_alloc h) heap_free rs (m, k) [] = Some ((m', k'), ps) \<and> holds m' h S' F' \<and> owns ps S' \<and> apart S'
    \<and> (ps = [] \<longrightarrow> S' = [] \<and> F' = F)"
proof -
  define c where "c = (mh_start_addr (heaps m h), mh_pool_size (heaps m h))"
  have "heap_ok c h (m, k) []" using assms(1,2) by (auto simp: heap_ok_def c_def)
  moreover have "owns [] []" by (simp add: owns_def)
  ultimately obtain s' S' ps where t: "serve (heap_alloc h) heap_free rs (m, k) [] = Some (s', ps)" "heap_ok c h s' S'" "owns ps S'" "apart S'"
    using memheap.served [OF _ _ assms(3)] by blast
  obtain F' where F': "holds (fst s') h S' F'" "(mh_start_addr (heaps (fst s') h), mh_pool_size (heaps (fst s') h)) = c" using t(2) by (auto simp: heap_ok_def)
  have "S' = [] \<and> F' = F" if "ps = []"
  proof -
    have "S' = []" using t(3) that by (simp add: owns_def)
    moreover from this have "F' = F" using holds_free [OF F'(1)] holds_free [OF assms(1)] F'(2) by (simp add: c_def)
    ultimately show ?thesis by simp
  qed
  then show ?thesis using t F'(1) by (intro exI [of _ "fst s'"] exI [of _ "snd s'"] exI [of _ ps] exI [of _ S'] exI [of _ F']) simp
qed

section \<open>Examples\<close>

text \<open>A heap of 200 bytes at 0x1000, its lock is semaphore 5; and the same with one block of 40 bytes in use.\<close>

definition sample_memory :: "nat \<Rightarrow> memory" where
  "sample_memory s = \<lparr>items = (\<lambda>_. \<lparr>it_magic = 0, it_pool_ptr = None, it_next = 0, it_prev = 0, it_next_free = 0, it_prev_free = 0\<rparr>),
     heaps = (\<lambda>_. \<lparr>mh_start_addr = 0, mh_pool_size = 0, mh_available_size = 0, mh_max_used_size = 0, mh_block_list = 0, mh_free_list = 0,
       mh_free_header = 0x100, mh_lock = s\<rparr>), bytes = (\<lambda>_. 0)\<rparr>"

definition sample_heap :: memory where
  "sample_heap = memheap_setup 6 0x1000 200 (sample_memory 5)"

definition sample_heap_used :: memory where
  "sample_heap_used = memheap_take 6 0x1000 152 40 sample_heap"

definition sample_heap_lock :: "rt_uint16_t \<Rightarrow> kernel" where
  "sample_heap_lock v = upd_sem 5 (\<lambda>sm. sm\<lparr>sem_value := v\<rparr>) (upd_object (Obj 6) (\<lambda>ob. ob\<lparr>obj_type := RT_Object_Class_MemHeap\<rparr>) sample_sem)"

lemma sample_heap_holds: "holds sample_heap 6 [] [(0x1018, 152)]" "mh_lock (heaps sample_heap 6) = 5" "mh_available_size (heaps sample_heap 6) = 152"
proof -
  have "RT_ALIGN_DOWN 200 = 200" by (simp add: RT_ALIGN_DOWN_def)
  then show "holds sample_heap 6 [] [(0x1018, 152)]" "mh_lock (heaps sample_heap 6) = 5"
    unfolding sample_heap_def using memheap_setup_holds [of 200 200 "0x1000" "sample_memory 5" 6]
    by (simp_all add: sample_memory_def rt_consts)
  from holds_facts(5) [OF this(1)] show "mh_available_size (heaps sample_heap 6) = 152" by (simp add: word_unat_eq_iff)
qed

lemma sample_heap_lock_ok: "sys_inv (sample_heap_lock v)" "sem_inv 5 (sample_heap_lock v)" "sem_value (sems (sample_heap_lock v) 5) = v"
  "on_tlist (sample_heap_lock v) (Sem_wait 5) = []" "rt_object_get_type (Obj 6) (sample_heap_lock v) = RT_Object_Class_MemHeap"
  "rt_current_thread (sample_heap_lock v) = Some 1" "stat_of (sample_heap_lock v) 1 = RT_THREAD_READY" "stat_of (sample_heap_lock v) 2 = RT_THREAD_READY"
  "rt_interrupt_nest (sample_heap_lock v) = 0"
proof -
  have "rt_object_get_type (Obj 6) sample_sem = 0"
    by (simp add: sample_sem_def sample_with_def upd_object_def rt_object_get_type_def sample_rest sample_base_def zero_object_def)
  then show "sys_inv (sample_heap_lock v)"
    by (intro sys_inv_objects [OF sample_sem_ok(1), where g = "Obj 6"]) (simp_all add: sample_heap_lock_def upd_object_def upd_sem_def sched_view_def rt_consts)
qed (use sample_sem_ok in \<open>simp_all add: sample_heap_lock_def upd_object_def upd_sem_def sem_inv_def parked_def on_tlist_def rt_object_get_type_def stat_of_def rt_consts\<close>)

lemma sample_heap_ready: "heap_ready 6 sample_heap (sample_heap_lock 1)"
  using sample_heap_lock_ok sample_heap_holds(2) by (simp add: heap_ready_def sem_avail_def)

lemma sample_heap_used_holds: "holds sample_heap_used 6 [(0x1018, 40)] [(0x1058, 88)]" "heap_frame 6 sample_heap sample_heap_used"
proof -
  obtain bs fs where r: "heap_rel sample_heap 6 bs fs" "[] = held (used sample_heap) bs" "[(0x1018, 152)] = gaps (used sample_heap) bs"
    using sample_heap_holds(1) by (auto simp: holds_def)
  have "(0x1018, 152) \<in> set (gaps (used sample_heap) bs)" unfolding r(3) [symmetric] by simp
  then obtain b where b: "b \<in> set fs" "b + RT_MEMHEAP_SIZE = 0x1018" "unat (MEMITEM_SIZE b sample_heap) = 152"
    unfolding gap_entries [OF r(1)] by auto
  have "b = 0x1018 - RT_MEMHEAP_SIZE" using b(2) by (metis add_diff_cancel_right')
  then have e: "b = 0x1000" by (simp add: rt_consts)
  have z: "MEMITEM_SIZE b sample_heap = 152" using b(3) by (simp add: word_unat_eq_iff)
  have "(40 :: rt_uint32_t) \<le> MEMITEM_SIZE b sample_heap" by (simp add: z)
  from memheap_take_holds [OF r(1) b(1) this]
  show "holds sample_heap_used 6 [(0x1018, 40)] [(0x1058, 88)]" "heap_frame 6 sample_heap sample_heap_used"
    unfolding e z [unfolded e] r(2) [symmetric] r(3) [symmetric] by (auto simp: sample_heap_used_def rt_consts Cons_eq_append_conv)
qed

lemma sample_heap_used_ready: "heap_ready 6 sample_heap_used (sample_heap_lock 1)"
  using sample_heap_ready heap_ready_frame [OF sample_heap_used_holds(2)] by simp

theorem memheap_init_correct_witness:
  "\<exists>m' k'. rt_memheap_init 7 life_name 0x1000 200 (sample_memory 8) sample = Some (RT_EOK, m', k') \<and> heap_ready 7 m' k' \<and> holds m' 7 [] [(0x1018, 152)]"
proof -
  obtain nm where "rt_strncpy life_name RT_NAME_MAX = Some nm" using rt_strncpy_Some [of RT_NAME_MAX life_name] by (auto simp: life_name_def)
  moreover have "RT_ALIGN_DOWN 200 = 200" by (simp add: RT_ALIGN_DOWN_def)
  moreover have "fresh (Obj 7) sample" using sample_fresh(1) by (simp add: fresh_thread_def)
  ultimately show ?thesis
    using memheap_init_correct [OF sample_sys_inv sample_objects_inv sample_settled, of 7 8 "sample_memory 8" life_name nm 200 200 "0x1000"] sample_fresh(2)
    by (auto simp: sample_memory_def rt_consts)
qed

theorem memheap_alloc_correct_witness:
  "(\<exists>m'. rt_memheap_alloc 6 40 sample_heap (sample_heap_lock 1) = Some (Finished 0x1018, m', sample_heap_lock 1) \<and> holds m' 6 [(0x1018, 40)] [(0x1058, 88)])
    \<and> rt_memheap_alloc 6 152 sample_heap (sample_heap_lock 1) = Some (Finished 0, sample_heap, sample_heap_lock 1)"
proof -
  have "40 = memheap_round 40" "152 = memheap_round 152" by (simp_all add: memheap_round_def RT_ALIGN_def Let_def rt_consts)
  then show ?thesis
    using memheap_alloc_correct [OF sample_heap_holds(1) sample_heap_ready, of 40 40] memheap_alloc_correct [OF sample_heap_holds(1) sample_heap_ready, of 152 152]
      sample_heap_holds(3) by (auto simp: Cons_eq_append_conv rt_consts)
qed

theorem memheap_free_correct_witness:
  "\<exists>m'. rt_memheap_free 0x1018 sample_heap_used (sample_heap_lock 1) = Some (Finished (), m', sample_heap_lock 1) \<and> holds m' 6 [] [(0x1018, 152)]
    \<and> rt_memheap_free 0x1058 sample_heap_used (sample_heap_lock 1) = None"
proof -
  have "F' = [(0x1018, 152)]" if "holds m' 6 [] F'" "heap_frame 6 sample_heap_used m'" for m' F'
    using holds_free [OF that(1)] holds_free [OF sample_heap_holds(1)] that(2) sample_heap_used_holds(2) by (simp add: heap_frame_def)
  moreover have "holds sample_heap_used 6 ([] @ (0x1018, 40) # []) [(0x1058, 88)]" using sample_heap_used_holds(1) by simp
  note f = memheap_free_correct [OF this sample_heap_used_ready]
  moreover obtain m' F' where "rt_memheap_free 0x1018 sample_heap_used (sample_heap_lock 1) = Some (Finished (), m', sample_heap_lock 1)"
    "heap_frame 6 sample_heap_used m'" "holds m' 6 [] F'" using conjunct1 [OF f] unfolding append.simps by blast
  moreover have "rt_memheap_free 0x1058 sample_heap_used (sample_heap_lock 1) = None" using conjunct2 [OF f] by simp
  ultimately show ?thesis by blast
qed

theorem memheap_alloc_free_roundtrip_witness:
  "\<exists>m' m''. rt_memheap_alloc 6 40 sample_heap (sample_heap_lock 1) = Some (Finished 0x1018, m', sample_heap_lock 1)
    \<and> rt_memheap_free 0x1018 m' (sample_heap_lock 1) = Some (Finished (), m'', sample_heap_lock 1) \<and> holds m'' 6 [] [(0x1018, 152)]"
proof -
  have n: "40 = memheap_round 40" by (simp add: memheap_round_def RT_ALIGN_def Let_def rt_consts)
  obtain m' where "rt_memheap_alloc 6 40 sample_heap (sample_heap_lock 1) = Some (Finished 0x1018, m', sample_heap_lock 1)"
    by (rule heap_alloc_gets [OF sample_heap_holds(1) sample_heap_ready n]) (auto simp: sample_heap_holds(3) Cons_eq_append_conv)
  note a = this
  show ?thesis using memheap_alloc_free_roundtrip [OF sample_heap_holds(1) sample_heap_ready a] a by auto
qed

theorem memheap_alloc_overflow_witness:
  "\<exists>p l m' s1 s2 F'. rt_memheap_alloc 6 0xfffffffd sample_heap (sample_heap_lock 1) = Some (Finished p, m', sample_heap_lock 1) \<and> p \<noteq> 0
    \<and> holds m' 6 (s1 @ (p, l) # s2) F' \<and> l < 48"
  using memheap_alloc_overflow [OF sample_heap_holds(1) sample_heap_ready, of "0xfffffffd"] sample_heap_holds(3) by (simp add: word_less_nat_alt)

theorem memheap_lock_handover_witness:
  "\<exists>k1 k2 p m2 k3. rt_memheap_alloc 6 40 sample_heap (sample_heap_lock 0) = Some (Waiting 1, sample_heap, k1) \<and> rt_sem_release 5 k1 = Some (RT_EOK, k2)
    \<and> rt_memheap_alloc_back 6 40 1 sample_heap_used k2 = Some (p, m2, k3) \<and> p \<noteq> 0 \<and> sem_value (sems k3 5) = 1"
proof -
  have n: "memheap_round 40 = 40" by (simp add: memheap_round_def RT_ALIGN_def Let_def rt_consts)
  have "memheap_round 40 < mh_available_size (heaps sample_heap 6)" "(2 :: nat) \<noteq> 1" by (simp_all add: n sample_heap_holds(3))
  from memheap_lock_handover [of "sample_heap_lock 0" 5 sample_heap 6 1 2 40, OF sample_heap_lock_ok(1-4) sample_heap_holds(2) [symmetric]
      sample_heap_lock_ok(5-7,9,8) this(2,1) sample_heap_used_holds]
  obtain k1 k2 p m2 k3 where c: "rt_memheap_alloc 6 40 sample_heap (sample_heap_lock 0) = Some (Waiting 1, sample_heap, k1)" "rt_sem_release 5 k1 = Some (RT_EOK, k2)"
    "rt_memheap_alloc_back 6 40 1 sample_heap_used k2 = Some (p, m2, k3)" "sem_value (sems k3 5) = 1"
    "p = 0 \<longrightarrow> \<not> (\<exists>(q, l)\<in>set [(0x1058 :: addr, 88)]. unat (memheap_round 40) \<le> l)" by (elim exE conjE) (erule (3) that, simp split: if_splits)
  moreover have "p \<noteq> 0" using c(5) by (auto simp: n)
  ultimately show ?thesis by blast
qed

theorem memheap_serves_witness:
  "\<exists>m' k' ps. serve (heap_alloc 6) heap_free [Get 40, Get 60, Put 0, Put 0] (sample_heap, sample_heap_lock 1) [] = Some ((m', k'), ps)"
  using memheap_serves [OF sample_heap_holds(1) sample_heap_ready, of "[Get 40, Get 60, Put 0, Put 0]"] by (auto simp: word_less_nat_alt)

end
