(* ===== verification/RT_Realloc.thy ===== *)
theory RT_Realloc
  imports RT_Allocator
begin

text \<open>
  \<^verbatim>\<open>rt_memheap_realloc\<close> of \<^verbatim>\<open>kernel/src/memheap.c\<close>: a block is changed in place when it shrinks or when the block behind it is free and long
  enough, and otherwise moved.  The service may block at six places; each is a value of \<open>realloc_wait\<close>.
\<close>

section \<open>The code\<close>

text \<open>Where the caller waits for the lock: in the release for size 0, in the allocation for \<^verbatim>\<open>RT_NULL\<close>, before growing, in the allocation of the new
  block, in the release of the old one, before shrinking; with the local variables that are used behind it.\<close>

datatype realloc_wait =
  Free_wait nat
| Alloc_wait
| Grow_wait rt_uint32_t
| Move_wait rt_uint32_t
| Drop_wait nat addr
| Shrink_wait

datatype realloc_result =
  Returned addr
| Blocked tid realloc_wait

text \<open>\<^verbatim>\<open>rt_memcpy\<close> on blocks that do not overlap.\<close>

definition copy_bytes :: "addr \<Rightarrow> addr \<Rightarrow> rt_uint32_t \<Rightarrow> memory \<Rightarrow> memory" where
  "copy_bytes dst src n m = m\<lparr>bytes := (\<lambda>a. if a - dst < n then bytes m (src + (a - dst)) else bytes m a)\<rparr>"

text \<open>The last two steps of moving: the contents and the release of the old block.\<close>

definition realloc_drop :: "addr \<Rightarrow> rt_uint32_t \<Rightarrow> rt_uint32_t \<Rightarrow> addr \<Rightarrow> memory \<Rightarrow> kernel \<Rightarrow> (realloc_result \<times> memory \<times> kernel) option" where
  "realloc_drop p oldsize sz new m k =
     (if new \<noteq> 0 then
        do { let m = copy_bytes new p (if oldsize < sz then oldsize else sz) m;
             (r, m', k) \<leftarrow> rt_memheap_free p m k;
             case r of
               Waiting t \<Rightarrow> do { h' \<leftarrow> it_pool_ptr (items m (MEMITEM p)); Some (Blocked t (Drop_wait h' new), m', k) }
             | Finished _ \<Rightarrow> Some (Returned new, m', k) }
      else Some (Returned new, m, k))"

definition realloc_move :: "nat \<Rightarrow> addr \<Rightarrow> rt_uint32_t \<Rightarrow> rt_uint32_t \<Rightarrow> memory \<Rightarrow> kernel \<Rightarrow> (realloc_result \<times> memory \<times> kernel) option" where
  "realloc_move h p oldsize sz m k =
     do { (r, m, k) \<leftarrow> rt_memheap_alloc h sz m k;
          case r of Waiting t \<Rightarrow> Some (Blocked t (Move_wait oldsize), m, k) | Finished new \<Rightarrow> realloc_drop p oldsize sz new m k }"

text \<open>Taking a header out of the block list.\<close>

definition block_remove :: "addr \<Rightarrow> memory \<Rightarrow> memory" where
  "block_remove x m =
     (let m = upd_item (it_next (items m x)) (\<lambda>it. it\<lparr>it_prev := it_prev (items m x)\<rparr>) m
      in upd_item (it_prev (items m x)) (\<lambda>it. it\<lparr>it_next := it_next (items m x)\<rparr>) m)"

definition realloc_extend :: "nat \<Rightarrow> addr \<Rightarrow> rt_uint32_t \<Rightarrow> rt_uint32_t \<Rightarrow> memory \<Rightarrow> memory" where
  "realloc_extend h p oldsize sz m =
     (let hp = MEMITEM p;
          nx = it_next (items m hp);
          m = upd_heap h (\<lambda>hd. hd\<lparr>mh_available_size := mh_available_size hd - (sz - oldsize)\<rparr>) m;
          m = memheap_mark h m;
          m = block_remove nx (free_remove nx m);
          new = p + sz
      in free_insert h new (block_insert h hp new m))"

definition realloc_give_up :: "nat \<Rightarrow> addr \<Rightarrow> rt_uint32_t \<Rightarrow> rt_uint32_t \<Rightarrow> memory \<Rightarrow> kernel \<Rightarrow> (realloc_result \<times> memory \<times> kernel) option" where
  "realloc_give_up h p oldsize sz m k =
     do { (_, k) \<leftarrow> rt_sem_release (mh_lock (heaps m h)) k; realloc_move h p oldsize sz m k }"

definition realloc_grow :: "nat \<Rightarrow> addr \<Rightarrow> rt_uint32_t \<Rightarrow> rt_uint32_t \<Rightarrow> memory \<Rightarrow> kernel \<Rightarrow> (realloc_result \<times> memory \<times> kernel) option" where
  "realloc_grow h p oldsize sz m k =
     do { let hp = MEMITEM p;
          let nx = it_next (items m hp);
          RT_ASSERT (nx > hp);
          if \<not> RT_MEMHEAP_IS_USED nx m then
            do { RT_ASSERT (nx > 0);
                 if MEMITEM_SIZE nx m + oldsize > sz + RT_MEMHEAP_MINIALLOC then
                   do { let m = realloc_extend h p oldsize sz m;
                        (_, k) \<leftarrow> rt_sem_release (mh_lock (heaps m h)) k;
                        Some (Returned p, m, k) }
                 else realloc_give_up h p oldsize sz m k }
          else realloc_give_up h p oldsize sz m k }"

definition realloc_split :: "nat \<Rightarrow> addr \<Rightarrow> rt_uint32_t \<Rightarrow> memory \<Rightarrow> memory" where
  "realloc_split h hp sz m =
     (let new = hp + sz + RT_MEMHEAP_SIZE;
          m = block_insert h hp new m;
          nx = it_next (items m new);
          m = (if \<not> RT_MEMHEAP_IS_USED nx m
               then merge_right new (upd_heap h (\<lambda>hd. hd\<lparr>mh_available_size := mh_available_size hd - MEMITEM_SIZE nx m\<rparr>) m) else m);
          m = free_insert h new m
      in upd_heap h (\<lambda>hd. hd\<lparr>mh_available_size := mh_available_size hd + MEMITEM_SIZE new m\<rparr>) m)"

definition realloc_shrink :: "nat \<Rightarrow> addr \<Rightarrow> rt_uint32_t \<Rightarrow> memory \<Rightarrow> kernel \<Rightarrow> (realloc_result \<times> memory \<times> kernel) option" where
  "realloc_shrink h p sz m k =
     do { let m = realloc_split h (MEMITEM p) sz m;
          (_, k) \<leftarrow> rt_sem_release (mh_lock (heaps m h)) k;
          Some (Returned p, m, k) }"

definition rt_memheap_realloc :: "nat \<Rightarrow> addr \<Rightarrow> rt_uint32_t \<Rightarrow> memory \<Rightarrow> kernel \<Rightarrow> (realloc_result \<times> memory \<times> kernel) option" where
  "rt_memheap_realloc h p newsize m k =
     do { RT_ASSERT (rt_object_get_type (Obj h) k = RT_Object_Class_MemHeap);
          if newsize = 0 then
            do { (r, m', k) \<leftarrow> rt_memheap_free p m k;
                 case r of
                   Waiting t \<Rightarrow> do { h' \<leftarrow> it_pool_ptr (items m (MEMITEM p)); Some (Blocked t (Free_wait h'), m', k) }
                 | Finished _ \<Rightarrow> Some (Returned 0, m', k) }
          else do {
            let sz = memheap_round newsize;
            if p = 0 then
              do { (r, m, k) \<leftarrow> rt_memheap_alloc h sz m k;
                   Some (case r of Waiting t \<Rightarrow> Blocked t Alloc_wait | Finished q \<Rightarrow> Returned q, m, k) }
            else do {
              let oldsize = MEMITEM_SIZE (MEMITEM p) m;
              if sz > oldsize then
                do { (r, k) \<leftarrow> rt_sem_take (mh_lock (heaps m h)) (of_int RT_WAITING_FOREVER) k;
                     case r of
                       Waiting t \<Rightarrow> Some (Blocked t (Grow_wait oldsize), m, k)
                     | Finished e \<Rightarrow> if e \<noteq> RT_EOK then Some (Returned 0, m, rt_set_errno (-e) k) else realloc_grow h p oldsize sz m k }
              else if sz + RT_MEMHEAP_SIZE + RT_MEMHEAP_MINIALLOC \<ge> oldsize then Some (Returned p, m, k)
              else
                do { (r, k) \<leftarrow> rt_sem_take (mh_lock (heaps m h)) (of_int RT_WAITING_FOREVER) k;
                     case r of
                       Waiting t \<Rightarrow> Some (Blocked t Shrink_wait, m, k)
                     | Finished e \<Rightarrow> if e \<noteq> RT_EOK then Some (Returned 0, m, rt_set_errno (-e) k) else realloc_shrink h p sz m k } } } }"

definition rt_memheap_realloc_back ::
    "nat \<Rightarrow> addr \<Rightarrow> rt_uint32_t \<Rightarrow> tid \<Rightarrow> realloc_wait \<Rightarrow> memory \<Rightarrow> kernel \<Rightarrow> (realloc_result \<times> memory \<times> kernel) option" where
  "rt_memheap_realloc_back h p newsize t w m k =
     (let sz = memheap_round newsize; e = rt_sem_take_back t k in
      case w of
        Free_wait h' \<Rightarrow> do { (m, k) \<leftarrow> rt_memheap_free_back h' p t m k; Some (Returned 0, m, k) }
      | Alloc_wait \<Rightarrow> do { (q, m, k) \<leftarrow> rt_memheap_alloc_back h sz t m k; Some (Returned q, m, k) }
      | Grow_wait oldsize \<Rightarrow> if e \<noteq> RT_EOK then Some (Returned 0, m, rt_set_errno (-e) k) else realloc_grow h p oldsize sz m k
      | Move_wait oldsize \<Rightarrow> do { (q, m, k) \<leftarrow> rt_memheap_alloc_back h sz t m k; realloc_drop p oldsize sz q m k }
      | Drop_wait h' new \<Rightarrow> do { (m, k) \<leftarrow> rt_memheap_free_back h' p t m k; Some (Returned new, m, k) }
      | Shrink_wait \<Rightarrow> if e \<noteq> RT_EOK then Some (Returned 0, m, rt_set_errno (-e) k) else realloc_shrink h p sz m k)"

section \<open>Growing in place\<close>

lemma linked_block_remove:
  assumes l: "blocks_linked m h (as @ b # c # d # ds) fs"
  shows "blocks_linked (block_remove c m) h (as @ b # d # ds) fs"
proof -
  have r: "ring (nxt m) (prv m) (as @ b # c # d # ds)" using l by (simp add: blocks_linked_def)
  have n: "nxt m c = d" "prv m c = b" using ring_next [of "nxt m" "prv m" as b c "d # ds"] ring_next [of "nxt m" "prv m" "as @ [b]" c d ds] r by simp_all
  have "c \<noteq> b" "c \<noteq> d" using r by (auto simp: ring_def)
  then have f: "nxt (block_remove c m) = (nxt m)(b := nxt m c)" "prv (block_remove c m) = (prv m)(nxt m c := b)" "nfr (block_remove c m) = nfr m"
    "pfr (block_remove c m) = pfr m" "mag (block_remove c m) = mag m" "pool (block_remove c m) = pool m" "heaps (block_remove c m) h = heaps m h"
    using n by (auto simp: block_remove_def Let_def field_defs fun_eq_iff)
  show ?thesis by (rule linked_block_delete [OF l f])
qed

lemma block_remove_frame: "mag (block_remove c m) = mag m" "heaps (block_remove c m) = heaps m" "bytes (block_remove c m) = bytes m"
  by (auto simp: block_remove_def Let_def mag_def fun_eq_iff)

lemma free_insert_next: "nxt (free_insert h x m) = nxt m"
  by (auto simp: free_insert_def field_defs Let_def fun_eq_iff)

lemma block_insert_frame:
  "mag (block_insert h b x m) = (mag m)(x := RT_MEMHEAP_MAGIC OR RT_MEMHEAP_FREED)" "heaps (block_insert h b x m) = heaps m" "bytes (block_insert h b x m) = bytes m"
  by (auto simp: block_insert_def Let_def mag_def fun_eq_iff)

text \<open>A free block \<open>c\<close> behind the used block \<open>b\<close> is replaced by one that starts at \<open>n\<close>.\<close>

lemma shift_total:
  assumes d: "n \<notin> set (as @ b # d # ds)" and u: "u b" "\<not> u c" and n: "unat c + 24 \<le> unat d" "unat n + 24 \<le> unat d"
  defines "v \<equiv> u(n := False)"
  shows "free_total v (as @ b # n # d # ds) + unat n = free_total u (as @ b # c # d # ds) + unat c"
    "held v (as @ b # n # d # ds) = held u (as @ [b]) @ (b + RT_MEMHEAP_SIZE, unat n - unat b - 24) # held u (d # ds)"
    "held u (as @ b # c # d # ds) = held u (as @ [b]) @ (b + RT_MEMHEAP_SIZE, unat c - unat b - 24) # held u (d # ds)"
    "alternate u (as @ b # c # d # ds) \<Longrightarrow> alternate v (as @ b # n # d # ds)"
proof -
  have v: "v x = u x" if "x \<in> set as \<union> set (d # ds)" for x using that d by (auto simp: v_def)
  have *: "held v (as @ [b]) = held u (as @ [b])" "held v (d # ds) = held u (d # ds)" "free_total v (as @ [b]) = free_total u (as @ [b])"
    "free_total v (d # ds) = free_total u (d # ds)"
    by (rule parts_cong [where as = as and cs = "d # ds" and u = u and v = v], erule v)+
  have vb: "v b" "\<not> v n" using d u by (auto simp: v_def)
  show "free_total v (as @ b # n # d # ds) + unat n = free_total u (as @ b # c # d # ds) + unat c"
    "held v (as @ b # n # d # ds) = held u (as @ [b]) @ (b + RT_MEMHEAP_SIZE, unat n - unat b - 24) # held u (d # ds)"
    "held u (as @ b # c # d # ds) = held u (as @ [b]) @ (b + RT_MEMHEAP_SIZE, unat c - unat b - 24) # held u (d # ds)"
    unfolding held_split [of _ as b] free_total_split [of _ as b] using u vb n by (simp_all add: *)
  assume "alternate u (as @ b # c # d # ds)"
  then have "alternate u (as @ [b])" "u d" "alternate u (d # ds)" using u by (simp_all add: alternate_split [of _ as b])
  moreover have "v x = u x" if "x \<in> set (as @ [b])" for x using that d by (auto simp: v_def)
  ultimately have "alternate v (as @ [b])" "v d" "alternate v (d # ds)"
    using alternate_cong [of u "as @ [b]" v] alternate_cong [of u "d # ds" v] v by auto
  then show "alternate v (as @ b # n # d # ds)" using vb by (simp add: alternate_split [of _ as b])
qed

lemma replaced_frees:
  assumes "set fs = {x \<in> set (as @ b # c # ds). \<not> u x}" "distinct (as @ b # c # ds)" "distinct fs" "fs = f1 @ c # f2" "n \<notin> set (as @ b # ds)"
  shows "set (f1 @ f2) = {x \<in> set (as @ b # n # ds). x \<noteq> n \<and> \<not> u x}"
proof -
  have "set (f1 @ f2) = set fs - {c}" using assms(3,4) by auto
  also have "\<dots> = {x \<in> set (as @ b # ds). \<not> u x}" unfolding assms(1) using assms(2) by auto
  finally show ?thesis using assms(5) by auto
qed

lemma realloc_extend_ok:
  assumes r: "heap_rel m h (as @ b # c # d # ds) fs" and u: "used m b" "\<not> used m c" and old: "oldsize = MEMITEM_SIZE b m"
    and sz: "unat oldsize < unat sz" "unat b + unat sz + 60 \<le> unat d" "4 dvd unat sz"
  defines "m' \<equiv> realloc_extend h (b + RT_MEMHEAP_SIZE) oldsize sz m"
  shows "\<exists>bs' fs'. heap_rel m' h bs' fs' \<and> heap_frame h m m'
    \<and> held (used m') bs' = held (used m) (as @ [b]) @ (b + RT_MEMHEAP_SIZE, unat sz) # held (used m) (d # ds)"
proof -
  have pre: "heap_pre m h (as @ b # c # d # ds) fs" and o: "set fs = {x \<in> set (as @ b # c # d # ds). \<not> used m x}" "used m (last (d # ds))"
    "alternate (used m) (as @ b # c # d # ds)" using r by (simp_all add: heap_rel_pre)
  note n = heap_pre_next [OF pre] and n2 = heap_pre_next [of m h "as @ [b]" c d ds fs, simplified, OF pre]
  have "c \<in> set fs" using o(1) u by simp
  then obtain f1 f2 where f: "fs = f1 @ c # f2" by (auto simp: in_set_conv_decomp)
  define np where "np = b + RT_MEMHEAP_SIZE + sz"
  have lay: "layout (heaps m h) (as @ b # c # d # ds)" and lk: "blocks_linked m h (as @ b # c # d # ds) fs"
    and av: "unat (mh_available_size (heaps m h)) = free_total (used m) (as @ b # c # d # ds)" using pre by (simp_all add: heap_pre_def)
  have "unat d < 2 ^ 32" using unsigned_less [of d, where 'a = nat] by simp
  then have np: "unat np = unat b + 24 + unat sz" using sz(2) by (simp add: np_def rt_consts unat_word_ariths)
  obtain j where j: "unat sz = 4 * j" using sz(3) by (auto simp: dvd_def)
  have "unat oldsize = unat c - unat b - 24" unfolding old by (rule n(3))
  then have g: "unat c < unat np" "unat b + 36 \<le> unat np" "unat np + 36 \<le> unat d" using np sz n(6) by simp_all
  have "unat np = unat b + 4 * (j + 6)" using np j by simp
  then have "unat np mod 4 = unat b mod 4" by (simp only: mod_mult_self2)
  note ins = layout_insert [OF layout_delete [OF lay] g(2,3) this]
  have nf: "np \<notin> set (f1 @ f2)" using o(1) f ins(2) g(1) by auto
  define m1 where "m1 = memheap_mark h (upd_heap h (\<lambda>hd. hd\<lparr>mh_available_size := mh_available_size hd - (sz - oldsize)\<rparr>) m)"
  define m2 where "m2 = block_insert h b np (block_remove c (free_remove c m1))"
  have m': "m' = free_insert h np m2"
    using n(1) by (simp add: m'_def realloc_extend_def Let_def m2_def m1_def np_def)
  have "blocks_linked m1 h (as @ b # c # d # ds) (f1 @ c # f2)"
    by (rule linked_frame [of m]) (use lk f in \<open>simp_all add: m1_def piece_fields\<close>)
  from linked_block_remove [OF linked_free_remove [OF this]] have l2: "blocks_linked m2 h (as @ b # np # d # ds) (f1 @ f2)"
    unfolding m2_def by (rule linked_block_insert [OF _ ins(2)]) (use ins(3) in \<open>simp add: m1_def piece_fields block_remove_frame\<close>)
  have lk': "blocks_linked m' h (as @ b # np # d # ds) (np # f1 @ f2)" unfolding m' by (rule linked_free_insert [OF l2 nf]) simp
  have fr: "heap_frame h m m'" by (simp add: heap_frame_def m' m2_def m1_def free_insert_frame block_insert_frame block_remove_frame piece_fields)
  have u': "used m' = (used m)(np := False)"
    by (auto simp: used_fun fun_eq_iff m' m2_def m1_def free_insert_frame block_insert_frame block_remove_frame piece_fields)
  have ge: "unat c + 24 \<le> unat d" "unat np + 24 \<le> unat d" using n2(6) g(3) by simp_all
  note st = shift_total [where u = "used m", OF ins(2) u ge, folded u']
  have "mh_available_size (heaps m' h) = mh_available_size (heaps m h) - (sz - oldsize)"
    by (simp add: m' m2_def m1_def free_insert_frame block_insert_frame block_remove_frame piece_fields)
  moreover have "unat (sz - oldsize) = unat sz - unat oldsize" using sz(1) by (subst unat_sub) (simp_all add: word_le_nat_alt)
  moreover have "unat sz - unat oldsize = unat np - unat c" using np \<open>unat oldsize = unat c - unat b - 24\<close> n(6) by simp
  ultimately have "unat (mh_available_size (heaps m' h)) = free_total (used m') (as @ b # np # d # ds)"
    using st(1) av g(1) by (simp add: unat_sub word_le_nat_alt)
  then have "heap_pre m' h (as @ b # np # d # ds) (np # f1 @ f2)"
    using ins(1) layout_heap_frame [OF fr] lk' by (simp add: heap_pre_def)
  moreover have "set (np # f1 @ f2) = {x \<in> set (as @ b # np # d # ds). \<not> used m' x}"
    using replaced_frees [OF o(1) n(4,7) f ins(2)] fun_cong [OF u'] ins(2) by auto
  moreover have "used m' (last (as @ b # np # d # ds))" using o(2) ins(2) fun_cong [OF u'] by (auto split: if_splits)
  ultimately have "heap_rel m' h (as @ b # np # d # ds) (np # f1 @ f2)" using st(4) [OF o(3)] unfolding heap_rel_pre by blast
  moreover have "held (used m') (as @ b # np # d # ds) = held (used m) (as @ [b]) @ (b + RT_MEMHEAP_SIZE, unat sz) # held (used m) (d # ds)"
    using st(2) np by simp
  ultimately show ?thesis using fr by blast
qed

section \<open>Shrinking\<close>

text \<open>A used block \<open>b\<close> is cut at \<open>n\<close>.\<close>

lemma cut_total:
  assumes d: "n \<notin> set (as @ b # c # cs)" and u: "u b" and n: "unat n + 24 \<le> unat c"
  defines "v \<equiv> u(n := False)"
  shows "free_total v (as @ b # n # c # cs) = free_total u (as @ b # c # cs) + (unat c - unat n - 24)"
    "held v (as @ b # n # c # cs) = held u (as @ [b]) @ (b + RT_MEMHEAP_SIZE, unat n - unat b - 24) # held u (c # cs)"
    "u c \<Longrightarrow> alternate u (as @ b # c # cs) \<Longrightarrow> alternate v (as @ b # n # c # cs)"
proof -
  have v: "v x = u x" if "x \<in> set as \<union> set (c # cs)" for x using that d by (auto simp: v_def)
  have *: "held v (as @ [b]) = held u (as @ [b])" "held v (c # cs) = held u (c # cs)" "free_total v (as @ [b]) = free_total u (as @ [b])"
    "free_total v (c # cs) = free_total u (c # cs)"
    by (rule parts_cong [where as = as and cs = "c # cs" and u = u and v = v], erule v)+
  have vb: "v b" "\<not> v n" using d u by (auto simp: v_def)
  show "free_total v (as @ b # n # c # cs) = free_total u (as @ b # c # cs) + (unat c - unat n - 24)"
    "held v (as @ b # n # c # cs) = held u (as @ [b]) @ (b + RT_MEMHEAP_SIZE, unat n - unat b - 24) # held u (c # cs)"
    unfolding held_split [of _ as b] free_total_split [of _ as b] using u vb n by (simp_all add: *)
  assume "u c" "alternate u (as @ b # c # cs)"
  then have "alternate u (as @ [b])" "u c" "alternate u (c # cs)" by (simp_all add: alternate_split [of _ as b])
  moreover have "v x = u x" if "x \<in> set (as @ [b])" for x using that d by (auto simp: v_def)
  ultimately have "alternate v (as @ [b])" "v c" "alternate v (c # cs)"
    using alternate_cong [of u "as @ [b]" v] alternate_cong [of u "c # cs" v] v by auto
  then show "alternate v (as @ b # n # c # cs)" using vb by (simp add: alternate_split [of _ as b])
qed

lemma realloc_split_ok:
  assumes r: "heap_rel m h (as @ b # c # cs) fs" and u: "used m b" and sz: "unat sz + 36 < unat c - unat b - 24" "12 \<le> unat sz" "4 dvd unat sz"
  defines "m' \<equiv> realloc_split h b sz m"
  shows "\<exists>bs' fs'. heap_rel m' h bs' fs' \<and> heap_frame h m m'
    \<and> held (used m') bs' = held (used m) (as @ [b]) @ (b + RT_MEMHEAP_SIZE, unat sz) # held (used m) (c # cs)"
proof -
  have pre: "heap_pre m h (as @ b # c # cs) fs" and o: "set fs = {x \<in> set (as @ b # c # cs). \<not> used m x}" "used m (last (c # cs))"
    "alternate (used m) (as @ b # c # cs)" using r by (simp_all add: heap_rel_pre)
  have lay: "layout (heaps m h) (as @ b # c # cs)" and lk: "blocks_linked m h (as @ b # c # cs) fs"
    and av: "unat (mh_available_size (heaps m h)) = free_total (used m) (as @ b # c # cs)" using pre by (simp_all add: heap_pre_def)
  define n where "n = b + sz + RT_MEMHEAP_SIZE"
  have "unat c < 2 ^ 32" using unsigned_less [of c, where 'a = nat] by simp
  then have n: "unat n = unat b + unat sz + 24" using sz(1) by (simp add: n_def rt_consts unat_word_ariths)
  obtain j where j: "unat sz = 4 * j" using sz(3) by (auto simp: dvd_def)
  have "unat n = unat b + 4 * (j + 6)" using n j by simp
  then have "unat n mod 4 = unat b mod 4" by (simp only: mod_mult_self2)
  moreover have g: "unat b + 36 \<le> unat n" "unat n + 36 \<le> unat c" using n sz by simp_all
  ultimately have ins: "layout (heaps m h) (as @ b # n # c # cs)" "n \<notin> set (as @ b # c # cs)" "n \<noteq> mh_free_list (heaps m h)"
    using layout_insert [OF lay] by blast+
  define m1 where "m1 = block_insert h b n m"
  have l1: "blocks_linked m1 h (as @ b # n # c # cs) fs" unfolding m1_def by (rule linked_block_insert [OF lk ins(2,3)])
  have f1: "mag m1 = (mag m)(n := RT_MEMHEAP_MAGIC OR RT_MEMHEAP_FREED)" "heaps m1 = heaps m" "bytes m1 = bytes m" by (simp_all add: m1_def block_insert_frame)
  have nx: "it_next (items m1 n) = c" using ring_next(1) [of "nxt m1" "prv m1" "as @ [b]" n c cs] l1 by (simp add: blocks_linked_def nxt_def)
  have u1: "used m1 c = used m c" using ins(2) by (auto simp: used_mag f1)
  have nf: "n \<notin> set fs" using o(1) ins(2) by auto
  show ?thesis
  proof (cases "used m c")
    case True
    define m2 where "m2 = free_insert h n m1"
    have m': "m' = upd_heap h (\<lambda>hd. hd\<lparr>mh_available_size := mh_available_size hd + MEMITEM_SIZE n m2\<rparr>) m2"
      using True u1 nx by (simp add: m'_def realloc_split_def Let_def n_def [symmetric] m1_def [symmetric] m2_def)
    have l2: "blocks_linked m2 h (as @ b # n # c # cs) (n # fs)" unfolding m2_def by (rule linked_free_insert [OF l1 nf]) simp
    have "nxt m2 n = c" using ring_next(1) [of "nxt m2" "prv m2" "as @ [b]" n c cs] l2 by (simp add: blocks_linked_def)
    then have z: "unat (MEMITEM_SIZE n m2) = unat c - unat n - 24" using item_size [of "heaps m h" "as @ [b]" n c cs m2] ins(1) by simp
    have l3: "blocks_linked m' h (as @ b # n # c # cs) (n # fs)" by (rule linked_frame [OF l2]) (simp_all add: m' piece_fields)
    have fr: "heap_frame h m m'" by (simp add: heap_frame_def m' m2_def free_insert_frame f1)
    have u': "used m' = (used m)(n := False)" by (auto simp: used_fun fun_eq_iff m' m2_def free_insert_frame f1 piece_fields)
    have g2: "unat n + 24 \<le> unat c" using g by simp
    note ct = cut_total [where u = "used m", OF ins(2) u g2, folded u']
    have lay': "layout (heaps m' h) (as @ b # n # c # cs)" using ins(1) layout_heap_frame [OF fr] by simp
    have "unat (mh_available_size (heaps m h)) + unat (MEMITEM_SIZE n m2) = free_total (used m') (as @ b # n # c # cs)"
      using ct(1) av z by simp
    then have "unat (mh_available_size (heaps m' h)) = free_total (used m') (as @ b # n # c # cs)"
      using count_up [OF lay'] by (simp add: m' m2_def free_insert_frame f1)
    then have "heap_pre m' h (as @ b # n # c # cs) (n # fs)" using lay' l3 by (simp add: heap_pre_def)
    moreover have "set (n # fs) = {x \<in> set (as @ b # n # c # cs). \<not> used m' x}" using o(1) ins(2) fun_cong [OF u'] by auto
    moreover have "used m' (last (as @ b # n # c # cs))" using o(2) ins(2) fun_cong [OF u'] by (auto split: if_splits)
    ultimately have "heap_rel m' h (as @ b # n # c # cs) (n # fs)" using ct(3) [OF True o(3)] unfolding heap_rel_pre by blast
    moreover have "held (used m') (as @ b # n # c # cs) = held (used m) (as @ [b]) @ (b + RT_MEMHEAP_SIZE, unat sz) # held (used m) (c # cs)"
      using ct(2) n by simp
    ultimately show ?thesis using fr by blast
  next
    case False
    then obtain d ds where ds: "cs = d # ds" using o(2) by (cases cs) auto
    have "c \<in> set fs" using o(1) False by simp
    then obtain g1 g2 where fs: "fs = g1 @ c # g2" by (auto simp: in_set_conv_decomp)
    define m2 where "m2 = upd_heap h (\<lambda>hd. hd\<lparr>mh_available_size := mh_available_size hd - MEMITEM_SIZE c m1\<rparr>) m1"
    define m3 where "m3 = free_insert h n (merge_right n m2)"
    have m': "m' = upd_heap h (\<lambda>hd. hd\<lparr>mh_available_size := mh_available_size hd + MEMITEM_SIZE n m3\<rparr>) m3"
      using False u1 nx by (simp add: m'_def realloc_split_def Let_def n_def [symmetric] m1_def [symmetric] m2_def [symmetric] m3_def)
    have "blocks_linked m2 h ((as @ [b]) @ n # c # d # ds) (g1 @ c # g2)"
      by (rule linked_frame [of m1]) (use l1 ds fs in \<open>simp_all add: m2_def piece_fields\<close>)
    note mr = linked_merge_right [OF this]
    have l3: "blocks_linked m3 h (as @ b # n # d # ds) (n # g1 @ g2)"
      unfolding m3_def by (rule linked_free_insert) (use mr(1) nf fs in auto)
    have f3: "mag m3 = mag m1" "heaps m3 = heaps m2" "bytes m3 = bytes m" 
      by (simp_all add: m3_def free_insert_frame mr(2-4)) (simp_all add: m2_def f1 piece_fields)
    have "nxt m3 n = d" using ring_next(1) [of "nxt m3" "prv m3" "as @ [b]" n d ds] l3 by (simp add: blocks_linked_def)
    moreover have lay2: "layout (heaps m h) (as @ b # n # d # ds)" using layout_delete [of "heaps m h" "as @ [b]" n c d ds] ins(1) ds by simp
    ultimately have z: "unat (MEMITEM_SIZE n m3) = unat d - unat n - 24" using item_size [of "heaps m h" "as @ [b]" n d ds m3] by simp
    have "nxt m1 c = d" using ring_next(1) [of "nxt m1" "prv m1" "as @ [b, n]" c d ds] l1 ds by (simp add: blocks_linked_def)
    then have zc: "unat (MEMITEM_SIZE c m1) = unat d - unat c - 24" using item_size [of "heaps m h" "as @ [b]" c d ds m1] lay ds by simp
    have gd: "unat c + 36 \<le> unat d" using layout_gap(1) [of "heaps m h" "as @ [b]" c d ds] lay ds by simp
    have l4: "blocks_linked m' h (as @ b # n # d # ds) (n # g1 @ g2)" by (rule linked_frame [OF l3]) (simp_all add: m' piece_fields)
    have fr: "heap_frame h m m'" by (simp add: heap_frame_def m' f3 m2_def f1)
    have u': "used m' = (used m)(n := False)" by (auto simp: used_fun fun_eq_iff m' f3 f1 piece_fields)
    have n2: "n \<notin> set (as @ b # d # ds)" using ins(2) ds by auto
    have ge: "unat c + 24 \<le> unat d" "unat n + 24 \<le> unat d" using gd g by simp_all
    note st = shift_total [where u = "used m", OF n2 u False ge, folded u']
    have lay': "layout (heaps m' h) (as @ b # n # d # ds)" using lay2 layout_heap_frame [OF fr] by simp
    have le: "unat d - unat c - 24 \<le> unat (mh_available_size (heaps m h))" using av ds u False by (simp add: free_total_split [of _ as b])
    then have "unat (mh_available_size (heaps m h) - MEMITEM_SIZE c m1) = unat (mh_available_size (heaps m h)) - (unat d - unat c - 24)"
      using zc by (subst unat_sub) (simp_all add: word_le_nat_alt)
    then have "unat (mh_available_size (heaps m h) - MEMITEM_SIZE c m1) + unat (MEMITEM_SIZE n m3) = free_total (used m') (as @ b # n # d # ds)"
      using st(1) av z ds le gd g by simp
    then have "unat (mh_available_size (heaps m' h)) = free_total (used m') (as @ b # n # d # ds)"
      using count_up [OF lay'] by (simp add: m' f3 m2_def f1)
    then have "heap_pre m' h (as @ b # n # d # ds) (n # g1 @ g2)" using lay' l4 by (simp add: heap_pre_def)
    moreover have "set (n # g1 @ g2) = {x \<in> set (as @ b # n # d # ds). \<not> used m' x}"
      using replaced_frees [OF o(1) [unfolded ds] heap_pre_next(4,7) [OF pre, unfolded ds] fs n2] fun_cong [OF u'] n2 by auto
    moreover have "used m' (last (as @ b # n # d # ds))" using o(2) ins(2) fun_cong [OF u'] ds by (auto split: if_splits)
    ultimately have "heap_rel m' h (as @ b # n # d # ds) (n # g1 @ g2)" using st(4) o(3) ds unfolding heap_rel_pre by blast
    moreover have "held (used m') (as @ b # n # d # ds) = held (used m) (as @ [b]) @ (b + RT_MEMHEAP_SIZE, unat sz) # held (used m) (c # cs)"
      using st(2) n ds False by simp
    ultimately show ?thesis using fr by blast
  qed
qed

section \<open>Moving\<close>

lemma apart_pair:
  "apart S \<Longrightarrow> (p, n) \<in> set S \<Longrightarrow> (q, l) \<in> set S \<Longrightarrow> (p, n) = (q, l) \<or> unat p + n + 24 \<le> unat q \<or> unat q + l + 24 \<le> unat p"
  by (induction S) auto

lemma holds_bytes [simp]: "holds (copy_bytes d q n m) h S F = holds m h S F"
proof -
  have "used (copy_bytes d q n m) = used m" "heaps (copy_bytes d q n m) = heaps m" "nxt (copy_bytes d q n m) = nxt m" "prv (copy_bytes d q n m) = prv m"
    "nfr (copy_bytes d q n m) = nfr m" "pfr (copy_bytes d q n m) = pfr m" "mag (copy_bytes d q n m) = mag m" "pool (copy_bytes d q n m) = pool m"
    by (simp_all add: copy_bytes_def fun_eq_iff RT_MEMHEAP_IS_USED_def field_defs)
  then show ?thesis by (simp add: holds_def heap_rel_def blocks_linked_def fun_cong [of "used (copy_bytes d q n m)" "used m"])
qed

lemma copy_bytes_in:
  assumes "i < unat n"
  shows "bytes (copy_bytes d q n m) (d + of_nat i) = bytes m (q + of_nat i)"
proof -
  have "i < 2 ^ 32" using assms unsigned_less [of n, where 'a = nat] by simp
  then have "unat (of_nat i :: addr) = i" by (simp add: unat_of_nat)
  then show ?thesis using assms by (simp add: copy_bytes_def word_less_nat_alt)
qed

lemma copy_bytes_out:
  assumes d: "unat d + unat n \<le> 2 ^ 32" and x: "unat x + i < 2 ^ 32" "unat x + i < unat d \<or> unat d + unat n \<le> unat x + i"
  shows "bytes (copy_bytes d q n m) (x + of_nat i) = bytes m (x + of_nat i)"
proof -
  have "unat (x + of_nat i) = unat x + i" using x(1) by (simp add: unat_word_ariths unat_of_nat)
  then have "\<not> (x + of_nat i) - d < n" using d x by (auto simp: word_less_nat_alt unat_sub_if')
  then show ?thesis by (simp add: copy_bytes_def)
qed

lemma memheap_round_idem: "memheap_round (memheap_round sz) = memheap_round sz"
proof -
  have *: "RT_ALIGN w = w" if w: "4 dvd unat w" for w :: rt_uint32_t
  proof -
    obtain j where j: "unat w = 4 * j" using w by (auto simp: dvd_def)
    have "unat w < 2 ^ 32" using unsigned_less [of w, where 'a = nat] by simp
    then have "unat (w + 3) = 4 * j + 3" using j by (simp add: unat_word_ariths)
    then have "unat (RT_ALIGN w) = unat w" unfolding RT_ALIGN_def align_4 using j by simp
    then show ?thesis by (simp only: word_unat_eq_iff)
  qed
  show ?thesis using * [OF memheap_round_facts(2) [of sz]] memheap_round_facts(1) [of sz]
    by (simp add: memheap_round_def [of "memheap_round sz"] Let_def word_less_nat_alt RT_MEMHEAP_MINIALLOC_def)
qed

lemma sizes_aligned:
  assumes "holds m h S F" and "(p, n) \<in> set S"
  shows "4 dvd n"
proof -
  obtain bs fs where r: "heap_rel m h bs fs" "S = held (used m) bs" using assms(1) by (auto simp: holds_def)
  from held_at [OF assms(2) [unfolded r(2)]] obtain as b c cs where b: "bs = as @ b # c # cs" "n = unat c - unat b - 24" by metis
  have "unat c mod 4 = unat b mod 4" "unat b + 36 \<le> unat c" using layout_gap(5,1) [of "heaps m h" as b c cs] r(1) b(1) by (simp_all add: heap_rel_def)
  then have "4 dvd unat c - unat b" by (simp add: mod_eq_dvd_iff_nat)
  then obtain j where "unat c - unat b = 4 * j" by (auto simp: dvd_def)
  then have "n = 4 * (j - 6)" using b(2) by simp
  then show ?thesis by simp
qed

text \<open>What the service promises for a block: it stays, or another one is there instead of it, and no contents is lost.\<close>

definition reallocated :: "nat \<Rightarrow> (addr \<times> nat) list \<Rightarrow> addr \<Rightarrow> nat \<Rightarrow> rt_uint32_t \<Rightarrow> addr \<Rightarrow> memory \<Rightarrow> memory \<Rightarrow> bool" where
  "reallocated h S p n sz r m m' \<longleftrightarrow> (\<exists>S' F' l. holds m' h S' F' \<and> unat sz \<le> l \<and> set S' = insert (r, l) (set S)
     \<and> (\<forall>i < min n l. bytes m' (r + of_nat i) = bytes m (p + of_nat i))
     \<and> (\<forall>(q, j)\<in>set S. \<forall>i<j. bytes m' (q + of_nat i) = bytes m (q + of_nat i)))"

lemma realloc_move_ok:
  assumes hs: "holds m h (s1 @ (p, n) # s2) F" and rd: "heap_ready h m k" and sz: "sz = memheap_round x" and old: "n = unat oldsize" "oldsize < sz"
  shows "\<exists>r m'. realloc_move h p oldsize sz m k = Some (Returned r, m', k)
    \<and> (if r = 0 then m' = m \<and> \<not> (sz < mh_available_size (heaps m h) \<and> (\<exists>(q, l)\<in>set F. unat sz \<le> l)) else reallocated h (s1 @ s2) p n sz r m m')"
proof (cases "sz < mh_available_size (heaps m h) \<and> (\<exists>(q, l)\<in>set F. unat sz \<le> l)")
  case False
  then have "rt_memheap_alloc h sz m k = Some (Finished 0, m, k)" by (intro heap_alloc_null [OF hs rd, of sz]) (simp_all add: sz memheap_round_idem)
  then show ?thesis using False by (intro exI [of _ 0] exI [of _ m]) (simp add: realloc_move_def realloc_drop_def)
next
  case True
  have n: "sz = memheap_round sz" by (simp add: sz memheap_round_idem)
  from heap_alloc_gets [OF hs rd n conjunct1 [OF True] conjunct2 [OF True]] obtain r l t1 t2 f1 f2 m1 where a:
    "rt_memheap_alloc h sz m k = Some (Finished r, m1, k)" "r \<noteq> 0" "heap_frame h m m1" "s1 @ (p, n) # s2 = t1 @ t2" "unat sz \<le> l"
    "holds m1 h (t1 @ (r, if splits sz l then unat sz else l) # t2) (f1 @ (if splits sz l then [(r + sz + RT_MEMHEAP_SIZE, l - unat sz - 24)] else []) @ f2)" .
  define l' where "l' = (if splits sz l then unat sz else l)"
  have l': "unat sz \<le> l'" using a(5) by (simp add: l'_def)
  note h1 = a(6) [folded l'_def]
  have ap: "apart (t1 @ (r, l') # t2)" by (rule holds_facts(1) [OF h1])
  define m2 where "m2 = copy_bytes r p oldsize m1"
  have h2: "holds m2 h (t1 @ (r, l') # t2) (f1 @ (if splits sz l then [(r + sz + RT_MEMHEAP_SIZE, l - unat sz - 24)] else []) @ f2)"
    using h1 by (simp add: m2_def)
  have mem: "(p, n) \<in> set (t1 @ (r, l') # t2)" using arg_cong [OF a(4), of set] by auto
  then obtain u1 u2 where u: "t1 @ (r, l') # t2 = u1 @ (p, n) # u2" by (meson split_list)
  have "heap_ready h m2 k" using rd a(3) by (simp add: heap_ready_def heap_frame_def m2_def copy_bytes_def)
  from heap_free_gives [OF h2 [unfolded u] this] obtain m3 F3 where f: "rt_memheap_free p m2 k = Some (Finished (), m3, k)" "heap_frame h m2 m3" "holds m3 h (u1 @ u2) F3" .
  have "realloc_move h p oldsize sz m k = Some (Returned r, m3, k)"
    using a(1,2) f(1) old(2) by (simp add: realloc_move_def realloc_drop_def Let_def m2_def)
  moreover have "reallocated h (s1 @ s2) p n sz r m m3"
  proof -
    have d: "distinct (map fst (t1 @ (r, l') # t2))" "distinct (map fst (s1 @ (p, n) # s2))"
      using apart_distinct [OF ap] apart_distinct [OF holds_facts(1) [OF hs]] .
    have du: "distinct (map fst (u1 @ (p, n) # u2))" using d(1) u by simp
    have rp: "r \<noteq> p" using d(1) arg_cong [OF a(4), of "\<lambda>xs. p \<in> fst ` set xs"] by auto
    have "set (u1 @ u2) = set (t1 @ (r, l') # t2) - {(p, n)}" unfolding u using du by (auto simp: image_iff)
    also have "\<dots> = insert (r, l') (set (s1 @ (p, n) # s2) - {(p, n)})" using rp unfolding a(4) by auto
    also have "set (s1 @ (p, n) # s2) - {(p, n)} = set (s1 @ s2)" using d(2) by (auto simp: image_iff)
    finally have S: "set (u1 @ u2) = insert (r, l') (set (s1 @ s2))" .
    have b: "bytes m3 = bytes m2" "bytes m1 = bytes m" using f(2) a(3) by (simp_all add: heap_frame_def)
    have rb: "unat r + l' \<le> unat (mh_start_addr (heaps m1 h) + mh_pool_size (heaps m1 h) - 24)" using holds_facts(3) [OF h1, of r l'] by simp
    then have top: "unat r + unat oldsize \<le> 2 ^ 32" using unsigned_less [of "mh_start_addr (heaps m1 h) + mh_pool_size (heaps m1 h) - 24", where 'a = nat] l' old(2)
      by (simp add: word_less_nat_alt)
    have "bytes m3 (q + of_nat i) = bytes m (q + of_nat i)" if q: "(q, j) \<in> set (s1 @ s2)" "i < j" for q j i
    proof -
      have qm: "(q, j) \<in> set (t1 @ (r, l') # t2)" using q(1) arg_cong [OF a(4), of set] by auto
      have "(q, j) \<in> set t1 \<union> set t2" using q(1) arg_cong [OF a(4), of set] by auto
      then have ne: "(q, j) \<noteq> (r, l')" using d(1) by force
      have "unat q + j \<le> unat (mh_start_addr (heaps m1 h) + mh_pool_size (heaps m1 h) - 24)" using holds_facts(3) [OF h1 UnI1 [OF qm]] by simp
      then have "unat q + i < 2 ^ 32" using q(2) unsigned_less [of "mh_start_addr (heaps m1 h) + mh_pool_size (heaps m1 h) - 24", where 'a = nat] by simp
      moreover have "unat q + i < unat r \<or> unat r + unat oldsize \<le> unat q + i"
        using apart_pair [OF ap qm, of r l'] ne q(2) l' old(2) by (auto simp: word_less_nat_alt)
      ultimately show ?thesis unfolding b(1) m2_def using copy_bytes_out [OF top, of q i p m1] b(2) by simp
    qed
    moreover have "bytes m3 (r + of_nat i) = bytes m (p + of_nat i)" if "i < min n l'" for i
      unfolding b(1) m2_def using copy_bytes_in [of i oldsize r p m1] that old(1) b(2) by simp
    ultimately show ?thesis using S f(3) l' unfolding reallocated_def by blast
  qed
  ultimately show ?thesis using a(2) by (intro exI [of _ r] exI [of _ m3]) simp
qed

section \<open>The service\<close>

lemma reallocated_in_place:
  assumes "holds m' h (s1 @ (p, l) # s2) F'" and "bytes m' = bytes m" and "unat sz \<le> l"
  shows "reallocated h (s1 @ s2) p n sz p m m'"
  unfolding reallocated_def using assms by (intro exI [of _ "s1 @ (p, l) # s2"] exI [of _ F'] exI [of _ l]) auto

lemma realloc_case_grow:
  assumes hs: "holds m h (s1 @ (p, n) # s2) F" and rd: "heap_ready h m k" and sz: "sz = memheap_round x" "n < unat sz" "unat sz \<le> 0xfffffff0"
    and rel: "rt_sem_release (mh_lock (heaps m h)) k1 = Some (RT_EOK, k)"
  shows "\<exists>r m'. realloc_grow h p (MEMITEM_SIZE (MEMITEM p) m) sz m k1 = Some (Returned r, m', k)
    \<and> (if r = 0 then m' = m \<and> \<not> (sz < mh_available_size (heaps m h) \<and> (\<exists>(q, l)\<in>set F. unat sz \<le> l)) else reallocated h (s1 @ s2) p n sz r m m')"
proof -
  obtain as b c cs fs where r': "heap_rel m h (as @ b # c # cs) fs" and b: "used m b" "p = b + RT_MEMHEAP_SIZE" "n = unat c - unat b - 24"
    and split: "s1 = held (used m) (as @ [b])" "s2 = held (used m) (c # cs)" by (rule holds_block [OF hs])
  have pre: "heap_pre m h (as @ b # c # cs) fs" using r' by (simp add: heap_rel_pre)
  note nx = heap_pre_next [OF pre]
  define old where "old = MEMITEM_SIZE b m"
  have old: "n = unat old" "old < sz" using nx(3) b(3) sz(2) by (simp_all add: old_def word_less_nat_alt)
  have pos: "c > b" "c > 0" using nx(6) by (simp_all add: word_less_nat_alt)
  have p0: "p \<noteq> 0" using holds_facts(3) [OF hs, of p n] by auto
  have gu: "realloc_give_up h p old sz m k1 = realloc_move h p old sz m k" using rel by (simp add: realloc_give_up_def)
  note mv = realloc_move_ok [OF hs rd sz(1) old]
  show ?thesis
  proof (cases "\<not> used m c \<and> MEMITEM_SIZE c m + old > sz + RT_MEMHEAP_MINIALLOC")
    case False
    then have "realloc_grow h p (MEMITEM_SIZE (MEMITEM p) m) sz m k1 = realloc_move h p old sz m k"
      using nx(1) pos gu by (auto simp: realloc_grow_def b(2) old_def Let_def)
    then show ?thesis using mv by simp
  next
    case True
    then obtain d ds where ds: "cs = d # ds" using r' by (cases cs) (auto simp: heap_rel_def)
    define m' where "m' = realloc_extend h p old sz m"
    have g: "realloc_grow h p (MEMITEM_SIZE (MEMITEM p) m) sz m k1 = map_option (\<lambda>(_, k). (Returned p, m', k)) (rt_sem_release (mh_lock (heaps m' h)) k1)"
      using True nx(1) pos by (cases "rt_sem_release (mh_lock (heaps m' h)) k1") (auto simp: realloc_grow_def b(2) old_def Let_def m'_def)
    note n2 = heap_pre_next [of m h "as @ [b]" c d ds fs, simplified, OF pre [unfolded ds]]
    have "unat (MEMITEM_SIZE c m + old) = unat d - unat b - 48"
      using n2(3,6) nx(6) old(1) b(3) unsigned_less [of d, where 'a = nat] by (simp add: unat_word_ariths)
    moreover have "unat (sz + RT_MEMHEAP_MINIALLOC) = unat sz + 12" using sz(3) by (simp add: unat_word_ariths rt_consts)
    ultimately have fit: "unat sz + 12 < unat d - unat b - 48" using True by (simp add: word_less_nat_alt)
    have "\<exists>bs' fs'. heap_rel m' h bs' fs' \<and> heap_frame h m m'
        \<and> held (used m') bs' = held (used m) (as @ [b]) @ (b + RT_MEMHEAP_SIZE, unat sz) # held (used m) (d # ds)"
      unfolding m'_def b(2)
      by (rule realloc_extend_ok [OF r' [unfolded ds] b(1) conjunct1 [OF True] old_def])
        (use fit old(2) memheap_round_facts(2) [of x] sz(1) in \<open>simp_all add: word_less_nat_alt\<close>)
    then obtain bs' fs' where "heap_rel m' h bs' fs'" "heap_frame h m m'" "held (used m') bs' = s1 @ (p, unat sz) # s2"
      using split True by (auto simp: ds b(2))
    note F' = this(2) holdsI [OF this(1,3)]
    have "realloc_grow h p (MEMITEM_SIZE (MEMITEM p) m) sz m k1 = Some (Returned p, m', k)" using g rel F'(1) by (simp add: heap_frame_def)
    moreover have "reallocated h (s1 @ s2) p n sz p m m'" by (rule reallocated_in_place [OF F'(2)]) (use F'(1) in \<open>simp_all add: heap_frame_def\<close>)
    ultimately show ?thesis using p0 by (intro exI [of _ p] exI [of _ m']) simp
  qed
qed

lemma realloc_case_shrink:
  assumes hs: "holds m h (s1 @ (p, n) # s2) F" and sz: "sz = memheap_round x" "unat sz + 36 < n"
    and rel: "rt_sem_release (mh_lock (heaps m h)) k1 = Some (RT_EOK, k)"
  shows "\<exists>m'. realloc_shrink h p sz m k1 = Some (Returned p, m', k) \<and> reallocated h (s1 @ s2) p n sz p m m'"
proof -
  obtain as b c cs fs where r': "heap_rel m h (as @ b # c # cs) fs" and b: "used m b" "p = b + RT_MEMHEAP_SIZE" "n = unat c - unat b - 24"
    and split: "s1 = held (used m) (as @ [b])" "s2 = held (used m) (c # cs)" by (rule holds_block [OF hs])
  define m' where "m' = realloc_split h b sz m"
  have "\<exists>bs' fs'. heap_rel m' h bs' fs' \<and> heap_frame h m m'
      \<and> held (used m') bs' = held (used m) (as @ [b]) @ (b + RT_MEMHEAP_SIZE, unat sz) # held (used m) (c # cs)"
    unfolding m'_def by (rule realloc_split_ok [OF r' b(1)])
      (use sz b(3) memheap_round_facts(1,2) [of x] in simp_all)
  then obtain bs' fs' where "heap_rel m' h bs' fs'" "heap_frame h m m'" "held (used m') bs' = s1 @ (p, unat sz) # s2"
    using split by (auto simp: b(2))
  note F' = this(2) holdsI [OF this(1,3)]
  have "realloc_shrink h p sz m k1 = Some (Returned p, m', k)" using rel F'(1) by (simp add: realloc_shrink_def b(2) m'_def [symmetric] Let_def heap_frame_def)
  moreover have "reallocated h (s1 @ s2) p n sz p m m'" by (rule reallocated_in_place [OF F'(2)]) (use F'(1) in \<open>simp_all add: heap_frame_def\<close>)
  ultimately show ?thesis by blast
qed

lemma reallocated_less: "reallocated h S p n sz r m m' \<Longrightarrow> unat sz' \<le> unat sz \<Longrightarrow> reallocated h S p n sz' r m m'"
  unfolding reallocated_def by (elim exE conjE) (intro exI conjI; (assumption | erule order_trans))

lemma block_size:
  assumes "holds m h (s1 @ (p, n) # s2) F"
  shows "unat (MEMITEM_SIZE (MEMITEM p) m) = n" "p \<noteq> 0" "n + 48 \<le> 2 ^ 32"
proof -
  obtain as b c cs fs where b: "heap_rel m h (as @ b # c # cs) fs" "p = b + RT_MEMHEAP_SIZE" "n = unat c - unat b - 24" by (rule holds_block [OF assms])
  show "n + 48 \<le> 2 ^ 32" using layout_gap(1,2) [of "heaps m h" as b c cs] b by (simp add: heap_rel_def)
  show "unat (MEMITEM_SIZE (MEMITEM p) m) = n" using heap_pre_next(3) [of m h as b c cs fs] b by (simp add: heap_rel_pre)
  show "p \<noteq> 0" using holds_facts(3) [OF assms, of p n] by auto
qed

text \<open>The rounded size is the smallest one that is allowed.\<close>

lemma memheap_round_least:
  assumes "unat x \<le> n" "4 dvd n" "12 \<le> n" "unat x \<le> 0xfffffffc"
  shows "unat (memheap_round x) \<le> n"
proof -
  have "unat (x + 3) = unat x + 3" using assms(4) by (simp add: unat_word_ariths)
  then have "unat (RT_ALIGN x) = unat x + 3 - (unat x + 3) mod 4" unfolding RT_ALIGN_def align_4 by simp
  moreover obtain j where j: "n = 4 * j" using assms(2) by (auto simp: dvd_def)
  have "4 * ((unat x + 3) div 4) \<le> 4 * j" using assms(1) j by simp
  ultimately have "unat (RT_ALIGN x) \<le> n" using j by (simp add: minus_mod_eq_mult_div)
  then show ?thesis using assms(3) by (simp add: memheap_round_def Let_def RT_MEMHEAP_MINIALLOC_def)
qed

text \<open>C30: \<^verbatim>\<open>rt_memheap_realloc\<close> of a block in use with the lock free.  It returns a block of at least the new size in place of the old one,
  which is the same block whenever the new size fits, with the contents of the old one up to the smaller size; all other blocks
  keep their contents and the heap is in order.  Otherwise it returns \<^verbatim>\<open>RT_NULL\<close> and nothing has changed; then no free block is
  long enough, or no more is free than was asked for.  Size 0 gives the block back.  Sizes near the end of the address space are excluded.\<close>

theorem memheap_realloc_correct:
  assumes "holds m h (s1 @ (p, n) # s2) F" and "heap_ready h m k" and "newsize \<noteq> 0" and "unat newsize \<le> 0xfffffff0"
  shows "(\<exists>r m'. rt_memheap_realloc h p newsize m k = Some (Returned r, m', k) \<and> (unat newsize \<le> n \<longrightarrow> r = p)
      \<and> (if r = 0 then m' = m \<and> \<not> (memheap_round newsize < mh_available_size (heaps m h) \<and> (\<exists>(q, l)\<in>set F. unat (memheap_round newsize) \<le> l))
         else reallocated h (s1 @ s2) p n newsize r m m'))
    \<and> (\<exists>m' F'. rt_memheap_realloc h p 0 m k = Some (Returned 0, m', k) \<and> holds m' h (s1 @ s2) F')"
proof (rule conjI)
  define sz where "sz = memheap_round newsize"
  note bl = block_size [OF assms(1)]
  have ty: "rt_object_get_type (Obj h) k = RT_Object_Class_MemHeap" using assms(2) by (simp add: heap_ready_def)
  obtain k1 where k1: "rt_sem_take (mh_lock (heaps m h)) (of_int RT_WAITING_FOREVER) k = Some (Finished RT_EOK, k1)"
    "rt_sem_release (mh_lock (heaps m h)) k1 = Some (RT_EOK, k)" by (rule heap_lock [OF assms(2)])
  have ge: "unat newsize \<le> unat sz" using memheap_round_facts(3) [of newsize] assms(4) by (simp add: sz_def)
  have n4: "4 dvd n" "12 \<le> n" using sizes_aligned [OF assms(1), of p n] holds_facts(3) [OF assms(1), of p n] by simp_all
  have fits: "unat sz \<le> n" if "unat newsize \<le> n" unfolding sz_def by (rule memheap_round_least) (use that n4 assms(4) in simp_all)
  have top: "unat sz \<le> 0xfffffff0" unfolding sz_def by (rule memheap_round_least) (use assms(4) in simp_all)
  show "\<exists>r m'. rt_memheap_realloc h p newsize m k = Some (Returned r, m', k) \<and> (unat newsize \<le> n \<longrightarrow> r = p)
      \<and> (if r = 0 then m' = m \<and> \<not> (memheap_round newsize < mh_available_size (heaps m h) \<and> (\<exists>(q, l)\<in>set F. unat (memheap_round newsize) \<le> l))
         else reallocated h (s1 @ s2) p n newsize r m m')"
  proof (cases "n < unat sz")
    case True
    then have "\<not> unat newsize \<le> n" using fits by linarith
    moreover have "rt_memheap_realloc h p newsize m k = realloc_grow h p (MEMITEM_SIZE (MEMITEM p) m) sz m k1"
      using True ty k1(1) bl assms(3) by (simp add: rt_memheap_realloc_def Let_def sz_def [symmetric] word_less_nat_alt)
    ultimately show ?thesis
      using realloc_case_grow [OF assms(1,2) sz_def True top k1(2)] reallocated_less [OF _ ge] unfolding sz_def by (metis (lifting))
  next
    case False
    have ov: "unat (sz + RT_MEMHEAP_SIZE + RT_MEMHEAP_MINIALLOC) = unat sz + 36" using False bl(3) by (simp add: unat_word_ariths rt_consts)
    show ?thesis
    proof (cases "unat sz + 36 < n")
      case True
      have "rt_memheap_realloc h p newsize m k = realloc_shrink h p sz m k1"
        using True False ty k1(1) bl assms(3) ov by (simp add: rt_memheap_realloc_def Let_def sz_def [symmetric] word_less_nat_alt word_le_nat_alt)
      moreover obtain m' where "realloc_shrink h p sz m k1 = Some (Returned p, m', k)" "reallocated h (s1 @ s2) p n newsize p m m'"
        using realloc_case_shrink [OF assms(1) sz_def True k1(2)] reallocated_less [OF _ ge] by blast
      ultimately show ?thesis using bl(2) by (intro exI [of _ p] exI [of _ m']) simp
    next
      case small: False
      have "rt_memheap_realloc h p newsize m k = Some (Returned p, m, k)"
        using False small ty bl assms(3) ov by (simp add: rt_memheap_realloc_def Let_def sz_def [symmetric] word_less_nat_alt word_le_nat_alt)
      moreover have "reallocated h (s1 @ s2) p n newsize p m m" by (rule reallocated_in_place [OF assms(1)]) (use ge False in simp_all)
      ultimately show ?thesis using bl(2) by auto
    qed
  qed
  from heap_free_gives [OF assms(1,2)] obtain m' F' where "rt_memheap_free p m k = Some (Finished (), m', k)" "holds m' h (s1 @ s2) F'" .
  then show "\<exists>m' F'. rt_memheap_realloc h p 0 m k = Some (Returned 0, m', k) \<and> holds m' h (s1 @ s2) F'"
    using ty by (auto simp: rt_memheap_realloc_def)
qed

text \<open>C31: the comparison that decides whether a block can grow in place overflows for a new size of which twelve more do not fit in a word.  If the
  block behind is free, however short, the service reports success, and puts the header of a new free block at a place inside of the
  header of the block itself.\<close>

theorem memheap_realloc_overflow:
  assumes "holds m h (s1 @ (p, n) # s2) F" and "heap_ready h m k" and "0xfffffff0 < unat newsize" "unat newsize \<le> 0xfffffffc"
    and "\<not> RT_MEMHEAP_IS_USED (it_next (items m (MEMITEM p))) m"
  shows "\<exists>m'. rt_memheap_realloc h p newsize m k = Some (Returned p, m', k)
    \<and> it_next (items m' (MEMITEM p)) = p + memheap_round newsize
    \<and> it_magic (items m' (p + memheap_round newsize)) = RT_MEMHEAP_MAGIC OR RT_MEMHEAP_FREED
    \<and> unat (MEMITEM p) < unat (p + memheap_round newsize) \<and> unat (p + memheap_round newsize) < unat (MEMITEM p) + 24"
proof -
  define sz where "sz = memheap_round newsize"
  note bl = block_size [OF assms(1)]
  obtain as b c cs fs where r: "heap_rel m h (as @ b # c # cs) fs" and b: "used m b" "p = b + RT_MEMHEAP_SIZE" "n = unat c - unat b - 24"
    by (rule holds_block [OF assms(1)])
  have pre: "heap_pre m h (as @ b # c # cs) fs" using r by (simp add: heap_rel_pre)
  note nx = heap_pre_next [OF pre]
  have c: "\<not> used m c" using assms(5) nx(1) by (simp add: b(2))
  then obtain d ds where ds: "cs = d # ds" using r by (cases cs) (auto simp: heap_rel_def)
  note n2 = heap_pre_next [of m h "as @ [b]" c d ds fs, simplified, OF pre [unfolded ds]]
  have sz: "0xfffffff0 < unat sz" "unat sz \<le> 0xfffffffc" "4 dvd unat sz"
    using memheap_round_facts(2,3) [of newsize] memheap_round_least [of newsize "0xfffffffc"] assms(3,4) by (simp_all add: sz_def)
  then obtain j where j: "unat sz = 4 * j" "0x3ffffffc < j" "j \<le> 0x3fffffff" by (auto simp: dvd_def)
  then have "j = 0x3ffffffd \<or> j = 0x3ffffffe \<or> j = 0x3fffffff" by linarith
  then have e: "sz = 0xfffffff4 \<or> sz = 0xfffffff8 \<or> sz = 0xfffffffc" using j(1) by (auto simp: word_unat_eq_iff)
  have ty: "rt_object_get_type (Obj h) k = RT_Object_Class_MemHeap" using assms(2) by (simp add: heap_ready_def)
  obtain k1 where k1: "rt_sem_take (mh_lock (heaps m h)) (of_int RT_WAITING_FOREVER) k = Some (Finished RT_EOK, k1)"
    "rt_sem_release (mh_lock (heaps m h)) k1 = Some (RT_EOK, k)" by (rule heap_lock [OF assms(2)])
  define old where "old = MEMITEM_SIZE b m"
  define m' where "m' = realloc_extend h p old sz m"
  have "unat (MEMITEM_SIZE c m + old) = unat d - unat b - 48"
    using n2(3,6) nx(3,6) unsigned_less [of d, where 'a = nat] by (simp add: unat_word_ariths old_def)
  then have big: "sz + RT_MEMHEAP_MINIALLOC < MEMITEM_SIZE c m + old" using e n2(6) nx(6) by (auto simp: word_less_nat_alt rt_consts)
  have "n < unat sz" using bl(3) sz(1) by simp
  moreover have "newsize \<noteq> 0" using assms(3) by auto
  ultimately have "rt_memheap_realloc h p newsize m k = realloc_grow h p old sz m k1"
    using ty k1(1) bl b(2) by (simp add: rt_memheap_realloc_def Let_def sz_def [symmetric] word_less_nat_alt old_def)
  also have "\<dots> = map_option (\<lambda>(_, k). (Returned p, m', k)) (rt_sem_release (mh_lock (heaps m' h)) k1)"
    using c big nx(1,6) by (cases "rt_sem_release (mh_lock (heaps m' h)) k1") (auto simp: realloc_grow_def b(2) old_def Let_def m'_def word_less_nat_alt)
  also have "mh_lock (heaps m' h) = mh_lock (heaps m h)"
    by (simp add: m'_def realloc_extend_def Let_def free_insert_frame block_insert_frame block_remove_frame piece_fields)
  finally have "rt_memheap_realloc h p newsize m k = Some (Returned p, m', k)" using k1(2) by simp
  moreover have "it_next (items m' (MEMITEM p)) = p + sz" "it_magic (items m' (p + sz)) = RT_MEMHEAP_MAGIC OR RT_MEMHEAP_FREED"
  proof -
    obtain m1 where m1: "m' = free_insert h (p + sz) (block_insert h (MEMITEM p) (p + sz) m1)" by (simp add: m'_def realloc_extend_def Let_def)
    have "nxt m' (MEMITEM p) = p + sz" unfolding m1 free_insert_next by (simp add: nxt_def block_insert_def Let_def)
    moreover have "mag m' (p + sz) = RT_MEMHEAP_MAGIC OR RT_MEMHEAP_FREED" unfolding m1 by (simp add: free_insert_frame block_insert_frame)
    ultimately show "it_next (items m' (MEMITEM p)) = p + sz" "it_magic (items m' (p + sz)) = RT_MEMHEAP_MAGIC OR RT_MEMHEAP_FREED" by (simp_all add: nxt_def mag_def)
  qed
  moreover have "unat b < unat (p + sz)" "unat (p + sz) < unat b + 24"
  proof -
    have "unat c < 2 ^ 32" using unsigned_less [of c, where 'a = nat] by simp
    then have "unat (b + 12) = unat b + 12" "unat (b + 16) = unat b + 16" "unat (b + 20) = unat b + 20" using nx(6) by (simp_all add: unat_word_ariths)
    moreover have "p + sz = b + 12 \<or> p + sz = b + 16 \<or> p + sz = b + 20" using e by (auto simp: b(2) rt_consts)
    ultimately show "unat b < unat (p + sz)" "unat (p + sz) < unat b + 24" by auto
  qed
  ultimately show ?thesis by (auto simp: sz_def b(2))
qed

section \<open>Examples\<close>

theorem memheap_realloc_correct_witness:
  "(\<exists>m'. rt_memheap_realloc 6 0x1018 20 sample_heap_used (sample_heap_lock 1) = Some (Returned 0x1018, m', sample_heap_lock 1)
      \<and> reallocated 6 [] 0x1018 40 20 0x1018 sample_heap_used m')
    \<and> (\<exists>r m'. rt_memheap_realloc 6 0x1018 200 sample_heap_used (sample_heap_lock 1) = Some (Returned r, m', sample_heap_lock 1))
    \<and> (\<exists>m' F'. rt_memheap_realloc 6 0x1018 0 sample_heap_used (sample_heap_lock 1) = Some (Returned 0, m', sample_heap_lock 1) \<and> holds m' 6 [] F')"
proof -
  have h: "holds sample_heap_used 6 ([] @ (0x1018, 40) # []) [(0x1058, 88)]" using sample_heap_used_holds(1) by simp
  note c = memheap_realloc_correct [OF h sample_heap_used_ready]
  show ?thesis using c [of 20] c [of 200] by (auto split: if_splits)
qed

theorem memheap_realloc_overflow_witness:
  "\<exists>m'. rt_memheap_realloc 6 0x1018 0xfffffff1 sample_heap_used (sample_heap_lock 1) = Some (Returned 0x1018, m', sample_heap_lock 1)
    \<and> it_next (items m' 0x1000) = 0x100c"
proof -
  have h: "holds sample_heap_used 6 ([] @ (0x1018, 40) # []) [(0x1058, 88)]" using sample_heap_used_holds(1) by simp
  have n: "memheap_round 0xfffffff1 = 0xfffffff4" "MEMITEM 0x1018 = 0x1000" by (simp_all add: memheap_round_def RT_ALIGN_def Let_def MEMITEM_def rt_consts)
  have "\<not> used sample_heap_used (it_next (items sample_heap_used 0x1000))" by code_simp
  then have u: "\<not> used sample_heap_used (it_next (items sample_heap_used (MEMITEM 0x1018)))" unfolding n .
  have w: "(0x1018 :: addr) + 0xfffffff4 = 0x100c" by code_simp
  have "0xfffffff0 < unat (0xfffffff1 :: rt_uint32_t)" "unat (0xfffffff1 :: rt_uint32_t) \<le> 0xfffffffc" by simp_all
  from memheap_realloc_overflow [OF h sample_heap_used_ready this u] show ?thesis unfolding n w by blast
qed

end
