(* ===== verification/RT_Slist.thy ===== *)
theory RT_Slist
  imports RT_Prelude
begin

text \<open>
  The singly linked list of \<^verbatim>\<open>kernel/include/rtservice.h\<close>: the code on a heap of \<^verbatim>\<open>next\<close> pointers, and its refinement
  of operations on sequences.  Nodes are of any type; \<^term>\<open>None\<close> is \<^verbatim>\<open>RT_NULL\<close>.  A walk over a list that runs into a cycle does not end.
\<close>

section \<open>The code\<close>

type_synonym 'a slist_heap = "'a \<Rightarrow> 'a option"

definition rt_slist_init :: "'a \<Rightarrow> 'a slist_heap \<Rightarrow> 'a slist_heap" where
  "rt_slist_init l nx = nx(l := None)"

partial_function (option) rt_slist_tail :: "'a slist_heap \<Rightarrow> 'a \<Rightarrow> 'a option" where
  "rt_slist_tail nx l = (case nx l of None \<Rightarrow> Some l | Some p \<Rightarrow> rt_slist_tail nx p)"

declare rt_slist_tail.simps [code]

definition rt_slist_append :: "'a \<Rightarrow> 'a \<Rightarrow> 'a slist_heap \<Rightarrow> 'a slist_heap option" where
  "rt_slist_append l n nx =
     do { node \<leftarrow> rt_slist_tail nx l;
          let nx = nx(node := Some n);
          Some (nx(n := None)) }"

definition rt_slist_insert :: "'a \<Rightarrow> 'a \<Rightarrow> 'a slist_heap \<Rightarrow> 'a slist_heap" where
  "rt_slist_insert l n nx = (let nx = nx(n := nx l) in nx(l := Some n))"

partial_function (option) slist_count :: "'a slist_heap \<Rightarrow> 'a option \<Rightarrow> rt_uint32_t \<Rightarrow> rt_uint32_t option" where
  "slist_count nx p len = (case p of None \<Rightarrow> Some len | Some q \<Rightarrow> slist_count nx (nx q) (len + 1))"

declare slist_count.simps [code]

definition rt_slist_len :: "'a \<Rightarrow> 'a slist_heap \<Rightarrow> rt_uint32_t option" where
  "rt_slist_len l nx = slist_count nx (nx l) 0"

text \<open>The loop of \<^verbatim>\<open>rt_slist_remove\<close>: the node in front of \<open>n\<close>, or the last one.\<close>

partial_function (option) slist_before :: "'a slist_heap \<Rightarrow> 'a \<Rightarrow> 'a \<Rightarrow> 'a option" where
  "slist_before nx n node =
     (case nx node of None \<Rightarrow> Some node | Some p \<Rightarrow> if p \<noteq> n then slist_before nx n p else Some node)"

declare slist_before.simps [code]

definition rt_slist_remove :: "'a \<Rightarrow> 'a \<Rightarrow> 'a slist_heap \<Rightarrow> 'a slist_heap option" where
  "rt_slist_remove l n nx =
     do { node \<leftarrow> slist_before nx n l;
          Some (case nx node of None \<Rightarrow> nx | Some p \<Rightarrow> nx(node := nx p)) }"

definition rt_slist_first :: "'a \<Rightarrow> 'a slist_heap \<Rightarrow> 'a option" where
  "rt_slist_first l nx = nx l"

definition rt_slist_next :: "'a \<Rightarrow> 'a slist_heap \<Rightarrow> 'a option" where
  "rt_slist_next n nx = nx n"

definition rt_slist_isempty :: "'a \<Rightarrow> 'a slist_heap \<Rightarrow> bool" where
  "rt_slist_isempty l nx \<longleftrightarrow> nx l = None"

section \<open>Sequences\<close>

text \<open>The nodes behind \<open>l\<close>, up to the null pointer.\<close>

fun slist :: "'a slist_heap \<Rightarrow> 'a \<Rightarrow> 'a list \<Rightarrow> bool" where
  "slist nx l [] \<longleftrightarrow> nx l = None"
| "slist nx l (x # xs) \<longleftrightarrow> nx l = Some x \<and> slist nx x xs"

lemma slist_unique: "slist nx l xs \<Longrightarrow> slist nx l ys \<Longrightarrow> xs = ys"
  by (induction nx l xs arbitrary: ys rule: slist.induct) (case_tac ys; auto)+

lemma slist_suffix: "slist nx l (xs @ ys) \<Longrightarrow> slist nx (last (l # xs)) ys"
  by (induction xs arbitrary: l) auto

text \<open>No node comes twice: the rest of the list would be the same both times.\<close>

lemma slist_distinct: "slist nx l xs \<Longrightarrow> distinct (l # xs)"
proof (induction xs arbitrary: l)
  case (Cons x xs)
  then have d: "distinct (x # xs)" and s: "slist nx x xs" by auto
  have "l \<notin> set (x # xs)"
  proof
    assume "l \<in> set (x # xs)"
    then obtain as bs where as: "x # xs = as @ l # bs" by (meson split_list)
    have "slist nx l bs" using slist_suffix [of nx l "as @ [l]" bs] Cons.prems as by simp
    from slist_unique [OF this Cons.prems] have "bs = x # xs" .
    then show False using arg_cong [OF as, of length] by simp
  qed
  then show ?case using d by simp
qed simp

lemma slist_frame: "slist nx l xs \<Longrightarrow> (\<And>p. p \<in> set (l # xs) \<Longrightarrow> nx' p = nx p) \<Longrightarrow> slist nx' l xs"
  by (induction nx l xs rule: slist.induct) auto

lemma slist_upd: "p \<notin> set (l # xs) \<Longrightarrow> slist (nx(p := q)) l xs \<longleftrightarrow> slist nx l xs"
  by (induction nx l xs rule: slist.induct) auto

lemma slist_tail: "slist nx l xs \<Longrightarrow> rt_slist_tail nx l = Some (last (l # xs))"
  by (induction nx l xs rule: slist.induct) (subst rt_slist_tail.simps, simp)+

lemma slist_first: "slist nx l xs \<Longrightarrow> rt_slist_first l nx = (case xs of [] \<Rightarrow> None | x # _ \<Rightarrow> Some x)"
  by (cases xs) (auto simp: rt_slist_first_def)

lemma slist_isempty: "slist nx l xs \<Longrightarrow> rt_slist_isempty l nx \<longleftrightarrow> xs = []"
  by (cases xs) (auto simp: rt_slist_isempty_def)

lemma slist_count: "slist nx l xs \<Longrightarrow> slist_count nx (nx l) c = Some (c + of_nat (length xs))"
  by (induction nx l xs arbitrary: c rule: slist.induct) (subst slist_count.simps, simp add: add.commute add.left_commute)+

lemma slist_len: "slist nx l xs \<Longrightarrow> rt_slist_len l nx = Some (of_nat (length xs))"
  by (simp add: rt_slist_len_def slist_count)

lemma slist_put_last: "slist nx l xs \<Longrightarrow> n \<notin> set (l # xs) \<Longrightarrow> slist (nx(last (l # xs) := Some n, n := None)) l (xs @ [n])"
proof (induction xs arbitrary: l)
  case (Cons x xs)
  have "l \<noteq> last (x # xs)" using slist_distinct [OF Cons.prems(1)] last_in_set [of "x # xs"] by auto
  then show ?case using Cons by auto
qed simp

lemma slist_append_list:
  assumes "slist nx l xs" "n \<notin> set (l # xs)"
  shows "\<exists>nx'. rt_slist_append l n nx = Some nx' \<and> slist nx' l (xs @ [n]) \<and> (\<forall>p. p \<notin> set (l # n # xs) \<longrightarrow> nx' p = nx p)"
proof -
  have "last (l # xs) \<in> set (l # xs)" by simp
  then show ?thesis using slist_put_last [OF assms] slist_tail [OF assms(1)] by (auto simp: rt_slist_append_def Let_def)
qed

lemma slist_insert_list: "slist nx l xs \<Longrightarrow> n \<notin> set (l # xs) \<Longrightarrow> slist (rt_slist_insert l n nx) l (n # xs)"
  using slist_distinct [of nx l xs] by (cases xs) (auto simp: rt_slist_insert_def slist_upd)

lemma slist_before_found: "slist nx l (xs @ n # ys) \<Longrightarrow> slist_before nx n l = Some (last (l # xs))"
proof (induction xs arbitrary: l)
  case (Cons x xs)
  have "x \<noteq> n" using slist_distinct [OF Cons.prems] by auto
  then show ?case using Cons by (subst slist_before.simps) simp
qed (subst slist_before.simps, simp)

lemma slist_before_missing: "slist nx l xs \<Longrightarrow> n \<notin> set xs \<Longrightarrow> slist_before nx n l = Some (last (l # xs))"
  by (induction nx l xs rule: slist.induct) (subst slist_before.simps, auto)+

lemma slist_last_null: "slist nx l xs \<Longrightarrow> nx (last (l # xs)) = None"
  by (induction nx l xs rule: slist.induct) auto

lemma slist_cut: "slist nx l (xs @ n # ys) \<Longrightarrow> slist (nx(last (l # xs) := nx n)) l (xs @ ys)"
proof (induction xs arbitrary: l)
  case Nil
  then show ?case using slist_distinct [OF Nil] by (cases ys) (auto simp: slist_upd simp del: fun_upd_apply, simp_all)
next
  case (Cons x xs)
  have "l \<noteq> last (x # xs)" using slist_distinct [OF Cons.prems] last_in_set [of "x # xs"] by auto
  then show ?case using Cons by auto
qed

lemma slist_remove_list:
  assumes "slist nx l xs"
  shows "\<exists>nx'. rt_slist_remove l n nx = Some nx' \<and> slist nx' l (remove1 n xs) \<and> (\<forall>p. p \<notin> set (l # remove1 n xs) \<longrightarrow> nx' p = nx p)"
proof (cases "n \<in> set xs")
  case True
  then obtain as bs where as: "xs = as @ n # bs" "n \<notin> set as" by (meson split_list_first)
  have "nx (last (l # as)) = Some n" using slist_suffix [of nx l as "n # bs"] assms as by simp
  moreover have "last (l # as) \<in> set (l # as)" by simp
  ultimately show ?thesis
    using slist_before_found [of nx l as n bs] slist_cut [of nx l as n bs] assms as by (auto simp: rt_slist_remove_def remove1_append)
next
  case False
  then show ?thesis using slist_before_missing [OF assms] slist_last_null [OF assms] assms by (simp add: rt_slist_remove_def remove1_idem)
qed

text \<open>On a heap where \<open>xs\<close> hangs on \<open>l\<close> the list operations come back and do to the sequence what they say: a node that is not
  linked is appended or put in front, a node is taken out, wherever it is, and the length is counted modulo \<open>2 ^ 32\<close>.  Nodes outside keep
  their pointers, and a node just taken out still points to its old successor, which the loops over a list that is being cut rely on.\<close>

theorem slist_operations_refine:
  assumes "slist nx l xs"
  shows "(\<forall>n. n \<notin> set (l # xs) \<longrightarrow> (\<exists>nx'. rt_slist_append l n nx = Some nx' \<and> slist nx' l (xs @ [n]) \<and> (\<forall>p. p \<notin> set (l # n # xs) \<longrightarrow> nx' p = nx p)))
    \<and> (\<forall>n. n \<notin> set (l # xs) \<longrightarrow> slist (rt_slist_insert l n nx) l (n # xs))
    \<and> (\<forall>n. \<exists>nx'. rt_slist_remove l n nx = Some nx' \<and> slist nx' l (remove1 n xs) \<and> (\<forall>p. p \<notin> set (l # remove1 n xs) \<longrightarrow> nx' p = nx p))
    \<and> rt_slist_len l nx = Some (of_nat (length xs)) \<and> rt_slist_tail nx l = Some (last (l # xs))
    \<and> (rt_slist_isempty l nx \<longleftrightarrow> xs = []) \<and> slist (rt_slist_init l nx) l []"
  using slist_append_list [OF assms] slist_insert_list [OF assms] slist_remove_list [OF assms] slist_len [OF assms] slist_tail [OF assms]
    slist_isempty [OF assms] by (auto simp: rt_slist_init_def)

text \<open>A list of two nodes behind node 0, with a third node appended and the first one removed.\<close>

definition slist_sample :: "nat \<Rightarrow> nat option" where
  "slist_sample = (\<lambda>_. None)(0 := Some 1, 1 := Some 2)"

theorem slist_operations_refine_witness:
  "slist slist_sample 0 [1, 2] \<and> rt_slist_len 0 slist_sample = Some 2
    \<and> (\<exists>nx'. rt_slist_append 0 3 slist_sample = Some nx' \<and> slist nx' 0 [1, 2, 3])
    \<and> (\<exists>nx'. rt_slist_remove 0 1 slist_sample = Some nx' \<and> slist nx' 0 [2] \<and> nx' 1 = Some 2)"
proof -
  have s: "slist slist_sample 0 [1, 2]" by (simp add: slist_sample_def)
  have "3 \<notin> set [0, 1, 2 :: nat]" by simp
  then have "\<exists>nx'. rt_slist_append 0 3 slist_sample = Some nx' \<and> slist nx' 0 ([1, 2] @ [3])"
    using conjunct1 [OF slist_operations_refine [OF s]] by blast
  then have "\<exists>nx'. rt_slist_append 0 3 slist_sample = Some nx' \<and> slist nx' 0 [1, 2, 3]" by simp
  moreover have "\<exists>nx'. rt_slist_remove 0 1 slist_sample = Some nx' \<and> slist nx' 0 [2] \<and> nx' 1 = Some 2"
  proof -
    obtain nx' where "rt_slist_remove 0 1 slist_sample = Some nx'" "slist nx' 0 (remove1 1 [1, 2])" "\<forall>p. p \<notin> set (0 # remove1 1 [1, 2]) \<longrightarrow> nx' p = slist_sample p"
      using slist_operations_refine [OF s] by blast
    then show ?thesis by (auto simp: slist_sample_def)
  qed
  moreover have "rt_slist_len 0 slist_sample = Some 2" using slist_operations_refine [OF s] by simp
  ultimately show ?thesis using s by blast
qed

end
