(* ===== verification/RT_Ringblk.thy ===== *)
theory RT_Ringblk
  imports RT_Slist
begin

text \<open>
  The ring block buffer, \<^verbatim>\<open>kernel/utilities/ringblk_buf.c\<close>: blocks of any size are cut off a buffer in a circle, filled, and handed to a reader
  in the order they were allocated.  The descriptors of the blocks are an array; the ones in use hang on a singly linked list, oldest first.
\<close>

section \<open>The code\<close>

datatype rt_rbb_status = RT_RBB_BLK_UNUSED | RT_RBB_BLK_INITED | RT_RBB_BLK_PUT | RT_RBB_BLK_GET

record rt_rbb_blk =
  blk_status :: rt_rbb_status
  blk_size :: "24 word"
  blk_buf :: rt_uint32_t

text \<open>The head of the list and the nodes in the descriptors.\<close>

datatype rbb_node = Blk_list | Blk nat

text \<open>\<open>rbb_blk_set\<close> holds the descriptors of the array \<^verbatim>\<open>blk_set\<close>, \<open>rbb_next\<close> the pointers of \<^verbatim>\<open>blk_list\<close> and of the nodes in the descriptors.\<close>

record rt_rbb =
  rbb_buf :: rt_uint32_t
  rbb_buf_size :: rt_uint32_t
  rbb_blk_set :: "nat \<Rightarrow> rt_rbb_blk"
  rbb_blk_max_num :: rt_uint32_t
  rbb_next :: "rbb_node slist_heap"

record rt_rbb_blk_queue =
  bq_blocks :: nat
  bq_blk_num :: rt_uint32_t

definition upd_blk :: "nat \<Rightarrow> (rt_rbb_blk \<Rightarrow> rt_rbb_blk) \<Rightarrow> rt_rbb \<Rightarrow> rt_rbb" where
  "upd_blk i f r = r\<lparr>rbb_blk_set := (rbb_blk_set r)(i := f (rbb_blk_set r i))\<rparr>"

definition rt_rbb_init :: "rt_uint32_t \<Rightarrow> rt_uint32_t \<Rightarrow> rt_uint32_t \<Rightarrow> rt_rbb \<Rightarrow> rt_rbb option" where
  "rt_rbb_init buf buf_size blk_max_num r =
     do { RT_ASSERT (buf \<noteq> 0);
          let r = r\<lparr>rbb_buf := buf, rbb_buf_size := buf_size, rbb_blk_max_num := blk_max_num, rbb_next := rt_slist_init Blk_list (rbb_next r)\<rparr>;
          Some (fold (\<lambda>i. upd_blk i (\<lambda>b. b\<lparr>blk_status := RT_RBB_BLK_UNUSED\<rparr>)) [0..<unat blk_max_num] r) }"

text \<open>\<^verbatim>\<open>rt_rbb_create\<close>: the arguments are what the three calls of \<^verbatim>\<open>rt_malloc\<close> return.  The result is the object, or the number of blocks
  that were freed again.\<close>

definition rt_rbb_create :: "rt_rbb option \<Rightarrow> rt_uint32_t \<Rightarrow> (nat \<Rightarrow> rt_rbb_blk) option \<Rightarrow> rt_uint32_t \<Rightarrow> rt_uint32_t \<Rightarrow> (nat + rt_rbb) option" where
  "rt_rbb_create ctl buf blk_set buf_size blk_max_num =
     (case ctl of None \<Rightarrow> Some (Inl 0)
      | Some r \<Rightarrow> if buf = 0 then Some (Inl 1)
        else (case blk_set of None \<Rightarrow> Some (Inl 2)
          | Some bs \<Rightarrow> map_option Inr (rt_rbb_init buf buf_size blk_max_num (r\<lparr>rbb_blk_set := bs\<rparr>))))"

definition find_empty_blk_in_set :: "rt_rbb \<Rightarrow> nat option" where
  "find_empty_blk_in_set r = find (\<lambda>i. blk_status (rbb_blk_set r i) = RT_RBB_BLK_UNUSED) [0..<unat (rbb_blk_max_num r)]"

text \<open>The four assignments of a successful allocation.\<close>

definition blk_place :: "nat \<Rightarrow> rt_uint32_t \<Rightarrow> rt_uint32_t \<Rightarrow> rt_rbb \<Rightarrow> (nat option \<times> rt_rbb) option" where
  "blk_place i buf sz r =
     do { nx \<leftarrow> rt_slist_append Blk_list (Blk i) (rbb_next r);
          Some (Some i, upd_blk i (\<lambda>_. \<lparr>blk_status = RT_RBB_BLK_INITED, blk_size = ucast sz, blk_buf = buf\<rparr>) (r\<lparr>rbb_next := nx\<rparr>)) }"

text \<open>The descriptor a pointer to a node leads to; the head of the list is not inside of one.\<close>

definition blk_entry :: "rbb_node option \<Rightarrow> nat option" where
  "blk_entry p = (case p of Some (Blk i) \<Rightarrow> Some i | _ \<Rightarrow> None)"

definition rt_rbb_blk_alloc :: "rt_uint32_t \<Rightarrow> rt_rbb \<Rightarrow> (nat option \<times> rt_rbb) option" where
  "rt_rbb_blk_alloc sz r =
     do { RT_ASSERT (sz < 2 ^ 24);
          len \<leftarrow> rt_slist_len Blk_list (rbb_next r);
          case find_empty_blk_in_set r of
            None \<Rightarrow> Some (None, r)
          | Some new \<Rightarrow>
              if len < rbb_blk_max_num r then
                if len > 0 then
                  do { i \<leftarrow> blk_entry (rt_slist_first Blk_list (rbb_next r));
                       j \<leftarrow> Option.bind (rt_slist_tail (rbb_next r) Blk_list) (\<lambda>p. blk_entry (Some p));
                       let head = rbb_blk_set r i;
                       let tail = rbb_blk_set r j;
                       let after = blk_buf tail + ucast (blk_size tail);
                       if blk_buf head \<le> blk_buf tail then
                         if rbb_buf r + rbb_buf_size r - after \<ge> sz then blk_place new after sz r
                         else if blk_buf head - rbb_buf r \<ge> sz then blk_place new (rbb_buf r) sz r
                         else Some (None, r)
                       else if blk_buf head - after \<ge> sz then blk_place new after sz r
                       else Some (None, r) }
                else blk_place new (rbb_buf r) sz r
              else Some (None, r) }"


partial_function (option) blk_find_put :: "rt_rbb \<Rightarrow> rbb_node option \<Rightarrow> nat option option" where
  "blk_find_put r node =
     (case node of None \<Rightarrow> Some None
      | Some p \<Rightarrow> do { i \<leftarrow> blk_entry (Some p);
                       if blk_status (rbb_blk_set r i) = RT_RBB_BLK_PUT then Some (Some i)
                       else blk_find_put r (rt_slist_next p (rbb_next r)) })"

declare blk_find_put.simps [code]

definition rt_rbb_blk_get :: "rt_rbb \<Rightarrow> (nat option \<times> rt_rbb) option" where
  "rt_rbb_blk_get r =
     (if rt_slist_isempty Blk_list (rbb_next r) then Some (None, r)
      else do { found \<leftarrow> blk_find_put r (rt_slist_first Blk_list (rbb_next r));
                case found of None \<Rightarrow> Some (None, r)
                | Some i \<Rightarrow> Some (Some i, upd_blk i (\<lambda>b. b\<lparr>blk_status := RT_RBB_BLK_GET\<rparr>) r) })"

definition rt_rbb_blk_size :: "nat \<Rightarrow> rt_rbb \<Rightarrow> rt_uint32_t" where
  "rt_rbb_blk_size i r = ucast (blk_size (rbb_blk_set r i))"

definition rt_rbb_blk_buf :: "nat \<Rightarrow> rt_rbb \<Rightarrow> rt_uint32_t" where
  "rt_rbb_blk_buf i r = blk_buf (rbb_blk_set r i)"

definition rt_rbb_blk_free :: "nat \<Rightarrow> rt_rbb \<Rightarrow> rt_rbb option" where
  "rt_rbb_blk_free i r =
     do { RT_ASSERT (blk_status (rbb_blk_set r i) \<noteq> RT_RBB_BLK_UNUSED);
          nx \<leftarrow> rt_slist_remove Blk_list (Blk i) (rbb_next r);
          Some (upd_blk i (\<lambda>b. b\<lparr>blk_status := RT_RBB_BLK_UNUSED\<rparr>) (r\<lparr>rbb_next := nx\<rparr>)) }"

text \<open>\<^verbatim>\<open>rt_rbb_blk_queue_get\<close>: the loop over the list with its local variables, and what it does to each block it takes.\<close>

definition blk_take :: "nat \<Rightarrow> rt_rbb \<Rightarrow> rt_rbb option" where
  "blk_take i r =
     do { nx \<leftarrow> rt_slist_remove Blk_list (Blk i) (rbb_next r);
          Some (upd_blk i (\<lambda>b. b\<lparr>blk_status := RT_RBB_BLK_GET\<rparr>) (r\<lparr>rbb_next := nx\<rparr>)) }"

partial_function (option) blk_queue_loop ::
    "rt_uint32_t \<Rightarrow> rbb_node option \<Rightarrow> nat option \<Rightarrow> rt_uint32_t \<Rightarrow> rt_rbb_blk_queue \<Rightarrow> rt_rbb \<Rightarrow> (rt_uint32_t \<times> rt_rbb_blk_queue \<times> rt_rbb) option" where
  "blk_queue_loop queue_data_len node last_block data_total_size q r =
     (case node of None \<Rightarrow> Some (data_total_size, q, r)
      | Some p \<Rightarrow> do {
          i \<leftarrow> blk_entry (Some p);
          let b = rbb_blk_set r i;
          if last_block = None \<and> blk_status b \<noteq> RT_RBB_BLK_PUT
          then blk_queue_loop queue_data_len (rt_slist_next p (rbb_next r)) None data_total_size q r
          else if (case last_block of None \<Rightarrow> False
                   | Some j \<Rightarrow> blk_status b \<noteq> RT_RBB_BLK_PUT \<or> blk_buf (rbb_blk_set r j) > blk_buf b
                              \<or> data_total_size + ucast (blk_size b) > queue_data_len)
          then Some (data_total_size, q, r)
          else do {
            let q = (if last_block = None then \<lparr>bq_blocks = i, bq_blk_num = 0\<rparr> else q);
            r \<leftarrow> blk_take i r;
            blk_queue_loop queue_data_len (rt_slist_next p (rbb_next r)) (Some i) (data_total_size + ucast (blk_size b))
              (q\<lparr>bq_blk_num := bq_blk_num q + 1\<rparr>) r } })"

declare blk_queue_loop.simps [code]

definition rt_rbb_blk_queue_get :: "rt_uint32_t \<Rightarrow> rt_rbb_blk_queue \<Rightarrow> rt_rbb \<Rightarrow> (rt_uint32_t \<times> rt_rbb_blk_queue \<times> rt_rbb) option" where
  "rt_rbb_blk_queue_get queue_data_len q r =
     (if rt_slist_isempty Blk_list (rbb_next r) then Some (0, q, r)
      else blk_queue_loop queue_data_len (rt_slist_first Blk_list (rbb_next r)) None 0 q r)"

text \<open>The operations on a queue of blocks go through the array of descriptors, from \<^verbatim>\<open>blocks[0]\<close> on; what lies behind the end of the array is no
  descriptor.\<close>

fun blk_sizes :: "nat list \<Rightarrow> rt_uint32_t \<Rightarrow> rt_rbb \<Rightarrow> rt_uint32_t option" where
  "blk_sizes [] data_total_size r = Some data_total_size"
| "blk_sizes (i # is) data_total_size r =
     do { RT_ASSERT (i < unat (rbb_blk_max_num r)); blk_sizes is (data_total_size + ucast (blk_size (rbb_blk_set r i))) r }"

definition rt_rbb_blk_queue_len :: "rt_rbb_blk_queue \<Rightarrow> rt_rbb \<Rightarrow> rt_uint32_t option" where
  "rt_rbb_blk_queue_len q r = blk_sizes [bq_blocks q..<bq_blocks q + unat (bq_blk_num q)] 0 r"

definition rt_rbb_blk_queue_buf :: "rt_rbb_blk_queue \<Rightarrow> rt_rbb \<Rightarrow> rt_uint32_t" where
  "rt_rbb_blk_queue_buf q r = blk_buf (rbb_blk_set r (bq_blocks q))"

fun blk_frees :: "nat list \<Rightarrow> rt_rbb \<Rightarrow> rt_rbb option" where
  "blk_frees [] r = Some r"
| "blk_frees (i # is) r = do { RT_ASSERT (i < unat (rbb_blk_max_num r)); r \<leftarrow> rt_rbb_blk_free i r; blk_frees is r }"

definition rt_rbb_blk_queue_free :: "rt_rbb_blk_queue \<Rightarrow> rt_rbb \<Rightarrow> rt_rbb option" where
  "rt_rbb_blk_queue_free q r = blk_frees [bq_blocks q..<bq_blocks q + unat (bq_blk_num q)] r"

partial_function (option) blk_len_loop :: "rbb_node option \<Rightarrow> nat option \<Rightarrow> rt_uint32_t \<Rightarrow> rt_rbb \<Rightarrow> rt_uint32_t option" where
  "blk_len_loop node last_block data_len r =
     (case node of None \<Rightarrow> Some data_len
      | Some p \<Rightarrow> do {
          i \<leftarrow> blk_entry (Some p);
          let b = rbb_blk_set r i;
          if last_block = None \<and> blk_status b \<noteq> RT_RBB_BLK_PUT then blk_len_loop (rt_slist_next p (rbb_next r)) None data_len r
          else if (case last_block of None \<Rightarrow> False
                   | Some j \<Rightarrow> blk_status b \<noteq> RT_RBB_BLK_PUT \<or> blk_buf (rbb_blk_set r j) > blk_buf b)
          then Some data_len
          else blk_len_loop (rt_slist_next p (rbb_next r)) (Some i) (data_len + ucast (blk_size b)) r })"

declare blk_len_loop.simps [code]

definition rt_rbb_next_blk_queue_len :: "rt_rbb \<Rightarrow> rt_uint32_t option" where
  "rt_rbb_next_blk_queue_len r =
     (if rt_slist_isempty Blk_list (rbb_next r) then Some 0 else blk_len_loop (rt_slist_first Blk_list (rbb_next r)) None 0 r)"

definition rt_rbb_get_buf_size :: "rt_rbb \<Rightarrow> rt_uint32_t" where
  "rt_rbb_get_buf_size r = rbb_buf_size r"

section \<open>Blocks in a circle\<close>

text \<open>Segments, start and length, that follow each other in an interval; and around the end of the interval: what comes later in the list
  may lie in front.\<close>

fun stacked :: "nat \<Rightarrow> nat \<Rightarrow> (nat \<times> nat) list \<Rightarrow> bool" where
  "stacked lo hi [] \<longleftrightarrow> lo \<le> hi"
| "stacked lo hi ((a, n) # ss) \<longleftrightarrow> lo \<le> a \<and> 0 < n \<and> stacked (a + n) hi ss"

definition laid :: "nat \<Rightarrow> nat \<Rightarrow> (nat \<times> nat) list \<Rightarrow> bool" where
  "laid lo hi ss \<longleftrightarrow> (\<exists>xs ys. ss = xs @ ys \<and> stacked lo hi (ys @ xs))"

definition disjoint_segs :: "nat \<times> nat \<Rightarrow> nat \<times> nat \<Rightarrow> bool" where
  "disjoint_segs s t \<longleftrightarrow> fst s + snd s \<le> fst t \<or> fst t + snd t \<le> fst s"

lemma stacked_mono: "stacked lo hi ss \<Longrightarrow> lo' \<le> lo \<Longrightarrow> hi \<le> hi' \<Longrightarrow> stacked lo' hi' ss"
  by (induction lo hi ss arbitrary: lo' rule: stacked.induct) auto

lemma stacked_bound: "stacked lo hi ss \<Longrightarrow> lo \<le> hi"
  by (induction lo hi ss rule: stacked.induct) auto

lemma stacked_append: "stacked lo hi (xs @ ys) \<longleftrightarrow> (\<exists>m. stacked lo m xs \<and> stacked m hi ys)"
  by (induction lo hi xs rule: stacked.induct) (auto dest: stacked_bound stacked_mono)

lemma stacked_snoc: "stacked lo hi (ss @ [(a, n)]) \<longleftrightarrow> stacked lo a ss \<and> 0 < n \<and> a + n \<le> hi"
  by (auto simp: stacked_append dest: stacked_mono)

lemma stacked_middle: "stacked lo hi (xs @ (a, n) # ys) \<longleftrightarrow> stacked lo a xs \<and> 0 < n \<and> stacked (a + n) hi ys"
  by (auto simp: stacked_append dest: stacked_mono)

lemma stacked_in: "stacked lo hi ss \<Longrightarrow> (a, n) \<in> set ss \<Longrightarrow> lo \<le> a \<and> 0 < n \<and> a + n \<le> hi"
  by (auto dest!: split_list simp: stacked_middle dest: stacked_bound)

lemma stacked_remove: "stacked lo hi (xs @ s # ys) \<Longrightarrow> stacked lo hi (xs @ ys)"
  using stacked_mono [of "fst s + snd s" hi ys "fst s"] by (cases s) (auto simp: stacked_middle stacked_append [of lo hi xs ys])

lemma stacked_ends: "stacked lo hi (s # ss) \<Longrightarrow> fst s \<le> fst (last (s # ss))"
  using stacked_bound [of "fst s + snd s" "fst (last ss)" "butlast ss"] by (cases s; cases ss rule: rev_cases) (auto simp: stacked_snoc)


lemma laid_in: "laid lo hi ss \<Longrightarrow> (a, n) \<in> set ss \<Longrightarrow> lo \<le> a \<and> 0 < n \<and> a + n \<le> hi"
  by (auto simp: laid_def dest: stacked_in)


lemma laid_remove: "laid lo hi (xs @ s # ys) \<Longrightarrow> laid lo hi (xs @ ys)"
proof -
  assume "laid lo hi (xs @ s # ys)"
  then obtain as bs where as: "xs @ s # ys = as @ bs" "stacked lo hi (bs @ as)" by (auto simp: laid_def)
  from as(1) consider us where "as = xs @ s # us" "ys = us @ bs" | us where "xs = as @ us" "bs = us @ s # ys"
    by (auto simp: append_eq_append_conv2 Cons_eq_append_conv)
  then show ?thesis
  proof cases
    case 1
    then have "stacked lo hi (bs @ xs @ us)" using stacked_remove [of lo hi "bs @ xs" s us] as(2) by simp
    then show ?thesis unfolding laid_def 1 by (intro exI [of _ "xs @ us"] exI [of _ bs]) simp
  next
    case 2
    then have "stacked lo hi ((us @ ys) @ as)" using stacked_remove [of lo hi us s "ys @ as"] as(2) by simp
    then show ?thesis unfolding laid_def 2 by (intro exI [of _ as] exI [of _ "us @ ys"]) simp
  qed
qed

text \<open>Where the last segment lies behind the first one the list does not go around, and otherwise it does.\<close>

lemma laid_straight: "laid lo hi (s # ss) \<Longrightarrow> fst s \<le> fst (last (s # ss)) \<Longrightarrow> stacked lo hi (s # ss)"
proof -
  assume "laid lo hi (s # ss)" and le: "fst s \<le> fst (last (s # ss))"
  then obtain xs ys where xs: "s # ss = xs @ ys" "stacked lo hi (ys @ xs)" by (auto simp: laid_def)
  show ?thesis
  proof (cases "xs = [] \<or> ys = []")
    case False
    then obtain xs' ys' a n where e: "xs = s # xs'" "ys = ys' @ [(a, n)]" using xs(1) by (cases xs; cases ys rule: rev_cases) auto
    then have "last (s # ss) = (a, n)" using xs(1) by simp
    then show ?thesis using xs(2) le unfolding e by (cases s) (auto simp: stacked_middle)
  qed (use xs in auto)
qed

lemma laid_around: "laid lo hi (s # ss) \<Longrightarrow> fst (last (s # ss)) < fst s \<Longrightarrow> \<exists>xs ys. s # ss = (s # xs) @ ys \<and> ys \<noteq> [] \<and> stacked lo hi (ys @ s # xs)"
proof -
  assume "laid lo hi (s # ss)" and le: "fst (last (s # ss)) < fst s"
  then obtain xs ys where xs: "s # ss = xs @ ys" "stacked lo hi (ys @ xs)" by (auto simp: laid_def)
  have "xs \<noteq> [] \<and> ys \<noteq> []" using stacked_ends [of lo hi s ss] xs le by (cases "xs = []"; cases "ys = []") auto
  then show ?thesis using xs by (cases xs) auto
qed

text \<open>Where the next segment can go: behind the last one, up to the end or the first one, or at the beginning.\<close>

definition next_place :: "nat \<Rightarrow> nat \<Rightarrow> (nat \<times> nat) list \<Rightarrow> nat \<Rightarrow> nat option" where
  "next_place lo hi ss n =
     (let (b, _) = hd ss; (a, m) = last ss in
      if b \<le> a then (if n \<le> hi - (a + m) then Some (a + m) else if n \<le> b - lo then Some lo else None)
      else if n \<le> b - (a + m) then Some (a + m) else None)"

lemma next_place_fits:
  assumes l: "laid lo hi ss" "ss \<noteq> []" and n: "0 < n" and p: "next_place lo hi ss n = Some x"
  shows "laid lo hi (ss @ [(x, n)])"
proof -
  obtain b k where b: "hd ss = (b, k)" by fastforce
  obtain a m where a: "last ss = (a, m)" by fastforce
  have ss: "ss = (b, k) # tl ss" "ss = butlast ss @ [(a, m)]" using l(2) a b by (metis list.collapse) (metis a append_butlast_last_id l(2))
  show ?thesis
  proof (cases "b \<le> a")
    case True
    then have st: "stacked lo hi ss" using laid_straight [of lo hi "(b, k)" "tl ss"] l ss(1) a by simp
    then have am: "stacked lo a (butlast ss)" "0 < m" "a + m \<le> hi" using ss(2) stacked_snoc by metis+
    have lob: "lo \<le> b" "stacked lo hi ((b, k) # tl ss)" using st ss(1) by (metis stacked.simps(2), metis)
    from p True consider "n \<le> hi - (a + m)" "x = a + m" | "n \<le> b - lo" "x = lo"
      by (auto simp: next_place_def a b split: if_splits)
    then show ?thesis
    proof cases
      case 1
      have "stacked lo (a + m) (butlast ss @ [(a, m)])" using am by (simp add: stacked_snoc)
      then have "stacked lo hi (ss @ [(x, n)])" using 1 n am unfolding stacked_snoc ss(2) [symmetric] by simp
      then show ?thesis unfolding laid_def by (metis append_Nil append_Nil2)
    next
      case 2
      have "stacked lo hi ([(x, n)] @ (b, k) # tl ss)" using 2 n lob by simp
      then have "stacked lo hi ([(x, n)] @ ss)" unfolding ss(1) [symmetric] .
      then show ?thesis unfolding laid_def by blast
    qed
  next
    case False
    then obtain xs ys where xs: "ss = ((b, k) # xs) @ ys" "ys \<noteq> []" "stacked lo hi (ys @ (b, k) # xs)"
      using laid_around [of lo hi "(b, k)" "tl ss"] l ss(1) a by auto
    have x: "n \<le> b - (a + m)" "x = a + m" using p False by (auto simp: next_place_def a b split: if_splits)
    have ys: "ys = butlast ys @ [(a, m)]" using xs(1,2) a by (metis append_butlast_last_id last_append)
    have "stacked lo b ys" "0 < k" "stacked (b + k) hi xs" using xs(3) by (simp_all add: stacked_middle)
    moreover from this(1) have am: "stacked lo a (butlast ys)" "0 < m" "a + m \<le> b" using ys stacked_snoc by metis+
    moreover from am have "stacked lo (a + m) (butlast ys @ [(a, m)])" by (simp add: stacked_snoc)
    then have "stacked lo (a + m) ys" unfolding ys [symmetric] .
    ultimately have "stacked lo hi ((ys @ [(x, n)]) @ (b, k) # xs)" using x n by (simp only: stacked_middle stacked_snoc) simp
    then show ?thesis unfolding laid_def xs(1) by (intro exI [of _ "(b, k) # xs"] exI [of _ "ys @ [(x, n)]"]) simp
  qed
qed

lemma next_place_complete:
  assumes l: "laid lo hi (ss @ [(x, n)])" "ss \<noteq> []"
  shows "next_place lo hi ss n \<noteq> None"
proof -
  obtain b k where b: "hd ss = (b, k)" by fastforce
  obtain a m where a: "last ss = (a, m)" by fastforce
  from l(1) obtain xs ys where xs: "ss @ [(x, n)] = xs @ ys" "stacked lo hi (ys @ xs)" by (auto simp: laid_def)
  show ?thesis
  proof (cases "ys = [] \<or> xs = []")
    case True
    then have st: "stacked lo x ss" "0 < n" "x + n \<le> hi" using xs by (auto simp: stacked_snoc)
    have ss: "ss = (b, k) # tl ss" "ss = butlast ss @ [(a, m)]" using l(2) a b by (metis list.collapse) (metis a append_butlast_last_id l(2))
    have "b \<le> a" using stacked_ends [of lo x "(b, k)" "tl ss"] st(1) ss(1) a by simp
    moreover have "a + m \<le> x" using st(1) ss(2) stacked_snoc by metis
    ultimately show ?thesis using st by (simp add: next_place_def a b)
  next
    case False
    then obtain ys' where ys: "ys = ys' @ [(x, n)]" "ss = xs @ ys'" using xs(1) by (cases ys rule: rev_cases) auto
    obtain xs' where xs': "xs = (b, k) # xs'" using False b ys(2) by (cases xs) auto
    have st: "stacked lo x ys'" "x + n \<le> b" "stacked lo hi (ys' @ [(x, n)] @ xs)" "0 < k" "stacked (b + k) hi xs'"
      using xs(2) unfolding ys(1) xs' by (auto simp: stacked_middle)
    show ?thesis
    proof (cases ys' rule: rev_cases)
      case Nil
      then have "lo \<le> x" "stacked b hi xs" using st by (auto simp: xs')
      then have "b \<le> a" using stacked_ends [of b hi "(b, k)" xs'] a ys(2) Nil xs' by simp
      then show ?thesis using st(2) \<open>lo \<le> x\<close> by (auto simp: next_place_def a b)
    next
      case (snoc zs z)
      then have "z = (a, m)" using a ys(2) by simp
      then have "a + m \<le> x" "0 < m" using st(1) snoc by (auto simp: stacked_snoc)
      then have "\<not> b \<le> a" "n \<le> b - (a + m)" using st(2) by auto
      then show ?thesis by (simp add: next_place_def a b)
    qed
  qed
qed

text \<open>The place behind the last segment is taken whenever the new segment fits there, the beginning only otherwise.\<close>

lemma next_place_choice:
  assumes l: "laid lo hi ss" "ss \<noteq> []" and n: "0 < n" and p: "next_place lo hi ss n = Some x"
  shows "x = (if laid lo hi (ss @ [(fst (last ss) + snd (last ss), n)]) then fst (last ss) + snd (last ss) else lo)"
proof -
  obtain b k where b: "hd ss = (b, k)" by fastforce
  obtain a m where a: "last ss = (a, m)" by fastforce
  have ss: "ss = (b, k) # tl ss" using l(2) b by (metis list.collapse)
  show ?thesis
  proof (cases "x = a + m")
    case True
    then show ?thesis using next_place_fits [OF l n p] a by simp
  next
    case False
    then have x: "x = lo" "b \<le> a" "\<not> n \<le> hi - (a + m)" using p by (auto simp: next_place_def a b split: if_splits)
    have "\<not> laid lo hi (ss @ [(a + m, n)])"
    proof
      assume "laid lo hi (ss @ [(a + m, n)])"
      then have "laid lo hi ((b, k) # (tl ss @ [(a + m, n)]))" using ss by (metis append_Cons)
      then have "stacked lo hi ((b, k) # (tl ss @ [(a + m, n)]))" by (rule laid_straight) (use x(2) in simp)
      then have "stacked lo hi (ss @ [(a + m, n)])" using ss by (metis append_Cons)
      then show False using x(3) by (auto simp: stacked_snoc)
    qed
    then show ?thesis using x(1) a by simp
  qed
qed

section \<open>The invariant\<close>

text \<open>The descriptors on the list, oldest first, and the ones that have been taken off it by \<^verbatim>\<open>rt_rbb_blk_queue_get\<close>.\<close>

definition blk_seg :: "rt_rbb \<Rightarrow> nat \<Rightarrow> nat \<times> nat" where
  "blk_seg r i = (unat (blk_buf (rbb_blk_set r i)), unat (blk_size (rbb_blk_set r i)))"

abbreviation buf_from :: "rt_rbb \<Rightarrow> nat" where
  "buf_from r \<equiv> unat (rbb_buf r)"

abbreviation buf_to :: "rt_rbb \<Rightarrow> nat" where
  "buf_to r \<equiv> unat (rbb_buf r) + unat (rbb_buf_size r)"

definition rbb_inv :: "rt_rbb \<Rightarrow> nat list \<Rightarrow> nat set \<Rightarrow> bool" where
  "rbb_inv r bs aw \<longleftrightarrow> slist (rbb_next r) Blk_list (map Blk bs)
     \<and> (\<forall>i < unat (rbb_blk_max_num r). blk_status (rbb_blk_set r i) \<noteq> RT_RBB_BLK_UNUSED \<longleftrightarrow> i \<in> set bs \<union> aw)
     \<and> (\<forall>i\<in>set bs \<union> aw. i < unat (rbb_blk_max_num r)) \<and> set bs \<inter> aw = {}
     \<and> buf_to r < 2 ^ 32 \<and> laid (buf_from r) (buf_to r) (map (blk_seg r) bs)"

lemma rbb_inv_facts:
  assumes "rbb_inv r bs aw"
  shows "slist (rbb_next r) Blk_list (map Blk bs)" "distinct bs" "buf_to r < 2 ^ 32" "laid (buf_from r) (buf_to r) (map (blk_seg r) bs)"
    "\<And>i. i \<in> set bs \<Longrightarrow> i < unat (rbb_blk_max_num r)" "\<And>i. i \<in> aw \<Longrightarrow> i < unat (rbb_blk_max_num r)" "set bs \<inter> aw = {}"
    "\<And>i. i < unat (rbb_blk_max_num r) \<Longrightarrow> blk_status (rbb_blk_set r i) \<noteq> RT_RBB_BLK_UNUSED \<longleftrightarrow> i \<in> set bs \<union> aw"
  using assms slist_distinct [of "rbb_next r" Blk_list "map Blk bs"] by (auto simp: rbb_inv_def distinct_map)

lemma blk_seg_upd [simp]: "blk_seg (upd_blk i f r) j = (if i = j then (unat (blk_buf (f (rbb_blk_set r i))), unat (blk_size (f (rbb_blk_set r i)))) else blk_seg r j)"
  by (simp add: blk_seg_def upd_blk_def)

lemma upd_blk_simps [simp]:
  "rbb_buf (upd_blk i f r) = rbb_buf r" "rbb_buf_size (upd_blk i f r) = rbb_buf_size r" "rbb_blk_max_num (upd_blk i f r) = rbb_blk_max_num r"
  "rbb_next (upd_blk i f r) = rbb_next r" "rbb_blk_set (upd_blk i f r) j = (if i = j then f (rbb_blk_set r i) else rbb_blk_set r j)"
  by (simp_all add: upd_blk_def)

lemma blk_seg_next [simp]: "blk_seg (r\<lparr>rbb_next := nx\<rparr>) = blk_seg r"
  by (simp add: blk_seg_def fun_eq_iff)

lemma find_empty_blk:
  assumes "rbb_inv r bs aw"
  shows "case find_empty_blk_in_set r of None \<Rightarrow> \<forall>i < unat (rbb_blk_max_num r). blk_status (rbb_blk_set r i) \<noteq> RT_RBB_BLK_UNUSED
    | Some i \<Rightarrow> i < unat (rbb_blk_max_num r) \<and> blk_status (rbb_blk_set r i) = RT_RBB_BLK_UNUSED \<and> i \<notin> set bs \<and> i \<notin> aw"
proof (cases "find_empty_blk_in_set r")
  case (Some i)
  then have "i < unat (rbb_blk_max_num r) \<and> blk_status (rbb_blk_set r i) = RT_RBB_BLK_UNUSED"
    by (auto simp: find_empty_blk_in_set_def find_Some_iff)
  then show ?thesis using Some rbb_inv_facts(8) [OF assms, of i] by auto
next
  case None
  then have "\<forall>i < unat (rbb_blk_max_num r). blk_status (rbb_blk_set r i) \<noteq> RT_RBB_BLK_UNUSED" by (auto simp: find_empty_blk_in_set_def find_None_iff)
  then show ?thesis using None by simp
qed

text \<open>A new block at the end of the list.\<close>

lemma blk_place_ok:
  assumes inv: "rbb_inv r bs aw" and i: "i < unat (rbb_blk_max_num r)" "i \<notin> set bs" "i \<notin> aw" and sz: "unat sz < 2 ^ 24"
  obtains r' where "blk_place i a sz r = Some (Some i, r')" "slist (rbb_next r') Blk_list (map Blk (bs @ [i]))"
    "rbb_blk_set r' i = \<lparr>blk_status = RT_RBB_BLK_INITED, blk_size = ucast sz, blk_buf = a\<rparr>" "blk_seg r' i = (unat a, unat sz)"
    "\<And>j. j \<noteq> i \<Longrightarrow> rbb_blk_set r' j = rbb_blk_set r j" "rbb_buf r' = rbb_buf r" "rbb_buf_size r' = rbb_buf_size r" "rbb_blk_max_num r' = rbb_blk_max_num r"
    "laid (buf_from r) (buf_to r) (map (blk_seg r) bs @ [(unat a, unat sz)]) \<Longrightarrow> rbb_inv r' (bs @ [i]) aw"
proof -
  note f = rbb_inv_facts [OF inv]
  obtain nx where nx: "rt_slist_append Blk_list (Blk i) (rbb_next r) = Some nx" "slist nx Blk_list (map Blk bs @ [Blk i])"
    using slist_append_list [OF f(1), of "Blk i"] i(2) by auto
  define r' where "r' = upd_blk i (\<lambda>_. \<lparr>blk_status = RT_RBB_BLK_INITED, blk_size = ucast sz, blk_buf = a\<rparr>) (r\<lparr>rbb_next := nx\<rparr>)"
  have u: "unat (ucast sz :: 24 word) = unat sz" using sz by (simp add: unsigned_ucast_eq take_bit_nat_eq_self)
  have m: "map (blk_seg r') (bs @ [i]) = map (blk_seg r) bs @ [(unat a, unat sz)]" using i(2) u by (auto simp: r'_def)
  have "rbb_inv r' (bs @ [i]) aw" if "laid (buf_from r) (buf_to r) (map (blk_seg r) bs @ [(unat a, unat sz)])"
    unfolding rbb_inv_def m using f nx(2) i that by (auto simp: r'_def)
  then show ?thesis using that [of r'] nx u by (simp add: r'_def blk_place_def)
qed

section \<open>Allocation\<close>

lemma rbb_len:
  assumes inv: "rbb_inv r bs aw" and i: "i < unat (rbb_blk_max_num r)" "i \<notin> set bs"
  shows "rt_slist_len Blk_list (rbb_next r) = Some (of_nat (length bs))" "(of_nat (length bs) :: rt_uint32_t) < rbb_blk_max_num r"
    "(of_nat (length bs) :: rt_uint32_t) > 0 \<longleftrightarrow> bs \<noteq> []"
proof -
  note f = rbb_inv_facts [OF inv]
  have "insert i (set bs) \<subseteq> {..<unat (rbb_blk_max_num r)}" using f(5) i by auto
  then have "card (insert i (set bs)) \<le> unat (rbb_blk_max_num r)" by (metis card_lessThan card_mono finite_lessThan)
  then have l: "length bs < unat (rbb_blk_max_num r)" using i(2) by (simp add: distinct_card [OF f(2)])
  then have u: "unat (of_nat (length bs) :: rt_uint32_t) = length bs" using order_less_trans [OF _ unsigned_less [of "rbb_blk_max_num r"], of "length bs"] by (simp add: unat_of_nat take_bit_nat_eq_self)
  show "rt_slist_len Blk_list (rbb_next r) = Some (of_nat (length bs))" using slist_len [OF f(1)] by simp
  show "(of_nat (length bs) :: rt_uint32_t) < rbb_blk_max_num r" "(of_nat (length bs) :: rt_uint32_t) > 0 \<longleftrightarrow> bs \<noteq> []"
    using l by (simp_all only: word_less_nat_alt u unsigned_0 length_greater_0_conv)
qed

lemma ucast_size: "unat (ucast (w :: 24 word) :: rt_uint32_t) = unat w"
  by (simp add: unsigned_ucast_eq take_bit_nat_eq_self order_less_trans [OF unsigned_less])

text \<open>The comparisons of the code on words are the ones of \<open>next_place\<close> on numbers.\<close>

lemma alloc_place:
  assumes inv: "rbb_inv r bs aw" and ne: "bs \<noteq> []" and sz: "sz < 2 ^ 24"
  shows "rt_rbb_blk_alloc sz r = (case find_empty_blk_in_set r of None \<Rightarrow> Some (None, r)
    | Some i \<Rightarrow> (case next_place (buf_from r) (buf_to r) (map (blk_seg r) bs) (unat sz) of None \<Rightarrow> Some (None, r) | Some x \<Rightarrow> blk_place i (of_nat x) sz r))"
proof -
  note f = rbb_inv_facts [OF inv]
  have first: "rt_slist_first Blk_list (rbb_next r) = Some (Blk (hd bs))" using slist_first [OF f(1)] ne by (cases bs) auto
  have tail: "rt_slist_tail (rbb_next r) Blk_list = Some (Blk (last bs))" using slist_tail [OF f(1)] ne by (simp add: last_map)
  define b where "b = blk_buf (rbb_blk_set r (hd bs))"
  define a where "a = blk_buf (rbb_blk_set r (last bs))"
  define m where "m = blk_size (rbb_blk_set r (last bs))"
  have e: "hd (map (blk_seg r) bs) = (unat b, unat (blk_size (rbb_blk_set r (hd bs))))" "last (map (blk_seg r) bs) = (unat a, unat m)"
    using ne by (simp_all add: hd_map last_map blk_seg_def a_def b_def m_def)
  have in_b: "(unat b, unat (blk_size (rbb_blk_set r (hd bs)))) \<in> set (map (blk_seg r) bs)" unfolding e(1) [symmetric] using ne by (metis hd_in_set map_is_Nil_conv)
  have in_a: "(unat a, unat m) \<in> set (map (blk_seg r) bs)" unfolding e(2) [symmetric] using ne by (metis last_in_set map_is_Nil_conv)
  note la = laid_in [OF f(4) in_a] and lb = laid_in [OF f(4) in_b]
  have after: "unat (a + ucast m) = unat a + unat m" using la f(3) by (simp add: unat_word_ariths ucast_size)
  have top: "unat (rbb_buf r + rbb_buf_size r) = buf_to r" using f(3) by (simp add: unat_word_ariths)
  have c: "b \<le> a \<longleftrightarrow> unat b \<le> unat a" "sz \<le> rbb_buf r + rbb_buf_size r - (a + ucast m) \<longleftrightarrow> unat sz \<le> buf_to r - (unat a + unat m)"
    "sz \<le> b - rbb_buf r \<longleftrightarrow> unat sz \<le> unat b - buf_from r"
    using la lb by (simp_all add: word_le_nat_alt unat_sub after top)
  have c': "sz \<le> b - (a + ucast m) \<longleftrightarrow> unat sz \<le> unat b - (unat a + unat m)" if "\<not> unat b \<le> unat a"
  proof -
    have m: "map (blk_seg r) bs = blk_seg r (hd bs) # map (blk_seg r) (tl bs)" using ne by (cases bs) simp_all
    have "fst (blk_seg r (hd bs)) = unat b" "fst (last (blk_seg r (hd bs) # map (blk_seg r) (tl bs))) = unat a" unfolding m [symmetric] by (simp_all add: blk_seg_def b_def e)
    then have lt: "fst (last (blk_seg r (hd bs) # map (blk_seg r) (tl bs))) < fst (blk_seg r (hd bs))" using that by linarith
    obtain xs ys where ys: "map (blk_seg r) bs = (blk_seg r (hd bs) # xs) @ ys" "ys \<noteq> []" "stacked (buf_from r) (buf_to r) (ys @ blk_seg r (hd bs) # xs)"
      unfolding m using laid_around [OF f(4) [unfolded m] lt] by blast
    obtain zs where "ys = zs @ [(unat a, unat m)]" using ys(1,2) e(2) by (cases ys rule: rev_cases) auto
    then have "stacked (buf_from r) (buf_to r) ((zs @ [(unat a, unat m)]) @ blk_seg r (hd bs) # xs)" using ys(3) by simp
    then have "unat a + unat m \<le> unat b" by (simp add: blk_seg_def b_def stacked_middle)
    then show ?thesis by (simp add: word_le_nat_alt unat_sub after)
  qed
  have place: "next_place (buf_from r) (buf_to r) (map (blk_seg r) bs) (unat sz) =
    (if b \<le> a then if sz \<le> rbb_buf r + rbb_buf_size r - (a + ucast m) then Some (unat (a + ucast m)) else if sz \<le> b - rbb_buf r then Some (buf_from r) else None
     else if sz \<le> b - (a + ucast m) then Some (unat (a + ucast m)) else None)"
    using c c' by (auto simp: next_place_def e after)
  show ?thesis
  proof (cases "find_empty_blk_in_set r")
    case None
    then show ?thesis using slist_len [OF f(1)] sz by (simp add: rt_rbb_blk_alloc_def)
  next
    case (Some i)
    then have i: "i < unat (rbb_blk_max_num r)" "i \<notin> set bs" using find_empty_blk [OF inv] by auto
    show ?thesis
      using Some rbb_len [OF inv i] ne sz first tail
      by (simp add: rt_rbb_blk_alloc_def place blk_entry_def Let_def a_def [symmetric] b_def [symmetric] m_def [symmetric])
  qed
qed

lemma alloc_empty:
  assumes inv: "rbb_inv r [] aw" and sz: "sz < 2 ^ 24"
  shows "rt_rbb_blk_alloc sz r = (case find_empty_blk_in_set r of None \<Rightarrow> Some (None, r) | Some i \<Rightarrow> blk_place i (rbb_buf r) sz r)"
proof (cases "find_empty_blk_in_set r")
  case None
  then show ?thesis using slist_len [OF rbb_inv_facts(1) [OF inv]] sz by (simp add: rt_rbb_blk_alloc_def)
next
  case (Some i)
  then have "i < unat (rbb_blk_max_num r)" "i \<notin> set []" using find_empty_blk [OF inv] by auto
  from rbb_len [OF inv this] show ?thesis using Some sz by (simp add: rt_rbb_blk_alloc_def)
qed

text \<open>C33: \<^verbatim>\<open>rt_rbb_blk_alloc\<close> on a buffer in any state, for a size that is not zero and below the \<open>2\<^sup>2\<^sup>4\<close> the code asserts.  A block is returned exactly if a descriptor
  is unused and there is a place for the block behind the newest one, in the circle.  The block lies directly behind the newest one whenever it fits there, and at the start of the buffer otherwise;
  it has the size that was asked for, lies in the buffer, apart from all blocks on the list, and is the newest one.  Otherwise the result is null and nothing changes.  On an empty list the
  block lies at the start of the buffer and the size is not looked at: a block that is longer than the buffer is given out as well.\<close>

theorem rbb_alloc_correct:
  assumes "rbb_inv r bs aw" and "0 < sz" "sz < 2 ^ 24"
  shows "if (\<exists>i < unat (rbb_blk_max_num r). blk_status (rbb_blk_set r i) = RT_RBB_BLK_UNUSED)
      \<and> (bs = [] \<or> (\<exists>a. laid (buf_from r) (buf_to r) (map (blk_seg r) bs @ [(a, unat sz)])))
    then \<exists>i r'. rt_rbb_blk_alloc sz r = Some (Some i, r') \<and> blk_status (rbb_blk_set r i) = RT_RBB_BLK_UNUSED \<and> i < unat (rbb_blk_max_num r)
      \<and> blk_status (rbb_blk_set r' i) = RT_RBB_BLK_INITED \<and> rt_rbb_blk_size i r' = sz \<and> (\<forall>j. j \<noteq> i \<longrightarrow> rbb_blk_set r' j = rbb_blk_set r j)
      \<and> unat (rt_rbb_blk_buf i r') =
          (if bs = [] then buf_from r
           else let (a, n) = blk_seg r (last bs)
                in if laid (buf_from r) (buf_to r) (map (blk_seg r) bs @ [(a + n, unat sz)]) then a + n else buf_from r)
      \<and> (bs \<noteq> [] \<or> sz \<le> rbb_buf_size r \<longrightarrow> rbb_inv r' (bs @ [i]) aw)
    else rt_rbb_blk_alloc sz r = Some (None, r)"
proof (cases "find_empty_blk_in_set r")
  case None
  then have "\<forall>i < unat (rbb_blk_max_num r). blk_status (rbb_blk_set r i) \<noteq> RT_RBB_BLK_UNUSED" using find_empty_blk [OF assms(1)] by auto
  then show ?thesis using None alloc_place [OF assms(1) _ assms(3)] alloc_empty [of r aw, OF _ assms(3)] assms(1) by (cases "bs = []") auto
next
  case (Some i)
  then have i: "i < unat (rbb_blk_max_num r)" "blk_status (rbb_blk_set r i) = RT_RBB_BLK_UNUSED" "i \<notin> set bs" "i \<notin> aw" using find_empty_blk [OF assms(1)] by auto
  have sz: "0 < unat sz" "unat sz < 2 ^ 24" using assms(2,3) by (simp_all add: word_less_nat_alt)
  have "unat (ucast sz :: 24 word) = unat sz" using sz(2) by (simp add: unsigned_ucast_eq take_bit_nat_eq_self)
  then have ucast: "ucast (ucast sz :: 24 word) = sz" using ucast_size by (intro word_unat_eq_iff [THEN iffD2]) simp
  show ?thesis
  proof (cases "bs = []")
    case True
    note inv = assms(1) [unfolded True]
    obtain r' where r': "blk_place i (rbb_buf r) sz r = Some (Some i, r')"
      "rbb_blk_set r' i = \<lparr>blk_status = RT_RBB_BLK_INITED, blk_size = ucast sz, blk_buf = rbb_buf r\<rparr>"
      "\<And>j. j \<noteq> i \<Longrightarrow> rbb_blk_set r' j = rbb_blk_set r j"
      "laid (buf_from r) (buf_to r) (map (blk_seg r) [] @ [(unat (rbb_buf r), unat sz)]) \<Longrightarrow> rbb_inv r' ([] @ [i]) aw"
      by (rule blk_place_ok [OF inv i(1) _ i(4) sz(2), of "rbb_buf r"]) auto
    have "laid (buf_from r) (buf_to r) [(unat (rbb_buf r), unat sz)]" if "sz \<le> rbb_buf_size r"
      unfolding laid_def using that sz(1) by (intro exI [of _ "[]"] exI [of _ "[(unat (rbb_buf r), unat sz)]"]) (simp add: word_le_nat_alt)
    then show ?thesis using r' i Some alloc_empty [OF inv assms(3)] ucast True by (auto simp: rt_rbb_blk_size_def rt_rbb_blk_buf_def)
  next
    case False
    let ?np = "next_place (buf_from r) (buf_to r) (map (blk_seg r) bs) (unat sz)"
    have ex: "(\<exists>a. laid (buf_from r) (buf_to r) (map (blk_seg r) bs @ [(a, unat sz)])) \<longleftrightarrow> ?np \<noteq> None"
      using next_place_fits [OF rbb_inv_facts(4) [OF assms(1)] _ sz(1)] next_place_complete [of "buf_from r" "buf_to r" "map (blk_seg r) bs"] False by auto
    show ?thesis
    proof (cases ?np)
      case None
      then show ?thesis using ex alloc_place [OF assms(1) False assms(3)] Some False by auto
    next
      case np: (Some x)
      have lx: "laid (buf_from r) (buf_to r) (map (blk_seg r) bs @ [(x, unat sz)])" using next_place_fits [OF rbb_inv_facts(4) [OF assms(1)] _ sz(1) np] False by simp
      then have "x < 2 ^ 32" using laid_in [of _ _ _ x "unat sz"] rbb_inv_facts(3) [OF assms(1)] by fastforce
      then have x: "unat (of_nat x :: rt_uint32_t) = x" by (simp add: unat_of_nat take_bit_nat_eq_self)
      obtain r' where r': "blk_place i (of_nat x) sz r = Some (Some i, r')"
        "rbb_blk_set r' i = \<lparr>blk_status = RT_RBB_BLK_INITED, blk_size = ucast sz, blk_buf = of_nat x\<rparr>"
        "\<And>j. j \<noteq> i \<Longrightarrow> rbb_blk_set r' j = rbb_blk_set r j" "rbb_inv r' (bs @ [i]) aw"
        by (rule blk_place_ok [OF assms(1) i(1,3,4) sz(2), of "of_nat x"]) (use lx x in auto)
      have "rt_rbb_blk_alloc sz r = Some (Some i, r')" using alloc_place [OF assms(1) False assms(3)] Some np r'(1) by simp
      moreover have "(\<exists>i < unat (rbb_blk_max_num r). blk_status (rbb_blk_set r i) = RT_RBB_BLK_UNUSED)" using i by blast
      moreover have "unat (rt_rbb_blk_buf i r') = (let (a, n) = blk_seg r (last bs)
          in if laid (buf_from r) (buf_to r) (map (blk_seg r) bs @ [(a + n, unat sz)]) then a + n else buf_from r)"
        using next_place_choice [OF rbb_inv_facts(4) [OF assms(1)] _ sz(1) np] False r'(2) x by (simp add: rt_rbb_blk_buf_def last_map split_beta)
      ultimately show ?thesis using ex np r'(2-) i False ucast by (auto simp: rt_rbb_blk_size_def)
    qed
  qed
qed

section \<open>Putting, getting and freeing\<close>


lemma find_put_list: "slist (rbb_next r) p (map Blk bs) \<Longrightarrow> blk_find_put r (rbb_next r p) = Some (find (\<lambda>i. blk_status (rbb_blk_set r i) = RT_RBB_BLK_PUT) bs)"
  by (induction bs arbitrary: p) (subst blk_find_put.simps, simp add: blk_entry_def rt_slist_next_def)+

text \<open>The reader gets the oldest block that has been put.\<close>

lemma rbb_get:
  assumes "rbb_inv r bs aw"
  shows "rt_rbb_blk_get r = Some (case find (\<lambda>i. blk_status (rbb_blk_set r i) = RT_RBB_BLK_PUT) bs of None \<Rightarrow> (None, r)
    | Some i \<Rightarrow> (Some i, upd_blk i (\<lambda>b. b\<lparr>blk_status := RT_RBB_BLK_GET\<rparr>) r))"
  using find_put_list [OF rbb_inv_facts(1) [OF assms]] slist_isempty [OF rbb_inv_facts(1) [OF assms]]
  by (auto simp: rt_rbb_blk_get_def rt_slist_first_def split: option.splits)



lemma rbb_free:
  assumes inv: "rbb_inv r bs aw" and i: "i < unat (rbb_blk_max_num r)" "blk_status (rbb_blk_set r i) \<noteq> RT_RBB_BLK_UNUSED"
  shows "\<exists>r'. rt_rbb_blk_free i r = Some r' \<and> rbb_inv r' (remove1 i bs) (aw - {i}) \<and> rbb_blk_max_num r' = rbb_blk_max_num r
    \<and> (\<forall>j. rbb_blk_set r' j = (if j = i then (rbb_blk_set r i)\<lparr>blk_status := RT_RBB_BLK_UNUSED\<rparr> else rbb_blk_set r j))"
proof -
  note f = rbb_inv_facts [OF inv]
  obtain nx where nx: "rt_slist_remove Blk_list (Blk i) (rbb_next r) = Some nx" "slist nx Blk_list (remove1 (Blk i) (map Blk bs))"
    using slist_remove_list [OF f(1), of "Blk i"] by auto
  define r' where "r' = upd_blk i (\<lambda>b. b\<lparr>blk_status := RT_RBB_BLK_UNUSED\<rparr>) (r\<lparr>rbb_next := nx\<rparr>)"
  have "remove1 (Blk i) (map Blk bs) = map Blk (remove1 i bs)" by (induction bs) auto
  moreover have "blk_seg r' = blk_seg r" by (simp add: fun_eq_iff r'_def) (simp add: blk_seg_def)
  moreover have "laid (buf_from r) (buf_to r) (map (blk_seg r) (remove1 i bs))"
  proof (cases "i \<in> set bs")
    case True
    then obtain as cs where "bs = as @ i # cs" "i \<notin> set as" by (meson split_list_first)
    then show ?thesis using laid_remove [of _ _ "map (blk_seg r) as" "blk_seg r i" "map (blk_seg r) cs"] f(4) by (simp add: remove1_append)
  qed (use f(4) in \<open>simp add: remove1_idem\<close>)
  ultimately have "rbb_inv r' (remove1 i bs) (aw - {i})" unfolding rbb_inv_def using nx(2) f(2,3,5-8) by (auto simp: r'_def dest: notin_set_remove1)
  then show ?thesis using nx(1) i by (auto simp: rt_rbb_blk_free_def r'_def)
qed













section \<open>Queues of blocks\<close>

text \<open>Which blocks \<^verbatim>\<open>rt_rbb_blk_queue_get\<close> takes: from the oldest one that has been put, as long as the next one has been put too, does not lie in
  front of it and the sum of the sizes stays within the limit.\<close>

abbreviation was_put :: "rt_rbb \<Rightarrow> nat \<Rightarrow> bool" where
  "was_put r i \<equiv> blk_status (rbb_blk_set r i) = RT_RBB_BLK_PUT"

fun blk_run :: "rt_rbb \<Rightarrow> rt_uint32_t option \<Rightarrow> nat \<Rightarrow> rt_uint32_t \<Rightarrow> nat list \<Rightarrow> nat list" where
  "blk_run r lim j tot [] = []"
| "blk_run r lim j tot (i # is) =
     (if was_put r i \<and> rt_rbb_blk_buf j r \<le> rt_rbb_blk_buf i r \<and> (\<forall>l\<in>set_option lim. tot + rt_rbb_blk_size i r \<le> l)
      then i # blk_run r lim i (tot + rt_rbb_blk_size i r) is else [])"

definition queue_blocks :: "rt_rbb \<Rightarrow> rt_uint32_t option \<Rightarrow> nat list \<Rightarrow> nat list" where
  "queue_blocks r lim bs = (case dropWhile (\<lambda>i. \<not> was_put r i) bs of [] \<Rightarrow> [] | i # is \<Rightarrow> i # blk_run r lim i (rt_rbb_blk_size i r) is)"

abbreviation sizes :: "rt_rbb \<Rightarrow> nat list \<Rightarrow> rt_uint32_t" where
  "sizes r is \<equiv> sum_list (map (\<lambda>i. rt_rbb_blk_size i r) is)"

text \<open>The state after the blocks have been taken off the list.\<close>

definition taken :: "nat list \<Rightarrow> rbb_node slist_heap \<Rightarrow> rt_rbb \<Rightarrow> rt_rbb" where
  "taken q nx r = r\<lparr>rbb_next := nx, rbb_blk_set := (\<lambda>i. if i \<in> set q then (rbb_blk_set r i)\<lparr>blk_status := RT_RBB_BLK_GET\<rparr> else rbb_blk_set r i)\<rparr>"

lemma taken_simps [simp]:
  "rbb_next (taken q nx r) = nx" "rbb_buf (taken q nx r) = rbb_buf r" "rbb_buf_size (taken q nx r) = rbb_buf_size r"
  "rbb_blk_max_num (taken q nx r) = rbb_blk_max_num r" "rt_rbb_blk_size i (taken q nx r) = rt_rbb_blk_size i r"
  "rt_rbb_blk_buf i (taken q nx r) = rt_rbb_blk_buf i r" "blk_seg (taken q nx r) = blk_seg r"
  "blk_status (rbb_blk_set (taken q nx r) i) = (if i \<in> set q then RT_RBB_BLK_GET else blk_status (rbb_blk_set r i))"
  by (auto simp: taken_def rt_rbb_blk_size_def rt_rbb_blk_buf_def blk_seg_def fun_eq_iff)

lemma taken_taken: "taken q nx (taken p nx' r) = taken (p @ q) nx r"
  by (simp add: taken_def fun_eq_iff)

lemma taken_none: "taken [] (rbb_next r) r = r"
  by (simp add: taken_def)

lemma blk_run_taken: "set is \<inter> set q = {} \<Longrightarrow> blk_run (taken q nx r) lim j tot is = blk_run r lim j tot is"
  by (induction r lim j tot "is" rule: blk_run.induct) auto

lemma blk_run_prefix: "\<exists>post. is = blk_run r lim j tot is @ post"
  by (induction r lim j tot "is" rule: blk_run.induct) auto

lemma blk_run_put: "i \<in> set (blk_run r lim j tot is) \<Longrightarrow> was_put r i"
  by (induction r lim j tot "is" rule: blk_run.induct) (auto split: if_splits)

lemma blk_run_ascending: "sorted_wrt (\<lambda>i k. rt_rbb_blk_buf i r \<le> rt_rbb_blk_buf k r) (j # blk_run r lim j tot is)"
proof (induction r lim j tot "is" rule: blk_run.induct)
  case (2 r lim j tot i "is")
  then show ?case by (auto intro: order_trans)
qed simp

lemma blk_run_limit: "tot \<le> l \<Longrightarrow> tot + sizes r (blk_run r (Some l) j tot is) \<le> l"
proof (induction r "Some l" j tot "is" rule: blk_run.induct)
  case (2 r j tot i "is")
  then show ?case by (auto simp: add.assoc [symmetric])
qed simp

text \<open>The run ends where the next block has not been put, lies in front of the last one, or does not fit.\<close>

lemma blk_run_stop:
  "is = blk_run r (Some l) j tot is @ i # post \<Longrightarrow>
    \<not> was_put r i \<or> rt_rbb_blk_buf i r < rt_rbb_blk_buf (last (j # blk_run r (Some l) j tot is)) r \<or> l < tot + sizes r (blk_run r (Some l) j tot is) + rt_rbb_blk_size i r"
proof (induction r "Some l" j tot "is" rule: blk_run.induct)
  case (2 r j tot i' "is")
  then show ?case by (auto simp: not_le add.assoc split: if_splits)
qed simp

lemma blk_take_list:
  assumes "slist (rbb_next r) Blk_list (map Blk (pre @ i # is))"
  obtains nx where "blk_take i r = Some (taken [i] nx r)" "slist nx Blk_list (map Blk (pre @ is))" "nx (Blk i) = rbb_next r (Blk i)"
proof -
  have d: "distinct (pre @ i # is)" using slist_distinct [OF assms] by (auto simp: distinct_map)
  then have r: "remove1 (Blk i) (map Blk (pre @ i # is)) = map Blk (pre @ is)" by (auto simp: remove1_append)
  obtain nx where nx: "rt_slist_remove Blk_list (Blk i) (rbb_next r) = Some nx" "slist nx Blk_list (map Blk (pre @ is))"
    "\<forall>p. p \<notin> set (Blk_list # map Blk (pre @ is)) \<longrightarrow> nx p = rbb_next r p"
    using slist_remove_list [OF assms, of "Blk i"] unfolding r by blast
  have "nx (Blk i) = rbb_next r (Blk i)" using nx(3) d by auto
  moreover have "blk_take i r = Some (taken [i] nx r)" using nx(1) by (simp add: blk_take_def upd_blk_def taken_def fun_eq_iff)
  ultimately show ?thesis using that nx(2) by blast
qed

lemma slist_at: "slist nx l (xs @ x # ys) \<Longrightarrow> nx x = (case ys of [] \<Rightarrow> None | y # _ \<Rightarrow> Some y)"
  using slist_suffix [of nx l "xs @ [x]" ys] by (cases ys) auto

lemma queue_loop_run:
  assumes "slist (rbb_next r) Blk_list (map Blk (pre @ is))" and "j \<notin> set is"
  shows "\<exists>nx. blk_queue_loop l (case is of [] \<Rightarrow> None | i # _ \<Rightarrow> Some (Blk i)) (Some j) tot q r =
      Some (tot + sizes r (blk_run r (Some l) j tot is), q\<lparr>bq_blk_num := bq_blk_num q + of_nat (length (blk_run r (Some l) j tot is))\<rparr>,
        taken (blk_run r (Some l) j tot is) nx r)
    \<and> slist nx Blk_list (map Blk (pre @ drop (length (blk_run r (Some l) j tot is)) is))"
  using assms
proof (induction "is" arbitrary: j tot q r)
  case Nil
  then show ?case by (subst blk_queue_loop.simps) (auto intro!: exI [of _ "rbb_next r"] simp: taken_none)
next
  case (Cons i "is")
  let ?t = "tot + rt_rbb_blk_size i r"
  show ?case
  proof (cases "was_put r i \<and> rt_rbb_blk_buf j r \<le> rt_rbb_blk_buf i r \<and> ?t \<le> l")
    case False
    then have "blk_run r (Some l) j tot (i # is) = []" by simp
    moreover have "blk_queue_loop l (Some (Blk i)) (Some j) tot q r = Some (tot, q, r)"
      using False by (subst blk_queue_loop.simps) (auto simp: blk_entry_def Let_def rt_rbb_blk_size_def rt_rbb_blk_buf_def not_le)
    ultimately show ?thesis using Cons.prems(1) by (intro exI [of _ "rbb_next r"]) (simp add: taken_none)
  next
    case True
    obtain nx where nx: "blk_take i r = Some (taken [i] nx r)" "slist nx Blk_list (map Blk (pre @ is))" "nx (Blk i) = rbb_next r (Blk i)"
      by (rule blk_take_list [OF Cons.prems(1)])
    have d: "i \<notin> set is" using slist_distinct [OF Cons.prems(1)] by auto
    have n: "nx (Blk i) = (case is of [] \<Rightarrow> None | i # _ \<Rightarrow> Some (Blk i))" using slist_at [of "rbb_next r" Blk_list "map Blk pre" "Blk i" "map Blk is"] Cons.prems(1) nx(3)
      by (cases "is") auto
    let ?q = "q\<lparr>bq_blk_num := bq_blk_num q + 1\<rparr>"
    have r: "blk_run (taken [i] nx r) (Some l) i ?t is = blk_run r (Some l) i ?t is" by (rule blk_run_taken) (use d in auto)
    obtain nx' where nx': "blk_queue_loop l (case is of [] \<Rightarrow> None | i # _ \<Rightarrow> Some (Blk i)) (Some i) ?t ?q (taken [i] nx r) =
        Some (?t + sizes r (blk_run r (Some l) i ?t is), ?q\<lparr>bq_blk_num := bq_blk_num ?q + of_nat (length (blk_run r (Some l) i ?t is))\<rparr>,
          taken (i # blk_run r (Some l) i ?t is) nx' r)" "slist nx' Blk_list (map Blk (pre @ drop (length (blk_run r (Some l) i ?t is)) is))"
      using Cons.IH [of "taken [i] nx r" i ?t ?q] nx(2) d unfolding r by (auto simp: taken_taken)
    have "blk_queue_loop l (Some (Blk i)) (Some j) tot q r = blk_queue_loop l (case is of [] \<Rightarrow> None | i # _ \<Rightarrow> Some (Blk i)) (Some i) ?t ?q (taken [i] nx r)"
      using True nx(1) n by (subst blk_queue_loop.simps) (auto simp: blk_entry_def Let_def rt_rbb_blk_size_def rt_rbb_blk_buf_def rt_slist_next_def)
    then show ?thesis using nx' True by (intro exI [of _ nx']) (simp add: add.assoc)
  qed
qed

lemma queue_loop_first:
  assumes "slist (rbb_next r) Blk_list (map Blk (pre @ is))" and "\<And>i. i \<in> set pre \<Longrightarrow> \<not> was_put r i"
  shows "\<exists>pre' post nx. pre @ is = pre' @ queue_blocks r (Some l) is @ post \<and> (\<forall>i\<in>set pre'. \<not> was_put r i)
    \<and> blk_queue_loop l (case is of [] \<Rightarrow> None | i # _ \<Rightarrow> Some (Blk i)) None 0 q r =
      Some (sizes r (queue_blocks r (Some l) is),
        if queue_blocks r (Some l) is = [] then q else \<lparr>bq_blocks = hd (queue_blocks r (Some l) is), bq_blk_num = of_nat (length (queue_blocks r (Some l) is))\<rparr>,
        taken (queue_blocks r (Some l) is) nx r)
    \<and> slist nx Blk_list (map Blk (pre' @ post)) \<and> (queue_blocks r (Some l) is = [] \<longrightarrow> nx = rbb_next r)"
  using assms
proof (induction "is" arbitrary: pre)
  case Nil
  then show ?case
    by (subst blk_queue_loop.simps) (intro exI [of _ pre] exI [of _ "[] :: nat list"] exI [of _ "rbb_next r"], simp add: queue_blocks_def taken_none)
next
  case (Cons i "is")
  have n: "rbb_next r (Blk i) = (case is of [] \<Rightarrow> None | i # _ \<Rightarrow> Some (Blk i))"
    using slist_at [of "rbb_next r" Blk_list "map Blk pre" "Blk i" "map Blk is"] Cons.prems(1) by (cases "is") auto
  show ?case
  proof (cases "was_put r i")
    case False
    then have e: "queue_blocks r (Some l) (i # is) = queue_blocks r (Some l) is" by (simp add: queue_blocks_def)
    have e': "blk_queue_loop l (Some (Blk i)) None 0 q r = blk_queue_loop l (case is of [] \<Rightarrow> None | i # _ \<Rightarrow> Some (Blk i)) None 0 q r"
      using False n by (subst blk_queue_loop.simps) (simp add: blk_entry_def Let_def rt_slist_next_def)
    have "slist (rbb_next r) Blk_list (map Blk ((pre @ [i]) @ is))" "\<And>j. j \<in> set (pre @ [i]) \<Longrightarrow> \<not> was_put r j" using Cons.prems False by auto
    from Cons.IH [OF this] show ?thesis unfolding e list.case e' append_assoc append_Cons append_Nil .
  next
    case True
    let ?t = "rt_rbb_blk_size i r" let ?q = "\<lparr>bq_blocks = i, bq_blk_num = 1\<rparr>"
    let ?run = "blk_run r (Some l) i ?t is"
    obtain nx where nx: "blk_take i r = Some (taken [i] nx r)" "slist nx Blk_list (map Blk (pre @ is))" "nx (Blk i) = rbb_next r (Blk i)"
      by (rule blk_take_list [OF Cons.prems(1)])
    have d: "i \<notin> set is" using slist_distinct [OF Cons.prems(1)] by auto
    have e: "blk_run (taken [i] nx r) (Some l) i ?t is = ?run" by (rule blk_run_taken) (use d in auto)
    obtain nx' where nx': "blk_queue_loop l (case is of [] \<Rightarrow> None | i # _ \<Rightarrow> Some (Blk i)) (Some i) ?t ?q (taken [i] nx r) =
        Some (?t + sizes r ?run, ?q\<lparr>bq_blk_num := 1 + of_nat (length ?run)\<rparr>, taken (i # ?run) nx' r)"
      "slist nx' Blk_list (map Blk (pre @ drop (length ?run) is))"
      using queue_loop_run [of "taken [i] nx r" pre "is" i l ?t ?q] nx(2) d unfolding e by (auto simp: taken_taken)
    have "blk_queue_loop l (Some (Blk i)) None 0 q r = blk_queue_loop l (case is of [] \<Rightarrow> None | i # _ \<Rightarrow> Some (Blk i)) (Some i) ?t ?q (taken [i] nx r)"
      using True nx n by (subst blk_queue_loop.simps) (simp add: blk_entry_def Let_def rt_rbb_blk_size_def rt_slist_next_def)
    moreover have "queue_blocks r (Some l) (i # is) = i # ?run" using True by (simp add: queue_blocks_def)
    moreover have "is = ?run @ drop (length ?run) is" using blk_run_prefix [of "is" r "Some l" i ?t] by (metis append_eq_conv_conj)
    ultimately show ?thesis using nx' Cons.prems(2)
      by (intro exI [of _ pre] exI [of _ "drop (length ?run) is"] exI [of _ nx']) simp
  qed
qed

lemma len_loop_run:
  "slist (rbb_next r) p (map Blk is) \<Longrightarrow> blk_len_loop (rbb_next r p) (Some j) tot r = Some (tot + sizes r (blk_run r None j tot is))"
proof (induction "is" arbitrary: p j tot)
  case Nil
  then show ?case by (subst blk_len_loop.simps) simp
next
  case (Cons i "is")
  then show ?case
    by (subst blk_len_loop.simps)
      (auto simp: blk_entry_def Let_def rt_slist_next_def rt_rbb_blk_size_def [symmetric] rt_rbb_blk_buf_def [symmetric] add.assoc not_le)
qed

lemma len_loop_first:
  "slist (rbb_next r) p (map Blk is) \<Longrightarrow> blk_len_loop (rbb_next r p) None 0 r = Some (sizes r (queue_blocks r None is))"
proof (induction "is" arbitrary: p)
  case Nil
  then show ?case by (subst blk_len_loop.simps) (simp add: queue_blocks_def)
next
  case (Cons i "is")
  then show ?case using len_loop_run [of r "Blk i" "is" i "rt_rbb_blk_size i r"]
    by (subst blk_len_loop.simps) (auto simp: blk_entry_def Let_def rt_slist_next_def rt_rbb_blk_size_def [symmetric] queue_blocks_def)
qed

lemma stacked_sum: "stacked lo hi ss \<Longrightarrow> lo + sum_list (map snd ss) \<le> hi"
  by (induction lo hi ss rule: stacked.induct) auto

lemma laid_sum: "laid lo hi ss \<Longrightarrow> lo + sum_list (map snd ss) \<le> hi"
  by (auto simp: laid_def dest!: stacked_sum)

lemma unat_sum: "sum_list (map (\<lambda>i. unat (f i :: rt_uint32_t)) q) < 2 ^ 32 \<Longrightarrow> unat (sum_list (map f q)) = sum_list (map (\<lambda>i. unat (f i)) q)"
proof (induction q)
  case (Cons i q)
  then show ?case by (simp add: unat_word_ariths)
qed simp

lemma sizes_fit:
  assumes "rbb_inv r (pre @ q @ post) aw"
  shows "unat (sizes r q) = sum_list (map (\<lambda>i. snd (blk_seg r i)) q)"
proof -
  have s: "unat (rt_rbb_blk_size i r) = snd (blk_seg r i)" for i by (simp add: rt_rbb_blk_size_def blk_seg_def ucast_size)
  have "sum_list (map (\<lambda>i. snd (blk_seg r i)) q) < 2 ^ 32"
    using laid_sum [OF rbb_inv_facts(4) [OF assms]] rbb_inv_facts(3) [OF assms] by (simp add: comp_def)
  then show ?thesis using unat_sum [of "\<lambda>i. rt_rbb_blk_size i r" q] by (simp add: s)
qed

lemma laid_remove_run: "laid lo hi (xs @ q @ ys) \<Longrightarrow> laid lo hi (xs @ ys)"
proof (induction q)
  case (Cons s q)
  then show ?case using laid_remove [of lo hi xs s "q @ ys"] by simp
qed simp

lemma taken_inv:
  assumes inv: "rbb_inv r (pre @ q @ post) aw" and nx: "slist nx Blk_list (map Blk (pre @ post))"
  shows "rbb_inv (taken q nx r) (pre @ post) (aw \<union> set q)"
proof -
  note f = rbb_inv_facts [OF inv]
  have "laid (buf_from r) (buf_to r) (map (blk_seg r) (pre @ post))"
    using laid_remove_run [of _ _ "map (blk_seg r) pre" "map (blk_seg r) q" "map (blk_seg r) post"] f(4) by simp
  then show ?thesis unfolding rbb_inv_def using nx f(2,3,5-8) by auto
qed

lemma queue_blocks_props:
  shows "i \<in> set (queue_blocks r lim bs) \<Longrightarrow> was_put r i" "sorted_wrt (\<lambda>i k. rt_rbb_blk_buf i r \<le> rt_rbb_blk_buf k r) (queue_blocks r lim bs)"
    "lim = Some l \<Longrightarrow> length (queue_blocks r lim bs) > 1 \<Longrightarrow> sizes r (queue_blocks r lim bs) \<le> l"
    "lim = Some l \<Longrightarrow> queue_blocks r lim bs \<noteq> [] \<Longrightarrow> rt_rbb_blk_size (hd (queue_blocks r lim bs)) r \<le> l \<Longrightarrow> sizes r (queue_blocks r lim bs) \<le> l"
    "queue_blocks r lim bs = [] \<Longrightarrow> i \<in> set bs \<Longrightarrow> \<not> was_put r i"
proof -
  have hd_put: "was_put r i" if "dropWhile (\<lambda>i. \<not> was_put r i) bs = i # is" for i "is" using hd_dropWhile [of "\<lambda>i. \<not> was_put r i" bs] that by simp
  show "i \<in> set (queue_blocks r lim bs) \<Longrightarrow> was_put r i"
    by (cases "dropWhile (\<lambda>i. \<not> was_put r i) bs") (auto simp: queue_blocks_def dest: hd_put blk_run_put)
  show "sorted_wrt (\<lambda>i k. rt_rbb_blk_buf i r \<le> rt_rbb_blk_buf k r) (queue_blocks r lim bs)"
    using blk_run_ascending by (cases "dropWhile (\<lambda>i. \<not> was_put r i) bs") (simp_all add: queue_blocks_def del: sorted_wrt.simps(2) dropWhile_eq_Nil_conv)
  show "queue_blocks r lim bs = [] \<Longrightarrow> i \<in> set bs \<Longrightarrow> \<not> was_put r i" by (auto simp: queue_blocks_def split: list.splits)
  show "sizes r (queue_blocks r lim bs) \<le> l" if "lim = Some l" "queue_blocks r lim bs \<noteq> []" "rt_rbb_blk_size (hd (queue_blocks r lim bs)) r \<le> l"
    using that blk_run_limit by (cases "dropWhile (\<lambda>i. \<not> was_put r i) bs") (auto simp: queue_blocks_def)
  assume l: "lim = Some l" "length (queue_blocks r lim bs) > 1"
  then obtain j js where j: "queue_blocks r lim bs = j # blk_run r (Some l) j (rt_rbb_blk_size j r) js"
    by (cases "dropWhile (\<lambda>i. \<not> was_put r i) bs") (auto simp: queue_blocks_def)
  obtain i "is" where i: "js = i # is" "rt_rbb_blk_size j r + rt_rbb_blk_size i r \<le> l"
    "blk_run r (Some l) j (rt_rbb_blk_size j r) js = i # blk_run r (Some l) i (rt_rbb_blk_size j r + rt_rbb_blk_size i r) is"
  proof (cases js)
    case Nil
    then show ?thesis using l(2) unfolding j by simp
  next
    case (Cons i "is")
    have c: "was_put r i \<and> rt_rbb_blk_buf j r \<le> rt_rbb_blk_buf i r \<and> rt_rbb_blk_size j r + rt_rbb_blk_size i r \<le> l"
      using l(2) unfolding j Cons by (auto split: if_splits)
    show ?thesis by (rule that [OF Cons]) (use c Cons in auto)
  qed
  show "sizes r (queue_blocks r lim bs) \<le> l" unfolding j i(3) using blk_run_limit [OF i(2), of r i "is"] by (simp add: add.assoc)
qed

lemma queue_blocks_stop:
  assumes "bs = pre @ queue_blocks r (Some l) bs @ i # post" and "\<forall>j\<in>set pre. \<not> was_put r j" and "queue_blocks r (Some l) bs \<noteq> []"
  shows "\<not> was_put r i \<or> rt_rbb_blk_buf i r < rt_rbb_blk_buf (last (queue_blocks r (Some l) bs)) r \<or> l < sizes r (queue_blocks r (Some l) bs) + rt_rbb_blk_size i r"
proof -
  obtain j js where j: "dropWhile (\<lambda>i. \<not> was_put r i) bs = j # js" using assms(3) by (cases "dropWhile (\<lambda>i. \<not> was_put r i) bs") (auto simp: queue_blocks_def)
  then have q: "queue_blocks r (Some l) bs = j # blk_run r (Some l) j (rt_rbb_blk_size j r) js" by (simp add: queue_blocks_def)
  have "was_put r j" using queue_blocks_props(1) [of j r "Some l" bs] q by simp
  then have "dropWhile (\<lambda>i. \<not> was_put r i) (pre @ j # blk_run r (Some l) j (rt_rbb_blk_size j r) js @ i # post) = j # blk_run r (Some l) j (rt_rbb_blk_size j r) js @ i # post"
    using assms(2) by (simp add: dropWhile_append2)
  then have "js = blk_run r (Some l) j (rt_rbb_blk_size j r) js @ i # post" using assms(1) j q by (metis append_Cons list.inject)
  from blk_run_stop [OF this] show ?thesis by (simp add: q)
qed

lemma find_queue: "find (\<lambda>i. was_put r i) bs = (if queue_blocks r lim bs = [] then None else Some (hd (queue_blocks r lim bs)))"
  by (induction bs) (auto simp: queue_blocks_def)

lemma queue_get_taken:
  assumes inv: "rbb_inv r bs aw" and qs: "queue_blocks r (Some l) bs = qs"
  obtains pre post nx where "bs = pre @ qs @ post" "\<forall>i\<in>set pre. \<not> was_put r i"
    "rt_rbb_blk_queue_get l q r = Some (sizes r qs, if qs = [] then q else \<lparr>bq_blocks = hd qs, bq_blk_num = of_nat (length qs)\<rparr>, taken qs nx r)"
    "rbb_inv (taken qs nx r) (pre @ post) (aw \<union> set qs)" "qs = [] \<longrightarrow> nx = rbb_next r"
proof -
  note f = rbb_inv_facts [OF inv]
  have first: "rt_slist_first Blk_list (rbb_next r) = (case bs of [] \<Rightarrow> None | i # _ \<Rightarrow> Some (Blk i))" using slist_first [OF f(1)] by (cases bs) auto
  have "slist (rbb_next r) Blk_list (map Blk ([] @ bs))" "\<And>i. i \<in> set [] \<Longrightarrow> \<not> was_put r i" using f(1) by simp_all
  from queue_loop_first [OF this, of l q, unfolded qs] obtain pre post nx where p: "bs = pre @ qs @ post" "\<forall>i\<in>set pre. \<not> was_put r i"
    "blk_queue_loop l (case bs of [] \<Rightarrow> None | i # _ \<Rightarrow> Some (Blk i)) None 0 q r =
      Some (sizes r qs, if qs = [] then q else \<lparr>bq_blocks = hd qs, bq_blk_num = of_nat (length qs)\<rparr>, taken qs nx r)"
    "slist nx Blk_list (map Blk (pre @ post))" "qs = [] \<longrightarrow> nx = rbb_next r"
    unfolding append_Nil by blast
  have g: "rt_rbb_blk_queue_get l q r = Some (sizes r qs, if qs = [] then q else \<lparr>bq_blocks = hd qs, bq_blk_num = of_nat (length qs)\<rparr>, taken qs nx r)"
  proof (cases "bs = []")
    case True
    then show ?thesis using p(1,5) slist_isempty [OF f(1)] by (simp add: rt_rbb_blk_queue_get_def taken_none)
  next
    case False
    then show ?thesis using p(3) first slist_isempty [OF f(1)] by (simp add: rt_rbb_blk_queue_get_def)
  qed
  show ?thesis by (rule that [OF p(1,2) g taken_inv [OF inv [unfolded p(1)] p(4)] p(5)])
qed

text \<open>C35: \<^verbatim>\<open>rt_rbb_blk_queue_get\<close> takes a run of blocks, at rising addresses, off the list: the oldest block that has been put, whatever its size, and the ones behind it.  The run
  ends at the first block that has not been put, that lies in front of the one before it, or with which the sum of the sizes would exceed the limit.  The call returns the sum of the
  sizes, which does not overflow, and marks the blocks as got.  The sum is at most the limit if the size of the first block is; a first block above the limit is taken alone, although the comment
  on the function says that the result is less than the limit.  All other blocks stay on the list in their order.  Without a limit the sum is what \<^verbatim>\<open>rt_rbb_next_blk_queue_len\<close>
  announces.  \<^verbatim>\<open>rt_rbb_blk_get\<close> takes the first block of the run and leaves it on the list.\<close>

theorem rbb_queue_get_correct:
  assumes "rbb_inv r bs aw" and "qs = queue_blocks r (Some l) bs"
  shows "\<exists>pre post r' q' total. bs = pre @ qs @ post \<and> (\<forall>i\<in>set pre. \<not> was_put r i) \<and> (\<forall>i\<in>set qs. was_put r i \<and> blk_status (rbb_blk_set r' i) = RT_RBB_BLK_GET)
    \<and> rt_rbb_blk_queue_get l q r = Some (total, q', r') \<and> rbb_inv r' (pre @ post) (aw \<union> set qs)
    \<and> unat total = (\<Sum>i\<leftarrow>qs. snd (blk_seg r i)) \<and> sorted_wrt (\<lambda>i k. rt_rbb_blk_buf i r \<le> rt_rbb_blk_buf k r) qs
    \<and> (qs = [] \<longrightarrow> (\<forall>i\<in>set bs. \<not> was_put r i)) \<and> (qs \<noteq> [] \<longrightarrow> (if rt_rbb_blk_size (hd qs) r \<le> l then total \<le> l else qs = [hd qs]))
    \<and> (\<forall>i is. qs \<noteq> [] \<and> post = i # is \<longrightarrow> \<not> was_put r i \<or> rt_rbb_blk_buf i r < rt_rbb_blk_buf (last qs) r \<or> l < total + rt_rbb_blk_size i r)
    \<and> (if qs = [] then q' = q \<and> r' = r else bq_blocks q' = hd qs \<and> bq_blk_num q' = of_nat (length qs))
    \<and> rt_rbb_next_blk_queue_len r = Some (sizes r (queue_blocks r None bs))
    \<and> rt_rbb_blk_get r = Some (if qs = [] then (None, r) else (Some (hd qs), upd_blk (hd qs) (\<lambda>b. b\<lparr>blk_status := RT_RBB_BLK_GET\<rparr>) r))"
proof -
  note f = rbb_inv_facts [OF assms(1)]
  obtain pre post nx where p: "bs = pre @ qs @ post" "\<forall>i\<in>set pre. \<not> was_put r i" and
    g: "rt_rbb_blk_queue_get l q r = Some (sizes r qs, if qs = [] then q else \<lparr>bq_blocks = hd qs, bq_blk_num = of_nat (length qs)\<rparr>, taken qs nx r)"
    and i: "rbb_inv (taken qs nx r) (pre @ post) (aw \<union> set qs)" and nx: "qs = [] \<longrightarrow> nx = rbb_next r"
    by (rule queue_get_taken [OF assms(1) assms(2) [symmetric], of q])
  have n: "rt_rbb_next_blk_queue_len r = Some (sizes r (queue_blocks r None bs))"
    using len_loop_first [OF f(1)] slist_isempty [OF f(1)] by (auto simp: rt_rbb_next_blk_queue_len_def rt_slist_first_def queue_blocks_def)
  have "find (\<lambda>i. was_put r i) bs = (if qs = [] then None else Some (hd qs))" unfolding assms(2) by (rule find_queue)
  then have h: "rt_rbb_blk_get r = Some (if qs = [] then (None, r) else (Some (hd qs), upd_blk (hd qs) (\<lambda>b. b\<lparr>blk_status := RT_RBB_BLK_GET\<rparr>) r))"
    using rbb_get [OF assms(1)] by simp
  have t: "unat (sizes r qs) = (\<Sum>i\<leftarrow>qs. snd (blk_seg r i))" using sizes_fit [of r pre qs post aw] assms(1) p(1) by simp
  have c: "\<forall>i\<in>set qs. was_put r i \<and> blk_status (rbb_blk_set (taken qs nx r) i) = RT_RBB_BLK_GET" using queue_blocks_props(1) assms(2) by auto
  have m: "\<forall>i is. qs \<noteq> [] \<and> post = i # is \<longrightarrow> \<not> was_put r i \<or> rt_rbb_blk_buf i r < rt_rbb_blk_buf (last qs) r \<or> l < sizes r qs + rt_rbb_blk_size i r"
  proof (intro allI impI)
    fix i "is" assume a: "qs \<noteq> [] \<and> post = i # is"
    have "bs = pre @ queue_blocks r (Some l) bs @ i # is" unfolding assms(2) [symmetric] a [THEN conjunct2, symmetric] by (rule p(1))
    from queue_blocks_stop [OF this p(2)] a show "\<not> was_put r i \<or> rt_rbb_blk_buf i r < rt_rbb_blk_buf (last qs) r \<or> l < sizes r qs + rt_rbb_blk_size i r"
      unfolding assms(2) by blast
  qed
  have lim: "if rt_rbb_blk_size (hd qs) r \<le> l then sizes r qs \<le> l else qs = [hd qs]" if ne: "qs \<noteq> []"
  proof (cases "length qs > 1")
    case True
    then have le: "sizes r qs \<le> l" using queue_blocks_props(3) assms(2) by blast
    have "unat (rt_rbb_blk_size (hd qs) r) = snd (blk_seg r (hd qs))" by (simp add: rt_rbb_blk_size_def blk_seg_def ucast_size)
    then have "rt_rbb_blk_size (hd qs) r \<le> sizes r qs" using t ne by (cases qs) (simp_all add: word_le_nat_alt)
    then show ?thesis using le by (meson order_trans)
  next
    case False
    then have "length qs = 1" using ne by (cases qs) simp_all
    then have "qs = [hd qs]" by (metis One_nat_def length_0_conv length_Suc_conv list.sel(1))
    moreover have "sizes r qs \<le> l" if "rt_rbb_blk_size (hd qs) r \<le> l" using queue_blocks_props(4) [of "Some l" l r bs] assms(2) ne that by blast
    ultimately show ?thesis unfolding if_bool_eq_conj by blast
  qed
  have "qs = [] \<longrightarrow> (\<forall>i\<in>set bs. \<not> was_put r i)" "sorted_wrt (\<lambda>i k. rt_rbb_blk_buf i r \<le> rt_rbb_blk_buf k r) qs"
    unfolding assms(2) using queue_blocks_props(2) queue_blocks_props(5) [of r "Some l" bs] by blast+
  moreover have "if qs = [] then (if qs = [] then q else \<lparr>bq_blocks = hd qs, bq_blk_num = of_nat (length qs)\<rparr>) = q \<and> taken qs nx r = r
    else bq_blocks (if qs = [] then q else \<lparr>bq_blocks = hd qs, bq_blk_num = of_nat (length qs)\<rparr>) = hd qs
      \<and> bq_blk_num (if qs = [] then q else \<lparr>bq_blocks = hd qs, bq_blk_num = of_nat (length qs)\<rparr>) = of_nat (length qs)"
    using nx by (simp add: taken_none)
  moreover have "qs \<noteq> [] \<longrightarrow> (if rt_rbb_blk_size (hd qs) r \<le> l then sizes r qs \<le> l else qs = [hd qs])" using lim by blast
  ultimately show ?thesis using p(1,2) g i t c n h m by (intro exI conjI) assumption+
qed

text \<open>The operations on a queue go through neighbouring descriptors.\<close>

lemma blk_sizes_all: "(\<And>i. i \<in> set is \<Longrightarrow> i < unat (rbb_blk_max_num r)) \<Longrightarrow> blk_sizes is t r = Some (t + sizes r is)"
  by (induction "is" arbitrary: t) (auto simp: rt_rbb_blk_size_def)

lemma blk_frees_all:
  "rbb_inv r bs aw \<Longrightarrow> distinct is \<Longrightarrow> set is \<subseteq> aw \<Longrightarrow> \<exists>r'. blk_frees is r = Some r' \<and> rbb_inv r' bs (aw - set is)"
proof (induction "is" arbitrary: r aw)
  case (Cons i "is")
  have i: "i < unat (rbb_blk_max_num r)" "blk_status (rbb_blk_set r i) \<noteq> RT_RBB_BLK_UNUSED" "i \<notin> set bs"
    using rbb_inv_facts(6-8) [OF Cons.prems(1)] Cons.prems(3) by auto
  obtain r' where r': "rt_rbb_blk_free i r = Some r'" "rbb_inv r' bs (aw - {i})" using rbb_free [OF Cons.prems(1) i(1,2)] i(3) by (auto simp: remove1_idem)
  obtain r'' where "blk_frees is r' = Some r''" "rbb_inv r'' bs (aw - {i} - set is)" using Cons.IH [OF r'(2)] Cons.prems by auto
  then show ?case using r'(1) i(1) by (auto simp: set_diff_eq Diff_insert2)
qed simp

text \<open>A queue of blocks is given back.  If the blocks of the queue have neighbouring descriptors, in this order, then \<^verbatim>\<open>rt_rbb_blk_queue_len\<close> is the sum that
  \<^verbatim>\<open>rt_rbb_blk_queue_get\<close> returned, \<^verbatim>\<open>rt_rbb_blk_queue_buf\<close> the start of the first block, and \<^verbatim>\<open>rt_rbb_blk_queue_free\<close> gives back exactly the blocks of the queue.\<close>

theorem rbb_queue_roundtrip:
  assumes "rbb_inv r (pre @ [i..<i + n] @ post) aw" and "0 < n" and "queue_blocks r (Some l) (pre @ [i..<i + n] @ post) = [i..<i + n]"
  shows "\<exists>total q' r' r''. rt_rbb_blk_queue_get l q r = Some (total, q', r') \<and> rt_rbb_blk_queue_len q' r' = Some total
    \<and> rt_rbb_blk_queue_buf q' r' = rt_rbb_blk_buf i r \<and> rt_rbb_blk_queue_free q' r' = Some r'' \<and> rbb_inv r'' (pre @ post) aw"
proof -
  let ?qs = "[i..<i + n]"
  note f = rbb_inv_facts [OF assms(1)]
  obtain pre' post' nx where p: "pre @ ?qs @ post = pre' @ ?qs @ post'" and
    g: "rt_rbb_blk_queue_get l q r = Some (sizes r ?qs, if ?qs = [] then q else \<lparr>bq_blocks = hd ?qs, bq_blk_num = of_nat (length ?qs)\<rparr>, taken ?qs nx r)"
    and inv': "rbb_inv (taken ?qs nx r) (pre' @ post') (aw \<union> set ?qs)"
    by (rule queue_get_taken [OF assms(1,3), of q])
  have hd: "?qs = i # [Suc i..<i + n]" using assms(2) by (simp add: upt_conv_Cons)
  have pp: "pre' = pre" "post' = post"
  proof -
    have "distinct (pre @ i # [Suc i..<i + n] @ post)" using f(2) hd by simp
    then have "i \<notin> set pre" "i \<notin> set ([Suc i..<i + n] @ post)" by auto
    moreover have "pre @ i # [Suc i..<i + n] @ post = pre' @ i # [Suc i..<i + n] @ post'" using p hd by simp
    ultimately have "pre = pre' \<and> [Suc i..<i + n] @ post = [Suc i..<i + n] @ post'"
      using append_Cons_eq_iff [of i pre "[Suc i..<i + n] @ post" pre' "[Suc i..<i + n] @ post'"] by blast
    then show "pre' = pre" "post' = post" by simp_all
  qed
  have "set ?qs \<subseteq> {..<unat (rbb_blk_max_num r)}" using f(5) by auto
  then have "n \<le> unat (rbb_blk_max_num r)" using card_mono [of "{..<unat (rbb_blk_max_num r)}" "set ?qs"] by simp
  then have n: "unat (of_nat n :: rt_uint32_t) = n" using order_le_less_trans [OF _ unsigned_less [of "rbb_blk_max_num r"], of n] by (simp add: unat_of_nat take_bit_nat_eq_self)
  have inv: "rbb_inv (taken ?qs nx r) (pre @ post) (aw \<union> set ?qs)" using inv' pp by simp
  have dj: "aw \<inter> set ?qs = {}" using f(7) by auto
  obtain r'' where r'': "blk_frees ?qs (taken ?qs nx r) = Some r''" "rbb_inv r'' (pre @ post) aw"
    using blk_frees_all [OF inv, of ?qs] dj by (auto simp: Un_Diff Diff_triv)
  have g: "rt_rbb_blk_queue_get l q r = Some (sizes r ?qs, \<lparr>bq_blocks = i, bq_blk_num = of_nat n\<rparr>, taken ?qs nx r)" using g assms(2) by simp
  have "rt_rbb_blk_queue_len \<lparr>bq_blocks = i, bq_blk_num = of_nat n\<rparr> (taken ?qs nx r) = Some (sizes r ?qs)"
    using blk_sizes_all [of ?qs "taken ?qs nx r" 0] f(5) n by (simp add: rt_rbb_blk_queue_len_def)
  moreover have "rt_rbb_blk_queue_buf \<lparr>bq_blocks = i, bq_blk_num = of_nat n\<rparr> (taken ?qs nx r) = rt_rbb_blk_buf i r"
    by (simp add: rt_rbb_blk_queue_buf_def rt_rbb_blk_buf_def taken_def)
  moreover have "rt_rbb_blk_queue_free \<lparr>bq_blocks = i, bq_blk_num = of_nat n\<rparr> (taken ?qs nx r) = Some r''"
    using r''(1) n by (simp add: rt_rbb_blk_queue_free_def)
  ultimately show ?thesis using g r''(2) by blast
qed

text \<open>The memory of a queue of blocks is not protected.  \<^verbatim>\<open>rt_rbb_blk_queue_get\<close> takes the blocks off the list that the allocation goes by, so while the reader
  works on them their bytes are given out again: after the only block, at the start of the buffer, has been taken this way, the next
  allocation returns a block at the same address.\<close>

theorem rbb_queue_reused:
  assumes "rbb_inv r [i] aw" and "was_put r i" "rt_rbb_blk_buf i r = rbb_buf r" and "0 < sz" "sz < 2 ^ 24" and "j < unat (rbb_blk_max_num r)"
    and "blk_status (rbb_blk_set r j) = RT_RBB_BLK_UNUSED"
  shows "\<exists>q' r' k r''. rt_rbb_blk_queue_get l q r = Some (rt_rbb_blk_size i r, q', r') \<and> rt_rbb_blk_alloc sz r' = Some (Some k, r'') \<and> k \<noteq> i
    \<and> blk_status (rbb_blk_set r'' i) = RT_RBB_BLK_GET \<and> rt_rbb_blk_buf i r'' = rt_rbb_blk_buf k r'' \<and> \<not> disjoint_segs (blk_seg r'' i) (blk_seg r'' k)"
proof -
  have q: "queue_blocks r (Some l) [i] = [i]" using assms(2) by (simp add: queue_blocks_def)
  obtain pre post nx where p: "[i] = pre @ [i] @ post" and
    g: "rt_rbb_blk_queue_get l q r = Some (sizes r [i], if [i] = [] then q else \<lparr>bq_blocks = hd [i], bq_blk_num = of_nat (length [i])\<rparr>, taken [i] nx r)"
    and inv: "rbb_inv (taken [i] nx r) (pre @ post) (aw \<union> set [i])"
    by (rule queue_get_taken [OF assms(1) q])
  have "pre = []" "post = []" using p by (auto simp: Cons_eq_append_conv)
  then have inv: "rbb_inv (taken [i] nx r) [] (aw \<union> {i})" using inv by simp
  have g: "rt_rbb_blk_queue_get l q r = Some (rt_rbb_blk_size i r, \<lparr>bq_blocks = i, bq_blk_num = 1\<rparr>, taken [i] nx r)" using g by simp
  have j: "j \<noteq> i" using assms(2,7) by auto
  then obtain k where k: "find_empty_blk_in_set (taken [i] nx r) = Some k" "k < unat (rbb_blk_max_num (taken [i] nx r))" "k \<notin> aw \<union> {i}"
    using find_empty_blk [OF inv] assms(6,7) by (cases "find_empty_blk_in_set (taken [i] nx r)") auto
  have sz: "unat sz < 2 ^ 24" "0 < unat sz" using assms(4,5) by (simp_all add: word_less_nat_alt)
  obtain r'' where r'': "blk_place k (rbb_buf r) sz (taken [i] nx r) = Some (Some k, r'')"
    "rbb_blk_set r'' k = \<lparr>blk_status = RT_RBB_BLK_INITED, blk_size = ucast sz, blk_buf = rbb_buf r\<rparr>" "blk_seg r'' k = (unat (rbb_buf r), unat sz)"
    "\<And>j. j \<noteq> k \<Longrightarrow> rbb_blk_set r'' j = rbb_blk_set (taken [i] nx r) j"
    by (rule blk_place_ok [OF inv k(2) _ k(3) sz(1), of "rbb_buf r"]) auto
  have a: "rt_rbb_blk_alloc sz (taken [i] nx r) = Some (Some k, r'')" using alloc_empty [OF inv assms(5)] k(1) r''(1) by simp
  have ki: "k \<noteq> i" using k(3) by auto
  have s: "rbb_blk_set r'' i = (rbb_blk_set r i)\<lparr>blk_status := RT_RBB_BLK_GET\<rparr>" using r''(4) [of i] ki by (simp add: taken_def)
  have "0 < unat (blk_size (rbb_blk_set r i))" using laid_in [OF rbb_inv_facts(4) [OF assms(1)]] by (simp add: blk_seg_def)
  then have "\<not> disjoint_segs (blk_seg r'' i) (blk_seg r'' k)" using r''(3) s sz(2) assms(3) by (simp add: disjoint_segs_def blk_seg_def rt_rbb_blk_buf_def)
  then show ?thesis using g a ki s r''(2) assms(3) by (intro exI conjI) (assumption | simp add: rt_rbb_blk_buf_def)+
qed

section \<open>Examples\<close>

text \<open>A buffer of 100 bytes with four descriptors, two of them on the list.\<close>

definition sample_rbb :: rt_rbb where
  "sample_rbb = \<lparr>rbb_buf = 0x1000, rbb_buf_size = 100,
     rbb_blk_set = (\<lambda>_. \<lparr>blk_status = RT_RBB_BLK_UNUSED, blk_size = 0, blk_buf = 0\<rparr>)
       (0 := \<lparr>blk_status = RT_RBB_BLK_PUT, blk_size = 40, blk_buf = 0x1000\<rparr>, 1 := \<lparr>blk_status = RT_RBB_BLK_PUT, blk_size = 30, blk_buf = 0x1028\<rparr>),
     rbb_blk_max_num = 4, rbb_next = (\<lambda>_. None)(Blk_list := Some (Blk 0), Blk 0 := Some (Blk 1))\<rparr>"

lemma sample_rbb_inv: "rbb_inv sample_rbb [0, 1] {}"
proof -
  have "laid 4096 4196 [(4096, 40), (4136, 30)]" unfolding laid_def by (intro exI [of _ "[]"] exI [of _ "[(4096, 40), (4136, 30)]"]) simp
  then show ?thesis by (auto simp: rbb_inv_def sample_rbb_def blk_seg_def)
qed

text \<open>There is room for 30 more bytes, and not for 31.\<close>

theorem rbb_alloc_correct_witness:
  "(\<exists>i r'. rt_rbb_blk_alloc 30 sample_rbb = Some (Some i, r') \<and> rt_rbb_blk_size i r' = 30 \<and> rbb_inv r' ([0, 1] @ [i]) {})
    \<and> rt_rbb_blk_alloc 31 sample_rbb = Some (None, sample_rbb)"
proof
  have u: "\<exists>i < unat (rbb_blk_max_num sample_rbb). blk_status (rbb_blk_set sample_rbb i) = RT_RBB_BLK_UNUSED" by (intro exI [of _ 2]) (simp add: sample_rbb_def)
  have np: "next_place (buf_from sample_rbb) (buf_to sample_rbb) (map (blk_seg sample_rbb) [0, 1]) n = (if n \<le> 30 then Some 4166 else None)" for n
    by (simp add: next_place_def sample_rbb_def blk_seg_def)
  have "laid (buf_from sample_rbb) (buf_to sample_rbb) (map (blk_seg sample_rbb) [0, 1] @ [(4166, unat (30 :: rt_uint32_t))])"
    by (rule next_place_fits [OF rbb_inv_facts(4) [OF sample_rbb_inv]]) (simp_all add: np [unfolded One_nat_def] del: list.map)
  then have c: "(\<exists>i < unat (rbb_blk_max_num sample_rbb). blk_status (rbb_blk_set sample_rbb i) = RT_RBB_BLK_UNUSED)
      \<and> ([0, 1 :: nat] = [] \<or> (\<exists>a. laid (buf_from sample_rbb) (buf_to sample_rbb) (map (blk_seg sample_rbb) [0, 1] @ [(a, unat (30 :: rt_uint32_t))])))"
    using u by blast
  have "0 < (30 :: rt_uint32_t)" "30 < (2 :: rt_uint32_t) ^ 24" by simp_all
  from rbb_alloc_correct [OF sample_rbb_inv this, unfolded if_P [OF c]]
  show "\<exists>i r'. rt_rbb_blk_alloc 30 sample_rbb = Some (Some i, r') \<and> rt_rbb_blk_size i r' = 30 \<and> rbb_inv r' ([0, 1] @ [i]) {}" by blast
  have "\<not> (\<exists>a. laid (buf_from sample_rbb) (buf_to sample_rbb) (map (blk_seg sample_rbb) [0, 1] @ [(a, unat (31 :: rt_uint32_t))]))"
    using next_place_complete [of "buf_from sample_rbb" "buf_to sample_rbb" "map (blk_seg sample_rbb) [0, 1]"] np by fastforce
  then show "rt_rbb_blk_alloc 31 sample_rbb = Some (None, sample_rbb)" using rbb_alloc_correct [OF sample_rbb_inv, of 31] by auto
qed


text \<open>Both blocks make a queue of 70 bytes.\<close>

lemma sample_queue: "queue_blocks sample_rbb (Some 100) [0, 1] = [0, 1]"
  by (simp add: queue_blocks_def sample_rbb_def rt_rbb_blk_size_def rt_rbb_blk_buf_def)

theorem rbb_queue_get_correct_witness:
  "\<exists>r' q' total. rt_rbb_blk_queue_get 100 \<lparr>bq_blocks = 0, bq_blk_num = 0\<rparr> sample_rbb = Some (total, q', r') \<and> unat total = 70 \<and> rbb_inv r' [] {0, 1} \<and> bq_blk_num q' = 2"
proof -
  from rbb_queue_get_correct [OF sample_rbb_inv sample_queue [symmetric], of "\<lparr>bq_blocks = 0, bq_blk_num = 0\<rparr>"]
  obtain pre post r' q' total where p: "[0, 1] = pre @ [0, 1] @ post" "rt_rbb_blk_queue_get 100 \<lparr>bq_blocks = 0, bq_blk_num = 0\<rparr> sample_rbb = Some (total, q', r')"
    "rbb_inv r' (pre @ post) ({} \<union> set [0, 1])" "unat total = (\<Sum>i\<leftarrow>[0, 1]. snd (blk_seg sample_rbb i))"
    "if [0, 1 :: nat] = [] then q' = \<lparr>bq_blocks = 0, bq_blk_num = 0\<rparr> \<and> r' = sample_rbb else bq_blocks q' = hd [0, 1] \<and> bq_blk_num q' = of_nat (length [0, 1 :: nat])"
    by blast
  have "pre = [] \<and> post = []" using arg_cong [OF p(1), of length] by simp
  then show ?thesis using p(2-) by (auto simp: blk_seg_def sample_rbb_def)
qed

theorem rbb_queue_roundtrip_witness:
  "\<exists>total q' r' r''. rt_rbb_blk_queue_get 100 \<lparr>bq_blocks = 0, bq_blk_num = 0\<rparr> sample_rbb = Some (total, q', r') \<and> rt_rbb_blk_queue_len q' r' = Some total
    \<and> rt_rbb_blk_queue_free q' r' = Some r'' \<and> rbb_inv r'' [] {}"
proof -
  have u: "[] @ [0..<0 + 2] @ [] = [0, 1 :: nat]" by (simp add: upt_conv_Cons)
  have "rbb_inv sample_rbb ([] @ [0..<0 + 2] @ []) {}" "queue_blocks sample_rbb (Some 100) ([] @ [0..<0 + 2] @ []) = [0..<0 + 2]"
    unfolding u using sample_rbb_inv sample_queue by (simp_all add: upt_conv_Cons)
  from rbb_queue_roundtrip [OF this(1) _ this(2), of "\<lparr>bq_blocks = 0, bq_blk_num = 0\<rparr>"] show ?thesis by auto
qed

text \<open>With one block at the start of the buffer.\<close>

definition sample_rbb_one :: rt_rbb where
  "sample_rbb_one = \<lparr>rbb_buf = 0x1000, rbb_buf_size = 100,
     rbb_blk_set = (\<lambda>_. \<lparr>blk_status = RT_RBB_BLK_UNUSED, blk_size = 0, blk_buf = 0\<rparr>)(0 := \<lparr>blk_status = RT_RBB_BLK_PUT, blk_size = 40, blk_buf = 0x1000\<rparr>),
     rbb_blk_max_num = 4, rbb_next = (\<lambda>_. None)(Blk_list := Some (Blk 0))\<rparr>"

theorem rbb_queue_reused_witness:
  "\<exists>q' r' k r''. rt_rbb_blk_queue_get 100 \<lparr>bq_blocks = 0, bq_blk_num = 0\<rparr> sample_rbb_one = Some (40, q', r') \<and> rt_rbb_blk_alloc 20 r' = Some (Some k, r'') \<and> k \<noteq> 0
    \<and> blk_status (rbb_blk_set r'' 0) = RT_RBB_BLK_GET \<and> \<not> disjoint_segs (blk_seg r'' 0) (blk_seg r'' k)"
proof -
  have "laid 4096 4196 [(4096, 40)]" unfolding laid_def by (intro exI [of _ "[]"] exI [of _ "[(4096, 40)]"]) simp
  then have "rbb_inv sample_rbb_one [0] {}" by (auto simp: rbb_inv_def sample_rbb_one_def blk_seg_def)
  from rbb_queue_reused [OF this, of 20 1 100 "\<lparr>bq_blocks = 0, bq_blk_num = 0\<rparr>"] show ?thesis
    by (simp add: sample_rbb_one_def rt_rbb_blk_buf_def rt_rbb_blk_size_def) blast
qed

end
