(* ===== verification/RT_Waitqueue.thy ===== *)
theory RT_Waitqueue
  imports RT_Clock RT_Ipc
begin

text \<open>
  Wait queues, \<^verbatim>\<open>kernel/utilities/waitqueue.c\<close>: threads that wait for an event of a device or a pipe.  A thread waits with a node on its own stack, linked on
  the queue; the thread itself is on no list of the kernel.  A flag remembers a wake-up that comes when nobody waits.
\<close>

section \<open>The code\<close>

definition RT_WQ_FLAG_CLEAN :: rt_uint32_t where [rt_consts]: "RT_WQ_FLAG_CLEAN = 0"
definition RT_WQ_FLAG_WAKEUP :: rt_uint32_t where [rt_consts]: "RT_WQ_FLAG_WAKEUP = 1"

text \<open>\<open>nd_wakeup\<close> is \<^term>\<open>None\<close> for \<^verbatim>\<open>__wqueue_default_wake\<close> and otherwise the handle of a function of the caller of \<^verbatim>\<open>rt_wqueue_add\<close>; what such a function returns
  is the parameter \<open>user\<close> of the wake-up.  It depends on the node and the key only: a function that itself changes the state of the kernel is not covered.\<close>

record rt_wqueue_node =
  nd_polling_thread :: tid
  nd_wakeup :: "nat option"
  nd_key :: rt_uint32_t

record wqueues =
  wq_flag :: "nat \<Rightarrow> rt_uint32_t"
  wq_lists :: "(nat, nat) list_store"
  wq_nodes :: "nat \<Rightarrow> rt_wqueue_node"

abbreviation waiting_list :: "wqueues \<Rightarrow> nat \<Rightarrow> nat list" where
  "waiting_list w q \<equiv> on_list (wq_lists w) q"

definition set_wq_flag :: "nat \<Rightarrow> rt_uint32_t \<Rightarrow> wqueues \<Rightarrow> wqueues" where
  "set_wq_flag q f w = w\<lparr>wq_flag := (wq_flag w)(q := f)\<rparr>"

definition rt_wqueue_init :: "nat \<Rightarrow> wqueues \<Rightarrow> wqueues option" where
  "rt_wqueue_init q w = (if waiting_list w q = [] then Some (set_wq_flag q RT_WQ_FLAG_CLEAN w) else None)"

definition rt_wqueue_add :: "nat \<Rightarrow> nat \<Rightarrow> wqueues \<Rightarrow> wqueues option" where
  "rt_wqueue_add q n w = map_option (\<lambda>s. w\<lparr>wq_lists := s\<rparr>) (ls_append q n (wq_lists w))"

definition rt_wqueue_remove :: "nat \<Rightarrow> wqueues \<Rightarrow> wqueues" where
  "rt_wqueue_remove n w = w\<lparr>wq_lists := ls_remove n (wq_lists w)\<rparr>"

definition wqueue_default_wake :: "rt_wqueue_node \<Rightarrow> rt_uint32_t \<Rightarrow> int" where
  "wqueue_default_wake wait ev = 0"

definition node_wakeup :: "(nat \<Rightarrow> rt_wqueue_node \<Rightarrow> rt_uint32_t \<Rightarrow> int) \<Rightarrow> rt_wqueue_node \<Rightarrow> rt_uint32_t \<Rightarrow> int" where
  "node_wakeup user nd ev = (case nd_wakeup nd of None \<Rightarrow> wqueue_default_wake nd ev | Some f \<Rightarrow> user f nd ev)"

definition rt_wqueue_wakeup ::
    "(nat \<Rightarrow> rt_wqueue_node \<Rightarrow> rt_uint32_t \<Rightarrow> int) \<Rightarrow> nat \<Rightarrow> rt_uint32_t \<Rightarrow> wqueues \<Rightarrow> kernel \<Rightarrow> (wqueues \<times> kernel) option" where
  "rt_wqueue_wakeup user q ev w k =
     (let w = set_wq_flag q RT_WQ_FLAG_WAKEUP w in
      case find (\<lambda>n. node_wakeup user (wq_nodes w n) ev = 0) (waiting_list w q) of
        None \<Rightarrow> Some (w, k)
      | Some n \<Rightarrow>
          do { (_, k) \<leftarrow> rt_thread_resume (nd_polling_thread (wq_nodes w n)) k;
               let w = rt_wqueue_remove n w;
               k \<leftarrow> rt_schedule k;
               Some (w, k) })"

text \<open>\<open>n\<close> is the node on the stack of the caller; it is initialised, so it must not be linked.\<close>

definition rt_wqueue_wait :: "nat \<Rightarrow> nat \<Rightarrow> bool \<Rightarrow> 32 word \<Rightarrow> wqueues \<Rightarrow> kernel \<Rightarrow> (int outcome \<times> wqueues \<times> kernel) option" where
  "rt_wqueue_wait q n condition msec w k =
     do { t \<leftarrow> rt_thread_self k;
          RT_DEBUG_NOT_IN_INTERRUPT k;
          let tick = rt_tick_from_millisecond msec;
          if condition \<or> tick = 0 then Some (Finished 0, w, k)
          else do {
            RT_ASSERT (home (wq_lists w) n = None);
            let w = w\<lparr>wq_nodes := (wq_nodes w)(n := \<lparr>nd_polling_thread = t, nd_wakeup = None, nd_key = 0\<rparr>)\<rparr>;
            if wq_flag w q = RT_WQ_FLAG_WAKEUP then Some (Finished 0, rt_wqueue_remove n (set_wq_flag q 0 w), k)
            else do {
              w \<leftarrow> rt_wqueue_add q n w;
              (_, k) \<leftarrow> rt_thread_suspend t k;
              k \<leftarrow> (if tick \<noteq> of_int RT_WAITING_FOREVER then thread_timer_start t tick k else Some k);
              k \<leftarrow> rt_schedule k;
              Some (Waiting t, w, k) } } }"

definition rt_wqueue_wait_back :: "nat \<Rightarrow> nat \<Rightarrow> wqueues \<Rightarrow> int \<times> wqueues" where
  "rt_wqueue_wait_back q n w = (0, rt_wqueue_remove n (set_wq_flag q 0 w))"

section \<open>Waiting\<close>

lemma set_wq_flag_simps [simp]:
  "wq_flag (set_wq_flag q f w) = (wq_flag w)(q := f)" "wq_lists (set_wq_flag q f w) = wq_lists w" "wq_nodes (set_wq_flag q f w) = wq_nodes w"
  by (simp_all add: set_wq_flag_def)

lemma wqueue_remove_simps [simp]:
  "wq_flag (rt_wqueue_remove n w) = wq_flag w" "wq_lists (rt_wqueue_remove n w) = ls_remove n (wq_lists w)" "wq_nodes (rt_wqueue_remove n w) = wq_nodes w"
  by (simp_all add: rt_wqueue_remove_def)

lemma remove_unlinked: "home (wq_lists w) n = None \<Longrightarrow> rt_wqueue_remove n w = w"
  by (simp add: rt_wqueue_remove_def ls_remove_def)

text \<open>The times a conversion from milliseconds can give.\<close>

lemma ticks_of_ms:
  assumes "rt_tick_from_millisecond ms \<noteq> 0"
  shows "rt_tick_from_millisecond ms \<noteq> of_int RT_WAITING_FOREVER \<longleftrightarrow> 0 < sint (rt_tick_from_millisecond ms)"
    "rt_tick_from_millisecond ms \<noteq> 0x7fffffff" "0 \<le> sint ms \<Longrightarrow> rt_tick_from_millisecond ms < RT_TICK_HALF" "sint ms < 0 \<Longrightarrow> rt_tick_from_millisecond ms = -1"
proof -
  show neg: "rt_tick_from_millisecond ms = -1" if "sint ms < 0" using that by (simp add: rt_tick_from_millisecond_def)
  have lt: "unat (rt_tick_from_millisecond ms) < 2 ^ 30" if "0 \<le> sint ms"
  proof -
    have "unat ms < 2 ^ 31" using that by (rule nonneg_uint)
    then have "unat ms div 1000 < 2147484" by (intro less_mult_imp_div_less) simp
    moreover have "(100 * (unat ms mod 1000) + 999) div 1000 \<le> 101000 div 1000"
      using mod_less_divisor [of 1000 "unat ms"] by (intro div_le_mono) linarith
    ultimately show ?thesis unfolding tick_from_millisecond_value [OF that] by simp
  qed
  show half: "rt_tick_from_millisecond ms < RT_TICK_HALF" if "0 \<le> sint ms" using lt [OF that] by (simp add: word_less_nat_alt rt_consts)
  show "rt_tick_from_millisecond ms \<noteq> 0x7fffffff"
    using half neg by (cases "0 \<le> sint ms") (auto simp: rt_consts)
  show "rt_tick_from_millisecond ms \<noteq> of_int RT_WAITING_FOREVER \<longleftrightarrow> 0 < sint (rt_tick_from_millisecond ms)"
  proof (cases "0 \<le> sint ms")
    case True
    have "uint (rt_tick_from_millisecond ms) = int (unat (rt_tick_from_millisecond ms))" by simp
    then have "0 \<le> sint (rt_tick_from_millisecond ms)" using lt [OF True, simplified] unfolding sint_word_nonneg by linarith
    moreover have "sint (rt_tick_from_millisecond ms) \<noteq> 0" using assms by (simp add: signed_eq_0_iff)
    moreover have "rt_tick_from_millisecond ms \<noteq> -1" using half [OF True] by (auto simp: rt_consts)
    ultimately show ?thesis by (simp add: rt_consts)
  next
    case False
    then show ?thesis using neg by (simp add: rt_consts)
  qed
qed

text \<open>\<^verbatim>\<open>rt_wqueue_wait\<close> on every branch.  It returns at once if the condition holds or the time is zero, and if a wake-up is pending, which it then consumes.  Otherwise the
  caller is suspended with a node at the end of the queue and, for a finite time, a timer set to the time in ticks; another thread runs.\<close>

theorem wqueue_wait_correct:
  assumes "sys_inv k" and "rt_current_thread k = Some t" "stat_of k t = RT_THREAD_READY" and "rt_interrupt_nest k = 0" and "stat_of k u = RT_THREAD_READY" "u \<noteq> t"
    and "home (wq_lists w) n = None" and "tick = rt_tick_from_millisecond msec"
  shows "if condition \<or> tick = 0 then rt_wqueue_wait q n condition msec w k = Some (Finished 0, w, k)
    else if wq_flag w q = RT_WQ_FLAG_WAKEUP
    then \<exists>w'. rt_wqueue_wait q n condition msec w k = Some (Finished 0, w', k) \<and> wq_flag w' = (wq_flag w)(q := 0) \<and> wq_lists w' = wq_lists w
    else \<exists>w' k'. rt_wqueue_wait q n condition msec w k = Some (Waiting t, w', k') \<and> sys_inv k' \<and> stat_of k' t = RT_THREAD_SUSPEND
      \<and> (\<forall>v. v \<noteq> t \<longrightarrow> threads k' v = threads k v) \<and> wq_flag w' = wq_flag w
      \<and> waiting_list w' = (waiting_list w)(q := waiting_list w q @ [n]) \<and> nd_polling_thread (wq_nodes w' n) = t \<and> nd_wakeup (wq_nodes w' n) = None
      \<and> (if sint msec < 0 then home (timer_lists k') (Thread_timer t) = None
         else home (timer_lists k') (Thread_timer t) = Some Hard_timers \<and> tm_timeout_tick (timers k' (Thread_timer t)) = rt_tick k + tick)
      \<and> (if rt_scheduler_lock_nest k = 0 then \<exists>v. rt_current_thread k' = Some v \<and> first_ready k' v else rt_current_thread k' = rt_current_thread k)"
proof -
  have ir: "RT_DEBUG_NOT_IN_INTERRUPT k = Some ()" using assms(4) by (simp add: RT_DEBUG_NOT_IN_INTERRUPT_def rt_interrupt_get_nest_def)
  have self: "rt_thread_self k = Some t" using assms(2) by (simp add: rt_thread_self_def)
  consider "condition \<or> tick = 0" | "\<not> condition" "tick \<noteq> 0" "wq_flag w q = RT_WQ_FLAG_WAKEUP" | "\<not> condition" "tick \<noteq> 0" "wq_flag w q \<noteq> RT_WQ_FLAG_WAKEUP" by blast
  then show ?thesis
  proof cases
    case 1
    then show ?thesis using ir self assms(8) by (simp add: rt_wqueue_wait_def Let_def)
  next
    case 2
    then show ?thesis using ir self assms(7,8) by (simp add: rt_wqueue_wait_def Let_def ls_remove_def)
  next
    case 3
    define w1 where "w1 = w\<lparr>wq_nodes := (wq_nodes w)(n := \<lparr>nd_polling_thread = t, nd_wakeup = None, nd_key = 0\<rparr>)\<rparr>"
    obtain s where s: "ls_append q n (wq_lists w) = Some s" "on_list s = (on_list (wq_lists w))(q := on_list (wq_lists w) q @ [n])"
      using assms(7) by (auto simp: ls_append_Some)
    have add: "rt_wqueue_add q n w1 = Some (w1\<lparr>wq_lists := s\<rparr>)" using s(1) by (simp add: rt_wqueue_add_def w1_def)
    obtain k1 where k1: "rt_thread_suspend t k = Some (RT_EOK, k1)" "sys_inv k1" "same_ipc k k1" "timer_off t k k1"
      "threads k1 = (threads k)(t := set_stat RT_THREAD_SUSPEND (threads k t))" "rt_current_thread k1 = rt_current_thread k"
      using sys_suspend [OF assms(1,3)] by blast
    have st1: "stat_of k1 t = RT_THREAD_SUSPEND" "stat_of k1 u = RT_THREAD_READY" using stat_after [OF k1(5)] assms(5,6) by simp_all
    have off: "home (timer_lists k1) (Thread_timer t) = None" using k1(4) by (simp add: timer_off_def)
    have t0: "rt_tick_from_millisecond msec \<noteq> 0" using 3 assms(8) by simp
    note tm = ticks_of_ms [OF t0]
    obtain k2 where k2: "sleep_on t tick k1 = Some k2" "sys_inv k2" "threads k2 = threads k1"
      "if 0 < sint tick then home (timer_lists k2) (Thread_timer t) = Some Hard_timers \<and> tm_timeout_tick (timers k2 (Thread_timer t)) = rt_tick k1 + tick
       else home (timer_lists k2) (Thread_timer t) = None"
      "if rt_scheduler_lock_nest k1 = 0 then \<exists>v. rt_current_thread k2 = Some v \<and> first_ready k2 v else rt_current_thread k2 = rt_current_thread k1"
      using sys_sleep [OF k1(2) st1(1) off tm(2) [folded assms(8)] st1(2)] by blast
    have sg: "0 < sint tick \<longleftrightarrow> \<not> sint msec < 0"
    proof (cases "sint msec < 0")
      case True
      then show ?thesis using tm(1,4) assms(8) by (simp add: rt_consts)
    next
      case False
      then have "rt_tick_from_millisecond msec \<noteq> -1" using tm(3) by (auto simp: rt_consts)
      then show ?thesis using tm(1) assms(8) False by (simp add: rt_consts)
    qed
    obtain k3 where k3: "(if tick \<noteq> of_int RT_WAITING_FOREVER then thread_timer_start t tick k1 else Some k1) = Some k3" "rt_schedule k3 = Some k2"
      using k2(1) unfolding sleep_on_def tm(1) [folded assms(8)] bind_Some_iff by blast
    have "rt_wqueue_wait q n condition msec w k = Some (Waiting t, w1\<lparr>wq_lists := s\<rparr>, k2)"
      using 3 ir self assms(7) add k1(1) k3 by (simp add: rt_wqueue_wait_def assms(8) [symmetric] w1_def [symmetric] Let_def)
    moreover have "stat_of k2 t = RT_THREAD_SUSPEND" using st1(1) k2(3) by (simp add: stat_of_def)
    moreover have "rt_tick k1 = rt_tick k" "rt_scheduler_lock_nest k1 = rt_scheduler_lock_nest k" using k1(3) by (simp_all add: same_ipc_def)
    ultimately show ?thesis using 3 k2 k1(5,6) s(2) sg by (auto simp: w1_def)
  qed
qed

section \<open>Waking\<close>

lemma resume_schedule:
  assumes "sys_inv k" "stat_of k t = RT_THREAD_SUSPEND"
  obtains k1 k2 where "rt_thread_resume t k = Some (RT_EOK, k1)" "rt_schedule k1 = Some k2" "sys_inv k2" "stat_of k2 t = RT_THREAD_READY"
    "\<forall>v. v \<noteq> t \<longrightarrow> threads k2 v = threads k v" "home (timer_lists k2) (Thread_timer t) = None"
    "if rt_scheduler_lock_nest k = 0 then \<exists>v. rt_current_thread k2 = Some v \<and> first_ready k2 v else rt_current_thread k2 = rt_current_thread k"
proof -
  obtain k1 where k1: "rt_thread_resume t k = Some (RT_EOK, k1)" "sys_inv k1" "same_ipc k k1" "timer_off t k k1"
    "threads k1 = (threads k)(t := set_stat RT_THREAD_READY (threads k t))" "rt_current_thread k1 = rt_current_thread k"
    using sys_resume [OF assms] by blast
  have st1: "stat_of k1 t = RT_THREAD_READY" using k1(5) by (simp add: stat_of_def set_stat_masked)
  obtain k2 where k2: "rt_schedule k1 = Some k2" "sys_inv k2" "threads k2 = threads k1" "timer_lists k2 = timer_lists k1"
    "if rt_scheduler_lock_nest k1 = 0 then \<exists>t. rt_current_thread k2 = Some t \<and> first_ready k2 t else k2 = k1"
    using sys_schedule [OF k1(2) st1] by blast
  have "rt_scheduler_lock_nest k1 = rt_scheduler_lock_nest k" using k1(3) by (simp add: same_ipc_def)
  then show ?thesis using that [OF k1(1) k2(1,2)] k2 k1(4,5,6) st1 by (auto simp: stat_of_def timer_off_def split: if_splits)
qed

text \<open>C36: \<^verbatim>\<open>rt_wqueue_wakeup\<close> wakes the first waiting thread whose function accepts the event: it is ready again, its timer is stopped and its node is off the queue; all other threads
  and nodes stay as they are.  If none accepts, the event is only remembered, and the next \<^verbatim>\<open>rt_wqueue_wait\<close> consumes it instead of blocking: no wake-up is lost between looking at a condition
  and waiting.\<close>

theorem wqueue_wakeup_correct:
  assumes "sys_inv k" and "ls_wf (wq_lists w)" and "f = find (\<lambda>n. node_wakeup user (wq_nodes w n) ev = 0) (waiting_list w q)"
    and "\<forall>n\<in>set_option f. stat_of k (nd_polling_thread (wq_nodes w n)) = RT_THREAD_SUSPEND"
  shows "case f of
      None \<Rightarrow> \<exists>w'. rt_wqueue_wakeup user q ev w k = Some (w', k) \<and> wq_flag w' q = RT_WQ_FLAG_WAKEUP \<and> wq_lists w' = wq_lists w
        \<and> (\<forall>t n msec. rt_current_thread k = Some t \<and> rt_interrupt_nest k = 0 \<and> home (wq_lists w) n = None \<longrightarrow>
            (\<exists>w''. rt_wqueue_wait q n False msec w' k = Some (Finished 0, w'', k) \<and> (rt_tick_from_millisecond msec \<noteq> 0 \<longrightarrow> wq_flag w'' q = 0)))
    | Some n \<Rightarrow> \<exists>w' k'. rt_wqueue_wakeup user q ev w k = Some (w', k') \<and> sys_inv k' \<and> wq_flag w' q = RT_WQ_FLAG_WAKEUP
        \<and> stat_of k' (nd_polling_thread (wq_nodes w n)) = RT_THREAD_READY \<and> home (timer_lists k') (Thread_timer (nd_polling_thread (wq_nodes w n))) = None
        \<and> (\<forall>v. v \<noteq> nd_polling_thread (wq_nodes w n) \<longrightarrow> threads k' v = threads k v) \<and> waiting_list w' = (waiting_list w)(q := remove1 n (waiting_list w q))
        \<and> (if rt_scheduler_lock_nest k = 0 then \<exists>v. rt_current_thread k' = Some v \<and> first_ready k' v else rt_current_thread k' = rt_current_thread k)"
proof (cases f)
  case None
  then have "rt_wqueue_wakeup user q ev w k = Some (set_wq_flag q RT_WQ_FLAG_WAKEUP w, k)" using assms(3) by (simp add: rt_wqueue_wakeup_def Let_def)
  moreover have "\<exists>w''. rt_wqueue_wait q n False msec (set_wq_flag q RT_WQ_FLAG_WAKEUP w) k = Some (Finished 0, w'', k) \<and> (rt_tick_from_millisecond msec \<noteq> 0 \<longrightarrow> wq_flag w'' q = 0)"
    if "rt_current_thread k = Some t" "rt_interrupt_nest k = 0" "home (wq_lists w) n = None" for t n msec
    using that by (simp add: rt_wqueue_wait_def Let_def rt_thread_self_def RT_DEBUG_NOT_IN_INTERRUPT_def rt_interrupt_get_nest_def ls_remove_def)
  ultimately show ?thesis using None by auto
next
  case (Some n)
  then have n: "n \<in> set (waiting_list w q)" using assms(3) by (auto simp: find_Some_iff)
  then have home: "home (wq_lists w) n = Some q" using ls_wf_mem [OF assms(2)] by simp
  have susp: "stat_of k (nd_polling_thread (wq_nodes w n)) = RT_THREAD_SUSPEND" using assms(4) Some by simp
  obtain k1 k2 where k: "rt_thread_resume (nd_polling_thread (wq_nodes w n)) k = Some (RT_EOK, k1)" "rt_schedule k1 = Some k2" "sys_inv k2"
    "stat_of k2 (nd_polling_thread (wq_nodes w n)) = RT_THREAD_READY" "\<forall>v. v \<noteq> nd_polling_thread (wq_nodes w n) \<longrightarrow> threads k2 v = threads k v"
    "home (timer_lists k2) (Thread_timer (nd_polling_thread (wq_nodes w n))) = None"
    "if rt_scheduler_lock_nest k = 0 then \<exists>v. rt_current_thread k2 = Some v \<and> first_ready k2 v else rt_current_thread k2 = rt_current_thread k"
    by (rule resume_schedule [OF assms(1) susp])
  have "rt_wqueue_wakeup user q ev w k = Some (rt_wqueue_remove n (set_wq_flag q RT_WQ_FLAG_WAKEUP w), k2)"
    using Some assms(3) k(1,2) by (simp add: rt_wqueue_wakeup_def Let_def)
  then show ?thesis using Some k(3-) home by (simp add: ls_remove_def)
qed

text \<open>A wake-up can be lost.  A thread whose waiting time is over stays on the queue until it runs again.  A wake-up that comes before that takes its node off the queue, does
  not wake it, because it is ready already, and does not look further: the thread behind it stays suspended, and when the first one
  returns it clears the flag, so nothing is left of the wake-up.\<close>

theorem wqueue_wakeup_lost:
  assumes "sys_inv k" and "ls_wf (wq_lists w)" and "waiting_list w q = n1 # n2 # ns" and "nd_wakeup (wq_nodes w n1) = None"
    and "nd_polling_thread (wq_nodes w n1) = t1" "stat_of k t1 = RT_THREAD_READY" and "nd_polling_thread (wq_nodes w n2) = t2" "stat_of k t2 = RT_THREAD_SUSPEND"
  shows "\<exists>w' k'. rt_wqueue_wakeup user q ev w k = Some (w', k') \<and> waiting_list w' q = n2 # ns \<and> threads k' = threads k \<and> stat_of k' t2 = RT_THREAD_SUSPEND
    \<and> fst (rt_wqueue_wait_back q n1 w') = 0 \<and> waiting_list (snd (rt_wqueue_wait_back q n1 w')) q = n2 # ns \<and> wq_flag (snd (rt_wqueue_wait_back q n1 w')) q = RT_WQ_FLAG_CLEAN"
proof -
  have ty: "rt_object_get_type (Obj t1) k = RT_Object_Class_Thread" using sys_inv_thread [OF assms(1) aliveI(1) [OF assms(6)]] by (simp add: is_thread_def)
  have "rt_thread_resume t1 k = Some (-RT_ERROR, k)" using ty assms(6) by (simp add: rt_thread_resume_def rt_consts)
  moreover obtain k' where k': "rt_schedule k = Some k'" "threads k' = threads k" using sys_schedule [OF assms(1,6)] by blast
  moreover have home: "home (wq_lists w) n1 = Some q" using ls_wf_mem [OF assms(2)] assms(3) by (metis list.set_intros(1))
  ultimately have "rt_wqueue_wakeup user q ev w k = Some (rt_wqueue_remove n1 (set_wq_flag q RT_WQ_FLAG_WAKEUP w), k')"
    using assms(3-5) by (simp add: rt_wqueue_wakeup_def Let_def node_wakeup_def wqueue_default_wake_def)
  moreover have "stat_of k' t2 = RT_THREAD_SUSPEND" using k'(2) assms(8) by (simp add: stat_of_def)
  moreover have "ls_remove n1 (ls_remove n1 (wq_lists w)) = ls_remove n1 (wq_lists w)" using home by (simp add: ls_remove_def)
  ultimately show ?thesis using k'(2) home assms(3) by (simp add: rt_wqueue_wait_back_def ls_remove_def rt_consts)
qed

section \<open>Examples\<close>

text \<open>Nobody waits; and a queue on which the nodes of the given threads are linked, numbered from 0.\<close>

definition sample_wqueues :: "tid list \<Rightarrow> wqueues" where
  "sample_wqueues ts = \<lparr>wq_flag = (\<lambda>_. 0),
     wq_lists = \<lparr>on_list = (\<lambda>_. [])(5 := [0..<length ts]), home = (\<lambda>n. if n < length ts then Some 5 else None)\<rparr>,
     wq_nodes = (\<lambda>n. \<lparr>nd_polling_thread = (if n < length ts then ts ! n else 0), nd_wakeup = None, nd_key = 0\<rparr>)\<rparr>"

lemma sample_wqueues_wf: "ls_wf (wq_lists (sample_wqueues ts))"
  by (auto simp: ls_wf_def sample_wqueues_def)

lemma sample_wqueues_simps [simp]:
  "waiting_list (sample_wqueues ts) 5 = [0..<length ts]" "wq_flag (sample_wqueues ts) q = 0"
  "nd_wakeup (wq_nodes (sample_wqueues ts) n) = None" "n < length ts \<Longrightarrow> nd_polling_thread (wq_nodes (sample_wqueues ts) n) = ts ! n"
  by (simp_all add: sample_wqueues_def)

theorem wqueue_wait_correct_witness:
  "\<exists>w' k'. rt_wqueue_wait 5 9 False 20 (sample_wqueues []) sample = Some (Waiting 1, w', k') \<and> stat_of k' 1 = RT_THREAD_SUSPEND \<and> waiting_list w' 5 = [9]"
proof -
  have h: "home (wq_lists (sample_wqueues [])) 9 = None" by (simp add: sample_wqueues_def)
  have "rt_tick_from_millisecond 20 = 2" by (simp add: rt_tick_from_millisecond_def rt_consts)
  then show ?thesis
    using wqueue_wait_correct [OF sample_sys_inv sample_facts(7,2,9,3) _ h refl, of False 20 5] by (auto simp: rt_consts)
qed

theorem wqueue_wakeup_correct_witness:
  "\<exists>w' k'. rt_wqueue_wakeup (\<lambda>_ _ _. 1) 5 1 (sample_wqueues [3]) sample = Some (w', k') \<and> stat_of k' 3 = RT_THREAD_READY \<and> waiting_list w' 5 = []"
proof -
  have f: "Some 0 = find (\<lambda>n. node_wakeup (\<lambda>_ _ _. 1) (wq_nodes (sample_wqueues [3]) n) 1 = 0) (waiting_list (sample_wqueues [3]) 5)"
    by (simp add: node_wakeup_def wqueue_default_wake_def)
  have "\<forall>n\<in>set_option (Some 0). stat_of sample (nd_polling_thread (wq_nodes (sample_wqueues [3]) n)) = RT_THREAD_SUSPEND" using sample_facts(4) by simp
  from wqueue_wakeup_correct [OF sample_sys_inv sample_wqueues_wf f this] show ?thesis by auto
qed

theorem wqueue_wakeup_lost_witness:
  "\<exists>w' k'. rt_wqueue_wakeup (\<lambda>_ _ _. 1) 5 1 (sample_wqueues [2, 3]) sample = Some (w', k') \<and> waiting_list w' 5 = [1] \<and> stat_of k' 3 = RT_THREAD_SUSPEND
    \<and> wq_flag (snd (rt_wqueue_wait_back 5 0 w')) 5 = RT_WQ_FLAG_CLEAN"
proof -
  have "waiting_list (sample_wqueues [2, 3]) 5 = [0, 1]" by (simp add: upt_conv_Cons)
  from wqueue_wakeup_lost [OF sample_sys_inv sample_wqueues_wf this, of 2 3 "\<lambda>_ _ _. 1" 1] show ?thesis
    using sample_facts(3,4) by (simp del: sample_wqueues_simps(1)) blast
qed

end
