(* ===== verification/RT_Device.thy ===== *)
theory RT_Device
  imports RT_Waitqueue RT_Mempool
begin

text \<open>
  The device framework, \<^verbatim>\<open>kernel/src/device.c\<close>: devices are found by name, initialised when they are opened for the first time and counted while
  they are in use.  The functions of the drivers are parameters; they work on the whole machine.
\<close>

section \<open>The code\<close>

definition RT_DEVICE_FLAG_STANDALONE :: rt_uint16_t where [rt_consts]: "RT_DEVICE_FLAG_STANDALONE = 0x008"
definition RT_DEVICE_FLAG_ACTIVATED :: rt_uint16_t where [rt_consts]: "RT_DEVICE_FLAG_ACTIVATED = 0x010"
definition RT_DEVICE_OFLAG_CLOSE :: rt_uint16_t where [rt_consts]: "RT_DEVICE_OFLAG_CLOSE = 0x000"
definition RT_DEVICE_OFLAG_OPEN :: rt_uint16_t where [rt_consts]: "RT_DEVICE_OFLAG_OPEN = 0x008"
definition RT_DEVICE_OFLAG_MASK :: rt_uint16_t where [rt_consts]: "RT_DEVICE_OFLAG_MASK = 0xf0f"

text \<open>Callbacks, file operations and user data are handles; the wait queue of a device is given by its handle too.\<close>

record rt_device =
  dev_type :: int
  dev_flag :: rt_uint16_t
  dev_open_flag :: rt_uint16_t
  dev_ref_count :: rt_uint8_t
  dev_device_id :: rt_uint8_t
  dev_rx_indicate :: "nat option"
  dev_tx_complete :: "nat option"
  dev_fops :: "nat option"
  dev_wait_queue :: nat
  dev_user_data :: "nat option"

text \<open>The kernel, the wait queues, the devices and the hardware.\<close>

record 'h machine =
  mc_kernel :: kernel
  mc_wqueues :: wqueues
  mc_devices :: "nat \<Rightarrow> rt_device"
  mc_hw :: 'h

type_synonym 'h driver_call = "'h machine \<Rightarrow> (rt_err_t \<times> 'h machine) option"
type_synonym 'h driver_transfer = "int \<Rightarrow> rt_uint32_t \<Rightarrow> rt_uint32_t \<Rightarrow> 'h machine \<Rightarrow> (rt_uint32_t \<times> 'h machine) option"

text \<open>The function pointers of a device; \<^term>\<open>None\<close> is \<^verbatim>\<open>RT_NULL\<close>.\<close>

record 'h rt_device_ops =
  device_init :: "'h driver_call option"
  device_open :: "(rt_uint16_t \<Rightarrow> 'h driver_call) option"
  device_close :: "'h driver_call option"
  device_read :: "'h driver_transfer option"
  device_write :: "'h driver_transfer option"
  device_control :: "(int \<Rightarrow> rt_uint32_t \<Rightarrow> 'h driver_call) option"

definition upd_dev :: "nat \<Rightarrow> (rt_device \<Rightarrow> rt_device) \<Rightarrow> 'h machine \<Rightarrow> 'h machine" where
  "upd_dev d f m = m\<lparr>mc_devices := (mc_devices m)(d := f (mc_devices m d))\<rparr>"

definition rt_device_find :: "rt_uint8_t list \<Rightarrow> kernel \<Rightarrow> (handle option \<times> kernel) option" where
  "rt_device_find name k =
     do { let k = (if rt_thread_self k \<noteq> None then rt_enter_critical k else k);
          RT_ASSERT (rt_object_get_information RT_Object_Class_Device \<noteq> None);
          r \<leftarrow> find_by_name (objects k) name (on_class k RT_Object_Class_Device);
          k \<leftarrow> (if rt_thread_self k \<noteq> None then rt_exit_critical k else Some k);
          Some (r, k) }"

definition rt_device_register :: "nat option \<Rightarrow> rt_uint8_t list \<Rightarrow> rt_uint16_t \<Rightarrow> 'h machine \<Rightarrow> (rt_err_t \<times> 'h machine) option" where
  "rt_device_register dev name flags m =
     (case dev of None \<Rightarrow> Some (-RT_ERROR, m)
      | Some d \<Rightarrow> do {
          (found, k) \<leftarrow> rt_device_find name (mc_kernel m);
          let m = m\<lparr>mc_kernel := k\<rparr>;
          if found \<noteq> None then Some (-RT_ERROR, m)
          else do {
            k \<leftarrow> rt_object_init (Obj d) RT_Object_Class_Device name (mc_kernel m);
            let m = upd_dev d (\<lambda>dv. dv\<lparr>dev_flag := flags, dev_ref_count := 0, dev_open_flag := 0, dev_fops := None\<rparr>) (m\<lparr>mc_kernel := k\<rparr>);
            w \<leftarrow> rt_wqueue_init (dev_wait_queue (mc_devices m d)) (mc_wqueues m);
            Some (RT_EOK, m\<lparr>mc_wqueues := w\<rparr>) } })"

definition rt_device_unregister :: "nat \<Rightarrow> 'h machine \<Rightarrow> (rt_err_t \<times> 'h machine) option" where
  "rt_device_unregister d m =
     do { RT_ASSERT (rt_object_get_type (Obj d) (mc_kernel m) = RT_Object_Class_Device);
          RT_ASSERT (rt_object_is_systemobject (Obj d) (mc_kernel m));
          Some (RT_EOK, m\<lparr>mc_kernel := rt_object_detach (Obj d) (mc_kernel m)\<rparr>) }"

definition rt_device_init_all :: rt_err_t where
  "rt_device_init_all = RT_EOK"

text \<open>\<open>block\<close> is what \<^verbatim>\<open>rt_malloc\<close> returns; the structure is cleared, with the object in it.\<close>

definition zero_device :: rt_device where
  "zero_device = \<lparr>dev_type = 0, dev_flag = 0, dev_open_flag = 0, dev_ref_count = 0, dev_device_id = 0, dev_rx_indicate = None, dev_tx_complete = None,
     dev_fops = None, dev_wait_queue = 0, dev_user_data = None\<rparr>"

definition rt_device_create :: "int \<Rightarrow> nat option \<Rightarrow> 'h machine \<Rightarrow> nat option \<times> 'h machine" where
  "rt_device_create type block m =
     (case block of None \<Rightarrow> (None, m)
      | Some d \<Rightarrow> (Some d, upd_dev d (\<lambda>dv. zero_device\<lparr>dev_type := type, dev_wait_queue := dev_wait_queue dv\<rparr>)
                            (m\<lparr>mc_kernel := upd_object (Obj d) (\<lambda>_. zero_object) (mc_kernel m)\<rparr>)))"

definition rt_device_destroy :: "nat \<Rightarrow> 'h machine \<Rightarrow> 'h machine option" where
  "rt_device_destroy d m =
     do { RT_ASSERT (rt_object_get_type (Obj d) (mc_kernel m) = RT_Object_Class_Device);
          RT_ASSERT (\<not> rt_object_is_systemobject (Obj d) (mc_kernel m));
          let k = rt_object_detach (Obj d) (mc_kernel m);
          Some (m\<lparr>mc_kernel := k\<lparr>freed := Obj d # freed k\<rparr>\<rparr>) }"

definition is_device :: "nat \<Rightarrow> 'h machine \<Rightarrow> bool" where
  "is_device d m \<longleftrightarrow> rt_object_get_type (Obj d) (mc_kernel m) = RT_Object_Class_Device"

definition rt_device_init :: "'h rt_device_ops \<Rightarrow> nat \<Rightarrow> 'h driver_call" where
  "rt_device_init drv d m =
     (case device_init drv of None \<Rightarrow> Some (RT_EOK, m)
      | Some init \<Rightarrow>
          if dev_flag (mc_devices m d) AND RT_DEVICE_FLAG_ACTIVATED = 0 then
            do { (result, m) \<leftarrow> init m;
                 if result \<noteq> RT_EOK then Some (result, m)
                 else Some (result, upd_dev d (\<lambda>dv. dv\<lparr>dev_flag := dev_flag dv OR RT_DEVICE_FLAG_ACTIVATED\<rparr>) m) }
          else Some (RT_EOK, m))"

text \<open>\<^verbatim>\<open>rt_device_open\<close>: the part that initialises the device, and the part that opens it.\<close>

definition device_activate :: "'h rt_device_ops \<Rightarrow> nat \<Rightarrow> 'h driver_call" where
  "device_activate drv d m =
     (if dev_flag (mc_devices m d) AND RT_DEVICE_FLAG_ACTIVATED = 0 then
        do { (result, m) \<leftarrow> (case device_init drv of None \<Rightarrow> Some (RT_EOK, m) | Some init \<Rightarrow> init m);
             if result \<noteq> RT_EOK then Some (result, m)
             else Some (result, upd_dev d (\<lambda>dv. dv\<lparr>dev_flag := dev_flag dv OR RT_DEVICE_FLAG_ACTIVATED\<rparr>) m) }
      else Some (RT_EOK, m))"

definition rt_device_open :: "'h rt_device_ops \<Rightarrow> nat \<Rightarrow> rt_uint16_t \<Rightarrow> 'h driver_call" where
  "rt_device_open drv d oflag m =
     do { RT_ASSERT (is_device d m);
          (result, m) \<leftarrow> device_activate drv d m;
          if result \<noteq> RT_EOK then Some (result, m)
          else if dev_flag (mc_devices m d) AND RT_DEVICE_FLAG_STANDALONE \<noteq> 0 \<and> dev_open_flag (mc_devices m d) AND RT_DEVICE_OFLAG_OPEN \<noteq> 0
          then Some (-RT_EBUSY, m)
          else do {
            (result, m) \<leftarrow> (case device_open drv of
                None \<Rightarrow> Some (result, upd_dev d (\<lambda>dv. dv\<lparr>dev_open_flag := oflag AND RT_DEVICE_OFLAG_MASK\<rparr>) m)
              | Some opn \<Rightarrow> opn oflag m);
            if result = RT_EOK \<or> result = -RT_ENOSYS then
              do { let m = upd_dev d (\<lambda>dv. dv\<lparr>dev_open_flag := dev_open_flag dv OR RT_DEVICE_OFLAG_OPEN, dev_ref_count := dev_ref_count dv + 1\<rparr>) m;
                   RT_ASSERT (dev_ref_count (mc_devices m d) \<noteq> 0);
                   Some (result, m) }
            else Some (result, m) } }"

definition rt_device_close :: "'h rt_device_ops \<Rightarrow> nat option \<Rightarrow> 'h driver_call" where
  "rt_device_close drv dev m =
     (case dev of None \<Rightarrow> Some (-RT_ERROR, m)
      | Some d \<Rightarrow> do {
          RT_ASSERT (is_device d m);
          if dev_ref_count (mc_devices m d) = 0 then Some (-RT_ERROR, m)
          else do {
            let m = upd_dev d (\<lambda>dv. dv\<lparr>dev_ref_count := dev_ref_count dv - 1\<rparr>) m;
            if dev_ref_count (mc_devices m d) \<noteq> 0 then Some (RT_EOK, m)
            else do {
              (result, m) \<leftarrow> (case device_close drv of None \<Rightarrow> Some (RT_EOK, m) | Some cls \<Rightarrow> cls m);
              if result = RT_EOK \<or> result = -RT_ENOSYS
              then Some (result, upd_dev d (\<lambda>dv. dv\<lparr>dev_open_flag := RT_DEVICE_OFLAG_CLOSE\<rparr>) m)
              else Some (result, m) } } })"

text \<open>Reading and writing differ in the driver function that is called.\<close>

definition device_transfer :: "'h driver_transfer option \<Rightarrow> nat \<Rightarrow> 'h driver_transfer" where
  "device_transfer f d pos buffer sz m =
     do { RT_ASSERT (is_device d m);
          if dev_ref_count (mc_devices m d) = 0 then Some (0, m\<lparr>mc_kernel := rt_set_errno RT_ERROR (mc_kernel m)\<rparr>)
          else case f of
            Some transfer \<Rightarrow> transfer pos buffer sz m
          | None \<Rightarrow> Some (0, m\<lparr>mc_kernel := rt_set_errno RT_ENOSYS (mc_kernel m)\<rparr>) }"

definition rt_device_read :: "'h rt_device_ops \<Rightarrow> nat \<Rightarrow> 'h driver_transfer" where
  "rt_device_read drv = device_transfer (device_read drv)"

definition rt_device_write :: "'h rt_device_ops \<Rightarrow> nat \<Rightarrow> 'h driver_transfer" where
  "rt_device_write drv = device_transfer (device_write drv)"

definition rt_device_control :: "'h rt_device_ops \<Rightarrow> nat \<Rightarrow> int \<Rightarrow> rt_uint32_t \<Rightarrow> 'h driver_call" where
  "rt_device_control drv d cmd arg m =
     do { RT_ASSERT (is_device d m);
          case device_control drv of Some control \<Rightarrow> control cmd arg m | None \<Rightarrow> Some (-RT_ENOSYS, m) }"

definition rt_device_set_rx_indicate :: "nat \<Rightarrow> nat option \<Rightarrow> 'h driver_call" where
  "rt_device_set_rx_indicate d rx_ind m =
     do { RT_ASSERT (is_device d m); Some (RT_EOK, upd_dev d (\<lambda>dv. dv\<lparr>dev_rx_indicate := rx_ind\<rparr>) m) }"

definition rt_device_set_tx_complete :: "nat \<Rightarrow> nat option \<Rightarrow> 'h driver_call" where
  "rt_device_set_tx_complete d tx_done m =
     do { RT_ASSERT (is_device d m); Some (RT_EOK, upd_dev d (\<lambda>dv. dv\<lparr>dev_tx_complete := tx_done\<rparr>) m) }"

section \<open>The count of users\<close>

lemma upd_dev_simps [simp]:
  "mc_devices (upd_dev d f m) e = (if e = d then f (mc_devices m d) else mc_devices m e)" "mc_kernel (upd_dev d f m) = mc_kernel m"
  "mc_wqueues (upd_dev d f m) = mc_wqueues m" "mc_hw (upd_dev d f m) = mc_hw m" "is_device c (upd_dev d f m) = is_device c m"
  by (simp_all add: upd_dev_def is_device_def)

text \<open>What the framework relies on in a driver: its functions come back, leave the class of the object, the flags of the framework, the count and the mark of an open
  device alone, and succeed where the framework may call them: \<^verbatim>\<open>init\<close> on a device that is not activated, \<^verbatim>\<open>open\<close> on an activated one, \<^verbatim>\<open>close\<close> on an activated one without users.
  Nothing is asked of any other call.\<close>

definition keeps_device :: "nat \<Rightarrow> 'h machine \<Rightarrow> 'h machine \<Rightarrow> bool" where
  "keeps_device d m m' \<longleftrightarrow> is_device d m' = is_device d m \<and> dev_flag (mc_devices m' d) = dev_flag (mc_devices m d)
     \<and> dev_ref_count (mc_devices m' d) = dev_ref_count (mc_devices m d)
     \<and> dev_open_flag (mc_devices m' d) AND RT_DEVICE_OFLAG_OPEN = dev_open_flag (mc_devices m d) AND RT_DEVICE_OFLAG_OPEN"

abbreviation activated :: "nat \<Rightarrow> 'h machine \<Rightarrow> bool" where
  "activated d m \<equiv> dev_flag (mc_devices m d) AND RT_DEVICE_FLAG_ACTIVATED \<noteq> 0"

definition driver_ok :: "'h rt_device_ops \<Rightarrow> nat \<Rightarrow> bool" where
  "driver_ok drv d \<longleftrightarrow>
     (\<forall>f\<in>set_option (device_init drv). \<forall>m. \<not> activated d m \<longrightarrow> (\<exists>m'. f m = Some (RT_EOK, m') \<and> keeps_device d m m'))
   \<and> (\<forall>f\<in>set_option (device_open drv). \<forall>oflag m. activated d m \<longrightarrow> (\<exists>e m'. f oflag m = Some (e, m') \<and> (e = RT_EOK \<or> e = -RT_ENOSYS) \<and> keeps_device d m m'))
   \<and> (\<forall>f\<in>set_option (device_close drv). \<forall>m. activated d m \<and> dev_ref_count (mc_devices m d) = 0 \<longrightarrow>
        (\<exists>e m'. f m = Some (e, m') \<and> (e = RT_EOK \<or> e = -RT_ENOSYS) \<and> keeps_device d m m'))"

text \<open>A record \<open>log\<close> of the calls of the driver, kept anywhere outside of the devices.\<close>

datatype driver_event = Ev_init | Ev_open | Ev_close

definition has_event :: "'h rt_device_ops \<Rightarrow> driver_event \<Rightarrow> bool" where
  "has_event drv ev = (case ev of Ev_init \<Rightarrow> device_init drv \<noteq> None | Ev_open \<Rightarrow> device_open drv \<noteq> None | Ev_close \<Rightarrow> device_close drv \<noteq> None)"

definition logs :: "'h rt_device_ops \<Rightarrow> ('h machine \<Rightarrow> driver_event list) \<Rightarrow> bool" where
  "logs drv log \<longleftrightarrow>
     (\<forall>f\<in>set_option (device_init drv). \<forall>m e m'. f m = Some (e, m') \<longrightarrow> log m' = log m @ [Ev_init])
   \<and> (\<forall>f\<in>set_option (device_open drv). \<forall>oflag m e m'. f oflag m = Some (e, m') \<longrightarrow> log m' = log m @ [Ev_open])
   \<and> (\<forall>f\<in>set_option (device_close drv). \<forall>m e m'. f m = Some (e, m') \<longrightarrow> log m' = log m @ [Ev_close])
   \<and> (\<forall>d f m. log (upd_dev d f m) = log m)"

text \<open>A device in use by \<open>n\<close> callers.\<close>

definition in_use :: "bool \<Rightarrow> nat \<Rightarrow> 'h machine \<Rightarrow> nat \<Rightarrow> bool" where
  "in_use alone d m n \<longleftrightarrow> is_device d m \<and> unat (dev_ref_count (mc_devices m d)) = n
     \<and> (dev_open_flag (mc_devices m d) AND RT_DEVICE_OFLAG_OPEN \<noteq> 0 \<longleftrightarrow> n > 0)
     \<and> (dev_flag (mc_devices m d) AND RT_DEVICE_FLAG_STANDALONE \<noteq> 0 \<longleftrightarrow> alone)
     \<and> (n > 0 \<longrightarrow> dev_flag (mc_devices m d) AND RT_DEVICE_FLAG_ACTIVATED \<noteq> 0)"

text \<open>The specification: a counter up to 255, up to 1 for a device that cannot be shared, and a flag that tells whether the device has been initialised.  The results tell whether
  a call was accepted and which functions of the driver were called for it: \<^verbatim>\<open>init\<close> once, before the first use, \<^verbatim>\<open>open\<close> for every user and \<^verbatim>\<open>close\<close> when the last one leaves.\<close>

datatype dev_call = Open rt_uint16_t | Close

fun counter :: "bool \<Rightarrow> dev_call list \<Rightarrow> bool \<Rightarrow> nat \<Rightarrow> (bool list \<times> driver_event list \<times> bool \<times> nat) option" where
  "counter alone [] act n = Some ([], [], act, n)"
| "counter alone (Open oflag # cs) act n =
     (if alone \<and> n > 0 then do { (rs, es, s) \<leftarrow> counter alone cs act n; Some (False # rs, es, s) }
      else if n = 255 then None
      else do { (rs, es, s) \<leftarrow> counter alone cs True (n + 1); Some (True # rs, (if act then [Ev_open] else [Ev_init, Ev_open]) @ es, s) })"
| "counter alone (Close # cs) act n =
     (if n = 0 then do { (rs, es, s) \<leftarrow> counter alone cs act n; Some (False # rs, es, s) }
      else do { (rs, es, s) \<leftarrow> counter alone cs act (n - 1); Some (True # rs, (if n = 1 then [Ev_close] else []) @ es, s) })"

fun device_calls :: "'h rt_device_ops \<Rightarrow> nat \<Rightarrow> dev_call list \<Rightarrow> 'h machine \<Rightarrow> (bool list \<times> 'h machine) option" where
  "device_calls drv d [] m = Some ([], m)"
| "device_calls drv d (c # cs) m =
     do { (e, m) \<leftarrow> (case c of Open oflag \<Rightarrow> rt_device_open drv d oflag m | Close \<Rightarrow> rt_device_close drv (Some d) m);
          (rs, m) \<leftarrow> device_calls drv d cs m;
          Some ((e = RT_EOK \<or> e = -RT_ENOSYS) # rs, m) }"

lemma driver_okD:
  assumes "driver_ok drv d"
  shows "device_init drv = Some f \<Longrightarrow> \<not> activated d m \<Longrightarrow> \<exists>m'. f m = Some (RT_EOK, m') \<and> keeps_device d m m'"
    "device_open drv = Some g \<Longrightarrow> activated d m \<Longrightarrow> \<exists>e m'. g oflag m = Some (e, m') \<and> (e = RT_EOK \<or> e = -RT_ENOSYS) \<and> keeps_device d m m'"
    "device_close drv = Some h \<Longrightarrow> activated d m \<Longrightarrow> dev_ref_count (mc_devices m d) = 0 \<Longrightarrow> \<exists>e m'. h m = Some (e, m') \<and> (e = RT_EOK \<or> e = -RT_ENOSYS) \<and> keeps_device d m m'"
  using assms unfolding driver_ok_def by simp_all

lemma logsD:
  assumes "logs drv log"
  shows "device_init drv = Some f \<Longrightarrow> f m = Some (e, m') \<Longrightarrow> log m' = log m @ [Ev_init]"
    "device_open drv = Some g \<Longrightarrow> g oflag m = Some (e, m') \<Longrightarrow> log m' = log m @ [Ev_open]"
    "device_close drv = Some h \<Longrightarrow> h m = Some (e, m') \<Longrightarrow> log m' = log m @ [Ev_close]"
    "log (upd_dev d u m) = log m"
  using assms unfolding logs_def by simp_all

lemma flag_bits:
  "(x OR RT_DEVICE_FLAG_ACTIVATED) AND RT_DEVICE_FLAG_STANDALONE = x AND RT_DEVICE_FLAG_STANDALONE" "(x OR RT_DEVICE_FLAG_ACTIVATED) AND RT_DEVICE_FLAG_ACTIVATED \<noteq> 0"
  "(x OR RT_DEVICE_OFLAG_OPEN) AND RT_DEVICE_OFLAG_OPEN \<noteq> 0" "RT_DEVICE_OFLAG_CLOSE AND RT_DEVICE_OFLAG_OPEN = 0"
  by (simp_all add: rt_consts bit.conj_disj_distrib2)

lemma keeps_in_use: "keeps_device d m m' \<Longrightarrow> in_use alone d m n \<Longrightarrow> in_use alone d m' n"
  by (simp add: keeps_device_def in_use_def)

lemma activate_ok:
  assumes "driver_ok drv d" "in_use alone d m n" "logs drv log"
  obtains m' where "device_activate drv d m = Some (RT_EOK, m')" "in_use alone d m' n" "activated d m'"
    "log m' = log m @ filter (has_event drv) (if activated d m then [] else [Ev_init])"
proof (cases "activated d m")
  case False
  obtain m1 where m1: "(case device_init drv of None \<Rightarrow> Some (RT_EOK, m) | Some init \<Rightarrow> init m) = Some (RT_EOK, m1)" "in_use alone d m1 n"
    "log m1 = log m @ filter (has_event drv) [Ev_init]"
  proof (cases "device_init drv")
    case None
    then show ?thesis using that [of m] assms(2) by (simp add: has_event_def)
  next
    case (Some f)
    then obtain m' where "f m = Some (RT_EOK, m')" "keeps_device d m m'" using driver_okD(1) [OF assms(1)] False by blast
    then show ?thesis using that [of m'] Some keeps_in_use [OF _ assms(2)] logsD(1) [OF assms(3)] by (simp add: has_event_def)
  qed
  let ?m = "upd_dev d (\<lambda>dv. dv\<lparr>dev_flag := dev_flag dv OR RT_DEVICE_FLAG_ACTIVATED\<rparr>) m1"
  have "device_activate drv d m = Some (RT_EOK, ?m)" using False m1(1) by (simp add: device_activate_def)
  moreover have "in_use alone d ?m n" using m1(2) flag_bits(1,2) by (simp add: in_use_def)
  ultimately show ?thesis using that [of ?m] flag_bits(2) m1(3) logsD(4) [OF assms(3)] False by simp
next
  case True
  then show ?thesis using that [of m] assms(2) by (simp add: device_activate_def)
qed

lemma device_open_counts:
  assumes ok: "driver_ok drv d" and u: "in_use alone d m n" and lg: "logs drv log"
  shows "if alone \<and> n > 0 then \<exists>m'. rt_device_open drv d oflag m = Some (-RT_EBUSY, m') \<and> in_use alone d m' n \<and> activated d m' = activated d m \<and> log m' = log m
    else if n = 255 then rt_device_open drv d oflag m = None
    else \<exists>e m'. rt_device_open drv d oflag m = Some (e, m') \<and> (e = RT_EOK \<or> e = -RT_ENOSYS) \<and> in_use alone d m' (n + 1) \<and> activated d m'
      \<and> log m' = log m @ filter (has_event drv) (if activated d m then [Ev_open] else [Ev_init, Ev_open])"
proof -
  obtain m1 where m1: "device_activate drv d m = Some (RT_EOK, m1)" "in_use alone d m1 n" "activated d m1"
    "log m1 = log m @ filter (has_event drv) (if activated d m then [] else [Ev_init])"
    by (rule activate_ok [OF ok u lg])
  have dv: "is_device d m" using u by (simp add: in_use_def)
  show ?thesis
  proof (cases "alone \<and> n > 0")
    case True
    then have "rt_device_open drv d oflag m = Some (-RT_EBUSY, m1)" "activated d m" using m1 dv u by (simp_all add: rt_device_open_def in_use_def)
    then show ?thesis using True m1(2-4) by auto
  next
    case False
    then have free: "\<not> (dev_flag (mc_devices m1 d) AND RT_DEVICE_FLAG_STANDALONE \<noteq> 0 \<and> dev_open_flag (mc_devices m1 d) AND RT_DEVICE_OFLAG_OPEN \<noteq> 0)"
      using m1(2) by (auto simp: in_use_def)
    obtain e m2 where m2: "(case device_open drv of
          None \<Rightarrow> Some (RT_EOK, upd_dev d (\<lambda>dv. dv\<lparr>dev_open_flag := oflag AND RT_DEVICE_OFLAG_MASK\<rparr>) m1) | Some opn \<Rightarrow> opn oflag m1) = Some (e, m2)"
      "e = RT_EOK \<or> e = -RT_ENOSYS" "is_device d m2" "dev_flag (mc_devices m2 d) = dev_flag (mc_devices m1 d)" "dev_ref_count (mc_devices m2 d) = dev_ref_count (mc_devices m1 d)"
      "log m2 = log m1 @ filter (has_event drv) [Ev_open]"
    proof (cases "device_open drv")
      case None
      then show ?thesis using that m1(2) logsD(4) [OF lg] by (simp add: in_use_def has_event_def)
    next
      case (Some f)
      then obtain e m' where "f oflag m1 = Some (e, m')" "e = RT_EOK \<or> e = -RT_ENOSYS" "keeps_device d m1 m'" using driver_okD(2) [OF ok] m1(3) by blast
      then show ?thesis using that [of e m'] Some m1(2) logsD(2) [OF lg Some, of oflag m1 e m'] by (simp add: keeps_device_def in_use_def has_event_def)
    qed
    let ?m = "upd_dev d (\<lambda>dv. dv\<lparr>dev_open_flag := dev_open_flag dv OR RT_DEVICE_OFLAG_OPEN, dev_ref_count := dev_ref_count dv + 1\<rparr>) m2"
    have c: "unat (dev_ref_count (mc_devices m2 d)) = n" using m1(2) m2(5) by (simp add: in_use_def)
    have n: "n < 256" using c unsigned_less [where 'a = nat and w = "dev_ref_count (mc_devices m2 d)"] by simp
    have u: "unat (dev_ref_count (mc_devices m2 d) + 1) = (n + 1) mod 256" using c by (simp add: unat_word_ariths)
    have z: "dev_ref_count (mc_devices m2 d) + 1 = 0 \<longleftrightarrow> n = 255" "n \<noteq> 255 \<Longrightarrow> unat (dev_ref_count (mc_devices m2 d) + 1) = n + 1"
      unfolding unat_eq_0 [symmetric] u using n by (cases "n = 255"; simp)+
    have e: "rt_device_open drv d oflag m = (if n = 255 then None else Some (e, ?m))"
      using m1(1) m2(1,2) dv free z(1) by (auto simp: rt_device_open_def Let_def)
    moreover have "n \<noteq> 255 \<Longrightarrow> in_use alone d ?m (n + 1)" using m1(2,3) m2(3,4) z(2) flag_bits(3) by (simp add: in_use_def)
    moreover have "activated d ?m" using m1(3) m2(4) by simp
    moreover have "log ?m = log m @ filter (has_event drv) (if activated d m then [Ev_open] else [Ev_init, Ev_open])" using m1(4) m2(6) logsD(4) [OF lg] by auto
    ultimately show ?thesis using False m2(2) by (auto intro!: exI [of _ e] exI [of _ ?m])
  qed
qed

lemma device_close_counts:
  assumes ok: "driver_ok drv d" and u: "in_use alone d m n" and lg: "logs drv log"
  shows "if n = 0 then rt_device_close drv (Some d) m = Some (-RT_ERROR, m)
    else \<exists>e m'. rt_device_close drv (Some d) m = Some (e, m') \<and> (e = RT_EOK \<or> e = -RT_ENOSYS) \<and> in_use alone d m' (n - 1) \<and> activated d m' = activated d m
      \<and> log m' = log m @ filter (has_event drv) (if n = 1 then [Ev_close] else [])"
proof (cases "n = 0")
  case True
  then show ?thesis using u by (simp add: in_use_def rt_device_close_def unat_eq_0)
next
  case False
  let ?m = "upd_dev d (\<lambda>dv. dv\<lparr>dev_ref_count := dev_ref_count dv - 1\<rparr>) m"
  have nz: "dev_ref_count (mc_devices m d) \<noteq> 0" using u False by (auto simp: in_use_def)
  then have c: "unat (dev_ref_count (mc_devices m d) - 1) = n - 1" using u by (simp add: in_use_def unat_minus_one)
  have dv: "is_device d m" and act: "activated d m" using u False by (simp_all add: in_use_def)
  show ?thesis
  proof (cases "n = 1")
    case True
    then have z: "dev_ref_count (mc_devices m d) - 1 = 0" using c by (simp add: unat_eq_0)
    obtain e m1 where m1: "(case device_close drv of None \<Rightarrow> Some (RT_EOK, ?m) | Some cls \<Rightarrow> cls ?m) = Some (e, m1)" "e = RT_EOK \<or> e = -RT_ENOSYS"
      "is_device d m1" "dev_flag (mc_devices m1 d) = dev_flag (mc_devices m d)" "dev_ref_count (mc_devices m1 d) = 0" "log m1 = log m @ filter (has_event drv) [Ev_close]"
    proof (cases "device_close drv")
      case None
      then show ?thesis using that [of RT_EOK ?m] dv z logsD(4) [OF lg] by (simp add: has_event_def)
    next
      case (Some f)
      have "activated d ?m" "dev_ref_count (mc_devices ?m d) = 0" using act z by simp_all
      then obtain e m' where "f ?m = Some (e, m')" "e = RT_EOK \<or> e = -RT_ENOSYS" "keeps_device d ?m m'" using driver_okD(3) [OF ok Some] by blast
      then show ?thesis using that [of e m'] Some dv z logsD(3) [OF lg Some, of ?m e m'] logsD(4) [OF lg] by (simp add: keeps_device_def has_event_def)
    qed
    have "rt_device_close drv (Some d) m = Some (e, upd_dev d (\<lambda>dv. dv\<lparr>dev_open_flag := RT_DEVICE_OFLAG_CLOSE\<rparr>) m1)"
      using nz dv z m1(1,2) by (auto simp: rt_device_close_def Let_def)
    then show ?thesis using True m1 u flag_bits(4) logsD(4) [OF lg] by (auto simp: in_use_def)
  next
    case n1: False
    then have "dev_ref_count (mc_devices m d) - 1 \<noteq> 0" using c False by (auto simp: unat_eq_0)
    then have "rt_device_close drv (Some d) m = Some (RT_EOK, ?m)" using nz dv by (simp add: rt_device_close_def Let_def)
    then show ?thesis using u c n1 False logsD(4) [OF lg] by (auto simp: in_use_def)
  qed
qed

lemma error_codes: "- RT_EBUSY \<noteq> RT_EOK" "- RT_EBUSY \<noteq> - RT_ENOSYS" "- RT_ERROR \<noteq> RT_EOK" "- RT_ERROR \<noteq> - RT_ENOSYS"
  by (simp_all add: rt_consts)

text \<open>C37: a device counts its users.  With a driver whose functions succeed where the framework may call them, any sequence of calls of \<^verbatim>\<open>rt_device_open\<close> and \<^verbatim>\<open>rt_device_close\<close> is accepted
  and refused as by a counter: a device that is not shared is refused to a second user, a device that nobody uses cannot be closed, and the 256th user stops in the assertion.  The
  device is marked open exactly while the counter is not zero.  Whatever records the calls of the driver shows the calls of the specification: \<^verbatim>\<open>init\<close> once, for the first accepted open
  of a device that was not activated, \<^verbatim>\<open>open\<close> once for every accepted user, and \<^verbatim>\<open>close\<close> only when the last user leaves.\<close>

theorem device_refines_counter:
  assumes "driver_ok drv d" and "in_use alone d m n" and "logs drv log"
  shows "case counter alone cs (activated d m) n of None \<Rightarrow> device_calls drv d cs m = None
    | Some (rs, es, act, n') \<Rightarrow> \<exists>m'. device_calls drv d cs m = Some (rs, m') \<and> in_use alone d m' n' \<and> activated d m' = act
        \<and> log m' = log m @ filter (has_event drv) es"
  using assms(2)
proof (induction cs arbitrary: m n)
  case Nil
  then show ?case by simp
next
  case (Cons c cs)
  let ?call = "case c of Open oflag \<Rightarrow> rt_device_open drv d oflag m | Close \<Rightarrow> rt_device_close drv (Some d) m"
  have step: "case do { (rs, es', s) \<leftarrow> counter alone cs act n1; Some (b # rs, es @ es', s) } of None \<Rightarrow> device_calls drv d (c # cs) m = None
      | Some (rs, es, act, n') \<Rightarrow> \<exists>m'. device_calls drv d (c # cs) m = Some (rs, m') \<and> in_use alone d m' n' \<and> activated d m' = act
          \<and> log m' = log m @ filter (has_event drv) es"
    if "?call = Some (e, m1)" "b = (e = RT_EOK \<or> e = -RT_ENOSYS)" "in_use alone d m1 n1" "activated d m1 = act" "log m1 = log m @ filter (has_event drv) es"
    for e m1 b n1 act es
    using Cons.IH [OF that(3)] that(1,2,4,5) by (cases "counter alone cs act n1") auto
  show ?case
  proof (cases c)
    case (Open oflag)
    note o = device_open_counts [OF assms(1) Cons.prems assms(3), of oflag]
    consider "alone \<and> n > 0" | "\<not> (alone \<and> n > 0)" "n = 255" | "\<not> (alone \<and> n > 0)" "n \<noteq> 255" by blast
    then show ?thesis
    proof cases
      case 1
      then obtain m1 where "?call = Some (-RT_EBUSY, m1)" "in_use alone d m1 n" "activated d m1 = activated d m" "log m1 = log m" using o Open by auto
      then show ?thesis using step [of "-RT_EBUSY" m1 False n "activated d m" "[]"] 1 Open error_codes by simp
    next
      case 2
      then have "?call = None" using o Open by auto
      then show ?thesis using 2 Open by auto
    next
      case 3
      then obtain e m1 where "?call = Some (e, m1)" "e = RT_EOK \<or> e = -RT_ENOSYS" "in_use alone d m1 (n + 1)" "activated d m1"
        "log m1 = log m @ filter (has_event drv) (if activated d m then [Ev_open] else [Ev_init, Ev_open])" using o Open by auto
      then show ?thesis using step [of e m1 True "n + 1" True "if activated d m then [Ev_open] else [Ev_init, Ev_open]"] 3 Open by auto
    qed
  next
    case Close
    note o = device_close_counts [OF assms(1) Cons.prems assms(3)]
    show ?thesis
    proof (cases "n = 0")
      case True
      then have "?call = Some (-RT_ERROR, m)" using o Close by simp
      then show ?thesis using step [of "-RT_ERROR" m False n "activated d m" "[]"] True Close error_codes Cons.prems by simp
    next
      case False
      then obtain e m1 where "?call = Some (e, m1)" "e = RT_EOK \<or> e = -RT_ENOSYS" "in_use alone d m1 (n - 1)" "activated d m1 = activated d m"
        "log m1 = log m @ filter (has_event drv) (if n = 1 then [Ev_close] else [])" using o Close by auto
      then show ?thesis using step [of e m1 True "n - 1" "activated d m" "if n = 1 then [Ev_close] else []"] False Close by simp
    qed
  qed
qed

text \<open>A failure to close is not undone.  If the driver refuses to close the device of its last user, the count is zero but the device is still marked open: it cannot be closed
  again, and a device that is not shared cannot be opened any more.\<close>

theorem device_close_failure:
  assumes "is_device d m" and "dev_ref_count (mc_devices m d) = 1" and "dev_open_flag (mc_devices m d) AND RT_DEVICE_OFLAG_OPEN \<noteq> 0"
    and "dev_flag (mc_devices m d) AND RT_DEVICE_FLAG_ACTIVATED \<noteq> 0" "dev_flag (mc_devices m d) AND RT_DEVICE_FLAG_STANDALONE \<noteq> 0"
    and "device_close drv = Some cls" and "cls (upd_dev d (\<lambda>dv. dv\<lparr>dev_ref_count := 0\<rparr>) m) = Some (e, m')" and "e \<noteq> RT_EOK" "e \<noteq> -RT_ENOSYS"
    and "keeps_device d (upd_dev d (\<lambda>dv. dv\<lparr>dev_ref_count := 0\<rparr>) m) m'"
  shows "rt_device_close drv (Some d) m = Some (e, m') \<and> rt_device_close drv (Some d) m' = Some (-RT_ERROR, m') \<and> rt_device_open drv d oflag m' = Some (-RT_EBUSY, m')"
proof -
  have u: "upd_dev d (\<lambda>dv. dv\<lparr>dev_ref_count := dev_ref_count dv - 1\<rparr>) m = upd_dev d (\<lambda>dv. dv\<lparr>dev_ref_count := 0\<rparr>) m" using assms(2) by (simp add: upd_dev_def)
  have k: "is_device d m'" "dev_ref_count (mc_devices m' d) = 0" "dev_flag (mc_devices m' d) = dev_flag (mc_devices m d)"
    "dev_open_flag (mc_devices m' d) AND RT_DEVICE_OFLAG_OPEN \<noteq> 0" using assms(1,3,10) by (simp_all add: keeps_device_def)
  have "rt_device_close drv (Some d) m = Some (e, m')" using assms(1,2,6-9) by (simp add: rt_device_close_def Let_def u)
  moreover have "rt_device_close drv (Some d) m' = Some (-RT_ERROR, m')" using k by (simp add: rt_device_close_def)
  moreover have "rt_device_open drv d oflag m' = Some (-RT_EBUSY, m')" using k assms(4,5) by (simp add: rt_device_open_def device_activate_def)
  ultimately show ?thesis by blast
qed

section \<open>Registration\<close>

lemma destroy_needs: "rt_device_destroy d m = Some m' \<Longrightarrow> obj_type (objects (mc_kernel m) (Obj d)) = RT_Object_Class_Device"
proof -
  assume "rt_device_destroy d m = Some m'"
  then have t: "obj_type (objects (mc_kernel m) (Obj d)) AND NOT RT_Object_Class_Static = RT_Object_Class_Device" "obj_type (objects (mc_kernel m) (Obj d)) AND RT_Object_Class_Static = 0"
    by (auto simp: rt_device_destroy_def bind_Some_iff rt_object_get_type_def rt_object_is_systemobject_def)
  have "x = (x AND NOT y) OR (x AND y)" for x y :: rt_uint8_t by (rule bit_eqI) (auto simp: bit_simps)
  from this [of "obj_type (objects (mc_kernel m) (Obj d))" RT_Object_Class_Static] show ?thesis using t by simp
qed

text \<open>\<^verbatim>\<open>rt_device_destroy\<close> cannot be used.  It asserts that the device is registered and not a static object, but registering makes every device a static object, and
  unregistering takes the class away: on a device just created, registered or unregistered again it stops in an assertion.\<close>

theorem device_destroy_stops:
  assumes "rt_device_create type (Some d) m = (r, m1)" and "rt_device_register (Some d) name flags m1 = Some (RT_EOK, m2)" and "rt_device_unregister d m2 = Some (e, m3)"
  shows "r = Some d \<and> rt_device_destroy d m1 = None \<and> rt_device_destroy d m2 = None \<and> rt_device_destroy d m3 = None"
proof -
  have r: "r = Some d" "obj_type (objects (mc_kernel m1) (Obj d)) = 0" using assms(1) by (auto simp: rt_device_create_def zero_object_def upd_object_def)
  obtain k k' where k: "rt_object_init (Obj d) RT_Object_Class_Device name k = Some k'" "mc_kernel m2 = k'"
    using assms(2) by (auto simp: rt_device_register_def bind_Some_iff Let_def rt_consts split: if_splits)
  have "obj_type (objects k' (Obj d)) = RT_Object_Class_Device OR RT_Object_Class_Static" using k(1) by (rule rt_object_init_result)
  then have r2: "obj_type (objects (mc_kernel m2) (Obj d)) \<noteq> RT_Object_Class_Device" using k(2) by (simp add: rt_consts)
  have "obj_type (objects (mc_kernel m3) (Obj d)) = 0"
    using assms(3) by (auto simp: rt_device_unregister_def bind_Some_iff rt_object_detach_def unlink_object_def upd_object_def)
  then show ?thesis using r r2 destroy_needs [of d m1] destroy_needs [of d m2] destroy_needs [of d m3] by (fastforce simp: rt_consts)
qed

lemma find_settled:
  assumes "sched_inv k" "settled k" "find_by_name (objects k) name (on_class k RT_Object_Class_Device) = Some r"
  shows "rt_device_find name k = Some (r, k)"
proof -
  have c: "rt_object_get_information RT_Object_Class_Device \<noteq> None" by (simp only: container_type [symmetric]) (simp add: rt_object_container_def)
  have t: "rt_thread_self k \<noteq> None" "rt_thread_self (rt_enter_critical k) = rt_thread_self k" using assms(2) by (auto simp: settled_def rt_thread_self_def rt_enter_critical_def)
  show ?thesis using critical_settled [OF assms(1,2)] assms(3) c t by (auto simp: rt_device_find_def Let_def)
qed

lemma find_by_name_cong: "(\<And>h. h \<in> set hs \<Longrightarrow> obj_name (obs' h) = obj_name (obs h)) \<Longrightarrow> find_by_name obs' name hs = find_by_name obs name hs"
  by (induction hs) (simp_all cong: if_cong)

text \<open>A device that is registered under a new name is found by it, closed and without users; the name is refused to every other device; and after it is unregistered the name
  is free again.  The kernel is otherwise unchanged.\<close>

theorem device_register_roundtrip:
  assumes "sys_inv (mc_kernel m)" "object_inv (mc_kernel m)" "settled (mc_kernel m)" and "fresh (Obj d) (mc_kernel m)"
    and "RT_NAME_MAX \<le> length name \<or> 0 \<in> set name"
    and "find_by_name (objects (mc_kernel m)) name (on_class (mc_kernel m) RT_Object_Class_Device) = Some None"
    and "waiting_list (mc_wqueues m) (dev_wait_queue (mc_devices m d)) = []"
  shows "\<exists>m' m''. rt_device_register (Some d) name flags m = Some (RT_EOK, m') \<and> sys_inv (mc_kernel m') \<and> object_inv (mc_kernel m')
    \<and> in_use (flags AND RT_DEVICE_FLAG_STANDALONE \<noteq> 0) d m' 0 \<and> rt_device_find name (mc_kernel m') = Some (Some (Obj d), mc_kernel m')
    \<and> (\<forall>d2 fl. rt_device_register (Some d2) name fl m' = Some (-RT_ERROR, m'))
    \<and> rt_device_unregister d m' = Some (RT_EOK, m'') \<and> rt_device_find name (mc_kernel m'') = Some (None, mc_kernel m'')
    \<and> object_lists (mc_kernel m'') = object_lists (mc_kernel m)"
proof -
  let ?k = "mc_kernel m" and ?c = RT_Object_Class_Device
  obtain nm where nm: "rt_strncpy name RT_NAME_MAX = Some nm" using rt_strncpy_Some [OF assms(5)] by blast
  define k1 where "k1 = ?k\<lparr>objects := (objects ?k)(Obj d := (objects ?k (Obj d))\<lparr>obj_type := ?c OR RT_Object_Class_Static, obj_name := nm\<rparr>),
    object_lists := linked ?c (Obj d) (object_lists ?k)\<rparr>"
  have c: "?c \<in> set rt_object_container" by (simp add: rt_object_container_def)
  have i1: "rt_object_init (Obj d) ?c name ?k = Some k1" using object_init_state [OF assms(1-4) c nm] by (simp add: k1_def)
  have ty: "rt_object_get_type (Obj d) ?k = 0" "home (object_lists ?k) (Obj d) = None" using assms(4) by (simp_all add: fresh_def)
  have s1: "sys_inv k1" by (rule sys_inv_objects [OF assms(1), where g = "Obj d"]) (simp_all add: k1_def sched_view_def ty rt_consts)
  have o1: "object_inv k1" using rt_object_init_inv [OF assms(2) i1] .
  have t1: "settled k1" using assms(3) by (subst settled_cong [of _ ?k]) (simp_all add: k1_def sched_view_def)
  obtain z where z: "rt_strncmp nm name RT_NAME_MAX = Some z" using rt_strncmp_Some [of RT_NAME_MAX nm name] rt_strncpy_length [OF nm] assms(5) by auto
  have "z = 0" using rt_strncmp_0_iff [OF z] rt_strncpy_cstr [OF nm] by simp
  then have f1: "find_by_name (objects k1) name (on_class k1 ?c) = Some (Some (Obj d))" using z by (simp add: k1_def on_class_def linked_def)
  have fi1: "rt_device_find name k1 = Some (Some (Obj d), k1)" by (rule find_settled [OF sys_invD(5) [OF s1] t1 f1])
  have fi0: "rt_device_find name ?k = Some (None, ?k)" by (rule find_settled [OF sys_invD(5) [OF assms(1)] assms(3,6)])
  define m' where "m' = upd_dev d (\<lambda>dv. dv\<lparr>dev_flag := flags, dev_ref_count := 0, dev_open_flag := 0, dev_fops := None\<rparr>) (m\<lparr>mc_kernel := k1\<rparr>)
    \<lparr>mc_wqueues := set_wq_flag (dev_wait_queue (mc_devices m d)) RT_WQ_FLAG_CLEAN (mc_wqueues m)\<rparr>"
  have k': "mc_kernel m' = k1" by (simp add: m'_def upd_dev_def)
  have reg: "rt_device_register (Some d) name flags m = Some (RT_EOK, m')"
    using fi0 i1 assms(7) by (simp add: rt_device_register_def Let_def m'_def rt_wqueue_init_def upd_dev_def)
  have iu: "in_use (flags AND RT_DEVICE_FLAG_STANDALONE \<noteq> 0) d m' 0"
    by (simp add: in_use_def m'_def upd_dev_def is_device_def k1_def rt_object_get_type_def) (simp add: rt_consts)
  have refused: "rt_device_register (Some d2) name fl m' = Some (-RT_ERROR, m')" for d2 fl using fi1 k' by (simp add: rt_device_register_def Let_def)
  define k2 where "k2 = rt_object_detach (Obj d) k1"
  have un: "rt_device_unregister d m' = Some (RT_EOK, m'\<lparr>mc_kernel := k2\<rparr>)"
    by (simp add: rt_device_unregister_def k' k2_def) (simp add: k1_def rt_object_get_type_def rt_object_is_systemobject_def rt_consts)
  have l2: "object_lists k2 = object_lists ?k"
    using ty(2) by (simp add: k2_def rt_object_detach_def unlink_object_def upd_object_def k1_def linked_def ls_remove_def fun_upd_idem)
  have "Obj d \<notin> set (on_class ?k ?c)" using ty(2) assms(2) ls_wf_mem [of "object_lists ?k" "Obj d" ?c] by (simp add: object_inv_def on_class_def)
  then have "find_by_name (objects k2) name (on_class ?k ?c) = find_by_name (objects ?k) name (on_class ?k ?c)"
    by (intro find_by_name_cong) (auto simp: k2_def rt_object_detach_def unlink_object_def upd_object_def k1_def)
  then have f2: "find_by_name (objects k2) name (on_class k2 ?c) = Some None" using assms(6) l2 by (simp add: on_class_def)
  have v2: "sched_view k2 = sched_view ?k" "rt_current_thread k2 = rt_current_thread ?k" "rt_scheduler_lock_nest k2 = rt_scheduler_lock_nest ?k"
    by (simp_all add: k2_def rt_object_detach_def unlink_object_def upd_object_def k1_def sched_view_def)
  have "settled k2" using settled_cong [OF v2] assms(3) by simp
  moreover have "sched_inv k2" using sched_view_inv [OF v2(1)] sys_invD(5) [OF assms(1)] by simp
  ultimately have "rt_device_find name k2 = Some (None, k2)" using f2 by (intro find_settled)
  then show ?thesis using reg s1 o1 k' un l2 iu fi1 refused
    by (intro exI [of _ m'] exI [of _ "m'\<lparr>mc_kernel := k2\<rparr>"]) simp
qed

section \<open>Examples\<close>

text \<open>A machine with one device that is not registered; its hardware is a record of the calls of the driver.\<close>

definition sample_machine :: "kernel \<Rightarrow> rt_device \<Rightarrow> nat list machine" where
  "sample_machine k dv = \<lparr>mc_kernel = k, mc_wqueues = sample_wqueues [], mc_devices = (\<lambda>_. dv), mc_hw = []\<rparr>"

definition counting_driver :: "rt_err_t \<Rightarrow> nat list rt_device_ops" where
  "counting_driver e = \<lparr>device_init = Some (\<lambda>m. Some (RT_EOK, m\<lparr>mc_hw := 0 # mc_hw m\<rparr>)), device_open = Some (\<lambda>_ m. Some (RT_EOK, m\<lparr>mc_hw := 1 # mc_hw m\<rparr>)),
     device_close = Some (\<lambda>m. Some (e, m\<lparr>mc_hw := 2 # mc_hw m\<rparr>)), device_read = None, device_write = None, device_control = None\<rparr>"

definition sample_device_kernel :: kernel where
  "sample_device_kernel = upd_object (Obj 7) (\<lambda>ob. ob\<lparr>obj_type := RT_Object_Class_Device\<rparr>) sample"

text \<open>A driver that refuses to be initialised twice.\<close>

definition once_driver :: "nat list rt_device_ops" where
  "once_driver = (counting_driver RT_EOK)\<lparr>device_init := Some (\<lambda>m. if activated 7 m then None else Some (RT_EOK, m\<lparr>mc_hw := 0 # mc_hw m\<rparr>))\<rparr>"

definition driver_log :: "nat list machine \<Rightarrow> driver_event list" where
  "driver_log m = rev (map (\<lambda>i. if i = 0 then Ev_init else if i = 1 then Ev_open else Ev_close) (mc_hw m))"

theorem device_refines_counter_witness:
  "\<exists>m'. device_calls once_driver 7 [Open 3, Open 3, Close, Close, Close, Open 3] (sample_machine sample_device_kernel zero_device)
      = Some ([True, True, True, True, False, True], m')
    \<and> in_use False 7 m' 1 \<and> driver_log m' = [Ev_init, Ev_open, Ev_open, Ev_close, Ev_open]"
proof -
  let ?m = "sample_machine sample_device_kernel zero_device"
  have "driver_ok once_driver 7" by (simp add: driver_ok_def once_driver_def counting_driver_def keeps_device_def is_device_def)
  moreover have "in_use False 7 ?m 0" "\<not> activated 7 ?m" "driver_log ?m = []"
    by (simp_all add: in_use_def sample_machine_def zero_device_def is_device_def rt_object_get_type_def sample_device_kernel_def upd_object_def driver_log_def rt_consts)
  moreover have "logs once_driver driver_log" by (auto simp: logs_def once_driver_def counting_driver_def driver_log_def split: if_splits)
  moreover have "has_event once_driver ev" for ev by (cases ev) (simp_all add: has_event_def once_driver_def counting_driver_def)
  ultimately show ?thesis
    using device_refines_counter [of once_driver 7 False ?m 0 driver_log "[Open 3, Open 3, Close, Close, Close, Open 3]"] by (simp del: device_calls.simps) blast
qed

theorem device_close_failure_witness:
  "\<exists>m m'. rt_device_close (counting_driver (-RT_EIO)) (Some 7) m = Some (-RT_EIO, m') \<and> rt_device_open (counting_driver (-RT_EIO)) 7 3 m' = Some (-RT_EBUSY, m')"
proof -
  let ?m = "sample_machine sample_device_kernel (zero_device\<lparr>dev_flag := 0x18, dev_open_flag := 8, dev_ref_count := 1\<rparr>)"
  let ?u = "upd_dev 7 (\<lambda>dv. dv\<lparr>dev_ref_count := 0\<rparr>) ?m"
  have "rt_device_close (counting_driver (-RT_EIO)) (Some 7) ?m = Some (-RT_EIO, ?u\<lparr>mc_hw := 2 # mc_hw ?u\<rparr>)
    \<and> rt_device_close (counting_driver (-RT_EIO)) (Some 7) (?u\<lparr>mc_hw := 2 # mc_hw ?u\<rparr>) = Some (-RT_ERROR, ?u\<lparr>mc_hw := 2 # mc_hw ?u\<rparr>)
    \<and> rt_device_open (counting_driver (-RT_EIO)) 7 3 (?u\<lparr>mc_hw := 2 # mc_hw ?u\<rparr>) = Some (-RT_EBUSY, ?u\<lparr>mc_hw := 2 # mc_hw ?u\<rparr>)"
    by (rule device_close_failure [where cls = "\<lambda>m. Some (-RT_EIO, m\<lparr>mc_hw := 2 # mc_hw m\<rparr>)"])
      (simp_all add: counting_driver_def sample_machine_def is_device_def rt_object_get_type_def sample_device_kernel_def upd_object_def keeps_device_def rt_consts)
  then show ?thesis by blast
qed

lemma sample_device_name: "find_by_name (objects sample) life_name (on_class sample RT_Object_Class_Device) = Some None"
  by code_simp

theorem device_register_roundtrip_witness:
  "\<exists>m' m''. rt_device_register (Some 7) life_name 3 (sample_machine sample zero_device) = Some (RT_EOK, m') \<and> rt_device_find life_name (mc_kernel m') = Some (Some (Obj 7), mc_kernel m')
    \<and> rt_device_unregister 7 m' = Some (RT_EOK, m'') \<and> rt_device_find life_name (mc_kernel m'') = Some (None, mc_kernel m'')"
proof -
  have "RT_NAME_MAX \<le> length life_name \<or> 0 \<in> set life_name" by (simp add: life_name_def)
  from device_register_roundtrip [where m = "sample_machine sample zero_device" and d = 7 and flags = 3, OF _ _ _ _ this] show ?thesis
    using sample_sys_inv sample_objects_inv sample_settled sample_fresh(1) sample_device_name
    by (simp add: sample_machine_def sample_wqueues_def fresh_thread_def) blast
qed

theorem device_destroy_stops_witness:
  "\<exists>m1 m2 m3. rt_device_create 0 (Some 7) (sample_machine sample zero_device) = (Some 7, m1) \<and> rt_device_register (Some 7) life_name 3 m1 = Some (RT_EOK, m2)
    \<and> rt_device_unregister 7 m2 = Some (RT_EOK, m3) \<and> rt_device_destroy 7 m2 = None"
proof -
  obtain m1 where m1: "rt_device_create 0 (Some 7) (sample_machine sample zero_device) = (Some 7, m1)" by (simp add: rt_device_create_def)
  have "map_option fst (rt_device_register (Some 7) life_name 3 (snd (rt_device_create 0 (Some 7) (sample_machine sample zero_device)))) = Some RT_EOK
    \<and> map_option fst (rt_device_unregister 7 (snd (the (rt_device_register (Some 7) life_name 3 (snd (rt_device_create 0 (Some 7) (sample_machine sample zero_device))))))) = Some RT_EOK"
    by code_simp
  then obtain m2 m3 where "rt_device_register (Some 7) life_name 3 m1 = Some (RT_EOK, m2)" "rt_device_unregister 7 m2 = Some (RT_EOK, m3)" using m1 by auto
  then show ?thesis using device_destroy_stops [OF m1] m1 by blast
qed

end
