(* ===== verification/RT_Workqueue.thy ===== *)
theory RT_Workqueue
  imports RT_Sem RT_Lifecycle
begin

text \<open>
  Work queues, \<^verbatim>\<open>kernel/utilities/workqueue.c\<close>: a thread that runs the functions other threads and interrupts leave on its list, one after the other.  The loop of
  the thread is cut where interrupts are open and other code can run; what a work does when it is run is not part of the queue.
\<close>

section \<open>The code\<close>

text \<open>Works and queues are given by handles; a work that is running is not on the list.  A pointer to a work leads to a work, or to the queue itself when it was computed from the head
  of the list.\<close>

datatype work_ref = Work nat | Queue_head

record rt_workqueue =
  wk_current :: "work_ref option"
  wk_sem :: nat
  wk_thread :: tid

record rt_work =
  work_func :: nat
  work_data :: nat

record workqueues =
  wk_works :: "nat \<Rightarrow> rt_work"
  wk_queues :: "nat \<Rightarrow> rt_workqueue"
  wk_lists :: "(nat, nat) list_store"

abbreviation work_list :: "workqueues \<Rightarrow> nat \<Rightarrow> nat list" where
  "work_list ws q \<equiv> on_list (wk_lists ws) q"

definition set_current :: "nat \<Rightarrow> work_ref option \<Rightarrow> workqueues \<Rightarrow> workqueues" where
  "set_current q c ws = ws\<lparr>wk_queues := (wk_queues ws)(q := (wk_queues ws q)\<lparr>wk_current := c\<rparr>)\<rparr>"

text \<open>Setting up a work, which must be on no list.\<close>

definition rt_work_init :: "nat \<Rightarrow> nat \<Rightarrow> nat \<Rightarrow> workqueues \<Rightarrow> workqueues option" where
  "rt_work_init work func data ws =
     do { RT_ASSERT (home (wk_lists ws) work = None);
          Some (ws\<lparr>wk_works := (wk_works ws)(work := \<lparr>work_func = func, work_data = data\<rparr>)\<rparr>) }"

text \<open>\<^verbatim>\<open>_workqueue_work_completion\<close>: the semaphore is released until it can be taken.\<close>

partial_function (option) completion_loop :: "nat \<Rightarrow> kernel \<Rightarrow> (rt_err_t \<times> kernel) option" where
  "completion_loop s k =
     do { (r, k) \<leftarrow> rt_sem_trytake s k;
          case r of
            Waiting t \<Rightarrow> None
          | Finished result \<Rightarrow>
              if result = -RT_ETIMEOUT then do { (_, k) \<leftarrow> rt_sem_release s k; completion_loop s k }
              else Some (if result = RT_EOK then RT_EOK else -RT_ERROR, k) }"

declare completion_loop.simps [code]

definition workqueue_work_completion :: "nat \<Rightarrow> workqueues \<Rightarrow> kernel \<Rightarrow> (rt_err_t \<times> kernel) option" where
  "workqueue_work_completion q ws k =
     do { let k = rt_enter_critical k;
          (result, k) \<leftarrow> completion_loop (wk_sem (wk_queues ws q)) k;
          k \<leftarrow> rt_exit_critical k;
          Some (result, k) }"

text \<open>The parts of the loop of \<^verbatim>\<open>_workqueue_thread_entry\<close>: looking at the list, suspending itself, taking the first work, and what follows when the function of the work has returned.
  The entry behind the head of an empty list is the head itself; taking it off its list changes nothing.\<close>

definition workqueue_idle :: "nat \<Rightarrow> workqueues \<Rightarrow> bool" where
  "workqueue_idle q ws \<longleftrightarrow> work_list ws q = []"

definition workqueue_suspend :: "kernel \<Rightarrow> kernel option" where
  "workqueue_suspend k = do { t \<leftarrow> rt_thread_self k; (_, k) \<leftarrow> rt_thread_suspend t k; rt_schedule k }"

definition workqueue_fetch :: "nat \<Rightarrow> workqueues \<Rightarrow> work_ref \<times> workqueues" where
  "workqueue_fetch q ws =
     (case work_list ws q of
        [] \<Rightarrow> (Queue_head, set_current q (Some Queue_head) ws)
      | work # _ \<Rightarrow> (Work work, set_current q (Some (Work work)) (ws\<lparr>wk_lists := ls_remove work (wk_lists ws)\<rparr>)))"

definition workqueue_done :: "nat \<Rightarrow> workqueues \<Rightarrow> kernel \<Rightarrow> (workqueues \<times> kernel) option" where
  "workqueue_done q ws k =
     do { let ws = set_current q None ws;
          (_, k) \<leftarrow> workqueue_work_completion q ws k;
          Some (ws, k) }"

text \<open>The function that is called for a work, and its argument.  \<^verbatim>\<open>struct rt_workqueue\<close> has the pointer to the current work where \<^verbatim>\<open>struct rt_work\<close> has the function: read as a
  work, the queue has its own address as function, which is no function.\<close>

definition work_call :: "work_ref \<Rightarrow> workqueues \<Rightarrow> (nat \<times> nat) option" where
  "work_call r ws = (case r of Work w \<Rightarrow> Some (work_func (wk_works ws w), work_data (wk_works ws w)) | Queue_head \<Rightarrow> None)"

text \<open>The loop, cut where interrupts are open: at its top, between the look at the list and the suspension, behind \<^verbatim>\<open>rt_schedule\<close>, with a work to run, and when the work has
  returned.  What the work itself does comes in between, like what other threads do.\<close>

datatype worker_pc = Loop_top | Suspending | Awake | Running work_ref | Returned

definition workqueue_thread_step :: "nat \<Rightarrow> worker_pc \<Rightarrow> workqueues \<Rightarrow> kernel \<Rightarrow> (worker_pc \<times> workqueues \<times> kernel) option" where
  "workqueue_thread_step q pc ws k =
     (case pc of
        Loop_top \<Rightarrow> Some (if workqueue_idle q ws then Suspending else Awake, ws, k)
      | Suspending \<Rightarrow> do { k \<leftarrow> workqueue_suspend k; Some (Awake, ws, k) }
      | Awake \<Rightarrow> (let (r, ws) = workqueue_fetch q ws in Some (Running r, ws, k))
      | Running r \<Rightarrow> do { _ \<leftarrow> work_call r ws; Some (Returned, ws, k) }
      | Returned \<Rightarrow> do { (ws, k) \<leftarrow> workqueue_done q ws k; Some (Loop_top, ws, k) })"

text \<open>\<^verbatim>\<open>rt_workqueue_create\<close>: the arguments are what the allocations return, as for \<^verbatim>\<open>rt_thread_create\<close>; the name of the semaphore is \<^verbatim>\<open>"wqueue"\<close>.\<close>

definition wqueue_name :: "rt_uint8_t list" where
  "wqueue_name = [119, 113, 117, 101, 117, 101, 0]"

definition rt_workqueue_create ::
    "rt_uint32_t \<Rightarrow> nat \<Rightarrow> rt_uint8_t list \<Rightarrow> rt_uint16_t \<Rightarrow> rt_uint8_t \<Rightarrow> nat option \<Rightarrow> nat option \<Rightarrow> rt_uint32_t \<Rightarrow> nat option \<Rightarrow> workqueues \<Rightarrow> kernel
     \<Rightarrow> (nat option \<times> workqueues \<times> kernel) option" where
  "rt_workqueue_create texit entry name stack_size priority qblock tblock stack_start sblock ws k =
     (case qblock of None \<Rightarrow> Some (None, ws, k)
      | Some q \<Rightarrow> do {
          RT_ASSERT (work_list ws q = []);
          let ws = set_current q None ws;
          (_, k) \<leftarrow> rt_sem_init (wk_sem (wk_queues ws q)) wqueue_name 0 RT_IPC_FLAG_FIFO k;
          (t, k) \<leftarrow> rt_thread_create texit name entry q (ucast stack_size) priority 10 tblock stack_start sblock k;
          case t of
            None \<Rightarrow> Some (None, ws, k\<lparr>freed := Obj q # freed k\<rparr>)
          | Some t \<Rightarrow> do {
              let ws = ws\<lparr>wk_queues := (wk_queues ws)(q := (wk_queues ws q)\<lparr>wk_thread := t\<rparr>)\<rparr>;
              (_, k) \<leftarrow> rt_thread_startup t k;
              Some (Some q, ws, k) } })"

definition rt_workqueue_destroy :: "(nat \<Rightarrow> tid \<Rightarrow> kernel \<Rightarrow> kernel option) \<Rightarrow> nat \<Rightarrow> workqueues \<Rightarrow> kernel \<Rightarrow> (rt_err_t \<times> kernel) option" where
  "rt_workqueue_destroy cleanup q ws k =
     do { (_, k) \<leftarrow> rt_thread_delete cleanup (wk_thread (wk_queues ws q)) k;
          Some (RT_EOK, k\<lparr>freed := Obj q # freed k\<rparr>) }"

definition rt_workqueue_dowork :: "nat \<Rightarrow> nat \<Rightarrow> workqueues \<Rightarrow> kernel \<Rightarrow> (rt_err_t \<times> workqueues \<times> kernel) option" where
  "rt_workqueue_dowork q work ws k =
     (if wk_current (wk_queues ws q) = Some (Work work) then Some (-RT_EBUSY, ws, k)
      else do {
        ls \<leftarrow> ls_append q work (ls_remove work (wk_lists ws));
        let ws = ws\<lparr>wk_lists := ls\<rparr>;
        if wk_current (wk_queues ws q) = None then
          do { (_, k) \<leftarrow> rt_thread_resume (wk_thread (wk_queues ws q)) k;
               k \<leftarrow> rt_schedule k;
               Some (RT_EOK, ws, k) }
        else Some (RT_EOK, ws, k) })"

text \<open>The code of \<^verbatim>\<open>rt_workqueue_critical_work\<close> is the same.\<close>

definition rt_workqueue_critical_work :: "nat \<Rightarrow> nat \<Rightarrow> workqueues \<Rightarrow> kernel \<Rightarrow> (rt_err_t \<times> workqueues \<times> kernel) option" where
  "rt_workqueue_critical_work q work ws k = rt_workqueue_dowork q work ws k"

definition rt_workqueue_cancel_work :: "nat \<Rightarrow> nat \<Rightarrow> workqueues \<Rightarrow> rt_err_t \<times> workqueues" where
  "rt_workqueue_cancel_work q work ws =
     (if wk_current (wk_queues ws q) = Some (Work work) then (-RT_EBUSY, ws) else (RT_EOK, ws\<lparr>wk_lists := ls_remove work (wk_lists ws)\<rparr>))"

text \<open>A caller that waits returns \<^verbatim>\<open>RT_EOK\<close> whatever it is woken by.\<close>

definition rt_workqueue_cancel_work_sync :: "nat \<Rightarrow> nat \<Rightarrow> workqueues \<Rightarrow> kernel \<Rightarrow> (rt_err_t outcome \<times> workqueues \<times> kernel) option" where
  "rt_workqueue_cancel_work_sync q work ws k =
     (if wk_current (wk_queues ws q) = Some (Work work) then
        do { (r, k) \<leftarrow> rt_sem_take (wk_sem (wk_queues ws q)) (of_int RT_WAITING_FOREVER) k;
             Some (case r of Waiting t \<Rightarrow> Waiting t | Finished _ \<Rightarrow> Finished RT_EOK, ws, k) }
      else Some (Finished RT_EOK, ws\<lparr>wk_lists := ls_remove work (wk_lists ws)\<rparr>, k))"

definition rt_workqueue_cancel_work_sync_back :: rt_err_t where
  "rt_workqueue_cancel_work_sync_back = RT_EOK"

definition rt_workqueue_cancel_all_work :: "nat \<Rightarrow> workqueues \<Rightarrow> kernel \<Rightarrow> (rt_err_t \<times> workqueues \<times> kernel) option" where
  "rt_workqueue_cancel_all_work q ws k =
     do { let k = rt_enter_critical k;
          let ws = ws\<lparr>wk_lists := fold ls_remove (work_list ws q) (wk_lists ws)\<rparr>;
          k \<leftarrow> rt_exit_critical k;
          Some (RT_EOK, ws, k) }"

section \<open>Acknowledging\<close>

lemma exit_critical_locked:
  assumes "sys_inv k" and "rt_scheduler_lock_nest k = 1" and "stat_of k u = RT_THREAD_READY"
  obtains k' where "rt_exit_critical k = Some k'" "sys_inv k'" "same_ipc (k\<lparr>rt_scheduler_lock_nest := 0\<rparr>) k'" "threads k' = threads k" "on_tlist k' = on_tlist k"
    "rt_scheduler_lock_nest k' = 0" "\<exists>v. rt_current_thread k' = Some v \<and> first_ready k' v"
proof -
  let ?k = "k\<lparr>rt_scheduler_lock_nest := 0\<rparr>"
  have inv: "sys_inv ?k" using sys_invD(8) [OF assms(1)] assms(1) by (intro sys_inv_cong [of ?k k, OF _ _ _ _ _ _ assms(1)]) (simp_all add: sched_view_def)
  have st: "stat_of ?k u = RT_THREAD_READY" using assms(3) by (simp add: stat_of_def)
  obtain k' where k': "rt_schedule ?k = Some k'" "sys_inv k'" "same_ipc ?k k'" "threads k' = threads ?k" "tlists k' = tlists ?k"
    "if rt_scheduler_lock_nest ?k = 0 then \<exists>t. rt_current_thread k' = Some t \<and> first_ready k' t else k' = ?k"
    using sys_schedule [OF inv st] by blast
  have "rt_current_thread k \<noteq> None" using sys_invD(8) [OF assms(1)] by simp
  then have "rt_exit_critical k = Some k'" using k'(1) assms(2) by (simp add: rt_exit_critical_def Let_def)
  moreover have "threads k' = threads k" "on_tlist k' = on_tlist k" using k'(4,5) by (simp_all add: fun_eq_iff on_tlist_def)
  moreover have "rt_scheduler_lock_nest k' = 0" using k'(3) by (simp add: same_ipc_def)
  ultimately show ?thesis using that k'(2,3,6) by force
qed

text \<open>The loop wakes the waiting threads one by one and ends with a semaphore that is not available.\<close>

lemma completion_loop_ok:
  "sys_inv k \<Longrightarrow> sem_inv s k \<Longrightarrow> sem_value (sems k s) = 0 \<Longrightarrow> on_tlist k (Sem_wait s) = ts \<Longrightarrow>
    \<exists>k'. completion_loop s k = Some (RT_EOK, k') \<and> sys_inv k' \<and> sem_inv s k' \<and> sem_value (sems k' s) = 0 \<and> on_tlist k' (Sem_wait s) = []
      \<and> rt_scheduler_lock_nest k' = rt_scheduler_lock_nest k
      \<and> (\<forall>t\<in>set ts. stat_of k' t = RT_THREAD_READY \<and> th_error (threads k' t) = th_error (threads k t)) \<and> (\<forall>t. t \<notin> set ts \<longrightarrow> threads k' t = threads k t)"
proof (induction ts arbitrary: k)
  case Nil
  let ?k1 = "upd_sem s (\<lambda>sm. sm\<lparr>sem_value := sem_value sm + 1\<rparr>) k" and ?k2 = "upd_sem s (\<lambda>sm. sm\<lparr>sem_value := sem_value sm - 1\<rparr>) (upd_sem s (\<lambda>sm. sm\<lparr>sem_value := sem_value sm + 1\<rparr>) k)"
  have un: "\<not> sem_avail s k" using Nil by (simp add: sem_avail_def)
  have i1: "sem_inv s ?k1" using Nil(2,4) by (simp add: sem_inv_def rt_object_get_type_def parked_def)
  have a1: "sem_avail s ?k1" using Nil(3) by (simp add: sem_avail_def upd_sem_def)
  have "rt_sem_trytake s k = Some (Finished (-RT_ETIMEOUT), k)" using sem_take_no_wait(2) [OF Nil(2) un] by (simp add: rt_sem_trytake_def)
  moreover have "rt_sem_release s k = Some (RT_EOK, ?k1)" by (rule sem_release_counts [OF Nil(2,4)])
  moreover have "rt_sem_trytake s ?k1 = Some (Finished RT_EOK, ?k2)" using sem_take_no_wait(1) [OF i1 a1] by (simp add: rt_sem_trytake_def)
  ultimately have "completion_loop s k = Some (RT_EOK, ?k2)"
    by (subst completion_loop.simps, simp, subst completion_loop.simps, simp add: rt_consts)
  moreover have "sem_inv s ?k2" using Nil(2,4) by (simp add: sem_inv_def rt_object_get_type_def parked_def)
  moreover have "sys_inv ?k2" using Nil(1) by simp
  moreover have "on_tlist ?k2 (Sem_wait s) = []" "sem_value (sems ?k2 s) = 0" "rt_scheduler_lock_nest ?k2 = rt_scheduler_lock_nest k" "threads ?k2 = threads k"
    using Nil by (simp_all add: upd_sem_def on_tlist_def)
  ultimately show ?case by (intro exI [of _ ?k2]) simp
next
  case (Cons t ts)
  have un: "\<not> sem_avail s k" using Cons.prems by (simp add: sem_avail_def)
  obtain k1 where k1: "rt_sem_release s k = Some (RT_EOK, k1)" "sys_inv k1" "sem_inv s k1" "same_ipc k k1" "on_tlist k1 (Sem_wait s) = ts"
    "stat_of k1 t = RT_THREAD_READY" "th_error (threads k1 t) = th_error (threads k t)" "\<forall>v. v \<noteq> t \<longrightarrow> threads k1 v = threads k v"
    using sem_release_hands_over [OF Cons.prems(1,2,4)] by blast
  have v1: "sem_value (sems k1 s) = 0" "rt_scheduler_lock_nest k1 = rt_scheduler_lock_nest k" using k1(4) Cons.prems(3) by (simp_all add: same_ipc_def)
  obtain k2 where k2: "completion_loop s k1 = Some (RT_EOK, k2)" "sys_inv k2" "sem_inv s k2" "sem_value (sems k2 s) = 0" "on_tlist k2 (Sem_wait s) = []"
    "rt_scheduler_lock_nest k2 = rt_scheduler_lock_nest k1"
    "\<forall>t\<in>set ts. stat_of k2 t = RT_THREAD_READY \<and> th_error (threads k2 t) = th_error (threads k1 t)" "\<forall>t. t \<notin> set ts \<longrightarrow> threads k2 t = threads k1 t"
    using Cons.IH [OF k1(2,3) v1(1) k1(5)] by blast
  have nt: "t \<notin> set ts" using wait_list_distinct [OF sys_invD(5) [OF Cons.prems(1)], of "Sem_wait s"] Cons.prems(4) by simp
  have "rt_sem_trytake s k = Some (Finished (-RT_ETIMEOUT), k)" using sem_take_no_wait(2) [OF Cons.prems(2) un] by (simp add: rt_sem_trytake_def)
  then have "completion_loop s k = Some (RT_EOK, k2)" using k1(1) k2(1) by (subst completion_loop.simps) simp
  moreover have "stat_of k2 t = RT_THREAD_READY \<and> th_error (threads k2 t) = th_error (threads k t)" using k2(8) nt k1(6,7) by (simp add: stat_of_def)
  moreover have "\<forall>u\<in>set ts. th_error (threads k1 u) = th_error (threads k u)" using k1(8) nt by auto
  ultimately show ?case using k2 k1(8) v1(2) by (intro exI [of _ k2]) auto
qed


lemma work_completion_ok:
  assumes inv: "sys_inv k" "sem_inv (wk_sem (wk_queues ws q)) k" and v: "sem_value (sems k (wk_sem (wk_queues ws q))) = 0"
    and n: "rt_scheduler_lock_nest k = 0" and u: "stat_of k u = RT_THREAD_READY"
  shows "\<exists>k'. workqueue_work_completion q ws k = Some (RT_EOK, k') \<and> sys_inv k' \<and> sem_inv (wk_sem (wk_queues ws q)) k'
    \<and> sem_value (sems k' (wk_sem (wk_queues ws q))) = 0 \<and> on_tlist k' (Sem_wait (wk_sem (wk_queues ws q))) = []
    \<and> (\<forall>t. if t \<in> set (on_tlist k (Sem_wait (wk_sem (wk_queues ws q))))
           then stat_of k' t = RT_THREAD_READY \<and> th_error (threads k' t) = th_error (threads k t) else threads k' t = threads k t)
    \<and> rt_scheduler_lock_nest k' = 0 \<and> (\<exists>c. rt_current_thread k' = Some c \<and> first_ready k' c)"
proof -
  let ?s = "wk_sem (wk_queues ws q)" and ?k = "rt_enter_critical k"
  have l: "on_tlist ?k = on_tlist k" "threads ?k = threads k" "sems ?k = sems k" "rt_scheduler_lock_nest ?k = 1"
    using n by (simp_all add: rt_enter_critical_def on_tlist_def fun_eq_iff)
  have si: "sem_inv ?s ?k" using inv(2) by (simp add: rt_enter_critical_def sem_inv_def parked_def sem_avail_def rt_object_get_type_def on_tlist_def)
  obtain k1 where k1: "completion_loop ?s ?k = Some (RT_EOK, k1)" "sys_inv k1" "sem_inv ?s k1" "sem_value (sems k1 ?s) = 0" "on_tlist k1 (Sem_wait ?s) = []"
    "rt_scheduler_lock_nest k1 = 1"
    "\<forall>t\<in>set (on_tlist k (Sem_wait ?s)). stat_of k1 t = RT_THREAD_READY \<and> th_error (threads k1 t) = th_error (threads k t)"
    "\<forall>t. t \<notin> set (on_tlist k (Sem_wait ?s)) \<longrightarrow> threads k1 t = threads k t"
    using completion_loop_ok [OF sys_inv_enter_critical [OF inv(1)] si, of "on_tlist k (Sem_wait ?s)"] v l by auto
  have "stat_of k1 u = RT_THREAD_READY" using k1(7,8) u by (cases "u \<in> set (on_tlist k (Sem_wait ?s))") (simp_all add: stat_of_def)
  then obtain k2 where k2: "rt_exit_critical k1 = Some k2" "sys_inv k2" "same_ipc (k1\<lparr>rt_scheduler_lock_nest := 0\<rparr>) k2" "threads k2 = threads k1"
    "on_tlist k2 = on_tlist k1" "rt_scheduler_lock_nest k2 = 0" "\<exists>c. rt_current_thread k2 = Some c \<and> first_ready k2 c"
    by (rule exit_critical_locked [OF k1(2,6)])
  have "sems k2 = sems k1" "objects k2 (Obj ?s) = objects k1 (Obj ?s)" using k2(3) by (simp_all add: same_ipc_def)
  moreover from this have "sem_inv ?s k2" using k1(3) k2(4,5) by (simp add: sem_inv_def parked_def sem_avail_def rt_object_get_type_def)
  moreover have "workqueue_work_completion q ws k = Some (RT_EOK, k2)" using k1(1) k2(1) by (simp add: workqueue_work_completion_def Let_def)
  moreover have "stat_of k2 = stat_of k1" using k2(4) by (simp add: stat_of_def fun_eq_iff)
  ultimately show ?thesis using k1 k2 by (intro exI [of _ k2]) simp
qed

section \<open>Serving the works\<close>

text \<open>No work is on two lists, and the work that runs is not on the list of its queue.\<close>

definition works_inv :: "workqueues \<Rightarrow> bool" where
  "works_inv ws \<longleftrightarrow> ls_wf (wk_lists ws) \<and> (\<forall>q w. wk_current (wk_queues ws q) = Some (Work w) \<longrightarrow> w \<notin> set (work_list ws q))"

lemma dowork_queued:
  assumes "works_inv ws" and "wk_current (wk_queues ws q) \<noteq> Some (Work work)"
  obtains ls where "ls_append q work (ls_remove work (wk_lists ws)) = Some ls" "works_inv (ws\<lparr>wk_lists := ls\<rparr>)"
    "\<forall>q'. on_list ls q' = filter (\<lambda>w. w \<noteq> work) (work_list ws q') @ (if q' = q then [work] else [])"
proof -
  let ?r = "ls_remove work (wk_lists ws)"
  have wf: "ls_wf ?r" using assms(1) by (simp add: works_inv_def ls_remove_wf)
  obtain ls where ls: "ls_append q work ?r = Some ls" by (metis ls_append_Some ls_remove_home fun_upd_same)
  then have on: "\<forall>q'. on_list ls q' = filter (\<lambda>w. w \<noteq> work) (work_list ws q') @ (if q' = q then [work] else [])"
    using assms(1) by (auto simp: ls_append_Some works_inv_def ls_remove_on_list)
  moreover have "works_inv (ws\<lparr>wk_lists := ls\<rparr>)" using assms ls_append_wf [OF wf ls] on by (auto simp: works_inv_def)
  ultimately show ?thesis using that ls by blast
qed


text \<open>C38: A work given to a queue with \<^verbatim>\<open>rt_workqueue_dowork\<close> is refused while it is the one that runs.  Otherwise it is taken off the list it may be on and queued behind the works of the
  queue.  If the thread of the queue sleeps it is made ready and the scheduler runs, in every other case the kernel is as before.\<close>

theorem workqueue_dowork_correct:
  assumes "works_inv ws" and "sys_inv k" and "rt_current_thread k = Some c" and "first_ready k c" and "rt_scheduler_lock_nest k = 0"
    and "alive k (wk_thread (wk_queues ws q))"
  shows "(wk_current (wk_queues ws q) = Some (Work work) \<longrightarrow> rt_workqueue_dowork q work ws k = Some (-RT_EBUSY, ws, k))
    \<and> (wk_current (wk_queues ws q) \<noteq> Some (Work work) \<longrightarrow> (\<exists>ws' k'. rt_workqueue_dowork q work ws k = Some (RT_EOK, ws', k')
        \<and> works_inv ws' \<and> sys_inv k' \<and> wk_queues ws' = wk_queues ws
        \<and> (\<forall>q'. work_list ws' q' = filter (\<lambda>w. w \<noteq> work) (work_list ws q') @ (if q' = q then [work] else []))
        \<and> (if wk_current (wk_queues ws q) = None \<and> stat_of k (wk_thread (wk_queues ws q)) = RT_THREAD_SUSPEND
           then stat_of k' (wk_thread (wk_queues ws q)) = RT_THREAD_READY \<and> (\<forall>t. t \<noteq> wk_thread (wk_queues ws q) \<longrightarrow> threads k' t = threads k t)
             \<and> (\<exists>v. rt_current_thread k' = Some v \<and> first_ready k' v)
           else k' = k)))"
proof (intro conjI impI)
  let ?t = "wk_thread (wk_queues ws q)"
  assume n: "wk_current (wk_queues ws q) \<noteq> Some (Work work)"
  obtain ls where ls: "ls_append q work (ls_remove work (wk_lists ws)) = Some ls" "works_inv (ws\<lparr>wk_lists := ls\<rparr>)"
    "\<forall>q'. on_list ls q' = filter (\<lambda>w. w \<noteq> work) (work_list ws q') @ (if q' = q then [work] else [])"
    by (rule dowork_queued [OF assms(1) n])
  show "\<exists>ws' k'. rt_workqueue_dowork q work ws k = Some (RT_EOK, ws', k') \<and> works_inv ws' \<and> sys_inv k' \<and> wk_queues ws' = wk_queues ws
        \<and> (\<forall>q'. work_list ws' q' = filter (\<lambda>w. w \<noteq> work) (work_list ws q') @ (if q' = q then [work] else []))
        \<and> (if wk_current (wk_queues ws q) = None \<and> stat_of k ?t = RT_THREAD_SUSPEND
           then stat_of k' ?t = RT_THREAD_READY \<and> (\<forall>t. t \<noteq> ?t \<longrightarrow> threads k' t = threads k t) \<and> (\<exists>v. rt_current_thread k' = Some v \<and> first_ready k' v)
           else k' = k)"
  proof (cases "wk_current (wk_queues ws q) = None \<and> stat_of k ?t = RT_THREAD_SUSPEND")
    case True
    obtain k' where "rt_thread_resume ?t k = Some (RT_EOK, k')" "sys_inv k'" "same_ipc k k'" "threads k' = (threads k)(?t := set_stat RT_THREAD_READY (threads k ?t))"
      using sys_resume [OF assms(2) conjunct2 [OF True]] by blast
    note r = this
    have st: "stat_of k' ?t = RT_THREAD_READY" using stat_after(1) [OF r(4)] by (simp add: rt_consts)
    obtain k2 where "rt_schedule k' = Some k2" "sys_inv k2" "threads k2 = threads k'"
      "if rt_scheduler_lock_nest k' = 0 then \<exists>v. rt_current_thread k2 = Some v \<and> first_ready k2 v else k2 = k'" using sys_schedule [OF r(2) st] by blast
    note s = this
    have "rt_scheduler_lock_nest k' = 0" using r(3) assms(5) by (simp add: same_ipc_def)
    with r s st ls n True show ?thesis by (intro exI [of _ "ws\<lparr>wk_lists := ls\<rparr>"] exI [of _ k2]) (simp add: rt_workqueue_dowork_def Let_def stat_of_def)
  next
    case False
    have "rt_workqueue_dowork q work ws k = Some (RT_EOK, ws\<lparr>wk_lists := ls\<rparr>, k)"
    proof (cases "wk_current (wk_queues ws q)")
      case None
      then have "rt_thread_resume ?t k = Some (-RT_ERROR, k)" using False resume_not_suspended sys_inv_thread [OF assms(2,6)] by blast
      then show ?thesis using None n ls(1) schedule_settled [OF sys_invD(5) [OF assms(2)] assms(3,4)] by (simp add: rt_workqueue_dowork_def Let_def)
    qed (use n ls(1) in \<open>simp add: rt_workqueue_dowork_def Let_def\<close>)
    with False ls(2,3) assms(2) show ?thesis by (intro exI [of _ "ws\<lparr>wk_lists := ls\<rparr>"] exI [of _ k]) auto
  qed
qed (simp add: rt_workqueue_dowork_def)

text \<open>C39: One round of the thread of a work queue: it takes the first work of the list, which is the running one until it is done; then the loop that acknowledges the work comes to its
  end, every thread that waits for the work is ready without an error, nobody else is touched and the semaphore is not available again, so that the next wait blocks.\<close>

theorem workqueue_round_correct:
  assumes "works_inv ws" and "work_list ws q = w # rest" and "sys_inv k" and "sem_inv (wk_sem (wk_queues ws q)) k"
    and "sem_value (sems k (wk_sem (wk_queues ws q))) = 0" and "rt_scheduler_lock_nest k = 0" and "stat_of k c = RT_THREAD_READY"
  shows "\<exists>ws1. workqueue_fetch q ws = (Work w, ws1) \<and> workqueue_thread_step q Awake ws k = Some (Running (Work w), ws1, k) \<and> works_inv ws1 \<and> work_list ws1 q = rest \<and> wk_current (wk_queues ws1 q) = Some (Work w)
    \<and> (\<exists>ws2 k'. workqueue_done q ws1 k = Some (ws2, k') \<and> workqueue_thread_step q Returned ws1 k = Some (Loop_top, ws2, k') \<and> works_inv ws2 \<and> wk_current (wk_queues ws2 q) = None \<and> work_list ws2 = work_list ws1 \<and> sys_inv k'
        \<and> sem_value (sems k' (wk_sem (wk_queues ws q))) = 0 \<and> on_tlist k' (Sem_wait (wk_sem (wk_queues ws q))) = []
        \<and> (\<forall>t. if t \<in> set (on_tlist k (Sem_wait (wk_sem (wk_queues ws q))))
               then stat_of k' t = RT_THREAD_READY \<and> th_error (threads k' t) = th_error (threads k t) else threads k' t = threads k t))"
proof -
  let ?ws1 = "set_current q (Some (Work w)) (ws\<lparr>wk_lists := ls_remove w (wk_lists ws)\<rparr>)" and ?s = "wk_sem (wk_queues ws q)"
  let ?ws2 = "set_current q None ?ws1"
  have wf: "ls_wf (wk_lists ws)" using assms(1) by (simp add: works_inv_def)
  have nw: "w \<notin> set rest" "filter (\<lambda>x. x \<noteq> w) rest = rest" using ls_wf_distinct [OF wf, of q] assms(2) by (auto simp: filter_id_conv)
  have s: "wk_sem (wk_queues ?ws1 q) = ?s" "wk_sem (wk_queues ?ws2 q) = ?s" by (simp_all add: set_current_def)
  have l: "work_list ?ws1 q' = filter (\<lambda>x. x \<noteq> w) (work_list ws q')" "work_list ?ws2 q' = work_list ?ws1 q'" for q'
    using wf by (simp_all add: set_current_def ls_remove_on_list)
  have i: "works_inv ?ws1" "works_inv ?ws2" using assms(1) ls_remove_wf [OF wf] by (auto simp: works_inv_def set_current_def ls_remove_on_list [OF wf])
  have f: "workqueue_fetch q ws = (Work w, ?ws1)" "workqueue_thread_step q Awake ws k = Some (Running (Work w), ?ws1, k)"
    using assms(2) by (simp_all add: workqueue_thread_step_def workqueue_fetch_def)
  obtain k' where k': "workqueue_work_completion q ?ws2 k = Some (RT_EOK, k')" "sys_inv k'" "sem_value (sems k' ?s) = 0" "on_tlist k' (Sem_wait ?s) = []"
    "\<forall>t. if t \<in> set (on_tlist k (Sem_wait ?s)) then stat_of k' t = RT_THREAD_READY \<and> th_error (threads k' t) = th_error (threads k t) else threads k' t = threads k t"
    using work_completion_ok [of k ?ws2 q, unfolded s, OF assms(3-7)] by blast
  have d: "workqueue_done q ?ws1 k = Some (?ws2, k')" "workqueue_thread_step q Returned ?ws1 k = Some (Loop_top, ?ws2, k')"
    using k'(1) by (simp_all add: workqueue_thread_step_def workqueue_done_def Let_def)
  have "wk_current (wk_queues ?ws1 q) = Some (Work w)" "wk_current (wk_queues ?ws2 q) = None" by (simp_all add: set_current_def)
  with f d i l nw assms(2) k' show ?thesis by (intro exI [of _ ?ws1] exI [of _ ?ws2] exI [of _ k'] conjI) auto
qed


text \<open>\<^verbatim>\<open>rt_workqueue_cancel_work_sync\<close> takes a work that does not run off its list.  For the work that runs it waits, and whatever happens in between, as long as it waits it is made
  ready by the acknowledgement of the work.\<close>

theorem workqueue_cancel_sync_correct:
  assumes "works_inv ws" and "sys_inv k" and "sem_inv (wk_sem (wk_queues ws q)) k" and "sem_value (sems k (wk_sem (wk_queues ws q))) = 0"
    and "rt_current_thread k = Some t" and "stat_of k t = RT_THREAD_READY" and "rt_interrupt_nest k = 0" and "stat_of k u = RT_THREAD_READY" "u \<noteq> t"
  shows "(wk_current (wk_queues ws q) \<noteq> Some (Work work) \<longrightarrow> (\<exists>ws'. rt_workqueue_cancel_work_sync q work ws k = Some (Finished RT_EOK, ws', k) \<and> works_inv ws'
        \<and> wk_queues ws' = wk_queues ws \<and> (\<forall>q'. work_list ws' q' = filter (\<lambda>w. w \<noteq> work) (work_list ws q'))))
    \<and> (wk_current (wk_queues ws q) = Some (Work work) \<longrightarrow> (\<exists>k1. rt_workqueue_cancel_work_sync q work ws k = Some (Waiting t, ws, k1) \<and> sys_inv k1
        \<and> stat_of k1 t = RT_THREAD_SUSPEND \<and> t \<in> set (on_tlist k1 (Sem_wait (wk_sem (wk_queues ws q))))))
    \<and> (\<forall>k2 v. sys_inv k2 \<and> sem_inv (wk_sem (wk_queues ws q)) k2 \<and> sem_value (sems k2 (wk_sem (wk_queues ws q))) = 0 \<and> rt_scheduler_lock_nest k2 = 0
        \<and> stat_of k2 v = RT_THREAD_READY \<and> t \<in> set (on_tlist k2 (Sem_wait (wk_sem (wk_queues ws q)))) \<longrightarrow>
        (\<exists>ws' k3. workqueue_done q ws k2 = Some (ws', k3) \<and> wk_current (wk_queues ws' q) = None \<and> stat_of k3 t = RT_THREAD_READY))"
proof (intro conjI impI allI)
  assume "wk_current (wk_queues ws q) \<noteq> Some (Work work)"
  moreover have "works_inv (ws\<lparr>wk_lists := ls_remove work (wk_lists ws)\<rparr>)" "\<forall>q'. on_list (ls_remove work (wk_lists ws)) q' = filter (\<lambda>w. w \<noteq> work) (work_list ws q')"
    using assms(1) by (auto simp: works_inv_def ls_remove_wf ls_remove_on_list)
  ultimately show "\<exists>ws'. rt_workqueue_cancel_work_sync q work ws k = Some (Finished RT_EOK, ws', k) \<and> works_inv ws'
        \<and> wk_queues ws' = wk_queues ws \<and> (\<forall>q'. work_list ws' q' = filter (\<lambda>w. w \<noteq> work) (work_list ws q'))"
    by (simp add: rt_workqueue_cancel_work_sync_def)
next
  let ?s = "wk_sem (wk_queues ws q)" and ?f = "of_int RT_WAITING_FOREVER"
  assume c: "wk_current (wk_queues ws q) = Some (Work work)"
  have un: "\<not> sem_avail ?s k" using assms(4) by (simp add: sem_avail_def)
  have f: "?f \<noteq> (0 :: rt_uint32_t)" "?f \<noteq> (0x7fffffff :: rt_uint32_t)" by (simp_all add: rt_consts)
  obtain k1 where "rt_sem_take ?s ?f k = Some (Waiting t, k1)" "sys_inv k1" "stat_of k1 t = RT_THREAD_SUSPEND"
    "on_tlist k1 (Sem_wait ?s) = wait_order (obj_flag (objects k (Obj ?s))) k t (on_tlist k (Sem_wait ?s))"
    using sem_take_waits [OF assms(2,3) un assms(5-7) f assms(8,9)] by blast
  then show "\<exists>k1. rt_workqueue_cancel_work_sync q work ws k = Some (Waiting t, ws, k1) \<and> sys_inv k1
        \<and> stat_of k1 t = RT_THREAD_SUSPEND \<and> t \<in> set (on_tlist k1 (Sem_wait ?s))"
    using c by (simp add: rt_workqueue_cancel_work_sync_def wait_order_set)
next
  fix k2 v
  let ?s = "wk_sem (wk_queues ws q)" and ?ws = "set_current q None ws"
  assume a: "sys_inv k2 \<and> sem_inv ?s k2 \<and> sem_value (sems k2 ?s) = 0 \<and> rt_scheduler_lock_nest k2 = 0
        \<and> stat_of k2 v = RT_THREAD_READY \<and> t \<in> set (on_tlist k2 (Sem_wait ?s))"
  have s: "wk_sem (wk_queues ?ws q) = ?s" by (simp add: set_current_def)
  obtain k3 where "workqueue_work_completion q ?ws k2 = Some (RT_EOK, k3)" "stat_of k3 t = RT_THREAD_READY"
    using work_completion_ok [of k2 ?ws q v, unfolded s] a by metis
  then show "\<exists>ws' k3. workqueue_done q ws k2 = Some (ws', k3) \<and> wk_current (wk_queues ws' q) = None \<and> stat_of k3 t = RT_THREAD_READY"
    by (simp add: workqueue_done_def Let_def set_current_def)
qed

section \<open>Two races\<close>

text \<open>A resumed thread of no higher priority does not take the processor.\<close>

lemma resume_keeps_first:
  assumes "sys_inv k" and "first_ready k c" and "stat_of k t = RT_THREAD_SUSPEND" and "prio_of k c \<le> prio_of k t"
  obtains k' where "rt_thread_resume t k = Some (RT_EOK, k')" "sys_inv k'" "stat_of k' t = RT_THREAD_READY" "rt_current_thread k' = rt_current_thread k" "first_ready k' c"
proof -
  obtain k' where "rt_thread_resume t k = Some (RT_EOK, k')" "sys_inv k'" "threads k' = (threads k)(t := set_stat RT_THREAD_READY (threads k t))"
    "\<forall>q. on_tlist k' q = filter (\<lambda>u. u \<noteq> t) (on_tlist k q) @ (if q = Ready (prio_of k t) then [t] else [])" "rt_current_thread k' = rt_current_thread k"
    using sys_resume [OF assms(1,3)] by blast
  note r = this
  have m: "RT_THREAD_READY AND RT_THREAD_STAT_MASK = RT_THREAD_READY" by (simp add: rt_consts)
  note st = stat_after [OF r(3) m]
  have ct: "c \<noteq> t" using assms(2,3) by (auto simp: first_ready_def rt_consts)
  have "first_ready k' c" unfolding first_ready_def
  proof (intro conjI allI impI)
    show "\<exists>ts. on_tlist k' (Ready (prio_of k' c)) = c # ts" using assms(2) r(4) st(3) ct by (auto simp: first_ready_def)
    show "stat_of k' c = RT_THREAD_READY" using assms(2) st(2) [OF ct] by (simp add: first_ready_def)
    show "prio_of k' c \<le> prio_of k' v" if "stat_of k' v = RT_THREAD_READY" for v
      using assms(2,4) st(2) [of v] that by (cases "v = t") (simp_all add: st(3) first_ready_def)
  qed
  with that r st(1) show ?thesis by blast
qed

text \<open>The thread of an idle queue goes to sleep; it stands behind \<^verbatim>\<open>rt_schedule\<close> and will go on by taking a work.\<close>

lemma worker_sleeps:
  assumes "sys_inv k" and "rt_current_thread k = Some t" and "stat_of k t = RT_THREAD_READY" and "stat_of k u = RT_THREAD_READY" "u \<noteq> t"
  obtains k' where "workqueue_suspend k = Some k'" "sys_inv k'" "stat_of k' t = RT_THREAD_SUSPEND" "\<And>v. v \<noteq> t \<Longrightarrow> threads k' v = threads k v"
proof -
  obtain k1 where k1: "rt_thread_suspend t k = Some (RT_EOK, k1)" "sys_inv k1" "threads k1 = (threads k)(t := set_stat RT_THREAD_SUSPEND (threads k t))"
    using sys_suspend [OF assms(1,3)] by blast
  have m: "RT_THREAD_SUSPEND AND RT_THREAD_STAT_MASK = RT_THREAD_SUSPEND" by (simp add: rt_consts)
  have "stat_of k1 u = RT_THREAD_READY" using stat_after(2) [OF k1(3) m assms(5)] assms(4) by simp
  then obtain k2 where k2: "rt_schedule k1 = Some k2" "sys_inv k2" "threads k2 = threads k1" using sys_schedule [OF k1(2)] by blast
  have "workqueue_suspend k = Some k2" using assms(2) k1(1) k2(1) by (simp add: workqueue_suspend_def rt_thread_self_def)
  moreover have "stat_of k2 t = RT_THREAD_SUSPEND" using stat_after(1) [OF k1(3) m] k2(3) by (simp add: stat_of_def)
  ultimately show ?thesis using that k2(2,3) k1(3) by simp
qed

text \<open>C40: A work that is taken back before the thread of the queue has run.  The thread of an idle queue looks at its list, suspends itself, and stands behind \<^verbatim>\<open>rt_schedule\<close>.  Later
  \<^verbatim>\<open>rt_workqueue_dowork\<close> wakes it, a caller of no lower priority keeps the processor, and \<^verbatim>\<open>rt_workqueue_cancel_work\<close> takes the work off the list again and reports success.
  Whenever the thread runs after that, it does not go back to the look at the list but takes the head of the empty list for a work, marks it as the current one and calls
  what is no function.\<close>

theorem workqueue_cancel_race:
  assumes "works_inv ws" and "wk_current (wk_queues ws q) = None" and "work_list ws q = []" and "t = wk_thread (wk_queues ws q)"
    and "sys_inv k0" and "rt_current_thread k0 = Some t" and "stat_of k0 t = RT_THREAD_READY" and "stat_of k0 u = RT_THREAD_READY" "u \<noteq> t"
    and "sys_inv k" and "stat_of k t = RT_THREAD_SUSPEND" and "rt_current_thread k = Some c" and "first_ready k c" and "prio_of k c \<le> prio_of k t"
  shows "(\<exists>k1. workqueue_thread_step q Loop_top ws k0 = Some (Suspending, ws, k0) \<and> workqueue_thread_step q Suspending ws k0 = Some (Awake, ws, k1)
      \<and> sys_inv k1 \<and> stat_of k1 t = RT_THREAD_SUSPEND)
    \<and> (\<exists>ws1 k2 ws2. rt_workqueue_dowork q work ws k = Some (RT_EOK, ws1, k2) \<and> stat_of k2 t = RT_THREAD_READY \<and> rt_current_thread k2 = Some c
      \<and> rt_workqueue_cancel_work q work ws1 = (RT_EOK, ws2)
      \<and> (\<forall>k3. \<exists>ws3. workqueue_thread_step q Awake ws2 k3 = Some (Running Queue_head, ws3, k3) \<and> wk_current (wk_queues ws3 q) = Some Queue_head
           \<and> workqueue_thread_step q (Running Queue_head) ws3 k3 = None))"
proof
  obtain k1 where "workqueue_suspend k0 = Some k1" "sys_inv k1" "stat_of k1 t = RT_THREAD_SUSPEND" using worker_sleeps [OF assms(5-9)] by blast
  then show "\<exists>k1. workqueue_thread_step q Loop_top ws k0 = Some (Suspending, ws, k0) \<and> workqueue_thread_step q Suspending ws k0 = Some (Awake, ws, k1)
      \<and> sys_inv k1 \<and> stat_of k1 t = RT_THREAD_SUSPEND"
    using assms(3) by (simp add: workqueue_thread_step_def workqueue_idle_def)
next
  obtain ls where ls: "ls_append q work (ls_remove work (wk_lists ws)) = Some ls" "works_inv (ws\<lparr>wk_lists := ls\<rparr>)"
    "\<forall>q'. on_list ls q' = filter (\<lambda>w. w \<noteq> work) (work_list ws q') @ (if q' = q then [work] else [])"
    by (rule dowork_queued [OF assms(1), of q work]) (use assms(2) in simp)
  obtain k' where k': "rt_thread_resume t k = Some (RT_EOK, k')" "sys_inv k'" "stat_of k' t = RT_THREAD_READY"
    "rt_current_thread k' = rt_current_thread k" "first_ready k' c" by (rule resume_keeps_first [OF assms(10,13,11,14)])
  let ?ws2 = "ws\<lparr>wk_lists := ls_remove work ls\<rparr>"
  have "rt_schedule k' = Some k'" using schedule_settled [OF sys_invD(5) [OF k'(2)]] k'(4,5) assms(12) by simp
  then have "rt_workqueue_dowork q work ws k = Some (RT_EOK, ws\<lparr>wk_lists := ls\<rparr>, k')" using assms(2,4) ls(1) k'(1) by (simp add: rt_workqueue_dowork_def Let_def)
  moreover have "rt_workqueue_cancel_work q work (ws\<lparr>wk_lists := ls\<rparr>) = (RT_EOK, ?ws2)" using assms(2) by (simp add: rt_workqueue_cancel_work_def)
  moreover have "on_list (ls_remove work ls) q = []" using ls(2,3) assms(3) by (simp add: works_inv_def ls_remove_on_list)
  then have "workqueue_fetch q ?ws2 = (Queue_head, set_current q (Some Queue_head) ?ws2)" by (simp add: workqueue_fetch_def)
  then have "workqueue_thread_step q Awake ?ws2 k3 = Some (Running Queue_head, set_current q (Some Queue_head) ?ws2, k3)" for k3 by (simp add: workqueue_thread_step_def)
  moreover have "workqueue_thread_step q (Running Queue_head) ws3 k3 = None" for ws3 k3 by (simp add: workqueue_thread_step_def work_call_def)
  moreover have "wk_current (wk_queues (set_current q (Some Queue_head) ?ws2) q) = Some Queue_head" by (simp add: set_current_def)
  ultimately show "\<exists>ws1 k2 ws2. rt_workqueue_dowork q work ws k = Some (RT_EOK, ws1, k2) \<and> stat_of k2 t = RT_THREAD_READY \<and> rt_current_thread k2 = Some c
      \<and> rt_workqueue_cancel_work q work ws1 = (RT_EOK, ws2)
      \<and> (\<forall>k3. \<exists>ws3. workqueue_thread_step q Awake ws2 k3 = Some (Running Queue_head, ws3, k3) \<and> wk_current (wk_queues ws3 q) = Some Queue_head
           \<and> workqueue_thread_step q (Running Queue_head) ws3 k3 = None)"
    using k'(3,4) assms(12) by (intro exI [of _ "ws\<lparr>wk_lists := ls\<rparr>"] exI [of _ k'] exI [of _ ?ws2]) simp
qed

text \<open>A work that arrives between the look at the list and the suspension of the thread: an interrupt gives a work to an idle queue whose thread has just found the list empty; the thread is
  not suspended yet, so waking it has no effect, and then it suspends itself with the work on its list.\<close>

theorem workqueue_lost_wakeup:
  assumes "works_inv ws" and "sys_inv k" and "rt_current_thread k = Some (wk_thread (wk_queues ws q))" and "first_ready k (wk_thread (wk_queues ws q))"
    and "wk_current (wk_queues ws q) = None" and "work_list ws q = []" and "stat_of k u = RT_THREAD_READY" "u \<noteq> wk_thread (wk_queues ws q)"
  shows "workqueue_thread_step q Loop_top ws k = Some (Suspending, ws, k)
    \<and> (\<exists>ws' k1 k2. rt_workqueue_dowork q work ws (rt_interrupt_enter k) = Some (RT_EOK, ws', k1)
      \<and> workqueue_thread_step q Suspending ws' (rt_interrupt_leave k1) = Some (Awake, ws', k2)
      \<and> work_list ws' q = [work] \<and> stat_of k2 (wk_thread (wk_queues ws q)) = RT_THREAD_SUSPEND)"
proof
  show "workqueue_thread_step q Loop_top ws k = Some (Suspending, ws, k)" using assms(6) by (simp add: workqueue_thread_step_def workqueue_idle_def)
  let ?t = "wk_thread (wk_queues ws q)" and ?k = "rt_interrupt_enter k"
  obtain ls where ls: "ls_append q work (ls_remove work (wk_lists ws)) = Some ls"
    "\<forall>q'. on_list ls q' = filter (\<lambda>w. w \<noteq> work) (work_list ws q') @ (if q' = q then [work] else [])"
    by (rule dowork_queued [OF assms(1), of q work]) (use assms(5) in simp)
  have st: "stat_of k ?t = RT_THREAD_READY" using assms(4) by (simp add: first_ready_def)
  have v: "sched_view ?k = sched_view k" "rt_interrupt_leave ?k = k" "rt_current_thread ?k = rt_current_thread k"
    by (simp_all add: rt_interrupt_enter_def rt_interrupt_leave_def sched_view_def)
  have "first_ready ?k ?t" "stat_of ?k ?t = RT_THREAD_READY" "is_thread ?k ?t"
    using assms(4) st sys_inv_thread [OF assms(2) aliveI(1) [OF st]]
    by (simp_all add: rt_interrupt_enter_def first_ready_def on_tlist_def stat_of_def prio_of_def is_thread_def rt_object_get_type_def)
  then have "rt_thread_resume ?t ?k = Some (-RT_ERROR, ?k)" "rt_schedule ?k = Some ?k"
    using resume_not_suspended [of ?k ?t] schedule_settled [of ?k ?t] sched_view_inv [OF v(1)] sys_invD(5) [OF assms(2)] v(3) assms(3) by (simp_all add: rt_consts)
  then have d: "rt_workqueue_dowork q work ws ?k = Some (RT_EOK, ws\<lparr>wk_lists := ls\<rparr>, ?k)" using assms(5) ls(1) by (simp add: rt_workqueue_dowork_def Let_def)
  obtain k2 where "workqueue_suspend k = Some k2" "stat_of k2 ?t = RT_THREAD_SUSPEND" by (rule worker_sleeps [OF assms(2,3) st assms(7,8)])
  then show "\<exists>ws' k1 k2. rt_workqueue_dowork q work ws ?k = Some (RT_EOK, ws', k1) \<and> workqueue_thread_step q Suspending ws' (rt_interrupt_leave k1) = Some (Awake, ws', k2)
      \<and> work_list ws' q = [work] \<and> stat_of k2 ?t = RT_THREAD_SUSPEND"
    using d v(2) ls(2) assms(6) by (auto simp: workqueue_thread_step_def)
qed

section \<open>Samples\<close>

text \<open>A queue served by the thread \<open>t\<close>, with the works \<open>xs\<close> on its list and \<open>c\<close> running.\<close>

definition sample_works :: "tid \<Rightarrow> work_ref option \<Rightarrow> nat list \<Rightarrow> workqueues" where
  "sample_works t c xs =
     \<lparr>wk_works = (\<lambda>_. \<lparr>work_func = 0, work_data = 0\<rparr>), wk_queues = (\<lambda>_. \<lparr>wk_current = c, wk_sem = 5, wk_thread = t\<rparr>),
      wk_lists = \<lparr>on_list = (\<lambda>_. [])(0 := xs), home = (\<lambda>w. if w \<in> set xs then Some 0 else None)\<rparr>\<rparr>"

lemma sample_works_ok:
  "works_inv (sample_works t c xs) \<longleftrightarrow> distinct xs \<and> c \<notin> Some ` Work ` set xs"
  "wk_queues (sample_works t c xs) q = \<lparr>wk_current = c, wk_sem = 5, wk_thread = t\<rparr>" "work_list (sample_works t c xs) 0 = xs"
  by (auto simp: sample_works_def works_inv_def ls_wf_def)

lemma sample_sem_first: "first_ready sample_sem (Suc 0)"
proof -
  have "first_ready sample 1" using sample_settled sample_facts(7) by (auto simp: settled_def)
  then show ?thesis by (simp add: sample_sem_def first_ready_def on_tlist_def stat_of_def prio_of_def)
qed

lemma sample_sem_worker: "stat_of sample_sem 3 = RT_THREAD_SUSPEND" "prio_of sample_sem (Suc 0) = 10" "prio_of sample_sem 3 = 20"
  using sample_facts(4-6) by (simp_all add: sample_sem_def stat_of_def prio_of_def)

theorem workqueue_dowork_correct_witness:
  "\<exists>ws' k'. rt_workqueue_dowork 0 7 (sample_works 3 None []) sample_sem = Some (RT_EOK, ws', k') \<and> work_list ws' 0 = [7] \<and> stat_of k' 3 = RT_THREAD_READY"
  using workqueue_dowork_correct [of "sample_works 3 None []" sample_sem 1 0 7] sample_sem_ok sample_sem_first sample_sem_worker
  by (auto simp: sample_works_ok alive_def)

text \<open>With thread 1 waiting for the work that runs.\<close>

theorem workqueue_round_correct_witness:
  "\<exists>k ws1 ws2 k'. on_tlist k (Sem_wait 5) = [1] \<and> stat_of k 1 = RT_THREAD_SUSPEND \<and> workqueue_fetch 0 (sample_works 2 None [7, 8]) = (Work 7, ws1) \<and> work_list ws1 0 = [8]
    \<and> workqueue_done 0 ws1 k = Some (ws2, k') \<and> stat_of k' 1 = RT_THREAD_READY \<and> on_tlist k' (Sem_wait 5) = [] \<and> sem_value (sems k' 5) = 0"
proof -
  have un: "\<not> sem_avail 5 sample_sem" using sample_sem_ok(3) by (simp add: sem_avail_def)
  have t: "(10 :: rt_uint32_t) \<noteq> 0" "(10 :: rt_uint32_t) \<noteq> 0x7fffffff" "(2 :: tid) \<noteq> Suc 0" by simp_all
  obtain k where k: "sys_inv k" "sem_inv 5 k" "same_ipc sample_sem k" "on_tlist k (Sem_wait 5) = [1]" "stat_of k 1 = RT_THREAD_SUSPEND" "threads k 2 = threads sample_sem 2"
    using sem_take_waits [OF sample_sem_ok(1,2) un sample_sem_ok(5,6,8) t(1,2) sample_sem_ok(7) t(3)] sample_sem_ok(4,10) by (auto simp: wait_order_def)
  have f: "sem_value (sems k 5) = 0" "rt_scheduler_lock_nest k = 0" "stat_of k 2 = RT_THREAD_READY"
    using k(3,6) sample_sem_ok(3,7,9) by (simp_all add: same_ipc_def stat_of_def)
  from workqueue_round_correct [of "sample_works 2 None [7, 8]" 0 7 "[8]" k 2] k(1,2) f
  obtain ws1 ws2 k' where "workqueue_fetch 0 (sample_works 2 None [7, 8]) = (Work 7, ws1)" "work_list ws1 0 = [8]" "workqueue_done 0 ws1 k = Some (ws2, k')"
    "sem_value (sems k' 5) = 0" "on_tlist k' (Sem_wait 5) = []"
    "\<forall>t. if t \<in> set (on_tlist k (Sem_wait 5)) then stat_of k' t = RT_THREAD_READY \<and> th_error (threads k' t) = th_error (threads k t) else threads k' t = threads k t"
    by (auto simp: sample_works_ok)
  moreover from this(6) k(4) have "stat_of k' 1 = RT_THREAD_READY" by simp
  ultimately show ?thesis using k(4,5) by blast
qed

theorem workqueue_cancel_sync_correct_witness:
  "\<exists>k1. rt_workqueue_cancel_work_sync 0 7 (sample_works 2 (Some (Work 7)) []) sample_sem = Some (Waiting 1, sample_works 2 (Some (Work 7)) [], k1)
    \<and> stat_of k1 1 = RT_THREAD_SUSPEND"
  using workqueue_cancel_sync_correct [of "sample_works 2 (Some (Work 7)) []" sample_sem 0 1 2 7] sample_sem_ok by (auto simp: sample_works_ok)

theorem workqueue_cancel_race_witness:
  "\<exists>ws1 k2 ws2 ws3. rt_workqueue_dowork 0 7 (sample_works 3 None []) sample_sem = Some (RT_EOK, ws1, k2) \<and> rt_current_thread k2 = Some 1
    \<and> rt_workqueue_cancel_work 0 7 ws1 = (RT_EOK, ws2) \<and> workqueue_thread_step 0 Awake ws2 k2 = Some (Running Queue_head, ws3, k2)
    \<and> workqueue_thread_step 0 (Running Queue_head) ws3 k2 = None"
proof -
  have "\<exists>k0. sys_inv k0 \<and> rt_current_thread k0 = Some 3 \<and> stat_of k0 3 = RT_THREAD_READY \<and> stat_of k0 2 = RT_THREAD_READY"
  proof -
    have m: "RT_THREAD_READY AND RT_THREAD_STAT_MASK = RT_THREAD_READY" by (simp add: rt_consts)
    obtain k1 where k1: "sys_inv k1" "threads k1 = (threads sample_sem)(3 := set_stat RT_THREAD_READY (threads sample_sem 3))"
      using sys_resume [OF sample_sem_ok(1) sample_sem_worker(1)] by blast
    then have "stat_of k1 3 = RT_THREAD_READY" "stat_of k1 2 = RT_THREAD_READY" using stat_after [OF k1(2) m] sample_sem_ok(7) by simp_all
    then show ?thesis using sys_inv_run [OF k1(1), of 3] by (intro exI [of _ "k1\<lparr>rt_current_thread := Some 3\<rparr>"]) (simp add: stat_of_def)
  qed
  then obtain k0 where k0: "sys_inv k0" "rt_current_thread k0 = Some 3" "stat_of k0 3 = RT_THREAD_READY" "stat_of k0 2 = RT_THREAD_READY" by blast
  have c: "rt_current_thread sample_sem = Some (Suc 0)" "prio_of sample_sem (Suc 0) \<le> prio_of sample_sem 3" using sample_sem_ok(5) sample_sem_worker by simp_all
  have w: "works_inv (sample_works 3 None [])" "wk_current (wk_queues (sample_works 3 None []) 0) = None" "work_list (sample_works 3 None []) 0 = []"
    "3 = wk_thread (wk_queues (sample_works 3 None []) 0)" by (simp_all add: sample_works_ok)
  have t: "(2 :: tid) \<noteq> 3" by simp
  from workqueue_cancel_race [OF w k0 t sample_sem_ok(1) sample_sem_worker(1) c(1) sample_sem_first c(2), of 7] show ?thesis by (simp only: One_nat_def) blast
qed

theorem workqueue_lost_wakeup_witness:
  "\<exists>ws' k1 k2. rt_workqueue_dowork 0 7 (sample_works 1 None []) (rt_interrupt_enter sample_sem) = Some (RT_EOK, ws', k1)
    \<and> workqueue_thread_step 0 Suspending ws' (rt_interrupt_leave k1) = Some (Awake, ws', k2) \<and> work_list ws' 0 = [7] \<and> stat_of k2 1 = RT_THREAD_SUSPEND"
  using workqueue_lost_wakeup [of "sample_works 1 None []" sample_sem 0 2 7] sample_sem_ok sample_sem_first
  by (auto simp: sample_works_ok)

end
