(* ===== verification/Spec2Isabelle.thy ===== *)
theory Spec2Isabelle
  imports RT_Ringbuffer RT_Lifecycle RT_Sem RT_Mutex RT_Event RT_Mailbox RT_Mq RT_Mempool RT_Completion RT_Dataqueue RT_World RT_Realloc RT_Ringblk RT_Device RT_Workqueue
begin

text \<open>
  A verification of the RT-Thread kernel of the U2RX software development kit, the C code of
  \<^verbatim>\<open>src/kernel/src\<close> and \<^verbatim>\<open>src/kernel/utilities\<close>, in the configuration of
  \<^verbatim>\<open>src/out/rtconfig/rtconfig.h\<close>: one processor, 256 priorities, 100 ticks per second, a single timer row
  (\<^verbatim>\<open>RT_TIMER_SKIP_LIST_LEVEL\<close> is 1), names of 16 bytes, no signals, no modules, no hooks installed.

  \<^bold>\<open>The program.\<close>  The scheduler keeps the ready threads in one list per priority under a two-level bitmap and
  runs the first thread of the highest ready priority.  The hardware tick counts, runs down the time slice of the
  running thread and fires the timers that are due; the timer embedded in every thread ends its waits.
  Semaphores, mutexes, events, mailboxes and message queues suspend the calling thread on a list of their own, first come first
  served or by priority, and make it ready again when what it waits for is there, when its timer runs
  out or when the object is reset or deleted.  Memory pools, completions and data queues block their callers in the same way.
  Memory heaps hand out blocks of any size under a semaphore as lock.  Every object is registered by name and class.  Devices are found in the registry, wait queues and work queues
  connect their drivers with threads, and ring and block buffers hold the data in between.

  \<^bold>\<open>State.\<close>  The record \<open>kernel\<close> (theory \<open>RT_Kernel\<close>) holds the global variables of the kernel under
  their C names, and one total map per kind of structure, from handles to records with the fields of
  \<^verbatim>\<open>rtdef.h\<close>.  Integers are words of the width of the C type, so every wrap-around of the code is one of the
  model; error codes are \<open>int\<close>.  The intrusive lists are list stores, which hold for every list head the sequence of its
  nodes and for every node its list; theory \<open>RT_List\<close> has the pointer code of
  \<^verbatim>\<open>rtservice.h\<close> and proves that it refines the list store.  An operation is a function from kernel to kernel
  in the option type: \<^term>\<open>None\<close> is a failed \<^verbatim>\<open>RT_ASSERT\<close>, a null pointer that is followed, or a loop without end.
  Wait queues, work queues and devices are records beside the kernel; \<open>machine\<close> (theory \<open>RT_Device\<close>) is the kernel with the wait queues, the devices and the hardware of the drivers.
  The memory of the heaps is a record of its own, \<open>memory\<close>, with the block headers by address and the bytes apart from them.

  \<^bold>\<open>Blocking.\<close>  A service that gives up the processor is two definitions, the part up to the call of
  \<^verbatim>\<open>rt_schedule\<close> and the part behind it (suffix \<open>_back\<close>), which runs when the thread is the running one again;
  whatever other threads and the tick do comes in between, as a sequence of kernel operations.  Code between
  \<^verbatim>\<open>rt_hw_interrupt_disable\<close> and \<^verbatim>\<open>rt_hw_interrupt_enable\<close> is one step.  The services of message queues open the
  interrupts in their middle; there the steps are separate definitions and \<open>mq_step\<close> is their interleaving.

  \<^bold>\<open>Theories.\<close>

    \<^item> \<open>RT_Prelude\<close>: integer types, error codes, collections of rewrite rules, facts on words and options.
    \<^item> \<open>RT_List\<close> (\<^verbatim>\<open>include/rtservice.h\<close>): doubly linked lists; \<open>list_operations_refine\<close>.
    \<^item> \<open>RT_Kservice\<close> (\<^verbatim>\<open>src/kservice.c\<close>): find-first-set, which is the least set bit, and the bounded
      string copy and comparison of object names.
    \<^item> \<open>RT_Ring\<close>: arrays read around their end, and the locales \<open>sized_queue\<close> and \<open>bounded_queue\<close>, the contract of
      a bounded first-in first-out buffer; inside of them it is proved once that such a buffer answers every sequence of calls like the
      abstract queue and that no call of it fails.
    \<^item> \<open>RT_Ringbuffer\<close> (\<^verbatim>\<open>utilities/ringbuffer.c\<close>): the byte ring with mirror bits, an interpretation of
      \<open>bounded_queue\<close>; block reads and writes, and what a forced write loses.
    \<^item> \<open>RT_Kernel\<close> (\<^verbatim>\<open>include/rtdef.h\<close>): the state.
    \<^item> \<open>RT_Scheduler\<close> (\<^verbatim>\<open>src/scheduler.c\<close>, \<^verbatim>\<open>src/irq.c\<close>): bitmap, ready lists, choice of the next
      thread; \<open>sched_inv\<close> ties the bitmap, the ready lists and the thread states together, and the search of
      the bitmap finds the highest ready priority.
    \<^item> \<open>RT_Object\<close> (\<^verbatim>\<open>src/object.c\<close>): the registry; what is registered is found, and its lists stay consistent.
    \<^item> \<open>RT_Timer\<close>, \<open>RT_Timer_Run\<close> (\<^verbatim>\<open>src/timer.c\<close>): starting, stopping and firing timers; the list is sorted
      by the time left under wrap-around of the tick, a check fires exactly the expired timers and
      comes back.  The timeout functions of other timers are the parameter \<open>user\<close>; \<open>user_ok\<close> is the contract they have to keep (they may start, stop
      and change timers, but must leave no further timer due), \<open>periods_ok\<close> the one for periods.  \<open>timer_check_zero_period\<close> shows that the check never comes back from a timer with the
      period 0, which the code accepts.
    \<^item> \<open>RT_Thread\<close> (\<^verbatim>\<open>src/thread.c\<close>): suspend, resume, timeout, yield, change of priority.
    \<^item> \<open>RT_System\<close>: the invariant \<open>sys_inv\<close> of the running system (scheduler, timers, stacks, threads, no overdue timer)
      and the moves the blocking services are made of.
    \<^item> \<open>RT_Clock\<close> (\<^verbatim>\<open>src/clock.c\<close>, the sleeping services of \<^verbatim>\<open>src/thread.c\<close>, the timer thread): one tick, sequences of
      ticks, the end of every finite wait at its tick, round robin, conversions.
    \<^item> \<open>RT_Lifecycle\<close> (\<^verbatim>\<open>src/thread.c\<close>, \<^verbatim>\<open>src/idle.c\<close>, \<^verbatim>\<open>platform/cpu/armv6/stack.c\<close>): creation, start and end of threads, the first
      stack frame, the list of defunct threads and the idle thread that frees them, the start of the idle and the timer thread.  A started thread is where it belongs, a closed
      one is on no list, and creation, start, deletion and one run of the idle thread give back what was allocated, each block once.
    \<^item> \<open>RT_Ipc\<close> (\<^verbatim>\<open>src/ipc.c\<close>, common part): suspend lists, wake-up of the first and of all threads; the locale
      \<open>waiting\<close> is the contract of a list of waiting threads and of the condition they wait for, interpreted for semaphores, mutexes,
      both lists of a mailbox, message queues, completions and data queues.
    \<^item> \<open>RT_Sem\<close>, \<open>RT_Mutex\<close>, \<open>RT_Event\<close>, \<open>RT_Mailbox\<close>, \<open>RT_Mq\<close> (\<^verbatim>\<open>src/ipc.c\<close>): every operation of the five
      services, each on every branch, with the result a blocked caller gets for each way it is woken; mailboxes and message queues refine the
      queue locales.
    \<^item> \<open>RT_Mempool\<close> (\<^verbatim>\<open>src/mempool.c\<close>): pools of blocks of one size; every block is free or held by one caller, and a
      thread that waits for a block gets one when it is given back.
    \<^item> \<open>RT_Completion\<close>, \<open>RT_Dataqueue\<close> (\<^verbatim>\<open>utilities/completion.c\<close>, \<^verbatim>\<open>utilities/dataqueue.c\<close>): the flag one thread
      waits for, and the bounded queue of pointers with a low-water mark.
    \<^item> \<open>RT_Memheap\<close>, \<open>RT_Heap_Blocks\<close>, \<open>RT_Allocator\<close>, \<open>RT_Realloc\<close> (\<^verbatim>\<open>src/memheap.c\<close>): memory heaps.  \<open>RT_Memheap\<close> has the code, pointer by
      pointer, and the invariant of the ring of all blocks and the ring of the free ones; \<open>RT_Heap_Blocks\<close> shows that searching, splitting and merging keep it.
      \<open>RT_Allocator\<close> has the abstract view, \<open>holds m h S F\<close>: the blocks in use \<open>S\<close> and the free ones \<open>F\<close>, which are exactly the gaps between them; in it
      allocation, release, setting up and the hand-over of the lock are specified.  The locale \<open>allocator\<close> is the contract with a client that asks for and gives back blocks
      in any order, interpreted for memory heaps.  \<open>RT_Realloc\<close> changes the size of a block in place or moves it with its contents.
    \<^item> \<open>RT_Slist\<close> (\<^verbatim>\<open>include/rtservice.h\<close>): singly linked lists; \<open>slist_operations_refine\<close>.
    \<^item> \<open>RT_Ringblk\<close> (\<^verbatim>\<open>utilities/ringblk_buf.c\<close>): blocks of any size in a ring, given out in order.  Every operation on every branch, with the loops over the list proved to end; under any
      sequence of allocating, putting, getting and freeing the blocks lie in the buffer and are apart; where a new block is put is stated exactly.
    \<^item> \<open>RT_Waitqueue\<close> (\<^verbatim>\<open>utilities/waitqueue.c\<close>): waiting for an event of a device, and the wake-up that is remembered when nobody waits.
    \<^item> \<open>RT_Device\<close> (\<^verbatim>\<open>src/device.c\<close>): registration, opening, closing and the calls of the drivers, which are the parameter \<open>drv\<close>.  With a driver that works a device answers like a counter of
      its users, and the driver is initialised once, opened for every user and closed with the last one.
    \<^item> \<open>RT_Workqueue\<close> (\<^verbatim>\<open>utilities/workqueue.c\<close>): works run by a thread of their own, one after the other; acknowledging a work wakes everybody who waits for it.  The thread of the queue is a step function over the places of its loop
      (\<open>worker_pc\<close>, \<open>workqueue_thread_step\<close>), so that other threads come in between; two races with it are shown.
    \<^item> \<open>RT_Quiet\<close>: what a service leaves alone, the frame of every operation on the objects it is not called with.
    \<^item> \<open>RT_World\<close>: the composition.  A state is the kernel with the calls its threads are in; a step is a call of the running
      thread to a semaphore, mutex, event, mailbox or message queue or a yield, the return of a call that was blocked, or a tick, in any order.  \<open>system_invariant\<close> holds in every reachable state and
      \<open>type_safety\<close> says that a step of well-typed calls never ends in an assertion.

  \<^bold>\<open>Loops.\<close>  A loop over a list that is emptied is a \<^theory_text>\<open>partial_function (option)\<close> and is proved to come
  back (\<open>rt_ipc_list_resume_all\<close>, \<open>rt_defunct_execute\<close>, \<open>mq_flush\<close>,
  \<open>mp_resume_all\<close>, \<open>cp_resume_all\<close>, \<open>rt_list_len_from\<close>), and so are the search on the free list of a memory heap (\<open>memheap_search\<close>),
  the walks along singly linked lists (\<open>rt_slist_tail\<close>, \<open>slist_count\<close>, \<open>slist_before\<close>, \<open>blk_find_put\<close>, \<open>blk_queue_loop\<close>, \<open>blk_len_loop\<close>) and the loop that acknowledges a work (\<open>completion_loop\<close>).  The check of the timers runs
  foreign code that may start timers again; its loop has a number of rounds as argument.  The theorems ask
  for more rounds than there are expired timers, which is enough because no timer, periodic ones with a period that is not 0 included, fires twice at one tick
  (\<open>timer_check_terminates\<close>).

  \<^bold>\<open>Not modelled.\<close>  The SMP variants and signals are compiled out.  Hooks are not installed in this configuration.
  Context switches are the change of \<open>rt_current_thread\<close>; the assembly code below it is not modelled.  The system heap behind
  \<^verbatim>\<open>rt_malloc\<close> (the slab allocators; \<^verbatim>\<open>mem.c\<close> is compiled out) is not modelled; what it returns is an argument of the operations that allocate.  Cleanup functions of threads and idle hooks are parameters.  Pipes, which are reached through the file system, and the cache in front of block devices are not modelled.  Drivers, file systems, network
  stack, vendored libraries and the demonstration programs of the repository lie outside of the kernel.
\<close>

end
